(* ===== verification/Bash_Prelude.thy ===== *)
theory Bash_Prelude
  imports Main "HOL-Library.Word" "HOL-Library.Multiset"
begin

text \<open>
  Shared vocabulary of the development: the collections the component proofs draw on, C's
  fixed-width signed arithmetic on \<^typ>\<open>int\<close>, list lemmas, and the interfaces
  (locales) that the containers of the shell implement and their clients rely on.
\<close>

unbundle bit_operations_syntax

named_theorems wf_intros \<open>every operation keeps its component's well-formedness\<close>
named_theorems abs_simps \<open>what an operation does to the abstract value of its component\<close>

text \<open>
  C strings are lists of characters without the terminating NUL; a \<^verbatim>\<open>char *\<close> that may be
  \<^verbatim>\<open>NULL\<close> is an option.
\<close>

type_synonym cstring = string
type_synonym uint32 = "32 word"

text \<open>A C string holds no NUL byte.\<close>

definition NUL :: char where
  "NUL = CHR 0x00"

definition cstring_ok :: "cstring \<Rightarrow> bool" where
  "cstring_ok s \<longleftrightarrow> NUL \<notin> set s"

text \<open>Reading \<^verbatim>\<open>s[i]\<close> of a C string: the byte at the end is the terminator.\<close>

definition char_at :: "cstring \<Rightarrow> nat \<Rightarrow> char" where
  "char_at s i = (if i < length s then s ! i else NUL)"

text \<open>Testing a mask in a word of flags, \<^verbatim>\<open>(flags & mask) != 0\<close>.\<close>

definition has_flag :: "int \<Rightarrow> int \<Rightarrow> bool" where
  "has_flag flags m \<longleftrightarrow> flags AND m \<noteq> 0"

text \<open>
  Character classes of the C locale (\<^verbatim>\<open>include/chartypes.h\<close> over \<^verbatim>\<open>ctype.h\<close>), on the code of an
  unsigned character.
\<close>

abbreviation code :: "char \<Rightarrow> nat" where
  "code c \<equiv> of_char c"

definition ISDIGIT :: "char \<Rightarrow> bool" where
  "ISDIGIT c \<longleftrightarrow> 48 \<le> code c \<and> code c \<le> 57"

definition ISLOWER :: "char \<Rightarrow> bool" where
  "ISLOWER c \<longleftrightarrow> 97 \<le> code c \<and> code c \<le> 122"

definition ISUPPER :: "char \<Rightarrow> bool" where
  "ISUPPER c \<longleftrightarrow> 65 \<le> code c \<and> code c \<le> 90"

definition ISALPHA :: "char \<Rightarrow> bool" where
  "ISALPHA c \<longleftrightarrow> ISLOWER c \<or> ISUPPER c"

definition ISALNUM :: "char \<Rightarrow> bool" where
  "ISALNUM c \<longleftrightarrow> ISALPHA c \<or> ISDIGIT c"

definition ISPRINT :: "char \<Rightarrow> bool" where
  "ISPRINT c \<longleftrightarrow> 32 \<le> code c \<and> code c \<le> 126"

definition ISASCII :: "char \<Rightarrow> bool" where "ISASCII c \<longleftrightarrow> code c \<le> 127"
definition ISBLANK :: "char \<Rightarrow> bool" where "ISBLANK c \<longleftrightarrow> c = CHR '' '' \<or> c = CHR 0x09"
definition ISCNTRL :: "char \<Rightarrow> bool" where "ISCNTRL c \<longleftrightarrow> code c < 32 \<or> code c = 127"
definition ISGRAPH :: "char \<Rightarrow> bool" where "ISGRAPH c \<longleftrightarrow> 33 \<le> code c \<and> code c \<le> 126"
definition ISPUNCT :: "char \<Rightarrow> bool" where "ISPUNCT c \<longleftrightarrow> ISGRAPH c \<and> \<not> ISALNUM c"
definition ISSPACE :: "char \<Rightarrow> bool" where
  "ISSPACE c \<longleftrightarrow> c = CHR '' '' \<or> 9 \<le> code c \<and> code c \<le> 13"

definition ISXDIGIT :: "char \<Rightarrow> bool" where
  "ISXDIGIT c \<longleftrightarrow> ISDIGIT c \<or> (97 \<le> code c \<and> code c \<le> 102) \<or> (65 \<le> code c \<and> code c \<le> 70)"

definition ISOCTAL :: "char \<Rightarrow> bool" where
  "ISOCTAL c \<longleftrightarrow> 48 \<le> code c \<and> code c \<le> 55"

definition HEXVALUE :: "char \<Rightarrow> nat" where
  "HEXVALUE c = (if 97 \<le> code c \<and> code c \<le> 102 then code c - 97 + 10
     else if 65 \<le> code c \<and> code c \<le> 70 then code c - 65 + 10 else code c - 48)"

definition TOCHAR :: "nat \<Rightarrow> char" where
  "TOCHAR n = char_of (n + 48)"

definition TOUPPER :: "char \<Rightarrow> char" where
  "TOUPPER c = (if ISLOWER c then char_of (code c - 32) else c)"

definition TOLOWER :: "char \<Rightarrow> char" where
  "TOLOWER c = (if ISUPPER c then char_of (code c + 32) else c)"

definition TOCTRL :: "char \<Rightarrow> char" where
  "TOCTRL c = (if c = CHR ''?'' then CHR 0x7F else char_of (code (TOUPPER c) mod 32))"

abbreviation BSLASH :: char where "BSLASH \<equiv> CHR 0x5C"
abbreviation SQUOTE :: char where "SQUOTE \<equiv> CHR 0x27"
abbreviation DQUOTE :: char where "DQUOTE \<equiv> CHR 0x22"
abbreviation NEWLINE :: char where "NEWLINE \<equiv> CHR 0x0A"
abbreviation TAB :: char where "TAB \<equiv> CHR 0x09"
abbreviation CTLESC :: char where "CTLESC \<equiv> CHR 0x01"
abbreviation CTLNUL :: char where "CTLNUL \<equiv> CHR 0x7F"

definition whitespace :: "char \<Rightarrow> bool" where
  "whitespace c \<longleftrightarrow> c = CHR '' '' \<or> c = TAB"

definition legal_variable_starter :: "char \<Rightarrow> bool" where
  "legal_variable_starter c \<longleftrightarrow> ISALPHA c \<or> c = CHR ''_''"

definition legal_variable_char :: "char \<Rightarrow> bool" where
  "legal_variable_char c \<longleftrightarrow> ISALNUM c \<or> c = CHR ''_''"

lemma code_less [simp]: "code c < 256"
  by (metis char_of_char mod_less_divisor of_char_of zero_less_numeral)

lemma code_char_of [simp]: "n < 256 \<Longrightarrow> code (char_of n) = n"
  by simp

lemma char_eq_iff_code: "c = d \<longleftrightarrow> code c = code d"
  using of_char_eq_iff [of c d, where ?'a = nat] by simp

lemma code_TOCHAR [simp]: "n < 208 \<Longrightarrow> code (TOCHAR n) = n + 48"
  by (simp add: TOCHAR_def)

lemma code_eq_0: "code c = 0 \<longleftrightarrow> c = NUL"
  using char_eq_iff_code [of c NUL] by (simp add: NUL_def)

text \<open>The C library's comparison of strings, by the codes of the first bytes that differ.\<close>

fun strcmp :: "cstring \<Rightarrow> cstring \<Rightarrow> int" where
  "strcmp [] [] = 0"
| "strcmp [] (c # s) = - int (code c)"
| "strcmp (c # s) [] = int (code c)"
| "strcmp (c # s) (d # t) = (if c = d then strcmp s t else int (code c) - int (code d))"

lemma strcmp_eq0: "cstring_ok s \<Longrightarrow> cstring_ok t \<Longrightarrow> strcmp s t = 0 \<longleftrightarrow> s = t"
  by (induction s t rule: strcmp.induct) (auto simp: cstring_ok_def code_eq_0)

text \<open>
  Reading a string from a position on: positions into a string are followed by rewriting the rest
  of the string from there.
\<close>

lemma char_at_drop: "char_at s i = (case drop i s of [] \<Rightarrow> NUL | c # r \<Rightarrow> c)"
  by (cases "i < length s") (auto simp: char_at_def Cons_nth_drop_Suc [symmetric])

lemma char_at_not_NUL: "char_at s i \<noteq> NUL \<Longrightarrow> i < length s"
  by (auto simp: char_at_def split: if_splits)

lemma char_at_ok: "cstring_ok s \<Longrightarrow> char_at s i = NUL \<longleftrightarrow> length s \<le> i"
  by (auto simp: char_at_def cstring_ok_def dest: nth_mem)

lemma drop_Suc_tl: "drop (Suc i) s = tl (drop i s)"
  by (simp add: drop_Suc drop_tl)

lemma drop_after: "drop i ex = a @ r \<Longrightarrow> drop (i + length a) ex = r"
  by (metis add.commute append_eq_conv_conj drop_drop)

lemma drop_plus: "drop (i + k) s = drop k (drop i s)"
  by (simp add: add.commute)


section \<open>Signed integers of a fixed width\<close>

text \<open>
  Two's complement reduction of a mathematical integer to \<^verbatim>\<open>int\<close> (32 bits) and to
  \<^verbatim>\<open>intmax_t\<close> (64 bits).
\<close>

definition wrap32 :: "int \<Rightarrow> int" where
  "wrap32 x = (x + 2 ^ 31) mod 2 ^ 32 - 2 ^ 31"

definition wrap64 :: "int \<Rightarrow> int" where
  "wrap64 x = (x + 2 ^ 63) mod 2 ^ 64 - 2 ^ 63"

definition INT_MAX :: int where "INT_MAX = 2 ^ 31 - 1"
definition INTMAX_MAX :: int where "INTMAX_MAX = 2 ^ 63 - 1"
definition INTMAX_MIN :: int where "INTMAX_MIN = - (2 ^ 63)"

definition in_int32 :: "int \<Rightarrow> bool" where
  "in_int32 x \<longleftrightarrow> - (2 ^ 31) \<le> x \<and> x < 2 ^ 31"

definition in_int64 :: "int \<Rightarrow> bool" where
  "in_int64 x \<longleftrightarrow> - (2 ^ 63) \<le> x \<and> x < 2 ^ 63"

lemma wrap32_id [simp]: "in_int32 x \<Longrightarrow> wrap32 x = x"
  by (simp add: wrap32_def in_int32_def)

lemma wrap64_id [simp]: "in_int64 x \<Longrightarrow> wrap64 x = x"
  by (simp add: wrap64_def in_int64_def)

lemma wrap32_range [simp]: "in_int32 (wrap32 x)"
  by (simp add: wrap32_def in_int32_def)

lemma wrap64_range [simp]: "in_int64 (wrap64 x)"
  by (simp add: wrap64_def in_int64_def)

lemma wrap64_cong: "wrap64 x = wrap64 y \<longleftrightarrow> x mod 2 ^ 64 = y mod 2 ^ 64"
proof -
  have "wrap64 x = wrap64 y \<longleftrightarrow> (x + 2 ^ 63) mod 2 ^ 64 = (y + 2 ^ 63) mod 2 ^ 64"
    by (simp add: wrap64_def)
  also have "\<dots> \<longleftrightarrow> x mod 2 ^ 64 = y mod 2 ^ 64"
    by (simp add: mod_eq_dvd_iff)
  finally show ?thesis .
qed

lemma wrap64_mod [simp]: "wrap64 x mod 2 ^ 64 = x mod 2 ^ 64"
  using wrap64_cong [of "wrap64 x" x] by simp

text \<open>Wrapping at each step of a ring computation is wrapping once at its end.\<close>

lemma wrap64_add: "wrap64 (wrap64 x + wrap64 y) = wrap64 (x + y)"
  by (subst wrap64_cong) (metis mod_add_eq wrap64_mod)

lemma wrap64_mult: "wrap64 (wrap64 x * wrap64 y) = wrap64 (x * y)"
  by (subst wrap64_cong) (metis mod_mult_eq wrap64_mod)

lemma wrap64_mult_left: "wrap64 (wrap64 x * y) = wrap64 (x * y)"
  by (subst wrap64_cong) (metis mod_mult_left_eq wrap64_mod)

lemma wrap64_mult_right: "wrap64 (x * wrap64 y) = wrap64 (x * y)"
  by (subst wrap64_cong) (metis mod_mult_right_eq wrap64_mod)


text \<open>C's division truncates towards zero and the remainder has the sign of the dividend.\<close>

definition cquot :: "int \<Rightarrow> int \<Rightarrow> int" where
  "cquot a b = sgn a * sgn b * (\<bar>a\<bar> div \<bar>b\<bar>)"

definition crem :: "int \<Rightarrow> int \<Rightarrow> int" where
  "crem a b = a - cquot a b * b"

lemma cquot_nonneg [simp]: "0 \<le> a \<Longrightarrow> 0 < b \<Longrightarrow> cquot a b = a div b"
  by (cases "a = 0") (simp_all add: cquot_def sgn_if)

lemma crem_nonneg [simp]: "0 \<le> a \<Longrightarrow> 0 < b \<Longrightarrow> crem a b = a mod b"
  by (simp add: crem_def minus_div_mult_eq_mod)

lemma cquot_crem: "cquot a b * b + crem a b = a"
  by (simp add: crem_def)

lemma crem_abs: "crem a b = sgn a * (\<bar>a\<bar> mod \<bar>b\<bar>)"
proof -
  have "sgn b * b = \<bar>b\<bar>" by (simp add: abs_sgn)
  then have "cquot a b * b = sgn a * (\<bar>a\<bar> div \<bar>b\<bar> * \<bar>b\<bar>)"
    by (simp add: cquot_def mult_ac)
  moreover have "a = sgn a * \<bar>a\<bar>" by (simp add: sgn_mult_abs)
  ultimately show ?thesis
    by (metis crem_def minus_div_mult_eq_mod right_diff_distrib')
qed

text \<open>The remainder is smaller than the divisor.\<close>

lemma crem_less: "b \<noteq> 0 \<Longrightarrow> \<bar>crem a b\<bar> < \<bar>b\<bar>"
  by (simp add: crem_abs abs_mult abs_sgn_eq)

lemma unat_word_of_int_32: "0 \<le> m \<Longrightarrow> m < 2 ^ 32 \<Longrightarrow> unat (word_of_int m :: 32 word) = nat m"
  by (simp add: unsigned_of_int take_bit_int_eq_self)


section \<open>Lists and association lists\<close>

lemma map_of_distinct_iff:
  "distinct (map fst xs) \<Longrightarrow> map_of xs k = Some v \<longleftrightarrow> (k, v) \<in> set xs"
  by (rule map_of_eq_Some_iff)

lemma map_of_mset_cong:
  assumes "mset xs = mset ys" and "distinct (map fst xs)"
  shows "map_of xs = map_of ys"
proof
  fix k
  have "distinct (map fst ys)"
    using assms by (metis mset_eq_imp_distinct_iff mset_map)
  moreover have "set xs = set ys"
    using assms(1) by (metis set_mset_mset)
  ultimately show "map_of xs k = map_of ys k"
    using assms(2) by (metis map_of_inject_set)
qed

lemma concat_list_update:
  "i < length xss \<Longrightarrow>
   concat (xss[i := ys]) = concat (take i xss) @ ys @ concat (drop (Suc i) xss)"
  by (simp add: upd_conv_take_nth_drop)

lemma concat_split_nth:
  "i < length xss \<Longrightarrow>
   concat xss = concat (take i xss) @ xss ! i @ concat (drop (Suc i) xss)"
  by (metis append_take_drop_id Cons_nth_drop_Suc concat.simps(2) concat_append)


lemma list_update_append_mid:
  "p < length ys \<Longrightarrow> xs @ ys[p := x] @ zs = (xs @ ys @ zs)[length xs + p := x]"
  by (simp add: list_update_append)

lemma concat_update_nested:
  assumes "i < length xss" and "p < length (xss ! i)"
  shows "concat (xss[i := (xss ! i)[p := x]])
       = (concat xss)[length (concat (take i xss)) + p := x]"
  using assms by (simp add: concat_list_update concat_split_nth [of i xss] list_update_append_mid)

lemma nth_concat_nested:
  assumes "i < length xss" and "p < length (xss ! i)"
  shows "concat xss ! (length (concat (take i xss)) + p) = xss ! i ! p"
  using assms by (subst concat_split_nth [of i xss]) (simp_all add: nth_append)

lemma length_concat_nested:
  assumes "i < length xss" and "p < length (xss ! i)"
  shows "length (concat (take i xss)) + p < length (concat xss)"
  using assms arg_cong [OF concat_split_nth [OF assms(1)], of length] by simp

lemma map_of_update_nth:
  assumes "distinct (map fst xs)" and "q < length xs" and "fst (xs ! q) = k"
  shows "map_of (xs[q := (k, v)]) = (map_of xs)(k \<mapsto> v)"
  using assms
proof (induction xs arbitrary: q)
  case Nil
  then show ?case by simp
next
  case (Cons x xs)
  show ?case
  proof (cases q)
    case 0
    with Cons.prems show ?thesis by (cases x) auto
  next
    case (Suc q')
    with Cons.prems have q': "q' < length xs" "fst (xs ! q') = k" by auto
    then have "k \<in> fst ` set xs" by (metis image_eqI nth_mem)
    with Cons.prems(1) have "fst x \<noteq> k" by auto
    with Suc Cons q' show ?thesis by (cases x) (auto simp: fun_eq_iff)
  qed
qed

lemma map_of_delete_mid:
  assumes "distinct (map fst (xs @ x # ys))"
  shows "map_of (xs @ ys) = (map_of (xs @ x # ys))(fst x := None)"
proof
  fix k
  show "map_of (xs @ ys) k = ((map_of (xs @ x # ys))(fst x := None)) k"
  proof (cases "k = fst x")
    case True
    then have "k \<notin> fst ` set (xs @ ys)" using assms by auto
    then have "map_of (xs @ ys) k = None" by (auto simp: map_of_eq_None_iff image_Un)
    with True show ?thesis by simp
  next
    case False
    then show ?thesis by (cases x) (simp add: map_add_def split: option.split)
  qed
qed


section \<open>The contract of a keyed store\<close>

text \<open>
  The shell keeps most of its state in keyed containers: hash tables, associative and indexed
  arrays, the alias table, the table of hashed commands. They share one contract. A store has
  an invariant, an abstraction to a finite map, and operations to store and to delete a key;
  \<open>ok\<close> tells which keys the store accepts.
\<close>

locale keyed_store =
  fixes ok :: "'k \<Rightarrow> bool"
    and inv :: "'s \<Rightarrow> bool"
    and look :: "'s \<Rightarrow> 'k \<Rightarrow> 'v option"
    and put :: "'k \<Rightarrow> 'v \<Rightarrow> 's \<Rightarrow> 's"
    and del :: "'k \<Rightarrow> 's \<Rightarrow> 's"
  assumes inv_put: "inv s \<Longrightarrow> ok k \<Longrightarrow> inv (put k v s)"
    and inv_del: "inv s \<Longrightarrow> inv (del k s)"
    and look_put: "inv s \<Longrightarrow> ok k \<Longrightarrow> look (put k v s) = (look s)(k \<mapsto> v)"
    and look_del: "inv s \<Longrightarrow> look (del k s) = (look s)(k := None)"
begin

lemmas store_laws = inv_put inv_del look_put look_del

lemma look_put_same: "inv s \<Longrightarrow> ok k \<Longrightarrow> look (put k v s) k = Some v"
  by (simp add: look_put)

lemma look_put_other: "inv s \<Longrightarrow> ok k \<Longrightarrow> k' \<noteq> k \<Longrightarrow> look (put k v s) k' = look s k'"
  by (simp add: look_put)

lemma look_put_put: "inv s \<Longrightarrow> ok k \<Longrightarrow> look (put k w (put k v s)) = look (put k w s)"
  by (simp add: store_laws)

lemma look_put_commute:
  "inv s \<Longrightarrow> ok k \<Longrightarrow> ok k' \<Longrightarrow> k \<noteq> k' \<Longrightarrow>
   look (put k v (put k' w s)) = look (put k' w (put k v s))"
  by (simp add: store_laws fun_upd_twist)

lemma look_del_put: "inv s \<Longrightarrow> ok k \<Longrightarrow> look s k = None \<Longrightarrow> look (del k (put k v s)) = look s"
  by (auto simp: store_laws)

lemma look_put_del: "inv s \<Longrightarrow> ok k \<Longrightarrow> look (put k v (del k s)) = look (put k v s)"
  by (simp add: store_laws)

lemma inv_put_all:
  "inv s \<Longrightarrow> \<forall>kv \<in> set kvs. ok (fst kv) \<Longrightarrow> inv (fold (\<lambda>(k, v). put k v) kvs s)"
  by (induction kvs arbitrary: s) (auto simp: inv_put)

text \<open>Storing a list of bindings one after the other: the last one for a key wins.\<close>

lemma look_put_all:
  "inv s \<Longrightarrow> \<forall>kv \<in> set kvs. ok (fst kv) \<Longrightarrow>
   look (fold (\<lambda>(k, v). put k v) kvs s) = look s ++ map_of (rev kvs)"
  by (induction kvs arbitrary: s) (auto simp: store_laws)

lemma inv_del_all: "inv s \<Longrightarrow> inv (fold del ks s)"
  by (induction ks arbitrary: s) (auto simp: inv_del)

lemma look_del_all: "inv s \<Longrightarrow> look (fold del ks s) = (look s) |` (- set ks)"
  by (induction ks arbitrary: s) (auto simp: store_laws restrict_map_def)

end

text \<open>
  A store whose read operation changes the representation (a hit counter, a roving pointer)
  but not what is stored.
\<close>

locale fetching_store = keyed_store +
  fixes fetch :: "'k \<Rightarrow> 's \<Rightarrow> 'v option \<times> 's"
  assumes fetch_value: "inv s \<Longrightarrow> fst (fetch k s) = look s k"
    and look_fetch: "inv s \<Longrightarrow> look (snd (fetch k s)) = look s"
    and inv_fetch: "inv s \<Longrightarrow> inv (snd (fetch k s))"
begin

lemma fetch_put: "inv s \<Longrightarrow> ok k \<Longrightarrow> fst (fetch k (put k v s)) = Some v"
  by (simp add: fetch_value store_laws)

lemma fetch_put_other:
  "inv s \<Longrightarrow> ok k \<Longrightarrow> k' \<noteq> k \<Longrightarrow> fst (fetch k' (put k v s)) = fst (fetch k' s)"
  by (simp add: fetch_value store_laws)

lemma fetch_del: "inv s \<Longrightarrow> fst (fetch k (del k s)) = None"
  by (simp add: fetch_value store_laws)

lemma fetch_many:
  "inv s \<Longrightarrow> inv (fold (\<lambda>k s. snd (fetch k s)) ks s)
           \<and> look (fold (\<lambda>k s. snd (fetch k s)) ks s) = look s"
  by (induction ks arbitrary: s) (auto simp: inv_fetch look_fetch)

text \<open>Reads in between do not change what a later read returns.\<close>

lemma fetch_after_many:
  "inv s \<Longrightarrow> fst (fetch k (fold (\<lambda>k s. snd (fetch k s)) ks s)) = fst (fetch k s)"
  using fetch_many [of s ks] by (simp add: fetch_value)

end

text \<open>A store that knows how many keys it holds.\<close>

locale counted_store = keyed_store +
  fixes count :: "'s \<Rightarrow> int"
  assumes finite_look: "inv s \<Longrightarrow> finite (dom (look s))"
    and count_card: "inv s \<Longrightarrow> count s = int (card (dom (look s)))"
begin

lemma count_nonneg: "inv s \<Longrightarrow> 0 \<le> count s"
  by (simp add: count_card)

lemma count_zero_iff: "inv s \<Longrightarrow> count s = 0 \<longleftrightarrow> look s = Map.empty"
  by (simp add: count_card finite_look)

lemma count_put:
  "inv s \<Longrightarrow> ok k \<Longrightarrow> count (put k v s) = (if look s k = None then count s + 1 else count s)"
  by (auto simp: count_card store_laws finite_look card_insert_if)

lemma count_del:
  "inv s \<Longrightarrow> count (del k s) = (if look s k = None then count s else count s - 1)"
proof -
  assume "inv s"
  then have "count (del k s) = int (card (dom (look s) - {k}))"
    by (simp add: count_card store_laws)
  moreover have "card (dom (look s)) > 0" if "look s k \<noteq> None"
    using that finite_look [OF \<open>inv s\<close>] by (auto simp: card_gt_0_iff)
  ultimately show ?thesis
    using \<open>inv s\<close> by (cases "look s k") (auto simp: count_card finite_look card_Diff_singleton_if)
qed

end

text \<open>
  A store that can be enumerated: the list of its entries, in the order a walk visits them, has
  each key once. The number of entries is then the number of keys, so such a store is counted.
\<close>

locale listed_store = keyed_store +
  fixes count :: "'s \<Rightarrow> int"
    and entries :: "'s \<Rightarrow> ('k \<times> 'v) list"
  assumes entries_look: "inv s \<Longrightarrow> map_of (entries s) = look s"
    and entries_distinct: "inv s \<Longrightarrow> distinct (map fst (entries s))"
    and count_entries: "inv s \<Longrightarrow> count s = int (length (entries s))"
begin

lemma entries_iff: "inv s \<Longrightarrow> (k, v) \<in> set (entries s) \<longleftrightarrow> look s k = Some v"
  by (simp add: entries_look [symmetric] map_of_distinct_iff entries_distinct)

lemma entries_keys: "inv s \<Longrightarrow> set (map fst (entries s)) = dom (look s)"
  by (metis dom_map_of_conv_image_fst entries_look set_map)

text \<open>Storing all entries of one store into another that is empty copies it.\<close>

lemma put_entries:
  "inv s \<Longrightarrow> inv t \<Longrightarrow> look t = Map.empty \<Longrightarrow> \<forall>k \<in> dom (look s). ok k \<Longrightarrow>
   look (fold (\<lambda>(k, v). put k v) (entries s) t) = look s"
proof -
  assume s: "inv s" and t: "inv t" "look t = Map.empty" and ok: "\<forall>k \<in> dom (look s). ok k"
  have "\<forall>kv \<in> set (entries s). ok (fst kv)"
    using ok entries_iff [OF s] by auto
  then have "look (fold (\<lambda>(k, v). put k v) (entries s) t) = map_of (rev (entries s))"
    using t by (simp add: look_put_all)
  also have "\<dots> = look s"
    using map_of_mset_cong [of "rev (entries s)" "entries s"] entries_distinct [OF s]
    by (simp add: rev_map [symmetric] entries_look s)
  finally show ?thesis .
qed

end

sublocale listed_store \<subseteq> counted_store
proof
  fix s
  assume s: "inv s"
  then show "finite (dom (look s))"
    by (metis entries_look finite_dom_map_of)
  show "count s = int (card (dom (look s)))"
    by (metis s count_entries distinct_card entries_distinct entries_keys length_map)
qed


section \<open>Sorting with the C library\<close>

text \<open>The C library's \<^verbatim>\<open>qsort\<close>, as far as its result is determined: a sorted permutation.\<close>

fun insert_by :: "('a \<Rightarrow> 'a \<Rightarrow> int) \<Rightarrow> 'a \<Rightarrow> 'a list \<Rightarrow> 'a list" where
  "insert_by cmp x [] = [x]"
| "insert_by cmp x (y # ys) = (if cmp x y \<le> 0 then x # y # ys else y # insert_by cmp x ys)"

fun qsort_by :: "('a \<Rightarrow> 'a \<Rightarrow> int) \<Rightarrow> 'a list \<Rightarrow> 'a list" where
  "qsort_by cmp [] = []"
| "qsort_by cmp (x # xs) = insert_by cmp x (qsort_by cmp xs)"

lemma strcmp_swap: "strcmp s t = - strcmp t s"
  by (induction s t rule: strcmp.induct) auto

lemma strcmp_trans:
  "cstring_ok s \<Longrightarrow> cstring_ok t \<Longrightarrow> cstring_ok u \<Longrightarrow> strcmp s t \<le> 0 \<Longrightarrow> strcmp t u \<le> 0 \<Longrightarrow> strcmp s u \<le> 0"
proof (induction s t arbitrary: u rule: strcmp.induct)
  case (1 u)
  then show ?case by simp
next
  case (2 c s u)
  then show ?case by (cases u) auto
next
  case (3 c s u)
  then have "code c = 0" by simp
  with 3 show ?case by (simp add: cstring_ok_def code_eq_0)
next
  case (4 c s d t u)
  then show ?case
    by (cases u) (auto simp: cstring_ok_def code_eq_0 split: if_splits)
qed

lemma mset_qsort [simp]: "mset (qsort_by cmp xs) = mset xs"
proof -
  have "mset (insert_by cmp x ys) = add_mset x (mset ys)" for x ys
    by (induction ys) auto
  then show ?thesis by (induction xs) auto
qed

lemma sorted_insert_by:
  assumes trans: "\<And>x y z. x \<in> S \<Longrightarrow> y \<in> S \<Longrightarrow> z \<in> S \<Longrightarrow> cmp x y \<le> 0 \<Longrightarrow> cmp y z \<le> 0 \<Longrightarrow> cmp x z \<le> (0::int)"
    and total: "\<And>x y. cmp x y = - cmp y x" and "x \<in> S" and "set ys \<subseteq> S"
    and "sorted_wrt (\<lambda>a b. cmp a b \<le> 0) ys"
  shows "sorted_wrt (\<lambda>a b. cmp a b \<le> 0) (insert_by cmp x ys)"
  using assms(4,5)
proof (induction ys)
  case (Cons y ys)
  have set: "set (insert_by cmp x ys) = insert x (set ys)"
    by (induction ys) auto
  show ?case
  proof (cases "cmp x y \<le> 0")
    case True
    have "cmp x z \<le> 0" if "z \<in> set ys" for z
      using trans [OF assms(3) _ _ True, of z] Cons.prems that by auto
    with True Cons.prems show ?thesis by simp
  next
    case False
    with total [of x y] have "cmp y x \<le> 0" by simp
    with Cons set False show ?thesis by auto
  qed
qed simp

lemma sorted_qsort:
  assumes "\<And>x y z. x \<in> S \<Longrightarrow> y \<in> S \<Longrightarrow> z \<in> S \<Longrightarrow> cmp x y \<le> 0 \<Longrightarrow> cmp y z \<le> 0 \<Longrightarrow> cmp x z \<le> (0::int)"
    and "\<And>x y. cmp x y = - cmp y x" and "set xs \<subseteq> S"
  shows "sorted_wrt (\<lambda>a b. cmp a b \<le> 0) (qsort_by cmp xs)"
  using assms(3)
proof (induction xs)
  case (Cons x xs)
  have set: "set (qsort_by cmp xs) = set xs" by (metis mset_qsort set_mset_mset)
  have "sorted_wrt (\<lambda>a b. cmp a b \<le> 0) (insert_by cmp x (qsort_by cmp xs))"
  proof (rule sorted_insert_by [where S = S])
    show "cmp x z \<le> 0" if "x \<in> S" "y \<in> S" "z \<in> S" "cmp x y \<le> 0" "cmp y z \<le> 0" for x y z
      using that by (rule assms(1))
    show "cmp x y = - cmp y x" for x y by (rule assms(2))
  qed (use Cons set in simp_all)
  then show ?case by simp
qed simp

lemma sorted_names_strict:
  assumes "sorted_wrt (\<lambda>a b. strcmp (f a) (f b) \<le> 0) l" and "distinct (map f l)"
    and "\<And>a. a \<in> set l \<Longrightarrow> cstring_ok (f a)"
  shows "sorted_wrt (\<lambda>a b. strcmp (f a) (f b) < 0) l"
  using assms
proof (induction l)
  case (Cons a l)
  have "strcmp (f a) (f b) < 0" if "b \<in> set l" for b
  proof -
    have "f a \<noteq> f b" using Cons.prems(2) that by auto
    moreover have "strcmp (f a) (f b) \<le> 0" using Cons.prems(1) that by simp
    ultimately show ?thesis
      using strcmp_eq0 [of "f a" "f b"] Cons.prems(3) that by simp
  qed
  with Cons show ?case by simp
qed simp

end
