(* ===== verification/Hashlib.thy ===== *)
theory Hashlib
  imports Bash_Prelude
begin

text \<open>
  The shell's hash tables, \<^verbatim>\<open>hashlib.c\<close> and \<^verbatim>\<open>hashlib.h\<close>. A bucket, a singly linked
  chain of \<^verbatim>\<open>BUCKET_CONTENTS\<close>, is the list of its nodes; a pointer to a node of a table, which
  \<^verbatim>\<open>hash_search\<close> and \<^verbatim>\<open>hash_insert\<close> return and through which the clients write, is the pair
  of its bucket and its position in the chain. \<^verbatim>\<open>xmalloc\<close> does not fail and freeing leaves no
  trace. \<^verbatim>\<open>char\<close> is unsigned, as on AArch64, the system's first target. The sizes that the code computes from the number of
  buckets are reduced to the width of an \<^verbatim>\<open>int\<close>; the number of entries is not, because memory bounds it: \<open>2\<^sup>3\<^sup>1\<close> entries take more than 100
  gigabytes.
\<close>

record 'a bucket_contents =
  bc_key :: cstring
  bc_data :: "'a option"
  bc_khash :: uint32
  bc_times_found :: int

record 'a hash_table =
  ht_bucket_array :: "'a bucket_contents list list"
  ht_nbuckets :: int
  ht_nentries :: int

type_synonym item_ref = "nat \<times> nat"

definition DEFAULT_HASH_BUCKETS :: int where "DEFAULT_HASH_BUCKETS = 128"
definition HASH_NOSRCH :: int where "HASH_NOSRCH = 1"
definition HASH_CREATE :: int where "HASH_CREATE = 2"
definition HASH_REHASH_MULTIPLIER :: int where "HASH_REHASH_MULTIPLIER = 4"
definition HASH_REHASH_FACTOR :: int where "HASH_REHASH_FACTOR = 2"


section \<open>The hash function\<close>

definition FNV_OFFSET :: uint32 where "FNV_OFFSET = 2166136261"
definition FNV_PRIME :: uint32 where "FNV_PRIME = 16777619"

definition char_to_uint :: "char \<Rightarrow> uint32" where
  "char_to_uint c = of_nat (of_char c)"

fun hash_string_loop :: "uint32 \<Rightarrow> cstring \<Rightarrow> uint32" where
  "hash_string_loop i [] = i"
| "hash_string_loop i (c # s) =
     (let i = i + (push_bit 1 i + push_bit 4 i + push_bit 7 i + push_bit 8 i + push_bit 24 i);
          i = i XOR char_to_uint c
      in hash_string_loop i s)"

definition hash_string :: "cstring \<Rightarrow> uint32" where
  "hash_string s = hash_string_loop FNV_OFFSET s"


section \<open>Operations on tables\<close>

definition hash_create :: "int \<Rightarrow> 'a hash_table" where
  "hash_create buckets =
     (let buckets = (if buckets = 0 then DEFAULT_HASH_BUCKETS else buckets)
      in \<lparr>ht_bucket_array = replicate (nat buckets) [], ht_nbuckets = buckets, ht_nentries = 0\<rparr>)"

definition HASH_ENTRIES :: "'a hash_table option \<Rightarrow> int" where
  "HASH_ENTRIES ht = (case ht of None \<Rightarrow> 0 | Some t \<Rightarrow> ht_nentries t)"

definition hash_size :: "'a hash_table option \<Rightarrow> int" where
  "hash_size table = HASH_ENTRIES table"

definition HASH_SHOULDGROW :: "'a hash_table \<Rightarrow> bool" where
  "HASH_SHOULDGROW t \<longleftrightarrow> ht_nentries t \<ge> wrap32 (ht_nbuckets t * HASH_REHASH_FACTOR)"

text \<open>The bucket of a hash value: \<^verbatim>\<open>h & (nbuckets - 1)\<close>, computed in unsigned arithmetic.\<close>

definition bucket_index :: "uint32 \<Rightarrow> int \<Rightarrow> nat" where
  "bucket_index h n = unat (h AND word_of_int (n - 1))"

definition HASH_BUCKET :: "cstring \<Rightarrow> 'a hash_table \<Rightarrow> nat" where
  "HASH_BUCKET s t = bucket_index (hash_string s) (ht_nbuckets t)"

definition hash_bucket :: "cstring \<Rightarrow> 'a hash_table \<Rightarrow> nat" where
  "hash_bucket s t = HASH_BUCKET s t"

definition hash_items :: "nat \<Rightarrow> 'a hash_table option \<Rightarrow> 'a bucket_contents list" where
  "hash_items bucket table =
     (case table of None \<Rightarrow> []
      | Some t \<Rightarrow> if int bucket < ht_nbuckets t then ht_bucket_array t ! bucket else [])"

definition copy_bucket_array ::
  "'a bucket_contents list \<Rightarrow> ('a \<Rightarrow> 'a) option \<Rightarrow> 'a bucket_contents list" where
  "copy_bucket_array ba cpdata =
     map (\<lambda>e. \<lparr>bc_key = bc_key e,
               bc_data = (case bc_data e of None \<Rightarrow> None
                          | Some d \<Rightarrow> Some (case cpdata of None \<Rightarrow> d | Some f \<Rightarrow> f d)),
               bc_khash = bc_khash e, bc_times_found = bc_times_found e\<rparr>) ba"

definition hash_copy ::
  "'a hash_table option \<Rightarrow> ('a \<Rightarrow> 'a) option \<Rightarrow> 'a hash_table option" where
  "hash_copy table cpdata =
     (case table of None \<Rightarrow> None
      | Some t \<Rightarrow>
          let new = hash_create (ht_nbuckets t)
          in Some (new\<lparr>ht_bucket_array :=
                        map (\<lambda>i. copy_bucket_array (ht_bucket_array t ! i) cpdata)
                            [0..<nat (ht_nbuckets t)],
                      ht_nentries := ht_nentries t\<rparr>))"

text \<open>The body of the inner loop of \<^verbatim>\<open>hash_rehash\<close>: a node goes to the front of its new chain.\<close>

definition rehash_item ::
  "int \<Rightarrow> 'a bucket_contents \<Rightarrow> 'a bucket_contents list list \<Rightarrow> 'a bucket_contents list list" where
  "rehash_item nsize item arr =
     (let i = bucket_index (bc_khash item) nsize in arr[i := item # arr ! i])"

definition hash_rehash :: "'a hash_table \<Rightarrow> int \<Rightarrow> 'a hash_table" where
  "hash_rehash table nsize =
     (if nsize = ht_nbuckets table then table
      else table\<lparr>ht_nbuckets := nsize,
                 ht_bucket_array :=
                   fold (\<lambda>j arr. fold (rehash_item nsize) (ht_bucket_array table ! j) arr)
                        [0..<nat (ht_nbuckets table)] (replicate (nat nsize) [])\<rparr>)"

definition hash_grow :: "'a hash_table \<Rightarrow> 'a hash_table" where
  "hash_grow table =
     (let nsize = wrap32 (ht_nbuckets table * HASH_REHASH_MULTIPLIER)
      in if nsize > 0 then hash_rehash table nsize else table)"

definition hash_shrink :: "'a hash_table \<Rightarrow> 'a hash_table" where
  "hash_shrink table = hash_rehash table (ht_nbuckets table div HASH_REHASH_MULTIPLIER)"


section \<open>Operations on entries\<close>

fun chain_find :: "uint32 \<Rightarrow> cstring \<Rightarrow> 'a bucket_contents list \<Rightarrow> nat option" where
  "chain_find hv s [] = None"
| "chain_find hv s (b # bs) =
     (if hv = bc_khash b \<and> bc_key b = s then Some 0 else map_option Suc (chain_find hv s bs))"

text \<open>Writing through a pointer to a node: \<open>f\<close> is what happens to the node.\<close>

definition update_item ::
  "item_ref \<Rightarrow> ('a bucket_contents \<Rightarrow> 'a bucket_contents) \<Rightarrow> 'a hash_table \<Rightarrow> 'a hash_table" where
  "update_item r f t =
     (let chain = ht_bucket_array t ! fst r
      in t\<lparr>ht_bucket_array :=
            (ht_bucket_array t)[fst r := chain[snd r := f (chain ! snd r)]]\<rparr>)"

definition item_at :: "'a hash_table \<Rightarrow> item_ref \<Rightarrow> 'a bucket_contents" where
  "item_at t r = ht_bucket_array t ! fst r ! snd r"

text \<open>A new node for \<open>s\<close> at the head of its chain.\<close>

definition push_item :: "cstring \<Rightarrow> 'a hash_table \<Rightarrow> item_ref \<times> 'a hash_table" where
  "push_item s t =
     (let bucket = HASH_BUCKET s t;
          item = \<lparr>bc_key = s, bc_data = None, bc_khash = hash_string s, bc_times_found = 0\<rparr>
      in ((bucket, 0),
          t\<lparr>ht_bucket_array := (ht_bucket_array t)[bucket := item # ht_bucket_array t ! bucket],
            ht_nentries := ht_nentries t + 1\<rparr>))"

definition hash_search ::
  "cstring \<Rightarrow> 'a hash_table option \<Rightarrow> int \<Rightarrow> item_ref option \<times> 'a hash_table option" where
  "hash_search s table flags =
     (case table of
        None \<Rightarrow> (None, None)
      | Some t \<Rightarrow>
          if flags AND HASH_CREATE = 0 \<and> HASH_ENTRIES table = 0 then (None, Some t)
          else
            (let bucket = HASH_BUCKET s t
             in case chain_find (hash_string s) s (ht_bucket_array t ! bucket) of
                  Some p \<Rightarrow>
                    (Some (bucket, p),
                     Some (update_item (bucket, p)
                             (\<lambda>b. b\<lparr>bc_times_found := wrap32 (bc_times_found b + 1)\<rparr>) t))
                | None \<Rightarrow>
                    if flags AND HASH_CREATE \<noteq> 0 then
                      (let t' = (if HASH_SHOULDGROW t then hash_grow t else t);
                           (r, t'') = push_item s t'
                       in (Some r, Some t''))
                    else (None, Some t)))"

definition hash_remove ::
  "cstring \<Rightarrow> 'a hash_table option \<Rightarrow> int \<Rightarrow> 'a bucket_contents option \<times> 'a hash_table option" where
  "hash_remove s table flags =
     (case table of
        None \<Rightarrow> (None, None)
      | Some t \<Rightarrow>
          if HASH_ENTRIES table = 0 then (None, Some t)
          else
            (let bucket = HASH_BUCKET s t; chain = ht_bucket_array t ! bucket
             in case chain_find (hash_string s) s chain of
                  Some p \<Rightarrow>
                    (Some (chain ! p),
                     Some (t\<lparr>ht_bucket_array :=
                              (ht_bucket_array t)[bucket := take p chain @ drop (Suc p) chain],
                            ht_nentries := ht_nentries t - 1\<rparr>))
                | None \<Rightarrow> (None, Some t)))"

text \<open>
  When \<open>table\<close> is \<^verbatim>\<open>NULL\<close> the code makes a table of its own, to which only the returned pointer
  leads; it is the table returned here.
\<close>

definition hash_insert ::
  "cstring \<Rightarrow> 'a hash_table option \<Rightarrow> int \<Rightarrow> item_ref \<times> 'a hash_table" where
  "hash_insert s table flags =
     (let t = (case table of None \<Rightarrow> hash_create 0 | Some t \<Rightarrow> t);
          (item, t) =
            (if flags AND HASH_NOSRCH \<noteq> 0 then (None, t)
             else case hash_search s (Some t) 0 of
                    (r, Some t') \<Rightarrow> (r, t') | (r, None) \<Rightarrow> (r, t))
      in case item of
           Some r \<Rightarrow> (r, t)
         | None \<Rightarrow> push_item s (if HASH_SHOULDGROW t then hash_grow t else t))"

definition hash_flush :: "'a hash_table option \<Rightarrow> 'a hash_table option" where
  "hash_flush table =
     (case table of
        None \<Rightarrow> None
      | Some t \<Rightarrow>
          if HASH_ENTRIES table = 0 then Some t
          else Some (t\<lparr>ht_bucket_array :=
                        map (\<lambda>i. if int i < ht_nbuckets t then [] else ht_bucket_array t ! i)
                            [0..<length (ht_bucket_array t)],
                      ht_nentries := 0\<rparr>))"

text \<open>
  \<^verbatim>\<open>hash_walk\<close> calls \<open>func\<close> on each node, with the state \<open>s\<close> that the callback reads and
  writes, until a call returns a negative number; the flag tells whether that happened.
\<close>

fun walk_chain ::
  "('a bucket_contents \<Rightarrow> 's \<Rightarrow> int \<times> 's) \<Rightarrow> 'a bucket_contents list \<Rightarrow> 's \<Rightarrow> bool \<times> 's" where
  "walk_chain func [] s = (False, s)"
| "walk_chain func (b # bs) s =
     (let (r, s') = func b s in if r < 0 then (True, s') else walk_chain func bs s')"

fun walk_buckets ::
  "('a bucket_contents \<Rightarrow> 's \<Rightarrow> int \<times> 's) \<Rightarrow> 'a hash_table \<Rightarrow> nat list \<Rightarrow> 's \<Rightarrow> 's" where
  "walk_buckets func t [] s = s"
| "walk_buckets func t (i # is) s =
     (let (stop, s') = walk_chain func (hash_items i (Some t)) s
      in if stop then s' else walk_buckets func t is s')"

definition hash_walk ::
  "'a hash_table option \<Rightarrow> ('a bucket_contents \<Rightarrow> 's \<Rightarrow> int \<times> 's) \<Rightarrow> 's \<Rightarrow> 's" where
  "hash_walk table func s =
     (case table of
        None \<Rightarrow> s
      | Some t \<Rightarrow>
          if HASH_ENTRIES table = 0 then s
          else walk_buckets func t [0..<nat (ht_nbuckets t)] s)"


section \<open>Well-formed tables and what they store\<close>

definition all_items :: "'a hash_table \<Rightarrow> 'a bucket_contents list" where
  "all_items t = concat (ht_bucket_array t)"

definition chain_ok :: "int \<Rightarrow> nat \<Rightarrow> 'a bucket_contents list \<Rightarrow> bool" where
  "chain_ok n i chain \<longleftrightarrow>
     (\<forall>b \<in> set chain. bc_khash b = hash_string (bc_key b) \<and> bucket_index (bc_khash b) n = i)"

lemma chain_ok_Nil [simp]: "chain_ok n i []"
  by (simp add: chain_ok_def)

lemma chain_ok_delete: "chain_ok n i xs \<Longrightarrow> chain_ok n i (take p xs @ drop q xs)"
  by (auto simp: chain_ok_def dest: in_set_takeD in_set_dropD)

lemma chain_ok_Cons:
  "chain_ok n i (b # bs) \<longleftrightarrow>
   bc_khash b = hash_string (bc_key b) \<and> bucket_index (bc_khash b) n = i \<and> chain_ok n i bs"
  by (auto simp: chain_ok_def)

text \<open>
  Every node is in the bucket its key hashes to, no key occurs twice, and the entry count is
  the number of nodes.
\<close>

definition hash_wf :: "'a hash_table \<Rightarrow> bool" where
  "hash_wf t \<longleftrightarrow>
     0 < ht_nbuckets t \<and> ht_nbuckets t < 2 ^ 31
     \<and> length (ht_bucket_array t) = nat (ht_nbuckets t)
     \<and> (\<forall>i < length (ht_bucket_array t). chain_ok (ht_nbuckets t) i (ht_bucket_array t ! i))
     \<and> distinct (map bc_key (all_items t))
     \<and> ht_nentries t = int (length (all_items t))"

definition hash_entries :: "'a hash_table \<Rightarrow> (cstring \<times> 'a option) list" where
  "hash_entries t = map (\<lambda>b. (bc_key b, bc_data b)) (all_items t)"

text \<open>The abstract value of a table: the data, possibly \<^verbatim>\<open>NULL\<close>, of each key it holds.\<close>

definition hash_map :: "'a hash_table \<Rightarrow> cstring \<Rightarrow> 'a option option" where
  "hash_map t = map_of (hash_entries t)"

lemma fst_hash_entries: "map fst (hash_entries t) = map bc_key (all_items t)"
  by (simp add: hash_entries_def o_def)

lemma bucket_index_less:
  assumes "0 < n" and "n < 2 ^ 31"
  shows "bucket_index h n < nat n"
proof -
  have "bucket_index h n \<le> unat (word_of_int (n - 1) :: uint32)"
    unfolding bucket_index_def by (metis word_and_le1 word_le_nat_alt)
  also have "\<dots> = nat (n - 1)"
    using assms by (intro unat_word_of_int_32) auto
  finally show ?thesis using assms by linarith
qed

lemma HASH_BUCKET_less: "hash_wf t \<Longrightarrow> HASH_BUCKET s t < length (ht_bucket_array t)"
  by (simp add: HASH_BUCKET_def hash_wf_def bucket_index_less)

lemma chain_find_Some:
  "chain_find hv s chain = Some p \<Longrightarrow>
   p < length chain \<and> bc_key (chain ! p) = s \<and> bc_khash (chain ! p) = hv"
  by (induction chain arbitrary: p) (auto split: if_splits)

lemma chain_find_None:
  "chain_find hv s chain = None \<longleftrightarrow> (\<forall>b \<in> set chain. \<not> (bc_khash b = hv \<and> bc_key b = s))"
  by (induction chain) auto

text \<open>A key that is not in its own bucket is in no bucket.\<close>

lemma chain_find_None_all:
  assumes "hash_wf t" and "chain_find (hash_string s) s (ht_bucket_array t ! HASH_BUCKET s t) = None"
  shows "s \<notin> bc_key ` set (all_items t)"
proof
  assume "s \<in> bc_key ` set (all_items t)"
  then obtain b i where i: "i < length (ht_bucket_array t)" and b: "b \<in> set (ht_bucket_array t ! i)"
    and s: "bc_key b = s"
    unfolding all_items_def by (force simp: set_conv_nth [of "ht_bucket_array t"])
  with assms(1) have "bc_khash b = hash_string s" "bucket_index (bc_khash b) (ht_nbuckets t) = i"
    unfolding hash_wf_def chain_ok_def by (metis (full_types))+
  with assms(2) b s show False
    by (auto simp: chain_find_None HASH_BUCKET_def)
qed

lemma hash_map_None_iff: "hash_map t s = None \<longleftrightarrow> s \<notin> bc_key ` set (all_items t)"
  by (simp add: hash_map_def map_of_eq_None_iff hash_entries_def image_image)

lemma hash_map_Some_iff:
  "hash_wf t \<Longrightarrow> hash_map t s = Some d \<longleftrightarrow> (\<exists>b \<in> set (all_items t). bc_key b = s \<and> bc_data b = d)"
  by (auto simp: hash_map_def map_of_distinct_iff fst_hash_entries hash_wf_def)
     (auto simp: hash_entries_def)

lemma chain_find_lookup:
  assumes "hash_wf t"
  shows "hash_map t s =
    (case chain_find (hash_string s) s (ht_bucket_array t ! HASH_BUCKET s t) of
       None \<Rightarrow> None
     | Some p \<Rightarrow> Some (bc_data (ht_bucket_array t ! HASH_BUCKET s t ! p)))"
proof (cases "chain_find (hash_string s) s (ht_bucket_array t ! HASH_BUCKET s t)")
  case None
  then show ?thesis using chain_find_None_all [OF assms] by (simp add: hash_map_None_iff)
next
  case (Some p)
  from chain_find_Some [OF this] have "ht_bucket_array t ! HASH_BUCKET s t ! p \<in> set (all_items t)"
    using HASH_BUCKET_less [OF assms] unfolding all_items_def
    by (metis UN_I nth_mem set_concat)
  with Some chain_find_Some [OF Some] assms show ?thesis
    by (auto simp: hash_map_Some_iff)
qed


section \<open>The hash function is FNV-1\<close>

lemma fnv_shift_mult:
  "i + (push_bit 1 i + push_bit 4 i + push_bit 7 i + push_bit 8 i + push_bit 24 i) = i * FNV_PRIME"
  for i :: uint32
  by (simp add: push_bit_eq_mult FNV_PRIME_def algebra_simps)

lemma hash_string_loop_fold:
  "hash_string_loop i s = foldl (\<lambda>h c. (h * FNV_PRIME) XOR char_to_uint c) i s"
  by (induction s arbitrary: i) (simp_all add: fnv_shift_mult Let_def del: hash_string_loop.simps(2)
      add: hash_string_loop.simps(2) [unfolded fnv_shift_mult])


section \<open>Creating, growing, copying and flushing\<close>

lemma all_items_create [simp]: "all_items (hash_create n) = []"
  by (simp add: all_items_def hash_create_def Let_def)

lemma hash_create_wf [wf_intros]: "0 \<le> n \<Longrightarrow> n < 2 ^ 31 \<Longrightarrow> hash_wf (hash_create n)"
  by (simp add: hash_wf_def) (simp add: hash_create_def Let_def DEFAULT_HASH_BUCKETS_def chain_ok_def)

lemma hash_create_map [abs_simps]: "hash_map (hash_create n) = Map.empty"
  by (simp add: hash_map_def hash_entries_def)

lemma rehash_item_length [simp]: "length (rehash_item n b arr) = length arr"
  by (simp add: rehash_item_def Let_def)

lemma fold_rehash_length [simp]: "length (fold (rehash_item n) bs arr) = length arr"
  by (induction bs arbitrary: arr) simp_all

lemma rehash_item_mset:
  "0 < n \<Longrightarrow> n < 2 ^ 31 \<Longrightarrow> length arr = nat n \<Longrightarrow>
   mset (concat (rehash_item n b arr)) = add_mset b (mset (concat arr))"
  using bucket_index_less [of n "bc_khash b"]
  by (simp add: rehash_item_def Let_def concat_list_update concat_split_nth [of _ arr] del: mset_concat)

lemma rehash_item_chain_ok:
  assumes "\<forall>i < length arr. chain_ok n i (arr ! i)" and "bc_khash b = hash_string (bc_key b)"
  shows "\<forall>i < length (rehash_item n b arr). chain_ok n i (rehash_item n b arr ! i)"
  using assms by (cases "bucket_index (bc_khash b) n < length arr")
    (auto simp: rehash_item_def Let_def nth_list_update list_update_beyond chain_ok_Cons)

lemma fold_rehash_mset:
  "0 < n \<Longrightarrow> n < 2 ^ 31 \<Longrightarrow> length arr = nat n \<Longrightarrow>
   mset (concat (fold (rehash_item n) bs arr)) = mset bs + mset (concat arr)"
  by (induction bs arbitrary: arr) (simp_all add: rehash_item_mset del: mset_concat)

lemma fold_rehash_chain_ok:
  "\<forall>i < length arr. chain_ok n i (arr ! i) \<Longrightarrow> \<forall>b \<in> set bs. bc_khash b = hash_string (bc_key b) \<Longrightarrow>
   \<forall>i < length arr. chain_ok n i (fold (rehash_item n) bs arr ! i)"
proof (induction bs arbitrary: arr)
  case Nil
  then show ?case by simp
next
  case (Cons b bs)
  from Cons.IH [OF rehash_item_chain_ok [OF Cons.prems(1)]] Cons.prems(2) show ?case by simp
qed

lemma fold_rehash_concat:
  "fold (\<lambda>j arr. fold (rehash_item n) (xss ! j) arr) [0..<length xss] arr
   = fold (rehash_item n) (concat xss) arr"
proof (induction xss arbitrary: arr rule: rev_induct)
  case Nil
  then show ?case by simp
next
  case (snoc xs xss)
  have "fold (\<lambda>j arr. fold (rehash_item n) ((xss @ [xs]) ! j) arr) [0..<length xss] arr
      = fold (\<lambda>j arr. fold (rehash_item n) (xss ! j) arr) [0..<length xss] arr"
    by (rule fold_cong) (auto simp: nth_append)
  with snoc show ?case by (simp add: nth_append)
qed

lemma wf_khash: "hash_wf t \<Longrightarrow> b \<in> set (all_items t) \<Longrightarrow> bc_khash b = hash_string (bc_key b)"
  unfolding hash_wf_def chain_ok_def all_items_def by (metis UN_E in_set_conv_nth set_concat)

lemma hash_rehash_array:
  "hash_wf t \<Longrightarrow> n \<noteq> ht_nbuckets t \<Longrightarrow>
   ht_bucket_array (hash_rehash t n) = fold (rehash_item n) (all_items t) (replicate (nat n) [])"
  using fold_rehash_concat [of n "ht_bucket_array t"]
  by (simp add: hash_rehash_def all_items_def hash_wf_def)

text \<open>Rehashing moves every node to its new bucket and loses or duplicates none.\<close>

lemma hash_rehash_mset:
  assumes "hash_wf t" and "0 < n" and "n < 2 ^ 31"
  shows "mset (all_items (hash_rehash t n)) = mset (all_items t)"
proof (cases "n = ht_nbuckets t")
  case True
  then show ?thesis by (simp add: hash_rehash_def)
next
  case False
  then show ?thesis
    using fold_rehash_mset [OF assms(2,3), of "replicate (nat n) []" "all_items t"] assms(1)
    by (simp add: all_items_def [of "hash_rehash t n"] hash_rehash_array del: mset_concat)
qed

lemma hash_rehash_nbuckets [simp]: "ht_nbuckets (hash_rehash t n) = n"
  by (simp add: hash_rehash_def)

lemma hash_rehash_nentries [simp]: "ht_nentries (hash_rehash t n) = ht_nentries t"
  by (simp add: hash_rehash_def)

lemma hash_rehash_wf [wf_intros]:
  assumes "hash_wf t" and "0 < n" and "n < 2 ^ 31"
  shows "hash_wf (hash_rehash t n)"
proof (cases "n = ht_nbuckets t")
  case True
  then show ?thesis using assms by (simp add: hash_rehash_def)
next
  case False
  have chains: "\<forall>i < nat n. chain_ok n i (ht_bucket_array (hash_rehash t n) ! i)"
    using fold_rehash_chain_ok [of "replicate (nat n) []" n "all_items t"] wf_khash [OF assms(1)]
    by (simp add: hash_rehash_array [OF assms(1) False])
  have "mset (map bc_key (all_items (hash_rehash t n))) = mset (map bc_key (all_items t))"
    using hash_rehash_mset [OF assms] by simp
  then have "distinct (map bc_key (all_items (hash_rehash t n)))"
    using assms(1) unfolding hash_wf_def by (metis mset_eq_imp_distinct_iff)
  moreover have "length (all_items (hash_rehash t n)) = length (all_items t)"
    using hash_rehash_mset [OF assms] by (rule mset_eq_length)
  ultimately show ?thesis
    using assms chains by (simp add: hash_wf_def hash_rehash_array False)
qed

lemma hash_rehash_map [abs_simps]:
  assumes "hash_wf t" and "0 < n" and "n < 2 ^ 31"
  shows "hash_map (hash_rehash t n) = hash_map t"
  unfolding hash_map_def
proof (rule map_of_mset_cong)
  show "mset (hash_entries (hash_rehash t n)) = mset (hash_entries t)"
    using hash_rehash_mset [OF assms] by (simp add: hash_entries_def)
  show "distinct (map fst (hash_entries (hash_rehash t n)))"
    using hash_rehash_wf [OF assms] by (simp add: fst_hash_entries hash_wf_def)
qed

lemma wrap32_pos_range: "wrap32 x < 2 ^ 31"
  using wrap32_range [of x] by (simp add: in_int32_def)

lemma hash_grow_wf [wf_intros]: "hash_wf t \<Longrightarrow> hash_wf (hash_grow t)"
  by (simp add: hash_grow_def Let_def hash_rehash_wf wrap32_pos_range [simplified])

lemma hash_grow_map [abs_simps]: "hash_wf t \<Longrightarrow> hash_map (hash_grow t) = hash_map t"
  by (simp add: hash_grow_def Let_def hash_rehash_map wrap32_pos_range [simplified])

lemma hash_grow_nentries [simp]: "ht_nentries (hash_grow t) = ht_nentries t"
  by (simp add: hash_grow_def Let_def)


lemma copy_bucket_array_key [simp]: "map bc_key (copy_bucket_array ba f) = map bc_key ba"
  by (simp add: copy_bucket_array_def o_def)

lemma copy_bucket_array_ok: "chain_ok n i ba \<Longrightarrow> chain_ok n i (copy_bucket_array ba f)"
  by (auto simp: chain_ok_def copy_bucket_array_def)

lemma hash_copy_array:
  "hash_wf t \<Longrightarrow> hash_copy (Some t) f = Some t' \<Longrightarrow>
   ht_bucket_array t' = map (\<lambda>ba. copy_bucket_array ba f) (ht_bucket_array t)
   \<and> ht_nbuckets t' = ht_nbuckets t \<and> ht_nentries t' = ht_nentries t"
  by (auto simp: hash_copy_def Let_def hash_wf_def hash_create_def intro: nth_equalityI)

lemma hash_copy_items:
  "hash_wf t \<Longrightarrow> hash_copy (Some t) f = Some t' \<Longrightarrow>
   all_items t' = copy_bucket_array (all_items t) f"
  using hash_copy_array [of t f t'] by (simp add: all_items_def copy_bucket_array_def map_concat o_def)

lemma hash_copy_wf [wf_intros]:
  assumes "hash_wf t" and "hash_copy (Some t) f = Some t'"
  shows "hash_wf t'"
proof -
  have "length (all_items t') = length (all_items t)"
    by (simp add: hash_copy_items [OF assms] copy_bucket_array_def)
  then show ?thesis
    using assms(1) hash_copy_array [OF assms]
    by (auto simp: hash_wf_def hash_copy_items [OF assms] copy_bucket_array_ok)
qed

lemma hash_copy_map [abs_simps]:
  assumes "hash_wf t" and "hash_copy (Some t) f = Some t'"
  shows "hash_map t' = (\<lambda>k. map_option (map_option (case f of None \<Rightarrow> (\<lambda>d. d) | Some g \<Rightarrow> g)) (hash_map t k))"
proof -
  have "hash_entries t'
      = map (\<lambda>(k, d). (k, map_option (case f of None \<Rightarrow> (\<lambda>d. d) | Some g \<Rightarrow> g) d)) (hash_entries t)"
    by (auto simp: hash_entries_def hash_copy_items [OF assms] copy_bucket_array_def
        split: option.splits)
  then show ?thesis by (simp add: hash_map_def map_of_map o_def)
qed

lemma hash_flush_array:
  "hash_wf t \<Longrightarrow> hash_flush (Some t) = Some t' \<Longrightarrow>
   all_items t' = [] \<and> ht_nbuckets t' = ht_nbuckets t
   \<and> length (ht_bucket_array t') = length (ht_bucket_array t) \<and> ht_nentries t' = 0"
  by (auto simp: hash_flush_def HASH_ENTRIES_def hash_wf_def all_items_def split: if_splits)

lemma all_items_Nil_chains:
  "all_items t = [] \<Longrightarrow> i < length (ht_bucket_array t) \<Longrightarrow> ht_bucket_array t ! i = []"
  by (simp add: all_items_def)

lemma hash_flush_wf [wf_intros]: "hash_wf t \<Longrightarrow> hash_flush (Some t) = Some t' \<Longrightarrow> hash_wf t'"
  using hash_flush_array [of t t'] by (auto simp: hash_wf_def all_items_Nil_chains)

lemma hash_flush_map [abs_simps]:
  "hash_wf t \<Longrightarrow> hash_flush (Some t) = Some t' \<Longrightarrow> hash_map t' = Map.empty"
  using hash_flush_array [of t t'] by (simp add: hash_map_def hash_entries_def)


section \<open>Entering, finding and removing keys\<close>

text \<open>A pointer that leads into the table.\<close>

definition ref_ok :: "'a hash_table \<Rightarrow> item_ref \<Rightarrow> bool" where
  "ref_ok t r \<longleftrightarrow> fst r < length (ht_bucket_array t) \<and> snd r < length (ht_bucket_array t ! fst r)"

definition flat_pos :: "'a hash_table \<Rightarrow> item_ref \<Rightarrow> nat" where
  "flat_pos t r = length (concat (take (fst r) (ht_bucket_array t))) + snd r"

lemma flat_pos_less: "ref_ok t r \<Longrightarrow> flat_pos t r < length (all_items t)"
  by (simp add: ref_ok_def flat_pos_def all_items_def length_concat_nested)

lemma flat_pos_nth: "ref_ok t r \<Longrightarrow> all_items t ! flat_pos t r = item_at t r"
  by (simp add: ref_ok_def flat_pos_def all_items_def item_at_def nth_concat_nested)

lemma update_item_items:
  "ref_ok t r \<Longrightarrow> all_items (update_item r f t) = (all_items t)[flat_pos t r := f (item_at t r)]"
  by (simp add: ref_ok_def flat_pos_def all_items_def update_item_def Let_def item_at_def
      concat_update_nested)

lemma update_item_frame [simp]:
  "ht_nbuckets (update_item r f t) = ht_nbuckets t"
  "ht_nentries (update_item r f t) = ht_nentries t"
  "length (ht_bucket_array (update_item r f t)) = length (ht_bucket_array t)"
  by (simp_all add: update_item_def Let_def)

lemma update_item_ref_ok [simp]: "ref_ok (update_item r f t) q \<longleftrightarrow> ref_ok t q"
  by (cases "fst r < length (ht_bucket_array t)")
    (auto simp: ref_ok_def update_item_def Let_def nth_list_update list_update_beyond)

lemma update_item_at: "ref_ok t r \<Longrightarrow> item_at (update_item r f t) r = f (item_at t r)"
  by (simp add: ref_ok_def item_at_def update_item_def Let_def)

text \<open>Writing to a node without changing its key or hash keeps the table well-formed.\<close>

lemma update_item_wf:
  assumes "hash_wf t" and "ref_ok t r"
    and key: "bc_key (f (item_at t r)) = bc_key (item_at t r)"
    and hash: "bc_khash (f (item_at t r)) = bc_khash (item_at t r)"
  shows "hash_wf (update_item r f t)"
proof -
  let ?t = "update_item r f t"
  have keys: "map bc_key (all_items ?t) = map bc_key (all_items t)"
    using key flat_pos_less [OF assms(2)] flat_pos_nth [OF assms(2)]
    by (simp add: update_item_items [OF assms(2)] map_update list_update_same_conv)
  have "chain_ok (ht_nbuckets t) i (ht_bucket_array ?t ! i)" if "i < length (ht_bucket_array t)" for i
  proof (cases "i = fst r")
    case True
    have "chain_ok (ht_nbuckets t) i (ht_bucket_array t ! i)"
      using assms(1) that by (simp add: hash_wf_def)
    moreover from this assms(2) True have "item_at t r \<in> set (ht_bucket_array t ! i)"
      by (simp add: ref_ok_def item_at_def)
    ultimately show ?thesis
      using True that key hash
      by (auto simp: update_item_def Let_def chain_ok_def item_at_def dest!: set_update_subset_insert [THEN subsetD])
  next
    case False
    then show ?thesis using assms(1) that by (simp add: update_item_def Let_def hash_wf_def)
  qed
  moreover have "length (all_items ?t) = length (all_items t)"
    using keys by (metis length_map)
  ultimately show ?thesis
    using assms(1) keys by (simp add: hash_wf_def)
qed

lemma update_item_map:
  assumes "hash_wf t" and "ref_ok t r" and "bc_key (f (item_at t r)) = bc_key (item_at t r)"
  shows "hash_map (update_item r f t) = (hash_map t)(bc_key (item_at t r) \<mapsto> bc_data (f (item_at t r)))"
proof -
  have "hash_entries (update_item r f t)
      = (hash_entries t)[flat_pos t r := (bc_key (item_at t r), bc_data (f (item_at t r)))]"
    by (simp add: hash_entries_def update_item_items [OF assms(2)] map_update assms(3))
  then show ?thesis
    using assms(1) flat_pos_less [OF assms(2)] flat_pos_nth [OF assms(2)]
    by (simp add: hash_map_def map_of_update_nth fst_hash_entries hash_wf_def)
       (simp add: hash_entries_def map_of_update_nth o_def)
qed


lemma push_item_parts:
  assumes "hash_wf t" and "push_item s t = (r, t')"
  shows "ref_ok t' r" and "bc_key (item_at t' r) = s" and "bc_data (item_at t' r) = None"
    and "ht_nbuckets t' = ht_nbuckets t" and "ht_nentries t' = ht_nentries t + 1"
  using assms HASH_BUCKET_less [OF assms(1), of s]
  by (auto simp: push_item_def Let_def ref_ok_def item_at_def)

lemma push_item_mset:
  assumes "hash_wf t" and "push_item s t = (r, t')"
  shows "mset (all_items t')
       = add_mset \<lparr>bc_key = s, bc_data = None, bc_khash = hash_string s, bc_times_found = 0\<rparr>
           (mset (all_items t))"
  using assms(2) HASH_BUCKET_less [OF assms(1), of s]
  by (auto simp: push_item_def Let_def all_items_def concat_list_update
      concat_split_nth [of "HASH_BUCKET s t" "ht_bucket_array t"] simp del: mset_concat)

lemma push_item_wf [wf_intros]:
  assumes "hash_wf t" and "s \<notin> bc_key ` set (all_items t)" and "push_item s t = (r, t')"
  shows "hash_wf t'"
proof -
  have items: "mset (map bc_key (all_items t')) = add_mset s (mset (map bc_key (all_items t)))"
    by (simp add: push_item_mset [OF assms(1,3)])
  have dist: "distinct (map bc_key (all_items t'))"
    using mset_eq_imp_distinct_iff [of "map bc_key (all_items t')" "s # map bc_key (all_items t)"]
      items assms(1,2) by (simp add: hash_wf_def)
  have len: "length (all_items t') = Suc (length (all_items t))"
    using arg_cong [OF push_item_mset [OF assms(1,3)], of size] by simp
  show ?thesis
    using assms(1,3) dist len HASH_BUCKET_less [OF assms(1), of s]
    by (auto simp: hash_wf_def push_item_def Let_def nth_list_update chain_ok_Cons HASH_BUCKET_def)
qed

lemma push_item_map [abs_simps]:
  assumes "hash_wf t" and "s \<notin> bc_key ` set (all_items t)" and "push_item s t = (r, t')"
  shows "hash_map t' = (hash_map t)(s \<mapsto> None)"
proof -
  have "mset (hash_entries t') = mset ((s, None) # hash_entries t)"
    by (simp add: hash_entries_def push_item_mset [OF assms(1,3)])
  moreover have "distinct (map fst (hash_entries t'))"
    using push_item_wf [OF assms] by (simp add: fst_hash_entries hash_wf_def)
  ultimately have "hash_map t' = map_of ((s, None) # hash_entries t)"
    unfolding hash_map_def by (rule map_of_mset_cong)
  then show ?thesis by (simp add: hash_map_def)
qed

lemma found_ref_ok:
  assumes "hash_wf t" and "chain_find (hash_string s) s (ht_bucket_array t ! HASH_BUCKET s t) = Some p"
  shows "ref_ok t (HASH_BUCKET s t, p)" and "bc_key (item_at t (HASH_BUCKET s t, p)) = s"
  using HASH_BUCKET_less [OF assms(1), of s] chain_find_Some [OF assms(2)]
  by (auto simp: ref_ok_def item_at_def)

lemma empty_table_map: "hash_wf t \<Longrightarrow> ht_nentries t = 0 \<Longrightarrow> hash_map t = Map.empty"
  by (simp add: hash_wf_def hash_map_def hash_entries_def)

text \<open>
  What \<^verbatim>\<open>hash_search\<close> does. A key the table holds is found, whatever the flags, and only its hit
  counter changes.
\<close>

lemma hash_search_found:
  assumes "hash_wf t" and "hash_map t s = Some d"
  obtains r t' where "hash_search s (Some t) flags = (Some r, Some t')" and "hash_wf t'"
    and "hash_map t' = hash_map t" and "ref_ok t' r" and "bc_key (item_at t' r) = s"
    and "bc_data (item_at t' r) = d" and "ht_nentries t' = ht_nentries t"
    and "ht_nbuckets t' = ht_nbuckets t"
proof -
  let ?b = "HASH_BUCKET s t" and ?f = "\<lambda>b. b\<lparr>bc_times_found := wrap32 (bc_times_found b + 1)\<rparr>"
  obtain p where p: "chain_find (hash_string s) s (ht_bucket_array t ! ?b) = Some p"
    and d: "bc_data (item_at t (?b, p)) = d"
    using assms by (auto simp: chain_find_lookup item_at_def split: option.splits)
  have "ht_nentries t \<noteq> 0" using assms empty_table_map by fastforce
  then have "hash_search s (Some t) flags = (Some (?b, p), Some (update_item (?b, p) ?f t))"
    by (simp add: hash_search_def HASH_ENTRIES_def p Let_def)
  moreover note r = found_ref_ok [OF assms(1) p]
  have "(hash_map t)(s \<mapsto> d) = hash_map t" using assms(2) by auto
  then have "hash_map (update_item (?b, p) ?f t) = hash_map t"
    using update_item_map [OF assms(1) r(1), of ?f] r(2) d by simp
  moreover have "hash_wf (update_item (?b, p) ?f t)"
    by (rule update_item_wf [OF assms(1) r(1)]) simp_all
  ultimately show ?thesis
    using r d by (intro that [of "(?b, p)" "update_item (?b, p) ?f t"]) (simp_all add: update_item_at)
qed

lemma hash_search_absent:
  "hash_wf t \<Longrightarrow> hash_map t s = None \<Longrightarrow> flags AND HASH_CREATE = 0 \<Longrightarrow>
   hash_search s (Some t) flags = (None, Some t)"
  by (auto simp: hash_search_def HASH_ENTRIES_def chain_find_lookup Let_def split: option.splits)

text \<open>A key the table does not hold is entered with no data when the caller asks for it.\<close>

lemma grow_push:
  assumes "hash_wf t" and "hash_map t s = None"
    and "push_item s (if HASH_SHOULDGROW t then hash_grow t else t) = (r, t')"
  shows "hash_wf t'" and "hash_map t' = (hash_map t)(s \<mapsto> None)" and "ref_ok t' r"
    and "bc_key (item_at t' r) = s" and "bc_data (item_at t' r) = None"
    and "ht_nentries t' = ht_nentries t + 1"
proof -
  let ?g = "if HASH_SHOULDGROW t then hash_grow t else t"
  have wf: "hash_wf ?g" and map: "hash_map ?g = hash_map t" and n: "ht_nentries ?g = ht_nentries t"
    using assms(1) by (simp_all add: hash_grow_wf hash_grow_map)
  have new: "s \<notin> bc_key ` set (all_items ?g)"
    using assms(2) map by (metis hash_map_None_iff)
  show "hash_wf t'" by (rule push_item_wf [OF wf new assms(3)])
  show "hash_map t' = (hash_map t)(s \<mapsto> None)" using push_item_map [OF wf new assms(3)] map by simp
  show "ref_ok t' r" "bc_key (item_at t' r) = s" "bc_data (item_at t' r) = None"
    "ht_nentries t' = ht_nentries t + 1"
    using push_item_parts [OF wf assms(3)] n by simp_all
qed

lemma hash_search_create:
  assumes "hash_wf t" and "hash_map t s = None" and "flags AND HASH_CREATE \<noteq> 0"
  obtains r t' where "hash_search s (Some t) flags = (Some r, Some t')" and "hash_wf t'"
    and "hash_map t' = (hash_map t)(s \<mapsto> None)" and "ref_ok t' r" and "bc_key (item_at t' r) = s"
    and "bc_data (item_at t' r) = None" and "ht_nentries t' = ht_nentries t + 1"
proof -
  obtain r t' where push: "push_item s (if HASH_SHOULDGROW t then hash_grow t else t) = (r, t')"
    by fastforce
  have "hash_search s (Some t) flags = (Some r, Some t')"
    using assms push chain_find_lookup [OF assms(1), of s]
    by (auto simp: hash_search_def Let_def split: option.splits)
  then show ?thesis using grow_push [OF assms(1,2) push] by (rule that)
qed

text \<open>Removal takes out exactly the node of the key and returns it.\<close>

lemma hash_remove_found:
  assumes "hash_wf t" and "hash_map t s = Some d"
  obtains b t' where "hash_remove s (Some t) flags = (Some b, Some t')" and "hash_wf t'"
    and "hash_map t' = (hash_map t)(s := None)" and "bc_key b = s" and "bc_data b = d"
    and "ht_nentries t' = ht_nentries t - 1"
proof -
  let ?b = "HASH_BUCKET s t" and ?a = "ht_bucket_array t"
  let ?chain = "?a ! ?b"
  obtain p where p: "chain_find (hash_string s) s ?chain = Some p" and d: "bc_data (?chain ! p) = d"
    using assms by (auto simp: chain_find_lookup split: option.splits)
  define t' where "t' = t\<lparr>ht_bucket_array := ?a[?b := take p ?chain @ drop (Suc p) ?chain],
      ht_nentries := ht_nentries t - 1\<rparr>"
  note b = HASH_BUCKET_less [OF assms(1), of s] and q = chain_find_Some [OF p]
  have "ht_nentries t \<noteq> 0" using assms empty_table_map by fastforce
  then have res: "hash_remove s (Some t) flags = (Some (?chain ! p), Some t')"
    by (simp add: hash_remove_def HASH_ENTRIES_def p Let_def t'_def)
  define xs ys where "xs = concat (take ?b ?a) @ take p ?chain"
    and "ys = drop (Suc p) ?chain @ concat (drop (Suc ?b) ?a)"
  have old: "all_items t = xs @ ?chain ! p # ys"
    using b q by (simp add: all_items_def concat_split_nth [of ?b ?a] xs_def ys_def id_take_nth_drop [of p ?chain, symmetric])
  have new: "all_items t' = xs @ ys"
    using b by (simp add: all_items_def t'_def concat_list_update xs_def ys_def)
  have "chain_ok (ht_nbuckets t) i (ht_bucket_array t' ! i)" if "i < length ?a" for i
    using assms(1) that b
    by (auto simp: hash_wf_def t'_def nth_list_update intro: chain_ok_delete)
  then have "hash_wf t'"
    using assms(1) old by (auto simp: hash_wf_def new) (simp_all add: t'_def)
  moreover have "hash_map t' = (hash_map t)(s := None)"
  proof -
    have "distinct (map fst (hash_entries t))"
      using assms(1) by (simp add: fst_hash_entries hash_wf_def)
    then show ?thesis
      using map_of_delete_mid [of "map (\<lambda>b. (bc_key b, bc_data b)) xs" "(s, d)"
          "map (\<lambda>b. (bc_key b, bc_data b)) ys"] q d
      by (simp add: hash_map_def hash_entries_def old new del: map_of_append)
  qed
  ultimately show ?thesis using res q d by (intro that [of "?chain ! p" t']) (simp_all add: t'_def)
qed

lemma hash_remove_absent:
  "hash_wf t \<Longrightarrow> hash_map t s = None \<Longrightarrow> hash_remove s (Some t) flags = (None, Some t)"
  by (auto simp: hash_remove_def HASH_ENTRIES_def chain_find_lookup Let_def split: option.splits)


lemma hash_insert_found:
  assumes "hash_wf t" and "hash_map t s = Some d" and "flags AND HASH_NOSRCH = 0"
  obtains r t' where "hash_insert s (Some t) flags = (r, t')" and "hash_wf t'"
    and "hash_map t' = hash_map t" and "ref_ok t' r" and "bc_key (item_at t' r) = s"
    and "bc_data (item_at t' r) = d" and "ht_nentries t' = ht_nentries t"
proof -
  obtain r t' where found: "hash_search s (Some t) 0 = (Some r, Some t')" "hash_wf t'"
    "hash_map t' = hash_map t" "ref_ok t' r" "bc_key (item_at t' r) = s"
    "bc_data (item_at t' r) = d" "ht_nentries t' = ht_nentries t"
    using hash_search_found [OF assms(1,2)] by metis
  moreover have "hash_insert s (Some t) flags = (r, t')"
    using assms(3) found(1) by (simp add: hash_insert_def Let_def)
  ultimately show ?thesis using that by blast
qed

lemma hash_insert_new:
  assumes "hash_wf t" and "hash_map t s = None"
  obtains r t' where "hash_insert s (Some t) flags = (r, t')" and "hash_wf t'"
    and "hash_map t' = (hash_map t)(s \<mapsto> None)" and "ref_ok t' r" and "bc_key (item_at t' r) = s"
    and "bc_data (item_at t' r) = None" and "ht_nentries t' = ht_nentries t + 1"
proof -
  obtain r t' where push: "push_item s (if HASH_SHOULDGROW t then hash_grow t else t) = (r, t')"
    by fastforce
  have "hash_insert s (Some t) flags = (r, t')"
    using push hash_search_absent [OF assms, of 0] by (simp add: hash_insert_def Let_def)
  then show ?thesis using grow_push [OF assms push] by (rule that)
qed


section \<open>Walking a table\<close>

lemma walk_chain_append:
  "walk_chain func (xs @ ys) s =
     (let (stop, s') = walk_chain func xs s in if stop then (stop, s') else walk_chain func ys s')"
  by (induction xs arbitrary: s) (auto simp: Let_def split: prod.splits)

lemma walk_buckets_concat:
  "\<forall>i \<in> set is. int i < ht_nbuckets t \<Longrightarrow>
   walk_buckets func t is s = snd (walk_chain func (concat (map ((!) (ht_bucket_array t)) is)) s)"
  by (induction "is" arbitrary: s)
     (auto simp: walk_chain_append Let_def hash_items_def split: prod.splits)

lemma hash_walk_items:
  assumes "hash_wf t"
  shows "hash_walk (Some t) func s = snd (walk_chain func (all_items t) s)"
proof (cases "ht_nentries t = 0")
  case True
  with assms show ?thesis by (simp add: hash_walk_def HASH_ENTRIES_def hash_wf_def)
next
  case False
  have "map ((!) (ht_bucket_array t)) [0..<nat (ht_nbuckets t)] = ht_bucket_array t"
    using assms by (simp add: hash_wf_def list_eq_iff_nth_eq)
  then have "walk_buckets func t [0..<nat (ht_nbuckets t)] s = snd (walk_chain func (all_items t) s)"
    using assms by (subst walk_buckets_concat) (auto simp: all_items_def)
  with False show ?thesis by (simp add: hash_walk_def HASH_ENTRIES_def)
qed

lemma walk_chain_nonneg:
  "\<forall>b s. 0 \<le> fst (func b s) \<Longrightarrow> walk_chain func bs s = (False, fold (\<lambda>b s. snd (func b s)) bs s)"
proof (induction bs arbitrary: s)
  case Nil
  then show ?case by simp
next
  case (Cons b bs)
  obtain r s' where "func b s = (r, s')" by fastforce
  with Cons.prems have "\<not> r < 0" by (metis fst_conv not_less)
  with Cons \<open>func b s = (r, s')\<close> show ?case by simp
qed


text \<open>A table of four buckets with two entries, used to show that hypotheses can hold.\<close>

definition example_table :: "cstring hash_table" where
  "example_table =
     snd (hash_insert ''cd'' (Some (snd (hash_insert ''ls'' (Some (hash_create 4)) 0))) 0)"

lemma example_table_wf: "hash_wf example_table"
  by code_simp

lemma example_table_map: "hash_map example_table ''ls'' = Some None" "hash_map example_table ''pwd'' = None"
  by code_simp+

section \<open>The table's contract\<close>

text \<open>
  C1. Searching a well-formed table for \<open>s\<close> keeps it well-formed. If the table holds \<open>s\<close> the search
  returns a pointer to its node and nothing stored changes; if it does not, the search returns
  \<^verbatim>\<open>NULL\<close> and leaves the table as it is, unless the caller passed \<^verbatim>\<open>HASH_CREATE\<close>: then \<open>s\<close> is
  entered, the result points to its new node, which holds no data yet, and every other key
  keeps its data, even when the insertion made the table grow and rehash.
\<close>

theorem hash_search_spec:
  assumes "hash_wf t"
  shows "\<exists>r t'. hash_search s (Some t) flags = (r, Some t') \<and> hash_wf t' \<and>
    (case hash_map t s of
       Some d \<Rightarrow> hash_map t' = hash_map t \<and>
         (\<exists>q. r = Some q \<and> ref_ok t' q \<and> bc_key (item_at t' q) = s \<and> bc_data (item_at t' q) = d)
     | None \<Rightarrow>
         if flags AND HASH_CREATE = 0 then r = None \<and> t' = t
         else hash_map t' = (hash_map t)(s \<mapsto> None) \<and> ht_nentries t' = ht_nentries t + 1 \<and>
           (\<exists>q. r = Some q \<and> ref_ok t' q \<and> bc_key (item_at t' q) = s
                \<and> bc_data (item_at t' q) = None))"
proof (cases "hash_map t s")
  case (Some d)
  show ?thesis
    by (rule hash_search_found [OF assms Some, where flags = flags]) (simp add: Some del: split_paired_Ex)
next
  case None
  show ?thesis
  proof (cases "flags AND HASH_CREATE = 0")
    case True
    with None show ?thesis using assms hash_search_absent [OF assms None True] by simp
  next
    case False
    obtain r t' where "hash_search s (Some t) flags = (Some r, Some t')" "hash_wf t'"
      "hash_map t' = (hash_map t)(s \<mapsto> None)" "ref_ok t' r" "bc_key (item_at t' r) = s"
      "bc_data (item_at t' r) = None" "ht_nentries t' = ht_nentries t + 1"
      using hash_search_create [OF assms None False] by metis
    with None False show ?thesis by (simp del: split_paired_Ex)
  qed
qed

lemma hash_search_spec_witness:
  "hash_wf example_table \<and> hash_map example_table ''pwd'' = None \<and>
   (\<exists>r t'. hash_search ''pwd'' (Some example_table) HASH_CREATE = (r, Some t') \<and> hash_wf t'
      \<and> hash_map t' = (hash_map example_table)(''pwd'' \<mapsto> None))"
  using hash_search_spec [OF example_table_wf, of "''pwd''" HASH_CREATE] example_table_wf
  by (auto simp: example_table_map HASH_CREATE_def)

text \<open>
  C38. Removing \<open>s\<close> returns the node of \<open>s\<close> with its data, or \<^verbatim>\<open>NULL\<close> when there is none; what remains is
  a well-formed table with every other key untouched and the entry count adjusted.
\<close>

theorem hash_remove_spec:
  assumes "hash_wf t"
  shows "\<exists>b t'. hash_remove s (Some t) flags = (b, Some t') \<and> hash_wf t'
    \<and> hash_map t' = (hash_map t)(s := None)
    \<and> map_option bc_data b = hash_map t s
    \<and> ht_nentries t' = ht_nentries t - (if b = None then 0 else 1)"
proof (cases "hash_map t s")
  case None
  then have "(hash_map t)(s := None) = hash_map t" by auto
  with None show ?thesis using assms hash_remove_absent [OF assms None] by simp
next
  case (Some d)
  show ?thesis
    by (rule hash_remove_found [OF assms Some, where flags = flags]) (simp add: Some)
qed

lemma hash_remove_spec_witness:
  "hash_wf example_table \<and>
   (\<exists>b t'. hash_remove ''ls'' (Some example_table) 0 = (Some b, Some t') \<and> hash_wf t'
      \<and> hash_map t' = (hash_map example_table)(''ls'' := None))"
  using hash_remove_spec [OF example_table_wf, of "''ls''" 0] example_table_wf
  by (auto simp: example_table_map)

text \<open>
  Growing a table, \<^verbatim>\<open>hash_grow\<close>, rehashes its nodes into four times as many buckets unless that
  number overflows an \<^verbatim>\<open>int\<close>; the table stays well-formed and stores the same.
\<close>

theorem hash_grow_spec:
  assumes "hash_wf t"
  shows "hash_wf (hash_grow t) \<and> hash_map (hash_grow t) = hash_map t
    \<and> mset (all_items (hash_grow t)) = mset (all_items t)
    \<and> ht_nbuckets (hash_grow t)
       = (if wrap32 (4 * ht_nbuckets t) > 0 then wrap32 (4 * ht_nbuckets t) else ht_nbuckets t)"
  using assms hash_rehash_mset [OF assms] wrap32_pos_range [simplified]
  by (auto simp: hash_grow_wf hash_grow_map)
     (auto simp: hash_grow_def Let_def HASH_REHASH_MULTIPLIER_def mult.commute)

lemma hash_grow_spec_witness:
  "hash_wf (hash_create 64 :: nat hash_table)
   \<and> hash_map (hash_grow (hash_create 64 :: nat hash_table)) = Map.empty
   \<and> ht_nbuckets (hash_grow (hash_create 64 :: nat hash_table)) = 256"
proof -
  have wf: "hash_wf (hash_create 64 :: nat hash_table)" by (simp add: hash_create_wf)
  have n: "ht_nbuckets (hash_create 64 :: nat hash_table) = 64" by (simp add: hash_create_def)
  show ?thesis
    using wf hash_grow_spec [OF wf] unfolding n by (simp add: hash_create_map wrap32_def)
qed


text \<open>
  The shift-and-add loop of \<^verbatim>\<open>hash_string\<close> computes the 32-bit FNV-1 hash: starting from the
  offset basis, multiply by the FNV prime modulo \<open>2\<^sup>3\<^sup>2\<close> and xor with the next byte.
\<close>

theorem hash_string_fnv1:
  "hash_string s = foldl (\<lambda>h c. (h * 16777619) XOR of_nat (of_char c)) 2166136261 s"
  by (simp add: hash_string_def hash_string_loop_fold FNV_PRIME_def FNV_OFFSET_def char_to_uint_def)

text \<open>
  A walk over a well-formed table calls the callback once on each entry, bucket by bucket, and
  stops only where a call returns a negative number: with a callback that never does, the walk
  is the fold over all entries, and these are exactly the keys the table holds.
\<close>

theorem hash_walk_spec:
  assumes "hash_wf t" and "\<forall>b s. 0 \<le> fst (func b s)"
  shows "hash_walk (Some t) func s = fold (\<lambda>b s. snd (func b s)) (all_items t) s
    \<and> distinct (map bc_key (all_items t)) \<and> bc_key ` set (all_items t) = dom (hash_map t)"
proof (intro conjI)
  show "hash_walk (Some t) func s = fold (\<lambda>b s. snd (func b s)) (all_items t) s"
    by (simp add: hash_walk_items [OF assms(1)] walk_chain_nonneg [OF assms(2)])
  show "distinct (map bc_key (all_items t))"
    using assms(1) by (simp add: hash_wf_def)
  show "bc_key ` set (all_items t) = dom (hash_map t)"
    by (auto simp: dom_def) (metis hash_map_None_iff image_eqI not_None_eq, metis hash_map_None_iff option.distinct(1))
qed

lemma hash_walk_spec_witness:
  "hash_wf example_table \<and>
   hash_walk (Some example_table) (\<lambda>b ks. (0, bc_key b # ks)) []
   = fold (\<lambda>b ks. bc_key b # ks) (all_items example_table) []"
  using hash_walk_spec [OF example_table_wf, of "\<lambda>b ks. (0, bc_key b # ks)" "[]"] example_table_wf
  by simp

lemma grow_push_load:
  assumes "hash_wf t" and "ht_nentries t \<le> 2 * ht_nbuckets t" and "ht_nbuckets t < 2 ^ 29"
    and "push_item s (if HASH_SHOULDGROW t then hash_grow t else t) = (r, t')"
  shows "ht_nentries t' \<le> 2 * ht_nbuckets t'"
proof -
  let ?g = "if HASH_SHOULDGROW t then hash_grow t else t"
  have pos: "0 < ht_nbuckets t" using assms(1) by (simp add: hash_wf_def)
  have w: "wrap32 (ht_nbuckets t * 4) = ht_nbuckets t * 4"
    using assms(3) pos by (intro wrap32_id) (simp add: in_int32_def)
  have w2: "wrap32 (ht_nbuckets t * 2) = ht_nbuckets t * 2"
    using assms(3) pos by (intro wrap32_id) (simp add: in_int32_def)
  have "hash_wf ?g" using assms(1) by (simp add: hash_grow_wf)
  note parts = push_item_parts [OF this assms(4)]
  have "ht_nbuckets ?g = (if HASH_SHOULDGROW t then ht_nbuckets t * 4 else ht_nbuckets t)"
    using w pos by (simp add: hash_grow_def Let_def HASH_REHASH_MULTIPLIER_def)
  then show ?thesis
    using parts(4,5) assms(2) pos
    by (auto simp: HASH_SHOULDGROW_def HASH_REHASH_FACTOR_def w2 split: if_splits)
qed

text \<open>
  The load of a table stays bounded: as long as the number of buckets can still be multiplied,
  entering keys through \<^verbatim>\<open>hash_search\<close> never leaves more than two entries per bucket.
\<close>

theorem hash_search_load:
  assumes "hash_wf t" and "ht_nentries t \<le> 2 * ht_nbuckets t" and "ht_nbuckets t < 2 ^ 29"
    and "hash_search s (Some t) flags = (r, Some t')"
  shows "ht_nentries t' \<le> 2 * ht_nbuckets t'"
proof (cases "hash_map t s")
  case (Some d)
  obtain q u where "hash_search s (Some t) flags = (Some q, Some u)"
    "ht_nentries u = ht_nentries t" "ht_nbuckets u = ht_nbuckets t"
    by (rule hash_search_found [OF assms(1) Some, where flags = flags]) blast
  with assms(2,4) show ?thesis by simp
next
  case None
  show ?thesis
  proof (cases "flags AND HASH_CREATE = 0")
    case True
    with hash_search_absent [OF assms(1) None True] assms(2,4) show ?thesis by simp
  next
    case False
    obtain q u where push: "push_item s (if HASH_SHOULDGROW t then hash_grow t else t) = (q, u)"
      by fastforce
    with assms(1,4) False None chain_find_lookup [OF assms(1), of s] have "t' = u"
      by (auto simp: hash_search_def Let_def split: option.splits)
    with grow_push_load [OF assms(1-3) push] show ?thesis by simp
  qed
qed

lemma hash_search_load_witness:
  "ht_nentries example_table \<le> 2 * ht_nbuckets example_table \<and>
   (\<exists>r t'. hash_search ''pwd'' (Some example_table) HASH_CREATE = (r, Some t')
      \<and> ht_nentries t' \<le> 2 * ht_nbuckets t')"
proof -
  have load: "ht_nentries example_table \<le> 2 * ht_nbuckets example_table"
    "ht_nbuckets example_table < 2 ^ 29" by code_simp+
  obtain r t' where "hash_search ''pwd'' (Some example_table) HASH_CREATE = (r, Some t')"
    by (rule hash_search_create [OF example_table_wf example_table_map(2), of HASH_CREATE])
      (simp add: HASH_CREATE_def)
  with hash_search_load [OF example_table_wf load this] load show ?thesis by blast
qed

end
