(* ===== verification/Words.thy ===== *)
theory Words
  imports Bash_Prelude
begin

text \<open>
  Words and lists of words: \<^verbatim>\<open>WORD_DESC\<close> and \<^verbatim>\<open>WORD_LIST\<close> of \<^verbatim>\<open>command.h\<close>, their constructors of
  \<^verbatim>\<open>make_cmd.c\<close> and the generic lists of \<^verbatim>\<open>list.c\<close>. A linked list is the list of its nodes.
  Where the code follows a pointer that may be \<^verbatim>\<open>NULL\<close>, the result is an option and \<open>None\<close> stands
  for the invalid access.
\<close>

record word_desc =
  wd_word :: cstring
  wd_flags :: int

type_synonym word_list = "word_desc list"

definition W_HASDOLLAR :: int where "W_HASDOLLAR = 1"
definition W_QUOTED :: int where "W_QUOTED = 2"
definition W_HASQUOTEDNULL :: int where "W_HASQUOTEDNULL = 2 ^ 18"

definition make_bare_word :: "cstring option \<Rightarrow> word_desc option" where
  "make_bare_word string = map_option (\<lambda>s. \<lparr>wd_word = s, wd_flags = 0\<rparr>) string"

fun make_word_flags :: "word_desc \<Rightarrow> cstring \<Rightarrow> word_desc" where
  "make_word_flags w [] = w"
| "make_word_flags w (c # s) =
     (let w = (if c = CHR ''$'' then w\<lparr>wd_flags := wd_flags w OR W_HASDOLLAR\<rparr>
               else if c = BSLASH then w
               else if c = SQUOTE \<or> c = CHR 0x60 \<or> c = DQUOTE then
                 w\<lparr>wd_flags := wd_flags w OR W_QUOTED\<rparr>
               else w)
      in make_word_flags w s)"

definition make_word :: "cstring \<Rightarrow> word_desc" where
  "make_word string = make_word_flags \<lparr>wd_word = string, wd_flags = 0\<rparr> string"

definition make_word_from_token :: "char \<Rightarrow> word_desc" where
  "make_word_from_token token = make_word (if token = NUL then [] else [token])"

definition make_word_list :: "word_desc \<Rightarrow> word_list \<Rightarrow> word_list" where
  "make_word_list word wlink = word # wlink"

text \<open>\<^verbatim>\<open>list_reverse\<close>: each node is unlinked from the front and linked before \<open>prev\<close>.\<close>

fun list_reverse_loop :: "'a list \<Rightarrow> 'a list \<Rightarrow> 'a list" where
  "list_reverse_loop prev [] = prev"
| "list_reverse_loop prev (x # next) = list_reverse_loop (x # prev) next"

definition list_reverse :: "'a list \<Rightarrow> 'a list" where
  "list_reverse list = list_reverse_loop [] list"

fun list_length_loop :: "int \<Rightarrow> 'a list \<Rightarrow> int" where
  "list_length_loop i [] = i"
| "list_length_loop i (x # next) = list_length_loop (i + 1) next"

definition list_length :: "'a list \<Rightarrow> int" where
  "list_length list = list_length_loop 0 list"

fun list_append :: "'a list \<Rightarrow> 'a list \<Rightarrow> 'a list" where
  "list_append [] tail = tail"
| "list_append (x # []) tail = x # tail"
| "list_append (x # y # next) tail = x # list_append (y # next) tail"

text \<open>
  The lists of words that the arrays hand out: the values are consed in front of the list one
  by one and the list is reversed at the end.
\<close>

fun cons_words :: "cstring option list \<Rightarrow> word_list \<Rightarrow> word_list option" where
  "cons_words [] list = Some list"
| "cons_words (v # vs) list =
     (case make_bare_word v of
        None \<Rightarrow> None
      | Some w \<Rightarrow> cons_words vs (make_word_list w list))"

definition words_of_values :: "cstring option list \<Rightarrow> word_list option" where
  "words_of_values vs = map_option list_reverse (cons_words vs [])"


section \<open>Lemmas\<close>

lemma list_reverse_loop_rev: "list_reverse_loop prev xs = rev xs @ prev"
  by (induction xs arbitrary: prev) simp_all

lemma list_reverse_rev [simp]: "list_reverse xs = rev xs"
  by (simp add: list_reverse_def list_reverse_loop_rev)

lemma list_length_loop_eq: "list_length_loop i xs = i + int (length xs)"
  by (induction xs arbitrary: i) simp_all

lemma list_length_eq [simp]: "list_length xs = int (length xs)"
  by (simp add: list_length_def list_length_loop_eq)

lemma list_append_eq [simp]: "list_append xs ys = xs @ ys"
  by (induction xs ys rule: list_append.induct) simp_all

lemma cons_words_eq:
  "cons_words vs list =
     (if None \<in> set vs then None
      else Some (rev (map (\<lambda>v. \<lparr>wd_word = the v, wd_flags = 0\<rparr>) vs) @ list))"
  by (induction vs arbitrary: list) (auto simp: make_bare_word_def make_word_list_def split: option.splits)

text \<open>The words of a list of values, in order; an invalid access if one of them is \<^verbatim>\<open>NULL\<close>.\<close>

lemma words_of_values_eq:
  "words_of_values vs =
     (if None \<in> set vs then None else Some (map (\<lambda>v. \<lparr>wd_word = the v, wd_flags = 0\<rparr>) vs))"
  by (simp add: words_of_values_def cons_words_eq)

lemma make_word_flags_word [simp]: "wd_word (make_word_flags w s) = wd_word w"
  by (induction s arbitrary: w) (simp_all add: Let_def)

end
