(* ===== verification/Shquote.thy ===== *)
theory Shquote
  imports Bash_Prelude
begin

text \<open>
  Quoting strings so that the shell reads them back: \<^verbatim>\<open>lib/sh/shquote.c\<close>, the ANSI-C escapes of
  \<^verbatim>\<open>lib/sh/strtrans.c\<close>, and the quote removal of \<^verbatim>\<open>subst.c\<close> that undoes them. All of it in the
  single-byte configuration (no \<^verbatim>\<open>HANDLE_MULTIBYTE\<close>, C locale). The buffers the code fills are the
  lists returned; how many bytes it allocates for them are the functions \<open>*_size\<close>. The sizes that are computed as an \<^verbatim>\<open>int\<close> are reduced to
  its width, and the argument of \<^verbatim>\<open>xmalloc\<close> to that of a \<^verbatim>\<open>size_t\<close>.
\<close>

section \<open>The tables\<close>

text \<open>The characters that \<^verbatim>\<open>sh_syntaxtab\<close> marks \<^verbatim>\<open>CBSDQUOTE\<close> and \<^verbatim>\<open>CBLANK\<close>.\<close>

definition slashify_in_quotes :: cstring where
  "slashify_in_quotes = [BSLASH, CHR 0x60, CHR ''$'', DQUOTE, NEWLINE]"

definition CBSDQUOTE :: "char \<Rightarrow> bool" where
  "CBSDQUOTE c \<longleftrightarrow> c \<in> set slashify_in_quotes"

definition shellblank :: "char \<Rightarrow> bool" where
  "shellblank c \<longleftrightarrow> c = CHR '' '' \<or> c = TAB"

definition bstab :: "char \<Rightarrow> bool" where
  "bstab c \<longleftrightarrow> c \<in> set ([TAB, NEWLINE, CHR '' '', CHR ''!'', DQUOTE, CHR ''$'', CHR ''&'', SQUOTE,
     CHR ''('', CHR '')'', CHR ''*'', CHR '','', CHR '';'', CHR ''<'', CHR ''>'', CHR ''?'',
     CHR ''['', BSLASH, CHR '']'', CHR ''^'', CHR 0x60, CHR ''{'', CHR ''|'', CHR ''}''])"


section \<open>Quoting\<close>

fun single_quote_loop :: "cstring \<Rightarrow> cstring" where
  "single_quote_loop [] = []"
| "single_quote_loop (c # s) =
     (if c = SQUOTE then [c, BSLASH, SQUOTE, SQUOTE] else [c]) @ single_quote_loop s"

definition size_t :: "int \<Rightarrow> int" where
  "size_t x = x mod 2 ^ 64"

definition sh_single_quote_size :: "cstring \<Rightarrow> int" where
  "sh_single_quote_size s = size_t (3 + 4 * int (length s))"

definition sh_single_quote :: "cstring \<Rightarrow> cstring" where
  "sh_single_quote s =
     (if s = [SQUOTE] then [BSLASH, SQUOTE] else [SQUOTE] @ single_quote_loop s @ [SQUOTE])"

fun double_quote_loop :: "cstring \<Rightarrow> cstring" where
  "double_quote_loop [] = []"
| "double_quote_loop (c # s) =
     (if CBSDQUOTE c \<and> c \<noteq> NEWLINE then [BSLASH, c] else [c]) @ double_quote_loop s"

definition sh_double_quote_size :: "cstring \<Rightarrow> int" where
  "sh_double_quote_size s = size_t (3 + 2 * int (length s))"

definition sh_double_quote :: "cstring \<Rightarrow> cstring" where
  "sh_double_quote s = [DQUOTE] @ double_quote_loop s @ [DQUOTE]"

fun mkdoublequoted_loop :: "int \<Rightarrow> cstring \<Rightarrow> cstring" where
  "mkdoublequoted_loop flags [] = []"
| "mkdoublequoted_loop flags (c # s) =
     (if flags \<noteq> 0 \<and> c = DQUOTE then [BSLASH, c] else [c]) @ mkdoublequoted_loop flags s"

text \<open>The result and the number of bytes allocated for it.\<close>

definition sh_mkdoublequoted :: "cstring \<Rightarrow> int \<Rightarrow> int \<Rightarrow> cstring \<times> int" where
  "sh_mkdoublequoted s slen flags =
     ([DQUOTE] @ mkdoublequoted_loop flags s @ [DQUOTE],
      size_t (wrap32 (if flags = 0 then slen + 3 else 2 * slen + 1)))"

fun un_double_quote_loop :: "bool \<Rightarrow> cstring \<Rightarrow> cstring" where
  "un_double_quote_loop pass_next [] = []"
| "un_double_quote_loop pass_next (c # s) =
     (if pass_next then c # un_double_quote_loop False s
      else if c = BSLASH \<and> CBSDQUOTE (char_at s 0) then un_double_quote_loop True s
      else c # un_double_quote_loop False s)"

definition sh_un_double_quote :: "cstring \<Rightarrow> cstring" where
  "sh_un_double_quote s = un_double_quote_loop False s"

text \<open>\<open>prev\<close> is the character before the current one, none at the start of the string.\<close>

fun backslash_quote_loop :: "(char \<Rightarrow> bool) \<Rightarrow> int \<Rightarrow> char option \<Rightarrow> cstring \<Rightarrow> cstring" where
  "backslash_quote_loop table flags prev [] = []"
| "backslash_quote_loop table flags prev (c # s) =
     (if table c then [BSLASH]
      else if c = CHR ''#'' \<and> prev = None then [BSLASH]
      else if has_flag flags 1 \<and> c = CHR ''~''
              \<and> (prev = None \<or> prev = Some (CHR '':'') \<or> prev = Some (CHR ''='')) then [BSLASH]
      else if has_flag flags 2 \<and> shellblank c then [BSLASH]
      else []) @ c # backslash_quote_loop table flags (Some c) s"

definition sh_backslash_quote_size :: "cstring \<Rightarrow> int" where
  "sh_backslash_quote_size s = size_t (2 * int (length s) + 1)"

definition sh_backslash_quote :: "cstring \<Rightarrow> (char \<Rightarrow> bool) option \<Rightarrow> int \<Rightarrow> cstring" where
  "sh_backslash_quote s table flags =
     backslash_quote_loop (case table of Some t \<Rightarrow> t | None \<Rightarrow> bstab) flags None s"

definition sh_backslash_quote_for_double_quotes_size :: "cstring \<Rightarrow> int" where
  "sh_backslash_quote_for_double_quotes_size s = size_t (2 * int (length s) + 1)"

fun sh_backslash_quote_for_double_quotes :: "cstring \<Rightarrow> int \<Rightarrow> cstring" where
  "sh_backslash_quote_for_double_quotes [] flags = []"
| "sh_backslash_quote_for_double_quotes (c # s) flags =
     (if CBSDQUOTE c \<and> c \<noteq> NEWLINE then [BSLASH]
      else if c = CTLESC \<or> c = CTLNUL then [CTLESC] else [])
     @ c # sh_backslash_quote_for_double_quotes s flags"

fun contains_metas_loop :: "char option \<Rightarrow> cstring \<Rightarrow> bool" where
  "contains_metas_loop prev [] = False"
| "contains_metas_loop prev (c # s) =
     (if c \<in> set ([CHR '' '', TAB, NEWLINE, SQUOTE, DQUOTE, BSLASH, CHR ''|'', CHR ''&'', CHR '';'',
          CHR ''('', CHR '')'', CHR ''<'', CHR ''>'', CHR ''!'', CHR ''{'', CHR ''}'', CHR ''*'',
          CHR ''['', CHR ''?'', CHR '']'', CHR ''^'', CHR ''$'', CHR 0x60]) then True
      else if c = CHR ''~'' \<and> (prev = None \<or> prev = Some (CHR ''='') \<or> prev = Some (CHR '':'')) then True
      else if c = CHR ''#'' \<and> prev = None then True
      else contains_metas_loop (Some c) s)"

definition sh_contains_shell_metas :: "cstring \<Rightarrow> bool" where
  "sh_contains_shell_metas s = contains_metas_loop None s"

fun sh_contains_quotes :: "cstring \<Rightarrow> bool" where
  "sh_contains_quotes [] = False"
| "sh_contains_quotes (c # s) =
     (if c = SQUOTE \<or> c = DQUOTE \<or> c = BSLASH then True else sh_contains_quotes s)"


section \<open>ANSI-C escapes\<close>

abbreviation ESC :: char where "ESC \<equiv> CHR 0x1B"

fun ansic_shouldquote :: "cstring \<Rightarrow> bool" where
  "ansic_shouldquote [] = False"
| "ansic_shouldquote (c # s) = (if \<not> ISPRINT c then True else ansic_shouldquote s)"

definition ansic_quote_char :: "char \<Rightarrow> cstring" where
  "ansic_quote_char c =
     (if c = ESC then [BSLASH, CHR ''E'']
      else if c = CHR 0x07 then [BSLASH, CHR ''a'']
      else if c = CHR 0x0B then [BSLASH, CHR ''v'']
      else if c = CHR 0x08 then [BSLASH, CHR ''b'']
      else if c = CHR 0x0C then [BSLASH, CHR ''f'']
      else if c = NEWLINE then [BSLASH, CHR ''n'']
      else if c = CHR 0x0D then [BSLASH, CHR ''r'']
      else if c = TAB then [BSLASH, CHR ''t'']
      else if c = BSLASH \<or> c = SQUOTE then [BSLASH, c]
      else if \<not> ISPRINT c then
        [BSLASH, TOCHAR (code c div 64 mod 8), TOCHAR (code c div 8 mod 8), TOCHAR (code c mod 8)]
      else [c])"

text \<open>\<^verbatim>\<open>l = strlen (str); rsize = 4 * l + 4;\<close> in \<^verbatim>\<open>int\<close>: a string of \<open>2\<^sup>2\<^sup>9\<close> characters is too long for it.\<close>

definition ansic_quote_size :: "cstring \<Rightarrow> int" where
  "ansic_quote_size s = (let l = wrap32 (int (length s)) in size_t (wrap32 (4 * l + 4)))"

definition ansic_quote :: "cstring option \<Rightarrow> cstring option" where
  "ansic_quote str =
     (case str of
        None \<Rightarrow> None
      | Some s \<Rightarrow>
          if s = [] then None
          else Some ([CHR ''$'', SQUOTE] @ concat (map ansic_quote_char s) @ [SQUOTE]))"

definition sh_quote_reusable :: "cstring option \<Rightarrow> int \<Rightarrow> cstring option" where
  "sh_quote_reusable str flags =
     (case str of
        None \<Rightarrow> None
      | Some s \<Rightarrow>
          if s = [] then Some [SQUOTE, SQUOTE]
          else if ansic_shouldquote s then ansic_quote (Some s)
          else if flags \<noteq> 0 then Some (sh_backslash_quote s None 1)
          else Some (sh_single_quote s))"

text \<open>Reading at most \<open>n\<close> octal or hexadecimal digits, and all hexadecimal digits.\<close>

fun read_octal :: "nat \<Rightarrow> nat \<Rightarrow> cstring \<Rightarrow> nat \<times> cstring" where
  "read_octal (Suc n) v (c # s) =
     (if ISOCTAL c then read_octal n (v * 8 + (code c - 48)) s else (v, c # s))"
| "read_octal _ v s = (v, s)"

fun read_hex :: "nat \<Rightarrow> nat \<Rightarrow> cstring \<Rightarrow> nat \<times> cstring" where
  "read_hex (Suc n) v (c # s) =
     (if ISXDIGIT c then read_hex n (v * 16 + HEXVALUE c) s else (v, c # s))"
| "read_hex _ v s = (v, s)"

text \<open>
  The \<^verbatim>\<open>switch\<close> on the character after a backslash, in the order of its cases. Each gives what is
  written before the character, the character, and the rest of the input; \<open>None\<close> is where \<^verbatim>\<open>\c\<close>
  ends the string.
\<close>

definition ansic_simple :: "char \<Rightarrow> char option" where
  "ansic_simple c =
     (if c = CHR ''a'' then Some (CHR 0x07)
      else if c = CHR ''v'' then Some (CHR 0x0B)
      else if c = CHR ''b'' then Some (CHR 0x08)
      else if c = CHR ''e'' \<or> c = CHR ''E'' then Some ESC
      else if c = CHR ''f'' then Some (CHR 0x0C)
      else if c = CHR ''n'' then Some NEWLINE
      else if c = CHR ''r'' then Some (CHR 0x0D)
      else if c = CHR ''t'' then Some TAB
      else None)"

definition octal_escape :: "int \<Rightarrow> char \<Rightarrow> cstring \<Rightarrow> cstring \<times> char \<times> cstring" where
  "octal_escape flags c s =
     (if c \<noteq> CHR ''0'' \<and> has_flag flags 1 then ([BSLASH], c, s)
      else (let n = 2 + (if has_flag flags 1 \<and> c = CHR ''0'' then 1 else 0);
                (v, s') = read_octal n (code c - 48) s
            in ([], char_of (v mod 256), s')))"

definition hex_escape :: "int \<Rightarrow> cstring \<Rightarrow> cstring \<times> char \<times> cstring" where
  "hex_escape flags s =
     (if has_flag flags 2 \<and> char_at s 0 = CHR ''{'' then
        (let (v, s') = read_hex (length s) 0 (tl s)
         in ([], char_of (v mod 256), if char_at s' 0 = CHR ''}'' then tl s' else s'))
      else
        (let (v, s') = read_hex 2 0 s
         in if s' = s then ([BSLASH], CHR ''x'', s) else ([], char_of (v mod 256), s')))"

definition ctrl_escape ::
  "int \<Rightarrow> bool \<Rightarrow> cstring \<Rightarrow> cstring \<Rightarrow> (cstring \<times> char \<times> cstring) option" where
  "ctrl_escape flags sawc pass s =
     (if sawc then None
      else if \<not> has_flag flags 1 \<and> s = [] then Some (pass, CHR ''c'', s)
      else if \<not> has_flag flags 1 then
        (let c' = char_at s 0; s' = tl s;
             s'' = (if has_flag flags 2 \<and> c' = BSLASH \<and> char_at s' 0 = BSLASH then tl s' else s')
         in Some ([], TOCTRL c', s''))
      else Some (pass, CHR ''c'', s))"

definition ansic_escape ::
  "int \<Rightarrow> bool \<Rightarrow> char \<Rightarrow> cstring \<Rightarrow> (cstring \<times> char \<times> cstring) option" where
  "ansic_escape flags sawc c s =
     (let pass = (if has_flag flags 4 then [] else [BSLASH])
      in case ansic_simple c of
           Some d \<Rightarrow> Some ([], d, s)
         | None \<Rightarrow>
             if ISOCTAL c then Some (octal_escape flags c s)
             else if c = CHR ''x'' then Some (hex_escape flags s)
             else if c = BSLASH then Some ([], c, s)
             else if c = SQUOTE \<or> c = DQUOTE \<or> c = CHR ''?'' then
               Some (if has_flag flags 1 then [BSLASH] else [], c, s)
             else if c = CHR ''c'' then ctrl_escape flags sawc pass s
             else Some (pass, c, s))"

lemma read_octal_length: "read_octal n v s = (w, s') \<Longrightarrow> length s' \<le> length s"
  by (induction n v s rule: read_octal.induct) (auto split: if_splits)

lemma read_hex_length: "read_hex n v s = (w, s') \<Longrightarrow> length s' \<le> length s"
  by (induction n v s rule: read_hex.induct) (auto split: if_splits)

lemma octal_escape_length: "octal_escape flags c s = (pre, d, s') \<Longrightarrow> length s' \<le> length s"
  by (auto simp: octal_escape_def Let_def split: if_splits prod.splits dest: read_octal_length)

lemma hex_escape_length: "hex_escape flags s = (pre, d, s') \<Longrightarrow> length s' \<le> length s"
  by (auto simp: hex_escape_def Let_def split: if_splits prod.splits dest!: read_hex_length)

lemma ctrl_escape_length: "ctrl_escape flags sawc pass s = Some (pre, d, s') \<Longrightarrow> length s' \<le> length s"
  by (auto simp: ctrl_escape_def Let_def split: if_splits)

lemma ansic_escape_length:
  "ansic_escape flags sawc c s = Some (pre, d, s') \<Longrightarrow> length s' \<le> length s"
  by (auto simp: ansic_escape_def Let_def split: if_splits option.splits
      dest: octal_escape_length hex_escape_length ctrl_escape_length)

text \<open>The loop of \<^verbatim>\<open>ansicstr\<close>: the bytes written, and whether \<^verbatim>\<open>\c\<close> was seen.\<close>

function ansicstr_loop :: "int \<Rightarrow> bool \<Rightarrow> cstring \<Rightarrow> cstring \<times> bool" where
  "ansicstr_loop flags sawc [] = ([], False)"
| "ansicstr_loop flags sawc (c # s) =
     (if c \<noteq> BSLASH \<or> s = [] then
        (let (r, stop) = ansicstr_loop flags sawc s in (c # r, stop))
      else
        (case ansic_escape flags sawc (hd s) (tl s) of
           None \<Rightarrow> ([], True)
         | Some (pre, d, s') \<Rightarrow>
             (let ctl = (if has_flag flags 2 \<and> (d = CTLESC \<or> d = CTLNUL) then [CTLESC] else []);
                  (r, stop) = ansicstr_loop flags sawc s'
              in (pre @ ctl @ d # r, stop))))"
  by pat_completeness auto
termination
  by (relation "measure (\<lambda>(flags, sawc, s). length s)")
     (auto simp: less_Suc_eq_le dest!: ansic_escape_length)

text \<open>\<open>len\<close>, an \<^verbatim>\<open>int\<close>, is the length of the string.\<close>

definition ansicstr_size :: "int \<Rightarrow> int" where
  "ansicstr_size len = size_t (wrap32 (2 * len + 1))"

definition ansicstr :: "cstring option \<Rightarrow> int \<Rightarrow> bool \<Rightarrow> (cstring \<times> bool) option" where
  "ansicstr str flags sawc =
     (case str of
        None \<Rightarrow> None
      | Some s \<Rightarrow> if s = [] then None else Some (ansicstr_loop flags sawc s))"

definition ansiexpand :: "cstring \<Rightarrow> nat \<Rightarrow> nat \<Rightarrow> cstring" where
  "ansiexpand string start end =
     (let temp = take (end - start) (drop start string)
      in case ansicstr (Some temp) 2 False of Some (t, _) \<Rightarrow> t | None \<Rightarrow> temp)"


section \<open>Quote removal\<close>

text \<open>\<^verbatim>\<open>string_extract_single_quoted\<close>: the text up to the closing quote, and what follows it.\<close>

fun string_extract_single_quoted :: "bool \<Rightarrow> bool \<Rightarrow> cstring \<Rightarrow> cstring \<times> cstring" where
  "string_extract_single_quoted allowesc pass_next [] = ([], [])"
| "string_extract_single_quoted allowesc pass_next (c # s) =
     (if pass_next then apfst ((#) c) (string_extract_single_quoted allowesc False s)
      else if allowesc \<and> c = BSLASH then
        apfst ((#) c) (string_extract_single_quoted allowesc True s)
      else if c = SQUOTE then ([], s)
      else apfst ((#) c) (string_extract_single_quoted allowesc False s))"

definition Q_DOUBLE_QUOTES :: int where "Q_DOUBLE_QUOTES = 1"
definition Q_HERE_DOCUMENT :: int where "Q_HERE_DOCUMENT = 2"
definition Q_PATQUOTE :: int where "Q_PATQUOTE = 8"

lemma string_extract_single_quoted_length:
  "string_extract_single_quoted a p s = (t, s') \<Longrightarrow> length s' \<le> length s"
  by (induction a p s arbitrary: t rule: string_extract_single_quoted.induct)
     (auto split: if_splits simp: le_SucI apfst_def map_prod_def split: prod.splits)

function quote_removal_loop :: "bool \<Rightarrow> bool \<Rightarrow> cstring \<Rightarrow> cstring" where
  "quote_removal_loop quoted dquote [] = []"
| "quote_removal_loop quoted dquote (c # s) =
     (if c = BSLASH then
        (case s of
           [] \<Rightarrow> [BSLASH]
         | d # s' \<Rightarrow>
             (if (quoted \<or> dquote) \<and> \<not> CBSDQUOTE d then [BSLASH] else [])
             @ d # quote_removal_loop quoted dquote s')
      else if c = SQUOTE then
        (if quoted \<or> dquote then c # quote_removal_loop quoted dquote s
         else (case string_extract_single_quoted False False s of
                 (t, s') \<Rightarrow> t @ quote_removal_loop quoted dquote s'))
      else if c = DQUOTE then quote_removal_loop quoted (\<not> dquote) s
      else c # quote_removal_loop quoted dquote s)"
  by pat_completeness auto
termination
  by (relation "measure (\<lambda>(quoted, dquote, s). length s)")
     (auto simp: less_Suc_eq_le dest!: string_extract_single_quoted_length [OF sym])

definition string_quote_removal :: "cstring \<Rightarrow> int \<Rightarrow> cstring" where
  "string_quote_removal s quoted =
     quote_removal_loop (has_flag quoted (Q_HERE_DOCUMENT OR Q_DOUBLE_QUOTES)) False s"


section \<open>The shell reads its quoted strings back\<close>

lemma quote_removal_single:
  "(case string_extract_single_quoted False False (single_quote_loop s @ SQUOTE # rest) of
      (t, s') \<Rightarrow> t @ quote_removal_loop False False s')
   = s @ quote_removal_loop False False rest"
  by (induction s) (auto simp: apfst_def map_prod_def split: prod.splits)

lemma string_quote_removal_single: "string_quote_removal (sh_single_quote s) 0 = s"
  using quote_removal_single [of s "[]"]
  by (auto simp: string_quote_removal_def sh_single_quote_def has_flag_def split: prod.splits)

lemma quote_removal_double:
  "quote_removal_loop False True (double_quote_loop s @ DQUOTE # rest)
   = s @ quote_removal_loop False False rest"
  by (induction s) (auto simp: CBSDQUOTE_def slashify_in_quotes_def)

lemma string_quote_removal_double: "string_quote_removal (sh_double_quote s) 0 = s"
  using quote_removal_double [of s "[]"]
  by (simp add: string_quote_removal_def sh_double_quote_def has_flag_def)

lemma un_double_quote_loop_double: "un_double_quote_loop False (double_quote_loop s) = s"
  by (induction s)
     (auto simp: CBSDQUOTE_def slashify_in_quotes_def char_at_def)

lemma quote_removal_backslash:
  assumes "table BSLASH" and "table SQUOTE" and "table DQUOTE"
  shows "quote_removal_loop False False (backslash_quote_loop table flags prev s) = s"
  using assms by (induction s arbitrary: prev) auto

lemma bstab_quotes: "bstab BSLASH" "bstab SQUOTE" "bstab DQUOTE"
  by (simp_all add: bstab_def)

lemma string_quote_removal_backslash:
  "string_quote_removal (sh_backslash_quote s None flags) 0 = s"
  by (simp add: string_quote_removal_def sh_backslash_quote_def has_flag_def
      quote_removal_backslash bstab_quotes)


section \<open>ANSI-C quoting\<close>

lemma ISOCTAL_TOCHAR [simp]: "n < 8 \<Longrightarrow> ISOCTAL (TOCHAR n)"
  by (simp add: ISOCTAL_def)

lemma TOCHAR_octal_neq: "n < 8 \<Longrightarrow> ansic_simple (TOCHAR n) = None"
  by (auto simp: ansic_simple_def char_eq_iff_code)

lemma octal_digits_code:
  "code c div 64 mod 8 = code c div 64"
  "code c div 64 * 64 + code c div 8 mod 8 * 8 + code c mod 8 = code c"
proof -
  have "code c < 512" using code_less [of c] by linarith
  then have "code c div 64 < 8" by (simp add: div_less_iff_less_mult)
  then show "code c div 64 mod 8 = code c div 64" by simp
  have "code c div 8 div 8 = code c div 64" by (simp add: div_mult2_eq [symmetric])
  then show "code c div 64 * 64 + code c div 8 mod 8 * 8 + code c mod 8 = code c"
    using div_mult_mod_eq [of "code c" 8] div_mult_mod_eq [of "code c div 8" 8] by linarith
qed

text \<open>Three octal digits are read back as the byte they stand for, for \<^verbatim>\<open>$'...'\<close> and for the parser.\<close>

lemma ansic_escape_octal:
  assumes "\<not> has_flag flags 1"
  shows "ansic_escape flags False (TOCHAR (code c div 64 mod 8))
     (TOCHAR (code c div 8 mod 8) # TOCHAR (code c mod 8) # s) = Some ([], c, s)"
proof -
  have "read_octal 2 (code c div 64 mod 8) (TOCHAR (code c div 8 mod 8) # TOCHAR (code c mod 8) # s)
      = (code c, s)"
    using octal_digits_code [of c] by (simp add: numeral_2_eq_2 algebra_simps octal_digits_code(1))
  then show ?thesis
    using assms by (simp add: ansic_escape_def TOCHAR_octal_neq octal_escape_def Let_def)
qed

definition ctl_prefix :: "int \<Rightarrow> char \<Rightarrow> cstring" where
  "ctl_prefix flags c = (if has_flag flags 2 \<and> (c = CTLESC \<or> c = CTLNUL) then [CTLESC] else [])"

lemma ansicstr_loop_escape:
  "ansic_escape flags sawc c s = Some (pre, d, s') \<Longrightarrow>
   ansicstr_loop flags sawc (BSLASH # c # s)
   = apfst (\<lambda>r. pre @ ctl_prefix flags d @ d # r) (ansicstr_loop flags sawc s')"
  by (simp add: Let_def ctl_prefix_def split: prod.splits)

lemma ansicstr_quote_char:
  assumes "\<not> has_flag flags 1"
  shows "ansicstr_loop flags False (ansic_quote_char c @ s)
       = apfst (\<lambda>r. ctl_prefix flags c @ c # r) (ansicstr_loop flags False s)"
proof -
  consider (simple) "c \<in> set [ESC, CHR 0x07, CHR 0x0B, CHR 0x08, CHR 0x0C, NEWLINE, CHR 0x0D, TAB, BSLASH, SQUOTE]"
    | (octal) "c \<notin> set [ESC, CHR 0x07, CHR 0x0B, CHR 0x08, CHR 0x0C, NEWLINE, CHR 0x0D, TAB, BSLASH, SQUOTE]"
        "\<not> ISPRINT c"
    | (plain) "c \<notin> set [ESC, CHR 0x07, CHR 0x0B, CHR 0x08, CHR 0x0C, NEWLINE, CHR 0x0D, TAB, BSLASH, SQUOTE]"
        "ISPRINT c" by blast
  then show ?thesis
  proof cases
    case simple
    then obtain e where "ansic_quote_char c = [BSLASH, e]" "ansic_escape flags False e s = Some ([], c, s)"
      using assms by (auto simp: ansic_quote_char_def ansic_escape_def ansic_simple_def ISOCTAL_def)
    then show ?thesis using ansicstr_loop_escape [of flags False e s "[]" c s] by simp
  next
    case octal
    then have "ansic_quote_char c = [BSLASH, TOCHAR (code c div 64 mod 8), TOCHAR (code c div 8 mod 8), TOCHAR (code c mod 8)]"
      by (simp add: ansic_quote_char_def)
    then show ?thesis
      using ansicstr_loop_escape [OF ansic_escape_octal [OF assms, of c s]] by simp
  next
    case plain
    then have "ansic_quote_char c = [c]" "c \<noteq> BSLASH" by (simp_all add: ansic_quote_char_def)
    moreover have "ctl_prefix flags c = []"
      using plain(2) by (auto simp: ctl_prefix_def ISPRINT_def)
    ultimately show ?thesis by (simp split: prod.splits)
  qed
qed

lemma ansicstr_quote:
  "\<not> has_flag flags 1 \<Longrightarrow>
   ansicstr_loop flags False (concat (map ansic_quote_char s))
   = (concat (map (\<lambda>c. ctl_prefix flags c @ [c]) s), False)"
  by (induction s) (simp_all add: ansicstr_quote_char)

lemma concat_map_singleton_id: "concat (map (\<lambda>c. [c]) s) = s"
  by (induction s) simp_all


text \<open>The output of one step of the escape decoder is at most three bytes for at least two read.\<close>

lemma octal_escape_pre: "octal_escape flags c s = (pre, d, s') \<Longrightarrow> length pre \<le> 1"
  by (auto simp: octal_escape_def Let_def split: if_splits prod.splits)

lemma hex_escape_pre: "hex_escape flags s = (pre, d, s') \<Longrightarrow> length pre \<le> 1"
  by (auto simp: hex_escape_def Let_def split: if_splits prod.splits)

lemma ctrl_escape_pre:
  "ctrl_escape flags sawc pass s = Some (pre, d, s') \<Longrightarrow> length pass \<le> 1 \<Longrightarrow> length pre \<le> 1"
  by (auto simp: ctrl_escape_def Let_def split: if_splits)

lemma ansic_escape_pre: "ansic_escape flags sawc c s = Some (pre, d, s') \<Longrightarrow> length pre \<le> 1"
  by (auto simp: ansic_escape_def Let_def split: if_splits option.splits
      dest: octal_escape_pre hex_escape_pre ctrl_escape_pre)

lemma ansicstr_loop_length: "length (fst (ansicstr_loop flags sawc s)) \<le> 2 * length s"
proof (induction flags sawc s rule: ansicstr_loop.induct)
  case (1 flags sawc)
  then show ?case by simp
next
  case (2 flags sawc c s)
  show ?case
  proof (cases "c \<noteq> BSLASH \<or> s = []")
    case True
    with 2 show ?thesis by (auto split: prod.splits)
  next
    case False
    then obtain e s1 where s: "s = e # s1" by (cases s) auto
    show ?thesis
    proof (cases "ansic_escape flags sawc e s1")
      case None
      with False s show ?thesis by simp
    next
      case (Some x)
      obtain pre d s' where x: "x = (pre, d, s')" by (cases x)
      have "length (fst (ansicstr_loop flags sawc s')) \<le> 2 * length s'"
        using 2(2) False Some s x by simp
      then show ?thesis
        using ansic_escape_length [of flags sawc e s1 pre d s']
          ansic_escape_pre [of flags sawc e s1 pre d s'] False Some s x
        by (auto split: prod.splits)
    qed
  qed
qed

lemma ansic_quote_char_length: "length (ansic_quote_char c) \<le> 4"
  by (simp add: ansic_quote_char_def)

lemma concat_map_length_bound:
  "(\<And>c. length (f c) \<le> n) \<Longrightarrow> length (concat (map f s)) \<le> n * length s"
  by (induction s) (auto intro: add_mono)

lemma single_quote_loop_length: "length (single_quote_loop s) \<le> 4 * length s"
  by (induction s) auto

lemma double_quote_loop_length: "length (double_quote_loop s) \<le> 2 * length s"
  by (induction s) auto

lemma backslash_quote_loop_length: "length (backslash_quote_loop t flags prev s) \<le> 2 * length s"
  by (induction s arbitrary: prev) (simp_all add: le_SucI)

lemma for_double_quotes_length: "length (sh_backslash_quote_for_double_quotes s flags) \<le> 2 * length s"
  by (induction s) auto

lemma mkdoublequoted_loop_length:
  "length (mkdoublequoted_loop flags s) = length s + (if flags = 0 then 0 else count_list s DQUOTE)"
  by (induction s) auto


section \<open>Properties\<close>

text \<open>
  C20. Whatever \<^verbatim>\<open>sh_single_quote\<close>, \<^verbatim>\<open>sh_double_quote\<close> and \<^verbatim>\<open>sh_backslash_quote\<close> (with its default
  table and any flags) produce for a string, the shell's quote removal turns back into that
  string; and \<^verbatim>\<open>sh_un_double_quote\<close> undoes \<^verbatim>\<open>sh_double_quote\<close> between the double quotes.
\<close>

theorem quoting_roundtrip:
  "string_quote_removal (sh_single_quote s) 0 = s
   \<and> string_quote_removal (sh_double_quote s) 0 = s
   \<and> string_quote_removal (sh_backslash_quote s None flags) 0 = s
   \<and> sh_un_double_quote (tl (butlast (sh_double_quote s))) = s"
  using string_quote_removal_double [of s]
  by (simp add: string_quote_removal_single string_quote_removal_backslash sh_un_double_quote_def
      sh_double_quote_def un_double_quote_loop_double)

text \<open>
  C29. \<^verbatim>\<open>ansic_quote\<close> and \<^verbatim>\<open>ansicstr\<close> are inverse: the text that \<^verbatim>\<open>ansic_quote\<close> puts between \<^verbatim>\<open>$'\<close> and \<^verbatim>\<open>'\<close>
  for a non-empty string, whatever bytes it holds, is decoded to exactly that string; decoded
  for the parser (flag 2) it is the string with \<^verbatim>\<open>CTLESC\<close> before every \<^verbatim>\<open>CTLESC\<close> and \<^verbatim>\<open>CTLNUL\<close>.
\<close>

theorem ansic_roundtrip:
  assumes "s \<noteq> []"
  shows "\<exists>body. ansic_quote (Some s) = Some ([CHR ''$'', SQUOTE] @ body @ [SQUOTE])
    \<and> ansicstr (Some body) 0 False = Some (s, False)
    \<and> ansicstr (Some body) 2 False
       = Some (concat (map (\<lambda>c. if c = CTLESC \<or> c = CTLNUL then [CTLESC, c] else [c]) s), False)"
proof -
  let ?body = "concat (map ansic_quote_char s)"
  have "?body \<noteq> []"
    using assms by (cases s) (auto simp: ansic_quote_char_def)
  moreover have "concat (map (\<lambda>c. ctl_prefix 2 c @ [c]) s)
      = concat (map (\<lambda>c. if c = CTLESC \<or> c = CTLNUL then [CTLESC, c] else [c]) s)"
    by (rule arg_cong [where f = concat]) (simp add: ctl_prefix_def has_flag_def)
  moreover have "concat (map (\<lambda>c. ctl_prefix 0 c @ [c]) s) = s"
    by (simp add: ctl_prefix_def has_flag_def concat_map_singleton_id)
  ultimately show ?thesis
    using assms ansicstr_quote [of 0 s] ansicstr_quote [of 2 s]
    by (intro exI [of _ ?body]) (simp add: ansic_quote_def ansicstr_def has_flag_def)
qed

lemma ansic_roundtrip_witness:
  "[CHR 0x01, SQUOTE, CHR 0xFF] \<noteq> [] \<and>
   (\<exists>body. ansic_quote (Some [CHR 0x01, SQUOTE, CHR 0xFF]) = Some ([CHR ''$'', SQUOTE] @ body @ [SQUOTE])
      \<and> ansicstr (Some body) 0 False = Some ([CHR 0x01, SQUOTE, CHR 0xFF], False))"
  using ansic_roundtrip [of "[CHR 0x01, SQUOTE, CHR 0xFF]"] by blast

text \<open>
  C33. Six of the quoting functions, \<^verbatim>\<open>sh_single_quote\<close>, \<^verbatim>\<open>sh_double_quote\<close>, \<^verbatim>\<open>sh_backslash_quote\<close>,
  \<^verbatim>\<open>sh_backslash_quote_for_double_quotes\<close>, \<^verbatim>\<open>ansic_quote\<close> and \<^verbatim>\<open>ansicstr\<close>, stay inside the buffers they allocate for every string so short that
  four times its length and four fit an \<^verbatim>\<open>int\<close>: their results, with the terminating NUL, need at most the number of bytes passed to \<^verbatim>\<open>xmalloc\<close>.
\<close>

theorem quoting_buffers_suffice:
  assumes "4 * int (length s) + 4 \<le> INT_MAX"
  shows "int (length (sh_single_quote s)) + 1 \<le> sh_single_quote_size s
   \<and> int (length (sh_double_quote s)) + 1 \<le> sh_double_quote_size s
   \<and> int (length (sh_backslash_quote s table flags)) + 1 \<le> sh_backslash_quote_size s
   \<and> int (length (sh_backslash_quote_for_double_quotes s flags)) + 1 \<le> sh_backslash_quote_for_double_quotes_size s
   \<and> (\<forall>q. ansic_quote (Some s) = Some q \<longrightarrow> int (length q) + 1 \<le> ansic_quote_size s)
   \<and> (\<forall>r c. ansicstr (Some s) flags sawc = Some (r, c) \<longrightarrow> int (length r) + 1 \<le> ansicstr_size (int (length s)))"
proof (intro conjI allI impI)
  note sizes = in_int32_def INT_MAX_def size_t_def Let_def
  show "int (length (sh_single_quote s)) + 1 \<le> sh_single_quote_size s"
    using assms single_quote_loop_length [of s] by (simp add: sh_single_quote_def sh_single_quote_size_def sizes)
  show "int (length (sh_double_quote s)) + 1 \<le> sh_double_quote_size s"
    using assms double_quote_loop_length [of s] by (simp add: sh_double_quote_def sh_double_quote_size_def sizes)
  show "int (length (sh_backslash_quote s table flags)) + 1 \<le> sh_backslash_quote_size s"
    using assms backslash_quote_loop_length [of "case table of Some t \<Rightarrow> t | None \<Rightarrow> bstab" flags None s]
    by (simp add: sh_backslash_quote_def sh_backslash_quote_size_def sizes)
  show "int (length (sh_backslash_quote_for_double_quotes s flags)) + 1 \<le> sh_backslash_quote_for_double_quotes_size s"
    using assms for_double_quotes_length [of s flags] by (simp add: sh_backslash_quote_for_double_quotes_size_def sizes)
  show "int (length q) + 1 \<le> ansic_quote_size s" if "ansic_quote (Some s) = Some q" for q
    using assms that concat_map_length_bound [of ansic_quote_char 4 s, OF ansic_quote_char_length]
    by (auto simp: ansic_quote_def ansic_quote_size_def sizes split: if_splits)
  show "int (length r) + 1 \<le> ansicstr_size (int (length s))" if "ansicstr (Some s) flags sawc = Some (r, c)" for r c
    using assms that ansicstr_loop_length [of flags sawc s] by (auto simp: ansicstr_def ansicstr_size_def sizes split: if_splits)
qed

lemma quoting_buffers_suffice_witness:
  "ansic_quote (Some ''a'') = Some [CHR ''$'', SQUOTE, CHR ''a'', SQUOTE]
   \<and> int (length [CHR ''$'', SQUOTE, CHR ''a'', SQUOTE]) + 1 \<le> ansic_quote_size ''a'' \<and> ansic_quote_size ''a'' = 8"
proof -
  have q: "ansic_quote (Some ''a'') = Some [CHR ''$'', SQUOTE, CHR ''a'', SQUOTE]" by code_simp
  have "ansic_quote_size ''a'' = 8" by (simp add: ansic_quote_size_def size_t_def in_int32_def)
  then show ?thesis
    using q quoting_buffers_suffice [of "''a''" None 0 False] by (simp add: INT_MAX_def)
qed

text \<open>
  Of a string so long that four times its length leaves the range, the buffer of \<^verbatim>\<open>ansic_quote\<close> is too small: with \<open>2\<^sup>3\<^sup>0\<close> characters the size
  wraps to four bytes, which its result, of one character for each and the quotes, does not fit.
\<close>

lemma ansic_quote_size_wraps:
  assumes "length s = 2 ^ 30" "ansic_quote (Some s) = Some q"
  shows "int (length q) + 1 > ansic_quote_size s"
proof -
  have "length s \<le> length (concat (map ansic_quote_char s))" for s :: cstring
  proof (induction s)
    case (Cons c s)
    have "ansic_quote_char c \<noteq> []" by (simp add: ansic_quote_char_def)
    with Cons show ?case by (cases "ansic_quote_char c") auto
  qed simp
  from this [of s] show ?thesis using assms
    by (auto simp: ansic_quote_size_def ansic_quote_def size_t_def wrap32_def Let_def split: if_splits)
qed

text \<open>
  \<^verbatim>\<open>sh_mkdoublequoted\<close> does not stay inside its buffer: when asked to quote the double quotes (\<open>flags\<close> not zero) of a string
  of the given length it allocates \<open>2 * slen + 1\<close> bytes, which are too few exactly when the
  string has fewer than two characters that are not double quotes. With \<open>flags\<close> zero the
  buffer is exactly filled.
\<close>

theorem sh_mkdoublequoted_buffer:
  assumes "sh_mkdoublequoted s (int (length s)) flags = (r, n)" "2 * int (length s) + 3 \<le> INT_MAX"
  shows "(flags = 0 \<longrightarrow> int (length r) + 1 = n)
    \<and> (flags \<noteq> 0 \<longrightarrow> (int (length r) + 1 > n \<longleftrightarrow> length s < count_list s DQUOTE + 2))"
  using assms by (auto simp: sh_mkdoublequoted_def mkdoublequoted_loop_length size_t_def in_int32_def INT_MAX_def)

lemma sh_mkdoublequoted_buffer_witness:
  "sh_mkdoublequoted ''x'' (int (length ''x'')) 1 = ([DQUOTE, CHR ''x'', DQUOTE], 3)
   \<and> int (length [DQUOTE, CHR ''x'', DQUOTE]) + 1 > 3"
proof -
  have "sh_mkdoublequoted ''x'' (int (length ''x'')) 1 = ([DQUOTE, CHR ''x'', DQUOTE], 3)"
    by (simp add: sh_mkdoublequoted_def size_t_def in_int32_def)
  with sh_mkdoublequoted_buffer [OF this] show ?thesis by (simp add: INT_MAX_def)
qed

end
