(* ===== verification/Subst_Quote.thy ===== *)
theory Subst_Quote
  imports Words Shquote
begin

text \<open>
  The shell's internal quoting, from \<^verbatim>\<open>subst.c\<close>: characters protected by \<^verbatim>\<open>CTLESC\<close>, quoted null
  strings \<^verbatim>\<open>CTLNUL\<close>, and the joining of word lists under \<^verbatim>\<open>IFS\<close>. The \<^verbatim>\<open>IFS\<close> variables of the file are a
  record that \<^verbatim>\<open>setifs\<close> fills. \<^verbatim>\<open>COPY_CHAR_P\<close> and \<^verbatim>\<open>ADVANCE_CHAR\<close> move by one byte.
\<close>

definition PF_NOSPLIT2 :: int where "PF_NOSPLIT2 = 4"
definition PF_ASSIGNRHS :: int where "PF_ASSIGNRHS = 8"

section \<open>The IFS variables\<close>

text \<open>
  \<open>ifs_var\<close> is the variable, if \<^verbatim>\<open>IFS\<close> is set, with the value its cell points to; \<open>ifs_cmap\<close> tells which
  characters separate fields.
\<close>

record ifs_state =
  ifs_var :: "cstring option option"
  ifs_value :: "cstring option"
  ifs_is_set :: bool
  ifs_is_null :: bool
  ifs_cmap :: "char \<Rightarrow> bool"
  ifs_firstc :: char

definition default_ifs :: cstring where
  "default_ifs = [CHR '' '', TAB, NEWLINE]"

definition setifs :: "cstring option option \<Rightarrow> ifs_state" where
  "setifs v =
     (let value = (case v of Some (Some s) \<Rightarrow> s | _ \<Rightarrow> default_ifs)
      in \<lparr>ifs_var = v, ifs_value = Some value, ifs_is_set = (v \<noteq> None),
          ifs_is_null = (v \<noteq> None \<and> value = []),
          ifs_cmap = (\<lambda>c. c \<in> set value), ifs_firstc = char_at value 0\<rparr>)"


section \<open>Protecting characters\<close>

fun quote_escapes_loop :: "bool \<Rightarrow> bool \<Rightarrow> bool \<Rightarrow> cstring \<Rightarrow> cstring" where
  "quote_escapes_loop skip_ctlesc skip_ctlnul quote_spaces [] = []"
| "quote_escapes_loop skip_ctlesc skip_ctlnul quote_spaces (c # s) =
     (if (\<not> skip_ctlesc \<and> c = CTLESC) \<or> (\<not> skip_ctlnul \<and> c = CTLNUL) \<or> (quote_spaces \<and> c = CHR '' '')
      then [CTLESC] else [])
     @ c # quote_escapes_loop skip_ctlesc skip_ctlnul quote_spaces s"

definition quote_escapes_internal :: "ifs_state \<Rightarrow> cstring \<Rightarrow> int \<Rightarrow> cstring" where
  "quote_escapes_internal st s flags =
     (let quote_spaces = (ifs_value st = Some []);
          nosplit = has_flag flags PF_NOSPLIT2;
          ifs = (case ifs_value st of Some v \<Rightarrow> v | None \<Rightarrow> []);
          skip_ctlesc = list_ex (\<lambda>c. \<not> nosplit \<and> c = CTLESC) ifs;
          skip_ctlnul = list_ex (\<lambda>c. \<not> nosplit \<and> c = CTLNUL) ifs
      in quote_escapes_loop skip_ctlesc skip_ctlnul quote_spaces s)"

definition quote_escapes :: "ifs_state \<Rightarrow> cstring \<Rightarrow> cstring" where
  "quote_escapes st s = quote_escapes_internal st s 0"

definition quote_rhs :: "ifs_state \<Rightarrow> cstring \<Rightarrow> cstring" where
  "quote_rhs st s = quote_escapes_internal st s PF_NOSPLIT2"

definition list_quote_escapes :: "ifs_state \<Rightarrow> word_list \<Rightarrow> word_list" where
  "list_quote_escapes st list = map (\<lambda>w. w\<lparr>wd_word := quote_escapes st (wd_word w)\<rparr>) list"

fun dequote_escapes_loop :: "bool \<Rightarrow> cstring \<Rightarrow> cstring" where
  "dequote_escapes_loop quote_spaces [] = []"
| "dequote_escapes_loop quote_spaces (c # s) =
     (case s of
        d # s' \<Rightarrow>
          if c = CTLESC \<and> (d = CTLESC \<or> d = CTLNUL \<or> (quote_spaces \<and> d = CHR '' ''))
          then d # dequote_escapes_loop quote_spaces s'
          else c # dequote_escapes_loop quote_spaces s
      | [] \<Rightarrow> [c])"

definition dequote_escapes :: "ifs_state \<Rightarrow> cstring option \<Rightarrow> cstring option" where
  "dequote_escapes st string =
     (case string of
        None \<Rightarrow> None
      | Some s \<Rightarrow>
          if CTLESC \<notin> set s then Some s
          else Some (dequote_escapes_loop (ifs_value st = Some []) s))"

definition make_quoted_char :: "char \<Rightarrow> cstring" where
  "make_quoted_char c = (if c = NUL then [CTLNUL] else [CTLESC, c])"

fun quote_string_loop :: "cstring \<Rightarrow> cstring" where
  "quote_string_loop [] = []"
| "quote_string_loop (c # s) = CTLESC # c # quote_string_loop s"

definition quote_string :: "cstring \<Rightarrow> cstring" where
  "quote_string s = (if s = [] then [CTLNUL] else quote_string_loop s)"

definition QUOTED_NULL :: "cstring \<Rightarrow> bool" where
  "QUOTED_NULL s \<longleftrightarrow> s = [CTLNUL]"

fun dequote_string_loop :: "cstring \<Rightarrow> cstring" where
  "dequote_string_loop [] = []"
| "dequote_string_loop (c # s) =
     (if c = CTLESC then (case s of [] \<Rightarrow> [] | d # s' \<Rightarrow> d # dequote_string_loop s')
      else c # dequote_string_loop s)"

definition dequote_string :: "cstring \<Rightarrow> cstring" where
  "dequote_string s =
     (if QUOTED_NULL s then []
      else if s = [CTLESC] then [CTLESC]
      else if CTLESC \<notin> set s then s
      else dequote_string_loop s)"

definition quote_list :: "word_list \<Rightarrow> word_list" where
  "quote_list list =
     map (\<lambda>w. let f = (if wd_word w = [] then wd_flags w OR W_HASQUOTEDNULL else wd_flags w)
              in w\<lparr>wd_word := quote_string (wd_word w), wd_flags := f OR W_QUOTED\<rparr>) list"

definition dequote_word :: "word_desc \<Rightarrow> word_desc" where
  "dequote_word word =
     word\<lparr>wd_flags := (if QUOTED_NULL (wd_word word) then wd_flags word AND NOT W_HASQUOTEDNULL
                      else wd_flags word),
          wd_word := dequote_string (wd_word word)\<rparr>"

definition dequote_list :: "word_list \<Rightarrow> word_list" where
  "dequote_list list =
     map (\<lambda>w. w\<lparr>wd_flags := (if QUOTED_NULL (wd_word w) then wd_flags w AND NOT W_HASQUOTEDNULL
                             else wd_flags w),
               wd_word := dequote_string (wd_word w)\<rparr>) list"

definition remove_quoted_escapes :: "ifs_state \<Rightarrow> cstring option \<Rightarrow> cstring option" where
  "remove_quoted_escapes st string = dequote_escapes st string"

fun remove_quoted_ifs :: "ifs_state \<Rightarrow> cstring \<Rightarrow> cstring" where
  "remove_quoted_ifs st [] = []"
| "remove_quoted_ifs st (c # s) =
     (if c = CTLESC then
        (case s of
           [] \<Rightarrow> [CTLESC]
         | d # s' \<Rightarrow> (if \<not> ifs_cmap st d then [CTLESC] else []) @ d # remove_quoted_ifs st s')
      else c # remove_quoted_ifs st s)"

fun remove_nulls_loop :: "cstring \<Rightarrow> cstring" where
  "remove_nulls_loop [] = []"
| "remove_nulls_loop (c # s) =
     (if c = CTLESC then (case s of [] \<Rightarrow> [CTLESC] | d # s' \<Rightarrow> CTLESC # d # remove_nulls_loop s')
      else if c = CTLNUL then remove_nulls_loop s
      else c # remove_nulls_loop s)"

definition remove_quoted_nulls :: "cstring \<Rightarrow> cstring" where
  "remove_quoted_nulls s = (if CTLNUL \<notin> set s then s else remove_nulls_loop s)"

definition word_list_remove_quoted_nulls :: "word_list \<Rightarrow> word_list" where
  "word_list_remove_quoted_nulls list =
     map (\<lambda>w. w\<lparr>wd_word := remove_quoted_nulls (wd_word w),
               wd_flags := wd_flags w AND NOT W_HASQUOTEDNULL\<rparr>) list"


section \<open>Joining words\<close>

text \<open>The second loop of \<^verbatim>\<open>string_list_internal\<close>; \<open>first\<close> holds for the head of the list.\<close>

fun string_list_loop :: "cstring \<Rightarrow> bool \<Rightarrow> word_list \<Rightarrow> cstring" where
  "string_list_loop sep first [] = []"
| "string_list_loop sep first (w # t) =
     (if \<not> first \<and> sep \<noteq> [] then sep else []) @ wd_word w @ string_list_loop sep False t"

text \<open>Its first loop, which computes the size of the result.\<close>

fun string_list_size :: "cstring \<Rightarrow> bool \<Rightarrow> word_list \<Rightarrow> nat" where
  "string_list_size sep first [] = 0"
| "string_list_size sep first (w # t) =
     (if \<not> first then length sep else 0) + length (wd_word w) + string_list_size sep False t"

definition string_list_internal :: "word_list \<Rightarrow> cstring \<Rightarrow> cstring option" where
  "string_list_internal list sep =
     (case list of
        [] \<Rightarrow> None
      | [w] \<Rightarrow> Some (wd_word w)
      | _ \<Rightarrow> Some (string_list_loop sep True list))"

definition string_list :: "word_list \<Rightarrow> cstring option" where
  "string_list list = string_list_internal list '' ''"

definition ifs_sep :: "ifs_state \<Rightarrow> cstring" where
  "ifs_sep st = (if ifs_firstc st = NUL then [] else [ifs_firstc st])"

definition string_list_dollar_star :: "ifs_state \<Rightarrow> word_list \<Rightarrow> int \<Rightarrow> int \<Rightarrow> cstring option" where
  "string_list_dollar_star st list quoted flags = string_list_internal list (ifs_sep st)"

definition string_list_dollar_at :: "ifs_state \<Rightarrow> word_list \<Rightarrow> int \<Rightarrow> int \<Rightarrow> cstring option" where
  "string_list_dollar_at st list quoted flags =
     (let ifs = (case ifs_var st of Some v \<Rightarrow> v | None \<Rightarrow> None);
          sep = (if has_flag flags PF_ASSIGNRHS \<or> ifs = None \<or> ifs = Some [] then '' ''
                 else [char_at (the ifs) 0]);
          tlist = (if has_flag quoted (Q_HERE_DOCUMENT OR Q_DOUBLE_QUOTES OR Q_PATQUOTE)
                   then quote_list list else list_quote_escapes st list)
      in string_list_internal tlist sep)"

text \<open>\<open>no_split_star\<close> is the global \<^verbatim>\<open>expand_no_split_dollar_star\<close>.\<close>

definition string_list_pos_params ::
  "ifs_state \<Rightarrow> bool \<Rightarrow> char \<Rightarrow> word_list \<Rightarrow> int \<Rightarrow> int \<Rightarrow> cstring option" where
  "string_list_pos_params st no_split_star pchar list quoted pflags =
     (if pchar = CHR ''*'' \<and> has_flag quoted Q_DOUBLE_QUOTES then
        string_list_dollar_star st (word_list_remove_quoted_nulls (quote_list list)) 0 0
      else if pchar = CHR ''*'' \<and> has_flag quoted Q_HERE_DOCUMENT then
        string_list (word_list_remove_quoted_nulls (quote_list list))
      else if pchar = CHR ''*'' \<and> quoted = 0 \<and> ifs_is_null st then
        (if no_split_star then string_list_dollar_star st list quoted 0
         else string_list_dollar_at st list quoted 0)
      else if pchar = CHR ''*'' \<and> quoted = 0 \<and> has_flag pflags PF_ASSIGNRHS then
        (if no_split_star then string_list_dollar_star st list quoted 0
         else string_list_dollar_at st list quoted 0)
      else if pchar = CHR ''*'' then string_list_dollar_star st list quoted 0
      else if pchar = CHR ''@'' \<and> has_flag quoted (Q_HERE_DOCUMENT OR Q_DOUBLE_QUOTES) then
        string_list_dollar_at st list quoted 0
      else if pchar = CHR ''@'' \<and> quoted = 0 \<and> ifs_is_null st then
        string_list_dollar_at st list quoted 0
      else if pchar = CHR ''@'' \<and> quoted = 0 \<and> has_flag pflags PF_ASSIGNRHS then
        string_list_dollar_at st list quoted pflags
      else if pchar = CHR ''@'' then string_list_dollar_star st list quoted 0
      else string_list (if has_flag quoted (Q_HERE_DOCUMENT OR Q_DOUBLE_QUOTES)
                        then quote_list list else list))"

section \<open>Lemmas\<close>

lemma quote_string_not_special:
  "quote_string s \<noteq> [CTLESC]" "s \<noteq> [] \<Longrightarrow> quote_string s \<noteq> [CTLNUL]"
  by (cases s; simp add: quote_string_def)+

lemma dequote_quote_loop: "dequote_string_loop (quote_string_loop s) = s"
  by (induction s) simp_all

lemma dequote_string_quote [simp]: "dequote_string (quote_string s) = s"
proof (cases s)
  case Nil
  then show ?thesis by (simp add: dequote_string_def quote_string_def QUOTED_NULL_def)
next
  case (Cons c t)
  then show ?thesis
    using dequote_quote_loop [of s]
    by (simp add: dequote_string_def quote_string_def QUOTED_NULL_def)
qed

declare dequote_escapes_loop.simps(2) [simp del]

lemma dequote_escapes_loop_simps [simp]:
  "dequote_escapes_loop b [c] = [c]"
  "dequote_escapes_loop b (c # d # s) =
     (if c = CTLESC \<and> (d = CTLESC \<or> d = CTLNUL \<or> (b \<and> d = CHR '' ''))
      then d # dequote_escapes_loop b s else c # dequote_escapes_loop b (d # s))"
  by (simp_all add: dequote_escapes_loop.simps(2))

lemma dequote_escapes_loop_plain:
  "c \<noteq> CTLESC \<Longrightarrow> dequote_escapes_loop b (c # s) = c # dequote_escapes_loop b s"
  by (cases s) simp_all

lemma dequote_loop_unescaped:
  "CTLESC \<notin> set s \<Longrightarrow> dequote_escapes_loop b s = s"
  by (induction s) (auto simp: dequote_escapes_loop_plain)

lemma dequote_escapes_eq_loop:
  "dequote_escapes st (Some s) = Some (dequote_escapes_loop (ifs_value st = Some []) s)"
  by (simp add: dequote_escapes_def dequote_loop_unescaped)

lemma dequote_quote_escapes_loop:
  "dequote_escapes_loop b (quote_escapes_loop False False b s) = s"
  by (induction s) (auto simp: dequote_escapes_loop_plain)

lemma quote_rhs_loop:
  "quote_rhs st s = quote_escapes_loop False False (ifs_value st = Some []) s"
  by (simp add: quote_rhs_def quote_escapes_internal_def PF_NOSPLIT2_def has_flag_def Let_def
      list_ex_iff)

lemma quote_escapes_plain:
  assumes "\<And>v. ifs_value st = Some v \<Longrightarrow> CTLESC \<notin> set v \<and> CTLNUL \<notin> set v"
  shows "quote_escapes st s = quote_rhs st s"
proof -
  have "\<not> list_ex (\<lambda>c. \<not> has_flag 0 PF_NOSPLIT2 \<and> c = CTLESC)
            (case ifs_value st of Some v \<Rightarrow> v | None \<Rightarrow> [])"
       "\<not> list_ex (\<lambda>c. \<not> has_flag 0 PF_NOSPLIT2 \<and> c = CTLNUL)
            (case ifs_value st of Some v \<Rightarrow> v | None \<Rightarrow> [])"
    using assms by (auto simp: list_ex_iff split: option.splits)
  then show ?thesis
    by (simp add: quote_rhs_loop quote_escapes_def quote_escapes_internal_def Let_def)
qed

lemma dequote_quote_rhs: "dequote_escapes st (Some (quote_rhs st s)) = Some s"
  by (simp add: dequote_escapes_eq_loop quote_rhs_loop dequote_quote_escapes_loop)

lemma string_list_size_loop: "length (string_list_loop sep b l) = string_list_size sep b l"
  by (induction l arbitrary: b) auto

text \<open>Joining is the concatenation of the words with the separator in between.\<close>

fun join_words :: "cstring \<Rightarrow> cstring list \<Rightarrow> cstring" where
  "join_words sep [] = []"
| "join_words sep [w] = w"
| "join_words sep (w # v # ws) = w @ sep @ join_words sep (v # ws)"

lemma string_list_loop_join: "string_list_loop sep True l = join_words sep (map wd_word l)"
proof (induction l)
  case (Cons w l)
  then show ?case by (cases l) auto
qed simp

lemma string_list_internal_join:
  "string_list_internal l sep = (if l = [] then None else Some (join_words sep (map wd_word l)))"
proof -
  have "string_list_internal (w # v # ws) sep = Some (join_words sep (map wd_word (w # v # ws)))" for w v ws
    unfolding string_list_internal_def string_list_loop_join by simp
  then show ?thesis
    by (cases l; cases "tl l") (simp_all add: string_list_internal_def)
qed

text \<open>Cutting a joined string at a separating character that occurs in no word.\<close>

fun cut_at :: "char \<Rightarrow> cstring \<Rightarrow> cstring list" where
  "cut_at c [] = [[]]"
| "cut_at c (d # s) =
     (if d = c then [] # cut_at c s
      else case cut_at c s of [] \<Rightarrow> [[d]] | w # ws \<Rightarrow> (d # w) # ws)"

lemma cut_at_plain: "c \<notin> set w \<Longrightarrow> cut_at c w = [w]"
  by (induction w) auto

lemma cut_at_append: "c \<notin> set w \<Longrightarrow> cut_at c (w @ c # s) = w # cut_at c s"
  by (induction w) auto

lemma cut_at_join:
  "ws \<noteq> [] \<Longrightarrow> \<forall>w \<in> set ws. c \<notin> set w \<Longrightarrow> cut_at c (join_words [c] ws) = ws"
  by (induction "[c]" ws rule: join_words.induct) (auto simp: cut_at_plain cut_at_append)

lemma remove_nulls_quote_loop: "remove_nulls_loop (quote_string_loop s) = quote_string_loop s"
  by (induction s) simp_all

lemma remove_quoted_nulls_quote:
  "remove_quoted_nulls (quote_string s) = quote_string_loop s"
  by (simp add: remove_quoted_nulls_def quote_string_def remove_nulls_quote_loop)

lemma dequote_loop_append_quote:
  "dequote_string_loop (quote_string_loop s @ t) = s @ dequote_string_loop t"
  by (induction s) simp_all

lemma ifs_sep_setifs: "c \<noteq> NUL \<Longrightarrow> ifs_sep (setifs (Some (Some (c # v)))) = [c]"
  by (simp add: setifs_def ifs_sep_def Let_def char_at_def)

lemma has_flag_self [simp]: "has_flag Q_DOUBLE_QUOTES Q_DOUBLE_QUOTES"
  by (simp add: has_flag_def Q_DOUBLE_QUOTES_def)

lemma quoted_nulls_words:
  "map wd_word (word_list_remove_quoted_nulls (quote_list l)) = map quote_string_loop (map wd_word l)"
  by (simp add: word_list_remove_quoted_nulls_def quote_list_def Let_def remove_quoted_nulls_quote)

lemma quoted_nulls_Nil [simp]:
  "word_list_remove_quoted_nulls (quote_list l) = [] \<longleftrightarrow> l = []"
  by (simp add: word_list_remove_quoted_nulls_def quote_list_def)

lemma dequote_loop_join:
  assumes "c \<noteq> CTLESC"
  shows "dequote_string_loop (join_words [c] (map quote_string_loop ws)) = join_words [c] ws"
proof (induction "[c]" ws rule: join_words.induct)
  case (2 w)
  then show ?case by (simp add: dequote_quote_loop)
next
  case (3 w v ws)
  then show ?case using assms by (simp add: dequote_loop_append_quote)
qed simp


section \<open>Properties\<close>

text \<open>
  C28. Quoting a string internally and dequoting it gives the string back, whatever bytes it
  holds: \<^verbatim>\<open>dequote_string\<close> undoes \<^verbatim>\<open>quote_string\<close>, the empty string (the quoted null) included; so
  \<^verbatim>\<open>dequote_list\<close> gives back the words that \<^verbatim>\<open>quote_list\<close> quoted, and \<^verbatim>\<open>dequote_escapes\<close> undoes
  \<^verbatim>\<open>quote_rhs\<close> under every \<^verbatim>\<open>IFS\<close>.
\<close>

theorem internal_quoting_roundtrip:
  "dequote_string (quote_string s) = s
   \<and> map wd_word (dequote_list (quote_list l)) = map wd_word l
   \<and> dequote_escapes st (Some (quote_rhs st s)) = Some s"
  by (simp add: dequote_list_def quote_list_def Let_def dequote_quote_rhs comp_def)



text \<open>
  \<^verbatim>\<open>quote_escapes\<close> is undone by \<^verbatim>\<open>dequote_escapes\<close> as long as \<^verbatim>\<open>IFS\<close> holds neither \<^verbatim>\<open>CTLESC\<close> nor
  \<^verbatim>\<open>CTLNUL\<close>; and the size that the first loop of \<^verbatim>\<open>string_list_internal\<close> computes is exactly the
  number of bytes its second loop writes.
\<close>

theorem quote_escapes_roundtrip:
  assumes "CTLESC \<notin> set ifs" and "CTLNUL \<notin> set ifs"
  shows "dequote_escapes (setifs (Some (Some ifs))) (Some (quote_escapes (setifs (Some (Some ifs))) s)) = Some s
         \<and> string_list_size sep True l = length (string_list_loop sep True l)"
proof -
  have "quote_escapes (setifs (Some (Some ifs))) s = quote_rhs (setifs (Some (Some ifs))) s"
    using assms by (intro quote_escapes_plain) (auto simp: setifs_def Let_def)
  then show ?thesis by (simp add: dequote_quote_rhs string_list_size_loop)
qed

lemma quote_escapes_roundtrip_witness:
  "dequote_escapes (setifs (Some (Some '' ''))) (Some (quote_escapes (setifs (Some (Some '' ''))) [CTLESC, CHR ''a'', CTLNUL]))
     = Some [CTLESC, CHR ''a'', CTLNUL]
   \<and> string_list_size '' '' True [\<lparr>wd_word = ''ab'', wd_flags = 0\<rparr>, \<lparr>wd_word = ''c'', wd_flags = 0\<rparr>] = 4"
  using quote_escapes_roundtrip [of "'' ''" "[CTLESC, CHR ''a'', CTLNUL]" "'' ''"
      "[\<lparr>wd_word = ''ab'', wd_flags = 0\<rparr>, \<lparr>wd_word = ''c'', wd_flags = 0\<rparr>]"]
  by simp

end
