(* ===== verification/Itos.thy ===== *)
theory Itos
  imports Bash_Prelude
begin

text \<open>
  Printing integers: \<^verbatim>\<open>lib/sh/fmtulong.c\<close>, which \<^verbatim>\<open>fmtumax.c\<close> compiles at \<^verbatim>\<open>uintmax_t\<close>, and its
  callers in \<^verbatim>\<open>lib/sh/itos.c\<close>. The digits are written from the end of the buffer to its front, so the
  text already written is an accumulator that grows at its head. The buffer is \<open>len\<close> bytes and the code does not
  look whether it is full: a text that does not fit with its terminator is written before the buffer, which is the outcome \<open>None\<close>.
\<close>

type_synonym uintmax = "64 word"

definition FL_PREFIX :: int where "FL_PREFIX = 1"
definition FL_ADDBASE :: int where "FL_ADDBASE = 2"
definition FL_HEXUPPER :: int where "FL_HEXUPPER = 4"
definition FL_UNSIGNED :: int where "FL_UNSIGNED = 8"

definition x_digs :: cstring where "x_digs = ''0123456789abcdef''"
definition X_digs :: cstring where "X_digs = ''0123456789ABCDEF''"

definition FMTCHAR :: "nat \<Rightarrow> char" where
  "FMTCHAR x = (if x < 10 then char_of (x + 48)
     else if x < 36 then char_of (x - 10 + 97)
     else if x < 62 then char_of (x - 36 + 65)
     else if x = 62 then CHR ''@'' else CHR ''_'')"

text \<open>
  The three kinds of \<^verbatim>\<open>do ... while\<close> loops: on a non-negative \<^verbatim>\<open>LONG\<close> in base ten, by masking and
  shifting, and by division.
\<close>

function fmt_decimal :: "nat \<Rightarrow> cstring \<Rightarrow> cstring" where
  "fmt_decimal si p =
     (let p = TOCHAR (si mod 10) # p; si' = si div 10
      in if si' \<noteq> 0 then fmt_decimal si' p else p)"
  by auto
termination
  by (relation "measure fst") auto

function fmt_shift :: "nat \<Rightarrow> uintmax \<Rightarrow> (nat \<Rightarrow> char) \<Rightarrow> uintmax \<Rightarrow> cstring \<Rightarrow> cstring" where
  "fmt_shift k m f ui p =
     (let p = f (unat (ui AND m)) # p; ui' = drop_bit (Suc k) ui
      in if ui' \<noteq> 0 then fmt_shift k m f ui' p else p)"
  by auto

lemma unat_drop_div: "unat (drop_bit n (w :: uintmax)) = unat w div 2 ^ n"
  unfolding unat_drop_bit_eq by (rule drop_bit_eq_div)

lemma drop_bit_less_word: "drop_bit (Suc k) (ui :: uintmax) \<noteq> 0 \<Longrightarrow> unat (drop_bit (Suc k) ui) < unat ui"
proof -
  assume "drop_bit (Suc k) ui \<noteq> 0"
  then have "unat ui \<noteq> 0"
    by (metis drop_bit_of_0 unat_0_iff)
  have "(1::nat) < 2 ^ Suc k" by (rule one_less_power) simp_all
  moreover have "unat (drop_bit (Suc k) ui) = unat ui div 2 ^ Suc k"
    by (rule unat_drop_div)
  ultimately show ?thesis
    using \<open>unat ui \<noteq> 0\<close> by (metis div_less_dividend neq0_conv)
qed

termination fmt_shift
  by (relation "measure (\<lambda>(k, m, f, ui, p). unat ui)") (auto simp: drop_bit_less_word)

function fmt_divide :: "nat \<Rightarrow> nat \<Rightarrow> cstring \<Rightarrow> cstring" where
  "fmt_divide base ui p =
     (let p = FMTCHAR (ui mod base) # p; ui' = ui div base
      in if ui' \<noteq> 0 \<and> 1 < base then fmt_divide base ui' p else p)"
  by auto
termination
  by (relation "measure (\<lambda>(base, ui, p). ui)") (auto intro!: div_less_dividend intro: gr0I)

declare fmt_decimal.simps [simp del] fmt_shift.simps [simp del] fmt_divide.simps [simp del]

text \<open>
  \<^verbatim>\<open>fmtulong\<close> returns the text, or \<^verbatim>\<open>invalid base\<close> (cut to the size of the buffer). \<open>(LONG)ui < 0\<close> is
  the top bit.
\<close>

definition fmt_digits :: "uintmax \<Rightarrow> nat \<Rightarrow> int \<Rightarrow> cstring" where
  "fmt_digits ui base flags =
     (if base = 10 then
        (if ui < 10 then [TOCHAR (unat ui)]
         else if bit ui 63 then fmt_decimal (unat (ui div 10)) [TOCHAR (unat (ui mod 10))]
         else fmt_decimal (unat ui) [])
      else if base = 8 then fmt_shift 2 7 TOCHAR ui []
      else if base = 16 then
        fmt_shift 3 15 (\<lambda>d. if has_flag flags FL_HEXUPPER then X_digs ! d else x_digs ! d) ui []
      else if base = 2 then fmt_shift 0 1 TOCHAR ui []
      else fmt_divide base (unat ui) [])"

definition fmt_prefix :: "nat \<Rightarrow> int \<Rightarrow> cstring \<Rightarrow> cstring" where
  "fmt_prefix base flags p =
     (if has_flag flags FL_PREFIX \<and> (base = 8 \<or> base = 16) then
        (if base = 16 then CHR ''0'' # (if has_flag flags FL_HEXUPPER then CHR ''X'' else CHR ''x'') # p
         else if p ! 0 \<noteq> CHR ''0'' then CHR ''0'' # p
         else p)
      else if has_flag flags FL_ADDBASE \<and> base \<noteq> 10 then
        (if base > 10 then [TOCHAR (base div 10)] else []) @ TOCHAR (base mod 10) # CHR ''#'' # p
      else p)"

definition fmtulong :: "uintmax \<Rightarrow> int \<Rightarrow> nat \<Rightarrow> int \<Rightarrow> cstring option" where
  "fmtulong ui base0 len flags =
     (let base = (if base0 = 0 then 10 else base0)
      in if base < 2 \<or> base > 64 then (if len = 0 then None else Some (take (len - 1) ''invalid base''))
         else
           let neg = (\<not> has_flag flags FL_UNSIGNED \<and> bit ui 63);
               ui = (if neg then - ui else ui);
               p = fmt_prefix (nat base) flags (fmt_digits ui (nat base) flags);
               p = (if neg then CHR ''-'' # p else p)
           in if length p < len then Some p else None)"

text \<open>
  \<^verbatim>\<open>INT_STRLEN_BOUND(intmax_t) + 1\<close> and \<^verbatim>\<open>INT_STRLEN_BOUND(uintmax_t) + 1\<close>. The functions with a buffer of their own return the
  text: \<open>the\<close> is applied only to outcomes that are defined, as \<open>itos_defined\<close> shows.
\<close>

definition intmax_bufsize :: nat where "intmax_bufsize = 63 * 302 div 1000 + 2 + 1"
definition uintmax_bufsize :: nat where "uintmax_bufsize = 64 * 302 div 1000 + 1 + 1"

definition inttostr :: "int \<Rightarrow> nat \<Rightarrow> cstring option" where
  "inttostr i len = fmtulong (word_of_int i) 10 len 0"

definition itos :: "int \<Rightarrow> cstring" where
  "itos i = the (fmtulong (word_of_int i) 10 intmax_bufsize 0)"

definition mitos :: "int \<Rightarrow> cstring" where
  "mitos i = the (fmtulong (word_of_int i) 10 intmax_bufsize 0)"

definition uinttostr :: "uintmax \<Rightarrow> nat \<Rightarrow> cstring option" where
  "uinttostr i len = fmtulong i 10 len FL_UNSIGNED"

definition uitos :: "uintmax \<Rightarrow> cstring" where
  "uitos i = the (fmtulong i 10 uintmax_bufsize FL_UNSIGNED)"


section \<open>Lemmas\<close>

text \<open>The digits of a number, most significant first.\<close>

function digits :: "nat \<Rightarrow> nat \<Rightarrow> nat list" where
  "digits b n = (if n < b \<or> b < 2 then [n] else digits b (n div b) @ [n mod b])"
  by auto
termination
  by (relation "measure snd") (auto simp: div_less_dividend)

declare digits.simps [simp del]

definition value_of :: "nat \<Rightarrow> nat list \<Rightarrow> nat" where
  "value_of b ds = foldl (\<lambda>v d. v * b + d) 0 ds"

lemma value_of_snoc [simp]: "value_of b (ds @ [d]) = value_of b ds * b + d"
  by (simp add: value_of_def)

lemma value_of_digits: "2 \<le> b \<Longrightarrow> value_of b (digits b n) = n"
proof (induction b n rule: digits.induct)
  case (1 b n)
  then show ?case by (subst digits.simps) (auto simp: value_of_def)
qed

lemma digits_less: "2 \<le> b \<Longrightarrow> \<forall>d \<in> set (digits b n). d < b"
proof (induction b n rule: digits.induct)
  case (1 b n)
  then show ?case by (subst digits.simps) auto
qed

lemma digits_not_Nil [simp]: "digits b n \<noteq> []"
  by (subst digits.simps) simp

lemma length_digits: "2 \<le> b \<Longrightarrow> n < b ^ Suc k \<Longrightarrow> length (digits b n) \<le> Suc k"
proof (induction k arbitrary: n)
  case 0
  then show ?case by (simp add: digits.simps)
next
  case (Suc k)
  show ?case
  proof (cases "n < b")
    case True
    then show ?thesis by (simp add: digits.simps)
  next
    case False
    have "n div b < b ^ Suc k"
      using Suc.prems by (simp add: less_mult_imp_div_less mult.commute)
    with Suc.IH [of "n div b"] Suc.prems(1) False show ?thesis
      by (subst digits.simps) simp
  qed
qed

lemma digits_head_zero: "2 \<le> b \<Longrightarrow> hd (digits b n) = 0 \<longleftrightarrow> n = 0"
proof (induction b n rule: digits.induct)
  case (1 b n)
  then show ?case by (subst digits.simps) (auto simp: div_eq_0_iff)
qed

lemma fmt_divide_digits: "2 \<le> b \<Longrightarrow> fmt_divide b n p = map FMTCHAR (digits b n) @ p"
proof (induction b n p rule: fmt_divide.induct)
  case (1 b n p)
  then show ?case
    by (subst fmt_divide.simps, subst digits.simps) (auto simp: Let_def div_eq_0_iff)
qed

lemma fmt_decimal_digits: "fmt_decimal n p = map TOCHAR (digits 10 n) @ p"
proof (induction n p rule: fmt_decimal.induct)
  case (1 n p)
  then show ?case
    by (subst fmt_decimal.simps, subst digits.simps) (auto simp: Let_def div_eq_0_iff)
qed

lemma fmt_shift_digits:
  assumes "m = mask (Suc k)"
  shows "fmt_shift k m f ui p = map f (digits (2 ^ Suc k) (unat ui)) @ p"
  using assms
proof (induction k m f ui p rule: fmt_shift.induct)
  case (1 k m f ui p)
  have d: "unat (drop_bit (Suc k) ui) = unat ui div 2 ^ Suc k"
    by (rule unat_drop_div)
  have m: "unat (ui AND m) = unat ui mod 2 ^ Suc k"
    unfolding 1(2) take_bit_eq_mask [symmetric] unsigned_take_bit_eq by (rule take_bit_eq_mod)
  have z: "drop_bit (Suc k) ui = 0 \<longleftrightarrow> unat ui < 2 ^ Suc k"
    using d by (metis div_eq_0_iff unat_0_iff zero_less_numeral zero_less_power not_gr_zero)
  have two: "\<not> (2::nat) ^ Suc k < 2" by simp
  show ?case
    using 1 by (subst fmt_shift.simps, subst digits.simps) (simp add: Let_def d m m [unfolded 1(2)] z two del: power_Suc)
qed

lemma FMTCHAR_small: "n < 10 \<Longrightarrow> TOCHAR n = FMTCHAR n"
  by (simp add: TOCHAR_def FMTCHAR_def)

lemma x_digs_FMTCHAR: "d < 16 \<Longrightarrow> x_digs ! d = FMTCHAR d"
proof -
  have "\<forall>d \<in> {..<16}. x_digs ! d = FMTCHAR d" by code_simp
  then show "d < 16 \<Longrightarrow> x_digs ! d = FMTCHAR d" by simp
qed

lemma map_digits_cong:
  "2 \<le> b \<Longrightarrow> (\<And>d. d < b \<Longrightarrow> f d = g d) \<Longrightarrow> map f (digits b n) = map g (digits b n)"
  using digits_less by auto

lemma small_digits: "2 \<le> b \<Longrightarrow> b \<le> 10 \<Longrightarrow> map TOCHAR (digits b n) = map FMTCHAR (digits b n)"
  by (rule map_digits_cong) (auto simp: FMTCHAR_small)

lemma hex_digits: "map (\<lambda>d. x_digs ! d) (digits 16 n) = map FMTCHAR (digits 16 n)"
  by (rule map_digits_cong) (auto simp: x_digs_FMTCHAR)

text \<open>Whatever loop a base takes, the digits are those of the number in that base.\<close>

lemma fmt_digits_eq:
  assumes "2 \<le> base" and "\<not> has_flag flags FL_HEXUPPER"
  shows "fmt_digits ui base flags = map FMTCHAR (digits base (unat ui))"
proof -
  have ten: "fmt_digits ui 10 flags = map TOCHAR (digits 10 (unat ui))"
  proof (cases "ui < 10")
    case True
    then have "unat ui < 10" by (simp add: word_less_nat_alt)
    with True show ?thesis by (simp add: fmt_digits_def digits.simps)
  next
    case False
    then have "\<not> unat ui < 10" by (simp add: word_less_nat_alt)
    then have "digits 10 (unat ui) = digits 10 (unat ui div 10) @ [unat ui mod 10]"
      by (subst digits.simps) simp
    with False show ?thesis
      by (simp add: fmt_digits_def fmt_decimal_digits unat_div unat_mod)
  qed
  have "fmt_digits ui 8 flags = map TOCHAR (digits 8 (unat ui))"
    using fmt_shift_digits [of 7 2 TOCHAR ui "[]"] by (simp add: fmt_digits_def mask_eq_exp_minus_1)
  moreover have "fmt_digits ui 2 flags = map TOCHAR (digits 2 (unat ui))"
    using fmt_shift_digits [of 1 0 TOCHAR ui "[]"] by (simp add: fmt_digits_def mask_eq_exp_minus_1)
  moreover have "fmt_digits ui 16 flags = map (\<lambda>d. x_digs ! d) (digits 16 (unat ui))"
    using fmt_shift_digits [of 15 3 "\<lambda>d. x_digs ! d" ui "[]"] assms(2)
    by (simp add: fmt_digits_def mask_eq_exp_minus_1)
  moreover have "fmt_digits ui base flags = map FMTCHAR (digits base (unat ui))"
    if "base \<noteq> 10" "base \<noteq> 8" "base \<noteq> 16" "base \<noteq> 2"
    using that assms(1) by (simp add: fmt_digits_def fmt_divide_digits)
  ultimately show ?thesis
    using ten small_digits [of 10] small_digits [of 8] small_digits [of 2] hex_digits
    by (cases "base = 10"; cases "base = 8"; cases "base = 16"; cases "base = 2") simp_all
qed

lemma bit_63_neg: "in_int64 i \<Longrightarrow> bit (word_of_int i :: uintmax) 63 \<longleftrightarrow> i < 0"
proof -
  assume i: "in_int64 i"
  have "bit (word_of_int i :: uintmax) 63 \<longleftrightarrow> sint (word_of_int i :: uintmax) < 0"
    using bit_last_iff [of "word_of_int i :: uintmax"] by simp
  moreover have "sint (word_of_int i :: uintmax) = i"
    using i by (simp add: in_int64_def signed_of_int signed_take_bit_int_eq_self)
  ultimately show ?thesis by simp
qed

lemma unat_of_int_64: "0 \<le> i \<Longrightarrow> i < 2 ^ 64 \<Longrightarrow> unat (word_of_int i :: uintmax) = nat i"
  by (simp add: unsigned_of_int take_bit_int_eq_self)

text \<open>The texts that \<^verbatim>\<open>fmtulong\<close> writes in base ten fit the buffers of its callers.\<close>

lemma length_decimal: "length (digits 10 (unat (ui :: uintmax))) \<le> 20"
proof -
  have "unat ui < 2 ^ 64" using unsigned_less [of ui] by simp
  then show ?thesis using length_digits [of 10 "unat ui" 19] by simp
qed

lemma fmtulong_decimal:
  "fmtulong ui 10 intmax_bufsize 0 = Some (if bit ui 63 then CHR ''-'' # map FMTCHAR (digits 10 (unat (- ui))) else map FMTCHAR (digits 10 (unat ui)))"
  "fmtulong ui 10 uintmax_bufsize FL_UNSIGNED = Some (map FMTCHAR (digits 10 (unat ui)))"
  using length_decimal [of ui] length_decimal [of "- ui"]
  by (auto simp: fmtulong_def fmt_prefix_def fmt_digits_eq has_flag_def FL_PREFIX_def FL_ADDBASE_def FL_HEXUPPER_def FL_UNSIGNED_def
      intmax_bufsize_def uintmax_bufsize_def Let_def)

lemma itos_defined:
  "inttostr i intmax_bufsize = Some (itos i)" "inttostr i intmax_bufsize = Some (mitos i)" "uinttostr ui uintmax_bufsize = Some (uitos ui)"
  by (simp_all add: inttostr_def itos_def mitos_def uinttostr_def uitos_def fmtulong_decimal)

text \<open>What the callers in base ten print.\<close>

lemma itos_eq:
  assumes "in_int64 i"
  shows "itos i = (if i < 0 then CHR ''-'' # map FMTCHAR (digits 10 (nat (- i)))
                   else map FMTCHAR (digits 10 (nat i)))"
proof -
  have b: "0 \<le> \<bar>i\<bar>" "\<bar>i\<bar> < 2 ^ 64" using assms by (auto simp: in_int64_def)
  have "unat (- word_of_int i :: uintmax) = nat (- i)" if "i < 0"
    using unat_of_int_64 [of "- i"] that b by simp
  with b unat_of_int_64 [of i] show ?thesis
    by (auto simp: itos_def fmtulong_decimal bit_63_neg [OF assms])
qed

end
