(* ===== verification/Array.thy ===== *)
theory Array
  imports Subst_Quote Itos
begin

text \<open>
  Indexed arrays, from \<^verbatim>\<open>array.c\<close>. An array is a circular doubly linked list of elements around a
  dummy head whose index is \<open>-1\<close>, kept in increasing order of the indices, with a roving pointer
  \<^verbatim>\<open>lastref\<close> to the element touched last. The model keeps the elements after the head as a list; a
  pointer to an element is its position, with 0 for the head, so \<^verbatim>\<open>element_forw\<close> and \<^verbatim>\<open>element_back\<close>
  move around the ring. An array pointer that may be \<^verbatim>\<open>NULL\<close> is an option. The functions that follow
  a value pointer return an option, with \<open>None\<close> for the access through a \<^verbatim>\<open>NULL\<close> value.
\<close>

type_synonym array_element = "int \<times> cstring option"

record array =
  max_index :: int
  num_elements :: int
  elements :: "array_element list"
  lastref :: "nat option"

definition AS_DISPOSE :: int where "AS_DISPOSE = 1"

section \<open>The ring of elements\<close>

definition element_forw :: "array \<Rightarrow> nat \<Rightarrow> nat" where
  "element_forw a p = (if p < length (elements a) then p + 1 else 0)"

definition element_back :: "array \<Rightarrow> nat \<Rightarrow> nat" where
  "element_back a p = (if p = 0 then length (elements a) else p - 1)"

definition element_index :: "array \<Rightarrow> nat \<Rightarrow> int" where
  "element_index a p = (if p = 0 then -1 else fst (elements a ! (p - 1)))"

definition element_value :: "array \<Rightarrow> nat \<Rightarrow> cstring option" where
  "element_value a p = (if p = 0 then None else snd (elements a ! (p - 1)))"

text \<open>A pointer to an element other than the head.\<close>

definition is_element :: "array \<Rightarrow> nat \<Rightarrow> bool" where
  "is_element a p \<longleftrightarrow> 0 < p \<and> p \<le> length (elements a)"

text \<open>Linking a new element into the ring, and where it then stands.\<close>

definition ADD_BEFORE :: "nat \<Rightarrow> array_element \<Rightarrow> array \<Rightarrow> array \<times> nat" where
  "ADD_BEFORE p e a =
     (if p = 0 then (a\<lparr>elements := elements a @ [e]\<rparr>, length (elements a) + 1)
      else (a\<lparr>elements := take (p - 1) (elements a) @ e # drop (p - 1) (elements a)\<rparr>, p))"

definition ADD_AFTER :: "nat \<Rightarrow> array_element \<Rightarrow> array \<Rightarrow> array \<times> nat" where
  "ADD_AFTER p e a = (a\<lparr>elements := take p (elements a) @ e # drop p (elements a)\<rparr>, p + 1)"

definition LASTREF :: "array \<Rightarrow> nat" where
  "LASTREF a = (case lastref a of Some p \<Rightarrow> p | None \<Rightarrow> element_forw a 0)"

definition array_first_index :: "array \<Rightarrow> int" where
  "array_first_index a = element_index a (element_forw a 0)"

definition array_empty :: "array \<Rightarrow> bool" where
  "array_empty a \<longleftrightarrow> num_elements a = 0"


section \<open>Whole arrays\<close>

definition array_create :: array where
  "array_create = \<lparr>max_index = -1, num_elements = 0, elements = [], lastref = None\<rparr>"

definition array_flush :: "array \<Rightarrow> array" where
  "array_flush a = a\<lparr>elements := [], max_index := -1, num_elements := 0, lastref := None\<rparr>"

text \<open>
  \<^verbatim>\<open>array_copy\<close>: elements are appended one by one, and the copy of the element \<^verbatim>\<open>LASTREF\<close> points to
  becomes the roving pointer of the copy.
\<close>

fun copy_loop :: "array \<Rightarrow> nat \<Rightarrow> array_element list \<Rightarrow> array \<Rightarrow> array" where
  "copy_loop a ae [] a1 = a1"
| "copy_loop a ae (e # es) a1 =
     (let (a1, new) = ADD_BEFORE 0 e a1;
          a1 = (if ae = LASTREF a then a1\<lparr>lastref := Some new\<rparr> else a1)
      in copy_loop a (ae + 1) es a1)"

definition array_copy :: "array option \<Rightarrow> array option" where
  "array_copy ap = map_option (\<lambda>a.
     copy_loop a 1 (elements a)
       (array_create\<lparr>max_index := max_index a, num_elements := num_elements a\<rparr>)) ap"

text \<open>\<^verbatim>\<open>array_slice\<close> copies the elements from \<open>s\<close> up to, but not including, \<open>e\<close>.\<close>

function slice_loop :: "array \<Rightarrow> nat \<Rightarrow> nat \<Rightarrow> int \<Rightarrow> int \<Rightarrow> array \<Rightarrow> array" where
  "slice_loop a p e mi i r =
     (if p = e \<or> length (elements a) < p \<or> length (elements a) < e
      then r\<lparr>num_elements := i, max_index := mi\<rparr>
      else slice_loop a (element_forw a p) e (element_index a p) (i + 1)
             (fst (ADD_BEFORE 0 (element_index a p, element_value a p) r)))"
  by auto
termination
  by (relation "measure (\<lambda>(a, p, e, mi, i, r).
        if p \<le> e then e - p else e + Suc (length (elements a)) - p)")
     (auto simp: element_forw_def)

definition array_slice :: "array \<Rightarrow> nat \<Rightarrow> nat \<Rightarrow> array" where
  "array_slice a s e = slice_loop a s e 0 0 array_create"

text \<open>
  \<^verbatim>\<open>array_walk\<close>: the callback may change the element and its own data; a negative result stops.
\<close>

fun walk_loop ::
  "(array_element \<Rightarrow> 'u \<Rightarrow> int \<times> array_element \<times> 'u) \<Rightarrow> array_element list \<Rightarrow> 'u \<Rightarrow> array_element list \<times> 'u" where
  "walk_loop func [] udata = ([], udata)"
| "walk_loop func (e # es) udata =
     (case func e udata of (r, e', udata') \<Rightarrow>
        if r < 0 then (e' # es, udata')
        else (case walk_loop func es udata' of (es', u) \<Rightarrow> (e' # es', u)))"

definition array_walk ::
  "array option \<Rightarrow> (array_element \<Rightarrow> 'u \<Rightarrow> int \<times> array_element \<times> 'u) \<Rightarrow> 'u \<Rightarrow> array option \<times> 'u" where
  "array_walk ap func udata =
     (case ap of
        None \<Rightarrow> (None, udata)
      | Some a \<Rightarrow>
          if array_empty a then (Some a, udata)
          else (case walk_loop func (elements a) udata of (es, u) \<Rightarrow> (Some (a\<lparr>elements := es\<rparr>), u)))"

text \<open>
  \<^verbatim>\<open>array_shift\<close> returns the chain of elements shifted out, or \<^verbatim>\<open>NULL\<close> (\<open>[]\<close>) when it disposed of them.
\<close>

definition array_shift :: "array option \<Rightarrow> int \<Rightarrow> int \<Rightarrow> array_element list \<times> array option" where
  "array_shift ap n flags =
     (case ap of
        None \<Rightarrow> ([], None)
      | Some a \<Rightarrow>
          if array_empty a \<or> n \<le> 0 then ([], Some a)
          else
            let a = a\<lparr>lastref := None\<rparr>;
                ret = take (nat n) (elements a);
                rest = drop (nat n) (elements a)
            in if rest = [] then
                 (if has_flag flags AS_DISPOSE then ([], Some (array_flush a))
                  else (ret, Some (a\<lparr>elements := [], max_index := -1, num_elements := 0\<rparr>)))
               else
                 let rest = map (\<lambda>(j, v). (wrap64 (j - n), v)) rest;
                     a = a\<lparr>elements := rest, num_elements := num_elements a - n,
                           max_index := fst (last rest)\<rparr>
                 in (if has_flag flags AS_DISPOSE then [] else ret, Some a))"

definition array_rshift :: "array option \<Rightarrow> int \<Rightarrow> cstring option \<Rightarrow> int \<times> array option" where
  "array_rshift ap n s =
     (case ap of
        None \<Rightarrow> (0, None)
      | Some a \<Rightarrow>
          if array_empty a \<and> s = None then (0, Some a)
          else if n \<le> 0 then (num_elements a, Some a)
          else
            let ae = elements a;
                new = (case s of Some v \<Rightarrow> [(0, Some v)] | None \<Rightarrow> []);
                a = (if s \<noteq> None then a\<lparr>num_elements := num_elements a + 1\<rparr> else a)
            in if s \<noteq> None \<and> num_elements a = 1
               then (1, Some (a\<lparr>elements := new @ ae, max_index := 0\<rparr>))
               else
                 let es = new @ map (\<lambda>(j, v). (wrap64 (j + n), v)) ae
                 in (num_elements a,
                     Some (a\<lparr>elements := es, max_index := (if es = [] then -1 else fst (last es)),
                             lastref := None\<rparr>)))"

definition array_unshift_element :: "array option \<Rightarrow> array_element list \<times> array option" where
  "array_unshift_element a = array_shift a 1 0"

definition array_shift_element :: "array option \<Rightarrow> cstring option \<Rightarrow> int \<times> array option" where
  "array_shift_element a v = array_rshift a 1 v"


section \<open>Quoting every value\<close>

text \<open>
  The loops that replace each value in place, and the common shape of the functions around them.
  The boolean tells whether the function returned the array or \<^verbatim>\<open>NULL\<close>.
\<close>

fun map_values ::
  "(cstring option \<Rightarrow> cstring option option) \<Rightarrow> array_element list \<Rightarrow> array_element list option" where
  "map_values f [] = Some []"
| "map_values f ((j, v) # es) =
     (case f v of
        None \<Rightarrow> None
      | Some v' \<Rightarrow> map_option (\<lambda>es'. (j, v') # es') (map_values f es))"

definition replace_values ::
  "(cstring option \<Rightarrow> cstring option option) \<Rightarrow> array option \<Rightarrow> (bool \<times> array option) option" where
  "replace_values f ap =
     (case ap of
        None \<Rightarrow> Some (False, None)
      | Some a \<Rightarrow>
          if array_empty a then Some (False, Some a)
          else map_option (\<lambda>es. (True, Some (a\<lparr>elements := es\<rparr>))) (map_values f (elements a)))"

definition array_quote :: "array option \<Rightarrow> (bool \<times> array option) option" where
  "array_quote a = replace_values (map_option (\<lambda>v. Some (quote_string v))) a"

definition array_quote_escapes :: "ifs_state \<Rightarrow> array option \<Rightarrow> (bool \<times> array option) option" where
  "array_quote_escapes st a = replace_values (map_option (\<lambda>v. Some (quote_escapes st v))) a"

definition array_dequote :: "array option \<Rightarrow> (bool \<times> array option) option" where
  "array_dequote a = replace_values (map_option (\<lambda>v. Some (dequote_string v))) a"

definition array_dequote_escapes :: "ifs_state \<Rightarrow> array option \<Rightarrow> (bool \<times> array option) option" where
  "array_dequote_escapes st a = replace_values (\<lambda>v. Some (dequote_escapes st v)) a"

definition array_remove_quoted_nulls :: "array option \<Rightarrow> (bool \<times> array option) option" where
  "array_remove_quoted_nulls a = replace_values (map_option (\<lambda>v. Some (remove_quoted_nulls v))) a"


section \<open>Elements\<close>

definition array_create_element :: "int \<Rightarrow> cstring option \<Rightarrow> array_element" where
  "array_create_element indx value = (indx, value)"

text \<open>
  Where a search starts and which way it goes: from the roving pointer, unless the index is
  closer to the front.
\<close>

definition search_start :: "array \<Rightarrow> int \<Rightarrow> nat \<times> int" where
  "search_start a i =
     (let start = LASTREF a; startind = element_index a start
      in if i < cquot startind 2 then (element_forw a 0, 1)
         else if i \<ge> startind then (start, 1)
         else (start, -1))"

definition next_element :: "array \<Rightarrow> int \<Rightarrow> nat \<Rightarrow> nat" where
  "next_element a direction ae = (if direction = 1 then element_forw a ae else element_back a ae)"

definition search_measure :: "array \<Rightarrow> int \<Rightarrow> nat \<Rightarrow> nat" where
  "search_measure a direction ae =
     (if direction = 1 \<and> ae \<noteq> 0 then Suc (length (elements a)) - ae else ae)"

lemma next_element_measure:
  "is_element a ae \<Longrightarrow> search_measure a direction (next_element a direction ae) < search_measure a direction ae"
  by (auto simp: search_measure_def next_element_def is_element_def element_forw_def element_back_def)

function insert_loop :: "array \<Rightarrow> array_element \<Rightarrow> int \<Rightarrow> nat \<Rightarrow> int \<times> array" where
  "insert_loop a new direction ae =
     (if \<not> is_element a ae then (-1, a\<lparr>lastref := None\<rparr>)
      else if element_index a ae = fst new then
        (0, a\<lparr>elements := (elements a)[ae - 1 := (element_index a ae, snd new)], lastref := Some ae\<rparr>)
      else if direction = 1 \<and> element_index a ae > fst new then
        (let (a, p) = ADD_BEFORE ae new a
         in (0, a\<lparr>num_elements := num_elements a + 1, lastref := Some p\<rparr>))
      else if direction = -1 \<and> element_index a ae < fst new then
        (let (a, p) = ADD_AFTER ae new a
         in (0, a\<lparr>num_elements := num_elements a + 1, lastref := Some p\<rparr>))
      else insert_loop a new direction (next_element a direction ae))"
  by auto
termination
  by (relation "measure (\<lambda>(a, new, d, ae). search_measure a d ae)") (auto simp: next_element_measure)

definition array_insert :: "array option \<Rightarrow> int \<Rightarrow> cstring option \<Rightarrow> int \<times> array option" where
  "array_insert ap i v =
     (case ap of
        None \<Rightarrow> (-1, None)
      | Some a \<Rightarrow>
          let new = array_create_element i v
          in if i > max_index a then
               (let (a, p) = ADD_BEFORE 0 new a
                in (0, Some (a\<lparr>max_index := i, num_elements := num_elements a + 1, lastref := Some p\<rparr>)))
             else if i < array_first_index a then
               (let (a, p) = ADD_AFTER 0 new a
                in (0, Some (a\<lparr>num_elements := num_elements a + 1, lastref := Some p\<rparr>)))
             else
               (let (start, direction) = search_start a i
                in map_prod id Some (insert_loop a new direction start)))"

text \<open>Unlinking the element at \<open>ae\<close>, and what becomes of the roving pointer.\<close>

definition unlink_element :: "array \<Rightarrow> int \<Rightarrow> nat \<Rightarrow> array_element \<times> array" where
  "unlink_element a i ae =
     (elements a ! (ae - 1),
      a\<lparr>elements := take (ae - 1) (elements a) @ drop ae (elements a),
        num_elements := num_elements a - 1,
        max_index := (if i = max_index a then element_index a (element_back a ae) else max_index a),
        lastref := (if element_forw a ae \<noteq> 0 then Some ae
                    else if element_back a ae \<noteq> 0 then Some (ae - 1)
                    else None)\<rparr>)"

function remove_loop :: "array \<Rightarrow> int \<Rightarrow> int \<Rightarrow> nat \<Rightarrow> array_element option \<times> array" where
  "remove_loop a i direction ae =
     (if \<not> is_element a ae then (None, a)
      else if element_index a ae = i then map_prod Some id (unlink_element a i ae)
      else
        let ae' = next_element a direction ae
        in if direction = 1 \<and> element_index a ae' > i then (None, a)
           else if direction = -1 \<and> element_index a ae' < i then (None, a)
           else remove_loop a i direction ae')"
  by auto
termination
  by (relation "measure (\<lambda>(a, i, d, ae). search_measure a d ae)") (auto simp: next_element_measure)

definition array_remove :: "array option \<Rightarrow> int \<Rightarrow> array_element option \<times> array option" where
  "array_remove ap i =
     (case ap of
        None \<Rightarrow> (None, None)
      | Some a \<Rightarrow>
          if array_empty a then (None, Some a)
          else if i > max_index a \<or> i < array_first_index a then (None, Some a)
          else (let (start, direction) = search_start a i
                in map_prod id Some (remove_loop a i direction start)))"

text \<open>The loop of \<^verbatim>\<open>array_reference\<close>: the value and the new roving pointer.\<close>

function reference_loop :: "array \<Rightarrow> int \<Rightarrow> int \<Rightarrow> nat \<Rightarrow> nat \<Rightarrow> cstring option \<times> nat" where
  "reference_loop a i direction start ae =
     (if \<not> is_element a ae then (None, start)
      else if element_index a ae = i then (element_value a ae, ae)
      else
        let ae' = next_element a direction ae
        in if direction = 1 \<and> element_index a ae' > i then (None, ae')
           else if direction = -1 \<and> element_index a ae' < i then (None, ae')
           else reference_loop a i direction start ae')"
  by auto
termination
  by (relation "measure (\<lambda>(a, i, d, s, ae). search_measure a d ae)") (auto simp: next_element_measure)

definition array_reference :: "array option \<Rightarrow> int \<Rightarrow> cstring option \<times> array option" where
  "array_reference ap i =
     (case ap of
        None \<Rightarrow> (None, None)
      | Some a \<Rightarrow>
          if array_empty a then (None, Some a)
          else if i > max_index a \<or> i < array_first_index a then (None, Some a)
          else
            let (start, direction) = search_start a i;
                (v, p) = reference_loop a i direction start start
            in (v, Some (a\<lparr>lastref := Some p\<rparr>)))"

declare slice_loop.simps [simp del] insert_loop.simps [simp del]
  remove_loop.simps [simp del] reference_loop.simps [simp del]


section \<open>Conversions\<close>

definition array_to_word_list :: "array option \<Rightarrow> word_list option" where
  "array_to_word_list ap =
     (case ap of
        None \<Rightarrow> Some []
      | Some a \<Rightarrow> if array_empty a then Some [] else words_of_values (map snd (elements a)))"

fun assign_list_loop :: "array option \<Rightarrow> int \<Rightarrow> word_list \<Rightarrow> array option" where
  "assign_list_loop a i [] = a"
| "assign_list_loop a i (w # l) = assign_list_loop (snd (array_insert a i (Some (wd_word w)))) (i + 1) l"

definition array_assign_list :: "array option \<Rightarrow> word_list \<Rightarrow> array option" where
  "array_assign_list a list = assign_list_loop a 0 list"

definition array_from_word_list :: "word_list \<Rightarrow> array option" where
  "array_from_word_list list =
     (if list = [] then None else array_assign_list (Some array_create) list)"

definition array_keys_to_word_list :: "array option \<Rightarrow> word_list option" where
  "array_keys_to_word_list ap =
     (case ap of
        None \<Rightarrow> Some []
      | Some a \<Rightarrow> if array_empty a then Some []
                  else words_of_values (map (\<lambda>(j, v). Some (itos j)) (elements a)))"

definition array_to_kvpair_list :: "array option \<Rightarrow> word_list option" where
  "array_to_kvpair_list ap =
     (case ap of
        None \<Rightarrow> Some []
      | Some a \<Rightarrow> if array_empty a then Some []
                  else words_of_values (concat (map (\<lambda>(j, v). [Some (itos j), v]) (elements a))))"

definition array_to_argv :: "array option \<Rightarrow> cstring list \<times> int" where
  "array_to_argv ap =
     (case ap of
        None \<Rightarrow> ([], 0)
      | Some a \<Rightarrow>
          if array_empty a then ([], 0)
          else let ret = concat (map (\<lambda>(j, v). case v of Some t \<Rightarrow> [t] | None \<Rightarrow> []) (elements a))
               in (ret, int (length ret)))"

text \<open>
  \<^verbatim>\<open>array_from_argv\<close>. In its first branch the code passes the local variable \<open>t\<close>, which has not been
  assigned: \<open>t\<close> is whatever value it has. In the third branch it stores \<^verbatim>\<open>vec[0]\<close> in every element.
\<close>

fun insert_from :: "array option \<Rightarrow> int \<Rightarrow> cstring option list \<Rightarrow> array option" where
  "insert_from a i [] = a"
| "insert_from a i (v # vs) = insert_from (snd (array_insert a i v)) (i + 1) vs"

definition array_from_argv ::
  "cstring option \<Rightarrow> array option \<Rightarrow> cstring option list \<Rightarrow> nat \<Rightarrow> array option" where
  "array_from_argv t ap vec cnt =
     (case ap of
        None \<Rightarrow> insert_from ap 0 (replicate cnt t)
      | Some a \<Rightarrow>
          if num_elements a = 0 then insert_from ap 0 (replicate cnt t)
          else if num_elements a = int cnt \<and> cnt = 1 then
            Some (a\<lparr>elements := (elements a)[0 := (fst (elements a ! 0), vec ! 0)]\<rparr>)
          else if num_elements a \<le> int cnt then
            (let n = nat (num_elements a);
                 es = map (\<lambda>(j, v). (j, vec ! 0)) (take n (elements a)) @ drop n (elements a)
             in insert_from (Some (a\<lparr>elements := es\<rparr>)) (num_elements a) (drop n (take cnt vec)))
          else insert_from (Some (array_flush a)) 0 (take cnt vec))"

text \<open>
  \<^verbatim>\<open>array_to_string_internal\<close> on the elements from \<open>start\<close> up to \<open>end\<close>: a separator follows each
  non-null value that is not the last element.
\<close>

fun to_string_loop :: "cstring \<Rightarrow> bool \<Rightarrow> array_element list \<Rightarrow> cstring" where
  "to_string_loop sep quoted [] = []"
| "to_string_loop sep quoted ((j, v) # es) =
     (case v of
        None \<Rightarrow> []
      | Some s \<Rightarrow> (if quoted then quote_string s else s) @ (if es \<noteq> [] then sep else []))
     @ to_string_loop sep quoted es"

definition array_to_string_internal :: "array_element list \<Rightarrow> cstring \<Rightarrow> bool \<Rightarrow> cstring option" where
  "array_to_string_internal es sep quoted =
     (if es = [] then None else Some (to_string_loop sep quoted es))"

definition array_to_string :: "array option \<Rightarrow> cstring \<Rightarrow> bool \<Rightarrow> cstring option" where
  "array_to_string ap sep quoted =
     (case ap of
        None \<Rightarrow> None
      | Some a \<Rightarrow> if array_empty a then Some []
                  else array_to_string_internal (elements a) sep quoted)"

text \<open>The value of an element as \<^verbatim>\<open>declare -p\<close> prints it.\<close>

definition element_valstr :: "cstring option \<Rightarrow> cstring option" where
  "element_valstr v =
     (case v of
        None \<Rightarrow> None
      | Some s \<Rightarrow> if ansic_shouldquote s then ansic_quote (Some s) else Some (sh_double_quote s))"

fun kvpair_loop :: "array_element list \<Rightarrow> cstring" where
  "kvpair_loop [] = []"
| "kvpair_loop ((j, v) # es) =
     the (inttostr j intmax_bufsize) @ '' '' @ (case element_valstr v of Some t \<Rightarrow> t | None \<Rightarrow> [DQUOTE, DQUOTE])
     @ (if es \<noteq> [] then '' '' else []) @ kvpair_loop es"

definition array_to_kvpair :: "array option \<Rightarrow> bool \<Rightarrow> cstring option" where
  "array_to_kvpair ap quoted =
     (case ap of
        None \<Rightarrow> None
      | Some a \<Rightarrow> if array_empty a then None
                  else (let result = kvpair_loop (elements a)
                        in Some (if quoted then sh_single_quote result else result)))"

fun assign_loop :: "array_element list \<Rightarrow> cstring" where
  "assign_loop [] = []"
| "assign_loop ((j, v) # es) =
     ''['' @ the (inttostr j intmax_bufsize) @ '']='' @ (case element_valstr v of Some t \<Rightarrow> t | None \<Rightarrow> [])
     @ (if es \<noteq> [] then '' '' else []) @ assign_loop es"

definition array_to_assign :: "array option \<Rightarrow> bool \<Rightarrow> cstring option" where
  "array_to_assign ap quoted =
     (case ap of
        None \<Rightarrow> None
      | Some a \<Rightarrow> if array_empty a then None
                  else (let result = ''('' @ assign_loop (elements a) @ '')''
                        in Some (if quoted then sh_single_quote result else result)))"

text \<open>
  \<^verbatim>\<open>array_subrange\<close>: find the first element at or after \<open>start\<close>, take \<open>nelem\<close> elements, and join the
  values of the slice.
\<close>

function subrange_find :: "array \<Rightarrow> int \<Rightarrow> nat \<Rightarrow> nat" where
  "subrange_find a start p =
     (if is_element a p \<and> start > element_index a p then subrange_find a start (element_forw a p) else p)"
  by auto
termination
  by (relation "measure (\<lambda>(a, s, p). search_measure a 1 p)")
     (auto simp: search_measure_def is_element_def element_forw_def)

function subrange_take :: "array \<Rightarrow> int \<Rightarrow> int \<Rightarrow> nat \<Rightarrow> nat" where
  "subrange_take a i nelem p =
     (if is_element a p \<and> i < nelem then subrange_take a (i + 1) nelem (element_forw a p) else p)"
  by auto
termination
  by (relation "measure (\<lambda>(a, i, n, p). search_measure a 1 p)")
     (auto simp: search_measure_def is_element_def element_forw_def)

declare subrange_find.simps [simp del] subrange_take.simps [simp del]

definition array_subrange ::
  "ifs_state \<Rightarrow> bool \<Rightarrow> array option \<Rightarrow> int \<Rightarrow> int \<Rightarrow> bool \<Rightarrow> int \<Rightarrow> int \<Rightarrow> cstring option option" where
  "array_subrange st no_split_star ap start nelem starsub quoted pflags =
     (case ap of
        None \<Rightarrow> Some None
      | Some a \<Rightarrow>
          if array_empty a \<or> start > max_index a then Some None
          else
            let h = subrange_find a start (element_forw a 0)
            in if h = 0 then Some None
               else
                 (case array_to_word_list (Some (array_slice a h (subrange_take a 0 nelem h))) of
                    None \<Rightarrow> None
                  | Some [] \<Rightarrow> Some None
                  | Some wl \<Rightarrow>
                      Some (string_list_pos_params st no_split_star
                              (if starsub then CHR ''*'' else CHR ''@'') wl quoted pflags)))"

definition MATCH_QUOTED :: int where "MATCH_QUOTED = 0x20"
definition MATCH_ASSIGNRHS :: int where "MATCH_ASSIGNRHS = 0x40"
definition MATCH_STARSUB :: int where "MATCH_STARSUB = 0x80"

text \<open>
  The common body of \<^verbatim>\<open>array_patsub\<close> and \<^verbatim>\<open>array_modcase\<close>; \<open>change\<close> is the call they make on each word,
  \<^verbatim>\<open>pat_subst\<close> with the pattern and replacement or \<^verbatim>\<open>sh_modcase\<close> with the pattern and operation.
\<close>

definition change_words ::
  "ifs_state \<Rightarrow> bool \<Rightarrow> (cstring \<Rightarrow> cstring) \<Rightarrow> array option \<Rightarrow> int \<Rightarrow> cstring option option" where
  "change_words st no_split_star change ap mflags =
     (case ap of
        None \<Rightarrow> Some None
      | Some a \<Rightarrow>
          if array_empty a then Some None
          else
            (case array_to_word_list ap of
               None \<Rightarrow> None
             | Some [] \<Rightarrow> Some None
             | Some wl \<Rightarrow>
                 let wl = map (\<lambda>w. w\<lparr>wd_word := change (wd_word w)\<rparr>) wl;
                     pchar = (if mflags AND MATCH_STARSUB = MATCH_STARSUB then CHR ''*'' else CHR ''@'');
                     qflags = (if mflags AND MATCH_QUOTED = MATCH_QUOTED then Q_DOUBLE_QUOTES else 0);
                     pflags = (if has_flag mflags MATCH_ASSIGNRHS then PF_ASSIGNRHS else 0)
                 in Some (string_list_pos_params st no_split_star pchar wl qflags pflags)))"

definition array_patsub ::
  "(cstring \<Rightarrow> cstring \<Rightarrow> cstring \<Rightarrow> int \<Rightarrow> cstring) \<Rightarrow> ifs_state \<Rightarrow> bool \<Rightarrow> array option \<Rightarrow> cstring \<Rightarrow> cstring \<Rightarrow> int
   \<Rightarrow> cstring option option" where
  "array_patsub pat_subst st no_split_star a pat rep mflags =
     change_words st no_split_star (\<lambda>w. pat_subst w pat rep mflags) a mflags"

definition array_modcase ::
  "(cstring \<Rightarrow> cstring \<Rightarrow> int \<Rightarrow> cstring) \<Rightarrow> ifs_state \<Rightarrow> bool \<Rightarrow> array option \<Rightarrow> cstring \<Rightarrow> int \<Rightarrow> int
   \<Rightarrow> cstring option option" where
  "array_modcase sh_modcase st no_split_star a pat modop mflags =
     change_words st no_split_star (\<lambda>w. sh_modcase w pat modop) a mflags"

section \<open>Well-formed arrays\<close>

text \<open>
  Indices are non-negative, increasing and in range; the counters agree with the elements; the
  roving pointer, if set, points to an element, never to the head.
\<close>

definition array_wf :: "array \<Rightarrow> bool" where
  "array_wf a \<longleftrightarrow>
     sorted_wrt (<) (map fst (elements a))
     \<and> (\<forall>e \<in> set (elements a). 0 \<le> fst e \<and> fst e \<le> INTMAX_MAX)
     \<and> num_elements a = int (length (elements a))
     \<and> max_index a = (if elements a = [] then -1 else fst (last (elements a)))
     \<and> (case lastref a of None \<Rightarrow> True | Some p \<Rightarrow> is_element a p)"

definition array_map :: "array \<Rightarrow> int \<rightharpoonup> cstring option" where
  "array_map a = map_of (elements a)"

text \<open>Assigning to an index of a sorted association list: the reference definition.\<close>

fun put_sorted :: "int \<Rightarrow> 'v \<Rightarrow> (int \<times> 'v) list \<Rightarrow> (int \<times> 'v) list" where
  "put_sorted i v [] = [(i, v)]"
| "put_sorted i v ((j, w) # es) =
     (if j < i then (j, w) # put_sorted i v es
      else if j = i then (i, v) # es
      else (i, v) # (j, w) # es)"

text \<open>How many elements lie before an index.\<close>

definition before :: "int \<Rightarrow> (int \<times> 'v) list \<Rightarrow> nat" where
  "before i es = length (takeWhile (\<lambda>e. fst e < i) es)"

abbreviation increasing :: "(int \<times> 'v) list \<Rightarrow> bool" where
  "increasing es \<equiv> sorted_wrt (<) (map fst es)"

lemma before_simps [simp]:
  "before i [] = 0" "before i ((j, w) # es) = (if j < i then Suc (before i es) else 0)"
  by (simp_all add: before_def)

lemma before_le: "before i es \<le> length es"
  by (simp add: before_def length_takeWhile_le)

lemma nth_less_iff:
  "increasing es \<Longrightarrow> k < length es \<Longrightarrow> fst (es ! k) < i \<longleftrightarrow> k < before i es"
proof (induction es arbitrary: k)
  case (Cons e es)
  obtain j w where [simp]: "e = (j, w)" by (cases e)
  show ?case
  proof (cases k)
    case (Suc k')
    then have "j < fst (es ! k')" using Cons.prems by auto
    then have "\<not> fst (es ! k') < i" if "\<not> j < i" using that by simp
    with Cons.IH [of k'] Cons.prems Suc show ?thesis by (cases "j < i") simp_all
  qed simp
qed simp

lemma nth_inc: "increasing es \<Longrightarrow> j < k \<Longrightarrow> k < length es \<Longrightarrow> fst (es ! j) < fst (es ! k)"
  using sorted_wrt_nth_less [of "(<)" "map fst es" j k] by simp

lemma nth_eq_before:
  assumes "increasing es" and "k < length es" and "fst (es ! k) = i"
  shows "k = before i es"
  using assms nth_less_iff [OF assms(1,2), of i] nth_less_iff [OF assms(1), of "before i es" i]
    nth_inc [OF assms(1), of "before i es" k]
  by (metis less_irrefl linorder_neqE_nat order_less_trans)

lemma increasing_distinct: "increasing es \<Longrightarrow> distinct (map fst es)"
  by (simp add: strict_sorted_iff)

lemma map_of_before:
  "increasing es \<Longrightarrow>
   map_of es i = (if before i es < length es \<and> fst (es ! before i es) = i
                  then Some (snd (es ! before i es)) else None)"
proof (induction es)
  case (Cons e es)
  obtain j w where [simp]: "e = (j, w)" by (cases e)
  show ?case
  proof (cases "i < j")
    case True
    then have "\<forall>x \<in> set es. fst x \<noteq> i" using Cons.prems by auto
    then have "map_of es i = None" by (auto simp: map_of_eq_None_iff)
    with True show ?thesis by simp
  next
    case False
    with Cons show ?thesis by auto
  qed
qed simp

lemma put_sorted_take:
  "put_sorted i v es =
     take (before i es) es @ (i, v)
       # drop (if before i es < length es \<and> fst (es ! before i es) = i then Suc (before i es) else before i es) es"
  by (induction i v es rule: put_sorted.induct) auto

lemma set_put_sorted: "set (put_sorted i v es) \<subseteq> insert (i, v) (set es)"
  by (induction i v es rule: put_sorted.induct) auto

lemma fst_put_sorted: "fst ` set (put_sorted i v es) = insert i (fst ` set es)"
  by (induction i v es rule: put_sorted.induct) auto

lemma increasing_put_sorted: "increasing es \<Longrightarrow> increasing (put_sorted i v es)"
proof (induction i v es rule: put_sorted.induct)
  case (2 i v j w es)
  have "\<forall>x \<in> fst ` set (put_sorted i v es). j < x" if "j < i"
    using 2(2) that unfolding fst_put_sorted by auto
  with 2 show ?case by auto
qed simp

lemma map_of_put_sorted: "increasing es \<Longrightarrow> map_of (put_sorted i v es) = (map_of es)(i \<mapsto> v)"
  by (induction i v es rule: put_sorted.induct) (auto simp: fun_eq_iff)

lemma length_put_sorted:
  "increasing es \<Longrightarrow> length (put_sorted i v es) = length es + (if map_of es i = None then 1 else 0)"
  by (auto simp: put_sorted_take map_of_before)

lemma put_sorted_Nil [simp]: "put_sorted i v es \<noteq> []"
  by (cases es) (auto split: if_splits)

lemma last_put_sorted: 
  "increasing es \<Longrightarrow> es \<noteq> [] \<Longrightarrow> i \<le> fst (last es) \<Longrightarrow> fst (last (put_sorted i v es)) = fst (last es)"
  by (induction i v es rule: put_sorted.induct) (auto split: if_splits)

lemma put_sorted_end: "\<forall>e \<in> set es. fst e < i \<Longrightarrow> put_sorted i v es = es @ [(i, v)]"
  by (induction i v es rule: put_sorted.induct) auto

lemma filter_before:
  assumes "increasing es" and "before i es < length es" and "fst (es ! before i es) = i"
  shows "filter (\<lambda>e. fst e \<noteq> i) es = take (before i es) es @ drop (Suc (before i es)) es"
proof -
  let ?m = "before i es"
  have es: "es = take ?m es @ es ! ?m # drop (Suc ?m) es"
    by (rule id_take_nth_drop [OF assms(2)])
  have "distinct (map fst (take ?m es @ es ! ?m # drop (Suc ?m) es))"
    using increasing_distinct [OF assms(1)] es by simp
  then have "filter (\<lambda>e. fst e \<noteq> i) (take ?m es) = take ?m es"
            "filter (\<lambda>e. fst e \<noteq> i) (drop (Suc ?m) es) = drop (Suc ?m) es"
    using assms(3) by (auto simp: filter_id_conv)
  with assms(3) show ?thesis by (subst es) simp
qed

lemma filter_absent: "map_of es i = None \<Longrightarrow> filter (\<lambda>e. fst e \<noteq> i) es = es"
  by (force simp: filter_id_conv map_of_eq_None_iff)

lemma map_of_filter_key: "map_of (filter (\<lambda>e. fst e \<noteq> i) es) = (map_of es)(i := None)"
  by (induction es) (auto simp: fun_eq_iff)


section \<open>The searches\<close>

text \<open>
  A search is on the right track: going forward it has not passed the index and there is
  something at or after the index; going backward likewise.
\<close>

definition on_track :: "array \<Rightarrow> int \<Rightarrow> int \<Rightarrow> nat \<Rightarrow> bool" where
  "on_track a i d ae \<longleftrightarrow>
     is_element a ae
     \<and> (d = 1 \<and> ae - 1 \<le> before i (elements a) \<and> before i (elements a) < length (elements a)
        \<or> d = -1 \<and> (\<forall>k < length (elements a). ae \<le> k \<longrightarrow> i < fst (elements a ! k))
          \<and> fst (elements a ! 0) \<le> i)"

lemma on_track_next:
  assumes inc: "increasing (elements a)" and ok: "on_track a i d ae"
    and neq: "element_index a ae \<noteq> i"
    and fwd: "d = 1 \<Longrightarrow> element_index a ae \<le> i" and bwd: "d = -1 \<Longrightarrow> i \<le> element_index a ae"
  shows "on_track a i d (next_element a d ae)"
proof (cases "d = 1")
  case True
  have ae: "0 < ae" "ae \<le> length (elements a)" using ok by (auto simp: on_track_def is_element_def)
  with True neq fwd have "fst (elements a ! (ae - 1)) < i" by (simp add: element_index_def)
  with ae nth_less_iff [OF inc, of "ae - 1" i] have "ae - 1 < before i (elements a)" by simp
  with True ok ae show ?thesis
    by (auto simp: on_track_def next_element_def element_forw_def is_element_def)
next
  case False
  with ok have d: "d = -1" by (auto simp: on_track_def)
  have ae: "0 < ae" "ae \<le> length (elements a)" using ok by (auto simp: on_track_def is_element_def)
  with d neq bwd have gt: "i < fst (elements a ! (ae - 1))" by (simp add: element_index_def)
  moreover have "ae \<noteq> 1" using gt ok d by (auto simp: on_track_def)
  moreover have "i < fst (elements a ! k)" if "k < length (elements a)" "ae - 1 \<le> k" for k
    using that gt ok d by (cases "k = ae - 1") (auto simp: on_track_def)
  ultimately show ?thesis
    using d ok ae by (auto simp: on_track_def next_element_def element_back_def is_element_def)
qed

text \<open>Where the three outcomes of one step of a search stand relative to the index.\<close>

lemma on_track_found:
  assumes "increasing (elements a)" and "is_element a ae" and "element_index a ae = i"
  shows "ae - 1 = before i (elements a)" "before i (elements a) < length (elements a)"
    "fst (elements a ! before i (elements a)) = i"
  using assms nth_eq_before [OF assms(1), of "ae - 1" i] by (auto simp: is_element_def element_index_def)

lemma on_track_above:
  assumes "increasing (elements a)" and "on_track a i 1 ae" and "i < element_index a ae"
  shows "ae - 1 = before i (elements a)" "map_of (elements a) i = None"
proof -
  have ae: "0 < ae" "ae \<le> length (elements a)" "ae - 1 \<le> before i (elements a)"
    using assms(2) by (auto simp: on_track_def is_element_def)
  with assms(3) have gt: "i < fst (elements a ! (ae - 1))" by (simp add: element_index_def)
  with ae nth_less_iff [OF assms(1), of "ae - 1" i] show eq: "ae - 1 = before i (elements a)" by simp
  with gt show "map_of (elements a) i = None" by (simp add: map_of_before assms(1))
qed

lemma on_track_below:
  assumes "increasing (elements a)" and "on_track a i (-1) ae" and "element_index a ae < i"
  shows "ae = before i (elements a)" "map_of (elements a) i = None"
proof -
  have ae: "0 < ae" "ae \<le> length (elements a)"
    and rest: "\<And>k. k < length (elements a) \<Longrightarrow> ae \<le> k \<Longrightarrow> i < fst (elements a ! k)"
    using assms(2) by (auto simp: on_track_def is_element_def)
  have "ae - 1 < before i (elements a)"
    using assms(3) ae nth_less_iff [OF assms(1), of "ae - 1" i] by (simp add: element_index_def)
  moreover have "\<not> ae < before i (elements a)"
    using rest [of ae] nth_less_iff [OF assms(1), of ae i] before_le [of i "elements a"] by auto
  ultimately show eq: "ae = before i (elements a)" by simp
  show "map_of (elements a) i = None"
    using rest [of ae] eq by (auto simp: map_of_before assms(1))
qed

lemma search_start_on_track:
  assumes wf: "array_wf a" and i: "array_first_index a \<le> i" "i \<le> max_index a" and ne: "elements a \<noteq> []"
    and st: "search_start a i = (start, d)"
  shows "on_track a i d start"
proof -
  let ?es = "elements a"
  have inc: "increasing ?es" and len: "0 < length ?es" using wf ne by (auto simp: array_wf_def)
  have lr: "is_element a (LASTREF a)"
    using wf ne by (auto simp: array_wf_def LASTREF_def is_element_def element_forw_def Suc_le_eq split: option.splits)
  then have lr': "LASTREF a - 1 < length ?es" by (auto simp: is_element_def)
  have "fst (last ?es) \<ge> i" using wf i ne by (auto simp: array_wf_def)
  then have "\<not> length ?es - 1 < before i ?es"
    using nth_less_iff [OF inc, of "length ?es - 1" i] len by (simp add: last_conv_nth ne)
  then have B: "before i ?es < length ?es" using len before_le [of i ?es] by linarith
  have first: "fst (?es ! 0) \<le> i" using i len by (simp add: array_first_index_def element_forw_def element_index_def)
  show ?thesis
  proof (cases "d = 1")
    case True
    have "start - 1 \<le> before i ?es" if "start = LASTREF a" "element_index a (LASTREF a) \<le> i"
    proof (cases "start - 1 = 0")
      case False
      then have "start - 1 - 1 < start - 1" by simp
      from nth_inc [OF inc this] have "fst (?es ! (start - 1 - 1)) < i"
        using that lr' False by (simp add: element_index_def split: if_splits)
      with nth_less_iff [OF inc, of "start - 1 - 1" i] lr' that False show ?thesis by auto
    qed simp
    with True st B len lr show ?thesis
      by (auto simp: search_start_def Let_def on_track_def is_element_def element_forw_def split: if_splits)
  next
    case False
    with st have d: "d = -1" "start = LASTREF a" "i < element_index a (LASTREF a)"
      by (auto simp: search_start_def Let_def split: if_splits)
    have "i < fst (?es ! k)" if "k < length ?es" "start \<le> k" for k
    proof -
      have "start - 1 < k" using that lr d by (auto simp: is_element_def)
      from nth_inc [OF inc this] show ?thesis
        using that lr d by (auto simp: element_index_def is_element_def)
    qed
    with d lr first show ?thesis by (auto simp: on_track_def)
  qed
qed

text \<open>What the loops compute.\<close>

lemma insert_loop_eq:
  assumes "increasing (elements a)" and "on_track a i d ae"
  shows "insert_loop a (i, v) d ae =
           (0, a\<lparr>elements := put_sorted i v (elements a),
                 num_elements := num_elements a + (if map_of (elements a) i = None then 1 else 0),
                 lastref := Some (Suc (before i (elements a)))\<rparr>)"
  using assms
proof (induction a "(i, v)" d ae rule: insert_loop.induct)
  case (1 a d ae)
  let ?es = "elements a"
  have el: "is_element a ae" and d: "d = 1 \<or> d = -1" using 1(3) by (auto simp: on_track_def)
  consider (found) "element_index a ae = i" | (above) "d = 1" "i < element_index a ae"
    | (below) "d = -1" "element_index a ae < i"
    | (go) "element_index a ae \<noteq> i" "d = 1 \<longrightarrow> element_index a ae \<le> i" "d = -1 \<longrightarrow> i \<le> element_index a ae"
    by linarith
  then show ?case
  proof cases
    case found
    note f = on_track_found [OF 1(2) el found]
    moreover have "ae = Suc (before i ?es)" using f(1) el by (auto simp: is_element_def)
    ultimately show ?thesis
      using found el 1(2) by (subst insert_loop.simps)
         (simp add: put_sorted_take map_of_before upd_conv_take_nth_drop is_element_def)
  next
    case above
    note f = on_track_above [OF 1(2) 1(3)[unfolded above(1)] above(2)]
    moreover have "\<not> (before i ?es < length ?es \<and> fst (?es ! before i ?es) = i)"
      using f(2) map_of_before [OF 1(2), of i] by auto
    ultimately show ?thesis
      using above el by (subst insert_loop.simps) (auto simp: put_sorted_take ADD_BEFORE_def is_element_def)
  next
    case below
    note f = on_track_below [OF 1(2) 1(3)[unfolded below(1)] below(2)]
    moreover have "\<not> (before i ?es < length ?es \<and> fst (?es ! before i ?es) = i)"
      using f(2) map_of_before [OF 1(2), of i] by auto
    ultimately show ?thesis
      using below el by (subst insert_loop.simps) (auto simp: put_sorted_take ADD_AFTER_def is_element_def)
  next
    case go
    with on_track_next [OF 1(2,3)] 1(1) [OF _ _ _ _ 1(2)] el show ?thesis
      by (subst insert_loop.simps) auto
  qed
qed

text \<open>
  The searches of \<^verbatim>\<open>array_reference\<close> and \<^verbatim>\<open>array_remove\<close> test the next element before moving on, so
  they start at an element that is not past the index.
\<close>

definition not_past :: "array \<Rightarrow> int \<Rightarrow> int \<Rightarrow> nat \<Rightarrow> bool" where
  "not_past a i d ae \<longleftrightarrow>
     (d = 1 \<longrightarrow> element_index a ae \<le> i) \<and> (d = -1 \<longrightarrow> i \<le> element_index a ae)"

lemma search_start_not_past:
  assumes "array_wf a" and "array_first_index a \<le> i" and "search_start a i = (start, d)"
  shows "not_past a i d start"
  using assms by (auto simp: search_start_def not_past_def array_first_index_def Let_def split: if_splits)

lemma past_absent:
  assumes "increasing (elements a)" and "on_track a i d ae" and "d = 1 \<or> d = -1"
    and "d = 1 \<Longrightarrow> i < element_index a ae" and "d = -1 \<Longrightarrow> element_index a ae < i"
  shows "map_of (elements a) i = None"
  using assms on_track_above(2) on_track_below(2) by metis

lemma reference_loop_eq:
  assumes "increasing (elements a)" and "on_track a i d ae" and "not_past a i d ae"
  shows "fst (reference_loop a i d start ae) = (case map_of (elements a) i of Some v \<Rightarrow> v | None \<Rightarrow> None)
         \<and> is_element a (snd (reference_loop a i d start ae))"
  using assms
proof (induction a i d start ae rule: reference_loop.induct)
  case (1 a i d start ae)
  have el: "is_element a ae" and d: "d = 1 \<or> d = -1" using 1(3) by (auto simp: on_track_def)
  show ?case
  proof (cases "element_index a ae = i")
    case True
    note f = on_track_found [OF 1(2) el True]
    then have "map_of (elements a) i = Some (element_value a ae)"
      using el by (auto simp: map_of_before 1(2) element_value_def is_element_def)
    with el True show ?thesis by (subst (1 2) reference_loop.simps) simp
  next
    case False
    let ?n = "next_element a d ae"
    have t: "on_track a i d ?n"
      using on_track_next [OF 1(2,3) False] 1(4) by (simp add: not_past_def)
    then have n: "is_element a ?n" by (simp add: on_track_def)
    show ?thesis
    proof (cases "not_past a i d ?n")
      case True
      then have "reference_loop a i d start ae = reference_loop a i d start ?n"
        using el False by (subst reference_loop.simps) (auto simp: not_past_def Let_def)
      then show ?thesis
        using 1(1) [OF _ False refl _ _ 1(2) t True] el True by (auto simp: not_past_def)
    next
      case past: False
      then have "map_of (elements a) i = None"
        using past_absent [OF 1(2) t d] by (auto simp: not_past_def)
      with el False n past show ?thesis
        by (subst (1 2) reference_loop.simps) (auto simp: not_past_def Let_def)
    qed
  qed
qed

lemma remove_loop_eq:
  assumes "increasing (elements a)" and "on_track a i d ae" and "not_past a i d ae"
  shows "remove_loop a i d ae =
           (case map_of (elements a) i of
              None \<Rightarrow> (None, a)
            | Some v \<Rightarrow> map_prod Some id (unlink_element a i (Suc (before i (elements a)))))"
  using assms
proof (induction a i d ae rule: remove_loop.induct)
  case (1 a i d ae)
  have el: "is_element a ae" and d: "d = 1 \<or> d = -1" using 1(3) by (auto simp: on_track_def)
  show ?case
  proof (cases "element_index a ae = i")
    case True
    note f = on_track_found [OF 1(2) el True]
    moreover have "ae = Suc (before i (elements a))" using f(1) el by (auto simp: is_element_def)
    ultimately show ?thesis
      using el True by (subst remove_loop.simps) (simp add: map_of_before 1(2))
  next
    case False
    let ?n = "next_element a d ae"
    have t: "on_track a i d ?n"
      using on_track_next [OF 1(2,3) False] 1(4) by (simp add: not_past_def)
    show ?thesis
    proof (cases "not_past a i d ?n")
      case True
      then have "remove_loop a i d ae = remove_loop a i d ?n"
        using el False by (subst remove_loop.simps) (auto simp: not_past_def Let_def)
      then show ?thesis
        using 1(1) [OF _ False refl _ _ 1(2) t True] el True by (auto simp: not_past_def)
    next
      case past: False
      then have "map_of (elements a) i = None"
        using past_absent [OF 1(2) t d] by (auto simp: not_past_def)
      with el False past show ?thesis
        by (subst remove_loop.simps) (auto simp: not_past_def Let_def)
    qed
  qed
qed

section \<open>The operations on a well-formed array\<close>

lemma wf_increasing: "array_wf a \<Longrightarrow> increasing (elements a)"
  by (simp add: array_wf_def)

lemma wf_empty: "array_wf a \<Longrightarrow> array_empty a \<longleftrightarrow> elements a = []"
  by (simp add: array_wf_def array_empty_def)

lemma first_index_eq: "elements a \<noteq> [] \<Longrightarrow> array_first_index a = fst (hd (elements a))"
  by (simp add: array_first_index_def element_forw_def element_index_def hd_conv_nth)

lemma le_last:
  "increasing es \<Longrightarrow> e \<in> set es \<Longrightarrow> fst e \<le> fst (last es)"
  by (induction es) (force simp: less_imp_le)+

lemma hd_le: "increasing es \<Longrightarrow> e \<in> set es \<Longrightarrow> fst (hd es) \<le> fst e"
  by (cases es) auto

lemma outside_absent:
  assumes wf: "array_wf a" and out: "elements a = [] \<or> max_index a < i \<or> i < array_first_index a"
  shows "map_of (elements a) i = None"
proof -
  have "fst e \<noteq> i" if e: "e \<in> set (elements a)" for e
  proof -
    have ne: "elements a \<noteq> []" using e by auto
    show ?thesis
      using le_last [OF wf_increasing [OF wf] e] hd_le [OF wf_increasing [OF wf] e] out wf ne
      by (auto simp: array_wf_def first_index_eq)
  qed
  then show ?thesis by (auto simp: map_of_eq_None_iff)
qed

lemma array_create_wf [wf_intros]: "array_wf array_create"
  by (simp add: array_wf_def array_create_def)

lemma array_flush_wf [wf_intros]: "array_wf (array_flush a)"
  by (simp add: array_wf_def array_flush_def)

text \<open>Assigning replaces the elements by those of the sorted list with the new binding.\<close>

lemma array_wf_put:
  assumes wf: "array_wf a" and i: "0 \<le> i" "i \<le> INTMAX_MAX"
    and b: "elements b = put_sorted i v (elements a)"
      "num_elements b = num_elements a + (if map_of (elements a) i = None then 1 else 0)"
      "max_index b = max i (max_index a)"
      "lastref b = Some (Suc (before i (elements a)))"
  shows "array_wf b"
proof -
  have inc: "increasing (elements a)" by (rule wf_increasing [OF wf])
  have "max_index b = fst (last (elements b))"
  proof (cases "max_index a < i")
    case True
    then have "\<forall>e \<in> set (elements a). fst e < i"
      using le_last [OF inc] wf by (fastforce simp: array_wf_def split: if_splits)
    with True b show ?thesis by (simp add: put_sorted_end)
  next
    case False
    with wf i have "elements a \<noteq> []" by (auto simp: array_wf_def)
    with False wf b show ?thesis by (simp add: array_wf_def last_put_sorted)
  qed
  moreover have "\<forall>e \<in> set (elements b). 0 \<le> fst e \<and> fst e \<le> INTMAX_MAX"
    using set_put_sorted [of i v "elements a"] wf i b by (auto simp: array_wf_def)
  moreover have "before i (elements a) < length (elements b)"
    using before_le [of i "elements a"] unfolding b put_sorted_take by auto
  ultimately show ?thesis
    using b inc wf by (simp add: array_wf_def increasing_put_sorted length_put_sorted is_element_def)
qed

lemma array_insert_eq:
  assumes wf: "array_wf a" and i: "0 \<le> i"
  shows "array_insert (Some a) i v =
           (0, Some (a\<lparr>elements := put_sorted i v (elements a),
                       num_elements := num_elements a + (if map_of (elements a) i = None then 1 else 0),
                       max_index := max i (max_index a),
                       lastref := Some (Suc (before i (elements a)))\<rparr>))"
proof -
  have inc: "increasing (elements a)" by (rule wf_increasing [OF wf])
  consider (high) "max_index a < i" | (low) "i \<le> max_index a" "i < array_first_index a"
    | (mid) "i \<le> max_index a" "array_first_index a \<le> i" by linarith
  then show ?thesis
  proof cases
    case high
    then have less: "\<forall>e \<in> set (elements a). fst e < i"
      using le_last [OF inc] wf by (fastforce simp: array_wf_def split: if_splits)
    then have "before i (elements a) = length (elements a)"
      by (simp add: before_def takeWhile_eq_all_conv [THEN iffD2])
    moreover have "map_of (elements a) i = None" using less by (auto simp: map_of_eq_None_iff)
    ultimately show ?thesis
      using high less
      by (simp add: array_insert_def put_sorted_end ADD_BEFORE_def array_create_element_def Let_def)
  next
    case low
    with i wf have ne: "elements a \<noteq> []" by (auto simp: array_wf_def)
    with low have hd: "i < fst (hd (elements a))" by (simp add: first_index_eq)
    then have "before i (elements a) = 0" "put_sorted i v (elements a) = (i, v) # elements a"
      using ne by (cases "elements a"; auto)+
    moreover have "map_of (elements a) i = None" using outside_absent [OF wf] low by auto
    ultimately show ?thesis
      using low by (simp add: array_insert_def ADD_AFTER_def array_create_element_def Let_def max_def)
  next
    case mid
    with i wf have ne: "elements a \<noteq> []" by (auto simp: array_wf_def)
    obtain start d where st: "search_start a i = (start, d)" by (cases "search_start a i")
    have "on_track a i d start" by (rule search_start_on_track [OF wf mid(2,1) ne st])
    from insert_loop_eq [OF inc this, of v] mid st show ?thesis
      by (simp add: array_insert_def array_create_element_def Let_def max_def)
  qed
qed

lemma array_insert_wf:
  "array_wf a \<Longrightarrow> 0 \<le> i \<Longrightarrow> i \<le> INTMAX_MAX \<Longrightarrow> array_wf (the (snd (array_insert (Some a) i v)))"
  by (subst array_insert_eq) (auto intro: array_wf_put [of a i _ v])

lemma array_insert_Some: "array_wf a \<Longrightarrow> 0 \<le> i \<Longrightarrow> snd (array_insert (Some a) i v) \<noteq> None"
  by (simp add: array_insert_eq)

lemma array_insert_map:
  "array_wf a \<Longrightarrow> 0 \<le> i \<Longrightarrow> array_map (the (snd (array_insert (Some a) i v))) = (array_map a)(i \<mapsto> v)"
  by (simp add: array_insert_eq array_map_def map_of_put_sorted wf_increasing)

text \<open>Reading returns the value and may only move the roving pointer.\<close>

lemma array_reference_eq:
  assumes wf: "array_wf a"
  shows "\<exists>l. array_reference (Some a) i =
               (case array_map a i of Some v \<Rightarrow> v | None \<Rightarrow> None, Some (a\<lparr>lastref := l\<rparr>))
             \<and> array_wf (a\<lparr>lastref := l\<rparr>)"
proof -
  have same: "a\<lparr>lastref := lastref a\<rparr> = a" by simp
  show ?thesis
  proof (cases "elements a = [] \<or> max_index a < i \<or> i < array_first_index a")
    case True
    then have "array_map a i = None"
      unfolding array_map_def by (rule outside_absent [OF wf])
    with True wf have "array_reference (Some a) i = (None, Some (a\<lparr>lastref := lastref a\<rparr>))"
      by (auto simp: array_reference_def wf_empty same)
    with \<open>array_map a i = None\<close> wf same show ?thesis by (metis option.simps(4))
  next
    case False
    then have ne: "elements a \<noteq> []" and i: "array_first_index a \<le> i" "i \<le> max_index a" by auto
    obtain start d where st: "search_start a i = (start, d)" by (cases "search_start a i")
    note r = reference_loop_eq [OF wf_increasing [OF wf] search_start_on_track [OF wf i ne st]
        search_start_not_past [OF wf i(1) st], of start]
    obtain v p where vp: "reference_loop a i d start start = (v, p)" by (cases "reference_loop a i d start start")
    have "array_reference (Some a) i = (v, Some (a\<lparr>lastref := Some p\<rparr>))"
      using ne i st vp wf by (simp add: array_reference_def wf_empty)
    moreover have "array_wf (a\<lparr>lastref := Some p\<rparr>)"
      using r vp wf by (simp add: array_wf_def is_element_def)
    ultimately show ?thesis using r vp by (auto simp: array_map_def)
  qed
qed

text \<open>Removing unlinks the element, if there is one.\<close>

lemma unlink_element_wf:
  assumes wf: "array_wf a" and m: "map_of (elements a) i = Some v"
  shows "array_wf (snd (unlink_element a i (Suc (before i (elements a)))))
         \<and> elements (snd (unlink_element a i (Suc (before i (elements a))))) = filter (\<lambda>e. fst e \<noteq> i) (elements a)
         \<and> fst (unlink_element a i (Suc (before i (elements a)))) = (i, v)"
proof -
  let ?es = "elements a" and ?m = "before i (elements a)"
  let ?b = "snd (unlink_element a i (Suc ?m))"
  have inc: "increasing ?es" by (rule wf_increasing [OF wf])
  have B: "?m < length ?es" "fst (?es ! ?m) = i" "snd (?es ! ?m) = v"
    using m by (auto simp: map_of_before [OF inc] split: if_splits)
  have el: "elements ?b = filter (\<lambda>e. fst e \<noteq> i) ?es"
    by (simp add: unlink_element_def filter_before [OF inc B(1,2)])
  have "max_index ?b = (if elements ?b = [] then -1 else fst (last (elements ?b)))"
  proof (cases "Suc ?m = length ?es")
    case True
    then have "last ?es = ?es ! ?m" using B(1) by (metis last_conv_nth diff_Suc_1 list.size(3) not_less0)
    with True B wf have "i = max_index a" by (auto simp: array_wf_def)
    then show ?thesis
      using True B by (cases "?m = 0")
        (auto simp: unlink_element_def element_back_def element_index_def last_conv_nth)
  next
    case False
    then have less: "Suc ?m < length ?es" using B(1) by simp
    then have "last (drop (Suc ?m) ?es) = last ?es" "drop (Suc ?m) ?es \<noteq> []" by (auto simp: last_drop)
    moreover have "i < fst (last ?es)"
    proof -
      have "?m < length ?es - 1" "length ?es - 1 < length ?es" "?es \<noteq> []" using less by auto
      from nth_inc [OF inc this(1,2)] this(3) show ?thesis using B by (simp add: last_conv_nth)
    qed
    ultimately show ?thesis
      using wf B by (auto simp: unlink_element_def array_wf_def)
  qed
  moreover have "case lastref ?b of None \<Rightarrow> True | Some p \<Rightarrow> is_element ?b p"
    using B(1) by (auto simp: unlink_element_def is_element_def element_forw_def element_back_def)
  moreover have "num_elements ?b = int (length (elements ?b))"
    using B(1) wf by (simp add: unlink_element_def array_wf_def)
  moreover have "increasing (elements ?b)" "\<forall>e \<in> set (elements ?b). 0 \<le> fst e \<and> fst e \<le> INTMAX_MAX"
    using inc wf by (simp_all add: el sorted_wrt_map sorted_wrt_filter array_wf_def)
  ultimately have "array_wf ?b" unfolding array_wf_def by blast
  moreover have "fst (unlink_element a i (Suc ?m)) = (i, v)"
    using B by (simp add: unlink_element_def prod_eq_iff)
  ultimately show ?thesis using el by blast
qed

lemma array_remove_eq:
  assumes wf: "array_wf a"
  shows "\<exists>b. array_remove (Some a) i = (map_option (Pair i) (array_map a i), Some b)
             \<and> array_wf b \<and> elements b = filter (\<lambda>e. fst e \<noteq> i) (elements a)"
proof (cases "elements a = [] \<or> max_index a < i \<or> i < array_first_index a")
  case True
  then have "array_map a i = None" unfolding array_map_def by (rule outside_absent [OF wf])
  moreover have "array_remove (Some a) i = (None, Some a)"
    using True wf by (auto simp: array_remove_def wf_empty)
  ultimately show ?thesis using wf by (simp add: array_map_def filter_absent)
next
  case False
  then have ne: "elements a \<noteq> []" and i: "array_first_index a \<le> i" "i \<le> max_index a" by auto
  obtain start d where st: "search_start a i = (start, d)" by (cases "search_start a i")
  note r = remove_loop_eq [OF wf_increasing [OF wf] search_start_on_track [OF wf i ne st]
      search_start_not_past [OF wf i(1) st]]
  have "array_remove (Some a) i = map_prod id Some (remove_loop a i d start)"
    using ne i st wf by (simp add: array_remove_def wf_empty)
  moreover have "\<exists>b. unlink_element a i (Suc (before i (elements a))) = ((i, v), b) \<and> array_wf b
      \<and> elements b = filter (\<lambda>e. fst e \<noteq> i) (elements a)" if "map_of (elements a) i = Some v" for v
    using unlink_element_wf [OF wf that] by (metis prod.collapse)
  ultimately show ?thesis
    using r wf by (cases "map_of (elements a) i") (auto simp: array_map_def filter_absent)
qed

text \<open>The interfaces that indexed arrays implement.\<close>

definition array_put :: "int \<Rightarrow> cstring option \<Rightarrow> array \<Rightarrow> array" where
  "array_put i v a = the (snd (array_insert (Some a) i v))"

definition array_del :: "int \<Rightarrow> array \<Rightarrow> array" where
  "array_del i a = the (snd (array_remove (Some a) i))"

definition array_fetch :: "int \<Rightarrow> array \<Rightarrow> cstring option \<times> array" where
  "array_fetch i a = map_prod id the (array_reference (Some a) i)"

definition array_index_ok :: "int \<Rightarrow> bool" where
  "array_index_ok i \<longleftrightarrow> 0 \<le> i \<and> i \<le> INTMAX_MAX"

interpretation arr: listed_store array_index_ok array_wf array_map array_put array_del num_elements elements
proof
  fix s i v
  assume wf: "array_wf s"
  show "array_wf (array_put i v s)" if "array_index_ok i"
    using wf that by (simp add: array_put_def array_insert_wf array_index_ok_def)
  show "array_map (array_put i v s) = (array_map s)(i \<mapsto> v)" if "array_index_ok i"
    using wf that by (simp add: array_put_def array_insert_map array_index_ok_def)
  obtain b where "array_remove (Some s) i = (map_option (Pair i) (array_map s i), Some b)"
    "array_wf b" "elements b = filter (\<lambda>e. fst e \<noteq> i) (elements s)"
    using array_remove_eq [OF wf] by blast
  then show "array_wf (array_del i s)" "array_map (array_del i s) = (array_map s)(i := None)"
    by (simp_all add: array_del_def array_map_def map_of_filter_key)
next
  fix s
  assume wf: "array_wf s"
  show "map_of (elements s) = array_map s" by (simp add: array_map_def)
  show "distinct (map fst (elements s))" by (rule increasing_distinct [OF wf_increasing [OF wf]])
  show "num_elements s = int (length (elements s))" using wf by (simp add: array_wf_def)
qed

text \<open>
  An array without \<^verbatim>\<open>NULL\<close> values is a store of strings whose read operation moves the roving
  pointer.
\<close>

definition array_strings :: "array \<Rightarrow> int \<rightharpoonup> cstring" where
  "array_strings a i = (case array_map a i of Some v \<Rightarrow> v | None \<Rightarrow> None)"

definition array_put_string :: "int \<Rightarrow> cstring \<Rightarrow> array \<Rightarrow> array" where
  "array_put_string i v a = array_put i (Some v) a"

interpretation ars: fetching_store array_index_ok array_wf array_strings array_put_string array_del array_fetch
proof
  fix s i v
  assume wf: "array_wf s"
  show "array_wf (array_put_string i v s)" if "array_index_ok i"
    using wf that by (simp add: array_put_string_def arr.inv_put)
  show "array_strings (array_put_string i v s) = (array_strings s)(i \<mapsto> v)" if "array_index_ok i"
    using wf that by (auto simp: array_put_string_def array_strings_def arr.look_put fun_eq_iff)
  show "array_wf (array_del i s)" "array_strings (array_del i s) = (array_strings s)(i := None)"
    using wf by (auto simp: array_strings_def arr.store_laws fun_eq_iff)
  obtain l where "array_reference (Some s) i =
      (case array_map s i of Some v \<Rightarrow> v | None \<Rightarrow> None, Some (s\<lparr>lastref := l\<rparr>))"
    "array_wf (s\<lparr>lastref := l\<rparr>)"
    using array_reference_eq [OF wf] by blast
  then show "fst (array_fetch i s) = array_strings s i"
    "array_strings (snd (array_fetch i s)) = array_strings s" "array_wf (snd (array_fetch i s))"
    by (auto simp: array_fetch_def array_strings_def array_map_def fun_eq_iff)
qed

text \<open>Shifting.\<close>

lemma nth_ge_pos:
  "increasing es \<Longrightarrow> \<forall>e \<in> set es. 0 \<le> fst e \<Longrightarrow> k < length es \<Longrightarrow> int k \<le> fst (es ! k)"
proof (induction k)
  case (Suc k)
  then show ?case using nth_inc [of es k "Suc k"] by fastforce
qed simp

lemma increasing_map_add: "increasing es \<Longrightarrow> increasing (map (\<lambda>(j, v). (j + (n::int), v)) es)"
  by (simp add: sorted_wrt_map case_prod_beta)

lemma map_add_ball:
  "\<forall>e \<in> set es. P (fst e + (n::int)) \<Longrightarrow> \<forall>e \<in> set (map (\<lambda>(j, v). (j + n, v)) es). P (fst e)"
  by auto

lemma wrap_indices:
  "\<forall>e \<in> set es. in_int64 (fst e + n) \<Longrightarrow>
   map (\<lambda>(j, v). (wrap64 (j + n), v)) es = map (\<lambda>(j, v). (j + n, v)) es"
  by (induction es) auto

lemma array_shift_eq:
  assumes wf: "array_wf a" and n: "0 < n"
  shows "\<exists>b. array_shift (Some a) n flags =
               (if has_flag flags AS_DISPOSE then [] else take (nat n) (elements a), Some b)
             \<and> array_wf b
             \<and> elements b = map (\<lambda>(j, v). (j - n, v)) (drop (nat n) (elements a))
             \<and> lastref b = None"
proof (cases "drop (nat n) (elements a) = []")
  case True
  let ?b = "a\<lparr>elements := [], max_index := -1, num_elements := 0, lastref := None\<rparr>"
  have "array_wf ?b" by (simp add: array_wf_def)
  moreover have "array_shift (Some a) n flags =
      (if has_flag flags AS_DISPOSE then [] else take (nat n) (elements a), Some ?b)"
  proof (cases "elements a = []")
    case True
    with wf have "a = ?b"
      by (cases a) (auto simp: array_wf_def is_element_def split: option.splits)
    with True wf show ?thesis by (simp add: array_shift_def wf_empty)
  next
    case False
    with True n wf show ?thesis by (simp add: array_shift_def array_flush_def wf_empty Let_def)
  qed
  ultimately show ?thesis using True by auto
next
  case False
  let ?rest = "drop (nat n) (elements a)"
  let ?new = "map (\<lambda>(j, v). (j + - n, v)) ?rest"
  let ?b = "a\<lparr>elements := ?new, num_elements := num_elements a - n, max_index := fst (last ?new), lastref := None\<rparr>"
  have inc: "increasing (elements a)" and ne: "elements a \<noteq> []" using wf False by (auto simp: array_wf_def)
  have len: "nat n < length (elements a)" using False by simp
  have rest: "n \<le> fst e \<and> fst e \<le> INTMAX_MAX" if e: "e \<in> set ?rest" for e
  proof -
    obtain k where k: "e = elements a ! k" "nat n \<le> k" "k < length (elements a)"
    proof -
      obtain m where "m < length ?rest" "e = ?rest ! m" using e by (metis in_set_conv_nth)
      then show ?thesis using that [of "nat n + m"] by simp
    qed
    have "e \<in> set (elements a)" using e by (rule in_set_dropD)
    moreover have "int k \<le> fst e"
      using nth_ge_pos [OF inc _ k(3)] wf k(1) by (auto simp: array_wf_def)
    ultimately show ?thesis using wf k(2) n by (auto simp: array_wf_def)
  qed
  have "in_int64 (fst e + - n)" if "e \<in> set ?rest" for e
    using rest [OF that] n by (simp add: in_int64_def INTMAX_MAX_def)
  then have w: "map (\<lambda>(j, v). (wrap64 (j - n), v)) ?rest = ?new"
    using wrap_indices [of ?rest "- n"] by simp
  have "array_wf ?b"
  proof -
    have new: "increasing ?new"
      by (rule increasing_map_add) (use inc in \<open>simp add: drop_map [symmetric] sorted_wrt_drop\<close>)
    have "0 \<le> fst e + - n \<and> fst e + - n \<le> INTMAX_MAX" if "e \<in> set ?rest" for e
      using rest [OF that] n by simp
    then have "\<forall>e \<in> set ?new. 0 \<le> fst e \<and> fst e \<le> INTMAX_MAX"
      by (intro map_add_ball) blast
    moreover have "num_elements a - n = int (length ?new)" using wf len n by (simp add: array_wf_def)
    ultimately show ?thesis using False new by (simp add: array_wf_def)
  qed
  moreover have "array_shift (Some a) n flags =
      (if has_flag flags AS_DISPOSE then [] else take (nat n) (elements a), Some ?b)"
    using False n wf ne by (simp add: w array_shift_def wf_empty Let_def)
  ultimately show ?thesis by auto
qed

lemma array_rshift_eq:
  assumes wf: "array_wf a" and n: "0 < n" and fits: "max_index a + n \<le> INTMAX_MAX"
    and s: "s \<noteq> None \<or> elements a \<noteq> []"
  shows "\<exists>b. array_rshift (Some a) n s = (num_elements b, Some b) \<and> array_wf b
             \<and> elements b = (case s of Some v \<Rightarrow> [(0, Some v)] | None \<Rightarrow> [])
                            @ map (\<lambda>(j, v). (j + n, v)) (elements a)
             \<and> lastref b = None"
proof -
  let ?new = "case s of Some v \<Rightarrow> [(0, Some v)] | None \<Rightarrow> []"
  let ?es = "?new @ map (\<lambda>(j, v). (j + n, v)) (elements a)"
  let ?b = "a\<lparr>num_elements := num_elements a + (if s \<noteq> None then 1 else 0), elements := ?es,
              max_index := fst (last ?es), lastref := None\<rparr>"
  have inc: "increasing (elements a)" using wf by (rule wf_increasing)
  have rng: "0 < fst e + n \<and> fst e + n \<le> INTMAX_MAX" if "e \<in> set (elements a)" for e
    using le_last [OF inc that] wf that fits n by (auto simp: array_wf_def split: if_splits)
  have w: "map (\<lambda>(j, v). (wrap64 (j + n), v)) (elements a) = map (\<lambda>(j, v). (j + n, v)) (elements a)"
    using rng by (intro wrap_indices) (force simp: in_int64_def INTMAX_MAX_def)
  have ne: "?es \<noteq> []" using s by (auto split: option.splits)
  have "increasing ?es"
    using increasing_map_add [OF inc, of n] rng by (fastforce split: option.splits)
  moreover have "\<forall>e \<in> set ?es. 0 \<le> fst e \<and> fst e \<le> INTMAX_MAX"
    using rng by (fastforce simp: INTMAX_MAX_def split: option.splits)
  ultimately have wfb: "array_wf ?b"
    using wf ne by (auto simp: array_wf_def split: option.splits)
  have "array_rshift (Some a) n s = (num_elements ?b, Some ?b)"
  proof (cases "elements a = []")
    case True
    with wf have "lastref a = None" "num_elements a = 0"
      by (auto simp: array_wf_def is_element_def split: option.splits)
    then have "a\<lparr>lastref := None\<rparr> = a" by simp
    with True wf n s \<open>num_elements a = 0\<close> show ?thesis
      by (cases a) (auto simp: array_rshift_def wf_empty array_empty_def Let_def split: option.splits)
  next
    case False
    with wf have "num_elements a \<noteq> 0" by (simp add: array_wf_def)
    with False n ne wf show ?thesis
      by (cases s) (simp_all add: w array_rshift_def array_empty_def array_wf_def Let_def)
  qed
  with wfb show ?thesis by (intro exI [of _ ?b]) simp
qed

text \<open>Copies.\<close>

lemma copy_loop_eq:
  "copy_loop a ae es a1 =
     a1\<lparr>elements := elements a1 @ es,
        lastref := (if ae \<le> LASTREF a \<and> LASTREF a < ae + length es
                    then Some (length (elements a1) + LASTREF a - ae + 1) else lastref a1)\<rparr>"
  by (induction es arbitrary: ae a1) (auto simp: ADD_BEFORE_def Let_def)

lemma array_copy_eq:
  assumes wf: "array_wf a"
  shows "\<exists>b. array_copy (Some a) = Some b \<and> array_wf b \<and> elements b = elements a
             \<and> lastref b = (if elements a = [] then None else Some (LASTREF a))"
proof -
  have "elements a \<noteq> [] \<Longrightarrow> is_element a (LASTREF a)"
    using wf by (auto simp: array_wf_def LASTREF_def is_element_def element_forw_def Suc_le_eq split: option.splits)
  moreover have "elements a = [] \<Longrightarrow> LASTREF a = 0"
    using wf by (auto simp: array_wf_def LASTREF_def is_element_def element_forw_def split: option.splits)
  ultimately show ?thesis
    using wf by (cases "elements a = []")
      (simp_all add: array_copy_def copy_loop_eq array_create_def array_wf_def is_element_def)
qed

lemma slice_loop_eq:
  assumes "0 < p" and "p \<le> q" and "q \<le> Suc (length (elements a))"
  shows "slice_loop a p (if q = Suc (length (elements a)) then 0 else q) mi i r =
           r\<lparr>elements := elements r @ take (q - p) (drop (p - 1) (elements a)),
             num_elements := i + int (q - p),
             max_index := (if p = q then mi else fst (elements a ! (q - 2)))\<rparr>"
  using assms
proof (induction "q - p" arbitrary: p mi i r)
  case 0
  then have [simp]: "p = q" by simp
  show ?case
  proof (cases "q = Suc (length (elements a))")
    case True
    then show ?thesis by (subst slice_loop.simps) simp
  next
    case False
    then show ?thesis by (subst slice_loop.simps) simp
  qed
next
  case (Suc d)
  let ?e = "if q = Suc (length (elements a)) then 0 else q"
  let ?r = "r\<lparr>elements := elements r @ [elements a ! (p - 1)]\<rparr>"
  have lt: "p < q" "p \<le> length (elements a)" using Suc by auto
  have "slice_loop a p ?e mi i r = slice_loop a (element_forw a p) ?e (element_index a p) (i + 1) ?r"
    using lt Suc.prems
    by (subst slice_loop.simps) (auto simp: ADD_BEFORE_def element_index_def element_value_def)
  also have "\<dots> = ?r\<lparr>elements := elements ?r @ take (q - Suc p) (drop p (elements a)),
             num_elements := (i + 1) + int (q - Suc p),
             max_index := (if Suc p = q then element_index a p else fst (elements a ! (q - 2)))\<rparr>"
  proof (cases "p < length (elements a)")
    case True
    with Suc(1) [of "Suc p" "element_index a p" "i + 1" ?r] Suc(2-) lt show ?thesis
      by (simp add: element_forw_def)
  next
    case False
    with lt Suc.prems have [simp]: "p = length (elements a)" "q = Suc (length (elements a))" by auto
    show ?thesis by (subst slice_loop.simps) (simp add: element_forw_def)
  qed
  also have "\<dots> = r\<lparr>elements := elements r @ take (q - p) (drop (p - 1) (elements a)),
             num_elements := i + int (q - p),
             max_index := (if p = q then mi else fst (elements a ! (q - 2)))\<rparr>"
  proof -
    have "drop (p - 1) (elements a) = elements a ! (p - 1) # drop p (elements a)"
      using lt Suc.prems Cons_nth_drop_Suc [of "p - 1" "elements a"] by simp
    moreover have "q - p = Suc (q - Suc p)" using lt by simp
    ultimately show ?thesis using lt Suc.prems by (auto simp: element_index_def)
  qed
  finally show ?case .
qed

lemma subrange_find_eq:
  assumes "increasing (elements a)" and "before start (elements a) < length (elements a)"
    and "0 < p" "p - 1 \<le> before start (elements a)"
  shows "subrange_find a start p = Suc (before start (elements a))"
  using assms(3,4)
proof (induction "before start (elements a) - (p - 1)" arbitrary: p)
  case 0
  then have p: "p = Suc (before start (elements a))" by simp
  have "\<not> fst (elements a ! before start (elements a)) < start"
    using nth_less_iff [OF assms(1,2), of start] by simp
  with p show ?case by (subst subrange_find.simps) (simp add: element_index_def)
next
  case (Suc d)
  then have lt: "p - 1 < before start (elements a)" "p < length (elements a)" using assms(2) by auto
  then have "fst (elements a ! (p - 1)) < start"
    using nth_less_iff [OF assms(1), of "p - 1" start] by simp
  with lt Suc.prems have "subrange_find a start p = subrange_find a start (Suc p)"
    by (subst subrange_find.simps) (simp add: element_index_def is_element_def element_forw_def)
  with Suc(1) [of "Suc p"] Suc(2-) lt show ?case by simp
qed

lemma subrange_take_eq:
  assumes "0 < p" and "p \<le> Suc (length (elements a))"
  shows "subrange_take a i nelem (if p = Suc (length (elements a)) then 0 else p) =
           (let q = p + min (nat (nelem - i)) (Suc (length (elements a)) - p)
            in if q = Suc (length (elements a)) then 0 else q)"
  using assms
proof (induction "Suc (length (elements a)) - p" arbitrary: p i)
  case 0
  then have "p = Suc (length (elements a))" by simp
  then show ?case by (subst subrange_take.simps) (simp add: is_element_def)
next
  case (Suc d)
  then have p: "p \<le> length (elements a)" by simp
  show ?case
  proof (cases "i < nelem")
    case False
    with p Suc.prems show ?thesis by (subst subrange_take.simps) (simp add: Let_def)
  next
    case True
    then have "nat (nelem - i) = Suc (nat (nelem - (i + 1)))" by linarith
    with True p Suc.prems Suc(1) [of "Suc p" "i + 1"] Suc(2) show ?thesis
      by (subst subrange_take.simps)
         (auto simp: is_element_def element_forw_def Let_def Suc_diff_le min_def split: if_splits)
  qed
qed

lemma filter_ge_before:
  "increasing es \<Longrightarrow> filter (\<lambda>e. start \<le> fst e) es = drop (before start es) es"
proof (induction es)
  case (Cons e es)
  obtain j v where [simp]: "e = (j, v)" by (cases e)
  show ?case
  proof (cases "j < start")
    case False
    then have "\<forall>x \<in> set es. start \<le> fst x" using Cons.prems by fastforce
    with False show ?thesis by (simp add: filter_id_conv)
  qed (use Cons in simp)
qed simp

text \<open>The elements a subrange selects.\<close>

definition range_elements :: "array \<Rightarrow> int \<Rightarrow> int \<Rightarrow> array_element list" where
  "range_elements a start nelem = take (nat nelem) (filter (\<lambda>e. start \<le> fst e) (elements a))"

lemma array_slice_range:
  assumes wf: "array_wf a" and ne: "elements a \<noteq> []" and start: "start \<le> max_index a"
  shows "subrange_find a start (element_forw a 0) \<noteq> 0"
    and "elements (array_slice a (subrange_find a start (element_forw a 0))
           (subrange_take a 0 nelem (subrange_find a start (element_forw a 0))))
         = range_elements a start nelem"
    and "num_elements (array_slice a (subrange_find a start (element_forw a 0))
           (subrange_take a 0 nelem (subrange_find a start (element_forw a 0))))
         = int (length (range_elements a start nelem))"
proof -
  let ?es = "elements a" and ?B = "before start (elements a)"
  have inc: "increasing ?es" by (rule wf_increasing [OF wf])
  have "start \<le> fst (last ?es)" using wf ne start by (simp add: array_wf_def)
  then have "\<not> length ?es - 1 < ?B"
    using nth_less_iff [OF inc, of "length ?es - 1" start] ne by (simp add: last_conv_nth)
  then have B: "?B < length ?es" using ne before_le [of start ?es] by (cases "length ?es") auto
  have h: "subrange_find a start (element_forw a 0) = Suc ?B"
    using subrange_find_eq [OF inc B] ne by (simp add: element_forw_def)
  define q where "q = Suc ?B + min (nat nelem) (length ?es - ?B)"
  have q: "Suc ?B \<le> q" "q \<le> Suc (length ?es)" using B by (auto simp: q_def)
  have t: "subrange_take a 0 nelem (Suc ?B) = (if q = Suc (length ?es) then 0 else q)"
    using subrange_take_eq [of "Suc ?B" a 0 nelem] B by (simp add: Let_def q_def)
  note sl = slice_loop_eq [OF _ q, of 0 0 array_create]
  have "take (q - Suc ?B) (drop ?B ?es) = range_elements a start nelem"
    using B by (simp add: range_elements_def filter_ge_before [OF inc] q_def min_def)
  with h t sl show "subrange_find a start (element_forw a 0) \<noteq> 0"
    "elements (array_slice a (subrange_find a start (element_forw a 0))
           (subrange_take a 0 nelem (subrange_find a start (element_forw a 0))))
         = range_elements a start nelem"
    by (simp_all add: array_slice_def array_create_def)
  from h t sl show "num_elements (array_slice a (subrange_find a start (element_forw a 0))
           (subrange_take a 0 nelem (subrange_find a start (element_forw a 0))))
         = int (length (range_elements a start nelem))"
    using B by (simp add: array_slice_def array_create_def range_elements_def filter_ge_before [OF inc] q_def min_def)
qed

text \<open>Assigning a list of words, index by index.\<close>

lemma array_eq_put:
  "array_wf a \<Longrightarrow> array_index_ok i \<Longrightarrow> snd (array_insert (Some a) i v) = Some (array_put i v a)"
  using array_insert_Some [of a i v] by (auto simp: array_put_def array_index_ok_def)

lemma elements_put_end:
  assumes "array_wf a" and "0 \<le> i" and "\<forall>e \<in> set (elements a). fst e < i"
  shows "elements (array_put i v a) = elements a @ [(i, v)]"
  using assms by (simp add: array_put_def array_insert_eq put_sorted_end)

lemma assign_list_elements:
  assumes "array_wf a" and "0 \<le> i" and "i + int (length l) \<le> INTMAX_MAX"
    and "\<forall>e \<in> set (elements a). fst e < i"
  shows "\<exists>b. assign_list_loop (Some a) i l = Some b \<and> array_wf b
             \<and> elements b = elements a @ zip (map (\<lambda>k. i + int k) [0..<length l]) (map (\<lambda>w. Some (wd_word w)) l)"
  using assms
proof (induction l arbitrary: a i)
  case (Cons w l)
  let ?a = "array_put i (Some (wd_word w)) a"
  have ok: "array_index_ok i" using Cons.prems by (simp add: array_index_ok_def)
  have el: "elements ?a = elements a @ [(i, Some (wd_word w))]"
    using Cons.prems by (intro elements_put_end) auto
  then have "\<forall>e \<in> set (elements ?a). fst e < i + 1" using Cons.prems(4) by auto
  then obtain b where "assign_list_loop (Some ?a) (i + 1) l = Some b" "array_wf b"
    "elements b = elements ?a @ zip (map (\<lambda>k. i + 1 + int k) [0..<length l]) (map (\<lambda>w. Some (wd_word w)) l)"
    using Cons.IH [of ?a "i + 1"] Cons.prems arr.inv_put [OF Cons.prems(1) ok] by auto
  moreover have "map (\<lambda>k. i + int k) [0..<length (w # l)] = i # map (\<lambda>k. i + 1 + int k) [0..<length l]"
    by (simp add: map_upt_Suc algebra_simps del: upt_Suc)
  ultimately show ?case
    using el ok Cons.prems by (simp add: array_eq_put del: upt_Suc)
qed simp

lemma map_values_eq:
  "map_values f es = (if \<exists>e \<in> set es. f (snd e) = None then None
                      else Some (map (\<lambda>(j, v). (j, the (f v))) es))"
  by (induction f es rule: map_values.induct) (auto split: option.splits)

lemma replace_values_wf:
  assumes "array_wf a" and "replace_values f (Some a) = Some (r, b)"
  shows "\<exists>b'. b = Some b' \<and> array_wf b' \<and> r = (elements a \<noteq> [])
              \<and> elements b' = map (\<lambda>(j, v). (j, the (f v))) (elements a)"
proof (cases "elements a = []")
  case True
  with assms show ?thesis by (auto simp: replace_values_def wf_empty)
next
  case False
  let ?es = "map (\<lambda>(j, v). (j, the (f v))) (elements a)"
  have b: "b = Some (a\<lparr>elements := ?es\<rparr>)" "r = True"
    using assms False by (auto simp: replace_values_def wf_empty map_values_eq split: if_splits)
  have keys: "map fst ?es = map fst (elements a)" by auto
  have "fst (last ?es) = fst (last (elements a))" using False by (simp add: last_map case_prod_beta)
  moreover have "\<forall>e \<in> set ?es. 0 \<le> fst e \<and> fst e \<le> INTMAX_MAX" using assms(1) by (auto simp: array_wf_def)
  ultimately have "array_wf (a\<lparr>elements := ?es\<rparr>)"
    using assms(1) unfolding array_wf_def
    by (simp add: keys is_element_def del: map_map split: option.splits)
  with b False show ?thesis by simp
qed

definition no_nulls :: "array \<Rightarrow> bool" where
  "no_nulls a \<longleftrightarrow> (\<forall>e \<in> set (elements a). snd e \<noteq> None)"

lemma array_quote_dequote:
  assumes wf: "array_wf a" and "no_nulls a" and "elements a \<noteq> []"
  shows "\<exists>q. array_quote (Some a) = Some (True, Some q) \<and> array_dequote (Some q) = Some (True, Some a)"
proof -
  let ?es = "map (\<lambda>(j, v). (j, Some (quote_string (the v)))) (elements a)"
  have "array_quote (Some a) = Some (True, Some (a\<lparr>elements := ?es\<rparr>))"
    using assms by (auto simp: array_quote_def replace_values_def wf_empty map_values_eq no_nulls_def
        case_prod_beta option.map_sel)
  moreover have "Some (the (snd e)) = snd e" if "e \<in> set (elements a)" for e
    using assms(2) that by (auto simp: no_nulls_def)
  then have "array_dequote (Some (a\<lparr>elements := ?es\<rparr>)) = Some (True, Some a)"
    using assms(3) wf
    by (auto simp: array_dequote_def replace_values_def array_empty_def array_wf_def map_values_eq
        case_prod_beta comp_def intro!: array.equality map_idI)
  ultimately show ?thesis by blast
qed

definition word_of :: "array_element \<Rightarrow> word_desc" where
  "word_of e = \<lparr>wd_word = the (snd e), wd_flags = 0\<rparr>"

lemma words_of_elements:
  "\<forall>e \<in> set es. snd e \<noteq> None \<Longrightarrow> words_of_values (map snd es) = Some (map word_of es)"
  by (force simp: words_of_values_eq word_of_def)

lemma string_list_pos_params_Nil: "string_list_pos_params st b c [] quoted pflags = None"
  by (simp add: string_list_pos_params_def string_list_dollar_star_def string_list_dollar_at_def
      string_list_def string_list_internal_def quote_list_def word_list_remove_quoted_nulls_def
      list_quote_escapes_def Let_def)

definition example_array :: array where
  "example_array =
     \<lparr>max_index = 7, num_elements = 3, elements = [(0, Some ''a''), (4, Some ''b''), (7, Some ''c'')],
      lastref = Some 2\<rparr>"

lemma example_array_wf: "array_wf example_array"
  by (simp add: array_wf_def example_array_def is_element_def INTMAX_MAX_def)


section \<open>Properties\<close>

text \<open>
  C2. \<^verbatim>\<open>array_insert\<close> with the roving pointer and its two search directions is assignment to a sorted
  association list: it always succeeds for an index in range, keeps the array well formed, keeps the
  indices sorted and changes the value of that index only.
\<close>

theorem array_insert_spec:
  assumes "array_wf a" and "0 \<le> i" and "i \<le> INTMAX_MAX"
  shows "\<exists>b. array_insert (Some a) i v = (0, Some b) \<and> array_wf b
             \<and> elements b = put_sorted i v (elements a)
             \<and> array_map b = (array_map a)(i \<mapsto> v)"
  using array_insert_eq [OF assms(1,2), of v] array_insert_wf [OF assms, of v]
    array_insert_map [OF assms(1,2), of v] by simp

lemma array_insert_spec_witness:
  "\<exists>b. array_insert (Some example_array) 5 (Some ''x'') = (0, Some b) \<and> array_wf b
       \<and> elements b = [(0, Some ''a''), (4, Some ''b''), (5, Some ''x''), (7, Some ''c'')]
       \<and> array_map b = (array_map example_array)(5 \<mapsto> Some ''x'')"
  using array_insert_spec [OF example_array_wf, of 5 "Some ''x''"]
  by (simp add: INTMAX_MAX_def example_array_def)

text \<open>
  C21. \<^verbatim>\<open>array_reference\<close> returns the value stored at the index, or \<^verbatim>\<open>NULL\<close> when the index is not set,
  whatever the roving pointer was; it changes nothing but the roving pointer, which stays on an
  element of the array (never on the head). So any reads in between leave a later read unchanged.
\<close>

theorem array_reference_spec:
  assumes "array_wf a"
  shows "\<exists>l. array_reference (Some a) i =
               (case array_map a i of Some v \<Rightarrow> v | None \<Rightarrow> None, Some (a\<lparr>lastref := l\<rparr>))
             \<and> array_wf (a\<lparr>lastref := l\<rparr>)
             \<and> fst (array_fetch i (fold (\<lambda>k s. snd (array_fetch k s)) ks a)) = fst (array_fetch i a)"
  using array_reference_eq [OF assms, of i] ars.fetch_after_many [OF assms, of i ks] by blast

lemma array_reference_spec_witness:
  "\<exists>l. array_reference (Some example_array) 4 = (Some ''b'', Some (example_array\<lparr>lastref := l\<rparr>))
       \<and> array_wf (example_array\<lparr>lastref := l\<rparr>)
       \<and> fst (array_fetch 4 (fold (\<lambda>k s. snd (array_fetch k s)) [7, 0] example_array))
         = fst (array_fetch 4 example_array)"
  using array_reference_spec [OF example_array_wf, of 4 "[7, 0]"]
  by (simp add: array_map_def example_array_def)

text \<open>
  C22. \<^verbatim>\<open>array_remove\<close> returns the element at the index, if there is one, and removes exactly that
  element; the counters and the roving pointer stay right, and the number of elements drops by one
  just when the index was set.
\<close>

theorem array_remove_spec:
  assumes "array_wf a"
  shows "\<exists>b. array_remove (Some a) i = (map_option (Pair i) (array_map a i), Some b) \<and> array_wf b
             \<and> elements b = filter (\<lambda>e. fst e \<noteq> i) (elements a)
             \<and> array_map b = (array_map a)(i := None)
             \<and> num_elements b = num_elements a - (if array_map a i = None then 0 else 1)"
proof -
  obtain b where b: "array_remove (Some a) i = (map_option (Pair i) (array_map a i), Some b)" "array_wf b"
    "elements b = filter (\<lambda>e. fst e \<noteq> i) (elements a)"
    using array_remove_eq [OF assms] by blast
  then have "b = array_del i a" by (simp add: array_del_def)
  with b arr.look_del [OF assms, of i] arr.count_del [OF assms, of i] show ?thesis by auto
qed

lemma array_remove_spec_witness:
  "\<exists>b. array_remove (Some example_array) 7 = (Some (7, Some ''c''), Some b) \<and> array_wf b
       \<and> elements b = [(0, Some ''a''), (4, Some ''b'')] \<and> array_map b 7 = None \<and> num_elements b = 2"
  using array_remove_spec [OF example_array_wf, of 7] by (auto simp: array_map_def example_array_def)

text \<open>
  C39. Shifting left by \<open>n\<close> takes out the first \<open>n\<close> elements, in order, and renumbers the others;
  shifting right renumbers all elements and stores the new value at index 0; both keep the array
  well formed, and shifting one element in and then out gives back the elements of the array.
\<close>

theorem array_shift_spec:
  assumes "array_wf a" and "0 < n" and "max_index a + n \<le> INTMAX_MAX"
  shows "(\<exists>b. array_shift (Some a) n 0 = (take (nat n) (elements a), Some b) \<and> array_wf b
              \<and> elements b = map (\<lambda>(j, v). (j - n, v)) (drop (nat n) (elements a)))
         \<and> (\<exists>b. array_rshift (Some a) n (Some s) = (num_elements a + 1, Some b) \<and> array_wf b
              \<and> elements b = (0, Some s) # map (\<lambda>(j, v). (j + n, v)) (elements a))
         \<and> (\<exists>c. array_unshift_element (snd (array_shift_element (Some a) (Some s))) = ([(0, Some s)], Some c)
              \<and> array_wf c \<and> elements c = elements a)"
proof -
  obtain b where b: "array_rshift (Some a) n (Some s) = (num_elements b, Some b)" "array_wf b"
    "elements b = (0, Some s) # map (\<lambda>(j, v). (j + n, v)) (elements a)"
    using array_rshift_eq [OF assms, of "Some s"] by auto
  obtain b1 where b1: "array_rshift (Some a) 1 (Some s) = (num_elements b1, Some b1)" "array_wf b1"
    "elements b1 = (0, Some s) # map (\<lambda>(j, v). (j + 1, v)) (elements a)"
    using array_rshift_eq [OF assms(1), of 1 "Some s"] assms(2,3) by auto
  obtain c where c: "array_shift (Some b1) 1 0 = (take 1 (elements b1), Some c)" "array_wf c"
    "elements c = map (\<lambda>(j, v). (j - 1, v)) (drop 1 (elements b1))"
    using array_shift_eq [OF b1(2), of 1 0] by (auto simp: has_flag_def)
  have "num_elements b = num_elements a + 1" using b assms(1) by (simp add: array_wf_def)
  moreover have "elements c = elements a" using b1(3) c(3) by (simp add: case_prod_beta comp_def)
  ultimately show ?thesis
    using b b1 c array_shift_eq [OF assms(1,2), of 0]
    by (auto simp: has_flag_def array_unshift_element_def array_shift_element_def)
qed

lemma array_shift_spec_witness:
  "(\<exists>b. array_shift (Some example_array) 2 0 = ([(0, Some ''a''), (4, Some ''b'')], Some b) \<and> array_wf b
        \<and> elements b = [(5, Some ''c'')])
   \<and> (\<exists>b. array_rshift (Some example_array) 2 (Some ''z'') = (4, Some b) \<and> array_wf b
        \<and> elements b = [(0, Some ''z''), (2, Some ''a''), (6, Some ''b''), (9, Some ''c'')])
   \<and> (\<exists>c. array_unshift_element (snd (array_shift_element (Some example_array) (Some ''z''))) = ([(0, Some ''z'')], Some c)
        \<and> array_wf c \<and> elements c = elements example_array)"
  using array_shift_spec [OF example_array_wf, of 2 "''z''"] by (simp add: INTMAX_MAX_def example_array_def)

text \<open>
  \<^verbatim>\<open>array_subrange\<close> joins the values of the first \<open>nelem\<close> elements whose index is at least \<open>start\<close>;
  unset indices are not counted.
\<close>

theorem array_subrange_spec:
  assumes "array_wf a" and "no_nulls a" and "start \<le> max_index a"
  shows "array_subrange st b (Some a) start nelem starsub quoted pflags =
           Some (string_list_pos_params st b (if starsub then CHR ''*'' else CHR ''@'')
                   (map word_of (take (nat nelem) (filter (\<lambda>e. start \<le> fst e) (elements a)))) quoted pflags)"
proof (cases "elements a = []")
  case True
  with assms(1) show ?thesis
    by (simp add: array_subrange_def wf_empty string_list_pos_params_Nil)
next
  case False
  let ?r = "range_elements a start nelem"
  let ?h = "subrange_find a start (element_forw a 0)"
  let ?s = "array_slice a ?h (subrange_take a 0 nelem ?h)"
  note s = array_slice_range [OF assms(1) False assms(3)]
  have "\<forall>e \<in> set ?r. snd e \<noteq> None"
    using assms(2) by (auto simp: range_elements_def no_nulls_def dest!: in_set_takeD)
  then have "array_to_word_list (Some ?s) = Some (map word_of ?r)"
    using s(2,3) by (simp add: array_to_word_list_def array_empty_def words_of_elements)
  moreover have "array_subrange st b (Some a) start nelem starsub quoted pflags =
      Some (string_list_pos_params st b (if starsub then CHR ''*'' else CHR ''@'') (map word_of ?r) quoted pflags)"
    using calculation s(1) False assms(1,3)
    by (cases ?r) (simp_all add: array_subrange_def wf_empty string_list_pos_params_Nil Let_def)
  ultimately show ?thesis by (simp add: range_elements_def)
qed

lemma array_subrange_spec_witness:
  "array_subrange (setifs None) False (Some example_array) 1 2 True Q_DOUBLE_QUOTES 0 =
     Some (string_list_pos_params (setifs None) False CHR ''*''
             [\<lparr>wd_word = ''b'', wd_flags = 0\<rparr>, \<lparr>wd_word = ''c'', wd_flags = 0\<rparr>] Q_DOUBLE_QUOTES 0)"
  using array_subrange_spec [OF example_array_wf, of 1 "setifs None" False 2 True Q_DOUBLE_QUOTES 0]
  by (simp add: no_nulls_def example_array_def word_of_def)

text \<open>
  Making an array from a list of words numbers them from 0 and converting it back gives the same
  words; quoting all values of such an array and dequoting them restores it.
\<close>

theorem array_word_list_roundtrip:
  assumes "l \<noteq> []" and "int (length l) \<le> INTMAX_MAX"
  shows "\<exists>a. array_from_word_list l = Some a \<and> array_wf a
             \<and> map fst (elements a) = map int [0..<length l]
             \<and> map_option (map wd_word) (array_to_word_list (Some a)) = Some (map wd_word l)
             \<and> fst (array_to_argv (Some a)) = map wd_word l
             \<and> (\<exists>q. array_quote (Some a) = Some (True, Some q) \<and> array_dequote (Some q) = Some (True, Some a))"
proof -
  obtain a where a: "array_from_word_list l = Some a" "array_wf a"
    "elements a = zip (map int [0..<length l]) (map (\<lambda>w. Some (wd_word w)) l)"
    using assign_list_elements [OF array_create_wf, of 0 l] assms
    by (auto simp: array_from_word_list_def array_assign_list_def array_create_def)
  have s: "map snd (elements a) = map (\<lambda>w. Some (wd_word w)) l" using a(3) by simp
  have "words_of_values (map snd (elements a)) = Some (map (\<lambda>w. \<lparr>wd_word = wd_word w, wd_flags = 0\<rparr>) l)"
    unfolding s by (force simp: words_of_values_eq)
  moreover have "elements a \<noteq> []" using a(3) assms(1) by (auto simp: zip_eq_Nil_iff)
  moreover have "concat (map (\<lambda>(j, v). case v of Some t \<Rightarrow> [t] | None \<Rightarrow> []) (elements a))
      = concat (map (\<lambda>v. case v of Some t \<Rightarrow> [t] | None \<Rightarrow> []) (map snd (elements a)))"
    by (rule arg_cong [of _ _ concat]) (auto simp: comp_def)
  then have "concat (map (\<lambda>(j, v). case v of Some t \<Rightarrow> [t] | None \<Rightarrow> []) (elements a)) = map wd_word l"
    by (simp add: s comp_def)
  moreover have "None \<notin> set (map snd (elements a))" unfolding s by auto
  then have "no_nulls a" by (force simp: no_nulls_def)
  ultimately show ?thesis
    using a array_quote_dequote [OF a(2)]
    by (auto simp: array_to_word_list_def array_to_argv_def wf_empty comp_def Let_def)
qed

lemma array_word_list_roundtrip_witness:
  "\<exists>a. array_from_word_list [\<lparr>wd_word = ''x'', wd_flags = 0\<rparr>, \<lparr>wd_word = '''', wd_flags = 2\<rparr>] = Some a
       \<and> array_wf a \<and> map fst (elements a) = [0, 1]
       \<and> map_option (map wd_word) (array_to_word_list (Some a)) = Some [''x'', '''']
       \<and> fst (array_to_argv (Some a)) = [''x'', '''']
       \<and> (\<exists>q. array_quote (Some a) = Some (True, Some q) \<and> array_dequote (Some q) = Some (True, Some a))"
  using array_word_list_roundtrip [of "[\<lparr>wd_word = ''x'', wd_flags = 0\<rparr>, \<lparr>wd_word = '''', wd_flags = 2\<rparr>]"]
  by (simp add: INTMAX_MAX_def upt_rec)

end
