(* ===== verification/Assoc.thy ===== *)
theory Assoc
  imports Hashlib Array
begin

text \<open>
  Associative arrays, from \<^verbatim>\<open>assoc.c\<close>: hash tables whose data are strings, possibly \<^verbatim>\<open>NULL\<close>. The loops
  over the buckets and their chains run over \<open>loop_items\<close>. As in \<^verbatim>\<open>array.c\<close>, following a \<^verbatim>\<open>NULL\<close>
  value is the outcome \<open>None\<close>.
\<close>

type_synonym assoc = "cstring hash_table"

definition assoc_empty :: "assoc \<Rightarrow> bool" where
  "assoc_empty h \<longleftrightarrow> ht_nentries h = 0"

text \<open>\<^verbatim>\<open>for (i = 0; i < h->nbuckets; i++) for (tlist = hash_items (i, h); tlist; ...)\<close>\<close>

definition loop_items :: "assoc \<Rightarrow> cstring bucket_contents list" where
  "loop_items h = concat (map (\<lambda>i. hash_items i (Some h)) [0..<nat (ht_nbuckets h)])"


section \<open>Operations\<close>

definition assoc_flush :: "assoc option \<Rightarrow> assoc option" where
  "assoc_flush hash = hash_flush hash"

definition assoc_insert :: "assoc option \<Rightarrow> cstring \<Rightarrow> cstring option \<Rightarrow> int \<times> assoc option" where
  "assoc_insert hash key value =
     (case hash_search key hash HASH_CREATE of
        (None, h) \<Rightarrow> (-1, h)
      | (Some b, h) \<Rightarrow> (0, map_option (update_item b (\<lambda>e. e\<lparr>bc_data := value\<rparr>)) h))"

definition assoc_replace ::
  "assoc option \<Rightarrow> cstring \<Rightarrow> cstring option \<Rightarrow> cstring option \<times> assoc option" where
  "assoc_replace hash key value =
     (case hash_search key hash HASH_CREATE of
        (None, h) \<Rightarrow> (None, h)
      | (Some b, h) \<Rightarrow>
          (case h of
             None \<Rightarrow> (None, None)
           | Some t \<Rightarrow> (bc_data (item_at t b), Some (update_item b (\<lambda>e. e\<lparr>bc_data := value\<rparr>) t))))"

definition assoc_remove :: "assoc option \<Rightarrow> cstring \<Rightarrow> assoc option" where
  "assoc_remove hash string = snd (hash_remove string hash 0)"

definition assoc_reference :: "assoc option \<Rightarrow> cstring \<Rightarrow> cstring option \<times> assoc option" where
  "assoc_reference hash string =
     (case hash of
        None \<Rightarrow> (None, None)
      | Some _ \<Rightarrow>
          (case hash_search string hash 0 of
             (Some b, Some t) \<Rightarrow> (bc_data (item_at t b), Some t)
           | (_, h) \<Rightarrow> (None, h)))"

text \<open>The loops that replace the data of every item in place.\<close>

fun map_items ::
  "(cstring option \<Rightarrow> cstring option option) \<Rightarrow> cstring bucket_contents list
   \<Rightarrow> cstring bucket_contents list option" where
  "map_items f [] = Some []"
| "map_items f (b # bs) =
     (case f (bc_data b) of
        None \<Rightarrow> None
      | Some d \<Rightarrow> map_option (\<lambda>bs'. b\<lparr>bc_data := d\<rparr> # bs') (map_items f bs))"

fun map_buckets ::
  "(cstring option \<Rightarrow> cstring option option) \<Rightarrow> cstring bucket_contents list list
   \<Rightarrow> cstring bucket_contents list list option" where
  "map_buckets f [] = Some []"
| "map_buckets f (bs # rest) =
     (case map_items f bs of
        None \<Rightarrow> None
      | Some bs' \<Rightarrow> map_option (\<lambda>rest'. bs' # rest') (map_buckets f rest))"

definition replace_data ::
  "(cstring option \<Rightarrow> cstring option option) \<Rightarrow> assoc option \<Rightarrow> (bool \<times> assoc option) option" where
  "replace_data f hp =
     (case hp of
        None \<Rightarrow> Some (False, None)
      | Some h \<Rightarrow>
          if assoc_empty h then Some (False, Some h)
          else map_option (\<lambda>ba. (True, Some (h\<lparr>ht_bucket_array := ba\<rparr>))) (map_buckets f (ht_bucket_array h)))"

definition assoc_quote :: "assoc option \<Rightarrow> (bool \<times> assoc option) option" where
  "assoc_quote h = replace_data (map_option (\<lambda>v. Some (quote_string v))) h"

definition assoc_quote_escapes :: "ifs_state \<Rightarrow> assoc option \<Rightarrow> (bool \<times> assoc option) option" where
  "assoc_quote_escapes st h = replace_data (map_option (\<lambda>v. Some (quote_escapes st v))) h"

definition assoc_dequote :: "assoc option \<Rightarrow> (bool \<times> assoc option) option" where
  "assoc_dequote h = replace_data (map_option (\<lambda>v. Some (dequote_string v))) h"

definition assoc_dequote_escapes :: "ifs_state \<Rightarrow> assoc option \<Rightarrow> (bool \<times> assoc option) option" where
  "assoc_dequote_escapes st h = replace_data (\<lambda>v. Some (dequote_escapes st v)) h"

definition assoc_remove_quoted_nulls :: "assoc option \<Rightarrow> (bool \<times> assoc option) option" where
  "assoc_remove_quoted_nulls h = replace_data (map_option (\<lambda>v. Some (remove_quoted_nulls v))) h"


section \<open>Conversions\<close>

definition assoc_to_word_list_internal :: "assoc option \<Rightarrow> bool \<Rightarrow> word_list option" where
  "assoc_to_word_list_internal hp t =
     (case hp of
        None \<Rightarrow> Some []
      | Some h \<Rightarrow>
          if assoc_empty h then Some []
          else words_of_values (map (\<lambda>b. if \<not> t then bc_data b else Some (bc_key b)) (loop_items h)))"

definition assoc_to_word_list :: "assoc option \<Rightarrow> word_list option" where
  "assoc_to_word_list h = assoc_to_word_list_internal h False"

definition assoc_keys_to_word_list :: "assoc option \<Rightarrow> word_list option" where
  "assoc_keys_to_word_list h = assoc_to_word_list_internal h True"

definition assoc_to_kvpair_list :: "assoc option \<Rightarrow> word_list option" where
  "assoc_to_kvpair_list hp =
     (case hp of
        None \<Rightarrow> Some []
      | Some h \<Rightarrow>
          if assoc_empty h then Some []
          else words_of_values (concat (map (\<lambda>b. [Some (bc_key b), bc_data b]) (loop_items h))))"

definition assoc_to_string :: "assoc option \<Rightarrow> cstring \<Rightarrow> bool \<Rightarrow> cstring option" where
  "assoc_to_string hp sep quoted =
     (case hp of
        None \<Rightarrow> None
      | Some h \<Rightarrow>
          if assoc_empty h then Some []
          else
            let ws = concat (map (\<lambda>b. case bc_data b of None \<Rightarrow> []
                                      | Some w \<Rightarrow> [\<lparr>wd_word = (if quoted then quote_string w else w), wd_flags = 0\<rparr>])
                                 (loop_items h))
            in if ws \<noteq> [] then string_list_internal ws sep else Some [])"

text \<open>How a key is printed in a compound assignment.\<close>

definition ALL_ELEMENT_SUB :: "char \<Rightarrow> bool" where
  "ALL_ELEMENT_SUB c \<longleftrightarrow> c = CHR ''@'' \<or> c = CHR ''*''"

definition key_istr :: "cstring \<Rightarrow> cstring" where
  "key_istr k =
     (if ansic_shouldquote k then the (ansic_quote (Some k))
      else if sh_contains_shell_metas k then sh_double_quote k
      else if ALL_ELEMENT_SUB (char_at k 0) \<and> length k = 1 then sh_double_quote k
      else k)"

definition assoc_to_kvpair :: "assoc option \<Rightarrow> bool \<Rightarrow> cstring option" where
  "assoc_to_kvpair hp quoted =
     (case hp of
        None \<Rightarrow> None
      | Some h \<Rightarrow>
          if assoc_empty h then None
          else
            let ret = concat (map (\<lambda>b. key_istr (bc_key b) @ '' ''
                        @ (case element_valstr (bc_data b) of Some t \<Rightarrow> t | None \<Rightarrow> [DQUOTE, DQUOTE]) @ '' '')
                        (loop_items h))
            in Some (if quoted then sh_single_quote ret else ret))"

definition assoc_to_assign :: "assoc option \<Rightarrow> bool \<Rightarrow> cstring option" where
  "assoc_to_assign hp quoted =
     (case hp of
        None \<Rightarrow> None
      | Some h \<Rightarrow>
          if assoc_empty h then None
          else
            let ret = ''('' @ concat (map (\<lambda>b. ''['' @ key_istr (bc_key b) @ '']=''
                        @ (case element_valstr (bc_data b) of Some t \<Rightarrow> t | None \<Rightarrow> []) @ '' '')
                        (loop_items h)) @ '')''
            in Some (if quoted then sh_single_quote ret else ret))"

text \<open>
  \<^verbatim>\<open>assoc_subrange\<close>: its first loop skips words, its second walks over \<open>nelem\<close> words with \<open>t\<close> one step
  behind; the list handed on ends at \<open>t\<close>, which is the first word when the loop makes no step.
\<close>

fun skip_words :: "int \<Rightarrow> int \<Rightarrow> 'a list \<Rightarrow> 'a list" where
  "skip_words i start [] = []"
| "skip_words i start (x # l) = (if i < start then skip_words (i + 1) start l else x # l)"

fun walked_words :: "int \<Rightarrow> int \<Rightarrow> 'a list \<Rightarrow> 'a list" where
  "walked_words j nelem [] = []"
| "walked_words j nelem (x # l) = (if j < nelem then x # walked_words (j + 1) nelem l else [])"

definition assoc_subrange ::
  "ifs_state \<Rightarrow> bool \<Rightarrow> assoc \<Rightarrow> int \<Rightarrow> int \<Rightarrow> bool \<Rightarrow> int \<Rightarrow> int \<Rightarrow> cstring option option" where
  "assoc_subrange st no_split_star hash start nelem starsub quoted pflags =
     (if assoc_empty hash then Some None
      else
        (case assoc_to_word_list (Some hash) of
           None \<Rightarrow> None
         | Some [] \<Rightarrow> Some None
         | Some save \<Rightarrow>
             (case skip_words 1 start save of
                [] \<Rightarrow> Some None
              | w # l \<Rightarrow>
                  let walked = walked_words 0 nelem (w # l);
                      h = (if walked = [] then [w] else walked)
                  in Some (string_list_pos_params st no_split_star
                             (if starsub then CHR ''*'' else CHR ''@'') h quoted pflags))))"

definition assoc_change_words ::
  "ifs_state \<Rightarrow> bool \<Rightarrow> (cstring \<Rightarrow> cstring) \<Rightarrow> assoc option \<Rightarrow> int \<Rightarrow> cstring option option" where
  "assoc_change_words st no_split_star change hp mflags =
     (case hp of
        None \<Rightarrow> Some None
      | Some h \<Rightarrow>
          if assoc_empty h then Some None
          else
            (case assoc_to_word_list hp of
               None \<Rightarrow> None
             | Some [] \<Rightarrow> Some None
             | Some wl \<Rightarrow>
                 let wl = map (\<lambda>w. w\<lparr>wd_word := change (wd_word w)\<rparr>) wl;
                     pchar = (if mflags AND MATCH_STARSUB = MATCH_STARSUB then CHR ''*'' else CHR ''@'');
                     qflags = (if mflags AND MATCH_QUOTED = MATCH_QUOTED then Q_DOUBLE_QUOTES else 0);
                     pflags = (if mflags AND MATCH_ASSIGNRHS = MATCH_ASSIGNRHS then PF_ASSIGNRHS else 0)
                 in Some (string_list_pos_params st no_split_star pchar wl qflags pflags)))"

definition assoc_patsub ::
  "(cstring \<Rightarrow> cstring \<Rightarrow> cstring \<Rightarrow> int \<Rightarrow> cstring) \<Rightarrow> ifs_state \<Rightarrow> bool \<Rightarrow> assoc option \<Rightarrow> cstring \<Rightarrow> cstring \<Rightarrow> int
   \<Rightarrow> cstring option option" where
  "assoc_patsub pat_subst st no_split_star h pat rep mflags =
     assoc_change_words st no_split_star (\<lambda>w. pat_subst w pat rep mflags) h mflags"

definition assoc_modcase ::
  "(cstring \<Rightarrow> cstring \<Rightarrow> int \<Rightarrow> cstring) \<Rightarrow> ifs_state \<Rightarrow> bool \<Rightarrow> assoc option \<Rightarrow> cstring \<Rightarrow> int \<Rightarrow> int
   \<Rightarrow> cstring option option" where
  "assoc_modcase sh_modcase st no_split_star h pat modop mflags =
     assoc_change_words st no_split_star (\<lambda>w. sh_modcase w pat modop) h mflags"


section \<open>The store an associative array implements\<close>

lemma loop_items_all: "hash_wf h \<Longrightarrow> loop_items h = all_items h"
proof -
  assume wf: "hash_wf h"
  then have "map (\<lambda>i. hash_items i (Some h)) [0..<nat (ht_nbuckets h)] = ht_bucket_array h"
    by (intro nth_equalityI) (auto simp: hash_wf_def hash_items_def)
  then show ?thesis by (simp add: loop_items_def all_items_def)
qed

lemma has_create: "HASH_CREATE AND HASH_CREATE \<noteq> 0"
  by (simp add: HASH_CREATE_def)

text \<open>What the search with \<^verbatim>\<open>HASH_CREATE\<close> gives a client that then writes through the pointer.\<close>

lemma search_create_write:
  assumes wf: "hash_wf h"
  obtains r t where "hash_search k (Some h) HASH_CREATE = (Some r, Some t)" and "hash_wf t" and "ref_ok t r"
    and "bc_key (item_at t r) = k"
    and "bc_data (item_at t r) = (case hash_map h k of Some d \<Rightarrow> d | None \<Rightarrow> None)"
    and "hash_map t = (hash_map h)(k \<mapsto> bc_data (item_at t r))"
    and "\<And>v. hash_wf (update_item r (\<lambda>e. e\<lparr>bc_data := v\<rparr>) t)"
    and "\<And>v. hash_map (update_item r (\<lambda>e. e\<lparr>bc_data := v\<rparr>) t) = (hash_map h)(k \<mapsto> v)"
proof (cases "hash_map h k")
  case (Some d)
  obtain r t where s: "hash_search k (Some h) HASH_CREATE = (Some r, Some t)" "hash_wf t"
    "hash_map t = hash_map h" "ref_ok t r" "bc_key (item_at t r) = k" "bc_data (item_at t r) = d"
    by (rule hash_search_found [OF wf Some, of HASH_CREATE])
  then show ?thesis
    using Some update_item_wf [OF s(2,4)] update_item_map [OF s(2,4)]
    by (intro that [of r t]) auto
next
  case None
  obtain r t where s: "hash_search k (Some h) HASH_CREATE = (Some r, Some t)" "hash_wf t"
    "hash_map t = (hash_map h)(k \<mapsto> None)" "ref_ok t r" "bc_key (item_at t r) = k" "bc_data (item_at t r) = None"
    by (rule hash_search_create [OF wf None has_create])
  then show ?thesis
    using None update_item_wf [OF s(2,4)] update_item_map [OF s(2,4)]
    by (intro that [of r t]) auto
qed

definition assoc_put :: "cstring \<Rightarrow> cstring option \<Rightarrow> assoc \<Rightarrow> assoc" where
  "assoc_put k v h = the (snd (assoc_insert (Some h) k v))"

definition assoc_del :: "cstring \<Rightarrow> assoc \<Rightarrow> assoc" where
  "assoc_del k h = the (assoc_remove (Some h) k)"

definition assoc_fetch :: "cstring \<Rightarrow> assoc \<Rightarrow> cstring option \<times> assoc" where
  "assoc_fetch k h = map_prod id the (assoc_reference (Some h) k)"

lemma assoc_insert_put:
  assumes "hash_wf h"
  shows "assoc_insert (Some h) k v = (0, Some (assoc_put k v h))"
    and "hash_wf (assoc_put k v h)" and "hash_map (assoc_put k v h) = (hash_map h)(k \<mapsto> v)"
  by (rule search_create_write [OF assms, of k]; simp add: assoc_insert_def assoc_put_def)+

lemma assoc_remove_del:
  assumes "hash_wf h"
  shows "assoc_remove (Some h) k = Some (assoc_del k h)"
    and "hash_wf (assoc_del k h)" and "hash_map (assoc_del k h) = (hash_map h)(k := None)"
proof -
  have "\<exists>t. assoc_remove (Some h) k = Some t \<and> hash_wf t \<and> hash_map t = (hash_map h)(k := None)"
  proof (cases "hash_map h k")
    case None
    then have "(hash_map h)(k := None) = hash_map h" by (simp add: fun_upd_idem)
    with None assms show ?thesis by (simp add: assoc_remove_def hash_remove_absent)
  next
    case (Some d)
    show ?thesis
      by (rule hash_remove_found [OF assms Some, of 0]) (auto simp: assoc_remove_def)
  qed
  then show "assoc_remove (Some h) k = Some (assoc_del k h)"
    "hash_wf (assoc_del k h)" "hash_map (assoc_del k h) = (hash_map h)(k := None)"
    by (auto simp: assoc_del_def)
qed

lemma assoc_reference_fetch:
  assumes "hash_wf h"
  shows "assoc_reference (Some h) k = map_prod id Some (assoc_fetch k h)"
    and "fst (assoc_fetch k h) = (case hash_map h k of Some d \<Rightarrow> d | None \<Rightarrow> None)"
    and "hash_wf (snd (assoc_fetch k h))" and "hash_map (snd (assoc_fetch k h)) = hash_map h"
proof -
  have "\<exists>t. assoc_reference (Some h) k = (case hash_map h k of Some d \<Rightarrow> d | None \<Rightarrow> None, Some t)
      \<and> hash_wf t \<and> hash_map t = hash_map h"
  proof (cases "hash_map h k")
    case None
    then show ?thesis using assms by (simp add: assoc_reference_def hash_search_absent)
  next
    case (Some d)
    show ?thesis
      by (rule hash_search_found [OF assms Some, of 0]) (auto simp: assoc_reference_def Some)
  qed
  then show "assoc_reference (Some h) k = map_prod id Some (assoc_fetch k h)"
    "fst (assoc_fetch k h) = (case hash_map h k of Some d \<Rightarrow> d | None \<Rightarrow> None)"
    "hash_wf (snd (assoc_fetch k h))" "hash_map (snd (assoc_fetch k h)) = hash_map h"
    by (auto simp: assoc_fetch_def)
qed

lemma wf_entries:
  assumes "hash_wf h"
  shows "distinct (map fst (hash_entries h))" and "ht_nentries h = int (length (hash_entries h))"
  using assms by (simp_all add: fst_hash_entries hash_wf_def) (simp add: hash_entries_def)

interpretation asc: listed_store "\<lambda>_. True" hash_wf hash_map assoc_put assoc_del ht_nentries hash_entries
  by unfold_locales (simp_all add: assoc_insert_put assoc_remove_del hash_map_def [symmetric] wf_entries)

definition assoc_strings :: "assoc \<Rightarrow> cstring \<rightharpoonup> cstring" where
  "assoc_strings h k = (case hash_map h k of Some d \<Rightarrow> d | None \<Rightarrow> None)"

definition assoc_put_string :: "cstring \<Rightarrow> cstring \<Rightarrow> assoc \<Rightarrow> assoc" where
  "assoc_put_string k v h = assoc_put k (Some v) h"

interpretation ass: fetching_store "\<lambda>_. True" hash_wf assoc_strings assoc_put_string assoc_del assoc_fetch
  by unfold_locales
     (auto simp: assoc_put_string_def assoc_strings_def asc.store_laws assoc_reference_fetch fun_eq_iff)

section \<open>Lemmas on the conversions\<close>

definition assoc_no_nulls :: "assoc \<Rightarrow> bool" where
  "assoc_no_nulls h \<longleftrightarrow> (\<forall>b \<in> set (all_items h). bc_data b \<noteq> None)"

definition data_word :: "cstring bucket_contents \<Rightarrow> word_desc" where
  "data_word b = \<lparr>wd_word = the (bc_data b), wd_flags = 0\<rparr>"

lemma wf_empty_items: "hash_wf h \<Longrightarrow> assoc_empty h \<longleftrightarrow> all_items h = []"
  by (simp add: assoc_empty_def hash_wf_def)

lemma assoc_to_word_list_eq:
  assumes "hash_wf h" and "assoc_no_nulls h"
  shows "assoc_to_word_list (Some h) = Some (map data_word (all_items h))"
proof -
  have "None \<notin> bc_data ` set (all_items h)" using assms(2) by (auto simp: assoc_no_nulls_def)
  with assms(1) show ?thesis
    by (simp add: assoc_to_word_list_def assoc_to_word_list_internal_def wf_empty_items loop_items_all
        words_of_values_eq data_word_def)
qed

lemma assoc_keys_eq:
  assumes "hash_wf h"
  shows "map_option (map wd_word) (assoc_keys_to_word_list (Some h)) = Some (map bc_key (all_items h))"
  using assms
  by (simp add: assoc_keys_to_word_list_def assoc_to_word_list_internal_def wf_empty_items loop_items_all
      words_of_values_eq image_iff)

lemma assoc_kvpair_eq:
  assumes "hash_wf h" and "assoc_no_nulls h"
  shows "map_option (map wd_word) (assoc_to_kvpair_list (Some h))
       = Some (concat (map (\<lambda>b. [bc_key b, the (bc_data b)]) (all_items h)))"
proof -
  have "None \<notin> set (concat (map (\<lambda>b. [Some (bc_key b), bc_data b]) (all_items h)))"
    using assms(2) by (auto simp: assoc_no_nulls_def)
  with assms(1) show ?thesis
    by (simp add: assoc_to_kvpair_list_def wf_empty_items loop_items_all words_of_values_eq map_concat comp_def)
qed

lemma map_items_comp:
  "\<forall>b \<in> set bs. f (bc_data b) \<noteq> None \<Longrightarrow> map_items f bs = Some (map (\<lambda>b. b\<lparr>bc_data := the (f (bc_data b))\<rparr>) bs)"
  by (induction f bs rule: map_items.induct) auto

lemma map_buckets_comp:
  "\<forall>b \<in> set (concat bss). f (bc_data b) \<noteq> None \<Longrightarrow>
   map_buckets f bss = Some (map (map (\<lambda>b. b\<lparr>bc_data := the (f (bc_data b))\<rparr>)) bss)"
  by (induction f bss rule: map_buckets.induct) (auto simp: map_items_comp)

lemma skip_words_eq: "skip_words i start l = drop (nat (start - i)) l"
proof (induction i start l rule: skip_words.induct)
  case (2 i start x l)
  moreover have "nat (start - i) = Suc (nat (start - (i + 1)))" if "i < start" using that by linarith
  ultimately show ?case by (cases "i < start") simp_all
qed simp

lemma walked_words_eq: "walked_words j nelem l = take (nat (nelem - j)) l"
proof (induction j nelem l rule: walked_words.induct)
  case (2 j nelem x l)
  moreover have "nat (nelem - j) = Suc (nat (nelem - (j + 1)))" if "j < nelem" using that by linarith
  ultimately show ?case by (cases "j < nelem") simp_all
qed simp

definition example_assoc :: assoc where
  "example_assoc = assoc_put ''b'' (Some ''2'') (assoc_put ''a'' (Some ''1'') (hash_create 4))"

lemma example_assoc_wf: "hash_wf example_assoc"
  by (simp add: example_assoc_def assoc_insert_put hash_create_wf)

lemma example_assoc_map: "hash_map example_assoc = [''a'' \<mapsto> Some ''1'', ''b'' \<mapsto> Some ''2'']"
  by (simp add: example_assoc_def assoc_insert_put hash_create_wf hash_create_map)

lemma example_assoc_nulls: "assoc_no_nulls example_assoc"
  by code_simp


section \<open>Properties\<close>

text \<open>
  C23. An associative array reads back what was written: after \<^verbatim>\<open>assoc_insert\<close> of a key, which always
  succeeds, \<^verbatim>\<open>assoc_reference\<close> returns the new value for that key and the old answer for every
  other key; after \<^verbatim>\<open>assoc_remove\<close> it returns \<^verbatim>\<open>NULL\<close> for that key and the old answer for every
  other. The table stays well formed and its count right, also when it grows.
\<close>

theorem assoc_read_write:
  assumes "hash_wf h"
  shows "fst (assoc_insert (Some h) k (Some v)) = 0
         \<and> fst (assoc_reference (snd (assoc_insert (Some h) k (Some v))) k')
           = (if k' = k then Some v else fst (assoc_reference (Some h) k'))
         \<and> fst (assoc_reference (assoc_remove (Some h) k) k')
           = (if k' = k then None else fst (assoc_reference (Some h) k'))
         \<and> ht_nentries (the (snd (assoc_insert (Some h) k (Some v))))
           = ht_nentries h + (if hash_map h k = None then 1 else 0)
         \<and> ht_nentries (the (assoc_remove (Some h) k))
           = ht_nentries h - (if hash_map h k = None then 0 else 1)"
  using asc.count_put [OF assms TrueI, of k "Some v"] asc.count_del [OF assms, of k]
  by (simp add: assoc_insert_put assoc_remove_del assoc_reference_fetch assms)

lemma assoc_read_write_witness:
  "fst (assoc_insert (Some example_assoc) ''c'' (Some ''3'')) = 0
   \<and> fst (assoc_reference (snd (assoc_insert (Some example_assoc) ''c'' (Some ''3''))) ''a'') = Some ''1''
   \<and> fst (assoc_reference (assoc_remove (Some example_assoc) ''c'') ''a'') = Some ''1''
   \<and> ht_nentries (the (snd (assoc_insert (Some example_assoc) ''c'' (Some ''3'')))) = 3
   \<and> ht_nentries (the (assoc_remove (Some example_assoc) ''c'')) = 2"
proof -
  have "fst (assoc_reference (Some example_assoc) ''a'') = Some ''1''" "ht_nentries example_assoc = 2"
    by code_simp+
  then show ?thesis
    using assoc_read_write [OF example_assoc_wf, of "''c''" "''3''" "''a''"] by (simp add: example_assoc_map)
qed

text \<open>
  The lists an associative array is expanded to enumerate it: the list of its keys holds every
  key exactly once, and the list of pairs holds, for every key, the key and its value; if no value
  is \<^verbatim>\<open>NULL\<close> both are built without an invalid access.
\<close>

theorem assoc_lists_enumerate:
  assumes "hash_wf h" and "assoc_no_nulls h"
  shows "\<exists>ks kvs. map_option (map wd_word) (assoc_keys_to_word_list (Some h)) = Some ks
           \<and> map_option (map wd_word) (assoc_to_kvpair_list (Some h)) = Some kvs
           \<and> distinct ks \<and> set ks = dom (hash_map h)
           \<and> kvs = concat (map (\<lambda>k. [k, the (assoc_strings h k)]) ks)
           \<and> map_option (map wd_word) (assoc_to_word_list (Some h)) = Some (map (\<lambda>k. the (assoc_strings h k)) ks)"
proof -
  let ?ks = "map bc_key (all_items h)"
  have v: "the (assoc_strings h (bc_key b)) = the (bc_data b)" if "b \<in> set (all_items h)" for b
    using that asc.entries_iff [OF assms(1), of "bc_key b" "bc_data b"]
    by (auto simp: assoc_strings_def hash_entries_def)
  have "distinct ?ks" using assms(1) by (simp add: hash_wf_def)
  moreover have "set ?ks = dom (hash_map h)"
    using asc.entries_keys [OF assms(1)] by (simp add: fst_hash_entries)
  moreover have "concat (map (\<lambda>b. [bc_key b, the (bc_data b)]) (all_items h))
      = concat (map (\<lambda>k. [k, the (assoc_strings h k)]) ?ks)"
    using v by (intro arg_cong [of _ _ concat]) simp
  moreover have "map wd_word (map data_word (all_items h)) = map (\<lambda>k. the (assoc_strings h k)) ?ks"
    using v by (simp add: data_word_def)
  ultimately show ?thesis
    using assoc_keys_eq [OF assms(1)] assoc_kvpair_eq [OF assms] assoc_to_word_list_eq [OF assms]
    by (intro exI [of _ ?ks] exI conjI) simp_all
qed

lemma assoc_lists_enumerate_witness:
  "\<exists>ks kvs. map_option (map wd_word) (assoc_keys_to_word_list (Some example_assoc)) = Some ks
     \<and> map_option (map wd_word) (assoc_to_kvpair_list (Some example_assoc)) = Some kvs
     \<and> distinct ks \<and> set ks = {''a'', ''b''}
     \<and> kvs = concat (map (\<lambda>k. [k, the (assoc_strings example_assoc k)]) ks)
     \<and> map_option (map wd_word) (assoc_to_word_list (Some example_assoc))
       = Some (map (\<lambda>k. the (assoc_strings example_assoc k)) ks)"
  using assoc_lists_enumerate [OF example_assoc_wf example_assoc_nulls]
  by (simp add: example_assoc_map insert_commute)

text \<open>
  \<^verbatim>\<open>assoc_subrange\<close> takes \<open>nelem\<close> elements starting at the \<open>start\<close>th in bucket order, except that it
  always takes at least one: asked for no elements it returns the first, because the loop that
  should count them leaves its end pointer on the first word.
\<close>

theorem assoc_subrange_takes:
  assumes "hash_wf h" and "assoc_no_nulls h" and "all_items h \<noteq> []"
  shows "assoc_subrange st b h start nelem starsub quoted pflags =
           Some (string_list_pos_params st b (if starsub then CHR ''*'' else CHR ''@'')
                   (take (max 1 (nat nelem)) (drop (nat (start - 1)) (map data_word (all_items h)))) quoted pflags)"
proof -
  let ?l = "map data_word (all_items h)"
  have e: "\<not> assoc_empty h" using assms by (simp add: wf_empty_items)
  have ne: "?l \<noteq> []" using assms(3) by simp
  then obtain x xs where "?l = x # xs" by (cases ?l) auto
  then have "assoc_subrange st b h start nelem starsub quoted pflags =
      (case skip_words 1 start ?l of
         [] \<Rightarrow> Some None
       | w # l \<Rightarrow> Some (string_list_pos_params st b (if starsub then CHR ''*'' else CHR ''@'')
                     (if walked_words 0 nelem (w # l) = [] then [w] else walked_words 0 nelem (w # l)) quoted pflags))"
    using e by (simp add: assoc_subrange_def assoc_to_word_list_eq [OF assms(1,2)] Let_def split: list.split)
  then show ?thesis
    by (cases "drop (nat (start - 1)) ?l")
       (auto simp: skip_words_eq walked_words_eq string_list_pos_params_Nil max_def)
qed

lemma assoc_subrange_takes_witness:
  "assoc_subrange (setifs None) False example_assoc 1 0 False 0 0 =
     Some (string_list_pos_params (setifs None) False CHR ''@''
             (take 1 (map data_word (all_items example_assoc))) 0 0)"
proof -
  have "all_items example_assoc \<noteq> []" by code_simp
  from assoc_subrange_takes [OF example_assoc_wf example_assoc_nulls this, of "setifs None" False 1 0 False 0 0]
  show ?thesis by simp
qed

text \<open>
  Quoting every value of an associative array in place and dequoting it again gives back the
  very same table, if no value is \<^verbatim>\<open>NULL\<close>.
\<close>

theorem assoc_quote_dequote:
  assumes "hash_wf h" and "assoc_no_nulls h" and "all_items h \<noteq> []"
  shows "\<exists>q. assoc_quote (Some h) = Some (True, Some q) \<and> assoc_dequote (Some q) = Some (True, Some h)"
proof -
  let ?f = "\<lambda>b. b\<lparr>bc_data := Some (quote_string (the (bc_data b)))\<rparr>"
  let ?q = "h\<lparr>ht_bucket_array := map (map ?f) (ht_bucket_array h)\<rparr>"
  have e: "\<not> assoc_empty h" "\<not> assoc_empty ?q" using assms by (simp_all add: wf_empty_items assoc_empty_def hash_wf_def)
  have nn: "bc_data b \<noteq> None" if "bs \<in> set (ht_bucket_array h)" "b \<in> set bs" for b bs
    using assms(2) that by (auto simp: assoc_no_nulls_def all_items_def)
  then have "map_buckets (map_option (\<lambda>v. Some (quote_string v))) (ht_bucket_array h)
      = Some (map (map ?f) (ht_bucket_array h))"
    by (subst map_buckets_comp) (auto simp: option.map_sel)
  then have "assoc_quote (Some h) = Some (True, Some ?q)"
    using e by (simp add: assoc_quote_def replace_data_def)
  moreover have "map_buckets (map_option (\<lambda>v. Some (dequote_string v))) (map (map ?f) (ht_bucket_array h))
      = Some (ht_bucket_array h)"
    using nn by (subst map_buckets_comp) (auto intro!: map_idI)
  then have "assoc_dequote (Some ?q) = Some (True, Some h)"
    using e by (simp add: assoc_dequote_def replace_data_def)
  ultimately show ?thesis by blast
qed

lemma assoc_quote_dequote_witness:
  "\<exists>q. assoc_quote (Some example_assoc) = Some (True, Some q) \<and> assoc_dequote (Some q) = Some (True, Some example_assoc)"
proof -
  have "all_items example_assoc \<noteq> []" by code_simp
  with assoc_quote_dequote [OF example_assoc_wf example_assoc_nulls] show ?thesis by simp
qed

end
