(* ===== verification/Alias.thy ===== *)
theory Alias
  imports Hashlib
begin

text \<open>
  Aliases, from \<^verbatim>\<open>alias.c\<close>: the table of aliases and the expansion of the aliases in a line. The
  globals of the file are a record; \<^verbatim>\<open>command_word\<close>, which \<^verbatim>\<open>alias_expand\<close> sets before it uses it, is an
  argument of its loops. A position \<open>string[i]\<close> is \<open>char_at string i\<close>. The callback into the parser
  when an alias is freed while it is being expanded is left out.
\<close>

record alias_t =
  al_name :: cstring
  al_value :: cstring
  al_flags :: int

record alias_state =
  aliases :: "alias_t hash_table option"
  alias_expand_all :: bool
  it_aliases_dirty :: bool

definition AL_EXPANDNEXT :: int where "AL_EXPANDNEXT = 1"
definition AL_BEINGEXPANDED :: int where "AL_BEINGEXPANDED = 2"
definition ALIAS_HASH_BUCKETS :: int where "ALIAS_HASH_BUCKETS = 64"


section \<open>The table\<close>

definition initialize_aliases :: "alias_state \<Rightarrow> alias_state" where
  "initialize_aliases s =
     (if aliases s = None then s\<lparr>aliases := Some (hash_create ALIAS_HASH_BUCKETS)\<rparr> else s)"

text \<open>\<^verbatim>\<open>find_alias\<close> returns a pointer to the alias: the pointer to its item and what it holds.\<close>

definition find_alias :: "alias_state \<Rightarrow> cstring \<Rightarrow> (item_ref \<times> alias_t) option \<times> alias_state" where
  "find_alias s name =
     (case aliases s of
        None \<Rightarrow> (None, s)
      | Some _ \<Rightarrow>
          (case hash_search name (aliases s) 0 of
             (Some r, Some t) \<Rightarrow> (map_option (Pair r) (bc_data (item_at t r)), s\<lparr>aliases := Some t\<rparr>)
           | (_, h) \<Rightarrow> (None, s\<lparr>aliases := h\<rparr>)))"

definition get_alias_value :: "alias_state \<Rightarrow> cstring \<Rightarrow> cstring option \<times> alias_state" where
  "get_alias_value s name =
     (case aliases s of
        None \<Rightarrow> (None, s)
      | Some _ \<Rightarrow> (let (al, s) = find_alias s name in (map_option (\<lambda>(r, a). al_value a) al, s)))"

text \<open>Whether a value ends in a blank, so that the next word is expanded too.\<close>

definition ends_blank :: "cstring \<Rightarrow> bool" where
  "ends_blank value \<longleftrightarrow> value \<noteq> [] \<and> (last value = CHR '' '' \<or> last value = TAB)"

definition add_alias :: "alias_state \<Rightarrow> cstring \<Rightarrow> cstring \<Rightarrow> alias_state" where
  "add_alias s name value =
     (let (temp, s) = (if aliases s = None then (None, initialize_aliases s) else find_alias s name)
      in case aliases s of
           None \<Rightarrow> s
         | Some t \<Rightarrow>
             (case temp of
                Some (r, a) \<Rightarrow>
                  let f = al_flags a AND NOT AL_EXPANDNEXT;
                      f = (if ends_blank value then f OR AL_EXPANDNEXT else f);
                      a = a\<lparr>al_value := value, al_flags := f\<rparr>
                  in s\<lparr>aliases := Some (update_item r (\<lambda>b. b\<lparr>bc_data := Some a\<rparr>) t)\<rparr>
              | None \<Rightarrow>
                  let a = \<lparr>al_name = name, al_value = value,
                           al_flags = (if ends_blank value then 0 OR AL_EXPANDNEXT else 0)\<rparr>;
                      (elt, t) = hash_insert name (Some t) HASH_NOSRCH
                  in s\<lparr>aliases := Some (update_item elt (\<lambda>b. b\<lparr>bc_data := Some a\<rparr>) t),
                       it_aliases_dirty := True\<rparr>))"

definition remove_alias :: "alias_state \<Rightarrow> cstring \<Rightarrow> int \<times> alias_state" where
  "remove_alias s name =
     (case aliases s of
        None \<Rightarrow> (-1, s)
      | Some _ \<Rightarrow>
          (case hash_remove name (aliases s) 0 of
             (Some elt, Some t) \<Rightarrow> (ht_nentries t, s\<lparr>aliases := Some t, it_aliases_dirty := True\<rparr>)
           | (_, h) \<Rightarrow> (-1, s\<lparr>aliases := h\<rparr>)))"

definition delete_all_aliases :: "alias_state \<Rightarrow> alias_state" where
  "delete_all_aliases s =
     (if aliases s = None then s else s\<lparr>aliases := None, it_aliases_dirty := True\<rparr>)"

definition map_over_aliases :: "alias_state \<Rightarrow> (alias_t option \<Rightarrow> bool) option \<Rightarrow> alias_t option list" where
  "map_over_aliases s function =
     (case aliases s of
        None \<Rightarrow> []
      | Some t \<Rightarrow>
          if HASH_ENTRIES (Some t) = 0 then []
          else filter (\<lambda>a. case function of None \<Rightarrow> True | Some f \<Rightarrow> f a)
                 (map bc_data (concat (map (\<lambda>i. hash_items i (Some t)) [0..<nat (ht_nbuckets t)]))))"


definition qsort_alias_compare :: "alias_t \<Rightarrow> alias_t \<Rightarrow> int" where
  "qsort_alias_compare as1 as2 =
     (let result = int (code (char_at (al_name as1) 0)) - int (code (char_at (al_name as2) 0))
      in if result = 0 then strcmp (al_name as1) (al_name as2) else result)"

definition sort_aliases :: "alias_t list \<Rightarrow> alias_t list" where
  "sort_aliases array = qsort_by qsort_alias_compare array"

text \<open>\<open>None\<close> is the comparison of an item without data.\<close>

definition all_aliases :: "alias_state \<Rightarrow> alias_t list option" where
  "all_aliases s =
     (let list = map_over_aliases s None
      in if list_all (\<lambda>a. a \<noteq> None) list then Some (sort_aliases (map the list)) else None)"

definition alias_expand_word :: "alias_state \<Rightarrow> cstring \<Rightarrow> cstring option \<times> alias_state" where
  "alias_expand_word s w = (let (r, s) = find_alias s w in (map_option (\<lambda>(p, a). al_value a) r, s))"


section \<open>Expanding a line\<close>

definition self_delimiting :: "char \<Rightarrow> bool" where
  "self_delimiting c \<longleftrightarrow> c \<in> set ([CHR '' '', TAB, NEWLINE, CHR 0x0D] @ '';|&()'')"

definition command_separator :: "char \<Rightarrow> bool" where
  "command_separator c \<longleftrightarrow> c \<in> set ([CHR 0x0D, NEWLINE] @ '';|&('')"

definition quote_char :: "char \<Rightarrow> bool" where
  "quote_char c \<longleftrightarrow> c = SQUOTE \<or> c = DQUOTE"

definition token_char :: "char \<Rightarrow> bool" where
  "token_char c \<longleftrightarrow> \<not> (whitespace c \<or> self_delimiting c)"

function skipquotes_loop :: "cstring \<Rightarrow> char \<Rightarrow> nat \<Rightarrow> nat" where
  "skipquotes_loop string delimiter i =
     (if char_at string i = NUL then i
      else if char_at string i = BSLASH then
        (if char_at string (i + 1) = NUL then i + 1 else skipquotes_loop string delimiter (i + 2))
      else if char_at string i = delimiter then i
      else skipquotes_loop string delimiter (i + 1))"
  by auto
termination
  by (relation "measure (\<lambda>(string, d, i). length string - i)") (auto dest: char_at_not_NUL)

declare skipquotes_loop.simps [simp del]

definition skipquotes :: "cstring \<Rightarrow> nat \<Rightarrow> nat" where
  "skipquotes string start = skipquotes_loop string (char_at string start) (start + 1)"

lemma skipquotes_loop_ge: "i \<le> skipquotes_loop string d i"
proof (induction string d i rule: skipquotes_loop.induct)
  case (1 string d i)
  then show ?case by (subst skipquotes_loop.simps) force
qed

lemma skipquotes_gt: "start < skipquotes string start"
  using skipquotes_loop_ge [of "start + 1" string "char_at string start"] by (simp add: skipquotes_def)

text \<open>
  The loop of \<^verbatim>\<open>skipws\<close> at position \<open>i\<close>; it returns the position and the updated \<^verbatim>\<open>command_word\<close>. The
  counters of the code are only tested against zero.
\<close>

function skipws_loop :: "cstring \<Rightarrow> bool \<Rightarrow> bool \<Rightarrow> bool \<Rightarrow> nat \<Rightarrow> nat \<times> bool" where
  "skipws_loop string pass_next bqw command_word i =
     (let c = char_at string i
      in if c = NUL then (i, command_word)
         else if pass_next then skipws_loop string False bqw command_word (i + 1)
         else if whitespace c then skipws_loop string False False command_word (i + 1)
         else if c = BSLASH then
           (let peekc = char_at string (i + 1)
            in if peekc = NUL then (i, command_word)
               else if ISALPHA peekc then skipws_loop string False True command_word (i + 1)
               else skipws_loop string True bqw command_word (i + 1))
         else if quote_char c then
           (let i' = skipquotes string i
            in if char_at string i' = NUL then (i', command_word)
               else skipws_loop string False (bqw \<or> ISALPHA (char_at string (i' + 1))) command_word (i' + 1))
         else if bqw then skipws_loop string False bqw command_word (i + 1)
         else if command_separator c then skipws_loop string False bqw True (i + 1)
         else (i, command_word))"
  by auto
termination
  using skipquotes_gt
  by (relation "measure (\<lambda>(string, p, b, w, i). length string - i)")
     (auto dest: char_at_not_NUL intro!: diff_less_mono2 less_SucI)

declare skipws_loop.simps [simp del]

definition skipws :: "cstring \<Rightarrow> bool \<Rightarrow> nat \<Rightarrow> nat \<times> bool" where
  "skipws string command_word start = skipws_loop string False False command_word start"

function rd_token :: "cstring \<Rightarrow> nat \<Rightarrow> nat" where
  "rd_token string i =
     (if char_at string i = NUL \<or> \<not> token_char (char_at string i) then i
      else if char_at string i = BSLASH then
        (if char_at string (i + 1) = NUL then i + 1 else rd_token string (i + 2))
      else if quote_char (char_at string i) then
        (let i' = skipquotes string i
         in if char_at string i' = NUL then i' else rd_token string (i' + 1))
      else rd_token string (i + 1))"
  by auto
termination
  using skipquotes_gt
  by (relation "measure (\<lambda>(string, i). length string - i)")
     (auto dest: char_at_not_NUL intro!: diff_less_mono2 less_SucI)

declare rd_token.simps [simp del]

lemma skipws_loop_ge: "i \<le> fst (skipws_loop string p b w i)"
proof (induction "length string - i" arbitrary: i p b w rule: less_induct)
  case less
  show ?case
  proof (cases "char_at string i = NUL")
    case True
    then show ?thesis by (subst skipws_loop.simps) simp
  next
    case False
    then have "i < length string" by (rule char_at_not_NUL)
    then have step: "i \<le> fst (skipws_loop string p b w j)" if "i < j" for j p b w
      using less [of j p b w] that by fastforce
    show ?thesis
      using skipquotes_gt [of i string]
      by (subst skipws_loop.simps) (simp add: Let_def step less_SucI)
  qed
qed

lemma skipws_loop_end: "char_at string i = NUL \<Longrightarrow> skipws_loop string p b w i = (i, w)"
  by (subst skipws_loop.simps) simp

lemma rd_token_ge: "i \<le> rd_token string i"
proof (induction string i rule: rd_token.induct)
  case (1 string i)
  have q: "i \<le> skipquotes string i" using skipquotes_gt [of i string] by simp
  show ?case
    using 1 by (subst rd_token.simps) (auto simp: Let_def intro: Suc_leD le_trans [OF q])
qed

definition substr :: "cstring \<Rightarrow> nat \<Rightarrow> nat \<Rightarrow> cstring" where
  "substr string a b = take (b - a) (drop a string)"

text \<open>The end of the token that starts at \<open>i\<close>; a delimiter is a token of its own.\<close>

definition token_end :: "cstring \<Rightarrow> nat \<Rightarrow> nat" where
  "token_end string i =
     (let j = rd_token string i in if j = i \<and> char_at string j \<noteq> NUL then j + 1 else j)"

lemma token_end_ge: "i \<le> token_end string i"
  using rd_token_ge [of i string] by (simp add: token_end_def Let_def)

lemma token_end_gt: "char_at string i \<noteq> NUL \<Longrightarrow> i < token_end string i"
  using rd_token_ge [of i string] by (auto simp: token_end_def Let_def)

lemma expand_step_less:
  assumes "skipws string w start = (i, w')" and "\<not> (start = i \<and> char_at string i = NUL)"
  shows "length string - token_end string i < length string - start"
proof -
  have "start \<le> i" using skipws_loop_ge [of start string False False w] assms(1) by (simp add: skipws_def)
  have c: "char_at string start \<noteq> NUL"
    using assms skipws_loop_end [of string start False False w] by (auto simp: skipws_def)
  then have "start < length string" by (rule char_at_not_NUL)
  moreover have "start < token_end string i"
    using \<open>start \<le> i\<close> c token_end_gt [of string i] token_end_ge [of i string] by (cases "start = i") auto
  ultimately show ?thesis by simp
qed

function alias_expand_loop ::
  "alias_state \<Rightarrow> cstring \<Rightarrow> bool \<Rightarrow> bool \<Rightarrow> cstring \<Rightarrow> nat \<Rightarrow> cstring \<times> alias_state" where
  "alias_expand_loop s string expand_next command_word line start =
     (case skipws string command_word start of (i, cw) \<Rightarrow>
        if start = i \<and> char_at string i = NUL then (line, s)
        else
          let line = line @ substr string start i;
              cw = (cw \<or> command_separator (char_at string i));
              expand_this_token = (cw \<or> expand_next);
              i' = token_end string i;
              token = substr string i i';
              expand_this_token = (expand_this_token \<and> BSLASH \<notin> set token)
          in if token \<noteq> [] \<and> (expand_this_token \<or> alias_expand_all s) then
               (case find_alias s token of
                  (Some (r, a), s) \<Rightarrow>
                    let v = al_value a
                    in alias_expand_loop s string
                         (expand_this_token \<and> v \<noteq> [] \<and> whitespace (last v) \<or> alias_expand_all s)
                         False (line @ v) i'
                | (None, s) \<Rightarrow> alias_expand_loop s string False False (line @ token) i')
             else alias_expand_loop s string False False (line @ token) i')"
  by pat_completeness auto
termination
  by (relation "measure (\<lambda>(s, string, e, w, line, start). length string - start)")
     (auto intro: expand_step_less [OF sym])

declare alias_expand_loop.simps [simp del]

definition alias_expand :: "alias_state \<Rightarrow> cstring \<Rightarrow> cstring \<times> alias_state" where
  "alias_expand s string = alias_expand_loop s string False True [] 0"


section \<open>The table as a store\<close>

text \<open>Every item of the table holds an alias with the item's key as its name.\<close>

definition alias_ok :: "alias_state \<Rightarrow> bool" where
  "alias_ok s \<longleftrightarrow>
     (case aliases s of None \<Rightarrow> True
      | Some t \<Rightarrow> hash_wf t \<and> (\<forall>k d. hash_map t k = Some d \<longrightarrow> (\<exists>a. d = Some a \<and> al_name a = k)))"

definition alias_map :: "alias_state \<Rightarrow> cstring \<rightharpoonup> alias_t" where
  "alias_map s k = (case aliases s of None \<Rightarrow> None
      | Some t \<Rightarrow> (case hash_map t k of Some d \<Rightarrow> d | None \<Rightarrow> None))"

definition alias_values :: "alias_state \<Rightarrow> cstring \<rightharpoonup> cstring" where
  "alias_values s k = map_option al_value (alias_map s k)"

lemma alias_state_same [simp]: "aliases s = h \<Longrightarrow> s\<lparr>aliases := h\<rparr> = s"
  by (cases s) simp

lemma find_alias_eq:
  assumes "alias_ok s"
  shows "\<exists>t. snd (find_alias s k) = s\<lparr>aliases := t\<rparr> \<and> alias_ok (snd (find_alias s k))
             \<and> alias_map (snd (find_alias s k)) = alias_map s
             \<and> map_option snd (fst (find_alias s k)) = alias_map s k"
proof (cases "aliases s")
  case None
  then show ?thesis using assms by (intro exI [of _ None]) (simp add: find_alias_def alias_map_def)
next
  case (Some h)
  have wf: "hash_wf h" using assms Some by (simp add: alias_ok_def)
  show ?thesis
  proof (cases "hash_map h k")
    case None
    then show ?thesis
      using wf Some assms by (intro exI [of _ "Some h"])
        (simp add: find_alias_def hash_search_absent alias_map_def)
  next
    case (Some d)
    obtain r t where r: "hash_search k (Some h) 0 = (Some r, Some t)" "hash_wf t" "hash_map t = hash_map h"
      "ref_ok t r" "bc_key (item_at t r) = k" "bc_data (item_at t r) = d"
      by (rule hash_search_found [OF wf Some, of 0])
    with Some \<open>aliases s = Some h\<close> assms show ?thesis
      by (intro exI [of _ "Some t"])
         (auto simp: find_alias_def alias_ok_def alias_map_def fun_eq_iff option.map_comp comp_def option.map_ident)
  qed
qed

lemma find_alias_ref:
  assumes "alias_ok s" and "find_alias s k = (Some (r, a), s')"
  shows "\<exists>t. aliases s' = Some t \<and> hash_wf t \<and> ref_ok t r \<and> bc_key (item_at t r) = k \<and> bc_data (item_at t r) = Some a"
proof (cases "aliases s")
  case None
  with assms show ?thesis by (simp add: find_alias_def)
next
  case (Some h)
  have wf: "hash_wf h" using assms Some by (simp add: alias_ok_def)
  show ?thesis
  proof (cases "hash_map h k")
    case None
    with assms Some wf show ?thesis by (simp add: find_alias_def hash_search_absent)
  next
    case (Some d)
    obtain r' t where "hash_search k (Some h) 0 = (Some r', Some t)" "hash_wf t" "hash_map t = hash_map h"
      "ref_ok t r'" "bc_key (item_at t r') = k" "bc_data (item_at t r') = d"
      by (rule hash_search_found [OF wf Some, of 0])
    with \<open>aliases s = Some h\<close> assms(2) show ?thesis by (auto simp: find_alias_def)
  qed
qed

lemma alias_map_name: "alias_ok s \<Longrightarrow> alias_map s k = Some a \<Longrightarrow> al_name a = k"
  by (auto simp: alias_ok_def alias_map_def split: option.splits)

definition new_flags :: "int \<Rightarrow> cstring \<Rightarrow> int" where
  "new_flags f value = (if ends_blank value then (f AND NOT AL_EXPANDNEXT) OR AL_EXPANDNEXT else f AND NOT AL_EXPANDNEXT)"

lemma new_flags_0: "new_flags 0 value = (if ends_blank value then 0 OR AL_EXPANDNEXT else 0)"
  by (simp add: new_flags_def)

lemma add_alias_eq:
  assumes ok: "alias_ok s"
  shows "alias_ok (add_alias s k v)
         \<and> alias_map (add_alias s k v) = (alias_map s)(k \<mapsto>
             \<lparr>al_name = k, al_value = v,
              al_flags = new_flags (case alias_map s k of Some a \<Rightarrow> al_flags a | None \<Rightarrow> 0) v\<rparr>)"
proof -
  define f where "f = (if aliases s = None then (None, initialize_aliases s) else find_alias s k)"
  obtain temp s1 where f': "f = (temp, s1)" by (cases f)
  have s1: "alias_ok s1" "alias_map s1 = alias_map s" "map_option snd temp = alias_map s k" "aliases s1 \<noteq> None"
  proof -
    have "alias_ok s1 \<and> alias_map s1 = alias_map s \<and> map_option snd temp = alias_map s k \<and> aliases s1 \<noteq> None"
    proof (cases "aliases s")
      case None
      have "hash_wf (hash_create ALIAS_HASH_BUCKETS :: alias_t hash_table)"
        by (rule hash_create_wf) (simp_all add: ALIAS_HASH_BUCKETS_def)
      with None f' f_def show ?thesis
        by (auto simp: initialize_aliases_def alias_ok_def alias_map_def hash_create_map fun_eq_iff)
    next
      case (Some h)
      have "aliases (snd (find_alias s k)) \<noteq> None"
      proof (cases "hash_map h k")
        case None
        then show ?thesis using Some ok by (simp add: find_alias_def hash_search_absent alias_ok_def)
      next
        case d: (Some d)
        have "hash_wf h" using ok Some by (simp add: alias_ok_def)
        then show ?thesis by (rule hash_search_found [OF _ d, of 0]) (simp add: find_alias_def Some)
      qed
      with Some f' f_def find_alias_eq [OF ok, of k] show ?thesis by auto
    qed
    then show "alias_ok s1" "alias_map s1 = alias_map s" "map_option snd temp = alias_map s k" "aliases s1 \<noteq> None"
      by auto
  qed
  then obtain t1 where t1: "aliases s1 = Some t1" by auto
  have wf1: "hash_wf t1" using s1(1) t1 by (simp add: alias_ok_def)
  have good: "\<exists>a. d = Some a \<and> al_name a = j" if "hash_map t1 j = Some d" for j d
    using s1(1) t1 that by (simp add: alias_ok_def)
  show ?thesis
  proof (cases temp)
    case None
    with s1 have "alias_map s1 k = None" by simp
    then have absent: "hash_map t1 k = None"
      using good [of k] by (auto simp: alias_map_def t1 split: option.splits)
    obtain r t where ins: "hash_insert k (Some t1) HASH_NOSRCH = (r, t)" "hash_wf t"
      "hash_map t = (hash_map t1)(k \<mapsto> None)" "ref_ok t r" "bc_key (item_at t r) = k"
      by (rule hash_insert_new [OF wf1 absent])
    let ?a = "\<lparr>al_name = k, al_value = v, al_flags = new_flags 0 v\<rparr>"
    have res: "add_alias s k v =
        s1\<lparr>aliases := Some (update_item r (\<lambda>b. b\<lparr>bc_data := Some ?a\<rparr>) t), it_aliases_dirty := True\<rparr>"
      using None f' ins(1) t1 unfolding f_def add_alias_def new_flags_0 by (simp add: Let_def)
    have m: "hash_map (update_item r (\<lambda>b. b\<lparr>bc_data := Some ?a\<rparr>) t) = (hash_map t1)(k \<mapsto> Some ?a)"
      using update_item_map [OF ins(2,4)] ins(3,5) by simp
    have w: "hash_wf (update_item r (\<lambda>b. b\<lparr>bc_data := Some ?a\<rparr>) t)"
      using update_item_wf [OF ins(2,4)] by simp
    have "alias_map s k = None" using s1(3) None by simp
    with res m w good s1(2) t1 show ?thesis
      by (auto simp: alias_ok_def alias_map_def fun_eq_iff)
  next
    case (Some ra)
    obtain r a where ra: "ra = (r, a)" by (cases ra)
    have "aliases s \<noteq> None" using Some f' f_def by (auto split: if_splits)
    then have "find_alias s k = (Some (r, a), s1)" using Some ra f' f_def by (auto split: if_splits)
    from find_alias_ref [OF ok this] t1 have r: "ref_ok t1 r" "bc_key (item_at t1 r) = k" "bc_data (item_at t1 r) = Some a"
      by auto
    have a: "alias_map s k = Some a" using s1(3) Some ra by simp
    let ?a = "a\<lparr>al_value := v, al_flags := new_flags (al_flags a) v\<rparr>"
    have eq: "?a = \<lparr>al_name = k, al_value = v, al_flags = new_flags (al_flags a) v\<rparr>"
      using alias_map_name [OF ok a] by (cases a) simp
    have res: "add_alias s k v = s1\<lparr>aliases := Some (update_item r (\<lambda>b. b\<lparr>bc_data := Some ?a\<rparr>) t1)\<rparr>"
      using Some ra f' t1 unfolding f_def add_alias_def new_flags_def by (simp add: Let_def)
    have m: "hash_map (update_item r (\<lambda>b. b\<lparr>bc_data := Some ?a\<rparr>) t1) = (hash_map t1)(k \<mapsto> Some ?a)"
      using update_item_map [OF wf1 r(1)] r(2) by simp
    have w: "hash_wf (update_item r (\<lambda>b. b\<lparr>bc_data := Some ?a\<rparr>) t1)"
      using update_item_wf [OF wf1 r(1)] by simp
    from res m w good s1(2) t1 a eq show ?thesis
      by (auto simp: alias_ok_def alias_map_def fun_eq_iff)
  qed
qed

lemma remove_alias_eq:
  assumes ok: "alias_ok s"
  shows "alias_ok (snd (remove_alias s k)) \<and> alias_map (snd (remove_alias s k)) = (alias_map s)(k := None)
         \<and> fst (remove_alias s k) = (if alias_map s k = None then -1 else hash_size (aliases s) - 1)
         \<and> (alias_map s k \<noteq> None \<longrightarrow> 0 < hash_size (aliases s))"
proof (cases "aliases s")
  case None
  then show ?thesis using ok by (auto simp: remove_alias_def alias_map_def fun_eq_iff)
next
  case (Some h)
  have wf: "hash_wf h" using ok Some by (simp add: alias_ok_def)
  show ?thesis
  proof (cases "hash_map h k")
    case None
    with Some wf ok show ?thesis
      by (auto simp: remove_alias_def hash_remove_absent alias_map_def fun_eq_iff)
  next
    case d: (Some d)
    have "\<exists>a. d = Some a" using ok Some d by (auto simp: alias_ok_def)
    moreover obtain b t where "hash_remove k (Some h) 0 = (Some b, Some t)" "hash_wf t"
      "hash_map t = (hash_map h)(k := None)" "ht_nentries t = ht_nentries h - 1"
      by (rule hash_remove_found [OF wf d, of 0])
    moreover from \<open>hash_wf t\<close> have "0 \<le> ht_nentries t" by (simp add: hash_wf_def)
    ultimately show ?thesis
      using Some d ok
      by (auto simp: remove_alias_def alias_ok_def alias_map_def fun_eq_iff hash_size_def HASH_ENTRIES_def)
  qed
qed

lemma get_alias_value_eq:
  assumes "alias_ok s"
  shows "fst (get_alias_value s k) = alias_values s k" and "alias_ok (snd (get_alias_value s k))"
    and "alias_values (snd (get_alias_value s k)) = alias_values s"
proof -
  obtain al s' where f: "find_alias s k = (al, s')" by (cases "find_alias s k")
  note e = find_alias_eq [OF assms, of k, unfolded f]
  have v: "map_option (\<lambda>(r, a). al_value a) al = map_option al_value (map_option snd al)"
    by (cases al) auto
  show "fst (get_alias_value s k) = alias_values s k" "alias_ok (snd (get_alias_value s k))"
    "alias_values (snd (get_alias_value s k)) = alias_values s"
    using e f assms v
    by (auto simp: get_alias_value_def alias_values_def fun_eq_iff alias_map_def split: option.splits)
qed

interpretation ali: fetching_store "\<lambda>_. True" alias_ok alias_values
  "\<lambda>k v s. add_alias s k v" "\<lambda>k s. snd (remove_alias s k)" "\<lambda>k s. get_alias_value s k"
  by unfold_locales
     (auto simp: alias_values_def add_alias_eq remove_alias_eq get_alias_value_eq fun_eq_iff)


section \<open>The expansion of a line\<close>

lemma substr_append: "a \<le> b \<Longrightarrow> take a s @ substr s a b = take b s"
  using take_add [of a "b - a" s] by (simp add: substr_def)

lemma skipws_ge: "skipws string w start = (i, w') \<Longrightarrow> start \<le> i"
  using skipws_loop_ge [of start string False False w] by (simp add: skipws_def)

lemma alias_expand_loop_id:
  assumes "alias_ok s" and "alias_map s = Map.empty" and "cstring_ok string"
  shows "fst (alias_expand_loop s string e w (take start string) start) = string"
  using assms(1,2)
proof (induction "length string - start" arbitrary: s e w start rule: less_induct)
  case less
  obtain i cw where sk: "skipws string w start = (i, cw)" by (cases "skipws string w start")
  have le: "start \<le> i" by (rule skipws_ge [OF sk])
  show ?case
  proof (cases "start = i \<and> char_at string i = NUL")
    case True
    then show ?thesis
      using sk assms(3) by (subst alias_expand_loop.simps) (simp add: char_at_ok)
  next
    case False
    let ?i' = "token_end string i" and ?token = "substr string i (token_end string i)"
    have line: "take start string @ substr string start i @ ?token = take ?i' string"
      using le token_end_ge [of i string] by (simp add: substr_append flip: append_assoc)
    obtain al s' where fa: "find_alias s ?token = (al, s')" by (cases "find_alias s ?token")
    note e = find_alias_eq [OF less(2), of ?token, unfolded fa]
    have al: "al = None" using e less(3) by simp
    have s': "alias_ok s'" "alias_map s' = Map.empty" using e less(3) by auto
    note ih = less(1) [OF expand_step_less [OF sk False]]
    show ?thesis
      using sk False fa al line ih [OF less(2,3)] ih [OF s']
      by (subst alias_expand_loop.simps) (auto simp: Let_def)
  qed
qed

text \<open>A word of characters that neither quote nor delimit.\<close>

definition plain_word :: "cstring \<Rightarrow> bool" where
  "plain_word w \<longleftrightarrow> w \<noteq> [] \<and> cstring_ok w
     \<and> list_all (\<lambda>c. token_char c \<and> c \<noteq> BSLASH \<and> \<not> quote_char c \<and> \<not> command_separator c) w"

lemma plain_wordD:
  assumes "plain_word w" and "c \<in> set w"
  shows "token_char c" "c \<noteq> BSLASH" "\<not> quote_char c" "c \<noteq> NUL" "\<not> command_separator c"
  using assms unfolding plain_word_def list_all_iff cstring_ok_def by blast+

lemma rd_token_plain:
  assumes "plain_word w" and "i \<le> length w"
  shows "rd_token w i = length w"
  using assms(2)
proof (induction "length w - i" arbitrary: i)
  case 0
  then show ?case by (subst rd_token.simps) (simp add: char_at_def)
next
  case (Suc n)
  then have i: "i < length w" by simp
  then have "w ! i \<in> set w" by simp
  note plain_wordD [OF assms(1) this]
  then have "rd_token w i = rd_token w (i + 1)"
    using i by (subst rd_token.simps) (simp add: char_at_def)
  with Suc i show ?case by simp
qed

lemma skipws_plain:
  assumes "plain_word w"
  shows "skipws w cw 0 = (0, cw)"
proof -
  have ne: "0 < length w" using assms by (simp add: plain_word_def)
  then have "w ! 0 \<in> set w" by simp
  note plain_wordD [OF assms this]
  then show ?thesis
    using ne unfolding skipws_def
    by (subst skipws_loop.simps) (simp add: char_at_def token_char_def Let_def)
qed

lemma expand_end:
  "alias_expand_loop s string e w line (length string) = (line, s)"
  by (subst alias_expand_loop.simps) (simp add: skipws_def skipws_loop_end char_at_def)

section \<open>The order of the listing\<close>

lemma compare_strcmp: "qsort_alias_compare a b = strcmp (al_name a) (al_name b)"
  by (cases "al_name a"; cases "al_name b")
     (auto simp: qsort_alias_compare_def char_at_def code_eq_0 Let_def)


definition alias_names_ok :: "alias_state \<Rightarrow> bool" where
  "alias_names_ok s \<longleftrightarrow> (\<forall>k \<in> dom (alias_map s). cstring_ok k)"

text \<open>The aliases in bucket order.\<close>

lemma map_over_aliases_eq:
  assumes "alias_ok s"
  shows "map_over_aliases s None =
           (case aliases s of None \<Rightarrow> [] | Some t \<Rightarrow> map bc_data (all_items t))"
proof (cases "aliases s")
  case (Some t)
  then have wf: "hash_wf t" using assms by (simp add: alias_ok_def)
  then have "map (\<lambda>i. hash_items i (Some t)) [0..<nat (ht_nbuckets t)] = ht_bucket_array t"
    by (intro nth_equalityI) (auto simp: hash_wf_def hash_items_def)
  moreover have "ht_nentries t = 0 \<Longrightarrow> all_items t = []" using wf by (simp add: hash_wf_def)
  ultimately show ?thesis
    using Some by (auto simp: map_over_aliases_def all_items_def HASH_ENTRIES_def)
qed (simp add: map_over_aliases_def)

lemma all_items_aliases:
  assumes "alias_ok s" and "aliases s = Some t"
  shows "b \<in> set (all_items t) \<Longrightarrow> \<exists>a. bc_data b = Some a \<and> al_name a = bc_key b \<and> alias_map s (bc_key b) = Some a"
    and "alias_map s k = Some a \<Longrightarrow> \<exists>b \<in> set (all_items t). bc_data b = Some a"
proof -
  have wf: "hash_wf t" using assms by (simp add: alias_ok_def)
  then have dist: "distinct (map fst (hash_entries t))" by (simp add: fst_hash_entries hash_wf_def)
  show "\<exists>a. bc_data b = Some a \<and> al_name a = bc_key b \<and> alias_map s (bc_key b) = Some a"
    if "b \<in> set (all_items t)"
  proof -
    have "(bc_key b, bc_data b) \<in> set (hash_entries t)" using that by (auto simp: hash_entries_def)
    then have "hash_map t (bc_key b) = Some (bc_data b)"
      by (simp add: hash_map_def map_of_distinct_iff dist)
    then show ?thesis using assms by (auto simp: alias_ok_def alias_map_def)
  qed
  show "\<exists>b \<in> set (all_items t). bc_data b = Some a" if "alias_map s k = Some a"
  proof -
    have "hash_map t k = Some (Some a)"
      using that assms by (auto simp: alias_map_def split: option.splits)
    then have "(k, Some a) \<in> set (hash_entries t)" by (simp add: hash_map_def map_of_distinct_iff dist)
    then show ?thesis by (auto simp: hash_entries_def)
  qed
qed

lemma all_aliases_eq:
  assumes ok: "alias_ok s" and names: "alias_names_ok s"
  shows "\<exists>l. all_aliases s = Some l \<and> set l = ran (alias_map s) \<and> distinct (map al_name l)
             \<and> sorted_wrt (\<lambda>a b. strcmp (al_name a) (al_name b) < 0) l"
proof (cases "aliases s")
  case None
  then show ?thesis
    by (simp add: all_aliases_def map_over_aliases_def sort_aliases_def alias_map_def ran_def)
next
  case (Some t)
  note items = all_items_aliases [OF ok Some]
  let ?l = "map (the \<circ> bc_data) (all_items t)"
  let ?s = "sort_aliases ?l"
  have nn: "list_all (\<lambda>a. a \<noteq> None) (map bc_data (all_items t))"
    using items(1) by (fastforce simp: list_all_iff)
  have res: "all_aliases s = Some ?s"
    using nn Some by (simp add: all_aliases_def map_over_aliases_eq [OF ok])
  have m: "mset ?s = mset ?l" by (simp add: sort_aliases_def)
  then have set: "set ?s = set ?l" by (metis set_mset_mset)
  have nms: "map al_name ?l = map bc_key (all_items t)" using items(1) by fastforce
  have "distinct (map bc_key (all_items t))" using ok Some by (simp add: alias_ok_def hash_wf_def)
  then have dist: "distinct (map al_name ?s)"
    using m nms by (metis mset_eq_imp_distinct_iff mset_map)
  have ran: "set ?l = ran (alias_map s)"
  proof
    show "set ?l \<subseteq> ran (alias_map s)" using items(1) by (fastforce intro: ranI)
    show "ran (alias_map s) \<subseteq> set ?l"
    proof
      fix a assume "a \<in> ran (alias_map s)"
      then obtain k where "alias_map s k = Some a" by (auto simp: ran_def)
      from items(2) [OF this] obtain b where "b \<in> set (all_items t)" "bc_data b = Some a" by blast
      then show "a \<in> set ?l" by (auto intro: rev_image_eqI)
    qed
  qed
  have cs: "cstring_ok (al_name a)" if "a \<in> set ?l" for a
    using that names alias_map_name [OF ok] unfolding ran by (auto simp: ran_def alias_names_ok_def)
  have "sorted_wrt (\<lambda>a b. qsort_alias_compare a b \<le> 0) ?s"
    unfolding sort_aliases_def compare_strcmp
  proof (rule sorted_qsort [where S = "set ?l"])
    show "strcmp (al_name x) (al_name z) \<le> 0"
      if "x \<in> set ?l" "y \<in> set ?l" "z \<in> set ?l" "strcmp (al_name x) (al_name y) \<le> 0" "strcmp (al_name y) (al_name z) \<le> 0"
      for x y z using strcmp_trans [OF cs cs cs] that by blast
    show "strcmp (al_name x) (al_name y) = - strcmp (al_name y) (al_name x)" for x y by (rule strcmp_swap)
  qed simp
  then have "sorted_wrt (\<lambda>a b. strcmp (al_name a) (al_name b) < 0) ?s"
    unfolding compare_strcmp by (rule sorted_names_strict [OF _ dist]) (use cs set in blast)
  with res set ran dist show ?thesis by auto
qed


section \<open>Properties\<close>

definition example_aliases :: alias_state where
  "example_aliases =
     add_alias (add_alias \<lparr>aliases = None, alias_expand_all = False, it_aliases_dirty = False\<rparr> ''ll'' ''ls -l'')
       ''do'' ''sudo ''"

lemma example_aliases_facts:
  "alias_ok example_aliases"
  "alias_values example_aliases = [''ll'' \<mapsto> ''ls -l'', ''do'' \<mapsto> ''sudo '']"
proof -
  let ?s = "\<lparr>aliases = None, alias_expand_all = False, it_aliases_dirty = False\<rparr>"
  have "alias_ok ?s" "alias_values ?s = Map.empty"
    by (simp_all add: alias_ok_def alias_values_def alias_map_def fun_eq_iff)
  then show "alias_ok example_aliases"
    "alias_values example_aliases = [''ll'' \<mapsto> ''ls -l'', ''do'' \<mapsto> ''sudo '']"
    by (simp_all add: example_aliases_def ali.store_laws)
qed

text \<open>
  C30. The alias table reads back what was defined: after \<^verbatim>\<open>add_alias\<close> the alias has the new value, and
  \<^verbatim>\<open>AL_EXPANDNEXT\<close> is set exactly when the value ends in a blank; other aliases keep their values. After
  \<^verbatim>\<open>remove_alias\<close> the alias is gone and the others remain, and the call returns -1 exactly if there was no such
  alias.
\<close>

theorem alias_define_remove:
  assumes "alias_ok s"
  shows "fst (get_alias_value (add_alias s k v) k') = (if k' = k then Some v else fst (get_alias_value s k'))
         \<and> fst (get_alias_value (snd (remove_alias s k)) k') = (if k' = k then None else fst (get_alias_value s k'))
         \<and> has_flag (al_flags (the (alias_map (add_alias s k v) k))) AL_EXPANDNEXT = ends_blank v
         \<and> (fst (remove_alias s k) = -1 \<longleftrightarrow> fst (get_alias_value s k) = None)"
proof -
  have "has_flag (new_flags f v) AL_EXPANDNEXT = ends_blank v" for f
  proof -
    have a: "(f AND NOT AL_EXPANDNEXT) AND AL_EXPANDNEXT = 0" by (simp add: and.assoc)
    then have b: "((f AND NOT AL_EXPANDNEXT) OR AL_EXPANDNEXT) AND AL_EXPANDNEXT = AL_EXPANDNEXT"
      by (simp add: bit.conj_disj_distrib2)
    show ?thesis unfolding new_flags_def has_flag_def using a b by (simp add: AL_EXPANDNEXT_def)
  qed
  then show ?thesis
    using ali.look_put [OF assms TrueI, of k v] ali.look_del [OF assms, of k] add_alias_eq [OF assms, of k v]
      remove_alias_eq [OF assms, of k]
    by (auto simp: get_alias_value_eq assms alias_values_def)
qed

lemma alias_define_remove_witness:
  "fst (get_alias_value (add_alias example_aliases ''x'' ''y '') ''x'') = Some ''y ''
   \<and> fst (get_alias_value (snd (remove_alias example_aliases ''x'')) ''x'') = None
   \<and> has_flag (al_flags (the (alias_map (add_alias example_aliases ''x'' ''y '') ''x''))) AL_EXPANDNEXT
   \<and> fst (remove_alias example_aliases ''x'') = -1"
proof -
  have "alias_map example_aliases ''x'' = None"
    using example_aliases_facts(2) by (auto simp: alias_values_def fun_eq_iff split: if_splits)
  then show ?thesis
    using alias_define_remove [OF example_aliases_facts(1), of "''x''" "''y ''" "''x''"]
    by (simp add: ends_blank_def get_alias_value_eq example_aliases_facts(1) alias_values_def)
qed

text \<open>
  Expanding a line that is a single plain word, one without quotes, blanks and delimiters, replaces
  it by the value of its alias if it has one and leaves it alone otherwise; with no aliases defined
  every line is returned unchanged, whatever quoting it holds. The expansion always ends.
\<close>

theorem alias_expand_plain:
  assumes "alias_ok s"
  shows "(plain_word w \<longrightarrow> fst (alias_expand s w) = (case alias_values s w of Some v \<Rightarrow> v | None \<Rightarrow> w))
         \<and> (alias_map s = Map.empty \<longrightarrow> cstring_ok line \<longrightarrow> fst (alias_expand s line) = line)"
proof (intro conjI impI)
  assume w: "plain_word w"
  then have ne: "w \<noteq> []" "char_at w 0 \<noteq> NUL" using plain_wordD(4) [OF w, of "w ! 0"]
    by (auto simp: plain_word_def char_at_def)
  have te: "token_end w 0 = length w" using rd_token_plain [OF w, of 0] ne by (simp add: token_end_def)
  have nb: "BSLASH \<notin> set w" using plain_wordD(2) [OF w] by blast
  obtain al s' where fa: "find_alias s w = (al, s')" by (cases "find_alias s w")
  have al: "map_option snd al = alias_map s w" using find_alias_eq [OF assms, of w] fa by auto
  have tok: "substr w 0 (length w) = w" "substr w 0 0 = []" by (simp_all add: substr_def)
  have "alias_expand s w = (case al of Some (r, a) \<Rightarrow> (al_value a, s') | None \<Rightarrow> (w, s'))"
    unfolding alias_expand_def
    by (subst alias_expand_loop.simps)
       (use ne te nb fa in \<open>auto simp: skipws_plain [OF w] tok Let_def expand_end split: option.splits\<close>)
  then show "fst (alias_expand s w) = (case alias_values s w of Some v \<Rightarrow> v | None \<Rightarrow> w)"
    using al by (auto simp: alias_values_def split: option.splits)
next
  assume "alias_map s = Map.empty" "cstring_ok line"
  then show "fst (alias_expand s line) = line"
    using alias_expand_loop_id [OF assms, of line False True 0] by (simp add: alias_expand_def)
qed

lemma alias_expand_plain_witness:
  "fst (alias_expand example_aliases ''ll'') = ''ls -l''
   \<and> fst (alias_expand (delete_all_aliases example_aliases) ''ll 'a b' '') = ''ll 'a b' ''"
proof -
  have "plain_word ''ll''" by code_simp
  moreover have "alias_ok (delete_all_aliases example_aliases)" "alias_map (delete_all_aliases example_aliases) = Map.empty"
    by (simp_all add: delete_all_aliases_def alias_ok_def alias_map_def fun_eq_iff)
  moreover have "cstring_ok ''ll 'a b' ''" by code_simp
  ultimately show ?thesis
    using alias_expand_plain [OF example_aliases_facts(1), of "''ll''" "[]"]
      alias_expand_plain [of "delete_all_aliases example_aliases" "[]" "''ll 'a b' ''"]
    by (simp add: example_aliases_facts(2))
qed

text \<open>
  \<^verbatim>\<open>all_aliases\<close> lists every alias exactly once, in strictly increasing order of the names.
\<close>

theorem all_aliases_sorted:
  assumes "alias_ok s" and "alias_names_ok s"
  shows "\<exists>l. all_aliases s = Some l \<and> set l = ran (alias_map s) \<and> distinct (map al_name l)
             \<and> sorted_wrt (\<lambda>a b. strcmp (al_name a) (al_name b) < 0) l"
  by (rule all_aliases_eq [OF assms])

lemma all_aliases_sorted_witness:
  "\<exists>l. all_aliases example_aliases = Some l \<and> set l = ran (alias_map example_aliases) \<and> distinct (map al_name l)
       \<and> sorted_wrt (\<lambda>a b. strcmp (al_name a) (al_name b) < 0) l"
proof -
  have d: "dom (alias_map example_aliases) = dom (alias_values example_aliases)"
    by (auto simp: alias_values_def dom_def)
  have "alias_names_ok example_aliases"
    unfolding alias_names_ok_def d example_aliases_facts(2) by (simp add: cstring_ok_def NUL_def)
  from all_aliases_sorted [OF example_aliases_facts(1) this] show ?thesis .
qed

end
