(* ===== verification/Hashcmd.thy ===== *)
theory Hashcmd
  imports Hashlib
begin

text \<open>
  The table of hashed command locations, \<^verbatim>\<open>hashcmd.c\<close>. The file system is asked through two functions
  that are parameters here: \<open>executable_file\<close> (is this path an executable file?) and \<open>same_file\<close> (do
  these paths name the same file?). Reading the data of an item that has none is the outcome \<open>None\<close>.
\<close>

record path_data =
  pd_path :: cstring
  pd_flags :: int

record phash_state =
  hashing_enabled :: bool
  hashed_filenames :: "path_data hash_table option"

definition FILENAME_HASH_BUCKETS :: int where "FILENAME_HASH_BUCKETS = 256"
definition HASH_RELPATH :: int where "HASH_RELPATH = 1"
definition HASH_CHKDOT :: int where "HASH_CHKDOT = 2"

definition phash_create :: "phash_state \<Rightarrow> phash_state" where
  "phash_create s =
     (if hashed_filenames s = None
      then s\<lparr>hashed_filenames := Some (hash_create FILENAME_HASH_BUCKETS)\<rparr> else s)"

definition phash_flush :: "phash_state \<Rightarrow> phash_state" where
  "phash_flush s = s\<lparr>hashed_filenames := hash_flush (hashed_filenames s)\<rparr>"

definition phash_remove :: "phash_state \<Rightarrow> cstring \<Rightarrow> int \<times> phash_state" where
  "phash_remove s filename =
     (if \<not> hashing_enabled s \<or> hashed_filenames s = None then (0, s)
      else
        (case hash_remove filename (hashed_filenames s) 0 of
           (Some item, h) \<Rightarrow> (0, s\<lparr>hashed_filenames := h\<rparr>)
         | (None, h) \<Rightarrow> (1, s\<lparr>hashed_filenames := h\<rparr>)))"

text \<open>What \<^verbatim>\<open>phash_insert\<close> stores for a path.\<close>

definition new_pathdata :: "cstring \<Rightarrow> bool \<Rightarrow> path_data" where
  "new_pathdata full_path check_dot =
     (let f = 0;
          f = (if check_dot then f OR HASH_CHKDOT else f);
          f = (if char_at full_path 0 \<noteq> CHR ''/'' then f OR HASH_RELPATH else f)
      in \<lparr>pd_path = full_path, pd_flags = f\<rparr>)"

definition phash_insert :: "phash_state \<Rightarrow> cstring \<Rightarrow> cstring \<Rightarrow> bool \<Rightarrow> int \<Rightarrow> phash_state" where
  "phash_insert s filename full_path check_dot found =
     (if \<not> hashing_enabled s then s
      else
        let s = phash_create s;
            (item, t) = hash_insert filename (hashed_filenames s) 0
        in s\<lparr>hashed_filenames :=
              Some (update_item item
                     (\<lambda>b. let b = (if bc_data b = None then b\<lparr>bc_key := filename\<rparr> else b)
                          in b\<lparr>bc_data := Some (new_pathdata full_path check_dot), bc_times_found := found\<rparr>) t)\<rparr>)"

text \<open>The part of a path before its last slash, if it has one.\<close>

definition before_slash :: "cstring \<Rightarrow> cstring option" where
  "before_slash path =
     (if CHR ''/'' \<in> set path
      then Some (rev (tl (dropWhile (\<lambda>c. c \<noteq> CHR ''/'') (rev path)))) else None)"

definition add_dot :: "cstring \<Rightarrow> cstring" where
  "add_dot tail = (if char_at tail 0 \<noteq> CHR ''.'' \<or> char_at tail 1 \<noteq> CHR ''/'' then ''./'' @ tail else tail)"

definition hashed_path ::
  "(cstring \<Rightarrow> bool) \<Rightarrow> (cstring \<Rightarrow> cstring \<Rightarrow> bool) \<Rightarrow> cstring \<Rightarrow> path_data \<Rightarrow> cstring option" where
  "hashed_path executable_file same_file filename d =
     (if has_flag (pd_flags d) (HASH_CHKDOT OR HASH_RELPATH) then
        let tail = (if has_flag (pd_flags d) HASH_RELPATH then pd_path d else filename);
            dotted_filename = add_dot tail
        in if executable_file dotted_filename then Some dotted_filename
           else if char_at (pd_path d) 0 = CHR ''.'' then
             (let same = (case before_slash (pd_path d) of None \<Rightarrow> False | Some p \<Rightarrow> same_file ''.'' p)
              in if same then None else Some (pd_path d))
           else Some (pd_path d)
      else Some (pd_path d))"

definition phash_search ::
  "(cstring \<Rightarrow> bool) \<Rightarrow> (cstring \<Rightarrow> cstring \<Rightarrow> bool) \<Rightarrow> phash_state \<Rightarrow> cstring
   \<Rightarrow> (cstring option \<times> phash_state) option" where
  "phash_search executable_file same_file s filename =
     (if \<not> hashing_enabled s \<or> hashed_filenames s = None then Some (None, s)
      else
        (case hash_search filename (hashed_filenames s) 0 of
           (Some item, Some t) \<Rightarrow>
             map_option (\<lambda>d. (hashed_path executable_file same_file filename d, s\<lparr>hashed_filenames := Some t\<rparr>))
               (bc_data (item_at t item))
         | (_, h) \<Rightarrow> Some (None, s\<lparr>hashed_filenames := h\<rparr>)))"


section \<open>Lemmas\<close>

definition phash_ok :: "phash_state \<Rightarrow> bool" where
  "phash_ok s \<longleftrightarrow>
     (case hashed_filenames s of None \<Rightarrow> True
      | Some t \<Rightarrow> hash_wf t \<and> (\<forall>k d. hash_map t k = Some d \<longrightarrow> d \<noteq> None))"

definition phash_map :: "phash_state \<Rightarrow> cstring \<rightharpoonup> path_data" where
  "phash_map s k = (case hashed_filenames s of None \<Rightarrow> None
      | Some t \<Rightarrow> (case hash_map t k of Some d \<Rightarrow> d | None \<Rightarrow> None))"

lemma phash_state_same [simp]: "hashed_filenames s = h \<Longrightarrow> s\<lparr>hashed_filenames := h\<rparr> = s"
  by (cases s) simp

lemma phash_create_eq:
  assumes "phash_ok s"
  obtains t where "hashed_filenames (phash_create s) = Some t" "hash_wf t"
    "\<And>k d. hash_map t k = Some d \<Longrightarrow> d \<noteq> None" "phash_map (phash_create s) = phash_map s"
    "hashing_enabled (phash_create s) = hashing_enabled s"
proof (cases "hashed_filenames s")
  case None
  have "hash_wf (hash_create FILENAME_HASH_BUCKETS :: path_data hash_table)"
    by (rule hash_create_wf) (simp_all add: FILENAME_HASH_BUCKETS_def)
  with None show ?thesis
    by (intro that [of "hash_create FILENAME_HASH_BUCKETS"])
       (auto simp: phash_create_def phash_map_def hash_create_map fun_eq_iff)
next
  case (Some t)
  with assms show ?thesis
    by (intro that [of t]) (auto simp: phash_create_def phash_ok_def)
qed

lemma insert_write:
  assumes wf: "hash_wf t"
  obtains r t' where "hash_insert k (Some t) 0 = (r, t')"
    "\<forall>f. bc_key (f (item_at t' r)) = k \<longrightarrow> bc_khash (f (item_at t' r)) = bc_khash (item_at t' r) \<longrightarrow>
       hash_wf (update_item r f t') \<and> hash_map (update_item r f t') = (hash_map t)(k \<mapsto> bc_data (f (item_at t' r)))"
    "bc_key (item_at t' r) = k"
proof (cases "hash_map t k")
  case None
  obtain r t' where i: "hash_insert k (Some t) 0 = (r, t')" "hash_wf t'" "hash_map t' = (hash_map t)(k \<mapsto> None)"
    "ref_ok t' r" "bc_key (item_at t' r) = k"
    by (rule hash_insert_new [OF wf None])
  then show ?thesis
    using update_item_wf [OF i(2,4)] update_item_map [OF i(2,4)] by (intro that [of r t']) auto
next
  case (Some d)
  obtain r t' where i: "hash_insert k (Some t) 0 = (r, t')" "hash_wf t'" "hash_map t' = hash_map t"
    "ref_ok t' r" "bc_key (item_at t' r) = k"
    by (rule hash_insert_found [OF wf Some, of 0]) simp
  then show ?thesis
    using update_item_wf [OF i(2,4)] update_item_map [OF i(2,4)] by (intro that [of r t']) auto
qed

lemma phash_insert_eq:
  assumes ok: "phash_ok s" and en: "hashing_enabled s"
  shows "phash_ok (phash_insert s k p c n)
         \<and> phash_map (phash_insert s k p c n) = (phash_map s)(k \<mapsto> new_pathdata p c)
         \<and> hashing_enabled (phash_insert s k p c n)"
proof -
  obtain t where t: "hashed_filenames (phash_create s) = Some t" "hash_wf t"
    "\<And>k d. hash_map t k = Some d \<Longrightarrow> d \<noteq> None" "phash_map (phash_create s) = phash_map s"
    "hashing_enabled (phash_create s) = hashing_enabled s"
    using phash_create_eq [OF ok] by blast
  let ?f = "\<lambda>b. let b = (if bc_data b = None then b\<lparr>bc_key := k\<rparr> else b)
                in b\<lparr>bc_data := Some (new_pathdata p c), bc_times_found := n\<rparr>"
  obtain r t' where r: "hash_insert k (Some t) 0 = (r, t')"
    "\<forall>f. bc_key (f (item_at t' r)) = k \<longrightarrow> bc_khash (f (item_at t' r)) = bc_khash (item_at t' r) \<longrightarrow>
       hash_wf (update_item r f t') \<and> hash_map (update_item r f t') = (hash_map t)(k \<mapsto> bc_data (f (item_at t' r)))"
    "bc_key (item_at t' r) = k"
    by (rule insert_write [OF t(2), of k])
  have u: "hash_wf (update_item r ?f t') \<and> hash_map (update_item r ?f t') = (hash_map t)(k \<mapsto> Some (new_pathdata p c))"
    using r(2) [THEN spec, of ?f] r(3) by (simp add: Let_def)
  have "phash_insert s k p c n = (phash_create s)\<lparr>hashed_filenames := Some (update_item r ?f t')\<rparr>"
    using en t(1) r(1) by (simp add: phash_insert_def Let_def)
  with u t en show ?thesis
    by (auto simp: phash_ok_def phash_map_def fun_eq_iff split: if_splits)
qed

lemma phash_search_eq:
  assumes ok: "phash_ok s" and en: "hashing_enabled s"
  shows "\<exists>s'. phash_search ex same s k
             = Some (case phash_map s k of None \<Rightarrow> None | Some d \<Rightarrow> hashed_path ex same k d, s')
           \<and> phash_ok s' \<and> phash_map s' = phash_map s"
proof (cases "hashed_filenames s")
  case None
  then show ?thesis using ok by (simp add: phash_search_def phash_map_def)
next
  case (Some h)
  have wf: "hash_wf h" using ok Some by (simp add: phash_ok_def)
  show ?thesis
  proof (cases "hash_map h k")
    case None
    with Some wf ok en show ?thesis
      by (simp add: phash_search_def hash_search_absent phash_map_def)
  next
    case d: (Some d)
    then obtain a where a: "d = Some a" using ok Some by (fastforce simp: phash_ok_def)
    obtain r t where r: "hash_search k (Some h) 0 = (Some r, Some t)" "hash_wf t" "hash_map t = hash_map h"
      "bc_data (item_at t r) = d"
      by (rule hash_search_found [OF wf d, of 0])
    with Some d a ok en show ?thesis
      by (auto simp: phash_search_def phash_map_def phash_ok_def)
  qed
qed

lemma phash_remove_eq:
  assumes ok: "phash_ok s" and en: "hashing_enabled s"
  shows "phash_ok (snd (phash_remove s k)) \<and> phash_map (snd (phash_remove s k)) = (phash_map s)(k := None)"
proof (cases "hashed_filenames s")
  case None
  then show ?thesis using ok by (auto simp: phash_remove_def phash_map_def fun_eq_iff)
next
  case (Some h)
  have wf: "hash_wf h" using ok Some by (simp add: phash_ok_def)
  show ?thesis
  proof (cases "hash_map h k")
    case None
    with Some wf ok en show ?thesis
      by (auto simp: phash_remove_def hash_remove_absent phash_map_def fun_eq_iff)
  next
    case d: (Some d)
    obtain b t where "hash_remove k (Some h) 0 = (Some b, Some t)" "hash_wf t" "hash_map t = (hash_map h)(k := None)"
      by (rule hash_remove_found [OF wf d, of 0])
    with Some ok en show ?thesis
      by (auto simp: phash_remove_def phash_ok_def phash_map_def fun_eq_iff split: if_splits)
  qed
qed

text \<open>The table as a store of the data of the hashed commands, as long as hashing is enabled.\<close>

definition phash_inv :: "phash_state \<Rightarrow> bool" where
  "phash_inv s \<longleftrightarrow> phash_ok s \<and> hashing_enabled s"

lemma phash_remove_enabled [simp]: "hashing_enabled (snd (phash_remove s k)) = hashing_enabled s"
  by (simp add: phash_remove_def split: prod.splits option.splits)

interpretation phs: keyed_store "\<lambda>_. True" phash_inv "\<lambda>s k. map_option (\<lambda>d. (pd_path d, has_flag (pd_flags d) HASH_CHKDOT)) (phash_map s k)"
  "\<lambda>k (p, c) s. phash_insert s k p c 0" "\<lambda>k s. snd (phash_remove s k)"
  by unfold_locales
     (auto simp: phash_inv_def phash_insert_eq phash_remove_eq fun_eq_iff new_pathdata_def has_flag_def
       HASH_CHKDOT_def HASH_RELPATH_def Let_def)


section \<open>Properties\<close>

text \<open>
  Where a command hashed at the path \<open>p\<close> is found: at an executable \<^verbatim>\<open>./name\<close>, if the caller asked for
  it because \<^verbatim>\<open>.\<close> comes earlier in the search path; a relative path is found with \<^verbatim>\<open>./\<close> in front if that is
  executable, and not at all if it is not and the path names a file of the current directory through a name that starts with a dot;
  in all other cases, and always for an absolute path without that request, it is found at \<open>p\<close> itself.
\<close>

definition located :: "(cstring \<Rightarrow> bool) \<Rightarrow> (cstring \<Rightarrow> cstring \<Rightarrow> bool) \<Rightarrow> cstring \<Rightarrow> cstring \<Rightarrow> bool \<Rightarrow> cstring option" where
  "located ex same k p check_dot =
     (if char_at p 0 = CHR ''/'' then (if check_dot \<and> ex (add_dot k) then Some (add_dot k) else Some p)
      else if ex (add_dot p) then Some (add_dot p)
      else if char_at p 0 = CHR ''.'' \<and> (\<exists>dir \<in> set_option (before_slash p). same ''.'' dir) then None
      else Some p)"

lemma hashed_path_located: "hashed_path ex same k (new_pathdata p c) = located ex same k p c"
  by (auto simp: hashed_path_def new_pathdata_def located_def has_flag_def HASH_CHKDOT_def HASH_RELPATH_def Let_def split: option.splits)



text \<open>
  If \<^verbatim>\<open>.\<close> came before the hashed directory in the path, a lookup prefers an executable \<^verbatim>\<open>./name\<close>; a
  command hashed at a relative path is returned with \<^verbatim>\<open>./\<close> in front if that is executable. A path
  that the lookup returns is either executable as returned or the path that was hashed.
\<close>

theorem phash_search_dot:
  assumes "phash_ok s" and "hashing_enabled s" and "phash_map s k = Some d"
  shows "\<exists>r s'. phash_search ex same s k = Some (r, s')
           \<and> (has_flag (pd_flags d) HASH_CHKDOT \<longrightarrow> \<not> has_flag (pd_flags d) HASH_RELPATH \<longrightarrow> ex (add_dot k)
                \<longrightarrow> r = Some (add_dot k))
           \<and> (has_flag (pd_flags d) HASH_RELPATH \<longrightarrow> ex (add_dot (pd_path d)) \<longrightarrow> r = Some (add_dot (pd_path d)))
           \<and> (\<forall>q. r = Some q \<longrightarrow> ex q \<or> q = pd_path d)"
proof -
  have f: "has_flag (pd_flags d) HASH_CHKDOT \<or> has_flag (pd_flags d) HASH_RELPATH \<Longrightarrow>
      has_flag (pd_flags d) (HASH_CHKDOT OR HASH_RELPATH)"
    by (auto simp: has_flag_def bit.conj_disj_distrib or_eq_0_iff)
  obtain s' where "phash_search ex same s k = Some (hashed_path ex same k d, s')"
    using phash_search_eq [OF assms(1,2), of ex same k] assms(3) by auto
  then show ?thesis
    using f by (auto simp: hashed_path_def Let_def)
qed

lemma phash_search_dot_witness:
  "\<exists>r s'. phash_search (\<lambda>q. q = ''./ls'') (\<lambda>_ _. False)
            (phash_insert \<lparr>hashing_enabled = True, hashed_filenames = None\<rparr> ''ls'' ''/bin/ls'' True 0) ''ls''
        = Some (r, s') \<and> r = Some ''./ls''"
proof -
  let ?s = "\<lparr>hashing_enabled = True, hashed_filenames = None\<rparr>"
  have i: "phash_ok (phash_insert ?s ''ls'' ''/bin/ls'' True 0)"
    "phash_map (phash_insert ?s ''ls'' ''/bin/ls'' True 0) ''ls'' = Some (new_pathdata ''/bin/ls'' True)"
    "hashing_enabled (phash_insert ?s ''ls'' ''/bin/ls'' True 0)"
    using phash_insert_eq [of ?s "''ls''" "''/bin/ls''" True 0] by (simp_all add: phash_ok_def)
  have "has_flag (pd_flags (new_pathdata ''/bin/ls'' True)) HASH_CHKDOT"
    "\<not> has_flag (pd_flags (new_pathdata ''/bin/ls'' True)) HASH_RELPATH" "add_dot ''ls'' = ''./ls''"
    by code_simp+
  then show ?thesis
    using phash_search_dot [OF i(1,3,2), of "\<lambda>q. q = ''./ls''" "\<lambda>_ _. False"] by auto
qed

end
