(* ===== verification/Expr.thy ===== *)
theory Expr
  imports Itos
begin

text \<open>
  The arithmetic evaluator, \<^verbatim>\<open>expr.c\<close>: a lexer (\<^verbatim>\<open>readtok\<close>, \<^verbatim>\<open>strlong\<close>), one function per precedence level
  from \<^verbatim>\<open>expcomma\<close> down to \<^verbatim>\<open>exp0\<close>, and recursive evaluation of the strings that variables hold. The
  static variables of the file are a record. \<^verbatim>\<open>evalerror\<close> jumps back to \<^verbatim>\<open>evalexp\<close>: it is the result \<open>Jump\<close>,
  which carries the state, since assignments already made stay.

  The functions call each other recursively, through parentheses, through the next token and through
  variables. Each is a definition of its own whose recursive calls go through an argument \<open>rec\<close>, which
  takes a tag naming the function that is called; \<open>run\<close> ties the knot as a partial function, whose
  result \<^const>\<open>None\<close> would mean that the call does not end. The variables of the shell are an abstract
  environment with the operations of \<open>var_ops\<close>. Pointer comparisons on token strings compare the
  addresses that \<^verbatim>\<open>savestring\<close> hands out. A shift by an amount outside \<open>0..63\<close>, which C leaves undefined,
  takes the amount modulo 64, as the processors do.
\<close>

section \<open>Tokens and state\<close>

datatype tok = T_EOE | T_EQEQ | T_NEQ | T_LEQ | T_GEQ | T_STR | T_NUM | T_LAND | T_LOR | T_LSH | T_RSH
  | T_OP_ASSIGN | T_COND | T_POWER | T_PREINC | T_PREDEC | T_POSTINC | T_POSTDEC
  | T_EQ | T_GT | T_LT | T_PLUS | T_MINUS | T_MUL | T_DIV | T_MOD | T_NOT | T_LPAR | T_RPAR
  | T_BAND | T_BOR | T_BXOR | T_BNOT | T_QUES | T_COL | T_COMMA

datatype expr_error = E_recursion | E_underflow | E_syntax | E_nonvariable | E_assign_syntax | E_div0
  | E_bad_assign_op | E_expected | E_colon | E_exponent | E_identifier | E_paren | E_operand
  | E_badsub | E_lvalue | E_operator | E_invalid_number | E_invalid_base | E_invalid_constant
  | E_too_great | E_unbound | E_readonly

type_synonym strptr = "nat \<times> cstring"

record lvalue =
  lv_tokstr :: "strptr option"
  lv_tokval :: int
  lv_ind :: int

record expr_context =
  ec_curtok :: tok
  ec_lasttok :: tok
  ec_expression :: cstring
  ec_tp :: nat
  ec_lasttp :: nat
  ec_tokval :: int
  ec_tokstr :: "strptr option"
  ec_noeval :: int
  ec_lval :: lvalue

record 'e expr_state =
  expression :: cstring
  tp :: nat
  lasttp :: nat
  curtok :: tok
  lasttok :: tok
  assigntok :: tok
  tokstr :: "strptr option"
  tokval :: int
  noeval :: int
  curlval :: lvalue
  lastlval :: lvalue
  expr_stack :: "expr_context list"
  nextptr :: nat
  env :: 'e

text \<open>
  The shell's variables: \<open>vo_get\<close> is \<^verbatim>\<open>get_variable_value\<close>, or \<^verbatim>\<open>get_array_value\<close> when the token has a
  subscript, with the index found and the environment afterwards (evaluating a subscript may assign),
  and \<open>None\<close> when an unset variable is an error; \<open>vo_bind\<close> is \<^verbatim>\<open>bind_int_variable\<close> with the side effects
  of special variables, and tells whether the variable is readonly; \<open>vo_skip\<close> is \<^verbatim>\<open>expr_skipsubscript\<close>,
  the offset of the end of a subscript.
\<close>

record 'e var_ops =
  vo_get :: "'e \<Rightarrow> cstring \<Rightarrow> bool \<Rightarrow> (cstring option \<times> int \<times> 'e) option"
  vo_bind :: "'e \<Rightarrow> cstring \<Rightarrow> cstring \<Rightarrow> 'e \<times> bool"
  vo_skip :: "'e \<Rightarrow> cstring \<Rightarrow> nat \<Rightarrow> nat"

text \<open>How a function ends: it returns a value, or jumps; \<^const>\<open>None\<close> stands for a call that never ends.\<close>

datatype 'e res = Returned int "'e expr_state" | Jumped expr_error "'e expr_state"

type_synonym 'e action = "'e expr_state \<Rightarrow> 'e res option"

abbreviation Ret :: "int \<Rightarrow> 'e action" where "Ret v s \<equiv> Some (Returned v s)"
abbreviation Jump :: "expr_error \<Rightarrow> 'e action" where "Jump e s \<equiv> Some (Jumped e s)"

definition seq :: "'e action \<Rightarrow> (int \<Rightarrow> 'e action) \<Rightarrow> 'e action" where
  "seq m f s = Option.bind (m s) (\<lambda>r. case r of Returned v s' \<Rightarrow> f v s' | Jumped e s' \<Rightarrow> Jump e s')"

definition evalerror :: "expr_error \<Rightarrow> 'e action" where
  "evalerror msg s = Jump msg s"

datatype fn = F_subexpr cstring | F_comma | F_comma_loop int | F_assign | F_cond
  | F_lor | F_lor_loop int | F_land | F_land_loop int | F_bor | F_bor_loop int | F_bxor | F_bxor_loop int
  | F_band | F_band_loop int | F_exp5 | F_exp5_loop int | F_exp4 | F_exp4_loop int
  | F_shift | F_shift_loop int | F_exp3 | F_exp3_loop int | F_muldiv | F_muldiv_loop int
  | F_power | F_power_loop int | F_exp1 | F_exp0 | F_readtok | F_streval strptr bool

definition MAX_EXPR_RECURSION_LEVEL :: nat where "MAX_EXPR_RECURSION_LEVEL = 1024"

definition init_lvalue :: lvalue where
  "init_lvalue = \<lparr>lv_tokstr = None, lv_tokval = -1, lv_ind = -1\<rparr>"

definition SAVETOK :: "'e expr_state \<Rightarrow> expr_context" where
  "SAVETOK s = \<lparr>ec_curtok = curtok s, ec_lasttok = lasttok s, ec_expression = expression s, ec_tp = tp s,
     ec_lasttp = lasttp s, ec_tokval = tokval s, ec_tokstr = tokstr s, ec_noeval = noeval s, ec_lval = curlval s\<rparr>"

definition RESTORETOK :: "expr_context \<Rightarrow> 'e expr_state \<Rightarrow> 'e expr_state" where
  "RESTORETOK c s = s\<lparr>curtok := ec_curtok c, lasttok := ec_lasttok c, tp := ec_tp c, lasttp := ec_lasttp c,
     tokval := ec_tokval c, tokstr := ec_tokstr c, noeval := ec_noeval c, curlval := ec_lval c\<rparr>"

text \<open>The stack of contexts; \<^verbatim>\<open>expr_depth\<close> is its length.\<close>

definition pushexp :: "'e action" where
  "pushexp s =
     (if MAX_EXPR_RECURSION_LEVEL \<le> length (expr_stack s) then evalerror E_recursion s
      else Ret 0 (s\<lparr>expr_stack := SAVETOK s # expr_stack s\<rparr>))"

definition popexp :: "'e action" where
  "popexp s =
     (case expr_stack s of
        [] \<Rightarrow> evalerror E_underflow (s\<lparr>expression := [], lasttp := 0\<rparr>)
      | c # cs \<Rightarrow> Ret 0 (RESTORETOK c (s\<lparr>expression := ec_expression c, expr_stack := cs\<rparr>)))"

text \<open>The address of a token string, for pointer comparisons.\<close>

definition same_tokstr :: "'e expr_state \<Rightarrow> bool" where
  "same_tokstr s \<longleftrightarrow>
     lv_tokstr (curlval s) \<noteq> None \<and> map_option fst (lv_tokstr (curlval s)) = map_option fst (tokstr s)"

text \<open>The test that \<^verbatim>\<open>readtok\<close> and \<^verbatim>\<open>expassign\<close> make before they free \<^verbatim>\<open>tokstr\<close>.\<close>

definition forget_lvalue :: "'e expr_state \<Rightarrow> 'e expr_state" where
  "forget_lvalue s = (if same_tokstr s then s\<lparr>curlval := init_lvalue\<rparr> else s)"

definition expr_bind_variable :: "'e var_ops \<Rightarrow> cstring \<Rightarrow> cstring \<Rightarrow> 'e action" where
  "expr_bind_variable ops lhs rhs s =
     (if lhs = [] then Ret 0 s
      else (case vo_bind ops (env s) lhs rhs of (e', readonly) \<Rightarrow>
              if readonly then Jump E_readonly (s\<lparr>env := e'\<rparr>) else Ret 0 (s\<lparr>env := e'\<rparr>)))"

definition expr_bind_array_element :: "'e var_ops \<Rightarrow> cstring \<Rightarrow> int \<Rightarrow> cstring \<Rightarrow> 'e action" where
  "expr_bind_array_element ops tok ind rhs s =
     (let istr = itos ind; vname = takeWhile (\<lambda>c. c \<noteq> CHR ''['') tok
      in expr_bind_variable ops (vname @ ''['' @ istr @ '']'') rhs s)"


section \<open>Arithmetic on \<open>intmax_t\<close>\<close>

definition shl64 :: "int \<Rightarrow> int \<Rightarrow> int" where
  "shl64 v n = wrap64 (v * 2 ^ nat (n mod 64))"

definition shr64 :: "int \<Rightarrow> int \<Rightarrow> int" where
  "shr64 v n = v div 2 ^ nat (n mod 64)"

definition of_bool_int :: "bool \<Rightarrow> int" where
  "of_bool_int b = (if b then 1 else 0)"

text \<open>\<^verbatim>\<open>ipow\<close>: the loop ends for a non-negative exponent, the only ones \<^verbatim>\<open>exppower\<close> passes.\<close>

function ipow_loop :: "int \<Rightarrow> int \<Rightarrow> nat \<Rightarrow> int" where
  "ipow_loop result base exp =
     (if exp = 0 then result
      else ipow_loop (if odd exp then wrap64 (result * base) else result) (wrap64 (base * base)) (exp div 2))"
  by auto
termination
  by (relation "measure (\<lambda>(r, b, e). e)") auto

declare ipow_loop.simps [simp del]

definition ipow :: "int \<Rightarrow> int \<Rightarrow> int" where
  "ipow base exp = ipow_loop 1 base (nat exp)"

text \<open>The \<^verbatim>\<open>switch\<close> of \<^verbatim>\<open>expassign\<close> for \<open>lhs op= value\<close>; \<open>ne\<close> tells that evaluation is suppressed.\<close>

definition assign_op :: "tok \<Rightarrow> int \<Rightarrow> int \<Rightarrow> bool \<Rightarrow> expr_error + int" where
  "assign_op op lvalue value ne =
     (if (op = T_DIV \<or> op = T_MOD) \<and> value = 0 \<and> \<not> ne then Inl E_div0
      else
        let value = (if (op = T_DIV \<or> op = T_MOD) \<and> value = 0 then 1 else value)
        in case op of
             T_MUL \<Rightarrow> Inr (wrap64 (lvalue * value))
           | T_DIV \<Rightarrow> Inr (if lvalue = INTMAX_MIN \<and> value = -1 then INTMAX_MIN else cquot lvalue value)
           | T_MOD \<Rightarrow> Inr (if lvalue = INTMAX_MIN \<and> value = -1 then 0 else crem lvalue value)
           | T_PLUS \<Rightarrow> Inr (wrap64 (lvalue + value))
           | T_MINUS \<Rightarrow> Inr (wrap64 (lvalue - value))
           | T_LSH \<Rightarrow> Inr (shl64 lvalue value)
           | T_RSH \<Rightarrow> Inr (shr64 lvalue value)
           | T_BAND \<Rightarrow> Inr (lvalue AND value)
           | T_BOR \<Rightarrow> Inr (lvalue OR value)
           | T_BXOR \<Rightarrow> Inr (lvalue XOR value)
           | _ \<Rightarrow> Inl E_bad_assign_op)"


section \<open>Numbers\<close>

definition VALID_NUMCHAR :: "char \<Rightarrow> bool" where
  "VALID_NUMCHAR c \<longleftrightarrow> ISALNUM c \<or> c = CHR ''_'' \<or> c = CHR ''@''"

definition numchar_value :: "int \<Rightarrow> char \<Rightarrow> int" where
  "numchar_value base c =
     (if ISDIGIT c then int (code c) - 48
      else if ISLOWER c then int (code c) - 97 + 10
      else if ISUPPER c then int (code c) - 65 + (if base \<le> 36 then 10 else 36)
      else if c = CHR ''@'' then 62
      else 63)"

fun strlong_loop :: "int \<Rightarrow> bool \<Rightarrow> int \<Rightarrow> cstring \<Rightarrow> expr_error + int" where
  "strlong_loop base foundbase val [] = Inr val"
| "strlong_loop base foundbase val (c # s) =
     (if c = CHR ''#'' then
        (if foundbase then Inl E_invalid_number
         else if val < 2 \<or> val > 64 then Inl E_invalid_base
         else if \<not> VALID_NUMCHAR (char_at s 0) then Inl E_invalid_constant
         else strlong_loop val True 0 s)
      else if VALID_NUMCHAR c then
        (if numchar_value base c \<ge> base then Inl E_too_great
         else strlong_loop base foundbase (wrap64 (val * base + numchar_value base c)) s)
      else Inr val)"

definition strlong :: "cstring \<Rightarrow> expr_error + int" where
  "strlong num =
     (case num of
        c # s \<Rightarrow>
          if c = CHR ''0'' then
            (case s of
               [] \<Rightarrow> Inr 0
             | d # t \<Rightarrow> if d = CHR ''x'' \<or> d = CHR ''X'' then strlong_loop 16 True 0 t
                        else strlong_loop 8 True 0 s)
          else strlong_loop 10 False 0 num
      | [] \<Rightarrow> strlong_loop 10 False 0 num)"


section \<open>The lexer\<close>

definition cr_whitespace :: "char \<Rightarrow> bool" where
  "cr_whitespace c \<longleftrightarrow> c = CHR '' '' \<or> c = TAB \<or> c = NEWLINE"

definition is_multiop :: "tok \<Rightarrow> bool" where
  "is_multiop c \<longleftrightarrow> c \<in> {T_EQEQ, T_NEQ, T_LEQ, T_GEQ, T_LAND, T_LOR, T_LSH, T_RSH, T_OP_ASSIGN, T_COND,
     T_POWER, T_PREINC, T_PREDEC, T_POSTINC, T_POSTDEC}"

definition is_arithop :: "tok \<Rightarrow> bool" where
  "is_arithop c \<longleftrightarrow> c \<in> {T_EQ, T_GT, T_LT, T_PLUS, T_MINUS, T_MUL, T_DIV, T_MOD, T_NOT, T_LPAR, T_RPAR,
     T_BAND, T_BOR, T_BXOR, T_BNOT, T_QUES, T_COL, T_COMMA}"

text \<open>The one-character operators: the characters for which \<^verbatim>\<open>_is_arithop\<close> holds, and their tokens.\<close>

definition char_op :: "char \<Rightarrow> tok option" where
  "char_op c = map_of
     [(CHR ''='', T_EQ), (CHR ''>'', T_GT), (CHR ''<'', T_LT), (CHR ''+'', T_PLUS), (CHR ''-'', T_MINUS),
      (CHR ''*'', T_MUL), (CHR ''/'', T_DIV), (CHR ''%'', T_MOD), (CHR ''!'', T_NOT), (CHR ''('', T_LPAR),
      (CHR '')'', T_RPAR), (CHR ''&'', T_BAND), (CHR ''|'', T_BOR), (CHR ''^'', T_BXOR), (CHR ''~'', T_BNOT),
      (CHR ''?'', T_QUES), (CHR '':'', T_COL), (CHR '','', T_COMMA)] c"

text \<open>\<open>span_from P s i\<close> is the first position at or after \<open>i\<close> whose character does not satisfy \<open>P\<close>.\<close>

definition span_from :: "(char \<Rightarrow> bool) \<Rightarrow> cstring \<Rightarrow> nat \<Rightarrow> nat" where
  "span_from P s i = i + length (takeWhile P (drop i s))"

text \<open>
  The last branch of \<^verbatim>\<open>readtok\<close>: the operator that starts with the characters \<open>c\<close>, \<open>c1\<close> and \<open>c2\<close>; \<open>ident\<close> tells
  that \<open>c\<close> and \<open>c1\<close> are followed by blanks and an identifier. The result is the token, how many characters it
  takes and, for an assignment operator, the operator that goes into \<^verbatim>\<open>assigntok\<close>.
\<close>

definition lex_chars ::
  "char \<Rightarrow> char \<Rightarrow> char \<Rightarrow> bool \<Rightarrow> tok \<Rightarrow> tok \<Rightarrow> expr_error + (tok \<times> nat \<times> tok option)" where
  "lex_chars c c1 c2 ident cur prev =
     (if c = CHR ''='' \<and> c1 = CHR ''='' then Inr (T_EQEQ, 2, None)
      else if c = CHR ''!'' \<and> c1 = CHR ''='' then Inr (T_NEQ, 2, None)
      else if c = CHR ''>'' \<and> c1 = CHR ''='' then Inr (T_GEQ, 2, None)
      else if c = CHR ''<'' \<and> c1 = CHR ''='' then Inr (T_LEQ, 2, None)
      else if c = CHR ''<'' \<and> c1 = CHR ''<'' then
        (if c2 = CHR ''='' then Inr (T_OP_ASSIGN, 3, Some T_LSH) else Inr (T_LSH, 2, None))
      else if c = CHR ''>'' \<and> c1 = CHR ''>'' then
        (if c2 = CHR ''='' then Inr (T_OP_ASSIGN, 3, Some T_RSH) else Inr (T_RSH, 2, None))
      else if c = CHR ''&'' \<and> c1 = CHR ''&'' then Inr (T_LAND, 2, None)
      else if c = CHR ''|'' \<and> c1 = CHR ''|'' then Inr (T_LOR, 2, None)
      else if c = CHR ''*'' \<and> c1 = CHR ''*'' then Inr (T_POWER, 2, None)
      else if (c = CHR ''-'' \<or> c = CHR ''+'') \<and> c1 = c \<and> cur = T_STR then
        Inr (if c = CHR ''-'' then T_POSTDEC else T_POSTINC, 2, None)
      else if (c = CHR ''-'' \<or> c = CHR ''+'') \<and> c1 = c \<and> cur = T_NUM \<and> (prev = T_PREINC \<or> prev = T_PREDEC) then
        Inl E_lvalue
      else if (c = CHR ''-'' \<or> c = CHR ''+'') \<and> c1 = c then
        (if ident then Inr (if c = CHR ''-'' then T_PREDEC else T_PREINC, 2, None)
         else Inr (if c = CHR ''-'' then T_MINUS else T_PLUS, 1, None))
      else if c1 = CHR ''='' \<and> c \<in> set ''*/%+-&^|'' then Inr (T_OP_ASSIGN, 2, char_op c)
      else
        (case char_op c of
           None \<Rightarrow> Inl (if cur = T_EOE \<or> is_arithop cur \<or> is_multiop cur then E_operand else E_operator)
         | Some t \<Rightarrow> Inr (t, 1, None)))"

definition lex_op :: "cstring \<Rightarrow> nat \<Rightarrow> tok \<Rightarrow> tok \<Rightarrow> expr_error + (tok \<times> nat \<times> tok option)" where
  "lex_op ex i cur prev =
     lex_chars (char_at ex i) (char_at ex (i + 1)) (char_at ex (i + 2))
       (legal_variable_starter (char_at ex (span_from cr_whitespace ex (i + 2)))) cur prev"

text \<open>The end of \<^verbatim>\<open>readtok\<close>.\<close>

definition set_token :: "tok \<Rightarrow> nat \<Rightarrow> 'e expr_state \<Rightarrow> 'e expr_state" where
  "set_token t i s = s\<lparr>lasttok := curtok s, curtok := t, tp := i\<rparr>"

definition readtok_number :: "'e action" where
  "readtok_number s =
     (let i = span_from (\<lambda>c. ISALNUM c \<or> c = CHR ''#'' \<or> c = CHR ''@'' \<or> c = CHR ''_'') (expression s) (tp s)
      in case strlong (take (i - tp s) (drop (tp s) (expression s))) of
           Inl e \<Rightarrow> evalerror e s
         | Inr v \<Rightarrow> Ret 0 (set_token T_NUM i (s\<lparr>tokval := v\<rparr>)))"

definition readtok_op :: "'e action" where
  "readtok_op s =
     (case lex_op (expression s) (tp s) (curtok s) (lasttok s) of
        Inl e \<Rightarrow> evalerror e s
      | Inr (t, n, a) \<Rightarrow>
          Ret 0 (set_token t (tp s + n) (case a of Some op \<Rightarrow> s\<lparr>assigntok := op\<rparr> | None \<Rightarrow> s)))"

text \<open>
  The name branch of \<^verbatim>\<open>readtok\<close>. The name ends at \<open>i\<close>; it peeks at the next token with evaluation
  suppressed and evaluates the variable unless that token is an assignment.
\<close>

definition readtok_name_at :: "'e var_ops \<Rightarrow> (fn \<Rightarrow> 'e action) \<Rightarrow> nat \<Rightarrow> bool \<Rightarrow> 'e action" where
  "readtok_name_at ops rec i sub s =
     (let s = forget_lvalue s;
          p = (nextptr s, take (i - tp s) (drop (tp s) (expression s)));
          s = s\<lparr>tokstr := Some p, nextptr := nextptr s + 1\<rparr>;
          ec = SAVETOK s
      in seq (rec F_readtok)
           (\<lambda>_ s.
              let peektok = curtok s;
                  s = RESTORETOK ec s
              in if lasttok s = T_PREINC \<or> lasttok s = T_PREDEC \<or> peektok \<noteq> T_EQ then
                   seq (rec (F_streval p sub))
                     (\<lambda>v s. Ret 0 (set_token T_STR i (s\<lparr>tokval := v\<rparr>)))
                     (s\<lparr>lastlval := curlval s\<rparr>)
                 else Ret 0 (set_token T_STR i (s\<lparr>tokval := 0\<rparr>)))
           (s\<lparr>tokstr := None, tp := i, noeval := 1, curtok := T_STR\<rparr>))"

definition readtok_name :: "'e var_ops \<Rightarrow> (fn \<Rightarrow> 'e action) \<Rightarrow> 'e action" where
  "readtok_name ops rec s =
     (let i = span_from legal_variable_char (expression s) (tp s)
      in if char_at (expression s) i = CHR ''['' then
           (let e = vo_skip ops (env s) (expression s) i
            in if char_at (expression s) (i + e) = CHR '']'' then readtok_name_at ops rec (i + e + 1) True s
               else evalerror E_badsub s)
         else readtok_name_at ops rec i False s)"

definition readtok :: "'e var_ops \<Rightarrow> (fn \<Rightarrow> 'e action) \<Rightarrow> 'e action" where
  "readtok ops rec s =
     (let i = span_from cr_whitespace (expression s) (tp s); c = char_at (expression s) i
      in if c = NUL then Ret 0 (set_token T_EOE i s)
         else
           let s = s\<lparr>tp := i, lasttp := i\<rparr>
           in if legal_variable_starter c then readtok_name ops rec s
              else if ISDIGIT c then readtok_number s
              else readtok_op s)"

definition expr_streval :: "'e var_ops \<Rightarrow> (fn \<Rightarrow> 'e action) \<Rightarrow> strptr \<Rightarrow> bool \<Rightarrow> 'e action" where
  "expr_streval ops rec p sub s =
     (if noeval s \<noteq> 0 then Ret 0 s
      else
        (case vo_get ops (env s) (snd p) sub of
           None \<Rightarrow> Jump E_unbound s
         | Some (value, ind, e') \<Rightarrow>
             seq (\<lambda>s. case value of None \<Rightarrow> Ret 0 s
                      | Some v \<Rightarrow> if v = [] then Ret 0 s else rec (F_subexpr v) s)
               (\<lambda>tval s. Ret tval (s\<lparr>curlval := \<lparr>lv_tokstr = Some p, lv_tokval = tval, lv_ind = ind\<rparr>\<rparr>))
               (s\<lparr>env := e'\<rparr>)))"

definition subexpr :: "(fn \<Rightarrow> 'e action) \<Rightarrow> cstring \<Rightarrow> 'e action" where
  "subexpr rec expr s =
     (if dropWhile cr_whitespace expr = [] then Ret 0 s
      else
        seq pushexp
          (\<lambda>_ s. seq (rec F_readtok)
             (\<lambda>_. seq (rec F_comma)
                (\<lambda>val s. if curtok s \<noteq> T_EOE then evalerror E_syntax s else seq popexp (\<lambda>_. Ret val) s))
             (s\<lparr>expression := expr, tp := 0, curtok := T_EOE, lasttok := T_EOE, tokstr := None,
                tokval := 0, curlval := init_lvalue, lastlval := init_lvalue\<rparr>)) s)"

section \<open>The precedence levels\<close>

definition expcomma :: "(fn \<Rightarrow> 'e action) \<Rightarrow> 'e action" where
  "expcomma rec = seq (rec F_assign) (\<lambda>value. rec (F_comma_loop value))"

definition expcomma_loop :: "(fn \<Rightarrow> 'e action) \<Rightarrow> int \<Rightarrow> 'e action" where
  "expcomma_loop rec value s =
     (if curtok s = T_COMMA
      then seq (rec F_readtok) (\<lambda>_. seq (rec F_assign) (\<lambda>value. rec (F_comma_loop value))) s
      else Ret value s)"

text \<open>
  \<open>expassign\<close>: \<open>special\<close> is an assignment with an operator. \<open>expassign_rhs\<close> is the part after the right
  hand side is known; \<open>lhs\<close> and \<open>lind\<close> were saved before it was evaluated.
\<close>

definition expassign_rhs :: "'e var_ops \<Rightarrow> bool \<Rightarrow> tok \<Rightarrow> int \<Rightarrow> cstring \<Rightarrow> int \<Rightarrow> int \<Rightarrow> 'e action" where
  "expassign_rhs ops special op lvalue lhs lind value s =
     (case (if special then assign_op op lvalue value (noeval s \<noteq> 0) else Inr value) of
        Inl e \<Rightarrow> evalerror e s
      | Inr value \<Rightarrow>
          let rhs = itos value
          in seq (\<lambda>s. if noeval s = 0 then
                         (if lind \<noteq> -1 then expr_bind_array_element ops lhs lind rhs s
                          else expr_bind_variable ops lhs rhs s)
                       else Ret 0 s)
               (\<lambda>_ s. Ret value ((forget_lvalue s)\<lparr>tokstr := None\<rparr>)) s)"

definition expassign :: "'e var_ops \<Rightarrow> (fn \<Rightarrow> 'e action) \<Rightarrow> 'e action" where
  "expassign ops rec =
     seq (rec F_cond)
       (\<lambda>value s.
          if curtok s = T_EQ \<or> curtok s = T_OP_ASSIGN then
            (if lasttok s \<noteq> T_STR then evalerror E_nonvariable s
             else
               (case tokstr s of
                  None \<Rightarrow> evalerror E_assign_syntax s
                | Some (_, lhs) \<Rightarrow>
                    let special = (curtok s = T_OP_ASSIGN); op = assigntok s; lind = lv_ind (curlval s)
                    in seq (rec F_readtok)
                         (\<lambda>_. seq (rec F_assign) (expassign_rhs ops special op value lhs lind)) s))
          else Ret value s)"

definition expcond :: "(fn \<Rightarrow> 'e action) \<Rightarrow> 'e action" where
  "expcond rec =
     seq (rec F_lor)
       (\<lambda>cval s.
          if curtok s = T_QUES then
            seq (rec F_readtok)
              (\<lambda>_ s.
                 if curtok s = T_EOE \<or> curtok s = T_COL then evalerror E_expected s
                 else
                   seq (rec F_comma)
                     (\<lambda>val1 s.
                        let s = (if cval = 0 then s\<lparr>noeval := noeval s - 1\<rparr> else s)
                        in if curtok s \<noteq> T_COL then evalerror E_colon s
                           else
                             seq (rec F_readtok)
                               (\<lambda>_ s.
                                  if curtok s = T_EOE then evalerror E_expected s
                                  else
                                    seq (rec F_cond)
                                      (\<lambda>val2 s.
                                         let s = (if cval \<noteq> 0 then s\<lparr>noeval := noeval s - 1\<rparr> else s)
                                         in Ret (if cval \<noteq> 0 then val1 else val2) (s\<lparr>lasttok := T_COND\<rparr>)) s)
                               (if cval \<noteq> 0 then s\<lparr>noeval := noeval s + 1\<rparr> else s)) s)
              (if cval = 0 then s\<lparr>noeval := noeval s + 1\<rparr> else s)
          else Ret cval s)"

definition explor :: "(fn \<Rightarrow> 'e action) \<Rightarrow> 'e action" where
  "explor rec = seq (rec F_land) (\<lambda>val1. rec (F_lor_loop val1))"

definition explor_loop :: "(fn \<Rightarrow> 'e action) \<Rightarrow> int \<Rightarrow> 'e action" where
  "explor_loop rec val1 s =
     (if curtok s = T_LOR then
        seq (rec F_readtok)
          (\<lambda>_. seq (rec F_land)
             (\<lambda>val2 s.
                let s = (if val1 \<noteq> 0 then s\<lparr>noeval := noeval s - 1\<rparr> else s)
                in rec (F_lor_loop (of_bool_int (val1 \<noteq> 0 \<or> val2 \<noteq> 0))) (s\<lparr>lasttok := T_LOR\<rparr>)))
          (if val1 \<noteq> 0 then s\<lparr>noeval := noeval s + 1\<rparr> else s)
      else Ret val1 s)"

definition expland :: "(fn \<Rightarrow> 'e action) \<Rightarrow> 'e action" where
  "expland rec = seq (rec F_bor) (\<lambda>val1. rec (F_land_loop val1))"

definition expland_loop :: "(fn \<Rightarrow> 'e action) \<Rightarrow> int \<Rightarrow> 'e action" where
  "expland_loop rec val1 s =
     (if curtok s = T_LAND then
        seq (rec F_readtok)
          (\<lambda>_. seq (rec F_bor)
             (\<lambda>val2 s.
                let s = (if val1 = 0 then s\<lparr>noeval := noeval s - 1\<rparr> else s)
                in rec (F_land_loop (of_bool_int (val1 \<noteq> 0 \<and> val2 \<noteq> 0))) (s\<lparr>lasttok := T_LAND\<rparr>)))
          (if val1 = 0 then s\<lparr>noeval := noeval s + 1\<rparr> else s)
      else Ret val1 s)"

text \<open>
  The loop that the left-associative levels share: while the current token is one of \<open>isop\<close>, read the
  next token, evaluate an operand with \<open>next\<close> and combine.
\<close>

definition left_loop ::
  "(fn \<Rightarrow> 'e action) \<Rightarrow> tok list \<Rightarrow> fn \<Rightarrow> (int \<Rightarrow> fn) \<Rightarrow> (tok \<Rightarrow> int \<Rightarrow> int \<Rightarrow> int) \<Rightarrow> int \<Rightarrow> 'e action" where
  "left_loop rec isop operand loop combine val1 s =
     (if curtok s \<in> set isop then
        (let op = curtok s
         in seq (rec F_readtok)
              (\<lambda>_. seq (rec operand)
                 (\<lambda>val2 s. rec (loop (combine op val1 val2)) (s\<lparr>lasttok := T_NUM\<rparr>))) s)
      else Ret val1 s)"

definition expbor :: "(fn \<Rightarrow> 'e action) \<Rightarrow> 'e action" where
  "expbor rec = seq (rec F_bxor) (\<lambda>val1. rec (F_bor_loop val1))"

definition expbor_loop :: "(fn \<Rightarrow> 'e action) \<Rightarrow> int \<Rightarrow> 'e action" where
  "expbor_loop rec = left_loop rec [T_BOR] F_bxor F_bor_loop (\<lambda>_ val1 val2. val1 OR val2)"

definition expbxor :: "(fn \<Rightarrow> 'e action) \<Rightarrow> 'e action" where
  "expbxor rec = seq (rec F_band) (\<lambda>val1. rec (F_bxor_loop val1))"

definition expbxor_loop :: "(fn \<Rightarrow> 'e action) \<Rightarrow> int \<Rightarrow> 'e action" where
  "expbxor_loop rec = left_loop rec [T_BXOR] F_band F_bxor_loop (\<lambda>_ val1 val2. val1 XOR val2)"

definition expband :: "(fn \<Rightarrow> 'e action) \<Rightarrow> 'e action" where
  "expband rec = seq (rec F_exp5) (\<lambda>val1. rec (F_band_loop val1))"

definition expband_loop :: "(fn \<Rightarrow> 'e action) \<Rightarrow> int \<Rightarrow> 'e action" where
  "expband_loop rec = left_loop rec [T_BAND] F_exp5 F_band_loop (\<lambda>_ val1 val2. val1 AND val2)"

definition exp5 :: "(fn \<Rightarrow> 'e action) \<Rightarrow> 'e action" where
  "exp5 rec = seq (rec F_exp4) (\<lambda>val1. rec (F_exp5_loop val1))"

definition exp5_loop :: "(fn \<Rightarrow> 'e action) \<Rightarrow> int \<Rightarrow> 'e action" where
  "exp5_loop rec = left_loop rec [T_EQEQ, T_NEQ] F_exp4 F_exp5_loop
     (\<lambda>op val1 val2. if op = T_EQEQ then of_bool_int (val1 = val2) else of_bool_int (val1 \<noteq> val2))"

definition exp4 :: "(fn \<Rightarrow> 'e action) \<Rightarrow> 'e action" where
  "exp4 rec = seq (rec F_shift) (\<lambda>val1. rec (F_exp4_loop val1))"

definition exp4_loop :: "(fn \<Rightarrow> 'e action) \<Rightarrow> int \<Rightarrow> 'e action" where
  "exp4_loop rec = left_loop rec [T_LEQ, T_GEQ, T_LT, T_GT] F_shift F_exp4_loop
     (\<lambda>op val1 val2.
        if op = T_LEQ then of_bool_int (val1 \<le> val2)
        else if op = T_GEQ then of_bool_int (val1 \<ge> val2)
        else if op = T_LT then of_bool_int (val1 < val2)
        else of_bool_int (val1 > val2))"

definition expshift :: "(fn \<Rightarrow> 'e action) \<Rightarrow> 'e action" where
  "expshift rec = seq (rec F_exp3) (\<lambda>val1. rec (F_shift_loop val1))"

definition expshift_loop :: "(fn \<Rightarrow> 'e action) \<Rightarrow> int \<Rightarrow> 'e action" where
  "expshift_loop rec = left_loop rec [T_LSH, T_RSH] F_exp3 F_shift_loop
     (\<lambda>op val1 val2. if op = T_LSH then shl64 val1 val2 else shr64 val1 val2)"

definition exp3 :: "(fn \<Rightarrow> 'e action) \<Rightarrow> 'e action" where
  "exp3 rec = seq (rec F_muldiv) (\<lambda>val1. rec (F_exp3_loop val1))"

definition exp3_loop :: "(fn \<Rightarrow> 'e action) \<Rightarrow> int \<Rightarrow> 'e action" where
  "exp3_loop rec = left_loop rec [T_PLUS, T_MINUS] F_muldiv F_exp3_loop
     (\<lambda>op val1 val2. if op = T_PLUS then wrap64 (val1 + val2) else wrap64 (val1 - val2))"

definition expmuldiv :: "(fn \<Rightarrow> 'e action) \<Rightarrow> 'e action" where
  "expmuldiv rec = seq (rec F_power) (\<lambda>val1. rec (F_muldiv_loop val1))"

text \<open>The remainder of the most negative number by \<open>-1\<close> continues the loop without setting \<^verbatim>\<open>lasttok\<close>.\<close>

definition expmuldiv_loop :: "(fn \<Rightarrow> 'e action) \<Rightarrow> int \<Rightarrow> 'e action" where
  "expmuldiv_loop rec val1 s =
     (if curtok s = T_MUL \<or> curtok s = T_DIV \<or> curtok s = T_MOD then
        (let op = curtok s; stp = tp s
         in seq (rec F_readtok)
              (\<lambda>_. seq (rec F_power)
                 (\<lambda>val2 s.
                    if (op = T_DIV \<or> op = T_MOD) \<and> val2 = 0 \<and> noeval s = 0 then
                      evalerror E_div0 (s\<lparr>lasttp := span_from whitespace (expression s) stp\<rparr>)
                    else if op = T_MOD \<and> val1 = INTMAX_MIN \<and> val2 = -1 then rec (F_muldiv_loop 0) s
                    else
                      let val2 = (if (op = T_DIV \<or> op = T_MOD) \<and> val2 = 0 then 1
                                  else if op = T_DIV \<and> val1 = INTMAX_MIN \<and> val2 = -1 then 1
                                  else val2);
                          val1 = (if op = T_MUL then wrap64 (val1 * val2)
                                  else if op = T_DIV then cquot val1 val2
                                  else crem val1 val2)
                      in rec (F_muldiv_loop val1) (s\<lparr>lasttok := T_NUM\<rparr>))) s)
      else Ret val1 s)"

definition exppower :: "(fn \<Rightarrow> 'e action) \<Rightarrow> 'e action" where
  "exppower rec = seq (rec F_exp1) (\<lambda>val1. rec (F_power_loop val1))"

definition exppower_loop :: "(fn \<Rightarrow> 'e action) \<Rightarrow> int \<Rightarrow> 'e action" where
  "exppower_loop rec val1 s =
     (if curtok s = T_POWER then
        seq (rec F_readtok)
          (\<lambda>_. seq (rec F_power)
             (\<lambda>val2 s.
                let s = s\<lparr>lasttok := T_NUM\<rparr>
                in if val2 = 0 then Ret 1 s
                   else if val2 < 0 then evalerror E_exponent s
                   else rec (F_power_loop (ipow val1 val2)) s)) s
      else Ret val1 s)"

definition exp1 :: "(fn \<Rightarrow> 'e action) \<Rightarrow> 'e action" where
  "exp1 rec s =
     (let unary = (\<lambda>f. seq (rec F_readtok)
                         (\<lambda>_. seq (rec F_exp1) (\<lambda>val s. Ret (f val) (s\<lparr>lasttok := T_NUM\<rparr>))) s)
      in if curtok s = T_NOT then unary (\<lambda>v. of_bool_int (v = 0))
         else if curtok s = T_BNOT then unary (\<lambda>v. NOT v)
         else if curtok s = T_MINUS then unary (\<lambda>v. wrap64 (- v))
         else if curtok s = T_PLUS then unary (\<lambda>v. v)
         else rec F_exp0 s)"

text \<open>
  The binding of an incremented variable, which the prefix and postfix forms share; the string of
  \<^verbatim>\<open>curlval\<close> is used when there is an index.
\<close>

definition bind_incdec :: "'e var_ops \<Rightarrow> int \<Rightarrow> 'e action" where
  "bind_incdec ops v2 s =
     (if noeval s = 0 then
        (if lv_ind (curlval s) \<noteq> -1
         then expr_bind_array_element ops (case lv_tokstr (curlval s) of Some p \<Rightarrow> snd p | None \<Rightarrow> [])
                (lv_ind (curlval s)) (itos v2) s
         else (case tokstr s of Some p \<Rightarrow> expr_bind_variable ops (snd p) (itos v2) s | None \<Rightarrow> Ret 0 s))
      else Ret 0 s)"

definition exp0 :: "'e var_ops \<Rightarrow> (fn \<Rightarrow> 'e action) \<Rightarrow> 'e action" where
  "exp0 ops rec s =
     (if curtok s = T_PREINC \<or> curtok s = T_PREDEC then
        (let stok = curtok s
         in seq (rec F_readtok)
              (\<lambda>_ s.
                 if curtok s \<noteq> T_STR then evalerror E_identifier s
                 else
                   let v2 = wrap64 (tokval s + (if stok = T_PREINC then 1 else -1))
                   in seq (bind_incdec ops v2)
                        (\<lambda>_ s. seq (rec F_readtok) (\<lambda>_. Ret v2) (s\<lparr>curtok := T_NUM\<rparr>)) s)
              (s\<lparr>lasttok := stok\<rparr>))
      else if curtok s = T_LPAR then
        seq (rec F_readtok)
          (\<lambda>_. seq (rec F_comma)
             (\<lambda>val s. if curtok s \<noteq> T_RPAR then evalerror E_paren s
                      else seq (rec F_readtok) (\<lambda>_. Ret val) s)) s
      else if curtok s = T_NUM then seq (rec F_readtok) (\<lambda>_. Ret (tokval s)) s
      else if curtok s = T_STR then
        (let val = tokval s; ec = SAVETOK s
         in seq (rec F_readtok)
              (\<lambda>_ s.
                 let stok = curtok s
                 in if stok = T_POSTINC \<or> stok = T_POSTDEC then
                      (let v2 = wrap64 (val + (if stok = T_POSTINC then 1 else -1))
                       in seq (bind_incdec ops v2)
                            (\<lambda>_ s. seq (rec F_readtok) (\<lambda>_. Ret val) (s\<lparr>curtok := T_NUM\<rparr>))
                            (s\<lparr>tokstr := ec_tokstr ec, noeval := ec_noeval ec, curlval := ec_lval ec,
                               lasttok := T_STR\<rparr>))
                    else seq (rec F_readtok) (\<lambda>_. Ret val) (RESTORETOK ec s))
              (s\<lparr>tokstr := None, noeval := 1\<rparr>))
      else evalerror E_operand s)"


section \<open>The evaluator\<close>

definition body :: "'e var_ops \<Rightarrow> (fn \<Rightarrow> 'e action) \<Rightarrow> fn \<Rightarrow> 'e action" where
  "body ops rec f =
     (case f of
        F_subexpr expr \<Rightarrow> subexpr rec expr
      | F_comma \<Rightarrow> expcomma rec | F_comma_loop v \<Rightarrow> expcomma_loop rec v
      | F_assign \<Rightarrow> expassign ops rec | F_cond \<Rightarrow> expcond rec
      | F_lor \<Rightarrow> explor rec | F_lor_loop v \<Rightarrow> explor_loop rec v
      | F_land \<Rightarrow> expland rec | F_land_loop v \<Rightarrow> expland_loop rec v
      | F_bor \<Rightarrow> expbor rec | F_bor_loop v \<Rightarrow> expbor_loop rec v
      | F_bxor \<Rightarrow> expbxor rec | F_bxor_loop v \<Rightarrow> expbxor_loop rec v
      | F_band \<Rightarrow> expband rec | F_band_loop v \<Rightarrow> expband_loop rec v
      | F_exp5 \<Rightarrow> exp5 rec | F_exp5_loop v \<Rightarrow> exp5_loop rec v
      | F_exp4 \<Rightarrow> exp4 rec | F_exp4_loop v \<Rightarrow> exp4_loop rec v
      | F_shift \<Rightarrow> expshift rec | F_shift_loop v \<Rightarrow> expshift_loop rec v
      | F_exp3 \<Rightarrow> exp3 rec | F_exp3_loop v \<Rightarrow> exp3_loop rec v
      | F_muldiv \<Rightarrow> expmuldiv rec | F_muldiv_loop v \<Rightarrow> expmuldiv_loop rec v
      | F_power \<Rightarrow> exppower rec | F_power_loop v \<Rightarrow> exppower_loop rec v
      | F_exp1 \<Rightarrow> exp1 rec | F_exp0 \<Rightarrow> exp0 ops rec
      | F_readtok \<Rightarrow> readtok ops rec | F_streval p sub \<Rightarrow> expr_streval ops rec p sub)"

text \<open>
  Each function is monotone in the calls it makes, so that \<open>run\<close> exists: it is the least solution of the
  equation \<open>run ops f s = body ops (run ops) f s\<close>.
\<close>

lemma seq_mono:
  assumes "\<And>s. monotone (fun_ord option_ord) option_ord (\<lambda>r. m r s)"
    and "\<And>v s. monotone (fun_ord option_ord) option_ord (\<lambda>r. f r v s)"
  shows "monotone (fun_ord option_ord) option_ord (\<lambda>r. seq (m r) (f r) s)"
proof -
  have "monotone (fun_ord option_ord) option_ord
          (\<lambda>r. case x of Returned v s' \<Rightarrow> f r v s' | Jumped e s' \<Rightarrow> Jump e s')" for x
    using assms(2) by (cases x) (simp_all add: option.const_mono)
  then show ?thesis
    unfolding seq_def by (intro bind_mono assms(1))
qed

lemma if_mono':
  assumes "monotone (fun_ord option_ord) option_ord f" "monotone (fun_ord option_ord) option_ord g"
  shows "monotone (fun_ord option_ord) option_ord (\<lambda>r. if c then f r else g r)"
  using assms by (cases c) simp_all

lemma option_case_mono:
  assumes "monotone (fun_ord option_ord) option_ord g"
    and "\<And>a. monotone (fun_ord option_ord) option_ord (\<lambda>r. h r a)"
  shows "monotone (fun_ord option_ord) option_ord (\<lambda>r. case x of None \<Rightarrow> g r | Some a \<Rightarrow> h r a)"
  using assms by (cases x) simp_all

lemma prod_case_mono:
  assumes "\<And>a b. monotone (fun_ord option_ord) option_ord (\<lambda>r. h r a b)"
  shows "monotone (fun_ord option_ord) option_ord (\<lambda>r. case x of (a, b) \<Rightarrow> h r a b)"
  using assms by (cases x) simp_all

lemmas mono_rules = seq_mono if_mono' option_case_mono prod_case_mono option.const_mono

lemma readtok_mono:
  assumes "\<And>f s. monotone (fun_ord option_ord) option_ord (\<lambda>r. rec r f s)"
  shows "monotone (fun_ord option_ord) option_ord (\<lambda>r. readtok ops (rec r) s)"
  unfolding readtok_def readtok_name_def readtok_name_at_def Let_def
  by (intro mono_rules assms)

lemma streval_mono:
  assumes "\<And>f s. monotone (fun_ord option_ord) option_ord (\<lambda>r. rec r f s)"
  shows "monotone (fun_ord option_ord) option_ord (\<lambda>r. expr_streval ops (rec r) p sub s)"
  unfolding expr_streval_def Let_def
  by (intro mono_rules assms)

lemma expassign_mono:
  assumes "\<And>f s. monotone (fun_ord option_ord) option_ord (\<lambda>r. rec r f s)"
  shows "monotone (fun_ord option_ord) option_ord (\<lambda>r. expassign ops (rec r) s)"
  unfolding expassign_def Let_def
  by (intro mono_rules assms)

lemmas level_defs = subexpr_def expcomma_def expcomma_loop_def expcond_def explor_def explor_loop_def
  expland_def expland_loop_def expbor_def expbor_loop_def expbxor_def expbxor_loop_def expband_def
  expband_loop_def exp5_def exp5_loop_def exp4_def exp4_loop_def expshift_def expshift_loop_def
  exp3_def exp3_loop_def expmuldiv_def expmuldiv_loop_def exppower_def exppower_loop_def exp1_def
  exp0_def left_loop_def

lemma body_mono [partial_function_mono]:
  assumes "\<And>f s. monotone (fun_ord option_ord) option_ord (\<lambda>r. rec r f s)"
  shows "monotone (fun_ord option_ord) option_ord (\<lambda>r. body ops (rec r) f s)"
  by (cases f; simp only: body_def fn.case; (intro readtok_mono streval_mono expassign_mono assms)?;
      unfold level_defs Let_def; intro mono_rules assms)

partial_function (option) run :: "'e var_ops \<Rightarrow> fn \<Rightarrow> 'e action" where
  "run ops f s = body ops (run ops) f s"

text \<open>
  \<^verbatim>\<open>evalexp\<close>: the value and \<^verbatim>\<open>*validp\<close>. After an error the context stack is unwound, the value is 0 and
  the variables keep what was assigned before the error.
\<close>

definition expr_unwind :: "'e expr_state \<Rightarrow> 'e expr_state" where
  "expr_unwind s = s\<lparr>expr_stack := [], noeval := 0\<rparr>"

definition evalexp :: "'e var_ops \<Rightarrow> cstring \<Rightarrow> 'e expr_state \<Rightarrow> (int \<times> bool \<times> 'e expr_state) option" where
  "evalexp ops expr s =
     Option.bind (run ops (F_subexpr expr) (s\<lparr>noeval := 0\<rparr>))
       (\<lambda>r. case r of
              Returned val s' \<Rightarrow> Some (val, True, s')
            | Jumped _ s' \<Rightarrow> Some (0, False, expr_unwind (s'\<lparr>tokstr := None, expression := []\<rparr>)))"

text \<open>The state of the evaluator when the shell starts.\<close>

definition startup_state :: "'e \<Rightarrow> 'e expr_state" where
  "startup_state e =
     \<lparr>expression = [], tp = 0, lasttp = 0, curtok = T_EOE, lasttok = T_EOE, assigntok = T_EOE, tokstr = None,
      tokval = 0, noeval = 0, curlval = \<lparr>lv_tokstr = None, lv_tokval = 0, lv_ind = -1\<rparr>,
      lastlval = \<lparr>lv_tokstr = None, lv_tokval = 0, lv_ind = -1\<rparr>, expr_stack = [], nextptr = 0, env = e\<rparr>"

text \<open>
  Variables that are a map from names to strings, for concrete evaluations: no arrays, nothing
  readonly, and unset variables count as zero.
\<close>

definition string_vars :: "(cstring \<rightharpoonup> cstring) var_ops" where
  "string_vars = \<lparr>vo_get = (\<lambda>e n _. Some (e n, -1, e)), vo_bind = (\<lambda>e n v. (e(n \<mapsto> v), False)), vo_skip = (\<lambda>_ _ _. 0)\<rparr>"

end
