(* ===== verification/Expr_Safety.thy ===== *)
theory Expr_Safety
  imports Expr
begin

section \<open>Values stay in the range of \<open>intmax_t\<close>\<close>

lemma in_int64_signed: "in_int64 x \<longleftrightarrow> signed_take_bit 63 x = x"
  by (auto simp: in_int64_def signed_take_bit_int_eq_self_iff)

lemma in_int64_bits: "in_int64 x \<longleftrightarrow> (\<forall>n > 63. bit x n = bit x 63)"
proof -
  have "in_int64 x \<longleftrightarrow> (\<forall>n. bit x (min 63 n) = bit x n)"
    by (simp add: in_int64_signed bit_eq_iff bit_simps)
  also have "\<dots> \<longleftrightarrow> (\<forall>n > 63. bit x n = bit x 63)"
    by (metis min.absorb1 min.absorb2 nat_le_linear nat_less_le)
  finally show ?thesis .
qed

lemma in_int64_bitwise [simp]:
  "in_int64 x \<Longrightarrow> in_int64 y \<Longrightarrow> in_int64 (x AND y)"
  "in_int64 x \<Longrightarrow> in_int64 y \<Longrightarrow> in_int64 (x OR y)"
  "in_int64 x \<Longrightarrow> in_int64 y \<Longrightarrow> in_int64 (x XOR y)"
  "in_int64 x \<Longrightarrow> in_int64 (NOT x)"
  by (simp_all add: in_int64_bits bit_simps)

lemma in_int64_small [simp]: "in_int64 0" "in_int64 1" "in_int64 (of_bool_int b)" "in_int64 (shl64 v n)"
  by (simp_all add: in_int64_def of_bool_int_def shl64_def) (simp_all add: wrap64_def in_int64_def)

lemma in_int64_abs: "\<bar>y\<bar> \<le> \<bar>x\<bar> \<Longrightarrow> in_int64 x \<Longrightarrow> y \<noteq> 2 ^ 63 \<Longrightarrow> in_int64 y"
  by (auto simp: in_int64_def)

lemma abs_cquot: "\<bar>cquot a b\<bar> = \<bar>a\<bar> div \<bar>b\<bar>"
  by (cases "a = 0 \<or> b = 0") (auto simp: cquot_def abs_mult abs_sgn_eq pos_imp_zdiv_nonneg_iff)

lemma in_int64_crem [simp]: "in_int64 a \<Longrightarrow> in_int64 b \<Longrightarrow> b \<noteq> 0 \<Longrightarrow> in_int64 (crem a b)"
  using crem_less [of b a] by (auto simp: in_int64_def)

lemma in_int64_cquot [simp]:
  assumes "in_int64 a" "\<not> (a = INTMAX_MIN \<and> b = -1)"
  shows "in_int64 (cquot a b)"
proof (cases "\<bar>b\<bar> \<le> 1")
  case True
  then consider "b = 0" | "b = 1" | "b = -1" by linarith
  then show ?thesis
    using assms by cases (auto simp: cquot_def in_int64_def INTMAX_MIN_def sgn_if)
next
  case False
  then have "\<bar>a\<bar> div \<bar>b\<bar> \<le> \<bar>a\<bar> div 2"
    by (intro zdiv_mono2) auto
  moreover have "\<bar>a\<bar> \<le> 2 ^ 63" using assms(1) by (auto simp: in_int64_def)
  ultimately have "\<bar>cquot a b\<bar> < 2 ^ 63" unfolding abs_cquot by simp
  then show ?thesis by (auto simp: in_int64_def)
qed

lemma in_int64_shr [simp]: "in_int64 v \<Longrightarrow> in_int64 (shr64 v n)"
proof -
  define k where "k = nat (n mod 64)"
  have "bit v (k + m) = bit v 63" if "in_int64 v" "63 \<le> m" for m
    using that unfolding in_int64_bits by (cases "k + m = 63") auto
  then show "in_int64 v \<Longrightarrow> in_int64 (shr64 v n)"
    unfolding shr64_def drop_bit_eq_div [symmetric] k_def [symmetric]
    by (simp add: in_int64_bits [of "drop_bit k v"] bit_drop_bit_eq)
qed

lemma in_int64_ipow_loop [simp]: "in_int64 r \<Longrightarrow> in_int64 (ipow_loop r b n)"
  by (induction r b n rule: ipow_loop.induct) (subst ipow_loop.simps, simp)

lemma in_int64_ipow [simp]: "in_int64 (ipow b n)"
  by (simp add: ipow_def)

lemma in_int64_strlong_loop: "in_int64 v \<Longrightarrow> strlong_loop b fb v s = Inr w \<Longrightarrow> in_int64 w"
  by (induction b fb v s rule: strlong_loop.induct) (auto split: if_splits)

lemma in_int64_strlong: "strlong s = Inr w \<Longrightarrow> in_int64 w"
  by (auto simp: strlong_def split: list.splits if_splits intro: in_int64_strlong_loop [rotated])

lemma in_int64_assign_op:
  "assign_op op l v ne = Inr w \<Longrightarrow> in_int64 l \<Longrightarrow> in_int64 v \<Longrightarrow> in_int64 w"
  by (auto simp: assign_op_def Let_def INTMAX_MIN_def split: tok.splits if_splits)

section \<open>What every call keeps\<close>

text \<open>\<open>wp r Q E\<close>: if the call \<open>r\<close> returns, \<open>Q\<close> holds of the value and the state; if it jumps, \<open>E\<close> of the state.\<close>

definition wp :: "'e res option \<Rightarrow> (int \<Rightarrow> 'e expr_state \<Rightarrow> bool) \<Rightarrow> ('e expr_state \<Rightarrow> bool) \<Rightarrow> bool" where
  "wp r Q E = (case r of None \<Rightarrow> True | Some (Returned v s) \<Rightarrow> Q v s | Some (Jumped _ s) \<Rightarrow> E s)"

lemma wp_simps [simp]:
  "wp (Ret v s) Q E \<longleftrightarrow> Q v s" "wp (Jump e s) Q E \<longleftrightarrow> E s" "wp None Q E"
  "wp (evalerror e s) Q E \<longleftrightarrow> E s"
  "wp (if b then x else y) Q E \<longleftrightarrow> (if b then wp x Q E else wp y Q E)"
  by (simp_all add: wp_def evalerror_def)

lemma wp_seq [simp]: "wp (seq m f s) Q E \<longleftrightarrow> wp (m s) (\<lambda>v s'. wp (f v s') Q E) E"
  by (cases "m s") (auto simp: wp_def seq_def split: res.splits)

text \<open>
  The measure of the text still to read: it goes down with each token. The current token counts, since
  the end of the text is reached only once.
\<close>

definition mu :: "'e expr_state \<Rightarrow> nat" where
  "mu s = 2 * (length (expression s) - tp s) + (if curtok s = T_EOE then 0 else 1)"

definition good :: "'e expr_state \<Rightarrow> bool" where
  "good s \<longleftrightarrow> 0 \<le> noeval s \<and> in_int64 (tokval s)"

definition unevaluated :: "'e expr_state \<Rightarrow> 'e expr_state \<Rightarrow> bool" where
  "unevaluated s s' \<longleftrightarrow> (0 < noeval s \<longrightarrow> env s' = env s)"

definition kept :: "'e expr_state \<Rightarrow> 'e expr_state \<Rightarrow> bool" where
  "kept s s' \<longleftrightarrow> noeval s' = noeval s \<and> expr_stack s' = expr_stack s \<and> expression s' = expression s
     \<and> unevaluated s s' \<and> in_int64 (tokval s') \<and> mu s' \<le> mu s"

fun okfn :: "fn \<Rightarrow> bool" where
  "okfn (F_comma_loop v) = in_int64 v"
| "okfn (F_lor_loop v) = in_int64 v"
| "okfn (F_land_loop v) = in_int64 v"
| "okfn (F_bor_loop v) = in_int64 v"
| "okfn (F_bxor_loop v) = in_int64 v"
| "okfn (F_band_loop v) = in_int64 v"
| "okfn (F_exp5_loop v) = in_int64 v"
| "okfn (F_exp4_loop v) = in_int64 v"
| "okfn (F_shift_loop v) = in_int64 v"
| "okfn (F_exp3_loop v) = in_int64 v"
| "okfn (F_muldiv_loop v) = in_int64 v"
| "okfn (F_power_loop v) = in_int64 v"
| "okfn _ = True"

definition post :: "fn \<Rightarrow> 'e expr_state \<Rightarrow> int \<Rightarrow> 'e expr_state \<Rightarrow> bool" where
  "post f s v s' \<longleftrightarrow> kept s s' \<and> in_int64 v \<and> (f = F_readtok \<and> curtok s \<noteq> T_EOE \<longrightarrow> mu s' < mu s)"

definition spec :: "(fn \<Rightarrow> 'e action) \<Rightarrow> bool" where
  "spec rec \<longleftrightarrow> (\<forall>f s. good s \<longrightarrow> okfn f \<longrightarrow> wp (rec f s) (post f s) (unevaluated s))"

lemma wp_call:
  assumes "spec rec" "good s" "okfn f"
    and "\<And>v s'. post f s v s' \<Longrightarrow> Q v s'"
    and "\<And>s'. unevaluated s s' \<Longrightarrow> E s'"
  shows "wp (rec f s) Q E"
  using assms unfolding spec_def wp_def by (fastforce split: option.splits res.splits)

lemma span_from_less: "i < length ex \<Longrightarrow> P (char_at ex i) \<Longrightarrow> i < span_from P ex i"
  by (cases "drop i ex") (auto simp: span_from_def char_at_def hd_drop_conv_nth [symmetric])

lemma span_from_ge: "i \<le> span_from P ex i"
  by (simp add: span_from_def)

text \<open>Reading a token that starts at \<^verbatim>\<open>tp\<close>.\<close>

definition token_read :: "'e expr_state \<Rightarrow> int \<Rightarrow> 'e expr_state \<Rightarrow> bool" where
  "token_read s v s' \<longleftrightarrow> v = 0 \<and> noeval s' = noeval s \<and> expr_stack s' = expr_stack s \<and> expression s' = expression s
     \<and> unevaluated s s' \<and> in_int64 (tokval s') \<and> mu s' < 2 * (length (expression s) - tp s)"

lemma mu_set_token:
  "tp s < length (expression s') \<Longrightarrow> tp s < j \<Longrightarrow> mu (set_token t j s') < 2 * (length (expression s') - tp s)"
  by (auto simp: mu_def set_token_def)

lemma mu_token: "mu (set_token t j s) = 2 * (length (expression s) - j) + (if t = T_EOE then 0 else 1)"
  by (simp add: mu_def set_token_def)

lemma set_token_simps [simp]:
  "noeval (set_token t j s) = noeval s" "expr_stack (set_token t j s) = expr_stack s"
  "expression (set_token t j s) = expression s" "env (set_token t j s) = env s"
  "tokval (set_token t j s) = tokval s" "curtok (set_token t j s) = t" "tp (set_token t j s) = j"
  by (simp_all add: set_token_def)

lemma wp_mono:
  "wp r Q E \<Longrightarrow> (\<And>v s. Q v s \<Longrightarrow> Q' v s) \<Longrightarrow> (\<And>s. E s \<Longrightarrow> E' s) \<Longrightarrow> wp r Q' E'"
  by (auto simp: wp_def split: option.splits res.splits)

lemma readtok_number_spec:
  assumes "good s" "tp s < length (expression s)" "ISDIGIT (char_at (expression s) (tp s))"
  shows "wp (readtok_number s) (token_read s) (unevaluated s)"
proof -
  have "tp s < span_from (\<lambda>c. ISALNUM c \<or> c = CHR ''#'' \<or> c = CHR ''@'' \<or> c = CHR ''_'') (expression s) (tp s)"
    using assms(2,3) by (intro span_from_less) (auto simp: ISALNUM_def)
  then show ?thesis
    using assms(2) mu_set_token [of s "s\<lparr>tokval := v\<rparr>" for v]
    by (auto simp: readtok_number_def Let_def token_read_def unevaluated_def in_int64_strlong split: sum.splits)
qed

lemma lex_op_progress: "lex_op ex i cur prev = Inr (t, n, a) \<Longrightarrow> 0 < n"
  by (auto simp: lex_op_def lex_chars_def split: if_splits option.splits)

lemma readtok_op_spec:
  assumes "good s" "tp s < length (expression s)"
  shows "wp (readtok_op s) (token_read s) (unevaluated s)"
proof (cases "lex_op (expression s) (tp s) (curtok s) (lasttok s)")
  case (Inl e)
  then show ?thesis by (simp add: readtok_op_def unevaluated_def)
next
  case (Inr r)
  obtain t j a where r: "r = (t, j, a)" by (cases r)
  have "tp s < tp s + j" using Inr r lex_op_progress by auto
  then show ?thesis
    using assms mu_set_token [of s s "tp s + j" t] mu_set_token [of s "s\<lparr>assigntok := b\<rparr>" "tp s + j" t for b] Inr r
    by (auto simp: readtok_op_def token_read_def unevaluated_def good_def split: option.splits)
qed

lemma RESTORETOK_simps [simp]:
  "expression (RESTORETOK c s) = expression s" "expr_stack (RESTORETOK c s) = expr_stack s"
  "env (RESTORETOK c s) = env s" "noeval (RESTORETOK c s) = ec_noeval c" "tokval (RESTORETOK c s) = ec_tokval c"
  "tp (RESTORETOK c s) = ec_tp c" "curtok (RESTORETOK c s) = ec_curtok c" "lasttok (RESTORETOK c s) = ec_lasttok c"
  by (simp_all add: RESTORETOK_def)

lemma SAVETOK_simps [simp]:
  "ec_noeval (SAVETOK s) = noeval s" "ec_tokval (SAVETOK s) = tokval s" "ec_tp (SAVETOK s) = tp s"
  "ec_curtok (SAVETOK s) = curtok s" "ec_expression (SAVETOK s) = expression s" "ec_lasttok (SAVETOK s) = lasttok s"
  by (simp_all add: SAVETOK_def)

lemma forget_lvalue_simps [simp]:
  "expression (forget_lvalue s) = expression s" "expr_stack (forget_lvalue s) = expr_stack s"
  "env (forget_lvalue s) = env s" "noeval (forget_lvalue s) = noeval s" "tokval (forget_lvalue s) = tokval s"
  "tp (forget_lvalue s) = tp s" "curtok (forget_lvalue s) = curtok s" "lasttok (forget_lvalue s) = lasttok s"
  "nextptr (forget_lvalue s) = nextptr s" "lv_ind (curlval s) = -1 \<Longrightarrow> lv_ind (curlval (forget_lvalue s)) = -1"
  by (simp_all add: forget_lvalue_def init_lvalue_def)

lemmas keep_defs = good_def post_def kept_def unevaluated_def

lemma readtok_name_at_spec:
  assumes "spec rec" "good s" "tp s < length (expression s)" "tp s < i"
  shows "wp (readtok_name_at ops rec i sub s) (token_read s) (unevaluated s)"
  using assms(2-)
  unfolding readtok_name_at_def Let_def
  by (auto intro!: wp_call [OF assms(1)] simp: keep_defs token_read_def mu_token)

lemma readtok_name_spec:
  assumes "spec rec" "good s" "tp s < length (expression s)" "legal_variable_starter (char_at (expression s) (tp s))"
  shows "wp (readtok_name ops rec s) (token_read s) (unevaluated s)"
proof -
  have "tp s < span_from legal_variable_char (expression s) (tp s)"
    using assms(3,4)
    by (intro span_from_less) (auto simp: legal_variable_starter_def legal_variable_char_def ISALNUM_def)
  then show ?thesis
    using assms unfolding readtok_name_def Let_def
    by (auto intro!: readtok_name_at_spec simp: unevaluated_def)
qed

lemma readtok_spec: "spec rec \<Longrightarrow> good s \<Longrightarrow> wp (readtok ops rec s) (post F_readtok s) (unevaluated s)"
proof -
  assume s: "spec rec" "good s"
  define i where "i = span_from cr_whitespace (expression s) (tp s)"
  define s' where "s' = s\<lparr>tp := i, lasttp := i\<rparr>"
  have i: "tp s \<le> i" by (simp add: i_def span_from_ge)
  show ?thesis
  proof (cases "char_at (expression s) i = NUL")
    case True
    with i s show ?thesis
      by (auto simp: readtok_def Let_def i_def [symmetric] keep_defs mu_token) (auto simp: mu_def)
  next
    case False
    then have l: "i < length (expression s)" by (auto simp: char_at_def split: if_splits)
    have g: "good s'" using s(2) by (simp add: s'_def good_def)
    have q: "token_read s' v t \<Longrightarrow> post F_readtok s v t" for v t
      using i by (auto simp: token_read_def keep_defs s'_def mu_def)
    have u: "unevaluated s' = unevaluated s" by (auto simp: s'_def unevaluated_def)
    have t: "tp s' < length (expression s')" "char_at (expression s') (tp s') = char_at (expression s) i"
      using l by (simp_all add: s'_def)
    have "readtok ops rec s = (if legal_variable_starter (char_at (expression s) i) then readtok_name ops rec s'
            else if ISDIGIT (char_at (expression s) i) then readtok_number s' else readtok_op s')"
      using False by (simp add: readtok_def Let_def i_def s'_def)
    then have "wp (readtok ops rec s) (token_read s') (unevaluated s')"
      using readtok_name_spec [OF s(1) g t(1)] readtok_number_spec [OF g t(1)] readtok_op_spec [OF g t(1)]
      unfolding t(2) by simp
    then show ?thesis using q unfolding u by (auto simp: wp_def split: option.splits res.splits)
  qed
qed

lemma mu_update [simp]:
  "mu (s\<lparr>lasttok := t\<rparr>) = mu s" "mu (s\<lparr>noeval := n\<rparr>) = mu s" "mu (s\<lparr>env := e\<rparr>) = mu s"
  "mu (s\<lparr>tokstr := p\<rparr>) = mu s" "mu (s\<lparr>curlval := l\<rparr>) = mu s" "mu (s\<lparr>tokval := v\<rparr>) = mu s"
  "mu (s\<lparr>lastlval := l\<rparr>) = mu s" "mu (forget_lvalue s) = mu s" "mu (RESTORETOK (SAVETOK s) (s'\<lparr>expression := expression s, expr_stack := st\<rparr>)) = mu s"
  by (simp_all add: mu_def)

lemma mu_curtok [simp]: "curtok s \<noteq> T_EOE \<Longrightarrow> t \<noteq> T_EOE \<Longrightarrow> mu (s\<lparr>curtok := t\<rparr>) = mu s"
  by (simp add: mu_def)

lemma mu_restore: "expression s' = expression s \<Longrightarrow> mu (RESTORETOK (SAVETOK s) s') = mu s"
  by (simp add: mu_def)

lemma bind_variable_spec:
  "noeval s = 0 \<Longrightarrow> (\<And>e. Q 0 (s\<lparr>env := e\<rparr>)) \<Longrightarrow> Q 0 s \<Longrightarrow> (\<And>s'. E s') \<Longrightarrow> wp (expr_bind_variable ops lhs rhs s) Q E"
  by (auto simp: expr_bind_variable_def split: prod.splits)

lemma bind_array_element_spec:
  "noeval s = 0 \<Longrightarrow> (\<And>e. Q 0 (s\<lparr>env := e\<rparr>)) \<Longrightarrow> Q 0 s \<Longrightarrow> (\<And>s'. E s') \<Longrightarrow>
   wp (expr_bind_array_element ops lhs i rhs s) Q E"
  by (simp add: expr_bind_array_element_def Let_def bind_variable_spec)

lemma bind_incdec_spec:
  "(\<And>e. noeval s = 0 \<Longrightarrow> Q 0 (s\<lparr>env := e\<rparr>)) \<Longrightarrow> Q 0 s \<Longrightarrow> (\<And>s'. noeval s = 0 \<Longrightarrow> E s') \<Longrightarrow>
   wp (bind_incdec ops v s) Q E"
  by (auto simp: bind_incdec_def intro!: bind_variable_spec bind_array_element_spec split: option.split)

lemma assign_rhs_spec:
  assumes "good s" "in_int64 l" "in_int64 v"
  shows "wp (expassign_rhs ops sp op l lhs i v s) (\<lambda>v s'. kept s s' \<and> in_int64 v) (unevaluated s)"
  using assms
  by (auto simp: expassign_rhs_def Let_def keep_defs in_int64_assign_op
      intro!: bind_variable_spec bind_array_element_spec split: sum.splits)

lemma left_loop_spec:
  assumes "spec rec" "good s" "in_int64 v" "okfn operand" "\<And>w. okfn (loop w) = in_int64 w" "T_EOE \<notin> set isop"
    and "\<And>op v w. in_int64 v \<Longrightarrow> in_int64 w \<Longrightarrow> in_int64 (combine op v w)"
  shows "wp (left_loop rec isop operand loop combine v s) (\<lambda>v s'. kept s s' \<and> in_int64 v) (unevaluated s)"
  using assms(2-) unfolding left_loop_def Let_def
  by (auto intro!: wp_call [OF assms(1)] simp: keep_defs)

lemma assign_spec:
  assumes "spec rec" "good s"
  shows "wp (expassign ops rec s) (\<lambda>v s'. kept s s' \<and> in_int64 v) (unevaluated s)"
  using assms(2-) unfolding expassign_def Let_def
  by (auto intro!: wp_call [OF assms(1)] wp_mono [OF assign_rhs_spec] simp: keep_defs split: option.split)

lemma cond_spec:
  assumes "spec rec" "good s"
  shows "wp (expcond rec s) (\<lambda>v s'. kept s s' \<and> in_int64 v) (unevaluated s)"
  using assms(2-) unfolding expcond_def Let_def
  by (auto intro!: wp_call [OF assms(1)] simp: keep_defs)

lemma streval_spec:
  assumes "spec rec" "good s"
  shows "wp (expr_streval ops rec p sub s) (\<lambda>v s'. kept s s' \<and> in_int64 v) (unevaluated s)"
  using assms(2-) unfolding expr_streval_def Let_def
  by (auto intro!: wp_call [OF assms(1)] simp: keep_defs split: option.split)

lemma subexpr_spec:
  assumes "spec rec" "good s"
  shows "wp (subexpr rec ex s) (\<lambda>v s'. kept s s' \<and> in_int64 v) (unevaluated s)"
  using assms(2-) unfolding subexpr_def Let_def
  by (auto intro!: wp_call [OF assms(1)] simp: keep_defs pushexp_def popexp_def split: list.split)

lemma exp0_spec:
  assumes "spec rec" "good s"
  shows "wp (exp0 ops rec s) (\<lambda>v s'. kept s s' \<and> in_int64 v) (unevaluated s)"
  using assms(2-) unfolding exp0_def Let_def
  by (auto intro!: wp_call [OF assms(1)] bind_incdec_spec simp: keep_defs mu_restore)

lemma muldiv_loop_spec:
  assumes "spec rec" "good s" "in_int64 v"
  shows "wp (expmuldiv_loop rec v s) (\<lambda>v s'. kept s s' \<and> in_int64 v) (unevaluated s)"
  using assms(2-) unfolding expmuldiv_loop_def Let_def
  by (auto intro!: wp_call [OF assms(1)] simp: keep_defs INTMAX_MIN_def)

lemma level_loop_spec:
  assumes "spec rec" "good s" "okfn g" "\<And>v. in_int64 v \<Longrightarrow> okfn (h v)"
  shows "wp (seq (rec g) (\<lambda>v. rec (h v)) s) (\<lambda>v s'. kept s s' \<and> in_int64 v) (unevaluated s)"
  using assms(2-) by (auto intro!: wp_call [OF assms(1)] simp: keep_defs)

lemma post_other: "f \<noteq> F_readtok \<Longrightarrow> post f s = (\<lambda>v s'. kept s s' \<and> in_int64 v)"
  by (simp add: post_def fun_eq_iff)

lemma body_spec: "spec rec \<Longrightarrow> spec (body ops rec)"
  unfolding spec_def [of "body ops rec"]
proof (intro allI impI)
  fix f and s :: "'a expr_state"
  assume rec: "spec rec" and s: "good s" "okfn f"
  show "wp (body ops rec f s) (post f s) (unevaluated s)"
  proof (cases f)
    case F_readtok
    then show ?thesis using readtok_spec [OF rec s(1)] by (simp add: body_def)
  next
    case (F_comma_loop x)
    with s show ?thesis
      by (auto simp: body_def post_other expcomma_loop_def intro!: wp_call [OF rec] simp: keep_defs)
  next
    case (F_lor_loop x)
    with s show ?thesis
      by (auto simp: body_def post_other explor_loop_def Let_def intro!: wp_call [OF rec] simp: keep_defs)
  next
    case (F_land_loop x)
    with s show ?thesis
      by (auto simp: body_def post_other expland_loop_def Let_def intro!: wp_call [OF rec] simp: keep_defs)
  next
    case (F_power_loop x)
    with s show ?thesis
      by (auto simp: body_def post_other exppower_loop_def Let_def intro!: wp_call [OF rec] simp: keep_defs)
  next
    case F_exp1
    with s show ?thesis
      by (auto simp: body_def post_other exp1_def Let_def intro!: wp_call [OF rec] simp: keep_defs)
  qed (use s in \<open>auto simp: body_def post_other expcomma_def explor_def expland_def expbor_def expbxor_def
        expband_def exp5_def exp4_def expshift_def exp3_def expmuldiv_def exppower_def
        expbor_loop_def expbxor_loop_def expband_loop_def exp5_loop_def exp4_loop_def expshift_loop_def
        exp3_loop_def simp del: wp_seq
        intro!: level_loop_spec [OF rec] left_loop_spec [OF rec] muldiv_loop_spec [OF rec] exp0_spec [OF rec]
          streval_spec [OF rec] subexpr_spec [OF rec] cond_spec [OF rec] assign_spec [OF rec]\<close>)
qed

lemma run_spec:
  assumes "good s" "okfn f"
  shows "wp (run ops f s) (post f s) (unevaluated s)"
proof (cases "run ops f s")
  case (Some r)
  have "good s \<longrightarrow> okfn f \<longrightarrow> wp (Some r) (post f s) (unevaluated s)"
  proof (rule run.raw_induct [OF _ Some,
        where P = "\<lambda>ops f s r. good s \<longrightarrow> okfn f \<longrightarrow> wp (Some r) (post f s) (unevaluated s)"])
    fix run :: "'a var_ops \<Rightarrow> fn \<Rightarrow> 'a action" and ops f and s :: "'a expr_state" and r
    assume IH: "\<And>ops f s r. run ops f s = Some r \<Longrightarrow> good s \<longrightarrow> okfn f \<longrightarrow> wp (Some r) (post f s) (unevaluated s)"
      and r: "body ops (run ops) f s = Some r"
    have "spec (run ops)"
      unfolding spec_def
    proof (intro allI impI)
      fix f and s :: "'a expr_state" assume "good s" "okfn f"
      then show "wp (run ops f s) (post f s) (unevaluated s)"
        using IH [of ops f s] by (cases "run ops f s") auto
    qed
    from body_spec [OF this] r show "good s \<longrightarrow> okfn f \<longrightarrow> wp (Some r) (post f s) (unevaluated s)"
      unfolding spec_def by metis
  qed
  with Some assms show ?thesis by simp
qed simp

section \<open>Every evaluation ends\<close>

text \<open>
  The measure of a call: how many contexts may still be pushed, the text still to read, and the place of
  the function in the chain of calls that read nothing.
\<close>

fun rank :: "fn \<Rightarrow> nat" where
  "rank (F_subexpr _) = 1"
| "rank (F_streval _ _) = 2"
| "rank F_readtok = 3"
| "rank F_exp0 = 5"
| "rank F_exp1 = 6"
| "rank F_power = 7"
| "rank F_muldiv = 8"
| "rank F_exp3 = 9"
| "rank F_shift = 10"
| "rank F_exp4 = 11"
| "rank F_exp5 = 12"
| "rank F_band = 13"
| "rank F_bxor = 14"
| "rank F_bor = 15"
| "rank F_land = 16"
| "rank F_lor = 17"
| "rank F_cond = 18"
| "rank F_assign = 19"
| "rank F_comma = 20"
| "rank _ = 4"

definition call_order :: "((fn \<times> 'e expr_state) \<times> (fn \<times> 'e expr_state)) set" where
  "call_order = measures [\<lambda>(f, s). MAX_EXPR_RECURSION_LEVEL - length (expr_stack s), \<lambda>(f, s). mu s, \<lambda>(f, s). rank f]"

lemma wf_call_order: "wf call_order"
  by (simp add: call_order_def)

text \<open>\<open>twp r Q\<close>: the call ends, and \<open>Q\<close> holds if it returns.\<close>

definition twp :: "'e res option \<Rightarrow> (int \<Rightarrow> 'e expr_state \<Rightarrow> bool) \<Rightarrow> bool" where
  "twp r Q = (case r of None \<Rightarrow> False | Some (Returned v s) \<Rightarrow> Q v s | Some (Jumped _ _) \<Rightarrow> True)"

lemma twp_simps [simp]:
  "twp (Ret v s) Q \<longleftrightarrow> Q v s" "twp (Jump e s) Q" "twp (evalerror e s) Q"
  "twp (if b then x else y) Q \<longleftrightarrow> (if b then twp x Q else twp y Q)"
  by (simp_all add: twp_def evalerror_def)

lemma twp_seq [simp]: "twp (seq m f s) Q \<longleftrightarrow> twp (m s) (\<lambda>v s'. twp (f v s') Q)"
  by (cases "m s") (auto simp: twp_def seq_def split: res.splits)

lemma twp_wp: "r \<noteq> None \<Longrightarrow> wp r Q E \<Longrightarrow> twp r Q"
  by (auto simp: twp_def wp_def split: res.splits)

lemma twp_ends: "twp r (\<lambda>v s. True) \<longleftrightarrow> r \<noteq> None"
  by (auto simp: twp_def split: option.splits res.splits)

text \<open>The calls that \<open>f\<close> makes from \<open>s\<close> are smaller and end.\<close>

definition below_end :: "'e var_ops \<Rightarrow> fn \<Rightarrow> 'e expr_state \<Rightarrow> bool" where
  "below_end ops f s \<longleftrightarrow> (\<forall>g t. ((g, t), (f, s)) \<in> call_order \<longrightarrow> good t \<longrightarrow> okfn g \<longrightarrow> run ops g t \<noteq> None)"

lemma twp_call:
  assumes "below_end ops f s" "good t" "okfn g"
    and "MAX_EXPR_RECURSION_LEVEL - length (expr_stack t) < MAX_EXPR_RECURSION_LEVEL - length (expr_stack s)
      \<or> expr_stack t = expr_stack s \<and> (mu t < mu s \<or> mu t = mu s \<and> rank g < rank f)"
    and "\<And>v s'. post g t v s' \<Longrightarrow> Q v s'"
  shows "twp (run ops g t) Q"
proof (rule twp_wp)
  have "((g, t), (f, s)) \<in> call_order"
    using assms(4) by (auto simp: call_order_def)
  with assms(1-3) show "run ops g t \<noteq> None" by (simp add: below_end_def)
  show "wp (run ops g t) Q (unevaluated t)"
    using run_spec [OF assms(2,3)] assms(5) by (rule wp_mono) auto
qed

lemma bind_variable_ends:
  "(\<And>e. Q 0 (s\<lparr>env := e\<rparr>)) \<Longrightarrow> Q 0 s \<Longrightarrow> twp (expr_bind_variable ops lhs rhs s) Q"
  by (auto simp: expr_bind_variable_def split: prod.splits)

lemma bind_array_element_ends:
  "(\<And>e. Q 0 (s\<lparr>env := e\<rparr>)) \<Longrightarrow> Q 0 s \<Longrightarrow> twp (expr_bind_array_element ops lhs i rhs s) Q"
  by (simp add: expr_bind_array_element_def Let_def bind_variable_ends)

lemma bind_incdec_ends:
  "(\<And>e. Q 0 (s\<lparr>env := e\<rparr>)) \<Longrightarrow> Q 0 s \<Longrightarrow> twp (bind_incdec ops v s) Q"
  by (auto simp: bind_incdec_def intro!: bind_variable_ends bind_array_element_ends split: option.split)

lemma assign_rhs_ends: "twp (expassign_rhs ops sp op l lhs i v s) (\<lambda>_ _. True)"
  by (auto simp: expassign_rhs_def Let_def intro!: bind_variable_ends bind_array_element_ends split: sum.splits)

lemma left_loop_ends:
  assumes "below_end ops f s" "rank f = 4" "good s" "in_int64 v" "okfn operand" "\<And>w. okfn (loop w) = in_int64 w"
    and "T_EOE \<notin> set isop" "\<And>op v w. in_int64 v \<Longrightarrow> in_int64 w \<Longrightarrow> in_int64 (combine op v w)"
  shows "twp (left_loop (run ops) isop operand loop combine v s) (\<lambda>_ _. True)"
  using assms(2-) unfolding left_loop_def Let_def
  by (auto intro!: twp_call [OF assms(1)] simp: keep_defs)

lemma exp0_ends:
  assumes "below_end ops F_exp0 s" "good s"
  shows "twp (exp0 ops (run ops) s) (\<lambda>_ _. True)"
  using assms(2-) unfolding exp0_def Let_def
  by (auto intro!: twp_call [OF assms(1)] bind_incdec_ends simp: keep_defs mu_restore)

lemma readtok_name_at_ends:
  assumes "below_end ops F_readtok s0" "good s" "tp s < length (expression s)" "tp s < i"
    and "expression s = expression s0" "expr_stack s = expr_stack s0" "tp s0 \<le> tp s" "curtok s = curtok s0"
  shows "twp (readtok_name_at ops (run ops) i sub s) (\<lambda>_ _. True)"
  using assms(2-) unfolding readtok_name_at_def Let_def
  by (auto intro!: twp_call [OF assms(1)] simp: keep_defs) (auto simp: mu_def)

lemma readtok_ends:
  assumes "below_end ops F_readtok s" "good s"
  shows "twp (readtok ops (run ops) s) (\<lambda>_ _. True)"
proof -
  define i where "i = span_from cr_whitespace (expression s) (tp s)"
  define s' where "s' = s\<lparr>tp := i, lasttp := i\<rparr>"
  have i: "tp s \<le> i" by (simp add: i_def span_from_ge)
  have *: "twp (readtok_name_at ops (run ops) j sub s') (\<lambda>_ _. True)" if "i < length (expression s)" "i < j" for j sub
    using that i assms(2) by (intro readtok_name_at_ends [OF assms(1)]) (auto simp: s'_def good_def)
  have "i < span_from legal_variable_char (expression s) i"
    if "i < length (expression s)" "legal_variable_starter (char_at (expression s) i)"
    using that
    by (intro span_from_less) (auto simp: legal_variable_starter_def legal_variable_char_def ISALNUM_def)
  then have "twp (readtok_name ops (run ops) s') (\<lambda>_ _. True)"
    if "i < length (expression s)" "legal_variable_starter (char_at (expression s) i)"
    using that * by (auto simp: readtok_name_def Let_def) (auto simp: s'_def)
  moreover have "twp (readtok_number s') (\<lambda>_ _. True)" "twp (readtok_op s') (\<lambda>_ _. True)"
    by (auto simp: readtok_number_def readtok_op_def Let_def split: sum.splits)
  moreover have "i < length (expression s)" if "char_at (expression s) i \<noteq> NUL"
    using that by (auto simp: char_at_def split: if_splits)
  ultimately show ?thesis
    by (auto simp: readtok_def Let_def i_def [symmetric] s'_def [symmetric])
qed

lemma streval_ends:
  assumes "below_end ops (F_streval p sub) s" "good s"
  shows "twp (expr_streval ops (run ops) p sub s) (\<lambda>_ _. True)"
  using assms(2-) unfolding expr_streval_def Let_def
  by (auto intro!: twp_call [OF assms(1)] simp: keep_defs split: option.split)

lemma popexp_ends [simp]: "twp (popexp s) (\<lambda>_ _. True)"
  by (simp add: popexp_def split: list.split)

lemma subexpr_ends:
  assumes "below_end ops (F_subexpr ex) s" "good s"
  shows "twp (subexpr (run ops) ex s) (\<lambda>_ _. True)"
  using assms(2-) unfolding subexpr_def Let_def
  by (auto intro!: twp_call [OF assms(1)] simp: keep_defs pushexp_def)

lemma level_loop_ends:
  assumes "below_end ops f s" "good s" "okfn g" "\<And>v. in_int64 v \<Longrightarrow> okfn (h v)" "rank g < rank f" "\<And>v. rank (h v) < rank f"
  shows "twp (seq (run ops g) (\<lambda>v. run ops (h v)) s) (\<lambda>_ _. True)"
  using assms(2-) by (auto intro!: twp_call [OF assms(1)] simp: keep_defs)

lemma assign_ends:
  assumes "below_end ops F_assign s" "good s"
  shows "twp (expassign ops (run ops) s) (\<lambda>_ _. True)"
  using assms(2-) unfolding expassign_def Let_def
  by (auto intro!: twp_call [OF assms(1)] assign_rhs_ends simp: keep_defs split: option.split)

lemma cond_ends:
  assumes "below_end ops F_cond s" "good s"
  shows "twp (expcond (run ops) s) (\<lambda>_ _. True)"
  using assms(2-) unfolding expcond_def Let_def
  by (auto intro!: twp_call [OF assms(1)] simp: keep_defs)

lemma body_ends:
  assumes b: "below_end ops f s" and s: "good s" "okfn f"
  shows "twp (body ops (run ops) f s) (\<lambda>_ _. True)"
proof (cases f)
  case (F_comma_loop x)
  with s b show ?thesis
    by (auto simp: body_def expcomma_loop_def intro!: twp_call [OF b] simp: keep_defs)
next
  case (F_lor_loop x)
  with s b show ?thesis
    by (auto simp: body_def explor_loop_def Let_def intro!: twp_call [OF b] simp: keep_defs)
next
  case (F_land_loop x)
  with s b show ?thesis
    by (auto simp: body_def expland_loop_def Let_def intro!: twp_call [OF b] simp: keep_defs)
next
  case (F_muldiv_loop x)
  with s b show ?thesis
    by (auto simp: body_def expmuldiv_loop_def Let_def INTMAX_MIN_def intro!: twp_call [OF b] simp: keep_defs)
next
  case (F_power_loop x)
  with s b show ?thesis
    by (auto simp: body_def exppower_loop_def Let_def intro!: twp_call [OF b] simp: keep_defs)
next
  case F_exp1
  with s b show ?thesis
    by (auto simp: body_def exp1_def Let_def intro!: twp_call [OF b] simp: keep_defs)
qed (use s b in \<open>auto simp: body_def expcomma_def explor_def expland_def expbor_def expbxor_def
      expband_def exp5_def exp4_def expshift_def exp3_def expmuldiv_def exppower_def
      expbor_loop_def expbxor_loop_def expband_loop_def exp5_loop_def exp4_loop_def expshift_loop_def
      exp3_loop_def simp del: twp_seq
      intro!: level_loop_ends [OF b] left_loop_ends [OF b] exp0_ends readtok_ends
        streval_ends subexpr_ends cond_ends assign_ends\<close>)

lemma run_ends: "good s \<Longrightarrow> okfn f \<Longrightarrow> run ops f s \<noteq> None"
proof (induction "(f, s)" arbitrary: f s rule: wf_induct_rule [OF wf_call_order])
  case 1
  then have "below_end ops f s" unfolding below_end_def by blast
  from body_ends [OF this] 1 show ?case by (simp add: run.simps twp_ends)
qed


lemma evalexp_ends: "in_int64 (tokval s) \<Longrightarrow> \<exists>v valid s'. evalexp ops expr s = Some (v, valid, s')"
proof -
  assume "in_int64 (tokval s)"
  then have "run ops (F_subexpr expr) (s\<lparr>noeval := 0\<rparr>) \<noteq> None"
    by (intro run_ends) (auto simp: good_def)
  then show ?thesis by (auto simp: evalexp_def split: res.splits)
qed

lemma startup_in_range [simp]: "in_int64 (tokval (startup_state e))"
  by (simp add: startup_state_def)


section \<open>Properties\<close>

text \<open>
  C17. Arithmetic evaluation always ends, whatever the expression and whatever expressions the variables
  hold: a variable that refers to itself runs into the limit on nested contexts.
\<close>

theorem evalexp_terminates:
  assumes "in_int64 (tokval s)"
  shows "\<exists>v valid s'. evalexp ops expr s = Some (v, valid, s')"
  using assms by (rule evalexp_ends)

theorem evalexp_terminates_witness:
  "\<exists>v valid s'. evalexp string_vars ''x'' (startup_state [''x'' \<mapsto> ''x + 1'']) = Some (v, valid, s')"
  by (rule evalexp_terminates) (rule startup_in_range)

text \<open>
  C32. Whatever it is given, the evaluator returns a value of \<^verbatim>\<open>intmax_t\<close>, and leaves its own state as it
  should be: evaluation is not suppressed, and the stack of contexts is what it was, or empty after an
  error, when the value is 0.
\<close>

theorem evalexp_sound_state:
  assumes "in_int64 (tokval s)" "evalexp ops expr s = Some (v, valid, s')"
  shows "in_int64 v \<and> noeval s' = 0 \<and> (valid \<longrightarrow> expr_stack s' = expr_stack s \<and> expression s' = expression s)
     \<and> (\<not> valid \<longrightarrow> expr_stack s' = [] \<and> v = 0)"
  using assms(2) run_spec [of "s\<lparr>noeval := 0\<rparr>" "F_subexpr expr" ops] assms(1)
  by (auto simp: evalexp_def wp_def post_def kept_def good_def expr_unwind_def split: bind_splits res.splits)

theorem evalexp_sound_state_witness:
  "\<exists>v valid s'. evalexp string_vars ''3 / x'' (startup_state [''x'' \<mapsto> ''0'']) = Some (v, valid, s') \<and> in_int64 v
     \<and> noeval s' = 0"
proof -
  obtain v valid s' where r: "evalexp string_vars ''3 / x'' (startup_state [''x'' \<mapsto> ''0'']) = Some (v, valid, s')"
    using evalexp_ends [OF startup_in_range, of string_vars "''3 / x''" "[''x'' \<mapsto> ''0'']"] by blast
  with evalexp_sound_state [OF startup_in_range r] show ?thesis by blast
qed

text \<open>
  C18. Operands that are skipped have no effect: while evaluation is suppressed, no function of the
  evaluator changes a variable, whether it returns or reports an error, and suppression is back at its
  level when it returns.
\<close>

theorem suppressed_no_effect:
  assumes "0 < noeval s" "in_int64 (tokval s)" "okfn f"
  shows "\<exists>s'. env s' = env s \<and> ((\<exists>e. run ops f s = Jump e s') \<or> (\<exists>v. run ops f s = Ret v s' \<and> noeval s' = noeval s))"
  using run_ends [of s f ops] run_spec [of s f ops] assms
  by (cases "run ops f s") (auto simp: wp_def keep_defs split: res.splits)

theorem suppressed_no_effect_witness:
  "\<exists>s'. env s' = [''x'' \<mapsto> ''1''] \<and>
     ((\<exists>e. run string_vars (F_subexpr ''x = 7, x++'') ((startup_state [''x'' \<mapsto> ''1''])\<lparr>noeval := 1\<rparr>) = Jump e s') \<or>
      (\<exists>v. run string_vars (F_subexpr ''x = 7, x++'') ((startup_state [''x'' \<mapsto> ''1''])\<lparr>noeval := 1\<rparr>) = Ret v s'
         \<and> noeval s' = 1))"
  using suppressed_no_effect [of "(startup_state [''x'' \<mapsto> ''1''])\<lparr>noeval := 1\<rparr>" "F_subexpr ''x = 7, x++''" string_vars]
  by (simp add: startup_state_def)

end
