(* ===== verification/Expr_Num.thy ===== *)
theory Expr_Num
  imports Expr_Safety
begin

text \<open>
  Numbers of the arithmetic evaluator: exponentiation is exact modulo \<open>2 ^ 64\<close>, what \<^verbatim>\<open>fmtulong\<close> prints in
  any base is read back by \<^verbatim>\<open>strlong\<close>, and the buffers of \<^verbatim>\<open>itos\<close> suffice.
\<close>

section \<open>Lemmas\<close>

lemma ipow_loop_eq: "in_int64 r \<Longrightarrow> ipow_loop r b n = wrap64 (r * b ^ n)"
proof (induction r b n rule: ipow_loop.induct)
  case (1 r b n)
  show ?case
  proof (cases "n = 0")
    case True
    with 1(2) show ?thesis by (simp add: ipow_loop.simps)
  next
    case False
    have sq: "(wrap64 (b * b)) ^ k mod 2 ^ 64 = (b * b) ^ k mod 2 ^ 64" for k
      by (metis power_mod wrap64_mod)
    have n: "b ^ n = (if odd n then b else 1) * (b * b) ^ (n div 2)"
      by (cases "odd n") (auto elim!: oddE evenE simp: power_mult power2_eq_square)
    have "ipow_loop r b n = wrap64 ((if odd n then wrap64 (r * b) else r) * wrap64 (b * b) ^ (n div 2))"
      using False 1 by (subst ipow_loop.simps) simp
    also have "\<dots> = wrap64 ((if odd n then r * b else r) * wrap64 (b * b) ^ (n div 2))"
      by (simp add: wrap64_mult_left)
    also have "\<dots> = wrap64 ((if odd n then r * b else r) * (b * b) ^ (n div 2))"
      unfolding wrap64_cong by (metis mod_mult_right_eq sq)
    also have "\<dots> = wrap64 (r * b ^ n)" unfolding n by (simp add: mult.assoc)
    finally show ?thesis .
  qed
qed

lemma code_FMTCHAR:
  "d < 64 \<Longrightarrow> code (FMTCHAR d) = (if d < 10 then d + 48 else if d < 36 then d + 87 else if d < 62 then d + 29
     else if d = 62 then 64 else 95)"
  by (auto simp: FMTCHAR_def)

lemmas char_class_defs = VALID_NUMCHAR_def ISALNUM_def ISALPHA_def ISDIGIT_def ISLOWER_def ISUPPER_def char_eq_iff_code

lemma FMTCHAR_valid:
  assumes "d < 64"
  shows "VALID_NUMCHAR (FMTCHAR d)" "FMTCHAR d \<noteq> CHR ''#''" "FMTCHAR d = CHR ''0'' \<longleftrightarrow> d = 0"
  using code_FMTCHAR [OF assms] assms by (auto simp: char_class_defs)

lemma numchar_value_FMTCHAR: "d < b \<Longrightarrow> b \<le> 64 \<Longrightarrow> numchar_value (int b) (FMTCHAR d) = int d"
  using code_FMTCHAR [of d] by (auto simp: numchar_value_def char_class_defs)

lemma strlong_loop_digits:
  assumes "2 \<le> b" "b \<le> 64" "\<forall>d \<in> set ds. d < b"
  shows "strlong_loop (int b) fb (wrap64 w) (map FMTCHAR ds) = Inr (wrap64 (foldl (\<lambda>v d. v * int b + int d) w ds))"
  using assms(3)
proof (induction ds arbitrary: w)
  case (Cons d ds)
  then have d: "d < b" "d < 64" using assms(2) by auto
  have "wrap64 (wrap64 w * int b + int d) = wrap64 (w * int b + int d)"
    unfolding wrap64_cong by (metis mod_add_left_eq mod_mult_left_eq wrap64_mod)
  with Cons d FMTCHAR_valid [of d] numchar_value_FMTCHAR [of d b] assms(2) show ?case by simp
qed simp

lemma foldl_value_of: "foldl (\<lambda>v d. v * int b + int d) (int w) ds = int (foldl (\<lambda>v d. v * b + d) w ds)"
proof (induction ds arbitrary: w)
  case (Cons d ds)
  then show ?case using Cons [of "w * b + d"] by simp
qed simp

lemma strlong_loop_value:
  assumes "2 \<le> b" "b \<le> 64"
  shows "strlong_loop (int b) fb 0 (map FMTCHAR (digits b n)) = Inr (wrap64 (int n))"
  using strlong_loop_digits [OF assms, of "digits b n" fb 0] digits_less [OF assms(1)]
    foldl_value_of [of b 0 "digits b n"] value_of_digits [OF assms(1), of n]
  by (simp add: value_of_def)

lemma strlong_decimal: "strlong (map FMTCHAR (digits 10 n)) = Inr (wrap64 (int n))"
proof (cases "n = 0")
  case True
  have "digits 10 0 = [0]" by (simp add: digits.simps)
  then show ?thesis using True FMTCHAR_valid(3) [of 0] by (simp add: strlong_def)
next
  case False
  then obtain d ds where d: "digits 10 n = d # ds" "d \<noteq> 0" "d < 10"
    using digits_head_zero [of 10 n] digits_less [of 10 n] by (cases "digits 10 n") auto
  then have "FMTCHAR d \<noteq> CHR ''0''" using FMTCHAR_valid(3) [of d] by simp
  with d strlong_loop_value [of 10 False n] show ?thesis by (simp add: strlong_def)
qed

lemma strlong_octal: "strlong (CHR ''0'' # map FMTCHAR (digits 8 n)) = Inr (wrap64 (int n))"
proof -
  obtain d ds where d: "digits 8 n = d # ds" "d < 8"
    using digits_less [of 8 n] by (cases "digits 8 n") auto
  have "FMTCHAR d \<noteq> CHR ''x'' \<and> FMTCHAR d \<noteq> CHR ''X''"
    using d code_FMTCHAR [of d] by (simp add: char_eq_iff_code)
  with d strlong_loop_value [of 8 True n] show ?thesis by (simp add: strlong_def)
qed

lemma strlong_octal_zero:
  "map FMTCHAR (digits 8 n) ! 0 = CHR ''0'' \<Longrightarrow> strlong (map FMTCHAR (digits 8 n)) = Inr (wrap64 (int n))"
proof -
  assume z: "map FMTCHAR (digits 8 n) ! 0 = CHR ''0''"
  obtain d ds where d: "digits 8 n = d # ds" "d < 8"
    using digits_less [of 8 n] by (cases "digits 8 n") auto
  with z have "hd (digits 8 n) = 0" using FMTCHAR_valid(3) [of d] by simp
  then have "n = 0" using digits_head_zero [of 8 n] by simp
  moreover have "digits 8 0 = [0]" by (simp add: digits.simps)
  ultimately show ?thesis using z by (simp add: strlong_def)
qed

lemma strlong_hex: "strlong (CHR ''0'' # CHR ''x'' # map FMTCHAR (digits 16 n)) = Inr (wrap64 (int n))"
  using strlong_loop_value [of 16 True n] by (simp add: strlong_def)

lemma strlong_based:
  assumes "2 \<le> b" "b \<le> 64" and b: "b \<noteq> 10"
  shows "strlong ((if b > 10 then [TOCHAR (b div 10)] else []) @ TOCHAR (b mod 10) # CHR ''#'' # map FMTCHAR (digits b n))
     = Inr (wrap64 (int n))"
proof -
  obtain d ds where d: "digits b n = d # ds" "d < b"
    using digits_less [OF assms(1), of n] by (cases "digits b n") auto
  then have v: "VALID_NUMCHAR (char_at (map FMTCHAR (digits b n)) 0)"
    using assms FMTCHAR_valid(1) [of d] by (simp add: char_at_def)
  have t: "TOCHAR k = FMTCHAR k" if "k < 10" for k using that by (rule FMTCHAR_small)
  have c: "VALID_NUMCHAR (FMTCHAR k)" "FMTCHAR k \<noteq> CHR ''#''" "numchar_value 10 (FMTCHAR k) = int k"
    "FMTCHAR k = CHR ''0'' \<longleftrightarrow> k = 0" if "k < 10" for k
    using FMTCHAR_valid [of k] numchar_value_FMTCHAR [of k 10] that by auto
  have "b div 10 < 10" "b mod 10 < 10" using assms by auto
  moreover have "b < 10 \<Longrightarrow> b mod 10 = b" by simp
  moreover have w: "wrap64 (int k) = int k" if "k < 1000" for k
    using that by (intro wrap64_id) (auto simp: in_int64_def)
  moreover have "wrap64 (int b div 10) = int b div 10" "wrap64 (int b div 10 * 10 + int b mod 10) = int b"
    using w [of "b div 10"] w [of b] assms by (simp_all add: of_nat_div)
  moreover have "b > 10 \<Longrightarrow> b div 10 \<noteq> 0" by (simp add: div_eq_0_iff)
  ultimately show ?thesis
    using assms v strlong_loop_value [OF assms(1,2), of True n]
    by (cases "b > 10") (auto simp: strlong_def t c of_nat_div of_nat_mod)
qed

lemma wrap64_unsigned: "n < 2 ^ 64 \<Longrightarrow> wrap64 (int n) = (if n < 2 ^ 63 then int n else int n - 2 ^ 64)"
  using minus_mod_self2 [of "int n + 2 ^ 63" "2 ^ 64"] by (auto simp: wrap64_def)

text \<open>The longest texts: 19 digits and a sign, or 20 digits.\<close>

lemma length_itos: "in_int64 i \<Longrightarrow> length (itos i) \<le> 20"
proof -
  assume i: "in_int64 i"
  then have "nat \<bar>i\<bar> < 10 ^ Suc 18" by (auto simp: in_int64_def nat_less_iff)
  then have "length (digits 10 (nat \<bar>i\<bar>)) \<le> 19" using length_digits [of 10 "nat \<bar>i\<bar>" 18] by simp
  then show ?thesis using itos_eq [OF i] by (auto split: if_splits)
qed

lemma length_uitos: "length (uitos ui) \<le> 20"
proof -
  have "uitos ui = map FMTCHAR (digits 10 (unat ui))" by (simp add: uitos_def fmtulong_decimal)
  then show ?thesis using length_decimal [of ui] by simp
qed

text \<open>What is written with the prefix \<open>base#\<close> or, if asked for, \<open>0\<close> or \<open>0x\<close>, takes at most 66 characters: a number of 64 binary digits.\<close>

definition based_flags :: "int \<Rightarrow> bool" where
  "based_flags f \<longleftrightarrow> f = FL_ADDBASE + FL_UNSIGNED \<or> f = FL_ADDBASE + FL_UNSIGNED + FL_PREFIX"

lemma length_based:
  assumes "2 \<le> b"
  shows "length (fmt_prefix b f (map FMTCHAR (digits b (unat (ui :: uintmax))))) \<le> 66"
proof -
  have ui: "unat ui < 2 ^ 64" using unsigned_less [of ui] by simp
  show ?thesis
  proof (cases "b > 10")
    case True
    have "(2 :: nat) ^ 64 < 10 ^ 20" by simp
    also have "\<dots> \<le> b ^ 20" using True by (intro power_mono) auto
    finally have "length (digits b (unat ui)) \<le> 20" using length_digits [of b "unat ui" 19] ui True by simp
    then show ?thesis by (auto simp: fmt_prefix_def)
  next
    case False
    have "(2 :: nat) ^ 64 \<le> b ^ 64" using assms by (intro power_mono) auto
    then have "length (digits b (unat ui)) \<le> 64" using length_digits [of b "unat ui" 63] ui assms by simp
    then show ?thesis using False by (auto simp: fmt_prefix_def)
  qed
qed

lemma fmtulong_based:
  assumes "2 \<le> base" "base \<le> 64" "66 < len" "based_flags f"
  shows "fmtulong ui (int base) len f = Some (fmt_prefix base f (map FMTCHAR (digits base (unat ui))))"
proof -
  have "fmt_digits ui base f = map FMTCHAR (digits base (unat ui))"
    using assms by (intro fmt_digits_eq) (auto simp: based_flags_def has_flag_def FL_PREFIX_def FL_ADDBASE_def FL_HEXUPPER_def FL_UNSIGNED_def)
  moreover have "has_flag f FL_UNSIGNED"
    using assms(4) by (auto simp: based_flags_def has_flag_def FL_PREFIX_def FL_ADDBASE_def FL_UNSIGNED_def)
  ultimately show ?thesis using assms length_based [OF assms(1), of f ui] by (simp add: fmtulong_def Let_def)
qed


section \<open>Properties\<close>

text \<open>
  Exponentiation by squaring computes the power, reduced to 64 bits, for every non-negative exponent.
\<close>

theorem ipow_exact:
  assumes "0 \<le> n"
  shows "ipow b n = wrap64 (b ^ nat n)"
  using ipow_loop_eq [of 1 b "nat n"] by (simp add: ipow_def)

theorem ipow_exact_witness: "ipow (-3) 5 = -243"
  using ipow_exact [of 5 "-3"] by (simp add: wrap64_def)

text \<open>
  C37. With the flags \<^verbatim>\<open>FL_ADDBASE\<close> and \<^verbatim>\<open>FL_UNSIGNED\<close>, and with \<^verbatim>\<open>FL_PREFIX\<close> or without, \<^verbatim>\<open>fmtulong\<close> writes every number in every base from 2 to
  64 into a buffer of at least 67 bytes without leaving it, with \<open>base#\<close> before the digits, or \<open>0\<close> and \<open>0x\<close> for octal and hexadecimal, and
  \<^verbatim>\<open>strlong\<close> accepts what was written and gives the number back as an \<^verbatim>\<open>intmax_t\<close>: itself below \<open>2\<^sup>6\<^sup>3\<close>, and less \<open>2\<^sup>6\<^sup>4\<close> from there on.
\<close>

theorem fmtulong_strlong_roundtrip:
  assumes "2 \<le> base" "base \<le> 64" "66 < len" "based_flags f"
  shows "\<exists>t. fmtulong ui (int base) len f = Some t
    \<and> strlong t = Inr (if unat ui < 2 ^ 63 then int (unat ui) else int (unat ui) - 2 ^ 64)"
proof -
  let ?t = "fmt_prefix base f (map FMTCHAR (digits base (unat ui)))"
  have "strlong ?t = Inr (wrap64 (int (unat ui)))"
    using assms(4) strlong_decimal [of "unat ui"] strlong_based [OF assms(1,2), of "unat ui"] strlong_hex [of "unat ui"]
      strlong_octal [of "unat ui"] strlong_octal_zero [of "unat ui"]
    by (cases "base = 10"; cases "base = 8"; cases "base = 16")
      (auto simp: based_flags_def fmt_prefix_def has_flag_def FL_PREFIX_def FL_ADDBASE_def FL_UNSIGNED_def FL_HEXUPPER_def)
  moreover have "wrap64 (int (unat ui)) = (if unat ui < 2 ^ 63 then int (unat ui) else int (unat ui) - 2 ^ 64)"
    using unsigned_less [of ui] by (intro wrap64_unsigned) simp
  ultimately show ?thesis using fmtulong_based [OF assms] by simp
qed

theorem fmtulong_strlong_roundtrip_witness:
  "\<exists>t. fmtulong 255 16 100 (FL_ADDBASE + FL_UNSIGNED + FL_PREFIX) = Some t \<and> strlong t = Inr 255"
  using fmtulong_strlong_roundtrip [of 16 100 "FL_ADDBASE + FL_UNSIGNED + FL_PREFIX" 255] by (simp add: based_flags_def)

text \<open>
  The local buffers of \<^verbatim>\<open>itos\<close> and \<^verbatim>\<open>uitos\<close>, sized by \<^verbatim>\<open>INT_STRLEN_BOUND\<close>, hold every number with
  its sign and terminator.
\<close>

theorem itos_buffer_suffices:
  assumes "in_int64 i"
  shows "length (itos i) + 1 \<le> intmax_bufsize \<and> length (uitos ui) + 1 \<le> uintmax_bufsize"
  using length_itos [OF assms] length_uitos [of ui] by (simp add: intmax_bufsize_def uintmax_bufsize_def)

theorem itos_buffer_suffices_witness:
  "length (itos INTMAX_MIN) + 1 \<le> intmax_bufsize \<and> length (uitos (- 1)) + 1 \<le> uintmax_bufsize"
  by (rule itos_buffer_suffices) (simp add: in_int64_def INTMAX_MIN_def)

end
