(* ===== verification/Expr_Tokens.thy ===== *)
theory Expr_Tokens
  imports Expr_Num
begin

text \<open>
  Tokens and levels of the arithmetic evaluator. A list of tokens is printed with a blank before each;
  reading the text gives the tokens back, operators, numbers and names, and reading a name evaluates
  the variable. A precedence level whose operators do not follow adds nothing to the level above.
\<close>

section \<open>Tokens and their text\<close>

text \<open>\<open>AssignOp\<close> is the token of an assignment with an operator, such as \<open>+=\<close>.\<close>

datatype token = Op tok | Number nat | Name cstring | AssignOp tok

fun op_text :: "tok \<Rightarrow> cstring" where
  "op_text T_EQEQ = ''==''" | "op_text T_NEQ = ''!=''" | "op_text T_LEQ = ''<=''" | "op_text T_GEQ = ''>=''"
| "op_text T_LAND = ''&&''" | "op_text T_LOR = ''||''" | "op_text T_LSH = ''<<''" | "op_text T_RSH = ''>>''"
| "op_text T_POWER = ''**''" | "op_text T_PREINC = ''++''" | "op_text T_PREDEC = ''--''"
| "op_text T_POSTINC = ''++''" | "op_text T_POSTDEC = ''--''" | "op_text T_EQ = ''=''" | "op_text T_GT = ''>''"
| "op_text T_LT = ''<''" | "op_text T_PLUS = ''+''" | "op_text T_MINUS = ''-''" | "op_text T_MUL = ''*''"
| "op_text T_DIV = ''/''" | "op_text T_MOD = ''%''" | "op_text T_NOT = ''!''" | "op_text T_LPAR = ''(''"
| "op_text T_RPAR = '')''" | "op_text T_BAND = ''&''" | "op_text T_BOR = ''|''" | "op_text T_BXOR = ''^''"
| "op_text T_BNOT = ''~''" | "op_text T_QUES = ''?''" | "op_text T_COL = '':''" | "op_text T_COMMA = '',''"
| "op_text _ = []"

fun lexeme :: "token \<Rightarrow> cstring" where
  "lexeme (Op t) = op_text t"
| "lexeme (Number n) = map FMTCHAR (digits 10 n)"
| "lexeme (Name x) = x"
| "lexeme (AssignOp t) = op_text t @ ''=''"

text \<open>The text of a list of tokens: one blank before each.\<close>

definition text_of :: "token list \<Rightarrow> cstring" where
  "text_of ts = concat (map (\<lambda>t. CHR '' '' # lexeme t) ts)"

fun kind :: "token \<Rightarrow> tok" where
  "kind (Op t) = t"
| "kind (Number n) = T_NUM"
| "kind (Name x) = T_STR"
| "kind (AssignOp t) = T_OP_ASSIGN"

definition legal_name :: "cstring \<Rightarrow> bool" where
  "legal_name x \<longleftrightarrow> x \<noteq> [] \<and> legal_variable_starter (hd x) \<and> (\<forall>c \<in> set x. legal_variable_char c)"

definition assign_ops :: "tok set" where
  "assign_ops = {T_MUL, T_DIV, T_MOD, T_PLUS, T_MINUS, T_LSH, T_RSH, T_BAND, T_BXOR, T_BOR}"

definition step_toks :: "tok set" where
  "step_toks = {T_PREINC, T_PREDEC, T_POSTINC, T_POSTDEC}"

definition plain_ops :: "tok set" where
  "plain_ops = {T_EQEQ, T_NEQ, T_LEQ, T_GEQ, T_LAND, T_LOR, T_LSH, T_RSH, T_POWER, T_EQ, T_GT, T_LT, T_PLUS, T_MINUS,
     T_MUL, T_DIV, T_MOD, T_NOT, T_LPAR, T_RPAR, T_BAND, T_BOR, T_BXOR, T_BNOT, T_QUES, T_COL, T_COMMA}"

text \<open>Which token may stand at the head of the rest of the text, after the token \<open>cur\<close>.\<close>

fun lexable :: "tok \<Rightarrow> token list \<Rightarrow> bool" where
  "lexable cur [] = True"
| "lexable cur (Op t # ts) =
     (if t = T_PREINC \<or> t = T_PREDEC then cur \<noteq> T_STR \<and> cur \<noteq> T_NUM \<and> (\<exists>x ts'. ts = Name x # ts' \<and> legal_name x)
      else if t = T_POSTINC \<or> t = T_POSTDEC then cur = T_STR
      else t \<in> plain_ops)"
| "lexable cur (AssignOp t # ts) = (t \<in> assign_ops)"
| "lexable cur (Name x # ts) = (legal_name x \<and> cur \<noteq> T_STR)"
| "lexable cur (Number n # ts) = (cur \<noteq> T_STR)"

fun chain :: "token list \<Rightarrow> bool" where
  "chain [] = True"
| "chain (t # ts) = (lexable (kind t) ts \<and> chain ts)"


section \<open>Reading tokens\<close>

lemma text_of_simps [simp]: "text_of [] = []" "text_of (t # ts) = CHR '' '' # lexeme t @ text_of ts"
  by (simp_all add: text_of_def)

lemma char_at_of_drop: "char_at (drop i ex) k = char_at ex (i + k)"
  by (auto simp: char_at_def)

lemma span_from_drop: "i + span_from P (drop i ex) k = span_from P ex (i + k)"
  by (simp add: span_from_def add.commute)

lemma lex_op_drop:
  "drop i ex = r \<Longrightarrow> lex_op ex i cur prev =
     lex_chars (char_at r 0) (char_at r 1) (char_at r 2)
       (legal_variable_starter (char_at r (span_from cr_whitespace r 2))) cur prev"
proof -
  assume r: "drop i ex = r"
  have "char_at ex (i + k) = char_at r k" for k using r char_at_of_drop [of i ex k] by simp
  moreover have "span_from cr_whitespace ex (i + 2) = i + span_from cr_whitespace r 2"
    using r span_from_drop [of i cr_whitespace ex 2] by simp
  ultimately show ?thesis
    unfolding lex_op_def by (metis add.right_neutral)
qed

definition blank_or_end :: "cstring \<Rightarrow> bool" where
  "blank_or_end r \<longleftrightarrow> (r = [] \<or> hd r = CHR '' '')"

lemma blank_or_end_text [simp]: "blank_or_end (text_of ts)"
  by (cases ts) (simp_all add: blank_or_end_def)

lemma blank_or_end_char: "blank_or_end r \<Longrightarrow> char_at r 0 = CHR 0x00 \<or> char_at r 0 = CHR '' ''"
  by (cases r) (auto simp: blank_or_end_def char_at_def NUL_def)

lemma char_at_Cons [simp]:
  "char_at (c # r) 0 = c" "char_at (c # r) (Suc k) = char_at r k" "char_at [] k = NUL"
  "char_at (c # r) 1 = char_at r 0" "char_at (c # r) 2 = char_at r 1"
  by (simp_all add: char_at_def numeral_2_eq_2)

lemma lex_plain:
  assumes "t \<in> plain_ops" "blank_or_end r" "drop i ex = op_text t @ r"
  shows "lex_op ex i cur prev = Inr (t, length (op_text t), None)"
  using blank_or_end_char [OF assms(2)] assms(1) unfolding lex_op_drop [OF assms(3)] plain_ops_def
  by (elim disjE insertE emptyE) (simp_all add: lex_chars_def char_op_def)

lemma lex_assign:
  assumes "t \<in> assign_ops" "drop i ex = op_text t @ CHR ''='' # r"
  shows "lex_op ex i cur prev = Inr (T_OP_ASSIGN, length (op_text t) + 1, Some t)"
  using assms(1) unfolding lex_op_drop [OF assms(2)] assign_ops_def
  by (elim disjE insertE emptyE) (simp_all add: lex_chars_def char_op_def)

lemma lex_post:
  assumes "t = T_POSTINC \<or> t = T_POSTDEC" "drop i ex = op_text t @ r"
  shows "lex_op ex i T_STR prev = Inr (t, length (op_text t), None)"
  using assms(1) unfolding lex_op_drop [OF assms(2)]
  by (elim disjE) (simp_all add: lex_chars_def)

lemma starter_not_blank: "legal_variable_starter c \<Longrightarrow> \<not> cr_whitespace c"
  by (auto simp: legal_variable_starter_def cr_whitespace_def char_class_defs)

lemma lex_pre:
  assumes "t = T_PREINC \<or> t = T_PREDEC" "cur \<noteq> T_STR" "cur \<noteq> T_NUM" "legal_name x"
    and "drop i ex = op_text t @ CHR '' '' # x @ r"
  shows "lex_op ex i cur prev = Inr (t, length (op_text t), None)"
proof -
  obtain c y where x: "x = c # y" "legal_variable_starter c" using assms(4) by (cases x) (auto simp: legal_name_def)
  then have "char_at (a # b # CHR '' '' # x @ r) (span_from cr_whitespace (a # b # CHR '' '' # x @ r) 2) = c" for a b
    using starter_not_blank [OF x(2)] by (simp add: span_from_def cr_whitespace_def numeral_2_eq_2)
  then show ?thesis
    using assms(1-3) x(2) unfolding lex_op_drop [OF assms(5)]
    by (elim disjE) (simp_all add: lex_chars_def)
qed

lemma blank_step: "drop i ex = sp @ c # r \<Longrightarrow> \<forall>b \<in> set sp. cr_whitespace b \<Longrightarrow> \<not> cr_whitespace c \<Longrightarrow>
   span_from cr_whitespace ex i = i + length sp \<and> char_at ex (i + length sp) = c \<and> drop (i + length sp) ex = c # r"
proof -
  assume d: "drop i ex = sp @ c # r" and sp: "\<forall>b \<in> set sp. cr_whitespace b" and c: "\<not> cr_whitespace c"
  have "takeWhile cr_whitespace (sp @ c # r) = sp" using sp c by (simp add: takeWhile_append)
  moreover have "drop (i + length sp) ex = c # r"
    using d by (metis add.commute drop_drop append_eq_conv_conj)
  moreover have "char_at ex (i + length sp) = c"
    using char_at_of_drop [of "i + length sp" ex 0] calculation(2) by simp
  ultimately show ?thesis using d by (simp add: span_from_def)
qed

text \<open>What reading a token does to the state: the parts that evaluation depends on.\<close>

definition same :: "'e expr_state \<Rightarrow> 'e expr_state \<Rightarrow> bool" where
  "same s s' \<longleftrightarrow> noeval s' = noeval s \<and> expr_stack s' = expr_stack s \<and> expression s' = expression s
     \<and> (lv_ind (curlval s) = -1 \<longrightarrow> lv_ind (curlval s') = -1)"

definition moved :: "'e expr_state \<Rightarrow> tok \<Rightarrow> cstring \<Rightarrow> 'e expr_state \<Rightarrow> bool" where
  "moved s k r s' \<longleftrightarrow> curtok s' = k \<and> lasttok s' = curtok s \<and> drop (tp s') (expression s') = r \<and> same s s' \<and> env s' = env s"

definition value_kept :: "'e expr_state \<Rightarrow> 'e expr_state \<Rightarrow> bool" where
  "value_kept s s' \<longleftrightarrow> tokstr s' = tokstr s \<and> tokval s' = tokval s \<and> curlval s' = curlval s"

lemma run_readtok: "run ops F_readtok s = readtok ops (run ops) s"
  by (simp add: run.simps body_def)

lemma read_end:
  assumes "drop (tp s) (expression s) = []"
  shows "\<exists>s'. run ops F_readtok s = Ret 0 s' \<and> moved s T_EOE [] s' \<and> value_kept s s'"
proof -
  have "span_from cr_whitespace (expression s) (tp s) = tp s" "char_at (expression s) (tp s) = NUL"
    using assms char_at_of_drop [of "tp s" "expression s" 0] by (simp_all add: span_from_def)
  then have "run ops F_readtok s = Ret 0 (set_token T_EOE (tp s) s)"
    by (simp add: run_readtok readtok_def)
  then show ?thesis using assms by (simp add: moved_def same_def value_kept_def set_token_def)
qed

text \<open>An operator, with blanks before it.\<close>

lemma read_operator:
  assumes d: "drop (tp s) (expression s) = sp @ c # w @ r" and sp: "\<forall>b \<in> set sp. cr_whitespace b"
    and c: "\<not> cr_whitespace c" "c \<noteq> NUL" "\<not> legal_variable_starter c" "\<not> ISDIGIT c"
    and l: "lex_op (expression s) (tp s + length sp) (curtok s) (lasttok s) = Inr (k, Suc (length w), a)"
  shows "\<exists>s'. run ops F_readtok s = Ret 0 s' \<and> moved s k r s' \<and> value_kept s s' \<and> (\<forall>u. a = Some u \<longrightarrow> assigntok s' = u)"
proof -
  define i where "i = tp s + length sp"
  have i: "span_from cr_whitespace (expression s) (tp s) = i" "char_at (expression s) i = c"
      "drop i (expression s) = c # w @ r"
    using blank_step [OF d sp c(1)] by (simp_all add: i_def)
  then have "drop (i + Suc (length w)) (expression s) = r"
    using drop_after [of i "expression s" "c # w" r] by simp
  with i c l show ?thesis
    by (cases a) (auto simp: run_readtok readtok_def Let_def readtok_op_def i_def [symmetric] moved_def same_def
        value_kept_def set_token_def)
qed

lemma op_chars:
  assumes "t \<in> plain_ops \<union> step_toks"
  obtains c w where "op_text t = c # w" "\<not> cr_whitespace c" "c \<noteq> NUL" "\<not> legal_variable_starter c" "\<not> ISDIGIT c"
proof -
  define c where "c = hd (op_text t)"
  have "op_text t \<noteq> [] \<and> \<not> cr_whitespace c \<and> c \<noteq> NUL \<and> \<not> legal_variable_starter c \<and> \<not> ISDIGIT c"
    using assms unfolding plain_ops_def step_toks_def
    by (elim UnE insertE emptyE)
      (simp_all add: c_def cr_whitespace_def NUL_def legal_variable_starter_def char_class_defs)
  then show ?thesis using that [of c "tl (op_text t)"] by (simp add: c_def)
qed

fun is_op :: "token \<Rightarrow> bool" where
  "is_op (Op t) = True"
| "is_op (AssignOp t) = True"
| "is_op _ = False"

lemma read_op:
  assumes "lexable (curtok s) (t # ts)" "is_op t" "drop (tp s) (expression s) = text_of (t # ts)"
  shows "\<exists>s'. run ops F_readtok s = Ret 0 s' \<and> moved s (kind t) (text_of ts) s' \<and> value_kept s s'
     \<and> (\<forall>u. t = AssignOp u \<longrightarrow> assigntok s' = u)"
proof (cases t)
  case (Op k)
  have k: "k \<in> plain_ops \<union> step_toks" using assms(1) Op by (auto simp: step_toks_def split: if_splits)
  from k obtain c w where c: "op_text k = c # w" "\<not> cr_whitespace c" "c \<noteq> NUL" "\<not> legal_variable_starter c" "\<not> ISDIGIT c"
    by (rule op_chars)
  have d: "drop (tp s) (expression s) = '' '' @ c # w @ text_of ts" using assms(3) Op c by simp
  then have d1: "drop (tp s + 1) (expression s) = op_text k @ text_of ts"
    using drop_after [of "tp s" "expression s" "'' ''"] c by simp
  have "lex_op (expression s) (tp s + 1) (curtok s) (lasttok s) = Inr (k, length (op_text k), None)"
    using assms(1) Op d1 lex_plain [OF _ blank_or_end_text d1] lex_post [OF _ d1]
      lex_pre [of k "curtok s" _ "tp s + 1" "expression s"]
    by (auto split: if_splits)
  with read_operator [OF d _ c(2-5), of k None] c(1) Op show ?thesis by (simp add: cr_whitespace_def)
next
  case (AssignOp k)
  have k: "k \<in> plain_ops \<union> step_toks" using assms(1) AssignOp by (auto simp: assign_ops_def plain_ops_def)
  from k obtain c w where c: "op_text k = c # w" "\<not> cr_whitespace c" "c \<noteq> NUL" "\<not> legal_variable_starter c" "\<not> ISDIGIT c"
    by (rule op_chars)
  have d: "drop (tp s) (expression s) = '' '' @ c # (w @ ''='') @ text_of ts" using assms(3) AssignOp c by simp
  then have d1: "drop (tp s + 1) (expression s) = op_text k @ CHR ''='' # text_of ts"
    using drop_after [of "tp s" "expression s" "'' ''"] c by simp
  have "lex_op (expression s) (tp s + 1) (curtok s) (lasttok s) = Inr (T_OP_ASSIGN, length (op_text k) + 1, Some k)"
    using assms(1) AssignOp by (intro lex_assign [OF _ d1]) simp
  with read_operator [OF d _ c(2-5), of T_OP_ASSIGN "Some k"] c(1) AssignOp show ?thesis by (simp add: cr_whitespace_def)
qed (use assms in simp_all)

text \<open>A number.\<close>

lemma digits_text:
  "\<forall>c \<in> set (map FMTCHAR (digits 10 n)). ISDIGIT c" "map FMTCHAR (digits 10 n) \<noteq> []"
  using digits_less [of 10 n] code_FMTCHAR by (auto simp: ISDIGIT_def)

lemma digit_char: "ISDIGIT c \<Longrightarrow> \<not> cr_whitespace c \<and> c \<noteq> NUL \<and> \<not> legal_variable_starter c"
  by (auto simp: cr_whitespace_def NUL_def legal_variable_starter_def char_class_defs)

lemma span_from_word:
  assumes "drop i ex = w @ r" "\<forall>c \<in> set w. P c" "r = [] \<or> \<not> P (hd r)"
  shows "span_from P ex i = i + length w" "take (span_from P ex i - i) (drop i ex) = w" "drop (span_from P ex i) ex = r"
proof -
  have "takeWhile P (w @ r) = w" using assms(2,3) by (cases r) (simp_all add: takeWhile_append)
  then show s: "span_from P ex i = i + length w" using assms(1) by (simp add: span_from_def)
  then show "take (span_from P ex i - i) (drop i ex) = w" using assms(1) by simp
  show "drop (span_from P ex i) ex = r" using s drop_after [OF assms(1)] by simp
qed

lemma read_number:
  assumes d: "drop (tp s) (expression s) = sp @ map FMTCHAR (digits 10 n) @ r" and sp: "\<forall>b \<in> set sp. cr_whitespace b"
    and r: "blank_or_end r"
  shows "\<exists>s'. run ops F_readtok s = Ret 0 s' \<and> moved s T_NUM r s' \<and> tokval s' = wrap64 (int n)
     \<and> tokstr s' = tokstr s \<and> curlval s' = curlval s"
proof -
  define w where "w = map FMTCHAR (digits 10 n)"
  obtain c v where w: "w = c # v" using digits_text(2) by (cases w) (auto simp: w_def)
  have c: "ISDIGIT c" using digits_text(1) w by (metis list.set_intros(1) w_def)
  define i where "i = tp s + length sp"
  have i: "span_from cr_whitespace (expression s) (tp s) = i" "char_at (expression s) i = c"
      "drop i (expression s) = w @ r"
    using blank_step [of "tp s" "expression s" sp c "v @ r"] d w digit_char [OF c] sp by (simp_all add: i_def w_def)
  let ?P = "\<lambda>c. ISALNUM c \<or> c = CHR ''#'' \<or> c = CHR ''@'' \<or> c = CHR ''_''"
  have P: "\<forall>c \<in> set w. ?P c" using digits_text(1) [of n] by (auto simp: w_def ISALNUM_def)
  have "r = [] \<or> \<not> ?P (hd r)" using r by (auto simp: blank_or_end_def char_class_defs)
  from span_from_word [OF i(3) P this] have "span_from ?P (expression s) i = i + length w"
    "take (length w) (drop i (expression s)) = w" "drop (i + length w) (expression s) = r" by simp_all
  then show ?thesis
    using i(1,2) c digit_char [OF c] strlong_decimal [of n]
    by (auto simp: run_readtok readtok_def Let_def readtok_number_def i_def [symmetric] moved_def same_def w_def
        set_token_def)
qed

section \<open>The levels\<close>

definition fnof :: "nat \<Rightarrow> fn" where
  "fnof l = [F_comma, F_assign, F_cond, F_lor, F_land, F_bor, F_bxor, F_band, F_exp5, F_exp4, F_shift, F_exp3,
     F_muldiv, F_power, F_exp1, F_exp0] ! l"

definition loopof :: "nat \<Rightarrow> int \<Rightarrow> fn" where
  "loopof l v = [F_comma_loop v, F_comma, F_comma, F_lor_loop v, F_land_loop v, F_bor_loop v, F_bxor_loop v, F_band_loop v,
     F_exp5_loop v, F_exp4_loop v, F_shift_loop v, F_exp3_loop v, F_muldiv_loop v, F_power_loop v] ! l"

lemma fnof_simps [simp]:
  "fnof 0 = F_comma" "fnof 1 = F_assign" "fnof (Suc 0) = F_assign" "fnof 2 = F_cond" "fnof 3 = F_lor" "fnof 4 = F_land"
  "fnof 5 = F_bor" "fnof 6 = F_bxor" "fnof 7 = F_band" "fnof 8 = F_exp5" "fnof 9 = F_exp4" "fnof 10 = F_shift"
  "fnof 11 = F_exp3" "fnof 12 = F_muldiv" "fnof 13 = F_power" "fnof 14 = F_exp1" "fnof 15 = F_exp0"
  by (simp_all add: fnof_def)

lemma loopof_simps [simp]:
  "loopof 0 = F_comma_loop" "loopof 3 = F_lor_loop" "loopof 4 = F_land_loop" "loopof 5 = F_bor_loop"
  "loopof 6 = F_bxor_loop" "loopof 7 = F_band_loop" "loopof 8 = F_exp5_loop" "loopof 9 = F_exp4_loop"
  "loopof 10 = F_shift_loop" "loopof 11 = F_exp3_loop" "loopof 12 = F_muldiv_loop" "loopof 13 = F_power_loop"
  by (simp_all add: loopof_def fun_eq_iff)

text \<open>The level at which an operator token continues an expression.\<close>

fun oplev :: "tok \<Rightarrow> nat option" where
  "oplev T_COMMA = Some 0" | "oplev T_EQ = Some 1" | "oplev T_OP_ASSIGN = Some 1" | "oplev T_QUES = Some 2"
| "oplev T_LOR = Some 3" | "oplev T_LAND = Some 4" | "oplev T_BOR = Some 5" | "oplev T_BXOR = Some 6"
| "oplev T_BAND = Some 7" | "oplev T_EQEQ = Some 8" | "oplev T_NEQ = Some 8" | "oplev T_LEQ = Some 9"
| "oplev T_GEQ = Some 9" | "oplev T_LT = Some 9" | "oplev T_GT = Some 9" | "oplev T_LSH = Some 10"
| "oplev T_RSH = Some 10" | "oplev T_PLUS = Some 11" | "oplev T_MINUS = Some 11" | "oplev T_MUL = Some 12"
| "oplev T_DIV = Some 12" | "oplev T_MOD = Some 12" | "oplev T_POWER = Some 13" | "oplev _ = None"

definition unary_ops :: "tok set" where
  "unary_ops = {T_NOT, T_BNOT, T_MINUS, T_PLUS}"

lemma less_15_cases:
  "l < 15 \<Longrightarrow> l = 0 \<or> l = 1 \<or> l = 2 \<or> l = 3 \<or> l = 4 \<or> l = 5 \<or> l = 6 \<or> l = 7 \<or> l = 8 \<or> l = 9 \<or> l = 10
     \<or> l = 11 \<or> l = 12 \<or> l = 13 \<or> l = (14::nat)"
  by arith

lemma seq_Ret [simp]: "m s = Ret v s' \<Longrightarrow> seq m f s = f v s'"
  by (simp add: seq_def)

lemma seq_Jump [simp]: "m s = Jump e s' \<Longrightarrow> seq m f s = Jump e s'"
  by (simp add: seq_def)

text \<open>The levels with a loop: the operand of the next level, then the loop.\<close>

lemma level_loop:
  assumes "l = 0 \<or> 3 \<le> l \<and> l \<le> 13"
  shows "run ops (fnof l) s = seq (run ops (fnof (Suc l))) (\<lambda>v. run ops (loopof l v)) s"
proof -
  have "l = 0 \<or> l = 3 \<or> l = 4 \<or> l = 5 \<or> l = 6 \<or> l = 7 \<or> l = 8 \<or> l = 9 \<or> l = 10 \<or> l = 11 \<or> l = 12 \<or> l = 13"
    using assms by arith
  then show ?thesis
    unfolding run.simps [of ops "fnof l"]
    by (elim disjE) (simp_all add: body_def expcomma_def explor_def expland_def expbor_def expbxor_def expband_def
        exp5_def exp4_def expshift_def exp3_def expmuldiv_def exppower_def)
qed

lemma loop_exit:
  assumes "l = 0 \<or> 3 \<le> l \<and> l \<le> 13" "oplev (curtok s) \<noteq> Some l"
  shows "run ops (loopof l v) s = Ret v s"
proof -
  have "l = 0 \<or> l = 3 \<or> l = 4 \<or> l = 5 \<or> l = 6 \<or> l = 7 \<or> l = 8 \<or> l = 9 \<or> l = 10 \<or> l = 11 \<or> l = 12 \<or> l = 13"
    using assms(1) by arith
  then show ?thesis
    using assms(2) unfolding run.simps [of ops "loopof l v"]
    by (elim disjE) (auto simp: body_def left_loop_def expcomma_loop_def explor_loop_def
        expland_loop_def expbor_loop_def expbxor_loop_def expband_loop_def exp5_loop_def exp4_loop_def expshift_loop_def
        exp3_loop_def expmuldiv_loop_def exppower_loop_def)
qed

text \<open>A level whose operators do not follow adds nothing.\<close>

lemma level_skip:
  assumes "l < 15" "run ops (fnof (Suc l)) s = Ret v s'" "oplev (curtok s') \<noteq> Some l"
    and "l = 14 \<Longrightarrow> curtok s \<notin> unary_ops"
  shows "run ops (fnof l) s = Ret v s'"
proof -
  consider "l = 0 \<or> 3 \<le> l \<and> l \<le> 13" | "l = 1" | "l = 2" | "l = 14" using assms(1) by arith
  then show ?thesis
  proof cases
    case 1
    then show ?thesis using level_loop [OF 1, of ops s] loop_exit [OF 1 assms(3), of ops v] assms(2) by simp
  next
    case 2
    then have "curtok s' \<noteq> T_EQ" "curtok s' \<noteq> T_OP_ASSIGN" using assms(3) by auto
    with 2 assms(2) show ?thesis by (simp add: fnof_def run.simps [of ops F_assign] body_def expassign_def)
  next
    case 3
    then have "curtok s' \<noteq> T_QUES" using assms(3) by auto
    with 3 assms(2) show ?thesis by (simp add: fnof_def run.simps [of ops F_cond] body_def expcond_def)
  next
    case 4
    then show ?thesis using assms(2,4) by (simp add: fnof_def run.simps [of ops F_exp1] body_def exp1_def unary_ops_def)
  qed
qed

lemma level_jump:
  assumes "l < 15" "run ops (fnof (Suc l)) s = Jump e s'" "l = 14 \<Longrightarrow> curtok s \<notin> unary_ops"
  shows "run ops (fnof l) s = Jump e s'"
proof -
  consider "l = 0 \<or> 3 \<le> l \<and> l \<le> 13" | "l = 1 \<or> l = 2 \<or> l = 14" using assms(1) by arith
  then show ?thesis
  proof cases
    case 1
    then show ?thesis using level_loop [OF 1, of ops s] assms(2) by simp
  next
    case 2
    then show ?thesis
      using assms(2,3) by (elim disjE) (simp_all add: fnof_def run.simps [of ops F_assign] run.simps [of ops F_cond]
        run.simps [of ops F_exp1] body_def expassign_def expcond_def exp1_def unary_ops_def)
  qed
qed

text \<open>From one level up to any lower one.\<close>

lemma levels_skip:
  assumes "l \<le> m" "m \<le> 15" "run ops (fnof m) s = Ret v s'" "\<And>k. l \<le> k \<Longrightarrow> k < m \<Longrightarrow> oplev (curtok s') \<noteq> Some k"
    and "m = 15 \<Longrightarrow> curtok s \<notin> unary_ops"
  shows "run ops (fnof l) s = Ret v s'"
  using assms(1)
proof (induction rule: inc_induct)
  case (step n)
  show ?case by (rule level_skip [OF _ step(3)]) (use step(1,2) assms in auto)
qed (rule assms(3))

lemma levels_jump:
  assumes "l \<le> m" "m \<le> 15" "run ops (fnof m) s = Jump e s'" "m = 15 \<Longrightarrow> curtok s \<notin> unary_ops"
  shows "run ops (fnof l) s = Jump e s'"
  using assms(1)
proof (induction rule: inc_induct)
  case (step n)
  show ?case by (rule level_jump [OF _ step(3)]) (use step(1,2) assms in auto)
qed (rule assms(3))

lemma exp0_number:
  assumes "curtok s = T_NUM" "run ops F_readtok s = Ret 0 s'"
  shows "run ops (fnof 15) s = Ret (tokval s) s'"
  using assms by (simp add: fnof_def run.simps [of ops F_exp0] body_def exp0_def)

lemma exp1_unary:
  assumes "curtok s \<in> unary_ops" "run ops F_readtok s = Ret 0 s1" "run ops (fnof 14) s1 = Ret v s2"
  shows "run ops (fnof 14) s = Ret (if curtok s = T_NOT then of_bool_int (v = 0) else if curtok s = T_BNOT then NOT v
     else if curtok s = T_MINUS then wrap64 (- v) else v) (s2\<lparr>lasttok := T_NUM\<rparr>)"
proof -
  have "run ops (fnof 14) s = exp1 (run ops) s" by (simp add: fnof_def run.simps [of ops F_exp1 s] body_def)
  with assms show ?thesis by (auto simp: fnof_def exp1_def unary_ops_def Let_def)
qed

section \<open>The value of a variable\<close>

text \<open>A literal number evaluates to itself at every level.\<close>

lemma number_then_end:
  assumes "drop (tp s) (expression s) = map FMTCHAR (digits 10 n)"
  shows "\<exists>s1 s2. run ops F_readtok s = Ret 0 s1 \<and> same s s2 \<and> env s2 = env s \<and> curtok s2 = T_EOE
    \<and> curtok s1 = T_NUM \<and> run ops (fnof 15) s1 = Ret (wrap64 (int n)) s2"
proof -
  obtain s1 where s1: "run ops F_readtok s = Ret 0 s1" "moved s T_NUM [] s1" "tokval s1 = wrap64 (int n)"
    using read_number [of s "[]" n "[]" ops] assms by (auto simp: blank_or_end_def)
  obtain s2 where s2: "run ops F_readtok s1 = Ret 0 s2" "moved s1 T_EOE [] s2"
    using read_end [of s1 ops] s1(2) by (auto simp: moved_def)
  have "run ops (fnof 15) s1 = Ret (wrap64 (int n)) s2"
    using exp0_number [of s1 ops s2] s1 s2 by (simp add: moved_def)
  with s1 s2 show ?thesis by (auto simp: moved_def same_def)
qed

lemma read_minus:
  assumes d: "drop (tp s) (expression s) = CHR ''-'' # c # r" and c: "ISDIGIT c"
  shows "\<exists>s'. run ops F_readtok s = Ret 0 s' \<and> moved s T_MINUS (c # r) s'"
proof -
  have "c \<noteq> CHR ''-''" "c \<noteq> CHR ''=''" using c by (auto simp: ISDIGIT_def)
  then have "lex_op (expression s) (tp s + length []) (curtok s) (lasttok s) = Inr (T_MINUS, Suc (length []), None)"
    using d by (simp add: lex_op_drop lex_chars_def char_op_def)
  with read_operator [of s "[]" "CHR ''-''" "[]" "c # r" T_MINUS None ops] d show ?thesis
    by (auto simp: cr_whitespace_def NUL_def legal_variable_starter_def char_class_defs)
qed

lemma literal_comma:
  assumes v: "in_int64 v" and d: "drop (tp s) (expression s) = itos v"
  shows "\<exists>s1 s2. run ops F_readtok s = Ret 0 s1 \<and> run ops F_comma s1 = Ret v s2 \<and> curtok s2 = T_EOE \<and> same s s2
    \<and> env s2 = env s"
proof (cases "v < 0")
  case False
  then have "itos v = map FMTCHAR (digits 10 (nat v))" using itos_eq [OF v] by simp
  with d obtain s1 s2 where s: "run ops F_readtok s = Ret 0 s1" "same s s2" "env s2 = env s" "curtok s2 = T_EOE"
      "curtok s1 = T_NUM" "run ops (fnof 15) s1 = Ret (wrap64 (int (nat v))) s2"
    using number_then_end [of s "nat v" ops] by auto
  then have "run ops (fnof 0) s1 = Ret v s2"
    using levels_skip [of 0 15 ops s1 v s2] v False by (simp add: unary_ops_def)
  with s show ?thesis by auto
next
  case True
  then have it: "itos v = CHR ''-'' # map FMTCHAR (digits 10 (nat (- v)))" using itos_eq [OF v] by simp
  obtain c r where c: "map FMTCHAR (digits 10 (nat (- v))) = c # r" "ISDIGIT c"
    using digits_text [of "nat (- v)"] by (cases "map FMTCHAR (digits 10 (nat (- v)))") auto
  obtain s1 where s1: "run ops F_readtok s = Ret 0 s1" "moved s T_MINUS (c # r) s1"
    using read_minus [of s c r ops] d it c by auto
  then obtain s2 s3 where s: "run ops F_readtok s1 = Ret 0 s2" "same s1 s3" "env s3 = env s1" "curtok s3 = T_EOE"
      "curtok s2 = T_NUM" "run ops (fnof 15) s2 = Ret (wrap64 (- v)) s3"
    using number_then_end [of s1 "nat (- v)" ops] c True by (auto simp: moved_def)
  then have "run ops (fnof 14) s2 = Ret (wrap64 (- v)) s3"
    using level_skip [of 14 ops s2 "wrap64 (- v)" s3] by (simp add: unary_ops_def)
  then have "run ops (fnof 14) s1 = Ret (wrap64 (- wrap64 (- v))) (s3\<lparr>lasttok := T_NUM\<rparr>)"
    using exp1_unary [of s1 ops s2 "wrap64 (- v)" s3] s s1(2) by (simp add: moved_def unary_ops_def)
  moreover have "wrap64 (- wrap64 (- v)) = v"
    using v wrap64_mult_right [of "-1" "- v"] by simp
  ultimately have "run ops (fnof 0) s1 = Ret v (s3\<lparr>lasttok := T_NUM\<rparr>)"
    using levels_skip [of 0 14 ops s1 v "s3\<lparr>lasttok := T_NUM\<rparr>"] s by simp
  with s s1 show ?thesis by (auto simp: moved_def same_def)
qed

definition restored :: "'e expr_state \<Rightarrow> 'e expr_state \<Rightarrow> bool" where
  "restored s s' \<longleftrightarrow> same s s' \<and> env s' = env s \<and> curtok s' = curtok s \<and> lasttok s' = lasttok s \<and> tp s' = tp s
     \<and> tokval s' = tokval s \<and> tokstr s' = tokstr s \<and> curlval s' = curlval s"

lemma itos_not_blank: "in_int64 v \<Longrightarrow> dropWhile cr_whitespace (itos v) \<noteq> []"
proof -
  assume v: "in_int64 v"
  have "map FMTCHAR (digits 10 n) \<noteq> []" "\<forall>c \<in> set (map FMTCHAR (digits 10 n)). \<not> cr_whitespace c" for n
    using digits_text [of n] digit_char by auto
  then show ?thesis
    using itos_eq [OF v] by (auto simp: cr_whitespace_def split: if_splits) (metis digits_not_Nil last_in_set)
qed

lemma literal_subexpr:
  assumes v: "in_int64 v" and st: "length (expr_stack s) < MAX_EXPR_RECURSION_LEVEL"
  shows "\<exists>s'. run ops (F_subexpr (itos v)) s = Ret v s' \<and> restored s s'"
proof -
  define s0 where "s0 = s\<lparr>expr_stack := SAVETOK s # expr_stack s, expression := itos v, tp := 0, curtok := T_EOE,
    lasttok := T_EOE, tokstr := None, tokval := 0, curlval := init_lvalue, lastlval := init_lvalue\<rparr>"
  have "drop (tp s0) (expression s0) = itos v" by (simp add: s0_def)
  then obtain s1 s2 where s: "run ops F_readtok s0 = Ret 0 s1" "run ops F_comma s1 = Ret v s2" "curtok s2 = T_EOE"
      "same s0 s2" "env s2 = env s0"
    using literal_comma [OF v, of s0 ops] by auto
  have "run ops (F_subexpr (itos v)) s = subexpr (run ops) (itos v) s" by (simp add: run.simps body_def)
  also have "\<dots> = Ret v (RESTORETOK (SAVETOK s) (s2\<lparr>expression := expression s, expr_stack := expr_stack s\<rparr>))"
    using s itos_not_blank [OF v] st
    by (simp add: subexpr_def pushexp_def popexp_def s0_def [symmetric] same_def del: dropWhile_eq_Nil_conv)
      (simp add: s0_def popexp_def)
  finally show ?thesis
    using s by (simp add: restored_def same_def RESTORETOK_def SAVETOK_def s0_def)
qed

text \<open>
  The variables hold integers: \<open>val\<close> reads one and \<open>upd\<close> assigns it; an unset or empty variable counts as
  zero.
\<close>

definition int_vars :: "'e var_ops \<Rightarrow> ('e \<Rightarrow> cstring \<Rightarrow> int) \<Rightarrow> ('e \<Rightarrow> cstring \<Rightarrow> int \<Rightarrow> 'e) \<Rightarrow> bool" where
  "int_vars ops val upd \<longleftrightarrow>
     (\<forall>e x. legal_name x \<longrightarrow> in_int64 (val e x) \<and>
        (\<exists>w. vo_get ops e x False = Some (w, -1, e) \<and> (w = Some (itos (val e x)) \<or> (w = None \<or> w = Some []) \<and> val e x = 0))) \<and>
     (\<forall>e x v. legal_name x \<longrightarrow> in_int64 v \<longrightarrow> vo_bind ops e x (itos v) = (upd e x v, False))"

lemma eval_variable:
  assumes iv: "int_vars ops val upd" and x: "legal_name x" and st: "length (expr_stack s) < MAX_EXPR_RECURSION_LEVEL"
  shows "\<exists>s'. run ops (F_streval (p, x) False) s = Ret (if noeval s = 0 then val (env s) x else 0) s'
    \<and> expression s' = expression s \<and> expr_stack s' = expr_stack s \<and> noeval s' = noeval s \<and> env s' = env s
    \<and> curtok s' = curtok s \<and> tokstr s' = tokstr s \<and> (lv_ind (curlval s) = -1 \<longrightarrow> lv_ind (curlval s') = -1)"
proof (cases "noeval s = 0")
  case True
  obtain w where w: "vo_get ops (env s) x False = Some (w, -1, env s)"
    "w = Some (itos (val (env s) x)) \<or> (w = None \<or> w = Some []) \<and> val (env s) x = 0" and v: "in_int64 (val (env s) x)"
    using iv x unfolding int_vars_def by blast
  have ne: "itos (val (env s) x) \<noteq> []" using itos_not_blank [OF v] by auto
  obtain s' where "run ops (F_subexpr (itos (val (env s) x))) s = Ret (val (env s) x) s'" "restored s s'"
    using literal_subexpr [OF v st] by blast
  with True w ne show ?thesis
    unfolding run.simps [of ops "F_streval (p, x) False"]
    by (auto simp: body_def expr_streval_def restored_def same_def split: option.splits)
next
  case False
  then show ?thesis by (simp add: run.simps body_def expr_streval_def)
qed

text \<open>Reading a name: the token after it is read ahead, then the variable is evaluated.\<close>

fun next_kind :: "token list \<Rightarrow> tok" where
  "next_kind [] = T_EOE"
| "next_kind (t # _) = kind t"

lemma peek:
  assumes "drop (tp s) (expression s) = text_of ts" "lexable (curtok s) ts" "ts \<noteq> [] \<Longrightarrow> is_op (hd ts)"
  shows "\<exists>s'. run ops F_readtok s = Ret 0 s' \<and> moved s (next_kind ts) (text_of (tl ts)) s' \<and> value_kept s s'
    \<and> (\<forall>u ts'. ts = AssignOp u # ts' \<longrightarrow> assigntok s' = u)"
proof (cases ts)
  case Nil
  then show ?thesis using assms read_end [of s ops] by auto
next
  case (Cons t ts')
  then show ?thesis using assms read_op [of s t ts' ops] by auto
qed

lemma read_name:
  assumes iv: "int_vars ops val upd" and x: "legal_name x" and st: "length (expr_stack s) < MAX_EXPR_RECURSION_LEVEL"
    and d: "drop (tp s) (expression s) = text_of (Name x # ts)"
    and ts: "lexable T_STR ts" "ts \<noteq> [] \<Longrightarrow> is_op (hd ts)"
  shows "\<exists>s'. run ops F_readtok s = Ret 0 s' \<and> moved s T_STR (text_of ts) s' \<and> (\<exists>p. tokstr s' = Some (p, x))
    \<and> (next_kind ts \<noteq> T_EQ \<longrightarrow> tokval s' = (if noeval s = 0 then val (env s) x else 0))"
proof -
  obtain c y where c: "x = c # y" "legal_variable_starter c" using x by (cases x) (auto simp: legal_name_def)
  define i where "i = tp s + 1"
  have i: "span_from cr_whitespace (expression s) (tp s) = i" "char_at (expression s) i = c"
      "drop i (expression s) = x @ text_of ts"
    using blank_step [of "tp s" "expression s" "'' ''" c "y @ text_of ts"] d c starter_not_blank [OF c(2)]
    by (simp_all add: i_def cr_whitespace_def)
  define j where "j = span_from legal_variable_char (expression s) i"
  have "text_of ts = [] \<or> \<not> legal_variable_char (hd (text_of ts))"
    by (cases ts) (auto simp: legal_variable_char_def char_class_defs)
  with x i(3) span_from_word [of i "expression s" x "text_of ts" legal_variable_char]
  have j: "take (j - i) (drop i (expression s)) = x" "drop j (expression s) = text_of ts"
    by (simp_all add: j_def legal_name_def)
  have nb: "char_at (expression s) j \<noteq> CHR ''[''"
    using char_at_of_drop [of j "expression s" 0] j(2) by (cases ts) (auto simp: NUL_def)
  have cn: "c \<noteq> NUL" using c(2) by (auto simp: NUL_def legal_variable_starter_def char_class_defs)
  define s1 where "s1 = s\<lparr>tp := i, lasttp := i\<rparr>"
  define s2 where "s2 = (forget_lvalue s1)\<lparr>tokstr := Some (nextptr s, x), nextptr := nextptr s + 1\<rparr>"
  obtain s3 where s3: "run ops F_readtok (s2\<lparr>tokstr := None, tp := j, noeval := 1, curtok := T_STR\<rparr>) = Ret 0 s3"
      "moved (s2\<lparr>tokstr := None, tp := j, noeval := 1, curtok := T_STR\<rparr>) (next_kind ts) (text_of (tl ts)) s3"
    using peek [of "s2\<lparr>tokstr := None, tp := j, noeval := 1, curtok := T_STR\<rparr>" ts ops] ts j(2)
    by (auto simp: s2_def s1_def)
  define s4 where "s4 = RESTORETOK (SAVETOK s2) s3"
  have s4: "expression s4 = expression s" "expr_stack s4 = expr_stack s" "noeval s4 = noeval s" "env s4 = env s"
      "curtok s4 = curtok s" "tokstr s4 = Some (nextptr s, x)" "lv_ind (curlval s) = -1 \<Longrightarrow> lv_ind (curlval s4) = -1"
      "lasttok s4 = lasttok s"
    using s3(2) by (simp_all add: s4_def s2_def s1_def moved_def same_def RESTORETOK_def SAVETOK_def)
  have r: "run ops F_readtok s =
      (if lasttok s4 = T_PREINC \<or> lasttok s4 = T_PREDEC \<or> next_kind ts \<noteq> T_EQ then
         seq (run ops (F_streval (nextptr s, x) False)) (\<lambda>v s. Ret 0 (set_token T_STR j (s\<lparr>tokval := v\<rparr>)))
           (s4\<lparr>lastlval := curlval s4\<rparr>)
       else Ret 0 (set_token T_STR j (s4\<lparr>tokval := 0\<rparr>)))"
  proof -
    define s0 where "s0 = s"
    have f: "nextptr (forget_lvalue s1) = nextptr s" "tp (forget_lvalue s1) = i"
      "expression (forget_lvalue s1) = expression s" by (simp_all add: s1_def)
    have "run ops F_readtok s = readtok_name_at ops (run ops) j False s1"
      using i(1,2) c(2) cn nb by (simp add: run_readtok readtok_def readtok_name_def s1_def j_def)
    also have "\<dots> = seq (run ops F_readtok) (\<lambda>_ s. let peektok = curtok s; s = RESTORETOK (SAVETOK s2) s in
        if lasttok s = T_PREINC \<or> lasttok s = T_PREDEC \<or> peektok \<noteq> T_EQ
        then seq (run ops (F_streval (nextptr s0, x) False)) (\<lambda>v s. Ret 0 (set_token T_STR j (s\<lparr>tokval := v\<rparr>)))
               (s\<lparr>lastlval := curlval s\<rparr>)
        else Ret 0 (set_token T_STR j (s\<lparr>tokval := 0\<rparr>)))
        (s2\<lparr>tokstr := None, tp := j, noeval := 1, curtok := T_STR\<rparr>)"
      by (simp only: readtok_name_at_def Let_def f j(1) s2_def s0_def)
    finally show ?thesis
      using s3(2) by (simp only: seq_Ret [of "run ops F_readtok", OF s3(1)] Let_def s4_def [symmetric] s0_def moved_def)
  qed
  obtain s5 where s5: "run ops (F_streval (nextptr s, x) False) (s4\<lparr>lastlval := curlval s4\<rparr>)
        = Ret (if noeval s = 0 then val (env s) x else 0) s5"
      "expression s5 = expression s" "expr_stack s5 = expr_stack s" "noeval s5 = noeval s" "env s5 = env s"
      "curtok s5 = curtok s" "tokstr s5 = Some (nextptr s, x)" "lv_ind (curlval s) = -1 \<longrightarrow> lv_ind (curlval s5) = -1"
    using eval_variable [OF iv x, of "s4\<lparr>lastlval := curlval s4\<rparr>" "nextptr s"] st s4 by (auto cong: if_cong)
  show ?thesis
    using s4 s5 j(2) unfolding r by (auto simp: moved_def same_def set_token_def)
qed

end
