(* ===== verification/Expr_Correct.thy ===== *)
theory Expr_Correct
  imports Expr_Tokens
begin

text \<open>
  The evaluator computes what the grammar means. Expressions are syntax trees with a meaning (\<open>sem\<close>),
  printed with the parentheses that precedence requires and no others; evaluating the text gives the
  value of the tree, its error, and its effect on the variables.
\<close>

section \<open>Expressions\<close>

datatype aexp = Num nat | Var cstring | Unary tok aexp | Binary tok aexp aexp | Cond aexp aexp aexp | Comma aexp aexp
  | Assign cstring aexp | OpAssign cstring tok aexp | PreStep tok cstring | PostStep tok cstring

definition binary_ops :: "tok set" where
  "binary_ops = {T_LOR, T_LAND, T_BOR, T_BXOR, T_BAND, T_EQEQ, T_NEQ, T_LEQ, T_GEQ, T_LT, T_GT, T_LSH, T_RSH, T_PLUS,
     T_MINUS, T_MUL, T_DIV, T_MOD, T_POWER}"

fun wfe :: "aexp \<Rightarrow> bool" where
  "wfe (Num n) = True"
| "wfe (Var x) = legal_name x"
| "wfe (Unary t a) = (t \<in> unary_ops \<and> wfe a)"
| "wfe (Binary t a b) = (t \<in> binary_ops \<and> wfe a \<and> wfe b)"
| "wfe (Cond c a b) = (wfe c \<and> wfe a \<and> wfe b)"
| "wfe (Comma a b) = (wfe a \<and> wfe b)"
| "wfe (Assign x a) = (legal_name x \<and> wfe a)"
| "wfe (OpAssign x t a) = (legal_name x \<and> t \<in> assign_ops \<and> wfe a)"
| "wfe (PreStep t x) = ((t = T_PREINC \<or> t = T_PREDEC) \<and> legal_name x)"
| "wfe (PostStep t x) = ((t = T_POSTINC \<or> t = T_POSTDEC) \<and> legal_name x)"

definition binlev :: "tok \<Rightarrow> nat" where
  "binlev t = (case oplev t of Some l \<Rightarrow> l | None \<Rightarrow> 0)"

fun lev :: "aexp \<Rightarrow> nat" where
  "lev (Unary t a) = 14"
| "lev (Binary t a b) = binlev t"
| "lev (Cond c a b) = 2"
| "lev (Comma a b) = 0"
| "lev (Assign x a) = 1"
| "lev (OpAssign x t a) = 1"
| "lev _ = 15"

text \<open>
  The tokens of an expression; an operand of a lower level than its place needs goes in parentheses. The
  operators associate to the left, but for exponentiation, assignment and the conditional.
\<close>

definition paren :: "bool \<Rightarrow> token list \<Rightarrow> token list" where
  "paren b ts = (if b then Op T_LPAR # ts @ [Op T_RPAR] else ts)"

fun btoks :: "aexp \<Rightarrow> token list" where
  "btoks (Num n) = [Number n]"
| "btoks (Var x) = [Name x]"
| "btoks (Unary t a) = Op t # paren (lev a < 14) (btoks a)"
| "btoks (Binary t a b) =
     (if t = T_POWER then paren (lev a < 14) (btoks a) @ Op t # paren (lev b < 13) (btoks b)
      else paren (lev a < binlev t) (btoks a) @ Op t # paren (lev b < Suc (binlev t)) (btoks b))"
| "btoks (Cond c a b) =
     paren (lev c < 3) (btoks c) @ Op T_QUES # btoks a @ Op T_COL # paren (lev b < 2) (btoks b)"
| "btoks (Comma a b) = btoks a @ Op T_COMMA # paren (lev b < 1) (btoks b)"
| "btoks (Assign x a) = Name x # Op T_EQ # paren (lev a < 1) (btoks a)"
| "btoks (OpAssign x t a) = Name x # AssignOp t # paren (lev a < 1) (btoks a)"
| "btoks (PreStep t x) = [Op t, Name x]"
| "btoks (PostStep t x) = [Name x, Op t]"

definition toks :: "nat \<Rightarrow> aexp \<Rightarrow> token list" where
  "toks p e = paren (lev e < p) (btoks e)"

definition print_expr :: "aexp \<Rightarrow> cstring" where
  "print_expr e = text_of (btoks e)"

text \<open>The meaning of the operators, on 64-bit integers.\<close>

definition unop :: "tok \<Rightarrow> int \<Rightarrow> int" where
  "unop t v = (if t = T_NOT then of_bool_int (v = 0) else if t = T_BNOT then NOT v
     else if t = T_MINUS then wrap64 (- v) else v)"

definition binop :: "bool \<Rightarrow> tok \<Rightarrow> int \<Rightarrow> int \<Rightarrow> expr_error + int" where
  "binop ne t v w =
     (case t of
        T_BOR \<Rightarrow> Inr (v OR w) | T_BXOR \<Rightarrow> Inr (v XOR w) | T_BAND \<Rightarrow> Inr (v AND w)
      | T_EQEQ \<Rightarrow> Inr (of_bool_int (v = w)) | T_NEQ \<Rightarrow> Inr (of_bool_int (v \<noteq> w))
      | T_LEQ \<Rightarrow> Inr (of_bool_int (v \<le> w)) | T_GEQ \<Rightarrow> Inr (of_bool_int (v \<ge> w))
      | T_LT \<Rightarrow> Inr (of_bool_int (v < w)) | T_GT \<Rightarrow> Inr (of_bool_int (v > w))
      | T_LSH \<Rightarrow> Inr (shl64 v w) | T_RSH \<Rightarrow> Inr (shr64 v w)
      | T_PLUS \<Rightarrow> Inr (wrap64 (v + w)) | T_MINUS \<Rightarrow> Inr (wrap64 (v - w)) | T_MUL \<Rightarrow> Inr (wrap64 (v * w))
      | T_DIV \<Rightarrow> if w = 0 then (if ne then Inr v else Inl E_div0) else Inr (wrap64 (cquot v w))
      | T_MOD \<Rightarrow> if w = 0 then (if ne then Inr 0 else Inl E_div0) else Inr (crem v w)
      | T_POWER \<Rightarrow> if w < 0 then Inl E_exponent else Inr (wrap64 (v ^ nat w))
      | _ \<Rightarrow> Inr 0)"

definition andthen ::
  "(expr_error + int) \<times> 'e \<Rightarrow> (int \<Rightarrow> 'e \<Rightarrow> (expr_error + int) \<times> 'e) \<Rightarrow> (expr_error + int) \<times> 'e" where
  "andthen r f = (case r of (Inr v, e) \<Rightarrow> f v e | (Inl er, e) \<Rightarrow> (Inl er, e))"

text \<open>
  The meaning of an expression: its value or its error, and the variables afterwards. The operand that
  a logical operator or a conditional does not need is not evaluated.
\<close>

fun sem :: "('e \<Rightarrow> cstring \<Rightarrow> int) \<Rightarrow> ('e \<Rightarrow> cstring \<Rightarrow> int \<Rightarrow> 'e) \<Rightarrow> aexp \<Rightarrow> 'e \<Rightarrow> (expr_error + int) \<times> 'e" where
  "sem val upd (Num n) e = (Inr (wrap64 (int n)), e)"
| "sem val upd (Var x) e = (Inr (val e x), e)"
| "sem val upd (Unary t a) e = andthen (sem val upd a e) (\<lambda>v e. (Inr (unop t v), e))"
| "sem val upd (Binary t a b) e =
     andthen (sem val upd a e) (\<lambda>v e.
       if t = T_LOR then
         (if v \<noteq> 0 then (Inr 1, e) else andthen (sem val upd b e) (\<lambda>w e. (Inr (of_bool_int (w \<noteq> 0)), e)))
       else if t = T_LAND then
         (if v = 0 then (Inr 0, e) else andthen (sem val upd b e) (\<lambda>w e. (Inr (of_bool_int (w \<noteq> 0)), e)))
       else andthen (sem val upd b e) (\<lambda>w e. (binop False t v w, e)))"
| "sem val upd (Cond c a b) e =
     andthen (sem val upd c e) (\<lambda>v e. if v \<noteq> 0 then sem val upd a e else sem val upd b e)"
| "sem val upd (Comma a b) e = andthen (sem val upd a e) (\<lambda>_ e. sem val upd b e)"
| "sem val upd (Assign x a) e = andthen (sem val upd a e) (\<lambda>v e. (Inr v, upd e x v))"
| "sem val upd (OpAssign x t a) e =
     andthen (sem val upd a e) (\<lambda>v e'. andthen (binop False t (val e x) v, e') (\<lambda>w e. (Inr w, upd e x w)))"
| "sem val upd (PreStep t x) e =
     (let v = wrap64 (val e x + (if t = T_PREINC then 1 else -1)) in (Inr v, upd e x v))"
| "sem val upd (PostStep t x) e =
     (Inr (val e x), upd e x (wrap64 (val e x + (if t = T_POSTINC then 1 else -1))))"

text \<open>
  What the evaluator does, which reads the operands that are not needed too, with evaluation suppressed
  (\<open>ne\<close>): variables then count as zero and nothing is assigned.
\<close>

fun den ::
  "('e \<Rightarrow> cstring \<Rightarrow> int) \<Rightarrow> ('e \<Rightarrow> cstring \<Rightarrow> int \<Rightarrow> 'e) \<Rightarrow> bool \<Rightarrow> aexp \<Rightarrow> 'e \<Rightarrow> (expr_error + int) \<times> 'e" where
  "den val upd ne (Num n) e = (Inr (wrap64 (int n)), e)"
| "den val upd ne (Var x) e = (Inr (if ne then 0 else val e x), e)"
| "den val upd ne (Unary t a) e = andthen (den val upd ne a e) (\<lambda>v e. (Inr (unop t v), e))"
| "den val upd ne (Binary t a b) e =
     andthen (den val upd ne a e) (\<lambda>v e.
       if t = T_LOR then andthen (den val upd (ne \<or> v \<noteq> 0) b e) (\<lambda>w e. (Inr (of_bool_int (v \<noteq> 0 \<or> w \<noteq> 0)), e))
       else if t = T_LAND then andthen (den val upd (ne \<or> v = 0) b e) (\<lambda>w e. (Inr (of_bool_int (v \<noteq> 0 \<and> w \<noteq> 0)), e))
       else andthen (den val upd ne b e) (\<lambda>w e. (binop ne t v w, e)))"
| "den val upd ne (Cond c a b) e =
     andthen (den val upd ne c e) (\<lambda>v e.
       andthen (den val upd (ne \<or> v = 0) a e) (\<lambda>w1 e.
         andthen (den val upd (ne \<or> v \<noteq> 0) b e) (\<lambda>w2 e. (Inr (if v \<noteq> 0 then w1 else w2), e))))"
| "den val upd ne (Comma a b) e = andthen (den val upd ne a e) (\<lambda>_ e. den val upd ne b e)"
| "den val upd ne (Assign x a) e = andthen (den val upd ne a e) (\<lambda>v e. (Inr v, if ne then e else upd e x v))"
| "den val upd ne (OpAssign x t a) e =
     andthen (den val upd ne a e) (\<lambda>v e'.
       andthen (binop ne t (if ne then 0 else val e x) v, e') (\<lambda>w e. (Inr w, if ne then e else upd e x w)))"
| "den val upd ne (PreStep t x) e =
     (let v = wrap64 ((if ne then 0 else val e x) + (if t = T_PREINC then 1 else -1))
      in (Inr v, if ne then e else upd e x v))"
| "den val upd ne (PostStep t x) e =
     (Inr (if ne then 0 else val e x),
      if ne then e else upd e x (wrap64 (val e x + (if t = T_POSTINC then 1 else -1))))"

section \<open>The tokens of an expression can be read\<close>

definition followers :: "token list \<Rightarrow> bool" where
  "followers ts \<longleftrightarrow> (ts = [] \<or> (\<exists>t ts'. ts = Op t # ts' \<and> t \<in> plain_ops))"

lemma plain_ops_mem:
  "T_LPAR \<in> plain_ops" "T_RPAR \<in> plain_ops" "T_QUES \<in> plain_ops" "T_COL \<in> plain_ops" "T_COMMA \<in> plain_ops"
  "T_EQ \<in> plain_ops" "t \<in> binary_ops \<Longrightarrow> t \<in> plain_ops" "t \<in> unary_ops \<Longrightarrow> t \<in> plain_ops"
  by (auto simp: plain_ops_def binary_ops_def unary_ops_def)

lemma plain_not_step:
  "t \<in> plain_ops \<Longrightarrow> t \<noteq> T_PREINC \<and> t \<noteq> T_PREDEC \<and> t \<noteq> T_POSTINC \<and> t \<noteq> T_POSTDEC \<and> t \<noteq> T_STR \<and> t \<noteq> T_NUM"
  by (auto simp: plain_ops_def)

lemma followers_simps [simp]: "followers []" "followers (Op t # ts) \<longleftrightarrow> t \<in> plain_ops"
  by (auto simp: followers_def)

lemma followers_lexable: "followers ts \<Longrightarrow> lexable cur ts"
  using plain_not_step by (auto simp: followers_def)

lemma lexable_plain [simp]: "t \<in> plain_ops \<Longrightarrow> lexable cur (Op t # ts)"
  using plain_not_step by auto

text \<open>Tokens that can be read wherever an operand may start and an operator may follow.\<close>

definition readable :: "token list \<Rightarrow> bool" where
  "readable us \<longleftrightarrow> (\<forall>ts. chain ts \<longrightarrow> followers ts \<longrightarrow>
     chain (us @ ts) \<and> (\<forall>cur. cur \<noteq> T_STR \<longrightarrow> cur \<noteq> T_NUM \<longrightarrow> lexable cur (us @ ts)))"

lemma readable_prefix: "readable us \<Longrightarrow> t \<in> plain_ops \<Longrightarrow> readable (Op t # us)"
  using plain_not_step [of t] by (simp add: readable_def)

lemma readable_paren: "readable us \<Longrightarrow> readable (paren b us)"
  using plain_ops_mem readable_prefix [of us T_LPAR] by (simp add: readable_def paren_def followers_lexable)

lemma readable_infix: "readable us \<Longrightarrow> t \<in> plain_ops \<Longrightarrow> readable vs \<Longrightarrow> readable (us @ Op t # vs)"
  using readable_prefix [of vs t] by (simp add: readable_def)

lemma readable_assign:
  "legal_name x \<Longrightarrow> readable us \<Longrightarrow> readable (Name x # Op T_EQ # us)"
  "legal_name x \<Longrightarrow> t \<in> assign_ops \<Longrightarrow> readable us \<Longrightarrow> readable (Name x # AssignOp t # us)"
  using plain_ops_mem by (simp_all add: readable_def)

lemma readable_btoks: "wfe e \<Longrightarrow> readable (btoks e)"
proof (induction e)
  case (Cond c a b)
  then show ?case
    by (auto intro!: readable_infix [of _ T_QUES] readable_infix [of _ T_COL] readable_paren simp: plain_ops_mem)
next
  case (PreStep t x)
  then show ?case by (auto simp: readable_def followers_lexable)
qed (auto intro!: readable_prefix readable_infix readable_paren readable_assign simp: plain_ops_mem,
     auto simp: readable_def followers_lexable)

lemma readable_toks: "wfe e \<Longrightarrow> readable (toks p e)"
  by (simp add: toks_def readable_paren readable_btoks)

lemma toks_chain:
  assumes "wfe e" "chain ts" "followers ts"
  shows "chain (toks p e @ ts)" "cur \<noteq> T_STR \<Longrightarrow> cur \<noteq> T_NUM \<Longrightarrow> lexable cur (toks p e @ ts)"
  using readable_toks [OF assms(1), of p] assms by (auto simp: readable_def)


section \<open>States and outcomes\<close>

text \<open>The state has read the first token of \<open>ts\<close>, and the rest of the text is the rest of \<open>ts\<close>.\<close>

fun sees :: "('e \<Rightarrow> cstring \<Rightarrow> int) \<Rightarrow> 'e expr_state \<Rightarrow> token list \<Rightarrow> bool" where
  "sees val s [] \<longleftrightarrow> curtok s = T_EOE \<and> drop (tp s) (expression s) = []"
| "sees val s (t # ts) \<longleftrightarrow> curtok s = kind t \<and> drop (tp s) (expression s) = text_of ts \<and> chain (t # ts) \<and>
     (case t of
        Number n \<Rightarrow> tokval s = wrap64 (int n)
      | Name x \<Rightarrow> legal_name x \<and> (\<exists>p. tokstr s = Some (p, x)) \<and>
          (next_kind ts \<noteq> T_EQ \<longrightarrow> tokval s = (if noeval s = 0 then val (env s) x else 0))
      | AssignOp u \<Rightarrow> assigntok s = u
      | Op _ \<Rightarrow> True)"

definition ready :: "'e expr_state \<Rightarrow> bool" where
  "ready s \<longleftrightarrow> 0 \<le> noeval s \<and> length (expr_stack s) < MAX_EXPR_RECURSION_LEVEL \<and> lv_ind (curlval s) = -1"

lemma lexable_STR: "lexable T_STR ts \<Longrightarrow> ts \<noteq> [] \<Longrightarrow> is_op (hd ts)"
  by (cases ts; cases "hd ts") auto

lemma advance:
  assumes iv: "int_vars ops val upd" and s: "ready s" "drop (tp s) (expression s) = text_of ts"
    and ts: "lexable (curtok s) ts" "chain ts"
  shows "\<exists>s'. run ops F_readtok s = Ret 0 s' \<and> sees val s' ts \<and> same s s' \<and> env s' = env s \<and> lasttok s' = curtok s
    \<and> (ts = [] \<or> is_op (hd ts) \<longrightarrow> value_kept s s')"
proof (cases ts)
  case Nil
  then show ?thesis using read_end [of s ops] s by (auto simp: moved_def)
next
  case (Cons t ts')
  show ?thesis
  proof (cases t)
    case (Op k)
    then show ?thesis using read_op [of s t ts' ops] s ts Cons by (auto simp: moved_def)
  next
    case (AssignOp k)
    then show ?thesis using read_op [of s t ts' ops] s ts Cons by (auto simp: moved_def)
  next
    case (Number n)
    then show ?thesis using read_number [of s "'' ''" n "text_of ts'" ops] s ts Cons
      by (auto simp: moved_def cr_whitespace_def)
  next
    case (Name x)
    then have x: "legal_name x" "lexable T_STR ts'" "chain ts'" using ts Cons by simp_all
    obtain s' where s': "run ops F_readtok s = Ret 0 s'" "moved s T_STR (text_of ts') s'" "\<exists>p. tokstr s' = Some (p, x)"
        "next_kind ts' \<noteq> T_EQ \<longrightarrow> tokval s' = (if noeval s = 0 then val (env s) x else 0)"
      using read_name [OF iv x(1), of s ts'] lexable_STR [OF x(2)] s x(2) Name Cons by (auto simp: ready_def)
    then have "noeval s' = noeval s" "env s' = env s" by (simp_all add: moved_def same_def)
    with s' x Name Cons show ?thesis by (simp add: moved_def)
  qed
qed

lemma same_refl [simp]: "same s s"
  by (simp add: same_def)

lemma same_trans [trans]: "same s t \<Longrightarrow> same t u \<Longrightarrow> same s u"
  by (auto simp: same_def)

lemma same_ready: "same s t \<Longrightarrow> ready s \<Longrightarrow> ready t"
  by (auto simp: same_def ready_def)

lemma same_update [simp]:
  "same s (t\<lparr>lasttok := k\<rparr>) \<longleftrightarrow> same s t" "same s (t\<lparr>lasttp := i\<rparr>) \<longleftrightarrow> same s t" "same s (t\<lparr>env := e\<rparr>) \<longleftrightarrow> same s t"
  "same s (t\<lparr>tokstr := q\<rparr>) \<longleftrightarrow> same s t" "same s (t\<lparr>curtok := k\<rparr>) \<longleftrightarrow> same s t" "same (s\<lparr>lasttok := k\<rparr>) t \<longleftrightarrow> same s t"
  "same (s\<lparr>curtok := k\<rparr>) t \<longleftrightarrow> same s t" "same (s\<lparr>env := e\<rparr>) t \<longleftrightarrow> same s t"
  by (simp_all add: same_def)

text \<open>Where an expression ends: an operator of a lower level, a closing parenthesis, a colon or the end.\<close>

definition follow :: "nat \<Rightarrow> token list \<Rightarrow> bool" where
  "follow p ts \<longleftrightarrow> (ts = [] \<or> (\<exists>t ts'. ts = Op t # ts' \<and> t \<in> plain_ops \<and> t \<noteq> T_EQ \<and> (\<forall>l. oplev t = Some l \<longrightarrow> l < p)))"

lemma follow_mono: "follow p ts \<Longrightarrow> p \<le> q \<Longrightarrow> follow q ts"
  by (fastforce simp: follow_def)

lemma follow_followers: "follow p ts \<Longrightarrow> followers ts"
  by (auto simp: follow_def)

lemma follow_sees: "follow p ts \<Longrightarrow> sees val s ts \<Longrightarrow> p \<le> l \<Longrightarrow> oplev (curtok s) \<noteq> Some l"
  by (auto simp: follow_def)

lemma follow_update [simp]:
  "follow p ts \<Longrightarrow> sees val (s\<lparr>lasttok := k\<rparr>) ts \<longleftrightarrow> sees val s ts"
  "follow p ts \<Longrightarrow> sees val (s\<lparr>env := e\<rparr>) ts \<longleftrightarrow> sees val s ts"
  "follow p ts \<Longrightarrow> sees val (s\<lparr>noeval := n\<rparr>) ts \<longleftrightarrow> sees val s ts"
  by (auto simp: follow_def)

text \<open>
  A call with the result \<open>r\<close> ends as the meaning \<open>d\<close> says, having read up to \<open>ts\<close>: with a value it goes on as
  \<open>K\<close>, with an error it jumps. \<open>outc\<close> is a call that returns; \<open>spine\<close> a level that has evaluated its operands
  so far to the value and is in its loop.
\<close>

definition ends ::
  "(int \<Rightarrow> 'e action) \<Rightarrow> ('e \<Rightarrow> cstring \<Rightarrow> int) \<Rightarrow> 'e res option \<Rightarrow> 'e expr_state \<Rightarrow> token list \<Rightarrow>
   (expr_error + int) \<times> 'e \<Rightarrow> bool" where
  "ends K val r s ts d \<longleftrightarrow>
     (case d of
        (Inr v, e') \<Rightarrow> \<exists>s'. r = K v s' \<and> sees val s' ts \<and> same s s' \<and> env s' = e'
      | (Inl er, e') \<Rightarrow> \<exists>s'. r = Jump er s' \<and> env s' = e')"

abbreviation outc ::
  "('e \<Rightarrow> cstring \<Rightarrow> int) \<Rightarrow> 'e res option \<Rightarrow> 'e expr_state \<Rightarrow> token list \<Rightarrow> (expr_error + int) \<times> 'e \<Rightarrow> bool" where
  "outc \<equiv> ends Ret"

abbreviation spine ::
  "'e var_ops \<Rightarrow> nat \<Rightarrow> ('e \<Rightarrow> cstring \<Rightarrow> int) \<Rightarrow> 'e res option \<Rightarrow> 'e expr_state \<Rightarrow> token list \<Rightarrow>
   (expr_error + int) \<times> 'e \<Rightarrow> bool" where
  "spine ops l \<equiv> ends (\<lambda>v. run ops (loopof l v))"

lemma ends_same: "ends K val r t ts d \<Longrightarrow> same s t \<Longrightarrow> ends K val r s ts d"
  unfolding ends_def by (auto split: sum.splits dest!: same_trans [of s t])

lemma ends_Inr [simp]: "ends K val r s ts (Inr v, e) \<longleftrightarrow> (\<exists>s'. r = K v s' \<and> sees val s' ts \<and> same s s' \<and> env s' = e)"
  by (simp add: ends_def)

lemma ends_Inl [simp]: "ends K val r s ts (Inl er, e) \<longleftrightarrow> (\<exists>s'. r = Jump er s' \<and> env s' = e)"
  by (simp add: ends_def)

lemma andthen_simps [simp]: "andthen (Inr v, e) f = f v e" "andthen (Inl er, e) f = (Inl er, e)"
  by (simp_all add: andthen_def)

text \<open>A call and then what is done with its value.\<close>

lemma ends_bind:
  assumes "ends K val r s us d"
    and "\<And>v s'. d = (Inr v, env s') \<Longrightarrow> sees val s' us \<Longrightarrow> same s s' \<Longrightarrow> ends L val (K v s') s ts (h v (env s'))"
  shows "ends L val r s ts (andthen d h)"
proof (cases d)
  case (Pair x e)
  then show ?thesis using assms by (cases x) auto
qed

lemma ends_seq:
  assumes "outc val (m s) s us d"
    and "\<And>v s'. d = (Inr v, env s') \<Longrightarrow> sees val s' us \<Longrightarrow> same s s' \<Longrightarrow> ends L val (g v s') s ts (h v (env s'))"
  shows "ends L val (seq m g s) s ts (andthen d h)"
proof (cases d)
  case (Pair x e)
  then show ?thesis using assms by (cases x) auto
qed

text \<open>Reading the token after the current one.\<close>

lemma sees_chain: "sees val s (t # ts) \<Longrightarrow> curtok s = kind t \<and> drop (tp s) (expression s) = text_of ts \<and> lexable (kind t) ts \<and> chain ts"
  by simp

lemma ends_read:
  assumes iv: "int_vars ops val upd" and s: "ready s" "sees val s (t # us)"
    and "\<And>s'. sees val s' us \<Longrightarrow> same s s' \<Longrightarrow> env s' = env s \<Longrightarrow> lasttok s' = curtok s \<Longrightarrow> ends K val (g s') s ts d"
  shows "ends K val (seq (run ops F_readtok) (\<lambda>_. g) s) s ts d"
proof -
  obtain s' where "run ops F_readtok s = Ret 0 s'" "sees val s' us" "same s s'" "env s' = env s" "lasttok s' = curtok s"
    using advance [OF iv s(1), of us] sees_chain [OF s(2)] by auto
  with assms(4) show ?thesis by simp
qed

text \<open>Down the levels whose operators do not follow.\<close>

lemma outc_skip:
  assumes "outc val (run ops (fnof m) s) s ts d" "p \<le> m" "m \<le> 15" "follow p ts" "m = 15 \<Longrightarrow> curtok s \<notin> unary_ops"
  shows "outc val (run ops (fnof p) s) s ts d"
proof (cases d)
  case (Pair r e)
  show ?thesis
  proof (cases r)
    case (Inl er)
    then show ?thesis using assms Pair levels_jump [of p m ops s er] by auto
  next
    case (Inr v)
    then obtain s' where s': "run ops (fnof m) s = Ret v s'" "sees val s' ts" "same s s'" "env s' = e"
      using assms(1) Pair by auto
    then have "run ops (fnof p) s = Ret v s'"
      using follow_sees [OF assms(4) s'(2)] assms(2-5) by (intro levels_skip [of p m]) auto
    with s' Pair Inr show ?thesis by auto
  qed
qed

lemma outc_paren:
  assumes iv: "int_vars ops val upd" and s: "ready s" "sees val s (Op T_LPAR # us @ Op T_RPAR # ts)"
    and inner: "\<And>s'. sees val s' (us @ Op T_RPAR # ts) \<Longrightarrow> same s s' \<Longrightarrow> env s' = env s \<Longrightarrow>
      outc val (run ops F_comma s') s' (Op T_RPAR # ts) d"
  shows "outc val (run ops F_exp0 s) s ts d"
proof -
  have "run ops F_exp0 s = seq (run ops F_readtok) (\<lambda>_. seq (run ops F_comma)
      (\<lambda>v s. if curtok s \<noteq> T_RPAR then evalerror E_paren s else seq (run ops F_readtok) (\<lambda>_. Ret v) s)) s"
    using s(2) unfolding run.simps [of ops F_exp0 s] by (simp add: body_def exp0_def)
  also have "outc val \<dots> s ts (andthen d (\<lambda>v e. (Inr v, e)))"
  proof (rule ends_read [OF iv s], rule ends_same, rule ends_seq)
    fix s' assume s': "sees val s' (us @ Op T_RPAR # ts)" "same s s'" "env s' = env s"
    then show "outc val (run ops F_comma s') s' (Op T_RPAR # ts) d" by (rule inner)
    show "same s s'" by fact
    fix v s2 assume s2: "sees val s2 (Op T_RPAR # ts)" "same s' s2"
    have "outc val (seq (run ops F_readtok) (\<lambda>_. Ret v) s2) s2 ts (Inr v, env s2)"
      using same_ready [OF same_trans [OF s'(2) s2(2)] s(1)] s2(1) by (rule ends_read [OF iv]) auto
    from ends_same [OF this s2(2)] s2(1)
    show "outc val (if curtok s2 \<noteq> T_RPAR then evalerror E_paren s2 else seq (run ops F_readtok) (\<lambda>_. Ret v) s2) s' ts
        (Inr v, env s2)" by simp
  qed
  finally show ?thesis by (cases d; cases "fst d") auto
qed

section \<open>Every expression is evaluated to its meaning\<close>

text \<open>
  What is proved of an expression by induction: at its own level it is evaluated to its meaning. At a
  level with a loop, an operator of the same level may follow.
\<close>

definition looping :: "nat \<Rightarrow> bool" where
  "looping l \<longleftrightarrow> l = 0 \<or> 3 \<le> l \<and> l \<le> 12"

definition claim :: "'e var_ops \<Rightarrow> ('e \<Rightarrow> cstring \<Rightarrow> int) \<Rightarrow> ('e \<Rightarrow> cstring \<Rightarrow> int \<Rightarrow> 'e) \<Rightarrow> aexp \<Rightarrow> bool" where
  "claim ops val upd e \<longleftrightarrow>
     (\<forall>s ts. sees val s (btoks e @ ts) \<longrightarrow> ready s \<longrightarrow>
       (if looping (lev e)
        then follow (Suc (lev e)) ts \<longrightarrow> spine ops (lev e) val (run ops (fnof (lev e)) s) s ts (den val upd (noeval s \<noteq> 0) e (env s))
        else follow (lev e) ts \<longrightarrow> outc val (run ops (fnof (lev e)) s) s ts (den val upd (noeval s \<noteq> 0) e (env s))))"

lemma claimI:
  assumes "\<not> looping (lev e)"
    and "\<And>s ts. sees val s (btoks e @ ts) \<Longrightarrow> ready s \<Longrightarrow> follow (lev e) ts \<Longrightarrow>
      outc val (run ops (fnof (lev e)) s) s ts (den val upd (noeval s \<noteq> 0) e (env s))"
  shows "claim ops val upd e"
  using assms unfolding claim_def by metis

lemma claim_loopI:
  assumes "looping (lev e)"
    and "\<And>s ts. sees val s (btoks e @ ts) \<Longrightarrow> ready s \<Longrightarrow> follow (Suc (lev e)) ts \<Longrightarrow>
      spine ops (lev e) val (run ops (fnof (lev e)) s) s ts (den val upd (noeval s \<noteq> 0) e (env s))"
  shows "claim ops val upd e"
  using assms unfolding claim_def by metis

lemma lev_le: "wfe e \<Longrightarrow> lev e \<le> 15"
  by (cases e) (auto simp: binlev_def binary_ops_def)

lemma claim_level:
  assumes c: "claim ops val upd e" and s: "sees val s (btoks e @ ts)" "ready s" "follow (lev e) ts"
  shows "outc val (run ops (fnof (lev e)) s) s ts (den val upd (noeval s \<noteq> 0) e (env s))"
proof (cases "looping (lev e)")
  case True
  have f: "follow (Suc (lev e)) ts" using s(3) by (rule follow_mono) simp
  obtain x e' where d: "den val upd (noeval s \<noteq> 0) e (env s) = (x, e')" by fastforce
  with c s(1,2) f True have "spine ops (lev e) val (run ops (fnof (lev e)) s) s ts (x, e')"
    unfolding claim_def by metis
  moreover have "run ops (loopof (lev e) v) s' = Ret v s'" if "sees val s' ts" for v s'
    using follow_sees [OF s(3) that] True by (intro loop_exit) (auto simp: looping_def)
  ultimately show ?thesis unfolding d by (cases x) auto
next
  case False
  with c s show ?thesis unfolding claim_def by metis
qed

lemma not_unary_first: "lev e = 15 \<Longrightarrow> sees val s (btoks e @ ts) \<Longrightarrow> wfe e \<Longrightarrow> curtok s \<notin> unary_ops"
  by (cases e) (auto simp: unary_ops_def binlev_def binary_ops_def)

lemma claim_toks:
  assumes iv: "int_vars ops val upd" and c: "claim ops val upd e" "wfe e" and p: "p \<le> 15"
    and s: "sees val s (toks p e @ ts)" "ready s" "follow p ts"
  shows "outc val (run ops (fnof p) s) s ts (den val upd (noeval s \<noteq> 0) e (env s))"
proof (cases "lev e < p")
  case False
  then have "sees val s (btoks e @ ts)" using s(1) by (simp add: toks_def paren_def)
  note s1 = this
  have "p \<le> lev e" using False by simp
  show ?thesis
    by (rule outc_skip [OF claim_level [OF c(1) s1 s(2) follow_mono [OF s(3) \<open>p \<le> lev e\<close>]] \<open>p \<le> lev e\<close> lev_le [OF c(2)] s(3)])
      (rule not_unary_first [OF _ s1 c(2)])
next
  case True
  have f: "follow 0 (Op T_RPAR # ts)" by (simp add: follow_def plain_ops_mem)
  from True have s1: "sees val s (Op T_LPAR # btoks e @ Op T_RPAR # ts)" using s(1) by (simp add: toks_def paren_def)
  then have "outc val (run ops F_exp0 s) s ts (den val upd (noeval s \<noteq> 0) e (env s))"
  proof (rule outc_paren [OF iv s(2)])
    fix s' assume s': "sees val s' (btoks e @ Op T_RPAR # ts)" "same s s'" "env s' = env s"
    have "outc val (run ops (fnof 0) s') s' (Op T_RPAR # ts) (den val upd (noeval s' \<noteq> 0) e (env s'))"
      by (rule outc_skip [OF claim_level [OF c(1) s'(1) same_ready [OF s'(2) s(2)] follow_mono [OF f]] _ lev_le [OF c(2)] f])
        (simp_all add: not_unary_first [OF _ s'(1) c(2)])
    then show "outc val (run ops F_comma s') s' (Op T_RPAR # ts) (den val upd (noeval s \<noteq> 0) e (env s))"
      using s'(2,3) by (simp only: same_def fnof_simps)
  qed
  then show ?thesis
    using outc_skip [of val ops 15 s ts _ p] s1 p s(3) by (simp add: unary_ops_def)
qed

text \<open>The first operand of a level with a loop.\<close>

lemma claim_left:
  assumes iv: "int_vars ops val upd" and c: "claim ops val upd e" "wfe e" and l: "looping l"
    and s: "sees val s (toks l e @ ts)" "ready s" "follow (Suc l) ts"
  shows "spine ops l val (run ops (fnof l) s) s ts (den val upd (noeval s \<noteq> 0) e (env s))"
proof (cases "lev e = l")
  case True
  then show ?thesis using c s l unfolding claim_def by (simp add: toks_def paren_def)
next
  case False
  then have "lev e < l \<longleftrightarrow> lev e < Suc l" by auto
  then have "toks l e = toks (Suc l) e" by (simp add: toks_def)
  then have o: "outc val (run ops (fnof (Suc l)) s) s ts (den val upd (noeval s \<noteq> 0) e (env s))"
    using claim_toks [OF iv c, of "Suc l"] l s by (auto simp: looping_def)
  have "run ops (fnof l) s = seq (run ops (fnof (Suc l))) (\<lambda>v. run ops (loopof l v)) s"
    using l by (intro level_loop) (auto simp: looping_def)
  then show ?thesis using o by (cases "den val upd (noeval s \<noteq> 0) e (env s)"; cases "fst (den val upd (noeval s \<noteq> 0) e (env s))") auto
qed

subsection \<open>Operands\<close>

lemma sees_cong:
  assumes "follow p ts" "sees val s ts" "curtok s' = curtok s" "drop (tp s') (expression s') = drop (tp s) (expression s)"
  shows "sees val s' ts"
  using assms by (auto simp: follow_def)

lemma seq_assoc: "seq m (\<lambda>v. seq (f v) g) s = seq (seq m f) g s"
  by (cases "m s") (auto simp: seq_def split: res.splits)

lemma read_operand:
  assumes iv: "int_vars ops val upd" and c: "claim ops val upd e" "wfe e" and p: "p \<le> 15"
    and s: "sees val s (t # toks p e @ ts)" "ready s" "follow p ts"
  shows "outc val (seq (run ops F_readtok) (\<lambda>_. run ops (fnof p)) s) s ts (den val upd (noeval s \<noteq> 0) e (env s))"
proof (rule ends_read [OF iv s(2,1)])
  fix s' assume s': "sees val s' (toks p e @ ts)" "same s s'" "env s' = env s"
  from claim_toks [OF iv c p s'(1) same_ready [OF s'(2) s(2)] s(3)]
  have "outc val (run ops (fnof p) s') s' ts (den val upd (noeval s \<noteq> 0) e (env s))"
    using s'(2,3) by (simp only: same_def)
  then show "outc val (run ops (fnof p) s') s ts (den val upd (noeval s \<noteq> 0) e (env s))"
    using s'(2) by (rule ends_same)
qed

text \<open>A number and a name.\<close>

lemma claim_Num:
  assumes iv: "int_vars ops val upd"
  shows "claim ops val upd (Num n)"
proof -
  have "outc val (run ops F_exp0 s) s ts (Inr (wrap64 (int n)), env s)"
    if s: "sees val s (Number n # ts)" "ready s" for s :: "'a expr_state" and ts
  proof -
    have "run ops F_exp0 s = seq (run ops F_readtok) (\<lambda>_. Ret (tokval s)) s"
      using s(1) unfolding run.simps [of ops F_exp0 s] by (simp add: body_def exp0_def)
    also have "outc val \<dots> s ts (Inr (wrap64 (int n)), env s)"
      using s(1) by (intro ends_read [OF iv s(2,1)]) auto
    finally show ?thesis .
  qed
  then show ?thesis by (simp add: claim_def looping_def)
qed

lemma peek_name:
  assumes iv: "int_vars ops val upd" and s: "sees val s (Name x # ts)" "ready s"
  shows "\<exists>s1. run ops F_readtok (s\<lparr>tokstr := None, noeval := 1\<rparr>) = Ret 0 s1 \<and> curtok s1 = next_kind ts
    \<and> expression s1 = expression s \<and> expr_stack s1 = expr_stack s \<and> env s1 = env s
    \<and> drop (tp s1) (expression s) = text_of (tl ts)"
proof -
  have l: "lexable T_STR ts" using s(1) by simp
  with peek [of "s\<lparr>tokstr := None, noeval := 1\<rparr>" ts ops] lexable_STR [OF l] s(1)
  show ?thesis by (auto simp: moved_def same_def)
qed

lemma exp0_name:
  assumes iv: "int_vars ops val upd" and s: "sees val s (Name x # ts)" "ready s"
    and n: "next_kind ts \<noteq> T_POSTINC" "next_kind ts \<noteq> T_POSTDEC"
  shows "\<exists>s'. run ops F_exp0 s = Ret (tokval s) s' \<and> sees val s' ts \<and> same s s' \<and> env s' = env s \<and> lasttok s' = T_STR
    \<and> (ts = [] \<or> is_op (hd ts) \<longrightarrow> tokstr s' = tokstr s)"
proof -
  obtain s1 where s1: "run ops F_readtok (s\<lparr>tokstr := None, noeval := 1\<rparr>) = Ret 0 s1" "curtok s1 = next_kind ts"
      "expression s1 = expression s" "expr_stack s1 = expr_stack s" "env s1 = env s"
    using peek_name [OF iv s] by blast
  define r where "r = RESTORETOK (SAVETOK s) s1"
  have r: "same s r" "env r = env s" "curtok r = T_STR" "drop (tp r) (expression r) = text_of ts" "tokstr r = tokstr s"
    using s1 s(1) by (simp_all add: r_def RESTORETOK_def SAVETOK_def same_def)
  have "run ops F_exp0 s = seq (run ops F_readtok) (\<lambda>_. Ret (tokval s)) r"
    using s(1) s1 n unfolding run.simps [of ops F_exp0 s] by (simp add: body_def exp0_def Let_def r_def)
  moreover obtain s' where "run ops F_readtok r = Ret 0 s'" "sees val s' ts" "same r s'" "env s' = env r"
      "lasttok s' = curtok r" "ts = [] \<or> is_op (hd ts) \<longrightarrow> value_kept r s'"
    using advance [OF iv same_ready [OF r(1) s(2)] r(4)] r(3) s(1) by auto
  ultimately show ?thesis
    using r same_trans [OF r(1)] by (auto simp: value_kept_def)
qed

lemma claim_Var:
  assumes iv: "int_vars ops val upd" and x: "legal_name x"
  shows "claim ops val upd (Var x)"
proof -
  have "outc val (run ops F_exp0 s) s ts (Inr (if noeval s \<noteq> 0 then 0 else val (env s) x), env s)"
    if s: "sees val s (Name x # ts)" "ready s" "follow 15 ts" for s :: "'a expr_state" and ts
  proof -
    have n: "next_kind ts \<noteq> T_POSTINC" "next_kind ts \<noteq> T_POSTDEC" "next_kind ts \<noteq> T_EQ"
      using s(3) by (auto simp: follow_def plain_ops_def)
    show ?thesis
      using exp0_name [OF iv s(1,2) n(1,2)] s(1) n(3) by auto
  qed
  then show ?thesis by (simp add: claim_def looping_def)
qed

text \<open>Increments and decrements.\<close>

lemma bind_name:
  assumes iv: "int_vars ops val upd" and x: "legal_name x" "in_int64 v"
  shows "expr_bind_variable ops x (itos v) s = Ret 0 (s\<lparr>env := upd (env s) x v\<rparr>)"
  using assms by (auto simp: expr_bind_variable_def int_vars_def legal_name_def)

lemma bind_incdec_name:
  assumes iv: "int_vars ops val upd" and x: "legal_name x" "in_int64 v"
    and s: "tokstr s = Some (p, x)" "lv_ind (curlval s) = -1"
  shows "bind_incdec ops v s = Ret 0 (s\<lparr>env := (if noeval s = 0 then upd (env s) x v else env s)\<rparr>)"
  using bind_name [OF iv x] s by (simp add: bind_incdec_def)

text \<open>Reading on after the variable was assigned.\<close>

lemma read_after_step:
  assumes iv: "int_vars ops val upd" and s: "ready s" "drop (tp s) (expression s) = text_of ts" "chain ts" "follow 15 ts"
  shows "\<exists>s'. run ops F_readtok (s\<lparr>curtok := T_NUM\<rparr>) = Ret 0 s' \<and> sees val s' ts \<and> same s s' \<and> env s' = env s"
  using advance [OF iv, of "s\<lparr>curtok := T_NUM\<rparr>" ts] s followers_lexable [OF follow_followers [OF s(4)]]
  by (auto simp: ready_def)

lemma ready_update [simp]: "ready (s\<lparr>env := e\<rparr>) = ready s" "ready (s\<lparr>lasttok := k\<rparr>) = ready s"
  by (simp_all add: ready_def)

lemma claim_PreStep:
  assumes iv: "int_vars ops val upd" and x: "legal_name x" and t: "t = T_PREINC \<or> t = T_PREDEC"
  shows "claim ops val upd (PreStep t x)"
proof -
  have "outc val (run ops F_exp0 s) s ts (den val upd (noeval s \<noteq> 0) (PreStep t x) (env s))"
    if s: "sees val s (Op t # Name x # ts)" "ready s" "follow 15 ts" for s :: "'a expr_state" and ts
  proof -
    obtain s1 where s1: "run ops F_readtok (s\<lparr>lasttok := t\<rparr>) = Ret 0 s1" "sees val s1 (Name x # ts)" "same s s1" "env s1 = env s"
      using advance [OF iv, of "s\<lparr>lasttok := t\<rparr>" "Name x # ts"] s by auto
    define v where "v = wrap64 (tokval s1 + (if t = T_PREINC then 1 else -1))"
    have n: "next_kind ts \<noteq> T_EQ" using s(3) by (auto simp: follow_def)
    then have v: "v = wrap64 ((if noeval s \<noteq> 0 then 0 else val (env s) x) + (if t = T_PREINC then 1 else -1))"
      using s1 by (auto simp: v_def same_def)
    define s2 where "s2 = s1\<lparr>env := (if noeval s = 0 then upd (env s) x v else env s)\<rparr>"
    have r1: "ready s1" using same_ready [OF s1(3) s(2)] .
    have "bind_incdec ops v s1 = Ret 0 s2"
      using bind_incdec_name [OF iv x, of v s1] s1 r1 by (auto simp: s2_def v_def same_def ready_def)
    moreover obtain s3 where s3: "run ops F_readtok (s2\<lparr>curtok := T_NUM\<rparr>) = Ret 0 s3" "sees val s3 ts" "same s2 s3" "env s3 = env s2"
      using read_after_step [OF iv, of s2 ts] s1(2) r1 s(3) by (auto simp: s2_def)
    ultimately have "run ops F_exp0 s = Ret v s3"
      using s(1) t s1 unfolding run.simps [of ops F_exp0 s] by (auto simp: body_def exp0_def v_def)
    moreover have "same s s3" using same_trans [OF s1(3)] s3(3) by (simp add: s2_def)
    ultimately show ?thesis using s3 v by (auto simp: Let_def s2_def)
  qed
  then show ?thesis by (intro claimI) (simp_all add: looping_def del: sees.simps den.simps ends_Inr)
qed

lemma claim_PostStep:
  assumes iv: "int_vars ops val upd" and x: "legal_name x" and t: "t = T_POSTINC \<or> t = T_POSTDEC"
  shows "claim ops val upd (PostStep t x)"
proof -
  have "outc val (run ops F_exp0 s) s ts (den val upd (noeval s \<noteq> 0) (PostStep t x) (env s))"
    if s: "sees val s (Name x # Op t # ts)" "ready s" "follow 15 ts" for s :: "'a expr_state" and ts
  proof -
    obtain s1 where s1: "run ops F_readtok (s\<lparr>tokstr := None, noeval := 1\<rparr>) = Ret 0 s1" "curtok s1 = t"
        "expression s1 = expression s" "expr_stack s1 = expr_stack s" "env s1 = env s"
        "drop (tp s1) (expression s) = text_of ts"
      using peek_name [OF iv s(1,2)] by auto
    have u: "tokval s = (if noeval s \<noteq> 0 then 0 else val (env s) x)" using s(1) t by auto
    define v where "v = wrap64 (tokval s + (if t = T_POSTINC then 1 else -1))"
    define r where "r = s1\<lparr>tokstr := tokstr s, noeval := noeval s, curlval := curlval s, lasttok := T_STR\<rparr>"
    have r: "same s r" "ready r" "env r = env s" using s1 s(2) by (simp_all add: r_def same_def ready_def)
    define s2 where "s2 = r\<lparr>env := (if noeval s = 0 then upd (env s) x v else env s)\<rparr>"
    have "bind_incdec ops v r = Ret 0 s2"
      using bind_incdec_name [OF iv x, of v r] s(1) r s1(5) by (auto simp: s2_def v_def r_def ready_def)
    moreover obtain s3 where s3: "run ops F_readtok (s2\<lparr>curtok := T_NUM\<rparr>) = Ret 0 s3" "sees val s3 ts" "same s2 s3" "env s3 = env s2"
      using read_after_step [OF iv, of s2 ts] s(1,3) r(2) s1(3,6) by (auto simp: s2_def r_def)
    ultimately have "run ops F_exp0 s = Ret (tokval s) s3"
      using s(1) t s1(1,2) unfolding run.simps [of ops F_exp0 s]
      by (auto simp: body_def exp0_def v_def Let_def r_def SAVETOK_def)
    moreover have "same s s3" using same_trans [OF r(1)] s3(3) by (simp add: s2_def)
    ultimately show ?thesis using s3 u by (auto simp: s2_def v_def)
  qed
  then show ?thesis by (intro claimI) (simp_all add: looping_def del: sees.simps den.simps ends_Inr)
qed

subsection \<open>Operators\<close>

lemma claim_Unary:
  assumes iv: "int_vars ops val upd" and c: "claim ops val upd a" "wfe a" and t: "t \<in> unary_ops"
  shows "claim ops val upd (Unary t a)"
proof -
  have "outc val (run ops F_exp1 s) s ts (andthen (den val upd (noeval s \<noteq> 0) a (env s)) (\<lambda>v e. (Inr (unop t v), e)))"
    if s: "sees val s (Op t # toks 14 a @ ts)" "ready s" "follow 14 ts" for s :: "'a expr_state" and ts
  proof -
    have "run ops F_exp1 s = seq (seq (run ops F_readtok) (\<lambda>_. run ops (fnof 14)))
        (\<lambda>v s. Ret (unop t v) (s\<lparr>lasttok := T_NUM\<rparr>)) s"
      using s(1) t unfolding run.simps [of ops F_exp1 s] seq_assoc [symmetric]
      by (auto simp: body_def exp1_def unop_def unary_ops_def)
    also have "outc val \<dots> s ts (andthen (den val upd (noeval s \<noteq> 0) a (env s)) (\<lambda>v e. (Inr (unop t v), e)))"
      by (rule ends_seq, rule read_operand [OF iv c _ s]) (use s(3) in auto)
    finally show ?thesis .
  qed
  then show ?thesis by (intro claimI) (simp_all add: looping_def toks_def del: sees.simps)
qed

lemma claim_Power:
  assumes iv: "int_vars ops val upd" and c: "claim ops val upd a" "wfe a" "claim ops val upd b" "wfe b"
  shows "claim ops val upd (Binary T_POWER a b)"
proof -
  have "outc val (run ops F_power s) s ts (andthen (den val upd (noeval s \<noteq> 0) a (env s)) (\<lambda>v e.
      andthen (den val upd (noeval s \<noteq> 0) b e) (\<lambda>w e. (binop (noeval s \<noteq> 0) T_POWER v w, e))))"
    if s: "sees val s (toks 14 a @ Op T_POWER # toks 13 b @ ts)" "ready s" "follow 13 ts" for s :: "'a expr_state" and ts
  proof -
    have f: "follow 14 (Op T_POWER # toks 13 b @ ts)" by (simp add: follow_def plain_ops_def)
    have "run ops F_power s = seq (run ops (fnof 14)) (\<lambda>v. run ops (loopof 13 v)) s"
      using level_loop [of 13 ops s] by simp
    also have "outc val \<dots> s ts (andthen (den val upd (noeval s \<noteq> 0) a (env s)) (\<lambda>v e.
        andthen (den val upd (noeval s \<noteq> 0) b e) (\<lambda>w e. (binop (noeval s \<noteq> 0) T_POWER v w, e))))"
    proof (rule ends_seq)
      show "outc val (run ops (fnof 14) s) s (Op T_POWER # toks 13 b @ ts) (den val upd (noeval s \<noteq> 0) a (env s))"
        by (rule claim_toks [OF iv c(1,2) _ s(1,2) f]) simp
      fix v s1 assume s1: "sees val s1 (Op T_POWER # toks 13 b @ ts)" "same s s1"
      have "run ops (loopof 13 v) s1 = seq (seq (run ops F_readtok) (\<lambda>_. run ops (fnof 13)))
          (\<lambda>w s. let s = s\<lparr>lasttok := T_NUM\<rparr> in if w = 0 then Ret 1 s
             else if w < 0 then evalerror E_exponent s else run ops (F_power_loop (ipow v w)) s) s1"
        using s1(1) unfolding run.simps [of ops "loopof 13 v" s1] seq_assoc [symmetric]
        by (simp add: body_def exppower_loop_def)
      also have "outc val \<dots> s1 ts (andthen (den val upd (noeval s1 \<noteq> 0) b (env s1)) (\<lambda>w e. (binop (noeval s \<noteq> 0) T_POWER v w, e)))"
      proof (rule ends_seq)
        show "outc val (seq (run ops F_readtok) (\<lambda>_. run ops (fnof 13)) s1) s1 ts (den val upd (noeval s1 \<noteq> 0) b (env s1))"
          by (rule read_operand [OF iv c(3,4) _ s1(1) same_ready [OF s1(2) s(2)] s(3)]) simp
        fix w s2 assume s2: "sees val s2 ts" "same s1 s2"
        have "run ops (F_power_loop (ipow v w)) (s2\<lparr>lasttok := T_NUM\<rparr>) = Ret (ipow v w) (s2\<lparr>lasttok := T_NUM\<rparr>)"
          using follow_sees [OF s(3) s2(1)] loop_exit [of 13 "s2\<lparr>lasttok := T_NUM\<rparr>" ops "ipow v w"] by simp
        then show "outc val (let s = s2\<lparr>lasttok := T_NUM\<rparr> in if w = 0 then Ret 1 s
             else if w < 0 then evalerror E_exponent s else run ops (F_power_loop (ipow v w)) s) s1 ts
            (binop (noeval s \<noteq> 0) T_POWER v w, env s2)"
          using s2 s(3) ipow_loop_eq [of 1 v "nat w"]
          by (auto simp: binop_def Let_def evalerror_def ipow_def)
      qed
      finally show "outc val (run ops (loopof 13 v) s1) s ts (andthen (den val upd (noeval s \<noteq> 0) b (env s1))
          (\<lambda>w e. (binop (noeval s \<noteq> 0) T_POWER v w, e)))"
        using ends_same [OF _ s1(2)] s1(2) by (simp add: same_def)
    qed
    finally show ?thesis .
  qed
  then show ?thesis by (intro claimI) (simp_all add: looping_def toks_def binlev_def del: sees.simps)
qed

text \<open>The left-associative operators.\<close>

definition left_ops :: "tok set" where
  "left_ops = {T_BOR, T_BXOR, T_BAND, T_EQEQ, T_NEQ, T_LEQ, T_GEQ, T_LT, T_GT, T_LSH, T_RSH, T_PLUS, T_MINUS, T_MUL, T_DIV, T_MOD}"

lemma left_ops_looping: "t \<in> left_ops \<Longrightarrow> looping (binlev t)"
  by (auto simp: left_ops_def looping_def binlev_def)

text \<open>What the loop of a level does with the value of the next operand.\<close>

definition combines :: "'e var_ops \<Rightarrow> tok \<Rightarrow> int \<Rightarrow> int \<Rightarrow> 'e expr_state \<Rightarrow> 'e res option \<Rightarrow> bool" where
  "combines ops t v w s r \<longleftrightarrow>
     (case binop (noeval s \<noteq> 0) t v w of
        Inl er \<Rightarrow> \<exists>i. r = Jump er (s\<lparr>lasttp := i\<rparr>)
      | Inr u \<Rightarrow> r = run ops (loopof (binlev t) u) (s\<lparr>lasttok := T_NUM\<rparr>) \<or> r = run ops (loopof (binlev t) u) s)"

lemma cquot_one [simp]: "cquot v 1 = v" "crem v 1 = 0"
  by (simp_all add: cquot_def crem_def sgn_mult_abs)

lemma muldiv_combines:
  assumes t: "t = T_MUL \<or> t = T_DIV \<or> t = T_MOD" and v: "in_int64 v"
  shows "combines ops t v w s
     (if (t = T_DIV \<or> t = T_MOD) \<and> w = 0 \<and> noeval s = 0 then evalerror E_div0 (s\<lparr>lasttp := i\<rparr>)
      else if t = T_MOD \<and> v = INTMAX_MIN \<and> w = -1 then run ops (F_muldiv_loop 0) s
      else
        let w = (if (t = T_DIV \<or> t = T_MOD) \<and> w = 0 then 1 else if t = T_DIV \<and> v = INTMAX_MIN \<and> w = -1 then 1 else w);
            v = (if t = T_MUL then wrap64 (v * w) else if t = T_DIV then cquot v w else crem v w)
        in run ops (F_muldiv_loop v) (s\<lparr>lasttok := T_NUM\<rparr>))"
proof -
  have m: "cquot INTMAX_MIN (-1) = 2 ^ 63" "crem INTMAX_MIN (-1) = 0" "wrap64 (2 ^ 63) = INTMAX_MIN"
    by (simp_all add: cquot_def crem_def INTMAX_MIN_def wrap64_def)
  have q: "wrap64 (cquot v w) = cquot v w" if "\<not> (v = INTMAX_MIN \<and> w = -1)"
    using v that by (intro wrap64_id in_int64_cquot)
  show ?thesis
    using t m q by (elim disjE) (auto simp: combines_def binop_def binlev_def evalerror_def Let_def)
qed

lemma loop_unfold:
  assumes t: "t \<in> left_ops" "curtok s = t" and v: "in_int64 v"
  shows "\<exists>G. run ops (loopof (binlev t) v) s = seq (run ops F_readtok) (\<lambda>_. seq (run ops (fnof (Suc (binlev t)))) G) s
     \<and> (\<forall>w s'. combines ops t v w s' (G w s'))"
proof (cases "t = T_MUL \<or> t = T_DIV \<or> t = T_MOD")
  case True
  then have l: "binlev t = 12" by (auto simp: binlev_def)
  let ?G = "\<lambda>w s'. if (t = T_DIV \<or> t = T_MOD) \<and> w = 0 \<and> noeval s' = 0
      then evalerror E_div0 (s'\<lparr>lasttp := span_from whitespace (expression s') (tp s)\<rparr>)
      else if t = T_MOD \<and> v = INTMAX_MIN \<and> w = -1 then run ops (F_muldiv_loop 0) s'
      else
        let w = (if (t = T_DIV \<or> t = T_MOD) \<and> w = 0 then 1 else if t = T_DIV \<and> v = INTMAX_MIN \<and> w = -1 then 1 else w);
            v = (if t = T_MUL then wrap64 (v * w) else if t = T_DIV then cquot v w else crem v w)
        in run ops (F_muldiv_loop v) (s'\<lparr>lasttok := T_NUM\<rparr>)"
  have "run ops (loopof 12 v) s = expmuldiv_loop (run ops) v s" by (simp add: run.simps body_def)
  also have "\<dots> = seq (run ops F_readtok) (\<lambda>_. seq (run ops (fnof (Suc 12))) ?G) s"
    using True t(2) by (simp only: expmuldiv_loop_def Let_def) simp
  finally have "run ops (loopof (binlev t) v) s = seq (run ops F_readtok) (\<lambda>_. seq (run ops (fnof (Suc (binlev t)))) ?G) s"
    unfolding l .
  moreover have "\<forall>w s'. combines ops t v w s' (?G w s')" using muldiv_combines [OF True v] by blast
  ultimately show ?thesis by (intro exI [of _ ?G] conjI)
next
  case False
  let ?G = "\<lambda>w s. run ops (loopof (binlev t) (projr (binop False t v w))) (s\<lparr>lasttok := T_NUM\<rparr>)"
  have "run ops (loopof (binlev t) v) s = seq (run ops F_readtok) (\<lambda>_. seq (run ops (fnof (Suc (binlev t)))) ?G) s"
    using False t unfolding run.simps [of ops "loopof (binlev t) v" s] left_ops_def
    by (elim insertE emptyE) (simp_all add: binlev_def body_def left_loop_def binop_def expbor_loop_def expbxor_loop_def
        expband_loop_def exp5_loop_def exp4_loop_def expshift_loop_def exp3_loop_def)
  moreover have "combines ops t v w s' (?G w s')" for w s'
    using False t unfolding left_ops_def by (elim insertE emptyE) (simp_all add: combines_def binop_def)
  ultimately show ?thesis by (intro exI [of _ ?G]) simp
qed

text \<open>The meaning is in the range of \<^verbatim>\<open>intmax_t\<close>.\<close>

lemma binop_range: "binop ne t v w = Inr u \<Longrightarrow> in_int64 v \<Longrightarrow> in_int64 w \<Longrightarrow> in_int64 u"
  by (auto simp: binop_def split: tok.splits if_splits)

lemma andthen_Inr: "andthen r f = (Inr v, e) \<longleftrightarrow> (\<exists>u e'. r = (Inr u, e') \<and> f u e' = (Inr v, e))"
  by (cases r; cases "fst r") auto

lemma int_vars_range: "int_vars ops val upd \<Longrightarrow> legal_name x \<Longrightarrow> in_int64 (val e x)"
  by (auto simp: int_vars_def)

lemma den_range:
  assumes iv: "int_vars ops val upd"
  shows "wfe e \<Longrightarrow> den val upd ne e s = (Inr v, s') \<Longrightarrow> in_int64 v"
proof (induction e arbitrary: ne s s' v)
  case (Unary t a)
  then show ?case by (auto simp: andthen_Inr unop_def split: if_splits)
next
  case (Binary t a b)
  then show ?case by (auto simp: andthen_Inr split: if_splits intro: binop_range)
next
  case (Cond c a b)
  then show ?case by (auto simp: andthen_Inr split: if_splits)
next
  case (OpAssign x t a)
  then show ?case using int_vars_range [OF iv] by (auto simp: andthen_Inr split: if_splits intro: binop_range)
qed (use int_vars_range [OF iv] in \<open>auto simp: andthen_Inr Let_def split: if_splits\<close>)

lemma claim_left_op:
  assumes iv: "int_vars ops val upd" and c: "claim ops val upd a" "wfe a" "claim ops val upd b" "wfe b" and t: "t \<in> left_ops"
  shows "claim ops val upd (Binary t a b)"
proof -
  define l where "l = binlev t"
  have lo: "looping l" "Suc l \<le> 15" using left_ops_looping [OF t] by (auto simp: l_def looping_def)
  have n: "t \<noteq> T_POWER" "t \<noteq> T_LOR" "t \<noteq> T_LAND" using t by (auto simp: left_ops_def)
  have "spine ops l val (run ops (fnof l) s) s ts (andthen (den val upd (noeval s \<noteq> 0) a (env s)) (\<lambda>v e.
      andthen (den val upd (noeval s \<noteq> 0) b e) (\<lambda>w e. (binop (noeval s \<noteq> 0) t v w, e))))"
    if s: "sees val s (toks l a @ Op t # toks (Suc l) b @ ts)" "ready s" "follow (Suc l) ts" for s :: "'a expr_state" and ts
  proof (rule ends_bind)
    have f: "follow (Suc l) (Op t # toks (Suc l) b @ ts)"
      using t by (auto simp: follow_def left_ops_def plain_ops_def l_def binlev_def)
    show "spine ops l val (run ops (fnof l) s) s (Op t # toks (Suc l) b @ ts) (den val upd (noeval s \<noteq> 0) a (env s))"
      by (rule claim_left [OF iv c(1,2) lo(1) s(1,2) f])
    fix v s1 assume d: "den val upd (noeval s \<noteq> 0) a (env s) = (Inr v, env s1)"
      and s1: "sees val s1 (Op t # toks (Suc l) b @ ts)" "same s s1"
    have ne: "noeval s1 = noeval s" using s1(2) by (simp add: same_def)
    obtain G where G: "run ops (loopof l v) s1 = seq (run ops F_readtok) (\<lambda>_. seq (run ops (fnof (Suc l))) G) s1"
        "\<And>w s'. combines ops t v w s' (G w s')"
      using loop_unfold [OF t, of s1 v ops] s1(1) den_range [OF iv c(2) d] by (auto simp: l_def)
    have "spine ops l val (seq (seq (run ops F_readtok) (\<lambda>_. run ops (fnof (Suc l)))) G s1) s1 ts
        (andthen (den val upd (noeval s1 \<noteq> 0) b (env s1)) (\<lambda>w e. (binop (noeval s1 \<noteq> 0) t v w, e)))"
    proof (rule ends_seq)
      show "outc val (seq (run ops F_readtok) (\<lambda>_. run ops (fnof (Suc l))) s1) s1 ts (den val upd (noeval s1 \<noteq> 0) b (env s1))"
        by (rule read_operand [OF iv c(3,4) lo(2) s1(1) same_ready [OF s1(2) s(2)] s(3)])
      fix w s2 assume s2: "sees val s2 ts" "same s1 s2"
      then have "binop (noeval s2 \<noteq> 0) t v w = binop (noeval s1 \<noteq> 0) t v w" by (simp add: same_def)
      then show "spine ops l val (G w s2) s1 ts (binop (noeval s1 \<noteq> 0) t v w, env s2)"
        using G(2) [of w s2] s2 s(3)
        by (cases "binop (noeval s1 \<noteq> 0) t v w") (auto simp: combines_def l_def [symmetric])
    qed
    from ends_same [OF this s1(2)]
    show "spine ops l val (run ops (loopof l v) s1) s ts
        (andthen (den val upd (noeval s \<noteq> 0) b (env s1)) (\<lambda>w e. (binop (noeval s \<noteq> 0) t v w, e)))"
      unfolding G(1) seq_assoc [symmetric] ne .
  qed
  then show ?thesis
    using lo n by (intro claim_loopI) (simp_all add: l_def [symmetric] toks_def del: sees.simps)
qed

lemma claim_Comma:
  assumes iv: "int_vars ops val upd" and c: "claim ops val upd a" "wfe a" "claim ops val upd b" "wfe b"
  shows "claim ops val upd (Comma a b)"
proof -
  have "spine ops 0 val (run ops F_comma s) s ts (andthen (den val upd (noeval s \<noteq> 0) a (env s)) (\<lambda>_ e.
      den val upd (noeval s \<noteq> 0) b e))"
    if s: "sees val s (toks 0 a @ Op T_COMMA # toks 1 b @ ts)" "ready s" "follow 1 ts" for s :: "'a expr_state" and ts
  proof (rule ends_bind)
    have f: "follow (Suc 0) (Op T_COMMA # toks 1 b @ ts)" by (auto simp: follow_def plain_ops_def)
    show "spine ops 0 val (run ops F_comma s) s (Op T_COMMA # toks 1 b @ ts) (den val upd (noeval s \<noteq> 0) a (env s))"
      using claim_left [OF iv c(1,2) _ s(1,2) f] by (simp add: looping_def)
    fix v s1 assume s1: "sees val s1 (Op T_COMMA # toks 1 b @ ts)" "same s s1"
    have "run ops (loopof 0 v) s1 = seq (seq (run ops F_readtok) (\<lambda>_. run ops (fnof 1))) (\<lambda>v. run ops (loopof 0 v)) s1"
      using s1(1) unfolding run.simps [of ops "loopof 0 v" s1] seq_assoc [symmetric] by (simp add: body_def expcomma_loop_def)
    also have "spine ops 0 val \<dots> s1 ts (andthen (den val upd (noeval s1 \<noteq> 0) b (env s1)) (\<lambda>w e. (Inr w, e)))"
      by (rule ends_seq, rule read_operand [OF iv c(3,4) _ s1(1) same_ready [OF s1(2) s(2)] s(3)]) auto
    also have "andthen (den val upd (noeval s1 \<noteq> 0) b (env s1)) (\<lambda>w e. (Inr w, e)) = den val upd (noeval s \<noteq> 0) b (env s1)"
      using s1(2) by (simp add: same_def andthen_def split: sum.splits prod.splits)
    finally show "spine ops 0 val (run ops (loopof 0 v) s1) s ts (den val upd (noeval s \<noteq> 0) b (env s1))"
      using s1(2) by (rule ends_same)
  qed
  then show ?thesis
    by (intro claim_loopI) (simp_all add: looping_def toks_def paren_def del: sees.simps)
qed

text \<open>Suppressing evaluation for one operand.\<close>

definition suppress :: "bool \<Rightarrow> 'e expr_state \<Rightarrow> 'e expr_state" where
  "suppress b s = (if b then s\<lparr>noeval := noeval s + 1\<rparr> else s)"

definition resume :: "bool \<Rightarrow> 'e expr_state \<Rightarrow> 'e expr_state" where
  "resume b s = (if b then s\<lparr>noeval := noeval s - 1\<rparr> else s)"

lemma suppress_simps [simp]:
  "ready s \<Longrightarrow> ready (suppress b s)" "env (suppress b s) = env s" "curtok (suppress b s) = curtok s" "env (resume b s) = env s"
  "curtok (resume b s) = curtok s" "sees val (suppress b s) (Op t # ts) \<longleftrightarrow> sees val s (Op t # ts)"
  "sees val (resume b s) (Op t # ts) \<longleftrightarrow> sees val s (Op t # ts)"
  by (simp_all add: suppress_def resume_def ready_def)

lemma suppress_noeval: "ready s \<Longrightarrow> noeval (suppress b s) \<noteq> 0 \<longleftrightarrow> noeval s \<noteq> 0 \<or> b"
  by (auto simp: suppress_def ready_def)

lemma same_resume: "same (suppress b s) t \<Longrightarrow> same s (resume b t)"
  by (auto simp: suppress_def resume_def same_def)

lemma sees_resume: "follow p ts \<Longrightarrow> sees val (resume b s) ts \<longleftrightarrow> sees val s ts"
  by (simp add: resume_def)

lemma ends_suppress:
  assumes "outc val (m (suppress b s)) (suppress b s) us d" "follow p us"
    and "\<And>v s'. d = (Inr v, env s') \<Longrightarrow> sees val (resume b s') us \<Longrightarrow> same s (resume b s') \<Longrightarrow> ends L val (g v s') s ts (h v (env s'))"
  shows "ends L val (seq m g (suppress b s)) s ts (andthen d h)"
proof (cases d)
  case (Pair x e)
  show ?thesis
  proof (cases x)
    case (Inr v)
    then obtain s' where s': "m (suppress b s) = Ret v s'" "sees val s' us" "same (suppress b s) s'" "env s' = e"
      using assms(1) Pair by auto
    with assms(3) [of v s'] same_resume [OF s'(3)] sees_resume [OF assms(2), of val b s'] Pair Inr show ?thesis by simp
  qed (use assms(1) Pair in auto)
qed

lemma claim_logical:
  assumes iv: "int_vars ops val upd" and c: "claim ops val upd a" "wfe a" "claim ops val upd b" "wfe b"
    and l: "l = binlev t" "t = T_LOR \<or> t = T_LAND"
  shows "claim ops val upd (Binary t a b)"
proof -
  define skip where "skip v = (if t = T_LOR then v \<noteq> 0 else v = 0)" for v :: int
  define comb where "comb v w = of_bool_int (if t = T_LOR then v \<noteq> 0 \<or> w \<noteq> 0 else v \<noteq> 0 \<and> w \<noteq> 0)" for v w :: int
  have lo: "looping l" "Suc l \<le> 15" using l by (auto simp: looping_def binlev_def)
  have lp: "run ops (loopof l v) s = seq (seq (run ops F_readtok) (\<lambda>_. run ops (fnof (Suc l))))
      (\<lambda>w s. run ops (loopof l (comb v w)) ((resume (skip v) s)\<lparr>lasttok := t\<rparr>)) (suppress (skip v) s)"
    if "curtok s = t" for v and s :: "'a expr_state"
    using that l unfolding run.simps [of ops "loopof l v" s] seq_assoc [symmetric]
    by (elim disjE) (simp_all add: binlev_def body_def explor_loop_def expland_loop_def Let_def resume_def suppress_def skip_def comb_def)
  have "spine ops l val (run ops (fnof l) s) s ts (andthen (den val upd (noeval s \<noteq> 0) a (env s)) (\<lambda>v e.
      andthen (den val upd (noeval s \<noteq> 0 \<or> skip v) b e) (\<lambda>w e. (Inr (comb v w), e))))"
    if s: "sees val s (toks l a @ Op t # toks (Suc l) b @ ts)" "ready s" "follow (Suc l) ts" for s :: "'a expr_state" and ts
  proof (rule ends_bind)
    have f: "follow (Suc l) (Op t # toks (Suc l) b @ ts)"
      using l by (auto simp: follow_def plain_ops_def binlev_def)
    show "spine ops l val (run ops (fnof l) s) s (Op t # toks (Suc l) b @ ts) (den val upd (noeval s \<noteq> 0) a (env s))"
      by (rule claim_left [OF iv c(1,2) lo(1) s(1,2) f])
    fix v s1 assume s1: "sees val s1 (Op t # toks (Suc l) b @ ts)" "same s s1"
    have r1: "ready s1" using same_ready [OF s1(2) s(2)] .
    have ne: "noeval (suppress (skip v) s1) \<noteq> 0 \<longleftrightarrow> noeval s \<noteq> 0 \<or> skip v"
      using suppress_noeval [OF r1] s1(2) by (simp add: same_def)
    have "spine ops l val (run ops (loopof l v) s1) s1 ts
        (andthen (den val upd (noeval (suppress (skip v) s1) \<noteq> 0) b (env (suppress (skip v) s1))) (\<lambda>w e. (Inr (comb v w), e)))"
      unfolding lp [of s1 v, OF sees_chain [OF s1(1), THEN conjunct1, unfolded kind.simps]]
    proof (rule ends_suppress [OF _ s(3)])
      show "outc val (seq (run ops F_readtok) (\<lambda>_. run ops (fnof (Suc l))) (suppress (skip v) s1)) (suppress (skip v) s1) ts
          (den val upd (noeval (suppress (skip v) s1) \<noteq> 0) b (env (suppress (skip v) s1)))"
        using s1(1) r1 by (intro read_operand [OF iv c(3,4) lo(2) _ _ s(3), of _ "Op t"]) (simp_all del: sees.simps)
    qed (use s(3) in auto)
    then show "spine ops l val (run ops (loopof l v) s1) s ts
        (andthen (den val upd (noeval s \<noteq> 0 \<or> skip v) b (env s1)) (\<lambda>w e. (Inr (comb v w), e)))"
      using s1(2) unfolding ne suppress_simps(2) by (rule ends_same)
  qed
  then show ?thesis
    using lo l by (intro claim_loopI) (auto simp: toks_def skip_def comb_def simp del: sees.simps)
qed

text \<open>The conditional: the two checks that an operand follows hold.\<close>

lemma first_kind: "wfe e \<Longrightarrow> \<exists>u us. toks p e = u # us \<and> kind u \<noteq> T_EOE \<and> kind u \<noteq> T_COL"
proof -
  have "wfe e \<Longrightarrow> \<exists>u us. btoks e = u # us \<and> kind u \<noteq> T_EOE \<and> kind u \<noteq> T_COL" for e
  proof (induction e)
    case (Unary t a)
    then show ?case by (auto simp: unary_ops_def)
  next
    case (Binary t a b)
    then obtain u us where "btoks a = u # us" "kind u \<noteq> T_EOE" "kind u \<noteq> T_COL" by auto
    then show ?case by (simp add: paren_def)
  next
    case (Cond c a b)
    then obtain u us where "btoks c = u # us" "kind u \<noteq> T_EOE" "kind u \<noteq> T_COL" by auto
    then show ?case by (simp add: paren_def)
  qed auto
  from this [of e] show "wfe e \<Longrightarrow> ?thesis" by (cases "lev e < p") (simp_all add: toks_def paren_def)
qed

lemma guarded_read:
  assumes iv: "int_vars ops val upd" and s: "sees val s (t # toks p e @ ts)" "ready s" and e: "wfe e"
    and B: "\<And>k. k \<noteq> T_EOE \<Longrightarrow> k \<noteq> T_COL \<Longrightarrow> \<not> B k"
  shows "seq (run ops F_readtok) (\<lambda>_ s. if B (curtok s) then err s else seq (run ops (fnof p)) G s) s
    = seq (seq (run ops F_readtok) (\<lambda>_. run ops (fnof p))) G s"
proof -
  obtain s' where s': "run ops F_readtok s = Ret 0 s'" "sees val s' (toks p e @ ts)"
    using advance [OF iv s(2), of "toks p e @ ts"] sees_chain [OF s(1)] by auto
  obtain u us where "toks p e = u # us" "kind u \<noteq> T_EOE" "kind u \<noteq> T_COL" using first_kind [OF e] by blast
  then have "\<not> B (curtok s')" using s'(2) B [of "kind u"] by simp
  with s'(1) show ?thesis unfolding seq_assoc [symmetric] by simp
qed

lemma claim_Cond:
  assumes iv: "int_vars ops val upd" and c: "claim ops val upd c" "wfe c" and a: "claim ops val upd a" "wfe a"
    and b: "claim ops val upd b" "wfe b"
  shows "claim ops val upd (Cond c a b)"
proof -
  have "outc val (run ops F_cond s) s ts (andthen (den val upd (noeval s \<noteq> 0) c (env s)) (\<lambda>v e.
      andthen (den val upd (noeval s \<noteq> 0 \<or> v = 0) a e) (\<lambda>w1 e.
        andthen (den val upd (noeval s \<noteq> 0 \<or> v \<noteq> 0) b e) (\<lambda>w2 e. (Inr (if v \<noteq> 0 then w1 else w2), e)))))"
    if s: "sees val s (toks 3 c @ Op T_QUES # toks 0 a @ Op T_COL # toks 2 b @ ts)" "ready s" "follow 2 ts"
    for s :: "'a expr_state" and ts
  proof -
    have f: "follow 3 (Op T_QUES # toks 0 a @ Op T_COL # toks 2 b @ ts)" "follow 0 (Op T_COL # toks 2 b @ ts)"
      by (simp_all add: follow_def plain_ops_def)
    define H3 where "H3 v w1 w2 s = Ret (if v \<noteq> 0 then w1 else w2) ((resume (v \<noteq> 0) s)\<lparr>lasttok := T_COND\<rparr>)"
      for v w1 w2 :: int and s :: "'a expr_state"
    define H2 where "H2 v w1 s = (let s = resume (v = 0) s in if curtok s \<noteq> T_COL then evalerror E_colon s
        else seq (run ops F_readtok) (\<lambda>_ s. if curtok s = T_EOE then evalerror E_expected s
          else seq (run ops F_cond) (H3 v w1) s) (suppress (v \<noteq> 0) s))"
      for v w1 :: int and s :: "'a expr_state"
    define H1 where "H1 v s = (if curtok s = T_QUES then
        seq (run ops F_readtok) (\<lambda>_ s. if curtok s = T_EOE \<or> curtok s = T_COL then evalerror E_expected s
          else seq (run ops F_comma) (H2 v) s) (suppress (v = 0) s)
        else Ret v s)" for v :: int and s :: "'a expr_state"
    have "run ops F_cond s = seq (run ops (fnof 3)) H1 s"
      unfolding run.simps [of ops F_cond s] H1_def H2_def H3_def
      by (simp only: body_def fn.case expcond_def suppress_def resume_def Let_def fnof_simps)
    also have "outc val \<dots> s ts (andthen (den val upd (noeval s \<noteq> 0) c (env s)) (\<lambda>v e.
      andthen (den val upd (noeval s \<noteq> 0 \<or> v = 0) a e) (\<lambda>w1 e.
        andthen (den val upd (noeval s \<noteq> 0 \<or> v \<noteq> 0) b e) (\<lambda>w2 e. (Inr (if v \<noteq> 0 then w1 else w2), e)))))"
    proof (rule ends_seq)
      show "outc val (run ops (fnof 3) s) s (Op T_QUES # toks 0 a @ Op T_COL # toks 2 b @ ts) (den val upd (noeval s \<noteq> 0) c (env s))"
        by (rule claim_toks [OF iv c _ s(1,2) f(1)]) simp
      fix v :: int and s1 assume s1: "sees val s1 (Op T_QUES # toks 0 a @ Op T_COL # toks 2 b @ ts)" "same s s1"
      have r1: "ready s1" using same_ready [OF s1(2) s(2)] .
      have q1: "sees val (suppress (v = 0) s1) (Op T_QUES # toks 0 a @ Op T_COL # toks 2 b @ ts)" "ready (suppress (v = 0) s1)"
        using s1(1) r1 by (simp_all del: sees.simps)
      have n1: "noeval (suppress (v = 0) s1) \<noteq> 0 \<longleftrightarrow> noeval s \<noteq> 0 \<or> v = 0"
        using suppress_noeval [OF r1] s1(2) by (simp add: same_def)
      have "H1 v s1 = seq (seq (run ops F_readtok) (\<lambda>_. run ops (fnof 0))) (H2 v) (suppress (v = 0) s1)"
        using guarded_read [OF iv q1 a(2), where B = "\<lambda>k. k = T_EOE \<or> k = T_COL" and err = "evalerror E_expected" and G = "H2 v"]
          s1(1) by (simp add: H1_def cong: if_cong)
      also have "outc val \<dots> s1 ts (andthen (den val upd (noeval (suppress (v = 0) s1) \<noteq> 0) a (env (suppress (v = 0) s1))) (\<lambda>w1 e.
          andthen (den val upd (noeval s \<noteq> 0 \<or> v \<noteq> 0) b e) (\<lambda>w2 e. (Inr (if v \<noteq> 0 then w1 else w2), e))))"
      proof (rule ends_suppress [OF _ f(2)])
        show "outc val (seq (run ops F_readtok) (\<lambda>_. run ops (fnof 0)) (suppress (v = 0) s1)) (suppress (v = 0) s1)
            (Op T_COL # toks 2 b @ ts) (den val upd (noeval (suppress (v = 0) s1) \<noteq> 0) a (env (suppress (v = 0) s1)))"
          by (rule read_operand [OF iv a _ q1 f(2)]) simp
        fix w1 s' assume "sees val (resume (v = 0) s') (Op T_COL # toks 2 b @ ts)" "same s1 (resume (v = 0) s')"
        then obtain s2 where s2: "s2 = resume (v = 0) s'" "sees val s2 (Op T_COL # toks 2 b @ ts)" "same s1 s2" "env s2 = env s'"
          by simp
        have r2: "ready s2" using same_ready [OF s2(3) r1] .
        have q2: "sees val (suppress (v \<noteq> 0) s2) (Op T_COL # toks 2 b @ ts)" "ready (suppress (v \<noteq> 0) s2)"
          using s2(2) r2 by (simp_all del: sees.simps)
        have n2: "noeval (suppress (v \<noteq> 0) s2) \<noteq> 0 \<longleftrightarrow> noeval s \<noteq> 0 \<or> v \<noteq> 0"
          using suppress_noeval [OF r2] s1(2) s2(3) by (simp add: same_def)
        have "H2 v w1 s' = seq (seq (run ops F_readtok) (\<lambda>_. run ops (fnof 2))) (H3 v w1) (suppress (v \<noteq> 0) s2)"
          using guarded_read [OF iv q2 b(2), where B = "\<lambda>k. k = T_EOE" and err = "evalerror E_expected" and G = "H3 v w1"]
            s2(2) by (simp add: H2_def s2(1) [symmetric] Let_def cong: if_cong)
        also have "outc val \<dots> s2 ts (andthen (den val upd (noeval (suppress (v \<noteq> 0) s2) \<noteq> 0) b (env (suppress (v \<noteq> 0) s2)))
            (\<lambda>w2 e. (Inr (if v \<noteq> 0 then w1 else w2), e)))"
        proof (rule ends_suppress [OF _ s(3)])
          show "outc val (seq (run ops F_readtok) (\<lambda>_. run ops (fnof 2)) (suppress (v \<noteq> 0) s2)) (suppress (v \<noteq> 0) s2) ts
              (den val upd (noeval (suppress (v \<noteq> 0) s2) \<noteq> 0) b (env (suppress (v \<noteq> 0) s2)))"
            by (rule read_operand [OF iv b _ q2 s(3)]) simp
        qed (use s(3) in \<open>auto simp: H3_def\<close>)
        finally show "outc val (H2 v w1 s') s1 ts (andthen (den val upd (noeval s \<noteq> 0 \<or> v \<noteq> 0) b (env s'))
            (\<lambda>w2 e. (Inr (if v \<noteq> 0 then w1 else w2), e)))"
          using s2(3) unfolding n2 suppress_simps(2) s2(4) by (rule ends_same)
      qed
      finally show "outc val (H1 v s1) s ts (andthen (den val upd (noeval s \<noteq> 0 \<or> v = 0) a (env s1)) (\<lambda>w1 e.
          andthen (den val upd (noeval s \<noteq> 0 \<or> v \<noteq> 0) b e) (\<lambda>w2 e. (Inr (if v \<noteq> 0 then w1 else w2), e))))"
        using s1(2) unfolding n1 suppress_simps(2) by (rule ends_same)
    qed
    finally show ?thesis .
  qed
  then show ?thesis by (intro claimI) (simp_all add: looping_def toks_def paren_def del: sees.simps)
qed

text \<open>Assignments: the name is evaluated as an operand of the conditional level first.\<close>

lemma assign_op_binop: "t \<in> assign_ops \<Longrightarrow> in_int64 l \<Longrightarrow> assign_op t l v ne = binop ne t l v"
proof -
  assume t: "t \<in> assign_ops" and l: "in_int64 l"
  have m: "cquot INTMAX_MIN (-1) = 2 ^ 63" "crem INTMAX_MIN (-1) = 0" "wrap64 (2 ^ 63) = INTMAX_MIN"
    by (simp_all add: cquot_def crem_def INTMAX_MIN_def wrap64_def)
  have q: "wrap64 (cquot l v) = cquot l v" if "\<not> (l = INTMAX_MIN \<and> v = -1)"
    using l that by (intro wrap64_id in_int64_cquot)
  show ?thesis
    using t m q unfolding assign_ops_def by (elim insertE emptyE) (auto simp: assign_op_def binop_def)
qed

lemma name_before_assign:
  assumes iv: "int_vars ops val upd" and s: "sees val s (Name x # t # ts)" "ready s" and t: "t = Op T_EQ \<or> (\<exists>u. t = AssignOp u)"
  shows "\<exists>p s'. run ops F_cond s = Ret (tokval s) s' \<and> sees val s' (t # ts) \<and> same s s' \<and> env s' = env s \<and> lasttok s' = T_STR
    \<and> tokstr s' = Some (p, x)"
proof -
  obtain s' where s': "run ops F_exp0 s = Ret (tokval s) s'" "sees val s' (t # ts)" "same s s'" "env s' = env s"
      "lasttok s' = T_STR" "tokstr s' = tokstr s"
    using exp0_name [OF iv s] t by auto
  have "run ops (fnof 2) s = Ret (tokval s) s'"
    using s'(1,2) s(1) t by (intro levels_skip [of 2 15]) (auto simp: unary_ops_def)
  with s' s(1) show ?thesis by auto
qed

lemma rhs_outcome:
  assumes iv: "int_vars ops val upd" and x: "legal_name x" "in_int64 u" and s: "sees val s ts" "follow 1 ts"
    and w: "(if special then assign_op t l v (noeval s \<noteq> 0) else Inr v) = Inr u"
  shows "outc val (expassign_rhs ops special t l x (-1) v s) s ts (Inr u, if noeval s \<noteq> 0 then env s else upd (env s) x u)"
proof -
  define e where "e = (if noeval s \<noteq> 0 then env s else upd (env s) x u)"
  have "expassign_rhs ops special t l x (-1) v s = Ret u ((forget_lvalue (s\<lparr>env := e\<rparr>))\<lparr>tokstr := None\<rparr>)"
    using w bind_name [OF iv x] by (auto simp: expassign_rhs_def e_def)
  moreover have "sees val ((forget_lvalue (s\<lparr>env := e\<rparr>))\<lparr>tokstr := None\<rparr>) ts"
    by (rule sees_cong [OF s(2,1)]) simp_all
  ultimately show ?thesis by (auto simp: same_def e_def forget_lvalue_def init_lvalue_def)
qed

lemma claim_Assign:
  assumes iv: "int_vars ops val upd" and c: "claim ops val upd a" "wfe a" and x: "legal_name x"
  shows "claim ops val upd (Assign x a)"
proof -
  have "outc val (run ops F_assign s) s ts (andthen (den val upd (noeval s \<noteq> 0) a (env s)) (\<lambda>v e.
      (Inr v, if noeval s \<noteq> 0 then e else upd e x v)))"
    if s: "sees val s (Name x # Op T_EQ # toks 1 a @ ts)" "ready s" "follow 1 ts" for s :: "'a expr_state" and ts
  proof -
    obtain p s1 where s1: "run ops F_cond s = Ret (tokval s) s1" "sees val s1 (Op T_EQ # toks 1 a @ ts)" "same s s1" "env s1 = env s"
        "lasttok s1 = T_STR" "tokstr s1 = Some (p, x)"
      using name_before_assign [OF iv s(1,2)] by auto
    have r1: "ready s1" using same_ready [OF s1(3) s(2)] .
    have "run ops F_assign s = seq (seq (run ops F_readtok) (\<lambda>_. run ops (fnof 1)))
        (expassign_rhs ops False (assigntok s1) (tokval s) x (-1)) s1"
      using s1 r1 unfolding run.simps [of ops F_assign s] seq_assoc [symmetric]
      by (simp add: body_def expassign_def Let_def ready_def)
    also have "outc val \<dots> s1 ts (andthen (den val upd (noeval s1 \<noteq> 0) a (env s1)) (\<lambda>v e.
      (Inr v, if noeval s1 \<noteq> 0 then e else upd e x v)))"
    proof (rule ends_seq)
      show "outc val (seq (run ops F_readtok) (\<lambda>_. run ops (fnof 1)) s1) s1 ts (den val upd (noeval s1 \<noteq> 0) a (env s1))"
        by (rule read_operand [OF iv c _ s1(2) r1 s(3)]) simp
      fix v s2 assume s2: "den val upd (noeval s1 \<noteq> 0) a (env s1) = (Inr v, env s2)" "sees val s2 ts" "same s1 s2"
      from ends_same [OF rhs_outcome [OF iv x den_range [OF iv c(2) s2(1)] s2(2) s(3)] s2(3)] s2(3)
      show "outc val (expassign_rhs ops False (assigntok s1) (tokval s) x (-1) v s2) s1 ts
          (Inr v, if noeval s1 \<noteq> 0 then env s2 else upd (env s2) x v)"
        by (simp only: same_def if_False simp_thms)
    qed
    finally have "outc val (run ops F_assign s) s ts (andthen (den val upd (noeval s1 \<noteq> 0) a (env s1)) (\<lambda>v e.
      (Inr v, if noeval s1 \<noteq> 0 then e else upd e x v)))"
      using s1(3) by (rule ends_same)
    moreover have "noeval s1 = noeval s" using s1(3) by (simp add: same_def)
    ultimately show ?thesis by (simp only: s1(4))
  qed
  then show ?thesis by (intro claimI) (simp_all add: looping_def toks_def paren_def del: sees.simps)
qed

lemma claim_OpAssign:
  assumes iv: "int_vars ops val upd" and c: "claim ops val upd a" "wfe a" and x: "legal_name x" and t: "t \<in> assign_ops"
  shows "claim ops val upd (OpAssign x t a)"
proof -
  have "outc val (run ops F_assign s) s ts (andthen (den val upd (noeval s \<noteq> 0) a (env s)) (\<lambda>v e.
      andthen (binop (noeval s \<noteq> 0) t (if noeval s \<noteq> 0 then 0 else val (env s) x) v, e)
        (\<lambda>w e. (Inr w, if noeval s \<noteq> 0 then e else upd e x w))))"
    if s: "sees val s (Name x # AssignOp t # toks 1 a @ ts)" "ready s" "follow 1 ts" for s :: "'a expr_state" and ts
  proof -
    obtain p s1 where s1: "run ops F_cond s = Ret (tokval s) s1" "sees val s1 (AssignOp t # toks 1 a @ ts)" "same s s1" "env s1 = env s"
        "lasttok s1 = T_STR" "tokstr s1 = Some (p, x)"
      using name_before_assign [OF iv s(1,2)] by auto
    define l where "l = (if noeval s \<noteq> 0 then 0 else val (env s) x)"
    have l: "tokval s = l" "in_int64 l" using s(1) int_vars_range [OF iv x] by (auto simp: l_def)
    have n: "noeval s1 = noeval s" using s1(3) by (simp add: same_def)
    have r1: "ready s1" using same_ready [OF s1(3) s(2)] .
    have "run ops F_assign s = seq (seq (run ops F_readtok) (\<lambda>_. run ops (fnof 1))) (expassign_rhs ops True t l x (-1)) s1"
      using s1 r1 l(1) unfolding run.simps [of ops F_assign s] seq_assoc [symmetric]
      by (simp add: body_def expassign_def Let_def ready_def)
    also have "outc val \<dots> s1 ts (andthen (den val upd (noeval s1 \<noteq> 0) a (env s1)) (\<lambda>v e.
      andthen (binop (noeval s \<noteq> 0) t l v, e) (\<lambda>w e. (Inr w, if noeval s \<noteq> 0 then e else upd e x w))))"
    proof (rule ends_seq)
      show "outc val (seq (run ops F_readtok) (\<lambda>_. run ops (fnof 1)) s1) s1 ts (den val upd (noeval s1 \<noteq> 0) a (env s1))"
        by (rule read_operand [OF iv c _ s1(2) r1 s(3)]) simp
      fix v s2 assume s2: "den val upd (noeval s1 \<noteq> 0) a (env s1) = (Inr v, env s2)" "sees val s2 ts" "same s1 s2"
      have n2: "noeval s2 = noeval s" using s2(3) n by (simp add: same_def)
      have v: "in_int64 v" using den_range [OF iv c(2) s2(1)] .
      show "outc val (expassign_rhs ops True t l x (-1) v s2) s1 ts (andthen (binop (noeval s \<noteq> 0) t l v, env s2)
          (\<lambda>w e. (Inr w, if noeval s \<noteq> 0 then e else upd e x w)))"
      proof (cases "binop (noeval s \<noteq> 0) t l v")
        case (Inl er)
        then show ?thesis using n2 assign_op_binop [OF t l(2)] by (simp add: expassign_rhs_def evalerror_def)
      next
        case (Inr u)
        have "outc val (expassign_rhs ops True t l x (-1) v s2) s2 ts (Inr u, if noeval s2 \<noteq> 0 then env s2 else upd (env s2) x u)"
          using Inr n2 assign_op_binop [OF t l(2)] binop_range [OF Inr l(2) v] by (intro rhs_outcome [OF iv x _ s2(2) s(3)]) simp_all
        from ends_same [OF this s2(3)] show ?thesis unfolding Inr andthen_simps n2 .
      qed
    qed
    finally have "outc val (run ops F_assign s) s ts (andthen (den val upd (noeval s1 \<noteq> 0) a (env s1)) (\<lambda>v e.
      andthen (binop (noeval s \<noteq> 0) t l v, e) (\<lambda>w e. (Inr w, if noeval s \<noteq> 0 then e else upd e x w))))"
      using s1(3) by (rule ends_same)
    then show ?thesis by (simp only: s1(4) n l_def)
  qed
  then show ?thesis by (intro claimI) (simp_all add: looping_def toks_def paren_def del: sees.simps)
qed

lemma claim_all:
  assumes iv: "int_vars ops val upd"
  shows "wfe e \<Longrightarrow> claim ops val upd e"
proof (induction e)
  case (Binary t a b)
  then consider "t = T_POWER" | "t = T_LOR \<or> t = T_LAND" | "t \<in> left_ops"
    by (auto simp: binary_ops_def left_ops_def)
  then show ?case
    using Binary by cases (auto intro: claim_Power [OF iv] claim_logical [OF iv _ _ _ _ refl] claim_left_op [OF iv])
qed (auto intro: claim_Num [OF iv] claim_Var [OF iv] claim_Unary [OF iv] claim_Cond [OF iv] claim_Comma [OF iv]
      claim_Assign [OF iv] claim_OpAssign [OF iv] claim_PreStep [OF iv] claim_PostStep [OF iv])

text \<open>The whole expression.\<close>

lemma text_not_blank: "wfe e \<Longrightarrow> dropWhile cr_whitespace (print_expr e) \<noteq> []"
proof -
  assume e: "wfe e"
  have lpar: "\<not> cr_whitespace (CHR ''('')" by (simp add: cr_whitespace_def)
  have "\<exists>u us. btoks e = u # us \<and> lexeme u \<noteq> [] \<and> \<not> cr_whitespace (hd (lexeme u))"
    using e
  proof (induction e)
    case (Num n)
    then show ?case using digits_text [of n] digit_char by (auto simp: hd_map)
  next
    case (Unary t a)
    then show ?case using op_chars [of t] plain_ops_mem by (metis UnCI btoks.simps(3) lexeme.simps(1) list.sel(1) list.simps(3) wfe.simps(3))
  next
    case (PreStep t x)
    then show ?case by (auto simp: cr_whitespace_def)
  qed (auto simp: legal_name_def starter_not_blank paren_def lpar)
  then obtain u us where "btoks e = u # us" "lexeme u \<noteq> []" "\<not> cr_whitespace (hd (lexeme u))" by blast
  then show ?thesis by (cases "lexeme u") (auto simp: print_expr_def)
qed

lemma subexpr_outcome:
  assumes iv: "int_vars ops val upd" and e: "wfe e" and s: "0 \<le> noeval s" "Suc (length (expr_stack s)) < MAX_EXPR_RECURSION_LEVEL"
  shows "case den val upd (noeval s \<noteq> 0) e (env s) of
      (Inr v, e') \<Rightarrow> \<exists>s'. run ops (F_subexpr (print_expr e)) s = Ret v s' \<and> env s' = e'
    | (Inl er, e') \<Rightarrow> \<exists>s'. run ops (F_subexpr (print_expr e)) s = Jump er s' \<and> env s' = e'"
proof -
  define s0 where "s0 = s\<lparr>expr_stack := SAVETOK s # expr_stack s, expression := print_expr e, tp := 0, curtok := T_EOE,
    lasttok := T_EOE, tokstr := None, tokval := 0, curlval := init_lvalue, lastlval := init_lvalue\<rparr>"
  have r0: "ready s0" using s by (simp add: ready_def s0_def init_lvalue_def)
  have "chain (toks 0 e @ [])" "lexable T_EOE (toks 0 e @ [])" using toks_chain [OF e, of "[]"] by simp_all
  then obtain s1 where s1: "run ops F_readtok s0 = Ret 0 s1" "sees val s1 (toks 0 e @ [])" "same s0 s1" "env s1 = env s0"
    using advance [OF iv r0, of "toks 0 e @ []"] by (auto simp: s0_def print_expr_def toks_def paren_def)
  have f: "follow 0 []" by (simp add: follow_def)
  have o: "outc val (run ops F_comma s1) s1 [] (den val upd (noeval s \<noteq> 0) e (env s))"
    using claim_toks [OF iv claim_all [OF iv e] e _ s1(2) same_ready [OF s1(3) r0] f] s1(3,4)
    by (simp add: same_def s0_def)
  have r: "run ops (F_subexpr (print_expr e)) s = seq (run ops F_comma)
      (\<lambda>v s. if curtok s \<noteq> T_EOE then evalerror E_syntax s else seq popexp (\<lambda>_. Ret v) s) s1"
    using s1(1) s(2) text_not_blank [OF e] unfolding run.simps [of ops "F_subexpr (print_expr e)"]
    by (simp add: body_def subexpr_def pushexp_def s0_def [symmetric] del: dropWhile_eq_Nil_conv)
  obtain x e' where d: "den val upd (noeval s \<noteq> 0) e (env s) = (x, e')" by fastforce
  show ?thesis
  proof (cases x)
    case (Inr v)
    then obtain s2 where s2: "run ops F_comma s1 = Ret v s2" "sees val s2 []" "same s1 s2" "env s2 = e'" using o d by auto
    then have "expr_stack s2 = SAVETOK s # expr_stack s" using s1(3) by (simp add: same_def s0_def)
    with s2 show ?thesis unfolding r d Inr by (simp add: popexp_def)
  next
    case (Inl er)
    then show ?thesis using o unfolding r d by auto
  qed
qed

section \<open>Operands that are not needed\<close>

text \<open>
  An exponent below zero is an error even in an operand that is skipped. \<open>quiet\<close> expressions have only
  literal exponents; they are the operands for which skipping means not evaluating.
\<close>

fun literal :: "aexp \<Rightarrow> bool" where
  "literal (Num n) \<longleftrightarrow> int n < 2 ^ 63"
| "literal _ \<longleftrightarrow> False"

fun quiet :: "aexp \<Rightarrow> bool" where
  "quiet (Unary t a) = quiet a"
| "quiet (Binary t a b) = (quiet a \<and> quiet b \<and> (t = T_POWER \<longrightarrow> literal b))"
| "quiet (Cond c a b) = (quiet c \<and> quiet a \<and> quiet b)"
| "quiet (Comma a b) = (quiet a \<and> quiet b)"
| "quiet (Assign x a) = quiet a"
| "quiet (OpAssign x t a) = quiet a"
| "quiet _ = True"

fun safe :: "aexp \<Rightarrow> bool" where
  "safe (Unary t a) = safe a"
| "safe (Binary t a b) = (safe a \<and> safe b \<and> (t = T_LOR \<or> t = T_LAND \<longrightarrow> quiet b))"
| "safe (Cond c a b) = (safe c \<and> safe a \<and> safe b \<and> quiet a \<and> quiet b)"
| "safe (Comma a b) = (safe a \<and> safe b)"
| "safe (Assign x a) = safe a"
| "safe (OpAssign x t a) = safe a"
| "safe _ = True"

lemma binop_quiet: "t \<noteq> T_POWER \<or> 0 \<le> w \<Longrightarrow> \<exists>u. binop True t v w = Inr u"
  by (cases t) (simp_all add: binop_def)

lemma literal_den: "literal e \<Longrightarrow> \<exists>v. den val upd ne e s = (Inr v, s) \<and> 0 \<le> v"
  by (cases e) (auto simp: in_int64_def)

lemma den_quiet: "wfe e \<Longrightarrow> quiet e \<Longrightarrow> \<exists>v. den val upd True e s = (Inr v, s)"
proof (induction e)
  case (Binary t a b)
  then obtain v w where v: "den val upd True a s = (Inr v, s)" "den val upd True b s = (Inr w, s)" "t = T_POWER \<longrightarrow> 0 \<le> w"
    using literal_den [of b val upd True s] by auto
  obtain u where "binop True t v w = Inr u" using binop_quiet [of t w v] v(3) by blast
  with v show ?case by simp
next
  case (OpAssign x t a)
  then obtain v where v: "den val upd True a s = (Inr v, s)" by auto
  obtain u where "binop True t 0 v = Inr u"
    using binop_quiet [of t v 0] OpAssign(2) by (auto simp: assign_ops_def)
  with v show ?case by simp
qed (auto simp: Let_def)

lemma andthen_cong:
  "r = r' \<Longrightarrow> (\<And>v e. r' = (Inr v, e) \<Longrightarrow> f v e = g v e) \<Longrightarrow> andthen r f = andthen r' g"
  by (cases r'; cases "fst r'") auto

lemma andthen_Ret: "andthen r (\<lambda>v e. (Inr v, e)) = r"
  by (cases r; cases "fst r") auto

lemma of_bool_int_simps [simp]: "of_bool_int True = 1" "of_bool_int False = 0"
  by (simp_all add: of_bool_int_def)

lemma den_sem: "wfe e \<Longrightarrow> safe e \<Longrightarrow> den val upd False e s = sem val upd e s"
proof (induction e arbitrary: s)
  case (Binary t a b)
  have q: "\<exists>v. den val upd True b s = (Inr v, s)" if "t = T_LOR \<or> t = T_LAND" for s
    using den_quiet [of b val upd] Binary that by auto
  have "andthen (den val upd (v \<noteq> 0) b s) (\<lambda>w e. (Inr (of_bool_int (v \<noteq> 0 \<or> w \<noteq> 0)), e))
      = (if v \<noteq> 0 then (Inr 1, s) else andthen (sem val upd b s) (\<lambda>w e. (Inr (of_bool_int (w \<noteq> 0)), e)))"
    if "t = T_LOR" for v :: int and s
    using q [of s] that Binary by (cases "v = 0") auto
  moreover have "andthen (den val upd (v = 0) b s) (\<lambda>w e. (Inr (of_bool_int (v \<noteq> 0 \<and> w \<noteq> 0)), e))
      = (if v = 0 then (Inr 0, s) else andthen (sem val upd b s) (\<lambda>w e. (Inr (of_bool_int (w \<noteq> 0)), e)))"
    if "t = T_LAND" for v :: int and s
    using q [of s] that Binary by (cases "v = 0") auto
  ultimately show ?case
    using Binary by (cases "t = T_LOR"; cases "t = T_LAND") (simp_all cong: if_cong)
next
  case (Cond c a b)
  have q: "\<exists>v. den val upd True a s = (Inr v, s)" "\<exists>v. den val upd True b s = (Inr v, s)" for s
    using den_quiet [of a val upd] den_quiet [of b val upd] Cond by auto
  have "andthen (den val upd (v = 0) a s) (\<lambda>w1 e. andthen (den val upd (v \<noteq> 0) b e) (\<lambda>w2 e. (Inr (if v \<noteq> 0 then w1 else w2), e)))
      = (if v \<noteq> 0 then sem val upd a s else sem val upd b s)" for v :: int and s
  proof (cases "v = 0")
    case True
    then show ?thesis using q(1) [of s] Cond andthen_Ret [of "sem val upd b s"] by auto
  next
    case False
    have "andthen (den val upd False a s) (\<lambda>w1 e. andthen (den val upd True b e) (\<lambda>w2 e. (Inr w1, e)))
        = andthen (den val upd False a s) (\<lambda>w1 e. (Inr w1, e))"
      using q(2) by (intro andthen_cong refl) (metis andthen_simps(1))
    then show ?thesis using False Cond andthen_Ret [of "sem val upd a s"] by simp
  qed
  then show ?case using Cond by (auto intro!: andthen_cong)
qed (auto intro!: andthen_cong simp: Let_def)

section \<open>Properties\<close>

text \<open>Variables as a map to integers, kept as decimal text.\<close>

definition read_int :: "cstring \<Rightarrow> int" where
  "read_int w =
     (if w \<noteq> [] \<and> hd w = CHR ''-'' then wrap64 (- projr (strlong (tl w))) else projr (strlong w))"

definition int_store :: "(cstring \<rightharpoonup> int) var_ops" where
  "int_store = \<lparr>vo_get = (\<lambda>e n _. Some (map_option (itos \<circ> wrap64) (e n), -1, e)),
     vo_bind = (\<lambda>e n w. (e(n \<mapsto> read_int w), False)), vo_skip = (\<lambda>_ _ _. 0)\<rparr>"

definition int_val :: "(cstring \<rightharpoonup> int) \<Rightarrow> cstring \<Rightarrow> int" where
  "int_val e x = (case e x of None \<Rightarrow> 0 | Some v \<Rightarrow> wrap64 v)"

lemma read_int_itos: "in_int64 v \<Longrightarrow> read_int (itos v) = v"
proof (cases "v < 0")
  assume v: "in_int64 v"
  case True
  then show ?thesis
    using itos_eq [OF v] strlong_decimal [of "nat (- v)"] v wrap64_mult_right [of "-1" "- v"] by (simp add: read_int_def)
next
  assume v: "in_int64 v"
  case False
  obtain c r where c: "map FMTCHAR (digits 10 (nat v)) = c # r" "ISDIGIT c"
    using digits_text [of "nat v"] by (cases "map FMTCHAR (digits 10 (nat v))") auto
  then have "c \<noteq> CHR ''-''" by (auto simp: ISDIGIT_def)
  with c False show ?thesis
    using itos_eq [OF v] strlong_decimal [of "nat v"] v by (simp add: read_int_def)
qed

lemma int_store_vars: "int_vars int_store int_val (\<lambda>e x v. e(x \<mapsto> v))"
  by (auto simp: int_vars_def int_store_def int_val_def read_int_itos split: option.split)

text \<open>
  C3. The evaluator computes the meaning of every expression: precedence, associativity, short-circuit
  evaluation, assignments, increments and 64-bit arithmetic. Evaluating the text of a syntax tree,
  printed with the parentheses that precedence requires, gives the value of the tree and leaves the
  variables as its assignments do; an error of the tree is reported, with the assignments made before
  it. The variables hold integers, and an operand that may be skipped has literal exponents.
\<close>

theorem evalexp_meaning:
  assumes "int_vars ops val upd" "wfe e" "safe e" "length (expr_stack s) + 1 < MAX_EXPR_RECURSION_LEVEL"
  shows "case sem val upd e (env s) of
      (Inr v, e') \<Rightarrow> \<exists>s'. evalexp ops (print_expr e) s = Some (v, True, s') \<and> env s' = e'
    | (Inl er, e') \<Rightarrow> \<exists>s'. evalexp ops (print_expr e) s = Some (0, False, s') \<and> env s' = e'"
  using subexpr_outcome [OF assms(1,2), of "s\<lparr>noeval := 0\<rparr>"] den_sem [OF assms(2,3), of val upd "env s"] assms(4)
  by (cases "fst (sem val upd e (env s))"; cases "sem val upd e (env s)")
    (auto simp: evalexp_def expr_unwind_def split: sum.splits)

theorem evalexp_meaning_witness:
  "\<exists>s'. evalexp int_store '' x = ( y + 2 ) * y ++'' (startup_state [''y'' \<mapsto> 5]) = Some (35, True, s')
     \<and> env s' = [''y'' \<mapsto> 6, ''x'' \<mapsto> 35]"
proof -
  define e where "e = Assign ''x'' (Binary T_MUL (Binary T_PLUS (Var ''y'') (Num 2)) (PostStep T_POSTINC ''y''))"
  have n: "legal_name ''x''" "legal_name ''y''" by code_simp+
  have d: "digits 10 2 = [2]" by (simp add: digits.simps)
  have t: "print_expr e = '' x = ( y + 2 ) * y ++''"
    by (simp add: e_def print_expr_def paren_def binlev_def d FMTCHAR_def) code_simp
  have m: "sem int_val (\<lambda>e x v. e(x \<mapsto> v)) e [''y'' \<mapsto> 5] = (Inr 35, [''y'' \<mapsto> 6, ''x'' \<mapsto> 35])"
    by (simp add: e_def int_val_def binop_def wrap64_def fun_upd_twist)
  have "wfe e" "safe e" using n by (simp_all add: e_def binary_ops_def)
  from evalexp_meaning [OF int_store_vars this, of "startup_state [''y'' \<mapsto> 5]"]
  show ?thesis by (simp add: startup_state_def t m MAX_EXPR_RECURSION_LEVEL_def)
qed

text \<open>
  Where skipping an operand does not prevent its error: \<open>0 && 2 ** -1\<close> is an error.
\<close>

lemma skipped_exponent_error:
  "\<exists>s'. evalexp int_store (print_expr (Binary T_LAND (Num 0) (Binary T_POWER (Num 2) (Unary T_MINUS (Num 1)))))
     (startup_state Map.empty) = Some (0, False, s')"
proof -
  let ?e = "Binary T_LAND (Num 0) (Binary T_POWER (Num 2) (Unary T_MINUS (Num 1)))"
  have "den int_val (\<lambda>e x v. e(x \<mapsto> v)) False ?e Map.empty = (Inl E_exponent, Map.empty)"
    by (simp add: wrap64_def unop_def binop_def)
  with subexpr_outcome [OF int_store_vars, of ?e "(startup_state Map.empty)\<lparr>noeval := 0\<rparr>"] show ?thesis
    by (auto simp: evalexp_def binary_ops_def unary_ops_def startup_state_def MAX_EXPR_RECURSION_LEVEL_def)
qed

end
