(* ===== verification/Smatch.thy ===== *)
theory Smatch
  imports Bash_Prelude "HOL-Library.Monad_Syntax"
begin

text \<open>
  Pattern matching (\<^verbatim>\<open>lib/glob/smatch.c\<close>, \<^verbatim>\<open>lib/glob/sm_loop.c\<close> and \<^verbatim>\<open>lib/glob/collsyms.h\<close>), in the instance for
  single-byte characters and with the extended patterns compiled in. The string and the pattern
  are two buffers \<open>S\<close> and \<open>P\<close>; the pointers of the code are positions in them, since the code reads
  beyond the end \<^verbatim>\<open>pe\<close> of a subpattern and behind the current character. The outcome \<open>None\<close> means that the
  code reads outside a buffer or computes with a \<^verbatim>\<open>NULL\<close> pointer. No signal arrives during a match.
\<close>

section \<open>Characters\<close>

definition FNM_PATHNAME :: int where "FNM_PATHNAME = 1"
definition FNM_NOESCAPE :: int where "FNM_NOESCAPE = 2"
definition FNM_PERIOD :: int where "FNM_PERIOD = 4"
definition FNM_LEADING_DIR :: int where "FNM_LEADING_DIR = 8"
definition FNM_CASEFOLD :: int where "FNM_CASEFOLD = 16"
definition FNM_EXTMATCH :: int where "FNM_EXTMATCH = 32"
definition FNM_DOTDOT :: int where "FNM_DOTDOT = 128"
definition FNM_NOMATCH :: int where "FNM_NOMATCH = 1"

definition FOLD :: "int \<Rightarrow> char \<Rightarrow> char" where
  "FOLD flags c = (if has_flag flags FNM_CASEFOLD then TOLOWER c else c)"

text \<open>Collation: in the C locale \<^verbatim>\<open>strcoll\<close> is \<^verbatim>\<open>strcmp\<close>. \<open>glob_asciirange\<close> is the global of that name.\<close>

definition char_string :: "char \<Rightarrow> cstring" where
  "char_string c = (if c = NUL then [] else [c])"

definition charcmp :: "bool \<Rightarrow> char \<Rightarrow> char \<Rightarrow> bool \<Rightarrow> int" where
  "charcmp glob_asciirange c1 c2 forcecoll =
     (if c1 = c2 then 0
      else if \<not> forcecoll \<and> glob_asciirange then int (code c1) - int (code c2)
      else strcmp (char_string c1) (char_string c2))"

definition rangecmp :: "bool \<Rightarrow> char \<Rightarrow> char \<Rightarrow> bool \<Rightarrow> int" where
  "rangecmp glob_asciirange c1 c2 forcecoll =
     (let r = charcmp glob_asciirange c1 c2 forcecoll
      in if r \<noteq> 0 then r else int (code c1) - int (code c2))"

definition collequiv :: "bool \<Rightarrow> char \<Rightarrow> char \<Rightarrow> bool" where
  "collequiv glob_asciirange c e \<longleftrightarrow> charcmp glob_asciirange c e True = 0"

text \<open>The names of collating symbols; letters and digits stand for themselves.\<close>

definition posix_collsyms :: "(cstring \<times> char) list" where
  "posix_collsyms =
   [(''NUL'', CHR 0x00), (''SOH'', CHR 0x01), (''STX'', CHR 0x02), (''ETX'', CHR 0x03),
    (''EOT'', CHR 0x04), (''ENQ'', CHR 0x05), (''ACK'', CHR 0x06), (''alert'', CHR 0x07),
    (''BS'', CHR 0x08), (''backspace'', CHR 0x08), (''HT'', CHR 0x09), (''tab'', CHR 0x09),
    (''LF'', CHR 0x0A), (''newline'', CHR 0x0A), (''VT'', CHR 0x0B), (''vertical-tab'', CHR 0x0B),
    (''FF'', CHR 0x0C), (''form-feed'', CHR 0x0C), (''CR'', CHR 0x0D), (''carriage-return'', CHR 0x0D),
    (''SO'', CHR 0x0E), (''SI'', CHR 0x0F), (''DLE'', CHR 0x10), (''DC1'', CHR 0x11),
    (''DC2'', CHR 0x12), (''DC3'', CHR 0x13), (''DC4'', CHR 0x14), (''NAK'', CHR 0x15),
    (''SYN'', CHR 0x16), (''ETB'', CHR 0x17), (''CAN'', CHR 0x18), (''EM'', CHR 0x19),
    (''SUB'', CHR 0x1A), (''ESC'', CHR 0x1B), (''IS4'', CHR 0x1C), (''FS'', CHR 0x1C),
    (''IS3'', CHR 0x1D), (''GS'', CHR 0x1D), (''IS2'', CHR 0x1E), (''RS'', CHR 0x1E),
    (''IS1'', CHR 0x1F), (''US'', CHR 0x1F), (''space'', CHR 0x20), (''exclamation-mark'', CHR 0x21),
    (''quotation-mark'', CHR 0x22), (''number-sign'', CHR 0x23), (''dollar-sign'', CHR 0x24),
    (''percent-sign'', CHR 0x25), (''ampersand'', CHR 0x26), (''apostrophe'', CHR 0x27),
    (''left-parenthesis'', CHR 0x28), (''right-parenthesis'', CHR 0x29), (''asterisk'', CHR 0x2A),
    (''plus-sign'', CHR 0x2B), (''comma'', CHR 0x2C), (''hyphen'', CHR 0x2D),
    (''hyphen-minus'', CHR 0x2D), (''minus'', CHR 0x2D), (''dash'', CHR 0x2D), (''period'', CHR 0x2E),
    (''full-stop'', CHR 0x2E), (''slash'', CHR 0x2F), (''solidus'', CHR 0x2F), (''zero'', CHR 0x30),
    (''one'', CHR 0x31), (''two'', CHR 0x32), (''three'', CHR 0x33), (''four'', CHR 0x34),
    (''five'', CHR 0x35), (''six'', CHR 0x36), (''seven'', CHR 0x37), (''eight'', CHR 0x38),
    (''nine'', CHR 0x39), (''colon'', CHR 0x3A), (''semicolon'', CHR 0x3B),
    (''less-than-sign'', CHR 0x3C), (''equals-sign'', CHR 0x3D), (''greater-than-sign'', CHR 0x3E),
    (''question-mark'', CHR 0x3F), (''commercial-at'', CHR 0x40), (''left-square-bracket'', CHR 0x5B),
    (''backslash'', CHR 0x5C), (''reverse-solidus'', CHR 0x5C), (''right-square-bracket'', CHR 0x5D),
    (''circumflex'', CHR 0x5E), (''circumflex-accent'', CHR 0x5E), (''underscore'', CHR 0x5F),
    (''grave-accent'', CHR 0x60), (''left-brace'', CHR 0x7B), (''left-curly-bracket'', CHR 0x7B),
    (''vertical-line'', CHR 0x7C), (''right-brace'', CHR 0x7D), (''right-curly-bracket'', CHR 0x7D),
    (''tilde'', CHR 0x7E), (''DEL'', CHR 0x7F)]"

text \<open>\<open>None\<close> is \<^verbatim>\<open>INVALID\<close>.\<close>

definition collsym :: "cstring \<Rightarrow> char option" where
  "collsym s = (case map_of posix_collsyms s of
       Some c \<Rightarrow> Some c
     | None \<Rightarrow> if length s = 1 then Some (hd s) else None)"

datatype char_class = CC_NO_CLASS | CC_ASCII | CC_ALNUM | CC_ALPHA | CC_BLANK | CC_CNTRL | CC_DIGIT
  | CC_GRAPH | CC_LOWER | CC_PRINT | CC_PUNCT | CC_SPACE | CC_UPPER | CC_WORD | CC_XDIGIT

definition cclass_name :: "(cstring \<times> char_class) list" where
  "cclass_name =
     [(''ascii'', CC_ASCII), (''alnum'', CC_ALNUM), (''alpha'', CC_ALPHA), (''blank'', CC_BLANK),
      (''cntrl'', CC_CNTRL), (''digit'', CC_DIGIT), (''graph'', CC_GRAPH), (''lower'', CC_LOWER),
      (''print'', CC_PRINT), (''punct'', CC_PUNCT), (''space'', CC_SPACE), (''upper'', CC_UPPER),
      (''word'', CC_WORD), (''xdigit'', CC_XDIGIT)]"

definition is_valid_cclass :: "cstring \<Rightarrow> char_class" where
  "is_valid_cclass name = (case map_of cclass_name name of Some cc \<Rightarrow> cc | None \<Rightarrow> CC_NO_CLASS)"

text \<open>A result of \<^verbatim>\<open>-1\<close> (no such class) is \<open>None\<close>.\<close>

fun cclass_test :: "char \<Rightarrow> char_class \<Rightarrow> bool option" where
  "cclass_test c CC_ASCII = Some (ISASCII c)"
| "cclass_test c CC_ALNUM = Some (ISALNUM c)"
| "cclass_test c CC_ALPHA = Some (ISALPHA c)"
| "cclass_test c CC_BLANK = Some (ISBLANK c)"
| "cclass_test c CC_CNTRL = Some (ISCNTRL c)"
| "cclass_test c CC_DIGIT = Some (ISDIGIT c)"
| "cclass_test c CC_GRAPH = Some (ISGRAPH c)"
| "cclass_test c CC_LOWER = Some (ISLOWER c)"
| "cclass_test c CC_PRINT = Some (ISPRINT c)"
| "cclass_test c CC_PUNCT = Some (ISPUNCT c)"
| "cclass_test c CC_SPACE = Some (ISSPACE c)"
| "cclass_test c CC_UPPER = Some (ISUPPER c)"
| "cclass_test c CC_WORD = Some (ISALNUM c \<or> c = CHR ''_'')"
| "cclass_test c CC_XDIGIT = Some (ISXDIGIT c)"
| "cclass_test c CC_NO_CLASS = None"

definition is_cclass :: "char \<Rightarrow> cstring \<Rightarrow> bool option" where
  "is_cclass c name =
     (let cc = is_valid_cclass name
      in if cc = CC_NO_CLASS then None else cclass_test c cc)"

text \<open>Removing the backslashes from a name, in place (\<^verbatim>\<open>lib/glob/glob.c\<close>).\<close>

fun udequote_pathname :: "cstring \<Rightarrow> cstring" where
  "udequote_pathname [] = []"
| "udequote_pathname (c # s) =
     (if c = BSLASH then (case s of [] \<Rightarrow> [] | d # t \<Rightarrow> d # udequote_pathname t)
      else c # udequote_pathname s)"

definition SDOT_OR_DOTDOT :: "cstring \<Rightarrow> nat \<Rightarrow> bool" where
  "SDOT_OR_DOTDOT S n \<longleftrightarrow> char_at S n = CHR ''.''
     \<and> (char_at S (n + 1) = NUL \<or> char_at S (n + 1) = CHR ''.'' \<and> char_at S (n + 2) = NUL)"

definition PATHSEP :: "char \<Rightarrow> bool" where
  "PATHSEP c \<longleftrightarrow> c = CHR ''/'' \<or> c = NUL"

definition PDOT_OR_DOTDOT :: "cstring \<Rightarrow> nat \<Rightarrow> bool" where
  "PDOT_OR_DOTDOT S n \<longleftrightarrow> char_at S n = CHR ''.''
     \<and> (PATHSEP (char_at S (n + 1)) \<or> char_at S (n + 1) = CHR ''.'' \<and> PATHSEP (char_at S (n + 2)))"


section \<open>Bracket expressions\<close>

text \<open>The position of \<open>d\<close> followed by a right bracket, or of the end of the pattern.\<close>

function find_close :: "cstring \<Rightarrow> char \<Rightarrow> nat \<Rightarrow> nat" where
  "find_close P d p =
     (if char_at P p = NUL then p
      else if char_at P p = d \<and> char_at P (p + 1) = CHR '']'' then p
      else find_close P d (p + 1))"
  by pat_completeness auto
termination by (relation "measure (\<lambda>(P, d, p). length P - p)") (auto dest: char_at_not_NUL)

declare find_close.simps [simp del]

definition substr_from :: "cstring \<Rightarrow> nat \<Rightarrow> nat \<Rightarrow> cstring" where
  "substr_from s i j = take (j - i) (drop i s)"

definition PARSE_COLLSYM :: "cstring \<Rightarrow> nat \<Rightarrow> nat \<times> char option" where
  "PARSE_COLLSYM P p =
     (let p = p + 1; e = find_close P (CHR ''.'') p
      in if char_at P e = NUL then (e, None) else (e + 2, collsym (substr_from P p e)))"

text \<open>
  One item of a bracket expression: the loop returns a result, goes to the label \<^verbatim>\<open>matched\<close>, leaves the
  loop, or continues with the next character.
\<close>

datatype brack_step =
    BReturn "nat option"
  | BMatched nat
  | BBreak nat
  | BContinue nat char

definition brack_unclosed :: "char \<Rightarrow> nat \<Rightarrow> nat option" where
  "brack_unclosed test savep = (if test = CHR ''['' then Some savep else None)"

text \<open>The equivalence class \<^verbatim>\<open>[=c=]\<close>, the pattern pointer being after the left bracket.\<close>

definition brack_equiv :: "bool \<Rightarrow> cstring \<Rightarrow> char \<Rightarrow> int \<Rightarrow> nat \<Rightarrow> nat \<Rightarrow> brack_step" where
  "brack_equiv glob_asciirange P test flags savep p =
     (let pc = FOLD flags (char_at P (p + 1)); p = p + 4
      in if collequiv glob_asciirange test pc then BMatched (p + 1)
         else let c = char_at P p; p = p + 1
              in if c = NUL then BReturn (brack_unclosed test savep) else BContinue p (FOLD flags c))"

text \<open>The character class \<^verbatim>\<open>[:name:]\<close>.\<close>

definition brack_class :: "cstring \<Rightarrow> char \<Rightarrow> char \<Rightarrow> int \<Rightarrow> nat \<Rightarrow> nat \<Rightarrow> brack_step" where
  "brack_class P orig_test test flags savep p =
     (let close = find_close P (CHR '':'') (p + 1);
          (pc, p) = (if char_at P close = NUL then (False, p)
                     else (is_cclass orig_test (udequote_pathname (substr_from P (p + 1) close)) = Some True,
                           close + 2))
      in if pc then BMatched (p + 1)
         else let c = char_at P p; p = p + 1
              in if c = NUL then BReturn (brack_unclosed test savep)
                 else if c = CHR '']'' then BBreak p
                 else BContinue p (FOLD flags c))"

text \<open>The end of a range, the pattern pointer being after the hyphen.\<close>

definition brack_range ::
    "bool \<Rightarrow> cstring \<Rightarrow> char \<Rightarrow> int \<Rightarrow> char \<Rightarrow> bool \<Rightarrow> nat \<Rightarrow> brack_step" where
  "brack_range glob_asciirange P test flags cstart forcecoll p =
     (let cend = char_at P p; p = p + 1;
          (cend, p) = (if \<not> has_flag flags FNM_NOESCAPE \<and> cend = BSLASH then (char_at P p, p + 1) else (cend, p))
      in if cend = NUL then BReturn None
         else
           let (cend, forcecoll, p) =
                 (if cend = CHR ''['' \<and> char_at P p = CHR ''.''
                  then let (q, pc) = PARSE_COLLSYM P p
                       in (case pc of None \<Rightarrow> char_of (code test + 255) | Some x \<Rightarrow> x, True, q)
                  else (cend, forcecoll, p));
               cend = FOLD flags cend;
               c = char_at P p; p = p + 1
           in if rangecmp glob_asciirange cstart cend forcecoll > 0
              then (if c = CHR '']'' then BBreak p else BContinue p (FOLD flags c))
              else if rangecmp glob_asciirange test cstart forcecoll \<ge> 0
                      \<and> rangecmp glob_asciirange test cend forcecoll \<le> 0 then BMatched p
              else if c = CHR '']'' then BBreak p
              else BContinue p c)"

text \<open>A character, a collating symbol or a range.\<close>

definition brack_char ::
    "bool \<Rightarrow> cstring \<Rightarrow> char \<Rightarrow> int \<Rightarrow> nat \<Rightarrow> nat \<Rightarrow> char \<Rightarrow> brack_step" where
  "brack_char glob_asciirange P test flags savep p c =
     (let (cstart, forcecoll, p) =
            (if c = CHR ''['' \<and> char_at P p = CHR ''.''
             then let (q, pc) = PARSE_COLLSYM P p
                  in (case pc of None \<Rightarrow> char_of (code test + 1) | Some x \<Rightarrow> x, True, q)
             else (c, False, p))
      in if \<not> has_flag flags FNM_NOESCAPE \<and> c = BSLASH \<and> char_at P p = NUL then BReturn None
         else
           let (cstart, p) = (if \<not> has_flag flags FNM_NOESCAPE \<and> c = BSLASH then (char_at P p, p + 1) else (cstart, p));
               cstart = FOLD flags cstart
           in if c = NUL then BReturn (brack_unclosed test savep)
              else
                let c = FOLD flags (char_at P p); p = p + 1
                in if c = NUL then BReturn (brack_unclosed test savep)
                   else if has_flag flags FNM_PATHNAME \<and> c = CHR ''/'' then BReturn None
                   else if c = CHR ''-'' \<and> char_at P p \<noteq> CHR '']''
                   then brack_range glob_asciirange P test flags cstart forcecoll p
                   else if test = cstart then BMatched p
                   else if c = CHR '']'' then BBreak p
                   else BContinue p c)"

text \<open>
  The body of the loop. The test for an equivalence class reads \<^verbatim>\<open>p[2]\<close> without looking at
  \<^verbatim>\<open>p[1]\<close>: behind the terminator when the pattern ends there.
\<close>

definition brack_item ::
    "bool \<Rightarrow> cstring \<Rightarrow> char \<Rightarrow> int \<Rightarrow> nat \<Rightarrow> nat \<Rightarrow> char \<Rightarrow> brack_step option" where
  "brack_item glob_asciirange P orig_test flags savep p c =
     (let test = FOLD flags orig_test in
      if c = CHR ''['' \<and> char_at P p = CHR ''='' \<and> length P < p + 2 then None
      else if c = CHR ''['' \<and> char_at P p = CHR ''='' \<and> char_at P (p + 2) = CHR ''='' \<and> char_at P (p + 3) = CHR '']''
      then Some (brack_equiv glob_asciirange P test flags savep p)
      else if c = CHR ''['' \<and> char_at P p = CHR '':''
      then Some (brack_class P orig_test test flags savep p)
      else Some (brack_char glob_asciirange P test flags savep p c))"

text \<open>The code at the label \<^verbatim>\<open>matched\<close>: skip the rest of the bracket expression.\<close>

function brack_skip ::
    "cstring \<Rightarrow> char \<Rightarrow> int \<Rightarrow> bool \<Rightarrow> nat \<Rightarrow> nat \<Rightarrow> char \<Rightarrow> nat \<Rightarrow> nat option \<Rightarrow> nat option" where
  "brack_skip P test flags neg savep p c brcnt brchrp =
     (if brcnt = 0 then (if neg then None else Some p)
      else if c = NUL then brack_unclosed test savep
      else
        let oc = c; c = char_at P p; p = p + 1
        in if c = CHR ''['' \<and> (char_at P p = CHR ''='' \<or> char_at P p = CHR '':'' \<or> char_at P p = CHR ''.'')
           then (if char_at P (p + 1) = NUL then brack_unclosed test savep
                 else brack_skip P test flags neg savep (p + 1) (char_at P (p + 1)) (brcnt + 1) (Some p))
           else if c = CHR '']'' \<and> brcnt > 1 \<and> (case brchrp of None \<Rightarrow> False | Some b \<Rightarrow> oc = char_at P b)
           then brack_skip P test flags neg savep p c (brcnt - 1) None
           else if c = CHR '']'' \<and> (case brchrp of None \<Rightarrow> True | Some b \<Rightarrow> char_at P b \<noteq> CHR ''.'')
           then brack_skip P test flags neg savep p c 0 brchrp
           else if \<not> has_flag flags FNM_NOESCAPE \<and> c = BSLASH
           then (if char_at P p = NUL then None
                 else brack_skip P test flags neg savep (p + 1) c brcnt brchrp)
           else brack_skip P test flags neg savep p c brcnt brchrp)"
  by pat_completeness auto
termination
  by (relation "measure (\<lambda>(P, test, flags, neg, savep, p, c, brcnt, brchrp).
        (length P + 1 - p) + (if c = NUL then 0 else 1))")
     (auto dest: char_at_not_NUL simp: char_at_def split: if_splits)

declare brack_skip.simps [simp del]

text \<open>Every item makes progress.\<close>

lemma FOLD_NUL [simp]: "FOLD flags c = NUL \<longleftrightarrow> c = NUL"
  by (auto simp: FOLD_def TOLOWER_def ISUPPER_def code_eq_0 [symmetric])

lemma find_close_ge: "p \<le> find_close P d p"
proof (induction P d p rule: find_close.induct)
  case (1 P d p)
  then show ?case by (subst find_close.simps) (auto dest: Suc_leD)
qed

lemma PARSE_COLLSYM_ge: "PARSE_COLLSYM P p = (q, pc) \<Longrightarrow> p < q"
  using find_close_ge [of "Suc p" P "CHR ''.''"] by (auto simp: PARSE_COLLSYM_def Let_def split: if_splits)

lemma brack_range_progress:
  "brack_range ar P test flags cs fc p = BContinue p' c' \<Longrightarrow> p < p'"
  by (auto simp: brack_range_def Let_def split: if_splits prod.splits dest: PARSE_COLLSYM_ge)

lemma brack_char_progress:
  assumes "brack_char ar P test flags savep p c = BContinue p' c'"
  shows "p < length P \<and> p < p'"
proof -
  obtain cs fc q where q: "(if c = CHR ''['' \<and> char_at P p = CHR ''.''
             then let (q, pc) = PARSE_COLLSYM P p
                  in (case pc of None \<Rightarrow> char_of (code test + 1) | Some x \<Rightarrow> x, True, q)
             else (c, False, p)) = (cs, fc, q)" by (cases "(if c = CHR ''['' \<and> char_at P p = CHR ''.''
             then let (q, pc) = PARSE_COLLSYM P p
                  in (case pc of None \<Rightarrow> char_of (code test + 1) | Some x \<Rightarrow> x, True, q)
             else (c, False, p))")
  then have "p \<le> q" by (auto split: if_splits prod.splits dest: PARSE_COLLSYM_ge)
  with assms q show ?thesis
    by (auto simp: brack_char_def Let_def split: if_splits dest!: char_at_not_NUL brack_range_progress)
qed

lemma brack_item_progress:
  assumes "brack_item ar P t flags savep p c = Some (BContinue p' c')"
  shows "p < length P \<and> p < p'"
proof -
  have "brack_class P t test flags savep p = BContinue p' c' \<Longrightarrow> p < p'" for test
    using find_close_ge [of "Suc p" P "CHR '':''"]
    by (auto simp: brack_class_def Let_def split: if_splits)
  moreover have "brack_equiv ar P test flags savep p = BContinue p' c' \<Longrightarrow> p < p'" for test
    by (auto simp: brack_equiv_def Let_def split: if_splits)
  moreover have "char_at P p = CHR ''='' \<or> char_at P p = CHR '':'' \<Longrightarrow> p < length P"
    by (rule char_at_not_NUL) (auto simp: NUL_def)
  ultimately show ?thesis
    using assms brack_char_progress [of ar P "FOLD flags t" flags savep p c p' c']
    by (auto simp: brack_item_def Let_def split: if_splits)
qed

function brack_loop ::
    "bool \<Rightarrow> cstring \<Rightarrow> char \<Rightarrow> int \<Rightarrow> bool \<Rightarrow> nat \<Rightarrow> nat \<Rightarrow> char \<Rightarrow> nat option option" where
  "brack_loop glob_asciirange P orig_test flags neg savep p c =
     (case brack_item glob_asciirange P orig_test flags savep p c of
        None \<Rightarrow> None
      | Some (BReturn r) \<Rightarrow> Some r
      | Some (BBreak p) \<Rightarrow> Some (if neg then Some p else None)
      | Some (BMatched p) \<Rightarrow>
          Some (brack_skip P (FOLD flags orig_test) flags neg savep (p - 1) (char_at P (p - 1)) 1 None)
      | Some (BContinue p c) \<Rightarrow> brack_loop glob_asciirange P orig_test flags neg savep p c)"
  by pat_completeness auto
termination
  by (relation "measure (\<lambda>(ar, P, orig_test, flags, neg, savep, p, c). length P - p)")
     (auto dest!: brack_item_progress)

declare brack_loop.simps [simp del]

definition BRACKMATCH :: "bool \<Rightarrow> cstring \<Rightarrow> nat \<Rightarrow> char \<Rightarrow> int \<Rightarrow> nat option option" where
  "BRACKMATCH glob_asciirange P p test flags =
     (let savep = p;
          neg = (char_at P p = CHR ''!'' \<or> char_at P p = CHR ''^'');
          p = (if neg then p + 1 else p)
      in brack_loop glob_asciirange P test flags neg savep (p + 1) (char_at P p))"

section \<open>Extended patterns\<close>

text \<open>
  Scanning to the end of a subpattern: the state is the nesting of parentheses, whether a bracket
  expression is open, whether the next character is quoted, the kind of a special bracket expression
  (\<^verbatim>\<open>NUL\<close> for none) and the first position of the bracket expression.
\<close>

function patscan_loop ::
    "cstring \<Rightarrow> nat \<Rightarrow> char \<Rightarrow> nat \<Rightarrow> nat \<Rightarrow> bool \<Rightarrow> bool \<Rightarrow> char \<Rightarrow> nat option \<Rightarrow> nat option" where
  "patscan_loop P pend delim s pnest bnest skip cchar bfirst =
     (let c = char_at P s in
      if c = NUL then None
      else if s \<ge> pend then Some s
      else if skip then patscan_loop P pend delim (s + 1) pnest bnest False cchar bfirst
      else if c = BSLASH then patscan_loop P pend delim (s + 1) pnest bnest True cchar bfirst
      else if c = CHR ''['' then
        (if \<not> bnest
         then let bf = s + 1;
                  bf = (if char_at P bf = CHR ''!'' \<or> char_at P bf = CHR ''^'' then bf + 1 else bf)
              in patscan_loop P pend delim (s + 1) pnest True skip cchar (Some bf)
         else if char_at P (s + 1) = CHR '':'' \<or> char_at P (s + 1) = CHR ''.'' \<or> char_at P (s + 1) = CHR ''=''
         then patscan_loop P pend delim (s + 1) pnest bnest skip (char_at P (s + 1)) bfirst
         else patscan_loop P pend delim (s + 1) pnest bnest skip cchar bfirst)
      else if c = CHR '']'' then
        (if bnest \<and> cchar \<noteq> NUL \<and> char_at P (s - 1) = cchar
         then patscan_loop P pend delim (s + 1) pnest bnest skip NUL bfirst
         else if bnest \<and> Some s \<noteq> bfirst
         then patscan_loop P pend delim (s + 1) pnest False skip cchar None
         else patscan_loop P pend delim (s + 1) pnest bnest skip cchar bfirst)
      else if c = CHR ''('' \<and> \<not> bnest then patscan_loop P pend delim (s + 1) (pnest + 1) bnest skip cchar bfirst
      else if c = CHR '')'' \<and> \<not> bnest then
        (if pnest = 0 then Some (s + 1) else patscan_loop P pend delim (s + 1) (pnest - 1) bnest skip cchar bfirst)
      else if c = CHR ''|'' \<and> \<not> bnest \<and> pnest = 0 \<and> delim = CHR ''|'' then Some (s + 1)
      else patscan_loop P pend delim (s + 1) pnest bnest skip cchar bfirst)"
  by pat_completeness auto
termination
  by (relation "measure (\<lambda>(P, pend, delim, s, pnest, bnest, skip, cchar, bfirst). length P - s)")
     (auto dest: char_at_not_NUL)

declare patscan_loop.simps [simp del]

definition PATSCAN :: "cstring \<Rightarrow> nat \<Rightarrow> nat \<Rightarrow> char \<Rightarrow> nat option" where
  "PATSCAN P string pend delim =
     (if string = pend then None else patscan_loop P pend delim string 0 False False NUL None)"

definition STRCOMPARE :: "cstring \<Rightarrow> cstring \<Rightarrow> nat \<Rightarrow> nat \<Rightarrow> nat \<Rightarrow> nat \<Rightarrow> int" where
  "STRCOMPARE S P p pe s se =
     (if pe - p \<noteq> se - s then FNM_NOMATCH
      else if strcmp (substr_from P p pe) (substr_from S s se) = 0 then 0 else FNM_NOMATCH)"

text \<open>
  The functions of the matcher call each other; the recursive calls go through \<open>gm\<close>, the loop of
  \<^verbatim>\<open>GMATCH\<close> from a given point on: its arguments are the start of the string, the position in it, its end, the
  position in the pattern, its end, whether \<^verbatim>\<open>ends\<close> is given, and the flags. Its result is the value
  returned and what was stored through \<^verbatim>\<open>ends\<close>.
\<close>

type_synonym gmatch_result = "(int \<times> (nat \<times> nat) option) option"
type_synonym gmatch_fun = "nat \<Rightarrow> nat \<Rightarrow> nat \<Rightarrow> nat \<Rightarrow> nat \<Rightarrow> bool \<Rightarrow> int \<Rightarrow> gmatch_result"

text \<open>\<^verbatim>\<open>GMATCH (string, se, pattern, pe, NULL, flags) == 0\<close>\<close>

definition GMATCH0 :: "gmatch_fun \<Rightarrow> nat \<Rightarrow> nat \<Rightarrow> nat \<Rightarrow> nat \<Rightarrow> int \<Rightarrow> bool option" where
  "GMATCH0 gm string se pattern pe flags =
     map_option (\<lambda>r. fst r = 0) (gm string string se pattern pe False flags)"

definition no_dot_flags :: "int \<Rightarrow> int" where
  "no_dot_flags flags = flags AND NOT (FNM_PERIOD OR FNM_DOTDOT)"

text \<open>The loops over the subpatterns; a subpattern that cannot be scanned gives a \<^verbatim>\<open>NULL\<close> end.\<close>

fun for_subpatterns ::
    "nat \<Rightarrow> (nat \<Rightarrow> nat \<Rightarrow> bool option) \<Rightarrow> cstring \<Rightarrow> nat \<Rightarrow> nat \<Rightarrow> nat \<Rightarrow> bool option" where
  "for_subpatterns 0 body P pe prest psub = None"
| "for_subpatterns (Suc k) body P pe prest psub =
     do {
       pnext \<leftarrow> PATSCAN P psub pe (CHR ''|'');
       r \<leftarrow> body psub pnext;
       if r then Some True
       else if pnext = prest then Some False
       else for_subpatterns k body P pe prest pnext
     }"

text \<open>The loops over the places where a part of the string may end; they stop at the first success.\<close>

fun for_places :: "(nat \<Rightarrow> bool option) \<Rightarrow> nat list \<Rightarrow> bool option" where
  "for_places body [] = Some False"
| "for_places body (i # is) = do { r \<leftarrow> body i; if r then Some True else for_places body is }"

definition ext_one_or_more :: "gmatch_fun \<Rightarrow> cstring \<Rightarrow> nat \<Rightarrow> nat \<Rightarrow> nat \<Rightarrow> nat \<Rightarrow> nat \<Rightarrow> int \<Rightarrow> bool option" where
  "ext_one_or_more gm P s se p pe prest flags =
     for_subpatterns (length P + 1)
       (\<lambda>psub pnext. for_places
          (\<lambda>srest. do {
             m1 \<leftarrow> GMATCH0 gm s srest psub (pnext - 1) flags;
             if m1 then do {
               let xflags = (if srest > s then no_dot_flags flags else flags);
               m2 \<leftarrow> GMATCH0 gm srest se prest pe xflags;
               if m2 then Some True
               else if s \<noteq> srest then GMATCH0 gm srest se (p - 1) pe xflags
               else Some False }
             else Some False }) [s..<se + 1])
       P pe prest (p + 1)"

definition ext_one :: "gmatch_fun \<Rightarrow> cstring \<Rightarrow> nat \<Rightarrow> nat \<Rightarrow> nat \<Rightarrow> nat \<Rightarrow> nat \<Rightarrow> int \<Rightarrow> bool option" where
  "ext_one gm P s se p pe prest flags =
     for_subpatterns (length P + 1)
       (\<lambda>psub pnext. for_places
          (\<lambda>srest. do {
             let xflags = (if srest > s then no_dot_flags flags else flags);
             m1 \<leftarrow> GMATCH0 gm s srest psub (pnext - 1) flags;
             if m1 then GMATCH0 gm srest se prest pe xflags else Some False })
          [(if prest = pe then se else s)..<se + 1])
       P pe prest (p + 1)"

text \<open>
  Negation. Reading \<^verbatim>\<open>s[-1]\<close> at the beginning of the buffer reads outside of it. The result \<open>Some True\<close> of the
  loop's body means that \<^verbatim>\<open>EXTMATCH\<close> returns; the value is with it.
\<close>

definition dotdot_after_slash :: "cstring \<Rightarrow> nat \<Rightarrow> int \<Rightarrow> bool option" where
  "dotdot_after_slash S n flags =
     (if \<not> has_flag flags FNM_PATHNAME then Some False
      else if n = 0 then None
      else Some (char_at S (n - 1) = CHR ''/'' \<and> PDOT_OR_DOTDOT S n))"

fun ext_not :: "gmatch_fun \<Rightarrow> cstring \<Rightarrow> cstring \<Rightarrow> nat \<Rightarrow> nat \<Rightarrow> nat \<Rightarrow> nat \<Rightarrow> nat \<Rightarrow> int \<Rightarrow> nat list \<Rightarrow> int option" where
  "ext_not gm S P s se p pe prest flags [] = Some FNM_NOMATCH"
| "ext_not gm S P s se p pe prest flags (srest # rest) =
     do {
       m1 \<leftarrow> for_subpatterns (length P + 1) (\<lambda>psub pnext. GMATCH0 gm s srest psub (pnext - 1) flags) P pe prest (p + 1);
       if m1 then ext_not gm S P s se p pe prest flags rest
       else if has_flag flags FNM_PERIOD \<and> char_at S s = CHR ''.'' then Some FNM_NOMATCH
       else do {
         dd \<leftarrow> (if has_flag flags FNM_DOTDOT
                then (if SDOT_OR_DOTDOT S s then Some True else dotdot_after_slash S s flags)
                else Some False);
         if dd then Some FNM_NOMATCH
         else do {
           let xflags = (if srest > s then no_dot_flags flags else flags);
           m2 \<leftarrow> GMATCH0 gm srest se prest pe xflags;
           if m2 then Some 0 else ext_not gm S P s se p pe prest flags rest } } }"

definition match_int :: "bool \<Rightarrow> int" where
  "match_int b = (if b then 0 else FNM_NOMATCH)"

definition EXTMATCH ::
    "gmatch_fun \<Rightarrow> cstring \<Rightarrow> cstring \<Rightarrow> char \<Rightarrow> nat \<Rightarrow> nat \<Rightarrow> nat \<Rightarrow> nat \<Rightarrow> int \<Rightarrow> int option" where
  "EXTMATCH gm S P xc s se p pe flags =
     (case PATSCAN P (if char_at P p = CHR ''('' then p + 1 else p) pe NUL of
        None \<Rightarrow> Some (STRCOMPARE S P (p - 1) pe s se)
      | Some prest \<Rightarrow>
          if xc = CHR ''+'' \<or> xc = CHR ''*'' then do {
            m0 \<leftarrow> (if xc = CHR ''*'' then GMATCH0 gm s se prest pe flags else Some False);
            if m0 then Some 0 else map_option match_int (ext_one_or_more gm P s se p pe prest flags) }
          else if xc = CHR ''?'' \<or> xc = CHR ''@'' then do {
            m0 \<leftarrow> (if xc = CHR ''?'' then GMATCH0 gm s se prest pe flags else Some False);
            if m0 then Some 0 else map_option match_int (ext_one gm P s se p pe prest flags) }
          else if xc = CHR ''!'' then ext_not gm S P s se p pe prest flags [s..<se + 1]
          else Some FNM_NOMATCH)"

section \<open>The matcher\<close>

text \<open>
  A leading period, and \<^verbatim>\<open>.\<close> and \<^verbatim>\<open>..\<close> at the beginning of a file name, must be matched explicitly: the
  tests that \<^verbatim>\<open>?\<close>, \<^verbatim>\<open>*\<close> and bracket expressions share.
\<close>

definition dot_blocked :: "cstring \<Rightarrow> int \<Rightarrow> nat \<Rightarrow> nat \<Rightarrow> char \<Rightarrow> bool option" where
  "dot_blocked S flags string n sc =
     (if has_flag flags FNM_PERIOD \<and> sc = CHR ''.''
         \<and> (n = string \<or> has_flag flags FNM_PATHNAME \<and> char_at S (n - 1) = CHR ''/'') then Some True
      else if has_flag flags FNM_DOTDOT
      then (if n = string \<and> SDOT_OR_DOTDOT S n then Some True else dotdot_after_slash S n flags)
      else Some False)"

lemma patscan_loop_ge:
  "patscan_loop P pend delim s pnest bnest skip cchar bfirst = Some q \<Longrightarrow> s \<le> q"
proof (induction "length P - s" arbitrary: s pnest bnest skip cchar bfirst rule: less_induct)
  case less
  have step: "s \<le> q" if "s < length P" "patscan_loop P pend delim (s + 1) pn bn sk cc bf = Some q"
    for pn bn sk cc bf
    using less.hyps [OF _ that(2)] that(1) by linarith
  show ?case
  proof (cases "char_at P s = NUL")
    case True
    with less.prems show ?thesis by (subst (asm) patscan_loop.simps) simp
  next
    case False
    with less.prems step [OF char_at_not_NUL [OF False]] show ?thesis
      by (subst (asm) patscan_loop.simps) (auto simp: Let_def split: if_splits)
  qed
qed

lemma PATSCAN_ge: "PATSCAN P s pend delim = Some q \<Longrightarrow> s \<le> q"
  by (auto simp: PATSCAN_def split: if_splits dest: patscan_loop_ge)

text \<open>The place after an extended pattern that is skipped.\<close>

definition skip_extpat :: "cstring \<Rightarrow> nat \<Rightarrow> nat \<Rightarrow> nat" where
  "skip_extpat P p pe = (case PATSCAN P (p + 1) pe NUL of Some q \<Rightarrow> q | None \<Rightarrow> pe)"

lemma skip_extpat_gt: "skip_extpat P (Suc p) pe \<noteq> pe \<Longrightarrow> p < skip_extpat P (Suc p) pe"
  by (auto simp: skip_extpat_def split: option.split dest: PATSCAN_ge)

text \<open>
  After a \<^verbatim>\<open>*\<close>: the loop over the wildcards that follow. It returns a result, or leaves the loop with the last
  character read and the two positions.
\<close>

definition string_char :: "cstring \<Rightarrow> nat \<Rightarrow> nat \<Rightarrow> char" where
  "string_char S n se = (if n < se then char_at S n else NUL)"

function star_collapse ::
    "gmatch_fun \<Rightarrow> cstring \<Rightarrow> cstring \<Rightarrow> nat \<Rightarrow> nat \<Rightarrow> nat \<Rightarrow> nat \<Rightarrow> int \<Rightarrow> (int + char \<times> nat \<times> nat) option" where
  "star_collapse gm S P n se p pe flags =
     (let c = char_at P p; p = p + 1; sc = string_char S n se in
      if c \<noteq> CHR ''?'' \<and> c \<noteq> CHR ''*'' then Some (Inr (c, n, p))
      else if has_flag flags FNM_PATHNAME \<and> sc = CHR ''/'' then Some (Inl FNM_NOMATCH)
      else if has_flag flags FNM_EXTMATCH \<and> c = CHR ''?'' \<and> char_at P p = CHR ''('' then
        (case EXTMATCH gm S P c n se p pe flags of
           None \<Rightarrow> None
         | Some r \<Rightarrow>
             if r = 0 then Some (Inl 0)
             else let q = skip_extpat P p pe
                  in if q = pe then Some (Inr (c, n, q)) else star_collapse gm S P n se q pe flags)
      else if c = CHR ''?'' then
        (if sc = NUL then Some (Inl FNM_NOMATCH)
         else if p = pe then Some (Inr (c, n + 1, p))
         else star_collapse gm S P (n + 1) se p pe flags)
      else if has_flag flags FNM_EXTMATCH \<and> char_at P p = CHR ''('' then
        (case for_places (\<lambda>newn. map_option (\<lambda>r. r = 0) (EXTMATCH gm S P c newn se p pe flags)) [n..<se] of
           None \<Rightarrow> None
         | Some r \<Rightarrow>
             if r then Some (Inl 0)
             else let q = skip_extpat P p pe
                  in if q = pe then Some (Inr (c, n, q)) else star_collapse gm S P n se q pe flags)
      else if p = pe then Some (Inr (c, n, p))
      else star_collapse gm S P n se p pe flags)"
  by pat_completeness auto
termination
  by (relation "measure (\<lambda>(gm, S, P, n, se, p, pe, flags). length P - p)")
     (auto intro!: diff_less_mono2 char_at_not_NUL simp: NUL_def dest: skip_extpat_gt)

declare star_collapse.simps [simp del]

text \<open>The first position from \<open>n\<close> on, before \<open>se\<close>, with the character \<open>c\<close>; otherwise \<open>se\<close>.\<close>

definition memchr_pos :: "cstring \<Rightarrow> char \<Rightarrow> nat \<Rightarrow> nat \<Rightarrow> nat" where
  "memchr_pos S c n se = n + length (takeWhile (\<lambda>i. char_at S i \<noteq> c) [n..<se])"

text \<open>
  The search for a place where the rest of the pattern matches: the places to try, and the result
  of the first that does. \<open>p\<close> is the position of \<open>c\<close>.
\<close>

fun star_search ::
    "gmatch_fun \<Rightarrow> cstring \<Rightarrow> cstring \<Rightarrow> char \<Rightarrow> char \<Rightarrow> nat \<Rightarrow> nat \<Rightarrow> nat \<Rightarrow> int \<Rightarrow> nat list
      \<Rightarrow> (nat \<times> nat) option option option" where
  "star_search gm S P c c1 se p pe flags [] = Some None"
| "star_search gm S P c c1 se p pe flags (n # rest) =
     (if \<not> has_flag flags FNM_EXTMATCH \<and> c \<noteq> CHR ''['' \<and> FOLD flags (char_at S n) \<noteq> c1
      then star_search gm S P c c1 se p pe flags rest
      else if has_flag flags FNM_EXTMATCH \<and> char_at P (p + 1) \<noteq> CHR ''('' \<and> char_at P p \<notin> set ''?*+@!''
              \<and> c \<noteq> CHR ''['' \<and> FOLD flags (char_at S n) \<noteq> c1
      then star_search gm S P c c1 se p pe flags rest
      else case gm n n se p pe True (no_dot_flags flags) of
             None \<Rightarrow> None
           | Some (r, ends) \<Rightarrow>
               if r = 0 then Some (Some ends) else star_search gm S P c c1 se p pe flags rest)"

text \<open>The rest of the case \<^verbatim>\<open>*\<close>, after the loop over wildcards.\<close>

definition star_rest ::
    "gmatch_fun \<Rightarrow> cstring \<Rightarrow> cstring \<Rightarrow> nat \<Rightarrow> char \<Rightarrow> nat \<Rightarrow> nat \<Rightarrow> nat \<Rightarrow> nat \<Rightarrow> int \<Rightarrow> gmatch_result" where
  "star_rest gm S P string c n se p pe flags =
     (if c = NUL then
        Some (match_int (\<not> has_flag flags FNM_PATHNAME \<or> has_flag flags FNM_LEADING_DIR
                         \<or> memchr_pos S (CHR ''/'') n se = se), None)
      else if p = pe \<and> (c = CHR ''?'' \<or> c = CHR ''*'') then Some (0, None)
      else if n = se \<and> has_flag flags FNM_EXTMATCH \<and> (c = CHR ''!'' \<or> c = CHR ''?'') \<and> char_at P p = CHR ''('' then
        map_option (\<lambda>r. (if r = 0 then match_int (c \<noteq> CHR ''!'') else match_int (c = CHR ''!''), None))
          (EXTMATCH gm S P c n se (p - 1) pe flags)
      else if c = CHR ''/'' \<and> has_flag flags FNM_PATHNAME then
        (let n = memchr_pos S (CHR ''/'') n se
         in if n < se then map_option (\<lambda>b. (match_int b, None)) (GMATCH0 gm (n + 1) se p pe flags)
            else Some (FNM_NOMATCH, None))
      else
        let endp = memchr_pos S (if has_flag flags FNM_PATHNAME then CHR ''/'' else NUL) n se;
            c1 = FOLD flags (if \<not> has_flag flags FNM_NOESCAPE \<and> c = BSLASH then char_at P p else c)
        in case star_search gm S P c c1 se (p - 1) pe flags [n..<endp] of
             None \<Rightarrow> None
           | Some None \<Rightarrow> Some (FNM_NOMATCH, None)
           | Some (Some None) \<Rightarrow> Some (0, None)
           | Some (Some (Some (p, n))) \<Rightarrow> gm string n se p pe False flags)"

definition gmatch_star ::
    "gmatch_fun \<Rightarrow> cstring \<Rightarrow> cstring \<Rightarrow> nat \<Rightarrow> nat \<Rightarrow> nat \<Rightarrow> nat \<Rightarrow> nat \<Rightarrow> bool \<Rightarrow> int \<Rightarrow> gmatch_result" where
  "gmatch_star gm S P string n se p pe ends flags =
     (if ends then Some (0, Some (p - 1, n))
      else do {
        b \<leftarrow> dot_blocked S flags string n (string_char S n se);
        if b then Some (FNM_NOMATCH, None)
        else if p = pe then Some (0, None)
        else do {
          r \<leftarrow> star_collapse gm S P n se p pe flags;
          case r of
            Inl v \<Rightarrow> Some (v, None)
          | Inr (c, n, p) \<Rightarrow> star_rest gm S P string c n se p pe flags } })"

text \<open>The case of a backslash; \<open>p\<close> is after it.\<close>

definition gmatch_escape ::
    "gmatch_fun \<Rightarrow> cstring \<Rightarrow> cstring \<Rightarrow> nat \<Rightarrow> nat \<Rightarrow> nat \<Rightarrow> nat \<Rightarrow> nat \<Rightarrow> bool \<Rightarrow> int \<Rightarrow> gmatch_result" where
  "gmatch_escape gm S P string n se p pe ends flags =
     (let sc = string_char S n se in
      if p = pe \<and> sc = BSLASH \<and> n + 1 = se then gm string (n + 1) se p pe ends flags
      else if p = pe then Some (FNM_NOMATCH, None)
      else
        let esc = \<not> has_flag flags FNM_NOESCAPE;
            c = (if esc then FOLD flags (char_at P p) else BSLASH);
            p = (if esc then p + 1 else p)
        in if esc \<and> p > pe then Some (FNM_NOMATCH, None)
           else if FOLD flags sc \<noteq> c then Some (FNM_NOMATCH, None)
           else gm string (n + 1) se p pe ends flags)"

text \<open>One round of the loop of \<^verbatim>\<open>GMATCH\<close>, and its end.\<close>

definition gmatch_body :: "gmatch_fun \<Rightarrow> bool \<Rightarrow> cstring \<Rightarrow> cstring \<Rightarrow> gmatch_fun" where
  "gmatch_body gm glob_asciirange S P string n se p pe ends flags =
     (if \<not> p < pe then
        Some (match_int (n = se \<or> has_flag flags FNM_LEADING_DIR \<and> char_at S n = CHR ''/''), None)
      else
        let c = FOLD flags (char_at P p); p = p + 1; sc = string_char S n se in
        if has_flag flags FNM_EXTMATCH \<and> char_at P p = CHR ''('' \<and> c \<in> set ''+*?@!'' then
          map_option (\<lambda>r. (r, None))
            (EXTMATCH gm S P c n se p pe (if n = string then flags else no_dot_flags flags))
        else if c = CHR ''?'' then
          (if sc = NUL then Some (FNM_NOMATCH, None)
           else if has_flag flags FNM_PATHNAME \<and> sc = CHR ''/'' then Some (FNM_NOMATCH, None)
           else do {
             b \<leftarrow> dot_blocked S flags string n sc;
             if b then Some (FNM_NOMATCH, None) else gm string (n + 1) se p pe ends flags })
        else if c = BSLASH then gmatch_escape gm S P string n se p pe ends flags
        else if c = CHR ''*'' then gmatch_star gm S P string n se p pe ends flags
        else if c = CHR ''['' then
          (if sc = NUL \<or> n = se then Some (FNM_NOMATCH, None)
           else do {
             b \<leftarrow> dot_blocked S flags string n sc;
             if b then Some (FNM_NOMATCH, None)
             else do {
               q \<leftarrow> BRACKMATCH glob_asciirange P p sc flags;
               case q of
                 None \<Rightarrow> Some (FNM_NOMATCH, None)
               | Some p \<Rightarrow> gm string (n + 1) se p pe ends flags } })
        else if c \<noteq> FOLD flags sc then Some (FNM_NOMATCH, None)
        else gm string (n + 1) se p pe ends flags)"

text \<open>
  The loop of \<^verbatim>\<open>GMATCH\<close>. The number bounds the depth of the nested calls and rounds: each makes progress in
  the string or in the pattern.
\<close>

primrec gmatch_loop :: "nat \<Rightarrow> bool \<Rightarrow> cstring \<Rightarrow> cstring \<Rightarrow> gmatch_fun" where
  "gmatch_loop 0 glob_asciirange S P = (\<lambda>string n se p pe ends flags. None)"
| "gmatch_loop (Suc k) glob_asciirange S P = gmatch_body (gmatch_loop k glob_asciirange S P) glob_asciirange S P"

definition GMATCH :: "bool \<Rightarrow> cstring \<Rightarrow> cstring \<Rightarrow> nat \<Rightarrow> nat \<Rightarrow> nat \<Rightarrow> nat \<Rightarrow> bool \<Rightarrow> int \<Rightarrow> gmatch_result" where
  "GMATCH glob_asciirange S P string se pattern pe ends flags =
     gmatch_loop (length S + length P + 1) glob_asciirange S P string string se pattern pe ends flags"

definition internal_strmatch :: "bool \<Rightarrow> cstring option \<Rightarrow> cstring option \<Rightarrow> int \<Rightarrow> int option" where
  "internal_strmatch glob_asciirange pattern string flags =
     (case (pattern, string) of
        (Some P, Some S) \<Rightarrow>
          map_option fst (GMATCH glob_asciirange S P 0 (length S) 0 (length P) False flags)
      | _ \<Rightarrow> Some FNM_NOMATCH)"

definition xstrmatch :: "bool \<Rightarrow> cstring option \<Rightarrow> cstring option \<Rightarrow> int \<Rightarrow> int option" where
  "xstrmatch glob_asciirange pattern string flags = internal_strmatch glob_asciirange pattern string flags"

definition strmatch :: "bool \<Rightarrow> cstring option \<Rightarrow> cstring option \<Rightarrow> int \<Rightarrow> int option" where
  "strmatch glob_asciirange pattern string flags =
     (if string = None \<or> pattern = None then Some FNM_NOMATCH
      else xstrmatch glob_asciirange pattern string flags)"

end
