(* ===== verification/General.thy ===== *)
theory General
  imports Itos
begin

text \<open>
  The checks of names and numbers that many components share (\<^verbatim>\<open>general.c\<close>) and the string utilities of
  \<^verbatim>\<open>stringlib.c\<close>. Reading a number uses the C library's \<^verbatim>\<open>strtoimax\<close>, which is modelled for base ten: blanks, a
  sign and digits are read; the value is clamped to the range of \<^verbatim>\<open>intmax_t\<close> and \<^verbatim>\<open>ERANGE\<close> is reported when it does
  not fit; without digits nothing is read.
\<close>

section \<open>Numbers\<close>

definition dec_value :: "cstring \<Rightarrow> int" where
  "dec_value ds = foldl (\<lambda>v d. v * 10 + (int (code d) - 48)) 0 ds"

text \<open>The value, the position after what was read, and whether \<^verbatim>\<open>errno\<close> was set to \<^verbatim>\<open>ERANGE\<close>.\<close>

definition strtoimax :: "cstring \<Rightarrow> int \<times> nat \<times> bool" where
  "strtoimax s =
     (let i = length (takeWhile ISSPACE s);
          neg = (char_at s i = CHR ''-'');
          j = (if neg \<or> char_at s i = CHR ''+'' then i + 1 else i);
          ds = takeWhile ISDIGIT (drop j s);
          v = (if neg then - dec_value ds else dec_value ds)
      in if ds = [] then (0, 0, False)
         else if v < INTMAX_MIN then (INTMAX_MIN, j + length ds, True)
         else if INTMAX_MAX < v then (INTMAX_MAX, j + length ds, True)
         else (v, j + length ds, False))"

text \<open>\<open>None\<close> is the result 0, \<open>Some v\<close> the result 1 with \<^verbatim>\<open>v\<close> stored.\<close>

definition legal_number :: "cstring option \<Rightarrow> int option" where
  "legal_number string =
     (case string of
        None \<Rightarrow> None
      | Some s \<Rightarrow>
          let (value, ep, erange) = strtoimax s
          in if erange \<or> ep = 0 then None
             else if dropWhile whitespace (drop ep s) = [] then Some value
             else None)"

definition all_digits :: "cstring \<Rightarrow> bool" where
  "all_digits string = list_all ISDIGIT string"

definition ADDOVERFLOW :: "int \<Rightarrow> int \<Rightarrow> int \<Rightarrow> int \<Rightarrow> bool" where
  "ADDOVERFLOW a b minv maxv \<longleftrightarrow> (a > 0 \<and> b > maxv - a) \<or> (a < 0 \<and> b < minv - a)"

definition SUBOVERFLOW :: "int \<Rightarrow> int \<Rightarrow> int \<Rightarrow> int \<Rightarrow> bool" where
  "SUBOVERFLOW a b minv maxv \<longleftrightarrow> (b > 0 \<and> a < minv + b) \<or> (b < 0 \<and> a > maxv + b)"

section \<open>Names\<close>

definition legal_identifier :: "cstring option \<Rightarrow> bool" where
  "legal_identifier name =
     (case name of
        None \<Rightarrow> False
      | Some [] \<Rightarrow> False
      | Some (c # s) \<Rightarrow> legal_variable_starter c \<and> list_all legal_variable_char s)"

definition line_isblank :: "cstring option \<Rightarrow> bool" where
  "line_isblank line = (case line of None \<Rightarrow> False | Some s \<Rightarrow> list_all ISBLANK s)"

section \<open>Strings\<close>

definition substring :: "cstring \<Rightarrow> nat \<Rightarrow> nat \<Rightarrow> cstring" where
  "substring string start end_pos = take (end_pos - start) (drop start string)"

definition starts_with :: "char \<Rightarrow> cstring \<Rightarrow> bool" where
  "starts_with c s \<longleftrightarrow> s \<noteq> [] \<and> hd s = c"

section \<open>Printed numbers are read back\<close>

lemma code_FMTCHAR_small: "d < 10 \<Longrightarrow> code (FMTCHAR d) = 48 + d"
  using FMTCHAR_small [of d] code_TOCHAR [of d] by simp

lemma dec_value_append: "dec_value (ds @ [d]) = dec_value ds * 10 + (int (code d) - 48)"
  by (simp add: dec_value_def)

lemma dec_value_digits:
  assumes "\<forall>d \<in> set ds. d < 10"
  shows "dec_value (map FMTCHAR ds) = int (value_of 10 ds)"
  using assms
proof (induction ds rule: rev_induct)
  case Nil
  show ?case by (simp add: dec_value_def value_of_def)
next
  case (snoc d ds)
  then show ?case by (simp add: dec_value_append code_FMTCHAR_small)
qed

lemma ISDIGIT_FMTCHAR: "d < 10 \<Longrightarrow> ISDIGIT (FMTCHAR d)"
  by (simp add: ISDIGIT_def code_FMTCHAR_small)

definition dec_text :: "nat \<Rightarrow> cstring" where
  "dec_text n = map FMTCHAR (digits 10 n)"

lemma dec_text_facts:
  "list_all ISDIGIT (dec_text n)" "dec_text n \<noteq> []" "dec_value (dec_text n) = int n"
  using digits_less [of 10 n] value_of_digits [of 10 n] dec_value_digits [of "digits 10 n"]
  by (auto simp: dec_text_def list_all_iff ISDIGIT_FMTCHAR)

lemma itos_dec_text: "in_int64 i \<Longrightarrow> itos i = (if i < 0 then CHR ''-'' # dec_text (nat (- i)) else dec_text (nat i))"
  by (simp add: itos_eq dec_text_def)

lemma digit_not_special: "ISDIGIT c \<Longrightarrow> \<not> ISSPACE c \<and> c \<noteq> CHR ''-'' \<and> c \<noteq> CHR ''+'' \<and> c \<noteq> NUL \<and> c \<noteq> CHR ''.''"
  by (auto simp: ISDIGIT_def ISSPACE_def NUL_def)

lemma strtoimax_itos:
  assumes "in_int64 i" and "r = [] \<or> \<not> ISDIGIT (hd r)"
  shows "strtoimax (itos i @ r) = (i, length (itos i), False)"
proof -
  define n where "n = nat \<bar>i\<bar>"
  have n: "itos i = (if i < 0 then CHR ''-'' # dec_text n else dec_text n)" "n = nat \<bar>i\<bar>"
    using itos_dec_text [OF assms(1)] by (auto simp: n_def)
  obtain d ds where d: "dec_text n = d # ds" using dec_text_facts(2) [of n] by (cases "dec_text n") auto
  then have dig: "ISDIGIT d" "list_all ISDIGIT ds" using dec_text_facts(1) [of n] by simp_all
  have "takeWhile ISDIGIT r = []" using assms(2) by (cases r) auto
  then have "takeWhile ISDIGIT (dec_text n @ r) = dec_text n"
    using dec_text_facts(1) [of n] by (simp add: takeWhile_append2 list_all_iff)
  moreover have "takeWhile ISSPACE (itos i @ r) = []"
    using n d digit_not_special [OF dig(1)] by (auto simp: ISSPACE_def)
  moreover have "\<not> i < INTMAX_MIN" "\<not> INTMAX_MAX < i"
    using assms(1) by (auto simp: in_int64_def INTMAX_MAX_def INTMAX_MIN_def)
  moreover have "i < 0 \<Longrightarrow> - dec_value (dec_text n) = i" "\<not> i < 0 \<Longrightarrow> dec_value (dec_text n) = i"
    using dec_text_facts(3) [of n] by (simp_all add: n_def)
  moreover have "\<not> i < 0 \<Longrightarrow> char_at (itos i @ r) 0 = d" "i < 0 \<Longrightarrow> char_at (itos i @ r) 0 = CHR ''-''"
    using n(1) d by (simp_all add: char_at_def)
  ultimately show ?thesis
    using n(1) digit_not_special [OF dig(1)] dec_text_facts(2) [of n]
    by (cases "i < 0") (simp_all add: strtoimax_def Let_def)
qed

lemma itos_shape:
  assumes "in_int64 n"
  shows "\<exists>c r. itos n = c # r \<and> (ISDIGIT c \<or> c = CHR ''-'' \<and> r \<noteq> [] \<and> ISDIGIT (hd r))"
proof -
  have "\<exists>c r. dec_text m = c # r \<and> ISDIGIT c" for m
    using dec_text_facts(1,2) [of m] by (cases "dec_text m") auto
  then show ?thesis using itos_dec_text [OF assms] by (metis list.distinct(1) list.sel(1))
qed

lemma dec_text_no_zero: "hd (dec_text m) = CHR ''0'' \<longleftrightarrow> m = 0" "dec_text 0 = ''0''"
proof -
  have d: "digits 10 m \<noteq> []" "\<forall>d\<in>set (digits 10 m). d < 10" using digits_less [of 10 m] by simp_all
  then have "hd (digits 10 m) < 10" by (meson hd_in_set)
  then have "FMTCHAR (hd (digits 10 m)) = CHR ''0'' \<longleftrightarrow> hd (digits 10 m) = 0"
    using code_FMTCHAR_small [of "hd (digits 10 m)"] char_eq_iff_code [of "FMTCHAR (hd (digits 10 m))" "CHR ''0''"] by simp
  then show "hd (dec_text m) = CHR ''0'' \<longleftrightarrow> m = 0"
    using d digits_head_zero [of 10 m] by (simp add: dec_text_def hd_map)
  show "dec_text 0 = ''0''" by code_simp
qed

end
