(* ===== verification/Patsub.thy ===== *)
theory Patsub
  imports Smatch General
begin

text \<open>
  Pattern removal and pattern substitution, \<^verbatim>\<open>${v#pat}\<close> and \<^verbatim>\<open>${v/pat/rep}\<close> (\<^verbatim>\<open>subst.c\<close>), with the helpers of
  \<^verbatim>\<open>lib/glob/gm_loop.c\<close>, \<^verbatim>\<open>lib/glob/glob_loop.c\<close>, \<^verbatim>\<open>pathexp.c\<close> and \<^verbatim>\<open>stringlib.c\<close>. A pointer into a string that only
  moves forward is the rest of the string; the boundaries of a match are positions. The outcome
  \<open>None\<close> is that of \<open>Smatch\<close>: a read outside a buffer or through \<^verbatim>\<open>NULL\<close>. The lengths that the code keeps in an
  \<^verbatim>\<open>int\<close> fit.
\<close>

section \<open>Looking at patterns\<close>

text \<open>The options of the shell that matching depends on.\<close>

record glob_opts =
  extended_glob :: bool
  match_ignore_case :: bool
  glob_asciirange :: bool

definition FNMATCH_EXTFLAG :: "glob_opts \<Rightarrow> int" where
  "FNMATCH_EXTFLAG g = (if extended_glob g then FNM_EXTMATCH else 0)"

definition FNMATCH_IGNCASE :: "glob_opts \<Rightarrow> int" where
  "FNMATCH_IGNCASE g = (if match_ignore_case g then FNM_CASEFOLD else 0)"

definition extglob_pattern_p :: "cstring \<Rightarrow> bool" where
  "extglob_pattern_p pat \<longleftrightarrow> char_at pat 0 \<in> set ''*+!@?'' \<and> char_at pat 1 = CHR ''(''"

text \<open>Could the first character of the string match the first character of the pattern?\<close>

definition match_pattern_char :: "cstring \<Rightarrow> cstring \<Rightarrow> int \<Rightarrow> bool" where
  "match_pattern_char pat string flags =
     (let c = char_at pat 0; sc = char_at string 0; next = char_at pat 1 in
      if sc = NUL then c = CHR ''*''
      else if c = BSLASH then FOLD flags sc = FOLD flags next
      else if c = CHR ''?'' then (if next = CHR ''('' then True else sc \<noteq> NUL)
      else if c = CHR ''*'' then True
      else if c \<in> set ''+!@'' then (if next = CHR ''('' then True else FOLD flags sc = FOLD flags c)
      else if c = CHR ''['' then sc \<noteq> NUL
      else FOLD flags sc = FOLD flags c)"

text \<open>
  The end of a bracket expression. The argument starts with the current character; the flags tell
  whether a special bracket expression is open. The result is the length so far if the pattern ends,
  and otherwise the rest after the closing bracket.
\<close>

definition skip_close :: "cstring \<Rightarrow> nat \<Rightarrow> cstring \<times> nat" where
  "skip_close pat n = (if starts_with (CHR '']'') pat then (tl pat, n + 1) else (pat, n))"

definition bracket_step ::
    "char \<Rightarrow> cstring \<Rightarrow> nat \<Rightarrow> bool \<Rightarrow> bool \<Rightarrow> bool \<Rightarrow> nat + cstring \<times> nat \<times> bool \<times> bool \<times> bool" where
  "bracket_step c pat bracklen in_cclass in_collsym in_equiv =
     (if c = BSLASH then
        (if pat = [] \<or> tl pat = [] then Inl (bracklen + 1)
         else Inr (tl pat, bracklen + 1, in_cclass, in_collsym, in_equiv))
      else if c = CHR ''['' \<and> starts_with (CHR '':'') pat then
        Inr (tl pat, bracklen + 1, True, in_collsym, in_equiv)
      else if in_cclass \<and> c = CHR '':'' \<and> starts_with (CHR '']'') pat then
        Inr (tl pat, bracklen + 1, False, in_collsym, in_equiv)
      else if c = CHR ''['' \<and> starts_with (CHR ''.'') pat then
        (let (pat, n) = skip_close (tl pat) (bracklen + 1) in Inr (pat, n, in_cclass, True, in_equiv))
      else if in_collsym \<and> c = CHR ''.'' \<and> starts_with (CHR '']'') pat then
        Inr (tl pat, bracklen + 1, in_cclass, False, in_equiv)
      else if c = CHR ''['' \<and> starts_with (CHR ''='') pat then
        (let (pat, n) = skip_close (tl pat) (bracklen + 1) in Inr (pat, n, in_cclass, in_collsym, True))
      else if in_equiv \<and> c = CHR ''='' \<and> starts_with (CHR '']'') pat then
        Inr (tl pat, bracklen + 1, in_cclass, in_collsym, False)
      else Inr (pat, bracklen + 1, in_cclass, in_collsym, in_equiv))"

lemma bracket_step_shorter:
  "bracket_step c pat n cc cs eq = Inr (pat', r) \<Longrightarrow> length pat' \<le> length pat"
  by (auto simp: bracket_step_def skip_close_def split: if_splits)

function bracket_scan ::
    "cstring \<Rightarrow> nat \<Rightarrow> bool \<Rightarrow> bool \<Rightarrow> bool \<Rightarrow> nat + cstring \<times> bool \<times> bool \<times> bool" where
  "bracket_scan [] bracklen in_cclass in_collsym in_equiv = Inl bracklen"
| "bracket_scan (c # pat) bracklen in_cclass in_collsym in_equiv =
     (case bracket_step c pat bracklen in_cclass in_collsym in_equiv of
        Inl n \<Rightarrow> Inl n
      | Inr (pat, n, cc, cs, eq) \<Rightarrow>
          if starts_with (CHR '']'') pat then Inr (tl pat, cc, cs, eq) else bracket_scan pat n cc cs eq)"
  by pat_completeness auto
termination
  by (relation "measure (\<lambda>(pat, n, cc, cs, eq). length pat)") (auto dest!: bracket_step_shorter)

lemma bracket_scan_shorter: "bracket_scan pat n cc cs eq = Inr (pat', r) \<Longrightarrow> length pat' \<le> length pat"
proof (induction pat n cc cs eq rule: bracket_scan.induct)
  case (2 c pat n cc cs eq)
  then show ?case
    by (auto split: sum.splits prod.splits if_splits dest!: bracket_step_shorter) (fastforce intro: le_trans)+
qed simp

text \<open>The number of characters that a match of the pattern has, or -1.\<close>

function matchlen_loop :: "cstring \<Rightarrow> int \<Rightarrow> bool \<Rightarrow> bool \<Rightarrow> bool \<Rightarrow> int" where
  "matchlen_loop [] matlen in_cclass in_collsym in_equiv = matlen"
| "matchlen_loop (c # pat) matlen in_cclass in_collsym in_equiv =
     (if c = BSLASH then
        (if pat = [] then matlen + 1 else matchlen_loop (tl pat) (matlen + 1) in_cclass in_collsym in_equiv)
      else if c = CHR ''?'' then
        (if starts_with (CHR ''('') pat then - 1 else matchlen_loop pat (matlen + 1) in_cclass in_collsym in_equiv)
      else if c = CHR ''*'' then - 1
      else if c \<in> set ''+!@'' then
        (if starts_with (CHR ''('') pat then - 1 else matchlen_loop pat (matlen + 1) in_cclass in_collsym in_equiv)
      else if c = CHR ''['' then
        (case bracket_scan pat 1 in_cclass in_collsym in_equiv of
           Inl n \<Rightarrow> matlen + int n
         | Inr (pat, cc, cs, eq) \<Rightarrow> matchlen_loop pat (matlen + 1) cc cs eq)
      else matchlen_loop pat (matlen + 1) in_cclass in_collsym in_equiv)"
  by pat_completeness auto
termination
  by (relation "measure (\<lambda>(pat, matlen, cc, cs, eq). length pat)") (auto dest!: bracket_scan_shorter)

definition umatchlen :: "cstring \<Rightarrow> int" where
  "umatchlen pat = (if pat = [] then 0 else matchlen_loop pat 0 False False False)"

text \<open>Does the pattern have an unquoted special character? Bracket expressions must be closed.\<close>

fun glob_pattern_loop :: "cstring \<Rightarrow> nat \<Rightarrow> bool" where
  "glob_pattern_loop [] bopen = False"
| "glob_pattern_loop (c # p) bopen =
     (if c = CHR ''?'' \<or> c = CHR ''*'' then True
      else if c = CHR ''['' then glob_pattern_loop p (bopen + 1)
      else if c = CHR '']'' then (if bopen > 0 then True else glob_pattern_loop p bopen)
      else if c \<in> set ''+@!'' then (if starts_with (CHR ''('') p then True else glob_pattern_loop p bopen)
      else if c = BSLASH then (case p of [] \<Rightarrow> False | d # p \<Rightarrow> glob_pattern_loop p bopen)
      else glob_pattern_loop p bopen)"

definition internal_glob_pattern_p :: "cstring \<Rightarrow> bool" where
  "internal_glob_pattern_p pattern = glob_pattern_loop pattern 0"

definition glob_pattern_p :: "cstring \<Rightarrow> bool" where
  "glob_pattern_p pattern = internal_glob_pattern_p pattern"

definition glob_char_p :: "cstring \<Rightarrow> bool" where
  "glob_char_p s \<longleftrightarrow>
     (char_at s 0 \<in> set ''*[]?'' \<or> char_at s 0 = BSLASH
      \<or> char_at s 0 \<in> set ''+@!'' \<and> char_at s 1 = CHR ''('')"

fun quote_globbing_chars :: "cstring \<Rightarrow> cstring" where
  "quote_globbing_chars [] = []"
| "quote_globbing_chars (c # s) =
     (if glob_char_p (c # s) then BSLASH # c # quote_globbing_chars s else c # quote_globbing_chars s)"

section \<open>Strings\<close>

text \<open>
  Replacing a string by another one. The buffer is allocated only when something is written to it; if
  nothing was, the result is a copy of the argument.
\<close>

fun strsub_loop :: "cstring \<Rightarrow> cstring \<Rightarrow> cstring \<Rightarrow> bool \<Rightarrow> bool \<Rightarrow> cstring option \<Rightarrow> cstring option" where
  "strsub_loop [] pat rep global repl temp = temp"
| "strsub_loop (c # s) pat rep global repl temp =
     (if repl \<and> take (length pat) (c # s) = pat then
        strsub_loop (drop (if pat = [] then 1 else length pat) (c # s)) pat rep global global
          (if rep = [] then temp else Some (case temp of None \<Rightarrow> rep | Some t \<Rightarrow> t @ rep))
      else strsub_loop s pat rep global repl (Some (case temp of None \<Rightarrow> [c] | Some t \<Rightarrow> t @ [c])))"

definition strsub :: "cstring \<Rightarrow> cstring \<Rightarrow> cstring \<Rightarrow> bool \<Rightarrow> cstring" where
  "strsub string pat rep global =
     (case strsub_loop string pat rep global True None of None \<Rightarrow> string | Some t \<Rightarrow> t)"

fun creplace_loop :: "cstring \<Rightarrow> char \<Rightarrow> cstring \<Rightarrow> bool \<Rightarrow> bool \<Rightarrow> cstring" where
  "creplace_loop [] c txt do_glob escape_backslash = []"
| "creplace_loop (p # ps) c txt do_glob escape_backslash =
     (if p = c then
        (if do_glob \<and> (glob_pattern_p txt \<or> BSLASH \<in> set txt) then quote_globbing_chars txt else txt)
          @ creplace_loop ps c txt do_glob escape_backslash
      else if p = BSLASH \<and> (starts_with c ps \<or> escape_backslash \<and> starts_with BSLASH ps)
      then (case ps of [] \<Rightarrow> [p] | q # qs \<Rightarrow> q # creplace_loop qs c txt do_glob escape_backslash)
      else p # creplace_loop ps c txt do_glob escape_backslash)"

definition strcreplace :: "cstring \<Rightarrow> char \<Rightarrow> cstring \<Rightarrow> int \<Rightarrow> cstring" where
  "strcreplace string c txt flags = creplace_loop string c txt (has_flag flags 1) (has_flag flags 2)"

section \<open>Pattern removal\<close>

definition RP_LONG_LEFT :: int where "RP_LONG_LEFT = 1"
definition RP_SHORT_LEFT :: int where "RP_SHORT_LEFT = 2"
definition RP_LONG_RIGHT :: int where "RP_LONG_RIGHT = 3"
definition RP_SHORT_RIGHT :: int where "RP_SHORT_RIGHT = 4"

definition getpatspec :: "char \<Rightarrow> cstring \<Rightarrow> int" where
  "getpatspec c val =
     (if c = CHR ''#'' then (if char_at val 0 = CHR ''#'' then RP_LONG_LEFT else RP_SHORT_LEFT)
      else (if char_at val 0 = CHR ''%'' then RP_LONG_RIGHT else RP_SHORT_RIGHT))"

text \<open>The first of the given places at which a test succeeds.\<close>

fun first_place :: "(nat \<Rightarrow> bool option) \<Rightarrow> nat list \<Rightarrow> nat option option" where
  "first_place test [] = Some None"
| "first_place test (p # ps) = do { r \<leftarrow> test p; if r then Some (Some p) else first_place test ps }"

definition strmatches :: "glob_opts \<Rightarrow> int \<Rightarrow> cstring \<Rightarrow> cstring \<Rightarrow> bool option" where
  "strmatches g flags pat s = map_option (\<lambda>r. r \<noteq> FNM_NOMATCH) (strmatch (glob_asciirange g) (Some pat) (Some s) flags)"

text \<open>
  Cutting the string at \<^verbatim>\<open>p\<close> is done in place by storing a terminator and restoring the character. The code
  returns its argument if nothing matches.
\<close>

definition remove_upattern :: "glob_opts \<Rightarrow> cstring \<Rightarrow> cstring \<Rightarrow> int \<Rightarrow> cstring option" where
  "remove_upattern g param pattern op =
     (let len = length param; m = strmatches g (FNMATCH_EXTFLAG g) pattern in
      if op = RP_LONG_LEFT then
        map_option (\<lambda>r. case r of Some p \<Rightarrow> drop p param | None \<Rightarrow> param)
          (first_place (\<lambda>p. m (take p param)) (rev [0..<len + 1]))
      else if op = RP_SHORT_LEFT then
        map_option (\<lambda>r. case r of Some p \<Rightarrow> drop p param | None \<Rightarrow> param)
          (first_place (\<lambda>p. m (take p param)) [0..<len + 1])
      else if op = RP_LONG_RIGHT then
        map_option (\<lambda>r. case r of Some p \<Rightarrow> take p param | None \<Rightarrow> param)
          (first_place (\<lambda>p. m (drop p param)) [0..<len + 1])
      else if op = RP_SHORT_RIGHT then
        map_option (\<lambda>r. case r of Some p \<Rightarrow> take p param | None \<Rightarrow> param)
          (first_place (\<lambda>p. m (drop p param)) (rev [0..<len + 1]))
      else Some param)"

text \<open>The outer option is the outcome, the inner one a result that may be \<^verbatim>\<open>NULL\<close>.\<close>

definition remove_pattern :: "glob_opts \<Rightarrow> cstring option \<Rightarrow> cstring option \<Rightarrow> int \<Rightarrow> cstring option option" where
  "remove_pattern g param pattern op =
     (case param of
        None \<Rightarrow> Some None
      | Some s \<Rightarrow>
          (case pattern of
             None \<Rightarrow> Some (Some s)
           | Some pat \<Rightarrow>
               if s = [] \<or> pat = [] then Some (Some s)
               else map_option Some (remove_upattern g s pat op)))"

section \<open>Finding a match\<close>

definition MATCH_ANY :: int where "MATCH_ANY = 0"
definition MATCH_BEG :: int where "MATCH_BEG = 1"
definition MATCH_END :: int where "MATCH_END = 2"
definition MATCH_TYPEMASK :: int where "MATCH_TYPEMASK = 3"
definition MATCH_GLOBREP :: int where "MATCH_GLOBREP = 16"
definition MATCH_EXPREP :: int where "MATCH_EXPREP = 256"

text \<open>Is the \<^verbatim>\<open>*\<close> at the end of the pattern quoted? The argument is what precedes it, backwards.\<close>

fun odd_backslashes :: "cstring \<Rightarrow> bool" where
  "odd_backslashes [] = False"
| "odd_backslashes (c # s) = (if c = BSLASH then \<not> odd_backslashes s else False)"

text \<open>
  The pattern is widened by a \<^verbatim>\<open>*\<close> on the sides that are not anchored, unless there is one already. It is
  not empty.
\<close>

definition star_first :: "glob_opts \<Rightarrow> cstring \<Rightarrow> bool" where
  "star_first g pat \<longleftrightarrow>
     char_at pat 0 = CHR ''*'' \<and> \<not> (char_at pat 1 = CHR ''('' \<and> extended_glob g)"

definition widen_pattern :: "glob_opts \<Rightarrow> cstring \<Rightarrow> int \<Rightarrow> cstring" where
  "widen_pattern g pat mtype =
     (if \<not> star_first g pat \<or> last pat \<noteq> CHR ''*'' then
        (if mtype \<noteq> MATCH_BEG \<and> \<not> star_first g pat then ''*'' else [])
        @ pat
        @ (if mtype \<noteq> MATCH_END \<and> last pat = CHR ''*'' \<and> odd_backslashes (rev (butlast pat)) then ''*''
           else if mtype \<noteq> MATCH_END \<and> last pat \<noteq> CHR ''*'' then ''*''
           else [])
      else pat)"

text \<open>The search for a match that starts anywhere; \<open>m p e\<close> matches the part from \<open>p\<close> to \<open>e\<close>.\<close>

fun match_any ::
    "(nat \<Rightarrow> bool) \<Rightarrow> (nat \<Rightarrow> nat \<Rightarrow> bool option) \<Rightarrow> int \<Rightarrow> nat \<Rightarrow> nat list \<Rightarrow> (nat \<times> nat) option option" where
  "match_any first m mlen len [] = Some None"
| "match_any first m mlen len (p # ps) =
     (if \<not> first p then match_any first m mlen len ps
      else if mlen \<noteq> - 1 \<and> int p + mlen > int len then Some None
      else do {
        r \<leftarrow> first_place (m p) (if mlen = - 1 then rev [p..<len + 1] else [p + nat mlen]);
        case r of
          Some e \<Rightarrow> Some (Some (p, e))
        | None \<Rightarrow> match_any first m mlen len ps })"

definition match_upattern :: "glob_opts \<Rightarrow> cstring \<Rightarrow> cstring \<Rightarrow> int \<Rightarrow> (nat \<times> nat) option option" where
  "match_upattern g string pat mtype =
     (let flags = FNMATCH_EXTFLAG g OR FNMATCH_IGNCASE g;
          len = length string;
          mlen = umatchlen pat;
          m = (\<lambda>p e. map_option (\<lambda>r. r = 0) (strmatch (glob_asciirange g) (Some pat) (Some (substring string p e)) flags))
      in
      if pat = [] then None
      else do {
        c \<leftarrow> strmatches g flags (widen_pattern g pat mtype) string;
        if \<not> c then Some None
        else if mlen > int len then Some None
        else if mtype = MATCH_ANY then
          match_any (\<lambda>p. match_pattern_char pat (drop p string) (FNMATCH_IGNCASE g)) m mlen len [0..<len + 1]
        else if mtype = MATCH_BEG then
          (if \<not> match_pattern_char pat string (FNMATCH_IGNCASE g) then Some None
           else map_option (map_option (\<lambda>e. (0, e)))
                  (first_place (m 0) (if mlen = - 1 then rev [0..<len + 1] else [nat mlen])))
        else if mtype = MATCH_END then
          map_option (map_option (\<lambda>p. (p, len)))
            (first_place (\<lambda>p. m p len) (if mlen = - 1 then [0..<len + 1] else [len - nat mlen]))
        else Some None
      })"

definition match_pattern :: "glob_opts \<Rightarrow> cstring option \<Rightarrow> cstring option \<Rightarrow> int \<Rightarrow> (nat \<times> nat) option option" where
  "match_pattern g string pat mtype =
     (case (string, pat) of
        (Some s, Some p) \<Rightarrow> if p = [] then Some None else match_upattern g s p mtype
      | _ \<Rightarrow> Some None)"

section \<open>Pattern substitution\<close>

text \<open>The replacement for a matched part: with \<^verbatim>\<open>MATCH_EXPREP\<close> each \<^verbatim>\<open>&\<close> stands for it.\<close>

definition expand_rep :: "cstring option \<Rightarrow> int \<Rightarrow> cstring \<Rightarrow> cstring" where
  "expand_rep rep mflags mstr =
     (case rep of
        None \<Rightarrow> []
      | Some r \<Rightarrow> if has_flag mflags MATCH_EXPREP then strcreplace r (CHR ''&'') mstr 2 else r)"

text \<open>
  The loop, on the rest of the string. After an empty match one character is copied; at the end of the
  string that would be the terminator. A match ends where it starts or later, so that the guard \<open>e = 0\<close> never
  holds; it is there for the termination of the function.
\<close>

function pat_subst_loop :: "glob_opts \<Rightarrow> cstring \<Rightarrow> cstring option \<Rightarrow> cstring option \<Rightarrow> int \<Rightarrow> cstring option" where
  "pat_subst_loop g str pat rep mflags =
     (if str = [] then Some []
      else
        case match_pattern g (Some str) pat (mflags AND MATCH_TYPEMASK) of
          None \<Rightarrow> None
        | Some None \<Rightarrow> Some str
        | Some (Some (s, e)) \<Rightarrow>
            let mstr = substring str s e;
                ret = take s str @ expand_rep rep mflags mstr
            in
            if \<not> has_flag mflags MATCH_GLOBREP \<or> mflags AND MATCH_TYPEMASK \<noteq> MATCH_ANY then Some (ret @ drop e str)
            else if s \<noteq> e then
              (if e = 0 then None else map_option ((@) ret) (pat_subst_loop g (drop e str) pat rep mflags))
            else if drop e str = [] then None
            else map_option (\<lambda>r. ret @ [str ! e] @ r) (pat_subst_loop g (drop (Suc e) str) pat rep mflags))"
  by pat_completeness auto
termination by (relation "measure (\<lambda>(g, str, pat, rep, mflags). length str)") auto

declare pat_subst_loop.simps [simp del]

definition pat_subst :: "glob_opts \<Rightarrow> cstring option \<Rightarrow> cstring option \<Rightarrow> cstring option \<Rightarrow> int \<Rightarrow> cstring option" where
  "pat_subst g string pat rep mflags =
     (case string of
        None \<Rightarrow> Some []
      | Some str \<Rightarrow>
          let mtype = mflags AND MATCH_TYPEMASK in
          if (pat = None \<or> pat = Some []) \<and> (mtype = MATCH_BEG \<or> mtype = MATCH_END) then
            (if has_flag mflags MATCH_EXPREP \<and> rep = None then None
             else
               let rstr = expand_rep rep mflags []
               in Some (if mtype = MATCH_BEG then rstr @ str else str @ rstr))
          else if str = [] then do {
            r \<leftarrow> match_pattern g string pat mtype;
            if r \<noteq> None then (if rep = None then None else Some (expand_rep rep mflags []))
            else Some [] }
          else pat_subst_loop g str pat rep mflags)"

end
