(* ===== verification/Smatch_Pattern.thy ===== *)
theory Smatch_Pattern
  imports Smatch
begin

text \<open>
  What pattern matching means. A pattern is a list of elements; its meaning relates the positions of a
  string between which the string matches. Matching the text of a pattern decides that relation, for the
  flags that the shell uses for \<^verbatim>\<open>case\<close>, \<^verbatim>\<open>[[\<close> and parameter expansion: case folding and extended patterns.
\<close>

section \<open>Patterns\<close>

datatype bchar = BPlain char | BQuoted char | BColl cstring
datatype bitem = BOne bchar | BRange bchar bchar | BClass cstring | BEquiv char
datatype xop = ZeroOrOne | ZeroOrMore | OneOrMore | ExactlyOne | NoneOf
datatype gelem = Plain char | Quoted char | AnyChar | AnyString
  | Bracket bool "bitem list" | Ext xop "gelem list list"

subsection \<open>Their text\<close>

primrec bchar_text :: "bchar \<Rightarrow> cstring" where
  "bchar_text (BPlain c) = [c]"
| "bchar_text (BQuoted c) = [BSLASH, c]"
| "bchar_text (BColl s) = ''[.'' @ s @ ''.]''"

primrec item_text :: "bitem \<Rightarrow> cstring" where
  "item_text (BOne x) = bchar_text x"
| "item_text (BRange x y) = bchar_text x @ ''-'' @ bchar_text y"
| "item_text (BClass s) = ''[:'' @ s @ '':]''"
| "item_text (BEquiv c) = ''[='' @ [c] @ ''=]''"

primrec xop_char :: "xop \<Rightarrow> char" where
  "xop_char ZeroOrOne = CHR ''?''"
| "xop_char ZeroOrMore = CHR ''*''"
| "xop_char OneOrMore = CHR ''+''"
| "xop_char ExactlyOne = CHR ''@''"
| "xop_char NoneOf = CHR ''!''"

fun join_bar :: "cstring list \<Rightarrow> cstring" where
  "join_bar [] = []"
| "join_bar [s] = s"
| "join_bar (s # t # ts) = s @ ''|'' @ join_bar (t # ts)"

primrec elem_text :: "gelem \<Rightarrow> cstring" where
  "elem_text (Plain c) = [c]"
| "elem_text (Quoted c) = [BSLASH, c]"
| "elem_text AnyChar = ''?''"
| "elem_text AnyString = ''*''"
| "elem_text (Bracket neg items) =
     ''['' @ (if neg then ''!'' else []) @ concat (map item_text items) @ '']''"
| "elem_text (Ext op alts) =
     [xop_char op, CHR ''(''] @ join_bar (map concat (map (map elem_text) alts)) @ '')''"

definition pat_text :: "gelem list \<Rightarrow> cstring" where
  "pat_text pat = concat (map elem_text pat)"

subsection \<open>Their meaning\<close>

primrec bchar_val :: "bchar \<Rightarrow> char" where
  "bchar_val (BPlain c) = c"
| "bchar_val (BQuoted c) = c"
| "bchar_val (BColl s) = the (collsym s)"

primrec item_matches :: "int \<Rightarrow> char \<Rightarrow> bitem \<Rightarrow> bool" where
  "item_matches flags c (BOne x) \<longleftrightarrow> FOLD flags c = FOLD flags (bchar_val x)"
| "item_matches flags c (BRange x y) \<longleftrightarrow>
     code (FOLD flags (bchar_val x)) \<le> code (FOLD flags c) \<and> code (FOLD flags c) \<le> code (FOLD flags (bchar_val y))"
| "item_matches flags c (BClass s) \<longleftrightarrow> is_cclass c s = Some True"
| "item_matches flags c (BEquiv d) \<longleftrightarrow> FOLD flags c = FOLD flags d"

text \<open>One character of the string, at position \<open>i\<close>.\<close>

definition one_char :: "cstring \<Rightarrow> (char \<Rightarrow> bool) \<Rightarrow> nat \<Rightarrow> nat \<Rightarrow> bool" where
  "one_char S f i j \<longleftrightarrow> i < length S \<and> j = Suc i \<and> f (S ! i)"

definition in_sequence :: "(nat \<Rightarrow> nat \<Rightarrow> bool) list \<Rightarrow> nat \<Rightarrow> nat \<Rightarrow> bool" where
  "in_sequence rs = foldr (OO) rs (=)"

definition any_of :: "(nat \<Rightarrow> nat \<Rightarrow> bool) list \<Rightarrow> nat \<Rightarrow> nat \<Rightarrow> bool" where
  "any_of rs i j \<longleftrightarrow> (\<exists>r\<in>set rs. r i j)"

primrec ext_rel :: "cstring \<Rightarrow> xop \<Rightarrow> (nat \<Rightarrow> nat \<Rightarrow> bool) \<Rightarrow> nat \<Rightarrow> nat \<Rightarrow> bool" where
  "ext_rel S ZeroOrOne r = (\<lambda>i j. i = j \<or> r i j)"
| "ext_rel S ZeroOrMore r = r\<^sup>*\<^sup>*"
| "ext_rel S OneOrMore r = r\<^sup>+\<^sup>+"
| "ext_rel S ExactlyOne r = r"
| "ext_rel S NoneOf r = (\<lambda>i j. i \<le> j \<and> j \<le> length S \<and> \<not> r i j)"

primrec elem_matches :: "int \<Rightarrow> cstring \<Rightarrow> gelem \<Rightarrow> nat \<Rightarrow> nat \<Rightarrow> bool" where
  "elem_matches flags S (Plain c) = one_char S (\<lambda>d. FOLD flags d = FOLD flags c)"
| "elem_matches flags S (Quoted c) = one_char S (\<lambda>d. FOLD flags d = FOLD flags c)"
| "elem_matches flags S AnyChar = one_char S (\<lambda>d. True)"
| "elem_matches flags S AnyString = (\<lambda>i j. i \<le> j \<and> j \<le> length S)"
| "elem_matches flags S (Bracket neg items) =
     one_char S (\<lambda>d. (\<exists>it\<in>set items. item_matches flags d it) \<noteq> neg)"
| "elem_matches flags S (Ext op alts) =
     ext_rel S op (any_of (map in_sequence (map (map (elem_matches flags S)) alts)))"

definition pat_matches :: "int \<Rightarrow> cstring \<Rightarrow> gelem list \<Rightarrow> nat \<Rightarrow> nat \<Rightarrow> bool" where
  "pat_matches flags S pat = in_sequence (map (elem_matches flags S) pat)"

subsection \<open>Well-formed patterns\<close>

text \<open>
  Characters with a special meaning are quoted. A bracket expression does not end in an equivalence
  class, and a range does not end in a quoted bracket.
\<close>

primrec bchar_ok :: "bchar \<Rightarrow> bool" where
  "bchar_ok (BPlain c) \<longleftrightarrow> c \<noteq> NUL \<and> c \<notin> set '']['' \<and> c \<noteq> BSLASH \<and> c \<notin> set ''-!^''"
| "bchar_ok (BQuoted c) \<longleftrightarrow> c \<noteq> NUL"
| "bchar_ok (BColl s) \<longleftrightarrow> NUL \<notin> set s \<and> BSLASH \<notin> set s \<and> set s \<inter> set ''.[]'' = {} \<and> collsym s \<noteq> None"

primrec item_ok :: "bitem \<Rightarrow> bool" where
  "item_ok (BOne x) \<longleftrightarrow> bchar_ok x"
| "item_ok (BRange x y) \<longleftrightarrow> bchar_ok x \<and> bchar_ok y \<and> y \<noteq> BQuoted (CHR ''['')"
| "item_ok (BClass s) \<longleftrightarrow> list_all ISALPHA s"
| "item_ok (BEquiv c) \<longleftrightarrow> c \<noteq> NUL \<and> c \<noteq> BSLASH \<and> c \<notin> set '']['' "

definition is_equiv :: "bitem \<Rightarrow> bool" where
  "is_equiv it \<longleftrightarrow> (case it of BEquiv c \<Rightarrow> True | _ \<Rightarrow> False)"

fun items_ok :: "bitem list \<Rightarrow> bool" where
  "items_ok [] \<longleftrightarrow> False"
| "items_ok [it] \<longleftrightarrow> item_ok it \<and> \<not> is_equiv it"
| "items_ok (it # items) \<longleftrightarrow> item_ok it \<and> items_ok items"

definition plain_ok :: "bool \<Rightarrow> char \<Rightarrow> bool" where
  "plain_ok ext c \<longleftrightarrow> c \<noteq> NUL \<and> c \<noteq> BSLASH \<and> c \<notin> set ''?*['' \<and> (ext \<longrightarrow> c \<notin> set ''+@!()|'')"

text \<open>May the element match the empty string?\<close>

primrec nullable :: "gelem \<Rightarrow> bool" where
  "nullable (Plain c) \<longleftrightarrow> False"
| "nullable (Quoted c) \<longleftrightarrow> False"
| "nullable AnyChar \<longleftrightarrow> False"
| "nullable AnyString \<longleftrightarrow> True"
| "nullable (Bracket neg items) \<longleftrightarrow> False"
| "nullable (Ext op alts) \<longleftrightarrow>
     op \<notin> {OneOrMore, ExactlyOne} \<or> list_ex (list_all id) (map (map nullable) alts)"

text \<open>
  After a \<^verbatim>\<open>*\<close> and the wildcards that follow it, the next element must not match the empty string: at the
  end of the string the code does not try it.
\<close>

fun run_ok :: "gelem list \<Rightarrow> bool" where
  "run_ok [] \<longleftrightarrow> True"
| "run_ok (AnyChar # pat) \<longleftrightarrow> run_ok pat"
| "run_ok (AnyString # pat) \<longleftrightarrow> run_ok pat"
| "run_ok (Ext op alts # pat) \<longleftrightarrow>
     (if op \<in> {ZeroOrOne, ZeroOrMore} then run_ok pat else \<not> nullable (Ext op alts))"
| "run_ok (e # pat) \<longleftrightarrow> True"

fun star_ok :: "gelem list \<Rightarrow> bool" where
  "star_ok [] \<longleftrightarrow> True"
| "star_ok (AnyString # pat) \<longleftrightarrow> run_ok pat \<and> star_ok pat"
| "star_ok (e # pat) \<longleftrightarrow> star_ok pat"

primrec elem_ok :: "bool \<Rightarrow> gelem \<Rightarrow> bool" where
  "elem_ok ext (Plain c) \<longleftrightarrow> plain_ok ext c"
| "elem_ok ext (Quoted c) \<longleftrightarrow> c \<noteq> NUL"
| "elem_ok ext AnyChar \<longleftrightarrow> True"
| "elem_ok ext AnyString \<longleftrightarrow> True"
| "elem_ok ext (Bracket neg items) \<longleftrightarrow> items_ok items"
| "elem_ok ext (Ext op alts) \<longleftrightarrow>
     ext \<and> alts \<noteq> [] \<and> list_all (list_all id) (map (map (elem_ok ext)) alts) \<and> list_all star_ok alts"

definition pat_ok :: "bool \<Rightarrow> gelem list \<Rightarrow> bool" where
  "pat_ok ext pat \<longleftrightarrow> list_all (elem_ok ext) pat \<and> star_ok pat"

text \<open>The flags of \<^verbatim>\<open>case\<close>, \<^verbatim>\<open>[[\<close> and parameter expansion: of the others, none is set.\<close>

definition shell_flags :: "int \<Rightarrow> bool" where
  "shell_flags flags \<longleftrightarrow> \<not> has_flag flags FNM_PATHNAME \<and> \<not> has_flag flags FNM_NOESCAPE
     \<and> \<not> has_flag flags FNM_PERIOD \<and> \<not> has_flag flags FNM_DOTDOT \<and> \<not> has_flag flags FNM_LEADING_DIR"

section \<open>The text at a position\<close>

primrec holds_at :: "cstring \<Rightarrow> nat \<Rightarrow> cstring \<Rightarrow> bool" where
  "holds_at P p [] \<longleftrightarrow> True"
| "holds_at P p (c # xs) \<longleftrightarrow> p < length P \<and> P ! p = c \<and> holds_at P (Suc p) xs"

declare holds_at.simps(2) [simp del]

lemma holds_at_Cons: "c \<noteq> NUL \<Longrightarrow> holds_at P p (c # xs) \<longleftrightarrow> char_at P p = c \<and> holds_at P (Suc p) xs"
  by (auto simp: holds_at.simps(2) char_at_def)

lemma holds_at_append: "holds_at P p (xs @ ys) \<longleftrightarrow> holds_at P p xs \<and> holds_at P (p + length xs) ys"
  by (induction xs arbitrary: p) (auto simp: holds_at.simps(2))

lemma holds_at_le: "holds_at P p xs \<Longrightarrow> xs \<noteq> [] \<Longrightarrow> p + length xs \<le> length P"
proof (induction xs arbitrary: p)
  case (Cons c xs)
  then show ?case using Cons.IH [of "Suc p"] by (cases "xs = []") (auto simp: holds_at.simps(2))
qed simp

lemma holds_at_drop: "holds_at P p (drop p P)"
proof (induction "drop p P" arbitrary: p)
  case (Cons c xs)
  then have "p < length P" "P ! p = c" "xs = drop (Suc p) P"
    by (metis drop_eq_Nil leI list.distinct(1), metis Cons.hyps(2) Cons_nth_drop_Suc drop_eq_Nil leI list.distinct(1) list.inject,
        metis Cons.hyps(2) drop_Suc_tl list.sel(3))
  with Cons show ?case by (metis holds_at.simps(2))
qed (metis holds_at.simps(1))

lemma holds_at_self: "holds_at P 0 P"
  using holds_at_drop [of P 0] by simp

lemma holds_at_nth: "holds_at P p xs \<Longrightarrow> i < length xs \<Longrightarrow> char_at P (p + i) = xs ! i"
proof (induction xs arbitrary: p i)
  case (Cons c xs)
  then show ?case by (cases i) (force simp: holds_at.simps(2) char_at_def)+
qed simp

lemma char_at_end: "char_at P (length P) = NUL"
  by (simp add: char_at_def)

lemma NUL_neq [simp]: "CHR ''['' \<noteq> NUL" "CHR '']'' \<noteq> NUL" "CHR ''.'' \<noteq> NUL" "CHR '':'' \<noteq> NUL" "CHR ''='' \<noteq> NUL"
  "BSLASH \<noteq> NUL" "CHR ''-'' \<noteq> NUL" "CHR ''!'' \<noteq> NUL" "CHR ''('' \<noteq> NUL" "CHR '')'' \<noteq> NUL" "CHR ''|'' \<noteq> NUL"
  "CHR ''?'' \<noteq> NUL" "CHR ''*'' \<noteq> NUL" "CHR ''^'' \<noteq> NUL" "CHR ''+'' \<noteq> NUL" "CHR ''@'' \<noteq> NUL"
  by (simp_all add: NUL_def)

lemmas NUL_neq_sym [simp] = NUL_neq [symmetric]

end
