(* ===== verification/Smatch_Bracket.thy ===== *)
theory Smatch_Bracket
  imports Smatch_Pattern
begin

text \<open>
  Bracket expressions and the scan over subpatterns: \<^verbatim>\<open>BRACKMATCH\<close> on the text of a bracket expression
  decides whether one of its items matches, and leaves the pattern pointer after it; \<^verbatim>\<open>PATSCAN\<close> finds
  the ends of the alternatives of an extended pattern.
\<close>

section \<open>Comparing characters\<close>

lemma strcmp_chars: "c \<noteq> d \<Longrightarrow> strcmp (char_string c) (char_string d) = int (code c) - int (code d)"
  by (auto simp: char_string_def NUL_def)

lemma charcmp_eq [simp]: "charcmp ar c d fc = int (code c) - int (code d)"
  by (simp add: charcmp_def strcmp_chars)

lemma rangecmp_eq [simp]: "rangecmp ar c d fc = int (code c) - int (code d)"
  by (simp add: rangecmp_def Let_def)

lemma collequiv_eq [simp]: "collequiv ar c d \<longleftrightarrow> c = d"
  by (simp add: collequiv_def)

lemma FOLD_idem [simp]: "FOLD flags (FOLD flags c) = FOLD flags c"
proof -
  have "\<not> ISUPPER (TOLOWER c)"
    by (auto simp: TOLOWER_def ISUPPER_def)
  then show ?thesis by (simp add: FOLD_def TOLOWER_def)
qed

text \<open>Folding keeps every character that is not a letter, and reaches no new one.\<close>

lemma FOLD_nonalpha:
  assumes "\<not> ISALPHA d"
  shows "FOLD flags c = d \<longleftrightarrow> c = d"
proof -
  have "ISLOWER (TOLOWER c)" if "ISUPPER c"
    using that by (auto simp: TOLOWER_def ISUPPER_def ISLOWER_def)
  then show ?thesis
    using assms by (auto simp: FOLD_def TOLOWER_def ISALPHA_def)
qed

lemma special_nonalpha [simp]:
  "\<not> ISALPHA (CHR ''['')" "\<not> ISALPHA (CHR '']'')" "\<not> ISALPHA BSLASH" "\<not> ISALPHA (CHR ''-'')" "\<not> ISALPHA (CHR ''/'')"
  "\<not> ISALPHA (CHR ''?'')" "\<not> ISALPHA (CHR ''*'')" "\<not> ISALPHA (CHR ''+'')" "\<not> ISALPHA (CHR ''@'')" "\<not> ISALPHA (CHR ''!'')"
  by (simp_all add: ISALPHA_def ISLOWER_def ISUPPER_def)

lemma FOLD_nonalpha_sym: "\<not> ISALPHA d \<Longrightarrow> d = FOLD flags c \<longleftrightarrow> d = c"
  using FOLD_nonalpha by metis

lemma FOLD_NUL_sym [simp]: "NUL = FOLD flags c \<longleftrightarrow> c = NUL"
  using FOLD_NUL by metis

lemmas FOLD_special [simp] = special_nonalpha [THEN FOLD_nonalpha] special_nonalpha [THEN FOLD_nonalpha_sym]

lemma fold_either: "c = a \<or> c = FOLD flags a \<Longrightarrow> \<not> ISALPHA d \<Longrightarrow> c = d \<longleftrightarrow> a = d"
  using FOLD_nonalpha by auto

section \<open>The items of a bracket expression\<close>

lemma find_close_text:
  assumes "holds_at P p (s @ [d, CHR '']''])" and "NUL \<notin> set s" and "d \<notin> set s" and "d \<noteq> NUL"
  shows "find_close P d p = p + length s"
  using assms
proof (induction s arbitrary: p)
  case Nil
  then show ?case by (subst find_close.simps) (simp add: holds_at_Cons)
next
  case (Cons c s)
  then have "find_close P d (Suc p) = Suc p + length s" by (auto simp: holds_at_Cons)
  with Cons.prems show ?case by (subst find_close.simps) (auto simp: holds_at_Cons)
qed

lemma substr_from_text: "holds_at P p xs \<Longrightarrow> substr_from P p (p + length xs) = xs"
proof -
  assume h: "holds_at P p xs"
  then have "take (length xs) (drop p P) = xs"
  proof (induction xs arbitrary: p)
    case (Cons c xs)
    then show ?case by (simp add: holds_at.simps(2) Cons_nth_drop_Suc [symmetric])
  qed simp
  then show ?thesis by (simp add: substr_from_def)
qed

lemma PARSE_COLLSYM_text:
  assumes "holds_at P p (''.'' @ s @ ''.]'')" and "bchar_ok (BColl s)"
  shows "PARSE_COLLSYM P p = (p + length s + 3, Some (bchar_val (BColl s)))"
proof -
  have "holds_at P (Suc p) (s @ [CHR ''.'', CHR '']''])" "holds_at P (Suc p) s" "char_at P (Suc p + length s) = CHR ''.''"
    using assms(1) by (auto simp: holds_at_Cons holds_at_append)
  moreover from this(1) have "find_close P (CHR ''.'') (Suc p) = Suc p + length s"
    using assms(2) by (intro find_close_text) auto
  moreover have "substr_from P (Suc p) (Suc p + length s) = s" by (rule substr_from_text) fact
  ultimately show ?thesis
    using assms(2) by (auto simp: PARSE_COLLSYM_def Let_def)
qed

text \<open>A character expression at the start of an item, then at the end of a range.\<close>

lemma shell_flagsD:
  assumes "shell_flags flags"
  shows "\<not> has_flag flags FNM_PATHNAME" "\<not> has_flag flags FNM_NOESCAPE" "\<not> has_flag flags FNM_PERIOD"
    "\<not> has_flag flags FNM_DOTDOT" "\<not> has_flag flags FNM_LEADING_DIR"
  using assms by (simp_all add: shell_flags_def)

lemma brack_range_fc: "brack_range ar P test flags cs fc p = brack_range ar P test flags cs False p"
  by (simp add: brack_range_def Let_def split: prod.split)

definition after_char :: "bool \<Rightarrow> cstring \<Rightarrow> char \<Rightarrow> int \<Rightarrow> nat \<Rightarrow> char \<Rightarrow> nat \<Rightarrow> brack_step" where
  "after_char ar P test flags savep cstart p =
     (if char_at P p = NUL then BReturn (brack_unclosed test savep)
      else if char_at P p = CHR ''-'' \<and> char_at P (p + 1) \<noteq> CHR '']''
      then brack_range ar P test flags cstart False (p + 1)
      else if test = cstart then BMatched (p + 1)
      else if char_at P p = CHR '']'' then BBreak (p + 1)
      else BContinue (p + 1) (FOLD flags (char_at P p)))"

lemma brack_char_text:
  assumes "holds_at P q (bchar_text x)" and "bchar_ok x" and "shell_flags flags"
    and "c = char_at P q \<or> c = FOLD flags (char_at P q)"
  shows "brack_char ar P test flags savep (Suc q) c =
         after_char ar P test flags savep (FOLD flags (bchar_val x)) (q + length (bchar_text x))"
proof (cases x)
  case (BPlain d)
  with assms have "char_at P q = d" "d \<noteq> NUL" "d \<noteq> CHR ''[''" "d \<noteq> BSLASH"
    by (auto simp: holds_at_Cons)
  then have "c = d \<or> c = FOLD flags d" using assms(4) by simp
  then have c: "c \<noteq> NUL" "c \<noteq> CHR ''[''" "c \<noteq> BSLASH" "FOLD flags c = FOLD flags d"
    using \<open>d \<noteq> NUL\<close> \<open>d \<noteq> CHR ''[''\<close> \<open>d \<noteq> BSLASH\<close> by (elim disjE; simp)+
  show ?thesis
    unfolding brack_char_def after_char_def Let_def
    using c BPlain shell_flagsD [OF assms(3)] by simp
next
  case (BQuoted d)
  with assms have "char_at P q = BSLASH" "char_at P (Suc q) = d" "d \<noteq> NUL" "c = BSLASH"
    by (auto simp: holds_at_Cons)
  with assms BQuoted show ?thesis
    by (auto simp: brack_char_def after_char_def Let_def shell_flagsD)
next
  case (BColl s)
  with assms have "c = CHR ''[''" "holds_at P (Suc q) (''.'' @ s @ ''.]'')"
    by (auto simp: holds_at_Cons)
  moreover have "char_at P (Suc q) = CHR ''.''" using calculation by (simp add: holds_at_Cons)
  moreover have "PARSE_COLLSYM P (Suc q) = (q + length (bchar_text x), Some (bchar_val x))"
    using BColl assms(2) calculation(2) PARSE_COLLSYM_text [of P "Suc q" s] by simp
  ultimately show ?thesis
    using assms(3) by (simp add: brack_char_def after_char_def Let_def shell_flagsD brack_range_fc [where fc = True])
qed

text \<open>What the loop does after an item: the label \<^verbatim>\<open>matched\<close>, the end, or the next item.\<close>

definition step_after :: "bool \<Rightarrow> cstring \<Rightarrow> int \<Rightarrow> nat \<Rightarrow> brack_step \<Rightarrow> bool" where
  "step_after m P flags p st \<longleftrightarrow>
     (if m then st = BMatched (p + 1)
      else if char_at P p = CHR '']'' then st = BBreak (p + 1)
      else st = BContinue (p + 1) (char_at P p) \<or> st = BContinue (p + 1) (FOLD flags (char_at P p)))"

lemma brack_range_text:
  assumes "holds_at P p (bchar_text y)" and "bchar_ok y" and "y \<noteq> BQuoted (CHR ''['')" and "shell_flags flags"
  shows "step_after (code cs \<le> code test \<and> code test \<le> code (FOLD flags (bchar_val y))) P flags
           (p + length (bchar_text y)) (brack_range ar P test flags cs fc p)"
proof (cases y)
  case (BPlain d)
  with assms have "char_at P p = d" "d \<noteq> NUL" "d \<noteq> CHR ''[''" "d \<noteq> BSLASH"
    by (auto simp: holds_at_Cons)
  with BPlain shell_flagsD [OF assms(4)] show ?thesis
    unfolding brack_range_def step_after_def Let_def by auto
next
  case (BQuoted d)
  with assms have d: "char_at P p = BSLASH" "char_at P (Suc p) = d" "d \<noteq> NUL" "d \<noteq> CHR ''[''"
    by (auto simp: holds_at_Cons)
  with BQuoted shell_flagsD [OF assms(4)] show ?thesis
    unfolding brack_range_def step_after_def Let_def by auto
next
  case (BColl s)
  with assms have "char_at P p = CHR ''[''" "holds_at P (Suc p) (''.'' @ s @ ''.]'')"
    by (auto simp: holds_at_Cons)
  moreover have "char_at P (Suc p) = CHR ''.''" using calculation by (simp add: holds_at_Cons)
  moreover have "PARSE_COLLSYM P (Suc p) = (p + length (bchar_text y), Some (bchar_val y))"
    using BColl assms(2) calculation(2) PARSE_COLLSYM_text [of P "Suc p" s] by simp
  ultimately show ?thesis
    using shell_flagsD [OF assms(4)] unfolding brack_range_def step_after_def Let_def by auto
qed

lemma bchar_text_not_close: "holds_at P q (bchar_text y) \<Longrightarrow> bchar_ok y \<Longrightarrow> char_at P q \<noteq> CHR '']''"
  by (cases y) (auto simp: holds_at_Cons)

lemma brack_item_char:
  assumes "holds_at P q (bchar_text x)" and "bchar_ok x" and "c = char_at P q \<or> c = FOLD flags (char_at P q)"
  shows "brack_item ar P t flags savep (Suc q) c = Some (brack_char ar P (FOLD flags t) flags savep (Suc q) c)"
proof -
  have "c \<noteq> CHR ''['' \<or> char_at P (Suc q) = CHR ''.''"
    using assms(1,2) fold_either [OF assms(3), of "CHR ''[''"] by (cases x) (auto simp: holds_at_Cons)
  then show ?thesis by (auto simp: brack_item_def Let_def)
qed

lemma udequote_letters: "list_all ISALPHA s \<Longrightarrow> udequote_pathname s = s"
  by (induction s) (auto simp: ISALPHA_def ISLOWER_def ISUPPER_def)

lemma letters_not: "list_all ISALPHA s \<Longrightarrow> \<not> ISALPHA c \<Longrightarrow> c \<notin> set s"
  by (auto simp: list_all_iff)

lemma brack_class_text:
  assumes "holds_at P q (item_text (BClass s))" and "item_ok (BClass s)" and "char_at P (q + length s + 4) \<noteq> NUL"
  shows "step_after (is_cclass t s = Some True) P flags (q + length s + 4) (brack_class P t test flags savep (Suc q))"
proof -
  have h: "holds_at P (Suc (Suc q)) (s @ [CHR '':'', CHR '']''])" "holds_at P (Suc (Suc q)) s"
    "char_at P (Suc (Suc q) + length s) = CHR '':''"
    using assms(1) by (auto simp: holds_at_Cons holds_at_append)
  have "\<not> ISALPHA NUL" "\<not> ISALPHA (CHR '':'')" by (simp_all add: ISALPHA_def ISLOWER_def ISUPPER_def NUL_def)
  then have "find_close P (CHR '':'') (Suc (Suc q)) = Suc (Suc q) + length s"
    using h(1) assms(2) letters_not by (intro find_close_text) auto
  moreover have "substr_from P (Suc (Suc q)) (Suc (Suc q) + length s) = s"
    by (rule substr_from_text) (rule h(2))
  moreover have "Suc (Suc q) + length s + 2 = q + length s + 4" by simp
  ultimately show ?thesis
    using h(3) assms(2,3)
    unfolding brack_class_def step_after_def Let_def
    by (simp add: udequote_letters add_ac del: add_Suc add_2_eq_Suc')
qed

lemma brack_item_text:
  assumes "holds_at P q (item_text it)" and "item_ok it" and "shell_flags flags"
    and "char_at P (q + length (item_text it)) \<notin> {NUL, CHR ''-''}"
    and "is_equiv it \<longrightarrow> char_at P (q + length (item_text it)) \<noteq> CHR '']''"
    and "c = char_at P q \<or> c = FOLD flags (char_at P q)"
  shows "\<exists>st. brack_item ar P t flags savep (Suc q) c = Some st
           \<and> step_after (item_matches flags t it) P flags (q + length (item_text it)) st"
proof (cases it)
  case (BOne x)
  then have "brack_item ar P t flags savep (Suc q) c =
      Some (after_char ar P (FOLD flags t) flags savep (FOLD flags (bchar_val x)) (q + length (bchar_text x)))"
    using assms brack_item_char [of P q x c flags] brack_char_text [of P q x flags c] by simp
  then show ?thesis
    using BOne assms(4) by (simp add: after_char_def step_after_def)
next
  case (BRange x y)
  define p where "p = q + length (bchar_text x)"
  have "brack_item ar P t flags savep (Suc q) c =
      Some (after_char ar P (FOLD flags t) flags savep (FOLD flags (bchar_val x)) p)"
    using BRange assms brack_item_char [of P q x c flags] brack_char_text [of P q x flags c]
    by (simp add: holds_at_append p_def)
  moreover have "char_at P p = CHR ''-''" "holds_at P (Suc p) (bchar_text y)"
    using BRange assms(1) by (auto simp: holds_at_append holds_at_Cons p_def)
  moreover have "char_at P (Suc p) \<noteq> CHR '']''"
    using calculation BRange assms(2) bchar_text_not_close by auto
  moreover have "Suc p + length (bchar_text y) = q + length (item_text it)"
    using BRange by (simp add: p_def)
  ultimately show ?thesis
    using BRange assms(2,3) brack_range_text [of P "Suc p" y flags "FOLD flags (bchar_val x)" "FOLD flags t" ar False]
    by (simp add: after_char_def add.assoc)
next
  case (BClass s)
  then have "c = CHR ''[''" "char_at P (Suc q) = CHR '':''"
    using assms(1,6) by (auto simp: holds_at_Cons)
  then have "brack_item ar P t flags savep (Suc q) c = Some (brack_class P t (FOLD flags t) flags savep (Suc q))"
    by (simp add: brack_item_def Let_def)
  then show ?thesis
    using BClass assms brack_class_text [of P q s t flags] by (simp add: numeral_eq_Suc)
next
  case (BEquiv d)
  have "q + 5 \<le> length P"
    using BEquiv holds_at_le [OF assms(1)] by simp
  moreover have "char_at P q = CHR ''[''" "char_at P (Suc q) = CHR ''=''" "char_at P (Suc (Suc q)) = d"
    "char_at P (Suc (Suc (Suc q))) = CHR ''=''" "char_at P (Suc (Suc (Suc (Suc q)))) = CHR '']''"
    using BEquiv assms(1,2) by (auto simp: holds_at_Cons)
  ultimately show ?thesis
    using BEquiv assms by (auto simp: brack_item_def brack_equiv_def step_after_def Let_def numeral_eq_Suc is_equiv_def)
qed

section \<open>Skipping the rest of a bracket expression\<close>

lemma brack_skip_step:
  assumes "char_at P q = c" and "c \<notin> {NUL, CHR ''['', CHR '']'', BSLASH}" and "oc \<noteq> NUL" and "0 < n"
  shows "brack_skip P test flags neg savep q oc n b = brack_skip P test flags neg savep (Suc q) c n b"
  using assms by (subst brack_skip.simps) (auto simp: Let_def)

lemma brack_skip_chars:
  assumes "holds_at P q s" and "set s \<inter> {NUL, CHR ''['', CHR '']'', BSLASH} = {}" and "oc \<noteq> NUL" and "0 < n"
  shows "brack_skip P test flags neg savep q oc n b =
         brack_skip P test flags neg savep (q + length s) (last (oc # s)) n b"
  using assms
proof (induction s arbitrary: q oc)
  case (Cons c s)
  then have "char_at P q = c" "c \<notin> {NUL, CHR ''['', CHR '']'', BSLASH}" by (auto simp: holds_at.simps(2) char_at_def)
  with Cons show ?case
    by (subst brack_skip_step [of P q c]) (auto simp: holds_at.simps(2))
qed simp

lemma brack_skip_open:
  assumes "char_at P q = CHR ''[''"
    and "char_at P (Suc q) = CHR ''='' \<or> char_at P (Suc q) = CHR '':'' \<or> char_at P (Suc q) = CHR ''.''"
    and "char_at P (Suc (Suc q)) \<noteq> NUL" and "oc \<noteq> NUL" and "0 < n"
  shows "brack_skip P test flags neg savep q oc n b =
         brack_skip P test flags neg savep (Suc (Suc q)) (char_at P (Suc (Suc q))) (Suc n) (Some (Suc q))"
  by (subst brack_skip.simps) (use assms in \<open>simp add: Let_def\<close>)

lemma brack_skip_special:
  assumes "holds_at P q ([CHR ''['', d] @ s @ [d, CHR '']''])" and "d \<in> {CHR ''='', CHR '':'', CHR ''.''}"
    and "set s \<inter> {NUL, CHR ''['', CHR '']'', BSLASH} = {}" and "oc \<noteq> NUL"
  shows "brack_skip P test flags neg savep q oc 1 None =
         brack_skip P test flags neg savep (q + length s + 4) (CHR '']'') 1 None"
proof -
  define t where "t = s @ [d]"
  then have "t \<noteq> []" by simp
  then obtain c r where t: "t = c # r" by (meson list.exhaust)
  have ok: "set t \<inter> {NUL, CHR ''['', CHR '']'', BSLASH} = {}"
    using assms(2,3) by (auto simp: t_def)
  have d: "d \<noteq> NUL" using assms(2) by auto
  then have hs: "char_at P q = CHR ''[''" "char_at P (Suc q) = d" "holds_at P (Suc (Suc q)) (t @ '']'')"
    using assms(1) by (auto simp: holds_at_Cons t_def)
  then have h: "holds_at P (Suc (Suc q)) t" "char_at P (Suc (Suc q) + length t) = CHR '']''"
    by (simp_all add: holds_at_append holds_at_Cons)
  have "c \<noteq> NUL" using ok t by auto
  then have c: "c \<noteq> NUL" "char_at P (Suc (Suc q)) = c"
    using h(1) t by (simp_all add: holds_at_Cons)
  have "brack_skip P test flags neg savep q oc 1 None = brack_skip P test flags neg savep (Suc (Suc q)) c 2 (Some (Suc q))"
    using brack_skip_open [of P q oc 1] c hs(1,2) assms(2,4) by (auto simp: numeral_2_eq_2)
  also have "\<dots> = brack_skip P test flags neg savep (Suc (Suc q) + length t) (last (c # t)) 2 (Some (Suc q))"
    using h(1) ok t by (intro brack_skip_chars) auto
  also have "last (c # t) = d" by (simp add: t_def)
  also have "brack_skip P test flags neg savep (Suc (Suc q) + length t) d 2 (Some (Suc q)) =
      brack_skip P test flags neg savep (Suc (Suc (Suc q) + length t)) (CHR '']'') 1 None"
    using h(2) hs(2) d by (subst brack_skip.simps) (auto simp: Let_def)
  finally show ?thesis by (simp add: numeral_eq_Suc t_def)
qed

lemma brack_skip_quoted:
  assumes "holds_at P q [BSLASH, c]" and "c \<noteq> NUL" and "oc \<noteq> NUL" and "shell_flags flags"
  shows "brack_skip P test flags neg savep q oc 1 None = brack_skip P test flags neg savep (q + 2) BSLASH 1 None"
  using assms by (subst brack_skip.simps) (auto simp: Let_def holds_at_Cons shell_flagsD)

lemma brack_skip_bchar:
  assumes "holds_at P q (bchar_text x)" and "bchar_ok x" and "oc \<noteq> NUL" and "shell_flags flags"
  shows "\<exists>oc'. oc' \<noteq> NUL \<and> brack_skip P test flags neg savep q oc 1 None =
           brack_skip P test flags neg savep (q + length (bchar_text x)) oc' 1 None"
proof (cases x)
  case (BPlain c)
  then show ?thesis
    using assms brack_skip_step [of P q c oc 1 test flags neg savep None] by (auto simp: holds_at_Cons)
next
  case (BQuoted c)
  then show ?thesis
    using assms brack_skip_quoted [of P q c oc flags test neg savep] by (intro exI [of _ BSLASH]) auto
next
  case (BColl s)
  then show ?thesis
    using BColl assms brack_skip_special [of P q "CHR ''.''" s oc test flags neg savep]
    by (intro exI [of _ "CHR '']''"]) (auto simp: numeral_eq_Suc)
qed

lemma brack_skip_item:
  assumes "holds_at P q (item_text it)" and "item_ok it" and "oc \<noteq> NUL" and "shell_flags flags"
  shows "\<exists>oc'. oc' \<noteq> NUL \<and> brack_skip P test flags neg savep q oc 1 None =
           brack_skip P test flags neg savep (q + length (item_text it)) oc' 1 None"
proof (cases it)
  case (BOne x)
  then show ?thesis using assms brack_skip_bchar [of P q x oc flags] by simp
next
  case (BRange x y)
  define p where "p = q + length (bchar_text x)"
  have h: "holds_at P q (bchar_text x)" "char_at P p = CHR ''-''" "holds_at P (Suc p) (bchar_text y)"
    using BRange assms(1) by (auto simp: holds_at_append holds_at_Cons p_def)
  obtain o1 where o1: "o1 \<noteq> NUL" "brack_skip P test flags neg savep q oc 1 None = brack_skip P test flags neg savep p o1 1 None"
    using brack_skip_bchar [OF h(1)] BRange assms unfolding p_def by fastforce
  have "brack_skip P test flags neg savep p o1 1 None = brack_skip P test flags neg savep (Suc p) (CHR ''-'') 1 None"
    using h(2) o1(1) by (intro brack_skip_step) auto
  moreover obtain o2 where "o2 \<noteq> NUL" "brack_skip P test flags neg savep (Suc p) (CHR ''-'') 1 None =
      brack_skip P test flags neg savep (Suc p + length (bchar_text y)) o2 1 None"
    using brack_skip_bchar [OF h(3), of "CHR ''-''"] BRange assms by fastforce
  moreover have "Suc p + length (bchar_text y) = q + length (item_text it)"
    using BRange by (simp add: p_def)
  ultimately show ?thesis using o1(2) by auto
next
  case (BClass s)
  have "\<not> ISALPHA NUL" by (simp add: ISALPHA_def ISLOWER_def ISUPPER_def NUL_def)
  then have "set s \<inter> {NUL, CHR ''['', CHR '']'', BSLASH} = {}"
    using BClass assms(2) letters_not by auto
  then show ?thesis
    using BClass assms brack_skip_special [of P q "CHR '':''" s oc test flags neg savep]
    by (intro exI [of _ "CHR '']''"]) (auto simp: numeral_eq_Suc)
next
  case (BEquiv c)
  then show ?thesis
    using assms brack_skip_special [of P q "CHR ''=''" "[c]" oc test flags neg savep]
    by (intro exI [of _ "CHR '']''"]) (auto simp: numeral_eq_Suc)
qed

lemma brack_skip_items:
  assumes "holds_at P q (concat (map item_text items) @ '']'')" and "list_all item_ok items"
    and "oc \<noteq> NUL" and "shell_flags flags"
  shows "brack_skip P test flags neg savep q oc 1 None =
         (if neg then None else Some (q + length (concat (map item_text items)) + 1))"
  using assms
proof (induction items arbitrary: q oc)
  case Nil
  then have "brack_skip P test flags neg savep q oc 1 None = brack_skip P test flags neg savep (Suc q) (CHR '']'') 0 None"
    by (subst brack_skip.simps) (auto simp: holds_at_Cons Let_def)
  then show ?case by (simp add: brack_skip.simps)
next
  case (Cons it items)
  then obtain oc' where oc': "oc' \<noteq> NUL" "brack_skip P test flags neg savep q oc 1 None =
      brack_skip P test flags neg savep (q + length (item_text it)) oc' 1 None"
    using brack_skip_item [of P q it oc flags test neg savep] by (auto simp: holds_at_append)
  have "brack_skip P test flags neg savep (q + length (item_text it)) oc' 1 None =
      (if neg then None else Some (q + length (item_text it) + length (concat (map item_text items)) + 1))"
    using Cons.prems oc'(1) by (intro Cons.IH) (auto simp: holds_at_append add.assoc)
  with oc'(2) show ?case by (simp add: add.assoc)
qed

section \<open>A whole bracket expression\<close>

lemma items_okD: "items_ok (it # items) \<Longrightarrow> item_ok it \<and> (items = [] \<longrightarrow> \<not> is_equiv it) \<and> (items \<noteq> [] \<longrightarrow> items_ok items)"
  by (cases items) auto

lemma items_ok_all: "items_ok items \<Longrightarrow> list_all item_ok items"
  by (induction items rule: items_ok.induct) auto

lemma item_text_start:
  assumes "holds_at P q (item_text it)" and "item_ok it"
  shows "char_at P q \<notin> {NUL, CHR ''-'', CHR '']'', CHR ''!'', CHR ''^''}"
proof -
  have "holds_at P q (bchar_text x) \<Longrightarrow> bchar_ok x \<Longrightarrow> char_at P q \<notin> {NUL, CHR ''-'', CHR '']'', CHR ''!'', CHR ''^''}" for x
    by (cases x) (auto simp: holds_at_Cons)
  with assms show ?thesis by (cases it) (auto simp: holds_at_append holds_at_Cons)
qed

lemma brack_loop_items:
  assumes "holds_at P q (concat (map item_text items) @ '']'')" and "items_ok items" and "shell_flags flags"
    and "c = char_at P q \<or> c = FOLD flags (char_at P q)"
  shows "brack_loop ar P t flags neg savep (Suc q) c =
         Some (if (\<exists>it\<in>set items. item_matches flags t it) \<noteq> neg
               then Some (q + length (concat (map item_text items)) + 1) else None)"
  using assms
proof (induction items arbitrary: q c)
  case (Cons it items)
  define p where "p = q + length (item_text it)"
  have it: "holds_at P q (item_text it)" "item_ok it" and rest: "holds_at P p (concat (map item_text items) @ '']'')"
    and ok: "list_all item_ok items" and last: "items = [] \<longrightarrow> \<not> is_equiv it"
    using Cons.prems(1) items_okD [OF Cons.prems(2)] items_ok_all [of items]
    by (cases "items = []"; simp add: holds_at_append p_def add.assoc)+
  have next_char: "char_at P p \<notin> {NUL, CHR ''-''}" and close: "char_at P p = CHR '']'' \<longleftrightarrow> items = []"
    using rest ok item_text_start [of P p "hd items"]
    by (cases items; auto simp: holds_at_append holds_at_Cons)+
  obtain st where st: "brack_item ar P t flags savep (Suc q) c = Some st"
      "step_after (item_matches flags t it) P flags p st"
    using brack_item_text [OF it Cons.prems(3) _ _ Cons.prems(4), of ar t savep] next_char close last
    unfolding p_def by auto
  have len: "q + length (concat (map item_text (it # items))) = p + length (concat (map item_text items))"
    by (simp add: p_def)
  show ?case
  proof (cases "item_matches flags t it")
    case True
    then have "brack_loop ar P t flags neg savep (Suc q) c =
        Some (brack_skip P (FOLD flags t) flags neg savep p (char_at P p) 1 None)"
      using st by (subst brack_loop.simps) (simp add: step_after_def)
    then show ?thesis
      using True brack_skip_items [OF rest ok _ Cons.prems(3)] next_char len by auto
  next
    case False
    show ?thesis
    proof (cases "items = []")
      case True
      with False st close show ?thesis
        by (subst brack_loop.simps) (simp add: step_after_def p_def)
    next
      case ne: False
      then obtain c' where c': "c' = char_at P p \<or> c' = FOLD flags (char_at P p)" "st = BContinue (Suc p) c'"
        using False st close by (auto simp: step_after_def)
      then have "brack_loop ar P t flags neg savep (Suc q) c = brack_loop ar P t flags neg savep (Suc p) c'"
        using st by (subst brack_loop.simps) simp
      moreover have "brack_loop ar P t flags neg savep (Suc p) c' =
         Some (if (\<exists>it\<in>set items. item_matches flags t it) \<noteq> neg
               then Some (p + length (concat (map item_text items)) + 1) else None)"
        using rest items_okD [OF Cons.prems(2)] ne by (intro Cons.IH Cons.prems(3) c'(1)) auto
      ultimately show ?thesis using False len by simp
    qed
  qed
qed simp

theorem BRACKMATCH_text:
  assumes "holds_at P p (elem_text (Bracket neg items))" and "items_ok items" and "shell_flags flags"
  shows "BRACKMATCH ar P (Suc p) c flags =
         Some (if (\<exists>it\<in>set items. item_matches flags c it) \<noteq> neg
               then Some (p + length (elem_text (Bracket neg items))) else None)"
proof -
  define q where "q = Suc p + (if neg then 1 else 0)"
  have q: "holds_at P q (concat (map item_text items) @ '']'')"
    using assms(1) by (auto simp: holds_at_Cons q_def split: if_splits)
  have "char_at P q \<notin> {CHR ''!'', CHR ''^''}"
    using q assms(2) item_text_start [of P q "hd items"] by (cases items) (auto simp: holds_at_append dest: items_okD)
  moreover have "neg \<Longrightarrow> char_at P (Suc p) = CHR ''!''"
    using assms(1) by (auto simp: holds_at_Cons)
  ultimately have "BRACKMATCH ar P (Suc p) c flags = brack_loop ar P c flags neg (Suc p) (Suc q) (char_at P q)"
    by (auto simp: BRACKMATCH_def q_def Let_def)
  then show ?thesis
    using brack_loop_items [OF q assms(2,3)] by (simp add: q_def)
qed

section \<open>Every pattern: bounds\<close>

lemma char_at_eq_less: "char_at P p = c \<Longrightarrow> c \<noteq> NUL \<Longrightarrow> p < length P"
  using char_at_not_NUL by blast

lemma brack_skip_bounds:
  assumes "brack_skip P test flags neg savep p c n b = Some q" and "savep \<le> length P" and "savep \<le> p"
    and "c \<noteq> NUL \<longrightarrow> p \<le> length P" and "n = 0 \<longrightarrow> c \<noteq> NUL"
  shows "savep \<le> q \<and> q \<le> length P"
  using assms
proof (induction "(length P + 1 - p) + (if c = NUL then 0 else 1)" arbitrary: p c n b rule: less_induct)
  case less
  show ?case
  proof (cases "c = NUL \<or> n = 0")
    case True
    with less.prems show ?thesis
      by (subst (asm) brack_skip.simps) (auto simp: brack_unclosed_def split: if_splits)
  next
    case False
    then have p: "p \<le> length P" "c \<noteq> NUL" using less.prems(4) by auto
    have step: "savep \<le> q \<and> q \<le> length P"
      if "brack_skip P test flags neg savep p' c' n' b' = Some q" "p < p'" "c' \<noteq> NUL \<longrightarrow> p' \<le> length P" "n' = 0 \<longrightarrow> c' \<noteq> NUL" for p' c' n' b'
    proof (rule less.hyps [OF _ that(1) less.prems(2) _ that(3,4)])
      show "(length P + 1 - p') + (if c' = NUL then 0 else 1) < (length P + 1 - p) + (if c = NUL then 0 else 1)"
        using that(2) p by auto
      show "savep \<le> p'" using that(2) less.prems(3) by simp
    qed
    have next_ok: "char_at P p' \<noteq> NUL \<longrightarrow> Suc p' \<le> length P" for p'
      using char_at_not_NUL Suc_leI by blast
    have unclosed: "brack_unclosed test savep = Some q \<Longrightarrow> savep \<le> q \<and> q \<le> length P"
      using less.prems(2) by (auto simp: brack_unclosed_def split: if_splits)
    have "char_at P p = CHR '']'' \<Longrightarrow> Suc p \<le> length P" "char_at P p = BSLASH \<Longrightarrow> Suc p \<le> length P"
      using next_ok [of p] by auto
    note ok = this next_ok [of p] next_ok [of "Suc p"] next_ok [of "Suc (Suc p)"]
    show ?thesis
      using less.prems(1) False
      by (subst (asm) brack_skip.simps, simp only: Let_def de_Morgan_disj if_False split: if_splits,
          insert unclosed ok step, simp_all del: not_gr_zero)
  qed
qed

lemma brack_item_bounds:
  assumes "brack_item ar P t flags savep p c = Some st"
  shows "case st of
           BReturn r \<Rightarrow> r = None \<or> r = Some savep
         | BMatched q \<Rightarrow> p < q
         | BBreak q \<Rightarrow> p < q \<and> q \<le> length P
         | BContinue q c' \<Rightarrow> p < q"
proof -
  have close: "char_at P q = CHR '']'' \<Longrightarrow> Suc q \<le> length P" for q
    using char_at_eq_less by fastforce
  have range: "case brack_range ar P test flags cs fc q of
        BReturn r \<Rightarrow> r = None | BMatched q' \<Rightarrow> q < q' | BBreak q' \<Rightarrow> q < q' \<and> q' \<le> length P | BContinue q' c' \<Rightarrow> q < q'" for test cs fc q
    using close by (auto simp: brack_range_def Let_def split: prod.splits dest!: PARSE_COLLSYM_ge)
  have class_: "case brack_class P t test flags savep p of
        BReturn r \<Rightarrow> r = None \<or> r = Some savep | BMatched q \<Rightarrow> p < q | BBreak q \<Rightarrow> p < q \<and> q \<le> length P
      | BContinue q c' \<Rightarrow> p < q" for test
    using close find_close_ge [of "Suc p" P "CHR '':''"]
    by (auto simp: brack_class_def brack_unclosed_def Let_def)
  have char_: "case brack_char ar P test flags savep p c of
        BReturn r \<Rightarrow> r = None \<or> r = Some savep | BMatched q \<Rightarrow> p < q | BBreak q \<Rightarrow> p < q \<and> q \<le> length P
      | BContinue q c' \<Rightarrow> p < q" for test
  proof -
    define x where "x = (if c = CHR ''['' \<and> char_at P p = CHR ''.''
             then let (q, pc) = PARSE_COLLSYM P p
                  in (case pc of None \<Rightarrow> char_of (code test + 1) | Some x \<Rightarrow> x, True, q)
             else (c, False, p))"
    obtain cs fc q where x: "x = (cs, fc, q)" by (cases x)
    then have "p \<le> q" by (auto simp: x_def split: if_splits prod.splits dest: PARSE_COLLSYM_ge)
    define q' where "q' = (if \<not> has_flag flags FNM_NOESCAPE \<and> c = BSLASH then q + 1 else q)"
    have "p \<le> q'" using \<open>p \<le> q\<close> by (simp add: q'_def)
    let ?st = "brack_char ar P test flags savep p c"
    define cs' d where "cs' = FOLD flags (if \<not> has_flag flags FNM_NOESCAPE \<and> c = BSLASH then char_at P q else cs)"
      and "d = FOLD flags (char_at P q')"
    have "?st = (if \<not> has_flag flags FNM_NOESCAPE \<and> c = BSLASH \<and> char_at P q = NUL then BReturn None
        else if c = NUL then BReturn (brack_unclosed test savep)
        else if d = NUL then BReturn (brack_unclosed test savep)
        else if has_flag flags FNM_PATHNAME \<and> d = CHR ''/'' then BReturn None
        else if d = CHR ''-'' \<and> char_at P (Suc q') \<noteq> CHR '']'' then brack_range ar P test flags cs' fc (Suc q')
        else if test = cs' then BMatched (Suc q')
        else if d = CHR '']'' then BBreak (Suc q') else BContinue (Suc q') d)"
      unfolding brack_char_def x_def [symmetric]
      unfolding x Let_def q'_def cs'_def d_def prod.case
      by (cases "has_flag flags FNM_NOESCAPE"; cases "c = BSLASH") (simp_all cong: if_cong split del: if_split)
    then have "?st = BReturn None \<or> ?st = BReturn (brack_unclosed test savep) \<or> ?st = BMatched (Suc q')
        \<or> ?st = BBreak (Suc q') \<and> char_at P q' = CHR '']'' \<or> (\<exists>c'. ?st = BContinue (Suc q') c')
        \<or> (\<exists>cs fc. ?st = brack_range ar P test flags cs fc (Suc q'))"
      by (simp only: split: if_splits) (auto simp: d_def)
    then show ?thesis
    proof (elim disjE exE conjE)
      fix cs fc assume st: "?st = brack_range ar P test flags cs fc (Suc q')"
      show ?thesis
        unfolding st using range [where test = test and cs = cs and fc = fc and q = "Suc q'"] \<open>p \<le> q'\<close>
        by (cases "brack_range ar P test flags cs fc (Suc q')") auto
    qed (use \<open>p \<le> q'\<close> close [of q'] in \<open>auto simp: brack_unclosed_def\<close>)
  qed
  show ?thesis
    using assms class_ char_ by (auto simp: brack_item_def brack_equiv_def brack_unclosed_def Let_def split: if_splits)
qed

lemma brack_item_defined:
  assumes "P = [] \<or> last P \<noteq> CHR ''=''"
  shows "brack_item ar P t flags savep p c \<noteq> None"
proof -
  have "\<not> (char_at P p = CHR ''='' \<and> length P < p + 2)"
  proof
    assume a: "char_at P p = CHR ''='' \<and> length P < p + 2"
    then have "p < length P" using char_at_eq_less by fastforce
    then have "P \<noteq> []" by auto
    with a \<open>p < length P\<close> have "last P = CHR ''=''" by (auto simp: char_at_def last_conv_nth less_Suc_eq)
    with assms \<open>P \<noteq> []\<close> show False by simp
  qed
  then show ?thesis by (auto simp: brack_item_def Let_def)
qed

lemma brack_loop_bounds:
  assumes "P = [] \<or> last P \<noteq> CHR ''=''" and "savep \<le> length P" and "savep \<le> p"
  shows "\<exists>r. brack_loop ar P t flags neg savep p c = Some r \<and> (\<forall>q. r = Some q \<longrightarrow> savep \<le> q \<and> q \<le> length P)"
  using assms
proof (induction ar P t flags neg savep p c rule: brack_loop.induct)
  case (1 ar P t flags neg savep p c)
  obtain st where st: "brack_item ar P t flags savep p c = Some st"
    using brack_item_defined [OF "1.prems"(1), of ar t flags savep p c] by auto
  note bounds = brack_item_bounds [OF st]
  show ?case
  proof (cases st)
    case (BMatched q)
    let ?r = "brack_skip P (FOLD flags t) flags neg savep (q - 1) (char_at P (q - 1)) 1 None"
    have "savep \<le> q' \<and> q' \<le> length P" if "?r = Some q'" for q'
      using brack_skip_bounds [OF that "1.prems"(2)] bounds BMatched "1.prems"(3) char_at_not_NUL [of P "q - 1"] by fastforce
    then show ?thesis using st BMatched by (subst brack_loop.simps) simp
  next
    case (BContinue q c')
    then show ?thesis
      using "1.IH" [OF st] bounds "1.prems" st by (subst brack_loop.simps) simp
  qed (use st bounds "1.prems" in \<open>subst brack_loop.simps, auto\<close>)+
qed

text \<open>
  On every pattern, matching a bracket expression ends, stays inside the pattern and never moves back:
  it returns \<^verbatim>\<open>NULL\<close> or a position from its start to the terminator of the pattern. The only exception is a
  pattern that ends in an equals sign, where the code may read behind the terminator.
\<close>

theorem BRACKMATCH_in_bounds:
  assumes "p \<le> length P" and "P = [] \<or> last P \<noteq> CHR ''=''"
  shows "\<exists>r. BRACKMATCH ar P p c flags = Some r \<and> (\<forall>q. r = Some q \<longrightarrow> p \<le> q \<and> q \<le> length P)"
  unfolding BRACKMATCH_def Let_def using assms by (intro brack_loop_bounds) auto

lemma BRACKMATCH_in_bounds_witness:
  "BRACKMATCH False ''[a-'' 1 (CHR ''a'') 0 = Some None
   \<and> (\<exists>r. BRACKMATCH False ''[a-'' 1 (CHR ''a'') 0 = Some r \<and> (\<forall>q. r = Some q \<longrightarrow> 1 \<le> q \<and> q \<le> length ''[a-''))"
proof
  show "BRACKMATCH False ''[a-'' 1 (CHR ''a'') 0 = Some None" by code_simp
  show "\<exists>r. BRACKMATCH False ''[a-'' 1 (CHR ''a'') 0 = Some r \<and> (\<forall>q. r = Some q \<longrightarrow> 1 \<le> q \<and> q \<le> length ''[a-'')"
    by (rule BRACKMATCH_in_bounds) simp_all
qed

end
