(* ===== verification/Smatch_Scan.thy ===== *)
theory Smatch_Scan
  imports Smatch_Bracket
begin

text \<open>
  Scanning the text of a pattern: \<^verbatim>\<open>PATSCAN\<close> passes over the elements of a well-formed pattern and so
  finds the end of an extended pattern and of each of its alternatives.
\<close>

section \<open>Single characters\<close>

lemma scan_char:
  assumes "char_at P s = c" and "c \<notin> {NUL, BSLASH, CHR ''[''}" and "s < pend"
    and "if bn then c \<noteq> CHR '']'' else c \<notin> {CHR ''('', CHR '')'', CHR ''|''}"
  shows "patscan_loop P pend d s pn bn False cc bf = patscan_loop P pend d (Suc s) pn bn False cc bf"
  using assms by (subst patscan_loop.simps) (auto simp: Let_def)

lemma scan_quoted:
  assumes "holds_at P s [BSLASH, c]" and "c \<noteq> NUL" and "Suc s < pend"
  shows "patscan_loop P pend d s pn bn False cc bf = patscan_loop P pend d (s + 2) pn bn False cc bf"
proof -
  have c: "char_at P s = BSLASH" "char_at P (Suc s) = c"
    using assms(1,2) by (auto simp: holds_at_Cons)
  have "patscan_loop P pend d s pn bn False cc bf = patscan_loop P pend d (Suc s) pn bn True cc bf"
    using c assms(3) by (subst patscan_loop.simps) (simp add: Let_def)
  also have "\<dots> = patscan_loop P pend d (Suc (Suc s)) pn bn False cc bf"
    using c assms(2,3) by (subst patscan_loop.simps) (simp add: Let_def)
  finally show ?thesis by simp
qed

section \<open>Bracket expressions\<close>

lemma scan_chars:
  assumes "holds_at P s xs" and "set xs \<inter> {NUL, BSLASH, CHR ''['', CHR '']''} = {}" and "s + length xs \<le> pend"
  shows "patscan_loop P pend d s pn True False cc bf = patscan_loop P pend d (s + length xs) pn True False cc bf"
  using assms
proof (induction xs arbitrary: s)
  case (Cons c xs)
  then have "c \<notin> {NUL, BSLASH, CHR ''['', CHR '']''}" by auto
  moreover from this have "char_at P s = c" "holds_at P (Suc s) xs" using Cons.prems(1) by (auto simp: holds_at_Cons)
  ultimately show ?case
    using Cons scan_char [of P s c pend True d pn cc bf] by auto
qed simp

lemma scan_special:
  assumes "holds_at P s ([CHR ''['', k] @ xs @ [k, CHR '']''])" and "k \<in> {CHR '':'', CHR ''.'', CHR ''=''}"
    and "set xs \<inter> {NUL, BSLASH, CHR ''['', CHR '']''} = {}" and "s + length xs + 4 \<le> pend"
  shows "patscan_loop P pend d s pn True False NUL bf = patscan_loop P pend d (s + length xs + 4) pn True False NUL bf"
proof -
  define ys where "ys = k # xs @ [k]"
  have k: "k \<notin> {NUL, BSLASH, CHR ''['', CHR '']''}" using assms(2) by auto
  then have ys: "set ys \<inter> {NUL, BSLASH, CHR ''['', CHR '']''} = {}" using assms(3) by (auto simp: ys_def)
  have h: "char_at P s = CHR ''[''" "char_at P (Suc s) = k" "holds_at P (Suc s) (ys @ '']'')"
    using assms(1) k by (auto simp: holds_at_Cons ys_def)
  then have h': "holds_at P (Suc s) ys" "char_at P (Suc s + length ys) = CHR '']''"
    by (simp_all add: holds_at_append holds_at_Cons)
  have "char_at P (Suc s + (length ys - 1)) = k"
    using holds_at_nth [OF h'(1), of "length ys - 1"] by (simp add: ys_def nth_append)
  then have prev: "char_at P (Suc s + length ys - 1) = k" by (simp add: ys_def)
  have "patscan_loop P pend d s pn True False NUL bf = patscan_loop P pend d (Suc s) pn True False k bf"
    using h(1,2) assms(2,4) by (subst patscan_loop.simps) (auto simp: Let_def)
  also have "\<dots> = patscan_loop P pend d (Suc s + length ys) pn True False k bf"
    using h'(1) ys assms(4) by (intro scan_chars) (auto simp: ys_def)
  also have "\<dots> = patscan_loop P pend d (Suc (Suc s + length ys)) pn True False NUL bf"
    using h'(2) prev k assms(4) by (subst patscan_loop.simps) (simp add: Let_def ys_def)
  finally show ?thesis by (simp add: ys_def numeral_eq_Suc)
qed

lemma scan_bchar:
  assumes "holds_at P s (bchar_text x)" and "bchar_ok x" and "s + length (bchar_text x) \<le> pend"
  shows "patscan_loop P pend d s pn True False NUL bf =
         patscan_loop P pend d (s + length (bchar_text x)) pn True False NUL bf"
proof (cases x)
  case (BPlain c)
  with assms show ?thesis using scan_char [of P s c pend True d pn NUL bf] by (auto simp: holds_at_Cons)
next
  case (BQuoted c)
  with assms show ?thesis using scan_quoted [of P s c pend d pn True NUL bf] by auto
next
  case (BColl xs)
  with assms show ?thesis
    using scan_special [of P s "CHR ''.''" xs pend d pn bf] by (auto simp: numeral_eq_Suc)
qed

lemma scan_item:
  assumes "holds_at P s (item_text it)" and "item_ok it" and "s + length (item_text it) \<le> pend"
  shows "patscan_loop P pend d s pn True False NUL bf =
         patscan_loop P pend d (s + length (item_text it)) pn True False NUL bf"
proof (cases it)
  case (BOne x)
  with assms show ?thesis using scan_bchar [of P s x pend] by simp
next
  case (BRange x y)
  define p where "p = s + length (bchar_text x)"
  have h: "holds_at P s (bchar_text x)" "char_at P p = CHR ''-''" "holds_at P (Suc p) (bchar_text y)"
    and e: "Suc p + length (bchar_text y) = s + length (item_text it)"
    using BRange assms(1) by (auto simp: holds_at_append holds_at_Cons p_def)
  have "patscan_loop P pend d s pn True False NUL bf = patscan_loop P pend d p pn True False NUL bf"
    using scan_bchar [OF h(1)] BRange assms unfolding p_def by simp
  also have "\<dots> = patscan_loop P pend d (Suc p) pn True False NUL bf"
    using h(2) e assms(3) by (intro scan_char) auto
  also have "\<dots> = patscan_loop P pend d (Suc p + length (bchar_text y)) pn True False NUL bf"
    using scan_bchar [OF h(3)] BRange assms e by simp
  finally show ?thesis by (simp only: e)
next
  case (BClass xs)
  have "\<not> ISALPHA NUL" by (simp add: ISALPHA_def ISLOWER_def ISUPPER_def NUL_def)
  then have "set xs \<inter> {NUL, BSLASH, CHR ''['', CHR '']''} = {}"
    using BClass assms(2) letters_not by auto
  with BClass assms show ?thesis
    using scan_special [of P s "CHR '':''" xs pend d pn bf] by (auto simp: numeral_eq_Suc)
next
  case (BEquiv c)
  with assms show ?thesis
    using scan_special [of P s "CHR ''=''" "[c]" pend d pn bf] by (auto simp: numeral_eq_Suc)
qed

lemma scan_items:
  assumes "holds_at P s (concat (map item_text items))" and "list_all item_ok items"
    and "s + length (concat (map item_text items)) \<le> pend"
  shows "patscan_loop P pend d s pn True False NUL bf =
         patscan_loop P pend d (s + length (concat (map item_text items))) pn True False NUL bf"
  using assms
proof (induction items arbitrary: s)
  case (Cons it items)
  have "patscan_loop P pend d s pn True False NUL bf = patscan_loop P pend d (s + length (item_text it)) pn True False NUL bf"
    using Cons.prems by (intro scan_item) (auto simp: holds_at_append)
  also have "\<dots> = patscan_loop P pend d (s + length (item_text it) + length (concat (map item_text items))) pn True False NUL bf"
    using Cons.prems by (intro Cons.IH) (auto simp: holds_at_append)
  finally show ?case by (simp add: add.assoc)
qed simp

lemma scan_bracket:
  assumes "holds_at P s (elem_text (Bracket neg items))" and "items_ok items"
    and "s + length (elem_text (Bracket neg items)) \<le> pend"
  shows "patscan_loop P pend d s pn False False NUL None =
         patscan_loop P pend d (s + length (elem_text (Bracket neg items))) pn False False NUL None"
proof -
  define q where "q = Suc s + (if neg then 1 else 0)"
  define e where "e = q + length (concat (map item_text items))"
  have q: "holds_at P q (concat (map item_text items) @ '']'')" and s: "char_at P s = CHR ''[''" and neg: "neg \<Longrightarrow> char_at P (Suc s) = CHR ''!''"
    using assms(1) by (auto simp: holds_at_Cons q_def split: if_splits)
  have e: "holds_at P q (concat (map item_text items))" "char_at P e = CHR '']''"
    using q by (simp_all add: holds_at_append holds_at_Cons e_def)
  have start: "char_at P q \<notin> {CHR ''!'', CHR ''^'', CHR '']''}"
    using q assms(2) item_text_start [of P q "hd items"] by (cases items) (auto simp: holds_at_append dest: items_okD)
  then have "q \<noteq> e" using e(2) by auto
  have len: "s + length (elem_text (Bracket neg items)) = Suc e"
    by (simp add: e_def q_def)
  have "patscan_loop P pend d s pn False False NUL None = patscan_loop P pend d (Suc s) pn True False NUL (Some q)"
    using s start neg assms(3) len by (subst patscan_loop.simps) (auto simp: Let_def q_def e_def split: if_splits)
  also have "\<dots> = patscan_loop P pend d q pn True False NUL (Some q)"
    using neg scan_char [of P "Suc s" "CHR ''!''" pend True d pn NUL "Some q"] assms(3) len by (auto simp: q_def e_def)
  also have "\<dots> = patscan_loop P pend d e pn True False NUL (Some q)"
    unfolding e_def using e(1) items_ok_all [OF assms(2)] assms(3) len by (intro scan_items) (auto simp: e_def)
  also have "\<dots> = patscan_loop P pend d (Suc e) pn False False NUL None"
    using e(2) \<open>q \<noteq> e\<close> assms(3) len by (subst patscan_loop.simps) (auto simp: Let_def)
  finally show ?thesis by (simp only: len)
qed

section \<open>Elements and patterns\<close>

definition scans :: "cstring \<Rightarrow> nat \<Rightarrow> char \<Rightarrow> nat \<Rightarrow> nat \<Rightarrow> cstring \<Rightarrow> bool" where
  "scans P pend d pn s xs \<longleftrightarrow>
     patscan_loop P pend d s pn False False NUL None = patscan_loop P pend d (s + length xs) pn False False NUL None"

lemma scans_append: "scans P pend d pn s xs \<Longrightarrow> scans P pend d pn (s + length xs) ys \<Longrightarrow> scans P pend d pn s (xs @ ys)"
  by (simp add: scans_def add.assoc)

lemma scans_pat:
  assumes "\<And>e s. e \<in> set pat \<Longrightarrow> holds_at P s (elem_text e) \<Longrightarrow> s + length (elem_text e) \<le> pend \<Longrightarrow> scans P pend d pn s (elem_text e)"
    and "holds_at P s (pat_text pat)" and "s + length (pat_text pat) \<le> pend"
  shows "scans P pend d pn s (pat_text pat)"
  using assms
proof (induction pat arbitrary: s)
  case (Cons e pat)
  then show ?case
    by (auto simp: pat_text_def holds_at_append intro!: scans_append)
qed (simp add: pat_text_def scans_def)

lemma scans_join:
  assumes "\<And>a s. a \<in> set alts \<Longrightarrow> holds_at P s (pat_text a) \<Longrightarrow> s + length (pat_text a) \<le> pend \<Longrightarrow> scans P pend d pn s (pat_text a)"
    and "holds_at P s (join_bar (map pat_text alts))" and "s + length (join_bar (map pat_text alts)) \<le> pend"
    and "0 < pn \<or> d \<noteq> CHR ''|''"
  shows "scans P pend d pn s (join_bar (map pat_text alts))"
  using assms
proof (induction alts arbitrary: s rule: induct_list012)
  case (3 a b alts)
  let ?r = "join_bar (map pat_text (b # alts))" and ?q = "s + length (pat_text a)"
  have h: "holds_at P s (pat_text a)" "char_at P ?q = CHR ''|''" "holds_at P (Suc ?q) ?r"
    using 3 by (auto simp: holds_at_append holds_at_Cons)
  have "scans P pend d pn s (pat_text a)"
    using 3 h(1) by auto
  moreover have "scans P pend d pn ?q ''|''"
    using h(2) "3.prems"(3,4) unfolding scans_def by (subst patscan_loop.simps) (auto simp: Let_def)
  moreover have "scans P pend d pn (?q + length ''|'') ?r"
    using "3.prems" h(3) by (intro "3.IH"(2)) auto
  ultimately show ?case
    using scans_append by (metis join_bar.simps(3) list.simps(9))
qed (auto simp: scans_def)

lemma xop_char_simps:
  "xop_char op \<in> set ''?*+@!''" "xop_char op \<notin> {NUL, BSLASH, CHR ''['', CHR '']'', CHR ''('', CHR '')'', CHR ''|''}"
  by (cases op; simp)+

lemma elem_text_Ext: "elem_text (Ext op alts) = [xop_char op, CHR ''(''] @ join_bar (map pat_text alts) @ '')''"
  by (simp add: pat_text_def [abs_def] comp_def)

lemma elem_ok_Ext: "elem_ok ext (Ext op alts) \<longleftrightarrow> ext \<and> alts \<noteq> [] \<and> (\<forall>a\<in>set alts. pat_ok ext a)"
  by (auto simp: pat_ok_def list_all_iff)

lemma scans_elem:
  assumes "holds_at P s (elem_text e)" and "elem_ok True e" and "s + length (elem_text e) \<le> pend"
  shows "scans P pend d pn s (elem_text e)"
  using assms
proof (induction e arbitrary: s pn)
  case (Plain c)
  then show ?case
    using scan_char [of P s c pend False d pn NUL None] by (auto simp: scans_def plain_ok_def holds_at_Cons)
next
  case (Quoted c)
  then show ?case
    using scan_quoted [of P s c pend d pn False NUL None] by (auto simp: scans_def)
next
  case AnyChar
  then show ?case
    using scan_char [of P s "CHR ''?''" pend False d pn NUL None] by (auto simp: scans_def holds_at_Cons)
next
  case AnyString
  then show ?case
    using scan_char [of P s "CHR ''*''" pend False d pn NUL None] by (auto simp: scans_def holds_at_Cons)
next
  case (Bracket neg items)
  then show ?case
    using scan_bracket [of P s neg items pend d pn] by (auto simp: scans_def)
next
  case (Ext op alts)
  define j where "j = join_bar (map pat_text alts)"
  define q where "q = Suc (Suc s) + length j"
  have len: "s + length (elem_text (Ext op alts)) = Suc q"
    by (simp add: elem_text_Ext j_def q_def del: elem_text.simps)
  have h: "char_at P s = xop_char op" "char_at P (Suc s) = CHR ''(''" "holds_at P (Suc (Suc s)) j" "char_at P q = CHR '')''"
    using Ext.prems(1) xop_char_simps(2) [of op] unfolding elem_text_Ext
    by (auto simp: j_def q_def holds_at_Cons holds_at_append)
  have alts: "scans P pend d (Suc pn) s' (pat_text a)"
    if "a \<in> set alts" "holds_at P s' (pat_text a)" "s' + length (pat_text a) \<le> pend" for a s'
    using that Ext.prems(2) by (intro scans_pat Ext.IH) (auto simp: elem_ok_Ext pat_ok_def list_all_iff simp del: elem_ok.simps(6))
  have "patscan_loop P pend d s pn False False NUL None = patscan_loop P pend d (Suc s) pn False False NUL None"
    using h(1) xop_char_simps(2) [of op] Ext.prems(3) len by (intro scan_char) (auto simp: q_def)
  also have "\<dots> = patscan_loop P pend d (Suc (Suc s)) (Suc pn) False False NUL None"
    using h(2) Ext.prems(3) len by (subst patscan_loop.simps) (auto simp: Let_def q_def)
  also have "\<dots> = patscan_loop P pend d q (Suc pn) False False NUL None"
    using scans_join [of alts P pend d "Suc pn" "Suc (Suc s)"] alts h(3) Ext.prems(3) len
    by (auto simp: scans_def j_def q_def)
  also have "\<dots> = patscan_loop P pend d (Suc q) pn False False NUL None"
    using h(4) Ext.prems(3) len by (subst patscan_loop.simps) (auto simp: Let_def)
  finally show ?case by (simp only: scans_def len)
qed

lemma scans_pat_text:
  "holds_at P s (pat_text pat) \<Longrightarrow> list_all (elem_ok True) pat \<Longrightarrow> s + length (pat_text pat) \<le> pend
   \<Longrightarrow> scans P pend d pn s (pat_text pat)"
  by (intro scans_pat scans_elem) (auto simp: list_all_iff)

text \<open>The end of an alternative, and the end of the whole list of alternatives.\<close>

lemma PATSCAN_alternative:
  assumes "holds_at P s (pat_text a @ [c])" and "list_all (elem_ok True) a" and "c = CHR ''|'' \<or> c = CHR '')''"
    and "s + length (pat_text a) < pend"
  shows "PATSCAN P s pend (CHR ''|'') = Some (s + length (pat_text a) + 1)"
proof -
  have "holds_at P s (pat_text a)" "char_at P (s + length (pat_text a)) = c"
    using assms(1,3) by (auto simp: holds_at_append holds_at_Cons)
  then have "patscan_loop P pend (CHR ''|'') s 0 False False NUL None
      = patscan_loop P pend (CHR ''|'') (s + length (pat_text a)) 0 False False NUL None"
    using scans_pat_text [of P s a pend "CHR ''|''" 0] assms(2,4) by (simp add: scans_def)
  also have "\<dots> = Some (s + length (pat_text a) + 1)"
    using assms(3,4) \<open>char_at P (s + length (pat_text a)) = c\<close>
    by (subst patscan_loop.simps) (auto simp: Let_def)
  finally show ?thesis using assms(4) by (simp add: PATSCAN_def)
qed

lemma PATSCAN_rest:
  assumes "holds_at P s (join_bar (map pat_text alts) @ '')'')" and "\<forall>a\<in>set alts. list_all (elem_ok True) a"
    and "s + length (join_bar (map pat_text alts)) < pend"
  shows "PATSCAN P s pend NUL = Some (s + length (join_bar (map pat_text alts)) + 1)"
proof -
  let ?j = "join_bar (map pat_text alts)"
  have h: "holds_at P s ?j" "char_at P (s + length ?j) = CHR '')''"
    using assms(1) by (simp_all add: holds_at_append holds_at_Cons)
  have "scans P pend NUL 0 s ?j"
    using assms(2,3) h(1) by (intro scans_join scans_pat_text) auto
  then have "patscan_loop P pend NUL s 0 False False NUL None = patscan_loop P pend NUL (s + length ?j) 0 False False NUL None"
    by (simp add: scans_def)
  also have "\<dots> = Some (s + length ?j + 1)"
    using assms(3) h(2) by (subst patscan_loop.simps) (auto simp: Let_def)
  finally show ?thesis using assms(3) by (simp add: PATSCAN_def)
qed

end
