(* ===== verification/Smatch_Correct.thy ===== *)
theory Smatch_Correct
  imports Smatch_Scan
begin

text \<open>
  The matcher decides the meaning of patterns: \<^verbatim>\<open>GMATCH\<close> with its collapsing of wildcards, its search after a
  \<^verbatim>\<open>*\<close> that never backtracks to an earlier \<^verbatim>\<open>*\<close>, and \<^verbatim>\<open>EXTMATCH\<close> with its loops over alternatives.
\<close>

section \<open>The meaning of patterns\<close>

lemma pat_matches_Nil [simp]: "pat_matches flags S [] i j \<longleftrightarrow> i = j"
  by (simp add: pat_matches_def in_sequence_def)

lemma pat_matches_Cons: "pat_matches flags S (e # pat) i j \<longleftrightarrow> (\<exists>k. elem_matches flags S e i k \<and> pat_matches flags S pat k j)"
  by (auto simp: pat_matches_def in_sequence_def)

definition any_alt :: "int \<Rightarrow> cstring \<Rightarrow> gelem list list \<Rightarrow> nat \<Rightarrow> nat \<Rightarrow> bool" where
  "any_alt flags S alts i j \<longleftrightarrow> (\<exists>a\<in>set alts. pat_matches flags S a i j)"

lemma elem_matches_Ext: "elem_matches flags S (Ext op alts) = ext_rel S op (any_alt flags S alts)"
proof -
  have "any_of (map in_sequence (map (map (elem_matches flags S)) alts)) = any_alt flags S alts"
    by (intro ext) (simp add: any_of_def any_alt_def pat_matches_def)
  then show ?thesis by simp
qed

text \<open>A match goes forward and stays inside the string.\<close>

definition forward :: "cstring \<Rightarrow> (nat \<Rightarrow> nat \<Rightarrow> bool) \<Rightarrow> bool" where
  "forward S r \<longleftrightarrow> (\<forall>i j. r i j \<longrightarrow> i \<le> length S \<longrightarrow> i \<le> j \<and> j \<le> length S)"

lemma forwardI: "(\<And>i j. r i j \<Longrightarrow> i \<le> length S \<Longrightarrow> i \<le> j \<and> j \<le> length S) \<Longrightarrow> forward S r"
  by (simp add: forward_def)

lemma forwardD: "forward S r \<Longrightarrow> r i j \<Longrightarrow> i \<le> length S \<Longrightarrow> i \<le> j \<and> j \<le> length S"
  by (simp add: forward_def)

lemma forward_rtranclp:
  assumes "forward S r"
  shows "forward S r\<^sup>*\<^sup>*"
proof (rule forwardI)
  fix i j assume "r\<^sup>*\<^sup>* i j" "i \<le> length S"
  then show "i \<le> j \<and> j \<le> length S"
    by (induction rule: rtranclp_induct) (use assms in \<open>auto dest!: forwardD\<close>)
qed

lemma forward_ext_rel: "forward S r \<Longrightarrow> forward S (ext_rel S op r)"
  by (cases op) (auto intro!: forwardI dest: forwardD forwardD [OF forward_rtranclp] forwardD [OF forward_rtranclp, OF _ tranclp_into_rtranclp])

lemma forward_pat: "(\<And>e. e \<in> set pat \<Longrightarrow> forward S (elem_matches flags S e)) \<Longrightarrow> forward S (pat_matches flags S pat)"
proof (induction pat)
  case (Cons e pat)
  then have f: "forward S (elem_matches flags S e)" "forward S (pat_matches flags S pat)" by simp_all
  show ?case
  proof (rule forwardI)
    fix i j assume "pat_matches flags S (e # pat) i j" "i \<le> length S"
    then obtain k where "elem_matches flags S e i k" "pat_matches flags S pat k j" by (auto simp: pat_matches_Cons)
    with f \<open>i \<le> length S\<close> show "i \<le> j \<and> j \<le> length S" by (meson forwardD le_trans)
  qed
qed (simp add: forward_def)

lemma forward_elem: "forward S (elem_matches flags S e)"
proof (induction e)
  case (Ext op alts)
  then have "\<forall>a\<in>set alts. forward S (pat_matches flags S a)"
    using forward_pat by blast
  then have "forward S (any_alt flags S alts)"
    by (auto simp: any_alt_def forward_def)
  then show ?case by (simp add: elem_matches_Ext forward_ext_rel del: elem_matches.simps)
qed (auto simp: forward_def one_char_def)

lemma pat_matches_le:
  assumes "pat_matches flags S pat i j" and "i \<le> length S"
  shows "i \<le> j" "j \<le> length S"
  using assms forward_pat [OF forward_elem] by (auto simp: forward_def)

lemma elem_matches_le:
  assumes "elem_matches flags S e i j" and "i \<le> length S"
  shows "i \<le> j" "j \<le> length S"
  using assms forward_elem by (auto simp: forward_def)

lemma any_alt_le:
  assumes "any_alt flags S alts i j" and "i \<le> length S"
  shows "i \<le> j" "j \<le> length S"
  using assms pat_matches_le by (auto simp: any_alt_def)

text \<open>An element that is not nullable consumes something.\<close>

lemma not_nullable_pat:
  assumes "\<And>e i j. e \<in> set pat \<Longrightarrow> \<not> nullable e \<Longrightarrow> elem_matches flags S e i j \<Longrightarrow> i \<le> length S \<Longrightarrow> i < j"
    and "\<not> list_all nullable pat" and "pat_matches flags S pat i j" and "i \<le> length S"
  shows "i < j"
  using assms
proof (induction pat arbitrary: i)
  case (Cons e pat)
  then obtain k where k: "elem_matches flags S e i k" "pat_matches flags S pat k j" by (auto simp: pat_matches_Cons)
  then have "i \<le> k" "k \<le> length S" "k \<le> j"
    using elem_matches_le pat_matches_le Cons.prems(4) by blast+
  show ?case
  proof (cases "nullable e")
    case True
    then have "k < j" using Cons.prems k \<open>k \<le> length S\<close> by (intro Cons.IH) auto
    with \<open>i \<le> k\<close> show ?thesis by simp
  next
    case False
    then have "i < k" using Cons.prems(1) [OF _ False k(1)] Cons.prems(4) by simp
    with \<open>k \<le> j\<close> show ?thesis by simp
  qed
qed simp

lemma not_nullable:
  "\<not> nullable e \<Longrightarrow> elem_matches flags S e i j \<Longrightarrow> i \<le> length S \<Longrightarrow> i < j"
proof (induction e arbitrary: i j)
  case (Ext op alts)
  then have "\<not> list_all nullable a" if "a \<in> set alts" for a
    using that by (auto simp: list_ex_iff list_all_iff)
  then have alt: "x < y" if "any_alt flags S alts x y" "x \<le> length S" for x y
    using that not_nullable_pat [of _ flags S x y] Ext.IH unfolding any_alt_def by blast
  have op: "op = OneOrMore \<or> op = ExactlyOne" using Ext.prems(1) by auto
  then have "(any_alt flags S alts)\<^sup>+\<^sup>+ i j"
    using Ext.prems(2) by (auto simp: elem_matches_Ext simp del: elem_matches.simps)
  then obtain k where "any_alt flags S alts i k" "(any_alt flags S alts)\<^sup>*\<^sup>* k j"
    by (metis tranclpD)
  moreover have "forward S (any_alt flags S alts)"
    by (intro forwardI) (use any_alt_le in blast)
  ultimately have "i < k" "k \<le> j"
    using alt any_alt_le Ext.prems(3) forwardD [OF forward_rtranclp] by blast+
  then show ?case by simp
qed (auto simp: one_char_def)

declare elem_text.simps(6) [simp del] and elem_ok.simps(6) [simp del] and elem_matches.simps(6) [simp del]

section \<open>Loops\<close>

lemma for_places_eq: "(\<And>i. i \<in> set is \<Longrightarrow> body i = Some (b i)) \<Longrightarrow> for_places body is = Some (\<exists>i\<in>set is. b i)"
  by (induction "is") auto

lemma for_subpatterns_eq:
  assumes "holds_at P psub (join_bar (map pat_text alts) @ '')'')" and "alts \<noteq> []"
    and "\<forall>a\<in>set alts. list_all (elem_ok True) a"
    and "prest = psub + length (join_bar (map pat_text alts)) + 1" and "prest \<le> pe"
    and "\<And>a q. a \<in> set alts \<Longrightarrow> psub \<le> q \<Longrightarrow> q + length (pat_text a) < prest \<Longrightarrow> holds_at P q (pat_text a)
           \<Longrightarrow> char_at P (q + length (pat_text a)) \<in> {CHR ''|'', CHR '')''} \<Longrightarrow> body q (q + length (pat_text a) + 1) = Some (b a)"
    and "length alts \<le> k"
  shows "for_subpatterns k body P pe prest psub = Some (\<exists>a\<in>set alts. b a)"
  using assms
proof (induction alts arbitrary: psub k rule: induct_list012)
  case (2 a)
  then have "PATSCAN P psub pe (CHR ''|'') = Some prest"
    using PATSCAN_alternative [of P psub a "CHR '')''" pe] by auto
  moreover have "body psub prest = Some (b a)"
    using 2 by (auto simp: holds_at_append holds_at_Cons)
  ultimately show ?case using "2.prems"(7) by (cases k) auto
next
  case (3 a a2 alts)
  let ?j = "join_bar (map pat_text (a2 # alts))" and ?q = "psub + length (pat_text a)"
  have h: "holds_at P psub (pat_text a @ [CHR ''|''])" "holds_at P (Suc ?q) (?j @ '')'')"
    using "3.prems"(1) by (auto simp: holds_at_append holds_at_Cons)
  have len: "prest = Suc ?q + length ?j + 1" using "3.prems"(4) by simp
  have scan: "PATSCAN P psub pe (CHR ''|'') = Some (?q + 1)"
    using h(1) "3.prems"(3,5) len by (intro PATSCAN_alternative) auto
  have "body psub (?q + 1) = Some (b a)"
    using h(1) len by (intro "3.prems"(6)) (auto simp: holds_at_append holds_at_Cons)
  obtain k' where k: "k = Suc k'" using "3.prems"(7) by (cases k) auto
  have "for_subpatterns k' body P pe prest (?q + 1) = Some (\<exists>a\<in>set (a2 # alts). b a)"
    using "3.prems" h(2) len k by (intro "3.IH"(2)) auto
  with scan \<open>body psub (?q + 1) = Some (b a)\<close> len show ?case by (auto simp: k)
qed simp

lemma length_join_bar: "alts \<noteq> [] \<Longrightarrow> length alts \<le> length (join_bar (map pat_text alts)) + 1"
  by (induction alts rule: induct_list012) auto

section \<open>The contract of the matcher\<close>

text \<open>A call is on the text of a pattern, and on a part of the string.\<close>

abbreviation ext_on :: "int \<Rightarrow> bool" where
  "ext_on flags \<equiv> has_flag flags FNM_EXTMATCH"

definition call_ok :: "int \<Rightarrow> cstring \<Rightarrow> cstring \<Rightarrow> gelem list \<Rightarrow> nat \<Rightarrow> nat \<Rightarrow> nat \<Rightarrow> nat \<Rightarrow> bool" where
  "call_ok flags S P pat n se p pe \<longleftrightarrow> holds_at P p (pat_text pat) \<and> pe = p + length (pat_text pat)
     \<and> pat_ok (ext_on flags) pat \<and> n \<le> se \<and> se \<le> length S \<and> char_at P pe \<in> {NUL, CHR ''|'', CHR '')''}"

text \<open>
  With \<^verbatim>\<open>ends\<close> the matcher stops at the first \<^verbatim>\<open>*\<close>, if no extended pattern comes before it: what precedes it,
  and what follows.
\<close>

fun first_star :: "gelem list \<Rightarrow> (gelem list \<times> gelem list) option" where
  "first_star [] = None"
| "first_star (AnyString # pat) = Some ([], pat)"
| "first_star (Ext op alts # pat) = None"
| "first_star (e # pat) = map_option (\<lambda>(pre, post). (e # pre, post)) (first_star pat)"

definition gm_result :: "int \<Rightarrow> cstring \<Rightarrow> bool \<Rightarrow> gelem list \<Rightarrow> nat \<Rightarrow> nat \<Rightarrow> nat \<Rightarrow> int \<times> (nat \<times> nat) option" where
  "gm_result flags S ends pat n se p =
     (case (if ends then first_star pat else None) of
        None \<Rightarrow> (match_int (pat_matches flags S pat n se), None)
      | Some (pre, post) \<Rightarrow>
          if n + length pre \<le> se \<and> pat_matches flags S pre n (n + length pre)
          then (0, Some (p + length (pat_text pre), n + length pre)) else (FNM_NOMATCH, None))"

definition gm_correct :: "gmatch_fun \<Rightarrow> int \<Rightarrow> cstring \<Rightarrow> cstring \<Rightarrow> nat \<Rightarrow> bool" where
  "gm_correct gm flags S P m \<longleftrightarrow>
     (\<forall>pat string n se p pe ends. call_ok flags S P pat n se p pe \<longrightarrow> (pe - p) + (se - n) < m \<longrightarrow>
        gm string n se p pe ends flags = Some (gm_result flags S ends pat n se p))"

lemma gm_correctD:
  "gm_correct gm flags S P m \<Longrightarrow> call_ok flags S P pat n se p pe \<Longrightarrow> (pe - p) + (se - n) < m \<Longrightarrow>
   gm string n se p pe ends flags = Some (gm_result flags S ends pat n se p)"
  by (simp add: gm_correct_def)

lemma match_int_0 [simp]: "match_int b = 0 \<longleftrightarrow> b"
  by (simp add: match_int_def FNM_NOMATCH_def)

lemma GMATCH0_eq:
  "gm_correct gm flags S P m \<Longrightarrow> call_ok flags S P pat n se p pe \<Longrightarrow> (pe - p) + (se - n) < m \<Longrightarrow>
   GMATCH0 gm n se p pe flags = Some (pat_matches flags S pat n se)"
  by (simp add: GMATCH0_def gm_correctD gm_result_def)

lemma no_dot_flags [simp]:
  assumes "shell_flags flags"
  shows "no_dot_flags flags = flags"
proof -
  have "flags AND (FNM_PERIOD OR FNM_DOTDOT) = 0"
    using assms by (simp add: shell_flags_def has_flag_def bit.conj_disj_distrib)
  then have "\<not> (bit flags i \<and> bit (FNM_PERIOD OR FNM_DOTDOT) i)" for i
    by (metis bit_and_iff bit_0_eq bot_apply bot_bool_def)
  then show ?thesis
    unfolding no_dot_flags_def by (intro bit_eqI) (metis bit_and_iff bit_not_int_iff)
qed

section \<open>Extended patterns\<close>

lemma rtranclp_strict: "r\<^sup>*\<^sup>* i j \<longleftrightarrow> i = j \<or> (\<exists>m. r i m \<and> i \<noteq> m \<and> r\<^sup>*\<^sup>* m j)"
proof
  assume "r\<^sup>*\<^sup>* i j"
  then show "i = j \<or> (\<exists>m. r i m \<and> i \<noteq> m \<and> r\<^sup>*\<^sup>* m j)"
    by (induction rule: converse_rtranclp_induct) auto
qed (auto intro: converse_rtranclp_into_rtranclp)

lemma tranclp_strict: "r\<^sup>+\<^sup>+ i j \<longleftrightarrow> (\<exists>m. r i m \<and> (m = j \<or> i \<noteq> m \<and> r\<^sup>+\<^sup>+ m j))"
proof
  assume "r\<^sup>+\<^sup>+ i j"
  then show "\<exists>m. r i m \<and> (m = j \<or> i \<noteq> m \<and> r\<^sup>+\<^sup>+ m j)"
    by (induction rule: converse_tranclp_induct) blast+
qed (auto intro: tranclp_into_tranclp2)

lemma pat_ok_Cons: "pat_ok ext (e # pat) \<Longrightarrow> elem_ok ext e \<and> pat_ok ext pat"
  by (cases e) (auto simp: pat_ok_def)

lemma elem_text_nonempty [simp]: "elem_text e \<noteq> []"
  by (cases e) (auto simp: elem_text_Ext)

lemma places: "set [i..<j + 1] = {i..j}"
  by auto

lemma pat_text_Nil [simp]: "pat_text [] = []"
  by (simp add: pat_text_def)

lemma pat_text_Cons [simp]: "pat_text (e # pat) = elem_text e @ pat_text pat"
  by (simp add: pat_text_def)

lemma pat_text_empty: "pat_text pat = [] \<longleftrightarrow> pat = []"
  by (cases pat) auto

text \<open>An extended pattern at the head of the rest of the pattern: its parts and the calls for them.\<close>

definition ext_call ::
    "gmatch_fun \<Rightarrow> int \<Rightarrow> cstring \<Rightarrow> cstring \<Rightarrow> nat \<Rightarrow> xop \<Rightarrow> gelem list list \<Rightarrow> gelem list \<Rightarrow> nat \<Rightarrow> nat \<Rightarrow> nat \<Rightarrow> nat \<Rightarrow> bool" where
  "ext_call gm flags S P m op alts rest s se p0 pe \<longleftrightarrow>
     gm_correct gm flags S P m \<and> (pe - p0) + (se - s) \<le> m
     \<and> call_ok flags S P (Ext op alts # rest) s se p0 pe \<and> shell_flags flags"

definition ext_end :: "xop \<Rightarrow> gelem list list \<Rightarrow> nat \<Rightarrow> nat" where
  "ext_end op alts p0 = p0 + length (elem_text (Ext op alts))"

lemma ext_end_eq: "ext_end op alts p0 = p0 + 2 + length (join_bar (map pat_text alts)) + 1"
  by (simp add: ext_end_def elem_text_Ext del: elem_text.simps)

lemma ext_call_parts:
  assumes "ext_call gm flags S P m op alts rest s se p0 pe"
  shows "char_at P p0 = xop_char op" "char_at P (Suc p0) = CHR ''(''"
    "holds_at P (p0 + 2) (join_bar (map pat_text alts) @ '')'')" "holds_at P (ext_end op alts p0) (pat_text rest)"
    "pe = ext_end op alts p0 + length (pat_text rest)" "ext_end op alts p0 \<le> length P"
    "char_at P pe \<in> {NUL, CHR ''|'', CHR '')''}"
proof -
  have h: "holds_at P p0 (elem_text (Ext op alts) @ pat_text rest)" and pe: "pe = p0 + length (elem_text (Ext op alts) @ pat_text rest)"
    using assms by (simp_all add: ext_call_def call_ok_def)
  then show "char_at P p0 = xop_char op" "char_at P (Suc p0) = CHR ''(''" "holds_at P (p0 + 2) (join_bar (map pat_text alts) @ '')'')"
    using xop_char_simps(2) [of op] unfolding elem_text_Ext by (auto simp: holds_at_Cons holds_at_append)
  show "holds_at P (ext_end op alts p0) (pat_text rest)" "pe = ext_end op alts p0 + length (pat_text rest)"
    using h pe by (simp_all add: holds_at_append ext_end_def del: elem_text.simps)
  show "ext_end op alts p0 \<le> length P"
    using h holds_at_le [of P p0 "elem_text (Ext op alts)"] elem_text_nonempty by (simp add: holds_at_append ext_end_def del: elem_text.simps)
  show "char_at P pe \<in> {NUL, CHR ''|'', CHR '')''}"
    using assms unfolding ext_call_def call_ok_def by blast
qed

lemma ext_call_ok:
  assumes "ext_call gm flags S P m op alts rest s se p0 pe"
  shows "ext_on flags" "alts \<noteq> []" "\<forall>a\<in>set alts. pat_ok (ext_on flags) a" "pat_ok (ext_on flags) rest" "s \<le> se" "se \<le> length S"
    "(pe - p0) + (se - s) \<le> m" "gm_correct gm flags S P m" "shell_flags flags"
proof -
  have "elem_ok (ext_on flags) (Ext op alts)" "pat_ok (ext_on flags) rest"
    using assms pat_ok_Cons unfolding ext_call_def call_ok_def by blast+
  then show "ext_on flags" "alts \<noteq> []" "\<forall>a\<in>set alts. pat_ok (ext_on flags) a" "pat_ok (ext_on flags) rest"
    unfolding elem_ok_Ext by auto
  show "s \<le> se" "se \<le> length S" "(pe - p0) + (se - s) \<le> m" "gm_correct gm flags S P m" "shell_flags flags"
    using assms unfolding ext_call_def call_ok_def by blast+
qed

lemma ext_call_rest:
  assumes c: "ext_call gm flags S P m op alts rest s se p0 pe" and "s \<le> i" and "i \<le> se"
  shows "GMATCH0 gm i se (ext_end op alts p0) pe flags = Some (pat_matches flags S rest i se)"
proof (rule GMATCH0_eq [OF ext_call_ok(8) [OF c]])
  show "call_ok flags S P rest i se (ext_end op alts p0) pe"
    unfolding call_ok_def using ext_call_parts [OF c] ext_call_ok [OF c] assms(3) by blast
  show "(pe - ext_end op alts p0) + (se - i) < m"
    using ext_call_ok(7) [OF c] ext_call_parts(5) [OF c] ext_end_eq [of op alts p0] assms(2) by linarith
qed

lemma ext_call_alt:
  assumes c: "ext_call gm flags S P m op alts rest s se p0 pe"
    and "a \<in> set alts" and "p0 + 2 \<le> q" and "q + length (pat_text a) < ext_end op alts p0" and "holds_at P q (pat_text a)"
    and "char_at P (q + length (pat_text a)) \<in> {CHR ''|'', CHR '')''}" and "s \<le> i" and "i \<le> se"
  shows "GMATCH0 gm s i q (q + length (pat_text a)) flags = Some (pat_matches flags S a s i)"
proof (rule GMATCH0_eq [OF ext_call_ok(8) [OF c]])
  show "call_ok flags S P a s i q (q + length (pat_text a))"
    using assms ext_call_ok [OF c] by (auto simp: call_ok_def)
  show "(q + length (pat_text a) - q) + (i - s) < m"
    using ext_call_ok(7) [OF c] assms ext_call_parts(5) [OF c] by linarith
qed

lemma ext_call_again:
  assumes c: "ext_call gm flags S P m op alts rest s se p0 pe" and "s < i" and "i \<le> se"
  shows "GMATCH0 gm i se p0 pe flags = Some (pat_matches flags S (Ext op alts # rest) i se)"
proof (rule GMATCH0_eq [OF ext_call_ok(8) [OF c]])
  show "call_ok flags S P (Ext op alts # rest) i se p0 pe"
    using c assms(3) unfolding ext_call_def call_ok_def by blast
  show "(pe - p0) + (se - i) < m"
    using ext_call_ok(7) [OF c] assms(2,3) by linarith
qed

lemma ext_subpatterns:
  assumes c: "ext_call gm flags S P m op alts rest s se p0 pe"
    and "\<And>a q. a \<in> set alts \<Longrightarrow> p0 + 2 \<le> q \<Longrightarrow> q + length (pat_text a) < ext_end op alts p0 \<Longrightarrow> holds_at P q (pat_text a)
           \<Longrightarrow> char_at P (q + length (pat_text a)) \<in> {CHR ''|'', CHR '')''} \<Longrightarrow> body q (q + length (pat_text a) + 1) = Some (b a)"
  shows "for_subpatterns (length P + 1) body P pe (ext_end op alts p0) (Suc p0 + 1) = Some (\<exists>a\<in>set alts. b a)"
proof (rule for_subpatterns_eq)
  show "holds_at P (Suc p0 + 1) (join_bar (map pat_text alts) @ '')'')" using ext_call_parts(3) [OF c] by simp
  show "alts \<noteq> []" by (rule ext_call_ok(2) [OF c])
  show "\<forall>a\<in>set alts. list_all (elem_ok True) a" using ext_call_ok(1,3) [OF c] by (auto simp: pat_ok_def)
  show "ext_end op alts p0 = Suc p0 + 1 + length (join_bar (map pat_text alts)) + 1" by (simp add: ext_end_eq)
  show "ext_end op alts p0 \<le> pe" using ext_call_parts(5) [OF c] by simp
  show "length alts \<le> length P + 1"
    using length_join_bar [OF ext_call_ok(2) [OF c]] ext_call_parts(6) [OF c] ext_end_eq [of op alts p0] by linarith
qed (use assms(2) in auto)

lemma ext_one_eq:
  assumes c: "ext_call gm flags S P m op alts rest s se p0 pe"
  shows "ext_one gm P s se (Suc p0) pe (ext_end op alts p0) flags =
         Some (\<exists>i. any_alt flags S alts s i \<and> pat_matches flags S rest i se)"
proof -
  let ?places = "[(if ext_end op alts p0 = pe then se else s)..<se + 1]"
  have "rest = []" if "ext_end op alts p0 = pe"
    using that ext_call_parts(5) [OF c] by (simp add: pat_text_empty)
  moreover have "s \<le> i \<and> i \<le> se" if "pat_matches flags S a s i" "pat_matches flags S rest i se" for a i
    using that pat_matches_le [of flags S a s i] pat_matches_le [of flags S rest i se] ext_call_ok(5,6) [OF c] by (meson le_trans)
  ultimately have iff: "(\<exists>i\<in>set ?places. pat_matches flags S a s i \<and> pat_matches flags S rest i se)
      \<longleftrightarrow> (\<exists>i. pat_matches flags S a s i \<and> pat_matches flags S rest i se)" for a
    unfolding places by (cases "ext_end op alts p0 = pe") (simp, simp, meson atLeastAtMost_iff)
  have "ext_one gm P s se (Suc p0) pe (ext_end op alts p0) flags =
      Some (\<exists>a\<in>set alts. \<exists>i\<in>set ?places. pat_matches flags S a s i \<and> pat_matches flags S rest i se)"
    unfolding ext_one_def
  proof (rule ext_subpatterns [OF c])
    fix a q assume a: "a \<in> set alts" "p0 + 2 \<le> q" "q + length (pat_text a) < ext_end op alts p0" "holds_at P q (pat_text a)"
      "char_at P (q + length (pat_text a)) \<in> {CHR ''|'', CHR '')''}"
    show "for_places (\<lambda>srest. do {
             let xflags = (if srest > s then no_dot_flags flags else flags);
             m1 \<leftarrow> GMATCH0 gm s srest q (q + length (pat_text a) + 1 - 1) flags;
             if m1 then GMATCH0 gm srest se (ext_end op alts p0) pe xflags else Some False }) ?places =
        Some (\<exists>i\<in>set ?places. pat_matches flags S a s i \<and> pat_matches flags S rest i se)"
      using ext_call_alt [OF c a] ext_call_rest [OF c] ext_call_ok(5,9) [OF c]
      by (intro for_places_eq) (auto split: if_splits)
  qed
  then show ?thesis unfolding iff by (auto simp: any_alt_def)
qed

lemma ext_one_or_more_eq:
  assumes c: "ext_call gm flags S P m op alts rest s se p0 pe"
  shows "ext_one_or_more gm P s se (Suc p0) pe (ext_end op alts p0) flags =
         Some (\<exists>i. any_alt flags S alts s i \<and> (pat_matches flags S rest i se \<or> s \<noteq> i \<and> pat_matches flags S (Ext op alts # rest) i se))"
proof -
  let ?ok = "\<lambda>i. pat_matches flags S rest i se \<or> s \<noteq> i \<and> pat_matches flags S (Ext op alts # rest) i se"
  have iff: "(\<exists>i\<in>set [s..<se + 1]. pat_matches flags S a s i \<and> ?ok i) \<longleftrightarrow> (\<exists>i. pat_matches flags S a s i \<and> ?ok i)" for a
  proof -
    have "s \<le> i \<and> i \<le> se" if "pat_matches flags S a s i" "?ok i" for i
      using that pat_matches_le [of flags S a s i] pat_matches_le [of flags S _ i se] ext_call_ok(5,6) [OF c] by (meson le_trans)
    then show ?thesis unfolding places by (meson atLeastAtMost_iff)
  qed
  have "ext_one_or_more gm P s se (Suc p0) pe (ext_end op alts p0) flags =
      Some (\<exists>a\<in>set alts. \<exists>i\<in>set [s..<se + 1]. pat_matches flags S a s i \<and> ?ok i)"
    unfolding ext_one_or_more_def
  proof (rule ext_subpatterns [OF c])
    fix a q assume a: "a \<in> set alts" "p0 + 2 \<le> q" "q + length (pat_text a) < ext_end op alts p0" "holds_at P q (pat_text a)"
      "char_at P (q + length (pat_text a)) \<in> {CHR ''|'', CHR '')''}"
    show "for_places (\<lambda>srest. do {
             m1 \<leftarrow> GMATCH0 gm s srest q (q + length (pat_text a) + 1 - 1) flags;
             if m1 then do {
               let xflags = (if srest > s then no_dot_flags flags else flags);
               m2 \<leftarrow> GMATCH0 gm srest se (ext_end op alts p0) pe xflags;
               if m2 then Some True
               else if s \<noteq> srest then GMATCH0 gm srest se (Suc p0 - 1) pe xflags
               else Some False }
             else Some False }) [s..<se + 1] =
        Some (\<exists>i\<in>set [s..<se + 1]. pat_matches flags S a s i \<and> ?ok i)"
      using ext_call_alt [OF c a] ext_call_rest [OF c] ext_call_again [OF c] ext_call_ok(9) [OF c]
      by (intro for_places_eq) (auto simp: less_Suc_eq_le)
  qed
  then show ?thesis unfolding iff by (auto simp: any_alt_def)
qed

lemma ext_not_eq:
  assumes c: "ext_call gm flags S P m op alts rest s se p0 pe" and "set is \<subseteq> {s..se}"
  shows "ext_not gm S P s se (Suc p0) pe (ext_end op alts p0) flags is =
         Some (match_int (\<exists>i\<in>set is. \<not> any_alt flags S alts s i \<and> pat_matches flags S rest i se))"
  using assms(2)
proof (induction "is")
  case (Cons i "is")
  have "for_subpatterns (length P + 1) (\<lambda>psub pnext. GMATCH0 gm s i psub (pnext - 1) flags) P pe (ext_end op alts p0) (Suc p0 + 1)
      = Some (\<exists>a\<in>set alts. pat_matches flags S a s i)"
    using Cons.prems ext_call_alt [OF c, of _ _ i] by (intro ext_subpatterns [OF c]) auto
  moreover have "GMATCH0 gm i se (ext_end op alts p0) pe flags = Some (pat_matches flags S rest i se)"
    using Cons.prems by (intro ext_call_rest [OF c]) auto
  ultimately show ?case
    using Cons shell_flagsD [OF ext_call_ok(9) [OF c]] ext_call_ok(9) [OF c]
    by (auto simp: any_alt_def match_int_def)
qed (simp add: match_int_def)

lemma EXTMATCH_text:
  assumes c: "ext_call gm flags S P m op alts rest s se p0 pe"
  shows "EXTMATCH gm S P (xop_char op) s se (Suc p0) pe flags = Some (match_int (pat_matches flags S (Ext op alts # rest) s se))"
proof -
  let ?R = "any_alt flags S alts" and ?after = "\<lambda>i. pat_matches flags S rest i se"
  have "PATSCAN P (Suc (Suc p0)) pe NUL = Some (ext_end op alts p0)"
    using PATSCAN_rest [of P "p0 + 2" alts pe] ext_call_parts [OF c] ext_call_ok(1,3) [OF c] ext_end_eq [of op alts p0]
    by (auto simp: pat_ok_def)
  then have scan: "PATSCAN P (if char_at P (Suc p0) = CHR ''('' then Suc p0 + 1 else Suc p0) pe NUL = Some (ext_end op alts p0)"
    using ext_call_parts(2) [OF c] by simp
  have zero: "GMATCH0 gm s se (ext_end op alts p0) pe flags = Some (?after s)"
    using ext_call_rest [OF c, of s] ext_call_ok(5) [OF c] by simp
  have not_places: "(\<exists>i\<in>{s..se}. \<not> ?R s i \<and> ?after i) \<longleftrightarrow> (\<exists>i. s \<le> i \<and> i \<le> length S \<and> \<not> ?R s i \<and> ?after i)"
    using pat_matches_le [of flags S rest _ se] ext_call_ok(6) [OF c] by (meson atLeastAtMost_iff le_trans)
  have not: "ext_not gm S P s se (Suc p0) pe (ext_end op alts p0) flags [s..<se + 1] =
      Some (match_int (\<exists>i. s \<le> i \<and> i \<le> length S \<and> \<not> ?R s i \<and> ?after i))"
    using ext_not_eq [OF c, of "[s..<se + 1]"] unfolding places not_places by simp
  show ?thesis
  proof (cases op)
    case ZeroOrOne
    have "pat_matches flags S (Ext op alts # rest) s se \<longleftrightarrow> ?after s \<or> (\<exists>i. ?R s i \<and> ?after i)"
      by (auto simp: pat_matches_Cons elem_matches_Ext ZeroOrOne)
    then show ?thesis
      unfolding EXTMATCH_def scan using zero ext_one_eq [OF c] by (simp add: ZeroOrOne match_int_def)
  next
    case ZeroOrMore
    have "pat_matches flags S (Ext op alts # rest) s se \<longleftrightarrow>
        ?after s \<or> (\<exists>i. ?R s i \<and> (?after i \<or> s \<noteq> i \<and> pat_matches flags S (Ext op alts # rest) i se))"
      by (subst pat_matches_Cons, simp add: elem_matches_Ext ZeroOrMore, subst rtranclp_strict)
         (auto simp: pat_matches_Cons elem_matches_Ext intro: converse_rtranclp_into_rtranclp)
    then show ?thesis
      unfolding EXTMATCH_def scan using zero ext_one_or_more_eq [OF c] by (simp add: ZeroOrMore match_int_def)
  next
    case OneOrMore
    have "pat_matches flags S (Ext op alts # rest) s se \<longleftrightarrow>
        (\<exists>i. ?R s i \<and> (?after i \<or> s \<noteq> i \<and> pat_matches flags S (Ext op alts # rest) i se))"
      by (subst pat_matches_Cons, simp add: elem_matches_Ext OneOrMore, subst tranclp_strict)
         (auto simp: pat_matches_Cons elem_matches_Ext)
    then show ?thesis
      unfolding EXTMATCH_def scan using ext_one_or_more_eq [OF c] by (simp add: OneOrMore match_int_def)
  next
    case ExactlyOne
    have "pat_matches flags S (Ext op alts # rest) s se \<longleftrightarrow> (\<exists>i. ?R s i \<and> ?after i)"
      by (auto simp: pat_matches_Cons elem_matches_Ext ExactlyOne)
    then show ?thesis
      unfolding EXTMATCH_def scan using ext_one_eq [OF c] by (simp add: ExactlyOne match_int_def)
  next
    case NoneOf
    have "pat_matches flags S (Ext op alts # rest) s se \<longleftrightarrow> (\<exists>i. s \<le> i \<and> i \<le> length S \<and> \<not> ?R s i \<and> ?after i)"
      by (auto simp: pat_matches_Cons elem_matches_Ext NoneOf)
    then show ?thesis
      unfolding EXTMATCH_def scan using not by (simp add: NoneOf match_int_def)
  qed
qed

section \<open>Wildcards\<close>

definition wildcard :: "gelem \<Rightarrow> bool" where
  "wildcard e \<longleftrightarrow> (case e of AnyChar \<Rightarrow> True | AnyString \<Rightarrow> True | Ext op alts \<Rightarrow> op \<in> {ZeroOrOne, ZeroOrMore} | _ \<Rightarrow> False)"

definition star_matches :: "int \<Rightarrow> cstring \<Rightarrow> gelem list \<Rightarrow> nat \<Rightarrow> nat \<Rightarrow> bool" where
  "star_matches flags S pat n se \<longleftrightarrow> (\<exists>i. n \<le> i \<and> i \<le> se \<and> pat_matches flags S pat i se)"

lemma star_matches_eq:
  "se \<le> length S \<Longrightarrow> pat_matches flags S (AnyString # pat) n se \<longleftrightarrow> star_matches flags S pat n se"
  using pat_matches_le [of flags S pat _ se] unfolding star_matches_def pat_matches_Cons by (auto intro: le_trans)

text \<open>The first character of an element.\<close>

primrec elem_char :: "gelem \<Rightarrow> char" where
  "elem_char (Plain c) = c"
| "elem_char (Quoted c) = BSLASH"
| "elem_char AnyChar = CHR ''?''"
| "elem_char AnyString = CHR ''*''"
| "elem_char (Bracket neg items) = CHR ''[''"
| "elem_char (Ext op alts) = xop_char op"

lemma elem_char_simps:
  assumes "elem_ok ext e"
  shows "elem_char e \<noteq> NUL" "ext \<Longrightarrow> elem_char e \<noteq> CHR ''(''"
    "\<not> wildcard e \<Longrightarrow> elem_char e \<noteq> CHR ''?'' \<and> elem_char e \<noteq> CHR ''*''"
proof -
  show "elem_char e \<noteq> NUL" "ext \<Longrightarrow> elem_char e \<noteq> CHR ''(''"
    using assms xop_char_simps(2) by (cases e; force simp: plain_ok_def)+
  show "elem_char e \<noteq> CHR ''?'' \<and> elem_char e \<noteq> CHR ''*''" if "\<not> wildcard e"
  proof (cases e)
    case (Ext op alts)
    with that show ?thesis by (cases op) (auto simp: wildcard_def)
  qed (use that assms in \<open>auto simp: wildcard_def plain_ok_def\<close>)
qed

lemma elem_text_hd:
  assumes "holds_at P q (elem_text e)" and "elem_ok ext e"
  shows "char_at P q = elem_char e"
proof -
  have "\<exists>r. elem_text e = elem_char e # r" by (cases e) (auto simp: elem_text_Ext)
  with assms elem_char_simps(1) [OF assms(2)] show ?thesis by (auto simp: holds_at_Cons)
qed

lemma call_ok_Cons:
  assumes "call_ok flags S P (e # pat) n se p pe"
  shows "holds_at P p (elem_text e)" "elem_ok (ext_on flags) e" "call_ok flags S P pat n se (p + length (elem_text e)) pe"
    "p < pe" "n \<le> se" "se \<le> length S"
  using assms pat_ok_Cons [of "ext_on flags" e pat] elem_text_nonempty [of e] unfolding call_ok_def
  by (auto simp: holds_at_append add.assoc)

lemma call_ok_move: "call_ok flags S P pat n se p pe \<Longrightarrow> n' \<le> se \<Longrightarrow> call_ok flags S P pat n' se p pe"
  unfolding call_ok_def by blast

lemma call_ok_char: "call_ok flags S P (e # pat) n se p pe \<Longrightarrow> char_at P p = elem_char e"
  by (rule elem_text_hd [OF call_ok_Cons(1) call_ok_Cons(2)])

lemma call_ok_start:
  assumes "call_ok flags S P pat n se p pe" and "ext_on flags"
  shows "char_at P p \<noteq> CHR ''(''"
proof (cases pat)
  case Nil
  then show ?thesis using assms(1) by (auto simp: call_ok_def)
next
  case (Cons e rest)
  then show ?thesis
    using assms call_ok_char call_ok_Cons(2) elem_char_simps(2) by (metis (full_types))
qed

lemma call_ok_end: "call_ok flags S P pat n se p pe \<Longrightarrow> p = pe \<longleftrightarrow> pat = []"
  by (auto simp: call_ok_def pat_text_empty)

lemma string_char_NUL: "cstring_ok S \<Longrightarrow> se \<le> length S \<Longrightarrow> string_char S n se = NUL \<longleftrightarrow> se \<le> n"
  by (auto simp: string_char_def char_at_ok)

text \<open>What the loop over the wildcards leaves: the rest of the pattern after them, or nothing.\<close>

definition collapsed ::
    "int \<Rightarrow> cstring \<Rightarrow> cstring \<Rightarrow> gelem list \<Rightarrow> nat \<Rightarrow> nat \<Rightarrow> nat \<Rightarrow> nat \<Rightarrow> (int + char \<times> nat \<times> nat) option \<Rightarrow> bool" where
  "collapsed flags S P pat n se p pe r \<longleftrightarrow>
     (case r of
        None \<Rightarrow> False
      | Some (Inl v) \<Rightarrow> v = match_int (star_matches flags S pat n se)
      | Some (Inr (c, n', p')) \<Rightarrow>
          p' = pe \<and> (c = CHR ''?'' \<or> c = CHR ''*'') \<and> star_matches flags S pat n se
          \<or> (\<exists>e rest q. p' = Suc q \<and> call_ok flags S P (e # rest) n' se q pe \<and> \<not> wildcard e \<and> run_ok (e # rest)
               \<and> c = char_at P q \<and> p \<le> q \<and> n \<le> n' \<and> (star_matches flags S pat n se \<longleftrightarrow> star_matches flags S (e # rest) n' se)))"

lemma collapsed_trans:
  assumes "collapsed flags S P pat' n' se p' pe r" and "star_matches flags S pat n se \<longleftrightarrow> star_matches flags S pat' n' se"
    and "p \<le> p'" and "n \<le> n'"
  shows "collapsed flags S P pat n se p pe r"
  using assms unfolding collapsed_def by (fastforce split: option.splits sum.splits prod.splits)

lemma star_AnyChar:
  assumes "n < se" and "se \<le> length S"
  shows "star_matches flags S (AnyChar # pat) n se \<longleftrightarrow> star_matches flags S pat (Suc n) se"
proof
  assume "star_matches flags S (AnyChar # pat) n se"
  then obtain i where "n \<le> i" "i < length S" "pat_matches flags S pat (Suc i) se"
    by (auto simp: star_matches_def pat_matches_Cons one_char_def)
  moreover from this have "Suc i \<le> se" using pat_matches_le by (meson Suc_leI)
  ultimately show "star_matches flags S pat (Suc n) se" by (auto simp: star_matches_def)
next
  assume "star_matches flags S pat (Suc n) se"
  then obtain i where i: "Suc n \<le> i" "i \<le> se" "pat_matches flags S pat i se" by (auto simp: star_matches_def)
  then have "pat_matches flags S (AnyChar # pat) (i - 1) se" "n \<le> i - 1" "i - 1 \<le> se"
    using assms by (auto simp: pat_matches_Cons one_char_def)
  then show "star_matches flags S (AnyChar # pat) n se" unfolding star_matches_def by blast
qed

lemma star_optional:
  assumes "\<And>i. i \<le> se \<Longrightarrow> elem_matches flags S e i i" and "se \<le> length S"
  shows "star_matches flags S (e # pat) n se \<longleftrightarrow> star_matches flags S pat n se"
  unfolding star_matches_def pat_matches_Cons
  using assms elem_matches_le [of flags S e] pat_matches_le [of flags S pat _ se] by (meson le_trans)

lemma skip_extpat_text:
  assumes "ext_call gm flags S P m op alts rest s se p0 pe"
  shows "skip_extpat P (Suc p0) pe = ext_end op alts p0"
proof -
  have "PATSCAN P (p0 + 2) pe NUL = Some (ext_end op alts p0)"
    using PATSCAN_rest [of P "p0 + 2" alts pe] ext_call_parts [OF assms] ext_call_ok(1,3) [OF assms] ext_end_eq [of op alts p0]
    by (auto simp: pat_ok_def)
  then show ?thesis by (simp add: skip_extpat_def)
qed

text \<open>Each kind of wildcard, with the loop at its first character.\<close>

lemma collapse_stop:
  assumes "call_ok flags S P (e # pat) n se p pe" and "\<not> wildcard e" and "run_ok (e # pat)"
  shows "collapsed flags S P (e # pat) n se p pe (star_collapse gm S P n se p pe flags)"
proof -
  have "star_collapse gm S P n se p pe flags = Some (Inr (char_at P p, n, Suc p))"
    using call_ok_char [OF assms(1)] elem_char_simps(3) [OF call_ok_Cons(2) [OF assms(1)] assms(2)]
    by (subst star_collapse.simps) (simp add: Let_def)
  then show ?thesis
    unfolding collapsed_def using assms by auto
qed

lemma collapse_AnyChar:
  assumes c: "call_ok flags S P (AnyChar # pat) n se p pe" and S: "cstring_ok S" and f: "shell_flags flags"
    and IH: "pat \<noteq> [] \<Longrightarrow> n < se \<Longrightarrow> collapsed flags S P pat (Suc n) se (Suc p) pe (star_collapse gm S P (Suc n) se (Suc p) pe flags)"
  shows "collapsed flags S P (AnyChar # pat) n se p pe (star_collapse gm S P n se p pe flags)"
proof -
  note c' = call_ok_Cons [OF c]
  have "\<not> (ext_on flags \<and> char_at P (Suc p) = CHR ''('')"
    using call_ok_start [OF c'(3)] by auto
  then have loop: "star_collapse gm S P n se p pe flags =
      (if se \<le> n then Some (Inl FNM_NOMATCH) else if Suc p = pe then Some (Inr (CHR ''?'', Suc n, Suc p))
       else star_collapse gm S P (Suc n) se (Suc p) pe flags)"
    using call_ok_char [OF c] shell_flagsD(1) [OF f] string_char_NUL [OF S c'(6), of n]
    by (subst star_collapse.simps) (auto simp: Let_def)
  show ?thesis
  proof (cases "n < se")
    case False
    then have "\<not> star_matches flags S (AnyChar # pat) n se"
      using c'(6) pat_matches_le [of flags S pat _ se] by (fastforce simp: star_matches_def pat_matches_Cons one_char_def)
    with False loop show ?thesis by (simp add: collapsed_def match_int_def)
  next
    case True
    note eq = star_AnyChar [OF True c'(6), of flags pat]
    show ?thesis
    proof (cases "pat = []")
      case True
      then have "Suc p = pe" using call_ok_end [OF c'(3)] by simp
      moreover have "star_matches flags S [] (Suc n) se" using \<open>n < se\<close> by (auto simp: star_matches_def)
      ultimately show ?thesis using True eq loop \<open>n < se\<close> by (simp add: collapsed_def)
    next
      case False
      then have "Suc p \<noteq> pe" using call_ok_end [OF c'(3)] by simp
      then have "star_collapse gm S P n se p pe flags = star_collapse gm S P (Suc n) se (Suc p) pe flags"
        using loop True by simp
      then show ?thesis
        using collapsed_trans [OF IH [OF False True] eq] by simp
    qed
  qed
qed

lemma collapse_AnyString:
  assumes c: "call_ok flags S P (AnyString # pat) n se p pe" and f: "shell_flags flags"
    and IH: "pat \<noteq> [] \<Longrightarrow> collapsed flags S P pat n se (Suc p) pe (star_collapse gm S P n se (Suc p) pe flags)"
  shows "collapsed flags S P (AnyString # pat) n se p pe (star_collapse gm S P n se p pe flags)"
proof -
  note c' = call_ok_Cons [OF c]
  have "\<not> (ext_on flags \<and> char_at P (Suc p) = CHR ''('')"
    using call_ok_start [OF c'(3)] by auto
  then have loop: "star_collapse gm S P n se p pe flags =
      (if Suc p = pe then Some (Inr (CHR ''*'', n, Suc p)) else star_collapse gm S P n se (Suc p) pe flags)"
    using call_ok_char [OF c] shell_flagsD(1) [OF f] by (subst star_collapse.simps) (auto simp: Let_def)
  have eq: "star_matches flags S (AnyString # pat) n se \<longleftrightarrow> star_matches flags S pat n se"
    using c'(5,6) by (intro star_optional) auto
  show ?thesis
  proof (cases "pat = []")
    case True
    then have "Suc p = pe" using call_ok_end [OF c'(3)] by simp
    moreover have "star_matches flags S [] n se" using c'(5) by (auto simp: star_matches_def)
    ultimately show ?thesis using True eq loop by (simp add: collapsed_def)
  next
    case False
    then have "Suc p \<noteq> pe" using call_ok_end [OF c'(3)] by simp
    then show ?thesis
      using collapsed_trans [OF IH [OF False] eq] loop by simp
  qed
qed

lemma collapse_Ext:
  assumes x: "ext_call gm flags S P m op alts pat n se p pe" and op: "op = ZeroOrOne \<or> op = ZeroOrMore"
    and IH: "pat \<noteq> [] \<Longrightarrow> collapsed flags S P pat n se (ext_end op alts p) pe (star_collapse gm S P n se (ext_end op alts p) pe flags)"
  shows "collapsed flags S P (Ext op alts # pat) n se p pe (star_collapse gm S P n se p pe flags)"
proof -
  have c: "call_ok flags S P (Ext op alts # pat) n se p pe" using x by (simp add: ext_call_def)
  note c' = call_ok_Cons [OF c]
  define hit where "hit \<longleftrightarrow> (if op = ZeroOrOne then pat_matches flags S (Ext op alts # pat) n se
      else \<exists>i\<in>{n..<se}. pat_matches flags S (Ext op alts # pat) i se)"
  have ext: "EXTMATCH gm S P (xop_char op) i se (Suc p) pe flags = Some (match_int (pat_matches flags S (Ext op alts # pat) i se))"
    if "n \<le> i" "i \<le> se" for i
  proof (rule EXTMATCH_text)
    show "ext_call gm flags S P m op alts pat i se p pe"
      using x that unfolding ext_call_def by (auto intro: call_ok_move)
  qed
  have places: "for_places (\<lambda>newn. map_option (\<lambda>r. r = 0) (EXTMATCH gm S P (xop_char op) newn se (Suc p) pe flags)) [n..<se]
      = Some (\<exists>i\<in>set [n..<se]. pat_matches flags S (Ext op alts # pat) i se)"
    using ext by (intro for_places_eq) auto
  note here = ext_call_parts(1,2) [OF x] ext_call_ok(1) [OF x] skip_extpat_text [OF x] shell_flagsD(1) [OF ext_call_ok(9) [OF x]]
  have loop: "star_collapse gm S P n se p pe flags =
      (if hit then Some (Inl 0) else if ext_end op alts p = pe then Some (Inr (xop_char op, n, pe))
       else star_collapse gm S P n se (ext_end op alts p) pe flags)"
  proof (cases "op = ZeroOrOne")
    case True
    then show ?thesis
      using ext [of n] c'(5) here by (subst star_collapse.simps) (simp add: hit_def Let_def)
  next
    case False
    with op have "op = ZeroOrMore" by simp
    with places here show ?thesis
      by (subst star_collapse.simps) (simp add: hit_def Let_def)
  qed
  have hit: "hit \<Longrightarrow> star_matches flags S (Ext op alts # pat) n se"
    using c'(5) by (force simp: hit_def star_matches_def split: if_splits)
  have eq: "star_matches flags S (Ext op alts # pat) n se \<longleftrightarrow> star_matches flags S pat n se"
    using c'(6) op by (intro star_optional) (auto simp: elem_matches_Ext)
  show ?thesis
  proof (cases "hit")
    case True
    then show ?thesis using loop hit by (simp add: collapsed_def match_int_def)
  next
    case miss: False
    show ?thesis
    proof (cases "pat = []")
      case True
      then have "ext_end op alts p = pe" using call_ok_end [OF c'(3)] by (simp add: ext_end_def)
      moreover have "star_matches flags S [] n se" using c'(5) by (auto simp: star_matches_def)
      ultimately show ?thesis using True eq loop miss op by (auto simp: collapsed_def)
    next
      case False
      then have "ext_end op alts p \<noteq> pe" using call_ok_end [OF c'(3)] by (simp add: ext_end_def)
      then have "star_collapse gm S P n se p pe flags = star_collapse gm S P n se (ext_end op alts p) pe flags"
        using loop miss by simp
      then show ?thesis
        using collapsed_trans [OF IH [OF False] eq] by (simp add: ext_end_def)
    qed
  qed
qed

lemma star_collapse_text:
  assumes "call_ok flags S P pat n se p pe" and "pat \<noteq> []" and "run_ok pat" and "cstring_ok S" and "shell_flags flags"
    and "gm_correct gm flags S P m" and "(pe - p) + (se - n) \<le> m"
  shows "collapsed flags S P pat n se p pe (star_collapse gm S P n se p pe flags)"
  using assms(1,2,3,7)
proof (induction pat arbitrary: n p)
  case (Cons e pat)
  note c' = call_ok_Cons [OF Cons.prems(1)]
  show ?case
  proof (cases "wildcard e")
    case False
    then show ?thesis using Cons.prems by (intro collapse_stop)
  next
    case True
    then consider "e = AnyChar" | "e = AnyString" | op alts where "e = Ext op alts" "op = ZeroOrOne \<or> op = ZeroOrMore"
      by (cases e) (auto simp: wildcard_def)
    then show ?thesis
    proof cases
      case 1
      have "call_ok flags S P pat (Suc n) se (Suc p) pe" if "n < se"
        using that call_ok_move [OF c'(3), of "Suc n"] 1 by simp
      then show ?thesis
        using Cons 1 assms(4,5) by (auto intro!: collapse_AnyChar)
    next
      case 2
      then show ?thesis
        using Cons c'(3) assms(5) by (auto intro!: collapse_AnyString)
    next
      case 3
      have "ext_call gm flags S P m op alts pat n se p pe"
        using Cons.prems 3(1) assms(5,6) by (simp add: ext_call_def)
      moreover have "call_ok flags S P pat n se (ext_end op alts p) pe" "run_ok pat"
        using c'(3) 3 Cons.prems(3) by (auto simp: ext_end_def)
      moreover have "pe - ext_end op alts p + (se - n) \<le> m"
        using Cons.prems(4) by (simp add: ext_end_def)
      ultimately show ?thesis
        using Cons.IH [of n "ext_end op alts p"] 3 by (auto intro!: collapse_Ext)
    qed
  qed
qed simp

section \<open>Elements that match one character\<close>

definition single :: "gelem \<Rightarrow> bool" where
  "single e \<longleftrightarrow> (case e of AnyString \<Rightarrow> False | Ext op alts \<Rightarrow> False | _ \<Rightarrow> True)"

definition elem_test :: "int \<Rightarrow> gelem \<Rightarrow> char \<Rightarrow> bool" where
  "elem_test flags e d \<longleftrightarrow>
     (case e of
        Plain c \<Rightarrow> FOLD flags d = FOLD flags c
      | Quoted c \<Rightarrow> FOLD flags d = FOLD flags c
      | Bracket neg items \<Rightarrow> (\<exists>it\<in>set items. item_matches flags d it) \<noteq> neg
      | _ \<Rightarrow> True)"

lemma single_matches: "single e \<Longrightarrow> elem_matches flags S e = one_char S (elem_test flags e)"
  by (cases e) (auto simp: single_def elem_test_def one_char_def fun_eq_iff)

lemma first_star_single: "single e \<Longrightarrow> first_star (e # pat) = map_option (\<lambda>(pre, post). (e # pre, post)) (first_star pat)"
  by (cases e) (auto simp: single_def)

lemma pat_matches_append: "pat_matches flags S (xs @ ys) i j \<longleftrightarrow> (\<exists>k. pat_matches flags S xs i k \<and> pat_matches flags S ys k j)"
  by (induction xs arbitrary: i) (auto simp: pat_matches_Cons)

lemma first_star_Some:
  "first_star pat = Some (pre, post) \<Longrightarrow> pat = pre @ AnyString # post \<and> list_all single pre"
proof (induction pat arbitrary: pre rule: first_star.induct)
qed (auto simp: single_def)

lemma single_length: "list_all single pre \<Longrightarrow> pat_matches flags S pre i j \<Longrightarrow> j = i + length pre"
  by (induction pre arbitrary: i) (fastforce simp: pat_matches_Cons single_matches one_char_def)+

lemma gm_result_single:
  assumes "single e" and "se \<le> length S"
  shows "gm_result flags S ends (e # pat) n se p =
         (if n < se \<and> elem_test flags e (S ! n) then gm_result flags S ends pat (Suc n) se (p + length (elem_text e))
          else (FNM_NOMATCH, None))"
proof -
  have one: "pat_matches flags S (e # xs) n j \<longleftrightarrow> n < length S \<and> elem_test flags e (S ! n) \<and> pat_matches flags S xs (Suc n) j" for xs j
    using assms(1) by (auto simp: pat_matches_Cons single_matches one_char_def)
  show ?thesis
  proof (cases "if ends then first_star pat else None")
    case None
    then have "(if ends then first_star (e # pat) else None) = None"
      using first_star_single [OF assms(1)] by (auto split: if_splits)
    moreover have "pat_matches flags S pat (Suc n) se \<Longrightarrow> n < length S \<Longrightarrow> n < se"
      using pat_matches_le [of flags S pat "Suc n" se] by simp
    ultimately show ?thesis
      using None assms(2) by (auto simp: gm_result_def one match_int_def)
  next
    case (Some x)
    obtain pre post where x: "x = (pre, post)" by (cases x)
    with Some have "(if ends then first_star (e # pat) else None) = Some (e # pre, post)"
      using first_star_single [OF assms(1)] by (auto split: if_splits)
    then show ?thesis
      using Some x assms(2) by (auto simp: gm_result_def one add.assoc)
  qed
qed

section \<open>The search after a star\<close>

definition tried :: "int \<Rightarrow> cstring \<Rightarrow> gelem list \<Rightarrow> nat \<Rightarrow> nat \<Rightarrow> nat \<Rightarrow> bool" where
  "tried flags S pat se q i \<longleftrightarrow> fst (gm_result flags S True pat i se q) = 0"

lemma star_search_text:
  assumes c: "call_ok flags S P (e # rest) n se q pe" and "\<not> wildcard e" and "shell_flags flags"
    and gm: "gm_correct gm flags S P m" and m: "(pe - q) + (se - n) < m" and "set is \<subseteq> {n..<se}"
    and c1: "c1 = FOLD flags (if elem_char e = BSLASH then char_at P (Suc q) else elem_char e)"
  shows "star_search gm S P (elem_char e) c1 se q pe flags is =
         Some (map_option (\<lambda>i. snd (gm_result flags S True (e # rest) i se q)) (find (tried flags S (e # rest) se q) is))"
  using assms(6)
proof (induction "is")
  case (Cons i "is")
  note c' = call_ok_Cons [OF c]
  have call: "gm i i se q pe True flags = Some (gm_result flags S True (e # rest) i se q)"
    using Cons.prems m by (intro gm_correctD [OF gm] call_ok_move [OF c]) auto
  have skip: "\<not> tried flags S (e # rest) se q i" if d: "e = Plain d \<or> e = Quoted d" "FOLD flags (S ! i) \<noteq> FOLD flags d" for d
    using d Cons.prems c'(6) gm_result_single [of e se S flags True rest i q]
    by (auto simp: tried_def single_def elem_test_def FNM_NOMATCH_def)
  define filtered where "filtered \<longleftrightarrow>
      \<not> ext_on flags \<and> elem_char e \<noteq> CHR ''['' \<and> FOLD flags (char_at S i) \<noteq> c1
      \<or> ext_on flags \<and> char_at P (q + 1) \<noteq> CHR ''('' \<and> char_at P q \<notin> set ''?*+@!'' \<and> elem_char e \<noteq> CHR ''[''
        \<and> FOLD flags (char_at S i) \<noteq> c1"
  have filtered: "\<not> tried flags S (e # rest) se q i" if "filtered"
  proof (cases e)
    case (Plain d)
    with that c'(2,6) c1 Cons.prems show ?thesis
      by (intro skip [of d]) (auto simp: filtered_def plain_ok_def char_at_def)
  next
    case (Quoted d)
    with that c'(1,2,6) c1 Cons.prems show ?thesis
      by (intro skip [of d]) (auto simp: filtered_def char_at_def holds_at_Cons holds_at.simps(2) split: if_splits)
  next
    case (Ext op alts)
    then have "ext_on flags" "char_at P (q + 1) = CHR ''(''"
      using c'(1,2) xop_char_simps(2) [of op] by (auto simp: elem_ok_Ext elem_text_Ext holds_at_Cons)
    with that show ?thesis by (simp add: filtered_def)
  qed (use that assms(2) in \<open>auto simp: filtered_def wildcard_def\<close>)
  have "star_search gm S P (elem_char e) c1 se q pe flags (i # is) =
      (if filtered then star_search gm S P (elem_char e) c1 se q pe flags is
       else if tried flags S (e # rest) se q i then Some (Some (snd (gm_result flags S True (e # rest) i se q)))
       else star_search gm S P (elem_char e) c1 se q pe flags is)"
    using call assms(3) by (auto simp: filtered_def tried_def split: prod.split)
  with filtered Cons show ?case by auto
qed simp

lemma stop_not_nullable:
  assumes "\<not> wildcard e" and "run_ok (e # rest)"
  shows "\<not> nullable e"
  using assms by (cases e) (auto simp: wildcard_def split: if_splits)

lemma memchr_pos_NUL: "cstring_ok S \<Longrightarrow> n \<le> se \<Longrightarrow> se \<le> length S \<Longrightarrow> memchr_pos S NUL n se = se"
proof -
  assume a: "cstring_ok S" "n \<le> se" "se \<le> length S"
  then have tw: "takeWhile (\<lambda>i. char_at S i \<noteq> NUL) [n..<se] = [n..<se]"
    by (subst takeWhile_eq_all_conv) (auto simp: char_at_ok)
  show ?thesis unfolding memchr_pos_def tw using a by simp
qed

lemma find_upt_Some: "find P [n..<k] = Some i \<Longrightarrow> n \<le> i \<and> i < k \<and> P i \<and> (\<forall>j. n \<le> j \<longrightarrow> j < i \<longrightarrow> \<not> P j)"
proof -
  assume "find P [n..<k] = Some i"
  then obtain a where a: "a < length [n..<k]" "P ([n..<k] ! a)" "i = [n..<k] ! a" "\<forall>b<a. \<not> P ([n..<k] ! b)"
    by (auto simp: find_Some_iff)
  then have i: "i = n + a" by simp
  have "\<not> P j" if "n \<le> j" "j < i" for j
    using a(1) a(4) [rule_format, of "j - n"] that i by auto
  with a i show ?thesis by auto
qed

text \<open>The place where the search stops, or that there is none, tells whether the rest matches.\<close>

lemma tried_matches:
  assumes "pat_matches flags S (e # rest) i se" and "i \<le> se" and "se \<le> length S"
  shows "tried flags S (e # rest) se q i"
proof (cases "first_star (e # rest)")
  case None
  then show ?thesis using assms(1) by (simp add: tried_def gm_result_def match_int_def)
next
  case (Some x)
  obtain pre post where x: "x = (pre, post)" by (cases x)
  then have split: "e # rest = pre @ AnyString # post" "list_all single pre"
    using first_star_Some Some by blast+
  then obtain k where k: "pat_matches flags S pre i k" "pat_matches flags S (AnyString # post) k se"
    using assms(1) by (auto simp: pat_matches_append)
  then have "k = i + length pre" using single_length split(2) by blast
  moreover have "k \<le> se"
    using k assms(2,3) pat_matches_le(2) [OF k(1)] pat_matches_le(1) [OF k(2)] by simp
  ultimately show ?thesis using k(1) Some x by (simp add: tried_def gm_result_def)
qed

lemma call_ok_append:
  "call_ok flags S P (xs @ ys) n se p pe \<Longrightarrow> call_ok flags S P ys n se (p + length (pat_text xs)) pe"
proof (induction xs arbitrary: p)
  case (Cons e xs)
  then have "call_ok flags S P (xs @ ys) n se (p + length (elem_text e)) pe"
    using call_ok_Cons(3) [of flags S P e "xs @ ys"] by simp
  from Cons.IH [OF this] show ?case by (simp add: add.assoc)
qed simp

lemma star_rest_text:
  assumes c: "call_ok flags S P (e # rest) n se q pe" and e: "\<not> wildcard e" "run_ok (e # rest)"
    and "shell_flags flags" and "cstring_ok S" and gm: "gm_correct gm flags S P m" and m: "(pe - q) + (se - n) < m"
  shows "star_rest gm S P string (char_at P q) n se (Suc q) pe flags = Some (match_int (star_matches flags S (e # rest) n se), None)"
proof -
  note c' = call_ok_Cons [OF c] and char = call_ok_char [OF c] and flags = shell_flagsD [OF assms(4)]
  define c1 where "c1 = FOLD flags (if elem_char e = BSLASH then char_at P (Suc q) else elem_char e)"
  define found where "found = find (tried flags S (e # rest) se q) [n..<se]"
  have "\<not> (ext_on flags \<and> elem_char e = CHR ''!'')"
    using c'(2) e by (cases e) (auto simp: plain_ok_def wildcard_def split: if_splits xop.splits dest: arg_cong [of _ _ xop_char])
  moreover have search: "star_search gm S P (elem_char e) c1 se q pe flags [n..<se] =
      Some (map_option (\<lambda>i. snd (gm_result flags S True (e # rest) i se q)) found)"
    unfolding found_def using assms by (intro star_search_text [OF c e(1) assms(4) gm m]) (auto simp: c1_def)
  ultimately have step: "star_rest gm S P string (char_at P q) n se (Suc q) pe flags =
      (case found of None \<Rightarrow> Some (FNM_NOMATCH, None)
       | Some i \<Rightarrow> (case snd (gm_result flags S True (e # rest) i se q) of None \<Rightarrow> Some (0, None)
                    | Some (p, n) \<Rightarrow> gm string n se p pe False flags))"
    using elem_char_simps(1,3) [OF c'(2)] e(1) flags memchr_pos_NUL [OF assms(5) c'(5,6)] char
    by (auto simp: star_rest_def c1_def split: option.split)
  have place: "n \<le> i \<and> i < se \<and> tried flags S (e # rest) se q i"
    if i: "n \<le> i" "i \<le> se" "pat_matches flags S (e # rest) i se" for i
  proof -
    obtain k where k: "elem_matches flags S e i k" "pat_matches flags S rest k se" using i(3) by (auto simp: pat_matches_Cons)
    moreover have "i < k" using not_nullable [OF stop_not_nullable [OF e] k(1)] i(2) c'(6) by simp
    ultimately have "i < se"
      using elem_matches_le [OF k(1)] pat_matches_le(1) [OF k(2)] i(2) c'(6) by simp
    with i tried_matches [OF i(3,2) c'(6)] show ?thesis by simp
  qed
  show ?thesis
  proof (cases found)
    case None
    then have "\<not> star_matches flags S (e # rest) n se"
      using place by (auto simp: found_def find_None_iff star_matches_def)
    with None step show ?thesis by (simp add: match_int_def)
  next
    case (Some i)
    then have i: "n \<le> i" "i < se" "tried flags S (e # rest) se q i" "\<And>j. n \<le> j \<Longrightarrow> j < i \<Longrightarrow> \<not> tried flags S (e # rest) se q j"
      using find_upt_Some [of _ n se i] by (auto simp: found_def)
    show ?thesis
    proof (cases "first_star (e # rest)")
      case None
      then have "star_matches flags S (e # rest) n se"
        using i unfolding star_matches_def by (auto simp: tried_def gm_result_def less_imp_le)
      with None Some step show ?thesis by (simp add: gm_result_def match_int_def)
    next
      case (Some x)
      obtain pre post where x: "x = (pre, post)" by (cases x)
      then have split: "e # rest = pre @ AnyString # post" "list_all single pre"
        using first_star_Some Some by blast+
      define k where "k = i + length pre"
      have pre: "pat_matches flags S pre i k" "k \<le> se"
        and res: "snd (gm_result flags S True (e # rest) i se q) = Some (q + length (pat_text pre), k)"
        using i(3) Some x by (auto simp: tried_def gm_result_def k_def FNM_NOMATCH_def split: if_splits)
      have "call_ok flags S P (AnyString # post) n se (q + length (pat_text pre)) pe"
        using call_ok_append c split(1) by metis
      then have "gm string k se (q + length (pat_text pre)) pe False flags =
          Some (match_int (pat_matches flags S (AnyString # post) k se), None)"
        using gm_correctD [OF gm call_ok_move [of flags S P "AnyString # post" n se _ pe k]] pre(2) m i(1)
        by (simp add: gm_result_def k_def)
      moreover have "pat_matches flags S (AnyString # post) k se \<longleftrightarrow> star_matches flags S (e # rest) n se"
      proof
        assume "pat_matches flags S (AnyString # post) k se"
        with pre(1) have "pat_matches flags S (e # rest) i se"
          unfolding split(1) pat_matches_append by blast
        with i show "star_matches flags S (e # rest) n se" by (auto simp: star_matches_def less_imp_le)
      next
        assume "star_matches flags S (e # rest) n se"
        then obtain j where j: "n \<le> j" "j \<le> se" "pat_matches flags S (e # rest) j se" by (auto simp: star_matches_def)
        then have "i \<le> j" using place [OF j] i(4) by (meson not_le_imp_less)
        from j(3) obtain l where l: "pat_matches flags S pre j l" "pat_matches flags S (AnyString # post) l se"
          unfolding split(1) pat_matches_append by blast
        then have "l = j + length pre" using single_length split(2) by blast
        with \<open>i \<le> j\<close> have "k \<le> l" by (simp add: k_def)
        with l(2) show "pat_matches flags S (AnyString # post) k se"
          unfolding pat_matches_Cons by (auto intro: le_trans)
      qed
      ultimately show ?thesis using \<open>found = Some i\<close> step res by simp
    qed
  qed
qed

section \<open>The matcher decides the meaning\<close>

lemma dot_blocked_False: "shell_flags flags \<Longrightarrow> dot_blocked S flags string n c = Some False"
  by (simp add: dot_blocked_def shell_flags_def)

lemma gmatch_star_text:
  assumes c: "call_ok flags S P (AnyString # pat) n se p pe" and f: "shell_flags flags" and S: "cstring_ok S"
    and gm: "gm_correct gm flags S P m" and m: "(pe - p) + (se - n) \<le> m"
  shows "gmatch_star gm S P string n se (Suc p) pe ends flags = Some (gm_result flags S ends (AnyString # pat) n se p)"
proof (cases ends)
  case True
  then show ?thesis using call_ok_Cons(5) [OF c] by (simp add: gmatch_star_def gm_result_def)
next
  case False
  note c' = call_ok_Cons [OF c]
  then have c2: "call_ok flags S P pat n se (Suc p) pe" by simp
  have ok: "run_ok pat" using c by (simp add: call_ok_def pat_ok_def)
  have res: "gm_result flags S ends (AnyString # pat) n se p = (match_int (star_matches flags S pat n se), None)"
    using False star_matches_eq [OF c'(6)] by (simp add: gm_result_def)
  show ?thesis
  proof (cases "pat = []")
    case True
    then have "Suc p = pe" using call_ok_end [OF c2] by simp
    moreover have "star_matches flags S pat n se" using True c'(5) by (auto simp: star_matches_def)
    ultimately show ?thesis
      using False res by (simp add: gmatch_star_def dot_blocked_False [OF f] match_int_def)
  next
    case ne: False
    then have "Suc p \<noteq> pe" using call_ok_end [OF c2] by simp
    have "(pe - Suc p) + (se - n) \<le> m" using m by linarith
    then have col: "collapsed flags S P pat n se (Suc p) pe (star_collapse gm S P n se (Suc p) pe flags)"
      using star_collapse_text [OF c2 ne ok S f gm] by simp
    then obtain r where r: "star_collapse gm S P n se (Suc p) pe flags = Some r"
      by (auto simp: collapsed_def split: option.splits)
    have step: "gmatch_star gm S P string n se (Suc p) pe ends flags =
        (case r of Inl v \<Rightarrow> Some (v, None) | Inr (c, n, p) \<Rightarrow> star_rest gm S P string c n se p pe flags)"
      using False r \<open>Suc p \<noteq> pe\<close> by (simp add: gmatch_star_def dot_blocked_False [OF f])
    show ?thesis
    proof (cases r)
      case (Inl v)
      then show ?thesis using step res col r by (simp add: collapsed_def)
    next
      case (Inr x)
      obtain c1 n1 p1 where x: "x = (c1, n1, p1)" by (cases x)
      with col r Inr consider "p1 = pe" "c1 = CHR ''?'' \<or> c1 = CHR ''*''" "star_matches flags S pat n se"
        | e rest q where "p1 = Suc q" "call_ok flags S P (e # rest) n1 se q pe" "\<not> wildcard e" "run_ok (e # rest)"
            "c1 = char_at P q" "Suc p \<le> q" "n \<le> n1" "star_matches flags S pat n se \<longleftrightarrow> star_matches flags S (e # rest) n1 se"
        by (auto simp: collapsed_def)
      then show ?thesis
      proof cases
        case 1
        then show ?thesis using step res Inr x by (auto simp: star_rest_def match_int_def)
      next
        case 2
        have "(pe - q) + (se - n1) < m" using m 2(6,7) call_ok_Cons(4) [OF 2(2)] by linarith
        then have "star_rest gm S P string c1 n1 se p1 pe flags = Some (match_int (star_matches flags S (e # rest) n1 se), None)"
          unfolding 2(1,5) using 2 f S gm by (intro star_rest_text)
        with step res Inr x 2(8) show ?thesis by simp
      qed
    qed
  qed
qed

lemma gmatch_body_single:
  assumes c: "call_ok flags S P (e # pat) n se p pe" and e: "single e" and f: "shell_flags flags" and S: "cstring_ok S"
    and gm: "gm_correct gm flags S P m" and m: "(pe - p) + (se - n) \<le> m"
  shows "gmatch_body gm ar S P string n se p pe ends flags = Some (gm_result flags S ends (e # pat) n se p)"
proof -
  note c' = call_ok_Cons [OF c] and char = call_ok_char [OF c] and flags = shell_flagsD [OF f]
  have next_ok: "call_ok flags S P pat (Suc n) se (p + length (elem_text e)) pe" if "n < se"
    using call_ok_move [OF c'(3)] that by simp
  have "gm string (Suc n) se (p + length (elem_text e)) pe ends flags =
      Some (gm_result flags S ends pat (Suc n) se (p + length (elem_text e)))" if "n < se"
    using m that elem_text_nonempty [of e] by (intro gm_correctD [OF gm next_ok]) (cases "elem_text e", auto)
  note step = this
  have sc: "string_char S n se = (if n < se then S ! n else NUL)"
    using c'(6) by (simp add: string_char_def char_at_def)
  have nul: "n < se \<Longrightarrow> S ! n \<noteq> NUL"
    using S c'(6) nth_mem [of n S] unfolding cstring_ok_def by fastforce
  have paren: "ext_on flags \<Longrightarrow> length (elem_text e) = 1 \<Longrightarrow> char_at P (Suc p) \<noteq> CHR ''(''"
    using call_ok_start [OF c'(3)] by simp
  note res = gm_result_single [OF e c'(6), of flags ends pat n p]
  show ?thesis
  proof (cases e)
    case (Plain d)
    then have d: "char_at P p = d" "plain_ok (ext_on flags) d" using char c'(2) by simp_all
    then have "gmatch_body gm ar S P string n se p pe ends flags =
        (if FOLD flags d = FOLD flags (string_char S n se) then gm string (Suc n) se (Suc p) pe ends flags else Some (FNM_NOMATCH, None))"
    proof -
      have "\<not> (ext_on flags \<and> char_at P (Suc p) = CHR ''('' \<and> FOLD flags d \<in> set ''+*?@!'')"
        using d(2) by (auto simp: plain_ok_def)
      moreover have "d \<noteq> CHR ''?''" "d \<noteq> BSLASH" "d \<noteq> CHR ''*''" "d \<noteq> CHR ''[''"
        using d(2) by (auto simp: plain_ok_def)
      ultimately show ?thesis
        unfolding gmatch_body_def Let_def using c'(4) d(1)
        by (cases "ext_on flags \<and> char_at P (Suc p) = CHR ''(''") ((auto simp del: list.set insert_iff split del: if_split)[1]; simp)+
    qed
    moreover have "elem_test flags e (S ! n) \<longleftrightarrow> FOLD flags d = FOLD flags (S ! n)" "d \<noteq> NUL" "FOLD flags NUL = NUL"
      using Plain d(2) by (auto simp: elem_test_def plain_ok_def)
    ultimately show ?thesis
      using Plain step res sc by (cases "n < se") simp_all
  next
    case (Quoted d)
    then have d: "char_at P p = BSLASH" "char_at P (Suc p) = d" "d \<noteq> NUL" "Suc (Suc p) \<le> pe"
      using char c'(1,2,3) by (auto simp: holds_at_Cons call_ok_def)
    then have "gmatch_body gm ar S P string n se p pe ends flags =
        (if FOLD flags (string_char S n se) = FOLD flags d then gm string (Suc n) se (Suc (Suc p)) pe ends flags else Some (FNM_NOMATCH, None))"
      using flags by (auto simp: gmatch_body_def gmatch_escape_def Let_def)
    moreover have "elem_test flags e (S ! n) \<longleftrightarrow> FOLD flags (S ! n) = FOLD flags d" "FOLD flags NUL = NUL"
      using Quoted by (auto simp: elem_test_def)
    ultimately show ?thesis
      using Quoted d(3) step res sc by (cases "n < se") simp_all
  next
    case AnyChar
    then have "gmatch_body gm ar S P string n se p pe ends flags =
        (if string_char S n se = NUL then Some (FNM_NOMATCH, None) else gm string (Suc n) se (Suc p) pe ends flags)"
      using c'(4) char paren flags by (auto simp: gmatch_body_def Let_def dot_blocked_False [OF f])
    then show ?thesis
      using AnyChar step res sc nul by (auto simp: elem_test_def)
  next
    case (Bracket neg items)
    have "BRACKMATCH ar P (Suc p) (S ! n) flags =
        Some (if elem_test flags e (S ! n) then Some (p + length (elem_text e)) else None)"
      using BRACKMATCH_text [of P p neg items flags ar "S ! n"] Bracket c'(1,2) f by (simp add: elem_test_def)
    moreover have "gmatch_body gm ar S P string n se p pe ends flags =
        (if n < se then BRACKMATCH ar P (Suc p) (S ! n) flags \<bind> (\<lambda>q. case q of None \<Rightarrow> Some (FNM_NOMATCH, None)
           | Some p \<Rightarrow> gm string (Suc n) se p pe ends flags) else Some (FNM_NOMATCH, None))"
      using Bracket c'(4,5) char nul sc by (auto simp: gmatch_body_def Let_def dot_blocked_False [OF f])
    ultimately show ?thesis using step res by auto
  qed (use e in \<open>auto simp: single_def\<close>)
qed

lemma gmatch_loop_correct:
  assumes f: "shell_flags flags" and S: "cstring_ok S"
  shows "gm_correct (gmatch_loop k ar S P) flags S P k"
proof (induction k)
  case (Suc k)
  have "gmatch_body (gmatch_loop k ar S P) ar S P string n se p pe ends flags = Some (gm_result flags S ends pat n se p)"
    if c: "call_ok flags S P pat n se p pe" and m: "(pe - p) + (se - n) < Suc k" for pat string n se p pe ends
  proof (cases pat)
    case Nil
    then show ?thesis
      using c shell_flagsD(5) [OF f] by (auto simp: gmatch_body_def gm_result_def call_ok_def)
  next
    case (Cons e rest)
    have m': "(pe - p) + (se - n) \<le> k" using m by simp
    note ce = c [unfolded Cons] and char = call_ok_char [OF c [unfolded Cons]]
    consider "single e" | "e = AnyString" | op alts where "e = Ext op alts" by (cases e) (auto simp: single_def)
    then show ?thesis
    proof cases
      case 1
      then show ?thesis unfolding Cons using gmatch_body_single [OF ce 1 f S Suc m'] by simp
    next
      case 2
      then have "\<not> (ext_on flags \<and> char_at P (Suc p) = CHR ''('')"
        using call_ok_start [OF call_ok_Cons(3) [OF ce]] by auto
      then have "gmatch_body (gmatch_loop k ar S P) ar S P string n se p pe ends flags =
          gmatch_star (gmatch_loop k ar S P) S P string n se (Suc p) pe ends flags"
        using 2 call_ok_Cons(4) [OF ce] char by (auto simp: gmatch_body_def Let_def)
      then show ?thesis unfolding Cons using gmatch_star_text [OF ce [unfolded 2] f S Suc m'] 2 by simp
    next
      case 3
      then have x: "ext_call (gmatch_loop k ar S P) flags S P k op alts rest n se p pe"
        using ce f Suc m' by (simp add: ext_call_def)
      have "FOLD flags (xop_char op) = xop_char op" "xop_char op \<in> set ''+*?@!''"
        by (cases op; simp add: FOLD_def TOLOWER_def ISUPPER_def)+
      then have "gmatch_body (gmatch_loop k ar S P) ar S P string n se p pe ends flags =
          map_option (\<lambda>r. (r, None)) (EXTMATCH (gmatch_loop k ar S P) S P (xop_char op) n se (Suc p) pe flags)"
        using call_ok_Cons(4) [OF ce] ext_call_parts(1,2) [OF x] ext_call_ok(1) [OF x] f
        by (simp add: gmatch_body_def Let_def)
      then show ?thesis
        unfolding Cons 3 using EXTMATCH_text [OF x] by (simp add: gm_result_def)
    qed
  qed
  then show ?case unfolding gm_correct_def by auto
qed (simp add: gm_correct_def)

lemma strmatch_text:
  assumes "shell_flags flags" and "cstring_ok S" and "pat_ok (has_flag flags FNM_EXTMATCH) pat"
  shows "strmatch ar (Some (pat_text pat)) (Some S) flags = Some (match_int (pat_matches flags S pat 0 (length S)))"
proof -
  let ?P = "pat_text pat"
  have "call_ok flags S ?P pat 0 (length S) 0 (length ?P)"
    using assms(3) holds_at_self by (simp add: call_ok_def char_at_end)
  then have "GMATCH ar S ?P 0 (length S) 0 (length ?P) False flags = Some (gm_result flags S False pat 0 (length S) 0)"
    unfolding GMATCH_def using assms(1,2) by (intro gm_correctD [OF gmatch_loop_correct]) auto
  then show ?thesis
    by (simp add: strmatch_def xstrmatch_def internal_strmatch_def gm_result_def)
qed

text \<open>
  C4. Matching a string against the text of a pattern decides what the pattern means: \<^verbatim>\<open>strmatch\<close>
  returns 0 if the whole string matches and \<^verbatim>\<open>FNM_NOMATCH\<close> otherwise, and it always returns. This covers quoting,
  \<^verbatim>\<open>?\<close>, \<^verbatim>\<open>*\<close>, bracket expressions with ranges, classes, equivalence classes and collating symbols, case folding
  and the extended patterns, nested in any way. The pattern must not have an element after a \<^verbatim>\<open>*\<close> that
  may match the empty string (\<open>star_ok\<close>), and a bracket expression must not end in an equivalence class.
\<close>

theorem strmatch_meaning:
  assumes "shell_flags flags" and "cstring_ok S" and "pat_ok (has_flag flags FNM_EXTMATCH) pat"
  shows "strmatch ar (Some (pat_text pat)) (Some S) flags = Some (if pat_matches flags S pat 0 (length S) then 0 else FNM_NOMATCH)"
  using strmatch_text [OF assms] by (simp add: match_int_def)

lemma strmatch_meaning_witness:
  "shell_flags FNM_EXTMATCH \<and> cstring_ok ''a.h''
   \<and> pat_ok True [AnyString, Plain (CHR ''.''), Ext ExactlyOne [[Plain (CHR ''c'')], [Plain (CHR ''h'')]]]
   \<and> strmatch False (Some ''*.@(c|h)'') (Some ''a.h'') FNM_EXTMATCH = Some 0"
proof -
  let ?pat = "[AnyString, Plain (CHR ''.''), Ext ExactlyOne [[Plain (CHR ''c'')], [Plain (CHR ''h'')]]]"
  have ok: "shell_flags FNM_EXTMATCH" "has_flag FNM_EXTMATCH FNM_EXTMATCH"
    by (simp_all add: shell_flags_def has_flag_def FNM_EXTMATCH_def FNM_PATHNAME_def FNM_NOESCAPE_def FNM_PERIOD_def
        FNM_DOTDOT_def FNM_LEADING_DIR_def)
  have S: "cstring_ok ''a.h''" by (simp add: cstring_ok_def NUL_def)
  have pat: "pat_ok True ?pat"
    by (simp add: pat_ok_def elem_ok.simps plain_ok_def NUL_def)
  have shown: "pat_text ?pat = ''*.@(c|h)''"
    by (simp add: elem_text.simps)
  have "any_alt FNM_EXTMATCH ''a.h'' [[Plain (CHR ''c'')], [Plain (CHR ''h'')]] 2 3"
    by (simp add: any_alt_def pat_matches_Cons one_char_def numeral_eq_Suc)
  then have "pat_matches FNM_EXTMATCH ''a.h'' ?pat 0 (length ''a.h'')"
    unfolding pat_matches_Cons elem_matches_Ext
    by (intro exI [of _ 1] exI [of _ 2] exI [of _ 3] conjI) (simp_all add: one_char_def)
  with strmatch_meaning [OF ok(1) S, of ?pat False] ok(2) pat shown
  show ?thesis using ok(1) S by simp
qed

text \<open>
  Where the restriction on patterns fails, the code deviates from the meaning: \<^verbatim>\<open>*@(|a)\<close> does not match
  \<^verbatim>\<open>b\<close> although the star may take it and the rest may be empty; \<^verbatim>\<open>*!(a)b\<close> matches the empty string although it needs a
  \<^verbatim>\<open>b\<close>; \<^verbatim>\<open>[![=a=]]\<close> does not match \<^verbatim>\<open>b\<close>; and on the pattern \<^verbatim>\<open>[[=\<close> the code reads behind the end of
  the pattern.
\<close>

theorem strmatch_deviations:
  "strmatch False (Some ''*@(|a)'') (Some ''b'') FNM_EXTMATCH = Some FNM_NOMATCH
   \<and> pat_matches FNM_EXTMATCH ''b'' [AnyString, Ext ExactlyOne [[], [Plain (CHR ''a'')]]] 0 1
   \<and> strmatch False (Some ''*!(a)b'') (Some '''') FNM_EXTMATCH = Some 0
   \<and> \<not> pat_matches FNM_EXTMATCH '''' [AnyString, Ext NoneOf [[Plain (CHR ''a'')]], Plain (CHR ''b'')] 0 0
   \<and> strmatch False (Some ''[![=a=]]'') (Some ''b'') 0 = Some FNM_NOMATCH
   \<and> pat_matches 0 ''b'' [Bracket True [BEquiv (CHR ''a'')]] 0 1
   \<and> strmatch False (Some ''[[='') (Some ''x'') 0 = None"
proof (intro conjI)
  show "strmatch False (Some ''*@(|a)'') (Some ''b'') FNM_EXTMATCH = Some FNM_NOMATCH" by code_simp
  show "strmatch False (Some ''*!(a)b'') (Some '''') FNM_EXTMATCH = Some 0" by code_simp
  show "strmatch False (Some ''[![=a=]]'') (Some ''b'') 0 = Some FNM_NOMATCH" by code_simp
  show "strmatch False (Some ''[[='') (Some ''x'') 0 = None" by code_simp
  show "pat_matches FNM_EXTMATCH ''b'' [AnyString, Ext ExactlyOne [[], [Plain (CHR ''a'')]]] 0 1"
    unfolding pat_matches_Cons elem_matches_Ext by (intro exI [of _ 1] conjI) (simp_all add: any_alt_def)
  show "\<not> pat_matches FNM_EXTMATCH '''' [AnyString, Ext NoneOf [[Plain (CHR ''a'')]], Plain (CHR ''b'')] 0 0"
    by (simp add: pat_matches_Cons one_char_def)
  show "pat_matches 0 ''b'' [Bracket True [BEquiv (CHR ''a'')]] 0 1"
    by (simp add: pat_matches_Cons one_char_def FOLD_def has_flag_def)
qed

end
