(* ===== verification/Patsub_Correct.thy ===== *)
theory Patsub_Correct
  imports Patsub Smatch_Correct
begin

text \<open>
  Pattern removal and substitution do what the meaning of patterns says: removal cuts the shortest or the
  longest matching prefix or suffix, and the search for a match, with its shortcuts, finds the
  leftmost and longest one.
\<close>

section \<open>Matching a whole string\<close>

definition whole :: "int \<Rightarrow> gelem list \<Rightarrow> cstring \<Rightarrow> bool" where
  "whole flags pat u \<longleftrightarrow> pat_matches flags u pat 0 (length u)"

lemma option_flags:
  "shell_flags (FNMATCH_EXTFLAG g)" "shell_flags (FNMATCH_EXTFLAG g OR FNMATCH_IGNCASE g)"
  "has_flag (FNMATCH_EXTFLAG g) FNM_EXTMATCH \<longleftrightarrow> extended_glob g"
  "has_flag (FNMATCH_EXTFLAG g OR FNMATCH_IGNCASE g) FNM_EXTMATCH \<longleftrightarrow> extended_glob g"
  "FOLD (FNMATCH_EXTFLAG g OR FNMATCH_IGNCASE g) = FOLD (FNMATCH_IGNCASE g)"
  by (auto simp: shell_flags_def has_flag_def FNMATCH_EXTFLAG_def FNMATCH_IGNCASE_def FNM_EXTMATCH_def FNM_PATHNAME_def
      FNM_NOESCAPE_def FNM_PERIOD_def FNM_DOTDOT_def FNM_LEADING_DIR_def FNM_CASEFOLD_def FOLD_def fun_eq_iff)

lemma strmatches_text:
  assumes "shell_flags flags" and "cstring_ok u" and "pat_ok (has_flag flags FNM_EXTMATCH) pat"
  shows "strmatches g flags (pat_text pat) u = Some (whole flags pat u)"
  using strmatch_text [OF assms] by (auto simp: strmatches_def whole_def match_int_def FNM_NOMATCH_def)

lemma cstring_ok_parts:
  assumes "cstring_ok s"
  shows "cstring_ok (take n s)" "cstring_ok (drop n s)" "cstring_ok (substring s i j)"
  using assms by (auto simp: cstring_ok_def substring_def dest: in_set_takeD in_set_dropD)

lemma first_place_eq: "(\<And>p. p \<in> set ps \<Longrightarrow> test p = Some (f p)) \<Longrightarrow> first_place test ps = Some (find f ps)"
  by (induction ps) auto

text \<open>The first, or the last, of the places up to \<open>n\<close>.\<close>

definition best_place :: "(nat \<Rightarrow> bool) \<Rightarrow> nat \<Rightarrow> (nat \<Rightarrow> nat \<Rightarrow> bool) \<Rightarrow> nat option \<Rightarrow> bool" where
  "best_place f n better x \<longleftrightarrow>
     (case x of None \<Rightarrow> \<forall>q\<le>n. \<not> f q | Some p \<Rightarrow> p \<le> n \<and> f p \<and> (\<forall>q\<le>n. f q \<longrightarrow> better p q))"

lemma find_rev_upt_Some:
  "find f (rev [a..<n]) = Some p \<Longrightarrow> a \<le> p \<and> p < n \<and> f p \<and> (\<forall>q. p < q \<longrightarrow> q < n \<longrightarrow> \<not> f q)"
proof (induction n)
  case (Suc n)
  then show ?case by (cases "a \<le> n \<and> f n") (auto simp: less_Suc_eq split: if_splits)
qed simp

lemma find_best_place:
  "best_place f n (\<le>) (find f [0..<Suc n])" "best_place f n (\<ge>) (find f (rev [0..<Suc n]))"
proof -
  have "\<forall>q\<le>n. \<not> f q" if "find f [0..<Suc n] = None \<or> find f (rev [0..<Suc n]) = None"
  proof (intro allI impI)
    fix q assume "q \<le> n"
    then have "q \<in> set [0..<Suc n]" by (simp only: set_upt) simp
    with that show "\<not> f q" by (metis find_None_iff set_rev)
  qed
  then show "best_place f n (\<le>) (find f [0..<Suc n])" "best_place f n (\<ge>) (find f (rev [0..<Suc n]))"
    unfolding best_place_def
    by (auto simp del: upt_Suc split: option.split dest!: find_upt_Some find_rev_upt_Some) (meson leI less_Suc_eq_le)+
qed

section \<open>Pattern removal\<close>

text \<open>
  A prefix or suffix that satisfies \<open>m\<close> is cut off \<open>s\<close>, leaving \<open>r\<close>; among several, one whose length
  is related to that of the others by \<open>better\<close>. If there is none, the string is left as it is.
\<close>

definition cuts_prefix :: "(nat \<Rightarrow> nat \<Rightarrow> bool) \<Rightarrow> (cstring \<Rightarrow> bool) \<Rightarrow> cstring \<Rightarrow> cstring \<Rightarrow> bool" where
  "cuts_prefix better m s r \<longleftrightarrow>
     (\<exists>u. s = u @ r \<and> m u \<and> (\<forall>v w. s = v @ w \<and> m v \<longrightarrow> better (length u) (length v)))
     \<or> r = s \<and> (\<forall>v w. s = v @ w \<longrightarrow> \<not> m v)"

definition cuts_suffix :: "(nat \<Rightarrow> nat \<Rightarrow> bool) \<Rightarrow> (cstring \<Rightarrow> bool) \<Rightarrow> cstring \<Rightarrow> cstring \<Rightarrow> bool" where
  "cuts_suffix better m s r \<longleftrightarrow>
     (\<exists>u. s = r @ u \<and> m u \<and> (\<forall>v w. s = w @ v \<and> m v \<longrightarrow> better (length u) (length v)))
     \<or> r = s \<and> (\<forall>v w. s = w @ v \<longrightarrow> \<not> m v)"

lemma cuts_prefixI:
  assumes "best_place (\<lambda>p. m (take p s)) (length s) better x"
  shows "cuts_prefix better m s (case x of Some p \<Rightarrow> drop p s | None \<Rightarrow> s)"
proof (cases x)
  case None
  have "\<not> m v" if "s = v @ w" for v w
    using assms None that by (auto simp: best_place_def dest: spec [of _ "length v"])
  with None show ?thesis by (auto simp: cuts_prefix_def)
next
  case (Some p)
  have "better p (length v)" if "s = v @ w" "m v" for v w
    using assms Some that by (auto simp: best_place_def dest: spec [of _ "length v"])
  moreover have "length (take p s) = p" "m (take p s)" using assms Some by (auto simp: best_place_def)
  ultimately show ?thesis
    unfolding cuts_prefix_def Some by (intro disjI1 exI [of _ "take p s"]) (auto simp del: length_take)
qed

lemma cuts_suffixI:
  assumes "best_place (\<lambda>p. m (drop p s)) (length s) (\<lambda>p q. better (length s - p) (length s - q)) x"
  shows "cuts_suffix better m s (case x of Some p \<Rightarrow> take p s | None \<Rightarrow> s)"
proof (cases x)
  case None
  have "\<not> m v" if "s = w @ v" for v w
    using assms None that by (auto simp: best_place_def dest: spec [of _ "length w"])
  with None show ?thesis by (auto simp: cuts_suffix_def)
next
  case (Some p)
  have "better (length (drop p s)) (length v)" if "s = w @ v" "m v" for v w
  proof -
    have "drop (length w) s = v" "length w \<le> length s" "length s - length w = length v" using that(1) by simp_all
    with assms Some that(2) show ?thesis unfolding best_place_def length_drop by fastforce
  qed
  moreover have "m (drop p s)" using assms Some by (simp add: best_place_def)
  ultimately show ?thesis
    unfolding cuts_suffix_def Some by (intro disjI1 exI [of _ "drop p s"]) (auto simp del: length_drop)
qed

lemma remove_upattern_cuts:
  assumes "cstring_ok s" and "pat_ok (extended_glob g) pat"
  defines "m \<equiv> whole (FNMATCH_EXTFLAG g) pat"
  shows "\<exists>r. remove_upattern g s (pat_text pat) RP_LONG_LEFT = Some r \<and> cuts_prefix (\<ge>) m s r"
    "\<exists>r. remove_upattern g s (pat_text pat) RP_SHORT_LEFT = Some r \<and> cuts_prefix (\<le>) m s r"
    "\<exists>r. remove_upattern g s (pat_text pat) RP_LONG_RIGHT = Some r \<and> cuts_suffix (\<ge>) m s r"
    "\<exists>r. remove_upattern g s (pat_text pat) RP_SHORT_RIGHT = Some r \<and> cuts_suffix (\<le>) m s r"
proof -
  note ops = RP_LONG_LEFT_def RP_SHORT_LEFT_def RP_LONG_RIGHT_def RP_SHORT_RIGHT_def
  have test: "strmatches g (FNMATCH_EXTFLAG g) (pat_text pat) u = Some (m u)" if "cstring_ok u" for u
    using strmatches_text [OF option_flags(1) that] assms(2) by (simp add: m_def option_flags)
  have left: "first_place (\<lambda>p. strmatches g (FNMATCH_EXTFLAG g) (pat_text pat) (take p s)) ps = Some (find (\<lambda>p. m (take p s)) ps)"
    and right: "first_place (\<lambda>p. strmatches g (FNMATCH_EXTFLAG g) (pat_text pat) (drop p s)) ps = Some (find (\<lambda>p. m (drop p s)) ps)" for ps
    using test cstring_ok_parts [OF assms(1)] by (simp_all add: first_place_eq)
  have mono: "best_place f n (\<le>) x \<Longrightarrow> best_place f n (\<lambda>p q. n - p \<ge> n - q) x"
    "best_place f n (\<ge>) x \<Longrightarrow> best_place f n (\<lambda>p q. n - p \<le> n - q) x" for f n x
    by (auto simp: best_place_def split: option.splits)
  note unfold = remove_upattern_def ops left right Let_def
  show "\<exists>r. remove_upattern g s (pat_text pat) RP_LONG_LEFT = Some r \<and> cuts_prefix (\<ge>) m s r"
    by (simp add: unfold cuts_prefixI find_best_place del: upt_Suc)
  show "\<exists>r. remove_upattern g s (pat_text pat) RP_SHORT_LEFT = Some r \<and> cuts_prefix (\<le>) m s r"
    by (simp add: unfold cuts_prefixI find_best_place del: upt_Suc)
  show "\<exists>r. remove_upattern g s (pat_text pat) RP_LONG_RIGHT = Some r \<and> cuts_suffix (\<ge>) m s r"
    by (simp add: unfold cuts_suffixI mono find_best_place del: upt_Suc)
  show "\<exists>r. remove_upattern g s (pat_text pat) RP_SHORT_RIGHT = Some r \<and> cuts_suffix (\<le>) m s r"
    by (simp add: unfold cuts_suffixI mono find_best_place del: upt_Suc)
qed

lemma whole_Nil: "whole flags [] u \<longleftrightarrow> u = []"
  by (auto simp: whole_def)

lemma cuts_trivial:
  assumes "s = [] \<or> pat = []" and "\<And>n::nat. better n n"
  shows "cuts_prefix better (whole flags pat) s s" "cuts_suffix better (whole flags pat) s s"
  using assms(1)
proof -
  have same: "length v = 0" if "whole flags pat v" "s = v @ w \<or> s = w @ v" for v w
    using assms(1) that by (auto simp: whole_Nil)
  show "cuts_prefix better (whole flags pat) s s" "cuts_suffix better (whole flags pat) s s"
    using same assms by (cases "whole flags pat []"; fastforce simp: cuts_prefix_def cuts_suffix_def whole_Nil)+
qed

text \<open>
  C25. Pattern removal cuts off what it should: \<^verbatim>\<open>${v#pat}\<close> the shortest prefix that matches the pattern,
  \<^verbatim>\<open>${v##pat}\<close> the longest one, \<^verbatim>\<open>${v%pat}\<close> the shortest matching suffix and \<^verbatim>\<open>${v%%pat}\<close> the longest one; if
  nothing matches, the value is left as it is. The operation is chosen by \<^verbatim>\<open>getpatspec\<close> from the operator and the
  character after it.
\<close>

theorem remove_pattern_spec:
  assumes "cstring_ok s" and "pat_ok (extended_glob g) pat" and "c1 \<noteq> CHR ''#''" and "c2 \<noteq> CHR ''%''"
  defines "m \<equiv> whole (FNMATCH_EXTFLAG g) pat" and "rm \<equiv> remove_pattern g (Some s) (Some (pat_text pat))"
  shows "\<exists>r1 r2 r3 r4. rm (getpatspec (CHR ''#'') (c1 # v)) = Some (Some r1) \<and> cuts_prefix (\<le>) m s r1
    \<and> rm (getpatspec (CHR ''#'') (''#'' @ v)) = Some (Some r2) \<and> cuts_prefix (\<ge>) m s r2
    \<and> rm (getpatspec (CHR ''%'') (c2 # v)) = Some (Some r3) \<and> cuts_suffix (\<le>) m s r3
    \<and> rm (getpatspec (CHR ''%'') (''%'' @ v)) = Some (Some r4) \<and> cuts_suffix (\<ge>) m s r4"
proof (cases "s = [] \<or> pat = []")
  case True
  then have "rm x = Some (Some s)" for x by (auto simp: rm_def remove_pattern_def)
  with cuts_trivial [OF True] show ?thesis by (auto simp: m_def)
next
  case False
  then have "rm x = map_option Some (remove_upattern g s (pat_text pat) x)" for x
    by (simp add: rm_def remove_pattern_def pat_text_empty)
  with remove_upattern_cuts [OF assms(1,2), folded m_def] show ?thesis
    using assms(3,4) by (fastforce simp: getpatspec_def char_at_def)
qed

section \<open>Matching a part of a string\<close>

text \<open>Matching inside a part of a string is matching in the string at the shifted positions.\<close>

definition shifted :: "nat \<Rightarrow> nat \<Rightarrow> (nat \<Rightarrow> nat \<Rightarrow> bool) \<Rightarrow> (nat \<Rightarrow> nat \<Rightarrow> bool) \<Rightarrow> bool" where
  "shifted d n r r' \<longleftrightarrow> (\<forall>i j. i \<le> n \<longrightarrow> j \<le> n \<longrightarrow> r' (d + i) (d + j) = r i j)"

lemma shifted_rtranclp:
  assumes "shifted (length u) (length S) r r'" and "forward S r" and "forward (u @ S @ w) r'"
  shows "shifted (length u) (length S) r\<^sup>*\<^sup>* r'\<^sup>*\<^sup>*"
  unfolding shifted_def
proof (intro allI impI iffI)
  fix i j assume ij: "i \<le> length S" "j \<le> length S"
  have "\<exists>k. y = length u + k \<and> (y \<le> length u + length S \<longrightarrow> r\<^sup>*\<^sup>* i k)"
    if "r'\<^sup>*\<^sup>* (length u + i) y" for y
    using that
  proof (induction rule: rtranclp_induct)
    case (step y z)
    then obtain k where k: "y = length u + k" "y \<le> length u + length S \<longrightarrow> r\<^sup>*\<^sup>* i k" by blast
    have "y \<le> length (u @ S @ w)" using forwardD [OF forward_rtranclp [OF assms(3)] step(1)] ij(1) by simp
    then have "y \<le> z" using forwardD [OF assms(3) step(2)] by blast
    then obtain k' where z: "z = length u + k'" using k(1) by (metis le_add1 le_trans nat_le_iff_add)
    have "r\<^sup>*\<^sup>* i k'" if "z \<le> length u + length S"
    proof -
      have "k \<le> length S" "k' \<le> length S" using that z k(1) \<open>y \<le> z\<close> by simp_all
      then show ?thesis using assms(1) step(2) k z by (auto simp: shifted_def intro: rtranclp.rtrancl_into_rtrancl)
    qed
    with z show ?case by blast
  qed (use ij in auto)
  then show "r\<^sup>*\<^sup>* i j" if "r'\<^sup>*\<^sup>* (length u + i) (length u + j)" using that ij(2) by fastforce
next
  fix i j assume "i \<le> length S" "j \<le> length S" "r\<^sup>*\<^sup>* i j"
  from this(3,1) have "r'\<^sup>*\<^sup>* (length u + i) (length u + j) \<and> j \<le> length S"
  proof (induction rule: rtranclp_induct)
    case (step y z)
    then show ?case using assms(1) forwardD [OF assms(2) step(2)]
      by (auto simp: shifted_def intro: rtranclp.rtrancl_into_rtrancl)
  qed simp
  then show "r'\<^sup>*\<^sup>* (length u + i) (length u + j)" ..
qed

lemma shifted_comp:
  assumes "shifted (length u) (length S) r r'" and "shifted (length u) (length S) q q'"
    and "forward S r" and "forward (u @ S @ w) r'" and "forward (u @ S @ w) q'"
  shows "shifted (length u) (length S) (r OO q) (r' OO q')"
  unfolding shifted_def
proof (intro allI impI iffI)
  fix i j assume ij: "i \<le> length S" "j \<le> length S" "(r' OO q') (length u + i) (length u + j)"
  then obtain y where y: "r' (length u + i) y" "q' y (length u + j)" by auto
  have "length u + i \<le> y" "y \<le> length (u @ S @ w)" using forwardD [OF assms(4) y(1)] ij(1) by simp_all
  then have "y \<le> length u + j" using forwardD [OF assms(5) y(2)] by blast
  then obtain k where "y = length u + k" "k \<le> length S"
    using \<open>length u + i \<le> y\<close> ij(2) by (metis add_leE le_Suc_ex le_trans nat_add_left_cancel_le)
  with y assms(1,2) ij show "(r OO q) i j" by (auto simp: shifted_def)
next
  fix i j assume ij: "i \<le> length S" "j \<le> length S" "(r OO q) i j"
  then obtain k where "r i k" "q k j" by auto
  moreover have "k \<le> length S" using forwardD [OF assms(3) \<open>r i k\<close> ij(1)] by simp
  ultimately have "r' (length u + i) (length u + k)" "q' (length u + k) (length u + j)"
    using assms(1,2) ij by (auto simp: shifted_def)
  then show "(r' OO q') (length u + i) (length u + j)" by blast
qed

lemma shifted_one_char: "shifted (length u) (length S) (one_char S f) (one_char (u @ S @ w) f)"
  by (auto simp: shifted_def one_char_def nth_append)

lemma shifted_ext_rel:
  assumes "shifted (length u) (length S) r r'" and "forward S r" and "forward (u @ S @ w) r'"
  shows "shifted (length u) (length S) (ext_rel S op r) (ext_rel (u @ S @ w) op r')"
proof (cases op)
  case OneOrMore
  have "x\<^sup>+\<^sup>+ = x OO x\<^sup>*\<^sup>*" for x :: "nat \<Rightarrow> nat \<Rightarrow> bool"
    by (auto simp: fun_eq_iff intro: rtranclp_into_tranclp2 dest: tranclpD)
  with OneOrMore shifted_comp [OF assms(1) shifted_rtranclp [OF assms] assms(2,3) forward_rtranclp [OF assms(3)]]
  show ?thesis by simp
qed (use assms shifted_rtranclp [OF assms] in \<open>auto simp: shifted_def\<close>)

lemma shifted_pat:
  assumes "\<And>e. e \<in> set pat \<Longrightarrow> shifted (length u) (length S) (elem_matches flags S e) (elem_matches flags (u @ S @ w) e)"
  shows "shifted (length u) (length S) (pat_matches flags S pat) (pat_matches flags (u @ S @ w) pat)"
  using assms
proof (induction pat)
  case (Cons e pat)
  have "pat_matches flags T (e # pat) = elem_matches flags T e OO pat_matches flags T pat" for T
    by (auto simp: fun_eq_iff pat_matches_Cons)
  with shifted_comp [OF Cons.prems Cons.IH [OF Cons.prems] forward_elem forward_elem forward_pat [OF forward_elem]]
  show ?case by simp
qed (simp add: shifted_def)

lemma shifted_elem: "shifted (length u) (length S) (elem_matches flags S e) (elem_matches flags (u @ S @ w) e)"
proof (induction e)
  case (Ext op alts)
  then have "shifted (length u) (length S) (any_alt flags S alts) (any_alt flags (u @ S @ w) alts)"
    using shifted_pat [of _ u S flags w] by (auto simp: shifted_def any_alt_def)
  moreover have "forward T (any_alt flags T alts)" for T
    by (intro forwardI) (use any_alt_le in blast)
  ultimately show ?case by (simp add: elem_matches_Ext shifted_ext_rel)
qed (auto simp: shifted_def one_char_def nth_append)

lemma whole_substring:
  assumes "i \<le> j" and "j \<le> length s"
  shows "whole flags pat (substring s i j) \<longleftrightarrow> pat_matches flags s pat i j"
proof -
  have s: "take i s @ substring s i j @ drop j s = s"
    using assms unfolding substring_def by (metis append.assoc append_take_drop_id le_add_diff_inverse take_add)
  have "length (take i s) = i" "length (substring s i j) = j - i" using assms by (simp_all add: substring_def)
  moreover have "shifted (length (take i s)) (length (substring s i j))
      (pat_matches flags (substring s i j) pat) (pat_matches flags (take i s @ substring s i j @ drop j s) pat)"
    by (intro shifted_pat shifted_elem)
  ultimately show ?thesis
    using assms unfolding s whole_def shifted_def by (metis add_0_right le0 le_add_diff_inverse order_refl)
qed

section \<open>The widened pattern\<close>

lemma pat_text_append [simp]: "pat_text (xs @ ys) = pat_text xs @ pat_text ys"
  by (induction xs) auto

lemma pat_text_start:
  assumes "list_all (elem_ok ext) pat"
  shows "char_at (pat_text pat @ r) 0 = (if pat = [] then char_at r 0 else elem_char (hd pat))"
    "ext \<Longrightarrow> char_at (pat_text pat) 0 \<noteq> CHR ''(''"
proof -
  have "\<exists>t. elem_text e = elem_char e # t" for e by (cases e) (auto simp: elem_text_Ext)
  then show "char_at (pat_text pat @ r) 0 = (if pat = [] then char_at r 0 else elem_char (hd pat))" for r
    by (cases pat) (simp, metis append_Cons char_at_def length_greater_0_conv list.distinct(1) list.sel(1) nth_Cons_0 pat_text_Cons)
  from this [of "[]"] show "ext \<Longrightarrow> char_at (pat_text pat) 0 \<noteq> CHR ''(''"
    using assms elem_char_simps(2) [of ext "hd pat"] by (cases pat) (auto simp: char_at_def)
qed

lemma star_first_text:
  assumes "pat \<noteq> []" and "list_all (elem_ok (extended_glob g)) pat"
  shows "star_first g (pat_text pat) \<longleftrightarrow> hd pat = AnyString"
proof -
  obtain e es where pat: "pat = e # es" using assms(1) by (cases pat) auto
  have "extended_glob g \<Longrightarrow> char_at (pat_text (AnyString # es)) 1 \<noteq> CHR ''(''"
    using pat_text_start(2) [of "extended_glob g" es] assms(2) pat by (auto simp: char_at_def split: if_splits)
  moreover have "xop_char op = CHR ''*'' \<Longrightarrow> elem_ok (extended_glob g) (Ext op alts) \<Longrightarrow> extended_glob g" for op alts
    by (simp add: elem_ok_Ext)
  ultimately show ?thesis
    using pat assms(2) pat_text_start(1) [OF assms(2), of "[]"]
    by (cases e) (auto simp: star_first_def plain_ok_def elem_text_Ext char_at_def)
qed

lemma odd_backslashes_text: "list_all (elem_ok ext) pat \<Longrightarrow> \<not> odd_backslashes (rev (pat_text pat))"
proof (induction pat rule: rev_induct)
  case (snoc e pat)
  then show ?case by (cases e) (auto simp: plain_ok_def elem_text_Ext)
qed simp

lemma last_star_text:
  assumes "pat \<noteq> []" and "list_all (elem_ok ext) pat"
  shows "last (pat_text pat) = CHR ''*'' \<longleftrightarrow> last pat = AnyString \<or> last pat = Quoted (CHR ''*'')"
    "odd_backslashes (rev (butlast (pat_text pat))) \<and> last (pat_text pat) = CHR ''*'' \<longleftrightarrow> last pat = Quoted (CHR ''*'')"
proof -
  obtain es e where pat: "pat = es @ [e]" using assms(1) by (cases pat rule: rev_cases) auto
  have "\<not> odd_backslashes (rev (pat_text es))" using odd_backslashes_text [of ext es] assms(2) pat by simp
  then show "last (pat_text pat) = CHR ''*'' \<longleftrightarrow> last pat = AnyString \<or> last pat = Quoted (CHR ''*'')"
    "odd_backslashes (rev (butlast (pat_text pat))) \<and> last (pat_text pat) = CHR ''*'' \<longleftrightarrow> last pat = Quoted (CHR ''*'')"
    using pat assms(2) by (cases e; auto simp: elem_text_Ext plain_ok_def butlast_append)+
qed

definition widened :: "int \<Rightarrow> gelem list \<Rightarrow> gelem list" where
  "widened mtype pat =
     (if mtype \<noteq> MATCH_BEG \<and> hd pat \<noteq> AnyString then [AnyString] else []) @ pat
     @ (if mtype \<noteq> MATCH_END \<and> last pat \<noteq> AnyString then [AnyString] else [])"

text \<open>The patterns of a search: the widened pattern is one that the matcher handles.\<close>

definition search_ok :: "glob_opts \<Rightarrow> gelem list \<Rightarrow> bool" where
  "search_ok g pat \<longleftrightarrow> pat \<noteq> [] \<and> pat_ok (extended_glob g) pat \<and> run_ok pat
     \<and> \<not> (hd pat = AnyString \<and> last pat = Quoted (CHR ''*''))"

lemma search_okD:
  assumes "search_ok g pat"
  shows "pat \<noteq> []" "pat_ok (extended_glob g) pat" "run_ok pat" "list_all (elem_ok (extended_glob g)) pat"
    "\<not> (hd pat = AnyString \<and> last pat = Quoted (CHR ''*''))"
  using assms by (auto simp: search_ok_def pat_ok_def)

lemma widen_text:
  assumes "search_ok g pat"
  shows "widen_pattern g (pat_text pat) mtype = pat_text (widened mtype pat)"
proof -
  note ok = search_okD [OF assms]
  show ?thesis
    using ok(5) last_star_text [OF ok(1,4)] unfolding widen_pattern_def widened_def star_first_text [OF ok(1,4)]
    by (cases "hd pat = AnyString"; cases "last pat = AnyString") auto
qed

lemma run_ok_snoc: "run_ok pat \<Longrightarrow> run_ok (pat @ [AnyString])"
  by (induction pat rule: run_ok.induct) auto

lemma star_ok_snoc: "star_ok pat \<Longrightarrow> star_ok (pat @ [AnyString])"
  by (induction pat rule: star_ok.induct) (auto simp: run_ok_snoc)

lemma widened_ok:
  assumes "search_ok g pat"
  shows "pat_ok (extended_glob g) (widened mtype pat)"
  using search_okD [OF assms] by (auto simp: pat_ok_def widened_def star_ok_snoc run_ok_snoc)

text \<open>If any part matches, the widened pattern matches the whole.\<close>

definition anchored :: "int \<Rightarrow> nat \<Rightarrow> nat \<Rightarrow> nat \<Rightarrow> bool" where
  "anchored mtype len i j \<longleftrightarrow> (mtype = MATCH_BEG \<longrightarrow> i = 0) \<and> (mtype = MATCH_END \<longrightarrow> j = len)"

lemma star_absorbs:
  assumes "pat \<noteq> []" and "pat_matches flags s pat i j" and "i \<le> length s" and "j \<le> length s"
  shows "hd pat = AnyString \<Longrightarrow> pat_matches flags s pat 0 j" "last pat = AnyString \<Longrightarrow> pat_matches flags s pat i (length s)"
proof -
  show "pat_matches flags s pat 0 j" if "hd pat = AnyString"
    using assms that by (cases pat) (auto simp: pat_matches_Cons)
  assume "last pat = AnyString"
  then obtain es where es: "pat = es @ [AnyString]" using assms(1) by (metis append_butlast_last_id)
  then obtain k where "pat_matches flags s es i k" using assms(2) by (auto simp: pat_matches_append)
  moreover have "k \<le> length s" using pat_matches_le(2) [OF calculation assms(3)] .
  ultimately show "pat_matches flags s pat i (length s)" using es by (auto simp: pat_matches_append pat_matches_Cons)
qed

lemma widened_matches:
  assumes "pat \<noteq> []" and "pat_matches flags s pat i j" and "i \<le> length s" and "j \<le> length s" and "anchored mtype (length s) i j"
  shows "whole flags (widened mtype pat) s"
proof -
  have 1: "pat_matches flags s pat 0 j \<or> hd pat \<noteq> AnyString \<and> mtype \<noteq> MATCH_BEG"
    and "pat_matches flags s pat i (length s) \<or> last pat \<noteq> AnyString \<and> mtype \<noteq> MATCH_END"
    using assms star_absorbs [OF assms(1-4)] unfolding anchored_def by blast+
  moreover have "last pat = AnyString \<Longrightarrow> pat_matches flags s pat 0 (length s) \<or> hd pat \<noteq> AnyString \<and> mtype \<noteq> MATCH_BEG"
    using 1 star_absorbs(2) [OF assms(1) _ _ assms(4), of flags 0] by auto
  ultimately show ?thesis
    using assms unfolding whole_def widened_def anchored_def
    by (auto simp: pat_matches_Cons pat_matches_append)
qed

section \<open>The length of a match\<close>

text \<open>Scanning over one item of a bracket expression leaves no special expression open.\<close>

definition bscan :: "cstring \<Rightarrow> nat \<Rightarrow> nat + cstring \<times> bool \<times> bool \<times> bool" where
  "bscan pat n = bracket_scan pat n False False False"

definition bscan_next :: "cstring \<Rightarrow> nat \<Rightarrow> nat + cstring \<times> bool \<times> bool \<times> bool" where
  "bscan_next pat n = (if starts_with (CHR '']'') pat then Inr (tl pat, False, False, False) else bscan pat n)"

lemma bscan_plain: "c \<noteq> BSLASH \<Longrightarrow> c \<noteq> CHR ''['' \<Longrightarrow> bscan (c # r) n = bscan_next r (n + 1)"
  by (simp add: bscan_def bscan_next_def bracket_step_def)

lemma bscan_quoted: "r \<noteq> [] \<Longrightarrow> bscan (BSLASH # c # r) n = bscan_next r (n + 1)"
  by (simp add: bscan_def bscan_next_def bracket_step_def)

lemma bscan_class_name:
  "list_all ISALPHA s \<Longrightarrow> \<exists>n'. bracket_scan (s @ CHR '':'' # CHR '']'' # r) n True False False = bscan_next r n'"
proof (induction s arbitrary: n)
  case (Cons c s)
  then have "c \<notin> set ''[]:.='' \<and> c \<noteq> BSLASH" by (auto simp: ISALPHA_def ISLOWER_def ISUPPER_def)
  moreover have "\<not> starts_with (CHR '']'') (s @ CHR '':'' # CHR '']'' # r)"
    using Cons.prems by (cases s) (auto simp: starts_with_def)
  ultimately show ?case using Cons by (simp add: bracket_step_def)
qed (auto simp: bscan_next_def bscan_def bracket_step_def starts_with_def)

lemma bscan_symbol_name:
  "BSLASH \<notin> set s \<Longrightarrow> set s \<inter> set ''.[]'' = {}
   \<Longrightarrow> \<exists>n'. bracket_scan (s @ CHR ''.'' # CHR '']'' # r) n False True False = bscan_next r n'"
proof (induction s arbitrary: n)
  case (Cons c s)
  moreover have "\<not> starts_with (CHR '']'') (s @ CHR ''.'' # CHR '']'' # r)"
    using Cons.prems by (cases s) (auto simp: starts_with_def)
  ultimately show ?case by (auto simp: bracket_step_def)
qed (auto simp: bscan_next_def bscan_def bracket_step_def starts_with_def)

lemma bscan_bchar:
  assumes "bchar_ok x" and "r \<noteq> []"
  shows "\<exists>n'. bscan (bchar_text x @ r) n = bscan_next r n'"
proof (cases x)
  case (BColl s)
  then have s: "BSLASH \<notin> set s" "set s \<inter> set ''.[]'' = {}" "s \<noteq> []"
    using assms(1) by (auto simp: collsym_def posix_collsyms_def)
  then have "\<not> starts_with (CHR '']'') (s @ CHR ''.'' # CHR '']'' # r)" by (cases s) (auto simp: starts_with_def)
  with BColl bscan_symbol_name [OF s(1,2), of r] show ?thesis
    by (simp add: bscan_def bracket_step_def starts_with_def [of _ "_ # _"] skip_close_def)
qed (use assms in \<open>auto simp: bscan_plain bscan_quoted\<close>)

lemma bscan_item:
  assumes "item_ok it" and "r \<noteq> []"
  shows "\<exists>n'. bscan (item_text it @ r) n = bscan_next r n'"
proof (cases it)
  case (BRange x y)
  have "\<not> starts_with (CHR '']'') (bchar_text y @ r)"
    using assms(1) BRange by (cases y) (auto simp: starts_with_def)
  then have "bscan_next (bchar_text y @ r) n' = bscan (bchar_text y @ r) n'" for n' by (simp add: bscan_next_def)
  moreover have "bscan_next (CHR ''-'' # bchar_text y @ r) n' = bscan_next (bchar_text y @ r) (n' + 1)" for n'
    by (simp add: bscan_next_def [of "_ # _"] starts_with_def bscan_plain)
  moreover have "\<exists>n'. bscan (bchar_text x @ CHR ''-'' # bchar_text y @ r) n = bscan_next (CHR ''-'' # bchar_text y @ r) n'"
    using assms(1) BRange by (intro bscan_bchar) auto
  moreover have "\<exists>n''. bscan (bchar_text y @ r) n' = bscan_next r n''" for n'
    using assms BRange by (intro bscan_bchar) auto
  ultimately show ?thesis using BRange by fastforce
next
  case (BClass s)
  then have "\<not> starts_with (CHR '']'') (s @ CHR '':'' # CHR '']'' # r)"
    using assms(1) by (cases s) (auto simp: starts_with_def)
  with BClass assms(1) bscan_class_name [of s r] show ?thesis
    by (simp add: bscan_def bracket_step_def starts_with_def [of _ "_ # _"])
qed (use assms bscan_bchar in \<open>auto simp: bscan_def bscan_next_def bracket_step_def starts_with_def skip_close_def\<close>)

lemma item_text_not_close: "item_ok it \<Longrightarrow> item_text it \<noteq> [] \<and> hd (item_text it) \<noteq> CHR '']''"
proof -
  have "bchar_ok x \<Longrightarrow> bchar_text x \<noteq> [] \<and> hd (bchar_text x) \<noteq> CHR '']''" for x by (cases x) auto
  then show "item_ok it \<Longrightarrow> item_text it \<noteq> [] \<and> hd (item_text it) \<noteq> CHR '']''" by (cases it) auto
qed

lemma bscan_items:
  assumes "items \<noteq> []" and "list_all item_ok items"
  shows "bscan (concat (map item_text items) @ CHR '']'' # r) n = Inr (r, False, False, False)"
  using assms
proof (induction items arbitrary: n)
  case (Cons it items)
  let ?r = "concat (map item_text items) @ CHR '']'' # r"
  obtain n' where n': "bscan (item_text it @ ?r) n = bscan_next ?r n'"
    using bscan_item [of it ?r n] Cons.prems by auto
  have "bscan_next ?r n' = Inr (r, False, False, False)"
  proof (cases items)
    case Nil
    then show ?thesis by (simp add: bscan_next_def starts_with_def)
  next
    case (Cons it' rest)
    then have "\<not> starts_with (CHR '']'') ?r"
      using Cons.prems item_text_not_close [of it'] by (simp add: starts_with_def)
    moreover have "bscan ?r n' = Inr (r, False, False, False)"
      using Cons.IH Cons.prems Cons by simp
    ultimately show ?thesis by (simp add: bscan_next_def)
  qed
  with n' show ?case by simp
qed simp

lemma matchlen_step:
  assumes "single e" and "elem_ok ext e"
  shows "matchlen_loop (elem_text e @ r) n False False False \<in> {- 1, matchlen_loop r (n + 1) False False False}"
proof (cases e)
  case (Bracket neg items)
  have items: "items \<noteq> []" "list_all item_ok items"
    using Bracket assms(2) items_ok_all by auto
  let ?t = "concat (map item_text items) @ CHR '']'' # r"
  have "\<not> starts_with (CHR '']'') ?t"
    using items item_text_not_close by (cases items) (auto simp: starts_with_def)
  then have "bscan ((if neg then ''!'' else []) @ ?t) 1 = Inr (r, False, False, False)"
    using bscan_items [OF items, of r] by (simp add: bscan_plain bscan_next_def)
  then show ?thesis using Bracket by (simp add: bscan_def)
qed (use assms in \<open>auto simp: single_def plain_ok_def\<close>)

lemma matchlen_text:
  assumes "list_all (elem_ok ext) pat"
  shows "matchlen_loop (pat_text pat) n False False False = - 1
     \<or> list_all single pat \<and> matchlen_loop (pat_text pat) n False False False = n + int (length pat)"
  using assms
proof (induction pat arbitrary: n)
  case (Cons e pat)
  show ?case
  proof (cases "single e")
    case True
    with Cons.IH [of "n + 1"] Cons.prems matchlen_step [of e ext "pat_text pat" n] show ?thesis by auto
  next
    case False
    then have "matchlen_loop (pat_text (e # pat)) n False False False = - 1"
    proof (cases e)
      case (Ext op alts)
      then show ?thesis by (cases op) (auto simp: elem_text_Ext starts_with_def)
    qed (auto simp: single_def)
    then show ?thesis ..
  qed
qed simp

lemma umatchlen_text:
  assumes "list_all (elem_ok ext) pat"
  shows "umatchlen (pat_text pat) = - 1 \<or> list_all single pat \<and> umatchlen (pat_text pat) = int (length pat)"
  using matchlen_text [OF assms, of 0] by (auto simp: umatchlen_def pat_text_empty)

text \<open>The test of the first character is passed wherever there is a match.\<close>

lemma match_pattern_char_text:
  assumes "search_ok g pat" and "pat_matches (FNMATCH_EXTFLAG g OR FNMATCH_IGNCASE g) s pat i j" and "i < length s" and "cstring_ok s"
  shows "match_pattern_char (pat_text pat) (drop i s) (FNMATCH_IGNCASE g)"
proof -
  note ok = search_okD [OF assms(1)]
  obtain e es where pat: "pat = e # es" using ok(1) by (cases pat) auto
  have sc: "char_at (drop i s) 0 = s ! i" "s ! i \<noteq> NUL"
    using assms(3,4) by (auto simp: char_at_def cstring_ok_def dest: nth_mem)
  have e: "elem_ok (extended_glob g) e" using ok(4) pat by simp
  obtain k where k: "elem_matches (FNMATCH_EXTFLAG g OR FNMATCH_IGNCASE g) s e i k"
    using assms(2) pat by (auto simp: pat_matches_Cons)
  show ?thesis
  proof (cases e)
    case (Ext op alts)
    with sc pat show ?thesis by (cases op) (auto simp: match_pattern_char_def Let_def elem_text_Ext char_at_def)
  qed (use sc pat e k option_flags(5) [of g] in \<open>auto simp: match_pattern_char_def Let_def char_at_def plain_ok_def one_char_def\<close>)
qed

section \<open>Finding a match\<close>

text \<open>The leftmost of the matches, and of those that start there the longest.\<close>

definition best_match :: "(nat \<Rightarrow> nat \<Rightarrow> bool) \<Rightarrow> (nat \<times> nat) option \<Rightarrow> bool" where
  "best_match f r \<longleftrightarrow>
     (case r of
        None \<Rightarrow> \<forall>i j. \<not> f i j
      | Some (s, e) \<Rightarrow> f s e \<and> (\<forall>i j. f i j \<longrightarrow> s < i \<or> s = i \<and> j \<le> e))"

definition fixed_length :: "(nat \<Rightarrow> nat \<Rightarrow> bool) \<Rightarrow> int \<Rightarrow> bool" where
  "fixed_length f mlen \<longleftrightarrow> mlen = - 1 \<or> 0 \<le> mlen \<and> (\<forall>i j. f i j \<longrightarrow> int j = int i + mlen)"

lemma longest_from:
  assumes "\<And>e. p \<le> e \<Longrightarrow> e \<le> len \<Longrightarrow> test e = Some (f p e)" and "fixed_length f mlen" and "\<And>i j. f i j \<Longrightarrow> i \<le> j \<and> j \<le> len"
    and "mlen = - 1 \<or> int p + mlen \<le> int len"
  shows "\<exists>r. first_place test (if mlen = - 1 then rev [p..<len + 1] else [p + nat mlen]) = Some r
    \<and> (case r of None \<Rightarrow> \<forall>e. \<not> f p e | Some e \<Rightarrow> f p e \<and> (\<forall>j. f p j \<longrightarrow> j \<le> e))"
proof (cases "mlen = - 1")
  case True
  let ?r = "find (f p) (rev [p..<len + 1])"
  have "first_place test (rev [p..<len + 1]) = Some ?r" using assms(1) by (intro first_place_eq) auto
  moreover have "case ?r of None \<Rightarrow> \<forall>e. \<not> f p e | Some e \<Rightarrow> f p e \<and> (\<forall>j. f p j \<longrightarrow> j \<le> e)"
  proof (cases ?r)
    case None
    have "\<not> f p e" for e
      using None assms(3) [of p e] unfolding find_None_iff set_rev set_upt by fastforce
    with None show ?thesis by simp
  next
    case (Some e)
    have "j \<le> e" if "f p j" for j
    proof (rule ccontr)
      assume "\<not> j \<le> e"
      with assms(3) [OF that] have "e < j" "j < len + 1" by simp_all
      with find_rev_upt_Some [OF Some] that show False by blast
    qed
    then show ?thesis using Some find_rev_upt_Some [OF Some] by simp
  qed
  ultimately show ?thesis using True by auto
next
  case False
  have "e = p + nat mlen" if "f p e" for e
  proof -
    have "int e = int p + mlen" "0 \<le> mlen" using False assms(2) that unfolding fixed_length_def by blast+
    then show ?thesis by simp
  qed
  then have le: "\<forall>j. f p j \<longrightarrow> j \<le> p + nat mlen" and none: "\<not> f p (p + nat mlen) \<Longrightarrow> \<forall>e. \<not> f p e" by blast+
  let ?r = "if f p (p + nat mlen) then Some (p + nat mlen) else None"
  have "0 \<le> mlen" using False assms(2) by (auto simp: fixed_length_def)
  then have "p + nat mlen \<le> len" using False assms(4) by simp
  then have "first_place test [p + nat mlen] = Some ?r" by (simp add: assms(1))
  moreover have "case ?r of None \<Rightarrow> \<forall>e. \<not> f p e | Some e \<Rightarrow> f p e \<and> (\<forall>j. f p j \<longrightarrow> j \<le> e)"
    using le none by (cases "f p (p + nat mlen)") simp_all
  ultimately show ?thesis unfolding if_not_P [OF False] by blast
qed

lemma match_any_best:
  assumes "\<And>p e. p \<le> e \<Longrightarrow> e \<le> len \<Longrightarrow> test p e = Some (f p e)" and "fixed_length f mlen" and "\<And>i j. f i j \<Longrightarrow> i \<le> j \<and> j \<le> len"
    and "\<And>i j. f i j \<Longrightarrow> first i \<or> (\<exists>i'<i. f i' i')" and "\<And>i j. i < a \<Longrightarrow> \<not> f i j" and "a \<le> len + 1"
  shows "\<exists>r. match_any first test mlen len [a..<len + 1] = Some r \<and> best_match f r"
  using assms(5,6)
proof (induction "len + 1 - a" arbitrary: a)
  case 0
  then have "\<not> f i j" for i j using assms(3) [of i j] by (cases "i < a") auto
  then show ?case using 0 by (auto simp: best_match_def)
next
  case (Suc n)
  then have upt: "[a..<len + 1] = a # [Suc a..<len + 1]" by (simp add: upt_rec)
  have later: "\<exists>r. match_any first test mlen len [Suc a..<len + 1] = Some r \<and> best_match f r" if "\<And>j. \<not> f a j"
  proof (rule Suc.hyps(1))
    show "\<not> f i j" if "i < Suc a" for i j using that Suc.prems(1) \<open>\<And>j. \<not> f a j\<close> by (auto simp: less_Suc_eq)
  qed (use Suc.hyps(2) in auto)
  show ?case
  proof (cases "first a")
    case False
    then have "\<not> f a j" for j using assms(4) [of a j] Suc.prems(1) by blast
    with later False upt show ?thesis by simp
  next
    case True
    show ?thesis
    proof (cases "mlen \<noteq> - 1 \<and> int a + mlen > int len")
      case True
      have "\<not> f i j" for i j
        using True assms(2) assms(3) [of i j] Suc.prems(1) [of i j] by (cases "i < a") (force simp: fixed_length_def)+
      with True \<open>first a\<close> upt show ?thesis by (auto simp: best_match_def)
    next
      case False
      then obtain r where r: "first_place (test a) (if mlen = - 1 then rev [a..<len + 1] else [a + nat mlen]) = Some r"
        "case r of None \<Rightarrow> \<forall>e. \<not> f a e | Some e \<Rightarrow> f a e \<and> (\<forall>j. f a j \<longrightarrow> j \<le> e)"
        using longest_from [OF assms(1-3), of a] by force
      show ?thesis
      proof (cases r)
        case None
        have "\<not> (mlen \<noteq> - 1 \<and> int a + mlen > int len)" using False .
        with None r(1) True upt have "match_any first test mlen len [a..<len + 1] = match_any first test mlen len [Suc a..<len + 1]"
          by (auto simp del: upt_Suc)
        with None r(2) later show ?thesis by (simp del: upt_Suc)
      next
        case (Some e)
        have "i = a" if "f i j" "\<not> a < i" for i j using Suc.prems(1) that linorder_neqE_nat by blast
        with r(2) Some have "best_match f (Some (a, e))" unfolding best_match_def by auto
        with Some r(1) False True upt show ?thesis by (auto simp del: upt_Suc)
      qed
    qed
  qed
qed

text \<open>The parts of the string that match, for the kind of match asked for.\<close>

definition part_matches :: "glob_opts \<Rightarrow> gelem list \<Rightarrow> int \<Rightarrow> cstring \<Rightarrow> nat \<Rightarrow> nat \<Rightarrow> bool" where
  "part_matches g pat mtype s i j \<longleftrightarrow> i \<le> j \<and> j \<le> length s \<and> anchored mtype (length s) i j
     \<and> whole (FNMATCH_EXTFLAG g OR FNMATCH_IGNCASE g) pat (substring s i j)"

lemma part_matches_fixed:
  assumes "search_ok g pat"
  shows "fixed_length (part_matches g pat mtype s) (umatchlen (pat_text pat))"
  using umatchlen_text [OF search_okD(4) [OF assms]] single_length [of pat _ s]
  by (force simp: fixed_length_def part_matches_def whole_substring)

lemma part_matches_first:
  assumes "search_ok g pat" and "part_matches g pat mtype s i j" and "cstring_ok s"
    and "s \<noteq> [] \<or> hd (pat_text pat) = CHR ''*''"
  shows "match_pattern_char (pat_text pat) (drop i s) (FNMATCH_IGNCASE g) \<or> (\<exists>i'<i. mtype = MATCH_ANY \<longrightarrow> part_matches g pat mtype s i' i')"
proof (cases "i < length s")
  case True
  have "pat_matches (FNMATCH_EXTFLAG g OR FNMATCH_IGNCASE g) s pat i j"
    using assms(2) unfolding part_matches_def by (metis whole_substring)
  from match_pattern_char_text [OF assms(1) this True assms(3)] show ?thesis ..
next
  case False
  then have i: "i = length s" "j = length s" using assms(2) by (auto simp: part_matches_def)
  show ?thesis
  proof (cases "s = []")
    case True
    have "pat_text pat \<noteq> []" using search_okD(1) [OF assms(1)] by (simp add: pat_text_empty)
    with True assms(4) show ?thesis by (auto simp: match_pattern_char_def char_at_def hd_conv_nth)
  next
    case False
    have "part_matches g pat mtype s 0 0" if "mtype = MATCH_ANY"
      using assms(2) i that by (auto simp: part_matches_def substring_def anchored_def MATCH_ANY_def MATCH_BEG_def MATCH_END_def)
    with False i show ?thesis by auto
  qed
qed

lemma match_beg_best:
  assumes "\<And>e. e \<le> len \<Longrightarrow> test e = Some (f 0 e)" and "fixed_length f mlen" and "\<And>i j. f i j \<Longrightarrow> i = 0 \<and> j \<le> len"
    and "mlen \<le> int len" and "\<And>j. f 0 j \<Longrightarrow> first"
  shows "\<exists>r. (if \<not> first then Some None
              else map_option (map_option (\<lambda>e. (0, e))) (first_place test (if mlen = - 1 then rev [0..<len + 1] else [nat mlen]))) = Some r
     \<and> best_match f r"
proof -
  obtain r where r: "first_place test (if mlen = - 1 then rev [0..<len + 1] else [0 + nat mlen]) = Some r"
    "case r of None \<Rightarrow> \<forall>e. \<not> f 0 e | Some e \<Rightarrow> f 0 e \<and> (\<forall>j. f 0 j \<longrightarrow> j \<le> e)"
    using longest_from [of 0 len test f mlen] assms(1-4) by fastforce
  then have "best_match f (map_option (\<lambda>e. (0, e)) r)"
    using assms(3) by (cases r) (fastforce simp: best_match_def)+
  moreover have "best_match f None" if "\<not> first"
    using that assms(3,5) by (fastforce simp: best_match_def)
  ultimately show ?thesis using r(1) by auto
qed

lemma match_end_best:
  assumes "\<And>p. p \<le> len \<Longrightarrow> test p = Some (f p len)" and "fixed_length f mlen" and "\<And>i j. f i j \<Longrightarrow> i \<le> j \<and> j = len"
    and "mlen \<le> int len"
  shows "\<exists>r. map_option (map_option (\<lambda>p. (p, len))) (first_place test (if mlen = - 1 then [0..<len + 1] else [len - nat mlen])) = Some r
     \<and> best_match f r"
proof -
  let ?ps = "if mlen = - 1 then [0..<len + 1] else [len - nat mlen]"
  let ?r = "find (\<lambda>p. f p len) ?ps"
  have "p \<le> len" if "p \<in> set ?ps" for p using that by (cases "mlen = - 1") auto
  then have "first_place test ?ps = Some ?r" using assms(1) by (intro first_place_eq) blast
  moreover have "best_match f (map_option (\<lambda>p. (p, len)) ?r)"
  proof (cases "mlen = - 1")
    case True
    have best: "best_place (\<lambda>p. f p len) len (\<le>) ?r" using find_best_place(1) [of "\<lambda>p. f p len" len] True by simp
    have len: "f i j \<Longrightarrow> j = len \<and> i \<le> len \<and> f i len" for i j using assms(3) [of i j] by blast
    show ?thesis
    proof (cases ?r)
      case None
      with best len show ?thesis by (fastforce simp: best_match_def best_place_def)
    next
      case (Some p)
      with best len show ?thesis unfolding best_match_def best_place_def
        by (simp add: Some) (metis le_neq_implies_less)
    qed
  next
    case False
    have only: "i = len - nat mlen \<and> j = len" if "f i j" for i j
    proof -
      have "int j = int i + mlen" "0 \<le> mlen" using False assms(2) that unfolding fixed_length_def by blast+
      with assms(3) [OF that] show ?thesis by simp
    qed
    show ?thesis
    proof (cases "f (len - nat mlen) len")
      case True
      have "i = len - nat mlen \<and> j \<le> len" if "f i j" for i j using only [OF that] by simp
      then have "best_match f (Some (len - nat mlen, len))" using True unfolding best_match_def prod.case option.case by blast
      with True \<open>mlen \<noteq> - 1\<close> show ?thesis by simp
    next
      case False
      then have "\<forall>i j. \<not> f i j" using only by metis
      then have "best_match f None" by (simp add: best_match_def)
      with False \<open>mlen \<noteq> - 1\<close> show ?thesis by simp
    qed
  qed
  ultimately show ?thesis by simp
qed

lemma no_part_matches:
  assumes "search_ok g pat"
    and "\<not> whole (FNMATCH_EXTFLAG g OR FNMATCH_IGNCASE g) (widened mtype pat) s \<or> umatchlen (pat_text pat) > int (length s)"
  shows "\<not> part_matches g pat mtype s i j"
  using assms(2)
proof
  assume "\<not> whole (FNMATCH_EXTFLAG g OR FNMATCH_IGNCASE g) (widened mtype pat) s"
  then show ?thesis using widened_matches [OF search_okD(1) [OF assms(1)], of _ s i j mtype]
    unfolding part_matches_def by (metis le_trans whole_substring)
next
  assume "umatchlen (pat_text pat) > int (length s)"
  moreover have "part_matches g pat mtype s i j \<Longrightarrow> j \<le> length s" by (simp add: part_matches_def)
  ultimately show ?thesis using part_matches_fixed [OF assms(1), of mtype s] unfolding fixed_length_def by fastforce
qed

lemma match_pattern_best:
  assumes "search_ok g pat" and "cstring_ok s" and "s \<noteq> [] \<or> hd (pat_text pat) = CHR ''*''"
    and "mtype \<in> {MATCH_ANY, MATCH_BEG, MATCH_END}"
  shows "\<exists>r. match_pattern g (Some s) (Some (pat_text pat)) mtype = Some r \<and> best_match (part_matches g pat mtype s) r"
proof -
  let ?f = "part_matches g pat mtype s" and ?flags = "FNMATCH_EXTFLAG g OR FNMATCH_IGNCASE g"
  let ?mlen = "umatchlen (pat_text pat)" and ?len = "length s"
  let ?m = "\<lambda>p e. map_option (\<lambda>r. r = 0) (strmatch (glob_asciirange g) (Some (pat_text pat)) (Some (substring s p e)) ?flags)"
  note ok = search_okD [OF assms(1)]
  have m: "?m p e = Some (whole ?flags pat (substring s p e))" for p e
    using strmatch_text [OF option_flags(2) cstring_ok_parts(3) [OF assms(2)]] ok(2)
    by (simp add: option_flags whole_def)
  have in_range: "i \<le> j \<and> j \<le> ?len" if "?f i j" for i j using that by (simp add: part_matches_def)
  have wide: "strmatches g ?flags (widen_pattern g (pat_text pat) mtype) s = Some (whole ?flags (widened mtype pat) s)"
    using strmatches_text [OF option_flags(2) assms(2)] widened_ok [OF assms(1)]
    by (simp add: widen_text [OF assms(1)] option_flags)
  have fixed: "fixed_length ?f ?mlen" by (rule part_matches_fixed [OF assms(1)])
  have nonempty: "pat_text pat \<noteq> []" using ok(1) by (simp add: pat_text_empty)
  show ?thesis
  proof (cases "\<not> whole ?flags (widened mtype pat) s \<or> ?mlen > int ?len")
    case True
    then have "\<not> ?f i j" for i j by (rule no_part_matches [OF assms(1)])
    then show ?thesis
      using True nonempty wide by (auto simp: match_pattern_def match_upattern_def Let_def best_match_def)
  next
    case False
    then have unfold: "match_pattern g (Some s) (Some (pat_text pat)) mtype =
       (if mtype = MATCH_ANY then
          match_any (\<lambda>p. match_pattern_char (pat_text pat) (drop p s) (FNMATCH_IGNCASE g)) ?m ?mlen ?len [0..<?len + 1]
        else if mtype = MATCH_BEG then
          (if \<not> match_pattern_char (pat_text pat) s (FNMATCH_IGNCASE g) then Some None
           else map_option (map_option (\<lambda>e. (0, e)))
                  (first_place (?m 0) (if ?mlen = - 1 then rev [0..<?len + 1] else [nat ?mlen])))
        else map_option (map_option (\<lambda>p. (p, ?len)))
            (first_place (\<lambda>p. ?m p ?len) (if ?mlen = - 1 then [0..<?len + 1] else [?len - nat ?mlen])))"
      using nonempty wide assms(4) by (auto simp: match_pattern_def match_upattern_def Let_def)
    have le: "?mlen \<le> int ?len" using False by simp
    consider (any) "mtype = MATCH_ANY" | (beg) "mtype = MATCH_BEG" | (ending) "mtype = MATCH_END" using assms(4) by auto
    then show ?thesis
    proof cases
      case any
      then have "?m p e = Some (?f p e)" if "p \<le> e" "e \<le> ?len" for p e
        using that m [of p e] by (simp add: part_matches_def anchored_def MATCH_ANY_def MATCH_BEG_def MATCH_END_def)
      moreover have "match_pattern_char (pat_text pat) (drop i s) (FNMATCH_IGNCASE g) \<or> (\<exists>i'<i. ?f i' i')" if "?f i j" for i j
        using part_matches_first [OF assms(1) that assms(2,3)] any by blast
      ultimately have "\<exists>r. match_any (\<lambda>p. match_pattern_char (pat_text pat) (drop p s) (FNMATCH_IGNCASE g)) ?m ?mlen ?len [0..<?len + 1]
          = Some r \<and> best_match ?f r"
        by (intro match_any_best [OF _ fixed in_range]) simp_all
      then show ?thesis using any unfold by simp
    next
      case beg
      then have "?m 0 e = Some (?f 0 e)" if "e \<le> ?len" for e
        using that m [of 0 e] by (simp add: part_matches_def anchored_def MATCH_BEG_def MATCH_END_def)
      moreover have "i = 0 \<and> j \<le> ?len" if "?f i j" for i j
        using that beg by (simp add: part_matches_def anchored_def)
      moreover have "match_pattern_char (pat_text pat) s (FNMATCH_IGNCASE g)" if "?f 0 j" for j
        using part_matches_first [OF assms(1) that assms(2,3)] by simp
      ultimately show ?thesis
        using match_beg_best [OF _ fixed _ le] unfold beg by (simp add: MATCH_ANY_def MATCH_BEG_def)
    next
      case ending
      then have "?m p ?len = Some (?f p ?len)" if "p \<le> ?len" for p
        using that m [of p ?len] by (simp add: part_matches_def anchored_def MATCH_BEG_def MATCH_END_def)
      moreover have "i \<le> j \<and> j = ?len" if "?f i j" for i j
        using that ending by (simp add: part_matches_def anchored_def)
      ultimately show ?thesis
        using match_end_best [OF _ fixed _ le] unfold ending by (simp add: MATCH_ANY_def MATCH_BEG_def MATCH_END_def)
    qed
  qed
qed

section \<open>Pattern substitution\<close>

text \<open>Replacing every match from left to right; after an empty match one character is copied.\<close>

inductive replaces_all :: "(cstring \<Rightarrow> nat \<Rightarrow> nat \<Rightarrow> bool) \<Rightarrow> (cstring \<Rightarrow> cstring) \<Rightarrow> cstring \<Rightarrow> cstring \<Rightarrow> bool"
  for m :: "cstring \<Rightarrow> nat \<Rightarrow> nat \<Rightarrow> bool" and rep :: "cstring \<Rightarrow> cstring" where
  replaces_end: "s = [] \<or> best_match (m s) None \<Longrightarrow> replaces_all m rep s s"
| replaces_part: "s \<noteq> [] \<Longrightarrow> best_match (m s) (Some (i, j)) \<Longrightarrow> i < j \<Longrightarrow> replaces_all m rep (drop j s) t
    \<Longrightarrow> replaces_all m rep s (take i s @ rep (substring s i j) @ t)"
| replaces_empty: "s \<noteq> [] \<Longrightarrow> best_match (m s) (Some (i, i)) \<Longrightarrow> i < length s \<Longrightarrow> replaces_all m rep (drop (Suc i) s) t
    \<Longrightarrow> replaces_all m rep s (take i s @ rep [] @ s ! i # t)"

lemma empty_match_inside:
  assumes "best_match (part_matches g pat MATCH_ANY s) (Some (i, i))" and "s \<noteq> []"
  shows "i < length s"
proof (rule ccontr)
  assume "\<not> i < length s"
  then have "i = length s" using assms(1) by (auto simp: best_match_def part_matches_def)
  moreover have "whole (FNMATCH_EXTFLAG g OR FNMATCH_IGNCASE g) pat []"
    using assms(1) by (simp add: best_match_def part_matches_def substring_def)
  then have "part_matches g pat MATCH_ANY s 0 0"
    by (simp add: part_matches_def substring_def anchored_def MATCH_ANY_def MATCH_BEG_def MATCH_END_def)
  ultimately show False using assms by (fastforce simp: best_match_def)
qed

lemma pat_subst_loop_all:
  assumes "search_ok g pat" and "cstring_ok s" and "has_flag mflags MATCH_GLOBREP" and "mflags AND MATCH_TYPEMASK = MATCH_ANY"
  shows "\<exists>t. pat_subst_loop g s (Some (pat_text pat)) rep mflags = Some t
    \<and> replaces_all (part_matches g pat MATCH_ANY) (expand_rep rep mflags) s t"
  using assms(2)
proof (induction "length s" arbitrary: s rule: less_induct)
  case less
  show ?case
  proof (cases "s = []")
    case True
    then show ?thesis by (subst pat_subst_loop.simps) (auto intro: replaces_end)
  next
    case False
    obtain r where r: "match_pattern g (Some s) (Some (pat_text pat)) MATCH_ANY = Some r" "best_match (part_matches g pat MATCH_ANY s) r"
      using match_pattern_best [OF assms(1) less.prems] False by blast
    show ?thesis
    proof (cases r)
      case None
      with r False assms(4) show ?thesis by (subst pat_subst_loop.simps) (auto intro: replaces_end)
    next
      case (Some x)
      obtain i j where x: "x = (i, j)" by (cases x)
      have ij: "i \<le> j" "j \<le> length s" using r(2) Some x by (auto simp: best_match_def part_matches_def)
      let ?rest = "if i = j then drop (Suc i) s else drop j s"
      have "length ?rest < length s" "i = j \<Longrightarrow> i < length s"
        using ij False r(2) Some x empty_match_inside [of g pat s i] by auto
      then obtain t where t: "pat_subst_loop g ?rest (Some (pat_text pat)) rep mflags = Some t"
        "replaces_all (part_matches g pat MATCH_ANY) (expand_rep rep mflags) ?rest t"
        using less.hyps [of ?rest] cstring_ok_parts(2) [OF less.prems] by (cases "i = j") auto
      show ?thesis
      proof (cases "i = j")
        case True
        with t r x Some False assms(3,4) \<open>i = j \<Longrightarrow> i < length s\<close> show ?thesis
          by (subst pat_subst_loop.simps) (auto simp: Let_def substring_def intro: replaces_empty)
      next
        case False
        with t r x Some \<open>s \<noteq> []\<close> assms(3,4) ij show ?thesis
          by (subst pat_subst_loop.simps) (auto simp: Let_def intro: replaces_part)
      qed
    qed
  qed
qed

section \<open>Properties\<close>

text \<open>
  C5. The search for a match returns the leftmost match and, of the matches that start there, the longest;
  for \<^verbatim>\<open>MATCH_BEG\<close> only parts at the beginning count and for \<^verbatim>\<open>MATCH_END\<close> only parts at the end. If it reports no
  match there is none: the shortcuts of the code (the test of the widened pattern, the test of the first
  character, the fixed length of a match) lose nothing.
\<close>

theorem match_pattern_leftmost_longest:
  assumes "search_ok g pat" and "cstring_ok s" and "s \<noteq> [] \<or> hd (pat_text pat) = CHR ''*''"
    and "mtype \<in> {MATCH_ANY, MATCH_BEG, MATCH_END}"
  shows "\<exists>r. match_pattern g (Some s) (Some (pat_text pat)) mtype = Some r \<and> best_match (part_matches g pat mtype s) r"
  by (rule match_pattern_best [OF assms])

definition example_opts :: glob_opts where
  "example_opts = \<lparr>extended_glob = True, match_ignore_case = False, glob_asciirange = False\<rparr>"

lemma example_search_ok: "search_ok example_opts [Plain (CHR ''b''), AnyString, Plain (CHR ''b'')]" "cstring_ok ''abcbx''"
  by (simp_all add: search_ok_def pat_ok_def elem_ok.simps plain_ok_def example_opts_def cstring_ok_def NUL_def)

lemma match_pattern_leftmost_longest_witness:
  "search_ok example_opts [Plain (CHR ''b''), AnyString, Plain (CHR ''b'')] \<and> cstring_ok ''abcbx''
   \<and> match_pattern example_opts (Some ''abcbx'') (Some ''b*b'') MATCH_ANY = Some (Some (1, 4))
   \<and> (\<exists>r. match_pattern example_opts (Some ''abcbx'') (Some ''b*b'') MATCH_ANY = Some r
        \<and> best_match (part_matches example_opts [Plain (CHR ''b''), AnyString, Plain (CHR ''b'')] MATCH_ANY ''abcbx'') r)"
proof -
  have "match_pattern example_opts (Some ''abcbx'') (Some ''b*b'') MATCH_ANY = Some (Some (1, 4))" by code_simp
  with match_pattern_leftmost_longest [OF example_search_ok, of MATCH_ANY] example_search_ok show ?thesis by simp
qed

text \<open>
  C24. Pattern substitution replaces the best match, or with \<^verbatim>\<open>MATCH_GLOBREP\<close> every match from left to
  right, and leaves the rest of the string as it is; an \<^verbatim>\<open>&\<close> in the replacement is expanded by
  \<^verbatim>\<open>expand_rep\<close>. It always returns, and it never reads behind the end of the string after an empty match.
\<close>

theorem pat_subst_replaces:
  assumes "search_ok g pat" and "cstring_ok s" and "s \<noteq> []" and "mflags AND MATCH_TYPEMASK = mtype"
    and "mtype \<in> {MATCH_ANY, MATCH_BEG, MATCH_END}"
  shows "if has_flag mflags MATCH_GLOBREP \<and> mtype = MATCH_ANY
    then \<exists>t. pat_subst g (Some s) (Some (pat_text pat)) rep mflags = Some t
          \<and> replaces_all (part_matches g pat MATCH_ANY) (expand_rep rep mflags) s t
    else \<exists>r. best_match (part_matches g pat mtype s) r
          \<and> pat_subst g (Some s) (Some (pat_text pat)) rep mflags
            = Some (case r of None \<Rightarrow> s | Some (i, j) \<Rightarrow> take i s @ expand_rep rep mflags (substring s i j) @ drop j s)"
proof -
  have "pat_text pat \<noteq> []" using search_okD(1) [OF assms(1)] by (simp add: pat_text_empty)
  then have loop: "pat_subst g (Some s) (Some (pat_text pat)) rep mflags = pat_subst_loop g s (Some (pat_text pat)) rep mflags"
    using assms(3) by (simp add: pat_subst_def Let_def)
  obtain r where "match_pattern g (Some s) (Some (pat_text pat)) mtype = Some r" "best_match (part_matches g pat mtype s) r"
    using match_pattern_best [OF assms(1,2) disjI1 [OF assms(3)] assms(5)] by blast
  with pat_subst_loop_all [OF assms(1,2), of mflags rep] assms(3,4) loop show ?thesis
    by (cases r) (auto simp: pat_subst_loop.simps [of g s] Let_def)
qed

lemma pat_subst_replaces_witness:
  "search_ok example_opts [Plain (CHR ''b''), AnyString, Plain (CHR ''b'')] \<and> cstring_ok ''abcbx''
   \<and> pat_subst example_opts (Some ''abcbx'') (Some ''b*b'') (Some ''-'') MATCH_GLOBREP = Some ''a-x''
   \<and> replaces_all (part_matches example_opts [Plain (CHR ''b''), AnyString, Plain (CHR ''b'')] MATCH_ANY)
       (expand_rep (Some ''-'') MATCH_GLOBREP) ''abcbx'' ''a-x''"
proof -
  have "pat_subst example_opts (Some ''abcbx'') (Some ''b*b'') (Some ''-'') MATCH_GLOBREP = Some ''a-x''" by code_simp
  moreover have "MATCH_GLOBREP AND MATCH_TYPEMASK = MATCH_ANY" "has_flag MATCH_GLOBREP MATCH_GLOBREP"
    by (simp_all add: MATCH_GLOBREP_def MATCH_TYPEMASK_def MATCH_ANY_def has_flag_def)
  ultimately show ?thesis
    using pat_subst_replaces [OF example_search_ok, of MATCH_GLOBREP MATCH_ANY "Some ''-''"] example_search_ok by simp
qed

lemma remove_pattern_spec_witness:
  "pat_ok True [AnyString, Plain (CHR ''/'')] \<and> cstring_ok ''a/b/c''
   \<and> remove_pattern example_opts (Some ''a/b/c'') (Some ''*/'') RP_SHORT_LEFT = Some (Some ''b/c'')
   \<and> cuts_prefix (\<le>) (whole (FNMATCH_EXTFLAG example_opts) [AnyString, Plain (CHR ''/'')]) ''a/b/c'' ''b/c''"
proof -
  have ok: "pat_ok (extended_glob example_opts) [AnyString, Plain (CHR ''/'')]" "cstring_ok ''a/b/c''"
    by (simp_all add: pat_ok_def plain_ok_def example_opts_def cstring_ok_def NUL_def)
  have "remove_pattern example_opts (Some ''a/b/c'') (Some ''*/'') RP_SHORT_LEFT = Some (Some ''b/c'')" by code_simp
  moreover have "getpatspec (CHR ''#'') ''*'' = RP_SHORT_LEFT" by (simp add: getpatspec_def char_at_def)
  ultimately show ?thesis
    using remove_pattern_spec [OF ok(2,1), of "CHR ''*''" "CHR ''*''" "[]"] ok by (auto simp: example_opts_def)
qed

text \<open>Quoting the special characters of a string, and matching against the result.\<close>

lemma quoted_text_start: "char_at (quote_globbing_chars t) 0 = CHR ''('' \<longleftrightarrow> char_at t 0 = CHR ''(''"
  by (cases t) (auto simp: char_at_def glob_char_p_def)

lemma gmatch_quoted:
  assumes "shell_flags flags" and "cstring_ok S" and "cstring_ok t" and "drop p P = quote_globbing_chars t"
    and "n \<le> length S" and "length t < k" and "p \<le> length P"
  shows "gmatch_loop k ar S P string n (length S) p (length P) False flags
    = Some (match_int (map (FOLD flags) (drop n S) = map (FOLD flags) t), None)"
  using assms(3-7)
proof (induction t arbitrary: n p k)
  case Nil
  then obtain k' where "k = Suc k'" by (cases k) auto
  with Nil assms(1) show ?case by (auto simp: gmatch_body_def shell_flags_def eq_commute)
next
  case (Cons c t)
  then obtain k' where k: "k = Suc k'" by (cases k) auto
  note flags = shell_flagsD [OF assms(1)]
  have c: "c \<noteq> NUL" "cstring_ok t" using Cons.prems(1) by (auto simp: cstring_ok_def)
  have rest: "(if FOLD flags (string_char S n (length S)) = FOLD flags c then gmatch_loop k' ar S P string (Suc n) (length S) p' (length P) False flags
        else Some (FNM_NOMATCH, None)) = Some (match_int (map (FOLD flags) (drop n S) = map (FOLD flags) (c # t)), None)"
    if "drop p' P = quote_globbing_chars t" "p' \<le> length P" for p'
  proof (cases "n < length S")
    case True
    then have "drop n S = S ! n # drop (Suc n) S" "string_char S n (length S) = S ! n"
      by (simp_all add: Cons_nth_drop_Suc string_char_def char_at_def)
    with True Cons.IH [OF c(2) that(1), of "Suc n" k'] Cons.prems(4) k that(2) show ?thesis by (auto simp: match_int_def)
  next
    case False
    moreover have "FOLD flags NUL \<noteq> FOLD flags c" using c(1) FOLD_NUL by metis
    ultimately show ?thesis using Cons.prems(3) by (auto simp: string_char_def match_int_def)
  qed
  show ?case
  proof (cases "glob_char_p (c # t)")
    case True
    then have P: "drop p P = BSLASH # c # quote_globbing_chars t" using Cons.prems(2) by simp
    then have at: "p < length P" "char_at P p = BSLASH" "char_at P (Suc p) = c" "Suc (Suc p) \<le> length P"
      "drop (Suc (Suc p)) P = quote_globbing_chars t"
      using char_at_drop [of P p] char_at_drop [of P "Suc p"] drop_Suc_tl [of p P] drop_Suc_tl [of "Suc p" P]
      by (auto dest: arg_cong [where f = length])
    have "gmatch_loop k ar S P string n (length S) p (length P) False flags = gmatch_escape (gmatch_loop k' ar S P) S P string n (length S) (Suc p) (length P) False flags"
      using at by (simp add: k gmatch_body_def)
    also have "\<dots> = (if FOLD flags (string_char S n (length S)) = FOLD flags c then gmatch_loop k' ar S P string (Suc n) (length S) (Suc (Suc p)) (length P) False flags
        else Some (FNM_NOMATCH, None))"
      using at flags by (auto simp: gmatch_escape_def Let_def)
    finally show ?thesis using rest [OF at(5,4)] by simp
  next
    case False
    then have P: "drop p P = c # quote_globbing_chars t" using Cons.prems(2) by simp
    then have at: "p < length P" "char_at P p = c" "drop (Suc p) P = quote_globbing_chars t" "Suc p \<le> length P"
      using char_at_drop [of P p] drop_Suc_tl [of p P] by (auto dest: arg_cong [where f = length])
    have "char_at P (Suc p) = char_at (quote_globbing_chars t) 0"
      using at(3) char_at_drop [of P "Suc p"] char_at_drop [of "quote_globbing_chars t" 0] by simp
    then have "char_at P (Suc p) = CHR ''('' \<longleftrightarrow> char_at (c # t) 1 = CHR ''(''"
      using quoted_text_start by (simp add: char_at_def)
    then have "gmatch_loop k ar S P string n (length S) p (length P) False flags
      = (if FOLD flags (string_char S n (length S)) = FOLD flags c then gmatch_loop k' ar S P string (Suc n) (length S) (Suc p) (length P) False flags
        else Some (FNM_NOMATCH, None))"
      using at(1,2) False by (auto simp: k gmatch_body_def glob_char_p_def char_at_def Let_def eq_commute)
    then show ?thesis using rest [OF at(3,4)] by simp
  qed
qed

text \<open>
  Quoting with \<^verbatim>\<open>quote_globbing_chars\<close> makes a string match literally: the result, used as a pattern, matches
  exactly the strings that are equal to the argument (up to case when the flags ask to ignore it),
  whether or not extended patterns are enabled.
\<close>

theorem quote_globbing_literal:
  assumes "shell_flags flags" and "cstring_ok s" and "cstring_ok t"
  shows "strmatch ar (Some (quote_globbing_chars t)) (Some s) flags
    = Some (if map (FOLD flags) s = map (FOLD flags) t then 0 else FNM_NOMATCH)"
proof -
  have len: "length t \<le> length (quote_globbing_chars t)" by (induction t) auto
  have "GMATCH ar s (quote_globbing_chars t) 0 (length s) 0 (length (quote_globbing_chars t)) False flags
      = Some (match_int (map (FOLD flags) (drop 0 s) = map (FOLD flags) t), None)"
    unfolding GMATCH_def using len by (intro gmatch_quoted [OF assms]) auto
  then show ?thesis
    by (simp add: strmatch_def xstrmatch_def internal_strmatch_def match_int_def)
qed

lemma quote_globbing_literal_witness:
  "shell_flags 0 \<and> cstring_ok ''a*(b)'' \<and> quote_globbing_chars ''a*(b)'' = [CHR ''a'', BSLASH, CHR ''*'', CHR ''('', CHR ''b'', CHR '')'']
   \<and> strmatch False (Some (quote_globbing_chars ''a*(b)'')) (Some ''a*(b)'') 0 = Some 0"
proof -
  have "shell_flags 0" "cstring_ok ''a*(b)''" by (simp_all add: shell_flags_def has_flag_def cstring_ok_def NUL_def)
  with quote_globbing_literal [of 0 "''a*(b)''" "''a*(b)''" False] show ?thesis
    by (simp add: glob_char_p_def char_at_def)
qed

end
