(* ===== verification/Braces.thy ===== *)
theory Braces
  imports General "HOL-Library.Monad_Syntax"
begin

text \<open>
  Brace expansion (\<^verbatim>\<open>braces.c\<close>), compiled for the shell and without \<^verbatim>\<open>CSH_BRACE_COMPAT\<close>. A vector of strings is a
  list. The parameter \<open>ecs\<close> stands for the parser's \<^verbatim>\<open>extract_command_subst\<close>: given the text and the position
  after the left parenthesis of a command substitution it returns the position of the closing parenthesis,
  or \<open>None\<close> if it reports a syntax error and jumps to the top level. The outcome \<open>None\<close> is that jump, a read behind
  the end of a string, or the size of a vector that does not fit an \<^verbatim>\<open>int\<close>, with which the code writes behind the vector. Memory does not
  run out and no signal arrives; a word is shorter than \<open>2\<^sup>3\<^sup>1\<close> bytes, as positions in it are \<^verbatim>\<open>int\<close>.
\<close>

section \<open>Finding a brace\<close>

definition brace_whitespace :: "char \<Rightarrow> bool" where
  "brace_whitespace c \<longleftrightarrow> c = NUL \<or> c = CHR '' '' \<or> c = TAB \<or> c = NEWLINE"

text \<open>
  The state of the loop: the position, the open quote (\<^verbatim>\<open>NUL\<close> for none), the nesting of braces, the number
  of separators seen, and whether the next character is passed over.
\<close>

function gobble ::
    "(cstring \<Rightarrow> nat \<Rightarrow> nat option) \<Rightarrow> cstring \<Rightarrow> char \<Rightarrow> nat \<Rightarrow> char \<Rightarrow> nat \<Rightarrow> nat \<Rightarrow> bool \<Rightarrow> (nat \<times> char) option" where
  "gobble ecs text satisfy i quoted level commas pass_next =
     (let c = char_at text i;
          comsub = (\<lambda>u. case ecs text (i + 2) of
                      None \<Rightarrow> None
                    | Some si \<Rightarrow> if si < i \<or> length text \<le> si then None
                                 else gobble ecs text satisfy (si + 1) quoted level commas False)
      in
      if c = NUL then Some (i, c)
      else if pass_next then gobble ecs text satisfy (i + 1) quoted level commas False
      else if c = BSLASH \<and> (quoted = NUL \<or> quoted = DQUOTE \<or> quoted = CHR 0x60)
      then gobble ecs text satisfy (i + 1) quoted level commas True
      else if c = CHR ''$'' \<and> char_at text (i + 1) = CHR ''{'' \<and> quoted \<noteq> SQUOTE
      then gobble ecs text satisfy (i + 1) quoted (if quoted = NUL then level + 1 else level) commas True
      else if quoted \<noteq> NUL then
        (let q = (if c = quoted then NUL else quoted)
         in if q = DQUOTE \<and> c = CHR ''$'' \<and> char_at text (i + 1) = CHR ''('' then comsub ()
            else gobble ecs text satisfy (i + 1) q level commas False)
      else if c = DQUOTE \<or> c = SQUOTE \<or> c = CHR 0x60 then gobble ecs text satisfy (i + 1) c level commas False
      else if (c = CHR ''$'' \<or> c = CHR ''<'' \<or> c = CHR ''>'') \<and> char_at text (i + 1) = CHR ''('' then comsub ()
      else if c = satisfy \<and> level = 0 \<and> commas > 0 then
        (if c = CHR ''{'' \<and> (i = 0 \<or> brace_whitespace (char_at text (i - 1)))
            \<and> (brace_whitespace (char_at text (i + 1)) \<or> char_at text (i + 1) = CHR ''}'')
         then gobble ecs text satisfy (i + 1) quoted level commas False
         else Some (i, c))
      else
        gobble ecs text satisfy (i + 1) quoted
          (if c = CHR ''{'' then level + 1 else if c = CHR ''}'' \<and> level > 0 then level - 1 else level)
          (if c = CHR ''{'' \<or> c = CHR ''}'' \<and> level > 0 then commas
           else if satisfy = CHR ''}'' \<and> c = CHR '','' \<and> level = 0 then commas + 1
           else if satisfy = CHR ''}'' \<and> c = CHR ''.'' \<and> char_at text (i + 1) = CHR ''.''
                   \<and> char_at text (i + 2) \<noteq> satisfy \<and> level = 0 then commas + 1
           else commas)
          False)"
  by pat_completeness auto
termination
  by (relation "measure (\<lambda>(ecs, text, satisfy, i, quoted, level, commas, pass_next). length text - i)")
     (auto dest: char_at_not_NUL)

declare gobble.simps [simp del]

definition brace_gobbler :: "(cstring \<Rightarrow> nat \<Rightarrow> nat option) \<Rightarrow> cstring \<Rightarrow> nat \<Rightarrow> char \<Rightarrow> (nat \<times> char) option" where
  "brace_gobbler ecs text indx satisfy =
     gobble ecs text satisfy indx NUL 0 (if satisfy = CHR ''}'' then 0 else 1) False"

lemma gobble_stops:
  "gobble ecs t satisfy i quoted level commas pass_next = Some (j, c) \<Longrightarrow>
   c = char_at t j \<and> (i \<le> length t \<longrightarrow> i \<le> j \<and> j \<le> length t) \<and> (c \<noteq> NUL \<longrightarrow> c = satisfy)"
proof (induction "length t - i" arbitrary: i quoted level commas pass_next rule: less_induct)
  case less
  show ?case
  proof (cases "char_at t i = NUL")
    case True
    then show ?thesis using less.prems by (subst (asm) gobble.simps) auto
  next
    case False
    then have i: "i < length t" by (rule char_at_not_NUL)
    have step: "c = char_at t j \<and> (i \<le> length t \<longrightarrow> i \<le> j \<and> j \<le> length t) \<and> (c \<noteq> NUL \<longrightarrow> c = satisfy)"
      if "gobble ecs t satisfy (Suc k) q l n p = Some (j, c)" "i \<le> k" "k < length t" for k q l n p
      using less.hyps [OF _ that(1)] that(2,3) i by force
    show ?thesis
      using less.prems False step [OF _ order_refl i]
      by (subst (asm) gobble.simps) (auto simp: Let_def simp del: not_less split: if_splits option.splits dest!: step)
  qed
qed

lemma gobbler_stops:
  assumes "brace_gobbler ecs text i satisfy = Some (j, c)" and "c \<noteq> NUL"
  shows "c = satisfy" "j < length text" "i \<le> j" "char_at text j = c"
proof -
  have g: "c = char_at text j" "i \<le> length text \<longrightarrow> i \<le> j" "c = satisfy"
    using gobble_stops [OF assms(1) [unfolded brace_gobbler_def]] assms(2) by auto
  then show "c = satisfy" "char_at text j = c" by simp_all
  show "j < length text" using g(1) assms(2) by (metis char_at_not_NUL)
  show "i \<le> j"
  proof (cases "i \<le> length text")
    case False
    then have "char_at text i = NUL" by (simp add: char_at_def)
    with assms show ?thesis by (simp add: brace_gobbler_def gobble.simps)
  qed (use g in simp)
qed

lemma gobbler_bounds: "brace_gobbler ecs t i satisfy = Some (j, c) \<Longrightarrow> c = NUL \<or> i \<le> j \<and> j < length t"
  using gobbler_stops(2,3) by blast

text \<open>The first brace that begins a valid brace expansion.\<close>

function find_brace :: "(cstring \<Rightarrow> nat \<Rightarrow> nat option) \<Rightarrow> cstring \<Rightarrow> nat \<Rightarrow> (nat \<times> char) option" where
  "find_brace ecs text i =
     (case brace_gobbler ecs text i (CHR ''{'') of
        None \<Rightarrow> None
      | Some (i', c) \<Rightarrow>
          if c = NUL then Some (i', c)
          else case brace_gobbler ecs text (i' + 1) (CHR ''}'') of
                 None \<Rightarrow> None
               | Some (j, c') \<Rightarrow> if c' = NUL then find_brace ecs text (i' + 1) else Some (i', c))"
  by pat_completeness auto
termination
proof (relation "measure (\<lambda>(ecs, text, i). length text - i)", goal_cases)
  case (2 ecs t i x i' c y j c')
  then have "brace_gobbler ecs t i (CHR ''{'') = Some (i', c)" "c \<noteq> NUL" by auto
  from gobbler_stops(2,3) [OF this] show ?case by simp
qed simp

declare find_brace.simps [simp del]

section \<open>Sequences\<close>

datatype seq_type = ST_BAD | ST_INT | ST_CHAR | ST_ZINT

text \<open>The magnitude of the smallest number is not a number; its negation wraps around to itself.\<close>

definition sh_imaxabs :: "int \<Rightarrow> int" where
  "sh_imaxabs x = (if x \<ge> 0 then x else wrap64 (- x))"

text \<open>\<^verbatim>\<open>asprintf (&t, "%0*d", width, arg)\<close>\<close>

definition zero_padded :: "nat \<Rightarrow> int \<Rightarrow> cstring" where
  "zero_padded width arg =
     (let sign = (if arg < 0 then ''-'' else []); ds = dec_text (nat \<bar>arg\<bar>)
      in sign @ replicate (width - length sign - length ds) (CHR ''0'') @ ds)"

definition seq_element :: "seq_type \<Rightarrow> nat \<Rightarrow> int \<Rightarrow> cstring" where
  "seq_element type width n =
     (if type = ST_INT then itos n
      else if type = ST_ZINT then zero_padded width (wrap32 n)
      else let c = char_of (nat (n mod 256)) in if c = NUL then [] else [c])"

text \<open>The loop over the numbers; the increment is not 0.\<close>

function mkseq_loop :: "int \<Rightarrow> int \<Rightarrow> int \<Rightarrow> int list" where
  "mkseq_loop n end_v incr =
     n # (if incr = 0 \<or> ADDOVERFLOW n incr INTMAX_MIN INTMAX_MAX then []
          else let n = n + incr
               in if incr < 0 \<and> n < end_v \<or> incr > 0 \<and> n > end_v then [] else mkseq_loop n end_v incr)"
  by pat_completeness auto
termination
  by (relation "measure (\<lambda>(n, end_v, incr). if incr > 0 then nat (end_v - n) else nat (n - end_v))") auto

declare mkseq_loop.simps [simp del]

text \<open>The number of elements for which the vector is allocated, before the terminator, an \<^verbatim>\<open>int\<close>.\<close>

definition mkseq_nelem :: "int \<Rightarrow> int \<Rightarrow> int \<Rightarrow> int" where
  "mkseq_nelem start end_v incr = wrap32 (cquot (sh_imaxabs (end_v - start)) (sh_imaxabs incr) + 1)"

text \<open>The increment as the function uses it: not 0, and in the direction from start to end.\<close>

definition mkseq_incr :: "int \<Rightarrow> int \<Rightarrow> int \<Rightarrow> int option" where
  "mkseq_incr start end_v incr =
     (let incr = (if incr = 0 then 1 else incr)
      in if start > end_v \<and> incr > 0 then Some (- incr)
         else if start < end_v \<and> incr < 0 then (if incr = INTMAX_MIN then None else Some (- incr))
         else Some incr)"

text \<open>
  The result is \<open>Some None\<close> where the code returns \<^verbatim>\<open>NULL\<close>, and \<open>None\<close> where it stores more elements than the vector has room for.
\<close>

definition mkseq :: "int \<Rightarrow> int \<Rightarrow> int \<Rightarrow> seq_type \<Rightarrow> nat \<Rightarrow> cstring list option option" where
  "mkseq start end_v incr type width =
     (case mkseq_incr start end_v incr of
        None \<Rightarrow> Some None
      | Some incr \<Rightarrow>
          if SUBOVERFLOW end_v start (INTMAX_MIN + 3) (INTMAX_MAX - 2) then Some None
          else
            let prevn = sh_imaxabs (end_v - start)
            in if ADDOVERFLOW (cquot prevn (sh_imaxabs incr)) 1 INTMAX_MIN INTMAX_MAX then Some None
               else if cquot prevn (sh_imaxabs incr) > INT_MAX - 3 then Some None
               else let ns = mkseq_loop start end_v incr
                    in if int (length ns) > mkseq_nelem start end_v incr then None
                       else Some (Some (map (seq_element type width) ns)))"

text \<open>The position of the first \<^verbatim>\<open>..\<close>\<close>

fun find_dots :: "cstring \<Rightarrow> nat option" where
  "find_dots (c # d # s) =
     (if c = CHR ''.'' \<and> d = CHR ''.'' then Some 0 else map_option Suc (find_dots (d # s)))"
| "find_dots s = None"

text \<open>The right-hand side: its type, its value, and the position after it.\<close>

definition seq_rhs :: "cstring \<Rightarrow> seq_type \<times> int \<times> nat" where
  "seq_rhs rhs =
     (if ISDIGIT (char_at rhs 0) \<or> (char_at rhs 0 = CHR ''+'' \<or> char_at rhs 0 = CHR ''-'') \<and> ISDIGIT (char_at rhs 1)
      then let (tr, ep, erange) = strtoimax rhs
           in (if erange \<or> char_at rhs ep \<noteq> NUL \<and> char_at rhs ep \<noteq> CHR ''.'' then ST_BAD else ST_INT, tr, ep)
      else if ISALPHA (char_at rhs 0) \<and> (char_at rhs 1 = NUL \<or> char_at rhs 1 = CHR ''.'')
      then (ST_CHAR, int (code (char_at rhs 0)), 1)
      else (ST_BAD, 0, 0))"

text \<open>The increment: its value and the position after it, or \<open>None\<close> if it is invalid.\<close>

definition seq_incr :: "cstring \<Rightarrow> nat \<Rightarrow> (int \<times> nat) option" where
  "seq_incr rhs ep =
     (if char_at rhs ep = CHR ''.'' \<and> char_at rhs (ep + 1) = CHR ''.'' \<and> char_at rhs (ep + 2) \<noteq> NUL
      then let (incr, e, erange) = strtoimax (drop (ep + 2) rhs)
           in if char_at rhs (ep + 2 + e) \<noteq> NUL \<or> erange then None else Some (incr, ep + 2 + e)
      else if char_at rhs ep \<noteq> NUL then None
      else Some (1, ep))"

text \<open>Zero-padding: the width and whether it is wanted.\<close>

definition seq_width :: "cstring \<Rightarrow> nat \<Rightarrow> cstring \<Rightarrow> nat \<Rightarrow> nat \<times> seq_type" where
  "seq_width lhs lhs_l rhs rhs_l =
     (let (width, t) = (0, ST_INT);
          (width, t) = (if lhs_l > 1 \<and> char_at lhs 0 = CHR ''0'' then (lhs_l, ST_ZINT) else (width, t));
          (width, t) = (if lhs_l > 2 \<and> char_at lhs 0 = CHR ''-'' \<and> char_at lhs 1 = CHR ''0'' then (lhs_l, ST_ZINT) else (width, t));
          (width, t) = (if rhs_l > 1 \<and> char_at rhs 0 = CHR ''0'' \<and> width < rhs_l then (rhs_l, ST_ZINT) else (width, t));
          (width, t) = (if rhs_l > 2 \<and> char_at rhs 0 = CHR ''-'' \<and> char_at rhs 1 = CHR ''0'' \<and> width < rhs_l
                        then (rhs_l, ST_ZINT) else (width, t));
          width = (if width < lhs_l \<and> t = ST_ZINT then lhs_l else width);
          width = (if width < rhs_l \<and> t = ST_ZINT then rhs_l else width)
      in (width, t))"

definition expand_seqterm :: "cstring \<Rightarrow> cstring list option option" where
  "expand_seqterm text =
     (case find_dots text of
        None \<Rightarrow> Some None
      | Some lhs_l \<Rightarrow>
          let lhs = substring text 0 lhs_l; rhs = substring text (lhs_l + 2) (length text)
          in if lhs = [] \<or> rhs = [] then Some None
             else
               let lhs_t = (if legal_number (Some lhs) \<noteq> None then ST_INT
                            else if ISALPHA (char_at lhs 0) \<and> char_at lhs 1 = NUL then ST_CHAR else ST_BAD);
                   (rhs_t, tr, ep) = seq_rhs rhs
               in if rhs_t = ST_BAD then Some None
                  else case seq_incr rhs ep of
                         None \<Rightarrow> Some None
                       | Some (incr, e) \<Rightarrow>
                           if lhs_t \<noteq> rhs_t then Some None
                           else if lhs_t = ST_CHAR
                           then mkseq (int (code (char_at lhs 0))) (int (code (char_at rhs 0))) incr ST_CHAR 1
                           else
                             let (width, t) = seq_width lhs lhs_l rhs (length text - (e - ep) - lhs_l - 2)
                             in mkseq (the (legal_number (Some lhs))) tr incr t width)"

section \<open>The expansion of a word\<close>

text \<open>
  The sizes are computed in \<^verbatim>\<open>int\<close>, and so is the length of a string of the first vector; the outcome \<open>None\<close> says that one does not fit.
\<close>

definition array_concat :: "cstring list option \<Rightarrow> cstring list option \<Rightarrow> cstring list option option" where
  "array_concat arr1 arr2 =
     (case (arr1, arr2) of
        (None, _) \<Rightarrow> Some arr2
      | (_, None) \<Rightarrow> Some arr1
      | (Some a, Some b) \<Rightarrow>
          if a = [[]] then Some arr2
          else if b = [[]] then Some arr1
          else if 1 + int (length a) * int (length b) > INT_MAX \<or> list_ex (\<lambda>x. int (length x) > INT_MAX) a then None
          else Some (Some (concat (map (\<lambda>x. map (\<lambda>y. x @ y) b) a))))"

text \<open>Is there an unquoted separator? A backslash at the end would make the loop read behind the terminator.\<close>

fun has_separator :: "cstring \<Rightarrow> bool option" where
  "has_separator [] = Some False"
| "has_separator (c # s) =
     (if c = BSLASH then (case s of [] \<Rightarrow> None | d # s' \<Rightarrow> has_separator s')
      else if c = CHR '','' then Some True
      else has_separator s)"

text \<open>The parts of the text inside braces, between the separators.\<close>

function amble_parts :: "(cstring \<Rightarrow> nat \<Rightarrow> nat option) \<Rightarrow> cstring \<Rightarrow> nat \<Rightarrow> cstring list option" where
  "amble_parts ecs text i =
     (case brace_gobbler ecs text i (CHR '','') of
        None \<Rightarrow> None
      | Some (j, c) \<Rightarrow>
          if c = NUL then Some [substring text i j]
          else map_option (\<lambda>ps. substring text i j # ps) (amble_parts ecs text (j + 1)))"
  by pat_completeness auto
termination
proof (relation "measure (\<lambda>(ecs, text, i). length text - i)", goal_cases)
  case (2 ecs t i x j c)
  then have "brace_gobbler ecs t i (CHR '','') = Some (j, c)" "c \<noteq> NUL" by auto
  from gobbler_stops(2,3) [OF this] show ?case by simp
qed simp

declare amble_parts.simps [simp del]

lemma substring_length: "length (substring s i j) \<le> length s"
  by (simp add: substring_def)

lemma amble_parts_shorter: "amble_parts ecs t i = Some ps \<Longrightarrow> p \<in> set ps \<Longrightarrow> length p \<le> length t"
proof (induction ecs t i arbitrary: ps rule: amble_parts.induct)
  case (1 ecs t i)
  then show ?case
    by (subst (asm) (2) amble_parts.simps)
       (fastforce simp: substring_length split: option.splits prod.splits if_splits)
qed

fun all_some :: "'a option list \<Rightarrow> 'a list option" where
  "all_some [] = Some []"
| "all_some (x # xs) = do { a \<leftarrow> x; as \<leftarrow> all_some xs; Some (a # as) }"

text \<open>The results for the parts are appended to the first one, which grows; its size is an \<^verbatim>\<open>int\<close>.\<close>

fun append_partial :: "cstring list \<Rightarrow> cstring list list \<Rightarrow> cstring list option" where
  "append_partial result [] = Some result"
| "append_partial result (partial # ps) =
     (if int (length partial) + int (length result) + 1 > INT_MAX then None else append_partial (result @ partial) ps)"

definition join_results :: "cstring list list \<Rightarrow> cstring list option" where
  "join_results rs = (case rs of [] \<Rightarrow> Some [] | result # rs \<Rightarrow> append_partial result rs)"

text \<open>
  The text inside braces is expanded part by part. When a sequence cannot be expanded it stands for
  itself, with its braces, if more text follows; otherwise the whole word does.
\<close>

definition expand_amble ::
    "(cstring \<Rightarrow> cstring list option) \<Rightarrow> (cstring \<Rightarrow> nat \<Rightarrow> nat option) \<Rightarrow> cstring \<Rightarrow> cstring list option" where
  "expand_amble expand ecs text =
     (case amble_parts ecs text 0 of
        None \<Rightarrow> None
      | Some ps \<Rightarrow> all_some (map expand ps) \<bind> join_results)"

lemma expand_amble_cong [fundef_cong]:
  assumes "ecs = ecs'" and "t = t'" and "\<And>p. length p \<le> length t' \<Longrightarrow> f p = g p"
  shows "expand_amble f ecs t = expand_amble g ecs' t'"
  using assms(1,2) amble_parts_shorter [of ecs' t' 0] assms(3)
  by (auto simp: expand_amble_def split: option.split intro!: arg_cong [where f = "\<lambda>x. all_some x \<bind> join_results"])

function brace_expand :: "(cstring \<Rightarrow> nat \<Rightarrow> nat option) \<Rightarrow> cstring \<Rightarrow> cstring list option" where
  "brace_expand ecs text =
     (case find_brace ecs text 0 of
        None \<Rightarrow> None
      | Some (i, c) \<Rightarrow>
          if c \<noteq> CHR ''{'' then Some [take i text]
          else
            case brace_gobbler ecs text (i + 1) (CHR ''}'') of
              None \<Rightarrow> None
            | Some (j, c) \<Rightarrow>
                if c = NUL then Some [text]
                else
                  let amble = substring text (i + 1) j; postamble = drop (j + 1) text in
                  case has_separator amble of
                    None \<Rightarrow> None
                  | Some sep \<Rightarrow>
                    case (if sep then Some None else expand_seqterm amble) of
                      None \<Rightarrow> None
                    | Some seq \<Rightarrow>
                      if \<not> sep \<and> seq = None \<and> postamble = [] then Some [text]
                      else
                        case (if sep then expand_amble (\<lambda>p. brace_expand ecs p) ecs amble
                              else if seq \<noteq> None then seq
                              else Some [substring text i (j + 1)]) of
                          None \<Rightarrow> None
                        | Some tack \<Rightarrow>
                            case array_concat (Some [take i text]) (Some tack) of
                              None \<Rightarrow> None
                            | Some result \<Rightarrow>
                                if postamble = [] then result
                                else case brace_expand ecs postamble of
                                       None \<Rightarrow> None
                                     | Some tack \<Rightarrow> array_concat result (Some tack) \<bind> (\<lambda>r. r))"
  by pat_completeness auto
termination
  by (relation "measure (\<lambda>(ecs, text). length text)")
     (auto dest!: gobbler_bounds simp: substring_def)

declare brace_expand.simps [simp del]

end
