(* ===== verification/Braces_Correct.thy ===== *)
theory Braces_Correct
  imports Braces
begin

text \<open>
  Brace expansion produces what a word means: every way of choosing one alternative from each pair of
  braces, from left to right, and for a sequence every number or letter from its first to its last term.
\<close>

section \<open>Words with braces\<close>

datatype belem = Letter char | Escaped char | Choice "belem list list"
  | Numbers int int "int option" | Letters char char "int option"

primrec join_comma :: "cstring list \<Rightarrow> cstring" where
  "join_comma [] = []"
| "join_comma (s # ss) = s @ (if ss = [] then [] else CHR '','' # join_comma ss)"

definition incr_text :: "int option \<Rightarrow> cstring" where
  "incr_text k = (case k of None \<Rightarrow> [] | Some n \<Rightarrow> ''..'' @ itos n)"

primrec belem_text :: "belem \<Rightarrow> cstring" where
  "belem_text (Letter c) = [c]"
| "belem_text (Escaped c) = [BSLASH, c]"
| "belem_text (Choice alts) = ''{'' @ join_comma (map concat (map (map belem_text) alts)) @ ''}''"
| "belem_text (Numbers a b k) = ''{'' @ (itos a @ ''..'' @ itos b @ incr_text k) @ ''}''"
| "belem_text (Letters a b k) = ''{'' @ ([a] @ ''..'' @ [b] @ incr_text k) @ ''}''"

definition word_text :: "belem list \<Rightarrow> cstring" where
  "word_text w = concat (map belem_text w)"

text \<open>The terms of a sequence: from \<open>a\<close> towards \<open>b\<close> by steps of the size of the increment, 1 if it is 0.\<close>

definition step_size :: "int option \<Rightarrow> int" where
  "step_size k = (case k of None \<Rightarrow> 1 | Some n \<Rightarrow> if n = 0 then 1 else \<bar>n\<bar>)"

definition progression :: "int \<Rightarrow> int \<Rightarrow> int \<Rightarrow> int list" where
  "progression a b s = map (\<lambda>i. if a \<le> b then a + int i * s else a - int i * s) [0..<nat (\<bar>b - a\<bar> div s) + 1]"

definition combine :: "cstring list \<Rightarrow> cstring list \<Rightarrow> cstring list" where
  "combine xs ys = concat (map (\<lambda>x. map ((@) x) ys) xs)"

primrec belem_words :: "belem \<Rightarrow> cstring list" where
  "belem_words (Letter c) = [[c]]"
| "belem_words (Escaped c) = [[BSLASH, c]]"
| "belem_words (Choice alts) = concat (map (\<lambda>ws. foldr combine ws [[]]) (map (map belem_words) alts))"
| "belem_words (Numbers a b k) = map itos (progression a b (step_size k))"
| "belem_words (Letters a b k) = map (\<lambda>n. [char_of (nat n)]) (progression (int (code a)) (int (code b)) (step_size k))"

definition words :: "belem list \<Rightarrow> cstring list" where
  "words w = foldr combine (map belem_words w) [[]]"

text \<open>Characters without a special meaning, and sequences that are not too long.\<close>

definition ordinary :: "char \<Rightarrow> bool" where
  "ordinary c \<longleftrightarrow> c \<noteq> NUL \<and> c \<noteq> BSLASH \<and> c \<noteq> DQUOTE \<and> c \<noteq> SQUOTE \<and> c \<noteq> CHR 0x60 \<and> c \<notin> set ''$<>{},''
     \<and> \<not> brace_whitespace c"

definition incr_ok :: "int option \<Rightarrow> bool" where
  "incr_ok k \<longleftrightarrow> (case k of None \<Rightarrow> True | Some n \<Rightarrow> in_int64 n \<and> n \<noteq> INTMAX_MIN)"

primrec belem_ok :: "belem \<Rightarrow> bool" where
  "belem_ok (Letter c) \<longleftrightarrow> ordinary c"
| "belem_ok (Escaped c) \<longleftrightarrow> c \<noteq> NUL"
| "belem_ok (Choice alts) \<longleftrightarrow> 2 \<le> length alts \<and> list_all (list_all id) (map (map belem_ok) alts)"
| "belem_ok (Numbers a b k) \<longleftrightarrow> in_int64 a \<and> in_int64 b \<and> incr_ok k \<and> \<bar>b - a\<bar> \<le> INTMAX_MAX - 2
     \<and> \<bar>b - a\<bar> div step_size k \<le> INT_MAX - 3"
| "belem_ok (Letters a b k) \<longleftrightarrow> ISALPHA a \<and> ISALPHA b \<and> incr_ok k"

definition word_ok :: "belem list \<Rightarrow> bool" where
  "word_ok w \<longleftrightarrow> list_all belem_ok w"

lemma belem_Choice:
  "belem_text (Choice alts) = ''{'' @ join_comma (map word_text alts) @ ''}''"
  "belem_words (Choice alts) = concat (map words alts)"
  "belem_ok (Choice alts) \<longleftrightarrow> 2 \<le> length alts \<and> list_all word_ok alts"
proof -
  show "belem_text (Choice alts) = ''{'' @ join_comma (map word_text alts) @ ''}''"
    by (simp add: word_text_def [abs_def] comp_def)
  show "belem_words (Choice alts) = concat (map words alts)"
    by (simp add: words_def [abs_def] comp_def)
  show "belem_ok (Choice alts) \<longleftrightarrow> 2 \<le> length alts \<and> list_all word_ok alts"
    by (simp add: word_ok_def list_all_iff)
qed

declare belem_text.simps(3) [simp del] and belem_words.simps(3) [simp del] and belem_ok.simps(3) [simp del]

lemma word_simps [simp]:
  "word_text [] = []" "word_text (e # w) = belem_text e @ word_text w"
  "words [] = [[]]" "words (e # w) = combine (belem_words e) (words w)"
  "word_ok [] " "word_ok (e # w) \<longleftrightarrow> belem_ok e \<and> word_ok w"
  by (simp_all add: word_text_def words_def word_ok_def)

section \<open>The terms of a sequence\<close>

lemma mkseq_loop_terms:
  assumes "0 < s" and "d = 1 \<or> d = - 1" and "0 \<le> d * (b - a)" and "in_int64 a" and "in_int64 b"
  shows "mkseq_loop a b (d * s) = map (\<lambda>i. a + int i * (d * s)) [0..<nat (d * (b - a) div s) + 1]"
  using assms
proof (induction "nat (d * (b - a))" arbitrary: a rule: less_induct)
  case less
  have over: "ADDOVERFLOW a (d * s) INTMAX_MIN INTMAX_MAX \<Longrightarrow> d * (b - a) < s"
    using less.prems by (auto simp: ADDOVERFLOW_def in_int64_def INTMAX_MIN_def INTMAX_MAX_def)
  have past: "(d * s < 0 \<and> a + d * s < b \<or> d * s > 0 \<and> a + d * s > b) \<longleftrightarrow> d * (b - a) < s"
    using less.prems(1,2) by auto
  have nz: "d * s \<noteq> 0" using less.prems(1,2) by auto
  show ?case
  proof (cases "d * (b - a) < s")
    case True
    then have "d * (b - a) div s = 0" using less.prems by (simp add: div_pos_pos_trivial)
    moreover have "mkseq_loop a b (d * s) = [a]"
      using True past by (subst mkseq_loop.simps) (simp add: Let_def)
    ultimately show ?thesis by simp
  next
    case False
    have rest: "d * (b - (a + d * s)) = d * (b - a) - s" using less.prems(2) by (auto simp: algebra_simps)
    have "d * (b - a) div s = (d * (b - a) - s) div s + 1"
      using less.prems(1) div_add_self2 [of s "d * (b - a) - s"] by simp
    moreover have "0 \<le> (d * (b - a) - s) div s" using False less.prems(1) by (simp add: pos_imp_zdiv_nonneg_iff)
    ultimately have n: "nat (d * (b - a) div s) = Suc (nat (d * (b - (a + d * s)) div s))" by (simp add: rest)
    have "mkseq_loop a b (d * s) = a # mkseq_loop (a + d * s) b (d * s)"
      using False over past nz by (subst mkseq_loop.simps) (auto simp: Let_def)
    moreover have "mkseq_loop (a + d * s) b (d * s) = map (\<lambda>i. a + d * s + int i * (d * s)) [0..<nat (d * (b - (a + d * s)) div s) + 1]"
      using False less.prems rest by (intro less.hyps) (auto simp: in_int64_def)
    moreover have "map f [0..<Suc m + 1] = f 0 # map (\<lambda>i. f (Suc i)) [0..<m + 1]" for f :: "nat \<Rightarrow> int" and m
      by (simp add: upt_conv_Cons map_Suc_upt [symmetric] comp_def del: upt_Suc map_Suc_upt)
    ultimately show ?thesis unfolding n by (simp add: distrib_right add.assoc del: upt_Suc)
  qed
qed

lemma sh_imaxabs_abs: "in_int64 \<bar>x\<bar> \<Longrightarrow> sh_imaxabs x = \<bar>x\<bar>"
  by (simp add: sh_imaxabs_def abs_if split: if_splits)

lemma mkseq_terms:
  assumes "in_int64 a" and "in_int64 b" and "incr_ok k" and "\<bar>b - a\<bar> \<le> INTMAX_MAX - 2"
    and "\<bar>b - a\<bar> div step_size k \<le> INT_MAX - 3"
  shows "mkseq a b (case k of None \<Rightarrow> 1 | Some n \<Rightarrow> n) type width = Some (Some (map (seq_element type width) (progression a b (step_size k))))"
proof -
  define s where "s = step_size k"
  define d :: int where "d = (if a < b then 1 else if a > b then - 1 else if (case k of None \<Rightarrow> 1 | Some n \<Rightarrow> n) < 0 then - 1 else 1)"
  have s: "0 < s" by (auto simp: s_def step_size_def split: option.split)
  have incr: "mkseq_incr a b (case k of None \<Rightarrow> 1 | Some n \<Rightarrow> n) = Some (d * s)"
    using assms(3) by (auto simp: mkseq_incr_def d_def s_def step_size_def incr_ok_def Let_def split: option.splits)
  have d: "d = 1 \<or> d = - 1" "0 \<le> d * (b - a)" "d * (b - a) = \<bar>b - a\<bar>" by (auto simp: d_def)
  have abs: "sh_imaxabs (d * s) = s" "sh_imaxabs (b - a) = \<bar>b - a\<bar>"
  proof -
    have "in_int64 s" using assms(3) by (auto simp: s_def step_size_def incr_ok_def in_int64_def INTMAX_MIN_def split: option.splits)
    then show "sh_imaxabs (d * s) = s" using s d(1) sh_imaxabs_abs [of s] sh_imaxabs_abs [of "- s"] by auto
    show "sh_imaxabs (b - a) = \<bar>b - a\<bar>" using assms(4) by (intro sh_imaxabs_abs) (simp add: in_int64_def INTMAX_MAX_def)
  qed
  have "\<not> SUBOVERFLOW b a (INTMAX_MIN + 3) (INTMAX_MAX - 2)"
    using assms(4) by (auto simp: SUBOVERFLOW_def INTMAX_MIN_def INTMAX_MAX_def)
  moreover have "\<not> ADDOVERFLOW (\<bar>b - a\<bar> div s) 1 INTMAX_MIN INTMAX_MAX" "\<not> \<bar>b - a\<bar> div s > INT_MAX - 3"
    using assms(5) s pos_imp_zdiv_nonneg_iff [OF s, of "\<bar>b - a\<bar>"]
    by (auto simp: ADDOVERFLOW_def INT_MAX_def INTMAX_MAX_def s_def)
  moreover have p: "progression a b s = mkseq_loop a b (d * s)"
    unfolding mkseq_loop_terms [OF s d(1,2) assms(1,2)] progression_def d(3)
    by (intro map_cong refl) (auto simp: d_def)
  moreover have "int (length (mkseq_loop a b (d * s))) = mkseq_nelem a b (d * s)"
    using assms(5) s pos_imp_zdiv_nonneg_iff [OF s, of "\<bar>b - a\<bar>"] unfolding p [symmetric]
    by (simp add: progression_def mkseq_nelem_def abs s_def [symmetric] in_int32_def INT_MAX_def)
  ultimately show ?thesis
    using s by (simp add: mkseq_def incr abs s_def [symmetric] Let_def)
qed

section \<open>Passing over a word\<close>

definition passes :: "(cstring \<Rightarrow> nat \<Rightarrow> nat option) \<Rightarrow> cstring \<Rightarrow> char \<Rightarrow> nat \<Rightarrow> nat \<Rightarrow> nat \<Rightarrow> bool" where
  "passes ecs t satisfy l i n \<longleftrightarrow>
     (\<forall>k. \<exists>k'\<ge>k. (satisfy = CHR ''}'' \<or> k' = k)
        \<and> gobble ecs t satisfy i NUL l k False = gobble ecs t satisfy (i + n) NUL l k' False)"

lemma passes_append: "passes ecs t satisfy l i n \<Longrightarrow> passes ecs t satisfy l (i + n) m \<Longrightarrow> passes ecs t satisfy l i (n + m)"
  unfolding passes_def by (metis add.assoc order_trans)

lemma passes_0 [simp]: "passes ecs t satisfy l i 0"
  by (auto simp: passes_def)

lemma char_at_drop_simps:
  "drop i t = c # r \<Longrightarrow> char_at t i = c" "drop i t = c # r \<Longrightarrow> drop (Suc i) t = r"
  "drop i t = c # d # r \<Longrightarrow> char_at t (Suc i) = d"
  by (simp_all add: char_at_drop drop_Suc_tl)

lemma passes_ordinary:
  assumes "drop i t = c # r" and "ordinary c" and "satisfy \<in> set ''{},''"
  shows "passes ecs t satisfy l i 1"
  unfolding passes_def
proof
  fix k :: nat
  let ?k = "if satisfy = CHR ''}'' \<and> c = CHR ''.'' \<and> char_at t (i + 1) = CHR ''.'' \<and> char_at t (i + 2) \<noteq> satisfy \<and> l = 0
            then k + 1 else k"
  have "gobble ecs t satisfy i NUL l k False = gobble ecs t satisfy (i + 1) NUL l ?k False"
    using assms char_at_drop_simps(1) [OF assms(1)]
    by (subst gobble.simps) (auto simp: Let_def ordinary_def)
  then show "\<exists>k'\<ge>k. (satisfy = CHR ''}'' \<or> k' = k) \<and> gobble ecs t satisfy i NUL l k False = gobble ecs t satisfy (i + 1) NUL l k' False"
    by (intro exI [of _ ?k]) auto
qed

lemma passes_chars:
  assumes "list_all ordinary xs" and "drop i t = xs @ r" and "satisfy \<in> set ''{},''"
  shows "passes ecs t satisfy l i (length xs)"
  using assms(1,2)
proof (induction xs arbitrary: i)
  case (Cons c xs)
  then have "passes ecs t satisfy l i 1" using passes_ordinary assms(3) by auto
  moreover have "passes ecs t satisfy l (i + 1) (length xs)"
    using Cons char_at_drop_simps(2) [of i t c "xs @ r"] by (intro Cons.IH) auto
  ultimately show ?case using passes_append by fastforce
qed simp

lemma passes_escaped:
  assumes "drop i t = BSLASH # c # r" and "c \<noteq> NUL"
  shows "passes ecs t satisfy l i 2"
  unfolding passes_def
proof
  fix k :: nat
  have "gobble ecs t satisfy i NUL l k False = gobble ecs t satisfy (i + 2) NUL l k False"
    using char_at_drop_simps(1,3) [OF assms(1)] assms(2)
    by (subst gobble.simps) (simp add: gobble.simps [of ecs t satisfy "Suc i"] NUL_def)
  then show "\<exists>k'\<ge>k. (satisfy = CHR ''}'' \<or> k' = k) \<and> gobble ecs t satisfy i NUL l k False = gobble ecs t satisfy (i + 2) NUL l k' False"
    by (intro exI [of _ k]) auto
qed

text \<open>A pair of braces, whose contents are passed over at the next level.\<close>

lemma passes_braces:
  assumes "drop i t = CHR ''{'' # xs @ CHR ''}'' # r" and "passes ecs t satisfy (Suc l) (Suc i) (length xs)"
    and "satisfy \<in> set '','' \<or> satisfy = CHR ''}'' \<or> l > 0"
  shows "passes ecs t satisfy l i (length xs + 2)"
  unfolding passes_def
proof
  fix k :: nat
  have cl: "drop (Suc i + length xs) t = CHR ''}'' # r"
    using char_at_drop_simps(2) [OF assms(1)] by (rule drop_after)
  have open_b: "gobble ecs t satisfy i NUL l k False = gobble ecs t satisfy (Suc i) NUL (Suc l) k False"
    using char_at_drop_simps(1) [OF assms(1)] assms(3) by (subst gobble.simps) (auto simp: Let_def NUL_def)
  obtain k' where k': "k' \<ge> k" "satisfy = CHR ''}'' \<or> k' = k"
    "gobble ecs t satisfy (Suc i) NUL (Suc l) k False = gobble ecs t satisfy (Suc i + length xs) NUL (Suc l) k' False"
    using assms(2) unfolding passes_def by blast
  have "gobble ecs t satisfy (Suc i + length xs) NUL (Suc l) k' False = gobble ecs t satisfy (Suc (Suc i + length xs)) NUL l k' False"
    using char_at_drop_simps(1) [OF cl] by (subst gobble.simps) (auto simp: Let_def NUL_def)
  with open_b k' show "\<exists>k'\<ge>k. (satisfy = CHR ''}'' \<or> k' = k)
      \<and> gobble ecs t satisfy i NUL l k False = gobble ecs t satisfy (i + (length xs + 2)) NUL l k' False"
    by (intro exI [of _ k']) (simp add: numeral_2_eq_2)
qed

definition is_char :: "belem \<Rightarrow> bool" where
  "is_char e \<longleftrightarrow> (case e of Letter c \<Rightarrow> True | Escaped c \<Rightarrow> True | _ \<Rightarrow> False)"

lemma passes_comma:
  assumes "drop i t = CHR '','' # r" and "l > 0"
  shows "passes ecs t satisfy l i 1"
  using char_at_drop_simps(1) [OF assms(1)] assms(2)
  by (auto simp: passes_def gobble.simps [of ecs t satisfy i] NUL_def)

lemma ordinary_digit: "ISDIGIT c \<Longrightarrow> ordinary c"
  by (auto simp: ordinary_def ISDIGIT_def brace_whitespace_def NUL_def)

lemma ordinary_alpha: "ISALPHA c \<Longrightarrow> ordinary c"
  by (auto simp: ordinary_def ISALPHA_def ISLOWER_def ISUPPER_def brace_whitespace_def NUL_def)

lemma ordinary_itos: "in_int64 n \<Longrightarrow> list_all ordinary (itos n)"
proof -
  assume n: "in_int64 n"
  have "list_all ordinary (dec_text m)" for m
    using dec_text_facts(1) [of m] by (auto simp: list_all_iff ordinary_digit)
  moreover have "ordinary (CHR ''-'')" by (simp add: ordinary_def brace_whitespace_def NUL_def)
  ultimately show ?thesis using itos_dec_text [OF n] by simp
qed

definition seq_text :: "cstring \<Rightarrow> cstring \<Rightarrow> int option \<Rightarrow> cstring" where
  "seq_text a b k = a @ ''..'' @ b @ incr_text k"

lemma ordinary_seq: "list_all ordinary a \<Longrightarrow> list_all ordinary b \<Longrightarrow> incr_ok k \<Longrightarrow> list_all ordinary (seq_text a b k)"
proof -
  have "ordinary (CHR ''.'')" by (simp add: ordinary_def brace_whitespace_def NUL_def)
  then show "list_all ordinary a \<Longrightarrow> list_all ordinary b \<Longrightarrow> incr_ok k \<Longrightarrow> list_all ordinary (seq_text a b k)"
    by (auto simp: seq_text_def incr_text_def incr_ok_def ordinary_itos split: option.splits)
qed

lemma passes_seq:
  assumes "drop i t = CHR ''{'' # xs @ CHR ''}'' # r" and "list_all ordinary xs"
    and "satisfy \<in> set ''},'' \<or> satisfy = CHR ''{'' \<and> l > 0"
  shows "passes ecs t satisfy l i (length xs + 2)"
  using assms char_at_drop_simps(2) [OF assms(1)]
  by (intro passes_braces [OF assms(1)] passes_chars [OF assms(2)]) auto

lemma passes_list:
  assumes "\<And>e i r. e \<in> set w \<Longrightarrow> drop i t = belem_text e @ r \<Longrightarrow> passes ecs t satisfy l i (length (belem_text e))"
    and "drop i t = word_text w @ r"
  shows "passes ecs t satisfy l i (length (word_text w))"
  using assms
proof (induction w arbitrary: i)
  case (Cons e w)
  then have "passes ecs t satisfy l i (length (belem_text e))" by auto
  moreover have "passes ecs t satisfy l (i + length (belem_text e)) (length (word_text w))"
    using Cons.prems drop_after [of i t "belem_text e" "word_text w @ r"] by (intro Cons.IH) auto
  ultimately show ?case using passes_append by simp
qed simp

lemma passes_join:
  assumes "\<And>w i r. w \<in> set ws \<Longrightarrow> drop i t = word_text w @ r \<Longrightarrow> passes ecs t satisfy l i (length (word_text w))"
    and "drop i t = join_comma (map word_text ws) @ r" and "l > 0"
  shows "passes ecs t satisfy l i (length (join_comma (map word_text ws)))"
  using assms(1,2)
proof (induction ws arbitrary: i)
  case (Cons w ws)
  then have w: "passes ecs t satisfy l i (length (word_text w))" by auto
  show ?case
  proof (cases "ws = []")
    case False
    then have "drop i t = word_text w @ CHR '','' # join_comma (map word_text ws) @ r" using Cons.prems(2) by simp
    then have d: "drop (i + length (word_text w)) t = CHR '','' # join_comma (map word_text ws) @ r" by (rule drop_after)
    have "passes ecs t satisfy l (i + length (word_text w)) 1" by (rule passes_comma [OF d assms(3)])
    moreover have "passes ecs t satisfy l (i + length (word_text w) + 1) (length (join_comma (map word_text ws)))"
      using Cons.prems char_at_drop_simps(2) [OF d] by (intro Cons.IH) auto
    ultimately have "passes ecs t satisfy l i (length (word_text w) + (1 + length (join_comma (map word_text ws))))"
      by (intro passes_append [OF w passes_append])
    then show ?thesis using False by simp
  qed (use w in simp)
qed simp

lemma passes_elem:
  assumes "belem_ok e" and "drop i t = belem_text e @ r" and "satisfy \<in> set ''{},''"
    and "satisfy \<noteq> CHR ''{'' \<or> l > 0 \<or> is_char e"
  shows "passes ecs t satisfy l i (length (belem_text e))"
  using assms
proof (induction e arbitrary: i l r)
  case (Choice alts)
  let ?xs = "join_comma (map word_text alts)"
  have d: "drop i t = CHR ''{'' # ?xs @ CHR ''}'' # r" using Choice.prems(2) by (simp add: belem_Choice)
  have "passes ecs t satisfy (Suc l) j (length (word_text w))" if "w \<in> set alts" "drop j t = word_text w @ r" for w j r
  proof (rule passes_list [OF _ that(2)])
    fix e i r assume "e \<in> set w" "drop i t = belem_text e @ r"
    moreover have "belem_ok e"
      using Choice.prems(1) that(1) \<open>e \<in> set w\<close> by (auto simp: belem_Choice word_ok_def list_all_iff)
    ultimately show "passes ecs t satisfy (Suc l) i (length (belem_text e))"
      using that(1) Choice.prems(3) by (intro Choice.IH) auto
  qed
  then have "passes ecs t satisfy (Suc l) (Suc i) (length ?xs)"
    using char_at_drop_simps(2) [OF d] by (intro passes_join) auto
  then have "passes ecs t satisfy l i (length ?xs + 2)"
    using Choice.prems(3,4) by (intro passes_braces [OF d]) (auto simp: is_char_def)
  then show ?case by (simp add: belem_Choice)
next
  case (Numbers a b k)
  then have "passes ecs t satisfy l i (length (seq_text (itos a) (itos b) k) + 2)"
    by (intro passes_seq [where r = r] ordinary_seq ordinary_itos) (auto simp: is_char_def seq_text_def)
  then show ?case by (simp add: seq_text_def)
next
  case (Letters a b k)
  then have "passes ecs t satisfy l i (length (seq_text [a] [b] k) + 2)"
    by (intro passes_seq [where r = r] ordinary_seq) (auto simp: is_char_def seq_text_def ordinary_alpha)
  then show ?case by (simp add: seq_text_def)
next
  case (Letter c)
  then show ?case using passes_ordinary [of i t c r satisfy] by simp
next
  case (Escaped c)
  then show ?case using passes_escaped [of i t c r] by (simp add: numeral_2_eq_2)
qed

lemma passes_word:
  assumes "word_ok w" and "drop i t = word_text w @ r" and "satisfy \<in> set ''{},''"
    and "satisfy \<noteq> CHR ''{'' \<or> l > 0 \<or> list_all is_char w"
  shows "passes ecs t satisfy l i (length (word_text w))"
  using assms by (intro passes_list [OF _ assms(2)] passes_elem) (auto simp: word_ok_def list_all_iff)

section \<open>Where the search stops\<close>

lemma gobble_end:
  assumes "drop i t = satisfy # r" and "satisfy \<in> set ''},''" and "k > 0"
  shows "gobble ecs t satisfy i NUL 0 k False = Some (i, satisfy)"
  using char_at_drop_simps(1) [OF assms(1)] assms(2,3) by (subst gobble.simps) (auto simp: Let_def NUL_def)

lemma passesD: "passes ecs t satisfy l i n \<Longrightarrow> \<exists>k'\<ge>k. (satisfy = CHR ''}'' \<or> k' = k)
    \<and> gobble ecs t satisfy i NUL l k False = gobble ecs t satisfy (i + n) NUL l k' False"
  by (simp add: passes_def)

lemma gobble_choice:
  assumes "list_all word_ok ws" and "ws \<noteq> []" and "drop i t = join_comma (map word_text ws) @ CHR ''}'' # r"
    and "k > 0 \<or> 2 \<le> length ws"
  shows "gobble ecs t (CHR ''}'') i NUL 0 k False = Some (i + length (join_comma (map word_text ws)), CHR ''}'')"
  using assms
proof (induction ws arbitrary: i k)
  case (Cons w ws)
  let ?rest = "if ws = [] then [] else CHR '','' # join_comma (map word_text ws)"
  have d: "drop i t = word_text w @ ?rest @ CHR ''}'' # r" using Cons.prems(3) by simp
  have "passes ecs t (CHR ''}'') 0 i (length (word_text w))"
    using Cons.prems(1) by (intro passes_word [OF _ d]) auto
  then obtain k' where k': "k' \<ge> k" "gobble ecs t (CHR ''}'') i NUL 0 k False = gobble ecs t (CHR ''}'') (i + length (word_text w)) NUL 0 k' False"
    by (auto dest: passesD [of _ _ _ _ _ _ k])
  note after = drop_after [OF d]
  show ?case
  proof (cases "ws = []")
    case True
    then have "k' > 0" using Cons.prems(4) k'(1) by simp
    with True after k' show ?thesis by (simp add: gobble_end)
  next
    case False
    then have c: "drop (i + length (word_text w)) t = CHR '','' # join_comma (map word_text ws) @ CHR ''}'' # r" using after by simp
    then have "gobble ecs t (CHR ''}'') (i + length (word_text w)) NUL 0 k' False
        = gobble ecs t (CHR ''}'') (Suc (i + length (word_text w))) NUL 0 (k' + 1) False"
      using char_at_drop_simps(1) by (subst gobble.simps) (auto simp: Let_def NUL_def)
    also have "\<dots> = Some (Suc (i + length (word_text w)) + length (join_comma (map word_text ws)), CHR ''}'')"
      using Cons.prems(1) False char_at_drop_simps(2) [OF c] by (intro Cons.IH) auto
    finally show ?thesis using False k'(2) by simp
  qed
qed simp

lemma gobble_seq:
  assumes "list_all ordinary a" and "list_all ordinary b" and "b \<noteq> []" and "incr_ok k"
    and "drop i t = seq_text a b k @ CHR ''}'' # r"
  shows "gobble ecs t (CHR ''}'') i NUL 0 n False = Some (i + length (seq_text a b k), CHR ''}'')"
proof -
  obtain b0 bs where b: "b = b0 # bs" using assms(3) by (cases b) auto
  let ?rest = "CHR ''.'' # b @ incr_text k"
  have d: "drop i t = a @ CHR ''.'' # ?rest @ CHR ''}'' # r" using assms(5) by (simp add: seq_text_def)
  have "passes ecs t (CHR ''}'') 0 i (length a)" by (rule passes_chars [OF assms(1) d]) simp
  then obtain n' where n': "gobble ecs t (CHR ''}'') i NUL 0 n False = gobble ecs t (CHR ''}'') (i + length a) NUL 0 n' False"
    by (auto dest: passesD [of _ _ _ _ _ _ n])
  have c: "drop (i + length a) t = CHR ''.'' # CHR ''.'' # b0 # bs @ incr_text k @ CHR ''}'' # r"
    using drop_after [OF d] b by simp
  have "b0 \<noteq> CHR ''}''" using assms(2) b by (auto simp: ordinary_def)
  moreover have "char_at t (Suc (Suc (i + length a))) = b0"
    using char_at_drop_simps(3) [OF char_at_drop_simps(2) [OF c]] by simp
  ultimately have dots: "gobble ecs t (CHR ''}'') (i + length a) NUL 0 n' False = gobble ecs t (CHR ''}'') (Suc (i + length a)) NUL 0 (n' + 1) False"
    using char_at_drop_simps(1,3) [OF c] by (subst gobble.simps) (simp add: Let_def NUL_def)
  have rest: "drop (Suc (i + length a)) t = ?rest @ CHR ''}'' # r" using char_at_drop_simps(2) [OF c] b by simp
  have "list_all ordinary ?rest" using ordinary_seq [OF assms(1,2,4)] by (simp add: seq_text_def)
  then have "passes ecs t (CHR ''}'') 0 (Suc (i + length a)) (length ?rest)" by (intro passes_chars [OF _ rest]) simp_all
  then obtain n'' where "n'' \<ge> n' + 1"
    "gobble ecs t (CHR ''}'') (Suc (i + length a)) NUL 0 (n' + 1) False = gobble ecs t (CHR ''}'') (Suc (i + length a) + length ?rest) NUL 0 n'' False"
    using passesD [of ecs t "CHR ''}''" 0 "Suc (i + length a)" "length ?rest" "n' + 1"] by blast
  with n' dots gobble_end [OF drop_after [OF rest], of n'' ecs] show ?thesis by (simp add: seq_text_def)
qed

section \<open>The parts of a word\<close>

lemma combine_simps:
  "combine [] ys = []" "combine (x # xs) ys = map ((@) x) ys @ combine xs ys"
  "combine (xs @ xs') ys = combine xs ys @ combine xs' ys" "combine (map ((@) x) xs) ys = map ((@) x) (combine xs ys)"
  "combine [[]] ys = ys" "combine xs [[]] = xs"
proof -
  show "combine (map ((@) x) xs) ys = map ((@) x) (combine xs ys)"
    by (induction xs) (auto simp: combine_def)
qed (auto simp: combine_def intro: map_idI)

lemma combine_assoc: "combine (combine a b) c = combine a (combine b c)"
  by (induction a) (simp_all add: combine_simps)

lemma length_combine: "length (combine a b) = length a * length b"
  by (induction a) (simp_all add: combine_simps)

lemma set_combine: "x \<in> set (combine a b) \<longleftrightarrow> (\<exists>u \<in> set a. \<exists>v \<in> set b. x = u @ v)"
  by (auto simp: combine_def)

lemma array_concat_combine:
  assumes "int (length (combine a b)) < INT_MAX" and "\<And>x. x \<in> set a \<Longrightarrow> int (length x) \<le> INT_MAX"
  shows "array_concat (Some a) (Some b) = Some (Some (combine a b))"
proof -
  have "\<not> list_ex (\<lambda>x. int (length x) > INT_MAX) a" using assms(2) by (force simp: list_ex_iff)
  then show ?thesis using assms(1) combine_simps(5,6) by (auto simp: array_concat_def length_combine) (auto simp: combine_def)
qed

lemma words_append: "words (v @ w) = combine (words v) (words w)"
  by (induction v) (simp_all add: combine_simps(5) combine_assoc)

lemma words_chars: "list_all is_char w \<Longrightarrow> words w = [word_text w]"
proof (induction w)
  case (Cons e w)
  then show ?case by (cases e) (auto simp: is_char_def combine_def)
qed simp

lemma word_text_append: "word_text (v @ w) = word_text v @ word_text w"
  by (simp add: word_text_def)

lemma word_ok_append: "word_ok (v @ w) \<longleftrightarrow> word_ok v \<and> word_ok w"
  by (simp add: word_ok_def)

text \<open>The contents of a pair of braces.\<close>

definition inner_text :: "belem \<Rightarrow> cstring" where
  "inner_text e = butlast (tl (belem_text e))"

lemma brace_inner:
  assumes "belem_ok e" and "\<not> is_char e"
  shows "belem_text e = CHR ''{'' # inner_text e @ ''}''"
    "\<exists>c r. inner_text e = c # r \<and> \<not> brace_whitespace c \<and> c \<noteq> CHR ''}''"
    "drop i t = inner_text e @ CHR ''}'' # r \<Longrightarrow> brace_gobbler ecs t i (CHR ''}'') = Some (i + length (inner_text e), CHR ''}'')"
proof -
  have inner: "inner_text (Choice alts) = join_comma (map word_text alts)" "inner_text (Numbers a b k) = seq_text (itos a) (itos b) k"
    "inner_text (Letters c d k) = seq_text [c] [d] k" for alts a b k c d
    by (simp_all add: inner_text_def belem_Choice seq_text_def butlast_append)
  show "belem_text e = CHR ''{'' # inner_text e @ ''}''"
    using assms(2) by (cases e) (auto simp: is_char_def belem_Choice inner seq_text_def)
  have itos: "\<exists>c r. itos n = c # r" if "in_int64 n" for n
    using itos_dec_text [OF that] dec_text_facts(2) by (metis list.exhaust)
  have word: "\<exists>c r. word_text w @ CHR '','' # s = c # r \<and> \<not> brace_whitespace c \<and> c \<noteq> CHR ''}''" if "word_ok w" for w s
  proof (cases w)
    case (Cons e' w')
    with that show ?thesis by (cases e') (auto simp: ordinary_def belem_Choice brace_whitespace_def NUL_def)
  qed (simp add: brace_whitespace_def NUL_def)
  show "\<exists>c r. inner_text e = c # r \<and> \<not> brace_whitespace c \<and> c \<noteq> CHR ''}''"
  proof (cases e)
    case (Choice alts)
    then obtain w w' ws where "alts = w # w' # ws" "word_ok w"
      using assms(1) by (cases alts; cases "tl alts") (auto simp: belem_Choice)
    with Choice word show ?thesis by (simp add: inner)
  next
    case (Numbers a b k)
    then show ?thesis using assms(1) itos [of a] ordinary_itos [of a] by (auto simp: inner seq_text_def ordinary_def)
  next
    case (Letters c d k)
    then show ?thesis using assms(1) ordinary_alpha [of c] by (auto simp: inner seq_text_def ordinary_def)
  qed (use assms(2) in \<open>auto simp: is_char_def\<close>)
  show "brace_gobbler ecs t i (CHR ''}'') = Some (i + length (inner_text e), CHR ''}'')" if "drop i t = inner_text e @ CHR ''}'' # r"
    using assms that unfolding brace_gobbler_def
  proof (cases e)
    case (Choice alts)
    then show "gobble ecs t (CHR ''}'') i NUL 0 (if CHR ''}'' = CHR ''}'' then 0 else 1) False = Some (i + length (inner_text e), CHR ''}'')"
      using assms(1) that by (simp add: inner belem_Choice) (intro gobble_choice; auto)
  next
    case (Numbers a b k)
    then show "gobble ecs t (CHR ''}'') i NUL 0 (if CHR ''}'' = CHR ''}'' then 0 else 1) False = Some (i + length (inner_text e), CHR ''}'')"
      using assms(1) that itos [of b] by (simp add: inner) (intro gobble_seq; auto simp: ordinary_itos)
  next
    case (Letters c d k)
    then show "gobble ecs t (CHR ''}'') i NUL 0 (if CHR ''}'' = CHR ''}'' then 0 else 1) False = Some (i + length (inner_text e), CHR ''}'')"
      using assms(1) that by (simp add: inner) (intro gobble_seq; auto simp: ordinary_alpha)
  qed (auto simp: is_char_def)
qed

section \<open>Expanding a pair of braces\<close>

lemma has_separator_chars: "list_all ordinary xs \<Longrightarrow> has_separator (xs @ r) = has_separator r"
  by (induction xs) (auto simp: ordinary_def)

lemma has_separator_seq:
  assumes "list_all ordinary a" and "list_all ordinary b" and "incr_ok k"
  shows "has_separator (CHR ''{'' # seq_text a b k @ CHR ''}'' # q) = has_separator q"
  using has_separator_chars [OF ordinary_seq [OF assms]] by simp

lemma has_separator_word: "word_ok w \<Longrightarrow> has_separator (word_text w @ r) = Some True \<or> has_separator (word_text w @ r) = has_separator r"
proof (induction w arbitrary: r rule: measure_induct_rule [of "\<lambda>w. length (word_text w)"])
  case (less w)
  show ?case
  proof (cases w)
    case (Cons e w')
    have w': "has_separator (word_text w' @ r) = Some True \<or> has_separator (word_text w' @ r) = has_separator r"
      using less Cons by (cases e) (auto simp: belem_Choice)
    show ?thesis
    proof (cases e)
      case (Choice alts)
      then obtain v v' vs where alts: "alts = v # v' # vs" "word_ok v"
        using less.prems Cons by (cases alts; cases "tl alts") (auto simp: belem_Choice)
      let ?q = "CHR '','' # join_comma (map word_text (v' # vs)) @ ''}'' @ word_text w' @ r"
      have "has_separator (word_text v @ ?q) = Some True \<or> has_separator (word_text v @ ?q) = has_separator ?q"
        using alts Cons Choice by (intro less.IH) (auto simp: belem_Choice)
      then have "has_separator (word_text v @ ?q) = Some True" by simp
      then show ?thesis using Cons Choice alts by (simp add: belem_Choice)
    next
      case (Numbers a b k)
      then show ?thesis
        using w' Cons less.prems has_separator_seq [OF ordinary_itos [of a] ordinary_itos [of b], of k "word_text w' @ r"]
        by (simp add: seq_text_def)
    next
      case (Letters a b k)
      then show ?thesis
        using w' Cons less.prems has_separator_seq [of "[a]" "[b]" k "word_text w' @ r"]
        by (simp add: seq_text_def ordinary_alpha)
    qed (use w' Cons less.prems in \<open>auto simp: ordinary_def\<close>)
  qed simp
qed

lemma has_separator_choice:
  assumes "belem_ok (Choice alts)"
  shows "has_separator (join_comma (map word_text alts)) = Some True"
proof -
  obtain v v' vs where alts: "alts = v # v' # vs" "word_ok v"
    using assms by (cases alts; cases "tl alts") (auto simp: belem_Choice)
  then show ?thesis using has_separator_word [OF alts(2), of "CHR '','' # join_comma (map word_text (v' # vs))"] by auto
qed

lemma substring_mid: "drop i t = xs @ r \<Longrightarrow> substring t i (i + length xs) = xs"
  by (simp add: substring_def)

lemma amble_parts_choice:
  assumes "list_all word_ok ws" and "ws \<noteq> []" and "drop i t = join_comma (map word_text ws)"
  shows "amble_parts ecs t i = Some (map word_text ws)"
  using assms
proof (induction ws arbitrary: i)
  case (Cons w ws)
  let ?rest = "if ws = [] then [] else CHR '','' # join_comma (map word_text ws)"
  have d: "drop i t = word_text w @ ?rest" using Cons.prems(3) by simp
  have "passes ecs t (CHR '','') 0 i (length (word_text w))"
    using Cons.prems(1) by (intro passes_word [OF _ d]) auto
  then have p: "brace_gobbler ecs t i (CHR '','') = gobble ecs t (CHR '','') (i + length (word_text w)) NUL 0 1 False"
    by (auto simp: brace_gobbler_def dest: passesD [of _ _ _ _ _ _ 1])
  note after = drop_after [OF d] and part = substring_mid [OF d]
  show ?case
  proof (cases "ws = []")
    case True
    then have "char_at t (i + length (word_text w)) = NUL" using after by (simp add: char_at_drop)
    with p have "brace_gobbler ecs t i (CHR '','') = Some (i + length (word_text w), NUL)" by (simp add: gobble.simps)
    with True part show ?thesis by (simp add: amble_parts.simps)
  next
    case False
    then have c: "drop (i + length (word_text w)) t = CHR '','' # join_comma (map word_text ws)" using after by simp
    then have "brace_gobbler ecs t i (CHR '','') = Some (i + length (word_text w), CHR '','')"
      using p gobble_end [OF c] by simp
    moreover have "amble_parts ecs t (Suc (i + length (word_text w))) = Some (map word_text ws)"
      using Cons.prems False char_at_drop_simps(2) [OF c] by (intro Cons.IH) auto
    ultimately show ?thesis using part by (subst amble_parts.simps) (simp add: NUL_def)
  qed
qed simp

lemma all_some_map: "(\<And>x. x \<in> set xs \<Longrightarrow> f x = Some (g x)) \<Longrightarrow> all_some (map f xs) = Some (map g xs)"
  by (induction xs) auto

lemma append_partial_concat:
  "int (length result) + int (length (concat ps)) < INT_MAX \<Longrightarrow> append_partial result ps = Some (result @ concat ps)"
  by (induction ps arbitrary: result) auto

lemma join_results_concat: "int (length (concat rs)) < INT_MAX \<Longrightarrow> join_results rs = Some (concat rs)"
  using append_partial_concat by (cases rs) (auto simp: join_results_def)

lemma expand_amble_choice:
  assumes "list_all word_ok alts" and "alts \<noteq> []" and "\<And>w. w \<in> set alts \<Longrightarrow> f (word_text w) = Some (words w)"
    and "int (length (concat (map words alts))) < INT_MAX"
  shows "expand_amble f ecs (join_comma (map word_text alts)) = Some (concat (map words alts))"
proof -
  have "amble_parts ecs (join_comma (map word_text alts)) 0 = Some (map word_text alts)"
    using assms(1,2) by (intro amble_parts_choice) simp_all
  moreover have "all_some (map f (map word_text alts)) = Some (map words alts)"
    using all_some_map [of alts "\<lambda>w. f (word_text w)" words] assms(3) by (simp add: comp_def)
  ultimately show ?thesis using join_results_concat assms(4) by (simp add: expand_amble_def)
qed

text \<open>Sequences.\<close>

lemma find_dots_seq: "CHR ''.'' \<notin> set a \<Longrightarrow> find_dots (a @ CHR ''.'' # CHR ''.'' # r) = Some (length a)"
proof (induction a)
  case (Cons c a)
  then show ?case by (cases a) auto
qed simp

lemma char_at_append: "char_at (a @ r) (length a + i) = char_at r i" "char_at (a @ r) (length a) = char_at r 0"
  by (auto simp: char_at_def nth_append)

lemma seq_incr_text:
  assumes "incr_ok k"
  shows "seq_incr (b @ incr_text k) (length b) = Some (case k of None \<Rightarrow> 1 | Some n \<Rightarrow> n, length b + length (incr_text k))"
proof (cases k)
  case None
  then show ?thesis by (simp add: seq_incr_def incr_text_def char_at_def)
next
  case (Some n)
  then have n: "in_int64 n" using assms by (simp add: incr_ok_def)
  then obtain c r where "itos n = c # r" "c \<noteq> NUL"
    using itos_shape [OF n] digit_not_special by (auto simp: NUL_def)
  moreover have "strtoimax (itos n) = (n, length (itos n), False)" using strtoimax_itos [OF n, of "[]"] by simp
  ultimately show ?thesis
    using Some by (simp add: seq_incr_def incr_text_def char_at_def nth_append)
qed

lemma incr_text_start: "char_at (incr_text k) 0 = NUL \<or> char_at (incr_text k) 0 = CHR ''.''" "incr_text k = [] \<or> hd (incr_text k) = CHR ''.''"
  by (auto simp: incr_text_def char_at_def split: option.split)

lemma expand_seqterm_parts:
  assumes "CHR ''.'' \<notin> set a" and "a \<noteq> []" and "b \<noteq> []" and "incr_ok k"
    and "seq_rhs (b @ incr_text k) = (rt, tr, length b)" and "rt \<noteq> ST_BAD"
  shows "expand_seqterm (seq_text a b k) =
    (let lt = (if legal_number (Some a) \<noteq> None then ST_INT else if ISALPHA (char_at a 0) \<and> char_at a 1 = NUL then ST_CHAR else ST_BAD);
         incr = (case k of None \<Rightarrow> 1 | Some n \<Rightarrow> n)
     in if lt \<noteq> rt then Some None
        else if lt = ST_CHAR then mkseq (int (code (char_at a 0))) (int (code (char_at (b @ incr_text k) 0))) incr ST_CHAR 1
        else let (width, t) = seq_width a (length a) (b @ incr_text k) (length b)
             in mkseq (the (legal_number (Some a))) tr incr t width)"
proof -
  let ?t = "seq_text a b k"
  have "find_dots ?t = Some (length a)" using find_dots_seq [OF assms(1)] by (simp add: seq_text_def)
  moreover have "substring ?t 0 (length a) = a" "substring ?t (length a + 2) (length ?t) = b @ incr_text k"
    by (simp_all add: substring_def seq_text_def)
  moreover have "length ?t - (length b + length (incr_text k) - length b) - length a - 2 = length b" by (simp add: seq_text_def)
  ultimately show ?thesis
    using assms(2,3,5,6) seq_incr_text [OF assms(4), of b] by (simp add: expand_seqterm_def Let_def)
qed

lemma legal_number_itos: "in_int64 n \<Longrightarrow> legal_number (Some (itos n)) = Some n"
  using strtoimax_itos [of n "[]"] itos_shape [of n] by (auto simp: legal_number_def)

lemma seq_rhs_itos:
  assumes "in_int64 n"
  shows "seq_rhs (itos n @ incr_text k) = (ST_INT, n, length (itos n))"
proof -
  obtain c r where c: "itos n = c # r" "ISDIGIT c \<or> c = CHR ''-'' \<and> r \<noteq> [] \<and> ISDIGIT (hd r)"
    using itos_shape [OF assms] by blast
  have "incr_text k = [] \<or> \<not> ISDIGIT (hd (incr_text k))" using incr_text_start(2) [of k] by (auto simp: ISDIGIT_def)
  then have "strtoimax (itos n @ incr_text k) = (n, length (itos n), False)" by (rule strtoimax_itos [OF assms])
  moreover have "ISDIGIT (char_at (itos n @ incr_text k) 0) \<or> (char_at (itos n @ incr_text k) 0 = CHR ''+'' \<or> char_at (itos n @ incr_text k) 0 = CHR ''-'')
      \<and> ISDIGIT (char_at (itos n @ incr_text k) 1)"
    using c by (cases r) (auto simp: char_at_def)
  ultimately show ?thesis
    using incr_text_start(1) [of k] by (auto simp: seq_rhs_def char_at_append)
qed

lemma seq_width_itos:
  assumes "in_int64 a" and "in_int64 b"
  shows "seq_width (itos a) (length (itos a)) (itos b @ r) (length (itos b)) = (0, ST_INT)"
proof -
  have z: "\<not> (1 < length (itos n) \<and> char_at (itos n @ s) 0 = CHR ''0'')"
    "\<not> (2 < length (itos n) \<and> char_at (itos n @ s) 0 = CHR ''-'' \<and> char_at (itos n @ s) 1 = CHR ''0'')" if "in_int64 n" for n s
  proof -
    have "hd (dec_text m) = CHR ''0'' \<Longrightarrow> dec_text m = ''0''" for m using dec_text_no_zero by metis
    moreover have "char_at (dec_text m @ s) 0 = hd (dec_text m)" for m s
      using dec_text_facts(2) [of m] by (cases "dec_text m") (auto simp: char_at_def)
    ultimately have z: "char_at (dec_text m @ s) 0 = CHR ''0'' \<Longrightarrow> length (dec_text m) = 1" for m s
      by (metis One_nat_def list.size(3,4) add_0 plus_1_eq_Suc)
    show "\<not> (1 < length (itos n) \<and> char_at (itos n @ s) 0 = CHR ''0'')"
      using z [of "nat n" s] itos_dec_text [OF that] by (auto simp: char_at_def split: if_splits)
    show "\<not> (2 < length (itos n) \<and> char_at (itos n @ s) 0 = CHR ''-'' \<and> char_at (itos n @ s) 1 = CHR ''0'')"
    proof (cases "n < 0")
      case True
      then have i: "itos n = CHR ''-'' # dec_text (nat (- n))" using itos_dec_text [OF that] by simp
      have "char_at (itos n @ s) 1 = char_at (dec_text (nat (- n)) @ s) 0" by (simp add: i char_at_def)
      then show ?thesis using z [of "nat (- n)" s] i by auto
    next
      case False
      then have i: "itos n = dec_text (nat n)" using itos_dec_text [OF that] by simp
      obtain d r where "dec_text (nat n) = d # r" "ISDIGIT d"
        using dec_text_facts(1,2) [of "nat n"] by (cases "dec_text (nat n)") auto
      then show ?thesis using i digit_not_special [of d] by (simp add: char_at_def)
    qed
  qed
  show ?thesis using z [OF assms(1), of "[]"] z [OF assms(2), of r] by (auto simp: seq_width_def Let_def)
qed


lemma expand_seqterm_numbers:
  assumes "belem_ok (Numbers a b k)"
  shows "expand_seqterm (seq_text (itos a) (itos b) k) = Some (Some (belem_words (Numbers a b k)))"
proof -
  have ok: "in_int64 a" "in_int64 b" "incr_ok k" "\<bar>b - a\<bar> \<le> INTMAX_MAX - 2" "\<bar>b - a\<bar> div step_size k \<le> INT_MAX - 3"
    using assms by simp_all
  have nonempty: "itos n \<noteq> []" if "in_int64 n" for n using itos_shape [OF that] by auto
  have "CHR ''.'' \<notin> set (dec_text n)" for n
    using dec_text_facts(1) [of n] digit_not_special by (auto simp: list_all_iff)
  then have "CHR ''.'' \<notin> set (itos a)" using itos_dec_text [OF ok(1)] by simp
  then have "expand_seqterm (seq_text (itos a) (itos b) k) = mkseq a b (case k of None \<Rightarrow> 1 | Some n \<Rightarrow> n) ST_INT 0"
    using expand_seqterm_parts [OF _ _ _ ok(3) seq_rhs_itos [OF ok(2), of k]] nonempty [OF ok(1)] nonempty [OF ok(2)]
      legal_number_itos [OF ok(1)] seq_width_itos [OF ok(1,2), of "incr_text k"]
    by (simp add: Let_def)
  also have "\<dots> = Some (Some (map itos (progression a b (step_size k))))"
    unfolding mkseq_terms [OF ok] by (simp add: seq_element_def [abs_def])
  finally show ?thesis by simp
qed

lemma progression_range: "0 < s \<Longrightarrow> n \<in> set (progression a b s) \<Longrightarrow> min a b \<le> n \<and> n \<le> max a b"
proof -
  assume s: "0 < s" and n: "n \<in> set (progression a b s)"
  obtain i where i: "n = (if a \<le> b then a + int i * s else a - int i * s)" "i \<in> set [0..<nat (\<bar>b - a\<bar> div s) + 1]"
    using n unfolding progression_def set_map by (rule imageE)
  then have "int i \<le> \<bar>b - a\<bar> div s" using pos_imp_zdiv_nonneg_iff [OF s, of "\<bar>b - a\<bar>"] by auto
  then have "int i * s \<le> \<bar>b - a\<bar> div s * s" using s by (simp add: mult_right_mono)
  also have "\<dots> \<le> \<bar>b - a\<bar>" using s by (simp add: minus_mod_eq_div_mult [symmetric])
  finally show ?thesis using i(1) s by (auto simp: min_def max_def)
qed

lemma expand_seqterm_letters:
  assumes "belem_ok (Letters a b k)"
  shows "expand_seqterm (seq_text [a] [b] k) = Some (Some (belem_words (Letters a b k)))"
proof -
  have ok: "ISALPHA a" "ISALPHA b" "incr_ok k" using assms by simp_all
  have s: "0 < step_size k" by (auto simp: step_size_def split: option.split)
  have "\<not> ISDIGIT a" using ok(1) by (auto simp: ISALPHA_def ISLOWER_def ISUPPER_def ISDIGIT_def)
  then have "strtoimax [a] = (0, 0, False)" by (simp add: strtoimax_def Let_def)
  then have alpha: "a \<noteq> CHR ''.''" "legal_number (Some [a]) = None" "char_at [a] 1 = NUL" "char_at [a] 0 = a"
    using ok(1) by (auto simp: ISALPHA_def ISLOWER_def ISUPPER_def char_at_def legal_number_def)
  have rhs: "seq_rhs ([b] @ incr_text k) = (ST_CHAR, int (code b), length [b])"
    using ok(2) incr_text_start(1) [of k] char_at_append(1) [of "[b]" "incr_text k" 0]
    by (auto simp: seq_rhs_def char_at_def ISDIGIT_def ISALPHA_def ISLOWER_def ISUPPER_def)
  have code: "0 < code c \<and> code c \<le> 122" if "ISALPHA c" for c
    using that by (auto simp: ISALPHA_def ISLOWER_def ISUPPER_def)
  have div: "\<bar>int (code b) - int (code a)\<bar> div step_size k \<le> \<bar>int (code b) - int (code a)\<bar>"
    using zdiv_mono2 [of "\<bar>int (code b) - int (code a)\<bar>" 1 "step_size k"] s by simp
  have "expand_seqterm (seq_text [a] [b] k) = mkseq (int (code a)) (int (code b)) (case k of None \<Rightarrow> 1 | Some n \<Rightarrow> n) ST_CHAR 1"
    using expand_seqterm_parts [OF _ _ _ ok(3) rhs] ok(1) alpha by (simp add: char_at_def)
  also have "\<dots> = Some (Some (map (seq_element ST_CHAR 1) (progression (int (code a)) (int (code b)) (step_size k))))"
    using div code [OF ok(1)] code [OF ok(2)] ok(3)
    by (intro mkseq_terms) (auto simp: in_int64_def INTMAX_MIN_def INTMAX_MAX_def INT_MAX_def)
  also have "map (seq_element ST_CHAR 1) (progression (int (code a)) (int (code b)) (step_size k)) = belem_words (Letters a b k)"
  proof -
    have "seq_element ST_CHAR 1 n = [char_of (nat n)]" if "n \<in> set (progression (int (code a)) (int (code b)) (step_size k))" for n
    proof -
      have "0 < n \<and> n \<le> 122" using progression_range [OF s that] code [OF ok(1)] code [OF ok(2)] by (auto simp: min_def max_def split: if_splits)
      then have "n mod 256 = n" "nat n mod 256 = nat n" "0 < nat n" by (simp_all add: nat_less_iff)
      then show ?thesis using code_eq_0 [of "char_of (nat n)"] by (simp add: seq_element_def)
    qed
    then show ?thesis by simp
  qed
  finally show ?thesis .
qed


text \<open>A pair of braces gives its words, if the alternatives in it give theirs.\<close>

lemma brace_expands:
  assumes "belem_ok e" and "\<not> is_char e"
    and "\<And>w. word_ok w \<Longrightarrow> length (word_text w) \<le> length (inner_text e) \<Longrightarrow> set (words w) \<subseteq> set (belem_words e)
      \<Longrightarrow> length (words w) \<le> length (belem_words e) \<Longrightarrow> f (word_text w) = Some (words w)"
    and "int (length (belem_words e)) < INT_MAX"
  shows "\<exists>sep. has_separator (inner_text e) = Some sep
    \<and> (if sep then expand_amble f ecs (inner_text e) = Some (belem_words e) else expand_seqterm (inner_text e) = Some (Some (belem_words e)))"
proof -
  have inner: "inner_text (Choice alts) = join_comma (map word_text alts)" "inner_text (Numbers a b k) = seq_text (itos a) (itos b) k"
    "inner_text (Letters c d k) = seq_text [c] [d] k" for alts a b k c d
    by (simp_all add: inner_text_def belem_Choice seq_text_def butlast_append)
  have no_sep: "has_separator xs = Some False" if "list_all ordinary xs" for xs
    using has_separator_chars [OF that, of "[]"] by simp
  have join: "w \<in> set ws \<Longrightarrow> length (word_text w) \<le> length (join_comma (map word_text ws))" for w ws
    by (induction ws) auto
  show ?thesis
  proof (cases e)
    case (Choice alts)
    then have ok: "list_all word_ok alts" "2 \<le> length alts" using assms(1) by (simp_all add: belem_Choice)
    have "f (word_text w) = Some (words w)" if "w \<in> set alts" for w
      using ok(1) that join [OF that] member_le_sum_list [of "length (words w)" "map (length \<circ> words) alts"]
      by (intro assms(3)) (auto simp: Choice inner list_all_iff belem_Choice length_concat comp_def)
    then have "expand_amble f ecs (inner_text e) = Some (concat (map words alts))"
      unfolding Choice inner using ok assms(4) Choice by (intro expand_amble_choice) (auto simp: belem_Choice)
    then show ?thesis using has_separator_choice [of alts] assms(1) Choice by (auto simp: inner belem_Choice)
  next
    case (Numbers a b k)
    then have "has_separator (inner_text e) = Some False"
      using assms(1) unfolding Numbers inner by (intro no_sep ordinary_seq ordinary_itos) auto
    then show ?thesis using expand_seqterm_numbers [of a b k] assms(1) Numbers by (auto simp: inner)
  next
    case (Letters a b k)
    then have "has_separator (inner_text e) = Some False"
      using assms(1) unfolding Letters inner by (intro no_sep ordinary_seq) (auto simp: ordinary_alpha)
    then show ?thesis using expand_seqterm_letters [of a b k] assms(1) Letters by (auto simp: inner)
  qed (use assms(2) in \<open>simp_all add: is_char_def\<close>)
qed

section \<open>The expansion of a word\<close>

lemma find_brace_chars:
  assumes "word_ok w" and "list_all is_char w"
  shows "brace_expand ecs (word_text w) = Some [word_text w]"
proof -
  have "passes ecs (word_text w) (CHR ''{'') 0 0 (length (word_text w))"
    using assms by (intro passes_word [where r = "[]"]) auto
  from passesD [OF this, of 1] have "brace_gobbler ecs (word_text w) 0 (CHR ''{'') = Some (length (word_text w), NUL)"
    by (simp add: brace_gobbler_def gobble.simps [of ecs "word_text w" "CHR ''{''" "length (word_text w)"] char_at_def)
  then show ?thesis by (simp add: brace_expand.simps find_brace.simps NUL_def)
qed

lemma find_brace_first:
  assumes "word_ok pre" and "list_all is_char pre" and "belem_ok e" and "\<not> is_char e"
    and t: "t = word_text pre @ belem_text e @ r"
  defines "i \<equiv> length (word_text pre)"
  shows "find_brace ecs t 0 = Some (i, CHR ''{'')"
    "brace_gobbler ecs t (Suc i) (CHR ''}'') = Some (Suc i + length (inner_text e), CHR ''}'')"
proof -
  have d: "drop i t = CHR ''{'' # inner_text e @ CHR ''}'' # r" by (simp add: t i_def brace_inner(1) [OF assms(3,4)])
  show close: "brace_gobbler ecs t (Suc i) (CHR ''}'') = Some (Suc i + length (inner_text e), CHR ''}'')"
    by (rule brace_inner(3) [OF assms(3,4) char_at_drop_simps(2) [OF d]])
  obtain c s where c: "inner_text e = c # s" "\<not> brace_whitespace c" "c \<noteq> CHR ''}''" using brace_inner(2) [OF assms(3,4)] by blast
  have "passes ecs t (CHR ''{'') 0 0 (length (word_text pre))"
    using assms(1,2) t by (intro passes_word [where r = "belem_text e @ r"]) auto
  from passesD [OF this, of 1] have "brace_gobbler ecs t 0 (CHR ''{'') = gobble ecs t (CHR ''{'') i NUL 0 1 False"
    by (simp add: brace_gobbler_def i_def)
  also have "\<dots> = Some (i, CHR ''{'')"
    using d c char_at_drop_simps(1,3) [of i t] by (subst gobble.simps) (simp add: Let_def NUL_def)
  finally have "brace_gobbler ecs t 0 (CHR ''{'') = Some (i, CHR ''{'')" .
  with close show "find_brace ecs t 0 = Some (i, CHR ''{'')" by (subst find_brace.simps) (simp add: NUL_def)
qed

text \<open>Every word stands for at least one word, so the parts of a word stand for no more words than the whole.\<close>

lemma progression_nonempty: "progression a b s \<noteq> []"
  by (simp add: progression_def)

lemma words_nonempty: "word_ok w \<Longrightarrow> words w \<noteq> []"
proof (induction w rule: measure_induct_rule [of "\<lambda>w. length (word_text w)"])
  case (less w)
  show ?case
  proof (cases w)
    case (Cons e w')
    have "belem_words e \<noteq> []"
    proof (cases e)
      case (Choice alts)
      then obtain v vs where v: "alts = v # vs" "word_ok v" using less.prems Cons by (cases alts) (auto simp: belem_Choice)
      have "length (word_text v) < length (word_text w)" using Cons Choice v(1) by (simp add: belem_Choice)
      then show ?thesis using less.IH [OF _ v(2)] Choice v(1) by (simp add: belem_Choice)
    qed (simp_all add: progression_nonempty)
    moreover have "belem_text e \<noteq> []" by (cases e) (simp_all add: belem_Choice)
    then have "words w' \<noteq> []" using less Cons by auto
    ultimately show ?thesis using Cons length_combine [of "belem_words e" "words w'"] by auto
  qed simp
qed

text \<open>The word and the words it stands for can be counted and measured in an \<^verbatim>\<open>int\<close>.\<close>

definition fits :: "belem list \<Rightarrow> bool" where
  "fits w \<longleftrightarrow> int (length (word_text w)) < INT_MAX \<and> int (length (words w)) < INT_MAX
     \<and> list_all (\<lambda>x. int (length x) \<le> INT_MAX) (words w)"

lemma fits_parts:
  assumes "fits (pre @ e # post)" and "list_all is_char pre" and "belem_ok e" and "word_ok post"
  shows "fits post" "int (length (belem_words e)) < INT_MAX" "int (length (word_text pre)) \<le> INT_MAX"
    "list_all (\<lambda>x. int (length x) \<le> INT_MAX) (combine [word_text pre] (belem_words e))"
proof -
  let ?p = "word_text pre"
  have w: "words (pre @ e # post) = combine [?p] (combine (belem_words e) (words post))"
    using words_chars [OF assms(2)] by (simp add: words_append)
  have ne: "belem_words e \<noteq> []" "words post \<noteq> []"
    using words_nonempty [of "[e]"] words_nonempty [OF assms(4)] assms(3) by (auto simp: combine_simps)
  then obtain x0 y0 where x0: "x0 \<in> set (belem_words e)" and y0: "y0 \<in> set (words post)" by (meson list.set_sel(1))
  have len: "int (length (belem_words e) * length (words post)) < INT_MAX"
    using assms(1) unfolding fits_def w by (simp add: length_combine)
  have le: "length (belem_words e) \<le> length (belem_words e) * length (words post)" "length (words post) \<le> length (belem_words e) * length (words post)"
    using ne by (cases "belem_words e"; cases "words post"; simp)+
  have all: "int (length (?p @ x @ y)) \<le> INT_MAX" if "x \<in> set (belem_words e)" "y \<in> set (words post)" for x y
  proof -
    have "?p @ x @ y \<in> set (combine [?p] (combine (belem_words e) (words post)))"
      using that by (auto simp: set_combine)
    moreover have "\<forall>z \<in> set (combine [?p] (combine (belem_words e) (words post))). int (length z) \<le> INT_MAX"
      using assms(1) unfolding fits_def w by (simp add: list_all_iff)
    ultimately show ?thesis by blast
  qed
  show "int (length (belem_words e)) < INT_MAX" using len le by linarith
  show "int (length ?p) \<le> INT_MAX" using all [OF x0 y0] by simp
  show "list_all (\<lambda>x. int (length x) \<le> INT_MAX) (combine [?p] (belem_words e))"
  proof -
    have "int (length ?p) + int (length x) \<le> INT_MAX" if "x \<in> set (belem_words e)" for x using all [OF that y0] by simp
    then show ?thesis by (auto simp: list_all_iff set_combine)
  qed
  have "\<forall>y \<in> set (words post). int (length y) \<le> INT_MAX" using all [OF x0] by force
  moreover have "int (length (words post)) < INT_MAX" using len le by linarith
  ultimately show "fits post" using assms(1) by (auto simp: fits_def list_all_iff word_text_append)
qed

lemma fits_choice:
  assumes "fits (pre @ e # post)" and "list_all is_char pre" and "belem_ok e" and "word_ok post"
    and "set (words v) \<subseteq> set (belem_words e)" and "length (words v) \<le> length (belem_words e)" and "length (word_text v) \<le> length (belem_text e)"
  shows "fits v"
proof -
  note fit = fits_parts [OF assms(1-4)]
  have "int (length x) \<le> INT_MAX" if "x \<in> set (words v)" for x
  proof -
    have "word_text pre @ x \<in> set (combine [word_text pre] (belem_words e))" using that assms(5) by (auto simp: set_combine)
    then have "int (length (word_text pre @ x)) \<le> INT_MAX" using fit(4) unfolding list_all_iff by blast
    then show ?thesis by simp
  qed
  moreover have "int (length (word_text v)) < INT_MAX" using assms(1,7) by (simp add: fits_def word_text_append)
  ultimately show ?thesis using fit(2) assms(6) by (simp add: fits_def list_all_iff)
qed

lemma brace_expand_first:
  assumes "word_ok pre" and "list_all is_char pre" and "belem_ok e" and "\<not> is_char e"
    and IH: "\<And>w. word_ok w \<Longrightarrow> fits w \<Longrightarrow> length (word_text w) < length (word_text (pre @ e # post)) \<Longrightarrow> brace_expand ecs (word_text w) = Some (words w)"
    and "word_ok post" and "fits (pre @ e # post)"
  shows "brace_expand ecs (word_text (pre @ e # post)) = Some (words (pre @ e # post))"
proof -
  let ?t = "word_text (pre @ e # post)" and ?i = "length (word_text pre)"
  note e = brace_inner(1) [OF assms(3,4)]
  note fit = fits_parts [OF assms(7,2,3,6)]
  have t: "?t = word_text pre @ belem_text e @ word_text post" by (simp add: word_text_append)
  note find = find_brace_first [OF assms(1-4) t, of ecs]
  have parts: "substring ?t (Suc ?i) (Suc (?i + length (inner_text e))) = inner_text e" "drop (Suc (Suc (?i + length (inner_text e)))) ?t = word_text post"
    "take ?i ?t = word_text pre"
    by (simp_all add: t e substring_def)
  obtain sep where sep: "has_separator (inner_text e) = Some sep"
    "if sep then expand_amble (brace_expand ecs) ecs (inner_text e) = Some (belem_words e) else expand_seqterm (inner_text e) = Some (Some (belem_words e))"
    using brace_expands [OF assms(3,4) _ fit(2), of "brace_expand ecs" ecs] IH fits_choice [OF assms(7,2,3,6)] by (force simp: t e)
  have post: "brace_expand ecs (word_text post) = Some (words post)"
    using IH [OF assms(6) fit(1)] by (simp add: t e)
  have empty: "word_text post = [] \<Longrightarrow> words post = [[]]"
  proof (cases post)
    case (Cons f w)
    then show "word_text post = [] \<Longrightarrow> words post = [[]]" by (cases f) (auto simp: belem_Choice)
  qed simp
  have w: "words (pre @ e # post) = combine (combine [word_text pre] (belem_words e)) (words post)"
    using words_chars [OF assms(2)] by (simp add: words_append combine_assoc)
  have c1: "array_concat (Some [word_text pre]) (Some (belem_words e)) = Some (Some (combine [word_text pre] (belem_words e)))"
    using fit(2,3) by (intro array_concat_combine) (auto simp: length_combine)
  have c2: "array_concat (Some (combine [word_text pre] (belem_words e))) (Some (words post)) = Some (Some (words (pre @ e # post)))"
    using assms(7) fit(4) unfolding w by (intro array_concat_combine) (auto simp: fits_def w list_all_iff)
  show ?thesis
    using find sep parts post empty c1 c2 w
    by (subst brace_expand.simps) (auto simp: Let_def NUL_def combine_simps(6) split: if_splits)
qed

text \<open>
  C6. Brace expansion gives a word of characters, alternatives and sequences, however nested, exactly the
  words it stands for, in order: one for every choice of an alternative, of a number or of a letter; the number of these words, and the
  length of each of them, must fit an \<^verbatim>\<open>int\<close>.
\<close>

theorem brace_expand_meaning:
  "word_ok w \<Longrightarrow> fits w \<Longrightarrow> brace_expand ecs (word_text w) = Some (words w)"
proof (induction w rule: measure_induct_rule [of "\<lambda>w. length (word_text w)"])
  case (less w)
  show ?case
  proof (cases "list_all is_char w")
    case True
    then show ?thesis using find_brace_chars [OF less.prems(1)] words_chars by simp
  next
    case False
    then obtain pre e post where "w = pre @ e # post" "list_all is_char pre" "\<not> is_char e"
      using split_list_first_prop [of w "\<lambda>e. \<not> is_char e"] by (auto simp: list_all_iff)
    with less show ?thesis by (auto simp: word_ok_append intro!: brace_expand_first)
  qed
qed

theorem brace_expand_meaning_witness:
  "brace_expand (\<lambda>s i. None) (word_text [Letter (CHR ''a''), Choice [[Letter (CHR ''b''), Numbers 8 12 (Some 2)], [], [Letters (CHR ''x'') (CHR ''y'') None]]])
     = Some [''ab8'', ''ab10'', ''ab12'', ''a'', ''ax'', ''ay'']"
proof -
  let ?w = "[Letter (CHR ''a''), Choice [[Letter (CHR ''b''), Numbers 8 12 (Some 2)], [], [Letters (CHR ''x'') (CHR ''y'') None]]]"
  have v: "words ?w = [''ab8'', ''ab10'', ''ab12'', ''a'', ''ax'', ''ay'']"
  proof -
    have "progression 8 12 2 = [8, 10, 12]" "progression 120 121 1 = [120, 121]" by code_simp+
    moreover have "itos 8 = ''8''" "itos 10 = ''10''" "itos 12 = ''12''"
      by (simp_all add: itos_dec_text in_int64_def INTMAX_MIN_def INTMAX_MAX_def) (code_simp+)
    moreover have "char_of (120 :: nat) = CHR ''x''" "char_of (121 :: nat) = CHR ''y''" by (simp_all add: char_of_eq_iff)
    ultimately show ?thesis by (simp add: belem_Choice combine_simps step_size_def)
  qed
  have "word_ok ?w" by code_simp
  moreover have "length (word_text ?w) = 22"
  proof -
    have "itos 8 = ''8''" "itos 12 = ''12''" "itos 2 = ''2''"
      by (simp_all add: itos_dec_text in_int64_def INTMAX_MIN_def INTMAX_MAX_def) (code_simp+)
    then show ?thesis by (simp add: belem_Choice incr_text_def)
  qed
  ultimately have "word_ok ?w" "fits ?w" unfolding fits_def v by (simp_all add: INT_MAX_def)
  then have "brace_expand (\<lambda>s i. None) (word_text ?w) = Some (words ?w)" by (rule brace_expand_meaning)
  then show ?thesis unfolding v .
qed

section \<open>The vector of a sequence\<close>



end
