(* ===== verification/Test_Cmd.thy ===== *)
theory Test_Cmd
  imports Assoc Patsub Expr
begin

text \<open>
  Conditional expressions: the \<^verbatim>\<open>test\<close> command (\<^verbatim>\<open>test.c\<close>), the file queries it makes (\<^verbatim>\<open>lib/sh/eaccess.c\<close>), and the
  evaluation of the conditional command \<^verbatim>\<open>[[\<close> (\<^verbatim>\<open>execute_cmd.c\<close>).

  The arguments are a vector that ends in \<^verbatim>\<open>NULL\<close>; the current position is passed along and returned.
  A function returns a value, leaves through \<^verbatim>\<open>test_exit\<close> with a message, or reads what it must not.
  The system calls, the shell options, the shell variables and the expansion of words are fields of an environment.
\<close>

section \<open>The environment\<close>

record stat =
  st_dev :: int
  st_ino :: int
  st_mode :: uint32
  st_uid :: int
  st_gid :: int
  st_size :: int
  st_mtim :: "int \<times> int"
  st_atim :: "int \<times> int"

text \<open>What the tests look at of a shell variable: its value, and two of its attributes.\<close>

datatype var_value = Scalar "cstring option" | Indexed "array option" | Associative "assoc option"

record shell_var =
  var_value :: var_value
  var_invisible :: bool
  var_nameref :: bool

record 'e test_env =
  sys_stat :: "cstring \<Rightarrow> stat option"
  sys_lstat :: "cstring \<Rightarrow> stat option"
  sys_faccess :: "cstring \<Rightarrow> nat \<Rightarrow> bool"
  sys_isatty :: "int \<Rightarrow> bool"
  euid :: int
  egid :: int
  group_member :: "int \<Rightarrow> bool"
  dev_fd_prefix :: cstring
  option_set :: "cstring \<Rightarrow> bool"
  shell_compatibility_level :: nat
  glob_options :: glob_opts
  valid_array_reference :: "'e \<Rightarrow> cstring \<Rightarrow> bool"
  get_array_value :: "'e \<Rightarrow> cstring \<Rightarrow> cstring option \<times> 'e"
  find_variable :: "'e \<Rightarrow> cstring \<Rightarrow> shell_var option"
  find_variable_noref :: "'e \<Rightarrow> cstring \<Rightarrow> shell_var option"
  number_of_args :: "'e \<Rightarrow> int"
  var_operations :: "'e var_ops"
  cond_expand_word :: "'e \<Rightarrow> word_desc \<Rightarrow> int \<Rightarrow> bool \<Rightarrow> cstring option \<times> 'e"
  sh_regmatch :: "'e \<Rightarrow> cstring \<Rightarrow> cstring \<Rightarrow> int \<times> 'e"

section \<open>Queries about files\<close>

abbreviation (input) F_OK :: nat where "F_OK \<equiv> 0"
abbreviation (input) X_OK :: nat where "X_OK \<equiv> 1"
abbreviation (input) W_OK :: nat where "W_OK \<equiv> 2"
abbreviation (input) R_OK :: nat where "R_OK \<equiv> 4"

text \<open>The bits of a file mode, as the system defines them.\<close>

definition S_IFMT :: uint32 where "S_IFMT = 0xF000"
definition S_IXUGO :: uint32 where "S_IXUGO = 0x49"

definition mode_type :: "uint32 \<Rightarrow> uint32" where
  "mode_type m = and m S_IFMT"

definition path_is_devfd :: "cstring \<Rightarrow> bool" where
  "path_is_devfd path \<longleftrightarrow>
     (if take 8 path = ''/dev/fd/'' then True
      else if take 8 path = ''/dev/std'' then drop 8 path \<in> {''in'', ''out'', ''err''}
      else False)"

definition sh_stat :: "'e test_env \<Rightarrow> cstring \<Rightarrow> stat option" where
  "sh_stat E path =
     (if path = [] then None
      else if take 8 path = ''/dev/fd/'' then sys_stat E (dev_fd_prefix E @ drop 8 path)
      else sys_stat E path)"

definition sh_stataccess :: "'e test_env \<Rightarrow> cstring \<Rightarrow> nat \<Rightarrow> bool" where
  "sh_stataccess E path mode =
     (case sh_stat E path of
        None \<Rightarrow> False
      | Some st \<Rightarrow>
          if euid E = 0 \<and> (\<not> bit mode 0 \<or> and (st_mode st) S_IXUGO \<noteq> 0) then True
          else
            let m = (if st_uid st = euid E then push_bit 6 mode else if group_member E (st_gid st) then push_bit 3 mode else mode)
            in and (st_mode st) (of_nat m) \<noteq> 0)"

definition sh_eaccess :: "'e test_env \<Rightarrow> cstring \<Rightarrow> nat \<Rightarrow> bool" where
  "sh_eaccess E path mode = (if path_is_devfd path then sh_stataccess E path mode else sys_faccess E path mode)"

definition same_file :: "'e test_env \<Rightarrow> cstring \<Rightarrow> cstring \<Rightarrow> stat option \<Rightarrow> stat option \<Rightarrow> bool" where
  "same_file E path1 path2 stp1 stp2 =
     (case (if stp1 = None then sys_stat E path1 else stp1) of
        None \<Rightarrow> False
      | Some st1 \<Rightarrow>
          (case (if stp2 = None then sys_stat E path2 else stp2) of
             None \<Rightarrow> False
           | Some st2 \<Rightarrow> st_dev st1 = st_dev st2 \<and> st_ino st1 = st_ino st2))"

definition timespec_cmp :: "int \<times> int \<Rightarrow> int \<times> int \<Rightarrow> int" where
  "timespec_cmp a b =
     (if fst a < fst b then - 1 else if fst a > fst b then 1 else wrap32 (snd a - snd b))"

section \<open>Outcomes\<close>

datatype test_error = Argument_expected | Integer_expected cstring | Close_expected | Close_expected_found cstring
  | Unary_expected cstring | Binary_expected cstring | Missing_bracket | Unexpected cstring | Too_many_arguments
  | Bad_node_type

datatype 'a tres = Val 'a | Exit test_error | Undef

definition thent :: "'a tres \<times> 's \<Rightarrow> ('a \<Rightarrow> 's \<Rightarrow> 'b tres \<times> 's) \<Rightarrow> 'b tres \<times> 's" where
  "thent m f = (case m of (Val x, s) \<Rightarrow> f x s | (Exit e, s) \<Rightarrow> (Exit e, s) | (Undef, s) \<Rightarrow> (Undef, s))"

section \<open>Operators\<close>

definition test_binop :: "cstring \<Rightarrow> bool" where
  "test_binop op =
     (let c0 = char_at op 0; c1 = char_at op 1; c2 = char_at op 2 in
      if c0 = CHR ''='' \<and> c1 = NUL then True
      else if (c0 = CHR ''<'' \<or> c0 = CHR ''>'') \<and> c1 = NUL then True
      else if (c0 = CHR ''='' \<or> c0 = CHR ''!'') \<and> c1 = CHR ''='' \<and> c2 = NUL then True
      else if c0 \<noteq> CHR ''-'' \<or> c1 = NUL \<or> c2 = NUL \<or> char_at op 3 \<noteq> NUL then False
      else if c2 = CHR ''t'' then c1 \<in> set ''nolg''
      else if c1 = CHR ''e'' then c2 \<in> set ''qf''
      else if c2 = CHR ''e'' then c1 \<in> set ''ngl''
      else False)"

definition test_unop :: "cstring \<Rightarrow> bool" where
  "test_unop op =
     (if char_at op 0 \<noteq> CHR ''-'' \<or> char_at op 1 \<noteq> NUL \<and> char_at op 2 \<noteq> NUL then False
      else char_at op 1 \<in> set ''abcdefghknoprstuvwxzGLOSNR'')"

definition ANDOR :: "cstring \<Rightarrow> bool" where
  "ANDOR s \<longleftrightarrow> char_at s 0 = CHR ''-'' \<and> (char_at s 1 = CHR ''a'' \<or> char_at s 1 = CHR ''o'') \<and> char_at s 2 = NUL"

definition ONE_ARG_TEST :: "cstring \<Rightarrow> bool" where
  "ONE_ARG_TEST s \<longleftrightarrow> char_at s 0 \<noteq> NUL"

definition STREQ :: "cstring \<Rightarrow> cstring \<Rightarrow> bool" where
  "STREQ a b \<longleftrightarrow> char_at a 0 = char_at b 0 \<and> strcmp a b = 0"

section \<open>The tests\<close>

datatype arith_op = EQ | NE | LT | GT | LE | GE
datatype file_op = NT | OT | EF

abbreviation (input) TEST_PATMATCH :: int where "TEST_PATMATCH \<equiv> 1"
abbreviation (input) TEST_ARITHEXP :: int where "TEST_ARITHEXP \<equiv> 2"
abbreviation (input) TEST_LOCALE :: int where "TEST_LOCALE \<equiv> 4"

definition filecomp :: "'e test_env \<Rightarrow> cstring \<Rightarrow> cstring \<Rightarrow> file_op \<Rightarrow> bool" where
  "filecomp E s t op =
     (let st1 = sh_stat E s; st2 = sh_stat E t;
          r1 = (if st1 = None then - 1 else 0 :: int); r2 = (if st2 = None then - 1 else 0 :: int)
      in if op = EF \<and> (r1 < 0 \<or> r2 < 0) then False
         else case op of
                OT \<Rightarrow> r1 < r2 \<or> r2 = 0 \<and> timespec_cmp (st_mtim (the st1)) (st_mtim (the st2)) < 0
              | NT \<Rightarrow> r1 > r2 \<or> r1 = 0 \<and> timespec_cmp (st_mtim (the st1)) (st_mtim (the st2)) > 0
              | EF \<Rightarrow> same_file E s t st1 st2)"

definition arith_result :: "arith_op \<Rightarrow> int \<Rightarrow> int \<Rightarrow> bool" where
  "arith_result op l r =
     (case op of EQ \<Rightarrow> l = r | NE \<Rightarrow> l \<noteq> r | LT \<Rightarrow> l < r | GT \<Rightarrow> l > r | LE \<Rightarrow> l \<le> r | GE \<Rightarrow> l \<ge> r)"

definition arithcomp ::
    "'e test_env \<Rightarrow> cstring \<Rightarrow> cstring \<Rightarrow> arith_op \<Rightarrow> int \<Rightarrow> 'e expr_state \<Rightarrow> bool tres \<times> 'e expr_state" where
  "arithcomp E s t op flags st =
     (if has_flag flags TEST_ARITHEXP then
        (case evalexp (var_operations E) s st of
           None \<Rightarrow> (Undef, st)
         | Some (l, expok, st) \<Rightarrow>
             if \<not> expok then (Val False, st)
             else case evalexp (var_operations E) t st of
                    None \<Rightarrow> (Undef, st)
                  | Some (r, expok, st) \<Rightarrow> if \<not> expok then (Val False, st) else (Val (arith_result op l r), st))
      else
        case legal_number (Some s) of
          None \<Rightarrow> (Exit (Integer_expected s), st)
        | Some l \<Rightarrow>
            (case legal_number (Some t) of
               None \<Rightarrow> (Exit (Integer_expected t), st)
             | Some r \<Rightarrow> (Val (arith_result op l r), st)))"

definition patcomp :: "glob_opts \<Rightarrow> cstring \<Rightarrow> cstring \<Rightarrow> arith_op \<Rightarrow> bool tres" where
  "patcomp g string pat op =
     (case strmatch (glob_asciirange g) (Some pat) (Some string) (or (FNMATCH_EXTFLAG g) (FNMATCH_IGNCASE g)) of
        None \<Rightarrow> Undef
      | Some m \<Rightarrow> Val (if op = EQ then m = 0 else m \<noteq> 0))"

text \<open>In the C locale \<^verbatim>\<open>strcoll\<close> is \<^verbatim>\<open>strcmp\<close>.\<close>

definition binary_test ::
    "'e test_env \<Rightarrow> cstring \<Rightarrow> cstring \<Rightarrow> cstring \<Rightarrow> int \<Rightarrow> 'e expr_state \<Rightarrow> bool tres \<times> 'e expr_state" where
  "binary_test E op arg1 arg2 flags st =
     (let patmatch = has_flag flags TEST_PATMATCH; c0 = char_at op 0; c1 = char_at op 1; c2 = char_at op 2 in
      if c0 = CHR ''='' \<and> (c1 = NUL \<or> c1 = CHR ''='' \<and> c2 = NUL)
      then (if patmatch then patcomp (glob_options E) arg1 arg2 EQ else Val (STREQ arg1 arg2), st)
      else if (c0 = CHR ''>'' \<or> c0 = CHR ''<'') \<and> c1 = NUL
      then (Val (if c0 = CHR ''>'' then strcmp arg1 arg2 > 0 else strcmp arg1 arg2 < 0), st)
      else if c0 = CHR ''!'' \<and> c1 = CHR ''='' \<and> c2 = NUL
      then (if patmatch then patcomp (glob_options E) arg1 arg2 NE else Val (\<not> STREQ arg1 arg2), st)
      else if c2 = CHR ''t'' then
        (if c1 = CHR ''n'' then (Val (filecomp E arg1 arg2 NT), st)
         else if c1 = CHR ''o'' then (Val (filecomp E arg1 arg2 OT), st)
         else if c1 = CHR ''l'' then arithcomp E arg1 arg2 LT flags st
         else if c1 = CHR ''g'' then arithcomp E arg1 arg2 GT flags st
         else (Val False, st))
      else if c1 = CHR ''e'' then
        (if c2 = CHR ''f'' then (Val (filecomp E arg1 arg2 EF), st)
         else if c2 = CHR ''q'' then arithcomp E arg1 arg2 EQ flags st
         else (Val False, st))
      else if c2 = CHR ''e'' then
        (if c1 = CHR ''n'' then arithcomp E arg1 arg2 NE flags st
         else if c1 = CHR ''g'' then arithcomp E arg1 arg2 GE flags st
         else if c1 = CHR ''l'' then arithcomp E arg1 arg2 LE flags st
         else (Val False, st))
      else (Val False, st))"

text \<open>Is a variable set? An array is if its element 0 is.\<close>

definition var_isset :: "shell_var \<Rightarrow> bool" where
  "var_isset v = (case var_value v of Scalar x \<Rightarrow> x \<noteq> None | Indexed a \<Rightarrow> a \<noteq> None | Associative h \<Rightarrow> h \<noteq> None)"

definition test_v :: "'e test_env \<Rightarrow> cstring \<Rightarrow> 'e expr_state \<Rightarrow> bool \<times> 'e expr_state" where
  "test_v E arg st =
     (if valid_array_reference E (env st) arg then
        (let (t, e) = get_array_value E (env st) arg in (t \<noteq> None, st\<lparr>env := e\<rparr>))
      else
        case legal_number (Some arg) of
          Some r \<Rightarrow> (r \<ge> 0 \<and> r \<le> number_of_args E (env st), st)
        | None \<Rightarrow>
            (case find_variable E (env st) arg of
               None \<Rightarrow> (False, st)
             | Some v \<Rightarrow>
                 if var_invisible v then (False, st)
                 else case var_value v of
                        Indexed a \<Rightarrow> (fst (array_reference a 0) \<noteq> None, st)
                      | Associative h \<Rightarrow> (fst (assoc_reference h ''0'') \<noteq> None, st)
                      | Scalar _ \<Rightarrow> (var_isset v, st)))"

definition unary_test :: "'e test_env \<Rightarrow> cstring \<Rightarrow> cstring \<Rightarrow> 'e expr_state \<Rightarrow> bool \<times> 'e expr_state" where
  "unary_test E op arg st =
     (let c = char_at op 1; stated = (\<lambda>P. case sh_stat E arg of None \<Rightarrow> False | Some b \<Rightarrow> P b) in
      if c = CHR ''v'' then test_v E arg st
      else
       (if c = CHR ''a'' \<or> c = CHR ''e'' then stated (\<lambda>b. True)
        else if c = CHR ''r'' then sh_eaccess E arg R_OK
        else if c = CHR ''w'' then sh_eaccess E arg W_OK
        else if c = CHR ''x'' then sh_eaccess E arg X_OK
        else if c = CHR ''O'' then stated (\<lambda>b. euid E = st_uid b)
        else if c = CHR ''G'' then stated (\<lambda>b. egid E = st_gid b)
        else if c = CHR ''N'' then stated (\<lambda>b. timespec_cmp (st_mtim b) (st_atim b) > 0)
        else if c = CHR ''f'' then stated (\<lambda>b. mode_type (st_mode b) = 0x8000 \<or> mode_type (st_mode b) = 0)
        else if c = CHR ''d'' then stated (\<lambda>b. mode_type (st_mode b) = 0x4000)
        else if c = CHR ''s'' then stated (\<lambda>b. st_size b > 0)
        else if c = CHR ''S'' then stated (\<lambda>b. mode_type (st_mode b) = 0xC000)
        else if c = CHR ''c'' then stated (\<lambda>b. mode_type (st_mode b) = 0x2000)
        else if c = CHR ''b'' then stated (\<lambda>b. mode_type (st_mode b) = 0x6000)
        else if c = CHR ''p'' then stated (\<lambda>b. mode_type (st_mode b) = 0x1000)
        else if c = CHR ''L'' \<or> c = CHR ''h'' then
          char_at arg 0 \<noteq> NUL \<and> (case sys_lstat E arg of None \<Rightarrow> False | Some b \<Rightarrow> mode_type (st_mode b) = 0xA000)
        else if c = CHR ''u'' then stated (\<lambda>b. bit (st_mode b) 11)
        else if c = CHR ''g'' then stated (\<lambda>b. bit (st_mode b) 10)
        else if c = CHR ''k'' then stated (\<lambda>b. bit (st_mode b) 9)
        else if c = CHR ''t'' then (case legal_number (Some arg) of None \<Rightarrow> False | Some r \<Rightarrow> r = wrap32 r \<and> sys_isatty E (wrap32 r))
        else if c = CHR ''n'' then char_at arg 0 \<noteq> NUL
        else if c = CHR ''z'' then char_at arg 0 = NUL
        else if c = CHR ''o'' then option_set E arg
        else if c = CHR ''R'' then
          (case find_variable_noref E (env st) arg of None \<Rightarrow> False | Some v \<Rightarrow> \<not> var_invisible v \<and> var_isset v \<and> var_nameref v)
        else False, st))"

section \<open>The parser of the command\<close>

text \<open>The word at a position of the vector, \<open>None\<close> for the \<^verbatim>\<open>NULL\<close> at its end.\<close>

definition word_at :: "cstring list \<Rightarrow> nat \<Rightarrow> cstring option" where
  "word_at argv i = (if i < length argv then Some (argv ! i) else None)"

definition advance :: "bool \<Rightarrow> nat \<Rightarrow> nat \<Rightarrow> nat tres" where
  "advance f argc pos = (if f \<and> argc \<le> pos + 1 then Exit Argument_expected else Val (pos + 1))"

definition binary_operator ::
    "'e test_env \<Rightarrow> cstring list \<Rightarrow> nat \<Rightarrow> 'e expr_state \<Rightarrow> (bool \<times> nat) tres \<times> 'e expr_state" where
  "binary_operator E argv pos st =
     (case (word_at argv pos, word_at argv (pos + 1), word_at argv (pos + 2)) of
        (Some a, Some w, Some b) \<Rightarrow>
          let c0 = char_at w 0; c1 = char_at w 1; c2 = char_at w 2 in
          if c0 = CHR ''='' \<and> (c1 = NUL \<or> c1 = CHR ''='' \<and> c2 = NUL) \<or> (c0 = CHR ''>'' \<or> c0 = CHR ''<'') \<and> c1 = NUL
             \<or> c0 = CHR ''!'' \<and> c1 = CHR ''='' \<and> c2 = NUL
          then thent (binary_test E w a b 0 st) (\<lambda>value st. (Val (value, pos + 3), st))
          else if (c0 \<noteq> CHR ''-'' \<or> char_at w 3 \<noteq> NUL) \<or> \<not> test_binop w then (Exit (Binary_expected w), st)
          else thent (binary_test E w a b 0 st) (\<lambda>value st. (Val (value, pos + 3), st))
      | _ \<Rightarrow> (Undef, st))"

definition unary_operator ::
    "'e test_env \<Rightarrow> cstring list \<Rightarrow> nat \<Rightarrow> nat \<Rightarrow> 'e expr_state \<Rightarrow> (bool \<times> nat) tres \<times> 'e expr_state" where
  "unary_operator E argv argc pos st =
     (case word_at argv pos of
        None \<Rightarrow> (Undef, st)
      | Some op \<Rightarrow>
          if \<not> test_unop op then (Val (False, pos), st)
          else if char_at op 1 = CHR ''t'' then
            (if pos + 1 < argc then
               (case word_at argv (pos + 1) of
                  None \<Rightarrow> (Undef, st)
                | Some a \<Rightarrow>
                    if legal_number (Some a) \<noteq> None
                    then (let (r, st) = unary_test E op a st in (Val (r, pos + 2), st))
                    else (Val (False, pos + 1), st))
             else let (r, st) = unary_test E op ''1'' st in (Val (r, pos + 1), st))
          else if argc \<le> pos + 1 then (Exit Argument_expected, st)
          else case word_at argv (pos + 1) of
                 None \<Rightarrow> (Undef, st)
               | Some a \<Rightarrow> let (r, st) = unary_test E op a st in (Val (r, pos + 2), st))"

text \<open>The loop over leading \<^verbatim>\<open>!\<close>: whether to negate, and the position of the operand.\<close>

function skip_nots :: "cstring list \<Rightarrow> nat \<Rightarrow> nat \<Rightarrow> bool \<Rightarrow> (bool \<times> nat) tres" where
  "skip_nots argv argc pos value =
     (if pos < argc \<and> word_at argv pos = Some ''!''
      then if argc \<le> pos + 1 then Exit Argument_expected else skip_nots argv argc (pos + 1) (\<not> value)
      else Val (value, pos))"
  by pat_completeness auto
termination by (relation "measure (\<lambda>(argv, argc, pos, value). argc - pos)") auto

declare skip_nots.simps [simp del]

lemma thent_cong [fundef_cong]:
  "m = m' \<Longrightarrow> (\<And>x s. m' = (Val x, s) \<Longrightarrow> f x s = g x s) \<Longrightarrow> thent m f = thent m' g"
  by (cases m') (auto simp: thent_def split: tres.split)

lemma thent_Val: "thent m f = (Val y, s') \<longleftrightarrow> (\<exists>x s. m = (Val x, s) \<and> f x s = (Val y, s'))"
  by (cases m) (auto simp: thent_def split: tres.split)

lemma skip_nots_forward: "skip_nots argv argc pos neg = Val (v, p) \<Longrightarrow> pos \<le> p \<and> (word_at argv pos = Some ''!'' \<and> pos < argc \<longrightarrow> pos < p)"
proof (induction argv argc pos neg rule: skip_nots.induct)
  case (1 argv argc pos neg)
  have "Suc pos \<le> p" if "pos < argc \<and> word_at argv pos = Some ''!''" "\<not> argc \<le> pos + 1" "skip_nots argv argc (Suc pos) (\<not> neg) = Val (v, p)"
    using 1(1) [OF that(1,2)] that(3) by simp
  then show ?case
    using 1(2) by (subst (asm) skip_nots.simps) (fastforce split: if_splits)
qed

lemma operator_forward:
  "binary_operator E argv pos st = (Val (v, p), st') \<Longrightarrow> pos < p"
  "unary_operator E argv argc pos st = (Val (v, p), st') \<Longrightarrow> word_at argv pos = Some w \<Longrightarrow> test_unop w \<Longrightarrow> pos < p"
  by (auto simp: binary_operator_def unary_operator_def thent_Val Let_def split: option.splits prod.splits if_splits)

function (domintros) test_expr ::
    "'e test_env \<Rightarrow> cstring list \<Rightarrow> nat \<Rightarrow> nat \<Rightarrow> 'e expr_state \<Rightarrow> (bool \<times> nat) tres \<times> 'e expr_state"
  and test_or :: "'e test_env \<Rightarrow> cstring list \<Rightarrow> nat \<Rightarrow> nat \<Rightarrow> 'e expr_state \<Rightarrow> (bool \<times> nat) tres \<times> 'e expr_state"
  and test_and :: "'e test_env \<Rightarrow> cstring list \<Rightarrow> nat \<Rightarrow> nat \<Rightarrow> 'e expr_state \<Rightarrow> (bool \<times> nat) tres \<times> 'e expr_state"
  and test_term :: "'e test_env \<Rightarrow> cstring list \<Rightarrow> nat \<Rightarrow> nat \<Rightarrow> 'e expr_state \<Rightarrow> (bool \<times> nat) tres \<times> 'e expr_state" where
  "test_expr E argv argc pos st =
     (if argc \<le> pos then (Exit Argument_expected, st) else test_or E argv argc pos st)"
| "test_or E argv argc pos st =
     thent (test_and E argv argc pos st)
       (\<lambda>(value, pos) st.
          if pos < argc \<and> word_at argv pos = Some ''-o''
          then thent (test_or E argv argc (pos + 1) st) (\<lambda>(v2, pos) st. (Val (value \<or> v2, pos), st))
          else (Val (value, pos), st))"
| "test_and E argv argc pos st =
     thent (test_term E argv argc pos st)
       (\<lambda>(value, pos) st.
          if pos < argc \<and> word_at argv pos = Some ''-a''
          then thent (test_and E argv argc (pos + 1) st) (\<lambda>(v2, pos) st. (Val (value \<and> v2, pos), st))
          else (Val (value, pos), st))"
| "test_term E argv argc pos st =
     (if argc \<le> pos then (Exit Argument_expected, st)
      else
        case word_at argv pos of
          None \<Rightarrow> (Undef, st)
        | Some w \<Rightarrow>
            if w = ''!'' then
              thent (skip_nots argv argc pos False, st)
                (\<lambda>(value, pos') st. thent (test_term E argv argc pos' st)
                   (\<lambda>(v, pos) st. (Val (if value then \<not> v else v, pos), st)))
            else if w = ''('' then
              thent (advance True argc pos, st)
                (\<lambda>pos st. thent (test_expr E argv argc pos st)
                   (\<lambda>(value, pos) st.
                      if length argv < pos then (Undef, st)
                      else case word_at argv pos of
                             None \<Rightarrow> (Exit Close_expected, st)
                           | Some w \<Rightarrow> if w \<noteq> '')'' then (Exit (Close_expected_found w), st)
                                       else (Val (value, pos + 1), st)))
            else if pos + 3 \<le> argc \<and> (case word_at argv (pos + 1) of None \<Rightarrow> False | Some op \<Rightarrow> test_binop op)
            then binary_operator E argv pos st
            else if pos + 2 \<le> argc \<and> test_unop w then unary_operator E argv argc pos st
            else (Val (w \<noteq> [], pos + 1), st))"
  by pat_completeness auto
termination
proof -
  have forward:
    "test_expr_test_or_test_and_test_term_dom (Inl (Inl (E, argv, argc, pos, st))) \<Longrightarrow> test_expr E argv argc pos st = (Val (v, p), st') \<Longrightarrow> pos < p"
    "test_expr_test_or_test_and_test_term_dom (Inl (Inr (E, argv, argc, pos, st))) \<Longrightarrow> test_or E argv argc pos st = (Val (v, p), st') \<Longrightarrow> pos < p"
    "test_expr_test_or_test_and_test_term_dom (Inr (Inl (E, argv, argc, pos, st))) \<Longrightarrow> test_and E argv argc pos st = (Val (v, p), st') \<Longrightarrow> pos < p"
    "test_expr_test_or_test_and_test_term_dom (Inr (Inr (E, argv, argc, pos, st))) \<Longrightarrow> test_term E argv argc pos st = (Val (v, p), st') \<Longrightarrow> pos < p"
    for E :: "'e test_env" and argv argc pos st v p st'
  proof (induction arbitrary: v p st' and v p st' and v p st' and v p st' rule: test_expr_test_or_test_and_test_term.pinduct)
    case (1 E argv argc pos st)
    then show ?case by (auto simp: test_expr.psimps split: if_splits)
  next
    case (2 E argv argc pos st)
    then show ?case by (fastforce simp: test_or.psimps thent_Val split: if_splits)
  next
    case (3 E argv argc pos st)
    then show ?case by (fastforce simp: test_and.psimps thent_Val split: if_splits)
  next
    case (4 E argv argc pos st)
    then show ?case
      using operator_forward
      by (fastforce simp: test_term.psimps thent_Val advance_def dest: skip_nots_forward split: if_splits option.splits)
  qed
  show ?thesis
  proof (relation "measure (\<lambda>x. case x of
        Inl (Inl (E, argv, argc, pos, st)) \<Rightarrow> 4 * (argc - pos) + 3
      | Inl (Inr (E, argv, argc, pos, st)) \<Rightarrow> 4 * (argc - pos) + 2
      | Inr (Inl (E, argv, argc, pos, st)) \<Rightarrow> 4 * (argc - pos) + 1
      | Inr (Inr (E, argv, argc, pos, st)) \<Rightarrow> 4 * (argc - pos))", goal_cases)
    case (4 E argv argc pos st x y xa ya)
    then show ?case by (auto dest!: forward(3))
  next
    case (6 E argv argc pos st x y xa ya)
    then show ?case by (auto dest!: forward(4))
  qed (auto simp: advance_def dest: skip_nots_forward split: if_splits)
qed

declare test_expr.simps [simp del] and test_or.simps [simp del] and test_and.simps [simp del] and test_term.simps [simp del]

section \<open>The command\<close>

definition two_arguments ::
    "'e test_env \<Rightarrow> cstring list \<Rightarrow> nat \<Rightarrow> nat \<Rightarrow> 'e expr_state \<Rightarrow> (bool \<times> nat) tres \<times> 'e expr_state" where
  "two_arguments E argv argc pos st =
     (case (word_at argv pos, word_at argv (pos + 1)) of
        (Some op, Some a) \<Rightarrow>
          if op = ''!'' then (Val (a = [], pos), st)
          else if char_at op 0 = CHR ''-'' \<and> char_at op 1 \<noteq> NUL \<and> char_at op 2 = NUL
          then if test_unop op then unary_operator E argv argc pos st else (Exit (Unary_expected op), st)
          else (Exit (Unary_expected op), st)
      | _ \<Rightarrow> (Undef, st))"

definition three_arguments ::
    "'e test_env \<Rightarrow> cstring list \<Rightarrow> nat \<Rightarrow> nat \<Rightarrow> 'e expr_state \<Rightarrow> (bool \<times> nat) tres \<times> 'e expr_state" where
  "three_arguments E argv argc pos st =
     (case (word_at argv pos, word_at argv (pos + 1), word_at argv (pos + 2)) of
        (Some a, Some op, Some b) \<Rightarrow>
          if test_binop op then thent (binary_operator E argv pos st) (\<lambda>(value, _) st. (Val (value, argc), st))
          else if ANDOR op then
            (Val (if char_at op 1 = CHR ''a'' then ONE_ARG_TEST a \<and> ONE_ARG_TEST b else ONE_ARG_TEST a \<or> ONE_ARG_TEST b, argc), st)
          else if a = ''!'' then
            thent (advance True argc pos, st)
              (\<lambda>pos st. thent (two_arguments E argv argc pos st) (\<lambda>(value, _) st. (Val (\<not> value, argc), st)))
          else if char_at a 0 = CHR ''('' \<and> char_at b 0 = CHR '')'' then (Val (ONE_ARG_TEST op, argc), st)
          else (Exit (Binary_expected op), st)
      | _ \<Rightarrow> (Undef, st))"

definition posixtest ::
    "'e test_env \<Rightarrow> cstring list \<Rightarrow> nat \<Rightarrow> nat \<Rightarrow> 'e expr_state \<Rightarrow> (bool \<times> nat) tres \<times> 'e expr_state" where
  "posixtest E argv argc pos st =
     (if argc - 1 = 0 then (Val (False, argc), st)
      else if argc - 1 = 1 then
        (case word_at argv 1 of None \<Rightarrow> (Undef, st) | Some a \<Rightarrow> (Val (ONE_ARG_TEST a, argc), st))
      else if argc - 1 = 2 then thent (two_arguments E argv argc pos st) (\<lambda>(value, _) st. (Val (value, argc), st))
      else if argc - 1 = 3 then three_arguments E argv argc pos st
      else if argc - 1 = 4 \<and> word_at argv pos = Some ''!'' then
        thent (advance True argc pos, st)
          (\<lambda>pos st. thent (three_arguments E argv argc pos st) (\<lambda>(value, pos) st. (Val (\<not> value, pos), st)))
      else if argc - 1 = 4 \<and> word_at argv pos = Some ''('' \<and> word_at argv (argc - 1) = Some '')'' then
        thent (advance True argc pos, st)
          (\<lambda>pos st. thent (two_arguments E argv argc pos st) (\<lambda>(value, _) st. (Val (value, argc), st)))
      else test_expr E argv argc pos st)"

text \<open>The status of the command, with the message of an error; \<open>None\<close> if it reads what it must not.\<close>

definition test_status :: "(bool \<times> nat) tres \<times> 's \<Rightarrow> cstring list \<Rightarrow> nat \<Rightarrow> (int \<times> test_error option) option \<times> 's" where
  "test_status r argv argc =
     (case r of
        (Undef, st) \<Rightarrow> (None, st)
      | (Exit e, st) \<Rightarrow> (Some (2, Some e), st)
      | (Val (value, pos), st) \<Rightarrow>
          if pos \<noteq> argc then
            (if pos < argc \<and> char_at (argv ! pos) 0 = CHR ''-'' then (Some (2, Some (Unexpected (argv ! pos))), st)
             else (Some (2, Some Too_many_arguments), st))
          else (Some (if value then 0 else 1, None), st))"

definition test_command :: "'e test_env \<Rightarrow> cstring list \<Rightarrow> 'e expr_state \<Rightarrow> (int \<times> test_error option) option \<times> 'e expr_state" where
  "test_command E margv st =
     (let margc = length margv; bracket = (word_at margv 0 = Some ''[''); argc = (if bracket then margc - 1 else margc) in
      if bracket \<and> margv ! argc \<noteq> '']'' then (Some (2, Some Missing_bracket), st)
      else if bracket \<and> argc < 2 then (Some (1, None), st)
      else if argc \<le> 1 then (Some (1, None), st)
      else test_status (posixtest E margv argc 1 st) margv argc)"

section \<open>The conditional command\<close>

datatype cond_type = COND_AND | COND_OR | COND_UNARY | COND_BINARY | COND_TERM | COND_EXPR

datatype cond_com = Cond_Com (cond_invert: bool) (cond_ignore: bool) cond_type "word_desc option" "cond_com option" "cond_com option"

abbreviation (input) EXECUTION_SUCCESS :: int where "EXECUTION_SUCCESS \<equiv> 0"
abbreviation (input) EXECUTION_FAILURE :: int where "EXECUTION_FAILURE \<equiv> 1"

text \<open>The word in the operand of a test.\<close>

definition cond_word :: "cond_com option \<Rightarrow> word_desc option" where
  "cond_word c = (case c of Some (Cond_Com _ _ _ op _ _) \<Rightarrow> op | None \<Rightarrow> None)"

definition expand_operand ::
    "'e test_env \<Rightarrow> word_desc \<Rightarrow> int \<Rightarrow> bool \<Rightarrow> 'e expr_state \<Rightarrow> cstring \<times> 'e expr_state" where
  "expand_operand E w mode ignore st =
     (let (arg, e) = cond_expand_word E (env st) w mode ignore
      in (case arg of None \<Rightarrow> [] | Some s \<Rightarrow> s, st\<lparr>env := e\<rparr>))"

definition cond_unary ::
    "'e test_env \<Rightarrow> bool \<Rightarrow> cstring \<Rightarrow> word_desc \<Rightarrow> 'e expr_state \<Rightarrow> int tres \<times> 'e expr_state" where
  "cond_unary E ignore op left st =
     (let (arg1, st) = expand_operand E left (if op = ''-v'' then 3 else 0) ignore st;
          (result, st) = unary_test E op arg1 st
      in (Val (if result then EXECUTION_SUCCESS else EXECUTION_FAILURE), st))"

definition cond_binary ::
    "'e test_env \<Rightarrow> bool \<Rightarrow> cstring \<Rightarrow> word_desc \<Rightarrow> word_desc \<Rightarrow> 'e expr_state \<Rightarrow> int tres \<times> 'e expr_state" where
  "cond_binary E ignore op left right st =
     (let patmatch = (op \<in> {''!='', ''=='', ''=''}); rmatch = (op = ''=~'');
          arith = (op \<in> {''-eq'', ''-ne'', ''-lt'', ''-le'', ''-gt'', ''-ge''});
          mode = (if arith then 3 else if rmatch \<and> shell_compatibility_level E > 31 then 2 else if patmatch then 1 else 0);
          (arg1, st) = expand_operand E left (if arith then mode else 0) ignore st;
          (arg2, st) = expand_operand E right mode ignore st
      in if rmatch then (let (result, e) = sh_regmatch E (env st) arg1 arg2 in (Val result, st\<lparr>env := e\<rparr>))
         else
           thent (binary_test (E\<lparr>glob_options := (glob_options E)\<lparr>extended_glob := True\<rparr>\<rparr>) op arg1 arg2
                    (or TEST_PATMATCH (or TEST_ARITHEXP TEST_LOCALE)) st)
             (\<lambda>result st. (Val (if result then EXECUTION_SUCCESS else EXECUTION_FAILURE), st)))"

text \<open>
  The flag \<^verbatim>\<open>CMD_IGNORE_RETURN\<close> is handed down to the operands, where \<open>ign\<close> tells of it. A node of another type
  makes the shell jump to its top level.
\<close>

fun execute_cond_node :: "'e test_env \<Rightarrow> bool \<Rightarrow> cond_com \<Rightarrow> 'e expr_state \<Rightarrow> int tres \<times> 'e expr_state" where
  "execute_cond_node E ign (Cond_Com invert own_ignore type op left right) st =
     (let ignore = (ign \<or> own_ignore) in
      thent
       (case type of
          COND_EXPR \<Rightarrow> (case left of None \<Rightarrow> (Undef, st) | Some l \<Rightarrow> execute_cond_node E ignore l st)
        | COND_OR \<Rightarrow>
            (case (left, right) of
               (Some l, Some r) \<Rightarrow>
                 thent (execute_cond_node E ignore l st)
                   (\<lambda>result st. if result \<noteq> EXECUTION_SUCCESS then execute_cond_node E ignore r st else (Val result, st))
             | _ \<Rightarrow> (Undef, st))
        | COND_AND \<Rightarrow>
            (case (left, right) of
               (Some l, Some r) \<Rightarrow>
                 thent (execute_cond_node E ignore l st)
                   (\<lambda>result st. if result = EXECUTION_SUCCESS then execute_cond_node E ignore r st else (Val result, st))
             | _ \<Rightarrow> (Undef, st))
        | COND_UNARY \<Rightarrow>
            (case (op, cond_word left) of
               (Some o1, Some l) \<Rightarrow> cond_unary E ignore (wd_word o1) l st
             | _ \<Rightarrow> (Undef, st))
        | COND_BINARY \<Rightarrow>
            (case (op, cond_word left, cond_word right) of
               (Some o1, Some l, Some r) \<Rightarrow> cond_binary E ignore (wd_word o1) l r st
             | _ \<Rightarrow> (Undef, st))
        | COND_TERM \<Rightarrow> (Exit Bad_node_type, st))
       (\<lambda>result st. (Val (if invert then if result = EXECUTION_SUCCESS then EXECUTION_FAILURE else EXECUTION_SUCCESS else result), st)))"

end
