(* ===== verification/Test_Correct.thy ===== *)
theory Test_Correct
  imports Test_Cmd
begin

text \<open>
  The \<^verbatim>\<open>test\<close> command computes the truth value of the expression its arguments spell, with the rules for few
  arguments taking precedence as POSIX asks; whatever the arguments are, it stays inside the vector and exits with
  0, 1 or 2.
\<close>

section \<open>Expressions\<close>

datatype texp = Str cstring | Unary cstring cstring | Binary cstring cstring cstring | Not texp | And texp texp | Or texp texp | Paren texp

primrec texp_words :: "texp \<Rightarrow> cstring list" where
  "texp_words (Str s) = [s]"
| "texp_words (Unary op a) = [op, a]"
| "texp_words (Binary a op b) = [a, op, b]"
| "texp_words (Not e) = ''!'' # texp_words e"
| "texp_words (And e1 e2) = texp_words e1 @ ''-a'' # texp_words e2"
| "texp_words (Or e1 e2) = texp_words e1 @ ''-o'' # texp_words e2"
| "texp_words (Paren e) = ''('' # texp_words e @ ['')'']"

fun texp_level :: "texp \<Rightarrow> nat" where
  "texp_level (Or _ _) = 0"
| "texp_level (And _ _) = 1"
| "texp_level _ = 2"

primrec texp_ok :: "texp \<Rightarrow> bool" where
  "texp_ok (Str s) \<longleftrightarrow> cstring_ok s \<and> s \<noteq> ''!'' \<and> s \<noteq> ''('' \<and> \<not> test_unop s \<and> \<not> test_binop s"
| "texp_ok (Unary op a) \<longleftrightarrow> cstring_ok op \<and> test_unop op \<and> \<not> test_binop a \<and> (op = ''-t'' \<longrightarrow> legal_number (Some a) \<noteq> None)"
| "texp_ok (Binary a op b) \<longleftrightarrow> cstring_ok op \<and> a \<noteq> ''!'' \<and> a \<noteq> ''('' \<and> test_binop op"
| "texp_ok (Not e) \<longleftrightarrow> texp_level e = 2 \<and> texp_ok e"
| "texp_ok (And e1 e2) \<longleftrightarrow> texp_level e1 = 2 \<and> 1 \<le> texp_level e2 \<and> texp_ok e1 \<and> texp_ok e2"
| "texp_ok (Or e1 e2) \<longleftrightarrow> 1 \<le> texp_level e1 \<and> texp_ok e1 \<and> texp_ok e2"
| "texp_ok (Paren e) \<longleftrightarrow> texp_ok e"

text \<open>Both operands of \<^verbatim>\<open>-a\<close> and \<^verbatim>\<open>-o\<close> are evaluated.\<close>

primrec texp_sem :: "'e test_env \<Rightarrow> texp \<Rightarrow> 'e expr_state \<Rightarrow> bool tres \<times> 'e expr_state" where
  "texp_sem E (Str s) st = (Val (s \<noteq> []), st)"
| "texp_sem E (Unary op a) st = (let (b, st) = unary_test E op a st in (Val b, st))"
| "texp_sem E (Binary a op b) st = binary_test E op a b 0 st"
| "texp_sem E (Not e) st = thent (texp_sem E e st) (\<lambda>b st. (Val (\<not> b), st))"
| "texp_sem E (And e1 e2) st =
     thent (texp_sem E e1 st) (\<lambda>b1 st. thent (texp_sem E e2 st) (\<lambda>b2 st. (Val (b1 \<and> b2), st)))"
| "texp_sem E (Or e1 e2) st =
     thent (texp_sem E e1 st) (\<lambda>b1 st. thent (texp_sem E e2 st) (\<lambda>b2 st. (Val (b1 \<or> b2), st)))"
| "texp_sem E (Paren e) st = texp_sem E e st"

text \<open>
  With three or four arguments a first \<^verbatim>\<open>!\<close> negates all the rest, and \<^verbatim>\<open>-a\<close> and \<^verbatim>\<open>-o\<close> between two arguments are the
  binary operators; the expressions that the grammar reads in another way are left out.
\<close>

fun few_ok :: "texp \<Rightarrow> bool" where
  "few_ok (Not (Unary op a)) \<longleftrightarrow> \<not> ANDOR op"
| "few_ok (Not (Not (Unary op a))) \<longleftrightarrow> \<not> ANDOR op"
| "few_ok (And (Not (Str a)) (Str b)) \<longleftrightarrow> False"
| "few_ok (Or (Not (Str a)) (Str b)) \<longleftrightarrow> False"
| "few_ok _ \<longleftrightarrow> True"

section \<open>The parser\<close>

lemma thent_simps [simp]:
  "thent (Val x, s) f = f x s" "thent (Exit e, s) f = (Exit e, s)" "thent (Undef, s) f = (Undef, s)"
  by (simp_all add: thent_def)

lemma thent_assoc: "thent (thent m f) g = thent m (\<lambda>x s. thent (f x s) g)"
  by (simp add: thent_def split: prod.split tres.split)

lemma thent_ext: "(\<And>x s. f x s = g x s) \<Longrightarrow> thent m f = thent m g"
  by (simp add: thent_def split: prod.split tres.split)

definition sees :: "cstring list \<Rightarrow> nat \<Rightarrow> nat \<Rightarrow> cstring list \<Rightarrow> bool" where
  "sees argv argc pos ws \<longleftrightarrow> argc \<le> length argv \<and> drop pos (take argc argv) = ws"

lemma sees_Cons:
  assumes "sees argv argc pos (w # ws)"
  shows "pos < argc" "pos < length argv" "argv ! pos = w" "word_at argv pos = Some w" "sees argv argc (Suc pos) ws"
proof -
  have d: "drop pos (take argc argv) = w # ws" "argc \<le> length argv" using assms by (simp_all add: sees_def)
  then have "pos < length (take argc argv)" by (metis drop_all list.distinct(1) not_le)
  with d show "pos < argc" "pos < length argv" by simp_all
  then have "take argc argv ! pos = w" using d by (metis hd_drop_conv_nth length_take list.sel(1) min_less_iff_conj)
  then show "argv ! pos = w" using \<open>pos < argc\<close> by simp
  then show "word_at argv pos = Some w" using \<open>pos < length argv\<close> by (simp add: word_at_def)
  show "sees argv argc (Suc pos) ws" using d by (simp add: sees_def drop_Suc tl_drop [symmetric])
qed

lemma sees_append: "sees argv argc pos (us @ ws) \<Longrightarrow> sees argv argc (pos + length us) ws"
  by (auto simp: sees_def drop_after)

lemma sees_Nil: "sees argv argc pos [] \<Longrightarrow> argc \<le> pos"
  by (auto simp: sees_def min_def split: if_splits)

lemma sees_room: "sees argv argc pos ws \<Longrightarrow> length ws = argc - pos"
  by (auto simp: sees_def min_def)

text \<open>The result of a part of the parser: the meaning of the words read, and the position after them.\<close>

definition reads :: "bool tres \<times> 's \<Rightarrow> nat \<Rightarrow> (bool \<times> nat) tres \<times> 's" where
  "reads m p = thent m (\<lambda>b st. (Val (b, p), st))"

lemma reads_thent [simp]: "thent (reads m p) f = thent m (\<lambda>b st. f (b, p) st)"
  by (simp add: reads_def thent_assoc)

lemma reads_Val [simp]: "reads (Val b, st) p = (Val (b, p), st)"
  by (simp add: reads_def)

lemma skip_nots_flip:
  "skip_nots argv argc pos (\<not> v) =
     (case skip_nots argv argc pos v of Val (b, p) \<Rightarrow> Val (\<not> b, p) | Exit e \<Rightarrow> Exit e | Undef \<Rightarrow> Undef)"
proof (induction argv argc pos v rule: skip_nots.induct)
  case (1 argv argc pos v)
  then show ?case
    by (cases "pos < argc \<and> word_at argv pos = Some ''!''"; cases "argc \<le> pos + 1")
       (simp_all add: skip_nots.simps [of argv argc pos])
qed

lemma term_not:
  assumes "word_at argv pos = Some ''!''" and "pos + 1 < argc" and "argc \<le> length argv"
  shows "test_term E argv argc pos st = thent (test_term E argv argc (pos + 1) st) (\<lambda>(b, p) st. (Val (\<not> b, p), st))"
proof -
  have nots: "skip_nots argv argc pos False = skip_nots argv argc (pos + 1) (\<not> False)"
    using assms by (subst skip_nots.simps) simp
  have first: "test_term E argv argc pos st = thent (skip_nots argv argc pos False, st)
      (\<lambda>(neg, p) st. thent (test_term E argv argc p st) (\<lambda>(v, p) st. (Val (if neg then \<not> v else v, p), st)))"
    if "pos < argc" "word_at argv pos = Some ''!''" for pos
    using that by (subst test_term.simps) simp
  show ?thesis
  proof (cases "word_at argv (pos + 1) = Some ''!''")
    case True
    show ?thesis
      unfolding first [OF assms(2) True] first [OF less_trans [OF less_add_one assms(2)] assms(1)] nots skip_nots_flip
      by (auto simp: thent_assoc split: tres.split intro!: thent_ext)
  next
    case False
    then have "skip_nots argv argc pos False = Val (True, pos + 1)"
      unfolding nots by (subst skip_nots.simps) auto
    then show ?thesis using first [of pos] assms by simp
  qed
qed


lemma char_at_string:
  assumes "cstring_ok s"
  shows "char_at s 0 = NUL \<longleftrightarrow> s = []"
    "c \<noteq> NUL \<Longrightarrow> char_at s 0 = c \<and> char_at s 1 = NUL \<longleftrightarrow> s = [c]"
    "c \<noteq> NUL \<Longrightarrow> d \<noteq> NUL \<Longrightarrow> char_at s 0 = c \<and> char_at s 1 = d \<and> char_at s 2 = NUL \<longleftrightarrow> s = [c, d]"
  using assms by (cases s; cases "tl s"; cases "tl (tl s)"; auto simp: char_at_def cstring_ok_def)+

lemma test_binop_cases:
  "test_binop op \<Longrightarrow>
     char_at op 0 = CHR ''='' \<and> (char_at op 1 = NUL \<or> char_at op 1 = CHR ''='' \<and> char_at op 2 = NUL)
     \<or> (char_at op 0 = CHR ''>'' \<or> char_at op 0 = CHR ''<'') \<and> char_at op 1 = NUL
     \<or> char_at op 0 = CHR ''!'' \<and> char_at op 1 = CHR ''='' \<and> char_at op 2 = NUL
     \<or> char_at op 0 = CHR ''-'' \<and> char_at op 3 = NUL"
  unfolding test_binop_def Let_def by argo

lemma binary_operator_reads:
  assumes "sees argv argc pos (a # op # b # rest)" and "test_binop op"
  shows "binary_operator E argv pos st = reads (texp_sem E (Binary a op b) st) (pos + 3)"
proof -
  note see = sees_Cons(4,5) [OF assms(1)]
  note see1 = sees_Cons(4,5) [OF see(2)]
  note see2 = sees_Cons(4) [OF see1(2)]
  have words: "word_at argv pos = Some a" "word_at argv (pos + 1) = Some op" "word_at argv (pos + 2) = Some b"
    using see see1 see2 by simp_all
  have "binary_operator E argv pos st = thent (binary_test E op a b 0 st) (\<lambda>v st. (Val (v, pos + 3), st))"
    using test_binop_cases [OF assms(2)] assms(2)
    unfolding binary_operator_def words option.case prod.case Let_def by (elim disjE conjE) simp_all
  then show ?thesis by (simp add: reads_def)
qed

lemma unary_operator_reads:
  assumes "sees argv argc pos (op # a # rest)" and "texp_ok (Unary op a)"
  shows "unary_operator E argv argc pos st = reads (texp_sem E (Unary op a) st) (pos + 2)"
proof -
  note see = sees_Cons(4,5) [OF assms(1)]
  note see1 = sees_Cons(1,4) [OF see(2)]
  have "char_at op 1 = CHR ''t'' \<Longrightarrow> op = ''-t''"
    using assms(2) char_at_string(3) [of op "CHR ''-''" "CHR ''t''"] by (auto simp: test_unop_def NUL_def split: if_splits)
  then have "char_at op 1 = CHR ''t'' \<Longrightarrow> legal_number (Some a) \<noteq> None" using assms(2) by auto
  then show ?thesis
    using see see1 assms(2) by (auto simp: unary_operator_def split: prod.split)
qed

text \<open>What may follow a part of the expression.\<close>

definition followed :: "nat \<Rightarrow> cstring list \<Rightarrow> bool" where
  "followed lev rest \<longleftrightarrow> rest = [] \<or> hd rest = '')'' \<or> lev \<ge> 1 \<and> hd rest = ''-o'' \<or> lev \<ge> 2 \<and> hd rest = ''-a''"

lemma followed_Cons: "followed lev rest \<Longrightarrow> rest = w # ws \<Longrightarrow> \<not> test_binop w"
  by (auto simp: followed_def test_binop_def char_at_def NUL_def)

lemma term_leaf:
  assumes "texp_ok e" and "e = Str s \<or> e = Unary op a \<or> e = Binary x op a"
    and "sees argv argc pos (texp_words e @ rest)" and "followed 2 rest"
  shows "test_term E argv argc pos st = reads (texp_sem E e st) (pos + length (texp_words e))"
  using assms(2)
proof (elim disjE)
  assume e: "e = Str s"
  note see = sees_Cons [OF assms(3) [unfolded e texp_words.simps append.simps]]
  have "(case word_at argv (pos + 1) of None \<Rightarrow> False | Some op \<Rightarrow> test_binop op) = False" if "pos + 3 \<le> argc"
    using that see(5) followed_Cons [OF assms(4)] sees_Nil [of argv argc "Suc pos"] sees_Cons(4) [of argv argc "Suc pos"]
    by (cases rest) auto
  then show ?thesis using see(1,4) assms(1) e by (subst test_term.simps) auto
next
  assume e: "e = Unary op a"
  note see = sees_Cons [OF assms(3) [unfolded e texp_words.simps append.simps]]
  note see1 = sees_Cons [OF see(5)]
  have "op \<noteq> ''!''" "op \<noteq> ''(''" using assms(1) e by (auto simp: test_unop_def char_at_def)
  moreover have "unary_operator E argv argc pos st = reads (texp_sem E e st) (pos + 2)"
    using assms(1,3) unfolding e by (intro unary_operator_reads [where rest = rest]) auto
  ultimately show ?thesis using see see1 assms(1) e by (subst test_term.simps) auto
next
  assume e: "e = Binary x op a"
  note see = sees_Cons [OF assms(3) [unfolded e texp_words.simps append.simps]]
  note see1 = sees_Cons [OF see(5)]
  note see2 = sees_Cons(1) [OF see1(5)]
  have "binary_operator E argv pos st = reads (texp_sem E e st) (pos + 3)"
    using assms(1,3) unfolding e by (intro binary_operator_reads [where rest = rest]) auto
  then show ?thesis using see(1,4) see1(4) see2 assms(1) e by (subst test_term.simps) (simp add: numeral_3_eq_3)
qed


lemma and_of_term:
  assumes "test_term E argv argc pos st = reads m p" and "sees argv argc p rest" and "followed 1 rest"
  shows "test_and E argv argc pos st = reads m p"
proof -
  have "\<not> (p < argc \<and> word_at argv p = Some ''-a'')"
    using assms(2,3) sees_Nil [of argv argc p] sees_Cons(4) [of argv argc p] by (cases rest) (auto simp: followed_def)
  then show ?thesis by (subst test_and.simps) (auto simp: assms(1) reads_def thent_assoc)
qed

lemma or_of_and:
  assumes "test_and E argv argc pos st = reads m p" and "sees argv argc p rest" and "followed 0 rest"
  shows "test_or E argv argc pos st = reads m p"
proof -
  have "\<not> (p < argc \<and> word_at argv p = Some ''-o'')"
    using assms(2,3) sees_Nil [of argv argc p] sees_Cons(4) [of argv argc p] by (cases rest) (auto simp: followed_def)
  then show ?thesis by (subst test_or.simps) (auto simp: assms(1) reads_def thent_assoc)
qed

text \<open>A part of the highest level is also read as a part of the lower levels.\<close>

lemma level_two:
  assumes "texp_level e = 2"
    and "\<And>pos rest st. sees argv argc pos (texp_words e @ rest) \<Longrightarrow> followed 2 rest
      \<Longrightarrow> test_term E argv argc pos st = reads (texp_sem E e st) (pos + length (texp_words e))"
  shows "(texp_level e = 2 \<longrightarrow> sees argv argc pos (texp_words e @ rest) \<longrightarrow> followed 2 rest
      \<longrightarrow> test_term E argv argc pos st = reads (texp_sem E e st) (pos + length (texp_words e)))
    \<and> (1 \<le> texp_level e \<longrightarrow> sees argv argc pos (texp_words e @ rest) \<longrightarrow> followed 1 rest
      \<longrightarrow> test_and E argv argc pos st = reads (texp_sem E e st) (pos + length (texp_words e)))
    \<and> (sees argv argc pos (texp_words e @ rest) \<longrightarrow> followed 0 rest
      \<longrightarrow> test_or E argv argc pos st = reads (texp_sem E e st) (pos + length (texp_words e)))"
proof -
  have A: "test_and E argv argc pos st = reads (texp_sem E e st) (pos + length (texp_words e))"
    if "sees argv argc pos (texp_words e @ rest)" "followed 1 rest" for pos rest st
    using that assms(2) by (intro and_of_term [OF _ sees_append [OF that(1)]]) (auto simp: followed_def)
  have "test_or E argv argc pos st = reads (texp_sem E e st) (pos + length (texp_words e))"
    if "sees argv argc pos (texp_words e @ rest)" "followed 0 rest" for pos rest st
    using that A by (intro or_of_and [OF _ sees_append [OF that(1)]]) (auto simp: followed_def)
  with A assms(2) show ?thesis by blast
qed

lemma texp_words_nonempty: "texp_words e \<noteq> []"
  by (induction e) auto

lemma and_reads:
  assumes "test_term E argv argc pos st = reads m p" and "sees argv argc p (''-a'' # rest)"
    and "\<And>st. test_and E argv argc (Suc p) st = reads (m' st) p'"
  shows "test_and E argv argc pos st = reads (thent m (\<lambda>b1 st. thent (m' st) (\<lambda>b2 st. (Val (b1 \<and> b2), st)))) p'"
proof -
  have "p < argc \<and> word_at argv p = Some ''-a''" using sees_Cons(1,4) [OF assms(2)] by simp
  then show ?thesis by (subst test_and.simps) (simp add: assms(1,3) reads_def thent_assoc)
qed

lemma or_reads:
  assumes "test_and E argv argc pos st = reads m p" and "sees argv argc p (''-o'' # rest)"
    and "\<And>st. test_or E argv argc (Suc p) st = reads (m' st) p'"
  shows "test_or E argv argc pos st = reads (thent m (\<lambda>b1 st. thent (m' st) (\<lambda>b2 st. (Val (b1 \<or> b2), st)))) p'"
proof -
  have "p < argc \<and> word_at argv p = Some ''-o''" using sees_Cons(1,4) [OF assms(2)] by simp
  then show ?thesis by (subst test_or.simps) (simp add: assms(1,3) reads_def thent_assoc)
qed

lemma paren_reads:
  assumes "word_at argv pos = Some ''(''" and "pos + 1 < argc" and "test_or E argv argc (Suc pos) st = reads m p"
    and "sees argv argc p ('')'' # rest)"
  shows "test_term E argv argc pos st = reads m (Suc p)"
proof -
  have "word_at argv p = Some '')''" "p < length argv" using sees_Cons(2,4) [OF assms(4)] by simp_all
  then show ?thesis
    using assms(1,2,3) by (subst test_term.simps) (auto simp: advance_def test_expr.simps reads_def thent_assoc)
qed

lemma parser_reads:
  assumes "texp_ok e"
  shows "texp_level e = 2 \<Longrightarrow> sees argv argc pos (texp_words e @ rest) \<Longrightarrow> followed 2 rest
      \<Longrightarrow> test_term E argv argc pos st = reads (texp_sem E e st) (pos + length (texp_words e))"
    and "1 \<le> texp_level e \<Longrightarrow> sees argv argc pos (texp_words e @ rest) \<Longrightarrow> followed 1 rest
      \<Longrightarrow> test_and E argv argc pos st = reads (texp_sem E e st) (pos + length (texp_words e))"
    and "sees argv argc pos (texp_words e @ rest) \<Longrightarrow> followed 0 rest
      \<Longrightarrow> test_or E argv argc pos st = reads (texp_sem E e st) (pos + length (texp_words e))"
proof -
  have weaker: "followed 0 rest \<Longrightarrow> followed 1 rest" "followed 1 rest \<Longrightarrow> followed 2 rest" for rest
    by (auto simp: followed_def)
  have "(texp_level e = 2 \<longrightarrow> sees argv argc pos (texp_words e @ rest) \<longrightarrow> followed 2 rest
      \<longrightarrow> test_term E argv argc pos st = reads (texp_sem E e st) (pos + length (texp_words e)))
    \<and> (1 \<le> texp_level e \<longrightarrow> sees argv argc pos (texp_words e @ rest) \<longrightarrow> followed 1 rest
      \<longrightarrow> test_and E argv argc pos st = reads (texp_sem E e st) (pos + length (texp_words e)))
    \<and> (sees argv argc pos (texp_words e @ rest) \<longrightarrow> followed 0 rest
      \<longrightarrow> test_or E argv argc pos st = reads (texp_sem E e st) (pos + length (texp_words e)))" (is "?T e pos rest st \<and> ?A e pos rest st \<and> ?O e pos rest st")
    using assms
  proof (induction e arbitrary: pos rest st)
    case (And e1 e2)
    have A: "?A (And e1 e2) pos rest st" for pos rest st
    proof (intro impI)
      assume s: "sees argv argc pos (texp_words (And e1 e2) @ rest)" and f: "followed 1 rest"
      have s1: "sees argv argc pos (texp_words e1 @ ''-a'' # texp_words e2 @ rest)" using s by simp
      note s2 = sees_append [OF s1]
      have t1: "test_term E argv argc pos st = reads (texp_sem E e1 st) (pos + length (texp_words e1))"
        using And.IH(1) [of pos "''-a'' # texp_words e2 @ rest" st] And.prems s1 by (auto simp: followed_def)
      have t2: "test_and E argv argc (Suc (pos + length (texp_words e1))) st
          = reads (texp_sem E e2 st) (Suc (pos + length (texp_words e1)) + length (texp_words e2))" for st
        using And.IH(2) [of "Suc (pos + length (texp_words e1))" rest st] And.prems sees_Cons(5) [OF s2] f by auto
      show "test_and E argv argc pos st = reads (texp_sem E (And e1 e2) st) (pos + length (texp_words (And e1 e2)))"
        using and_reads [OF t1 s2 t2] by (simp add: add.assoc)
    qed
    have "?O (And e1 e2) pos rest st" by (metis A or_of_and sees_append weaker(1) le_refl texp_level.simps(2))
    then show ?case using A by simp
  next
    case (Or e1 e2)
    have "?O (Or e1 e2) pos rest st"
    proof (intro impI)
      assume s: "sees argv argc pos (texp_words (Or e1 e2) @ rest)" and f: "followed 0 rest"
      have s1: "sees argv argc pos (texp_words e1 @ ''-o'' # texp_words e2 @ rest)" using s by simp
      note s2 = sees_append [OF s1]
      have t1: "test_and E argv argc pos st = reads (texp_sem E e1 st) (pos + length (texp_words e1))"
        using Or.IH(1) [of pos "''-o'' # texp_words e2 @ rest" st] Or.prems s1 by (auto simp: followed_def)
      have t2: "test_or E argv argc (Suc (pos + length (texp_words e1))) st
          = reads (texp_sem E e2 st) (Suc (pos + length (texp_words e1)) + length (texp_words e2))" for st
        using Or.IH(2) [of "Suc (pos + length (texp_words e1))" rest st] Or.prems sees_Cons(5) [OF s2] f by auto
      show "test_or E argv argc pos st = reads (texp_sem E (Or e1 e2) st) (pos + length (texp_words (Or e1 e2)))"
        using or_reads [OF t1 s2 t2] by (simp add: add.assoc)
    qed
    then show ?case by simp
  next
    case (Paren e)
    have T: "?T (Paren e) pos rest st" for pos rest st
    proof (intro impI)
      assume s: "sees argv argc pos (texp_words (Paren e) @ rest)"
      note s1 = sees_Cons(4,5) [OF s [unfolded texp_words.simps append.simps append_assoc]]
      have s2: "sees argv argc (Suc pos) (texp_words e @ '')'' # rest)" using s1(2) by simp
      have "Suc pos < argc" using s2 texp_words_nonempty [of e] sees_Cons(1) [of argv argc "Suc pos"] by (cases "texp_words e") auto
      moreover have "test_or E argv argc (Suc pos) st = reads (texp_sem E e st) (Suc pos + length (texp_words e))"
        using Paren.IH [of "Suc pos" "'')'' # rest" st] Paren.prems s2 by (auto simp: followed_def)
      ultimately show "test_term E argv argc pos st = reads (texp_sem E (Paren e) st) (pos + length (texp_words (Paren e)))"
        using paren_reads [OF s1(1) _ _ sees_append [OF s2]] by simp
    qed
    show ?case by (rule level_two) (use T in auto)
  next
    case (Not e)
    have T: "?T (Not e) pos rest st" for pos rest st
    proof (intro impI)
      assume s: "sees argv argc pos (texp_words (Not e) @ rest)" and f: "followed 2 rest"
      note s1 = sees_Cons(4,5) [OF s [unfolded texp_words.simps append.simps]]
      have "Suc pos < argc" using s1(2) texp_words_nonempty [of e] sees_Cons(1) [of argv argc "Suc pos"] by (cases "texp_words e") auto
      moreover have "test_term E argv argc (Suc pos) st = reads (texp_sem E e st) (Suc pos + length (texp_words e))"
        using Not.IH [of "Suc pos" rest st] Not.prems s1(2) f by auto
      moreover have "argc \<le> length argv" using s by (simp add: sees_def)
      ultimately show "test_term E argv argc pos st = reads (texp_sem E (Not e) st) (pos + length (texp_words (Not e)))"
        using term_not [OF s1(1), of argc E st] by (simp add: reads_def thent_assoc)
    qed
    show ?case by (rule level_two) (use T in auto)
  next
    case (Str s)
    then show ?case by (intro level_two term_leaf) simp_all
  next
    case (Unary op a)
    then show ?case by (intro level_two term_leaf) simp_all
  next
    case (Binary x op a)
    then show ?case by (intro level_two term_leaf) simp_all
  qed
  then show "texp_level e = 2 \<Longrightarrow> sees argv argc pos (texp_words e @ rest) \<Longrightarrow> followed 2 rest
      \<Longrightarrow> test_term E argv argc pos st = reads (texp_sem E e st) (pos + length (texp_words e))"
    and "1 \<le> texp_level e \<Longrightarrow> sees argv argc pos (texp_words e @ rest) \<Longrightarrow> followed 1 rest
      \<Longrightarrow> test_and E argv argc pos st = reads (texp_sem E e st) (pos + length (texp_words e))"
    and "sees argv argc pos (texp_words e @ rest) \<Longrightarrow> followed 0 rest
      \<Longrightarrow> test_or E argv argc pos st = reads (texp_sem E e st) (pos + length (texp_words e))"
    by blast+
qed


section \<open>Few arguments\<close>

lemma texp_words_pos: "0 < length (texp_words e)"
  using texp_words_nonempty [of e] by simp

lemma texp_one: "length (texp_words e) = 1 \<Longrightarrow> \<exists>s. e = Str s"
  using texp_words_nonempty by (cases e) auto

lemma texp_two: "length (texp_words e) = 2 \<Longrightarrow> (\<exists>op a. e = Unary op a) \<or> (\<exists>s. e = Not (Str s))"
proof (cases e)
  case (Not e')
  then show "length (texp_words e) = 2 \<Longrightarrow> ?thesis" using texp_one [of e'] by auto
next
  case (And e1 e2)
  then show "length (texp_words e) = 2 \<Longrightarrow> ?thesis" using texp_words_pos [of e1] texp_words_pos [of e2] by simp
next
  case (Or e1 e2)
  then show "length (texp_words e) = 2 \<Longrightarrow> ?thesis" using texp_words_pos [of e1] texp_words_pos [of e2] by simp
next
  case (Paren e')
  then show "length (texp_words e) = 2 \<Longrightarrow> ?thesis" using texp_words_pos [of e'] by simp
qed auto

lemma texp_pair: "length (texp_words e1) + length (texp_words e2) = 2 \<Longrightarrow> \<exists>a b. e1 = Str a \<and> e2 = Str b"
proof -
  assume "length (texp_words e1) + length (texp_words e2) = 2"
  then have "length (texp_words e1) = 1" "length (texp_words e2) = 1" using texp_words_pos [of e1] texp_words_pos [of e2] by linarith+
  then show ?thesis using texp_one by blast
qed

lemma texp_three:
  assumes "length (texp_words e) = 3"
  shows "(\<exists>a op b. e = Binary a op b) \<or> (\<exists>e'. e = Not e' \<and> length (texp_words e') = 2) \<or> (\<exists>a b. e = And (Str a) (Str b))
    \<or> (\<exists>a b. e = Or (Str a) (Str b)) \<or> (\<exists>s. e = Paren (Str s))"
proof (cases e)
  case (And e1 e2)
  then show ?thesis using assms texp_pair [of e1 e2] by auto
next
  case (Or e1 e2)
  then show ?thesis using assms texp_pair [of e1 e2] by auto
next
  case (Paren e')
  then show ?thesis using assms texp_one [of e'] by auto
qed (use assms in auto)

lemma test_unop_facts:
  "test_unop op \<Longrightarrow> \<not> test_binop op" "test_unop op \<Longrightarrow> op \<noteq> ''!''" "test_unop op \<Longrightarrow> op \<noteq> ''(''"
  "test_unop op \<Longrightarrow> char_at op 0 = CHR ''-'' \<and> char_at op 1 \<noteq> NUL \<and> char_at op 2 = NUL"
proof -
  show c: "test_unop op \<Longrightarrow> char_at op 0 = CHR ''-'' \<and> char_at op 1 \<noteq> NUL \<and> char_at op 2 = NUL"
    by (auto simp: test_unop_def NUL_def split: if_splits)
  then show "test_unop op \<Longrightarrow> \<not> test_binop op" by (simp add: test_binop_def Let_def)
  show "test_unop op \<Longrightarrow> op \<noteq> ''!''" "test_unop op \<Longrightarrow> op \<noteq> ''(''" using c by (auto simp: char_at_def)
qed

lemma two_arguments_reads:
  assumes "texp_ok e" and "length (texp_words e) = 2" and "sees argv argc pos (texp_words e @ rest)"
  shows "\<exists>p. two_arguments E argv argc pos st = reads (texp_sem E e st) p"
  using texp_two [OF assms(2)]
proof (elim disjE exE)
  fix op a assume e: "e = Unary op a"
  note see = sees_Cons [OF assms(3) [unfolded e texp_words.simps append.simps]]
  note see1 = sees_Cons [OF see(5)]
  have ok: "test_unop op" using assms(1) e by simp
  then have "two_arguments E argv argc pos st = unary_operator E argv argc pos st"
    using see(4) see1(4) test_unop_facts [OF ok] by (simp add: two_arguments_def)
  then show ?thesis using unary_operator_reads [of argv argc pos op a rest E st] assms(1,3) e by auto
next
  fix s assume e: "e = Not (Str s)"
  note see = sees_Cons [OF assms(3) [unfolded e texp_words.simps append.simps]]
  then have "two_arguments E argv argc pos st = reads (texp_sem E e st) pos"
    using sees_Cons(4) [OF see(5)] e by (simp add: two_arguments_def)
  then show ?thesis by blast
qed

lemma andor_words: "ANDOR ''-a''" "ANDOR ''-o''" "\<not> test_binop ''-a''" "\<not> test_binop ''-o''" "\<not> ANDOR ''!''" "\<not> test_binop ''!''"
  by (simp_all add: ANDOR_def test_binop_def char_at_def NUL_def)

lemma three_arguments_reads:
  assumes "texp_ok e" and "few_ok e" and "length (texp_words e) = 3" and "sees argv argc pos (texp_words e)"
  shows "three_arguments E argv argc pos st = reads (texp_sem E e st) argc"
  using texp_three [OF assms(3)]
proof (elim disjE exE conjE)
  fix a op b assume e: "e = Binary a op b"
  have s: "sees argv argc pos (a # op # b # [])" using assms(4) e by simp
  note see = sees_Cons [OF s] and see1 = sees_Cons [OF sees_Cons(5) [OF s]]
  note see2 = sees_Cons(4) [OF see1(5)]
  have "three_arguments E argv argc pos st = thent (binary_operator E argv pos st) (\<lambda>(v, _) st. (Val (v, argc), st))"
    using see(4) see1(4) see2 assms(1) e by (simp add: three_arguments_def)
  then show ?thesis
    using binary_operator_reads [OF s, of E st] assms(1) e by (simp add: reads_def thent_assoc)
next
  fix e' assume e: "e = Not e'" "length (texp_words e') = 2"
  obtain w1 w2 where w: "texp_words e' = [w1, w2]" using e(2) by (auto simp: numeral_2_eq_2 length_Suc_conv)
  have s: "sees argv argc pos (''!'' # w1 # w2 # [])" using assms(4) e w by simp
  note see = sees_Cons [OF s] and see1 = sees_Cons [OF sees_Cons(5) [OF s]]
  note see2 = sees_Cons(4) [OF see1(5)]
  have "\<not> test_binop w1 \<and> \<not> ANDOR w1"
    using texp_two [OF e(2)] assms(1,2) e(1) w test_unop_facts(1) andor_words by auto
  then have "three_arguments E argv argc pos st
      = thent (two_arguments E argv argc (Suc pos) st) (\<lambda>(v, _) st. (Val (\<not> v, argc), st))"
    using see(4) see1(1,4) see2 by (simp add: three_arguments_def advance_def)
  moreover obtain p where "two_arguments E argv argc (Suc pos) st = reads (texp_sem E e' st) p"
    using two_arguments_reads [of e' argv argc "Suc pos" "[]" E st] assms(1) e see(5) w by auto
  ultimately show ?thesis using e(1) by (simp add: reads_def thent_assoc)
next
  fix s assume e: "e = Paren (Str s)"
  have s: "sees argv argc pos (''('' # s # '')'' # [])" using assms(4) e by simp
  note see = sees_Cons [OF s] and see1 = sees_Cons [OF sees_Cons(5) [OF s]]
  note see2 = sees_Cons(4) [OF see1(5)]
  have "\<not> ANDOR s" "\<not> test_binop s" "cstring_ok s" using assms(1) e by (auto simp: test_unop_def ANDOR_def NUL_def)
  then show ?thesis
    using see(4) see1(4) see2 e char_at_string(1) [of s]
    by (simp add: three_arguments_def ONE_ARG_TEST_def) (simp add: char_at_def)
next
  fix a b assume e: "e = And (Str a) (Str b)"
  have s: "sees argv argc pos (a # ''-a'' # b # [])" using assms(4) e by simp
  note see = sees_Cons [OF s] and see1 = sees_Cons [OF sees_Cons(5) [OF s]]
  note see2 = sees_Cons(4) [OF see1(5)]
  show ?thesis
    using see(4) see1(4) see2 e assms(1) char_at_string(1) [of a] char_at_string(1) [of b]
    by (simp add: three_arguments_def ONE_ARG_TEST_def andor_words) (simp add: char_at_def)
next
  fix a b assume e: "e = Or (Str a) (Str b)"
  have s: "sees argv argc pos (a # ''-o'' # b # [])" using assms(4) e by simp
  note see = sees_Cons [OF s] and see1 = sees_Cons [OF sees_Cons(5) [OF s]]
  note see2 = sees_Cons(4) [OF see1(5)]
  show ?thesis
    using see(4) see1(4) see2 e assms(1) char_at_string(1) [of a] char_at_string(1) [of b]
    by (simp add: three_arguments_def ONE_ARG_TEST_def andor_words) (simp add: char_at_def)
qed


section \<open>The command\<close>

lemma paren_length: "e = Paren e' \<Longrightarrow> 3 \<le> length (texp_words e)"
  using texp_words_pos [of e'] by (auto simp: Suc_le_eq)

lemma first_paren: "texp_ok e \<Longrightarrow> hd (texp_words e) = ''('' \<Longrightarrow> (\<exists>e'. e = Paren e') \<or> 5 \<le> length (texp_words e)"
proof (induction e)
  case (And e1 e2)
  then have "(\<exists>e'. e1 = Paren e') \<or> 5 \<le> length (texp_words e1)" using texp_words_nonempty [of e1] by simp
  then have "3 \<le> length (texp_words e1)" using paren_length [of e1] by auto
  then show ?case using texp_words_pos [of e2] by (simp del: length_greater_0_conv)
next
  case (Or e1 e2)
  then have "(\<exists>e'. e1 = Paren e') \<or> 5 \<le> length (texp_words e1)" using texp_words_nonempty [of e1] by simp
  then have "3 \<le> length (texp_words e1)" using paren_length [of e1] by auto
  then show ?case using texp_words_pos [of e2] by (simp del: length_greater_0_conv)
qed (auto dest: test_unop_facts(3))

lemma not_pair: "texp_words e1 = ''!'' # us \<Longrightarrow> texp_ok e1 \<Longrightarrow> texp_level e1 = 2 \<Longrightarrow> length (texp_words e1) + length (texp_words e2) = 3
    \<Longrightarrow> \<exists>a b. e1 = Not (Str a) \<and> e2 = Str b"
proof -
  assume w: "texp_words e1 = ''!'' # us" "texp_ok e1" "texp_level e1 = 2" "length (texp_words e1) + length (texp_words e2) = 3"
  then obtain e where e: "e1 = Not e" using test_unop_facts(2) by (cases e1) auto
  then have "length (texp_words e) = 1 \<and> length (texp_words e2) = 1"
    using w(4) texp_words_pos [of e] texp_words_pos [of e2] by (simp; linarith)
  then show ?thesis using texp_one e by blast
qed

lemma first_not:
  assumes "texp_ok e" and "texp_words e = ''!'' # ws" and "length (texp_words e) = 4" and "few_ok e"
  shows "\<exists>e'. e = Not e' \<and> length (texp_words e') = 3 \<and> few_ok e'"
proof (cases e)
  case (Not e')
  moreover have "few_ok e'" using assms(1,3,4) Not by (cases e' rule: few_ok.cases) auto
  ultimately show ?thesis using assms(3) by simp
next
  case (And e1 e2)
  then obtain us where "texp_words e1 = ''!'' # us" using assms(2) texp_words_nonempty [of e1] by (cases "texp_words e1") auto
  then show ?thesis using not_pair [of e1 us e2] assms And by auto
next
  case (Or e1 e2)
  then obtain us where us: "texp_words e1 = ''!'' # us" using assms(2) texp_words_nonempty [of e1] by (cases "texp_words e1") auto
  show ?thesis
  proof (cases "texp_level e1 = 2")
    case True
    then show ?thesis using not_pair [of e1 us e2] us assms Or by auto
  next
    case False
    then obtain e3 e4 where "e1 = And e3 e4" using assms(1) Or by (cases e1) auto
    moreover from this have "3 < length (texp_words e1)"
    proof -
      have "texp_level e3 = 2" "texp_ok e3" "texp_words e3 \<noteq> []" using assms(1) Or \<open>e1 = And e3 e4\<close> texp_words_nonempty by auto
      moreover obtain vs where "texp_words e3 = ''!'' # vs" using us \<open>e1 = And e3 e4\<close> \<open>texp_words e3 \<noteq> []\<close> by (cases "texp_words e3") auto
      ultimately obtain e5 where "e3 = Not e5" using test_unop_facts(2) by (cases e3) auto
      then show ?thesis using \<open>e1 = And e3 e4\<close> texp_words_pos [of e5] texp_words_pos [of e4] by (simp; linarith)
    qed
    ultimately show ?thesis using assms(3) Or texp_words_pos [of e2] by auto
  qed
qed (use assms test_unop_facts(2) in auto)

lemma posixtest_reads:
  assumes "texp_ok e" and "5 \<le> length (texp_words e) \<or> few_ok e" and "sees argv argc 1 (texp_words e)"
  shows "posixtest E argv argc 1 st = reads (texp_sem E e st) argc"
proof -
  let ?ws = "texp_words e"
  have n: "length ?ws = argc - 1" "argc = Suc (length ?ws)" using sees_room [OF assms(3)] texp_words_pos [of e] by auto
  have full: "test_expr E argv argc 1 st = reads (texp_sem E e st) argc"
  proof -
    have "1 + length ?ws = argc" using n(2) by simp
    then have "test_or E argv argc 1 st = reads (texp_sem E e st) argc"
      using parser_reads(3) [OF assms(1), of argv argc 1 "[]" E st] assms(3) by (simp only: append_Nil2 followed_def simp_thms)
    moreover have "\<not> argc \<le> 1" using n(2) texp_words_pos [of e] by linarith
    ultimately show ?thesis by (subst test_expr.simps) simp
  qed
  obtain w ws where w: "?ws = w # ws" using texp_words_nonempty by (cases ?ws) auto
  note see = sees_Cons [OF assms(3) [unfolded w]]
  consider "length ?ws = 1" | "length ?ws = 2" | "length ?ws = 3" | "length ?ws = 4" | "5 \<le> length ?ws"
    using texp_words_pos [of e] by linarith
  then show ?thesis
  proof cases
    case 1
    then obtain s where "e = Str s" using texp_one by blast
    then show ?thesis using see(4) w n(1) 1 assms(1) char_at_string(1) [of s] by (simp add: posixtest_def ONE_ARG_TEST_def)
  next
    case 2
    moreover obtain p where "two_arguments E argv argc 1 st = reads (texp_sem E e st) p"
      using two_arguments_reads [OF assms(1) 2, of argv argc 1 "[]"] assms(3) by auto
    ultimately show ?thesis using n(1) by (simp add: posixtest_def reads_def thent_assoc)
  next
    case 3
    then show ?thesis using three_arguments_reads [OF assms(1) _ _ assms(3)] assms(2) n(1) by (simp add: posixtest_def)
  next
    case 4
    show ?thesis
    proof (cases "w = ''!''")
      case True
      then obtain e' where e': "e = Not e'" "length (texp_words e') = 3" "few_ok e'"
        using first_not [OF assms(1) _ 4] w assms(2) 4 by auto
      have "three_arguments E argv argc 2 st = reads (texp_sem E e' st) argc"
        using see(5) e' w assms(1) by (intro three_arguments_reads) (auto simp: numeral_2_eq_2)
      then show ?thesis using True see(4) n 4 e'(1) by (simp add: posixtest_def advance_def reads_def thent_assoc numeral_2_eq_2)
    next
      case False
      show ?thesis
      proof (cases "w = ''(''")
        case True
        then obtain e' where e': "e = Paren e'" using first_paren [OF assms(1)] w 4 by auto
        have len: "length (texp_words e') = 2" using 4 e' by simp
        have s: "sees argv argc 2 (texp_words e' @ ['')''])" using see(5) w e' by (simp add: numeral_2_eq_2)
        then have "word_at argv (Suc (Suc (length (texp_words e')))) = Some '')''" using sees_append [OF s] sees_Cons(4) by fastforce
        moreover obtain p where "two_arguments E argv argc 2 st = reads (texp_sem E e' st) p"
          using two_arguments_reads [OF _ len s] assms(1) e' by auto
        ultimately show ?thesis using True see(4) n 4 e' by (simp add: posixtest_def advance_def reads_def thent_assoc numeral_2_eq_2)
      next
        case False
        then show ?thesis using \<open>w \<noteq> ''!''\<close> see(4) n 4 full by (simp add: posixtest_def)
      qed
    qed
  next
    case 5
    then show ?thesis using full n(1) by (auto simp: posixtest_def)
  qed
qed


text \<open>The status that belongs to the meaning of an expression.\<close>

definition status_of :: "bool tres \<times> 's \<Rightarrow> (int \<times> test_error option) option \<times> 's" where
  "status_of m =
     (case m of
        (Val b, st) \<Rightarrow> (Some (if b then 0 else 1, None), st)
      | (Exit e, st) \<Rightarrow> (Some (2, Some e), st)
      | (Undef, st) \<Rightarrow> (None, st))"

lemma test_status_reads: "test_status (reads m argc) argv argc = status_of m"
  by (cases m; cases "fst m") (simp_all add: test_status_def status_of_def reads_def)

text \<open>
  C7. The \<^verbatim>\<open>test\<close> command, in both spellings, evaluates the expression that its arguments are the words of, with
  the precedence of \<^verbatim>\<open>!\<close>, \<^verbatim>\<open>-a\<close> and \<^verbatim>\<open>-o\<close> and with parentheses: it exits with 0 or 1 for true or false, and with 2 and
  a message when an integer is malformed.
\<close>

theorem test_command_meaning:
  assumes "texp_ok e" and "5 \<le> length (texp_words e) \<or> few_ok e"
  shows "test_command E (''test'' # texp_words e) st = status_of (texp_sem E e st)
    \<and> test_command E (''['' # texp_words e @ ['']'']) st = status_of (texp_sem E e st)"
proof -
  let ?n = "Suc (length (texp_words e))"
  have n: "\<not> ?n \<le> 1" "\<not> ?n < 2" using texp_words_pos [of e] by simp_all
  have "sees (''test'' # texp_words e) ?n 1 (texp_words e)" "sees (''['' # texp_words e @ ['']'']) ?n 1 (texp_words e)"
    by (simp_all add: sees_def)
  note posix = posixtest_reads [OF assms this(1), of E st] posixtest_reads [OF assms this(2), of E st]
  have "test_command E (''test'' # texp_words e) st = status_of (texp_sem E e st)"
    using n posix(1) by (simp add: test_command_def word_at_def test_status_reads Let_def)
  moreover have "test_command E (''['' # texp_words e @ ['']'']) st = status_of (texp_sem E e st)"
    using n posix(2) by (simp add: test_command_def word_at_def test_status_reads Let_def nth_append)
  ultimately show ?thesis by simp
qed

section \<open>All arguments\<close>

text \<open>A call neither reads outside the vector nor leaves it.\<close>

definition inside :: "nat \<Rightarrow> (bool \<times> nat) tres \<times> 's \<Rightarrow> bool" where
  "inside argc m \<longleftrightarrow> (case fst m of Undef \<Rightarrow> False | Exit _ \<Rightarrow> True | Val (b, p) \<Rightarrow> p \<le> argc)"

lemma inside_simps [simp]:
  "inside argc (Val (b, p), st) \<longleftrightarrow> p \<le> argc" "inside argc (Exit e, st)" "\<not> inside argc (Undef, st)"
  by (simp_all add: inside_def)

lemma inside_thent:
  assumes "inside argc m" and "\<And>b p st. m = (Val (b, p), st) \<Longrightarrow> p \<le> argc \<Longrightarrow> inside argc' (f (b, p) st)"
  shows "inside argc' (thent m f)"
  using assms by (cases m; cases "fst m") (auto simp: inside_def thent_def)

lemma inside_flags0: "fst (binary_test E op a b 0 st) \<noteq> Undef"
  by (auto simp: binary_test_def arithcomp_def has_flag_def Let_def split: option.split)

lemma inside_binary:
  assumes "pos + 3 \<le> argc" and "argc \<le> length argv"
  shows "inside argc (binary_operator E argv pos st)"
proof -
  have words: "word_at argv pos = Some (argv ! pos)" "word_at argv (pos + 1) = Some (argv ! (pos + 1))"
    "word_at argv (pos + 2) = Some (argv ! (pos + 2))"
    using assms by (auto simp: word_at_def)
  have "inside argc (thent (binary_test E w a b 0 st) (\<lambda>v st. (Val (v, pos + 3), st)))" for w a b
    using inside_flags0 [of E w a b st] assms(1) by (cases "binary_test E w a b 0 st"; cases "fst (binary_test E w a b 0 st)") auto
  then show ?thesis unfolding binary_operator_def words option.case prod.case Let_def by simp
qed

lemma inside_unary:
  assumes "pos < argc" and "argc \<le> length argv"
  shows "inside argc (unary_operator E argv argc pos st)"
  using assms by (auto simp: unary_operator_def word_at_def split: prod.split)

lemma skip_nots_inside:
  "pos < argc \<Longrightarrow> (case skip_nots argv argc pos v of Undef \<Rightarrow> False | Exit _ \<Rightarrow> True | Val (b, p) \<Rightarrow> p < argc)"
proof (induction argv argc pos v rule: skip_nots.induct)
  case (1 argv argc pos v)
  then show ?case by (subst skip_nots.simps) auto
qed

lemma parser_inside:
  assumes "argc \<le> length argv" and "word_at argv argc \<noteq> Some '')''"
  shows "inside argc (test_expr E argv argc pos st)" and "inside argc (test_or E argv argc pos st)"
    and "inside argc (test_and E argv argc pos st)" and "inside argc (test_term E argv argc pos st)"
  using assms
proof (induction E argv argc pos st and E argv argc pos st and E argv argc pos st and E argv argc pos st
    rule: test_expr_test_or_test_and_test_term.induct)
  case (1 E argv argc pos st)
  then show ?case by (subst test_expr.simps) auto
next
  case (2 E argv argc pos st)
  show ?case
    by (subst test_or.simps) (intro inside_thent [where argc = argc]; use 2 in \<open>auto intro!: inside_thent [where argc = argc]\<close>)
next
  case (3 E argv argc pos st)
  show ?case
    by (subst test_and.simps) (intro inside_thent [where argc = argc]; use 3 in \<open>auto intro!: inside_thent [where argc = argc]\<close>)
next
  case (4 E argv argc pos st)
  show ?case
  proof (cases "argc \<le> pos")
    case False
    then have w: "word_at argv pos = Some (argv ! pos)" using 4(3) by (simp add: word_at_def)
    consider "argv ! pos = ''!''" | "argv ! pos = ''(''" | "argv ! pos \<noteq> ''!''" "argv ! pos \<noteq> ''(''" by blast
    then show ?thesis
    proof cases
      case 1
      have "inside argc (skip_nots argv argc pos False, st)"
        using skip_nots_inside [of pos argc argv False] False by (auto simp: inside_def split: tres.splits)
      then have "inside argc (thent (skip_nots argv argc pos False, st)
          (\<lambda>(b, p) st. thent (test_term E argv argc p st) (\<lambda>(v, p) st. (Val (if b then \<not> v else v, p), st))))"
        using 4(1) [OF False w 1 _ _ 4(3,4)] by (intro inside_thent [where argc = argc]) (auto intro!: inside_thent [where argc = argc])
      then show ?thesis using False w 1 by (subst test_term.simps) simp
    next
      case 2
      have "inside argc (test_expr E argv argc (Suc pos) st)" if "Suc pos < argc"
        using 4(2) [OF False w _ 2 _ 4(3,4)] 2 that by (auto simp: advance_def)
      then have "inside argc (thent (test_expr E argv argc (Suc pos) st)
          (\<lambda>(b, p) st. if length argv < p then (Undef, st)
                       else case word_at argv p of
                              None \<Rightarrow> (Exit Close_expected, st)
                            | Some w \<Rightarrow> if w \<noteq> '')'' then (Exit (Close_expected_found w), st) else (Val (b, p + 1), st)))"
        if "Suc pos < argc"
        using that 4(3,4)
        by (intro inside_thent [where argc = argc]) (auto split: option.split simp: le_less Suc_le_eq)
      then show ?thesis using False w 2 by (subst test_term.simps) (auto simp: advance_def)
    next
      case 3
      then show ?thesis
        using False w inside_binary [OF _ 4(3), of _ E st] inside_unary [of pos argc argv E st] 4(3)
        by (subst test_term.simps) (simp add: inside_unary)
    qed
  qed (subst test_term.simps, simp)
qed


lemma two_inside:
  assumes "pos + 2 \<le> argc" and "argc \<le> length argv"
  shows "inside argc (two_arguments E argv argc pos st)"
  using assms inside_unary [of pos argc argv E st] by (auto simp: two_arguments_def word_at_def)

lemma three_inside:
  assumes "pos + 3 \<le> argc" and "argc \<le> length argv"
  shows "inside argc (three_arguments E argv argc pos st)"
proof -
  have words: "word_at argv pos = Some (argv ! pos)" "word_at argv (pos + 1) = Some (argv ! (pos + 1))"
    "word_at argv (pos + 2) = Some (argv ! (pos + 2))"
    using assms by (auto simp: word_at_def)
  have "inside argc (thent (binary_operator E argv pos st) (\<lambda>(v, _) st. (Val (v, argc), st)))"
    using inside_binary [OF assms] by (rule inside_thent) auto
  moreover have "inside argc (thent (advance True argc pos, st)
      (\<lambda>pos st. thent (two_arguments E argv argc pos st) (\<lambda>(v, _) st. (Val (\<not> v, argc), st))))"
    using assms(1) inside_thent [OF two_inside [of "Suc pos" argc argv E st]] assms(2) by (auto simp: advance_def)
  ultimately show ?thesis unfolding three_arguments_def words option.case prod.case Let_def by simp
qed

lemma posixtest_inside:
  assumes "1 < argc" and "argc \<le> length argv" and "word_at argv argc \<noteq> Some '')''"
  shows "inside argc (posixtest E argv argc 1 st)"
proof -
  have two: "inside argc (thent (two_arguments E argv argc pos st) (\<lambda>(v, _) st. (Val (v, argc), st)))" if "pos + 2 \<le> argc" for pos
    using two_inside [OF that assms(2)] by (rule inside_thent) auto
  have three: "inside argc (thent (three_arguments E argv argc 2 st) (\<lambda>(v, p) st. (Val (\<not> v, p), st)))" if "argc = 5"
    using three_inside [OF _ assms(2), of 2] that by (intro inside_thent [where argc = argc]) auto
  consider "argc = 2" | "argc = 3" | "argc = 4" | "argc = 5" | "5 < argc" using assms(1) by linarith
  then show ?thesis
  proof cases
    case 1
    then show ?thesis using assms(2) by (simp add: posixtest_def word_at_def)
  next
    case 2
    then show ?thesis using two [of 1] by (simp add: posixtest_def)
  next
    case 3
    then show ?thesis using three_inside [OF _ assms(2), of 1] by (simp add: posixtest_def)
  next
    case 4
    then show ?thesis
      using two [of 2] three parser_inside(1) [OF assms(2,3), of E] by (simp add: posixtest_def advance_def numeral_2_eq_2)
  next
    case 5
    then show ?thesis using parser_inside(1) [OF assms(2,3), of E] by (auto simp: posixtest_def)
  qed
qed

text \<open>
  C19. Whatever its arguments are, the \<^verbatim>\<open>test\<close> command reads no argument beyond the last, and exits with status 0, 1 or 2,
  which is 2 exactly when it reports an error.
\<close>

theorem test_command_defined:
  "\<exists>status err. fst (test_command E margv st) = Some (status, err) \<and> status \<in> {0, 1, 2} \<and> (status = 2 \<longleftrightarrow> err \<noteq> None)"
proof -
  define bracket where "bracket = (word_at margv 0 = Some ''['')"
  define argc where "argc = (if bracket then length margv - 1 else length margv)"
  have status: "\<exists>status err. fst (test_status m margv argc) = Some (status, err) \<and> status \<in> {0, 1, 2} \<and> (status = 2 \<longleftrightarrow> err \<noteq> None)"
    if "inside argc m" for m :: "(bool \<times> nat) tres \<times> 'a expr_state"
    using that by (cases m; cases "fst m") (auto simp: test_status_def inside_def)
  have cmd: "test_command E margv st = (if bracket \<and> margv ! argc \<noteq> '']'' then (Some (2, Some Missing_bracket), st)
      else if bracket \<and> argc < 2 \<or> argc \<le> 1 then (Some (1, None), st) else test_status (posixtest E margv argc 1 st) margv argc)"
    by (auto simp: test_command_def bracket_def argc_def Let_def)
  have "inside argc (posixtest E margv argc 1 st)" if "1 < argc" "bracket \<Longrightarrow> margv ! argc = '']''"
    using posixtest_inside [OF that(1), of _ E st] that(2) by (auto simp: argc_def word_at_def split: if_splits)
  with status show ?thesis unfolding cmd by auto
qed

section \<open>A sample environment\<close>

text \<open>No files, no options, and the variables of \<open>string_vars\<close>.\<close>

definition bare_env :: "(cstring \<rightharpoonup> cstring) test_env" where
  "bare_env =
     \<lparr>sys_stat = \<lambda>p. None, sys_lstat = \<lambda>p. None, sys_faccess = \<lambda>p m. False, sys_isatty = \<lambda>n. False, euid = 0, egid = 0,
      group_member = \<lambda>g. False, dev_fd_prefix = ''/dev/fd/'', option_set = \<lambda>p. False, shell_compatibility_level = 52,
      glob_options = \<lparr>extended_glob = False, match_ignore_case = False, glob_asciirange = True\<rparr>,
      valid_array_reference = \<lambda>e s. False, get_array_value = \<lambda>e s. (None, e), find_variable = \<lambda>e s. None,
      find_variable_noref = \<lambda>e s. None, number_of_args = \<lambda>e. 0, var_operations = string_vars,
      cond_expand_word = \<lambda>e w mode ign. (Some (wd_word w), e), sh_regmatch = \<lambda>e s p. (2, e)\<rparr>"

theorem test_command_meaning_witness:
  "fst (test_command bare_env [''['', ''!'', ''('', '''', '')'', ''-a'', ''3'', ''-lt'', ''12'', '']''] (startup_state (\<lambda>v. None))) = Some (0, None)"
proof -
  let ?e = "And (Not (Paren (Str ''''))) (Binary ''3'' ''-lt'' ''12'')"
  have "texp_ok ?e" "5 \<le> length (texp_words ?e)" by code_simp+
  then have "test_command bare_env (''['' # texp_words ?e @ ['']'']) (startup_state (\<lambda>v. None))
      = status_of (texp_sem bare_env ?e (startup_state (\<lambda>v. None)))"
    using test_command_meaning by blast
  moreover have "fst (texp_sem bare_env ?e (startup_state (\<lambda>v. None))) = Val True"
  proof -
    have "legal_number (Some ''3'') = Some 3" "legal_number (Some ''12'') = Some 12" by code_simp+
    then show ?thesis by (simp add: binary_test_def arithcomp_def arith_result_def has_flag_def char_at_def NUL_def Let_def)
  qed
  ultimately show ?thesis by (auto simp: status_of_def split: prod.splits)
qed

end
