(* ===== verification/Cond.thy ===== *)
theory Cond
  imports Test_Correct Smatch_Correct Expr_Safety
begin

text \<open>
  The conditional command \<^verbatim>\<open>[[\<close>: it never leaves through the exit of the \<^verbatim>\<open>test\<close> command, and its string
  comparisons are pattern matching with extended patterns.
\<close>

section \<open>No exit\<close>

text \<open>The nodes that the parser makes: every node has the operands its type needs.\<close>

fun cond_ok :: "cond_com \<Rightarrow> bool" where
  "cond_ok (Cond_Com _ _ type op left right) \<longleftrightarrow>
     (case type of
        COND_EXPR \<Rightarrow> (case left of Some l \<Rightarrow> cond_ok l | None \<Rightarrow> False)
      | COND_UNARY \<Rightarrow> op \<noteq> None \<and> cond_word left \<noteq> None
      | COND_BINARY \<Rightarrow> op \<noteq> None \<and> cond_word left \<noteq> None \<and> cond_word right \<noteq> None
      | COND_TERM \<Rightarrow> False
      | _ \<Rightarrow> (case left of Some l \<Rightarrow> (case right of Some r \<Rightarrow> cond_ok l \<and> cond_ok r | None \<Rightarrow> False) | None \<Rightarrow> False))"

lemma arith_flag: "has_flag (or TEST_PATMATCH (or TEST_ARITHEXP TEST_LOCALE)) TEST_ARITHEXP" "has_flag (or TEST_PATMATCH (or TEST_ARITHEXP TEST_LOCALE)) TEST_PATMATCH"
  by (simp_all add: has_flag_def)

definition no_exit :: "'a tres \<times> 's \<Rightarrow> bool" where
  "no_exit m \<longleftrightarrow> (\<forall>e. fst m \<noteq> Exit e)"

lemma no_exit_simps [simp]: "no_exit (Val x, s)" "no_exit (Undef, s)" "\<not> no_exit (Exit e, s)"
  by (simp_all add: no_exit_def)

lemma no_exit_if: "no_exit a \<Longrightarrow> no_exit b \<Longrightarrow> no_exit (if c then a else b)"
  by simp

lemma no_exit_thent: "no_exit m \<Longrightarrow> (\<And>x s. m = (Val x, s) \<Longrightarrow> no_exit (f x s)) \<Longrightarrow> no_exit (thent m f)"
  by (cases m; cases "fst m") (auto simp: no_exit_def)

lemma binary_no_exit: "no_exit (binary_test E op a b (or TEST_PATMATCH (or TEST_ARITHEXP TEST_LOCALE)) st)"
proof -
  have arith: "no_exit (arithcomp E a b op' (or TEST_PATMATCH (or TEST_ARITHEXP TEST_LOCALE)) st)" for op'
    using arith_flag(1) by (auto simp: arithcomp_def split: option.split)
  have pat: "no_exit (if p then patcomp g a b op' else Val x, st)" for p g op' x
    by (simp add: patcomp_def split: option.split)
  show ?thesis
    unfolding binary_test_def Let_def by (intro no_exit_if arith pat no_exit_simps(1))
qed

text \<open>
  The evaluation of a conditional command never jumps to the exit of the \<^verbatim>\<open>test\<close> command, whose jump buffer is
  stale there, although it calls the same comparisons: malformed integers are arithmetic expressions, not errors of \<^verbatim>\<open>test\<close>.
\<close>

theorem cond_no_exit: "cond_ok c \<Longrightarrow> fst (execute_cond_node E ign c st) \<noteq> Exit e"
proof -
  have bin: "no_exit (cond_binary E ig op l r st)" for E :: "'a test_env" and ig op l r st
    unfolding cond_binary_def Let_def case_prod_beta by (intro no_exit_if no_exit_thent binary_no_exit no_exit_simps(1))
  have un: "no_exit (cond_unary E ig op l st)" for E :: "'a test_env" and ig op l st
    by (auto simp: cond_unary_def split: prod.split)
  assume "cond_ok c"
  then have "no_exit (execute_cond_node E ign c st)"
  proof (induction c arbitrary: ign st)
    case (Cond_Com invert own type op left right)
    have inv: "no_exit m \<Longrightarrow> no_exit (thent m (\<lambda>r st. (Val (if invert then if r = 0 then 1 else 0 else r), st)))" for m :: "int tres \<times> 'a expr_state"
      by (rule no_exit_thent) auto
    have l: "no_exit (execute_cond_node E ig x st)" if "left = Some x" "cond_ok x" for ig x st
      using Cond_Com.IH(1) [of x] that by simp
    have r: "no_exit (execute_cond_node E ig x st)" if "right = Some x" "cond_ok x" for ig x st
      using Cond_Com.IH(2) [of x] that by simp
    show ?case
      unfolding execute_cond_node.simps Let_def
    proof (rule inv, cases type, goal_cases)
      case 1
      then show ?case using Cond_Com.prems l r by (auto split: option.splits intro!: no_exit_thent)
    next
      case 2
      then show ?case using Cond_Com.prems l r by (auto split: option.splits intro!: no_exit_thent)
    next
      case 3
      then show ?case using Cond_Com.prems un by (auto split: option.splits)
    next
      case 4
      then show ?case using Cond_Com.prems bin by (auto split: option.splits)
    next
      case 5
      then show ?case using Cond_Com.prems by simp
    next
      case 6
      then show ?case using Cond_Com.prems l by (auto split: option.splits)
    qed
  qed
  then show ?thesis by (simp add: no_exit_def)
qed


definition cond_term :: "cstring \<Rightarrow> cond_com" where
  "cond_term s = Cond_Com False False COND_TERM (Some \<lparr>wd_word = s, wd_flags = 0\<rparr>) None None"

theorem cond_no_exit_witness:
  "fst (execute_cond_node bare_env False
      (Cond_Com True False COND_BINARY (Some \<lparr>wd_word = ''-lt'', wd_flags = 0\<rparr>) (Some (cond_term ''x y'')) (Some (cond_term ''2'')))
      (startup_state (\<lambda>v. None))) \<noteq> Exit (Integer_expected ''x y'')"
  by (rule cond_no_exit) (simp add: cond_term_def cond_word_def)

section \<open>Pattern matching\<close>

definition match_flags :: "glob_opts \<Rightarrow> int" where
  "match_flags g = or FNM_EXTMATCH (FNMATCH_IGNCASE g)"

lemma match_flags_ok: "shell_flags (match_flags g)" "has_flag (match_flags g) FNM_EXTMATCH"
  by (auto simp: match_flags_def FNMATCH_IGNCASE_def shell_flags_def has_flag_def FNM_CASEFOLD_def FNM_EXTMATCH_def FNM_PATHNAME_def
      FNM_NOESCAPE_def FNM_PERIOD_def FNM_DOTDOT_def FNM_LEADING_DIR_def)

lemma patcomp_pattern:
  assumes "cstring_ok s" and "pat_ok True pat"
  shows "patcomp (g\<lparr>extended_glob := True\<rparr>) s (pat_text pat) op = Val ((op = EQ) = pat_matches (match_flags g) s pat 0 (length s))"
proof -
  have "or (FNMATCH_EXTFLAG (g\<lparr>extended_glob := True\<rparr>)) (FNMATCH_IGNCASE (g\<lparr>extended_glob := True\<rparr>)) = match_flags g"
    by (simp add: match_flags_def FNMATCH_EXTFLAG_def FNMATCH_IGNCASE_def)
  then show ?thesis
    using strmatch_text [OF match_flags_ok(1) assms(1), of g pat "glob_asciirange g"] assms(2) match_flags_ok(2) [of g]
    by (simp add: patcomp_def match_int_def FNM_NOMATCH_def)
qed

lemma binary_test_pattern:
  assumes "op \<in> {''='', ''=='', ''!=''}" and "has_flag flags TEST_PATMATCH"
  shows "binary_test E op a b flags st = (patcomp (glob_options E) a b (if op = ''!='' then NE else EQ), st)"
  using assms(1) by (elim insertE emptyE) (simp_all add: binary_test_def char_at_def NUL_def assms(2))

lemma cond_binary_pattern:
  assumes "op \<in> {''='', ''=='', ''!=''}"
  shows "cond_binary E ig op l r st =
    (let (arg1, st) = expand_operand E l 0 ig st; (arg2, st) = expand_operand E r 1 ig st
     in thent (binary_test (E\<lparr>glob_options := (glob_options E)\<lparr>extended_glob := True\<rparr>\<rparr>) op arg1 arg2
            (or TEST_PATMATCH (or TEST_ARITHEXP TEST_LOCALE)) st)
          (\<lambda>result st. (Val (if result then EXECUTION_SUCCESS else EXECUTION_FAILURE), st)))"
  using assms unfolding cond_binary_def by (elim insertE emptyE) simp_all

text \<open>
  C26. \<^verbatim>\<open>[[ s == pattern ]]\<close> succeeds exactly when the expanded word is matched by the pattern on the right-hand side, with
  extended patterns switched on for the comparison whatever the option says; \<^verbatim>\<open>!=\<close> and a leading \<^verbatim>\<open>!\<close> each invert the result.
\<close>

theorem cond_pattern_match:
  assumes "wd_word o1 \<in> {''='', ''=='', ''!=''}" and "cond_word left = Some l" and "cond_word right = Some r"
    and "cond_expand_word E (env st) l 0 (ign \<or> own) = (Some s, e1)"
    and "cond_expand_word E e1 r 1 (ign \<or> own) = (Some (pat_text pat), e2)"
    and "cstring_ok s" and "pat_ok True pat"
  shows "execute_cond_node E ign (Cond_Com invert own COND_BINARY (Some o1) left right) st =
    (Val (if (pat_matches (match_flags (glob_options E)) s pat 0 (length s) = (wd_word o1 \<noteq> ''!='')) \<noteq> invert
          then EXECUTION_SUCCESS else EXECUTION_FAILURE), st\<lparr>env := e2\<rparr>)"
proof -
  have "binary_test (E\<lparr>glob_options := (glob_options E)\<lparr>extended_glob := True\<rparr>\<rparr>) (wd_word o1) s (pat_text pat)
      (or TEST_PATMATCH (or TEST_ARITHEXP TEST_LOCALE)) st'
    = (Val ((wd_word o1 \<noteq> ''!='') = pat_matches (match_flags (glob_options E)) s pat 0 (length s)), st')" for st'
    unfolding binary_test_pattern [OF assms(1) arith_flag(2)]
    using patcomp_pattern [OF assms(6,7), of "glob_options E"] by simp
  then have "cond_binary E (ign \<or> own) (wd_word o1) l r st =
    (Val (if (wd_word o1 \<noteq> ''!='') = pat_matches (match_flags (glob_options E)) s pat 0 (length s)
          then EXECUTION_SUCCESS else EXECUTION_FAILURE), st\<lparr>env := e2\<rparr>)"
    unfolding cond_binary_pattern [OF assms(1)] by (simp add: expand_operand_def assms(4,5) Let_def)
  then show ?thesis using assms(2,3) by auto
qed

theorem cond_pattern_match_witness:
  "fst (execute_cond_node bare_env False
      (Cond_Com False False COND_BINARY (Some \<lparr>wd_word = ''=='', wd_flags = 0\<rparr>) (Some (cond_term ''ab'')) (Some (cond_term ''a*'')))
      (startup_state (\<lambda>v. None))) = Val EXECUTION_SUCCESS"
proof -
  let ?pat = "[Plain (CHR ''a''), AnyString]" and ?o = "\<lparr>wd_word = ''=='', wd_flags = 0\<rparr>"
  let ?f = "match_flags (glob_options bare_env)"
  have pat: "pat_ok True ?pat" "pat_text ?pat = ''a*''"
    by (simp_all add: pat_ok_def elem_ok.simps plain_ok_def NUL_def elem_text.simps)
  have "cstring_ok ''ab''" by (simp add: cstring_ok_def NUL_def)
  moreover have "cond_word (Some (cond_term s)) = Some \<lparr>wd_word = s, wd_flags = 0\<rparr>" for s
    by (simp add: cond_word_def cond_term_def)
  moreover have "cond_expand_word bare_env e w mode ig = (Some (wd_word w), e)" for e w mode ig by (simp add: bare_env_def)
  ultimately have "execute_cond_node bare_env False (Cond_Com False False COND_BINARY (Some ?o) (Some (cond_term ''ab'')) (Some (cond_term ''a*'')))
      (startup_state (\<lambda>v. None))
    = (Val (if (pat_matches ?f ''ab'' ?pat 0 (length ''ab'') = (wd_word ?o \<noteq> ''!='')) \<noteq> False then EXECUTION_SUCCESS else EXECUTION_FAILURE),
       (startup_state (\<lambda>v. None))\<lparr>env := env (startup_state (\<lambda>v. None))\<rparr>)"
    using pat by (intro cond_pattern_match [where ?e1.0 = "env (startup_state (\<lambda>v. None))"
          and l = "\<lparr>wd_word = ''ab'', wd_flags = 0\<rparr>" and r = "\<lparr>wd_word = ''a*'', wd_flags = 0\<rparr>"]) simp_all
  moreover have "pat_matches ?f ''ab'' ?pat 0 (length ''ab'')"
    by (auto simp: pat_matches_Cons one_char_def match_flags_def FNMATCH_IGNCASE_def bare_env_def)
  ultimately show ?thesis by simp
qed

end
