(* ===== verification/Split.thy ===== *)
theory Split
  imports Subst_Quote General
begin

text \<open>
  Word splitting, from \<^verbatim>\<open>subst.c\<close>: the extraction of a field up to a separator, the splitting of a string into
  fields under \<^verbatim>\<open>IFS\<close>, and the extraction of one field for the \<^verbatim>\<open>read\<close> command. The separators are never \<^verbatim>\<open>NULL\<close>:
  the extraction of a field would follow the pointer.
\<close>

section \<open>Separators\<close>

definition SX_NOCTLESC :: int where "SX_NOCTLESC = 0x10"
definition SX_NOESCCTLNUL :: int where "SX_NOESCCTLNUL = 0x20"
definition W_SAWQUOTEDNULL :: int where "W_SAWQUOTEDNULL = 0x200000"
definition W_ARRAYREF :: int where "W_ARRAYREF = 0x200"

definition spctabnl :: "char \<Rightarrow> bool" where
  "spctabnl c \<longleftrightarrow> c = CHR '' '' \<or> c = TAB \<or> c = NEWLINE"

definition issep :: "ifs_state \<Rightarrow> cstring \<Rightarrow> char \<Rightarrow> bool" where
  "issep st separators c =
     (if char_at separators 0 \<noteq> NUL
      then if char_at separators 1 \<noteq> NUL then ifs_cmap st c else c = char_at separators 0
      else False)"

definition ifs_whitespace :: "char \<Rightarrow> bool" where
  "ifs_whitespace c = ISSPACE c"

definition sh_style_split :: "cstring \<Rightarrow> bool" where
  "sh_style_split separators \<longleftrightarrow>
     char_at separators 0 = CHR '' '' \<and> char_at separators 1 = TAB \<and> char_at separators 2 = NEWLINE \<and> char_at separators 3 = NUL"

definition ifs_whitesep :: "cstring \<Rightarrow> char \<Rightarrow> bool" where
  "ifs_whitesep separators c = (if sh_style_split separators then spctabnl c else ifs_whitespace c)"

definition split_flags :: "cstring option \<Rightarrow> int" where
  "split_flags ifs =
     (case ifs of
        None \<Rightarrow> 0
      | Some s \<Rightarrow> (if CTLESC \<in> set s then SX_NOCTLESC else 0) OR (if CTLNUL \<in> set s then SX_NOESCCTLNUL else 0))"

text \<open>A loop that skips characters.\<close>

definition skip_while :: "(char \<Rightarrow> bool) \<Rightarrow> cstring \<Rightarrow> nat \<Rightarrow> nat" where
  "skip_while P string i = i + length (takeWhile P (drop i string))"

section \<open>Extracting a field\<close>

function verbatim_loop :: "cstring \<Rightarrow> cstring \<Rightarrow> int \<Rightarrow> nat \<Rightarrow> nat" where
  "verbatim_loop string charlist flags i =
     (let c = char_at string i in
      if c = NUL then i
      else if \<not> has_flag flags SX_NOCTLESC \<and> c = CTLESC
      then if length string \<le> i + 2 then length string else verbatim_loop string charlist flags (i + 2)
      else if \<not> has_flag flags SX_NOESCCTLNUL \<and> c = CTLESC \<and> char_at string (i + 1) = CTLNUL
      then if length string \<le> i + 2 then length string else verbatim_loop string charlist flags (i + 2)
      else if c \<in> set charlist then i
      else verbatim_loop string charlist flags (i + 1))"
  by pat_completeness auto
termination
  by (relation "measure (\<lambda>(string, charlist, flags, i). length string - i)") (auto dest: char_at_not_NUL)

declare verbatim_loop.simps [simp del]

definition string_extract_verbatim :: "cstring \<Rightarrow> nat \<Rightarrow> cstring \<Rightarrow> int \<Rightarrow> cstring \<times> nat" where
  "string_extract_verbatim string sindex charlist flags =
     (if has_flag flags SX_NOCTLESC \<and> char_at charlist 0 = SQUOTE \<and> char_at charlist 1 = NUL
      then let (temp, rest) = string_extract_single_quoted False False (drop sindex string)
           in (temp, length string - length rest - 1)
      else if char_at charlist 0 = NUL then (drop sindex string, length string)
      else let i = verbatim_loop string charlist flags sindex in (substring string sindex i, i))"

section \<open>Splitting a string\<close>

text \<open>The word made of a field, if any; \<open>sindex\<close> is the position of the separator after it.\<close>

definition null_word :: word_desc where
  "null_word = \<lparr>wd_word = make_quoted_char NUL, wd_flags = W_QUOTED OR W_HASQUOTEDNULL\<rparr>"

definition split_word :: "cstring \<Rightarrow> int \<Rightarrow> cstring \<Rightarrow> nat \<Rightarrow> cstring \<Rightarrow> word_list" where
  "split_word separators quoted string sindex current_word =
     (if QUOTED_NULL current_word then [null_word]
      else if current_word \<noteq> [] then
        (let w = remove_quoted_nulls current_word
         in [\<lparr>wd_word = w, wd_flags = (if quoted AND (Q_DOUBLE_QUOTES OR Q_HERE_DOCUMENT) \<noteq> 0 then W_QUOTED else 0)
                OR (if w = [] then W_SAWQUOTEDNULL else 0)\<rparr>])
      else if \<not> sh_style_split separators \<and> \<not> ifs_whitespace (char_at string sindex) then [null_word]
      else [])"

text \<open>Moving past the separators after a field.\<close>

definition skip_separators :: "ifs_state \<Rightarrow> cstring \<Rightarrow> cstring \<Rightarrow> nat \<Rightarrow> nat" where
  "skip_separators st separators string sindex =
     (let c = char_at string sindex;
          whitesep = (c \<noteq> NUL \<and> ifs_whitesep separators c);
          i = (if c \<noteq> NUL then sindex + 1 else sindex);
          i = skip_while (\<lambda>c. ifs_whitesep separators c \<and> issep st separators c) string i;
          c = char_at string i
      in if c \<noteq> NUL \<and> whitesep \<and> issep st separators c \<and> \<not> ifs_whitesep separators c
         then skip_while (\<lambda>c. ifs_whitesep separators c \<and> ifs_cmap st c) string (i + 1)
         else i)"

lemma verbatim_loop_forward: "i \<le> length string \<Longrightarrow> i \<le> verbatim_loop string charlist flags i"
proof (induction string charlist flags i rule: verbatim_loop.induct)
  case (1 string charlist flags i)
  show ?case
  proof (cases "char_at string i = NUL")
    case False
    then have "i < length string" by (rule char_at_not_NUL)
    then show ?thesis using 1 False by (subst verbatim_loop.simps) (auto simp: Let_def)
  qed (simp add: verbatim_loop.simps)
qed

lemma single_quoted_shorter:
  "s \<noteq> [] \<Longrightarrow> length (snd (string_extract_single_quoted False False s)) < length s"
  using string_extract_single_quoted_length [of False False "tl s" "fst (string_extract_single_quoted False False (tl s))"
      "snd (string_extract_single_quoted False False (tl s))"]
  by (cases s) (auto split: prod.split simp: less_Suc_eq_le)

lemma string_extract_verbatim_forward:
  assumes "char_at string sindex \<noteq> NUL" and "string_extract_verbatim string sindex charlist flags = (w, i)"
  shows "sindex \<le> i"
proof -
  have s: "sindex < length string" using assms(1) by (rule char_at_not_NUL)
  then have "length (snd (string_extract_single_quoted False False (drop sindex string))) < length string - sindex"
    using single_quoted_shorter [of "drop sindex string"] by simp
  then show ?thesis
    using assms(2) s verbatim_loop_forward [of sindex string charlist flags]
    by (auto simp: string_extract_verbatim_def Let_def split: if_splits prod.splits)
qed

lemma skip_separators_forward:
  "i \<le> skip_separators st separators string i" "char_at string i \<noteq> NUL \<Longrightarrow> i < skip_separators st separators string i"
  by (auto simp: skip_separators_def skip_while_def Let_def)

function list_string_loop :: "ifs_state \<Rightarrow> cstring \<Rightarrow> int \<Rightarrow> int \<Rightarrow> cstring \<Rightarrow> nat \<Rightarrow> word_list" where
  "list_string_loop st separators quoted xflags string sindex =
     (if char_at string sindex = NUL then []
      else
        let (current_word, i) = string_extract_verbatim string sindex separators xflags
        in split_word separators quoted string i current_word
           @ list_string_loop st separators quoted xflags string (skip_separators st separators string i))"
  by pat_completeness auto
termination
proof (relation "measure (\<lambda>(st, separators, quoted, xflags, string, sindex). length string - sindex)", goal_cases)
  case (2 st separators quoted xflags string sindex x current_word i)
  then have i: "sindex \<le> i" using string_extract_verbatim_forward by (metis prod.collapse)
  have "sindex < skip_separators st separators string i"
  proof (cases "char_at string i = NUL")
    case True
    then have "sindex \<noteq> i" using 2(1) by auto
    then show ?thesis using i skip_separators_forward(1) [of i st separators string] by simp
  next
    case False
    then show ?thesis using i skip_separators_forward(2) [of string i st separators] by simp
  qed
  then show ?case using char_at_not_NUL [OF 2(1)] by simp
qed simp

declare list_string_loop.simps [simp del]

definition list_string :: "ifs_state \<Rightarrow> cstring option \<Rightarrow> cstring \<Rightarrow> int \<Rightarrow> word_list" where
  "list_string st string separators quoted =
     (case string of
        None \<Rightarrow> []
      | Some string \<Rightarrow>
          if string = [] then []
          else
            let s = (if quoted = 0 \<and> separators \<noteq> []
                     then dropWhile (\<lambda>c. issep st separators c \<and> ifs_whitespace c) string else string)
            in if s = [] then [] else list_string_loop st separators quoted (split_flags (ifs_value st)) s 0)"

definition word_split :: "ifs_state \<Rightarrow> word_desc option \<Rightarrow> cstring option \<Rightarrow> word_list" where
  "word_split st w ifs_chars =
     (case w of
        None \<Rightarrow> []
      | Some w \<Rightarrow>
          let xifs = (if has_flag (wd_flags w) W_QUOTED then [] else case ifs_chars of None \<Rightarrow> [] | Some s \<Rightarrow> s)
          in list_string st (Some (wd_word w)) xifs (wd_flags w AND W_QUOTED))"

text \<open>\<open>final\<close> tells whether the word is the last of its list.\<close>

definition split_one :: "ifs_state \<Rightarrow> bool \<Rightarrow> word_desc \<Rightarrow> word_list" where
  "split_one st final w =
     (let r = word_split st (Some w) (ifs_value st);
          r = (if r = [] \<and> has_flag (wd_flags w) W_SAWQUOTEDNULL then [\<lparr>wd_word = [], wd_flags = 0\<rparr>] else r)
      in case r of
           [x] \<Rightarrow> if final \<and> has_flag (wd_flags w) W_ARRAYREF \<and> wd_word w = wd_word x
                  then [x\<lparr>wd_flags := wd_flags x OR W_ARRAYREF\<rparr>] else r
         | _ \<Rightarrow> r)"

text \<open>
  The results are linked behind the element \<^verbatim>\<open>e\<close>, here a position in the result: the first element of the first result that is not
  empty, and the last element after that.
\<close>

fun link_results :: "ifs_state \<Rightarrow> word_list \<Rightarrow> nat \<Rightarrow> word_list \<Rightarrow> word_list" where
  "link_results st result e [] = result"
| "link_results st result e (w # ws) =
     (let tresult = split_one st (ws = []) w
      in if result = [] then link_results st tresult 0 ws
         else let result = take (e + 1) result @ tresult in link_results st result (length result - 1) ws)"

definition word_list_split :: "ifs_state \<Rightarrow> word_list \<Rightarrow> word_list" where
  "word_list_split st list = link_results st [] 0 list"

section \<open>One field for read\<close>

text \<open>The field, if any, the position of the first character after it, and the position where the next one is looked for.\<close>

definition get_word_from_string :: "cstring option \<Rightarrow> cstring \<Rightarrow> (cstring \<times> nat) option \<times> nat" where
  "get_word_from_string stringp separators =
     (case stringp of
        None \<Rightarrow> (None, 0)
      | Some string \<Rightarrow>
          if string = [] then (None, 0)
          else
            let islocalsep = (\<lambda>c. c \<in> set separators);
                b = (if sh_style_split separators then skip_while (\<lambda>c. spctabnl c \<and> islocalsep c) string 0
                     else skip_while (\<lambda>c. ifs_whitespace c \<and> islocalsep c) string 0);
                s = drop b string
            in if s = [] then (None, b)
               else
                 let (current_word, sindex) = string_extract_verbatim s 0 separators (split_flags (Some separators));
                     c = char_at s sindex;
                     whitesep = (c \<noteq> NUL \<and> ifs_whitesep separators c);
                     i = (if c \<noteq> NUL then sindex + 1 else sindex);
                     i = skip_while (\<lambda>c. spctabnl c \<and> islocalsep c) s i;
                     c = char_at s i;
                     i = (if c \<noteq> NUL \<and> whitesep \<and> islocalsep c \<and> \<not> ifs_whitesep separators c
                          then skip_while (\<lambda>c. ifs_whitesep separators c \<and> islocalsep c) s (i + 1) else i)
                 in (Some (current_word, b + sindex), b + i))"

text \<open>Trailing white space is cut off in place, but never the first character.\<close>

function strip_loop :: "cstring \<Rightarrow> (char \<Rightarrow> bool) \<Rightarrow> bool \<Rightarrow> nat \<Rightarrow> nat" where
  "strip_loop string isifs saw_escape s =
     (if s > 0 \<and> (spctabnl (char_at string s) \<and> isifs (char_at string s)
                  \<or> saw_escape \<and> char_at string s = CTLESC \<and> spctabnl (char_at string (s + 1)))
      then strip_loop string isifs saw_escape (s - 1) else s)"
  by pat_completeness auto
termination by (relation "measure (\<lambda>(string, isifs, saw_escape, s). s)") auto

declare strip_loop.simps [simp del]

definition strip_trailing_ifs_whitespace :: "ifs_state \<Rightarrow> cstring \<Rightarrow> bool \<Rightarrow> cstring" where
  "strip_trailing_ifs_whitespace st string saw_escape =
     (if string = [] then [] else take (strip_loop string (ifs_cmap st) saw_escape (length string - 1) + 1) string)"

end
