(* ===== verification/Split_Correct.thy ===== *)
theory Split_Correct
  imports Split
begin

text \<open>
  Word splitting follows the rules of the manual and of the comment before \<^verbatim>\<open>list_string\<close>: white space of \<^verbatim>\<open>IFS\<close> is dropped at the ends, and a delimiter is a run of
  such white space, or one other character of \<^verbatim>\<open>IFS\<close> with the white space around it. The field that \<^verbatim>\<open>read\<close> takes is
  the first of these, as long as \<^verbatim>\<open>IFS\<close> has no white space but space, tab and newline.
\<close>

section \<open>Fields and delimiters\<close>

text \<open>A field in the internal quoting: characters outside \<^verbatim>\<open>IFS\<close>, and any character behind \<^verbatim>\<open>CTLESC\<close>.\<close>

fun plain_field :: "cstring \<Rightarrow> cstring \<Rightarrow> bool" where
  "plain_field ifs [] = True"
| "plain_field ifs [c] \<longleftrightarrow> c \<noteq> CTLESC \<and> c \<noteq> NUL \<and> c \<notin> set ifs"
| "plain_field ifs (c # d # s) \<longleftrightarrow>
     (if c = CTLESC then d \<noteq> NUL \<and> plain_field ifs s else c \<noteq> NUL \<and> c \<notin> set ifs \<and> plain_field ifs (d # s))"

definition white :: "cstring \<Rightarrow> char \<Rightarrow> bool" where
  "white ifs c \<longleftrightarrow> c \<in> set ifs \<and> spctabnl c"

definition hard :: "cstring \<Rightarrow> char \<Rightarrow> bool" where
  "hard ifs c \<longleftrightarrow> c \<in> set ifs \<and> \<not> spctabnl c"

definition delimiter :: "cstring \<Rightarrow> cstring \<Rightarrow> bool" where
  "delimiter ifs d \<longleftrightarrow>
     d \<noteq> [] \<and> list_all (white ifs) d
     \<or> (\<exists>w c v. d = w @ c # v \<and> list_all (white ifs) w \<and> hard ifs c \<and> list_all (white ifs) v)"

text \<open>
  A string cut into fields with the delimiters behind them, and a last field. No delimiter is cut in two: an empty field has
  its delimiter begin with a hard character, and does not follow mere white space.
\<close>

fun cut_ok :: "cstring \<Rightarrow> (cstring \<times> cstring) list \<Rightarrow> cstring \<Rightarrow> bool" where
  "cut_ok ifs [] l = plain_field ifs l"
| "cut_ok ifs ((f, d) # fs) l \<longleftrightarrow>
     plain_field ifs f \<and> delimiter ifs d \<and> (f = [] \<longrightarrow> hard ifs (hd d))
     \<and> (list_all (white ifs) d \<longrightarrow> fs = [] \<or> fst (hd fs) \<noteq> []) \<and> cut_ok ifs fs l"

definition cut_text :: "(cstring \<times> cstring) list \<Rightarrow> cstring \<Rightarrow> cstring" where
  "cut_text fs l = concat (map (\<lambda>(f, d). f @ d) fs) @ l"

definition field_word :: "cstring \<Rightarrow> word_desc" where
  "field_word f =
     (if f = [] \<or> QUOTED_NULL f then null_word
      else \<lparr>wd_word = remove_quoted_nulls f, wd_flags = if remove_quoted_nulls f = [] then W_SAWQUOTEDNULL else 0\<rparr>)"

definition cut_words :: "(cstring \<times> cstring) list \<Rightarrow> cstring \<Rightarrow> word_list" where
  "cut_words fs l = map (\<lambda>(f, d). field_word f) fs @ (if l = [] then [] else [field_word l])"

text \<open>
  The values of \<^verbatim>\<open>IFS\<close> considered: not empty, without the characters of the internal quoting, and without white space other than space, tab
  and newline, which the code takes for white space of \<^verbatim>\<open>IFS\<close> while its comment and the manual do not.
\<close>

definition blanks_only :: "cstring \<Rightarrow> bool" where
  "blanks_only ifs \<longleftrightarrow> list_all (\<lambda>c. ISSPACE c \<longrightarrow> spctabnl c) ifs"

definition ifs_ok :: "cstring \<Rightarrow> bool" where
  "ifs_ok ifs \<longleftrightarrow> ifs \<noteq> [] \<and> cstring_ok ifs \<and> CTLESC \<notin> set ifs \<and> CTLNUL \<notin> set ifs \<and> blanks_only ifs"

lemma space_iff: "ifs_ok ifs \<Longrightarrow> c \<in> set ifs \<Longrightarrow> ISSPACE c \<longleftrightarrow> spctabnl c"
  by (auto simp: ifs_ok_def blanks_only_def list_all_iff spctabnl_def ISSPACE_def)

definition ifs_set :: "ifs_state \<Rightarrow> cstring \<Rightarrow> bool" where
  "ifs_set st ifs \<longleftrightarrow> ifs_value st = Some ifs \<and> ifs_cmap st = (\<lambda>c. c \<in> set ifs)"

lemma ifs_set_setifs: "ifs_set (setifs (Some (Some ifs))) ifs" "ifs_set (setifs None) default_ifs"
  by (auto simp: ifs_set_def setifs_def Let_def)

lemma split_flags_ok: "ifs_ok ifs \<Longrightarrow> split_flags (Some ifs) = 0"
  by (simp add: split_flags_def ifs_ok_def)

lemma issep_iff: "ifs_ok ifs \<Longrightarrow> ifs_set st ifs \<Longrightarrow> issep st ifs c \<longleftrightarrow> c \<in> set ifs"
  by (cases ifs; cases "tl ifs") (auto simp: issep_def ifs_ok_def ifs_set_def char_at_def cstring_ok_def)

lemma sh_style_iff: "cstring_ok ifs \<Longrightarrow> sh_style_split ifs \<longleftrightarrow> ifs = default_ifs"
  by (cases ifs; cases "tl ifs"; cases "tl (tl ifs)"; cases "tl (tl (tl ifs))")
     (auto simp: sh_style_split_def default_ifs_def char_at_def cstring_ok_def NUL_def)

lemma whitesep_iff: "ifs_ok ifs \<Longrightarrow> c \<in> set ifs \<Longrightarrow> ifs_whitesep ifs c \<longleftrightarrow> spctabnl c"
  using space_iff by (auto simp: ifs_whitesep_def ifs_whitespace_def)

lemma whitesep_issep: "ifs_ok ifs \<Longrightarrow> ifs_set st ifs \<Longrightarrow> ifs_whitesep ifs c \<and> issep st ifs c \<longleftrightarrow> white ifs c"
  using whitesep_iff issep_iff by (auto simp: white_def)

lemma cmap_iff: "ifs_set st ifs \<Longrightarrow> ifs_cmap st c \<longleftrightarrow> c \<in> set ifs"
  by (simp add: ifs_set_def)

section \<open>Skipping\<close>

lemma skip_while_drop:
  assumes "drop i t = w @ r" and "list_all P w" and "r = [] \<or> \<not> P (hd r)"
  shows "skip_while P t i = i + length w"
proof -
  have "takeWhile P r = []" using assms(3) by (cases r) auto
  then have "takeWhile P (w @ r) = w" using assms(2) by (simp add: takeWhile_append2 list_all_iff)
  then show ?thesis by (simp add: skip_while_def assms(1))
qed

lemma no_flags [simp]: "\<not> has_flag 0 SX_NOCTLESC"
  by (simp add: has_flag_def SX_NOCTLESC_def)

lemma char_at_rest:
  "drop i t = c # r \<Longrightarrow> char_at t i = c" "drop i t = c # r \<Longrightarrow> drop (Suc i) t = r"
  "drop i t = c # d # r \<Longrightarrow> drop (Suc (Suc i)) t = r" "drop i t = [] \<Longrightarrow> char_at t i = NUL"
  by (simp_all add: char_at_drop drop_Suc_tl)

lemma verbatim_field:
  assumes "ifs_ok ifs" and "plain_field ifs f" and "drop i t = f @ r" and "r = [] \<or> hd r \<in> set ifs"
  shows "verbatim_loop t ifs 0 i = i + length f"
  using assms
proof (induction ifs f arbitrary: i rule: plain_field.induct)
  case (1 ifs i)
  show ?case
  proof (cases r)
    case Nil
    then show ?thesis using 1 char_at_rest(4) [of i t] by (simp add: verbatim_loop.simps)
  next
    case (Cons c r')
    then have "char_at t i = c" "c \<in> set ifs" "c \<noteq> CTLESC" "c \<noteq> NUL"
      using 1 char_at_rest(1) [of i t] by (auto simp: ifs_ok_def cstring_ok_def)
    then show ?thesis by (simp add: verbatim_loop.simps)
  qed
next
  case (2 ifs c)
  have "verbatim_loop t ifs 0 (Suc i) = Suc i"
  proof (cases r)
    case Nil
    then have "char_at t (Suc i) = NUL" using 2 char_at_rest(4) [of "Suc i" t] char_at_rest(2) [of i t c "[]"] by simp
    then show ?thesis by (simp add: verbatim_loop.simps)
  next
    case (Cons e r')
    then have "char_at t (Suc i) = e" "e \<in> set ifs" "e \<noteq> CTLESC" "e \<noteq> NUL"
      using 2 char_at_rest(2) [of i t c r] char_at_rest(1) [of "Suc i" t] by (auto simp: ifs_ok_def cstring_ok_def)
    then show ?thesis by (simp add: verbatim_loop.simps)
  qed
  then show ?case using 2 char_at_rest(1) [of i t c r] by (subst verbatim_loop.simps) simp
next
  case (3 ifs c d s)
  note at = char_at_rest(1,2) [of i t c "d # s @ r"] and drop2 = char_at_rest(3) [of i t c d "s @ r"]
  show ?case
  proof (cases "c = CTLESC")
    case True
    then have "verbatim_loop t ifs 0 (Suc (Suc i)) = Suc (Suc i) + length s"
      using 3 drop2 by (intro 3(1)) auto
    moreover have "length t \<le> i + 2 \<Longrightarrow> length t = i + 2 \<and> s = []"
    proof -
      assume "length t \<le> i + 2"
      moreover have "length t - i = 2 + length s + length r" using arg_cong [OF 3(5), of length] by simp
      ultimately show "length t = i + 2 \<and> s = []" by (cases s) auto
    qed
    ultimately show ?thesis using True at(1) 3(5) by (subst verbatim_loop.simps) (auto simp: NUL_def)
  next
    case False
    then have "verbatim_loop t ifs 0 (Suc i) = Suc i + length (d # s)"
      using 3 at(2) by (intro 3(2)) auto
    then show ?thesis using False at(1) 3(4,5) by (subst verbatim_loop.simps) auto
  qed
qed

lemma extract_field:
  assumes "ifs_ok ifs" and "plain_field ifs f" and "drop i t = f @ r" and "r = [] \<or> hd r \<in> set ifs"
  shows "string_extract_verbatim t i ifs 0 = (f, i + length f)"
proof -
  have "char_at ifs 0 \<noteq> NUL" using assms(1) by (cases ifs) (auto simp: ifs_ok_def cstring_ok_def char_at_def)
  then show ?thesis
    using verbatim_field [OF assms] assms(3) by (simp add: string_extract_verbatim_def substring_def)
qed

lemma skip_delimiter:
  assumes "ifs_ok ifs" and "ifs_set st ifs" and "delimiter ifs d" and "drop i t = d @ r" and "r = [] \<or> \<not> white ifs (hd r)"
    and "list_all (white ifs) d \<Longrightarrow> r = [] \<or> \<not> hard ifs (hd r)"
  shows "skip_separators st ifs t i = i + length d"
proof -
  have P: "(\<lambda>c. ifs_whitesep ifs c \<and> issep st ifs c) = white ifs" "(\<lambda>c. ifs_whitesep ifs c \<and> ifs_cmap st c) = white ifs"
    using whitesep_issep [OF assms(1,2)] issep_iff [OF assms(1,2)] cmap_iff [OF assms(2)] by auto
  have nonul: "c \<in> set ifs \<Longrightarrow> c \<noteq> NUL" for c using assms(1) by (auto simp: ifs_ok_def cstring_ok_def)
  have hard: "hard ifs c \<Longrightarrow> issep st ifs c \<and> \<not> ifs_whitesep ifs c \<and> c \<noteq> NUL" for c
    using whitesep_iff [OF assms(1)] issep_iff [OF assms(1,2)] nonul by (auto simp: hard_def)
  have wh: "white ifs c \<Longrightarrow> ifs_whitesep ifs c \<and> c \<noteq> NUL" for c
    using whitesep_iff [OF assms(1)] nonul by (auto simp: white_def)
  from assms(3) consider (W) "d \<noteq> []" "list_all (white ifs) d"
    | (H) w c v where "d = w @ c # v" "list_all (white ifs) w" "hard ifs c" "list_all (white ifs) v"
    unfolding delimiter_def by blast
  then show ?thesis
  proof cases
    case W
    then obtain c v where d: "d = c # v" "white ifs c" "list_all (white ifs) v" by (cases d) auto
    have at: "char_at t i = c" "drop (Suc i) t = v @ r" using assms(4) d char_at_rest(1,2) [of i t c "v @ r"] by auto
    have skip: "skip_while (white ifs) t (Suc i) = Suc i + length v" by (rule skip_while_drop [OF at(2) d(3) assms(5)])
    have "\<not> (char_at t (Suc i + length v) \<noteq> NUL \<and> issep st ifs (char_at t (Suc i + length v)) \<and> \<not> ifs_whitesep ifs (char_at t (Suc i + length v)))"
    proof (cases r)
      case Nil
      then show ?thesis using drop_after [OF at(2)] char_at_rest(4) by simp
    next
      case (Cons e r')
      then show ?thesis
        using drop_after [OF at(2)] char_at_rest(1) [of "Suc i + length v" t e r'] assms(6) W(2) issep_iff [OF assms(1,2)] whitesep_iff [OF assms(1)]
        by (auto simp: hard_def)
    qed
    then show ?thesis using at(1) skip d(1) wh [OF d(2)] by (auto simp: skip_separators_def P Let_def)
  next
    case H
    show ?thesis
    proof (cases w)
      case Nil
      then have at: "char_at t i = c" "drop (Suc i) t = v @ r" using assms(4) H(1) char_at_rest(1,2) [of i t c "v @ r"] by auto
      have "skip_while (white ifs) t (Suc i) = Suc i + length v" by (rule skip_while_drop [OF at(2) H(4) assms(5)])
      then show ?thesis using at(1) hard [OF H(3)] H(1) Nil by (simp add: skip_separators_def P Let_def)
    next
      case (Cons c' w')
      then have w: "white ifs c'" "list_all (white ifs) w'" using H(2) by auto
      have at: "char_at t i = c'" "drop (Suc i) t = w' @ c # v @ r"
        using assms(4) H(1) Cons char_at_rest(1,2) [of i t c' "w' @ c # v @ r"] by auto
      have "\<not> white ifs c" using H(3) by (auto simp: hard_def white_def)
      then have s1: "skip_while (white ifs) t (Suc i) = Suc i + length w'" by (intro skip_while_drop [OF at(2) w(2)]) simp
      note at2 = char_at_rest(1,2) [OF drop_after [OF at(2)]]
      have "skip_while (white ifs) t (Suc (Suc i + length w')) = Suc (Suc i + length w') + length v"
        by (rule skip_while_drop [OF at2(2) H(4) assms(5)])
      then show ?thesis using at(1) at2(1) s1 hard [OF H(3)] wh [OF w(1)] H(1) Cons by (simp add: skip_separators_def P Let_def)
    qed
  qed
qed


section \<open>Splitting\<close>

lemma cut_text_simps [simp]: "cut_text [] l = l" "cut_text ((f, d) # fs) l = f @ d @ cut_text fs l"
  by (simp_all add: cut_text_def)

lemma plain_field_hd: "plain_field ifs f \<Longrightarrow> f \<noteq> [] \<Longrightarrow> ifs_ok ifs \<Longrightarrow> hd f \<notin> set ifs \<and> hd f \<noteq> NUL"
  by (cases "(ifs, f)" rule: plain_field.cases) (auto simp: ifs_ok_def NUL_def split: if_splits)

lemma delimiter_hd: "delimiter ifs d \<Longrightarrow> d \<noteq> [] \<and> hd d \<in> set ifs"
  by (cases d) (auto simp: delimiter_def white_def hard_def Cons_eq_append_conv)

text \<open>What follows a delimiter.\<close>

lemma cut_hd:
  assumes "ifs_ok ifs" and "cut_ok ifs ((f, d) # fs) l"
  shows "cut_text fs l = [] \<or> \<not> white ifs (hd (cut_text fs l))"
    "list_all (white ifs) d \<Longrightarrow> cut_text fs l = [] \<or> \<not> hard ifs (hd (cut_text fs l))"
proof -
  have "cut_text fs l = [] \<or> \<not> white ifs (hd (cut_text fs l)) \<and> (list_all (white ifs) d \<longrightarrow> \<not> hard ifs (hd (cut_text fs l)))"
  proof (cases fs)
    case Nil
    then show ?thesis using assms plain_field_hd [of ifs l] by (auto simp: white_def hard_def)
  next
    case (Cons p fs')
    obtain g e where p: "p = (g, e)" by (cases p)
    show ?thesis
    proof (cases "g = []")
      case True
      then show ?thesis using assms Cons p delimiter_hd [of ifs e] by (auto simp: white_def hard_def)
    next
      case False
      then show ?thesis using assms Cons p plain_field_hd [of ifs g] by (auto simp: white_def hard_def)
    qed
  qed
  then show "cut_text fs l = [] \<or> \<not> white ifs (hd (cut_text fs l))"
    "list_all (white ifs) d \<Longrightarrow> cut_text fs l = [] \<or> \<not> hard ifs (hd (cut_text fs l))" by blast+
qed

lemma cut_nonul: "ifs_ok ifs \<Longrightarrow> cut_ok ifs ((f, d) # fs) l \<Longrightarrow> drop i t = f @ d @ r \<Longrightarrow> char_at t i \<noteq> NUL"
  using plain_field_hd [of ifs f] delimiter_hd [of ifs d] char_at_rest(1) [of i t "hd (f @ d)" "tl (f @ d) @ r"]
  by (cases f; cases d) (auto simp: ifs_ok_def cstring_ok_def)

lemma split_word_field:
  assumes "ifs_ok ifs" and "f = [] \<Longrightarrow> hard ifs (char_at t i)"
  shows "split_word ifs 0 t i f = [field_word f]"
proof -
  have "f = [] \<Longrightarrow> \<not> ISSPACE (char_at t i) \<and> \<not> sh_style_split ifs"
    using assms sh_style_iff [of ifs] space_iff [OF assms(1)] by (auto simp: hard_def ifs_ok_def default_ifs_def spctabnl_def)
  then show ?thesis by (auto simp: split_word_def field_word_def QUOTED_NULL_def ifs_whitespace_def)
qed

lemma list_string_loop_cut:
  assumes "ifs_ok ifs" and "ifs_set st ifs" and "cut_ok ifs fs l" and "drop i t = cut_text fs l"
  shows "list_string_loop st ifs 0 0 t i = cut_words fs l"
  using assms(3,4)
proof (induction fs arbitrary: i)
  case Nil
  show ?case
  proof (cases "l = []")
    case True
    then show ?thesis using Nil char_at_rest(4) by (simp add: list_string_loop.simps cut_words_def)
  next
    case False
    have d: "drop i t = l @ []" using Nil by simp
    have "char_at t i \<noteq> NUL" using False Nil plain_field_hd [of ifs l] assms(1) char_at_rest(1) [of i t "hd l" "tl l"] by auto
    moreover have "string_extract_verbatim t i ifs 0 = (l, i + length l)"
      using Nil assms(1) by (intro extract_field [OF _ _ d]) auto
    moreover have "char_at t (i + length l) = NUL" using char_at_rest(4) [OF drop_after [OF d]] .
    moreover from this have "skip_separators st ifs t (i + length l) = i + length l"
      using drop_after [OF d] by (simp add: skip_separators_def Let_def skip_while_def)
    ultimately show ?thesis
      using False split_word_field [OF assms(1), of l t "i + length l"]
      by (simp add: list_string_loop.simps [of st ifs 0 0 t i] list_string_loop.simps [of st ifs 0 0 t "i + length l"] cut_words_def)
  qed
next
  case (Cons p fs)
  obtain f d where p: "p = (f, d)" by (cases p)
  have ok: "cut_ok ifs ((f, d) # fs) l" and dr: "drop i t = f @ d @ cut_text fs l" using Cons.prems p by auto
  have D: "delimiter ifs d" using ok by simp
  then have hd: "d \<noteq> []" "hd d \<in> set ifs" using delimiter_hd by auto
  note dr2 = drop_after [OF dr]
  have "string_extract_verbatim t i ifs 0 = (f, i + length f)"
    using ok hd by (intro extract_field [OF assms(1) _ dr]) auto
  moreover have "split_word ifs 0 t (i + length f) f = [field_word f]"
    using ok hd(1) dr2 char_at_rest(1) [of "i + length f" t "hd d" "tl d @ cut_text fs l"] by (intro split_word_field [OF assms(1)]) auto
  moreover have "skip_separators st ifs t (i + length f) = i + length f + length d"
    by (rule skip_delimiter [OF assms(1,2) D dr2 cut_hd [OF assms(1) ok]])
  moreover have "list_string_loop st ifs 0 0 t (i + length f + length d) = cut_words fs l"
    using ok by (intro Cons.IH [OF _ drop_after [OF dr2]]) simp
  ultimately show ?case
    using cut_nonul [OF assms(1) ok dr] p by (subst list_string_loop.simps) (simp add: cut_words_def)
qed

lemma list_string_cut:
  assumes "ifs_ok ifs" and "ifs_set st ifs" and "list_all (white ifs) lead" and "cut_ok ifs fs l"
    and "lead @ cut_text fs l = s"
  shows "list_string st (Some s) ifs 0 = cut_words fs l"
proof -
  have P: "(\<lambda>c. issep st ifs c \<and> ifs_whitespace c) = white ifs"
    using issep_iff [OF assms(1,2)] space_iff [OF assms(1)] by (auto simp: white_def ifs_whitespace_def)
  have first: "cut_text fs l = [] \<or> \<not> white ifs (hd (cut_text fs l))"
  proof (cases fs)
    case Nil
    then show ?thesis using assms(1,4) plain_field_hd [of ifs l] by (auto simp: white_def)
  next
    case (Cons p fs')
    obtain f d where p: "p = (f, d)" by (cases p)
    show ?thesis
      using assms(1,4) Cons p plain_field_hd [of ifs f] delimiter_hd [of ifs d]
      by (cases "f = []") (auto simp: white_def hard_def)
  qed
  then have "dropWhile (white ifs) s = cut_text fs l"
    using assms(3) unfolding assms(5) [symmetric]
    by (simp add: dropWhile_append2 list_all_iff) (cases "cut_text fs l"; auto)
  moreover have "cut_text fs l = [] \<Longrightarrow> cut_words fs l = []"
    using assms(4) delimiter_hd [of ifs "[]"] by (cases fs) (auto simp: cut_words_def)
  ultimately show ?thesis
    using assms(1) list_string_loop_cut [OF assms(1,2,4), of 0 "cut_text fs l"] split_flags_ok [OF assms(1)] assms(2,5)
    by (auto simp: list_string_def P ifs_set_def ifs_ok_def Let_def)
qed

section \<open>Every string is cut\<close>

lemma take_field:
  assumes "ifs_ok ifs" and "plain_field [] s"
  shows "\<exists>f r. s = f @ r \<and> plain_field ifs f \<and> plain_field [] r \<and> (r = [] \<or> hd r \<in> set ifs)"
  using assms(2)
proof (induction "[] :: cstring" s rule: plain_field.induct)
  case 1
  show ?case by (intro exI [of _ "[]"]) simp
next
  case (2 c)
  show ?case
  proof (cases "c \<in> set ifs")
    case True
    then show ?thesis using 2 by (intro exI [of _ "[]"] exI [of _ "[c]"]) simp
  next
    case False
    then show ?thesis using 2 by (intro exI [of _ "[c]"] exI [of _ "[]"]) simp
  qed
next
  case (3 c d s)
  show ?case
  proof (cases "c = CTLESC")
    case True
    then obtain f r where "s = f @ r \<and> plain_field ifs f \<and> plain_field [] r \<and> (r = [] \<or> hd r \<in> set ifs)" using 3 by auto
    then show ?thesis using True 3(3) by (intro exI [of _ "c # d # f"] exI [of _ r]) simp
  next
    case False
    then obtain f r where f: "d # s = f @ r \<and> plain_field ifs f \<and> plain_field [] r \<and> (r = [] \<or> hd r \<in> set ifs)" using 3 by auto
    show ?thesis
    proof (cases "c \<in> set ifs")
      case True
      then show ?thesis using 3(3) by (intro exI [of _ "[]"] exI [of _ "c # d # s"]) simp
    next
      case c: False
      have "plain_field ifs (c # f)" using c False 3(3) f by (cases f) auto
      then show ?thesis using f by (intro exI [of _ "c # f"] exI [of _ r]) simp
    qed
  qed
qed

lemma plain_field_suffix: "plain_field [] (d @ r) \<Longrightarrow> CTLESC \<notin> set d \<Longrightarrow> plain_field [] r"
proof (induction d)
  case (Cons c d)
  then have "plain_field [] (d @ r)" by (cases "d @ r") auto
  then show ?case using Cons by simp
qed simp

lemma take_delimiter:
  assumes "ifs_ok ifs" and "plain_field [] s" and "s \<noteq> []" and "hd s \<in> set ifs"
  shows "\<exists>d r. s = d @ r \<and> delimiter ifs d \<and> plain_field [] r \<and> (r = [] \<or> \<not> white ifs (hd r))
    \<and> (list_all (white ifs) d \<longrightarrow> r = [] \<or> \<not> hard ifs (hd r))"
proof -
  define w where "w = takeWhile (white ifs) s"
  define u where "u = dropWhile (white ifs) s"
  have s: "s = w @ u" "list_all (white ifs) w" by (simp_all add: w_def u_def list_all_iff) (metis set_takeWhileD)
  have u: "u = [] \<or> \<not> white ifs (hd u)" unfolding u_def by (metis hd_dropWhile)
  have noesc: "list_all (white ifs) w \<Longrightarrow> CTLESC \<notin> set w" for w using assms(1) by (auto simp: list_all_iff white_def ifs_ok_def)
  show ?thesis
  proof (cases "u \<noteq> [] \<and> hard ifs (hd u)")
    case True
    then obtain c u' where c: "u = c # u'" "hard ifs c" by (cases u) auto
    define v where "v = takeWhile (white ifs) u'"
    define r where "r = dropWhile (white ifs) u'"
    have u': "u' = v @ r" "list_all (white ifs) v" by (simp_all add: v_def r_def list_all_iff) (metis set_takeWhileD)
    have r: "r = [] \<or> \<not> white ifs (hd r)" unfolding r_def by (metis hd_dropWhile)
    have "plain_field [] r"
    proof (rule plain_field_suffix)
      show "plain_field [] ((w @ c # v) @ r)" using assms(2) s(1) c(1) u'(1) by simp
      have "c \<noteq> CTLESC" using c(2) assms(1) by (auto simp: hard_def ifs_ok_def)
      then show "CTLESC \<notin> set (w @ c # v)" using noesc [OF s(2)] noesc [OF u'(2)] by simp
    qed
    moreover have "delimiter ifs (w @ c # v)" unfolding delimiter_def using s(2) c(2) u'(2) by blast
    moreover have "\<not> list_all (white ifs) (w @ c # v)" using c(2) by (auto simp: white_def hard_def)
    ultimately show ?thesis using s(1) c(1) u'(1) r by - (rule exI [of _ "w @ c # v"], rule exI [of _ r], auto)
  next
    case False
    have "w \<noteq> []"
    proof
      assume "w = []"
      then have "hd u = hd s" "u \<noteq> []" using s(1) assms(3) by auto
      then show False using False u assms(4) by (auto simp: white_def hard_def)
    qed
    moreover have "plain_field [] u" using assms(2) noesc [OF s(2)] unfolding s(1) by (rule plain_field_suffix)
    ultimately have "s = w @ u \<and> delimiter ifs w \<and> plain_field [] u \<and> (u = [] \<or> \<not> white ifs (hd u))
        \<and> (list_all (white ifs) w \<longrightarrow> u = [] \<or> \<not> hard ifs (hd u))"
      using s u False by (simp only: delimiter_def simp_thms) blast
    then show ?thesis by blast
  qed
qed

lemma cut_exists:
  assumes "ifs_ok ifs"
  shows "plain_field [] s \<Longrightarrow> s = [] \<or> \<not> white ifs (hd s) \<Longrightarrow> \<exists>fs l. cut_ok ifs fs l \<and> s = cut_text fs l"
proof (induction s rule: length_induct)
  case (1 s)
  obtain f r where f: "s = f @ r" "plain_field ifs f" "plain_field [] r" "r = [] \<or> hd r \<in> set ifs"
    using take_field [OF assms 1(2)] by blast
  show ?case
  proof (cases "r = []")
    case True
    then show ?thesis using f by (intro exI [of _ "[]"] exI [of _ f]) simp
  next
    case False
    then obtain d r' where d: "r = d @ r'" "delimiter ifs d" "plain_field [] r'" "r' = [] \<or> \<not> white ifs (hd r')"
      "list_all (white ifs) d \<longrightarrow> r' = [] \<or> \<not> hard ifs (hd r')"
      using take_delimiter [OF assms f(3)] f(4) by blast
    have dd: "d \<noteq> []" "hd d \<in> set ifs" using delimiter_hd [OF d(2)] by auto
    moreover have "length r' < length s" using f(1) d(1) dd(1) by (cases d) auto
    ultimately obtain fs l where fs: "cut_ok ifs fs l" "r' = cut_text fs l" using 1(1) d(3,4) by blast
    have "f = [] \<longrightarrow> hard ifs (hd d)" using 1(3) f(1) d(1) dd by (auto simp: white_def hard_def)
    moreover have "list_all (white ifs) d \<longrightarrow> fs = [] \<or> fst (hd fs) \<noteq> []"
    proof (cases fs)
      case (Cons p fs')
      obtain g e where p: "p = (g, e)" by (cases p)
      then show ?thesis using Cons fs d(5) delimiter_hd [of ifs e] by auto
    qed simp
    ultimately show ?thesis using f(1,2) d(1,2) fs by (intro exI [of _ "(f, d) # fs"] exI [of _ l]) simp
  qed
qed

text \<open>
  C8. Word splitting cuts a string at the delimiters of \<^verbatim>\<open>IFS\<close> as the manual says, for every value of \<^verbatim>\<open>IFS\<close> that is not empty, has neither
  \<^verbatim>\<open>CTLESC\<close> nor \<^verbatim>\<open>CTLNUL\<close> and no white space but space, tab and newline: leading white space is
  dropped, every field becomes one word, an empty field between hard separators becomes a quoted null, characters
  protected by \<^verbatim>\<open>CTLESC\<close> never separate, and a delimiter at the end makes no field. Every string in the internal quoting can be cut in this way.
\<close>

theorem list_string_splits:
  assumes "ifs_ok ifs" and "ifs_set st ifs" and "plain_field [] s"
  shows "(\<exists>lead fs l. list_all (white ifs) lead \<and> cut_ok ifs fs l \<and> s = lead @ cut_text fs l)
    \<and> (\<forall>lead fs l. list_all (white ifs) lead \<and> cut_ok ifs fs l \<and> s = lead @ cut_text fs l
         \<longrightarrow> list_string st (Some s) ifs 0 = cut_words fs l)"
proof -
  define lead where "lead = takeWhile (white ifs) s"
  define r where "r = dropWhile (white ifs) s"
  have s: "s = lead @ r" "list_all (white ifs) lead" by (simp_all add: lead_def r_def list_all_iff) (metis set_takeWhileD)
  have r: "r = [] \<or> \<not> white ifs (hd r)" unfolding r_def by (metis hd_dropWhile)
  have "CTLESC \<notin> set lead" using s(2) assms(1) by (auto simp: list_all_iff white_def ifs_ok_def)
  then have "plain_field [] r" using assms(3) s(1) plain_field_suffix by blast
  then obtain fs l where "cut_ok ifs fs l" "r = cut_text fs l" using cut_exists [OF assms(1) _ r] by blast
  then show ?thesis using s list_string_cut [OF assms(1,2)] by blast
qed

theorem list_string_splits_witness:
  "list_string (setifs (Some (Some '': ''))) (Some (''  a : b::'' @ [CTLESC, CHR '':''] @ '' '')) '': '' 0
     = map field_word [''a'', ''b'', [], [CTLESC, CHR '':'']]"
proof -
  let ?fs = "[(''a'', '' : ''), (''b'', '':''), ([], '':''), ([CTLESC, CHR '':''], '' '')]"
  have "ifs_ok '': ''" by (simp add: ifs_ok_def cstring_ok_def NUL_def blanks_only_def spctabnl_def ISSPACE_def)
  moreover have "list_all (white '': '') ''  ''" by (simp add: white_def spctabnl_def)
  moreover have "cut_ok '': '' ?fs []"
  proof -
    have "delimiter '': '' '' : ''"
      unfolding delimiter_def by (intro disjI2 exI [of _ "'' ''"] exI [of _ "CHR '':''"]) (simp add: white_def hard_def spctabnl_def)
    moreover have "delimiter '': '' '':''"
      unfolding delimiter_def by (intro disjI2 exI [of _ "''''"] exI [of _ "CHR '':''"]) (simp add: hard_def spctabnl_def)
    moreover have "delimiter '': '' '' ''" by (simp add: delimiter_def white_def spctabnl_def)
    ultimately show ?thesis by (simp add: NUL_def white_def hard_def spctabnl_def)
  qed
  moreover have "''  '' @ cut_text ?fs [] = ''  a : b::'' @ [CTLESC, CHR '':''] @ '' ''" by simp
  moreover have "plain_field [] (''  a : b::'' @ [CTLESC, CHR '':''] @ '' '')" by (simp add: NUL_def)
  ultimately have "list_string (setifs (Some (Some '': ''))) (Some (''  a : b::'' @ [CTLESC, CHR '':''] @ '' '')) '': '' 0 = cut_words ?fs []"
    using list_string_splits [OF _ ifs_set_setifs(1), of "'': ''" "''  a : b::'' @ [CTLESC, CHR '':''] @ '' ''"] by metis
  then show ?thesis by (simp add: cut_words_def)
qed

section \<open>The field for read\<close>

lemma white_forms:
  assumes "ifs_ok ifs" and "blanks_only ifs"
  shows "(\<lambda>c. spctabnl c \<and> c \<in> set ifs) = white ifs" "(\<lambda>c. ifs_whitespace c \<and> c \<in> set ifs) = white ifs"
    "(\<lambda>c. ifs_whitesep ifs c \<and> c \<in> set ifs) = white ifs"
proof -
  have "spctabnl c \<Longrightarrow> ISSPACE c" for c by (auto simp: spctabnl_def ISSPACE_def)
  then show "(\<lambda>c. spctabnl c \<and> c \<in> set ifs) = white ifs" "(\<lambda>c. ifs_whitespace c \<and> c \<in> set ifs) = white ifs"
    "(\<lambda>c. ifs_whitesep ifs c \<and> c \<in> set ifs) = white ifs"
    using assms(2) whitesep_iff [OF assms(1)] by (auto simp: white_def blanks_only_def list_all_iff ifs_whitespace_def)
qed

text \<open>The part of the function after the leading white space, as the other function has it.\<close>

lemma get_word_cut:
  assumes "ifs_ok ifs" and "ifs_set st ifs" and "blanks_only ifs" and "list_all (white ifs) lead"
    and "s = [] \<or> \<not> white ifs (hd s)" and "s \<noteq> []" and "string_extract_verbatim s 0 ifs 0 = (w, i)"
  shows "get_word_from_string (Some (lead @ s)) ifs = (Some (w, length lead + i), length lead + skip_separators st ifs s i)"
proof -
  note W = white_forms [OF assms(1,3)]
  have P: "(\<lambda>c. ifs_whitesep ifs c \<and> issep st ifs c) = white ifs" "(\<lambda>c. ifs_whitesep ifs c \<and> ifs_cmap st c) = white ifs"
    "issep st ifs = (\<lambda>c. c \<in> set ifs)"
    using whitesep_issep [OF assms(1,2)] issep_iff [OF assms(1,2)] cmap_iff [OF assms(2)] by auto
  have "skip_while (white ifs) (lead @ s) 0 = length lead"
    using skip_while_drop [of 0 "lead @ s" lead s "white ifs"] assms(4,5) by simp
  then show ?thesis
    using assms(6,7) split_flags_ok [OF assms(1)]
    unfolding get_word_from_string_def skip_separators_def Let_def W P by auto
qed

text \<open>
  C27. The field that \<^verbatim>\<open>read\<close> takes with \<^verbatim>\<open>get_word_from_string\<close> and the fields that word splitting makes agree, although they are
  separate code: the first field of the string is the word, and splitting the rest from the returned position gives the other
  fields, for every string and every \<^verbatim>\<open>IFS\<close> whose white space is space, tab and newline.
\<close>

theorem get_word_agrees:
  assumes "ifs_ok ifs" and "ifs_set st ifs" and "blanks_only ifs" and "plain_field [] string"
  shows "list_string st (Some string) ifs 0 =
    (case get_word_from_string (Some string) ifs of
       (None, n) \<Rightarrow> []
     | (Some (w, e), n) \<Rightarrow> field_word w # list_string st (Some (drop n string)) ifs 0)"
proof -
  define lead where "lead = takeWhile (white ifs) string"
  define s where "s = dropWhile (white ifs) string"
  have string: "string = lead @ s" "list_all (white ifs) lead" by (simp_all add: lead_def s_def list_all_iff) (metis set_takeWhileD)
  have s: "s = [] \<or> \<not> white ifs (hd s)" unfolding s_def by (metis hd_dropWhile)
  have "CTLESC \<notin> set lead" using string(2) assms(1) by (auto simp: list_all_iff white_def ifs_ok_def)
  then have "plain_field [] s" using assms(4) string(1) plain_field_suffix by blast
  then obtain fs l where cut: "cut_ok ifs fs l" "s = cut_text fs l" using cut_exists [OF assms(1) _ s] by blast
  have all: "list_string st (Some string) ifs 0 = cut_words fs l"
    using list_string_cut [OF assms(1,2) string(2) cut(1)] string(1) cut(2) by simp
  show ?thesis
  proof (cases "s = []")
    case True
    have "skip_while (white ifs) string 0 = length string"
      using skip_while_drop [of 0 string string "[]" "white ifs"] string True by simp
    then have "get_word_from_string (Some string) ifs = (None, if string = [] then 0 else length string)"
      unfolding get_word_from_string_def Let_def white_forms [OF assms(1,3)] by simp
    moreover have "cut_words fs l = []"
      using cut True delimiter_hd [of ifs "[]"] by (cases fs) (auto simp: cut_words_def)
    ultimately show ?thesis using all by simp
  next
    case nonempty: False
    show ?thesis
    proof (cases fs)
      case Nil
      then have l: "s = l" "l \<noteq> []" "plain_field ifs l" using cut nonempty by auto
      have "string_extract_verbatim s 0 ifs 0 = (l, length l)"
        using extract_field [OF assms(1) l(3), of 0 s "[]"] l(1) by simp
      moreover have "skip_separators st ifs s (length l) = length l"
        using l(1) by (simp add: skip_separators_def skip_while_def char_at_def Let_def)
      ultimately have "get_word_from_string (Some string) ifs = (Some (l, length lead + length l), length string)"
        using get_word_cut [OF assms(1-3) string(2) s nonempty] string(1) l(1) by simp
      then show ?thesis using all Nil l(2) by (simp add: cut_words_def list_string_def)
    next
      case (Cons p fs')
      obtain f d where p: "p = (f, d)" by (cases p)
      have ok: "cut_ok ifs ((f, d) # fs') l" and st: "drop 0 s = f @ d @ cut_text fs' l" using cut Cons p by auto
      have D: "delimiter ifs d" using ok by simp
      have "string_extract_verbatim s 0 ifs 0 = (f, length f)"
        using ok delimiter_hd [OF D] extract_field [OF assms(1) _ st] by simp
      moreover have "skip_separators st ifs s (length f) = length f + length d"
        using skip_delimiter [OF assms(1,2) D _ cut_hd [OF assms(1) ok], of "length f" s] drop_after [OF st] by simp
      ultimately have "get_word_from_string (Some string) ifs = (Some (f, length lead + length f), length lead + (length f + length d))"
        using get_word_cut [OF assms(1-3) string(2) s nonempty] string(1) by simp
      moreover have "drop (length lead + (length f + length d)) string = cut_text fs' l" using string(1) st by simp
      moreover have "list_string st (Some (cut_text fs' l)) ifs 0 = cut_words fs' l"
        using list_string_cut [OF assms(1,2), of "[]" fs' l] ok by simp
      ultimately show ?thesis using all Cons p by (simp add: cut_words_def)
    qed
  qed
qed

theorem get_word_agrees_witness:
  "list_string (setifs None) (Some ''a  b'') default_ifs 0 =
    (case get_word_from_string (Some ''a  b'') default_ifs of
       (None, n) \<Rightarrow> []
     | (Some (w, e), n) \<Rightarrow> field_word w # list_string (setifs None) (Some (drop n ''a  b'')) default_ifs 0)"
proof (rule get_word_agrees [OF _ ifs_set_setifs(2)])
  show "ifs_ok default_ifs" by (simp add: ifs_ok_def default_ifs_def cstring_ok_def NUL_def blanks_only_def spctabnl_def)
  show "blanks_only default_ifs" by (simp add: blanks_only_def default_ifs_def spctabnl_def)
  show "plain_field [] ''a  b''" by (simp add: NUL_def)
qed

text \<open>With carriage return in \<^verbatim>\<open>IFS\<close> they do not agree: \<^verbatim>\<open>read\<close> sees an empty field that word splitting does not make.\<close>

lemma get_word_deviation:
  defines "ifs \<equiv> [CHR '' '', CHR 0x0D, CHR '':'']" and "string \<equiv> [CHR ''a'', CHR '' '', CHR 0x0D, CHR '':'', CHR ''b'']"
  shows "list_string (setifs (Some (Some ifs))) (Some string) ifs 0 = [field_word ''a'', field_word ''b'']"
    and "get_word_from_string (Some string) ifs = (Some (''a'', 1), 2)"
    and "get_word_from_string (Some (drop 2 string)) ifs = (Some ([], 1), 2)"
    and "get_word_from_string (Some (drop 4 string)) ifs = (Some (''b'', 1), 1)"
  unfolding ifs_def string_def by code_simp+

section \<open>Lists of words\<close>

fun split_all :: "ifs_state \<Rightarrow> word_list \<Rightarrow> word_list" where
  "split_all st [] = []"
| "split_all st (w # ws) = split_one st (ws = []) w @ split_all st ws"

lemma link_results_append: "result \<noteq> [] \<Longrightarrow> link_results st result (length result - 1) ws = result @ split_all st ws"
proof (induction ws arbitrary: result)
  case (Cons w ws)
  then show ?case using Cons.IH [of "result @ split_one st (ws = []) w"] by (simp add: Let_def)
qed simp

text \<open>
  The results for the words of a list are appended when the first result is at most one word, as it is where the shell
  calls the function; otherwise all but the first word of that result are lost.
\<close>

lemma word_list_split_appends:
  assumes "\<And>w ws. list = w # ws \<Longrightarrow> length (split_one st (ws = []) w) = 1"
  shows "word_list_split st list = split_all st list"
proof (cases list)
  case (Cons w ws)
  then have "length (split_one st (ws = []) w) = 1" using assms by blast
  then have "split_one st (ws = []) w \<noteq> []" "length (split_one st (ws = []) w) - 1 = 0" by auto
  then show ?thesis
    using Cons link_results_append [of "split_one st (ws = []) w" st ws] by (simp add: word_list_split_def)
qed (simp add: word_list_split_def)

lemma word_list_split_loses:
  "map wd_word (word_list_split (setifs None) [\<lparr>wd_word = ''a b'', wd_flags = 0\<rparr>, \<lparr>wd_word = ''c'', wd_flags = 0\<rparr>]) = [''a'', ''c'']"
  by code_simp

end
