(* ===== verification/Shell_State.thy ===== *)
theory Shell_State
  imports Assoc General
begin

text \<open>
  The store of shell variables, after \<^verbatim>\<open>variables.h\<close> and the globals of \<^verbatim>\<open>variables.c\<close>, and the
  operations the code performs on it.

  Variables and hash tables are shared through pointers and the code compares those pointers, so both live
  in a store: a \<^verbatim>\<open>SHELL_VAR *\<close> is an index into \<open>sh_heap\<close>, a \<^verbatim>\<open>HASH_TABLE *\<close> an index into
  \<open>sh_tables\<close>, and \<^verbatim>\<open>NULL\<close> is \<^const>\<open>None\<close>. Memory that is freed stays in the store. The contexts form a
  stack, the list \<open>shell_variables\<close>, whose last element is \<^verbatim>\<open>global_variables\<close>; a pointer to a context
  is its position from the top.

  A function of the code is a command: it returns a value and a new state, leaves by the \<^verbatim>\<open>longjmp\<close> to the
  top level (\<open>Discard\<close>), or has no defined behaviour (\<open>Crash\<close>): it reads through a \<^verbatim>\<open>NULL\<close> pointer or
  reads a value cell at another type than it was written.
\<close>

section \<open>Data\<close>

type_synonym ptr = "nat option"

text \<open>What \<^verbatim>\<open>var->value\<close> points to. A function body is an opaque command.\<close>

datatype cell = C_str cstring | C_array array | C_assoc assoc | C_func nat

record SHELL_VAR =
  sv_name :: cstring
  sv_value :: "cell option"
  sv_exportstr :: "cstring option"
  sv_dynamic_value :: "nat option"
  sv_assign_func :: "nat option"
  sv_attributes :: int
  sv_context :: int

record VAR_CONTEXT =
  vc_name :: "cstring option"
  vc_scope :: int
  vc_flags :: int
  vc_table :: ptr

text \<open>The messages the functions print, by their format and the name they print.\<close>

datatype message = M_invalidid "cstring option" | M_readonly cstring | M_circular cstring | M_removing_nameref cstring
  | M_no_function_context | M_noassign cstring | M_cannot_unset cstring | M_cannot_unset_readonly cstring
  | M_selfref cstring | M_incompatible cstring | M_not_function_context | M_no_global_context | M_not_temp_scope
  | M_int_to_nameref cstring

record 'e shell =
  sh_heap :: "SHELL_VAR list"
  sh_tables :: "nat hash_table list"
  shell_variables :: "VAR_CONTEXT list"
  shell_functions :: ptr
  temporary_env :: ptr
  invalid_env :: ptr
  last_table_searched :: ptr
  variable_context :: int
  array_needs_making :: int
  export_env :: "cstring list"
  tempvar_list :: "cstring list"
  sh_ifs :: ifs_state
  dollar_vars :: "cstring option list"
  rest_of_args :: word_list
  posparam_count :: int
  dollar_arg_stack :: "(cstring option list \<times> word_list \<times> int) list"
  expanding_redir :: bool
  subshell_environment :: bool
  assigning_in_environment :: bool
  executing_builtin :: bool
  mark_modified_vars :: bool
  localvar_inherit :: bool
  localvar_unset :: bool
  posixly_correct :: bool
  restricted :: bool
  sh_messages :: "message list"
  sh_other :: 'e

section \<open>Commands\<close>

datatype ('a, 's) outcome = Ret 'a 's | Discard 's | Crash

type_synonym ('e, 'a) cmd = "'e shell \<Rightarrow> ('a, 'e shell) outcome"

text \<open>The state a command ends in, if its behaviour is defined.\<close>

fun final_state :: "('a, 's) outcome \<Rightarrow> 's option" where
  "final_state (Ret x s) = Some s"
| "final_state (Discard s) = Some s"
| "final_state Crash = None"

definition ret :: "'a \<Rightarrow> ('e, 'a) cmd" where
  "ret x s = Ret x s"

definition crash :: "('e, 'a) cmd" where
  "crash s = Crash"

definition discard :: "('e, 'a) cmd" where
  "discard s = Discard s"

definition bnd :: "('e, 'a) cmd \<Rightarrow> ('a \<Rightarrow> ('e, 'b) cmd) \<Rightarrow> ('e, 'b) cmd" where
  "bnd m f s = (case m s of Ret x s' \<Rightarrow> f x s' | Discard s' \<Rightarrow> Discard s' | Crash \<Rightarrow> Crash)"

definition sq :: "('e, 'a) cmd \<Rightarrow> ('e, 'b) cmd \<Rightarrow> ('e, 'b) cmd" where
  "sq m m' = bnd m (\<lambda>_. m')"

definition gets :: "('e shell \<Rightarrow> 'a) \<Rightarrow> ('e, 'a) cmd" where
  "gets f s = Ret (f s) s"

definition modify :: "('e shell \<Rightarrow> 'e shell) \<Rightarrow> ('e, unit) cmd" where
  "modify f s = Ret () (f s)"

definition only_if :: "bool \<Rightarrow> ('e, unit) cmd \<Rightarrow> ('e, unit) cmd" where
  "only_if b m = (if b then m else ret ())"

fun for_each :: "('a \<Rightarrow> ('e, unit) cmd) \<Rightarrow> 'a list \<Rightarrow> ('e, unit) cmd" where
  "for_each f [] = ret ()"
| "for_each f (x # xs) = sq (f x) (for_each f xs)"

definition report :: "message \<Rightarrow> ('e, unit) cmd" where
  "report m = modify (\<lambda>s. s\<lparr>sh_messages := sh_messages s @ [m]\<rparr>)"

section \<open>Attributes\<close>

definition att_exported :: int where "att_exported = 0x1"
definition att_readonly :: int where "att_readonly = 0x2"
definition att_array :: int where "att_array = 0x4"
definition att_function :: int where "att_function = 0x8"
definition att_integer :: int where "att_integer = 0x10"
definition att_local :: int where "att_local = 0x20"
definition att_assoc :: int where "att_assoc = 0x40"
definition att_uppercase :: int where "att_uppercase = 0x100"
definition att_lowercase :: int where "att_lowercase = 0x200"
definition att_capcase :: int where "att_capcase = 0x400"
definition att_nameref :: int where "att_nameref = 0x800"
definition att_invisible :: int where "att_invisible = 0x1000"
definition att_nounset :: int where "att_nounset = 0x2000"
definition att_noassign :: int where "att_noassign = 0x4000"
definition att_imported :: int where "att_imported = 0x8000"
definition att_nofree :: int where "att_nofree = 0x20000"
definition att_regenerate :: int where "att_regenerate = 0x40000"
definition att_tempvar :: int where "att_tempvar = 0x100000"
definition att_propagate :: int where "att_propagate = 0x200000"

lemmas att_defs = att_exported_def att_readonly_def att_array_def att_function_def att_integer_def att_local_def
  att_assoc_def att_uppercase_def att_lowercase_def att_capcase_def att_nameref_def att_invisible_def
  att_nounset_def att_noassign_def att_imported_def att_nofree_def att_regenerate_def att_tempvar_def
  att_propagate_def

abbreviation att :: "int \<Rightarrow> SHELL_VAR \<Rightarrow> bool" where
  "att a v \<equiv> has_flag (sv_attributes v) a"

definition exported_p :: "SHELL_VAR \<Rightarrow> bool" where "exported_p v \<longleftrightarrow> att att_exported v"
definition readonly_p :: "SHELL_VAR \<Rightarrow> bool" where "readonly_p v \<longleftrightarrow> att att_readonly v"
definition array_p :: "SHELL_VAR \<Rightarrow> bool" where "array_p v \<longleftrightarrow> att att_array v"
definition function_p :: "SHELL_VAR \<Rightarrow> bool" where "function_p v \<longleftrightarrow> att att_function v"
definition integer_p :: "SHELL_VAR \<Rightarrow> bool" where "integer_p v \<longleftrightarrow> att att_integer v"
definition local_p :: "SHELL_VAR \<Rightarrow> bool" where "local_p v \<longleftrightarrow> att att_local v"
definition assoc_p :: "SHELL_VAR \<Rightarrow> bool" where "assoc_p v \<longleftrightarrow> att att_assoc v"
definition uppercase_p :: "SHELL_VAR \<Rightarrow> bool" where "uppercase_p v \<longleftrightarrow> att att_uppercase v"
definition lowercase_p :: "SHELL_VAR \<Rightarrow> bool" where "lowercase_p v \<longleftrightarrow> att att_lowercase v"
definition capcase_p :: "SHELL_VAR \<Rightarrow> bool" where "capcase_p v \<longleftrightarrow> att att_capcase v"
definition nameref_p :: "SHELL_VAR \<Rightarrow> bool" where "nameref_p v \<longleftrightarrow> att att_nameref v"
definition invisible_p :: "SHELL_VAR \<Rightarrow> bool" where "invisible_p v \<longleftrightarrow> att att_invisible v"
definition non_unsettable_p :: "SHELL_VAR \<Rightarrow> bool" where "non_unsettable_p v \<longleftrightarrow> att att_nounset v"
definition noassign_p :: "SHELL_VAR \<Rightarrow> bool" where "noassign_p v \<longleftrightarrow> att att_noassign v"
definition imported_p :: "SHELL_VAR \<Rightarrow> bool" where "imported_p v \<longleftrightarrow> att att_imported v"
definition nofree_p :: "SHELL_VAR \<Rightarrow> bool" where "nofree_p v \<longleftrightarrow> att att_nofree v"
definition regen_p :: "SHELL_VAR \<Rightarrow> bool" where "regen_p v \<longleftrightarrow> att att_regenerate v"
definition tempvar_p :: "SHELL_VAR \<Rightarrow> bool" where "tempvar_p v \<longleftrightarrow> att att_tempvar v"
definition propagate_p :: "SHELL_VAR \<Rightarrow> bool" where "propagate_p v \<longleftrightarrow> att att_propagate v"

definition VC_HASLOCAL :: int where "VC_HASLOCAL = 0x01"
definition VC_HASTMPVAR :: int where "VC_HASTMPVAR = 0x02"
definition VC_FUNCENV :: int where "VC_FUNCENV = 0x04"
definition VC_BLTNENV :: int where "VC_BLTNENV = 0x08"
definition VC_TEMPENV :: int where "VC_TEMPENV = 0x10"

definition VC_TEMPFLAGS :: int where
  "VC_TEMPFLAGS = VC_FUNCENV OR VC_BLTNENV OR VC_TEMPENV"

definition vc_isfuncenv :: "VAR_CONTEXT \<Rightarrow> bool" where "vc_isfuncenv vc \<longleftrightarrow> has_flag (vc_flags vc) VC_FUNCENV"
definition vc_isbltnenv :: "VAR_CONTEXT \<Rightarrow> bool" where "vc_isbltnenv vc \<longleftrightarrow> has_flag (vc_flags vc) VC_BLTNENV"
definition vc_istempenv :: "VAR_CONTEXT \<Rightarrow> bool" where "vc_istempenv vc \<longleftrightarrow> vc_flags vc AND VC_TEMPFLAGS = VC_TEMPENV"
definition vc_istempscope :: "VAR_CONTEXT \<Rightarrow> bool" where
  "vc_istempscope vc \<longleftrightarrow> has_flag (vc_flags vc) (VC_TEMPENV OR VC_BLTNENV)"
definition vc_haslocals :: "VAR_CONTEXT \<Rightarrow> bool" where "vc_haslocals vc \<longleftrightarrow> has_flag (vc_flags vc) VC_HASLOCAL"

definition NAMEREF_MAX :: nat where "NAMEREF_MAX = 8"

section \<open>Reading and writing variables\<close>

text \<open>The two variables that are static: \<^verbatim>\<open>nameref_invalid_value\<close> and \<^verbatim>\<open>nameref_maxloop_value\<close>.\<close>

definition blank_var :: SHELL_VAR where
  "blank_var = \<lparr>sv_name = [], sv_value = None, sv_exportstr = None, sv_dynamic_value = None,
     sv_assign_func = None, sv_attributes = 0, sv_context = 0\<rparr>"

definition INVALID_NAMEREF_VALUE :: ptr where "INVALID_NAMEREF_VALUE = Some 0"
definition nameref_maxloop_value :: ptr where "nameref_maxloop_value = Some 1"

definition var_at :: "ptr \<Rightarrow> ('e, SHELL_VAR) cmd" where
  "var_at p s = (case p of None \<Rightarrow> Crash | Some a \<Rightarrow> if a < length (sh_heap s) then Ret (sh_heap s ! a) s else Crash)"

definition set_var :: "ptr \<Rightarrow> (SHELL_VAR \<Rightarrow> SHELL_VAR) \<Rightarrow> ('e, unit) cmd" where
  "set_var p f s =
     (case p of None \<Rightarrow> Crash
      | Some a \<Rightarrow> if a < length (sh_heap s) then Ret () (s\<lparr>sh_heap := (sh_heap s)[a := f (sh_heap s ! a)]\<rparr>) else Crash)"

definition new_var :: "SHELL_VAR \<Rightarrow> ('e, ptr) cmd" where
  "new_var v s = Ret (Some (length (sh_heap s))) (s\<lparr>sh_heap := sh_heap s @ [v]\<rparr>)"

definition VSETATTR :: "ptr \<Rightarrow> int \<Rightarrow> ('e, unit) cmd" where
  "VSETATTR p a = set_var p (\<lambda>v. v\<lparr>sv_attributes := sv_attributes v OR a\<rparr>)"

definition VUNSETATTR :: "ptr \<Rightarrow> int \<Rightarrow> ('e, unit) cmd" where
  "VUNSETATTR p a = set_var p (\<lambda>v. v\<lparr>sv_attributes := sv_attributes v AND NOT a\<rparr>)"

definition INVALIDATE_EXPORTSTR :: "ptr \<Rightarrow> ('e, unit) cmd" where
  "INVALIDATE_EXPORTSTR p = set_var p (\<lambda>v. v\<lparr>sv_exportstr := None\<rparr>)"

text \<open>The value cell, read as a string, an array or an associative array.\<close>

definition value_cell :: "SHELL_VAR \<Rightarrow> ('e, cstring option) cmd" where
  "value_cell v = (case sv_value v of None \<Rightarrow> ret None | Some (C_str x) \<Rightarrow> ret (Some x) | _ \<Rightarrow> crash)"

definition array_cell :: "SHELL_VAR \<Rightarrow> ('e, array option) cmd" where
  "array_cell v = (case sv_value v of None \<Rightarrow> ret None | Some (C_array a) \<Rightarrow> ret (Some a) | _ \<Rightarrow> crash)"

definition assoc_cell :: "SHELL_VAR \<Rightarrow> ('e, assoc option) cmd" where
  "assoc_cell v = (case sv_value v of None \<Rightarrow> ret None | Some (C_assoc h) \<Rightarrow> ret (Some h) | _ \<Rightarrow> crash)"

definition var_setvalue :: "ptr \<Rightarrow> cstring option \<Rightarrow> ('e, unit) cmd" where
  "var_setvalue p x = set_var p (\<lambda>v. v\<lparr>sv_value := map_option C_str x\<rparr>)"

definition var_setarray :: "ptr \<Rightarrow> array option \<Rightarrow> ('e, unit) cmd" where
  "var_setarray p a = set_var p (\<lambda>v. v\<lparr>sv_value := map_option C_array a\<rparr>)"

definition var_setassoc :: "ptr \<Rightarrow> assoc option \<Rightarrow> ('e, unit) cmd" where
  "var_setassoc p h = set_var p (\<lambda>v. v\<lparr>sv_value := map_option C_assoc h\<rparr>)"

definition need_array :: "('e, unit) cmd" where
  "need_array = modify (\<lambda>s. s\<lparr>array_needs_making := 1\<rparr>)"

section \<open>Tables of variables\<close>

definition table_at :: "nat \<Rightarrow> ('e, nat hash_table) cmd" where
  "table_at t s = (if t < length (sh_tables s) then Ret (sh_tables s ! t) s else Crash)"

definition set_table :: "nat \<Rightarrow> nat hash_table \<Rightarrow> ('e, unit) cmd" where
  "set_table t h = modify (\<lambda>s. s\<lparr>sh_tables := (sh_tables s)[t := h]\<rparr>)"

definition new_table :: "int \<Rightarrow> ('e, ptr) cmd" where
  "new_table n s = Ret (Some (length (sh_tables s))) (s\<lparr>sh_tables := sh_tables s @ [hash_create n]\<rparr>)"

text \<open>\<^verbatim>\<open>HASH_ENTRIES\<close> of a table that may be \<^verbatim>\<open>NULL\<close>.\<close>

definition table_entries :: "ptr \<Rightarrow> ('e, int) cmd" where
  "table_entries t = (case t of None \<Rightarrow> ret 0 | Some i \<Rightarrow> bnd (table_at i) (\<lambda>h. ret (HASH_ENTRIES (Some h))))"

text \<open>The items of a table in the order in which a loop over its buckets visits them.\<close>

definition table_items :: "nat hash_table \<Rightarrow> ptr list" where
  "table_items h = map bc_data (concat (map (\<lambda>i. hash_items i (Some h)) [0..<nat (ht_nbuckets h)]))"

text \<open>
  \<^verbatim>\<open>hash_insert\<close> into a table and the assignment of the new item's data. For a table that is \<^verbatim>\<open>NULL\<close>,
  \<^verbatim>\<open>hash_insert\<close> makes a table nothing else refers to.
\<close>

definition insert_var :: "cstring \<Rightarrow> ptr \<Rightarrow> int \<Rightarrow> ptr \<Rightarrow> ('e, unit) cmd" where
  "insert_var name t flags p =
     (case t of
        None \<Rightarrow> ret ()
      | Some i \<Rightarrow> bnd (table_at i) (\<lambda>h.
          let (elt, h') = hash_insert name (Some h) flags
          in set_table i (update_item elt (\<lambda>b. b\<lparr>bc_data := p\<rparr>) h')))"

text \<open>
  \<^verbatim>\<open>hash_flush\<close> with a function that is called on the data of each item before the table is emptied; the
  functions passed to it do not reach the table that is flushed.
\<close>

definition flush_table :: "(ptr \<Rightarrow> ('e, unit) cmd) \<Rightarrow> nat \<Rightarrow> ('e, unit) cmd" where
  "flush_table free_data t =
     bnd (table_at t) (\<lambda>h.
       if HASH_ENTRIES (Some h) = 0 then ret ()
       else sq (for_each free_data (table_items h))
              (bnd (table_at t) (\<lambda>h'. set_table t (case hash_flush (Some h') of Some h'' \<Rightarrow> h'' | None \<Rightarrow> h'))))"

text \<open>The context at a position of the stack, and writing through a pointer to it.\<close>

definition set_context_at :: "nat \<Rightarrow> (VAR_CONTEXT \<Rightarrow> VAR_CONTEXT) \<Rightarrow> ('e, unit) cmd" where
  "set_context_at i f s =
     (if i < length (shell_variables s)
      then Ret () (s\<lparr>shell_variables := (shell_variables s)[i := f (shell_variables s ! i)]\<rparr>) else Crash)"

definition context_at :: "nat \<Rightarrow> ('e, VAR_CONTEXT) cmd" where
  "context_at i s = (if i < length (shell_variables s) then Ret (shell_variables s ! i) s else Crash)"

text \<open>\<^verbatim>\<open>global_variables->table\<close>.\<close>

definition global_table :: "('e, ptr) cmd" where
  "global_table s = (if shell_variables s = [] then Crash else Ret (vc_table (last (shell_variables s))) s)"

end
