(* ===== verification/Casemod.thy ===== *)
theory Casemod
  imports Smatch General
begin

text \<open>
  Changing the case of a string, \<^verbatim>\<open>lib/sh/casemod.c\<close>, in the single-byte configuration: behind
  \<^verbatim>\<open>${x^pat}\<close> and its relatives and the case attributes of variables.
\<close>

definition CASE_NOOP :: int where "CASE_NOOP = 0x0000"
definition CASE_LOWER :: int where "CASE_LOWER = 0x0001"
definition CASE_UPPER :: int where "CASE_UPPER = 0x0002"
definition CASE_CAPITALIZE :: int where "CASE_CAPITALIZE = 0x0004"
definition CASE_UNCAP :: int where "CASE_UNCAP = 0x0008"
definition CASE_TOGGLE :: int where "CASE_TOGGLE = 0x0010"
definition CASE_TOGGLEALL :: int where "CASE_TOGGLEALL = 0x0020"
definition CASE_UPFIRST :: int where "CASE_UPFIRST = 0x0040"
definition CASE_LOWFIRST :: int where "CASE_LOWFIRST = 0x0080"
definition CASE_USEWORDS :: int where "CASE_USEWORDS = 0x1000"

lemmas case_defs = CASE_NOOP_def CASE_LOWER_def CASE_UPPER_def CASE_CAPITALIZE_def CASE_UNCAP_def CASE_TOGGLE_def
  CASE_TOGGLEALL_def CASE_UPFIRST_def CASE_LOWFIRST_def CASE_USEWORDS_def

definition TOGGLE :: "char \<Rightarrow> char" where
  "TOGGLE x = (if ISUPPER x then TOLOWER x else TOUPPER x)"

text \<open>The operation on one character, and whether the next one is inside a word.\<close>

definition case_nop :: "int \<Rightarrow> bool \<Rightarrow> bool \<Rightarrow> nat \<Rightarrow> int \<times> bool" where
  "case_nop flags usewords inword start =
     (let inside = (if usewords then inword else 0 < start)
      in if flags = CASE_CAPITALIZE then (if inside then CASE_LOWER else CASE_UPPER, True)
         else if flags = CASE_UNCAP then (if inside then CASE_UPPER else CASE_LOWER, True)
         else if flags = CASE_UPFIRST then (if inside then CASE_NOOP else CASE_UPPER, True)
         else if flags = CASE_LOWFIRST then (if inside then CASE_NOOP else CASE_LOWER, True)
         else if flags = CASE_TOGGLE then (if inword then CASE_NOOP else CASE_TOGGLE, True)
         else (flags, inword))"

definition change_case :: "int \<Rightarrow> char \<Rightarrow> char" where
  "change_case nop c =
     (if nop = CASE_UPPER then TOUPPER c
      else if nop = CASE_LOWER then TOLOWER c
      else if nop = CASE_TOGGLEALL \<or> nop = CASE_TOGGLE then TOGGLE c
      else c)"

text \<open>The loop; \<open>r\<close> is the rest of the string at \<open>start\<close>. It has no result when the pattern match has none.\<close>

fun modcase_loop :: "bool \<Rightarrow> cstring option \<Rightarrow> int \<Rightarrow> bool \<Rightarrow> nat \<Rightarrow> bool \<Rightarrow> cstring \<Rightarrow> cstring option" where
  "modcase_loop ascii pat flags usewords start inword [] = Some []"
| "modcase_loop ascii pat flags usewords start inword (wc # r) =
     (let inword = (if ISALNUM wc then inword else False)
      in case (case pat of None \<Rightarrow> Some True
               | Some p \<Rightarrow> map_option (\<lambda>m. m \<noteq> FNM_NOMATCH) (strmatch ascii (Some p) (Some [wc]) FNM_EXTMATCH)) of
           None \<Rightarrow> None
         | Some False \<Rightarrow>
             map_option (Cons wc) (modcase_loop ascii pat flags usewords (start + 1) True r)
         | Some True \<Rightarrow>
             (let (nop, inword) = case_nop flags usewords inword start
              in map_option (Cons (change_case nop wc))
                   (modcase_loop ascii pat flags usewords (start + 1) inword r)))"

definition sh_modcase :: "bool \<Rightarrow> cstring option \<Rightarrow> cstring option \<Rightarrow> int \<Rightarrow> cstring option" where
  "sh_modcase ascii string pat flags =
     (case string of
        None \<Rightarrow> Some []
      | Some s \<Rightarrow>
          if s = [] then Some []
          else modcase_loop ascii pat (flags AND NOT CASE_USEWORDS) (has_flag flags CASE_USEWORDS) 0 False s)"

section \<open>What the operations do\<close>

text \<open>Whether a character is one to change; \<open>None\<close> if the match has no result.\<close>

definition selected :: "bool \<Rightarrow> cstring option \<Rightarrow> char \<Rightarrow> bool option" where
  "selected ascii pat c =
     (case pat of None \<Rightarrow> Some True
      | Some p \<Rightarrow> map_option (\<lambda>m. m \<noteq> FNM_NOMATCH) (strmatch ascii (Some p) (Some [c]) FNM_EXTMATCH))"

definition change_if :: "bool \<Rightarrow> cstring option \<Rightarrow> int \<Rightarrow> char \<Rightarrow> char" where
  "change_if ascii pat nop c = (if selected ascii pat c = Some True then change_case nop c else c)"

lemma modcase_step:
  assumes "selected ascii pat c \<noteq> None"
  shows "\<exists>w'. modcase_loop ascii pat flags uw i w (c # r) =
    map_option (Cons (change_if ascii pat (fst (case_nop flags uw (if ISALNUM c then w else False) i)) c))
      (modcase_loop ascii pat flags uw (i + 1) w' r)"
proof -
  obtain b where b: "selected ascii pat c = Some b" using assms by blast
  then show ?thesis
    by (cases b) (auto simp: change_if_def selected_def Let_def split: prod.split)
qed

text \<open>The operations that treat all characters alike.\<close>

lemma modcase_uniform:
  assumes "flags \<in> {CASE_UPPER, CASE_LOWER, CASE_TOGGLEALL}" and "\<forall>c \<in> set s. selected ascii pat c \<noteq> None"
  shows "modcase_loop ascii pat flags uw i w s = Some (map (change_if ascii pat flags) s)"
  using assms(2)
proof (induction s arbitrary: i w)
  case (Cons c r)
  have nop: "fst (case_nop flags uw w' i) = flags" for w' using assms(1) by (auto simp: case_nop_def case_defs)
  obtain w' where "modcase_loop ascii pat flags uw i w (c # r) =
      map_option (Cons (change_if ascii pat flags c)) (modcase_loop ascii pat flags uw (i + 1) w' r)"
    using modcase_step [of ascii pat c flags uw i w r] Cons.prems unfolding nop by auto
  with Cons show ?case by simp
qed simp

text \<open>The operations on the first character: what they do to it and to the others.\<close>

fun first_op :: "int \<Rightarrow> (int \<times> int) option" where
  "first_op op = (if op = CASE_CAPITALIZE then Some (CASE_UPPER, CASE_LOWER)
     else if op = CASE_UNCAP then Some (CASE_LOWER, CASE_UPPER)
     else if op = CASE_UPFIRST then Some (CASE_UPPER, CASE_NOOP)
     else if op = CASE_LOWFIRST then Some (CASE_LOWER, CASE_NOOP) else None)"

lemma modcase_rest:
  assumes "first_op flags = Some (f, g)" and "\<forall>c \<in> set s. selected ascii pat c \<noteq> None" and "0 < i"
  shows "modcase_loop ascii pat flags False i w s = Some (map (change_if ascii pat g) s)"
  using assms(2,3)
proof (induction s arbitrary: i w)
  case (Cons c r)
  have nop: "fst (case_nop flags False w' i) = g" for w'
    using assms(1) Cons.prems(2) by (auto simp: case_nop_def case_defs split: if_splits)
  obtain w' where "modcase_loop ascii pat flags False i w (c # r) =
      map_option (Cons (change_if ascii pat g c)) (modcase_loop ascii pat flags False (i + 1) w' r)"
    using modcase_step [of ascii pat c flags False i w r] Cons.prems unfolding nop by auto
  with Cons.IH [of "i + 1" w'] Cons.prems show ?case by simp
qed simp

text \<open>
  C35. Case modification does what the expansions \<^verbatim>\<open>${v^^p}\<close>, \<^verbatim>\<open>${v,,p}\<close>, \<^verbatim>\<open>${v^p}\<close> and \<^verbatim>\<open>${v,p}\<close> and the case attributes promise, and
  always returns when the pattern match does: the uniform operations change every character that the pattern matches
  and no other, the others treat the first character and the rest as they say. The length never changes.
\<close>

theorem sh_modcase_spec:
  assumes "\<forall>c \<in> set s. selected ascii pat c \<noteq> None"
  shows "(op \<in> {CASE_UPPER, CASE_LOWER, CASE_TOGGLEALL} \<longrightarrow>
      sh_modcase ascii (Some s) pat op = Some (map (change_if ascii pat op) s))
    \<and> (first_op op = Some (f, g) \<longrightarrow> sh_modcase ascii (Some s) pat op =
      Some (case s of [] \<Rightarrow> [] | c # r \<Rightarrow> change_if ascii pat f c # map (change_if ascii pat g) r))"
proof (intro conjI impI)
  show "sh_modcase ascii (Some s) pat op = Some (map (change_if ascii pat op) s)"
    if op: "op \<in> {CASE_UPPER, CASE_LOWER, CASE_TOGGLEALL}"
  proof -
    have "op AND NOT CASE_USEWORDS = op" using op by (auto simp: case_defs)
    then show ?thesis using modcase_uniform [OF op assms] by (cases s) (simp_all add: sh_modcase_def del: modcase_loop.simps(2))
  qed
  show "sh_modcase ascii (Some s) pat op =
      Some (case s of [] \<Rightarrow> [] | c # r \<Rightarrow> change_if ascii pat f c # map (change_if ascii pat g) r)"
    if op: "first_op op = Some (f, g)"
  proof (cases s)
    case (Cons c r)
    have fl: "op AND NOT CASE_USEWORDS = op" "\<not> has_flag op CASE_USEWORDS"
      using op by (auto simp: case_defs has_flag_def split: if_splits)
    have nop: "fst (case_nop op False w 0) = f" for w using op by (auto simp: case_nop_def case_defs split: if_splits)
    obtain w' where "modcase_loop ascii pat op False 0 False (c # r) =
        map_option (Cons (change_if ascii pat f c)) (modcase_loop ascii pat op False 1 w' r)"
      using modcase_step [of ascii pat c op False 0 False r] assms Cons unfolding nop by auto
    then show ?thesis
      using modcase_rest [OF op, of r ascii pat 1 w'] assms Cons fl by (simp add: sh_modcase_def del: modcase_loop.simps(2))
  qed (simp add: sh_modcase_def)
qed

lemma sh_modcase_spec_witness:
  "sh_modcase False (Some ''abC'') (Some ''[!b]'') CASE_UPPER = Some ''AbC''
   \<and> sh_modcase False (Some ''heLLo'') None CASE_CAPITALIZE = Some ''Hello''"
proof -
  have s: "\<forall>c \<in> set ''abC''. selected False (Some ''[!b]'') c \<noteq> None" by code_simp
  have "sh_modcase False (Some ''abC'') (Some ''[!b]'') CASE_UPPER = Some (map (change_if False (Some ''[!b]'') CASE_UPPER) ''abC'')"
    using sh_modcase_spec [OF s, of CASE_UPPER] by simp
  moreover have "map (change_if False (Some ''[!b]'') CASE_UPPER) ''abC'' = ''AbC''" by code_simp
  moreover have "sh_modcase False (Some ''heLLo'') None CASE_CAPITALIZE =
      Some (case ''heLLo'' of [] \<Rightarrow> [] | c # r \<Rightarrow> change_if False None CASE_UPPER c # map (change_if False None CASE_LOWER) r)"
    using sh_modcase_spec [of "''heLLo''" False None CASE_CAPITALIZE CASE_UPPER CASE_LOWER] by (simp add: selected_def)
  moreover have "change_if False None CASE_UPPER CHR ''h'' # map (change_if False None CASE_LOWER) ''eLLo'' = ''Hello''" by code_simp
  ultimately show ?thesis by simp
qed

end
