(* ===== verification/Variables.thy ===== *)
theory Variables
  imports Shell_State Casemod
begin

text \<open>
  Shell variables and their scopes, from \<^verbatim>\<open>variables.c\<close>: lookup through the stack of contexts and through
  name references, creation of local variables, assignment, unsetting, temporary environments, and the pushing and
  popping of contexts. Functions that the code reaches through pointers, the arithmetic evaluator, word expansion,
  the printing of functions and the functions on array references are the fields of a record of hooks.
\<close>

record 'e hooks =
  hk_dynamic_value :: "nat \<Rightarrow> ptr \<Rightarrow> ('e, ptr) cmd"
  hk_assign_func :: "nat \<Rightarrow> ptr \<Rightarrow> cstring option \<Rightarrow> int \<Rightarrow> cstring option \<Rightarrow> ('e, ptr) cmd"
  hk_evalexp :: "cstring option \<Rightarrow> ('e, int \<times> bool) cmd"
  hk_special_var :: "cstring \<Rightarrow> ('e, unit) cmd"
  hk_valid_array_reference :: "cstring \<Rightarrow> int \<Rightarrow> ('e, bool) cmd"
  hk_array_variable_name :: "cstring \<Rightarrow> ('e, cstring option) cmd"
  hk_assign_array_element :: "cstring \<Rightarrow> cstring option \<Rightarrow> int \<Rightarrow> ('e, ptr) cmd"
  hk_set_current_options :: "cstring option \<Rightarrow> ('e, unit) cmd"
  hk_save_posix_options :: "('e, unit) cmd"
  hk_expand_assignment :: "cstring \<Rightarrow> ('e, cstring option) cmd"
  hk_skipsubscript :: "cstring \<Rightarrow> nat \<Rightarrow> nat"
  hk_named_function_string :: "nat option \<Rightarrow> cstring"

section \<open>Looking variables up\<close>

definition FV_FORCETEMPENV :: int where "FV_FORCETEMPENV = 0x01"
definition FV_SKIPINVISIBLE :: int where "FV_SKIPINVISIBLE = 0x02"

definition hash_lookup :: "cstring \<Rightarrow> ptr \<Rightarrow> ('e, ptr) cmd" where
  "hash_lookup name hashed_vars =
     (case hashed_vars of
        None \<Rightarrow> ret None
      | Some t \<Rightarrow> bnd (table_at t) (\<lambda>h.
          case hash_search name (Some h) 0 of
            (Some bucket, Some h') \<Rightarrow>
              sq (set_table t h') (sq (modify (\<lambda>s. s\<lparr>last_table_searched := Some t\<rparr>))
                (ret (bc_data (item_at h' bucket))))
          | _ \<Rightarrow> ret None))"

fun lookup_loop :: "cstring \<Rightarrow> VAR_CONTEXT list \<Rightarrow> ('e, ptr) cmd" where
  "lookup_loop name [] = ret None"
| "lookup_loop name (vc # vcs) =
     bnd (hash_lookup name (vc_table vc)) (\<lambda>v. if v \<noteq> None then ret v else lookup_loop name vcs)"

text \<open>\<^verbatim>\<open>var_lookup\<close> from \<^verbatim>\<open>shell_variables\<close>, and from \<^verbatim>\<open>global_variables\<close>, which has no context below it.\<close>

definition var_lookup :: "cstring \<Rightarrow> ('e, ptr) cmd" where
  "var_lookup name = bnd (gets shell_variables) (lookup_loop name)"

definition var_lookup_global :: "cstring \<Rightarrow> ('e, ptr) cmd" where
  "var_lookup_global name = bnd (gets shell_variables) (\<lambda>vcs. lookup_loop name (if vcs = [] then [] else [last vcs]))"

fun visible_loop :: "cstring \<Rightarrow> VAR_CONTEXT list \<Rightarrow> ('e, ptr) cmd" where
  "visible_loop name [] = ret None"
| "visible_loop name (vc # vcs) =
     bnd (hash_lookup name (vc_table vc)) (\<lambda>v.
       if v = None then visible_loop name vcs
       else bnd (var_at v) (\<lambda>var. if invisible_p var then visible_loop name vcs else ret v))"

text \<open>The end of the lookups: a variable with a dynamic value has it computed.\<close>

definition current_value :: "'e hooks \<Rightarrow> ptr \<Rightarrow> ('e, ptr) cmd" where
  "current_value h v =
     (if v = None then ret None
      else bnd (var_at v) (\<lambda>var. case sv_dynamic_value var of Some f \<Rightarrow> hk_dynamic_value h f v | None \<Rightarrow> ret v))"

definition find_variable_internal :: "'e hooks \<Rightarrow> cstring \<Rightarrow> int \<Rightarrow> ('e, ptr) cmd" where
  "find_variable_internal h name flags =
     bnd (gets (\<lambda>s. has_flag flags FV_FORCETEMPENV \<or> (\<not> expanding_redir s \<and> subshell_environment s))) (\<lambda>search_tempenv.
     bnd (gets temporary_env) (\<lambda>tempenv.
     bnd (if search_tempenv then hash_lookup name tempenv else ret None) (\<lambda>var.
     bnd (if var \<noteq> None then ret var
          else if \<not> has_flag flags FV_SKIPINVISIBLE then var_lookup name
          else bnd (gets shell_variables) (visible_loop name)) (\<lambda>var.
     current_value h var))))"

definition find_global_variable_noref :: "'e hooks \<Rightarrow> cstring \<Rightarrow> ('e, ptr) cmd" where
  "find_global_variable_noref h name = bnd (var_lookup_global name) (current_value h)"

text \<open>The flags with which most lookups search.\<close>

definition tempenv_flags :: "('e, int) cmd" where
  "tempenv_flags = gets (\<lambda>s. if \<not> expanding_redir s \<and> (assigning_in_environment s \<or> executing_builtin s)
                             then FV_FORCETEMPENV else 0)"

text \<open>
  The loop of \<^verbatim>\<open>find_variable_nameref\<close>; \<open>k\<close> is the number of levels left, \<^verbatim>\<open>NAMEREF_MAX - level\<close>.
\<close>

fun nameref_loop :: "'e hooks \<Rightarrow> ptr \<Rightarrow> nat \<Rightarrow> ptr \<Rightarrow> ('e, ptr) cmd" where
  "nameref_loop h orig k v =
     (if v = None then ret None
      else bnd (var_at v) (\<lambda>var.
        if \<not> nameref_p var then ret v
        else case k of
          0 \<Rightarrow> ret None
        | Suc k' \<Rightarrow>
            bnd (value_cell var) (\<lambda>newname.
              if newname = None \<or> newname = Some [] then ret None
              else
                bnd tempenv_flags (\<lambda>flags.
                bnd (find_variable_internal h (the newname) flags) (\<lambda>v'.
                  if v' = orig \<or> v' = v then
                    bnd (var_at orig) (\<lambda>o_var.
                    sq (report (M_circular (sv_name o_var)))
                      (bnd (gets variable_context) (\<lambda>c.
                       bnd (if c \<noteq> 0 then bnd (var_at v') (\<lambda>var'. ret (Some var')) else ret None) (\<lambda>var'.
                       case var' of
                         Some w \<Rightarrow> if sv_context w \<noteq> 0 then find_global_variable_noref h (sv_name w) else ret None
                       | None \<Rightarrow> ret None))))
                  else nameref_loop h orig k' v')))))"

declare nameref_loop.simps [simp del]

definition find_variable_nameref :: "'e hooks \<Rightarrow> ptr \<Rightarrow> ('e, ptr) cmd" where
  "find_variable_nameref h v = nameref_loop h v NAMEREF_MAX v"

text \<open>The common end of the lookups by name: a name reference is followed.\<close>

definition follow_nameref :: "'e hooks \<Rightarrow> ptr \<Rightarrow> ('e, ptr) cmd" where
  "follow_nameref h v =
     (if v = None then ret None
      else bnd (var_at v) (\<lambda>var. if nameref_p var then find_variable_nameref h v else ret v))"

definition find_variable_noref :: "'e hooks \<Rightarrow> cstring \<Rightarrow> ('e, ptr) cmd" where
  "find_variable_noref h name = bnd tempenv_flags (find_variable_internal h name)"

text \<open>The loops of the functions that look for the last name reference of a chain; \<open>step\<close> is the lookup.\<close>

fun last_nameref_loop :: "(cstring \<Rightarrow> ('e, ptr) cmd) \<Rightarrow> bool \<Rightarrow> nat \<Rightarrow> ptr \<Rightarrow> ptr \<Rightarrow> ('e, ptr) cmd" where
  "last_nameref_loop step vflags k v nv =
     (if v = None then ret nv
      else bnd (var_at v) (\<lambda>var.
        if \<not> nameref_p var then ret nv
        else case k of
          0 \<Rightarrow> ret None
        | Suc k' \<Rightarrow>
            bnd (value_cell var) (\<lambda>newname.
              if newname = None \<or> newname = Some [] then ret (if vflags \<and> invisible_p var then v else None)
              else bnd (step (the newname)) (\<lambda>v'. last_nameref_loop step vflags k' v' v))))"

declare last_nameref_loop.simps [simp del]

definition find_variable_last_nameref :: "'e hooks \<Rightarrow> cstring \<Rightarrow> bool \<Rightarrow> ('e, ptr) cmd" where
  "find_variable_last_nameref h name vflags =
     bnd (find_variable_noref h name) (\<lambda>v.
       last_nameref_loop (\<lambda>newname. bnd tempenv_flags (find_variable_internal h newname)) vflags NAMEREF_MAX v v)"

definition find_global_variable_last_nameref :: "'e hooks \<Rightarrow> cstring \<Rightarrow> bool \<Rightarrow> ('e, ptr) cmd" where
  "find_global_variable_last_nameref h name vflags =
     bnd (find_global_variable_noref h name) (\<lambda>v.
       last_nameref_loop (find_global_variable_noref h) vflags NAMEREF_MAX v v)"

fun nameref_at_loop :: "ptr \<Rightarrow> nat \<Rightarrow> ptr \<Rightarrow> ('e, ptr) cmd" where
  "nameref_at_loop table k nv =
     (if nv = None then ret None
      else bnd (var_at nv) (\<lambda>var.
        if \<not> nameref_p var then ret nv
        else case k of
          0 \<Rightarrow> ret nameref_maxloop_value
        | Suc k' \<Rightarrow>
            bnd (value_cell var) (\<lambda>newname.
              if newname = None \<or> newname = Some [] then ret None
              else bnd (hash_lookup (the newname) table) (\<lambda>nv2.
                if nv2 = None then ret nv else nameref_at_loop table k' nv2))))"

declare nameref_at_loop.simps [simp del]

text \<open>Here the level starts at one.\<close>

definition find_nameref_at_context :: "ptr \<Rightarrow> VAR_CONTEXT \<Rightarrow> ('e, ptr) cmd" where
  "find_nameref_at_context v vc = nameref_at_loop (vc_table vc) (NAMEREF_MAX - 1) v"

text \<open>
  The contexts are walked with their positions; \<open>nvcp\<close> is the position \<^verbatim>\<open>*nvcp\<close>, which the callers
  set before the call.
\<close>

fun nameref_context_loop :: "(nat \<times> VAR_CONTEXT) list \<Rightarrow> ptr \<Rightarrow> nat \<Rightarrow> ('e, ptr \<times> nat) cmd" where
  "nameref_context_loop [] nv nvcp = bnd (var_at nv) (\<lambda>var. ret (if nameref_p var then None else nv, nvcp))"
| "nameref_context_loop ((i, vc) # vcs) nv nvcp =
     bnd (find_nameref_at_context nv vc) (\<lambda>nv2.
       if nv2 = nameref_maxloop_value then ret (nv2, nvcp)
       else if nv2 = None then nameref_context_loop vcs nv nvcp
       else bnd (var_at nv2) (\<lambda>var.
         if \<not> nameref_p var then ret (nv2, i) else nameref_context_loop vcs nv2 i))"

definition find_variable_nameref_context :: "ptr \<Rightarrow> nat \<Rightarrow> nat \<Rightarrow> ('e, ptr \<times> nat) cmd" where
  "find_variable_nameref_context v vc nvcp =
     bnd (gets shell_variables) (\<lambda>vcs. nameref_context_loop (drop vc (enumerate 0 vcs)) v nvcp)"

fun last_nameref_context_loop :: "(nat \<times> VAR_CONTEXT) list \<Rightarrow> ptr \<Rightarrow> nat \<Rightarrow> ('e, ptr \<times> nat) cmd" where
  "last_nameref_context_loop [] nv nvcp = bnd (var_at nv) (\<lambda>var. ret (if nameref_p var then nv else None, nvcp))"
| "last_nameref_context_loop ((i, vc) # vcs) nv nvcp =
     bnd (find_nameref_at_context nv vc) (\<lambda>nv2.
       if nv2 = nameref_maxloop_value then ret (nv2, nvcp)
       else if nv2 = None then last_nameref_context_loop vcs nv nvcp
       else last_nameref_context_loop vcs nv2 i)"

definition find_variable_last_nameref_context :: "ptr \<Rightarrow> nat \<Rightarrow> nat \<Rightarrow> ('e, ptr \<times> nat) cmd" where
  "find_variable_last_nameref_context v vc nvcp =
     bnd (gets shell_variables) (\<lambda>vcs. last_nameref_context_loop (drop vc (enumerate 0 vcs)) v nvcp)"

definition find_variable_tempenv :: "'e hooks \<Rightarrow> cstring \<Rightarrow> ('e, ptr) cmd" where
  "find_variable_tempenv h name = bnd (find_variable_internal h name FV_FORCETEMPENV) (follow_nameref h)"

definition find_variable_notempenv :: "'e hooks \<Rightarrow> cstring \<Rightarrow> ('e, ptr) cmd" where
  "find_variable_notempenv h name = bnd (find_variable_internal h name 0) (follow_nameref h)"

definition find_global_variable :: "'e hooks \<Rightarrow> cstring \<Rightarrow> ('e, ptr) cmd" where
  "find_global_variable h name =
     bnd (var_lookup_global name) (\<lambda>var. bnd (follow_nameref h var) (current_value h))"

definition find_shell_variable :: "'e hooks \<Rightarrow> cstring \<Rightarrow> ('e, ptr) cmd" where
  "find_shell_variable h name = bnd (var_lookup name) (\<lambda>var. bnd (follow_nameref h var) (current_value h))"

definition find_variable :: "'e hooks \<Rightarrow> cstring \<Rightarrow> ('e, ptr) cmd" where
  "find_variable h name =
     sq (modify (\<lambda>s. s\<lparr>last_table_searched := None\<rparr>))
       (bnd tempenv_flags (\<lambda>flags. bnd (find_variable_internal h name flags) (follow_nameref h)))"

definition find_variable_no_invisible :: "'e hooks \<Rightarrow> cstring \<Rightarrow> ('e, ptr) cmd" where
  "find_variable_no_invisible h name =
     sq (modify (\<lambda>s. s\<lparr>last_table_searched := None\<rparr>))
       (bnd tempenv_flags (\<lambda>flags.
        bnd (find_variable_internal h name (FV_SKIPINVISIBLE OR flags)) (follow_nameref h)))"

definition find_variable_for_assignment :: "'e hooks \<Rightarrow> cstring \<Rightarrow> ('e, ptr) cmd" where
  "find_variable_for_assignment h name =
     sq (modify (\<lambda>s. s\<lparr>last_table_searched := None\<rparr>))
       (bnd tempenv_flags (\<lambda>flags. bnd (find_variable_internal h name flags) (follow_nameref h)))"

definition find_function :: "cstring \<Rightarrow> ('e, ptr) cmd" where
  "find_function name = bnd (gets shell_functions) (hash_lookup name)"

definition get_variable_value :: "ptr \<Rightarrow> ('e, cstring option) cmd" where
  "get_variable_value p =
     (if p = None then ret None
      else bnd (var_at p) (\<lambda>var.
        if array_p var then
          bnd (array_cell var) (\<lambda>a. let (v, a') = array_reference a 0 in sq (var_setarray p a') (ret v))
        else if assoc_p var then
          bnd (assoc_cell var) (\<lambda>a. let (v, a') = assoc_reference a ''0'' in sq (var_setassoc p a') (ret v))
        else value_cell var))"

definition get_string_value :: "'e hooks \<Rightarrow> cstring \<Rightarrow> ('e, cstring option) cmd" where
  "get_string_value h var_name = bnd (find_variable h var_name) get_variable_value"

section \<open>Names that references may hold\<close>

definition ASS_APPEND :: int where "ASS_APPEND = 0x0001"
definition ASS_MKLOCAL :: int where "ASS_MKLOCAL = 0x0002"
definition ASS_MKGLOBAL :: int where "ASS_MKGLOBAL = 0x0008"
definition ASS_NAMEREF :: int where "ASS_NAMEREF = 0x0010"
definition ASS_FORCE :: int where "ASS_FORCE = 0x0020"
definition ASS_CHKLOCAL :: int where "ASS_CHKLOCAL = 0x0040"
definition ASS_NOEVAL :: int where "ASS_NOEVAL = 0x0100"
definition ASS_NOLONGJMP :: int where "ASS_NOLONGJMP = 0x0200"

lemmas ass_defs = ASS_APPEND_def ASS_MKLOCAL_def ASS_MKGLOBAL_def ASS_NAMEREF_def ASS_FORCE_def ASS_CHKLOCAL_def
  ASS_NOEVAL_def ASS_NOLONGJMP_def

definition valid_nameref_value :: "'e hooks \<Rightarrow> cstring option \<Rightarrow> int \<Rightarrow> ('e, bool) cmd" where
  "valid_nameref_value h name flags =
     (if name = None \<or> name = Some [] then ret False
      else if legal_identifier name then ret True
      else if flags \<noteq> 2 then hk_valid_array_reference h (the name) 0
      else ret False)"

text \<open>\<^verbatim>\<open>STREQ\<close> reads both strings.\<close>

definition check_selfref :: "'e hooks \<Rightarrow> cstring \<Rightarrow> cstring option \<Rightarrow> ('e, bool) cmd" where
  "check_selfref h name val =
     (case val of
        None \<Rightarrow> crash
      | Some v \<Rightarrow>
          if name = v then ret True
          else bnd (hk_valid_array_reference h v 0) (\<lambda>b.
            if b then bnd (hk_array_variable_name h v) (\<lambda>t. ret (t = Some name)) else ret False))"

definition find_variable_nameref_for_create :: "'e hooks \<Rightarrow> cstring \<Rightarrow> int \<Rightarrow> ('e, ptr) cmd" where
  "find_variable_nameref_for_create h name flags =
     bnd (find_variable_last_nameref h name True) (\<lambda>var.
       if var = None then ret None
       else
         sq (bnd (var_at var) (\<lambda>v.
               only_if (has_flag flags 1 \<and> nameref_p v \<and> invisible_p v)
                 (sq (report (M_removing_nameref name)) (VUNSETATTR var att_nameref))))
           (bnd (var_at var) (\<lambda>v.
              if nameref_p v then
                bnd (value_cell v) (\<lambda>x.
                  if \<not> legal_identifier x then sq (report (M_invalidid x)) (ret INVALID_NAMEREF_VALUE)
                  else ret var)
              else ret var)))"

definition find_variable_nameref_for_assignment :: "'e hooks \<Rightarrow> cstring \<Rightarrow> ('e, ptr) cmd" where
  "find_variable_nameref_for_assignment h name =
     bnd (find_variable_last_nameref h name True) (\<lambda>var.
       if var = None then ret None
       else
         sq (bnd (var_at var) (\<lambda>v.
               only_if (nameref_p v \<and> invisible_p v)
                 (sq (report (M_removing_nameref name)) (VUNSETATTR var att_nameref))))
           (bnd (var_at var) (\<lambda>v.
              if nameref_p v then
                bnd (value_cell v) (\<lambda>x.
                bnd (valid_nameref_value h x 1) (\<lambda>ok.
                  if \<not> ok then sq (report (M_invalidid x)) (ret INVALID_NAMEREF_VALUE) else ret var))
              else ret var)))"

definition nameref_transform_name :: "'e hooks \<Rightarrow> cstring \<Rightarrow> int \<Rightarrow> ('e, cstring option) cmd" where
  "nameref_transform_name h name flags =
     bnd (if has_flag flags ASS_MKLOCAL then
            bnd (find_variable_last_nameref h name True) (\<lambda>v.
              if v = None then ret None
              else bnd (var_at v) (\<lambda>var. bnd (gets variable_context) (\<lambda>c.
                ret (if sv_context var \<noteq> c then None else v))))
          else if has_flag flags ASS_MKGLOBAL then
            (if has_flag flags ASS_CHKLOCAL then find_variable_last_nameref h name True
             else find_global_variable_last_nameref h name True)
          else ret None) (\<lambda>v.
     if v = None then ret (Some name)
     else bnd (var_at v) (\<lambda>var.
       if nameref_p var then
         bnd (value_cell var) (\<lambda>x. bnd (valid_nameref_value h x 1) (\<lambda>ok. ret (if ok then x else Some name)))
       else ret (Some name)))"

section \<open>Creating variables\<close>

definition VARIABLES_HASH_BUCKETS :: int where "VARIABLES_HASH_BUCKETS = 1024"
definition FUNCTIONS_HASH_BUCKETS :: int where "FUNCTIONS_HASH_BUCKETS = 512"
definition TEMPENV_HASH_BUCKETS :: int where "TEMPENV_HASH_BUCKETS = 4"
definition ASSOC_HASH_BUCKETS :: int where "ASSOC_HASH_BUCKETS = 1024"
definition MKLOC_ASSOCOK :: int where "MKLOC_ASSOCOK = 0x01"
definition MKLOC_ARRAYOK :: int where "MKLOC_ARRAYOK = 0x02"
definition MKLOC_INHERIT :: int where "MKLOC_INHERIT = 0x04"

definition create_variable_tables :: "('e, unit) cmd" where
  "create_variable_tables =
     sq (bnd (gets shell_variables) (\<lambda>vcs.
           only_if (vcs = []) (bnd (new_table VARIABLES_HASH_BUCKETS) (\<lambda>t.
             modify (\<lambda>s. s\<lparr>shell_variables := [\<lparr>vc_name = None, vc_scope = 0, vc_flags = 0, vc_table = t\<rparr>]\<rparr>)))))
       (bnd (gets shell_functions) (\<lambda>f.
           only_if (f = None) (bnd (new_table FUNCTIONS_HASH_BUCKETS) (\<lambda>t. modify (\<lambda>s. s\<lparr>shell_functions := t\<rparr>)))))"

text \<open>The test that the functions make before they use the tables.\<close>

definition need_tables :: "('e, unit) cmd" where
  "need_tables = bnd (gets shell_variables) (\<lambda>vcs. only_if (vcs = []) create_variable_tables)"

definition new_shell_variable :: "cstring \<Rightarrow> ('e, ptr) cmd" where
  "new_shell_variable name = new_var (blank_var\<lparr>sv_name := name\<rparr>)"

definition make_new_variable :: "cstring \<Rightarrow> ptr \<Rightarrow> ('e, ptr) cmd" where
  "make_new_variable name table =
     bnd (new_shell_variable name) (\<lambda>entry.
     sq need_tables (sq (insert_var name table HASH_NOSRCH entry) (ret entry)))"

definition var_sametype :: "SHELL_VAR option \<Rightarrow> SHELL_VAR option \<Rightarrow> bool" where
  "var_sametype v1 v2 =
     (case (v1, v2) of
        (Some a, Some b) \<Rightarrow>
          if assoc_p a \<and> assoc_p b then True
          else if array_p a \<and> array_p b then True
          else if array_p a \<or> array_p b then False
          else if assoc_p a \<or> assoc_p b then False
          else True
      | _ \<Rightarrow> False)"

definition validate_inherited_value :: "SHELL_VAR \<Rightarrow> int \<Rightarrow> bool" where
  "validate_inherited_value var type =
     (if type = att_array \<and> assoc_p var then False
      else if type = att_assoc \<and> array_p var then False
      else True)"

text \<open>The function context of the current scope.\<close>

fun func_context :: "int \<Rightarrow> VAR_CONTEXT list \<Rightarrow> nat option" where
  "func_context c [] = None"
| "func_context c (vc # vcs) =
     (if vc_isfuncenv vc \<and> vc_scope vc = c then Some 0 else map_option Suc (func_context c vcs))"

definition ifsname :: "cstring \<Rightarrow> bool" where
  "ifsname s \<longleftrightarrow> s = ''IFS''"

definition setifs_var :: "ptr \<Rightarrow> ('e, unit) cmd" where
  "setifs_var v =
     (if v = None then modify (\<lambda>s. s\<lparr>sh_ifs := setifs None\<rparr>)
      else bnd (var_at v) (\<lambda>var. bnd (value_cell var) (\<lambda>x. modify (\<lambda>s. s\<lparr>sh_ifs := setifs (Some x)\<rparr>))))"

text \<open>The code after the label \<^verbatim>\<open>set_local_var_flags\<close>.\<close>

definition set_local_var_flags :: "cstring \<Rightarrow> nat \<Rightarrow> bool \<Rightarrow> ptr \<Rightarrow> ('e, ptr) cmd" where
  "set_local_var_flags name vc was_tmpvar v =
     sq (set_context_at vc (\<lambda>c. c\<lparr>vc_flags := vc_flags c OR VC_HASLOCAL\<rparr>))
    (bnd (gets variable_context) (\<lambda>c.
     sq (set_var v (\<lambda>x. x\<lparr>sv_context := c\<rparr>))
    (sq (VSETATTR v att_local)
    (sq (only_if (ifsname name) (setifs_var v))
    (bnd (var_at v) (\<lambda>x.
     sq (only_if (\<not> was_tmpvar \<and> sv_value x = None) (VSETATTR v att_invisible))
       (ret v)))))))"

text \<open>What a new local variable takes over from the variable it hides.\<close>

definition inherit_from :: "ptr \<Rightarrow> bool \<Rightarrow> bool \<Rightarrow> ptr \<Rightarrow> ('e, unit) cmd" where
  "inherit_from old was_tmpvar inherit new =
     bnd (var_at old) (\<lambda>old_var.
     sq (if was_tmpvar then
           bnd (value_cell old_var) (\<lambda>x. case x of None \<Rightarrow> crash | Some v \<Rightarrow> var_setvalue new (Some v))
         else if inherit then
           (if assoc_p old_var then bnd (assoc_cell old_var) (\<lambda>a. var_setassoc new (hash_copy a None))
            else if array_p old_var then bnd (array_cell old_var) (\<lambda>a. var_setarray new (array_copy a))
            else bnd (value_cell old_var) (var_setvalue new))
         else ret ())
       (if inherit then
          set_var new (\<lambda>v. v\<lparr>sv_attributes := sv_attributes old_var AND NOT att_nameref,
                            sv_dynamic_value := sv_dynamic_value old_var, sv_assign_func := sv_assign_func old_var\<rparr>)
        else set_var new (\<lambda>v. v\<lparr>sv_attributes := (if exported_p old_var then att_exported else 0)\<rparr>)))"

text \<open>\<^verbatim>\<open>vc->table\<close>, made if the context has none yet.\<close>

definition context_table :: "nat \<Rightarrow> int \<Rightarrow> ('e, ptr) cmd" where
  "context_table vc buckets =
     bnd (context_at vc) (\<lambda>c.
       if vc_table c \<noteq> None then ret (vc_table c)
       else bnd (new_table buckets) (\<lambda>t. sq (set_context_at vc (\<lambda>c. c\<lparr>vc_table := t\<rparr>)) (ret t)))"

text \<open>\<^verbatim>\<open>make_local_variable\<close> from the point where the variable that is hidden, \<open>old_var\<close>, is known.\<close>

definition make_local_from :: "cstring \<Rightarrow> int \<Rightarrow> ptr \<Rightarrow> ('e, ptr) cmd" where
  "make_local_from name flags old_var =
     bnd (if old_var = None then ret None else bnd (var_at old_var) (\<lambda>v. ret (Some v))) (\<lambda>ov.
     bnd (gets variable_context) (\<lambda>c.
     bnd (gets (\<lambda>s. last_table_searched s \<noteq> temporary_env s)) (\<lambda>not_tempenv.
     bnd (gets (\<lambda>s. func_context c (shell_variables s))) (\<lambda>vc.
     let was_tmpvar = (case ov of None \<Rightarrow> False | Some v \<Rightarrow> tempvar_p v) in
     if was_tmpvar \<and> sv_context (the ov) = c \<and> not_tempenv then
       sq (VUNSETATTR old_var att_invisible)
         (case vc of None \<Rightarrow> crash | Some i \<Rightarrow> set_local_var_flags name i was_tmpvar old_var)
     else
       (case vc of
          None \<Rightarrow> sq (report M_no_function_context) (ret None)
        | Some i \<Rightarrow>
            bnd (context_table i TEMPENV_HASH_BUCKETS) (\<lambda>table.
              case ov of
                None \<Rightarrow> bnd (make_new_variable name table) (set_local_var_flags name i was_tmpvar)
              | Some v \<Rightarrow>
                  if noassign_p v \<or> (readonly_p v \<and> sv_context v = 0) then
                    sq (if readonly_p v then report (M_readonly name) else report (M_noassign name)) (ret None)
                  else
                    bnd (make_new_variable name table) (\<lambda>new_var.
                    bnd (gets localvar_inherit) (\<lambda>li.
                    sq (inherit_from old_var was_tmpvar (li \<or> has_flag flags MKLOC_INHERIT) new_var)
                      (set_local_var_flags name i was_tmpvar new_var)))))))))"

definition make_local_variable :: "'e hooks \<Rightarrow> cstring \<Rightarrow> int \<Rightarrow> ('e, ptr) cmd" where
  "make_local_variable h name flags =
     bnd (find_variable_noref h name) (\<lambda>ref.
     bnd (if ref = None then ret None
          else bnd (var_at ref) (\<lambda>v. ret (if nameref_p v then Some v else None))) (\<lambda>rv.
     bnd (find_variable h name) (\<lambda>old_var.
     bnd (if old_var = None then ret None else bnd (var_at old_var) (\<lambda>v. ret (Some v))) (\<lambda>ov.
     bnd (gets variable_context) (\<lambda>c.
       case rv of
         None \<Rightarrow>
           (case ov of
              Some v \<Rightarrow> if local_p v \<and> sv_context v = c then ret old_var else make_local_from name flags old_var
            | None \<Rightarrow> make_local_from name flags None)
       | Some _ \<Rightarrow>
           bnd (var_at ref) (\<lambda>v. if local_p v \<and> sv_context v = c then ret ref else make_local_from name flags ref))))))"

section \<open>Arrays\<close>

definition dispose_variable :: "ptr \<Rightarrow> ('e, unit) cmd" where
  "dispose_variable p = (if p = None then ret () else bnd (var_at p) (\<lambda>var. only_if (exported_p var) need_array))"

definition convert_var_to_array :: "ptr \<Rightarrow> ('e, ptr) cmd" where
  "convert_var_to_array p =
     bnd (var_at p) (\<lambda>var.
     bnd (value_cell var) (\<lambda>oldval.
     let arr = (case oldval of None \<Rightarrow> Some array_create | Some _ \<Rightarrow> snd (array_insert (Some array_create) 0 oldval)) in
     sq (var_setarray p arr)
    (sq (set_var p (\<lambda>v. v\<lparr>sv_dynamic_value := None, sv_assign_func := None\<rparr>))
    (sq (INVALIDATE_EXPORTSTR p)
    (sq (only_if (exported_p var) (modify (\<lambda>s. s\<lparr>array_needs_making := wrap32 (array_needs_making s + 1)\<rparr>)))
    (sq (VSETATTR p att_array)
    (sq (only_if (oldval \<noteq> None) (VUNSETATTR p att_invisible))
    (sq (VUNSETATTR p att_assoc)
    (sq (VUNSETATTR p att_nameref) (ret p))))))))))"

definition convert_var_to_assoc :: "ptr \<Rightarrow> ('e, ptr) cmd" where
  "convert_var_to_assoc p =
     bnd (var_at p) (\<lambda>var.
     bnd (value_cell var) (\<lambda>oldval.
     let hash = (case oldval of None \<Rightarrow> Some (hash_create 0) | Some _ \<Rightarrow> snd (assoc_insert (Some (hash_create 0)) ''0'' oldval)) in
     sq (var_setassoc p hash)
    (sq (set_var p (\<lambda>v. v\<lparr>sv_dynamic_value := None, sv_assign_func := None\<rparr>))
    (sq (INVALIDATE_EXPORTSTR p)
    (sq (only_if (exported_p var) (modify (\<lambda>s. s\<lparr>array_needs_making := wrap32 (array_needs_making s + 1)\<rparr>)))
    (sq (VSETATTR p att_assoc)
    (sq (only_if (oldval \<noteq> None) (VUNSETATTR p att_invisible))
    (sq (VUNSETATTR p att_array)
    (sq (VUNSETATTR p att_nameref) (ret p))))))))))"

definition make_new_array_variable :: "cstring \<Rightarrow> ('e, ptr) cmd" where
  "make_new_array_variable name =
     bnd global_table (\<lambda>t. bnd (make_new_variable name t) (\<lambda>entry.
     sq (var_setarray entry (Some array_create)) (sq (VSETATTR entry att_array) (ret entry))))"

definition make_new_assoc_variable :: "cstring \<Rightarrow> ('e, ptr) cmd" where
  "make_new_assoc_variable name =
     bnd global_table (\<lambda>t. bnd (make_new_variable name t) (\<lambda>entry.
     sq (var_setassoc entry (Some (hash_create ASSOC_HASH_BUCKETS))) (sq (VSETATTR entry att_assoc) (ret entry))))"

definition make_local_array_variable :: "'e hooks \<Rightarrow> cstring \<Rightarrow> int \<Rightarrow> ('e, ptr) cmd" where
  "make_local_array_variable h name flags =
     bnd (make_local_variable h name (flags AND MKLOC_INHERIT)) (\<lambda>var.
       if var = None then ret var
       else bnd (var_at var) (\<lambda>v.
         if array_p v \<or> (has_flag flags MKLOC_ASSOCOK \<and> assoc_p v) then ret var
         else bnd (gets localvar_inherit) (\<lambda>li.
           bnd (if li \<and> assoc_p v then
                  sq (report (M_incompatible name)) (sq (VUNSETATTR var att_assoc)
                    (sq (var_setarray var (Some array_create)) (ret var)))
                else if li then convert_var_to_array var
                else sq (var_setarray var (Some array_create)) (ret var)) (\<lambda>var.
           sq (VSETATTR var att_array) (ret var)))))"

definition make_local_assoc_variable :: "'e hooks \<Rightarrow> cstring \<Rightarrow> int \<Rightarrow> ('e, ptr) cmd" where
  "make_local_assoc_variable h name flags =
     bnd (make_local_variable h name (flags AND MKLOC_INHERIT)) (\<lambda>var.
       if var = None then ret var
       else bnd (var_at var) (\<lambda>v.
         if assoc_p v \<or> (has_flag flags MKLOC_ARRAYOK \<and> array_p v) then ret var
         else bnd (gets localvar_inherit) (\<lambda>li.
           bnd (if li \<and> array_p v then
                  sq (report (M_incompatible name)) (sq (VUNSETATTR var att_array)
                    (sq (var_setassoc var (Some (hash_create ASSOC_HASH_BUCKETS))) (ret var)))
                else if li then convert_var_to_assoc var
                else sq (var_setassoc var (Some (hash_create ASSOC_HASH_BUCKETS))) (ret var)) (\<lambda>var.
           sq (VSETATTR var att_assoc) (ret var)))))"

section \<open>Assigning values\<close>

text \<open>The code at the label \<^verbatim>\<open>make_value\<close>, and the string that is built in both of its uses.\<close>

definition plain_value :: "ptr \<Rightarrow> cstring option \<Rightarrow> int \<Rightarrow> ('e, cstring) cmd" where
  "plain_value var val flags =
     (if has_flag flags ASS_APPEND then
        bnd (get_variable_value var) (\<lambda>oval.
          ret ((case oval of None \<Rightarrow> [] | Some v \<Rightarrow> v) @ (case val of None \<Rightarrow> [] | Some v \<Rightarrow> v)))
      else case val of None \<Rightarrow> crash | Some v \<Rightarrow> ret v)"

definition expression_error :: "ptr \<Rightarrow> cstring option \<Rightarrow> int \<Rightarrow> ('e, cstring option) cmd" where
  "expression_error var val flags =
     (if has_flag flags ASS_NOLONGJMP then bnd (plain_value var val flags) (\<lambda>v. ret (Some v)) else discard)"

definition make_variable_value :: "'e hooks \<Rightarrow> ptr \<Rightarrow> cstring option \<Rightarrow> int \<Rightarrow> ('e, cstring option) cmd" where
  "make_variable_value h var val flags =
     bnd (var_at var) (\<lambda>v.
       if \<not> has_flag flags ASS_NOEVAL \<and> integer_p v then
         bnd (if has_flag flags ASS_APPEND then bnd (value_cell v) (hk_evalexp h) else ret (0, True)) (\<lambda>(lval, expok).
           if \<not> expok then expression_error var val flags
           else bnd (hk_evalexp h val) (\<lambda>(rval, expok).
             if \<not> expok then expression_error var val flags
             else ret (Some (itos (if has_flag flags ASS_APPEND then wrap64 (rval + lval) else rval)))))
       else if \<not> has_flag flags ASS_NOEVAL \<and> (capcase_p v \<or> uppercase_p v \<or> lowercase_p v) then
         bnd (plain_value var val flags) (\<lambda>retval.
           let op = (if capcase_p v then CASE_CAPITALIZE else if uppercase_p v then CASE_UPPER else CASE_LOWER) in
           case sh_modcase False (Some retval) None op of None \<Rightarrow> crash | Some x \<Rightarrow> ret (Some x))
       else if val \<noteq> None then bnd (plain_value var val flags) (\<lambda>x. ret (Some x))
       else ret None)"

text \<open>The dummy variable that stands for the array element an assignment appends to.\<close>

definition make_array_variable_value ::
  "'e hooks \<Rightarrow> ptr \<Rightarrow> int \<Rightarrow> cstring \<Rightarrow> cstring option \<Rightarrow> int \<Rightarrow> ('e, cstring option) cmd" where
  "make_array_variable_value h entry ind key val flags =
     (if has_flag flags ASS_APPEND then
        bnd (var_at entry) (\<lambda>v.
        bnd (if assoc_p v then
               bnd (assoc_cell v) (\<lambda>a. let (x, a') = assoc_reference a key in sq (var_setassoc entry a') (ret x))
             else
               bnd (array_cell v) (\<lambda>a. let (x, a') = array_reference a ind in sq (var_setarray entry a') (ret x))) (\<lambda>newval.
        bnd (new_var (blank_var\<lparr>sv_name := sv_name v,
               sv_value := Some (C_str (case newval of None \<Rightarrow> [] | Some x \<Rightarrow> x)),
               sv_attributes := sv_attributes v AND NOT (att_array OR att_assoc OR att_exported)\<rparr>)) (\<lambda>dentry.
        bnd (make_variable_value h dentry val flags) (\<lambda>newval.
        sq (dispose_variable dentry) (ret newval)))))
      else make_variable_value h entry val flags)"

definition can_optimize_assignment :: "SHELL_VAR \<Rightarrow> int \<Rightarrow> bool" where
  "can_optimize_assignment entry aflags \<longleftrightarrow>
     (if \<not> has_flag aflags ASS_APPEND then False
      else if array_p entry \<or> assoc_p entry then False
      else if integer_p entry \<or> uppercase_p entry \<or> lowercase_p entry \<or> capcase_p entry then False
      else if readonly_p entry \<or> noassign_p entry then False
      else True)"

definition optimized_assignment :: "ptr \<Rightarrow> cstring option \<Rightarrow> ('e, unit) cmd" where
  "optimized_assignment entry val =
     bnd (var_at entry) (\<lambda>var. bnd (value_cell var) (\<lambda>v.
       case val of
         None \<Rightarrow> crash
       | Some x \<Rightarrow> var_setvalue entry (Some ((case v of None \<Rightarrow> [] | Some y \<Rightarrow> y) @ x))))"

text \<open>The last lines of an assignment: the variable may become exported.\<close>

definition mark_assigned :: "ptr \<Rightarrow> ('e, ptr) cmd" where
  "mark_assigned entry =
     bnd (gets mark_modified_vars) (\<lambda>m.
     sq (only_if m (VSETATTR entry att_exported))
    (bnd (var_at entry) (\<lambda>v. sq (only_if (exported_p v) need_array) (ret entry))))"

text \<open>The code at the label \<^verbatim>\<open>assign_value\<close>.\<close>

definition assign_value :: "'e hooks \<Rightarrow> ptr \<Rightarrow> cstring option \<Rightarrow> int \<Rightarrow> ('e, ptr) cmd" where
  "assign_value h entry val aflags =
     bnd (var_at entry) (\<lambda>v.
       if (readonly_p v \<and> \<not> has_flag aflags ASS_FORCE) \<or> noassign_p v then
         sq (only_if (readonly_p v) (report (M_readonly (sv_name v)))) (ret entry)
       else
         sq (VUNSETATTR entry att_invisible)
           (if can_optimize_assignment v aflags then
              sq (INVALIDATE_EXPORTSTR entry) (sq (optimized_assignment entry val) (mark_assigned entry))
            else
              bnd (if assoc_p v \<or> array_p v then make_array_variable_value h entry 0 ''0'' val aflags
                   else make_variable_value h entry val aflags) (\<lambda>newval.
              sq (INVALIDATE_EXPORTSTR entry)
             (bnd (var_at entry) (\<lambda>v.
              sq (if assoc_p v then bnd (assoc_cell v) (\<lambda>a. var_setassoc entry (snd (assoc_insert a ''0'' newval)))
                  else if array_p v then bnd (array_cell v) (\<lambda>a. var_setarray entry (snd (array_insert a 0 newval)))
                  else var_setvalue entry newval)
                (mark_assigned entry))))))"

text \<open>The branch for a variable with an assignment function.\<close>

definition assign_by_func :: "'e hooks \<Rightarrow> nat \<Rightarrow> ptr \<Rightarrow> cstring option \<Rightarrow> int \<Rightarrow> ('e, ptr) cmd" where
  "assign_by_func h f entry val aflags =
     bnd (var_at entry) (\<lambda>v.
       if (readonly_p v \<and> \<not> has_flag aflags ASS_FORCE) \<or> noassign_p v then
         sq (only_if (readonly_p v) (report (M_readonly (sv_name v)))) (ret entry)
       else
         sq (INVALIDATE_EXPORTSTR entry)
        (bnd (if has_flag aflags ASS_APPEND then make_variable_value h entry val aflags else ret val) (\<lambda>newval.
         bnd (var_at entry) (\<lambda>v.
           if assoc_p v then hk_assign_func h f entry newval (- 1) (Some ''0'')
           else if array_p v then hk_assign_func h f entry newval 0 None
           else hk_assign_func h f entry newval (- 1) None))))"

text \<open>Assigning through a reference to an array element, \<open>newval\<close>.\<close>

definition assign_referenced_element :: "'e hooks \<Rightarrow> cstring \<Rightarrow> cstring option \<Rightarrow> int \<Rightarrow> ('e, ptr) cmd" where
  "assign_referenced_element h newval val aflags =
     bnd (hk_array_variable_name h newval) (\<lambda>tname.
     sq (case tname of
           None \<Rightarrow> ret ()
         | Some n \<Rightarrow> bnd (find_variable_noref h n) (\<lambda>tentry.
             if tentry = None then ret ()
             else bnd (var_at tentry) (\<lambda>t.
               only_if (nameref_p t)
                 (sq (report (M_removing_nameref (sv_name t)))
                 (sq (var_setvalue tentry None) (VUNSETATTR tentry att_nameref))))))
    (bnd (hk_assign_array_element h newval val (aflags OR ASS_NAMEREF)) (\<lambda>entry.
       if entry = None then ret entry else mark_assigned entry)))"

text \<open>A new variable with its first value.\<close>

definition bind_new_variable :: "'e hooks \<Rightarrow> cstring \<Rightarrow> cstring option \<Rightarrow> ptr \<Rightarrow> int \<Rightarrow> ('e, ptr) cmd" where
  "bind_new_variable h name val table aflags =
     bnd (make_new_variable name table) (\<lambda>entry.
     bnd (make_variable_value h entry val aflags) (\<lambda>x.
     sq (var_setvalue entry x) (mark_assigned entry)))"

text \<open>
  The variable that \<^verbatim>\<open>bind_variable_internal\<close> assigns to, and whether it goes on: a reference in the table
  of global variables is followed.
\<close>

definition binding_entry :: "'e hooks \<Rightarrow> cstring \<Rightarrow> ptr \<Rightarrow> int \<Rightarrow> ('e, ptr \<times> bool) cmd" where
  "binding_entry h name table hflags =
     bnd (if has_flag hflags HASH_NOSRCH then ret None else hash_lookup name table) (\<lambda>entry.
       if entry = None then ret (None, True)
       else bnd (var_at entry) (\<lambda>v.
         if nameref_p v \<and> \<not> invisible_p v then
           bnd global_table (\<lambda>g.
             if table = g then
               bnd (find_global_variable h (sv_name v)) (\<lambda>e.
               bnd (if e = None then find_variable_last_nameref h name False else ret e) (\<lambda>e. ret (e, e \<noteq> None)))
             else ret (entry, True))
         else ret (entry, True)))"

definition bind_variable_internal ::
  "'e hooks \<Rightarrow> cstring \<Rightarrow> cstring option \<Rightarrow> ptr \<Rightarrow> int \<Rightarrow> int \<Rightarrow> ('e, ptr) cmd" where
  "bind_variable_internal h name val table hflags aflags =
     bnd (binding_entry h name table hflags) (\<lambda>(entry, continue).
       if \<not> continue then ret entry
       else if entry = None then bind_new_variable h name val table aflags
       else bnd (var_at entry) (\<lambda>v.
         if invisible_p v \<and> nameref_p v then
           bnd (if \<not> has_flag aflags ASS_FORCE \<and> val \<noteq> None then valid_nameref_value h val 0 else ret True) (\<lambda>ok.
             if \<not> ok then sq (report (M_invalidid val)) (ret None) else assign_value h entry val aflags)
         else if nameref_p v then
           bnd (value_cell v) (\<lambda>newval.
           bnd (valid_nameref_value h newval 0) (\<lambda>ok.
             if \<not> ok then sq (report (M_invalidid newval)) (ret None)
             else bnd (hk_valid_array_reference h (the newval) 0) (\<lambda>arr.
               if arr then assign_referenced_element h (the newval) val aflags
               else bind_new_variable h (the newval) val table aflags)))
         else case sv_assign_func v of
                Some f \<Rightarrow> assign_by_func h f entry val aflags
              | None \<Rightarrow> assign_value h entry val aflags))"

definition bind_global_variable :: "'e hooks \<Rightarrow> cstring \<Rightarrow> cstring option \<Rightarrow> int \<Rightarrow> ('e, ptr) cmd" where
  "bind_global_variable h name val flags =
     sq need_tables (bnd global_table (\<lambda>t. bind_variable_internal h name val t 0 flags))"

definition bind_tempenv_variable :: "cstring \<Rightarrow> cstring \<Rightarrow> ('e, ptr) cmd" where
  "bind_tempenv_variable name val =
     bnd (gets temporary_env) (\<lambda>t. bnd (hash_lookup name t) (\<lambda>var.
       if var = None then ret None
       else sq (var_setvalue var (Some val)) (sq (INVALIDATE_EXPORTSTR var) (ret var))))"

definition find_tempenv_variable :: "cstring \<Rightarrow> ('e, ptr) cmd" where
  "find_tempenv_variable name = bnd (gets temporary_env) (hash_lookup name)"

text \<open>
  An assignment to a variable that a context holds; \<open>v\<close> is that variable and \<open>i\<close> its context. The
  loop goes on, with \<open>None\<close>, if the reference \<open>v\<close> leads to no variable at all.
\<close>

definition bind_in_context ::
  "'e hooks \<Rightarrow> ptr \<Rightarrow> nat \<Rightarrow> cstring option \<Rightarrow> int \<Rightarrow> ('e, ptr option) cmd" where
  "bind_in_context h v i val flags =
     bnd (var_at v) (\<lambda>var.
     let bind_at = (\<lambda>name j. bnd (context_at j) (\<lambda>c.
           bnd (bind_variable_internal h name val (vc_table c) 0 flags) (\<lambda>r. ret (Some r))));
         circular = sq (report (M_circular (sv_name var)))
           (bnd (bind_global_variable h (sv_name var) val flags) (\<lambda>r. ret (Some r))) in
     if \<not> nameref_p var then bind_at (sv_name var) i
     else bnd (find_variable_nameref_context v i i) (\<lambda>(nv, nvc).
       if nv = None then
         bnd (find_variable_last_nameref_context v i nvc) (\<lambda>(nv, nvc).
           if nv = None then ret None
           else bnd (var_at nv) (\<lambda>w.
             if nameref_p w then
               bnd (value_cell w) (\<lambda>target.
                 case target of
                   None \<Rightarrow> bind_at (sv_name w) nvc
                 | Some x \<Rightarrow> bnd (hk_valid_array_reference h x 0) (\<lambda>arr.
                     if arr then bnd (hk_assign_array_element h x val flags) (\<lambda>r. ret (Some r))
                     else bind_at x nvc))
             else if nv = nameref_maxloop_value then circular
             else bind_at (sv_name w) nvc))
       else if nv = nameref_maxloop_value then circular
       else bnd (var_at nv) (\<lambda>w. bind_at (sv_name w) nvc)))"

fun bind_loop :: "'e hooks \<Rightarrow> cstring \<Rightarrow> cstring option \<Rightarrow> int \<Rightarrow> (nat \<times> VAR_CONTEXT) list \<Rightarrow> ('e, ptr) cmd" where
  "bind_loop h name val flags [] = bnd global_table (\<lambda>t. bind_variable_internal h name val t 0 flags)"
| "bind_loop h name val flags ((i, vc) # vcs) =
     (if vc_isfuncenv vc \<or> vc_isbltnenv vc then
        bnd (hash_lookup name (vc_table vc)) (\<lambda>v.
          if v = None then bind_loop h name val flags vcs
          else bnd (bind_in_context h v i val flags) (\<lambda>r.
            case r of Some p \<Rightarrow> ret p | None \<Rightarrow> bind_loop h name val flags vcs))
      else bind_loop h name val flags vcs)"

definition bind_variable :: "'e hooks \<Rightarrow> cstring \<Rightarrow> cstring option \<Rightarrow> int \<Rightarrow> ('e, ptr) cmd" where
  "bind_variable h name val flags =
     sq need_tables
    (bnd (gets temporary_env) (\<lambda>t.
     sq (if t \<noteq> None \<and> val \<noteq> None then bnd (bind_tempenv_variable name (the val)) (\<lambda>_. ret ()) else ret ())
    (bnd (gets shell_variables) (\<lambda>vcs. bind_loop h name val flags (enumerate 0 vcs)))))"

definition set_if_not :: "'e hooks \<Rightarrow> cstring \<Rightarrow> cstring option \<Rightarrow> ('e, ptr) cmd" where
  "set_if_not h name val =
     sq need_tables
    (bnd (find_variable h name) (\<lambda>v.
       if v = None then bnd global_table (\<lambda>t. bind_variable_internal h name val t HASH_NOSRCH 0) else ret v))"

definition bind_invalid_envvar :: "'e hooks \<Rightarrow> cstring \<Rightarrow> cstring option \<Rightarrow> int \<Rightarrow> ('e, ptr) cmd" where
  "bind_invalid_envvar h name val flags =
     sq (bnd (gets invalid_env) (\<lambda>t. only_if (t = None)
           (bnd (new_table 64) (\<lambda>t. modify (\<lambda>s. s\<lparr>invalid_env := t\<rparr>)))))
       (bnd (gets invalid_env) (\<lambda>t. bind_variable_internal h name val t HASH_NOSRCH flags))"

definition bind_variable_value :: "'e hooks \<Rightarrow> ptr \<Rightarrow> cstring option \<Rightarrow> int \<Rightarrow> ('e, ptr) cmd" where
  "bind_variable_value h var val aflags =
     bnd (var_at var) (\<lambda>v0.
     let fail = sq (only_if (invisible_p v0) (VSETATTR var att_invisible)) (ret False);
         isref = has_flag aflags ASS_NAMEREF;
         force = has_flag aflags ASS_FORCE in
     sq (VUNSETATTR var att_invisible)
    (bnd (var_at var) (\<lambda>v.
     bnd (case sv_assign_func v of
            Some f \<Rightarrow>
              bnd (if has_flag aflags ASS_APPEND then make_variable_value h var val aflags else ret val) (\<lambda>t.
              sq (hk_assign_func h f var t (- 1) None) (ret True))
          | None \<Rightarrow>
              bnd (make_variable_value h var val aflags) (\<lambda>t.
              bnd (if isref \<and> \<not> force then check_selfref h (sv_name v) t else ret False) (\<lambda>self.
              bnd (gets variable_context) (\<lambda>c.
                if self \<and> c = 0 then sq (report (M_selfref (sv_name v))) fail
                else sq (only_if self (report (M_circular (sv_name v))))
                  (bnd (if isref then valid_nameref_value h t 0 else ret True) (\<lambda>ok.
                     if \<not> ok then fail else sq (var_setvalue var t) (ret True))))))) (\<lambda>go.
     if \<not> go then ret None else sq (INVALIDATE_EXPORTSTR var) (mark_assigned var)))))"

section \<open>Functions\<close>

definition bind_function :: "cstring \<Rightarrow> nat option \<Rightarrow> ('e, ptr) cmd" where
  "bind_function name val =
     bnd (find_function name) (\<lambda>entry.
     bnd (if entry = None then
            bnd (gets shell_functions) (\<lambda>t. bnd (new_shell_variable name) (\<lambda>e.
              sq (insert_var name t HASH_NOSRCH e) (ret e)))
          else sq (INVALIDATE_EXPORTSTR entry) (ret entry)) (\<lambda>entry.
     sq (set_var entry (\<lambda>v. v\<lparr>sv_value := map_option C_func val\<rparr>))
    (sq (VSETATTR entry att_function)
    (bnd (gets mark_modified_vars) (\<lambda>m.
     sq (only_if m (VSETATTR entry att_exported))
    (sq (VUNSETATTR entry att_invisible)
    (bnd (var_at entry) (\<lambda>v. sq (only_if (exported_p v) need_array) (ret entry)))))))))"

text \<open>\<^verbatim>\<open>hash_remove\<close> from a table: the data of the item removed, if there is one.\<close>

definition remove_item :: "cstring \<Rightarrow> ptr \<Rightarrow> ('e, ptr option) cmd" where
  "remove_item name table =
     (case table of
        None \<Rightarrow> ret None
      | Some t \<Rightarrow> bnd (table_at t) (\<lambda>h.
          case hash_remove name (Some h) 0 of
            (Some elt, Some h') \<Rightarrow> sq (set_table t h') (ret (Some (bc_data elt)))
          | _ \<Rightarrow> ret None))"

definition count_need_array :: "('e, unit) cmd" where
  "count_need_array = modify (\<lambda>s. s\<lparr>array_needs_making := wrap32 (array_needs_making s + 1)\<rparr>)"

definition unbind_func :: "cstring \<Rightarrow> ('e, int) cmd" where
  "unbind_func name =
     bnd (gets shell_functions) (\<lambda>t. bnd (remove_item name t) (\<lambda>elt.
       case elt of
         None \<Rightarrow> ret (- 1)
       | Some func \<Rightarrow>
           sq (if func = None then ret ()
               else bnd (var_at func) (\<lambda>v. sq (only_if (exported_p v) count_need_array) (dispose_variable func)))
             (ret 0)))"

section \<open>Unsetting\<close>

text \<open>The names of \<^verbatim>\<open>special_vars\<close>, in the order of the table.\<close>

definition special_vars :: "cstring list" where
  "special_vars = [''BASH_COMPAT'', ''BASH_XTRACEFD'', ''CHILD_MAX'', ''COMP_WORDBREAKS'', ''EXECIGNORE'',
     ''FUNCNEST'', ''GLOBIGNORE'', ''HISTCONTROL'', ''HISTFILESIZE'', ''HISTIGNORE'', ''HISTSIZE'',
     ''HISTTIMEFORMAT'', ''HOSTFILE'', ''IFS'', ''IGNOREEOF'', ''LANG'', ''LC_ALL'', ''LC_COLLATE'',
     ''LC_CTYPE'', ''LC_MESSAGES'', ''LC_NUMERIC'', ''LC_TIME'', ''MAIL'', ''MAILCHECK'', ''MAILPATH'',
     ''OPTERR'', ''OPTIND'', ''PATH'', ''POSIXLY_CORRECT'', ''TERM'', ''TERMCAP'', ''TERMINFO'',
     ''TEXTDOMAIN'', ''TEXTDOMAINDIR'', ''TZ'', ''histchars'', ''ignoreeof'']"

fun special_loop :: "cstring \<Rightarrow> int \<Rightarrow> cstring list \<Rightarrow> int" where
  "special_loop name i [] = - 1"
| "special_loop name i (sv # svs) =
     (let r = int (code (char_at sv 0)) - int (code (char_at name 0));
          r = (if r = 0 then strcmp sv name else r)
      in if r = 0 then i else if r > 0 then - 1 else special_loop name (i + 1) svs)"

definition find_special_var :: "cstring \<Rightarrow> int" where
  "find_special_var name = special_loop name 0 special_vars"

definition sv_ifs :: "'e hooks \<Rightarrow> ('e, unit) cmd" where
  "sv_ifs h = bnd (find_variable h ''IFS'') setifs_var"

text \<open>The functions of the other special variables are a hook.\<close>

definition stupidly_hack_special_variables :: "'e hooks \<Rightarrow> cstring \<Rightarrow> ('e, unit) cmd" where
  "stupidly_hack_special_variables h name =
     (if find_special_var name \<noteq> - 1 then (if name = ''IFS'' then sv_ifs h else hk_special_var h name) else ret ())"

fun remove_var_loop :: "cstring \<Rightarrow> VAR_CONTEXT list \<Rightarrow> ('e, (ptr \<times> ptr) option) cmd" where
  "remove_var_loop name [] = ret None"
| "remove_var_loop name (v # vs) =
     bnd (remove_item name (vc_table v)) (\<lambda>elt.
       case elt of Some d \<Rightarrow> ret (Some (d, vc_table v)) | None \<Rightarrow> remove_var_loop name vs)"

definition delete_var :: "cstring \<Rightarrow> VAR_CONTEXT list \<Rightarrow> ('e, int) cmd" where
  "delete_var name vcs =
     bnd (remove_var_loop name vcs) (\<lambda>elt.
       case elt of None \<Rightarrow> ret (- 1) | Some (old_var, _) \<Rightarrow> sq (dispose_variable old_var) (ret 0))"

text \<open>A local variable that is unset while its function runs stays in its table, without value and invisible.\<close>

definition hide_local :: "'e hooks \<Rightarrow> ptr \<Rightarrow> ptr \<Rightarrow> ('e, int) cmd" where
  "hide_local h old_var table =
     bnd (var_at old_var) (\<lambda>v.
     sq (set_var old_var (\<lambda>v. v\<lparr>
           sv_attributes := (if exported_p v \<and> tempvar_p v then att_exported else 0) OR att_local OR att_invisible,
           sv_value := None, sv_exportstr := None\<rparr>))
    (sq (insert_var (sv_name v) table 0 old_var)
    (sq (stupidly_hack_special_variables h (sv_name v)) (ret 0))))"

definition makunbound :: "'e hooks \<Rightarrow> cstring \<Rightarrow> VAR_CONTEXT list \<Rightarrow> ('e, int) cmd" where
  "makunbound h name vcs =
     bnd (remove_var_loop name vcs) (\<lambda>elt.
       case elt of
         None \<Rightarrow> ret (- 1)
       | Some (None, _) \<Rightarrow> sq (stupidly_hack_special_variables h name) (ret 0)
       | Some (Some a, table) \<Rightarrow>
           bnd (var_at (Some a)) (\<lambda>v.
           sq (only_if (exported_p v) count_need_array)
          (bnd (gets (\<lambda>s. sv_context v = variable_context s \<or> (localvar_unset s \<and> sv_context v < variable_context s))) (\<lambda>here.
             if local_p v \<and> here then hide_local h (Some a) table
             else sq (dispose_variable (Some a)) (sq (stupidly_hack_special_variables h name) (ret 0))))))"

text \<open>The context stack that starts at \<^verbatim>\<open>global_variables\<close>.\<close>

definition global_contexts :: "'e shell \<Rightarrow> VAR_CONTEXT list" where
  "global_contexts s = (if shell_variables s = [] then [] else [last (shell_variables s)])"

text \<open>The variable that a lookup found leads to: \<open>None\<close> if it is no reference.\<close>

definition referenced_by :: "'e hooks \<Rightarrow> ptr \<Rightarrow> ('e, ptr) cmd" where
  "referenced_by h v =
     (if v = None then ret None
      else bnd (var_at v) (\<lambda>var. if nameref_p var then find_variable_nameref h v else ret None))"

definition unbind_variable :: "'e hooks \<Rightarrow> cstring \<Rightarrow> ('e, int) cmd" where
  "unbind_variable h name =
     bnd (var_lookup name) (\<lambda>v.
     bnd (referenced_by h v) (\<lambda>nv.
     bnd (gets shell_variables) (\<lambda>vcs.
       if nv = None then makunbound h name vcs
       else bnd (var_at nv) (\<lambda>w. makunbound h (sv_name w) vcs))))"

definition unbind_nameref :: "'e hooks \<Rightarrow> cstring \<Rightarrow> ('e, int) cmd" where
  "unbind_nameref h name =
     bnd (var_lookup name) (\<lambda>v.
       if v = None then ret 0
       else bnd (var_at v) (\<lambda>var.
         if nameref_p var then bnd (gets shell_variables) (makunbound h name) else ret 0))"

definition unbind_variable_noref :: "'e hooks \<Rightarrow> cstring \<Rightarrow> ('e, int) cmd" where
  "unbind_variable_noref h name =
     bnd (var_lookup name) (\<lambda>v. if v = None then ret 0 else bnd (gets shell_variables) (makunbound h name))"

definition unbind_global_variable :: "'e hooks \<Rightarrow> cstring \<Rightarrow> ('e, int) cmd" where
  "unbind_global_variable h name =
     bnd (var_lookup_global name) (\<lambda>v.
     bnd (referenced_by h v) (\<lambda>nv.
       if nv = None then bnd (gets global_contexts) (makunbound h name)
       else bnd (var_at nv) (\<lambda>w. bnd (gets shell_variables) (makunbound h (sv_name w)))))"

definition unbind_global_variable_noref :: "'e hooks \<Rightarrow> cstring \<Rightarrow> ('e, int) cmd" where
  "unbind_global_variable_noref h name =
     bnd (var_lookup_global name) (\<lambda>v. if v = None then ret 0 else bnd (gets global_contexts) (makunbound h name))"

definition check_unbind_variable :: "'e hooks \<Rightarrow> cstring \<Rightarrow> ('e, int) cmd" where
  "check_unbind_variable h name =
     bnd (find_variable h name) (\<lambda>v.
     bnd (if v = None then ret None else bnd (var_at v) (\<lambda>var. ret (Some var))) (\<lambda>var.
       case var of
         None \<Rightarrow> unbind_variable h name
       | Some x \<Rightarrow>
           if readonly_p x then sq (report (M_cannot_unset_readonly name)) (ret (- 2))
           else if non_unsettable_p x then sq (report (M_cannot_unset name)) (ret (- 2))
           else unbind_variable h name))"

definition delete_all_variables :: "nat \<Rightarrow> ('e, unit) cmd" where
  "delete_all_variables t = flush_table dispose_variable t"

definition kill_all_local_variables :: "('e, unit) cmd" where
  "kill_all_local_variables =
     bnd (gets variable_context) (\<lambda>c.
     bnd (gets (\<lambda>s. func_context c (shell_variables s))) (\<lambda>i.
       case i of
         None \<Rightarrow> ret ()
       | Some i \<Rightarrow>
           bnd (context_at i) (\<lambda>vc.
           sq (case vc_table vc of None \<Rightarrow> ret () | Some t \<Rightarrow> only_if (vc_haslocals vc) (delete_all_variables t))
             (set_context_at i (\<lambda>vc. vc\<lparr>vc_table := None\<rparr>)))))"

text \<open>\<^verbatim>\<open>FIND_OR_MAKE_VARIABLE\<close>; a variable that could not be made is read through \<^verbatim>\<open>NULL\<close> by the caller.\<close>

definition find_or_make_variable :: "'e hooks \<Rightarrow> cstring \<Rightarrow> ('e, ptr) cmd" where
  "find_or_make_variable h name =
     bnd (find_variable h name) (\<lambda>entry.
       if entry \<noteq> None then ret entry
       else bnd (bind_variable h name (Some []) 0) (\<lambda>entry.
         if entry = None then ret None else sq (VSETATTR entry att_invisible) (ret entry)))"

definition set_var_read_only :: "'e hooks \<Rightarrow> cstring \<Rightarrow> ('e, unit) cmd" where
  "set_var_read_only h name = bnd (find_or_make_variable h name) (\<lambda>entry. VSETATTR entry att_readonly)"

end
