(* ===== verification/Scopes.thy ===== *)
theory Scopes
  imports Variables
begin

text \<open>
  The rest of \<^verbatim>\<open>variables.c\<close> on scopes: lists of variables, temporary environments and where their
  variables go when a command ends, the pushing and popping of contexts, and the positional parameters that are
  saved across function calls.
\<close>

section \<open>Lists of variables\<close>

text \<open>A \<^verbatim>\<open>VARLIST\<close> is the list of the variables added so far; a name is added once.\<close>

fun has_name :: "cstring \<Rightarrow> nat list \<Rightarrow> 'e shell \<Rightarrow> bool" where
  "has_name n [] s = False"
| "has_name n (a # as) s = (sv_name (sh_heap s ! a) = n \<or> has_name n as s)"

definition vlist_add :: "nat list \<Rightarrow> ptr \<Rightarrow> ('e, nat list) cmd" where
  "vlist_add vlist var =
     bnd (var_at var) (\<lambda>v. bnd (gets (has_name (sv_name v) vlist)) (\<lambda>found.
       ret (if found then vlist else vlist @ [the var])))"

fun flatten_loop :: "(int \<Rightarrow> SHELL_VAR \<Rightarrow> bool) \<Rightarrow> ptr list \<Rightarrow> nat list \<Rightarrow> ('e, nat list) cmd" where
  "flatten_loop func [] vlist = ret vlist"
| "flatten_loop func (var # vars) vlist =
     bnd (var_at var) (\<lambda>v. bnd (gets variable_context) (\<lambda>c.
     bnd (if func c v then vlist_add vlist var else ret vlist) (flatten_loop func vars)))"

text \<open>The functions mapped over variables may read \<^verbatim>\<open>variable_context\<close>.\<close>

definition flatten :: "ptr \<Rightarrow> (int \<Rightarrow> SHELL_VAR \<Rightarrow> bool) \<Rightarrow> nat list \<Rightarrow> ('e, nat list) cmd" where
  "flatten table func vlist =
     (case table of
        None \<Rightarrow> ret vlist
      | Some t \<Rightarrow> bnd (table_at t) (\<lambda>h.
          if HASH_ENTRIES (Some h) = 0 then ret vlist else flatten_loop func (table_items h) vlist))"

fun flatten_contexts :: "(int \<Rightarrow> SHELL_VAR \<Rightarrow> bool) \<Rightarrow> VAR_CONTEXT list \<Rightarrow> nat list \<Rightarrow> ('e, nat list) cmd" where
  "flatten_contexts func [] vlist = ret vlist"
| "flatten_contexts func (vc # vcs) vlist = bnd (flatten (vc_table vc) func vlist) (flatten_contexts func vcs)"

fun count_entries :: "VAR_CONTEXT list \<Rightarrow> ('e, int) cmd" where
  "count_entries [] = ret 0"
| "count_entries (vc # vcs) = bnd (table_entries (vc_table vc)) (\<lambda>n. bnd (count_entries vcs) (\<lambda>m. ret (n + m)))"

definition map_over :: "(int \<Rightarrow> SHELL_VAR \<Rightarrow> bool) \<Rightarrow> VAR_CONTEXT list \<Rightarrow> ('e, nat list option) cmd" where
  "map_over func vcs =
     bnd (count_entries vcs) (\<lambda>nentries.
       if nentries = 0 then ret None else bnd (flatten_contexts func vcs []) (\<lambda>l. ret (Some l)))"

definition map_over_funcs :: "(int \<Rightarrow> SHELL_VAR \<Rightarrow> bool) \<Rightarrow> ('e, nat list option) cmd" where
  "map_over_funcs func =
     bnd (gets shell_functions) (\<lambda>t. bnd (table_entries t) (\<lambda>n.
       if t = None \<or> n = 0 then ret None else bnd (flatten t func []) (\<lambda>l. ret (Some l))))"

definition qsort_var_comp :: "SHELL_VAR \<Rightarrow> SHELL_VAR \<Rightarrow> int" where
  "qsort_var_comp var1 var2 =
     (let result = int (code (char_at (sv_name var1) 0)) - int (code (char_at (sv_name var2) 0))
      in if result = 0 then strcmp (sv_name var1) (sv_name var2) else result)"

definition sort_variables :: "nat list \<Rightarrow> ('e, nat list) cmd" where
  "sort_variables l = gets (\<lambda>s. qsort_by (\<lambda>a b. qsort_var_comp (sh_heap s ! a) (sh_heap s ! b)) l)"

definition sort_list :: "nat list option \<Rightarrow> ('e, nat list option) cmd" where
  "sort_list l = (case l of None \<Rightarrow> ret None | Some xs \<Rightarrow> bnd (sort_variables xs) (\<lambda>ys. ret (Some ys)))"

definition vapply :: "(int \<Rightarrow> SHELL_VAR \<Rightarrow> bool) \<Rightarrow> ('e, nat list option) cmd" where
  "vapply func = bnd (gets shell_variables) (\<lambda>vcs. bnd (map_over func vcs) sort_list)"

definition fapply :: "(int \<Rightarrow> SHELL_VAR \<Rightarrow> bool) \<Rightarrow> ('e, nat list option) cmd" where
  "fapply func = bnd (map_over_funcs func) sort_list"

definition all_shell_variables :: "('e, nat list option) cmd" where
  "all_shell_variables = vapply (\<lambda>c v. True)"

definition all_shell_functions :: "('e, nat list option) cmd" where
  "all_shell_functions = fapply (\<lambda>c v. True)"

definition visible_var :: "int \<Rightarrow> SHELL_VAR \<Rightarrow> bool" where
  "visible_var c var \<longleftrightarrow> \<not> invisible_p var"

definition all_visible_functions :: "('e, nat list option) cmd" where
  "all_visible_functions = fapply visible_var"

definition all_visible_variables :: "('e, nat list option) cmd" where
  "all_visible_variables = vapply visible_var"

definition visible_and_exported :: "int \<Rightarrow> SHELL_VAR \<Rightarrow> bool" where
  "visible_and_exported c var \<longleftrightarrow> \<not> invisible_p var \<and> exported_p var"

definition export_environment_candidate :: "int \<Rightarrow> SHELL_VAR \<Rightarrow> bool" where
  "export_environment_candidate c var \<longleftrightarrow> exported_p var \<and> (\<not> invisible_p var \<or> imported_p var)"

definition local_and_exported :: "int \<Rightarrow> SHELL_VAR \<Rightarrow> bool" where
  "local_and_exported c var \<longleftrightarrow> \<not> invisible_p var \<and> local_p var \<and> sv_context var = c \<and> exported_p var"

definition all_exported_variables :: "('e, nat list option) cmd" where
  "all_exported_variables = vapply visible_and_exported"

definition local_exported_variables :: "('e, nat list option) cmd" where
  "local_exported_variables = vapply local_and_exported"

definition variable_in_context :: "int \<Rightarrow> SHELL_VAR \<Rightarrow> bool" where
  "variable_in_context c var \<longleftrightarrow> local_p var \<and> sv_context var = c"

definition visible_variable_in_context :: "int \<Rightarrow> SHELL_VAR \<Rightarrow> bool" where
  "visible_variable_in_context c var \<longleftrightarrow> \<not> invisible_p var \<and> local_p var \<and> sv_context var = c"

definition all_local_variables :: "bool \<Rightarrow> ('e, nat list option) cmd" where
  "all_local_variables visible_only =
     bnd (gets variable_context) (\<lambda>c.
     bnd (gets (\<lambda>s. func_context c (shell_variables s))) (\<lambda>i.
       case i of
         None \<Rightarrow> sq (report M_no_function_context) (ret None)
       | Some i \<Rightarrow>
           bnd (context_at i) (\<lambda>vc.
           bnd (table_entries (vc_table vc)) (\<lambda>n.
             if vc_table vc = None \<or> n = 0 \<or> \<not> vc_haslocals vc then ret None
             else bnd (flatten (vc_table vc) (if visible_only then visible_variable_in_context else variable_in_context) [])
               (\<lambda>l. sort_list (Some l))))))"

definition visible_array_vars :: "int \<Rightarrow> SHELL_VAR \<Rightarrow> bool" where
  "visible_array_vars c var \<longleftrightarrow> \<not> invisible_p var \<and> (array_p var \<or> assoc_p var)"

definition all_array_variables :: "('e, nat list option) cmd" where
  "all_array_variables = vapply visible_array_vars"

definition all_variables_matching_prefix :: "cstring option \<Rightarrow> ('e, cstring list option) cmd" where
  "all_variables_matching_prefix prefix =
     bnd all_visible_variables (\<lambda>varlist.
       let p = (case prefix of None \<Rightarrow> [] | Some x \<Rightarrow> x) in
       case varlist of
         None \<Rightarrow> ret None
       | Some [] \<Rightarrow> ret None
       | Some vars \<Rightarrow> gets (\<lambda>s. Some (filter (\<lambda>n. p = [] \<or> take (length p) n = p) (map (\<lambda>a. sv_name (sh_heap s ! a)) vars))))"

section \<open>Temporary environments\<close>

definition add_tempvar :: "cstring \<Rightarrow> ('e, unit) cmd" where
  "add_tempvar name =
     (if find_special_var name \<ge> 0 then modify (\<lambda>s. s\<lparr>tempvar_list := tempvar_list s @ [name]\<rparr>) else ret ())"

definition clear_attr :: "ptr \<Rightarrow> int \<Rightarrow> ('e, unit) cmd" where
  "clear_attr var a = set_var var (\<lambda>v. v\<lparr>sv_attributes := sv_attributes v AND NOT a\<rparr>)"

text \<open>\<^verbatim>\<open>v->attributes |= var->attributes\<close>.\<close>

definition add_attrs :: "ptr \<Rightarrow> ptr \<Rightarrow> ('e, unit) cmd" where
  "add_attrs v var = bnd (var_at var) (\<lambda>x. set_var v (\<lambda>y. y\<lparr>sv_attributes := sv_attributes y OR sv_attributes x\<rparr>))"

definition push_posix_temp_var :: "'e hooks \<Rightarrow> ptr \<Rightarrow> ('e, unit) cmd" where
  "push_posix_temp_var h var =
     bnd (var_at var) (\<lambda>x. bnd (value_cell x) (\<lambda>val.
     bnd (bind_variable h (sv_name x) val (ASS_FORCE OR ASS_NOLONGJMP)) (\<lambda>v.
     bnd (var_at v) (\<lambda>y.
     sq (only_if (sv_context y = 0) (clear_attr var (att_tempvar OR att_propagate)))
    (sq (add_attrs v var)
    (bnd (var_at v) (\<lambda>y.
     sq (if sv_context y > 0 \<and> \<not> local_p y then VSETATTR v att_propagate else VUNSETATTR v att_propagate)
    (sq (add_tempvar (sv_name x)) (dispose_variable var)))))))))"

text \<open>\<^verbatim>\<open>shell_variables->table\<close>, made if there is none.\<close>

definition top_table :: "int \<Rightarrow> int \<Rightarrow> ('e, ptr) cmd" where
  "top_table global_buckets buckets =
     bnd (gets (\<lambda>s. length (shell_variables s) = 1)) (\<lambda>global.
       context_table 0 (if global then global_buckets else buckets))"

definition push_temp_var :: "'e hooks \<Rightarrow> ptr \<Rightarrow> ('e, unit) cmd" where
  "push_temp_var h var =
     bnd (var_at var) (\<lambda>x.
     bnd (top_table VARIABLES_HASH_BUCKETS TEMPENV_HASH_BUCKETS) (\<lambda>binding_table.
     bnd (value_cell x) (\<lambda>val.
     bnd (bind_variable_internal h (sv_name x) val binding_table 0 (ASS_FORCE OR ASS_NOLONGJMP)) (\<lambda>v.
     bnd (context_at 0) (\<lambda>top.
     sq (if v = None then ret () else set_var v (\<lambda>y. y\<lparr>sv_context := vc_scope top\<rparr>))
    (bnd global_table (\<lambda>g.
     sq (if binding_table = g then clear_attr var (att_tempvar OR att_propagate)
         else sq (VSETATTR var att_propagate)
                (only_if (binding_table = vc_table top)
                   (set_context_at 0 (\<lambda>c. c\<lparr>vc_flags := vc_flags c OR VC_HASTMPVAR\<rparr>))))
    (sq (if v = None then ret () else add_attrs v var)
    (sq (add_tempvar (sv_name x)) (dispose_variable var))))))))))"

definition propagate_temp_var :: "'e hooks \<Rightarrow> ptr \<Rightarrow> ('e, unit) cmd" where
  "propagate_temp_var h var =
     bnd (var_at var) (\<lambda>x.
       if tempvar_p x \<and> propagate_p x then push_temp_var h var
       else sq (add_tempvar (sv_name x)) (dispose_variable var))"

definition dispose_temporary_env :: "'e hooks \<Rightarrow> (ptr \<Rightarrow> ('e, unit) cmd) \<Rightarrow> ('e, unit) cmd" where
  "dispose_temporary_env h pushf =
     bnd (gets temporary_env) (\<lambda>disposer.
     sq (modify (\<lambda>s. s\<lparr>tempvar_list := [], temporary_env := None\<rparr>))
    (sq (case disposer of None \<Rightarrow> ret () | Some t \<Rightarrow> flush_table pushf t)
    (sq need_array
    (bnd (gets tempvar_list) (\<lambda>l.
     sq (for_each (stupidly_hack_special_variables h) l)
       (modify (\<lambda>s. s\<lparr>tempvar_list := []\<rparr>)))))))"

definition merge_temporary_env :: "'e hooks \<Rightarrow> ('e, unit) cmd" where
  "merge_temporary_env h =
     bnd (gets temporary_env) (\<lambda>t. bnd (gets posixly_correct) (\<lambda>posix.
       only_if (t \<noteq> None) (dispose_temporary_env h (if posix then push_posix_temp_var h else push_temp_var h))))"

definition merge_function_temporary_env :: "'e hooks \<Rightarrow> ('e, unit) cmd" where
  "merge_function_temporary_env h =
     bnd (gets temporary_env) (\<lambda>t. only_if (t \<noteq> None) (dispose_temporary_env h (push_temp_var h)))"

definition flush_temporary_env :: "('e, unit) cmd" where
  "flush_temporary_env =
     bnd (gets temporary_env) (\<lambda>t.
       case t of
         None \<Rightarrow> ret ()
       | Some i \<Rightarrow> sq (flush_table dispose_variable i) (modify (\<lambda>s. s\<lparr>temporary_env := None\<rparr>)))"

section \<open>Contexts\<close>

definition new_var_context :: "cstring option \<Rightarrow> int \<Rightarrow> ('e, VAR_CONTEXT) cmd" where
  "new_var_context name flags =
     gets (\<lambda>s. \<lparr>vc_name = name, vc_scope = variable_context s, vc_flags = flags, vc_table = None\<rparr>)"

definition dispose_var_context :: "VAR_CONTEXT \<Rightarrow> ('e, unit) cmd" where
  "dispose_var_context vc = (case vc_table vc of None \<Rightarrow> ret () | Some t \<Rightarrow> delete_all_variables t)"

definition set_context :: "ptr \<Rightarrow> ('e, unit) cmd" where
  "set_context var = bnd (gets variable_context) (\<lambda>c. set_var var (\<lambda>v. v\<lparr>sv_context := c\<rparr>))"

text \<open>\<^verbatim>\<open>flatten\<close> with a function and no list: the function is applied to each variable.\<close>

definition apply_to_table :: "(ptr \<Rightarrow> ('e, unit) cmd) \<Rightarrow> nat \<Rightarrow> ('e, unit) cmd" where
  "apply_to_table func t =
     bnd (table_at t) (\<lambda>h. only_if (HASH_ENTRIES (Some h) \<noteq> 0) (for_each func (table_items h)))"

text \<open>\<^verbatim>\<open>posix_func_behavior\<close> is 0.\<close>

definition push_var_context :: "cstring option \<Rightarrow> int \<Rightarrow> ptr \<Rightarrow> ('e, unit) cmd" where
  "push_var_context name flags tempvars =
     bnd (new_var_context name flags) (\<lambda>vc.
     bnd (case tempvars of
            None \<Rightarrow> ret vc
          | Some t \<Rightarrow> sq (apply_to_table set_context t)
                       (ret (vc\<lparr>vc_table := tempvars, vc_flags := vc_flags vc OR VC_HASTMPVAR\<rparr>))) (\<lambda>vc.
     bnd (gets shell_variables) (\<lambda>vcs.
       if vcs = [] then crash else modify (\<lambda>s. s\<lparr>shell_variables := vc # shell_variables s\<rparr>))))"

definition push_posix_tempvar_internal :: "'e hooks \<Rightarrow> ptr \<Rightarrow> bool \<Rightarrow> ('e, unit) cmd" where
  "push_posix_tempvar_internal h var isbltin =
     bnd (var_at var) (\<lambda>x. bnd (gets posixly_correct) (\<lambda>posix.
     bnd (if local_p x \<and> sv_name x = ''-'' then
            bnd (value_cell x) (\<lambda>val. sq (hk_set_current_options h val) (ret None))
          else if tempvar_p x \<and> posix \<and> isbltin then
            bnd (value_cell x) (\<lambda>val.
            bnd (bind_variable h (sv_name x) val (ASS_FORCE OR ASS_NOLONGJMP)) (\<lambda>v.
              if v = None then ret None
              else sq (add_attrs v var)
                  (bnd (var_at v) (\<lambda>y.
                   sq (only_if (sv_context y = 0) (clear_attr v (att_tempvar OR att_propagate))) (ret v)))))
          else if tempvar_p x \<and> propagate_p x then
            bnd (context_at 0) (\<lambda>top.
            sq (if (vc_isfuncenv top \<or> vc_istempenv top) \<and> vc_table top = None
                then bnd (context_table 0 VARIABLES_HASH_BUCKETS) (\<lambda>_. ret ()) else ret ())
           (bnd (context_at 0) (\<lambda>top.
            bnd (value_cell x) (\<lambda>val.
            bnd (bind_variable_internal h (sv_name x) val (vc_table top) 0 0) (\<lambda>v.
            sq (if v = None then ret () else set_var v (\<lambda>y. y\<lparr>sv_context := vc_scope top\<rparr>))
           (bnd (gets (\<lambda>s. length (shell_variables s) = 1)) (\<lambda>global.
            sq (if global then clear_attr var (att_tempvar OR att_propagate)
                else set_context_at 0 (\<lambda>c. c\<lparr>vc_flags := vc_flags c OR VC_HASTMPVAR\<rparr>))
           (sq (if v = None then ret () else add_attrs v var) (ret v)))))))))
          else sq (stupidly_hack_special_variables h (sv_name x)) (ret None)) (\<lambda>v.
     sq (if v = None then ret ()
         else bnd (var_at var) (\<lambda>x.
           if array_p x then bnd (array_cell x) (\<lambda>a. var_setarray v (array_copy a))
           else if assoc_p x then bnd (assoc_cell x) (\<lambda>a. var_setassoc v (hash_copy a None))
           else ret ()))
       (dispose_variable var))))"

definition push_func_var :: "'e hooks \<Rightarrow> ptr \<Rightarrow> ('e, unit) cmd" where
  "push_func_var h data = push_posix_tempvar_internal h data False"

definition push_builtin_var :: "'e hooks \<Rightarrow> ptr \<Rightarrow> ('e, unit) cmd" where
  "push_builtin_var h data = push_posix_tempvar_internal h data True"

definition pop_var_context :: "'e hooks \<Rightarrow> ('e, unit) cmd" where
  "pop_var_context h =
     bnd (context_at 0) (\<lambda>vcxt.
       if \<not> vc_isfuncenv vcxt then report M_not_function_context
       else bnd (gets (\<lambda>s. tl (shell_variables s))) (\<lambda>down.
         if down = [] then report M_no_global_context
         else
           sq (modify (\<lambda>s. s\<lparr>shell_variables := down\<rparr>))
          (sq (case vc_table vcxt of None \<Rightarrow> ret () | Some t \<Rightarrow> flush_table (push_func_var h) t)
             (dispose_var_context vcxt))))"

text \<open>All contexts but the last, \<^verbatim>\<open>global_variables\<close>, are disposed of.\<close>

definition delete_local_contexts :: "('e, unit) cmd" where
  "delete_local_contexts = bnd (gets shell_variables) (\<lambda>vcs. for_each dispose_var_context (butlast vcs))"

definition delete_all_contexts :: "('e, unit) cmd" where
  "delete_all_contexts =
     sq delete_local_contexts
    (sq (bnd global_table (\<lambda>t. case t of None \<Rightarrow> ret () | Some i \<Rightarrow> delete_all_variables i))
       (modify (\<lambda>s. s\<lparr>shell_variables := global_contexts s\<rparr>)))"

definition reset_local_contexts :: "('e, unit) cmd" where
  "reset_local_contexts =
     sq delete_local_contexts (modify (\<lambda>s. s\<lparr>shell_variables := global_contexts s, variable_context := 0\<rparr>))"

definition push_scope :: "int \<Rightarrow> ptr \<Rightarrow> ('e, unit) cmd" where
  "push_scope flags tmpvars = push_var_context None flags tmpvars"

definition push_exported_var :: "'e hooks \<Rightarrow> ptr \<Rightarrow> ('e, unit) cmd" where
  "push_exported_var h var =
     bnd (var_at var) (\<lambda>x.
     sq (if tempvar_p x \<and> exported_p x \<and> propagate_p x then
           sq (clear_attr var att_tempvar)
          (bnd (context_at 0) (\<lambda>top.
           bnd (value_cell x) (\<lambda>val.
           bnd (bind_variable_internal h (sv_name x) val (vc_table top) 0 0) (\<lambda>v.
           bnd (gets (\<lambda>s. length (shell_variables s) = 1)) (\<lambda>global.
           sq (only_if global (clear_attr var att_propagate))
             (if v = None then ret ()
              else sq (add_attrs v var) (set_var v (\<lambda>y. y\<lparr>sv_context := vc_scope top\<rparr>))))))))
         else stupidly_hack_special_variables h (sv_name x))
       (dispose_variable var))"

definition pop_scope :: "'e hooks \<Rightarrow> bool \<Rightarrow> ('e, unit) cmd" where
  "pop_scope h is_special =
     bnd (context_at 0) (\<lambda>vcxt.
       if \<not> vc_istempscope vcxt then report M_not_temp_scope
       else
         sq (modify (\<lambda>s. s\<lparr>shell_variables := tl (shell_variables s)\<rparr>))
        (sq (case vc_table vcxt of
               None \<Rightarrow> ret ()
             | Some t \<Rightarrow> flush_table (if is_special then push_builtin_var h else push_exported_var h) t)
           (sv_ifs h)))"

section \<open>Positional parameters and function calls\<close>

text \<open>
  \<open>dollar_vars\<close> holds \<^verbatim>\<open>$0\<close> to \<^verbatim>\<open>$9\<close>; \<open>dollar_arg_stack\<close> is the stack of the parameters of the callers, top
  first. The slots of the C array are allocated in steps of ten.
\<close>

definition clear_dollar_vars :: "('e, unit) cmd" where
  "clear_dollar_vars =
     modify (\<lambda>s. s\<lparr>dollar_vars := hd (dollar_vars s) # replicate 9 None, rest_of_args := [], posparam_count := 0\<rparr>)"

definition push_dollar_vars :: "('e, unit) cmd" where
  "push_dollar_vars =
     modify (\<lambda>s. s\<lparr>dollar_arg_stack := (tl (dollar_vars s), rest_of_args s, posparam_count s) # dollar_arg_stack s,
                   dollar_vars := hd (dollar_vars s) # replicate 9 None, rest_of_args := [], posparam_count := 0\<rparr>)"

definition pop_dollar_vars :: "('e, unit) cmd" where
  "pop_dollar_vars =
     bnd (gets dollar_arg_stack) (\<lambda>stack.
       case stack of
         [] \<Rightarrow> ret ()
       | (first_ten, rest, n) # st \<Rightarrow>
           sq clear_dollar_vars
             (modify (\<lambda>s. s\<lparr>dollar_vars := hd (dollar_vars s) # first_ten, rest_of_args := rest,
                           posparam_count := n, dollar_arg_stack := st\<rparr>)))"

definition dispose_saved_dollar_vars :: "('e, unit) cmd" where
  "dispose_saved_dollar_vars =
     modify (\<lambda>s. case dollar_arg_stack s of [] \<Rightarrow> s | _ # st \<Rightarrow> s\<lparr>dollar_arg_stack := st\<rparr>)"

definition push_context :: "cstring option \<Rightarrow> bool \<Rightarrow> ptr \<Rightarrow> ('e, unit) cmd" where
  "push_context name is_subshell tempvars =
     sq (only_if (\<not> is_subshell) push_dollar_vars)
    (sq (modify (\<lambda>s. s\<lparr>variable_context := variable_context s + 1\<rparr>))
       (push_var_context name VC_FUNCENV tempvars))"

definition pop_context :: "'e hooks \<Rightarrow> ('e, unit) cmd" where
  "pop_context h =
     sq pop_dollar_vars
    (sq (modify (\<lambda>s. s\<lparr>variable_context := variable_context s - 1\<rparr>))
    (sq (pop_var_context h) (sv_ifs h)))"

end
