(* ===== verification/Export.thy ===== *)
theory Export
  imports Scopes
begin

text \<open>
  The environment of commands, from \<^verbatim>\<open>variables.c\<close>: assignments that precede a command, the strings
  \<^verbatim>\<open>name=value\<close>, and the array of them that is made from the exported variables. Arrays are not exported. The array
  \<^verbatim>\<open>export_env\<close> with its index and size is a list; tracing is left out.
\<close>

section \<open>Strings of the environment\<close>

definition BASHFUNC_PREFIX :: cstring where "BASHFUNC_PREFIX = ''BASH_FUNC_''"
definition BASHFUNC_SUFFIX :: cstring where "BASHFUNC_SUFFIX = ''%%''"

definition mk_env_string :: "ifs_state \<Rightarrow> cstring \<Rightarrow> cstring option \<Rightarrow> int \<Rightarrow> cstring" where
  "mk_env_string st name val attributes =
     (let isfunc = has_flag attributes att_function;
          p = (if isfunc \<and> val \<noteq> None then BASHFUNC_PREFIX @ name @ BASHFUNC_SUFFIX else name)
      in p @ ''='' @
         (case val of
            None \<Rightarrow> []
          | Some v \<Rightarrow>
              if v = [] then []
              else if isfunc then (case dequote_escapes st (Some v) of Some t \<Rightarrow> t | None \<Rightarrow> [])
              else v))"

section \<open>Assignments before a command\<close>

text \<open>The offset of the \<^verbatim>\<open>=\<close> of an assignment statement, 0 if it is none; \<open>flags\<close> is 0.\<close>

function assignment_loop :: "'e hooks \<Rightarrow> cstring \<Rightarrow> nat \<Rightarrow> nat" where
  "assignment_loop h string indx =
     (let c = char_at string indx in
      if c = NUL then 0
      else if c = CHR ''='' then indx
      else if c = CHR ''['' then
        (let newi = hk_skipsubscript h string indx in
         if char_at string newi \<noteq> CHR '']'' then 0
         else if char_at string (newi + 1) = CHR ''+'' \<and> char_at string (newi + 2) = CHR ''='' then newi + 2
         else if char_at string (newi + 1) = CHR ''='' then newi + 1 else 0)
      else if c = CHR ''+'' \<and> char_at string (indx + 1) = CHR ''='' then indx + 1
      else if \<not> legal_variable_char c then 0
      else assignment_loop h string (indx + 1))"
  by auto
termination
  by (relation "measure (\<lambda>(h, string, i). length string - i)") (auto dest: char_at_not_NUL)

declare assignment_loop.simps [simp del]

definition assignment :: "'e hooks \<Rightarrow> cstring \<Rightarrow> nat" where
  "assignment h string = (if \<not> legal_variable_starter (char_at string 0) then 0 else assignment_loop h string 0)"

text \<open>
  The name and the variable that an assignment before a command goes to: the name, the variable that an
  append starts from, and whether the variable is readonly or not to be assigned, in which case nothing is done.
\<close>

definition env_target :: "'e hooks \<Rightarrow> cstring \<Rightarrow> ('e, cstring \<times> ptr \<times> bool) cmd" where
  "env_target h name =
     bnd (find_variable h name) (\<lambda>var.
     bnd (if var = None then
            bnd (find_variable_last_nameref h name True) (\<lambda>var.
              if var = None then ret (name, None)
              else bnd (var_at var) (\<lambda>v.
                if nameref_p v then
                  bnd (value_cell v) (\<lambda>x. bnd (valid_nameref_value h x 2) (\<lambda>ok.
                    ret (if ok then (the x, None) else (name, var))))
                else ret (name, var)))
          else bnd (var_at var) (\<lambda>v. ret (sv_name v, var))) (\<lambda>(newname, var).
       if var = None then ret (newname, None, False)
       else bnd (var_at var) (\<lambda>v.
         if readonly_p v \<or> noassign_p v then
           sq (only_if (readonly_p v) (report (M_readonly name))) (ret (newname, var, True))
         else ret (newname, var, False))))"

text \<open>The variable in the temporary environment.\<close>

definition enter_env :: "'e hooks \<Rightarrow> cstring \<Rightarrow> cstring \<Rightarrow> int \<Rightarrow> ('e, int) cmd" where
  "enter_env h newname val flags =
     sq (bnd (gets temporary_env) (\<lambda>t. only_if (t = None)
           (bnd (new_table TEMPENV_HASH_BUCKETS) (\<lambda>t. modify (\<lambda>s. s\<lparr>temporary_env := t\<rparr>)))))
    (bnd (gets temporary_env) (\<lambda>t.
     bnd (hash_lookup newname t) (\<lambda>var.
     bnd (if var = None then make_new_variable newname t else ret var) (\<lambda>var.
     sq (var_setvalue var (Some val))
    (sq (VSETATTR var (att_exported OR att_tempvar))
    (sq (set_context var)
    (bnd (gets sh_ifs) (\<lambda>st.
     sq (set_var var (\<lambda>v. v\<lparr>sv_exportstr := Some (mk_env_string st newname (Some val) 0)\<rparr>))
    (sq need_array
    (sq (only_if (flags \<noteq> 0)
           (sq (only_if (newname = ''POSIXLY_CORRECT'' \<or> newname = ''POSIX_PEDANDTIC'') (hk_save_posix_options h))
               (stupidly_hack_special_variables h newname)))
       (ret 1)))))))))))"

definition assign_in_env :: "'e hooks \<Rightarrow> cstring \<Rightarrow> int \<Rightarrow> ('e, int) cmd" where
  "assign_in_env h string flags =
     (let offset = assignment h string in
      if char_at string offset \<noteq> CHR ''='' then enter_env h string [] flags
      else if offset = 0 then crash
      else
        (let plus = (char_at string (offset - 1) = CHR ''+'');
             name = (if plus then take (offset - 1) string else take offset string);
             aflags = (if plus then ASS_APPEND else 0)
         in if \<not> legal_identifier (Some name) then sq (report (M_invalidid (Some name))) (ret 0)
            else bnd (env_target h name) (\<lambda>(newname, var, refused).
              if refused then ret 0
              else bnd (hk_expand_assignment h (drop (offset + 1) string)) (\<lambda>val.
                bnd (if var \<noteq> None \<and> has_flag aflags ASS_APPEND
                     then make_variable_value h var (Some (case val of None \<Rightarrow> [] | Some v \<Rightarrow> v)) aflags
                     else ret val) (\<lambda>val.
                enter_env h newname (case val of None \<Rightarrow> [] | Some v \<Rightarrow> v) flags)))))"

section \<open>The environment of a command\<close>

text \<open>The string for one variable; \<open>None\<close> if it has none. A string made anew is kept with the variable.\<close>

definition env_string :: "'e hooks \<Rightarrow> ptr \<Rightarrow> ('e, cstring option) cmd" where
  "env_string h var =
     bnd (var_at var) (\<lambda>v.
     bnd (if regen_p v \<and> sv_dynamic_value v \<noteq> None then
            bnd (hk_dynamic_value h (the (sv_dynamic_value v)) var) (\<lambda>var. sq (INVALIDATE_EXPORTSTR var) (ret var))
          else ret var) (\<lambda>var.
     bnd (var_at var) (\<lambda>v.
     let save = (\<lambda>val. bnd (gets sh_ifs) (\<lambda>st.
           let e = mk_env_string st (sv_name v) (Some val) (sv_attributes v)
           in sq (set_var var (\<lambda>v. v\<lparr>sv_exportstr := Some e\<rparr>)) (ret (Some e)))) in
     case sv_exportstr v of
       Some e \<Rightarrow> if array_p v \<or> assoc_p v then save e else ret (Some e)
     | None \<Rightarrow>
         if function_p v then
           (case sv_value v of
              None \<Rightarrow> save (hk_named_function_string h None)
            | Some (C_func f) \<Rightarrow> save (hk_named_function_string h (Some f))
            | _ \<Rightarrow> crash)
         else if array_p v \<or> assoc_p v then ret None
         else bnd (value_cell v) (\<lambda>x. case x of None \<Rightarrow> ret None | Some y \<Rightarrow> save y))))"

fun make_env_array_from_var_list :: "'e hooks \<Rightarrow> nat list \<Rightarrow> ('e, cstring list) cmd" where
  "make_env_array_from_var_list h [] = ret []"
| "make_env_array_from_var_list h (a # as) =
     bnd (env_string h (Some a)) (\<lambda>e.
     bnd (make_env_array_from_var_list h as) (\<lambda>l. ret (case e of None \<Rightarrow> l | Some x \<Rightarrow> x # l)))"

definition make_var_export_array :: "'e hooks \<Rightarrow> VAR_CONTEXT list \<Rightarrow> ('e, cstring list option) cmd" where
  "make_var_export_array h vcxt =
     bnd (map_over export_environment_candidate vcxt) (\<lambda>vars.
       case vars of None \<Rightarrow> ret None | Some l \<Rightarrow> bnd (make_env_array_from_var_list h l) (\<lambda>e. ret (Some e)))"

definition make_func_export_array :: "'e hooks \<Rightarrow> ('e, cstring list option) cmd" where
  "make_func_export_array h =
     bnd (map_over_funcs visible_and_exported) (\<lambda>vars.
       case vars of None \<Rightarrow> ret None | Some l \<Rightarrow> bnd (make_env_array_from_var_list h l) (\<lambda>e. ret (Some e)))"

definition add_to_export_env :: "cstring \<Rightarrow> ('e, unit) cmd" where
  "add_to_export_env envstr = modify (\<lambda>s. s\<lparr>export_env := export_env s @ [envstr]\<rparr>)"

text \<open>\<^verbatim>\<open>STREQN\<close> on the first \<open>n\<close> characters.\<close>

definition streqn :: "cstring \<Rightarrow> cstring \<Rightarrow> nat \<Rightarrow> bool" where
  "streqn a b n \<longleftrightarrow> n = 0 \<or> take n a = take n b"

fun supercede :: "cstring \<Rightarrow> nat \<Rightarrow> cstring list \<Rightarrow> cstring list option" where
  "supercede assign n [] = None"
| "supercede assign n (e # es) =
     (if streqn assign e n then Some (assign # es) else map_option (Cons e) (supercede assign n es))"

definition add_or_supercede_exported_var :: "'e hooks \<Rightarrow> cstring \<Rightarrow> ('e, unit) cmd" where
  "add_or_supercede_exported_var h assign =
     (let equal_offset = assignment h assign in
      if equal_offset = 0 then ret ()
      else
        (let equal_offset = (if char_at assign (equal_offset + 1) = CHR ''('' \<and>
                                take 3 (drop (equal_offset + 2) assign) = '') {'' then equal_offset + 4 else equal_offset)
         in bnd (gets export_env) (\<lambda>env.
              case supercede assign (equal_offset + 1) env of
                Some env' \<Rightarrow> modify (\<lambda>s. s\<lparr>export_env := env'\<rparr>)
              | None \<Rightarrow> add_to_export_env assign)))"

definition add_temp_array_to_env :: "'e hooks \<Rightarrow> cstring list option \<Rightarrow> bool \<Rightarrow> ('e, unit) cmd" where
  "add_temp_array_to_env h temp_array do_supercede =
     (case temp_array of
        None \<Rightarrow> ret ()
      | Some l \<Rightarrow> for_each (if do_supercede then add_or_supercede_exported_var h else add_to_export_env) l)"

text \<open>The contexts from which the environment is made: two made up for the occasion before the stack.\<close>

definition export_contexts :: "'e shell \<Rightarrow> VAR_CONTEXT list" where
  "export_contexts s =
     (let dummy = (\<lambda>t. \<lparr>vc_name = None, vc_scope = variable_context s, vc_flags = 0, vc_table = t\<rparr>);
          tcxt = (if temporary_env s \<noteq> None then dummy (temporary_env s) # shell_variables s else shell_variables s)
      in if invalid_env s \<noteq> None then dummy (invalid_env s) # tcxt else tcxt)"

definition maybe_make_export_env :: "'e hooks \<Rightarrow> ('e, unit) cmd" where
  "maybe_make_export_env h =
     bnd (gets array_needs_making) (\<lambda>n. only_if (n \<noteq> 0)
       (sq (modify (\<lambda>s. s\<lparr>export_env := []\<rparr>))
       (bnd (gets export_contexts) (\<lambda>icxt.
        bnd (make_var_export_array h icxt) (\<lambda>temp_array.
        sq (add_temp_array_to_env h temp_array False)
       (bnd (gets restricted) (\<lambda>r.
        bnd (if r then ret None else make_func_export_array h) (\<lambda>temp_array.
        sq (add_temp_array_to_env h temp_array False)
           (modify (\<lambda>s. s\<lparr>array_needs_making := 0\<rparr>))))))))))"

definition chkexport :: "'e hooks \<Rightarrow> cstring \<Rightarrow> ('e, int) cmd" where
  "chkexport h name =
     bnd (find_variable h name) (\<lambda>v.
       if v = None then ret 0
       else bnd (var_at v) (\<lambda>x.
         if exported_p x then sq need_array (sq (maybe_make_export_env h) (ret 1)) else ret 0))"

definition update_export_env_inplace :: "'e hooks \<Rightarrow> cstring \<Rightarrow> cstring option \<Rightarrow> ('e, unit) cmd" where
  "update_export_env_inplace h env_prefix val =
     add_or_supercede_exported_var h (env_prefix @ (case val of None \<Rightarrow> [] | Some v \<Rightarrow> v))"

definition put_command_name_into_env :: "'e hooks \<Rightarrow> cstring option \<Rightarrow> ('e, unit) cmd" where
  "put_command_name_into_env h command_name = update_export_env_inplace h ''_='' command_name"

definition dispose_used_env_vars :: "'e hooks \<Rightarrow> ('e, unit) cmd" where
  "dispose_used_env_vars h =
     bnd (gets temporary_env) (\<lambda>t. only_if (t \<noteq> None)
       (sq (dispose_temporary_env h (propagate_temp_var h)) (maybe_make_export_env h)))"

section \<open>Entering functions and builtins\<close>

text \<open>
  How \<^verbatim>\<open>execute_cmd.c\<close> enters a function or a builtin that runs commands of its own: the temporary environment becomes
  the table of the new context.
\<close>

definition enter_function :: "cstring \<Rightarrow> bool \<Rightarrow> ('e, unit) cmd" where
  "enter_function name subshell =
     bnd (gets temporary_env) (\<lambda>t.
     sq (push_context (Some name) subshell t) (modify (\<lambda>s. s\<lparr>temporary_env := None\<rparr>)))"

definition enter_builtin_env :: "('e, unit) cmd" where
  "enter_builtin_env =
     bnd (gets temporary_env) (\<lambda>t. only_if (t \<noteq> None)
       (sq (push_scope VC_BLTNENV t) (modify (\<lambda>s. s\<lparr>temporary_env := None\<rparr>))))"

end
