(* ===== verification/Variables_Inv.thy ===== *)
theory Variables_Inv
  imports Variables
begin

text \<open>
  What assignments and lookups keep of the store. A command keeps a predicate on states if every way it ends, by
  returning or by leaving for the top level, does. The locale \<open>kept_by_assignment\<close> collects what the primitive steps
  must keep so that the functions built from them do; it is instantiated for the invariant that no table of variables
  holds a stray pointer, and for the values of the readonly variables.
\<close>

section \<open>Keeping a predicate\<close>

definition keeps :: "('e shell \<Rightarrow> bool) \<Rightarrow> ('e, 'a) cmd \<Rightarrow> ('a \<Rightarrow> bool) \<Rightarrow> bool" where
  "keeps I m R \<longleftrightarrow> (\<forall>s. I s \<longrightarrow> (case m s of Ret x s' \<Rightarrow> I s' \<and> R x | Discard s' \<Rightarrow> I s' | Crash \<Rightarrow> True))"

abbreviation always :: "'a \<Rightarrow> bool" where "always \<equiv> \<lambda>_. True"

named_theorems keeps \<open>what commands keep\<close>

declare TrueI [keeps]

lemma keepsI:
  assumes "\<And>s x s'. I s \<Longrightarrow> m s = Ret x s' \<Longrightarrow> I s' \<and> R x" and "\<And>s s'. I s \<Longrightarrow> m s = Discard s' \<Longrightarrow> I s'"
  shows "keeps I m R"
  unfolding keeps_def
proof (intro allI impI)
  fix s assume "I s"
  with assms [of s] show "case m s of Ret x s' \<Rightarrow> I s' \<and> R x | Discard s' \<Rightarrow> I s' | Crash \<Rightarrow> True"
    by (cases "m s") simp_all
qed

lemma keepsD:
  assumes "keeps I m R" and "I s" and "m s = Ret x s'"
  shows "I s'" and "R x"
  using assms(1) [unfolded keeps_def, rule_format, OF assms(2)] assms(3) by simp_all

lemma keepsD_discard:
  assumes "keeps I m R" and "I s" and "m s = Discard s'"
  shows "I s'"
  using assms(1) [unfolded keeps_def, rule_format, OF assms(2)] assms(3) by simp

lemma keeps_final:
  assumes "keeps I m R" and "I s" and "final_state (m s) = Some s'"
  shows "I s'"
  using assms(3) keepsD(1) [OF assms(1,2)] keepsD_discard [OF assms(1,2)] by (cases "m s") simp_all

lemma keeps_weaken: "keeps I m R \<Longrightarrow> (\<And>x. R x \<Longrightarrow> R' x) \<Longrightarrow> keeps I m R'"
  by (rule keepsI) (blast dest: keepsD keepsD_discard)+

text \<open>A command may be replaced, from each state, by one that goes on from another state.\<close>

lemma keeps_pointwise:
  assumes "\<And>s. I s \<Longrightarrow> \<exists>m' s0. m s = m' s0 \<and> I s0 \<and> keeps I m' R"
  shows "keeps I m R"
proof (rule keepsI)
  fix s x s' assume "I s" and r: "m s = Ret x s'"
  then obtain m' s0 where m: "m s = m' s0" and s: "I s0" and k: "keeps I m' R" using assms by blast
  from keepsD [OF k s r [unfolded m]] show "I s' \<and> R x" by simp
next
  fix s s' assume "I s" and r: "m s = Discard s'"
  then obtain m' s0 where m: "m s = m' s0" and s: "I s0" and k: "keeps I m' R" using assms by blast
  from keepsD_discard [OF k s r [unfolded m]] show "I s'" .
qed

lemma keeps_always: "keeps I m R \<Longrightarrow> keeps I m always"
  by (erule keeps_weaken) simp

lemma keeps_ret [keeps]: "R x \<Longrightarrow> keeps I (ret x) R"
  by (simp add: keeps_def ret_def)

lemma keeps_crash [keeps]: "keeps I crash R"
  by (simp add: keeps_def crash_def)

lemma keeps_discard [keeps]: "keeps I discard R"
  by (simp add: keeps_def discard_def)

lemma keeps_gets [keeps]: "keeps I (gets f) always"
  by (simp add: keeps_def gets_def)

lemma bnd_Ret: "bnd m f s = Ret x s'' \<Longrightarrow> \<exists>y s'. m s = Ret y s' \<and> f y s' = Ret x s''"
  by (cases "m s") (simp_all add: bnd_def)

lemma bnd_Discard: "bnd m f s = Discard s'' \<Longrightarrow> m s = Discard s'' \<or> (\<exists>y s'. m s = Ret y s' \<and> f y s' = Discard s'')"
  by (cases "m s") (simp_all add: bnd_def)

lemma keeps_bnd_post:
  assumes m: "keeps I m R'" and f: "\<And>x. R' x \<Longrightarrow> keeps I (f x) R"
  shows "keeps I (bnd m f) R"
proof (rule keepsI)
  fix s x s'' assume s: "I s" and "bnd m f s = Ret x s''"
  then obtain y s' where 1: "m s = Ret y s'" and 2: "f y s' = Ret x s''" by (blast dest: bnd_Ret)
  from f [OF keepsD(2) [OF m s 1]] keepsD(1) [OF m s 1] 2 show "I s'' \<and> R x" by (blast dest: keepsD)
next
  fix s s'' assume s: "I s" and "bnd m f s = Discard s''"
  then consider "m s = Discard s''" | y s' where "m s = Ret y s'" "f y s' = Discard s''" by (blast dest: bnd_Discard)
  then show "I s''"
  proof cases
    case 1
    then show ?thesis by (rule keepsD_discard [OF m s])
  next
    case 2
    from f [OF keepsD(2) [OF m s 2(1)]] keepsD(1) [OF m s 2(1)] 2(2) show ?thesis by (rule keepsD_discard)
  qed
qed

lemma keeps_bnd [keeps]: "keeps I m always \<Longrightarrow> (\<And>x. keeps I (f x) R) \<Longrightarrow> keeps I (bnd m f) R"
  by (rule keeps_bnd_post)

lemma keeps_sq [keeps]: "keeps I m always \<Longrightarrow> keeps I m' R \<Longrightarrow> keeps I (sq m m') R"
  unfolding sq_def by (rule keeps_bnd)

lemma keeps_only_if [keeps]: "(b \<Longrightarrow> keeps I m always) \<Longrightarrow> keeps I (only_if b m) always"
  by (simp add: only_if_def keeps_ret)

lemma keeps_if [keeps]:
  "(b \<Longrightarrow> keeps I m R) \<Longrightarrow> (\<not> b \<Longrightarrow> keeps I m' R) \<Longrightarrow> keeps I (if b then m else m') R"
  by simp

lemma keeps_case_option [keeps]:
  "(x = None \<Longrightarrow> keeps I m R) \<Longrightarrow> (\<And>y. x = Some y \<Longrightarrow> keeps I (f y) R)
   \<Longrightarrow> keeps I (case x of None \<Rightarrow> m | Some y \<Rightarrow> f y) R"
  by (cases x) auto

lemma keeps_case_prod [keeps]: "(\<And>a b. x = (a, b) \<Longrightarrow> keeps I (f a b) R) \<Longrightarrow> keeps I (case x of (a, b) \<Rightarrow> f a b) R"
  by (cases x) auto

lemma keeps_case_nat [keeps]:
  "(x = 0 \<Longrightarrow> keeps I m R) \<Longrightarrow> (\<And>y. x = Suc y \<Longrightarrow> keeps I (f y) R) \<Longrightarrow> keeps I (case x of 0 \<Rightarrow> m | Suc y \<Rightarrow> f y) R"
  by (cases x) auto

lemma keeps_Let [keeps]: "keeps I (f x) R \<Longrightarrow> keeps I (let y = x in f y) R"
  by simp

lemma keeps_modify: "(\<And>s. I s \<Longrightarrow> I (f s)) \<Longrightarrow> keeps I (modify f) always"
  by (simp add: keeps_def modify_def)

lemma keeps_for_each [keeps]: "(\<And>x. keeps I (f x) always) \<Longrightarrow> keeps I (for_each f xs) always"
  by (induction xs) (auto intro: keeps)

lemma keeps_var_at [keeps]: "keeps I (var_at p) always"
  by (simp add: keeps_def var_at_def split: option.splits)

lemma keeps_table_at [keeps]: "keeps I (table_at t) always"
  by (simp add: keeps_def table_at_def)

lemma keeps_context_at [keeps]: "keeps I (context_at i) always"
  by (simp add: keeps_def context_at_def)

lemma keeps_global_table [keeps]: "keeps I global_table always"
  by (simp add: keeps_def global_table_def)

lemma keeps_value_cell [keeps]: "keeps I (value_cell v) always"
  by (auto simp: value_cell_def split: option.splits cell.splits intro: keeps)

lemma keeps_array_cell [keeps]: "keeps I (array_cell v) always"
  by (auto simp: array_cell_def split: option.splits cell.splits intro: keeps)

lemma keeps_assoc_cell [keeps]: "keeps I (assoc_cell v) always"
  by (auto simp: assoc_cell_def split: option.splits cell.splits intro: keeps)

lemma keeps_tempenv_flags [keeps]: "keeps I tempenv_flags always"
  unfolding tempenv_flags_def by (rule keeps_gets)

text \<open>The functions reached through pointers keep a predicate.\<close>

definition hooks_keep :: "('e shell \<Rightarrow> bool) \<Rightarrow> 'e hooks \<Rightarrow> bool" where
  "hooks_keep I h \<longleftrightarrow>
     (\<forall>f p. keeps I (hk_dynamic_value h f p) always)
     \<and> (\<forall>f p v i k. keeps I (hk_assign_func h f p v i k) always)
     \<and> (\<forall>e. keeps I (hk_evalexp h e) always)
     \<and> (\<forall>n. keeps I (hk_special_var h n) always)
     \<and> (\<forall>n fl. keeps I (hk_valid_array_reference h n fl) always)
     \<and> (\<forall>n. keeps I (hk_array_variable_name h n) always)
     \<and> (\<forall>n v fl. keeps I (hk_assign_array_element h n v fl) always)
     \<and> (\<forall>v. keeps I (hk_set_current_options h v) always)
     \<and> keeps I (hk_save_posix_options h) always
     \<and> (\<forall>v. keeps I (hk_expand_assignment h v) always)"

lemma hooks_keepD [keeps]:
  assumes "hooks_keep I h"
  shows "keeps I (hk_dynamic_value h f p) always" and "keeps I (hk_assign_func h f p v i k) always"
    and "keeps I (hk_evalexp h e) always" and "keeps I (hk_special_var h n) always"
    and "keeps I (hk_valid_array_reference h n fl) always" and "keeps I (hk_array_variable_name h n) always"
    and "keeps I (hk_assign_array_element h n w fl) always" and "keeps I (hk_set_current_options h w) always"
    and "keeps I (hk_save_posix_options h) always" and "keeps I (hk_expand_assignment h x) always"
  using assms unfolding hooks_keep_def by blast+

section \<open>What assignment keeps\<close>

text \<open>
  \<open>prot\<close> is a set of variables that are readonly and no references while the predicate holds; the primitive steps
  keep the predicate as long as they write to other variables.
\<close>

locale kept_by_assignment =
  fixes I :: "'e shell \<Rightarrow> bool" and prot :: "nat set"
  assumes prot_seen: "I s \<Longrightarrow> a \<in> prot \<Longrightarrow> a < length (sh_heap s) \<Longrightarrow> readonly_p (sh_heap s ! a) \<and> \<not> nameref_p (sh_heap s ! a)"
    and lookup_kept: "keeps I (hash_lookup n t) always"
    and write_kept: "p \<notin> Some ` prot \<Longrightarrow> (\<And>v. sv_name (f v) = sv_name v) \<Longrightarrow> keeps I (set_var p f) always"
    and export_kept: "keeps I (VSETATTR p att_exported) always"
    and new_var_kept: "keeps I (new_var v) (\<lambda>p. p \<notin> Some ` prot)"
    and make_new_kept: "keeps I (make_new_variable n t) (\<lambda>p. p \<notin> Some ` prot)"
    and tables_kept: "keeps I need_tables always"
    and tempenv_kept: "keeps I (bind_tempenv_variable n val) always"
    and report_kept: "keeps I (report msg) always"
    and need_array_kept: "keeps I need_array always"
    and searched_kept: "I s \<Longrightarrow> I (s\<lparr>last_table_searched := None\<rparr>)"
begin

lemmas kept = lookup_kept export_kept tables_kept tempenv_kept report_kept need_array_kept
  new_var_kept [THEN keeps_always] make_new_kept [THEN keeps_always]

lemma var_at_kept:
  assumes "\<And>v. (p \<in> Some ` prot \<Longrightarrow> readonly_p v \<and> \<not> nameref_p v) \<Longrightarrow> keeps I (f v) R"
  shows "keeps I (bnd (var_at p) f) R"
proof -
  have read: "p \<in> Some ` prot \<Longrightarrow> readonly_p v \<and> \<not> nameref_p v" if "I s" and "var_at p s = Ret v s'" for s v s'
    using that prot_seen [of s] by (auto simp: var_at_def split: option.splits if_splits)
  have same: "s' = s" if "var_at p s = Ret v s'" for s v s'
    using that by (simp add: var_at_def split: option.splits if_splits)
  show ?thesis
  proof (rule keepsI)
    fix s x s'' assume s: "I s" and "bnd (var_at p) f s = Ret x s''"
    then obtain v s' where 1: "var_at p s = Ret v s'" and 2: "f v s' = Ret x s''" by (blast dest: bnd_Ret)
    from assms [OF read [OF s 1]] s 2 same [OF 1] show "I s'' \<and> R x" by (blast dest: keepsD)
  next
    fix s s'' assume s: "I s" and d: "bnd (var_at p) f s = Discard s''"
    have "var_at p s \<noteq> Discard s''" by (simp add: var_at_def split: option.splits)
    with d obtain v s' where 1: "var_at p s = Ret v s'" and 2: "f v s' = Discard s''" by (blast dest: bnd_Discard)
    from assms [OF read [OF s 1]] s 2 same [OF 1] show "I s''" by (blast dest: keepsD_discard)
  qed
qed

lemma values_kept:
  assumes "p \<notin> Some ` prot"
  shows "keeps I (var_setvalue p x) always" and "keeps I (var_setarray p y) always"
    and "keeps I (var_setassoc p z) always" and "keeps I (INVALIDATE_EXPORTSTR p) always"
    and "keeps I (VSETATTR p a) always" and "keeps I (VUNSETATTR p a) always"
  unfolding var_setvalue_def var_setarray_def var_setassoc_def INVALIDATE_EXPORTSTR_def VSETATTR_def VUNSETATTR_def
  by (rule write_kept [OF assms]; simp)+

lemma lookup_loop_kept: "keeps I (lookup_loop n vcs) always"
  by (induction vcs) (simp_all add: keeps_ret keeps_bnd kept keeps_if keeps_var_at)

lemma visible_loop_kept: "keeps I (visible_loop n vcs) always"
  by (induction vcs) (simp_all add: keeps_ret keeps_bnd kept keeps_if keeps_var_at)

lemma var_lookup_kept: "keeps I (var_lookup n) always" "keeps I (var_lookup_global n) always"
  unfolding var_lookup_def var_lookup_global_def by (auto intro!: keeps lookup_loop_kept)

lemma current_value_kept: "hooks_keep I h \<Longrightarrow> keeps I (current_value h p) always"
  unfolding current_value_def by (intro keeps)

lemma find_variable_internal_kept: "hooks_keep I h \<Longrightarrow> keeps I (find_variable_internal h n fl) always"
  unfolding find_variable_internal_def
  by (intro keeps kept var_lookup_kept visible_loop_kept current_value_kept)

lemma find_global_variable_noref_kept: "hooks_keep I h \<Longrightarrow> keeps I (find_global_variable_noref h n) always"
  unfolding find_global_variable_noref_def by (intro keeps var_lookup_kept current_value_kept)

lemma nameref_loop_kept: "hooks_keep I h \<Longrightarrow> keeps I (nameref_loop h orig k v) always"
proof (induction k arbitrary: v)
  case 0
  then show ?case by (subst nameref_loop.simps) (simp only: nat.case, intro keeps kept)
next
  case (Suc k)
  then show ?case
    by (subst nameref_loop.simps)
       (simp only: nat.case, intro keeps kept find_variable_internal_kept find_global_variable_noref_kept Suc.IH)
qed

lemma follow_nameref_kept: "hooks_keep I h \<Longrightarrow> keeps I (follow_nameref h v) always"
  unfolding follow_nameref_def find_variable_nameref_def by (intro keeps nameref_loop_kept)

lemma find_variable_noref_kept: "hooks_keep I h \<Longrightarrow> keeps I (find_variable_noref h n) always"
  unfolding find_variable_noref_def by (intro keeps find_variable_internal_kept)

lemma last_nameref_loop_kept:
  assumes "\<And>n. keeps I (step n) always"
  shows "keeps I (last_nameref_loop step fl k v nv) always"
proof (induction k arbitrary: v nv)
  case 0
  then show ?case by (subst last_nameref_loop.simps) (simp only: nat.case, intro keeps)
next
  case (Suc k)
  then show ?case by (subst last_nameref_loop.simps) (simp only: nat.case, intro keeps assms Suc.IH)
qed

lemma find_variable_last_nameref_kept: "hooks_keep I h \<Longrightarrow> keeps I (find_variable_last_nameref h n fl) always"
  unfolding find_variable_last_nameref_def
  by (intro keeps find_variable_noref_kept last_nameref_loop_kept find_variable_internal_kept)

lemma find_global_variable_kept: "hooks_keep I h \<Longrightarrow> keeps I (find_global_variable h n) always"
  unfolding find_global_variable_def by (intro keeps var_lookup_kept follow_nameref_kept current_value_kept)

lemma find_variable_kept: "hooks_keep I h \<Longrightarrow> keeps I (find_variable h n) always"
  unfolding find_variable_def
  by (intro keeps find_variable_internal_kept follow_nameref_kept keeps_modify searched_kept)

lemma nameref_at_loop_kept: "keeps I (nameref_at_loop t k v) always"
proof (induction k arbitrary: v)
  case 0
  then show ?case by (subst nameref_at_loop.simps) (simp only: nat.case, intro keeps)
next
  case (Suc k)
  then show ?case by (subst nameref_at_loop.simps) (simp only: nat.case, intro keeps kept Suc.IH)
qed

lemma find_nameref_at_context_kept: "keeps I (find_nameref_at_context v vc) always"
  unfolding find_nameref_at_context_def by (rule nameref_at_loop_kept)

lemma nameref_context_loop_kept: "keeps I (nameref_context_loop vcs nv i) always"
proof (induction vcs arbitrary: nv i)
  case (Cons a vcs)
  then show ?case
    by (cases a) (simp only: nameref_context_loop.simps, intro keeps find_nameref_at_context_kept Cons.IH)
qed (simp only: nameref_context_loop.simps, intro keeps)

lemma last_nameref_context_loop_kept: "keeps I (last_nameref_context_loop vcs nv i) always"
proof (induction vcs arbitrary: nv i)
  case (Cons a vcs)
  then show ?case
    by (cases a) (simp only: last_nameref_context_loop.simps, intro keeps find_nameref_at_context_kept Cons.IH)
qed (simp only: last_nameref_context_loop.simps, intro keeps)

lemma nameref_contexts_kept:
  "keeps I (find_variable_nameref_context v i j) always" "keeps I (find_variable_last_nameref_context v i j) always"
  unfolding find_variable_nameref_context_def find_variable_last_nameref_context_def
  by (intro keeps nameref_context_loop_kept last_nameref_context_loop_kept)+

lemma valid_nameref_value_kept: "hooks_keep I h \<Longrightarrow> keeps I (valid_nameref_value h n fl) always"
  unfolding valid_nameref_value_def by (intro keeps)

lemmas lookups_kept = var_lookup_kept find_variable_internal_kept find_variable_noref_kept find_variable_kept
  find_variable_last_nameref_kept find_global_variable_kept nameref_contexts_kept valid_nameref_value_kept

lemma get_variable_value_kept: "p \<notin> Some ` prot \<Longrightarrow> keeps I (get_variable_value p) always"
  unfolding get_variable_value_def by (intro keeps values_kept)

lemma plain_value_kept: "p \<notin> Some ` prot \<Longrightarrow> keeps I (plain_value p val fl) always"
  unfolding plain_value_def by (intro keeps get_variable_value_kept)

lemma make_variable_value_kept:
  assumes "hooks_keep I h" and "p \<notin> Some ` prot"
  shows "keeps I (make_variable_value h p val fl) always"
  unfolding make_variable_value_def expression_error_def by (intro keeps plain_value_kept assms)

lemma dispose_variable_kept: "keeps I (dispose_variable p) always"
  unfolding dispose_variable_def by (intro keeps kept)

lemma make_array_variable_value_kept:
  assumes "hooks_keep I h" and "p \<notin> Some ` prot"
  shows "keeps I (make_array_variable_value h p ind key val fl) always"
  unfolding make_array_variable_value_def
  by (intro keeps values_kept make_variable_value_kept dispose_variable_kept keeps_bnd_post [OF new_var_kept] assms)

lemma mark_assigned_kept: "keeps I (mark_assigned p) always"
  unfolding mark_assigned_def by (intro keeps kept)

lemma optimized_assignment_kept: "p \<notin> Some ` prot \<Longrightarrow> keeps I (optimized_assignment p val) always"
  unfolding optimized_assignment_def by (intro keeps values_kept)

text \<open>An assignment that is not forced leaves a protected variable alone, since it is readonly.\<close>

lemma assign_value_kept:
  assumes "hooks_keep I h" and "\<not> has_flag fl ASS_FORCE \<or> prot = {}"
  shows "keeps I (assign_value h p val fl) always"
proof (cases "p \<in> Some ` prot")
  case True
  with assms(2) have "\<not> has_flag fl ASS_FORCE" by auto
  with True show ?thesis
    unfolding assign_value_def by (intro var_at_kept) (simp only: simp_thms if_True, intro keeps kept)
next
  case False
  then show ?thesis
    unfolding assign_value_def
    by (intro keeps kept values_kept optimized_assignment_kept mark_assigned_kept make_variable_value_kept
        make_array_variable_value_kept assms(1))
qed

lemma assign_by_func_kept:
  assumes "hooks_keep I h" and "\<not> has_flag fl ASS_FORCE \<or> prot = {}"
  shows "keeps I (assign_by_func h f p val fl) always"
proof (cases "p \<in> Some ` prot")
  case True
  with assms(2) have "\<not> has_flag fl ASS_FORCE" by auto
  with True show ?thesis
    unfolding assign_by_func_def by (intro var_at_kept) (simp only: simp_thms if_True, intro keeps kept)
next
  case False
  then show ?thesis
    unfolding assign_by_func_def by (intro keeps kept values_kept make_variable_value_kept assms(1))
qed

text \<open>A protected variable is no reference, so it keeps its value when a reference is turned into an array.\<close>

lemma unref_kept:
  "keeps I (bnd (var_at p) (\<lambda>t. only_if (nameref_p t)
     (sq (report (M_removing_nameref (sv_name t))) (sq (var_setvalue p None) (VUNSETATTR p att_nameref))))) always"
  by (rule var_at_kept) (cases "p \<in> Some ` prot"; simp add: only_if_def keeps_ret keeps_sq kept values_kept)

lemma assign_referenced_element_kept:
  "hooks_keep I h \<Longrightarrow> keeps I (assign_referenced_element h n val fl) always"
  unfolding assign_referenced_element_def by (intro keeps unref_kept mark_assigned_kept lookups_kept)

lemma bind_new_variable_kept:
  assumes "hooks_keep I h"
  shows "keeps I (bind_new_variable h n val t fl) always"
  unfolding bind_new_variable_def
  by (intro keeps keeps_bnd_post [OF make_new_kept] make_variable_value_kept values_kept mark_assigned_kept assms)

lemma binding_entry_kept: "hooks_keep I h \<Longrightarrow> keeps I (binding_entry h n t fl) always"
  unfolding binding_entry_def by (intro keeps kept lookups_kept)

lemma bind_variable_internal_kept:
  assumes "hooks_keep I h" and "\<not> has_flag fl ASS_FORCE \<or> prot = {}"
  shows "keeps I (bind_variable_internal h n val t hf fl) always"
  unfolding bind_variable_internal_def
  by (intro keeps kept lookups_kept binding_entry_kept bind_new_variable_kept assign_value_kept assign_by_func_kept
      assign_referenced_element_kept assms)

lemma bind_global_variable_kept:
  "hooks_keep I h \<Longrightarrow> \<not> has_flag fl ASS_FORCE \<or> prot = {} \<Longrightarrow> keeps I (bind_global_variable h n val fl) always"
  unfolding bind_global_variable_def by (intro keeps kept bind_variable_internal_kept)

lemma bind_in_context_kept:
  assumes "hooks_keep I h" and "\<not> has_flag fl ASS_FORCE \<or> prot = {}"
  shows "keeps I (bind_in_context h v i val fl) always"
  unfolding bind_in_context_def Let_def
  by (intro keeps kept lookups_kept bind_global_variable_kept bind_variable_internal_kept assms)

lemma bind_loop_kept:
  assumes "hooks_keep I h" and "\<not> has_flag fl ASS_FORCE \<or> prot = {}"
  shows "keeps I (bind_loop h n val fl vcs) always"
proof (induction vcs)
  case (Cons a vcs)
  then show ?case
    by (cases a) (simp only: bind_loop.simps, intro keeps kept bind_in_context_kept Cons.IH assms)
qed (simp only: bind_loop.simps, intro keeps bind_variable_internal_kept assms)

lemma bind_variable_kept:
  assumes "hooks_keep I h" and "\<not> has_flag fl ASS_FORCE \<or> prot = {}"
  shows "keeps I (bind_variable h n val fl) always"
  unfolding bind_variable_def by (intro keeps kept bind_loop_kept assms)

end

section \<open>Tables in which a key may occur twice\<close>

text \<open>
  Some callers enter a name without searching for it, so that a table may come to hold a name twice. The entries of a
  table are therefore described as a set, under an assumption on its shape only.
\<close>

definition hash_shape :: "'a hash_table \<Rightarrow> bool" where
  "hash_shape h \<longleftrightarrow> 0 < ht_nbuckets h \<and> ht_nbuckets h < 2 ^ 31 \<and> length (ht_bucket_array h) = nat (ht_nbuckets h)"

definition entry_set :: "'a hash_table \<Rightarrow> (cstring \<times> 'a option) set" where
  "entry_set h = (\<lambda>b. (bc_key b, bc_data b)) ` set (all_items h)"

lemma entry_set_mset: "mset (all_items h) = mset (all_items h') \<Longrightarrow> entry_set h = entry_set h'"
  unfolding entry_set_def by (metis set_mset_mset)

lemma hash_shape_create [simp]: "0 \<le> n \<Longrightarrow> n < 2 ^ 31 \<Longrightarrow> hash_shape (hash_create n)"
  by (simp add: hash_shape_def hash_create_def Let_def DEFAULT_HASH_BUCKETS_def)

lemma entry_set_create [simp]: "entry_set (hash_create n) = {}"
  by (simp add: entry_set_def)

lemma shape_bucket: "hash_shape h \<Longrightarrow> HASH_BUCKET n h < length (ht_bucket_array h)"
  by (simp add: hash_shape_def HASH_BUCKET_def bucket_index_less)

lemma item_at_entry:
  assumes "ref_ok h r"
  shows "(bc_key (item_at h r), bc_data (item_at h r)) \<in> entry_set h"
proof -
  have "item_at h r \<in> set (all_items h)"
    using nth_mem [OF flat_pos_less [OF assms]] by (simp add: flat_pos_nth [OF assms])
  then show ?thesis unfolding entry_set_def by (rule imageI)
qed

lemma update_item_mset:
  assumes "ref_ok h r"
  shows "mset (all_items (update_item r f h)) = add_mset (f (item_at h r)) (mset (all_items h) - {#item_at h r#})"
  using assms by (simp add: update_item_items mset_update flat_pos_less flat_pos_nth)

lemma update_item_shape [simp]: "hash_shape (update_item r f h) = hash_shape h"
  by (simp add: hash_shape_def)

lemma shape_grow:
  assumes "hash_shape h"
  shows "hash_shape (hash_grow h)" and "mset (all_items (hash_grow h)) = mset (all_items h)"
proof -
  let ?n = "wrap32 (ht_nbuckets h * HASH_REHASH_MULTIPLIER)"
  have arr: "ht_bucket_array (hash_rehash h ?n) = fold (rehash_item ?n) (all_items h) (replicate (nat ?n) [])"
    if "?n \<noteq> ht_nbuckets h"
    using that assms fold_rehash_concat [of ?n "ht_bucket_array h"]
    by (simp add: hash_rehash_def all_items_def hash_shape_def)
  have "hash_shape (hash_rehash h ?n) \<and> mset (all_items (hash_rehash h ?n)) = mset (all_items h)" if "?n > 0"
  proof (cases "?n = ht_nbuckets h")
    case True
    then show ?thesis using assms by (simp add: hash_rehash_def)
  next
    case False
    let ?a = "fold (rehash_item ?n) (all_items h) (replicate (nat ?n) [])"
    have "mset (concat ?a) = mset (all_items h)"
      using fold_rehash_mset [OF that wrap32_pos_range, of "replicate (nat ?n) []" "all_items h"]
      by (simp del: mset_concat)
    moreover have "all_items (hash_rehash h ?n) = concat ?a" by (simp add: all_items_def [of "hash_rehash h ?n"] arr [OF False])
    moreover have "hash_shape (hash_rehash h ?n)"
      using that wrap32_pos_range by (simp add: hash_shape_def arr [OF False])
    ultimately show ?thesis by simp
  qed
  with assms show "hash_shape (hash_grow h)" and "mset (all_items (hash_grow h)) = mset (all_items h)"
    by (simp_all add: hash_grow_def Let_def)
qed

lemma shape_found:
  assumes "hash_shape h" and "chain_find (hash_string n) n (ht_bucket_array h ! HASH_BUCKET n h) = Some p"
  shows "ref_ok h (HASH_BUCKET n h, p)" and "bc_key (item_at h (HASH_BUCKET n h, p)) = n"
  using shape_bucket [OF assms(1), of n] chain_find_Some [OF assms(2)]
  by (simp_all add: ref_ok_def item_at_def)

lemma update_item_entries:
  assumes "ref_ok h r" and "bc_key (f (item_at h r)) = n"
  shows "entry_set (update_item r f h) \<subseteq> insert (n, bc_data (f (item_at h r))) (entry_set h)"
proof -
  have "set (all_items (update_item r f h)) \<subseteq> insert (f (item_at h r)) (set (all_items h))"
    by (simp add: update_item_items [OF assms(1)] set_update_subset_insert)
  then show ?thesis using assms(2) by (auto simp: entry_set_def)
qed

text \<open>\<^verbatim>\<open>hash_search\<close> returns one of the entries and changes none.\<close>

lemma shape_search:
  assumes "hash_shape h" and "hash_search n (Some h) 0 = (Some r, Some h')"
  shows "hash_shape h'" and "entry_set h' \<subseteq> entry_set h" and "(n, bc_data (item_at h' r)) \<in> entry_set h"
proof -
  let ?f = "\<lambda>b. b\<lparr>bc_times_found := wrap32 (bc_times_found b + 1)\<rparr>"
  from assms(2) obtain p where p: "chain_find (hash_string n) n (ht_bucket_array h ! HASH_BUCKET n h) = Some p"
    and r: "r = (HASH_BUCKET n h, p)" and h': "h' = update_item r ?f h"
    by (auto simp: hash_search_def Let_def split: if_splits option.splits)
  note ok = shape_found [OF assms(1) p, folded r]
  show "hash_shape h'" using assms(1) by (simp add: h')
  show n: "(n, bc_data (item_at h' r)) \<in> entry_set h"
    using item_at_entry [OF ok(1)] ok(2) by (simp add: h' update_item_at [OF ok(1)])
  show "entry_set h' \<subseteq> entry_set h"
    using update_item_entries [OF ok(1), of ?f n] ok(2) n by (simp add: h' update_item_at [OF ok(1)] insert_absorb)
qed

text \<open>Entering a name and setting its data adds one entry at most, whether or not the name is searched for.\<close>

lemma shape_insert:
  assumes "hash_shape h" and ins: "hash_insert n (Some h) fl = (r, h')"
  shows "hash_shape h'" and "entry_set (update_item r (\<lambda>b. b\<lparr>bc_data := d\<rparr>) h') \<subseteq> insert (n, d) (entry_set h)"
proof -
  let ?f = "\<lambda>b. b\<lparr>bc_data := d\<rparr>"
  obtain item t where it: "(if fl AND HASH_NOSRCH \<noteq> 0 then (None, h)
      else case hash_search n (Some h) 0 of (r, Some t') \<Rightarrow> (r, t') | (r, None) \<Rightarrow> (r, h)) = (item, t)"
    by fastforce
  have "hash_shape h' \<and> entry_set (update_item r ?f h') \<subseteq> insert (n, d) (entry_set h)"
  proof (cases item)
    case (Some q)
    with it have srch: "hash_search n (Some h) 0 = (Some q, Some t)"
      by (auto simp: hash_search_def Let_def split: if_splits option.splits prod.splits)
    from ins it Some have eq: "r = q" "h' = t" by (simp_all add: hash_insert_def Let_def)
    from srch obtain p where p: "chain_find (hash_string n) n (ht_bucket_array h ! HASH_BUCKET n h) = Some p"
      and q: "q = (HASH_BUCKET n h, p)"
      and t: "t = update_item q (\<lambda>b. b\<lparr>bc_times_found := wrap32 (bc_times_found b + 1)\<rparr>) h"
      by (auto simp: hash_search_def Let_def split: if_splits option.splits)
    note ok = shape_found [OF assms(1) p, folded q]
    have "ref_ok t q" "bc_key (item_at t q) = n" using ok by (simp_all add: t update_item_at)
    from update_item_entries [OF this(1), of ?f n] this(2) shape_search(1,2) [OF assms(1) srch] show ?thesis
      unfolding eq by auto
  next
    case None
    let ?g = "if HASH_SHOULDGROW t then hash_grow t else t"
    from it None have t: "t = h"
      by (auto simp: hash_search_def Let_def split: if_splits option.splits prod.splits)
    have push: "push_item n ?g = (r, h')" using ins it None by (simp add: hash_insert_def Let_def)
    have g: "hash_shape ?g" "mset (all_items ?g) = mset (all_items h)"
      using assms(1) shape_grow [of h] by (simp_all add: t)
    let ?new = "\<lparr>bc_key = n, bc_data = None, bc_khash = hash_string n, bc_times_found = 0\<rparr>"
    have b: "HASH_BUCKET n ?g < length (ht_bucket_array ?g)" by (rule shape_bucket [OF g(1)])
    have ms: "mset (all_items h') = add_mset ?new (mset (all_items ?g))"
      using push b by (auto simp: push_item_def Let_def all_items_def concat_list_update
          concat_split_nth [of "HASH_BUCKET n ?g" "ht_bucket_array ?g"] simp del: mset_concat)
    have r: "ref_ok h' r" "item_at h' r = ?new" and sh: "hash_shape h'"
      using push b g(1) by (auto simp: push_item_def Let_def ref_ok_def item_at_def hash_shape_def)
    have "mset (all_items (update_item r ?f h')) = add_mset (?f ?new) (mset (all_items h))"
      by (simp add: update_item_mset [OF r(1)] r(2) ms g(2))
    then have "set (all_items (update_item r ?f h')) = insert (?f ?new) (set (all_items h))"
      by (metis set_mset_add_mset_insert set_mset_mset)
    then show ?thesis using sh by (simp add: entry_set_def)
  qed
  then show "hash_shape h'" and "entry_set (update_item r ?f h') \<subseteq> insert (n, d) (entry_set h)" by simp_all
qed

lemma shape_remove:
  assumes "hash_shape h" and "hash_remove n (Some h) 0 = (Some e, Some h')"
  shows "hash_shape h'" and "entry_set h' \<subseteq> entry_set h" and "(n, bc_data e) \<in> entry_set h"
proof -
  let ?b = "HASH_BUCKET n h" let ?c = "ht_bucket_array h ! ?b"
  from assms(2) obtain p where p: "chain_find (hash_string n) n ?c = Some p" and e: "e = ?c ! p"
    and h': "h' = h\<lparr>ht_bucket_array := (ht_bucket_array h)[?b := take p ?c @ drop (Suc p) ?c], ht_nentries := ht_nentries h - 1\<rparr>"
    by (auto simp: hash_remove_def Let_def split: if_splits option.splits)
  note ok = shape_found [OF assms(1) p]
  show "hash_shape h'" using assms(1) by (simp add: h' hash_shape_def)
  show "(n, bc_data e) \<in> entry_set h" using item_at_entry [OF ok(1)] ok(2) by (simp add: e item_at_def)
  have "set (concat ((ht_bucket_array h)[?b := take p ?c @ drop (Suc p) ?c])) \<subseteq> set (concat (ht_bucket_array h))"
  proof
    fix x assume "x \<in> set (concat ((ht_bucket_array h)[?b := take p ?c @ drop (Suc p) ?c]))"
    then obtain ch where ch: "ch \<in> set ((ht_bucket_array h)[?b := take p ?c @ drop (Suc p) ?c])" and x: "x \<in> set ch" by auto
    from ch consider "ch = take p ?c @ drop (Suc p) ?c" | "ch \<in> set (ht_bucket_array h)"
      using set_update_subset_insert by fastforce
    then show "x \<in> set (concat (ht_bucket_array h))"
    proof cases
      case 1
      with x have "x \<in> set ?c" by (auto dest: in_set_takeD in_set_dropD)
      then show ?thesis using shape_bucket [OF assms(1), of n] by force
    qed (use x in auto)
  qed
  then show "entry_set h' \<subseteq> entry_set h" unfolding h' entry_set_def all_items_def by (simp del: set_concat add: image_mono)
qed

lemma shape_flush:
  assumes "hash_shape h" and "hash_flush (Some h) = Some h'"
  shows "hash_shape h'" and "entry_set h' \<subseteq> entry_set h"
  using assms by (auto simp: hash_flush_def hash_shape_def entry_set_def all_items_def split: if_splits)

section \<open>Flags\<close>

lemma has_flag_or: "has_flag (x OR y) m \<longleftrightarrow> has_flag x m \<or> has_flag y m"
  by (auto simp: has_flag_def bit_eq_iff bit_simps)

lemma has_flag_clear: "a AND m = 0 \<Longrightarrow> has_flag (x AND NOT a) m = has_flag x m"
  by (auto simp: has_flag_def bit_eq_iff bit_simps)

section \<open>Readonly variables\<close>

text \<open>
  Two value cells hold the same: reading an element of an array moves the array's cache, and a lookup in an
  associative array counts.
\<close>

fun same_cell :: "cell \<Rightarrow> cell \<Rightarrow> bool" where
  "same_cell (C_str x) c \<longleftrightarrow> c = C_str x"
| "same_cell (C_array a) c \<longleftrightarrow> (case c of C_array b \<Rightarrow> elements a = elements b | _ \<Rightarrow> False)"
| "same_cell (C_assoc a) c \<longleftrightarrow> (case c of C_assoc b \<Rightarrow> hash_entries a = hash_entries b | _ \<Rightarrow> False)"
| "same_cell (C_func f) c \<longleftrightarrow> c = C_func f"

lemma same_cell_refl [simp]: "same_cell c c"
  by (cases c) simp_all

definition protected :: "'e shell \<Rightarrow> nat set" where
  "protected s = {a. a < length (sh_heap s) \<and> readonly_p (sh_heap s ! a) \<and> \<not> nameref_p (sh_heap s ! a)}"

text \<open>
  The state \<open>s\<close> still has the readonly variables of \<open>s0\<close>, with their values. There is no temporary environment: an
  assignment reaches into it without looking at attributes.
\<close>

definition readonly_kept :: "'e shell \<Rightarrow> 'e shell \<Rightarrow> bool" where
  "readonly_kept s0 s \<longleftrightarrow>
     temporary_env s = None \<and> length (sh_heap s0) \<le> length (sh_heap s)
     \<and> (\<forall>a \<in> protected s0. rel_option same_cell (sv_value (sh_heap s0 ! a)) (sv_value (sh_heap s ! a))
          \<and> readonly_p (sh_heap s ! a) \<and> \<not> nameref_p (sh_heap s ! a))"

lemma readonly_kept_heap:
  "readonly_kept s0 s \<Longrightarrow> temporary_env s' = temporary_env s \<Longrightarrow> sh_heap s' = sh_heap s \<Longrightarrow> readonly_kept s0 s'"
  by (simp add: readonly_kept_def)

lemma readonly_kept_heap_cmd:
  assumes "\<And>s x s'. m s = Ret x s' \<or> m s = Discard s' \<Longrightarrow> temporary_env s' = temporary_env s \<and> sh_heap s' = sh_heap s"
  shows "keeps (readonly_kept s0) m always"
  by (rule keepsI) (use assms readonly_kept_heap in blast)+

lemma protected_less: "a \<in> protected s0 \<Longrightarrow> a < length (sh_heap s0)"
  by (simp add: protected_def)

lemma readonly_kept_new: "keeps (readonly_kept s0) (new_var v) (\<lambda>p. p \<notin> Some ` protected s0)"
proof (rule keepsI)
  fix s p s' assume s: "readonly_kept s0 s" and "new_var v s = Ret p s'"
  then have p: "p = Some (length (sh_heap s))" and s': "s' = s\<lparr>sh_heap := sh_heap s @ [v]\<rparr>"
    by (simp_all add: new_var_def)
  have "a < length (sh_heap s)" if "a \<in> protected s0" for a
    using that s by (auto simp: readonly_kept_def dest: protected_less)
  with s show "readonly_kept s0 s' \<and> p \<notin> Some ` protected s0"
    unfolding p s' by (auto simp: readonly_kept_def nth_append)
qed (simp add: new_var_def)

lemma readonly_kept_set_var:
  assumes "\<And>a v. p = Some a \<Longrightarrow> a \<in> protected s0 \<Longrightarrow>
    sv_value (f v) = sv_value v \<and> readonly_p (f v) = readonly_p v \<and> nameref_p (f v) = nameref_p v"
  shows "keeps (readonly_kept s0) (set_var p f) always"
proof (rule keepsI)
  fix s x s' assume s: "readonly_kept s0 s" and "set_var p f s = Ret x s'"
  then obtain b where p: "p = Some b" and s': "s' = s\<lparr>sh_heap := (sh_heap s)[b := f (sh_heap s ! b)]\<rparr>"
    by (auto simp: set_var_def split: option.splits if_splits)
  have "rel_option same_cell (sv_value (sh_heap s0 ! a)) (sv_value (sh_heap s' ! a))
      \<and> readonly_p (sh_heap s' ! a) \<and> \<not> nameref_p (sh_heap s' ! a)" if a: "a \<in> protected s0" for a
  proof (cases "a = b")
    case True
    have "b < length (sh_heap s)" using a True s by (auto simp: readonly_kept_def dest: protected_less)
    with True a s assms [OF p] show ?thesis by (simp add: s' readonly_kept_def)
  next
    case False
    with a s show ?thesis by (simp add: s' readonly_kept_def)
  qed
  with s show "readonly_kept s0 s' \<and> True" by (simp add: s' readonly_kept_def)
qed (simp add: set_var_def split: option.splits if_splits)

lemma readonly_kept_tables: "keeps (readonly_kept s0) (table_at t) always"
  "keeps (readonly_kept s0) (set_table t h) always" "keeps (readonly_kept s0) (new_table n) always"
  "(\<And>s. temporary_env (f s) = temporary_env s \<and> sh_heap (f s) = sh_heap s) \<Longrightarrow> keeps (readonly_kept s0) (modify f) always"
  by (rule readonly_kept_heap_cmd; auto simp: table_at_def set_table_def new_table_def modify_def split: if_splits)+

lemma readonly_kept_lookup: "keeps (readonly_kept s0) (hash_lookup n t) always"
  unfolding hash_lookup_def
  by (intro keeps readonly_kept_tables; simp add: keeps_sq keeps_ret readonly_kept_tables split: prod.splits option.splits)

lemma readonly_kept_need_tables: "keeps (readonly_kept s0) need_tables always"
  unfolding need_tables_def create_variable_tables_def by (intro keeps readonly_kept_tables; simp)

lemma readonly_kept_make_new:
  "keeps (readonly_kept s0) (make_new_variable n t) (\<lambda>p. p \<notin> Some ` protected s0)"
  unfolding make_new_variable_def new_shell_variable_def insert_var_def
  by (rule keeps_bnd_post [OF readonly_kept_new])
     (intro keeps readonly_kept_tables readonly_kept_need_tables; simp add: readonly_kept_tables split: prod.splits)

interpretation ro: kept_by_assignment "readonly_kept s0" "protected s0" for s0 :: "'e shell"
proof
  show "readonly_p (sh_heap s ! a) \<and> \<not> nameref_p (sh_heap s ! a)"
    if "readonly_kept s0 s" "a \<in> protected s0" "a < length (sh_heap s)" for s :: "'e shell" and a
    using that by (simp add: readonly_kept_def)
  show "keeps (readonly_kept s0) (hash_lookup n t) always" for n t by (rule readonly_kept_lookup)
  show "keeps (readonly_kept s0) (set_var p f) always"
    if "p \<notin> Some ` protected s0" for p f
    by (rule readonly_kept_set_var) (use that in blast)
  show "keeps (readonly_kept s0) (VSETATTR p att_exported) always" for p
    unfolding VSETATTR_def
    by (rule readonly_kept_set_var) (simp add: readonly_p_def nameref_p_def has_flag_or, simp add: att_defs has_flag_def)
  show "keeps (readonly_kept s0) (new_var v) (\<lambda>p. p \<notin> Some ` protected s0)" for v by (rule readonly_kept_new)
  show "keeps (readonly_kept s0) (make_new_variable n t) (\<lambda>p. p \<notin> Some ` protected s0)" for n t
    by (rule readonly_kept_make_new)
  show "keeps (readonly_kept s0) need_tables always" by (rule readonly_kept_need_tables)
  show "keeps (readonly_kept s0) (bind_tempenv_variable n val) always" for n val
  proof -
    have none: "bind_tempenv_variable n val s = Ret None s" if "readonly_kept s0 s" for s :: "'e shell"
      using that by (simp add: readonly_kept_def bind_tempenv_variable_def bnd_def gets_def hash_lookup_def ret_def)
    show ?thesis by (rule keepsI) (simp_all add: none)
  qed
  show "keeps (readonly_kept s0) (report msg) always" for msg
    unfolding report_def by (rule readonly_kept_tables) simp
  show "keeps (readonly_kept s0) need_array always"
    unfolding need_array_def by (rule readonly_kept_tables) simp
  show "readonly_kept s0 (s\<lparr>last_table_searched := None\<rparr>)" if "readonly_kept s0 s" for s :: "'e shell"
    using that by (rule readonly_kept_heap) simp_all
qed

section \<open>A shell with three variables\<close>

text \<open>Hooks that do nothing, for shells without special variables.\<close>

definition plain_hooks :: "'e hooks" where
  "plain_hooks = \<lparr>hk_dynamic_value = \<lambda>f p. ret p, hk_assign_func = \<lambda>f p v i k. ret p, hk_evalexp = \<lambda>e. ret (0, True),
     hk_special_var = \<lambda>n. ret (), hk_valid_array_reference = \<lambda>n fl. ret False, hk_array_variable_name = \<lambda>n. ret None,
     hk_assign_array_element = \<lambda>n v fl. ret None, hk_set_current_options = \<lambda>v. ret (),
     hk_save_posix_options = ret (), hk_expand_assignment = \<lambda>v. ret (Some v), hk_skipsubscript = \<lambda>s i. length s,
     hk_named_function_string = \<lambda>f. ''() { :; }''\<rparr>"

lemma plain_hooks_keep: "hooks_keep I plain_hooks"
  by (simp add: hooks_keep_def plain_hooks_def keeps_ret)

definition var_named :: "cstring \<Rightarrow> cstring \<Rightarrow> int \<Rightarrow> SHELL_VAR" where
  "var_named n x a = blank_var\<lparr>sv_name := n, sv_value := Some (C_str x), sv_attributes := a\<rparr>"

text \<open>A state with one global context whose table holds the given variables.\<close>

definition enter_all :: "(cstring \<times> nat) list \<Rightarrow> nat hash_table" where
  "enter_all xs = foldl (\<lambda>h (n, a). let (r, h') = hash_insert n (Some h) HASH_NOSRCH
                                   in update_item r (\<lambda>b. b\<lparr>bc_data := Some a\<rparr>) h') (hash_create 4) xs"

definition shell_with :: "SHELL_VAR list \<Rightarrow> unit shell" where
  "shell_with vars = \<lparr>sh_heap = blank_var # blank_var # vars,
     sh_tables = [enter_all (zip (map sv_name vars) [2..<2 + length vars]), hash_create 4],
     shell_variables = [\<lparr>vc_name = None, vc_scope = 0, vc_flags = 0, vc_table = Some 0\<rparr>],
     shell_functions = Some 1, temporary_env = None, invalid_env = None, last_table_searched = None,
     variable_context = 0, array_needs_making = 0, export_env = [], tempvar_list = [], sh_ifs = setifs None,
     dollar_vars = replicate 10 None, rest_of_args = [], posparam_count = 0, dollar_arg_stack = [],
     expanding_redir = False, subshell_environment = False, assigning_in_environment = False,
     executing_builtin = False, mark_modified_vars = False, localvar_inherit = False, localvar_unset = False,
     posixly_correct = False, restricted = False, sh_messages = [], sh_other = ()\<rparr>"

definition example_shell :: "unit shell" where
  "example_shell = shell_with [var_named ''r'' ''1'' att_readonly, var_named ''x'' ''2'' 0]"

text \<open>
  An assignment \<^verbatim>\<open>name=value\<close> that is not forced never changes a readonly variable. Whatever name is assigned to,
  through local scopes, chains of references and references to array elements, and however the assignment ends, every
  variable that was readonly has the value it had and is still readonly, provided that the functions outside the component, the assignment to
  array elements among them, keep this as well. Two cases are outside the
  statement, because the code does not check them: a variable of a temporary environment, and a readonly
  name reference.
\<close>

theorem readonly_survives_assignment:
  assumes "hooks_keep (readonly_kept s) h" and "temporary_env s = None" and "\<not> has_flag flags ASS_FORCE"
    and "final_state (bind_variable h name val flags s) = Some s'"
    and "a < length (sh_heap s)" and "readonly_p (sh_heap s ! a)" and "\<not> nameref_p (sh_heap s ! a)"
  shows "rel_option same_cell (sv_value (sh_heap s ! a)) (sv_value (sh_heap s' ! a)) \<and> readonly_p (sh_heap s' ! a)"
proof -
  have "readonly_kept s s"
    using assms(2) by (auto simp: readonly_kept_def protected_def option.rel_refl)
  from keeps_final [OF ro.bind_variable_kept [OF assms(1) disjI1 [OF assms(3)]] this assms(4)]
  have "readonly_kept s s'" .
  with assms(5-7) show ?thesis by (simp add: readonly_kept_def protected_def)
qed

lemma readonly_survives_assignment_witness:
  "\<exists>s'. final_state (bind_variable plain_hooks ''r'' (Some ''5'') 0 example_shell) = Some s'
     \<and> rel_option same_cell (Some (C_str ''1'')) (sv_value (sh_heap s' ! 2)) \<and> readonly_p (sh_heap s' ! 2)"
proof -
  have "final_state (bind_variable plain_hooks ''r'' (Some ''5'') 0 example_shell) \<noteq> None" by code_simp
  then obtain s' where s': "final_state (bind_variable plain_hooks ''r'' (Some ''5'') 0 example_shell) = Some s'"
    by (auto simp only: not_None_eq)
  have a: "2 < length (sh_heap example_shell)" "readonly_p (sh_heap example_shell ! 2)"
    "\<not> nameref_p (sh_heap example_shell ! 2)" "sv_value (sh_heap example_shell ! 2) = Some (C_str ''1'')"
    by (simp_all add: example_shell_def shell_with_def var_named_def readonly_p_def nameref_p_def has_flag_def att_defs)
  have t: "temporary_env example_shell = None" "\<not> has_flag 0 ASS_FORCE"
    by (simp_all add: example_shell_def shell_with_def has_flag_def)
  from readonly_survives_assignment [OF plain_hooks_keep t s' a(1-3)]
  have r: "rel_option same_cell (Some (C_str ''1'')) (sv_value (sh_heap s' ! 2)) \<and> readonly_p (sh_heap s' ! 2)"
    by (simp only: a(4))
  from conjI [OF s' r] show ?thesis by (rule exI)
qed

end
