(* ===== verification/Scopes_Inv.thy ===== *)
theory Scopes_Inv
  imports Export Variables_Inv
begin

text \<open>
  The invariant of the variable store: the contexts form a stack over the global one, and every entry of every table
  leads to a variable of the entry's name. All operations on variables, scopes and temporary environments keep it.
\<close>

section \<open>The invariant\<close>

definition entries_ok :: "SHELL_VAR list \<Rightarrow> nat hash_table \<Rightarrow> bool" where
  "entries_ok heap h \<longleftrightarrow>
     (\<forall>(n, d) \<in> entry_set h. \<exists>a. d = Some a \<and> 2 \<le> a \<and> a < length heap \<and> sv_name (heap ! a) = n)"

definition ptr_ok :: "'e shell \<Rightarrow> ptr \<Rightarrow> bool" where
  "ptr_ok s t \<longleftrightarrow> (\<forall>i. t = Some i \<longrightarrow> i < length (sh_tables s))"

text \<open>The global context has a table and is neither a function's nor a temporary scope.\<close>

definition global_ok :: "VAR_CONTEXT \<Rightarrow> bool" where
  "global_ok vc \<longleftrightarrow> vc_table vc \<noteq> None \<and> vc_flags vc AND VC_TEMPFLAGS = 0"

definition vars_ok :: "'e shell \<Rightarrow> bool" where
  "vars_ok s \<longleftrightarrow>
     2 \<le> length (sh_heap s)
     \<and> shell_variables s \<noteq> [] \<and> global_ok (last (shell_variables s))
     \<and> (\<forall>vc \<in> set (shell_variables s). ptr_ok s (vc_table vc))
     \<and> ptr_ok s (shell_functions s) \<and> ptr_ok s (temporary_env s) \<and> ptr_ok s (invalid_env s)
     \<and> (\<forall>h \<in> set (sh_tables s). hash_shape h \<and> entries_ok (sh_heap s) h)"

text \<open>The fields of the state the invariant speaks of.\<close>

lemma vars_ok_same:
  "vars_ok s \<Longrightarrow> sh_heap s' = sh_heap s \<Longrightarrow> sh_tables s' = sh_tables s \<Longrightarrow> shell_variables s' = shell_variables s
   \<Longrightarrow> shell_functions s' = shell_functions s \<Longrightarrow> temporary_env s' = temporary_env s \<Longrightarrow> invalid_env s' = invalid_env s
   \<Longrightarrow> vars_ok s'"
  by (simp add: vars_ok_def ptr_ok_def)

lemma vars_ok_modify:
  assumes "\<And>s. sh_heap (f s) = sh_heap s \<and> sh_tables (f s) = sh_tables s \<and> shell_variables (f s) = shell_variables s
    \<and> shell_functions (f s) = shell_functions s \<and> temporary_env (f s) = temporary_env s \<and> invalid_env (f s) = invalid_env s"
  shows "keeps vars_ok (modify f) always"
  by (rule keeps_modify, erule vars_ok_same) (simp_all add: assms)

lemma vars_okD:
  assumes "vars_ok s"
  shows "2 \<le> length (sh_heap s)" and "shell_variables s \<noteq> []" and "global_ok (last (shell_variables s))"
    and "vc \<in> set (shell_variables s) \<Longrightarrow> ptr_ok s (vc_table vc)"
    and "ptr_ok s (shell_functions s)" and "ptr_ok s (temporary_env s)" and "ptr_ok s (invalid_env s)"
    and "i < length (sh_tables s) \<Longrightarrow> hash_shape (sh_tables s ! i)"
    and "i < length (sh_tables s) \<Longrightarrow> entries_ok (sh_heap s) (sh_tables s ! i)"
  using assms by (simp_all add: vars_ok_def)

section \<open>The primitive steps\<close>

lemma entries_ok_names:
  assumes "entries_ok heap h" and "length heap \<le> length heap'"
    and "\<And>a. a < length heap \<Longrightarrow> sv_name (heap' ! a) = sv_name (heap ! a)"
  shows "entries_ok heap' h"
  unfolding entries_ok_def
proof (clarify)
  fix n d assume "(n, d) \<in> entry_set h"
  with assms(1) obtain a where "d = Some a" "2 \<le> a" "a < length heap" "sv_name (heap ! a) = n"
    unfolding entries_ok_def by blast
  with assms(2,3) show "\<exists>a. d = Some a \<and> 2 \<le> a \<and> a < length heap' \<and> sv_name (heap' ! a) = n" by auto
qed

lemma vars_ok_heap:
  assumes "vars_ok s" and "length (sh_heap s) \<le> length heap"
    and "\<And>a. a < length (sh_heap s) \<Longrightarrow> sv_name (heap ! a) = sv_name (sh_heap s ! a)"
  shows "vars_ok (s\<lparr>sh_heap := heap\<rparr>)"
  using assms entries_ok_names [of "sh_heap s" _ heap] by (simp add: vars_ok_def ptr_ok_def)

lemma set_var_ok: "(\<And>v. sv_name (f v) = sv_name v) \<Longrightarrow> keeps vars_ok (set_var p f) always"
proof (rule keepsI)
  fix s x s' assume f: "\<And>v. sv_name (f v) = sv_name v" and s: "vars_ok s" and "set_var p f s = Ret x s'"
  then obtain b where b: "b < length (sh_heap s)" and s': "s' = s\<lparr>sh_heap := (sh_heap s)[b := f (sh_heap s ! b)]\<rparr>"
    by (auto simp: set_var_def split: option.splits if_splits)
  have "sv_name ((sh_heap s)[b := f (sh_heap s ! b)] ! a) = sv_name (sh_heap s ! a)" for a
    using b f by (cases "a = b") simp_all
  then have "vars_ok s'" unfolding s' by (intro vars_ok_heap [OF s]) simp_all
  then show "vars_ok s' \<and> True" by simp
qed (simp add: set_var_def split: option.splits if_splits)

lemma new_var_ok: "keeps vars_ok (new_var v) always"
proof (rule keepsI)
  fix s x s' assume s: "vars_ok s" and "new_var v s = Ret x s'"
  then have s': "s' = s\<lparr>sh_heap := sh_heap s @ [v]\<rparr>" by (simp add: new_var_def)
  have "vars_ok s'" unfolding s' by (rule vars_ok_heap [OF s]) (simp_all add: nth_append)
  then show "vars_ok s' \<and> True" by simp
qed (simp add: new_var_def)

text \<open>A table may be replaced by one whose entries are good.\<close>

lemma vars_ok_table:
  assumes "vars_ok s" and "hash_shape h" and "entries_ok (sh_heap s) h"
  shows "vars_ok (s\<lparr>sh_tables := (sh_tables s)[t := h]\<rparr>)"
proof -
  have "\<forall>h' \<in> set ((sh_tables s)[t := h]). hash_shape h' \<and> entries_ok (sh_heap s) h'"
    using assms set_update_subset_insert [of "sh_tables s" t h] by (auto simp: vars_ok_def)
  with assms(1) show ?thesis by (simp add: vars_ok_def ptr_ok_def)
qed

lemma entries_ok_subset: "entries_ok heap h \<Longrightarrow> entry_set h' \<subseteq> entry_set h \<Longrightarrow> entries_ok heap h'"
  unfolding entries_ok_def by blast

lemma new_table_ok: "0 \<le> n \<Longrightarrow> n < 2 ^ 31 \<Longrightarrow> keeps vars_ok (new_table n) always"
  by (rule keepsI)
     (auto simp: new_table_def vars_ok_def ptr_ok_def entries_ok_def intro: less_SucI)

lemma lookup_ok: "keeps vars_ok (hash_lookup n t) (\<lambda>p. p \<noteq> Some 0 \<and> p \<noteq> Some 1)"
proof (rule keepsI)
  fix s p s' assume s: "vars_ok s" and l: "hash_lookup n t s = Ret p s'"
  show "vars_ok s' \<and> p \<noteq> Some 0 \<and> p \<noteq> Some 1"
  proof (cases "\<exists>i r h'. t = Some i \<and> i < length (sh_tables s) \<and> hash_search n (Some (sh_tables s ! i)) 0 = (Some r, Some h')")
    case True
    then obtain i r h' where t: "t = Some i" "i < length (sh_tables s)"
      and r: "hash_search n (Some (sh_tables s ! i)) 0 = (Some r, Some h')" by blast
    let ?s = "s\<lparr>sh_tables := (sh_tables s)[i := h']\<rparr>"
    have s': "s' = ?s\<lparr>last_table_searched := Some i\<rparr>" and p: "p = bc_data (item_at h' r)"
      using l t r by (simp_all add: hash_lookup_def bnd_def table_at_def sq_def set_table_def modify_def ret_def)
    note srch = shape_search [OF vars_okD(8) [OF s t(2)] r]
    have "vars_ok ?s" using vars_ok_table [OF s srch(1) entries_ok_subset [OF vars_okD(9) [OF s t(2)] srch(2)]] .
    then have "vars_ok s'" unfolding s' by (rule vars_ok_same) simp_all
    moreover have "p \<noteq> Some 0 \<and> p \<noteq> Some 1"
      using srch(3) vars_okD(9) [OF s t(2)] by (auto simp: p entries_ok_def)
    ultimately show ?thesis by simp
  next
    case False
    then have "hash_lookup n t s = Ret None s \<or> hash_lookup n t s = Crash"
      by (auto simp: hash_lookup_def bnd_def table_at_def ret_def split: option.splits prod.splits)
    with l s show ?thesis by auto
  qed
next
  fix s s' assume "hash_lookup n t s = Discard s'"
  then show "vars_ok s'"
    by (auto simp: hash_lookup_def bnd_def table_at_def sq_def set_table_def modify_def ret_def split: option.splits prod.splits if_splits)
qed

text \<open>Entering a variable under its name.\<close>

lemma insert_var_ok:
  assumes "vars_ok s" and "a < length (sh_heap s)" and "2 \<le> a" and "sv_name (sh_heap s ! a) = n"
    and "final_state (insert_var n t fl (Some a) s) = Some s'"
  shows "vars_ok s'"
proof (cases t)
  case None
  with assms show ?thesis by (simp add: insert_var_def ret_def)
next
  case (Some i)
  obtain r h' where r: "hash_insert n (Some (sh_tables s ! i)) fl = (r, h')" by fastforce
  let ?h = "update_item r (\<lambda>b. b\<lparr>bc_data := Some a\<rparr>) h'"
  have i: "i < length (sh_tables s)" and s': "s' = s\<lparr>sh_tables := (sh_tables s)[i := ?h]\<rparr>"
    using assms(5) r by (auto simp: Some insert_var_def bnd_def table_at_def set_table_def modify_def split: if_splits)
  note ins = shape_insert [OF vars_okD(8) [OF assms(1) i] r]
  have "entries_ok (sh_heap s) ?h"
    unfolding entries_ok_def
  proof (clarify)
    fix m d assume "(m, d) \<in> entry_set ?h"
    with ins(2) [of "Some a"] consider "m = n" "d = Some a" | "(m, d) \<in> entry_set (sh_tables s ! i)" by auto
    then show "\<exists>a. d = Some a \<and> 2 \<le> a \<and> a < length (sh_heap s) \<and> sv_name (sh_heap s ! a) = m"
    proof cases
      case 1
      with assms(2-4) show ?thesis by simp
    next
      case 2
      with vars_okD(9) [OF assms(1) i] show ?thesis unfolding entries_ok_def by auto
    qed
  qed
  then show ?thesis unfolding s' by (intro vars_ok_table assms(1)) (simp_all add: ins(1))
qed

lemma need_tables_ok: "keeps vars_ok need_tables always"
proof (rule keepsI)
  fix s x s' assume "vars_ok s" and "need_tables s = Ret x s'"
  then show "vars_ok s' \<and> True"
    by (simp add: need_tables_def bnd_def gets_def only_if_def ret_def vars_okD(2))
qed (simp add: need_tables_def bnd_def gets_def only_if_def ret_def vars_okD(2))

lemma make_new_variable_ok: "keeps vars_ok (make_new_variable n t) always"
proof -
  have fin: "vars_ok s'" if s: "vars_ok s" and f: "final_state (make_new_variable n t s) = Some s'" for s s'
  proof -
    let ?v = "blank_var\<lparr>sv_name := n\<rparr>"
    let ?s = "s\<lparr>sh_heap := sh_heap s @ [?v]\<rparr>"
    have ok: "vars_ok ?s" by (rule vars_ok_heap [OF s]) (simp_all add: nth_append)
    have nt: "need_tables ?s = Ret () ?s"
      using vars_okD(2) [OF s] by (simp add: need_tables_def bnd_def gets_def only_if_def ret_def)
    have "final_state (insert_var n t HASH_NOSRCH (Some (length (sh_heap s))) ?s) = Some s'"
      using f by (simp add: make_new_variable_def new_shell_variable_def bnd_def new_var_def sq_def nt ret_def split: outcome.splits)
    from insert_var_ok [OF ok _ _ _ this] vars_okD(1) [OF s] show ?thesis by simp
  qed
  show ?thesis by (rule keepsI) (auto intro: fin)
qed

interpretation ok: kept_by_assignment vars_ok "{}"
proof
  show "keeps vars_ok (hash_lookup n t) always" for n t by (rule keeps_always [OF lookup_ok])
  show "keeps vars_ok (set_var p f) always" if "\<And>v. sv_name (f v) = sv_name v" for p f by (rule set_var_ok [OF that])
  show "keeps vars_ok (VSETATTR p att_exported) always" for p unfolding VSETATTR_def by (rule set_var_ok) simp
  show "keeps vars_ok (new_var v) (\<lambda>p. p \<notin> Some ` {})" for v using new_var_ok by simp
  show "keeps vars_ok (make_new_variable n t) (\<lambda>p. p \<notin> Some ` {})" for n t using make_new_variable_ok by simp
  show "keeps vars_ok need_tables always" by (rule need_tables_ok)
  show "keeps vars_ok (report msg) always" for msg unfolding report_def by (rule vars_ok_modify) simp
  show "keeps vars_ok need_array always" unfolding need_array_def by (rule vars_ok_modify) simp
  show "vars_ok (s\<lparr>last_table_searched := None\<rparr>)" if "vars_ok s" for s by (rule vars_ok_same [OF that]) simp_all
  show "keeps vars_ok (bind_tempenv_variable n val) always" for n val
    unfolding bind_tempenv_variable_def var_setvalue_def INVALIDATE_EXPORTSTR_def
    by (intro keeps set_var_ok keeps_always [OF lookup_ok]; simp)
qed simp

section \<open>Lookups, local variables and unsetting\<close>

lemmas kept_ok = keeps ok.kept ok.lookups_kept ok.values_kept ok.bind_variable_kept ok.bind_variable_internal_kept
  ok.bind_global_variable_kept ok.dispose_variable_kept ok.mark_assigned_kept ok.follow_nameref_kept set_var_ok

lemma last_change:
  "xs \<noteq> [] \<Longrightarrow> i < length xs \<Longrightarrow> last (xs[i := f (xs ! i)]) = (if i = length xs - 1 then f (last xs) else last xs)"
  by (simp add: last_list_update last_conv_nth)

text \<open>Changes to contexts that leave their tables, and do not turn the global context into another.\<close>

lemma set_context_flags_ok:
  assumes "f AND VC_TEMPFLAGS = 0"
  shows "keeps vars_ok (set_context_at i (\<lambda>c. c\<lparr>vc_flags := vc_flags c OR f\<rparr>)) always"
proof (rule keepsI)
  fix s x s' assume s: "vars_ok s" and "set_context_at i (\<lambda>c. c\<lparr>vc_flags := vc_flags c OR f\<rparr>) s = Ret x s'"
  then have i: "i < length (shell_variables s)"
    and s': "s' = s\<lparr>shell_variables := (shell_variables s)[i := (shell_variables s ! i)\<lparr>vc_flags := vc_flags (shell_variables s ! i) OR f\<rparr>]\<rparr>"
    by (simp_all add: set_context_at_def split: if_splits)
  let ?v = "(shell_variables s)[i := (shell_variables s ! i)\<lparr>vc_flags := vc_flags (shell_variables s ! i) OR f\<rparr>]"
  have "(x OR f) AND VC_TEMPFLAGS = x AND VC_TEMPFLAGS" for x
    using assms by (simp add: bit_eq_iff bit_simps) blast
  then have "global_ok (last ?v)"
    using vars_okD(2,3) [OF s] i last_change [of "shell_variables s" i "\<lambda>c. c\<lparr>vc_flags := vc_flags c OR f\<rparr>"]
    by (simp add: global_ok_def)
  moreover have "ptr_ok s (vc_table vc)" if "vc \<in> set ?v" for vc
  proof -
    have "vc \<in> insert ((shell_variables s ! i)\<lparr>vc_flags := vc_flags (shell_variables s ! i) OR f\<rparr>) (set (shell_variables s))"
      using that set_update_subset_insert by fast
    then show ?thesis using vars_okD(4) [OF s] nth_mem [OF i] by auto
  qed
  ultimately have "vars_ok s'" using s i by (simp add: s' vars_ok_def ptr_ok_def)
  then show "vars_ok s' \<and> True" by simp
qed (simp add: set_context_at_def split: if_splits)

lemma context_table_ok:
  assumes "0 \<le> n" and "n < 2 ^ 31"
  shows "keeps vars_ok (context_table i n) always"
proof (rule keepsI)
  fix s x s' assume s: "vars_ok s" and c: "context_table i n s = Ret x s'"
  show "vars_ok s' \<and> True"
  proof (cases "i < length (shell_variables s) \<and> vc_table (shell_variables s ! i) = None")
    case True
    let ?c = "(shell_variables s ! i)\<lparr>vc_table := Some (length (sh_tables s))\<rparr>"
    have s': "s' = s\<lparr>sh_tables := sh_tables s @ [hash_create n], shell_variables := (shell_variables s)[i := ?c]\<rparr>"
      using c True by (auto simp: context_table_def bnd_def context_at_def new_table_def sq_def set_context_at_def ret_def)
    have ptr: "ptr_ok s t \<Longrightarrow> ptr_ok s' t" for t by (auto simp: s' ptr_ok_def intro: less_SucI)
    have "ptr_ok s' (vc_table vc)" if "vc \<in> set ((shell_variables s)[i := ?c])" for vc
    proof -
      have "vc \<in> insert ?c (set (shell_variables s))" using that set_update_subset_insert by fast
      then consider "vc = ?c" | "vc \<in> set (shell_variables s)" by blast
      then show ?thesis
      proof cases
        case 1
        then show ?thesis by (simp add: s' ptr_ok_def)
      next
        case 2
        then show ?thesis by (intro ptr vars_okD(4) [OF s])
      qed
    qed
    moreover have "global_ok (last ((shell_variables s)[i := ?c]))"
      using vars_okD(2,3) [OF s] True last_change [of "shell_variables s" i "\<lambda>c. c\<lparr>vc_table := Some (length (sh_tables s))\<rparr>"]
      by (simp add: global_ok_def)
    ultimately show ?thesis
      using s ptr [OF vars_okD(5) [OF s]] ptr [OF vars_okD(6) [OF s]] ptr [OF vars_okD(7) [OF s]] assms
      by (simp add: vars_ok_def s' entries_ok_def)
  next
    case False
    with c s show ?thesis
      by (auto simp: context_table_def bnd_def context_at_def ret_def split: if_splits)
  qed
qed (auto simp: context_table_def bnd_def context_at_def new_table_def sq_def set_context_at_def ret_def split: if_splits)

lemma haslocal_ok: "VC_HASLOCAL AND VC_TEMPFLAGS = 0" "VC_HASTMPVAR AND VC_TEMPFLAGS = 0"
  by (simp_all add: VC_HASLOCAL_def VC_HASTMPVAR_def VC_TEMPFLAGS_def VC_FUNCENV_def VC_BLTNENV_def VC_TEMPENV_def)

lemma setifs_ok: "keeps vars_ok (setifs_var v) always"
  unfolding setifs_var_def by (intro keeps vars_ok_modify; simp)

lemma set_local_var_flags_ok: "keeps vars_ok (set_local_var_flags n i t v) always"
  unfolding set_local_var_flags_def
  by (intro kept_ok set_context_flags_ok haslocal_ok setifs_ok) simp_all

lemma buckets_ok:
  "0 \<le> TEMPENV_HASH_BUCKETS" "TEMPENV_HASH_BUCKETS < 2 ^ 31" "0 \<le> VARIABLES_HASH_BUCKETS" "VARIABLES_HASH_BUCKETS < 2 ^ 31"
  by (simp_all add: TEMPENV_HASH_BUCKETS_def VARIABLES_HASH_BUCKETS_def)

lemma inherit_from_ok: "keeps vars_ok (inherit_from p w i n) always"
  unfolding inherit_from_def by (intro kept_ok) simp_all

lemma make_local_from_ok: "keeps vars_ok (make_local_from n fl v) always"
  unfolding make_local_from_def Let_def
  by (intro kept_ok set_local_var_flags_ok context_table_ok buckets_ok inherit_from_ok) simp_all

lemma make_local_variable_ok: "hooks_keep vars_ok h \<Longrightarrow> keeps vars_ok (make_local_variable h n fl) always"
  unfolding make_local_variable_def by (intro kept_ok make_local_from_ok)

lemma convert_var_ok: "keeps vars_ok (convert_var_to_array p) always" "keeps vars_ok (convert_var_to_assoc p) always"
  unfolding convert_var_to_array_def convert_var_to_assoc_def by (intro kept_ok vars_ok_modify; simp)+

lemma make_local_array_ok:
  assumes "hooks_keep vars_ok h"
  shows "keeps vars_ok (make_local_array_variable h n fl) always" and "keeps vars_ok (make_local_assoc_variable h n fl) always"
  unfolding make_local_array_variable_def make_local_assoc_variable_def
  by (intro kept_ok make_local_variable_ok convert_var_ok assms; simp)+

lemma remove_item_ok: "keeps vars_ok (remove_item n t) (\<lambda>d. d \<noteq> Some (Some 0) \<and> d \<noteq> Some (Some 1))"
proof (rule keepsI)
  fix s d s' assume s: "vars_ok s" and l: "remove_item n t s = Ret d s'"
  show "vars_ok s' \<and> d \<noteq> Some (Some 0) \<and> d \<noteq> Some (Some 1)"
  proof (cases "\<exists>i r h'. t = Some i \<and> i < length (sh_tables s) \<and> hash_remove n (Some (sh_tables s ! i)) 0 = (Some r, Some h')")
    case True
    then obtain i r h' where t: "t = Some i" "i < length (sh_tables s)"
      and r: "hash_remove n (Some (sh_tables s ! i)) 0 = (Some r, Some h')" by blast
    have s': "s' = s\<lparr>sh_tables := (sh_tables s)[i := h']\<rparr>" and d: "d = Some (bc_data r)"
      using l t r by (simp_all add: remove_item_def bnd_def table_at_def sq_def set_table_def modify_def ret_def)
    note rem = shape_remove [OF vars_okD(8) [OF s t(2)] r]
    have "vars_ok s'" unfolding s'
      using vars_ok_table [OF s rem(1) entries_ok_subset [OF vars_okD(9) [OF s t(2)] rem(2)]] .
    moreover have "d \<noteq> Some (Some 0) \<and> d \<noteq> Some (Some 1)"
      using rem(3) vars_okD(9) [OF s t(2)] by (auto simp: d entries_ok_def)
    ultimately show ?thesis by simp
  next
    case False
    then have "remove_item n t s = Ret None s \<or> remove_item n t s = Crash"
      by (auto simp: remove_item_def bnd_def table_at_def ret_def split: option.splits prod.splits)
    with l s show ?thesis by auto
  qed
next
  fix s s' assume "remove_item n t s = Discard s'"
  then show "vars_ok s'"
    by (auto simp: remove_item_def bnd_def table_at_def sq_def set_table_def modify_def ret_def split: option.splits prod.splits if_splits)
qed

lemma remove_var_loop_ok: "keeps vars_ok (remove_var_loop n vcs) (\<lambda>r. \<forall>t. r \<noteq> Some (Some 0, t) \<and> r \<noteq> Some (Some 1, t))"
proof (induction vcs)
  case (Cons vc vcs)
  show ?case
    unfolding remove_var_loop.simps
    by (rule keeps_bnd_post [OF remove_item_ok], rule keeps_case_option, rule Cons.IH, rule keeps_ret) auto
qed (auto intro: keeps_ret)

text \<open>A variable may be entered under its own name.\<close>

lemma insert_own_ok:
  assumes p: "p \<noteq> Some 0" "p \<noteq> Some 1" and f: "\<And>v. sv_name (f v) = sv_name v" and m: "\<And>v. keeps vars_ok (m v) R"
  shows "keeps vars_ok (bnd (var_at p) (\<lambda>v. sq (set_var p f) (sq (insert_var (sv_name v) t fl p) (m v)))) R"
proof -
  have ins: "vars_ok s1 \<and> sv_name v = sv_name (sh_heap s ! the p)"
    if s: "vars_ok s" and v: "var_at p s = Ret v s" and w: "set_var p f s = Ret () s0"
      and i: "final_state (insert_var (sv_name v) t fl p s0) = Some s1" for s v s0 s1
  proof -
    from v obtain a where a: "p = Some a" "a < length (sh_heap s)" "v = sh_heap s ! a"
      by (auto simp: var_at_def split: option.splits if_splits)
    from w a have s0: "s0 = s\<lparr>sh_heap := (sh_heap s)[a := f (sh_heap s ! a)]\<rparr>" by (simp add: set_var_def)
    have ok: "vars_ok s0" using keepsD(1) [OF set_var_ok [OF f] s w] .
    have "2 \<le> a" using p a(1) by (cases a rule: nat.exhaust; cases "a - 1") auto
    moreover have "a < length (sh_heap s0)" "sv_name (sh_heap s0 ! a) = sv_name v"
      using a by (simp_all add: s0 f)
    ultimately show ?thesis using insert_var_ok [OF ok _ _ _ i [unfolded a(1)]] a(1,3) by simp
  qed
  have v: "var_at p s = Ret v s' \<Longrightarrow> s' = s" for s s' v by (simp add: var_at_def split: option.splits if_splits)
  show ?thesis
  proof (rule keepsI)
    fix s x s' assume s: "vars_ok s"
      and r: "bnd (var_at p) (\<lambda>v. sq (set_var p f) (sq (insert_var (sv_name v) t fl p) (m v))) s = Ret x s'"
    from bnd_Ret [OF r] obtain v where 1: "var_at p s = Ret v s"
      and r1: "sq (set_var p f) (sq (insert_var (sv_name v) t fl p) (m v)) s = Ret x s'"
      using v by blast
    from r1 obtain s0 s1 where 2: "set_var p f s = Ret () s0"
      and 3: "insert_var (sv_name v) t fl p s0 = Ret () s1" and 4: "m v s1 = Ret x s'"
      by (auto simp: sq_def dest!: bnd_Ret)
    from ins [OF s 1 2] 3 have "vars_ok s1" by simp
    from keepsD [OF m this 4] show "vars_ok s' \<and> R x" by simp
  next
    fix s s' assume s: "vars_ok s"
      and r: "bnd (var_at p) (\<lambda>v. sq (set_var p f) (sq (insert_var (sv_name v) t fl p) (m v))) s = Discard s'"
    have nd: "var_at p s \<noteq> Discard s2" "set_var p f s \<noteq> Discard s2" "insert_var n t fl p s \<noteq> Discard s2" for s s2 n
      by (auto simp: var_at_def set_var_def insert_var_def ret_def bnd_def table_at_def set_table_def modify_def
          split: option.splits if_splits prod.splits)
    from bnd_Discard [OF r] obtain v where 1: "var_at p s = Ret v s"
      and r1: "sq (set_var p f) (sq (insert_var (sv_name v) t fl p) (m v)) s = Discard s'"
      using v nd by blast
    from r1 obtain s0 s1 where 2: "set_var p f s = Ret () s0"
      and 3: "insert_var (sv_name v) t fl p s0 = Ret () s1" and 4: "m v s1 = Discard s'"
      by (auto simp: sq_def nd dest!: bnd_Discard)
    from ins [OF s 1 2] 3 have "vars_ok s1" by simp
    from keepsD_discard [OF m this 4] show "vars_ok s'" .
  qed
qed

lemma sv_ifs_ok: "hooks_keep vars_ok h \<Longrightarrow> keeps vars_ok (sv_ifs h) always"
  unfolding sv_ifs_def by (intro kept_ok setifs_ok)

lemma special_ok: "hooks_keep vars_ok h \<Longrightarrow> keeps vars_ok (stupidly_hack_special_variables h n) always"
  unfolding stupidly_hack_special_variables_def by (intro kept_ok sv_ifs_ok)

lemma hide_local_ok:
  assumes "hooks_keep vars_ok h" and "p \<noteq> Some 0" "p \<noteq> Some 1"
  shows "keeps vars_ok (hide_local h p t) always"
  unfolding hide_local_def by (rule insert_own_ok [OF assms(2,3)]) (simp, intro keeps special_ok assms(1))

lemma makunbound_ok:
  assumes "hooks_keep vars_ok h"
  shows "keeps vars_ok (makunbound h n vcs) always"
proof -
  have rest: "keeps vars_ok (case r of None \<Rightarrow> ret (- 1)
       | Some (None, _) \<Rightarrow> sq (stupidly_hack_special_variables h n) (ret 0)
       | Some (Some a, table) \<Rightarrow>
           bnd (var_at (Some a)) (\<lambda>v.
           sq (only_if (exported_p v) count_need_array)
          (bnd (gets (\<lambda>s. sv_context v = variable_context s \<or> (localvar_unset s \<and> sv_context v < variable_context s))) (\<lambda>here.
             if local_p v \<and> here then hide_local h (Some a) table
             else sq (dispose_variable (Some a)) (sq (stupidly_hack_special_variables h n) (ret 0)))))) always"
    if "\<forall>t. r \<noteq> Some (Some 0, t) \<and> r \<noteq> Some (Some 1, t)" for r
    unfolding count_need_array_def
    by (rule keeps_case_option, rule keeps_ret, simp, rule keeps_case_prod, rule keeps_case_option)
       (use that in \<open>intro kept_ok special_ok hide_local_ok assms vars_ok_modify; force\<close>)+
  show ?thesis unfolding makunbound_def by (rule keeps_bnd_post [OF remove_var_loop_ok rest])
qed

lemma unbind_ok:
  assumes "hooks_keep vars_ok h"
  shows "keeps vars_ok (unbind_variable h n) always" and "keeps vars_ok (unbind_nameref h n) always"
    and "keeps vars_ok (unbind_variable_noref h n) always" and "keeps vars_ok (unbind_global_variable h n) always"
    and "keeps vars_ok (unbind_global_variable_noref h n) always" and "keeps vars_ok (check_unbind_variable h n) always"
  unfolding unbind_variable_def unbind_nameref_def unbind_variable_noref_def unbind_global_variable_def
    unbind_global_variable_noref_def check_unbind_variable_def referenced_by_def find_variable_nameref_def
  by (intro kept_ok makunbound_ok ok.nameref_loop_kept assms)+

section \<open>Temporary environments\<close>

lemma set_flushed_ok:
  "keeps vars_ok (bnd (table_at t) (\<lambda>h'. set_table t (case hash_flush (Some h') of Some h'' \<Rightarrow> h'' | None \<Rightarrow> h'))) always"
proof (rule keepsI)
  fix s x s' assume s: "vars_ok s"
    and r: "bnd (table_at t) (\<lambda>h'. set_table t (case hash_flush (Some h') of Some h'' \<Rightarrow> h'' | None \<Rightarrow> h')) s = Ret x s'"
  let ?h = "case hash_flush (Some (sh_tables s ! t)) of Some h'' \<Rightarrow> h'' | None \<Rightarrow> sh_tables s ! t"
  from r have t: "t < length (sh_tables s)" and s': "s' = s\<lparr>sh_tables := (sh_tables s)[t := ?h]\<rparr>"
    by (auto simp: bnd_def table_at_def set_table_def modify_def split: if_splits)
  have "hash_shape ?h \<and> entry_set ?h \<subseteq> entry_set (sh_tables s ! t)"
    using shape_flush [OF vars_okD(8) [OF s t]] vars_okD(8) [OF s t]
    by (cases "hash_flush (Some (sh_tables s ! t))") simp_all
  with vars_ok_table [OF s _ entries_ok_subset [OF vars_okD(9) [OF s t]]] show "vars_ok s' \<and> True"
    by (simp add: s')
qed (auto simp: bnd_def table_at_def set_table_def modify_def split: if_splits)

lemma flush_table_ok: "(\<And>p. keeps vars_ok (f p) always) \<Longrightarrow> keeps vars_ok (flush_table f t) always"
  unfolding flush_table_def by (intro keeps set_flushed_ok)

lemma small_ops_ok:
  "keeps vars_ok (add_tempvar n) always" "keeps vars_ok (clear_attr p a) always" "keeps vars_ok (add_attrs p q) always"
  "keeps vars_ok (top_table VARIABLES_HASH_BUCKETS TEMPENV_HASH_BUCKETS) always" "keeps vars_ok (set_context p) always"
  unfolding add_tempvar_def clear_attr_def add_attrs_def top_table_def set_context_def
      apply (intro kept_ok vars_ok_modify; simp)
     apply (intro kept_ok; simp)
    apply (intro kept_ok; simp)
   apply (rule keeps_bnd [OF keeps_gets], rule context_table_ok; simp add: TEMPENV_HASH_BUCKETS_def VARIABLES_HASH_BUCKETS_def)
  apply (intro kept_ok; simp)
  done

lemmas scopes_ok = kept_ok small_ops_ok flush_table_ok special_ok sv_ifs_ok context_table_ok set_context_flags_ok haslocal_ok
  buckets_ok

lemma push_temp_vars_ok:
  assumes "hooks_keep vars_ok h"
  shows "keeps vars_ok (push_posix_temp_var h p) always" and "keeps vars_ok (push_temp_var h p) always"
  unfolding push_posix_temp_var_def push_temp_var_def by (intro scopes_ok assms disjI2 refl; simp)+

lemma propagate_temp_var_ok: "hooks_keep vars_ok h \<Longrightarrow> keeps vars_ok (propagate_temp_var h p) always"
  unfolding propagate_temp_var_def by (intro scopes_ok push_temp_vars_ok)

lemma drop_tempenv_ok: "keeps vars_ok (modify (\<lambda>s. s\<lparr>tempvar_list := l, temporary_env := None\<rparr>)) always"
  "keeps vars_ok (modify (\<lambda>s. s\<lparr>temporary_env := None\<rparr>)) always"
  by (rule keeps_modify, simp add: vars_ok_def ptr_ok_def)+

lemma dispose_temporary_env_ok:
  assumes "hooks_keep vars_ok h" and "\<And>p. keeps vars_ok (f p) always"
  shows "keeps vars_ok (dispose_temporary_env h f) always"
  unfolding dispose_temporary_env_def by (intro scopes_ok drop_tempenv_ok vars_ok_modify assms; simp)

lemma tempenv_ok:
  assumes "hooks_keep vars_ok h"
  shows "keeps vars_ok (merge_temporary_env h) always" and "keeps vars_ok (merge_function_temporary_env h) always"
    and "keeps vars_ok flush_temporary_env always"
  unfolding merge_temporary_env_def merge_function_temporary_env_def flush_temporary_env_def
  using push_temp_vars_ok [OF assms]
  by (intro scopes_ok drop_tempenv_ok dispose_temporary_env_ok assms; simp)+

section \<open>Contexts\<close>

lemma push_posix_tempvar_ok: "hooks_keep vars_ok h \<Longrightarrow> keeps vars_ok (push_posix_tempvar_internal h p b) always"
  unfolding push_posix_tempvar_internal_def by (intro scopes_ok disjI2 refl; simp)

lemma push_exported_var_ok: "hooks_keep vars_ok h \<Longrightarrow> keeps vars_ok (push_exported_var h p) always"
  unfolding push_exported_var_def by (intro scopes_ok disjI2 refl; simp)

lemma dispose_var_context_ok: "keeps vars_ok (dispose_var_context vc) always"
  unfolding dispose_var_context_def delete_all_variables_def by (intro scopes_ok)

lemma vars_ok_stack:
  assumes "vars_ok s" and "vcs \<noteq> []" and "last vcs = last (shell_variables s)" and "\<And>vc. vc \<in> set vcs \<Longrightarrow> ptr_ok s (vc_table vc)"
  shows "vars_ok (s\<lparr>shell_variables := vcs\<rparr>)"
  using assms by (simp add: vars_ok_def ptr_ok_def)

lemma pop_ok:
  fixes m m' :: "('e, 'a) cmd"
  assumes "keeps vars_ok m R" and "keeps vars_ok m' R"
  shows "keeps vars_ok (bnd (gets (\<lambda>s. tl (shell_variables s))) (\<lambda>down. if down = [] then m else sq (modify (\<lambda>s. s\<lparr>shell_variables := down\<rparr>)) m')) R"
    (is "keeps _ ?c _")
proof (rule keeps_pointwise)
  fix s :: "'e shell" assume s: "vars_ok s"
  show "\<exists>m0 s0. ?c s = m0 s0 \<and> vars_ok s0 \<and> keeps vars_ok m0 R"
  proof (cases "tl (shell_variables s) = []")
    case True
    then show ?thesis using s assms(1) by (intro exI [of _ m] exI [of _ s]) (simp add: bnd_def gets_def)
  next
    case False
    let ?s = "s\<lparr>shell_variables := tl (shell_variables s)\<rparr>"
    have "vars_ok ?s"
      by (rule vars_ok_stack [OF s False])
         (use False vars_okD(2,4) [OF s] in \<open>auto simp: last_tl dest: list.set_sel(2) [rotated]\<close>)
    then show ?thesis using False assms(2) by (intro exI [of _ m'] exI [of _ ?s]) (simp add: bnd_def gets_def sq_def modify_def)
  qed
qed

lemma pop_var_context_ok: "hooks_keep vars_ok h \<Longrightarrow> keeps vars_ok (pop_var_context h) always"
  unfolding pop_var_context_def push_func_var_def
  by (rule keeps_bnd [OF keeps_context_at], rule keeps_if, rule ok.report_kept, rule pop_ok)
     (intro scopes_ok push_posix_tempvar_ok dispose_var_context_ok)+

lemma pop_scope_ok:
  fixes h :: "'e hooks"
  assumes "hooks_keep vars_ok h"
  shows "keeps vars_ok (pop_scope h b) always"
proof -
  let ?rest = "\<lambda>vcxt. sq (case vc_table vcxt of None \<Rightarrow> ret ()
      | Some t \<Rightarrow> flush_table (if b then push_builtin_var h else push_exported_var h) t) (sv_ifs h)"
  have rest: "keeps vars_ok (?rest vc) always" for vc
    using push_posix_tempvar_ok [OF assms] push_exported_var_ok [OF assms]
    by (intro scopes_ok assms) (simp add: push_builtin_var_def)
  show ?thesis
  proof (rule keeps_pointwise)
    fix s :: "'e shell" assume s: "vars_ok s"
    obtain vc vcs where v: "shell_variables s = vc # vcs" using vars_okD(2) [OF s] by (cases "shell_variables s") auto
    show "\<exists>m0 s0. pop_scope h b s = m0 s0 \<and> vars_ok s0 \<and> keeps vars_ok m0 always"
    proof (cases "vc_istempscope vc")
      case True
      have "\<not> vc_istempscope c" if "vc_flags c AND VC_TEMPFLAGS = 0" for c
        using that by (auto simp: vc_istempscope_def has_flag_def VC_TEMPFLAGS_def bit_eq_iff bit_simps)
      with True vars_okD(3) [OF s] have ne: "vcs \<noteq> []" by (auto simp: v global_ok_def)
      let ?s = "s\<lparr>shell_variables := vcs\<rparr>"
      have "vars_ok ?s"
        by (rule vars_ok_stack [OF s ne]) (use ne vars_okD(4) [OF s] in \<open>auto simp: v\<close>)
      moreover have "pop_scope h b s = ?rest vc ?s"
        using True by (simp add: pop_scope_def bnd_def context_at_def v sq_def modify_def)
      ultimately show ?thesis using rest by blast
    next
      case False
      then show ?thesis
        using s ok.report_kept by (intro exI [of _ "report M_not_temp_scope"] exI [of _ s])
          (simp add: pop_scope_def bnd_def context_at_def v)
    qed
  qed
qed

lemma apply_set_context_tables:
  assumes "apply_to_table set_context t s = Ret x s'"
  shows "t < length (sh_tables s')"
proof -
  have len: "keeps (\<lambda>s. t < length (sh_tables s)) (set_context p) always" for p :: ptr
    unfolding set_context_def
    by (intro keeps, rule keepsI) (auto simp: set_var_def split: option.splits if_splits)
  from assms have t: "t < length (sh_tables s)" by (auto simp: apply_to_table_def bnd_def table_at_def split: if_splits)
  have "keeps (\<lambda>s. t < length (sh_tables s)) (apply_to_table set_context t) always"
    unfolding apply_to_table_def by (intro keeps len)
  from keepsD(1) [OF this t assms] show ?thesis .
qed

lemma push_var_context_ok: "keeps vars_ok (push_var_context n fl tv) always"
proof -
  have push: "vars_ok (s\<lparr>shell_variables := vc # shell_variables s\<rparr>)" if "vars_ok s" "ptr_ok s (vc_table vc)" for s :: "'e shell" and vc
    by (rule vars_ok_stack [OF that(1)]) (use that(2) vars_okD(2,4) [OF that(1)] in auto)
  have set: "keeps vars_ok (apply_to_table set_context t) always" for t
    unfolding apply_to_table_def by (intro scopes_ok)
  show ?thesis
  proof (rule keepsI)
    fix s :: "'e shell" and x s' assume s: "vars_ok s" and r: "push_var_context n fl tv s = Ret x s'"
    show "vars_ok s' \<and> True"
    proof (cases tv)
      case None
      then show ?thesis
        using r s vars_okD(2) [OF s] push [OF s]
        by (auto simp: push_var_context_def bnd_def new_var_context_def gets_def ret_def modify_def ptr_ok_def)
    next
      case (Some t)
      with r obtain s1 where s1: "apply_to_table set_context t s = Ret () s1"
        by (auto simp: push_var_context_def new_var_context_def sq_def gets_def ret_def dest!: bnd_Ret)
      have ok: "vars_ok s1" by (rule keepsD(1) [OF set s s1])
      from r Some s1 vars_okD(2) [OF ok] push [OF ok] apply_set_context_tables [OF s1] show ?thesis
        by (auto simp: push_var_context_def bnd_def new_var_context_def gets_def sq_def ret_def modify_def ptr_ok_def)
    qed
  next
    fix s :: "'e shell" and s' assume s: "vars_ok s" and r: "push_var_context n fl tv s = Discard s'"
    then obtain t where "apply_to_table set_context t s = Discard s'"
      by (auto simp: push_var_context_def bnd_def new_var_context_def gets_def sq_def ret_def modify_def crash_def
          split: option.splits outcome.splits if_splits)
    from keepsD_discard [OF set s this] show "vars_ok s'" .
  qed
qed

text \<open>The table of a function's context can be taken away: the global context is none.\<close>

lemma clear_func_table_ok:
  assumes "vars_ok s" and "i < length (shell_variables s)" and "vc_isfuncenv (shell_variables s ! i)"
  shows "vars_ok (s\<lparr>shell_variables := (shell_variables s)[i := (shell_variables s ! i)\<lparr>vc_table := None\<rparr>]\<rparr>)"
proof -
  have "\<not> vc_isfuncenv c" if "vc_flags c AND VC_TEMPFLAGS = 0" for c
    using that by (auto simp: vc_isfuncenv_def has_flag_def VC_TEMPFLAGS_def bit_eq_iff bit_simps)
  then have "i \<noteq> length (shell_variables s) - 1"
    using assms vars_okD(2,3) [OF assms(1)] by (auto simp: global_ok_def last_conv_nth)
  then have l: "last ((shell_variables s)[i := (shell_variables s ! i)\<lparr>vc_table := None\<rparr>]) = last (shell_variables s)"
    using vars_okD(2) [OF assms(1)] by (simp add: last_list_update)
  show ?thesis
  proof (rule vars_ok_stack [OF assms(1) _ l])
    fix vc assume "vc \<in> set ((shell_variables s)[i := (shell_variables s ! i)\<lparr>vc_table := None\<rparr>])"
    then have "vc \<in> insert ((shell_variables s ! i)\<lparr>vc_table := None\<rparr>) (set (shell_variables s))"
      using set_update_subset_insert by fast
    then show "ptr_ok s (vc_table vc)" using vars_okD(4) [OF assms(1)] by (auto simp: ptr_ok_def)
  qed (use assms(2) in auto)
qed

lemma dollar_vars_ok: "keeps vars_ok push_dollar_vars always" "keeps vars_ok pop_dollar_vars always"
  "keeps vars_ok dispose_saved_dollar_vars always"
  unfolding push_dollar_vars_def pop_dollar_vars_def dispose_saved_dollar_vars_def clear_dollar_vars_def
    apply (rule vars_ok_modify, simp)
   apply (rule keeps_bnd [OF keeps_gets])
   apply (simp add: keeps_ret keeps_sq vars_ok_modify split: list.split prod.split)
  apply (rule vars_ok_modify, simp split: list.split)
  done

lemma push_pop_context_ok:
  assumes "hooks_keep vars_ok h"
  shows "keeps vars_ok (push_context n b tv) always" and "keeps vars_ok (pop_context h) always"
  unfolding push_context_def pop_context_def
  by (intro scopes_ok dollar_vars_ok push_var_context_ok pop_var_context_ok vars_ok_modify assms; simp)+

section \<open>The environment\<close>

lemma need_tempenv_ok:
  "keeps vars_ok (bnd (gets (temporary_env :: 'e shell \<Rightarrow> ptr)) (\<lambda>t. only_if (t = None)
     (bnd (new_table TEMPENV_HASH_BUCKETS) (\<lambda>t. modify (\<lambda>s. s\<lparr>temporary_env := t\<rparr>))))) always" (is "keeps _ ?m _")
proof (rule keepsI)
  fix s :: "'e shell" and x s' assume s: "vars_ok s" and r: "?m s = Ret x s'"
  show "vars_ok s' \<and> True"
  proof (cases "temporary_env s")
    case None
    then have s': "s' = s\<lparr>sh_tables := sh_tables s @ [hash_create TEMPENV_HASH_BUCKETS], temporary_env := Some (length (sh_tables s))\<rparr>"
      using r by (auto simp: bnd_def gets_def only_if_def new_table_def modify_def)
    have "hash_shape (hash_create TEMPENV_HASH_BUCKETS :: nat hash_table)" by (simp add: TEMPENV_HASH_BUCKETS_def)
    then show ?thesis using s unfolding s' by (auto simp: vars_ok_def ptr_ok_def entries_ok_def less_SucI)
  next
    case (Some t)
    then show ?thesis using r s by (auto simp: bnd_def gets_def only_if_def ret_def)
  qed
qed (auto simp: bnd_def gets_def only_if_def new_table_def modify_def ret_def split: if_splits)

lemma assign_in_env_ok:
  assumes "hooks_keep vars_ok h"
  shows "keeps vars_ok (assign_in_env h w fl) always"
proof -
  have enter: "keeps vars_ok (enter_env h n v fl) always" for n v
    unfolding enter_env_def by (intro scopes_ok need_tempenv_ok assms; simp)
  have target: "keeps vars_ok (env_target h n) always" for n
    unfolding env_target_def by (intro scopes_ok assms)
  show ?thesis
    unfolding assign_in_env_def by (intro scopes_ok enter target ok.make_variable_value_kept assms; simp)
qed

lemma flatten_ok: "keeps vars_ok (flatten t f l) always"
proof -
  have "keeps vars_ok (flatten_loop f ps l) always" for ps :: "ptr list" and l
    by (induction ps arbitrary: l) (simp_all add: keeps_ret keeps_bnd keeps_var_at keeps_gets keeps_if vlist_add_def)
  then show ?thesis unfolding flatten_def by (intro scopes_ok)
qed

lemma map_over_ok: "keeps vars_ok (map_over f vcs) always" "keeps vars_ok (map_over_funcs f) always"
proof -
  have ent: "keeps vars_ok (table_entries t) always" for t
    unfolding table_entries_def by (intro keeps)
  have cnt: "keeps vars_ok (count_entries vcs) always" for vcs by (induction vcs) (simp_all add: keeps_ret keeps_bnd ent)
  have flt: "keeps vars_ok (flatten_contexts f vcs l) always" for vcs l
    by (induction vcs arbitrary: l) (simp_all add: keeps_ret keeps_bnd flatten_ok)
  show "keeps vars_ok (map_over f vcs) always" "keeps vars_ok (map_over_funcs f) always"
    unfolding map_over_def map_over_funcs_def by (intro keeps ent cnt flt flatten_ok)+
qed

lemma env_string_ok: "hooks_keep vars_ok h \<Longrightarrow> keeps vars_ok (env_string h p) always"
  unfolding env_string_def Let_def
  by (intro scopes_ok; simp add: scopes_ok split: cell.splits)

lemma make_env_array_ok: "hooks_keep vars_ok h \<Longrightarrow> keeps vars_ok (make_env_array_from_var_list h l) always"
  by (induction l) (simp_all add: keeps_ret keeps_bnd env_string_ok)

lemma maybe_make_export_env_ok: "hooks_keep vars_ok h \<Longrightarrow> keeps vars_ok (maybe_make_export_env h) always"
  unfolding maybe_make_export_env_def make_var_export_array_def make_func_export_array_def add_temp_array_to_env_def
    add_to_export_env_def if_False
  by (intro scopes_ok map_over_ok make_env_array_ok vars_ok_modify; simp)

lemma dispose_used_env_vars_ok: "hooks_keep vars_ok h \<Longrightarrow> keeps vars_ok (dispose_used_env_vars h) always"
  unfolding dispose_used_env_vars_def
  by (intro scopes_ok dispose_temporary_env_ok propagate_temp_var_ok maybe_make_export_env_ok)

lemma enter_ok: "keeps vars_ok (enter_function n b) always" "keeps vars_ok enter_builtin_env always"
  unfolding enter_function_def enter_builtin_env_def push_scope_def push_context_def
  by (intro scopes_ok dollar_vars_ok push_var_context_ok vars_ok_modify drop_tempenv_ok; simp)+

section \<open>Runs of the shell\<close>

text \<open>
  The operations that the rest of the shell performs on variables, each with the state it ends in, also when it leaves for
  the top level.
\<close>

inductive var_step :: "'e hooks \<Rightarrow> 'e shell \<Rightarrow> 'e shell \<Rightarrow> bool" for h where
  step_find: "final_state (find_variable h n s) = Some s' \<Longrightarrow> var_step h s s'"
| step_assign: "final_state (bind_variable h n v fl s) = Some s' \<Longrightarrow> var_step h s s'"
| step_assign_global: "final_state (bind_global_variable h n v fl s) = Some s' \<Longrightarrow> var_step h s s'"
| step_local: "final_state (make_local_variable h n fl s) = Some s' \<Longrightarrow> var_step h s s'"
| step_local_array: "final_state (make_local_array_variable h n fl s) = Some s' \<Longrightarrow> var_step h s s'"
| step_local_assoc: "final_state (make_local_assoc_variable h n fl s) = Some s' \<Longrightarrow> var_step h s s'"
| step_unset: "final_state (check_unbind_variable h n s) = Some s' \<Longrightarrow> var_step h s s'"
| step_unset_ref: "final_state (unbind_nameref h n s) = Some s' \<Longrightarrow> var_step h s s'"
| step_unset_global: "final_state (unbind_global_variable h n s) = Some s' \<Longrightarrow> var_step h s s'"
| step_env: "final_state (assign_in_env h w fl s) = Some s' \<Longrightarrow> var_step h s s'"
| step_merge_env: "final_state (merge_temporary_env h s) = Some s' \<Longrightarrow> var_step h s s'"
| step_used_env: "final_state (dispose_used_env_vars h s) = Some s' \<Longrightarrow> var_step h s s'"
| step_export: "final_state (maybe_make_export_env h s) = Some s' \<Longrightarrow> var_step h s s'"
| step_call: "final_state (enter_function n b s) = Some s' \<Longrightarrow> var_step h s s'"
| step_return: "final_state (pop_context h s) = Some s' \<Longrightarrow> var_step h s s'"
| step_builtin: "final_state (enter_builtin_env s) = Some s' \<Longrightarrow> var_step h s s'"
| step_builtin_end: "final_state (pop_scope h sp s) = Some s' \<Longrightarrow> var_step h s s'"

lemma final_ok: "vars_ok s \<Longrightarrow> final_state (m s) = Some s' \<Longrightarrow> keeps vars_ok m always \<Longrightarrow> vars_ok s'"
  by (rule keeps_final)

lemma var_step_ok:
  assumes "hooks_keep vars_ok h" and "var_step h s s'" and "vars_ok s"
  shows "vars_ok s'"
  using assms(2)
  by cases
     (erule final_ok [OF assms(3)],
      intro scopes_ok make_local_variable_ok make_local_array_ok unbind_ok assign_in_env_ok tempenv_ok dispose_used_env_vars_ok
        maybe_make_export_env_ok enter_ok push_pop_context_ok pop_scope_ok assms(1) disjI2 refl)+

lemma entry_set_enter:
  assumes "hash_shape h"
  shows "hash_shape (let (r, h') = hash_insert n (Some h) HASH_NOSRCH in update_item r (\<lambda>b. b\<lparr>bc_data := d\<rparr>) h')"
    and "entry_set (let (r, h') = hash_insert n (Some h) HASH_NOSRCH in update_item r (\<lambda>b. b\<lparr>bc_data := d\<rparr>) h')
       \<subseteq> insert (n, d) (entry_set h)"
  using shape_insert [OF assms] by (auto split: prod.splits)

lemma enter_all_ok:
  "hash_shape (enter_all xs) \<and> entry_set (enter_all xs) \<subseteq> (\<lambda>(n, a). (n, Some a)) ` set xs"
proof (induction xs rule: rev_induct)
  case Nil
  then show ?case by (simp add: enter_all_def)
next
  case (snoc x xs)
  obtain n a where x: "x = (n, a)" by fastforce
  let ?u = "let (r, h') = hash_insert n (Some (enter_all xs)) HASH_NOSRCH in update_item r (\<lambda>b. b\<lparr>bc_data := Some a\<rparr>) h'"
  have "enter_all (xs @ [x]) = ?u" by (simp add: enter_all_def x)
  with snoc entry_set_enter [of "enter_all xs" n "Some a"] show ?case by (auto simp: x)
qed

lemma shell_with_ok: "vars_ok (shell_with vars)"
proof -
  have "entries_ok (blank_var # blank_var # vars) (enter_all (zip (map sv_name vars) [2..<2 + length vars]))"
    unfolding entries_ok_def
  proof (clarify)
    fix n d assume "(n, d) \<in> entry_set (enter_all (zip (map sv_name vars) [2..<2 + length vars]))"
    then have "(n, d) \<in> (\<lambda>(n, a). (n, Some a)) ` set (zip (map sv_name vars) [2..<2 + length vars])"
      using enter_all_ok by blast
    then obtain i where "i < length vars" "n = sv_name (vars ! i)" "d = Some ([2..<2 + length vars] ! i)"
      by (auto simp: in_set_zip simp del: upt_Suc upt.simps)
    then have "i < length vars" "n = sv_name (vars ! i)" "d = Some (2 + i)" by (simp_all del: upt_Suc upt.simps)
    then show "\<exists>a. d = Some a \<and> 2 \<le> a \<and> a < length (blank_var # blank_var # vars) \<and> sv_name ((blank_var # blank_var # vars) ! a) = n"
      by auto
  qed
  then show ?thesis
    using enter_all_ok by (simp add: shell_with_def vars_ok_def ptr_ok_def global_ok_def entries_ok_def)
qed

text \<open>
  C9. The variable store is sound in every reachable state. However lookups, assignments, declarations of local
  variables, unsetting, assignments before commands, calls and returns of functions, and builtins with scopes of their own
  follow each other, and also after operations that leave for the top level, every entry of every table leads to a variable
  that bears the entry's name, every context has a table that exists or none, and the global context is at the
  bottom of the stack with its table.
\<close>

theorem variable_store_invariant:
  assumes "hooks_keep vars_ok h" and "(var_step h)\<^sup>*\<^sup>* s s'" and "vars_ok s"
  shows "vars_ok s'"
  using assms(2,3) by (induction rule: rtranclp_induct) (auto intro: var_step_ok [OF assms(1)])

lemma variable_store_invariant_witness:
  "\<exists>s'. (var_step plain_hooks)\<^sup>*\<^sup>* example_shell s' \<and> s' \<noteq> example_shell \<and> vars_ok s'"
proof -
  let ?r = "final_state (enter_function ''f'' False example_shell)"
  have "?r \<noteq> None \<and> map_option (\<lambda>s. variable_context s) ?r = Some 1" by code_simp
  then obtain s' where s': "?r = Some s'" and c: "variable_context s' = 1" by (auto simp only: not_None_eq option.map option.inject)
  have step: "(var_step plain_hooks)\<^sup>*\<^sup>* example_shell s'" by (rule r_into_rtranclp, rule step_call [OF s'])
  have "vars_ok example_shell" unfolding example_shell_def by (rule shell_with_ok)
  from variable_store_invariant [OF plain_hooks_keep step this] have "vars_ok s'" .
  moreover have "s' \<noteq> example_shell" using c by (auto simp: example_shell_def shell_with_def)
  ultimately show ?thesis using step by blast
qed

end
