(* ===== verification/Scope_Env.thy ===== *)
theory Scope_Env
  imports Scopes_Inv
begin

text \<open>
  The variable store seen as an environment: a stack of maps from names to variables, in which a name stands for the
  variable of the innermost scope that has it. Lookups, the lists of variables, assignments and the scopes
  of functions are described by their effect on it.
\<close>

section \<open>The environment\<close>

definition store_ok :: "'e shell \<Rightarrow> bool" where
  "store_ok s \<longleftrightarrow> vars_ok s \<and> (\<forall>h \<in> set (sh_tables s). hash_wf h)"

text \<open>The variables of one table, by name.\<close>

definition scope :: "'e shell \<Rightarrow> ptr \<Rightarrow> cstring \<Rightarrow> nat option" where
  "scope s t n = (case t of None \<Rightarrow> None | Some i \<Rightarrow> Option.bind (hash_map (sh_tables s ! i) n) (\<lambda>d. d))"

fun first_scope :: "'e shell \<Rightarrow> VAR_CONTEXT list \<Rightarrow> cstring \<Rightarrow> nat option" where
  "first_scope s [] n = None"
| "first_scope s (vc # vcs) n =
     (case scope s (vc_table vc) n of Some a \<Rightarrow> Some a | None \<Rightarrow> first_scope s vcs n)"

definition env :: "'e shell \<Rightarrow> cstring \<Rightarrow> nat option" where
  "env s = first_scope s (shell_variables s)"

text \<open>Two states that differ in the counters of their tables and in the table searched last.\<close>

definition same_table :: "nat hash_table \<Rightarrow> nat hash_table \<Rightarrow> bool" where
  "same_table h h' \<longleftrightarrow> hash_map h' = hash_map h \<and> (hash_wf h \<longrightarrow> hash_wf h')"

definition alike :: "'e shell \<Rightarrow> 'e shell \<Rightarrow> bool" where
  "alike s s' \<longleftrightarrow> (\<exists>ts l. s' = s\<lparr>sh_tables := ts, last_table_searched := l\<rparr> \<and> list_all2 same_table (sh_tables s) ts)"

lemma same_table_refl [simp]: "same_table h h"
  by (simp add: same_table_def)

lemma same_table_trans: "same_table h h' \<Longrightarrow> same_table h' h'' \<Longrightarrow> same_table h h''"
  by (simp add: same_table_def)

lemma alikeI: "list_all2 same_table (sh_tables s) ts \<Longrightarrow> alike s (s\<lparr>sh_tables := ts, last_table_searched := l\<rparr>)"
  unfolding alike_def by blast

lemma alike_refl [simp]: "alike s s"
proof -
  have "list_all2 same_table (sh_tables s) (sh_tables s)" by (simp add: list.rel_refl)
  from alikeI [OF this, of "last_table_searched s"] show ?thesis by simp
qed

lemma alike_trans: 
  assumes "alike s s'" and "alike s' s''" shows "alike s s''"
proof -
  from assms obtain ts l ts' l' where s': "s' = s\<lparr>sh_tables := ts, last_table_searched := l\<rparr>"
    and t: "list_all2 same_table (sh_tables s) ts"
    and s'': "s'' = s'\<lparr>sh_tables := ts', last_table_searched := l'\<rparr>" and t': "list_all2 same_table (sh_tables s') ts'"
    unfolding alike_def by blast
  have "list_all2 same_table (sh_tables s) ts'"
    using list_all2_trans [OF same_table_trans t] t' by (simp add: s')
  from alikeI [OF this, of l'] show ?thesis by (simp add: s' s'')
qed

lemma alike_searched [simp]: "alike s (s\<lparr>last_table_searched := l\<rparr>)"
proof -
  have "list_all2 same_table (sh_tables s) (sh_tables s)" by (simp add: list.rel_refl)
  from alikeI [OF this, of l] show ?thesis by simp
qed

lemma ok_contexts: "store_ok s \<Longrightarrow> vc \<in> set (shell_variables s) \<Longrightarrow> ptr_ok s (vc_table vc)"
  by (simp add: store_ok_def vars_okD(4))

text \<open>What states that are alike share.\<close>

lemma alikeD:
  assumes "alike s s'"
  shows "sh_heap s' = sh_heap s" and "shell_variables s' = shell_variables s" and "variable_context s' = variable_context s"
    and "temporary_env s' = temporary_env s" and "shell_functions s' = shell_functions s" and "invalid_env s' = invalid_env s"
    and "expanding_redir s' = expanding_redir s" and "subshell_environment s' = subshell_environment s"
    and "assigning_in_environment s' = assigning_in_environment s" and "executing_builtin s' = executing_builtin s"
    and "mark_modified_vars s' = mark_modified_vars s" and "localvar_inherit s' = localvar_inherit s"
    and "length (sh_tables s') = length (sh_tables s)" and "list_all2 same_table (sh_tables s) (sh_tables s')"
    and "dollar_vars s' = dollar_vars s" and "dollar_arg_stack s' = dollar_arg_stack s"
    and "rest_of_args s' = rest_of_args s" and "posparam_count s' = posparam_count s"
proof -
  from assms obtain ts l where s': "s' = s\<lparr>sh_tables := ts, last_table_searched := l\<rparr>"
    and t: "list_all2 same_table (sh_tables s) ts" unfolding alike_def by blast
  show "sh_heap s' = sh_heap s" "shell_variables s' = shell_variables s" "variable_context s' = variable_context s"
    "temporary_env s' = temporary_env s" "shell_functions s' = shell_functions s" "invalid_env s' = invalid_env s"
    "expanding_redir s' = expanding_redir s" "subshell_environment s' = subshell_environment s"
    "assigning_in_environment s' = assigning_in_environment s" "executing_builtin s' = executing_builtin s"
    "mark_modified_vars s' = mark_modified_vars s" "localvar_inherit s' = localvar_inherit s"
    "list_all2 same_table (sh_tables s) (sh_tables s')"
    "dollar_vars s' = dollar_vars s" "dollar_arg_stack s' = dollar_arg_stack s"
    "rest_of_args s' = rest_of_args s" "posparam_count s' = posparam_count s"
    using t by (simp_all add: s')
  then show "length (sh_tables s') = length (sh_tables s)" by (simp add: list_all2_lengthD)
qed

lemma same_tables_scope:
  assumes "list_all2 same_table ts ts'" and "i < length ts"
  shows "hash_map (ts' ! i) = hash_map (ts ! i)"
  using list_all2_nthD [OF assms] by (simp add: same_table_def)

lemma alike_scope:
  assumes "alike s s'" and "ptr_ok s t"
  shows "scope s' t = scope s t"
  using assms(2) same_tables_scope [OF alikeD(14) [OF assms(1)]]
  by (auto simp: scope_def ptr_ok_def fun_eq_iff split: option.splits)

lemma alike_first:
  assumes "alike s s'" and "\<forall>vc \<in> set vcs. ptr_ok s (vc_table vc)"
  shows "first_scope s' vcs n = first_scope s vcs n"
  using assms(2) by (induction vcs) (simp_all add: alike_scope [OF assms(1)] split: option.split)

lemma alike_env: "store_ok s \<Longrightarrow> alike s s' \<Longrightarrow> env s' = env s"
  by (simp add: env_def fun_eq_iff alikeD(2) alike_first ok_contexts)

lemma entries_of_map:
  assumes "hash_wf h" shows "entry_set h = {(n, d). hash_map h n = Some d}"
  using hash_map_Some_iff [OF assms] by (auto simp: entry_set_def)

lemma hash_wf_shape: "hash_wf h \<Longrightarrow> hash_shape h"
  by (simp add: hash_wf_def hash_shape_def)

lemma list_all2_setD: "list_all2 P xs ys \<Longrightarrow> y \<in> set ys \<Longrightarrow> \<exists>x \<in> set xs. P x y"
  by (metis in_set_conv_nth list_all2_conv_all_nth)

lemma alike_ok:
  assumes "store_ok s" and "alike s s'"
  shows "store_ok s'"
proof -
  note D = alikeD [OF assms(2)]
  have "hash_wf h' \<and> hash_shape h' \<and> entries_ok (sh_heap s) h'" if "h' \<in> set (sh_tables s')" for h'
  proof -
    from that obtain h where h: "h \<in> set (sh_tables s)" and st: "same_table h h'" using list_all2_setD [OF D(14)] by blast
    have wf: "hash_wf h" "hash_wf h'" using h st assms(1) by (simp_all add: store_ok_def same_table_def)
    have "entry_set h' = entry_set h" using wf st by (simp add: entries_of_map same_table_def)
    moreover have "entries_ok (sh_heap s) h" using assms(1) h by (simp add: store_ok_def vars_ok_def)
    ultimately show ?thesis using wf by (simp add: entries_ok_def hash_wf_shape)
  qed
  with assms(1) show ?thesis by (simp add: store_ok_def vars_ok_def ptr_ok_def D(1-6,13))
qed

text \<open>The variables of a scope exist and bear their names.\<close>

lemma scope_var:
  assumes "store_ok s" and "ptr_ok s t" and "scope s t n = Some a"
  shows "2 \<le> a" and "a < length (sh_heap s)" and "sv_name (sh_heap s ! a) = n"
proof -
  from assms(2,3) obtain i where i: "t = Some i" "i < length (sh_tables s)" and m: "hash_map (sh_tables s ! i) n = Some (Some a)"
    by (auto simp: scope_def ptr_ok_def bind_eq_Some_conv split: option.splits)
  have "hash_wf (sh_tables s ! i)" using assms(1) i(2) by (simp add: store_ok_def)
  with m have "(n, Some a) \<in> entry_set (sh_tables s ! i)" by (simp add: entries_of_map)
  moreover have "entries_ok (sh_heap s) (sh_tables s ! i)" using assms(1) i(2) by (simp add: store_ok_def vars_okD(9))
  ultimately show "2 \<le> a" "a < length (sh_heap s)" "sv_name (sh_heap s ! a) = n" by (auto simp: entries_ok_def)
qed

lemma first_scope_var:
  assumes "store_ok s" and "\<forall>vc \<in> set vcs. ptr_ok s (vc_table vc)" and "first_scope s vcs n = Some a"
  shows "2 \<le> a \<and> a < length (sh_heap s) \<and> sv_name (sh_heap s ! a) = n"
  using assms(2,3)
proof (induction vcs)
  case (Cons vc vcs)
  then show ?case
  proof (cases "scope s (vc_table vc) n")
    case (Some b)
    have "ptr_ok s (vc_table vc)" using Cons.prems(1) by simp
    from scope_var [OF assms(1) this Some] Cons.prems(2) Some show ?thesis by simp
  qed simp
qed simp

lemma env_var: "store_ok s \<Longrightarrow> env s n = Some a \<Longrightarrow> 2 \<le> a \<and> a < length (sh_heap s) \<and> sv_name (sh_heap s ! a) = n"
  unfolding env_def by (rule first_scope_var) (auto intro: ok_contexts)

section \<open>Lookups\<close>

lemma hash_lookup_scope:
  fixes s :: "'e shell"
  assumes ok: "store_ok s" and t: "ptr_ok s t"
  shows "\<exists>s'. hash_lookup n t s = Ret (scope s t n) s' \<and> alike s s'"
proof (cases t)
  case None
  then show ?thesis by (simp add: hash_lookup_def scope_def ret_def)
next
  case (Some i)
  with t have i: "i < length (sh_tables s)" by (simp add: ptr_ok_def)
  let ?h = "sh_tables s ! i"
  have wf: "hash_wf ?h" using ok i by (simp add: store_ok_def)
  show ?thesis
  proof (cases "hash_map ?h n")
    case None
    have "hash_search n (Some ?h) 0 = (None, Some ?h)" by (rule hash_search_absent [OF wf None]) simp
    then show ?thesis using i by (simp add: Some hash_lookup_def bnd_def table_at_def ret_def scope_def None)
  next
    case (Some d)
    then obtain r h' where h': "hash_search n (Some ?h) 0 = (Some r, Some h')" "hash_wf h'" "hash_map h' = hash_map ?h"
      "bc_data (item_at h' r) = d"
      using hash_search_found [OF wf Some] by metis
    have all: "list_all2 same_table (sh_tables s) ((sh_tables s)[i := h'])"
      by (rule list_all2_all_nthI) (use h' i in \<open>auto simp: nth_list_update same_table_def\<close>)
    have "hash_lookup n t s = Ret d (s\<lparr>sh_tables := (sh_tables s)[i := h'], last_table_searched := Some i\<rparr>)"
      using i h' by (simp add: \<open>t = Some i\<close> hash_lookup_def bnd_def sq_def table_at_def set_table_def modify_def ret_def)
    then show ?thesis using alikeI [OF all] by (simp add: \<open>t = Some i\<close> scope_def Some)
  qed
qed

lemma lookup_loop_first:
  fixes s :: "'e shell"
  assumes "store_ok s" and "\<forall>vc \<in> set vcs. ptr_ok s (vc_table vc)"
  shows "\<exists>s'. lookup_loop n vcs s = Ret (first_scope s vcs n) s' \<and> alike s s'"
  using assms
proof (induction vcs arbitrary: s)
  case Nil
  then show ?case by (simp add: ret_def)
next
  case (Cons vc vcs)
  obtain s1 where s1: "hash_lookup n (vc_table vc) s = Ret (scope s (vc_table vc) n) s1" and a: "alike s s1"
    using hash_lookup_scope [OF Cons.prems(1)] Cons.prems(2) by (metis list.set_intros(1))
  show ?case
  proof (cases "scope s (vc_table vc) n")
    case (Some b)
    then show ?thesis using s1 a by (simp add: bnd_def ret_def)
  next
    case None
    have ok: "store_ok s1" "\<forall>vc \<in> set vcs. ptr_ok s1 (vc_table vc)"
      using alike_ok [OF Cons.prems(1) a] Cons.prems(2) by (simp_all add: ptr_ok_def alikeD(13) [OF a])
    obtain s2 where s2: "lookup_loop n vcs s1 = Ret (first_scope s1 vcs n) s2" and b: "alike s1 s2"
      using Cons.IH [OF ok] by blast
    have "first_scope s1 vcs n = first_scope s vcs n" using Cons.prems(2) by (simp add: alike_first [OF a])
    then show ?thesis using s1 s2 None alike_trans [OF a b] by (simp add: bnd_def)
  qed
qed

lemma var_lookup_env:
  assumes "store_ok s"
  shows "\<exists>s'. var_lookup n s = Ret (env s n) s' \<and> alike s s'"
  using lookup_loop_first [OF assms, of "shell_variables s" n] ok_contexts [OF assms]
  by (simp add: var_lookup_def bnd_def gets_def env_def)

section \<open>Lists of variables\<close>

text \<open>The variable of the innermost scope that has one of the name for which the condition holds.\<close>

fun first_such :: "(SHELL_VAR \<Rightarrow> bool) \<Rightarrow> 'e shell \<Rightarrow> VAR_CONTEXT list \<Rightarrow> cstring \<Rightarrow> nat option" where
  "first_such P s [] n = None"
| "first_such P s (vc # vcs) n =
     (case scope s (vc_table vc) n of
        Some a \<Rightarrow> if P (sh_heap s ! a) then Some a else first_such P s vcs n
      | None \<Rightarrow> first_such P s vcs n)"

lemma first_such_all: "first_such (\<lambda>v. True) s vcs n = first_scope s vcs n"
  by (induction vcs) (simp_all split: option.split)

text \<open>The list that \<^verbatim>\<open>vlist_add\<close> builds.\<close>

fun add_vars :: "(SHELL_VAR \<Rightarrow> bool) \<Rightarrow> SHELL_VAR list \<Rightarrow> nat list \<Rightarrow> nat list \<Rightarrow> nat list" where
  "add_vars P heap l [] = l"
| "add_vars P heap l (a # as) =
     add_vars P heap (if P (heap ! a) \<and> sv_name (heap ! a) \<notin> (\<lambda>b. sv_name (heap ! b)) ` set l then l @ [a] else l) as"

lemma has_name_iff: "has_name n l s \<longleftrightarrow> n \<in> (\<lambda>b. sv_name (sh_heap s ! b)) ` set l"
  by (induction l) auto

lemma flatten_loop_eq:
  assumes "\<forall>a \<in> set as. a < length (sh_heap s)"
  shows "flatten_loop func (map Some as) l s = Ret (add_vars (func (variable_context s)) (sh_heap s) l as) s"
  using assms
  by (induction as arbitrary: l) (simp_all add: bnd_def gets_def ret_def var_at_def vlist_add_def has_name_iff)

text \<open>The variables of a table, in the order of its items.\<close>

definition table_vars :: "'e shell \<Rightarrow> ptr \<Rightarrow> nat list" where
  "table_vars s t = (case t of None \<Rightarrow> [] | Some i \<Rightarrow> map (\<lambda>b. the (bc_data b)) (all_items (sh_tables s ! i)))"

lemma table_items_all:
  assumes "hash_shape h" shows "table_items h = map bc_data (all_items h)"
proof -
  have "map (\<lambda>i. hash_items i (Some h)) [0..<nat (ht_nbuckets h)] = ht_bucket_array h"
    using assms by (intro nth_equalityI) (auto simp: hash_items_def hash_shape_def)
  then show ?thesis by (simp add: table_items_def all_items_def)
qed

lemma item_var:
  assumes "store_ok s" and "i < length (sh_tables s)" and "b \<in> set (all_items (sh_tables s ! i))"
  shows "\<exists>a. bc_data b = Some a \<and> a < length (sh_heap s) \<and> sv_name (sh_heap s ! a) = bc_key b"
proof -
  have "entries_ok (sh_heap s) (sh_tables s ! i)" using assms by (simp add: store_ok_def vars_okD(9))
  moreover have "(bc_key b, bc_data b) \<in> entry_set (sh_tables s ! i)" using assms(3) by (auto simp: entry_set_def)
  ultimately show ?thesis unfolding entries_ok_def by fastforce
qed

lemma flatten_eq:
  assumes ok: "store_ok s" and t: "ptr_ok s t"
  shows "flatten t func l s = Ret (add_vars (func (variable_context s)) (sh_heap s) l (table_vars s t)) s"
proof (cases t)
  case (Some i)
  with t have i: "i < length (sh_tables s)" by (simp add: ptr_ok_def)
  let ?h = "sh_tables s ! i"
  have wf: "hash_wf ?h" using ok i by (simp add: store_ok_def)
  have data: "bc_data b = Some (the (bc_data b))" "the (bc_data b) < length (sh_heap s)" if "b \<in> set (all_items ?h)" for b
    using item_var [OF ok i that] by auto
  then have items: "table_items ?h = map Some (table_vars s t)"
    by (simp add: table_items_all [OF hash_wf_shape [OF wf]] Some table_vars_def)
  have lt: "\<forall>a \<in> set (table_vars s t). a < length (sh_heap s)" using data(2) by (auto simp: Some table_vars_def)
  have "flatten t func l s = (if HASH_ENTRIES (Some ?h) = 0 then Ret l s else flatten_loop func (table_items ?h) l s)"
    using i by (simp add: Some flatten_def bnd_def table_at_def ret_def)
  moreover have "table_vars s t = []" if "HASH_ENTRIES (Some ?h) = 0"
    using that wf by (simp add: Some table_vars_def HASH_ENTRIES_def hash_wf_def)
  ultimately show ?thesis by (auto simp: items flatten_loop_eq [OF lt])
qed (simp add: flatten_def table_vars_def ret_def)

lemma add_vars_append: "add_vars P heap l (xs @ ys) = add_vars P heap (add_vars P heap l xs) ys"
  by (induction xs arbitrary: l) simp_all

lemma flatten_contexts_eq:
  assumes "store_ok s" and "\<forall>vc \<in> set vcs. ptr_ok s (vc_table vc)"
  shows "flatten_contexts func vcs l s
    = Ret (add_vars (func (variable_context s)) (sh_heap s) l (concat (map (\<lambda>vc. table_vars s (vc_table vc)) vcs))) s"
  using assms(2) by (induction vcs arbitrary: l) (simp_all add: ret_def bnd_def flatten_eq [OF assms(1)] add_vars_append)

lemma count_entries_eq:
  assumes ok: "store_ok s" and "\<forall>vc \<in> set vcs. ptr_ok s (vc_table vc)"
  shows "count_entries vcs s = Ret (int (length (concat (map (\<lambda>vc. table_vars s (vc_table vc)) vcs)))) s"
  using assms(2)
proof (induction vcs)
  case (Cons vc vcs)
  have "table_entries (vc_table vc) s = Ret (int (length (table_vars s (vc_table vc)))) s"
  proof (cases "vc_table vc")
    case (Some i)
    with Cons.prems have i: "i < length (sh_tables s)" by (simp add: ptr_ok_def)
    then have "hash_wf (sh_tables s ! i)" using ok by (simp add: store_ok_def)
    then show ?thesis using i
      by (simp add: Some table_entries_def bnd_def table_at_def ret_def table_vars_def HASH_ENTRIES_def hash_wf_def)
  qed (simp add: table_entries_def table_vars_def ret_def)
  with Cons show ?case by (simp add: bnd_def ret_def)
qed (simp add: ret_def)

text \<open>A list built by \<^verbatim>\<open>vlist_add\<close> has, for each name, the first variable of that name that satisfies the condition.\<close>

lemma add_vars_spec:
  fixes heap P defines "nm \<equiv> \<lambda>b. sv_name (heap ! b)"
  assumes "distinct (map nm l)"
  shows "distinct (map nm (add_vars P heap l as))
    \<and> set (add_vars P heap l as) =
        set l \<union> {a. nm a \<notin> nm ` set l \<and> find (\<lambda>b. P (heap ! b) \<and> nm b = nm a) as = Some a}"
  using assms(2)
proof (induction as arbitrary: l)
  case (Cons a as)
  show ?case
  proof (cases "P (heap ! a) \<and> nm a \<notin> nm ` set l")
    case True
    then have "distinct (map nm (l @ [a]))" using Cons.prems by auto
    from Cons.IH [OF this] True show ?thesis by (auto simp: nm_def)
  next
    case False
    then have "add_vars P heap l (a # as) = add_vars P heap l as" by (auto simp: nm_def)
    with Cons.IH [OF Cons.prems] False show ?thesis by auto
  qed
qed auto

lemma find_append: "find Q (xs @ ys) = (case find Q xs of None \<Rightarrow> find Q ys | Some x \<Rightarrow> Some x)"
  by (induction xs) auto

lemma find_items:
  assumes "distinct (map bc_key xs)"
    and "\<And>b. b \<in> set xs \<Longrightarrow> \<exists>a. bc_data b = Some a \<and> sv_name (heap ! a) = bc_key b"
  shows "find (\<lambda>a. P (heap ! a) \<and> sv_name (heap ! a) = n) (map (\<lambda>b. the (bc_data b)) xs) =
    (case Option.bind (map_of (map (\<lambda>b. (bc_key b, bc_data b)) xs) n) (\<lambda>d. d) of
       Some a \<Rightarrow> if P (heap ! a) then Some a else None
     | None \<Rightarrow> None)"
  using assms
proof (induction xs)
  case (Cons x xs)
  obtain a where a: "bc_data x = Some a" "sv_name (heap ! a) = bc_key x" using Cons.prems(2) by auto
  have ih: "find (\<lambda>a. P (heap ! a) \<and> sv_name (heap ! a) = n) (map (\<lambda>b. the (bc_data b)) xs) =
    (case Option.bind (map_of (map (\<lambda>b. (bc_key b, bc_data b)) xs) n) (\<lambda>d. d) of
       Some a \<Rightarrow> if P (heap ! a) then Some a else None | None \<Rightarrow> None)"
    using Cons by auto
  show ?case
  proof (cases "bc_key x = n")
    case True
    have "map_of (map (\<lambda>b. (bc_key b, bc_data b)) xs) n = None"
      using Cons.prems(1) True by (auto simp: map_of_eq_None_iff)
    then show ?thesis using a True ih by auto
  next
    case False
    then show ?thesis using a ih by auto
  qed
qed simp

lemma find_table:
  assumes "store_ok s" and "ptr_ok s t"
  shows "find (\<lambda>a. P (sh_heap s ! a) \<and> sv_name (sh_heap s ! a) = n) (table_vars s t) =
    (case scope s t n of Some a \<Rightarrow> if P (sh_heap s ! a) then Some a else None | None \<Rightarrow> None)"
proof (cases t)
  case (Some i)
  with assms(2) have i: "i < length (sh_tables s)" by (simp add: ptr_ok_def)
  then have "distinct (map bc_key (all_items (sh_tables s ! i)))" using assms(1) by (simp add: store_ok_def hash_wf_def)
  from find_items [OF this, of "sh_heap s" P n] item_var [OF assms(1) i] show ?thesis
    by (fastforce simp: Some table_vars_def scope_def hash_map_def hash_entries_def)
qed (simp add: table_vars_def scope_def)

lemma find_contexts:
  assumes "store_ok s" and "\<forall>vc \<in> set vcs. ptr_ok s (vc_table vc)"
  shows "find (\<lambda>a. P (sh_heap s ! a) \<and> sv_name (sh_heap s ! a) = n) (concat (map (\<lambda>vc. table_vars s (vc_table vc)) vcs)) =
    first_such P s vcs n"
  using assms(2) by (induction vcs) (auto simp: find_append find_table [OF assms(1)] split: option.split)

lemma var_comp_strcmp: "qsort_var_comp v w = strcmp (sv_name v) (sv_name w)"
  by (cases "sv_name v"; cases "sv_name w") (auto simp: qsort_var_comp_def char_at_def code_eq_0 Let_def)

lemma sorted_variables:
  assumes "distinct (map (\<lambda>a. sv_name (heap ! a)) l)" and "\<And>a. a \<in> set l \<Longrightarrow> cstring_ok (sv_name (heap ! a))"
  shows "sorted_wrt (\<lambda>a b. strcmp (sv_name (heap ! a)) (sv_name (heap ! b)) < 0)
    (qsort_by (\<lambda>a b. qsort_var_comp (heap ! a) (heap ! b)) l)"
proof -
  let ?n = "\<lambda>a. sv_name (heap ! a)" and ?l = "qsort_by (\<lambda>a b. strcmp (sv_name (heap ! a)) (sv_name (heap ! b))) l"
  have set: "set ?l = set l" by (metis mset_qsort set_mset_mset)
  have "sorted_wrt (\<lambda>a b. strcmp (?n a) (?n b) \<le> 0) ?l"
  proof (rule sorted_qsort [where S = "set l"])
    show "strcmp (?n x) (?n z) \<le> 0"
      if "x \<in> set l" "y \<in> set l" "z \<in> set l" "strcmp (?n x) (?n y) \<le> 0" "strcmp (?n y) (?n z) \<le> 0" for x y z
      using strcmp_trans [OF assms(2) assms(2) assms(2)] that by blast
    show "strcmp (?n x) (?n y) = - strcmp (?n y) (?n x)" for x y by (rule strcmp_swap)
  qed simp
  moreover have "distinct (map ?n ?l)" using assms(1) by (metis mset_eq_imp_distinct_iff mset_map mset_qsort)
  ultimately show ?thesis unfolding var_comp_strcmp by (rule sorted_names_strict) (use assms(2) set in blast)
qed

definition names_ok :: "'e shell \<Rightarrow> bool" where
  "names_ok s \<longleftrightarrow> (\<forall>v \<in> set (sh_heap s). cstring_ok (sv_name v))"

lemma first_such_var:
  assumes "store_ok s" and "\<forall>vc \<in> set vcs. ptr_ok s (vc_table vc)" and "first_such P s vcs n = Some a"
  shows "a < length (sh_heap s) \<and> sv_name (sh_heap s ! a) = n"
  using assms(2,3)
proof (induction vcs)
  case (Cons vc vcs)
  have "ptr_ok s (vc_table vc)" using Cons.prems(1) by simp
  from scope_var [OF assms(1) this] Cons show ?case by (auto split: option.splits if_splits)
qed simp

lemma vapply_list:
  assumes ok: "store_ok s" and nm: "names_ok s"
  shows "\<exists>r. vapply func s = Ret r s \<and> (let l = (case r of None \<Rightarrow> [] | Some l \<Rightarrow> l) in
    sorted_wrt (\<lambda>a b. strcmp (sv_name (sh_heap s ! a)) (sv_name (sh_heap s ! b)) < 0) l
    \<and> (\<forall>a n. a \<in> set l \<and> sv_name (sh_heap s ! a) = n
          \<longleftrightarrow> first_such (func (variable_context s)) s (shell_variables s) n = Some a))"
proof -
  let ?P = "func (variable_context s)" and ?vcs = "shell_variables s"
  let ?as = "concat (map (\<lambda>vc. table_vars s (vc_table vc)) ?vcs)"
  let ?l = "add_vars ?P (sh_heap s) [] ?as"
  let ?s = "qsort_by (\<lambda>a b. qsort_var_comp (sh_heap s ! a) (sh_heap s ! b)) ?l"
  have vcs: "\<forall>vc \<in> set ?vcs. ptr_ok s (vc_table vc)" using ok_contexts [OF ok] by blast
  note spec = add_vars_spec [of "sh_heap s" "[]" ?P ?as, simplified]
  have mem: "a \<in> set ?l \<longleftrightarrow> first_such ?P s ?vcs (sv_name (sh_heap s ! a)) = Some a" for a
    by (simp add: conjunct2 [OF spec] find_contexts [OF ok vcs])
  have set: "set ?s = set ?l" by (metis mset_qsort set_mset_mset)
  have "cstring_ok (sv_name (sh_heap s ! a))" if "a \<in> set ?l" for a
    using nth_mem [OF conjunct1 [OF first_such_var [OF ok vcs that [unfolded mem]]]] nm unfolding names_ok_def by blast
  from sorted_variables [OF conjunct1 [OF spec] this]
  have sorted: "sorted_wrt (\<lambda>a b. strcmp (sv_name (sh_heap s ! a)) (sv_name (sh_heap s ! b)) < 0) ?s" .
  have all: "a \<in> set ?s \<and> sv_name (sh_heap s ! a) = n \<longleftrightarrow> first_such ?P s ?vcs n = Some a" for a n
    unfolding set mem using first_such_var [OF ok vcs] by blast
  let ?r = "if ?as = [] then None else Some ?s"
  have r: "(case ?r of None \<Rightarrow> [] | Some l \<Rightarrow> l) = ?s"
    by (cases "?as = []") (simp_all only: if_True if_False option.case add_vars.simps qsort_by.simps simp_thms)
  have "map_over func ?vcs s = (if int (length ?as) = 0 then Ret None s else Ret (Some ?l) s)"
    unfolding map_over_def bnd_def count_entries_eq [OF ok vcs] flatten_contexts_eq [OF ok vcs]
    by (simp only: outcome.case ret_def if_distribR flatten_contexts_eq [OF ok vcs])
  then have res: "vapply func s = Ret ?r s"
    unfolding vapply_def bnd_def gets_def
    by (cases "?as = []") (simp_all only: outcome.case length_0_conv of_nat_eq_0_iff if_True if_False
        sort_list_def sort_variables_def bnd_def gets_def ret_def option.case simp_thms)
  show ?thesis
    unfolding Let_def by (rule exI [of _ ?r], unfold r) (intro conjI allI res sorted all)
qed

lemma var_lookup_iff:
  assumes "store_ok s" shows "(\<exists>s'. var_lookup n s = Ret (Some a) s') \<longleftrightarrow> env s n = Some a"
proof -
  obtain s' where "var_lookup n s = Ret (env s n) s'" using var_lookup_env [OF assms] by blast
  then show ?thesis by (simp only: outcome.inject) blast
qed

text \<open>
  C14. The lists of variables that the shell prints and exports are made from the right variables. \<^verbatim>\<open>vapply\<close>, behind all these
  lists, gives the variables strictly sorted by name, without changing the state; a variable is listed exactly if it is
  the innermost one of its name among those the filter accepts. Without a filter, these are the variables that a lookup of
  their names finds.
\<close>

theorem variable_lists_innermost:
  assumes "store_ok s" and "names_ok s"
  shows "(\<exists>r. vapply func s = Ret r s \<and> (let l = (case r of None \<Rightarrow> [] | Some l \<Rightarrow> l) in
      sorted_wrt (\<lambda>a b. strcmp (sv_name (sh_heap s ! a)) (sv_name (sh_heap s ! b)) < 0) l
      \<and> (\<forall>a n. a \<in> set l \<and> sv_name (sh_heap s ! a) = n
            \<longleftrightarrow> first_such (func (variable_context s)) s (shell_variables s) n = Some a)))
    \<and> (\<exists>r. all_shell_variables s = Ret r s \<and> (let l = (case r of None \<Rightarrow> [] | Some l \<Rightarrow> l) in
      \<forall>a n. a \<in> set l \<and> sv_name (sh_heap s ! a) = n \<longleftrightarrow> (\<exists>s'. var_lookup n s = Ret (Some a) s')))"
proof (intro conjI)
  note l = vapply_list [OF assms]
  show "\<exists>r. vapply func s = Ret r s \<and> (let l = (case r of None \<Rightarrow> [] | Some l \<Rightarrow> l) in
      sorted_wrt (\<lambda>a b. strcmp (sv_name (sh_heap s ! a)) (sv_name (sh_heap s ! b)) < 0) l
      \<and> (\<forall>a n. a \<in> set l \<and> sv_name (sh_heap s ! a) = n
            \<longleftrightarrow> first_such (func (variable_context s)) s (shell_variables s) n = Some a))" by (rule l)
  show "\<exists>r. all_shell_variables s = Ret r s \<and> (let l = (case r of None \<Rightarrow> [] | Some l \<Rightarrow> l) in
      \<forall>a n. a \<in> set l \<and> sv_name (sh_heap s ! a) = n \<longleftrightarrow> (\<exists>s'. var_lookup n s = Ret (Some a) s'))"
    using l [of "\<lambda>c v. True"] unfolding all_shell_variables_def var_lookup_iff [OF assms(1)] env_def first_such_all Let_def
    by blast
qed

section \<open>Entering names\<close>

lemma insert_new:
  fixes t :: "'a hash_table" and n :: cstring and d :: "'a option" and fl :: int
  assumes "hash_wf t" and "hash_map t n = None"
  defines "t' \<equiv> (let (r, t') = hash_insert n (Some t) fl in update_item r (\<lambda>b. b\<lparr>bc_data := d\<rparr>) t')"
  shows "hash_wf t'" and "hash_map t' = (hash_map t)(n \<mapsto> d)"
proof -
  obtain r u where u: "hash_insert n (Some t) fl = (r, u)" "hash_wf u" "hash_map u = (hash_map t)(n \<mapsto> None)" "ref_ok u r"
    "bc_key (item_at u r) = n"
    using hash_insert_new [OF assms(1,2)] by metis
  show "hash_wf t'" unfolding t'_def u(1) by (simp add: update_item_wf [OF u(2,4)])
  show "hash_map t' = (hash_map t)(n \<mapsto> d)" unfolding t'_def u(1) by (simp add: update_item_map [OF u(2,4)] u(3,5))
qed

lemma enter_all_wf:
  "distinct (map fst xs) \<Longrightarrow>
   hash_wf (enter_all xs) \<and> hash_map (enter_all xs) = map_of (map (\<lambda>(n, a). (n, Some a)) xs)"
proof (induction xs rule: rev_induct)
  case Nil
  then show ?case by (simp add: enter_all_def hash_create_wf hash_create_map)
next
  case (snoc x xs)
  obtain n a where x: "x = (n, a)" by fastforce
  from snoc have wf: "hash_wf (enter_all xs)"
    and m: "hash_map (enter_all xs) = map_of (map (\<lambda>(n, a). (n, Some a)) xs)" by auto
  have out: "map_of (map (\<lambda>(n, a). (n, Some a)) xs) n = None"
    using snoc.prems by (force simp: x map_of_eq_None_iff image_iff)
  let ?u = "let (r, h') = hash_insert n (Some (enter_all xs)) HASH_NOSRCH in update_item r (\<lambda>b. b\<lparr>bc_data := Some a\<rparr>) h'"
  have "enter_all (xs @ [x]) = ?u" by (simp add: enter_all_def x)
  with insert_new [OF wf, of n HASH_NOSRCH "Some a"] out show ?case
    by (auto simp: m x map_add_def fun_eq_iff split: option.split)
qed

lemma shell_with_store:
  assumes "distinct (map sv_name vars)" shows "store_ok (shell_with vars)"
proof -
  have "map fst (zip (map sv_name vars) [2..<2 + length vars]) = map sv_name vars"
    by (simp del: upt_Suc upt.simps add: map_fst_zip)
  then have "hash_wf (enter_all (zip (map sv_name vars) [2..<2 + length vars]))"
    using enter_all_wf assms by metis
  then show ?thesis using shell_with_ok [of vars] by (simp add: store_ok_def shell_with_def hash_create_wf)
qed

lemma shell_with_env:
  assumes "distinct (map sv_name vars)"
  shows "env (shell_with vars) n = map_of (zip (map sv_name vars) [2..<2 + length vars]) n"
proof -
  let ?xs = "zip (map sv_name vars) [2..<2 + length vars]"
  have "map fst ?xs = map sv_name vars" by (simp del: upt_Suc upt.simps add: map_fst_zip)
  then have "hash_map (enter_all ?xs) = map_of (map (\<lambda>(n, a). (n, Some a)) ?xs)" using enter_all_wf assms by metis
  moreover have "map_of (map (\<lambda>(n, a). (n, Some a)) xs) n = map_option Some (map_of xs n)" for xs :: "(cstring \<times> nat) list"
    by (induction xs) auto
  ultimately have "hash_map (enter_all ?xs) n = map_option Some (map_of ?xs n)" by simp
  moreover have "env (shell_with vars) n = Option.bind (hash_map (enter_all ?xs) n) (\<lambda>d. d)"
    by (simp add: env_def shell_with_def scope_def del: upt_Suc upt.simps split: option.split)
  ultimately show ?thesis by (cases "map_of ?xs n") (simp_all only: option.map Option.bind.simps)
qed

section \<open>Assigning to plain variables\<close>

text \<open>A variable whose value is a string and whose assignments have no side effects.\<close>

definition plain_var :: "SHELL_VAR \<Rightarrow> bool" where
  "plain_var v \<longleftrightarrow> \<not> nameref_p v \<and> \<not> readonly_p v \<and> \<not> noassign_p v \<and> \<not> integer_p v \<and> \<not> uppercase_p v \<and> \<not> lowercase_p v
     \<and> \<not> capcase_p v \<and> \<not> array_p v \<and> \<not> assoc_p v \<and> sv_dynamic_value v = None \<and> sv_assign_func v = None"

lemmas flag_p_defs = nameref_p_def readonly_p_def noassign_p_def integer_p_def uppercase_p_def lowercase_p_def capcase_p_def
  array_p_def assoc_p_def invisible_p_def exported_p_def local_p_def tempvar_p_def propagate_p_def

lemmas flag_ops = has_flag_def and.assoc bit.conj_disj_distrib2 att_defs

text \<open>Attributes that do not matter here may come and go.\<close>

lemma plain_attr:
  "plain_var (v\<lparr>sv_attributes := a OR att_exported\<rparr>) = plain_var (v\<lparr>sv_attributes := a\<rparr>)"
  "plain_var (v\<lparr>sv_attributes := a AND NOT att_invisible\<rparr>) = plain_var (v\<lparr>sv_attributes := a\<rparr>)"
  by (simp_all add: plain_var_def flag_p_defs flag_ops)

lemma set_var_eq: "a < length (sh_heap s) \<Longrightarrow> set_var (Some a) f s = Ret () (s\<lparr>sh_heap := (sh_heap s)[a := f (sh_heap s ! a)]\<rparr>)"
  by (simp add: set_var_def)

lemma var_at_eq: "a < length (sh_heap s) \<Longrightarrow> var_at (Some a) s = Ret (sh_heap s ! a) s"
  by (simp add: var_at_def)

lemmas run = bnd_def sq_def gets_def modify_def ret_def only_if_def

text \<open>What an assignment of \<open>x\<close> makes of a variable.\<close>

definition assigned_var :: "bool \<Rightarrow> cstring \<Rightarrow> SHELL_VAR \<Rightarrow> SHELL_VAR" where
  "assigned_var exp x v =
     (let w = v\<lparr>sv_attributes := sv_attributes v AND NOT att_invisible, sv_exportstr := None, sv_value := Some (C_str x)\<rparr>
      in if exp then w\<lparr>sv_attributes := sv_attributes w OR att_exported\<rparr> else w)"

lemma assigned_var_simps [simp]:
  "sv_name (assigned_var e x v) = sv_name v" "sv_value (assigned_var e x v) = Some (C_str x)"
  "sv_context (assigned_var e x v) = sv_context v" "plain_var (assigned_var e x v) = plain_var v"
  "\<not> invisible_p (assigned_var e x v)" "local_p (assigned_var e x v) = local_p v" "tempvar_p (assigned_var e x v) = tempvar_p v"
  by (simp_all add: assigned_var_def Let_def plain_attr) (simp_all add: plain_var_def flag_p_defs flag_ops)

lemma make_value_plain:
  assumes "a < length (sh_heap s)" and "plain_var (sh_heap s ! a)"
  shows "make_variable_value h (Some a) (Some x) 0 s = Ret (Some x) s"
proof -
  have "\<not> has_flag 0 ASS_APPEND" by (simp add: has_flag_def)
  with assms show ?thesis by (simp add: make_variable_value_def run var_at_eq plain_var_def plain_value_def)
qed

definition marked :: "'e shell \<Rightarrow> SHELL_VAR \<Rightarrow> SHELL_VAR" where
  "marked s v = (if mark_modified_vars s then v\<lparr>sv_attributes := sv_attributes v OR att_exported\<rparr> else v)"

lemma mark_assigned_eq:
  fixes s :: "'e shell"
  assumes "a < length (sh_heap s)"
  obtains k where "mark_assigned (Some a) s =
    Ret (Some a) (s\<lparr>sh_heap := (sh_heap s)[a := marked s (sh_heap s ! a)], array_needs_making := k\<rparr>)"
proof -
  let ?s = "s\<lparr>sh_heap := (sh_heap s)[a := marked s (sh_heap s ! a)]\<rparr>"
  have "only_if (mark_modified_vars s) (VSETATTR (Some a) att_exported) s = Ret () ?s"
    using assms by (simp add: marked_def only_if_def ret_def VSETATTR_def set_var_eq)
  then have "mark_assigned (Some a) s = bnd (var_at (Some a)) (\<lambda>v. sq (only_if (exported_p v) need_array) (ret (Some a))) ?s"
    by (simp add: mark_assigned_def bnd_def sq_def gets_def)
  also have "\<dots> = Ret (Some a) (if exported_p (marked s (sh_heap s ! a)) then ?s\<lparr>array_needs_making := 1\<rparr> else ?s)"
    using assms by (simp add: run var_at_eq need_array_def)
  finally show ?thesis
    using that [of 1] that [of "array_needs_making s"] by (cases "exported_p (marked s (sh_heap s ! a))") simp_all
qed

lemma assign_value_plain:
  fixes s :: "'e shell"
  assumes a: "a < length (sh_heap s)" and p: "plain_var (sh_heap s ! a)"
  shows "\<exists>k. assign_value h (Some a) (Some x) 0 s =
    Ret (Some a) (s\<lparr>sh_heap := (sh_heap s)[a := assigned_var (mark_modified_vars s) x (sh_heap s ! a)], array_needs_making := k\<rparr>)"
proof -
  let ?v = "sh_heap s ! a"
  define s1 where "s1 = s\<lparr>sh_heap := (sh_heap s)[a := ?v\<lparr>sv_attributes := sv_attributes ?v AND NOT att_invisible\<rparr>]\<rparr>"
  have v: "\<not> readonly_p ?v" "\<not> noassign_p ?v" "\<not> assoc_p ?v" "\<not> array_p ?v" using p by (simp_all add: plain_var_def)
  have 1: "VUNSETATTR (Some a) att_invisible s = Ret () s1" by (simp add: VUNSETATTR_def set_var_eq a s1_def)
  have 2: "make_variable_value h (Some a) (Some x) 0 s1 = Ret (Some x) s1"
  proof (rule make_value_plain)
    show "a < length (sh_heap s1)" "plain_var (sh_heap s1 ! a)" using a p by (simp_all add: s1_def plain_attr)
  qed
  let ?w = "?v\<lparr>sv_attributes := sv_attributes ?v AND NOT att_invisible, sv_exportstr := None\<rparr>"
  define s2 where "s2 = s\<lparr>sh_heap := (sh_heap s)[a := ?w]\<rparr>"
  define s3 where "s3 = s\<lparr>sh_heap := (sh_heap s)[a := assigned_var False x ?v]\<rparr>"
  have 3: "INVALIDATE_EXPORTSTR (Some a) s1 = Ret () s2" "var_at (Some a) s2 = Ret ?w s2"
    "var_setvalue (Some a) (Some x) s2 = Ret () s3"
    using a by (simp_all add: INVALIDATE_EXPORTSTR_def set_var_eq var_at_eq var_setvalue_def s1_def s2_def s3_def assigned_var_def)
  have 4: "\<not> assoc_p ?w" "\<not> array_p ?w" using v by (simp_all add: flag_p_defs flag_ops)
  have "assign_value h (Some a) (Some x) 0 s = mark_assigned (Some a) s3"
    using v 4 by (simp add: assign_value_def can_optimize_assignment_def has_flag_def run var_at_eq a 1 2 3)
  also have "\<exists>k. \<dots> = Ret (Some a) (s\<lparr>sh_heap := (sh_heap s)[a := assigned_var (mark_modified_vars s) x ?v], array_needs_making := k\<rparr>)"
  proof (rule mark_assigned_eq)
    show "a < length (sh_heap s3)" using a by (simp add: s3_def)
    have w: "marked s3 (sh_heap s3 ! a) = assigned_var (mark_modified_vars s) x ?v"
      using a by (simp add: s3_def marked_def assigned_var_def Let_def)
    fix k assume "mark_assigned (Some a) s3 =
      Ret (Some a) (s3\<lparr>sh_heap := (sh_heap s3)[a := marked s3 (sh_heap s3 ! a)], array_needs_making := k\<rparr>)"
    then have "mark_assigned (Some a) s3 =
      Ret (Some a) (s\<lparr>sh_heap := (sh_heap s)[a := assigned_var (mark_modified_vars s) x ?v], array_needs_making := k\<rparr>)"
      unfolding w by (simp add: s3_def)
    then show ?thesis by (rule exI)
  qed
  finally show ?thesis .
qed

text \<open>Writing to a variable under its name.\<close>

lemma scope_heap [simp]: "scope (s\<lparr>sh_heap := hp\<rparr>) t n = scope s t n"
  "scope (s\<lparr>sh_heap := hp, array_needs_making := k\<rparr>) t n = scope s t n"
  by (simp_all add: scope_def split: option.split)

lemma first_scope_heap [simp]: "first_scope (s\<lparr>sh_heap := hp, array_needs_making := k\<rparr>) vcs n = first_scope s vcs n"
  by (induction vcs) (simp_all split: option.split)

lemma write_var_ok:
  assumes ok: "store_ok s" and nm: "sv_name w = sv_name (sh_heap s ! a)"
  shows "store_ok (s\<lparr>sh_heap := (sh_heap s)[a := w], array_needs_making := k\<rparr>)"
    and "env (s\<lparr>sh_heap := (sh_heap s)[a := w], array_needs_making := k\<rparr>) = env s"
proof -
  have "sv_name ((sh_heap s)[a := w] ! b) = sv_name (sh_heap s ! b)" for b
    using nm by (cases "a < length (sh_heap s)") (auto simp: nth_list_update list_update_beyond)
  then have "entries_ok ((sh_heap s)[a := w]) h" if "entries_ok (sh_heap s) h" for h
    by (intro entries_ok_names [OF that]) simp_all
  then show "store_ok (s\<lparr>sh_heap := (sh_heap s)[a := w], array_needs_making := k\<rparr>)"
    using ok by (simp add: store_ok_def vars_ok_def ptr_ok_def)
  show "env (s\<lparr>sh_heap := (sh_heap s)[a := w], array_needs_making := k\<rparr>) = env s"
    by (simp add: env_def fun_eq_iff)
qed

text \<open>The result of an assignment \<open>n=x\<close>, seen from outside: the variable \<open>a\<close> is what \<open>n\<close> stands for and holds \<open>x\<close>.\<close>

definition stored :: "'e shell \<Rightarrow> cstring \<Rightarrow> cstring \<Rightarrow> nat \<Rightarrow> 'e shell \<Rightarrow> bool" where
  "stored s n x a s' \<longleftrightarrow>
     store_ok s' \<and> env s' n = Some a \<and> plain_var (sh_heap s' ! a) \<and> sv_value (sh_heap s' ! a) = Some (C_str x)
     \<and> (\<forall>m. m \<noteq> n \<longrightarrow> env s' m = env s m) \<and> (\<forall>b < length (sh_heap s). b \<noteq> a \<longrightarrow> sh_heap s' ! b = sh_heap s ! b)
     \<and> temporary_env s' = temporary_env s"

lemma stored_write:
  assumes ok: "store_ok s" and al: "alike s s1" and a: "env s n = Some a" and p: "plain_var (sh_heap s ! a)"
  shows "stored s n x a (s1\<lparr>sh_heap := (sh_heap s1)[a := assigned_var e x (sh_heap s1 ! a)], array_needs_making := k\<rparr>)"
proof -
  note D = alikeD [OF al]
  have ok1: "store_ok s1" by (rule alike_ok [OF ok al])
  have lt: "a < length (sh_heap s)" using env_var [OF ok a] by simp
  note w = write_var_ok [OF ok1, of "assigned_var e x (sh_heap s1 ! a)" a k, OF assigned_var_simps(1)]
  show ?thesis
    unfolding stored_def w(2) alike_env [OF ok al] using a p lt w(1) by (simp add: D)
qed

lemma bind_internal_found:
  fixes s :: "'e shell"
  assumes ok: "store_ok s" and t: "ptr_ok s t" and sc: "scope s t n = Some a" and p: "plain_var (sh_heap s ! a)"
  shows "\<exists>s1 k. bind_variable_internal h n (Some x) t 0 0 s =
      Ret (Some a) (s1\<lparr>sh_heap := (sh_heap s1)[a := assigned_var (mark_modified_vars s1) x (sh_heap s1 ! a)], array_needs_making := k\<rparr>)
    \<and> alike s s1"
proof -
  obtain s1 where s1: "hash_lookup n t s = Ret (Some a) s1" and al: "alike s s1" using hash_lookup_scope [OF ok t, of n] sc by auto
  have a: "a < length (sh_heap s1)" and p1: "plain_var (sh_heap s1 ! a)"
    using scope_var [OF ok t sc] p by (simp_all add: alikeD(1) [OF al])
  have v: "\<not> nameref_p (sh_heap s1 ! a)" "sv_assign_func (sh_heap s1 ! a) = None" using p1 by (simp_all add: plain_var_def)
  obtain k where k: "assign_value h (Some a) (Some x) 0 s1 =
    Ret (Some a) (s1\<lparr>sh_heap := (sh_heap s1)[a := assigned_var (mark_modified_vars s1) x (sh_heap s1 ! a)], array_needs_making := k\<rparr>)"
    using assign_value_plain [OF a p1] by blast
  have "binding_entry h n t 0 s = Ret (Some a, True) s1"
    using a v by (simp add: binding_entry_def has_flag_def run s1 var_at_eq)
  then have "bind_variable_internal h n (Some x) t 0 0 s = assign_value h (Some a) (Some x) 0 s1"
    using a v by (simp add: bind_variable_internal_def bnd_def var_at_eq)
  with k al show ?thesis by (intro exI conjI) (simp only: k, rule al)
qed

text \<open>A new variable \<open>w\<close> entered into table \<open>i\<close>.\<close>

definition enter_new :: "'e shell \<Rightarrow> nat \<Rightarrow> cstring \<Rightarrow> SHELL_VAR \<Rightarrow> 'e shell" where
  "enter_new s i n w = s\<lparr>sh_heap := sh_heap s @ [w],
     sh_tables := (sh_tables s)[i := (let (r, h) = hash_insert n (Some (sh_tables s ! i)) HASH_NOSRCH
                                      in update_item r (\<lambda>b. b\<lparr>bc_data := Some (length (sh_heap s))\<rparr>) h)]\<rparr>"

lemma enter_new_simps [simp]:
  "sh_heap (enter_new s i n w) = sh_heap s @ [w]" "length (sh_tables (enter_new s i n w)) = length (sh_tables s)"
  "shell_variables (enter_new s i n w) = shell_variables s" "temporary_env (enter_new s i n w) = temporary_env s"
  "mark_modified_vars (enter_new s i n w) = mark_modified_vars s" "ptr_ok (enter_new s i n w) t = ptr_ok s t"
  "variable_context (enter_new s i n w) = variable_context s" "localvar_inherit (enter_new s i n w) = localvar_inherit s"
  by (simp_all add: enter_new_def ptr_ok_def)

lemma entries_ok_more:
  assumes "entries_ok heap h" and "entry_set h' \<subseteq> insert (n, Some a) (entry_set h)"
    and "2 \<le> a" and "a < length heap" and "sv_name (heap ! a) = n"
  shows "entries_ok heap h'"
  unfolding entries_ok_def
proof (clarify)
  fix m d assume "(m, d) \<in> entry_set h'"
  then consider "m = n" "d = Some a" | "(m, d) \<in> entry_set h" using assms(2) by blast
  then show "\<exists>b. d = Some b \<and> 2 \<le> b \<and> b < length heap \<and> sv_name (heap ! b) = m"
    using assms(1,3-5) unfolding entries_ok_def by cases blast+
qed

lemma enter_new_ok:
  assumes ok: "store_ok s" and i: "i < length (sh_tables s)" and new: "scope s (Some i) n = None" and nm: "sv_name w = n"
  shows "store_ok (enter_new s i n w)"
    and "ptr_ok s t \<Longrightarrow> scope (enter_new s i n w) t m = (if t = Some i \<and> m = n then Some (length (sh_heap s)) else scope s t m)"
proof -
  let ?h = "sh_tables s ! i" and ?a = "length (sh_heap s)"
  define h' where "h' = (let (r, h) = hash_insert n (Some ?h) HASH_NOSRCH in update_item r (\<lambda>b. b\<lparr>bc_data := Some ?a\<rparr>) h)"
  have eq: "enter_new s i n w = s\<lparr>sh_heap := sh_heap s @ [w], sh_tables := (sh_tables s)[i := h']\<rparr>"
    by (simp only: enter_new_def h'_def)
  have wf: "hash_wf ?h" using ok i by (simp add: store_ok_def)
  have old: "hash_map ?h n = None"
  proof (rule ccontr)
    assume "hash_map ?h n \<noteq> None"
    then obtain d where d: "hash_map ?h n = Some d" by blast
    then obtain b where b: "b \<in> set (all_items ?h)" "bc_data b = d" using hash_map_Some_iff [OF wf] by blast
    from item_var [OF ok i b(1)] b(2) d new show False by (auto simp: scope_def)
  qed
  have wf': "hash_wf h'" and m': "hash_map h' = (hash_map ?h)(n \<mapsto> Some ?a)" unfolding h'_def by (rule insert_new [OF wf old])+
  have entries: "entries_ok (sh_heap s @ [w]) h" if "entries_ok (sh_heap s) h" for h
    by (rule entries_ok_names [OF that]) (simp_all add: nth_append)
  have old_ok: "entries_ok (sh_heap s) ?h" and len: "2 \<le> length (sh_heap s)"
    using ok i by (simp_all add: store_ok_def vars_okD(1,9))
  have "entry_set h' \<subseteq> insert (n, Some ?a) (entry_set ?h)" by (auto simp: entries_of_map [OF wf'] entries_of_map [OF wf] m' split: if_splits)
  then have new_ok: "entries_ok (sh_heap s @ [w]) h'"
    by (rule entries_ok_more [OF entries [OF old_ok]]) (use len nm in simp_all)
  have "hash_wf h \<and> hash_shape h \<and> entries_ok (sh_heap s @ [w]) h" if "h \<in> set ((sh_tables s)[i := h'])" for h
  proof -
    from that have "h = h' \<or> h \<in> set (sh_tables s)" using set_update_subset_insert by fastforce
    then show ?thesis using wf' new_ok ok entries by (auto simp: store_ok_def vars_ok_def hash_wf_shape)
  qed
  then show "store_ok (enter_new s i n w)"
    using ok by (simp add: store_ok_def vars_ok_def ptr_ok_def eq)
  show "scope (enter_new s i n w) t m = (if t = Some i \<and> m = n then Some ?a else scope s t m)" if "ptr_ok s t"
    using that i by (auto simp: scope_def eq m' nth_list_update ptr_ok_def split: option.split)
qed

lemma first_scope_new:
  assumes "store_ok s" and "i < length (sh_tables s)" and "scope s (Some i) n = None" and "sv_name w = n"
    and "\<forall>vc \<in> set vcs. ptr_ok s (vc_table vc)" and "first_scope s vcs n = None"
  shows "first_scope (enter_new s i n w) vcs m =
    (if m = n \<and> (\<exists>vc \<in> set vcs. vc_table vc = Some i) then Some (length (sh_heap s)) else first_scope s vcs m)"
  using assms(5,6)
  by (induction vcs) (auto simp: enter_new_ok(2) [OF assms(1-4)] split: option.splits if_splits)

lemma make_new_variable_eq:
  assumes "i < length (sh_tables s)" and "shell_variables s \<noteq> []"
  shows "make_new_variable n (Some i) s = Ret (Some (length (sh_heap s))) (enter_new s i n (blank_var\<lparr>sv_name := n\<rparr>))"
  using assms by (simp add: make_new_variable_def new_shell_variable_def new_var_def need_tables_def run insert_var_def table_at_def
      set_table_def enter_new_def split: prod.split)

lemma blank_plain: "plain_var (blank_var\<lparr>sv_name := n\<rparr>)"
  by (simp add: plain_var_def blank_var_def flag_p_defs has_flag_def)

lemma bind_new_eq:
  assumes i: "i < length (sh_tables s)" and "shell_variables s \<noteq> []"
  shows "\<exists>k w. bind_new_variable h n (Some x) (Some i) 0 s =
      Ret (Some (length (sh_heap s))) ((enter_new s i n w)\<lparr>array_needs_making := k\<rparr>)
    \<and> sv_name w = n \<and> sv_value w = Some (C_str x) \<and> plain_var w"
proof -
  let ?b = "blank_var\<lparr>sv_name := n\<rparr>" and ?a = "length (sh_heap s)"
  define s1 where "s1 = enter_new s i n ?b"
  let ?w = "?b\<lparr>sv_value := Some (C_str x)\<rparr>"
  define s2 where "s2 = enter_new s i n ?w"
  have 1: "make_new_variable n (Some i) s = Ret (Some ?a) s1" unfolding s1_def by (rule make_new_variable_eq [OF assms])
  have 2: "make_variable_value h (Some ?a) (Some x) 0 s1 = Ret (Some x) s1"
    by (rule make_value_plain) (simp_all add: s1_def blank_plain)
  have 3: "var_setvalue (Some ?a) (Some x) s1 = Ret () s2"
    by (simp add: var_setvalue_def set_var_eq s1_def s2_def) (simp add: enter_new_def)
  obtain k where k: "mark_assigned (Some ?a) s2 =
    Ret (Some ?a) (s2\<lparr>sh_heap := (sh_heap s2)[?a := marked s2 (sh_heap s2 ! ?a)], array_needs_making := k\<rparr>)"
    using mark_assigned_eq [of ?a s2] by (auto simp: s2_def)
  have w: "sh_heap s2 ! ?a = ?w" "(sh_heap s2)[?a := v] = sh_heap s @ [v]" for v by (simp_all add: s2_def)
  have "bind_new_variable h n (Some x) (Some i) 0 s = Ret (Some ?a) ((enter_new s i n (marked s2 ?w))\<lparr>array_needs_making := k\<rparr>)"
    by (simp add: bind_new_variable_def run 1 2 3 k w) (simp add: s2_def enter_new_def)
  moreover have "sv_name (marked s2 ?w) = n \<and> sv_value (marked s2 ?w) = Some (C_str x) \<and> plain_var (marked s2 ?w)"
    using blank_plain [of n] by (simp add: marked_def plain_var_def flag_p_defs flag_ops)
  ultimately show ?thesis by blast
qed

lemma stored_new:
  assumes ok: "store_ok s" and e: "env s n = None" and g: "vc_table (last (shell_variables s)) = Some i"
    and w: "sv_name w = n" "sv_value w = Some (C_str x)" "plain_var w"
  shows "stored s n x (length (sh_heap s)) ((enter_new s i n w)\<lparr>array_needs_making := k\<rparr>)"
proof -
  let ?s = "(enter_new s i n w)\<lparr>array_needs_making := k\<rparr>" and ?g = "last (shell_variables s)"
  have mem: "?g \<in> set (shell_variables s)" using ok by (simp add: store_ok_def vars_okD(2))
  have i: "i < length (sh_tables s)" using ok_contexts [OF ok mem] g by (simp add: ptr_ok_def)
  have "first_scope s vcs n = None \<Longrightarrow> vc \<in> set vcs \<Longrightarrow> scope s (vc_table vc) n = None" for vcs vc
    by (induction vcs) (auto split: option.splits)
  from this [OF e [unfolded env_def] mem] have sc: "scope s (Some i) n = None" by (simp add: g)
  note new = first_scope_new [OF ok i sc w(1), of "shell_variables s"]
  have env: "env ?s m = (if m = n then Some (length (sh_heap s)) else env s m)" for m
  proof -
    have "env ?s m = first_scope (enter_new s i n w) (shell_variables s) m"
    proof -
      have "first_scope ?s vcs m = first_scope (enter_new s i n w) vcs m" for vcs
        by (induction vcs) (simp_all add: scope_def split: option.split)
      then show ?thesis by (simp add: env_def)
    qed
    also have "\<dots> = (if m = n then Some (length (sh_heap s)) else env s m)"
      using new ok_contexts [OF ok] e mem g by (auto simp: env_def)
    finally show ?thesis .
  qed
  have "store_ok ?s"
    using enter_new_ok(1) [OF ok i sc w(1)] by (simp add: store_ok_def vars_ok_def ptr_ok_def)
  then show ?thesis using w by (simp add: stored_def env nth_append)
qed

lemma stored_alike:
  assumes "store_ok s" and "alike s s1" and "stored s1 n x a s'"
  shows "stored s n x a s'"
  using assms(3) unfolding stored_def alike_env [OF assms(1,2)] alikeD(1,4) [OF assms(2)] .

lemma bind_internal_stored:
  assumes ok: "store_ok s" and t: "ptr_ok s t" and e: "env s n = scope s t n" and p: "\<forall>a. env s n = Some a \<longrightarrow> plain_var (sh_heap s ! a)"
    and g: "env s n = None \<Longrightarrow> t = vc_table (last (shell_variables s))"
  shows "\<exists>a s'. bind_variable_internal h n (Some x) t 0 0 s = Ret (Some a) s' \<and> stored s n x a s' \<and> (env s n = None \<or> env s n = Some a)"
proof (cases "env s n")
  case (Some a)
  have sc: "scope s t n = Some a" and pl: "plain_var (sh_heap s ! a)" using e p Some by simp_all
  from bind_internal_found [OF ok t sc pl] stored_write [OF ok _ Some pl] Some show ?thesis by metis
next
  case None
  from ok have global_ok: "global_ok (last (shell_variables s))" and ne: "shell_variables s \<noteq> []"
    by (simp_all add: store_ok_def vars_okD)
  then obtain i where i: "vc_table (last (shell_variables s)) = Some i" by (auto simp: global_ok_def)
  have ti: "t = Some i" using g [OF None] i by simp
  obtain s1 where s1: "hash_lookup n t s = Ret None s1" and al: "alike s s1"
    using hash_lookup_scope [OF ok t, of n] None e by auto
  have ok1: "store_ok s1" and e1: "env s1 n = None" and i1: "i < length (sh_tables s1)" "shell_variables s1 \<noteq> []"
    and g1: "vc_table (last (shell_variables s1)) = Some i"
    using alike_ok [OF ok al] None alike_env [OF ok al] t ti i ne by (simp_all add: alikeD [OF al] ptr_ok_def)
  obtain k w where b: "bind_new_variable h n (Some x) (Some i) 0 s1 =
      Ret (Some (length (sh_heap s1))) ((enter_new s1 i n w)\<lparr>array_needs_making := k\<rparr>)"
    and w: "sv_name w = n" "sv_value w = Some (C_str x)" "plain_var w"
    using bind_new_eq [OF i1] by blast
  have "binding_entry h n t 0 s = Ret (None, True) s1" by (simp add: binding_entry_def has_flag_def run s1)
  then have "bind_variable_internal h n (Some x) t 0 0 s = bind_new_variable h n (Some x) (Some i) 0 s1"
    by (simp add: bind_variable_internal_def bnd_def ti)
  with b stored_alike [OF ok al stored_new [OF ok1 e1 g1 w]] None show ?thesis by metis
qed

text \<open>The contexts above the global one belong to functions and builtins.\<close>

definition calls_only :: "'e shell \<Rightarrow> bool" where
  "calls_only s \<longleftrightarrow> (\<forall>vc \<in> set (butlast (shell_variables s)). vc_isfuncenv vc \<or> vc_isbltnenv vc)"

lemma global_no_call:
  assumes "global_ok vc" shows "\<not> vc_isfuncenv vc \<and> \<not> vc_isbltnenv vc"
proof -
  have f: "vc_flags vc AND 28 = 0"
    using assms by (simp add: global_ok_def VC_TEMPFLAGS_def VC_FUNCENV_def VC_BLTNENV_def VC_TEMPENV_def)
  have "vc_flags vc AND 4 = (vc_flags vc AND 28) AND 4" "vc_flags vc AND 8 = (vc_flags vc AND 28) AND 8"
    by (simp_all add: and.assoc)
  then show ?thesis
    by (simp add: vc_isfuncenv_def vc_isbltnenv_def has_flag_def VC_FUNCENV_def VC_BLTNENV_def f)
qed

lemma bind_loop_stored:
  fixes s :: "'e shell"
  assumes "store_ok s" and "\<forall>(i, vc) \<in> set ps. i < length (shell_variables s) \<and> shell_variables s ! i = vc \<and> (vc_isfuncenv vc \<or> vc_isbltnenv vc)"
    and "env s n = first_scope s (map snd ps @ [last (shell_variables s)]) n"
    and "\<forall>a. env s n = Some a \<longrightarrow> plain_var (sh_heap s ! a)"
  shows "\<exists>a s'. bind_loop h n (Some x) 0 (ps @ [(j, last (shell_variables s))]) s = Ret (Some a) s' \<and> stored s n x a s'
    \<and> (env s n = None \<or> env s n = Some a)"
  using assms
proof (induction ps arbitrary: s)
  case Nil
  have ne: "shell_variables s \<noteq> []" and g: "global_ok (last (shell_variables s))" using Nil.prems(1) by (simp_all add: store_ok_def vars_okD)
  have t: "ptr_ok s (vc_table (last (shell_variables s)))" by (rule ok_contexts [OF Nil.prems(1)]) (simp add: ne)
  have e: "env s n = scope s (vc_table (last (shell_variables s))) n" using Nil.prems(3) by (simp split: option.splits)
  from bind_internal_stored [OF Nil.prems(1) t e Nil.prems(4), of h x] ne global_no_call [OF g] show ?case
    by (simp add: global_table_def bnd_def)
next
  case (Cons q ps)
  obtain i vc where q: "q = (i, vc)" by fastforce
  have i: "i < length (shell_variables s)" "shell_variables s ! i = vc" "vc_isfuncenv vc \<or> vc_isbltnenv vc"
    using Cons.prems(2) by (simp_all add: q)
  have t: "ptr_ok s (vc_table vc)" using ok_contexts [OF Cons.prems(1)] nth_mem [OF i(1)] i(2) by simp
  obtain s1 where s1: "hash_lookup n (vc_table vc) s = Ret (scope s (vc_table vc) n) s1" and al: "alike s s1"
    using hash_lookup_scope [OF Cons.prems(1) t] by blast
  note D = alikeD [OF al]
  have ok1: "store_ok s1" and e1: "env s1 = env s" by (rule alike_ok [OF Cons.prems(1) al], rule alike_env [OF Cons.prems(1) al])
  have p1: "\<forall>a. env s1 n = Some a \<longrightarrow> plain_var (sh_heap s1 ! a)" using Cons.prems(4) by (simp add: e1 D(1))
  show ?case
  proof (cases "scope s (vc_table vc) n")
    case None
    have ptrs: "\<forall>vc \<in> set (map snd ps @ [last (shell_variables s)]). ptr_ok s (vc_table vc)"
      using Cons.prems(1,2) ok_contexts [OF Cons.prems(1)] nth_mem by (fastforce simp: store_ok_def vars_okD(2))
    have "env s1 n = first_scope s1 (map snd ps @ [last (shell_variables s1)]) n"
      using Cons.prems(3) None alike_first [OF al ptrs] by (simp add: q e1 D(2))
    moreover have "\<forall>(i, vc) \<in> set ps. i < length (shell_variables s1) \<and> shell_variables s1 ! i = vc \<and> (vc_isfuncenv vc \<or> vc_isbltnenv vc)"
      using Cons.prems(2) by (simp add: D(2))
    ultimately obtain a s' where "bind_loop h n (Some x) 0 (ps @ [(j, last (shell_variables s1))]) s1 = Ret (Some a) s'"
      "stored s1 n x a s'" "env s1 n = None \<or> env s1 n = Some a"
      using Cons.IH [OF ok1 _ _ p1] by blast
    then show ?thesis
      using stored_alike [OF Cons.prems(1) al] i(3) by (simp add: q bnd_def s1 None D(2) e1)
  next
    case (Some a)
    have ea: "env s n = Some a" using Cons.prems(3) Some by (simp add: q)
    have a: "a < length (sh_heap s1)" "sv_name (sh_heap s1 ! a) = n" "\<not> nameref_p (sh_heap s1 ! a)"
      using env_var [OF Cons.prems(1) ea] Cons.prems(4) ea by (simp_all add: D(1) plain_var_def)
    have t1: "ptr_ok s1 (vc_table vc)" using t by (simp add: ptr_ok_def D(13))
    have sc1: "env s1 n = scope s1 (vc_table vc) n" using ea Some by (simp add: e1 alike_scope [OF al t])
    obtain a' s' where b: "bind_variable_internal h n (Some x) (vc_table vc) 0 0 s1 = Ret (Some a') s'" and st: "stored s1 n x a' s'"
      and "env s1 n = None \<or> env s1 n = Some a'"
      using bind_internal_stored [OF ok1 t1 sc1 p1] ea e1 by (metis option.distinct(1))
    then have a': "a' = a" using ea e1 by simp
    have "bind_in_context h (Some a) i (Some x) 0 s1 = Ret (Some (Some a)) s'"
      using a i b by (simp add: bind_in_context_def bnd_def var_at_eq context_at_def D(2) ret_def a')
    then show ?thesis
      using stored_alike [OF Cons.prems(1) al st] i(3) ea by (simp add: q bnd_def s1 Some a' ret_def)
  qed
qed

text \<open>Names of plain variables and names without a variable: what \<^verbatim>\<open>n\<close> stands for is found without a trace.\<close>

definition plain_name :: "'e shell \<Rightarrow> cstring \<Rightarrow> bool" where
  "plain_name s n \<longleftrightarrow> (\<forall>a. env s n = Some a \<longrightarrow> plain_var (sh_heap s ! a))"

lemma find_internal_env:
  assumes ok: "store_ok s" and te: "temporary_env s = None" and p: "plain_name s n"
  shows "\<exists>s'. find_variable_internal h n (if b then FV_FORCETEMPENV else 0) s = Ret (env s n) s' \<and> alike s s'"
proof -
  obtain s' where s': "var_lookup n s = Ret (env s n) s'" and al: "alike s s'"
    using var_lookup_env [OF ok, of n] by blast
  have fl: "\<not> has_flag (if b then FV_FORCETEMPENV else 0) FV_SKIPINVISIBLE"
    by (simp add: has_flag_def FV_FORCETEMPENV_def FV_SKIPINVISIBLE_def)
  have "current_value h (env s n) s' = Ret (env s n) s'"
  proof (cases "env s n")
    case (Some a)
    then have "a < length (sh_heap s')" "sv_dynamic_value (sh_heap s' ! a) = None"
      using env_var [OF ok Some] p by (simp_all add: alikeD(1) [OF al] plain_name_def plain_var_def)
    then show ?thesis by (simp add: Some current_value_def run var_at_eq)
  qed (simp add: current_value_def ret_def)
  then have "find_variable_internal h n (if b then FV_FORCETEMPENV else 0) s = Ret (env s n) s'"
    using te fl s' by (simp add: find_variable_internal_def run hash_lookup_def)
  with al show ?thesis by blast
qed

lemma find_noref_env:
  assumes "store_ok s" and "temporary_env s = None" and "plain_name s n"
  shows "\<exists>s'. find_variable_noref h n s = Ret (env s n) s' \<and> alike s s'"
  unfolding find_variable_noref_def tempenv_flags_def bnd_def gets_def outcome.case by (rule find_internal_env [OF assms])

lemma find_env:
  assumes ok: "store_ok s" and te: "temporary_env s = None" and p: "plain_name s n"
  shows "\<exists>s'. find_variable h n s = Ret (env s n) s' \<and> alike s s'"
proof -
  let ?s = "s\<lparr>last_table_searched := None\<rparr>"
  have ok1: "store_ok ?s" and e1: "env ?s = env s" by (rule alike_ok [OF ok], simp, rule alike_env [OF ok], simp)
  have te1: "temporary_env ?s = None" and p1: "plain_name ?s n" using te p by (simp_all add: plain_name_def e1)
  obtain s' where s': "find_variable_noref h n ?s = Ret (env s n) s'" and al: "alike ?s s'"
    using find_noref_env [OF ok1 te1 p1, of h] unfolding e1 by blast
  have "follow_nameref h (env s n) s' = Ret (env s n) s'"
  proof (cases "env s n")
    case (Some a)
    then have "a < length (sh_heap s')" "\<not> nameref_p (sh_heap s' ! a)"
      using env_var [OF ok Some] p by (simp_all add: alikeD(1) [OF al] plain_name_def plain_var_def)
    then show ?thesis by (simp add: Some follow_nameref_def run var_at_eq)
  qed (simp add: follow_nameref_def ret_def)
  moreover have "find_variable h n s = bnd (find_variable_noref h n) (follow_nameref h) ?s"
    by (simp add: find_variable_def find_variable_noref_def run tempenv_flags_def)
  ultimately have "find_variable h n s = Ret (env s n) s'" by (simp add: bnd_def s')
  with alike_trans [OF alike_searched al] show ?thesis by blast
qed

lemma get_string_plain:
  assumes "store_ok s" and "temporary_env s = None" and "env s n = Some a" and p: "plain_var (sh_heap s ! a)"
    and "sv_value (sh_heap s ! a) = Some (C_str x)"
  shows "\<exists>s'. get_string_value h n s = Ret (Some x) s'"
proof -
  have "plain_name s n" using assms(3) p by (simp add: plain_name_def)
  then obtain s' where s': "find_variable h n s = Ret (Some a) s'" and al: "alike s s'"
    using find_env [OF assms(1,2), of n h] assms(3) by auto
  have "a < length (sh_heap s')" "\<not> array_p (sh_heap s' ! a)" "\<not> assoc_p (sh_heap s' ! a)" "sv_value (sh_heap s' ! a) = Some (C_str x)"
    using env_var [OF assms(1,3)] p assms(5) by (simp_all add: alikeD(1) [OF al] plain_var_def)
  then have "get_string_value h n s = Ret (Some x) s'"
    by (simp add: get_string_value_def bnd_def s' get_variable_value_def var_at_eq value_cell_def ret_def)
  then show ?thesis by blast
qed

text \<open>
  A readonly variable that is not a reference refuses the assignment before anything is written: the result is the
  variable, and all that has changed are the message and the counters of the searches.
\<close>

definition refuses :: "'e shell \<Rightarrow> cstring \<Rightarrow> 'e shell \<Rightarrow> bool" where
  "refuses s n s' \<longleftrightarrow> alike (s\<lparr>sh_messages := sh_messages s @ [M_readonly n]\<rparr>) s'"

lemma refuses_alike:
  assumes "alike s s1" and "refuses s1 n s'" shows "refuses s n s'"
proof -
  let ?m = "\<lambda>s. s\<lparr>sh_messages := sh_messages s @ [M_readonly n]\<rparr>"
  from assms(1) obtain ts l where s1: "s1 = s\<lparr>sh_tables := ts, last_table_searched := l\<rparr>" and ts: "list_all2 same_table (sh_tables s) ts"
    unfolding alike_def by blast
  have "?m s1 = (?m s)\<lparr>sh_tables := ts, last_table_searched := l\<rparr>" by (simp add: s1)
  with alikeI [of "?m s" ts l] ts have "alike (?m s) (?m s1)" by simp
  with assms(2) show ?thesis unfolding refuses_def by (rule alike_trans [rotated])
qed

lemma bind_internal_refuses:
  fixes s :: "'e shell"
  assumes ok: "store_ok s" and t: "ptr_ok s t" and sc: "scope s t n = Some a" and f: "\<not> has_flag flags ASS_FORCE"
    and ro: "readonly_p (sh_heap s ! a)" "\<not> nameref_p (sh_heap s ! a)"
  shows "\<exists>s'. bind_variable_internal h n val t 0 flags s = Ret (Some a) s' \<and> refuses s n s'"
proof -
  obtain s1 where s1: "hash_lookup n t s = Ret (Some a) s1" and al: "alike s s1" using hash_lookup_scope [OF ok t, of n] sc by auto
  have a: "a < length (sh_heap s1)" "sv_name (sh_heap s1 ! a) = n" "readonly_p (sh_heap s1 ! a)" "\<not> nameref_p (sh_heap s1 ! a)"
    using scope_var [OF ok t sc] ro by (simp_all add: alikeD(1) [OF al])
  let ?s' = "s1\<lparr>sh_messages := sh_messages s1 @ [M_readonly n]\<rparr>"
  have "binding_entry h n t 0 s = Ret (Some a, True) s1" using a by (simp add: binding_entry_def has_flag_def run s1 var_at_eq)
  moreover have "assign_value h (Some a) val flags s1 = Ret (Some a) ?s'" "assign_by_func h g (Some a) val flags s1 = Ret (Some a) ?s'" for g
    using a f by (simp_all add: assign_value_def assign_by_func_def run var_at_eq report_def)
  ultimately have "bind_variable_internal h n val t 0 flags s = Ret (Some a) ?s'"
    using a by (simp add: bind_variable_internal_def bnd_def var_at_eq split: option.split)
  moreover have "refuses s n ?s'" using refuses_alike [OF al, of n ?s'] by (simp add: refuses_def)
  ultimately show ?thesis by blast
qed

lemma bind_loop_refuses:
  fixes s :: "'e shell"
  assumes "store_ok s" and "\<forall>(i, vc) \<in> set ps. i < length (shell_variables s) \<and> shell_variables s ! i = vc \<and> (vc_isfuncenv vc \<or> vc_isbltnenv vc)"
    and "first_scope s (map snd ps @ [last (shell_variables s)]) n = Some a"
    and "readonly_p (sh_heap s ! a)" "\<not> nameref_p (sh_heap s ! a)" and f: "\<not> has_flag flags ASS_FORCE"
  shows "\<exists>s'. bind_loop h n val flags (ps @ [(j, last (shell_variables s))]) s = Ret (Some a) s' \<and> refuses s n s'"
  using assms(1-5)
proof (induction ps arbitrary: s)
  case Nil
  have ne: "shell_variables s \<noteq> []" and g: "global_ok (last (shell_variables s))" using Nil.prems(1) by (simp_all add: store_ok_def vars_okD)
  have t: "ptr_ok s (vc_table (last (shell_variables s)))" by (rule ok_contexts [OF Nil.prems(1)]) (simp add: ne)
  have sc: "scope s (vc_table (last (shell_variables s))) n = Some a" using Nil.prems(3) by (simp split: option.splits)
  from bind_internal_refuses [OF Nil.prems(1) t sc f Nil.prems(4,5), of h val] ne global_no_call [OF g] show ?case
    by (simp add: global_table_def bnd_def)
next
  case (Cons q ps)
  obtain i vc where q: "q = (i, vc)" by fastforce
  have i: "i < length (shell_variables s)" "shell_variables s ! i = vc" "vc_isfuncenv vc \<or> vc_isbltnenv vc"
    using Cons.prems(2) by (simp_all add: q)
  have t: "ptr_ok s (vc_table vc)" using ok_contexts [OF Cons.prems(1)] nth_mem [OF i(1)] i(2) by simp
  obtain s1 where s1: "hash_lookup n (vc_table vc) s = Ret (scope s (vc_table vc) n) s1" and al: "alike s s1"
    using hash_lookup_scope [OF Cons.prems(1) t] by blast
  note D = alikeD [OF al]
  have ok1: "store_ok s1" and ro1: "readonly_p (sh_heap s1 ! a)" "\<not> nameref_p (sh_heap s1 ! a)"
    using alike_ok [OF Cons.prems(1) al] Cons.prems(4,5) by (simp_all add: D(1))
  show ?case
  proof (cases "scope s (vc_table vc) n")
    case None
    have ptrs: "\<forall>vc \<in> set (map snd ps @ [last (shell_variables s)]). ptr_ok s (vc_table vc)"
      using Cons.prems(1,2) ok_contexts [OF Cons.prems(1)] nth_mem by (fastforce simp: store_ok_def vars_okD(2))
    have "first_scope s1 (map snd ps @ [last (shell_variables s1)]) n = Some a"
      using Cons.prems(3) None alike_first [OF al ptrs] by (simp add: q D(2))
    moreover have "\<forall>(i, vc) \<in> set ps. i < length (shell_variables s1) \<and> shell_variables s1 ! i = vc \<and> (vc_isfuncenv vc \<or> vc_isbltnenv vc)"
      using Cons.prems(2) by (simp add: D(2))
    ultimately obtain s' where "bind_loop h n val flags (ps @ [(j, last (shell_variables s1))]) s1 = Ret (Some a) s'" "refuses s1 n s'"
      using Cons.IH [OF ok1 _ _ ro1] by blast
    then show ?thesis using refuses_alike [OF al] i(3) by (simp add: q bnd_def s1 None D(2))
  next
    case (Some b)
    have b: "b = a" using Cons.prems(3) Some by (simp add: q)
    have a: "a < length (sh_heap s1)" "sv_name (sh_heap s1 ! a) = n" using scope_var [OF Cons.prems(1) t, of n a] Some by (simp_all add: b D(1))
    have t1: "ptr_ok s1 (vc_table vc)" using t by (simp add: ptr_ok_def D(13))
    have sc1: "scope s1 (vc_table vc) n = Some a" using Some b by (simp add: alike_scope [OF al t])
    obtain s' where s': "bind_variable_internal h n val (vc_table vc) 0 flags s1 = Ret (Some a) s'" "refuses s1 n s'"
      using bind_internal_refuses [OF ok1 t1 sc1 f ro1] by blast
    have "bind_in_context h (Some a) i val flags s1 = Ret (Some (Some a)) s'"
      using a i s' ro1 by (simp add: bind_in_context_def bnd_def var_at_eq context_at_def D(2) ret_def)
    then show ?thesis using refuses_alike [OF al s'(2)] i(3) by (simp add: q bnd_def s1 Some b ret_def)
  qed
qed

lemma bind_variable_loop:
  assumes ok: "store_ok s" and te: "temporary_env s = None" and c: "calls_only s"
  obtains ps j where "bind_variable h n val flags s = bind_loop h n val flags (ps @ [(j, last (shell_variables s))]) s"
    "\<forall>(i, vc) \<in> set ps. i < length (shell_variables s) \<and> shell_variables s ! i = vc \<and> (vc_isfuncenv vc \<or> vc_isbltnenv vc)"
    "env s n = first_scope s (map snd ps @ [last (shell_variables s)]) n"
proof -
  let ?vcs = "shell_variables s"
  have ne: "?vcs \<noteq> []" using ok by (simp add: store_ok_def vars_okD(2))
  let ?ps = "enumerate 0 (butlast ?vcs)"
  have vcs: "?vcs = butlast ?vcs @ [last ?vcs]" using ne by simp
  have en: "enumerate 0 ?vcs = ?ps @ [(length (butlast ?vcs), last ?vcs)]"
    by (subst vcs, subst enumerate_append_eq) simp
  have ps: "\<forall>(i, vc) \<in> set ?ps. i < length ?vcs \<and> ?vcs ! i = vc \<and> (vc_isfuncenv vc \<or> vc_isbltnenv vc)"
  proof (clarify)
    fix i vc assume "(i, vc) \<in> set ?ps"
    then have i: "i < length (butlast ?vcs)" "vc = butlast ?vcs ! i" by (simp_all add: in_set_enumerate_eq)
    then have "vc \<in> set (butlast ?vcs)" by simp
    with c i show "i < length ?vcs \<and> ?vcs ! i = vc \<and> (vc_isfuncenv vc \<or> vc_isbltnenv vc)"
      unfolding calls_only_def by (simp add: nth_butlast)
  qed
  have "env s n = first_scope s (map snd ?ps @ [last ?vcs]) n" using vcs by (simp add: env_def)
  moreover have "bind_variable h n val flags s = bind_loop h n val flags (?ps @ [(length (butlast ?vcs), last ?vcs)]) s"
    using ne te by (simp add: bind_variable_def run need_tables_def en)
  ultimately show ?thesis using ps that by blast
qed

lemma bind_variable_stored:
  assumes ok: "store_ok s" and te: "temporary_env s = None" and c: "calls_only s" and p: "\<forall>a. env s n = Some a \<longrightarrow> plain_var (sh_heap s ! a)"
  shows "\<exists>a s'. bind_variable h n (Some x) 0 s = Ret (Some a) s' \<and> stored s n x a s' \<and> (env s n = None \<or> env s n = Some a)"
proof -
  obtain ps j where "bind_variable h n (Some x) 0 s = bind_loop h n (Some x) 0 (ps @ [(j, last (shell_variables s))]) s"
    "\<forall>(i, vc) \<in> set ps. i < length (shell_variables s) \<and> shell_variables s ! i = vc \<and> (vc_isfuncenv vc \<or> vc_isbltnenv vc)"
    "env s n = first_scope s (map snd ps @ [last (shell_variables s)]) n"
    by (rule bind_variable_loop [OF ok te c])
  with bind_loop_stored [OF ok _ _ p, of ps h x j] show ?thesis by simp
qed

text \<open>
  C11. Assignment and lookup agree. Under functions and builtins, in any nesting, an assignment \<^verbatim>\<open>n=x\<close> to a name that stands for a
  plain variable, or for none, returns and writes the variable of the innermost scope, or makes a global one; a lookup of
  the name then finds this variable and yields \<open>x\<close>. No other name changes its meaning and no other variable its contents, and the
  store stays well formed.
\<close>

theorem assignment_read_back:
  assumes "store_ok s" and "temporary_env s = None" and "calls_only s" and "\<forall>a. env s n = Some a \<longrightarrow> plain_var (sh_heap s ! a)"
  shows "\<exists>a s'. bind_variable h n (Some x) 0 s = Ret (Some a) s'
    \<and> (\<exists>s''. find_variable h n s' = Ret (Some a) s'') \<and> (\<exists>s''. get_string_value h n s' = Ret (Some x) s'')
    \<and> (env s n = None \<or> env s n = Some a) \<and> (\<forall>m. m \<noteq> n \<longrightarrow> env s' m = env s m)
    \<and> (\<forall>b < length (sh_heap s). b \<noteq> a \<longrightarrow> sh_heap s' ! b = sh_heap s ! b) \<and> store_ok s'"
proof -
  obtain a s' where b: "bind_variable h n (Some x) 0 s = Ret (Some a) s'" and st: "stored s n x a s'"
    and old: "env s n = None \<or> env s n = Some a" using bind_variable_stored [OF assms] by blast
  have S: "store_ok s'" "env s' n = Some a" "plain_var (sh_heap s' ! a)" "sv_value (sh_heap s' ! a) = Some (C_str x)"
    "\<forall>m. m \<noteq> n \<longrightarrow> env s' m = env s m" "\<forall>b < length (sh_heap s). b \<noteq> a \<longrightarrow> sh_heap s' ! b = sh_heap s ! b"
    "temporary_env s' = None"
    using st assms(2) by (simp_all add: stored_def)
  obtain s1 s2 where "find_variable h n s' = Ret (Some a) s1" "get_string_value h n s' = Ret (Some x) s2"
    using find_env [OF S(1,7), of n h] get_string_plain [OF S(1,7,2-4), of h] S(2,3) by (auto simp only: plain_name_def option.inject)
  with b old S(1,5,6) show ?thesis by blast
qed

lemma example_facts:
  "store_ok example_shell" "names_ok example_shell" "temporary_env example_shell = None" "calls_only example_shell"
proof -
  show "store_ok example_shell"
    unfolding example_shell_def by (rule shell_with_store) (simp add: var_named_def)
  show "names_ok example_shell" "temporary_env example_shell = None" "calls_only example_shell"
    by (simp_all add: example_shell_def shell_with_def names_ok_def calls_only_def var_named_def blank_var_def cstring_ok_def NUL_def)
qed

lemma example_env: "env example_shell ''x'' = Some 3" "plain_var (sh_heap example_shell ! 3)"
proof -
  show "env example_shell ''x'' = Some 3"
    unfolding example_shell_def by (subst shell_with_env) (simp_all add: var_named_def upt_rec)
  show "plain_var (sh_heap example_shell ! 3)"
    by (simp add: example_shell_def shell_with_def var_named_def blank_var_def plain_var_def flag_p_defs has_flag_def)
qed

lemma assignment_read_back_witness:
  "\<exists>a s'. bind_variable plain_hooks ''x'' (Some ''7'') 0 example_shell = Ret (Some a) s'
     \<and> (\<exists>s''. get_string_value plain_hooks ''x'' s' = Ret (Some ''7'') s'')"
proof -
  have "\<forall>a. env example_shell ''x'' = Some a \<longrightarrow> plain_var (sh_heap example_shell ! a)" using example_env by simp
  from assignment_read_back [OF example_facts(1,3,4) this, of plain_hooks "''7''"] show ?thesis by blast
qed



lemma variable_lists_innermost_witness:
  "\<exists>r. all_shell_variables example_shell = Ret r example_shell \<and> (let l = (case r of None \<Rightarrow> [] | Some l \<Rightarrow> l) in
     \<forall>a n. a \<in> set l \<and> sv_name (sh_heap example_shell ! a) = n \<longleftrightarrow> (\<exists>s'. var_lookup n example_shell = Ret (Some a) s'))"
  by (rule conjunct2 [OF variable_lists_innermost [OF example_facts(1,2)]])

end
