(* ===== verification/Scope_Calls.thy ===== *)
theory Scope_Calls
  imports Scope_Env
begin

text \<open>
  Function calls: what the body of a function does to variables it declares local is gone when the function
  returns.
\<close>

section \<open>Inside a call\<close>

text \<open>A local variable of the scope \<open>c\<close>.\<close>

definition own_local :: "int \<Rightarrow> SHELL_VAR \<Rightarrow> bool" where
  "own_local c v \<longleftrightarrow> plain_var v \<and> \<not> tempvar_p v \<and> local_p v \<and> sv_context v = c"

text \<open>
  \<open>s'\<close> is a state inside a function called in \<open>s\<close>: the variables and tables of \<open>s\<close> are untouched, and the context \<open>fc\<close> is
  on the stack, which has local variables with names of \<open>N\<close> only.
\<close>

definition inner :: "cstring set \<Rightarrow> 'e shell \<Rightarrow> VAR_CONTEXT \<Rightarrow> 'e shell \<Rightarrow> bool" where
  "inner N s fc s' \<longleftrightarrow>
     store_ok s' \<and> variable_context s' = variable_context s + 1 \<and> temporary_env s' = None \<and> \<not> localvar_inherit s'
     \<and> take (length (sh_heap s)) (sh_heap s') = sh_heap s
     \<and> list_all2 same_table (sh_tables s) (take (length (sh_tables s)) (sh_tables s'))
     \<and> dollar_arg_stack s' = (tl (dollar_vars s), rest_of_args s, posparam_count s) # dollar_arg_stack s
     \<and> hd (dollar_vars s') = hd (dollar_vars s)
     \<and> shell_variables s' = fc # shell_variables s \<and> vc_isfuncenv fc \<and> vc_scope fc = variable_context s + 1
     \<and> (\<forall>i. vc_table fc = Some i \<longrightarrow> length (sh_tables s) \<le> i)
     \<and> (\<forall>n a. scope s' (vc_table fc) n = Some a \<longrightarrow>
          n \<in> N \<and> length (sh_heap s) \<le> a \<and> own_local (variable_context s + 1) (sh_heap s' ! a))"

lemma innerD:
  assumes "inner N s fc s'"
  shows "store_ok s'" and "variable_context s' = variable_context s + 1" and "temporary_env s' = None"
    and "\<not> localvar_inherit s'" and "take (length (sh_heap s)) (sh_heap s') = sh_heap s"
    and "list_all2 same_table (sh_tables s) (take (length (sh_tables s)) (sh_tables s'))"
    and "dollar_arg_stack s' = (tl (dollar_vars s), rest_of_args s, posparam_count s) # dollar_arg_stack s"
    and "hd (dollar_vars s') = hd (dollar_vars s)"
    and "shell_variables s' = fc # shell_variables s" and "vc_isfuncenv fc" and "vc_scope fc = variable_context s + 1"
    and "vc_table fc = Some i \<Longrightarrow> length (sh_tables s) \<le> i"
    and "scope s' (vc_table fc) n = Some a \<Longrightarrow>
           n \<in> N \<and> length (sh_heap s) \<le> a \<and> own_local (variable_context s + 1) (sh_heap s' ! a)"
  using assms by (simp_all add: inner_def)

lemma same_tables_take: "list_all2 P xs (take (length xs) ys) \<Longrightarrow> length xs \<le> length ys"
  by (auto dest: list_all2_lengthD)

text \<open>The tables of the caller still hold what they held.\<close>

lemma inner_outer_scope:
  assumes "inner N s fc s'" and "ptr_ok s t"
  shows "scope s' t n = scope s t n"
proof (cases t)
  case (Some i)
  have i: "i < length (sh_tables s)" using assms(2) Some by (simp add: ptr_ok_def)
  then have "hash_map (sh_tables s' ! i) = hash_map (sh_tables s ! i)" using same_tables_scope [OF innerD(6) [OF assms(1)] i] by simp
  then show ?thesis by (simp add: Some scope_def)
qed (simp add: scope_def)

lemma inner_outer_first:
  assumes "inner N s fc s'" and "\<forall>vc \<in> set vcs. ptr_ok s (vc_table vc)"
  shows "first_scope s' vcs n = first_scope s vcs n"
  using assms(2) by (induction vcs) (simp_all add: inner_outer_scope [OF assms(1)] split: option.split)

lemma inner_env:
  assumes "inner N s fc s'" and "store_ok s"
  shows "env s' n = (case scope s' (vc_table fc) n of Some a \<Rightarrow> Some a | None \<Rightarrow> env s n)"
  using inner_outer_first [OF assms(1), of "shell_variables s"] ok_contexts [OF assms(2)]
  by (simp add: env_def innerD(9) [OF assms(1)] split: option.split)

lemma inner_longer: "inner N s fc s' \<Longrightarrow> length (sh_heap s) \<le> length (sh_heap s')"
  by (metis innerD(5) length_take min.cobounded1)

lemma inner_heap:
  assumes "inner N s fc s'" and "b < length (sh_heap s)"
  shows "sh_heap s' ! b = sh_heap s ! b" and "b < length (sh_heap s')"
proof -
  note t = innerD(5) [OF assms(1)]
  show "sh_heap s' ! b = sh_heap s ! b" using assms(2) nth_take [of b "length (sh_heap s)" "sh_heap s'"] by (simp add: t)
  show "b < length (sh_heap s')" using assms(2) inner_longer [OF assms(1)] by simp
qed

lemma inner_table: "inner N s fc s' \<Longrightarrow> ptr_ok s' (vc_table fc)"
  using ok_contexts [OF innerD(1)] innerD(9) by fastforce

lemma inner_alike:
  assumes "inner N s fc s'" and "alike s' s''"
  shows "inner N s fc s''"
proof -
  note D = alikeD [OF assms(2)] and I = innerD [OF assms(1)]
  have l: "list_all2 same_table (sh_tables s) (take (length (sh_tables s)) (sh_tables s''))"
    by (rule list_all2_trans [OF same_table_trans I(6) list_all2_takeI [OF D(14)]])
  have o: "store_ok s''" by (rule alike_ok [OF I(1) assms(2)])
  show ?thesis
    using assms(1) l o unfolding inner_def by (simp add: D alike_scope [OF assms(2) inner_table [OF assms(1)]])
qed

text \<open>Writing to a local variable.\<close>

lemma inner_write:
  assumes i: "inner N s fc s'" and a: "scope s' (vc_table fc) n = Some a" and w: "sv_name w = sv_name (sh_heap s' ! a)"
    and l: "own_local (variable_context s + 1) w"
  shows "inner N s fc (s'\<lparr>sh_heap := (sh_heap s')[a := w], array_needs_making := k\<rparr>)"
proof -
  note I = innerD [OF i]
  have "length (sh_heap s) \<le> a" using I(13) [OF a] by simp
  then have "take (length (sh_heap s)) ((sh_heap s')[a := w]) = sh_heap s" using I(5) by simp
  moreover have "own_local (variable_context s + 1) ((sh_heap s')[a := w] ! b)" if "own_local (variable_context s + 1) (sh_heap s' ! b)" for b
    using that l scope_var [OF I(1) inner_table [OF i] a] by (cases "b = a") simp_all
  ultimately show ?thesis
    using i write_var_ok(1) [OF I(1) w] unfolding inner_def by simp
qed

section \<open>Declaring a local variable\<close>

text \<open>
  Names that a function may declare local here: they stand for a plain variable that is not from a temporary environment, or for
  none, and the shell does nothing special when they change.
\<close>

definition local_name :: "'e shell \<Rightarrow> cstring \<Rightarrow> bool" where
  "local_name s n \<longleftrightarrow> (\<forall>a. env s n = Some a \<longrightarrow> plain_var (sh_heap s ! a) \<and> \<not> tempvar_p (sh_heap s ! a))
     \<and> find_special_var n = - 1 \<and> n \<noteq> ''-''"

text \<open>No variable belongs to a scope deeper than the current one.\<close>

definition shallow :: "'e shell \<Rightarrow> bool" where
  "shallow s \<longleftrightarrow> (\<forall>v \<in> set (sh_heap s). sv_context v \<le> variable_context s)"

lemma local_not_ifs: "local_name s n \<Longrightarrow> \<not> ifsname n"
proof
  assume "local_name s n" and "ifsname n"
  then have "find_special_var ''IFS'' = - 1" by (simp add: local_name_def ifsname_def)
  moreover have "find_special_var ''IFS'' = 13" by code_simp
  ultimately show False by simp
qed

lemma inner_enter:
  assumes i: "inner N s fc s'" and t: "vc_table fc = Some i" and new: "scope s' (Some i) n = None"
    and n: "n \<in> N" "sv_name w = n" "own_local (variable_context s + 1) w"
  defines "fc' \<equiv> fc\<lparr>vc_flags := vc_flags fc OR VC_HASLOCAL\<rparr>"
  defines "s'' \<equiv> (enter_new s' i n w)\<lparr>shell_variables := fc' # shell_variables s\<rparr>"
  shows "inner N s fc' s''" and "scope s'' (Some i) = (scope s' (Some i))(n \<mapsto> length (sh_heap s'))"
proof -
  note I = innerD [OF i]
  have lt: "i < length (sh_tables s')" using inner_table [OF i] t by (simp add: ptr_ok_def)
  note new_ok = enter_new_ok [OF I(1) lt new n(2)]
  have p: "ptr_ok s' (Some i)" using lt by (simp add: ptr_ok_def)
  have sc'': "scope s'' t m = scope (enter_new s' i n w) t m" for t m by (simp add: s''_def scope_def split: option.split)
  show sc: "scope s'' (Some i) = (scope s' (Some i))(n \<mapsto> length (sh_heap s'))"
    by (rule ext) (simp add: sc'' new_ok(2) [OF p])
  have e: "store_ok (enter_new s' i n w)" by (rule new_ok(1))
  have ne: "shell_variables s \<noteq> []"
    using vars_okD(3) [of s'] I(1,10) global_no_call [of fc] by (auto simp: store_ok_def I(9))
  have "store_ok s''"
    using e ne by (simp add: s''_def store_ok_def vars_ok_def ptr_ok_def I(9) fc'_def)
  moreover have "take (length (sh_heap s)) (sh_heap s' @ [w]) = sh_heap s"
    using I(5) inner_longer [OF i] by simp
  moreover have "take (length (sh_tables s)) (sh_tables (enter_new s' i n w)) = take (length (sh_tables s)) (sh_tables s')"
    using I(12) [OF t] by (simp add: enter_new_def)
  moreover have "vc_isfuncenv fc'" using I(10) by (simp add: fc'_def vc_isfuncenv_def has_flag_or)
  moreover have "m \<in> N \<and> length (sh_heap s) \<le> a \<and> own_local (variable_context s + 1) (sh_heap s'' ! a)"
    if "scope s'' (vc_table fc') m = Some a" for m a
  proof (cases "m = n")
    case True
    note inner_longer [OF i]
    moreover have "a = length (sh_heap s')" using that True by (simp add: fc'_def t sc)
    ultimately show ?thesis using True n by (simp add: s''_def)
  next
    case False
    then have old: "scope s' (vc_table fc) m = Some a" using that by (simp add: fc'_def t sc)
    with I(13) [OF old] scope_var [OF I(1) inner_table [OF i] old] show ?thesis by (simp add: s''_def nth_append)
  qed
  ultimately show "inner N s fc' s''"
    unfolding inner_def using I(2-8,11,12) t by (simp add: s''_def fc'_def) (simp add: enter_new_def)
qed

lemma create_ok: "hash_wf (hash_create TEMPENV_HASH_BUCKETS)" "hash_shape (hash_create TEMPENV_HASH_BUCKETS)"
  "hash_map (hash_create TEMPENV_HASH_BUCKETS) = Map.empty" "entries_ok heap (hash_create TEMPENV_HASH_BUCKETS)"
  by (simp_all add: TEMPENV_HASH_BUCKETS_def hash_create_wf hash_create_map entries_ok_def)

lemma inner_not_global: "inner N s fc s' \<Longrightarrow> shell_variables s \<noteq> []"
  using vars_okD(3) [of s'] innerD(1,9,10) [of N s fc s'] global_no_call [of fc] by (auto simp: store_ok_def)

lemma context_table_inner:
  assumes i: "inner N s fc s'"
  shows "\<exists>s2 fc2 i. context_table 0 TEMPENV_HASH_BUCKETS s' = Ret (Some i) s2 \<and> inner N s fc2 s2 \<and> vc_table fc2 = Some i
    \<and> scope s2 (Some i) = scope s' (vc_table fc) \<and> sh_heap s2 = sh_heap s'"
proof (cases "vc_table fc")
  case (Some i)
  with assms have "context_table 0 TEMPENV_HASH_BUCKETS s' = Ret (Some i) s'"
    by (simp add: context_table_def bnd_def context_at_def innerD(9) ret_def)
  with assms Some show ?thesis by metis
next
  case None
  note I = innerD [OF i]
  let ?t = "length (sh_tables s')" let ?fc = "fc\<lparr>vc_table := Some ?t\<rparr>" let ?c = "hash_create TEMPENV_HASH_BUCKETS :: nat hash_table"
  define s2 where "s2 = s'\<lparr>sh_tables := sh_tables s' @ [?c], shell_variables := ?fc # shell_variables s\<rparr>"
  have "context_table 0 TEMPENV_HASH_BUCKETS s' = Ret (Some ?t) s2"
    using None by (simp add: context_table_def run context_at_def I(9) new_table_def set_context_at_def s2_def)
  moreover have empty: "scope s2 (Some ?t) = scope s' (vc_table fc)" by (rule ext) (simp add: scope_def s2_def None create_ok)
  moreover have "inner N s ?fc s2"
  proof -
    have "store_ok s2"
      using I(1) inner_not_global [OF i] by (auto simp: s2_def store_ok_def vars_ok_def ptr_ok_def I(9) create_ok less_SucI)
    moreover have "take (length (sh_tables s)) (sh_tables s2) = take (length (sh_tables s)) (sh_tables s')"
      and le: "length (sh_tables s) \<le> ?t"
      using same_tables_take [OF I(6)] by (simp_all add: s2_def)
    moreover have "vc_isfuncenv ?fc" using I(10) by (simp add: vc_isfuncenv_def)
    moreover have "scope s2 (vc_table ?fc) m = None" for m using empty None by (simp add: scope_def)
    ultimately show ?thesis using I(2-8,11) unfolding inner_def by (simp add: s2_def)
  qed
  moreover have "sh_heap s2 = sh_heap s'" by (simp add: s2_def)
  ultimately show ?thesis by (intro exI conjI) (assumption | simp)+
qed

text \<open>The variable that a declaration makes.\<close>

definition new_local :: "cstring \<Rightarrow> int \<Rightarrow> bool \<Rightarrow> SHELL_VAR" where
  "new_local n c e = blank_var\<lparr>sv_name := n,
     sv_attributes := (if e then att_exported else 0) OR att_local OR att_invisible, sv_context := c\<rparr>"

lemma new_local_own: "own_local c (new_local n c e)" "sv_name (new_local n c e) = n"
  by (auto simp: own_local_def new_local_def plain_var_def blank_var_def flag_p_defs flag_ops)

lemma set_flags_eq:
  assumes i: "inner N s fc s2" and t: "vc_table fc = Some i" and n: "\<not> ifsname n"
    and w: "w = blank_var\<lparr>sv_name := n, sv_attributes := (if e then att_exported else 0)\<rparr>"
  shows "set_local_var_flags n 0 False (Some (length (sh_heap s2))) (enter_new s2 i n w) =
    Ret (Some (length (sh_heap s2))) ((enter_new s2 i n (new_local n (variable_context s + 1) e))
      \<lparr>shell_variables := fc\<lparr>vc_flags := vc_flags fc OR VC_HASLOCAL\<rparr> # shell_variables s\<rparr>)"
proof -
  note I = innerD [OF i]
  let ?a = "length (sh_heap s2)" and ?fc = "fc\<lparr>vc_flags := vc_flags fc OR VC_HASLOCAL\<rparr>"
  define S where "S = (\<lambda>v. (enter_new s2 i n v)\<lparr>shell_variables := ?fc # shell_variables s\<rparr>)"
  have heap: "sh_heap (S v) = sh_heap s2 @ [v]" "variable_context (S v) = variable_context s + 1" for v by (simp_all add: S_def I(2))
  have set: "set_var (Some ?a) f (S v) = Ret () (S (f v))" and at: "var_at (Some ?a) (S v) = Ret v (S v)" for f v
    by (simp_all add: set_var_eq var_at_eq heap) (simp add: S_def enter_new_def)
  have ctx: "set_context_at 0 (\<lambda>c. c\<lparr>vc_flags := vc_flags c OR VC_HASLOCAL\<rparr>) (enter_new s2 i n v) = Ret () (S v)" for v
    by (simp add: set_context_at_def I(9) S_def)
  have "set_local_var_flags n 0 False (Some ?a) (enter_new s2 i n w) = Ret (Some ?a) (S (new_local n (variable_context s + 1) e))"
    using n w by (simp add: set_local_var_flags_def run ctx VSETATTR_def set at heap(2) blank_var_def new_local_def or.assoc)
  then show ?thesis by (simp add: S_def)
qed

lemma make_local_from_inner:
  assumes i: "inner N s fc s1" and new: "scope s1 (vc_table fc) n = None" and n: "n \<in> N" "\<not> ifsname n"
    and old: "\<And>a. old = Some a \<Longrightarrow> a < length (sh_heap s1) \<and> plain_var (sh_heap s1 ! a) \<and> \<not> tempvar_p (sh_heap s1 ! a)"
  shows "\<exists>a s' fc'. make_local_from n 0 old s1 = Ret (Some a) s' \<and> inner N s fc' s'
    \<and> scope s' (vc_table fc') = (scope s1 (vc_table fc))(n \<mapsto> a) \<and> take (length (sh_heap s1)) (sh_heap s') = sh_heap s1"
proof -
  obtain s2 fc2 t where ct: "context_table 0 TEMPENV_HASH_BUCKETS s1 = Ret (Some t) s2" and i2: "inner N s fc2 s2"
    and t: "vc_table fc2 = Some t" and sc: "scope s2 (Some t) = scope s1 (vc_table fc)" and hp: "sh_heap s2 = sh_heap s1"
    using context_table_inner [OF i] by blast
  note I = innerD [OF i] and I2 = innerD [OF i2]
  let ?a = "length (sh_heap s2)"
  have lt: "t < length (sh_tables s2)" using inner_table [OF i2] t by (simp add: ptr_ok_def)
  have mk: "make_new_variable n (Some t) s2 = Ret (Some ?a) (enter_new s2 t n (blank_var\<lparr>sv_name := n\<rparr>))"
    by (rule make_new_variable_eq [OF lt]) (simp add: I2(9))
  have fl: "\<not> has_flag 0 MKLOC_INHERIT" by (simp add: has_flag_def)
  define e where "e = (case old of None \<Rightarrow> False | Some a \<Rightarrow> exported_p (sh_heap s1 ! a))"
  let ?w = "blank_var\<lparr>sv_name := n, sv_attributes := (if e then att_exported else 0)\<rparr>"
  have step: "make_local_from n 0 old s1 = set_local_var_flags n 0 False (Some ?a) (enter_new s2 t n ?w)"
  proof (cases old)
    case None
    have "?w = blank_var\<lparr>sv_name := n\<rparr>" using None by (simp add: e_def blank_var_def)
    then show ?thesis
      unfolding None by (simp add: make_local_from_def run I(2,9-11) ct mk)
  next
    case (Some b)
    note b = old [OF Some]
    have at: "var_at (Some b) (enter_new s2 t n v) = Ret (sh_heap s1 ! b) (enter_new s2 t n v)" for v
      using b by (simp add: var_at_eq hp nth_append)
    have set: "set_var (Some ?a) f (enter_new s2 t n v) = Ret () (enter_new s2 t n (f v))" for f v
      by (simp add: set_var_eq) (simp add: enter_new_def)
    have "inherit_from (Some b) False False (Some ?a) (enter_new s2 t n (blank_var\<lparr>sv_name := n\<rparr>)) = Ret () (enter_new s2 t n ?w)"
      by (simp add: inherit_from_def run at set e_def Some)
    then show ?thesis
      using b I2(4) fl unfolding Some by (simp add: make_local_from_def run I(2,9-11) ct mk var_at_eq plain_var_def)
  qed
  define s3 where "s3 = (enter_new s2 t n (new_local n (variable_context s + 1) e))
      \<lparr>shell_variables := fc2\<lparr>vc_flags := vc_flags fc2 OR VC_HASLOCAL\<rparr> # shell_variables s\<rparr>"
  have res: "make_local_from n 0 old s1 = Ret (Some ?a) s3"
    unfolding step s3_def by (rule set_flags_eq [OF i2 t n(2) refl])
  have new2: "scope s2 (Some t) n = None" using new sc by simp
  have "inner N s (fc2\<lparr>vc_flags := vc_flags fc2 OR VC_HASLOCAL\<rparr>) s3" "scope s3 (Some t) = (scope s2 (Some t))(n \<mapsto> ?a)"
    unfolding s3_def by (rule inner_enter [OF i2 t new2 n(1) new_local_own(2,1)])+
  moreover have "take (length (sh_heap s1)) (sh_heap s3) = sh_heap s1" by (simp add: s3_def hp)
  ultimately show ?thesis using res t sc by (intro exI conjI) (assumption | simp)+
qed

lemma inner_plain:
  assumes "inner N s fc s'" and "store_ok s" and "local_name s n"
  shows "plain_name s' n"
  unfolding plain_name_def
proof (intro allI impI)
  fix a assume "env s' n = Some a"
  then consider "scope s' (vc_table fc) n = Some a" | "env s n = Some a"
    using inner_env [OF assms(1,2), of n] by (auto split: option.splits)
  then show "plain_var (sh_heap s' ! a)"
  proof cases
    case 1
    from innerD(13) [OF assms(1) this] show ?thesis by (simp add: own_local_def)
  next
    case 2
    with env_var [OF assms(2) 2] assms(3) show ?thesis by (simp add: inner_heap(1) [OF assms(1)] local_name_def)
  qed
qed

lemma make_local_inner:
  assumes ok: "store_ok s" and sh: "shallow s" and i: "inner N s fc s'" and ln: "local_name s n" and n: "n \<in> N"
  shows "\<exists>a s'' fc'. make_local_variable h n 0 s' = Ret (Some a) s'' \<and> inner N s fc' s'' \<and> scope s'' (vc_table fc') n = Some a
    \<and> (\<forall>m b. m \<noteq> n \<and> scope s' (vc_table fc) m = Some b \<longrightarrow> scope s'' (vc_table fc') m = Some b \<and> sh_heap s'' ! b = sh_heap s' ! b)"
proof -
  note I = innerD [OF i]
  have p: "plain_name s' n" by (rule inner_plain [OF i ok ln])
  obtain s1 where s1: "find_variable_noref h n s' = Ret (env s' n) s1" and a1: "alike s' s1"
    using find_noref_env [OF I(1,3) p] by blast
  have ok1: "store_ok s1" and te1: "temporary_env s1 = None" and e1: "env s1 = env s'" and p1: "plain_name s1 n"
    using alike_ok [OF I(1) a1] I(3) p alike_env [OF I(1) a1] by (simp_all add: alikeD [OF a1] plain_name_def)
  obtain s2 where s2: "find_variable h n s1 = Ret (env s' n) s2" and a2: "alike s1 s2"
    using find_env [OF ok1 te1 p1] unfolding e1 by blast
  have al: "alike s' s2" by (rule alike_trans [OF a1 a2])
  note D1 = alikeD [OF a1] and D2 = alikeD [OF al]
  have i2: "inner N s fc s2" by (rule inner_alike [OF i al])
  have sc2: "scope s2 (vc_table fc) = scope s' (vc_table fc)" by (rule alike_scope [OF al inner_table [OF i]])
  have v: "a < length (sh_heap s')" "\<not> nameref_p (sh_heap s' ! a)" if "env s' n = Some a" for a
    using env_var [OF I(1) that] p that by (simp_all add: plain_name_def plain_var_def)
  show ?thesis
  proof (cases "scope s' (vc_table fc) n")
    case (Some a)
    have ea: "env s' n = Some a" using inner_env [OF i ok, of n] Some by simp
    have "local_p (sh_heap s' ! a)" "sv_context (sh_heap s' ! a) = variable_context s + 1"
      using I(13) [OF Some] by (simp_all add: own_local_def)
    then have "make_local_variable h n 0 s' = Ret (Some a) s2"
      using v [OF ea] by (simp add: make_local_variable_def run s1 s2 ea var_at_eq D1(1) D2(1,3) I(2))
    with i2 Some show ?thesis by (intro exI conjI) (assumption | simp add: sc2 D2(1))+
  next
    case None
    have ea: "env s' n = env s n" using inner_env [OF i ok, of n] None by simp
    have o: "a < length (sh_heap s2) \<and> plain_var (sh_heap s2 ! a) \<and> \<not> tempvar_p (sh_heap s2 ! a)
        \<and> sv_context (sh_heap s2 ! a) \<noteq> variable_context s + 1" if "env s n = Some a" for a
    proof -
      have a: "a < length (sh_heap s)" using env_var [OF ok that] by simp
      then have "sv_context (sh_heap s ! a) \<le> variable_context s" using sh by (simp add: shallow_def)
      with inner_heap [OF i a] ln that show ?thesis by (simp add: D2(1) local_name_def)
    qed
    have "make_local_variable h n 0 s' = make_local_from n 0 (env s n) s2"
    proof (cases "env s n")
      case (Some a)
      then show ?thesis
        using v [of a] o [OF Some] by (simp add: make_local_variable_def run s1 s2 ea var_at_eq D1(1) D2(1,3) I(2))
    qed (simp add: make_local_variable_def run s1 s2 ea)
    moreover obtain a s3 fc' where "make_local_from n 0 (env s n) s2 = Ret (Some a) s3" "inner N s fc' s3"
      and sc3: "scope s3 (vc_table fc') = (scope s2 (vc_table fc))(n \<mapsto> a)" and hp: "take (length (sh_heap s2)) (sh_heap s3) = sh_heap s2"
      using make_local_from_inner [OF i2 _ n local_not_ifs [OF ln], of "env s n"] None o sc2 by metis
    moreover have "\<forall>m b. m \<noteq> n \<and> scope s' (vc_table fc) m = Some b \<longrightarrow>
        scope s3 (vc_table fc') m = Some b \<and> sh_heap s3 ! b = sh_heap s' ! b"
    proof (intro allI impI)
      fix m b assume "m \<noteq> n \<and> scope s' (vc_table fc) m = Some b"
      then have b: "scope s' (vc_table fc) m = Some b" "m \<noteq> n" by simp_all
      have "b < length (sh_heap s2)" using scope_var [OF I(1) inner_table [OF i] b(1)] by (simp add: D2(1))
      then have "sh_heap s3 ! b = sh_heap s2 ! b" by (metis hp nth_take)
      then show "scope s3 (vc_table fc') m = Some b \<and> sh_heap s3 ! b = sh_heap s' ! b"
        using b by (simp add: D2(1) sc3 sc2)
    qed
    ultimately show ?thesis using sc3 by (intro exI conjI) (assumption | simp)+
  qed
qed

section \<open>Bodies that declare variables\<close>

text \<open>\<^verbatim>\<open>local n; n=x\<close> for each pair.\<close>

fun local_body :: "'e hooks \<Rightarrow> (cstring \<times> cstring) list \<Rightarrow> ('e, unit) cmd" where
  "local_body h [] = ret ()"
| "local_body h ((n, x) # r) =
     sq (make_local_variable h n 0) (sq (bind_variable h n (Some x) 0) (local_body h r))"

text \<open>The values that the local variables hold.\<close>

definition holds :: "'e shell \<Rightarrow> VAR_CONTEXT \<Rightarrow> (cstring \<Rightarrow> cstring option) \<Rightarrow> bool" where
  "holds s fc V \<longleftrightarrow> (\<forall>n x. V n = Some x \<longrightarrow>
     (\<exists>a. scope s (vc_table fc) n = Some a \<and> sv_value (sh_heap s ! a) = Some (C_str x)))"

lemma assign_local:
  assumes i: "inner N s fc s'" and a: "scope s' (vc_table fc) n = Some a"
  shows "\<exists>s''. bind_variable h n (Some x) 0 s' = Ret (Some a) s'' \<and> inner N s fc s'' \<and> scope s'' (vc_table fc) = scope s' (vc_table fc)
    \<and> sv_value (sh_heap s'' ! a) = Some (C_str x) \<and> (\<forall>b. b \<noteq> a \<longrightarrow> sh_heap s'' ! b = sh_heap s' ! b)"
proof -
  note I = innerD [OF i] and t = inner_table [OF i]
  obtain s1 where s1: "hash_lookup n (vc_table fc) s' = Ret (Some a) s1" and al: "alike s' s1"
    using hash_lookup_scope [OF I(1) t, of n] a by auto
  note D = alikeD [OF al]
  have i1: "inner N s fc s1" by (rule inner_alike [OF i al])
  have sc1: "scope s1 (vc_table fc) = scope s' (vc_table fc)" by (rule alike_scope [OF al t])
  have a1: "scope s1 (vc_table fc) n = Some a" using a sc1 by simp
  note v = scope_var [OF innerD(1) [OF i1] inner_table [OF i1] a1] and own = innerD(13) [OF i1 a1]
  have pl: "plain_var (sh_heap s1 ! a)" "\<not> nameref_p (sh_heap s1 ! a)" using own by (simp_all add: own_local_def plain_var_def)
  obtain s2 k where b: "bind_variable_internal h n (Some x) (vc_table fc) 0 0 s1 = Ret (Some a)
      (s2\<lparr>sh_heap := (sh_heap s2)[a := assigned_var (mark_modified_vars s2) x (sh_heap s2 ! a)], array_needs_making := k\<rparr>)"
    and al2: "alike s1 s2"
    using bind_internal_found [OF innerD(1) [OF i1] inner_table [OF i1] a1 pl(1)] by blast
  note D2 = alikeD [OF al2]
  define s3 where "s3 = s2\<lparr>sh_heap := (sh_heap s2)[a := assigned_var (mark_modified_vars s2) x (sh_heap s2 ! a)], array_needs_making := k\<rparr>"
  have i2: "inner N s fc s2" by (rule inner_alike [OF i1 al2])
  have sc2: "scope s2 (vc_table fc) = scope s' (vc_table fc)" using alike_scope [OF al2 inner_table [OF i1]] sc1 by simp
  have "own_local (variable_context s + 1) (assigned_var (mark_modified_vars s2) x (sh_heap s2 ! a))"
    using own by (simp add: own_local_def D2(1))
  then have i3: "inner N s fc s3"
    unfolding s3_def by (intro inner_write [OF i2, of n]) (simp_all add: sc2 a)
  have "bind_in_context h (Some a) 0 (Some x) 0 s1 = Ret (Some (Some a)) s3"
    using v pl b by (simp add: bind_in_context_def bnd_def var_at_eq context_at_def D(2) I(9) ret_def s3_def)
  then have "bind_variable h n (Some x) 0 s' = Ret (Some a) s3"
    using I(3,10) by (simp add: bind_variable_def run need_tables_def I(9) s1)
  moreover have "scope s3 (vc_table fc) = scope s' (vc_table fc)" by (rule ext) (simp add: s3_def sc2)
  moreover have "sv_value (sh_heap s3 ! a) = Some (C_str x)" using v by (simp add: s3_def D2(1))
  moreover have "\<forall>b. b \<noteq> a \<longrightarrow> sh_heap s3 ! b = sh_heap s' ! b" by (simp add: s3_def D2(1) D(1))
  ultimately show ?thesis using i3 by blast
qed

lemma local_body_inner:
  assumes ok: "store_ok s" and sh: "shallow s" and "inner N s fc s'" and "\<forall>(n, x) \<in> set body. local_name s n \<and> n \<in> N" and "holds s' fc V"
  shows "\<exists>s'' fc'. local_body h body s' = Ret () s'' \<and> inner N s fc' s'' \<and> holds s'' fc' (V ++ map_of (rev body))"
  using assms(3-5)
proof (induction body arbitrary: s' fc V)
  case Nil
  then show ?case by (auto simp: ret_def)
next
  case (Cons p body)
  obtain n x where p: "p = (n, x)" by fastforce
  have n: "local_name s n" "n \<in> N" using Cons.prems(2) by (simp_all add: p)
  obtain a s1 fc1 where s1: "make_local_variable h n 0 s' = Ret (Some a) s1" and i1: "inner N s fc1 s1"
    and a: "scope s1 (vc_table fc1) n = Some a"
    and keep: "\<forall>m b. m \<noteq> n \<and> scope s' (vc_table fc) m = Some b \<longrightarrow> scope s1 (vc_table fc1) m = Some b \<and> sh_heap s1 ! b = sh_heap s' ! b"
    using make_local_inner [OF ok sh Cons.prems(1) n] by blast
  obtain s2 where s2: "bind_variable h n (Some x) 0 s1 = Ret (Some a) s2" and i2: "inner N s fc1 s2"
    and sc: "scope s2 (vc_table fc1) = scope s1 (vc_table fc1)" and v: "sv_value (sh_heap s2 ! a) = Some (C_str x)"
    and keep2: "\<forall>b. b \<noteq> a \<longrightarrow> sh_heap s2 ! b = sh_heap s1 ! b"
    using assign_local [OF i1 a] by blast
  have "holds s2 fc1 (V(n \<mapsto> x))"
    unfolding holds_def
  proof (intro allI impI)
    fix m y assume my: "(V(n \<mapsto> x)) m = Some y"
    show "\<exists>b. scope s2 (vc_table fc1) m = Some b \<and> sv_value (sh_heap s2 ! b) = Some (C_str y)"
    proof (cases "m = n")
      case True
      with my sc a v show ?thesis by simp
    next
      case False
      with my Cons.prems(3) obtain b where b: "scope s' (vc_table fc) m = Some b" "sv_value (sh_heap s' ! b) = Some (C_str y)"
        unfolding holds_def by auto
      with keep False have b1: "scope s1 (vc_table fc1) m = Some b" "sh_heap s1 ! b = sh_heap s' ! b" by blast+
      have "b \<noteq> a"
        using scope_var(3) [OF innerD(1) [OF i1] inner_table [OF i1] b1(1)]
          scope_var(3) [OF innerD(1) [OF i1] inner_table [OF i1] a] False by auto
      with b b1 keep2 sc show ?thesis by auto
    qed
  qed
  moreover have "\<forall>(n, x) \<in> set body. local_name s n \<and> n \<in> N" using Cons.prems(2) by simp
  ultimately obtain s3 fc3 where s3: "local_body h body s2 = Ret () s3" and i3: "inner N s fc3 s3"
    and h3: "holds s3 fc3 (V(n \<mapsto> x) ++ map_of (rev body))" using Cons.IH [OF i2] by blast
  have "V(n \<mapsto> x) ++ map_of (rev body) = V ++ map_of (rev (p # body))"
    by (simp add: p map_add_assoc [symmetric])
  moreover have "local_body h (p # body) s' = Ret () s3" by (simp add: p run s1 s2 s3)
  ultimately show ?case using i3 h3 by metis
qed

section \<open>Entering and leaving a function\<close>

lemma enter_inner:
  assumes ok: "store_ok s" and te: "temporary_env s = None" and li: "\<not> localvar_inherit s"
  shows "\<exists>s' fc. enter_function f False s = Ret () s' \<and> inner N s fc s'"
proof -
  let ?fc = "\<lparr>vc_name = Some f, vc_scope = variable_context s + 1, vc_flags = VC_FUNCENV, vc_table = None\<rparr>"
  define s' where "s' = s\<lparr>dollar_arg_stack := (tl (dollar_vars s), rest_of_args s, posparam_count s) # dollar_arg_stack s,
     dollar_vars := hd (dollar_vars s) # replicate 9 None, rest_of_args := [], posparam_count := 0,
     variable_context := variable_context s + 1, shell_variables := ?fc # shell_variables s, temporary_env := None\<rparr>"
  have ne: "shell_variables s \<noteq> []" using ok by (simp add: store_ok_def vars_okD(2))
  have "enter_function f False s = Ret () s'"
    using te ne by (simp add: enter_function_def push_context_def push_dollar_vars_def push_var_context_def new_var_context_def run s'_def)
  moreover have "inner N s ?fc s'"
  proof -
    have "store_ok s'" using ok ne te by (simp add: s'_def store_ok_def vars_ok_def ptr_ok_def)
    moreover have "list_all2 same_table (sh_tables s) (sh_tables s)" by (simp add: list.rel_refl)
    moreover have "vc_isfuncenv ?fc" by (simp add: vc_isfuncenv_def has_flag_def VC_FUNCENV_def)
    moreover have "scope s' (vc_table ?fc) n = None" for n by (simp add: scope_def)
    ultimately show ?thesis using li unfolding inner_def by (simp add: s'_def VC_FUNCENV_def)
  qed
  ultimately show ?thesis by blast
qed

text \<open>Leaving disposes of the local variables one by one; nothing of them is passed on.\<close>

lemma push_func_var_local:
  assumes "a < length (sh_heap s)" and "\<not> tempvar_p (sh_heap s ! a)" and "find_special_var (sv_name (sh_heap s ! a)) = - 1"
    and "sv_name (sh_heap s ! a) \<noteq> ''-''"
  shows "\<exists>k. push_func_var h (Some a) s = Ret () (s\<lparr>array_needs_making := k\<rparr>)"
proof -
  have "push_func_var h (Some a) s = Ret () (if exported_p (sh_heap s ! a) then s\<lparr>array_needs_making := 1\<rparr> else s)"
    using assms by (simp add: push_func_var_def push_posix_tempvar_internal_def run var_at_eq stupidly_hack_special_variables_def
        dispose_variable_def need_array_def)
  moreover have "s = s\<lparr>array_needs_making := array_needs_making s\<rparr>" by simp
  ultimately show ?thesis by metis
qed

lemma push_all_locals:
  assumes "\<forall>p \<in> set ps. \<exists>a. p = Some a \<and> a < length (sh_heap s) \<and> \<not> tempvar_p (sh_heap s ! a)
    \<and> find_special_var (sv_name (sh_heap s ! a)) = - 1 \<and> sv_name (sh_heap s ! a) \<noteq> ''-''"
  shows "\<exists>k. for_each (push_func_var h) ps s = Ret () (s\<lparr>array_needs_making := k\<rparr>)"
  using assms
proof (induction ps arbitrary: s)
  case Nil
  have "s = s\<lparr>array_needs_making := array_needs_making s\<rparr>" by simp
  then show ?case unfolding for_each.simps ret_def by metis
next
  case (Cons p ps)
  then obtain a k where p: "push_func_var h p s = Ret () (s\<lparr>array_needs_making := k\<rparr>)"
    using push_func_var_local [of _ s h] by (metis list.set_intros(1))
  obtain k' where "for_each (push_func_var h) ps (s\<lparr>array_needs_making := k\<rparr>) = Ret () (s\<lparr>array_needs_making := k'\<rparr>)"
    using Cons.IH [of "s\<lparr>array_needs_making := k\<rparr>"] Cons.prems by auto
  then show ?case using p by (auto simp: run)
qed

lemma flush_empty: "t < length (sh_tables s) \<Longrightarrow> ht_nentries (sh_tables s ! t) = 0 \<Longrightarrow> flush_table f t s = Ret () s"
  by (simp add: flush_table_def run table_at_def HASH_ENTRIES_def)

lemma flush_locals:
  assumes t: "t < length (sh_tables s)" and ok: "hash_wf (sh_tables s ! t)"
    and v: "\<And>n d. hash_map (sh_tables s ! t) n = Some d \<Longrightarrow> \<exists>a. d = Some a \<and> a < length (sh_heap s)
      \<and> \<not> tempvar_p (sh_heap s ! a) \<and> find_special_var (sv_name (sh_heap s ! a)) = - 1 \<and> sv_name (sh_heap s ! a) \<noteq> ''-''"
  shows "\<exists>k h'. flush_table (push_func_var h) t s = Ret () (s\<lparr>array_needs_making := k, sh_tables := (sh_tables s)[t := h']\<rparr>)
    \<and> hash_wf h' \<and> hash_map h' = Map.empty \<and> ht_nentries h' = 0"
proof (cases "ht_nentries (sh_tables s ! t) = 0")
  case True
  have "s = s\<lparr>array_needs_making := array_needs_making s, sh_tables := (sh_tables s)[t := sh_tables s ! t]\<rparr>" by simp
  with flush_empty [OF t True, of "push_func_var h"] ok empty_table_map [OF ok True] True show ?thesis by metis
next
  case False
  let ?h = "sh_tables s ! t"
  have "\<forall>p \<in> set (table_items ?h). \<exists>a. p = Some a \<and> a < length (sh_heap s) \<and> \<not> tempvar_p (sh_heap s ! a)
    \<and> find_special_var (sv_name (sh_heap s ! a)) = - 1 \<and> sv_name (sh_heap s ! a) \<noteq> ''-''"
  proof
    fix p assume "p \<in> set (table_items ?h)"
    then obtain b where "b \<in> set (all_items ?h)" "p = bc_data b" by (auto simp: table_items_all [OF hash_wf_shape [OF ok]])
    then have "hash_map ?h (bc_key b) = Some p" using hash_map_Some_iff [OF ok] by blast
    from v [OF this] show "\<exists>a. p = Some a \<and> a < length (sh_heap s) \<and> \<not> tempvar_p (sh_heap s ! a)
      \<and> find_special_var (sv_name (sh_heap s ! a)) = - 1 \<and> sv_name (sh_heap s ! a) \<noteq> ''-''" .
  qed
  then obtain k where k: "for_each (push_func_var h) (table_items ?h) s = Ret () (s\<lparr>array_needs_making := k\<rparr>)"
    using push_all_locals by blast
  obtain h' where h': "hash_flush (Some ?h) = Some h'" using False by (simp add: hash_flush_def HASH_ENTRIES_def)
  have "flush_table (push_func_var h) t s = Ret () (s\<lparr>array_needs_making := k, sh_tables := (sh_tables s)[t := h']\<rparr>)"
    using t False k h' by (simp add: flush_table_def run table_at_def HASH_ENTRIES_def set_table_def)
  moreover have "hash_wf h'" "hash_map h' = Map.empty" using hash_flush_wf [OF ok h'] hash_flush_map [OF ok h'] by simp_all
  moreover have "ht_nentries h' = 0" using h' False by (auto simp: hash_flush_def HASH_ENTRIES_def)
  ultimately show ?thesis by blast
qed

text \<open>The caller's part of a state: its contexts, its tables and its variables, as they were in \<open>s\<close>.\<close>

definition outer :: "'e shell \<Rightarrow> 'e shell \<Rightarrow> bool" where
  "outer s s' \<longleftrightarrow> store_ok s' \<and> shell_variables s' = shell_variables s \<and> variable_context s' = variable_context s
     \<and> temporary_env s' = None \<and> (\<forall>b < length (sh_heap s). b < length (sh_heap s') \<and> sh_heap s' ! b = sh_heap s ! b)
     \<and> env s' = env s
     \<and> tl (dollar_vars s') = tl (dollar_vars s) \<and> hd (dollar_vars s') = hd (dollar_vars s) \<and> dollar_vars s' \<noteq> []
     \<and> rest_of_args s' = rest_of_args s \<and> posparam_count s' = posparam_count s \<and> dollar_arg_stack s' = dollar_arg_stack s"

lemma outer_alike:
  assumes "outer s s'" and "alike s' s''" shows "outer s s''"
proof -
  have "store_ok s'" using assms(1) by (simp add: outer_def)
  from assms(1) alike_ok [OF this assms(2)] alike_env [OF this assms(2)] show ?thesis
    by (simp add: outer_def alikeD [OF assms(2)])
qed

lemma outer_ifs:
  assumes "outer s s'" shows "outer s (s'\<lparr>sh_ifs := x\<rparr>)"
proof -
  have "first_scope (s'\<lparr>sh_ifs := x\<rparr>) vcs n = first_scope s' vcs n" for vcs n
    by (induction vcs) (simp_all add: scope_def split: option.split)
  then have "env (s'\<lparr>sh_ifs := x\<rparr>) = env s'" by (simp add: env_def fun_eq_iff)
  moreover have "store_ok (s'\<lparr>sh_ifs := x\<rparr>) = store_ok s'" by (simp add: store_ok_def vars_ok_def ptr_ok_def)
  ultimately show ?thesis using assms by (simp add: outer_def)
qed

text \<open>\<^verbatim>\<open>IFS\<close>, which the shell looks up when a function returns, is a plain variable or unset.\<close>

definition ifs_plain :: "'e shell \<Rightarrow> bool" where
  "ifs_plain s \<longleftrightarrow> (\<forall>a. env s ''IFS'' = Some a \<longrightarrow>
     plain_var (sh_heap s ! a) \<and> (\<exists>x. sv_value (sh_heap s ! a) = map_option C_str x))"

lemma sv_ifs_outer:
  assumes o: "outer s s'" and ok: "store_ok s" and p: "ifs_plain s"
  shows "\<exists>s''. sv_ifs h s' = Ret () s'' \<and> outer s s''"
proof -
  have ok': "store_ok s'" "temporary_env s' = None" and e: "env s' = env s"
    and hp: "\<forall>b < length (sh_heap s). b < length (sh_heap s') \<and> sh_heap s' ! b = sh_heap s ! b"
    using o by (simp_all add: outer_def)
  have v: "a < length (sh_heap s)" if "env s ''IFS'' = Some a" for a using env_var [OF ok that] by simp
  have "plain_name s' ''IFS''" using p v hp by (simp add: plain_name_def ifs_plain_def e)
  then obtain s1 where s1: "find_variable h ''IFS'' s' = Ret (env s ''IFS'') s1" and al: "alike s' s1"
    using find_env [OF ok', of "''IFS''" h] by (auto simp: e)
  have "\<exists>x. setifs_var (env s ''IFS'') s1 = Ret () (s1\<lparr>sh_ifs := x\<rparr>)"
  proof (cases "env s ''IFS''")
    case (Some a)
    obtain x where x: "sv_value (sh_heap s ! a) = map_option C_str x" using p Some by (auto simp: ifs_plain_def)
    have a: "a < length (sh_heap s1)" "sh_heap s1 ! a = sh_heap s ! a" using v [OF Some] hp by (simp_all add: alikeD(1) [OF al])
    have "value_cell (sh_heap s ! a) s1 = Ret x s1" using x by (cases x) (simp_all add: value_cell_def ret_def)
    then show ?thesis using a by (auto simp: Some setifs_var_def bnd_def var_at_eq modify_def)
  qed (auto simp: setifs_var_def modify_def)
  then obtain x where "sv_ifs h s' = Ret () (s1\<lparr>sh_ifs := x\<rparr>)" by (auto simp: sv_ifs_def bnd_def s1)
  with outer_ifs [OF outer_alike [OF o al], of x] show ?thesis by blast
qed

lemma leave_outer:
  assumes ok: "store_ok s" and i: "inner N s fc s'" and N: "\<forall>n \<in> N. find_special_var n = - 1 \<and> n \<noteq> ''-''"
    and p: "ifs_plain s"
  shows "\<exists>s''. pop_context h s' = Ret () s'' \<and> outer s s''"
proof -
  note I = innerD [OF i]
  define s1 where "s1 = s'\<lparr>dollar_vars := hd (dollar_vars s) # tl (dollar_vars s), rest_of_args := rest_of_args s,
      posparam_count := posparam_count s, dollar_arg_stack := dollar_arg_stack s, variable_context := variable_context s\<rparr>"
  define s2 where "s2 = s1\<lparr>shell_variables := shell_variables s\<rparr>"
  have ne: "shell_variables s \<noteq> []" by (rule inner_not_global [OF i])
  have start: "pop_context h s' = sq (pop_var_context h) (sv_ifs h) s1"
    by (simp add: pop_context_def pop_dollar_vars_def clear_dollar_vars_def run I(2,7,8) s1_def)
  have pop: "pop_var_context h s1 =
      sq (case vc_table fc of None \<Rightarrow> ret () | Some t \<Rightarrow> flush_table (push_func_var h) t) (dispose_var_context fc) s2"
    using ne I(10) by (simp add: pop_var_context_def run context_at_def s1_def s2_def I(9))
  have sc: "scope s2 t n = scope s' t n" for t n by (simp add: s2_def s1_def scope_def split: option.split)
  have fs: "first_scope s2 vcs n = first_scope s' vcs n" for vcs n
    by (induction vcs) (simp_all add: sc split: option.split)
  have e2: "env s2 = env s"
    using inner_outer_first [OF i, of "shell_variables s"] ok_contexts [OF ok] by (simp add: env_def fun_eq_iff fs) (simp add: s2_def)
  have ok2: "store_ok s2" using I(1) ne by (simp add: s2_def s1_def store_ok_def vars_ok_def ptr_ok_def I(9))
  have o2: "outer s s2" using ok2 e2 inner_heap [OF i] I(3) by (simp add: outer_def s2_def s1_def)
  have "\<exists>s3. pop_var_context h s1 = Ret () s3 \<and> outer s s3"
  proof (cases "vc_table fc")
    case None
    with o2 pop show ?thesis by (simp add: run dispose_var_context_def)
  next
    case (Some t)
    have t: "t < length (sh_tables s2)" using inner_table [OF i] Some by (simp add: ptr_ok_def s2_def s1_def)
    have wf: "hash_wf (sh_tables s2 ! t)" using ok2 t by (simp add: store_ok_def)
    have v: "\<exists>a. d = Some a \<and> a < length (sh_heap s2) \<and> \<not> tempvar_p (sh_heap s2 ! a)
        \<and> find_special_var (sv_name (sh_heap s2 ! a)) = - 1 \<and> sv_name (sh_heap s2 ! a) \<noteq> ''-''"
      if d: "hash_map (sh_tables s2 ! t) n = Some d" for n d
    proof -
      have "(n, d) \<in> entry_set (sh_tables s2 ! t)" using d by (simp add: entries_of_map [OF wf])
      moreover have "entries_ok (sh_heap s2) (sh_tables s2 ! t)" using ok2 t by (simp add: store_ok_def vars_okD(9))
      ultimately obtain a where a: "d = Some a" "a < length (sh_heap s2)" "sv_name (sh_heap s2 ! a) = n"
        unfolding entries_ok_def by blast
      have "scope s' (vc_table fc) n = Some a" using d a(1) by (simp add: Some scope_def s2_def s1_def)
      from I(13) [OF this] N a show ?thesis by (auto simp: s2_def s1_def own_local_def)
    qed
    obtain k h' where fl: "flush_table (push_func_var h) t s2 = Ret () (s2\<lparr>array_needs_making := k, sh_tables := (sh_tables s2)[t := h']\<rparr>)"
      and h': "hash_wf h'" "hash_map h' = Map.empty" "ht_nentries h' = 0"
      using flush_locals [OF t wf, of h] v by blast
    define s3 where "s3 = s2\<lparr>array_needs_making := k, sh_tables := (sh_tables s2)[t := h']\<rparr>"
    have "flush_table dispose_variable t s3 = Ret () s3" by (rule flush_empty) (use t h' in \<open>simp_all add: s3_def\<close>)
    then have "pop_var_context h s1 = Ret () s3"
      using pop fl by (simp add: Some run dispose_var_context_def delete_all_variables_def s3_def)
    moreover have "outer s s3"
    proof -
      have out: "scope s3 u n = scope s2 u n" if "ptr_ok s u" for u n
        using that I(12) [OF Some] by (auto simp: s3_def scope_def ptr_ok_def nth_list_update split: option.split)
      have "first_scope s3 vcs n = first_scope s2 vcs n" if "\<forall>vc \<in> set vcs. ptr_ok s (vc_table vc)" for vcs n
        using that by (induction vcs) (simp_all add: out split: option.split)
      then have "env s3 = env s"
        using ok_contexts [OF ok] e2 by (simp add: env_def fun_eq_iff) (simp add: s3_def s2_def)
      moreover have "store_ok s3"
      proof -
        have "entries_ok (sh_heap s2) h'" using h'(2) by (simp add: entries_ok_def entries_of_map [OF h'(1)])
        then show ?thesis
          using ok2 h'(1) hash_wf_shape [OF h'(1)] set_update_subset_insert [of "sh_tables s2" t h']
          unfolding store_ok_def vars_ok_def ptr_ok_def by (auto simp: s3_def)
      qed
      ultimately show ?thesis using o2 by (simp add: outer_def s3_def)
    qed
    ultimately show ?thesis by blast
  qed
  then obtain s3 where s3: "pop_var_context h s1 = Ret () s3" "outer s s3" by blast
  then show ?thesis using sv_ifs_outer [OF s3(2) ok p, of h] by (simp add: start run)
qed

text \<open>
  C12. The scope of local variables ends with the function. A call enters a function whose body declares any number of variables
  local, some perhaps twice or with names of variables of the caller, and assigns to them: every step returns, inside the
  function each name has the value assigned last, and when the function returns all is as before the call: every name stands for the same
  variable, every variable has the value and attributes it had, and the contexts and the positional parameters are those of the
  caller.
\<close>

theorem local_scope_restored:
  assumes "store_ok s" and "temporary_env s = None" and "\<not> localvar_inherit s" and "shallow s" and "ifs_plain s" and "dollar_vars s \<noteq> []"
    and "\<forall>(n, x) \<in> set body. local_name s n"
  shows "\<exists>s1 s2 s3. enter_function f False s = Ret () s1 \<and> local_body h body s1 = Ret () s2
    \<and> (\<forall>n x. map_of (rev body) n = Some x \<longrightarrow> (\<exists>s'. get_string_value h n s2 = Ret (Some x) s'))
    \<and> pop_context h s2 = Ret () s3
    \<and> env s3 = env s \<and> (\<forall>b < length (sh_heap s). sh_heap s3 ! b = sh_heap s ! b)
    \<and> shell_variables s3 = shell_variables s \<and> variable_context s3 = variable_context s
    \<and> dollar_vars s3 = dollar_vars s \<and> rest_of_args s3 = rest_of_args s \<and> posparam_count s3 = posparam_count s"
proof -
  let ?N = "fst ` set body"
  obtain s1 fc1 where s1: "enter_function f False s = Ret () s1" and i1: "inner ?N s fc1 s1"
    using enter_inner [OF assms(1-3)] by blast
  have b: "\<forall>(n, x) \<in> set body. local_name s n \<and> n \<in> ?N" using assms(7) by force
  have v: "holds s1 fc1 Map.empty" by (simp add: holds_def)
  obtain s2 fc2 where s2: "local_body h body s1 = Ret () s2" and i2: "inner ?N s fc2 s2"
    and hd: "holds s2 fc2 (map_of (rev body))"
    using local_body_inner [OF assms(1,4) i1 b v] unfolding empty_map_add by blast
  have "\<forall>n \<in> ?N. find_special_var n = - 1 \<and> n \<noteq> ''-''" using assms(7) by (force simp: local_name_def)
  then obtain s3 where s3: "pop_context h s2 = Ret () s3" and o: "outer s s3" using leave_outer [OF assms(1) i2 _ assms(5)] by blast
  have vals: "\<exists>s'. get_string_value h n s2 = Ret (Some x) s'" if "map_of (rev body) n = Some x" for n x
  proof -
    obtain a where a: "scope s2 (vc_table fc2) n = Some a" "sv_value (sh_heap s2 ! a) = Some (C_str x)"
      using hd \<open>map_of (rev body) n = Some x\<close> unfolding holds_def by blast
    have "env s2 n = Some a" using inner_env [OF i2 assms(1), of n] a(1) by simp
    moreover have "plain_var (sh_heap s2 ! a)" using innerD(13) [OF i2 a(1)] by (simp add: own_local_def)
    ultimately show ?thesis using get_string_plain [OF innerD(1,3) [OF i2] _ _ a(2)] by blast
  qed
  have "dollar_vars s3 = dollar_vars s" 
    using o assms(6) by (cases "dollar_vars s3"; cases "dollar_vars s") (simp_all add: outer_def)
  with o have "env s3 = env s \<and> (\<forall>b < length (sh_heap s). sh_heap s3 ! b = sh_heap s ! b)
    \<and> shell_variables s3 = shell_variables s \<and> variable_context s3 = variable_context s
    \<and> dollar_vars s3 = dollar_vars s \<and> rest_of_args s3 = rest_of_args s \<and> posparam_count s3 = posparam_count s"
    by (simp add: outer_def)
  with s1 s2 s3 vals show ?thesis by blast
qed

lemma local_scope_restored_witness:
  "\<exists>s1 s2 s3. enter_function ''f'' False example_shell = Ret () s1
     \<and> local_body plain_hooks [(''x'', ''8''), (''y'', ''9'')] s1 = Ret () s2
     \<and> (\<exists>s'. get_string_value plain_hooks ''x'' s2 = Ret (Some ''8'') s')
     \<and> pop_context plain_hooks s2 = Ret () s3 \<and> env s3 = env example_shell
     \<and> sh_heap s3 ! 3 = sh_heap example_shell ! 3"
proof -
  have 1: "\<not> localvar_inherit example_shell" "dollar_vars example_shell \<noteq> []" "shallow example_shell"
    by (simp_all add: example_shell_def shell_with_def shallow_def var_named_def blank_var_def)
  have "env example_shell ''y'' = None" "env example_shell ''IFS'' = None"
    unfolding example_shell_def by (subst shell_with_env; simp add: var_named_def upt_rec)+
  moreover have "find_special_var ''x'' = - 1" "find_special_var ''y'' = - 1" by code_simp+
  ultimately have e: "env example_shell ''x'' = Some 3" "env example_shell ''y'' = None" "env example_shell ''IFS'' = None"
    "find_special_var ''x'' = - 1" "find_special_var ''y'' = - 1" using example_env(1) by simp_all
  then have 2: "ifs_plain example_shell" by (simp add: ifs_plain_def)
  have "\<not> tempvar_p (sh_heap example_shell ! 3)"
    by (simp add: example_shell_def shell_with_def var_named_def tempvar_p_def has_flag_def)
  with e example_env(2) have 3: "\<forall>(n, x) \<in> set [(''x'', ''8''), (''y'', ''9'')]. local_name example_shell n"
    by (simp add: local_name_def)
  have l: "3 < length (sh_heap example_shell)" by (simp add: example_shell_def shell_with_def)
  have m: "map_of (rev [(''x'', ''8''), (''y'', ''9'')]) ''x'' = Some ''8''" by simp
  from local_scope_restored [OF example_facts(1,3) 1(1,3) 2 1(2) 3, of "''f''" plain_hooks] l m show ?thesis by blast
qed

end
