(* ===== verification/Lookup_Live.thy ===== *)
theory Lookup_Live
  imports Scopes_Inv
begin

text \<open>
  Lookups always answer: whatever references the variables make up, chains and cycles included, a lookup by name returns, with a
  variable of the store or none.
\<close>

section \<open>Commands that return\<close>

text \<open>A variable that is a reference holds a string or nothing.\<close>

definition refs_typed :: "'e shell \<Rightarrow> bool" where
  "refs_typed s \<longleftrightarrow> (\<forall>v \<in> set (sh_heap s). nameref_p v \<longrightarrow> (\<exists>x. sv_value v = map_option C_str x))"

text \<open>The store is sound, has at least \<open>k\<close> variables, and the messages \<open>M\<close> are among those printed.\<close>

definition live :: "nat \<Rightarrow> message set \<Rightarrow> 'e shell \<Rightarrow> bool" where
  "live k M s \<longleftrightarrow> vars_ok s \<and> refs_typed s \<and> k \<le> length (sh_heap s) \<and> M \<subseteq> set (sh_messages s)"

definition valid :: "'e shell \<Rightarrow> ptr \<Rightarrow> bool" where
  "valid s p \<longleftrightarrow> (\<forall>a. p = Some a \<longrightarrow> a < length (sh_heap s))"

definition returns :: "nat \<Rightarrow> message set \<Rightarrow> 'e shell \<Rightarrow> ('e, 'a) cmd \<Rightarrow> ('a \<Rightarrow> 'e shell \<Rightarrow> bool) \<Rightarrow> bool" where
  "returns k M s m Q \<longleftrightarrow> (\<exists>x s'. m s = Ret x s' \<and> live k M s' \<and> Q x s')"

lemma returns_bnd:
  assumes "returns k M s m Q" and "\<And>x s'. live k M s' \<Longrightarrow> Q x s' \<Longrightarrow> returns k M s' (f x) R"
  shows "returns k M s (bnd m f) R"
proof -
  from assms(1) obtain x s' where m: "m s = Ret x s'" and l: "live k M s'" "Q x s'" unfolding returns_def by blast
  from assms(2) [OF l] show ?thesis by (simp add: returns_def bnd_def m)
qed

lemma returns_ret: "live k M s \<Longrightarrow> Q x s \<Longrightarrow> returns k M s (ret x) Q"
  by (simp add: returns_def ret_def)

lemma returns_weaken: "returns k M s m Q \<Longrightarrow> (\<And>x s'. live k M s' \<Longrightarrow> Q x s' \<Longrightarrow> R x s') \<Longrightarrow> returns k M s m R"
  unfolding returns_def by blast

lemma returns_mono:
  assumes "returns k M s m Q" and "j \<le> k" and "L \<subseteq> M" shows "returns j L s m Q"
proof -
  have "live j L s'" if "live k M s'" for s' :: "'a shell" using that assms(2,3) by (auto simp: live_def)
  with assms(1) show ?thesis unfolding returns_def by blast
qed

text \<open>The functions behind dynamic variables return a variable; they may make variables and print messages.\<close>

definition hooks_return :: "'e hooks \<Rightarrow> bool" where
  "hooks_return h \<longleftrightarrow> (\<forall>f p k M s. live k M s \<and> valid s p \<longrightarrow> returns k M s (hk_dynamic_value h f p) (\<lambda>p' s'. valid s' p'))"

section \<open>Lookups\<close>

text \<open>A lookup in tables changes nothing but counters.\<close>

definition looked :: "'e shell \<Rightarrow> 'e shell \<Rightarrow> bool" where
  "looked s s' \<longleftrightarrow> (\<exists>ts l. s' = s\<lparr>sh_tables := ts, last_table_searched := l\<rparr> \<and> length ts = length (sh_tables s)) \<and> vars_ok s'"

lemma lookedI:
  "vars_ok (s\<lparr>sh_tables := ts, last_table_searched := l\<rparr>) \<Longrightarrow> length ts = length (sh_tables s)
   \<Longrightarrow> looked s (s\<lparr>sh_tables := ts, last_table_searched := l\<rparr>)"
  unfolding looked_def by blast

lemma looked_refl: "vars_ok s \<Longrightarrow> looked s s"
proof -
  have "s = s\<lparr>sh_tables := sh_tables s, last_table_searched := last_table_searched s\<rparr>" by simp
  then show "vars_ok s \<Longrightarrow> looked s s" unfolding looked_def by blast
qed

lemma lookedD:
  assumes "looked s s'"
  shows "vars_ok s'" and "sh_heap s' = sh_heap s" and "length (sh_tables s') = length (sh_tables s)"
    and "shell_variables s' = shell_variables s" and "sh_messages s' = sh_messages s"
  using assms by (auto simp: looked_def)

lemma looked_trans: "looked s s' \<Longrightarrow> looked s' s'' \<Longrightarrow> looked s s''"
  unfolding looked_def by (elim conjE exE) (simp, blast)

lemma looked_live: "live k M s \<Longrightarrow> looked s s' \<Longrightarrow> live k M s'"
  using lookedD [of s s'] by (simp add: live_def refs_typed_def)

lemma hash_lookup_returns:
  fixes s :: "'e shell"
  assumes ok: "vars_ok s" and t: "ptr_ok s t"
  shows "\<exists>p s'. hash_lookup n t s = Ret p s' \<and> looked s s' \<and> valid s' p"
proof (cases t)
  case None
  then show ?thesis using looked_refl [OF ok] by (simp add: hash_lookup_def ret_def valid_def)
next
  case (Some i)
  with t have i: "i < length (sh_tables s)" by (simp add: ptr_ok_def)
  let ?h = "sh_tables s ! i"
  show ?thesis
  proof (cases "\<exists>r h'. hash_search n (Some ?h) 0 = (Some r, Some h')")
    case True
    then obtain r h' where h': "hash_search n (Some ?h) 0 = (Some r, Some h')" by blast
    note sh = shape_search [OF vars_okD(8) [OF ok i] h']
    have res: "hash_lookup n t s = Ret (bc_data (item_at h' r)) (s\<lparr>sh_tables := (sh_tables s)[i := h'], last_table_searched := Some i\<rparr>)"
      using i h' by (simp add: Some hash_lookup_def bnd_def sq_def table_at_def set_table_def modify_def ret_def)
    have "vars_ok (s\<lparr>sh_tables := (sh_tables s)[i := h']\<rparr>)"
      by (rule vars_ok_table [OF ok sh(1) entries_ok_subset [OF vars_okD(9) [OF ok i] sh(2)]])
    then have "vars_ok (s\<lparr>sh_tables := (sh_tables s)[i := h'], last_table_searched := Some i\<rparr>)"
      by (rule vars_ok_same) simp_all
    then have "looked s (s\<lparr>sh_tables := (sh_tables s)[i := h'], last_table_searched := Some i\<rparr>)"
      by (rule lookedI) simp
    moreover have "valid (s\<lparr>sh_tables := (sh_tables s)[i := h'], last_table_searched := Some i\<rparr>) (bc_data (item_at h' r))"
      using sh(3) vars_okD(9) [OF ok i] by (auto simp: entries_ok_def valid_def)
    ultimately show ?thesis using res by blast
  next
    case False
    obtain q u where q: "hash_search n (Some ?h) 0 = (q, u)" by fastforce
    have "hash_lookup n t s = Ret None s"
      using i False q by (cases q; cases u) (simp_all add: Some hash_lookup_def bnd_def table_at_def ret_def)
    then show ?thesis using looked_refl [OF ok] by (simp add: valid_def)
  qed
qed

lemma lookup_loop_returns:
  fixes s :: "'e shell"
  assumes "vars_ok s" and "\<forall>vc \<in> set vcs. ptr_ok s (vc_table vc)"
  shows "\<exists>p s'. lookup_loop n vcs s = Ret p s' \<and> looked s s' \<and> valid s' p"
  using assms
proof (induction vcs arbitrary: s)
  case Nil
  then show ?case by (simp add: ret_def valid_def looked_refl)
next
  case (Cons vc vcs)
  have "ptr_ok s (vc_table vc)" using Cons.prems(2) by simp
  then obtain p s1 where s1: "hash_lookup n (vc_table vc) s = Ret p s1" "looked s s1" "valid s1 p"
    using hash_lookup_returns [OF Cons.prems(1)] by blast
  show ?case
  proof (cases p)
    case None
    have "\<forall>vc \<in> set vcs. ptr_ok s1 (vc_table vc)" using Cons.prems(2) lookedD(3) [OF s1(2)] by (simp add: ptr_ok_def)
    from Cons.IH [OF lookedD(1) [OF s1(2)] this] obtain q s2 where "lookup_loop n vcs s1 = Ret q s2" "looked s1 s2" "valid s2 q" by blast
    then show ?thesis using s1 None looked_trans by (auto simp: bnd_def)
  qed (use s1 in \<open>auto simp: bnd_def ret_def\<close>)
qed

lemma context_ptr: "vars_ok s \<Longrightarrow> vc \<in> set (shell_variables s) \<Longrightarrow> ptr_ok s (vc_table vc)"
  by (simp add: vars_okD(4))

lemma returns_looked:
  assumes "live k M s" and "\<exists>p s'. m s = Ret p s' \<and> looked s s' \<and> valid s' p"
  shows "returns k M s m (\<lambda>p s'. valid s' p)"
proof -
  from assms(2) obtain p s' where "m s = Ret p s'" "looked s s'" "valid s' p" by blast
  with looked_live [OF assms(1), of s'] show ?thesis unfolding returns_def by blast
qed

lemma var_lookup_returns:
  assumes "live k M s" shows "returns k M s (var_lookup n) (\<lambda>p s'. valid s' p)"
  unfolding var_lookup_def bnd_def gets_def outcome.case
proof (rule returns_looked [OF assms], rule lookup_loop_returns)
  show "vars_ok s" using assms by (simp add: live_def)
  then show "\<forall>vc \<in> set (shell_variables s). ptr_ok s (vc_table vc)" using context_ptr by blast
qed

lemma var_lookup_global_returns:
  assumes "live k M s" shows "returns k M s (var_lookup_global n) (\<lambda>p s'. valid s' p)"
  unfolding var_lookup_global_def bnd_def gets_def outcome.case
proof (rule returns_looked [OF assms], rule lookup_loop_returns)
  show ok: "vars_ok s" using assms by (simp add: live_def)
  show "\<forall>vc \<in> set (if shell_variables s = [] then [] else [last (shell_variables s)]). ptr_ok s (vc_table vc)"
    using context_ptr [OF ok] by simp
qed

lemma current_value_returns:
  assumes "hooks_return h" and "live k M s" and "valid s p"
  shows "returns k M s (current_value h p) (\<lambda>p s'. valid s' p)"
proof (cases p)
  case None
  then show ?thesis using assms(2) by (simp add: current_value_def returns_ret valid_def)
next
  case (Some a)
  with assms(3) have a: "a < length (sh_heap s)" by (simp add: valid_def)
  have "current_value h p s = (case sv_dynamic_value (sh_heap s ! a) of Some f \<Rightarrow> hk_dynamic_value h f p s | None \<Rightarrow> Ret p s)"
    using a by (simp add: Some current_value_def bnd_def var_at_def ret_def split: option.split)
  then show ?thesis
    using assms by (cases "sv_dynamic_value (sh_heap s ! a)") (auto simp: returns_def hooks_return_def)
qed

lemma find_global_noref_returns:
  assumes "hooks_return h" and "live k M s"
  shows "returns k M s (find_global_variable_noref h n) (\<lambda>p s'. valid s' p)"
  unfolding find_global_variable_noref_def
  by (rule returns_bnd [OF var_lookup_global_returns [OF assms(2)]]) (rule current_value_returns [OF assms(1)])

text \<open>The flags of the lookups by name do not ask to skip invisible variables.\<close>

lemma find_internal_returns:
  assumes h: "hooks_return h" and l: "live k M s" and fl: "\<not> has_flag flags FV_SKIPINVISIBLE"
  shows "returns k M s (find_variable_internal h n flags) (\<lambda>p s'. valid s' p)"
proof -
  have 1: "returns k M s (if b then hash_lookup n (temporary_env s) else ret None) (\<lambda>p s'. valid s' p)" for b
  proof (cases b)
    case True
    have "vars_ok s" using l by (simp add: live_def)
    note hash_lookup_returns [OF this vars_okD(6) [OF this], of n]
    from returns_looked [of k M s "hash_lookup n (temporary_env s)", OF l this] True show ?thesis by simp
  qed (simp add: returns_ret [OF l] valid_def)
  have 2: "returns k M s' (bnd (if p \<noteq> None then ret p else if \<not> has_flag flags FV_SKIPINVISIBLE then var_lookup n
       else bnd (gets shell_variables) (visible_loop n)) (current_value h)) (\<lambda>p s'. valid s' p)"
    if "live k M s'" "valid s' p" for p s'
  proof (rule returns_bnd [OF _ current_value_returns [OF h]])
    show "returns k M s' (if p \<noteq> None then ret p else if \<not> has_flag flags FV_SKIPINVISIBLE then var_lookup n
       else bnd (gets shell_variables) (visible_loop n)) (\<lambda>p s'. valid s' p)"
      using fl that var_lookup_returns [OF that(1), of n] returns_ret [OF that(1), of "\<lambda>p s'. valid s' p" p] by simp
  qed
  from returns_bnd [OF 1 2] show ?thesis
    by (simp add: find_variable_internal_def returns_def bnd_def gets_def)
qed

section \<open>References\<close>

text \<open>What a lookup returns: a variable that is no reference, unless it has reported a circular reference, or none.\<close>

definition resolved :: "ptr \<Rightarrow> 'e shell \<Rightarrow> bool" where
  "resolved p s \<longleftrightarrow> valid s p
     \<and> (\<forall>a. p = Some a \<and> nameref_p (sh_heap s ! a) \<longrightarrow> (\<exists>n. M_circular n \<in> set (sh_messages s)))"

lemma resolved_None: "resolved None s"
  by (simp add: resolved_def valid_def)

lemma resolved_var: "a < length (sh_heap s) \<Longrightarrow> \<not> nameref_p (sh_heap s ! a) \<Longrightarrow> resolved (Some a) s"
  by (simp add: resolved_def valid_def)

lemma flags_no_skip: "\<not> has_flag (if b then FV_FORCETEMPENV else 0) FV_SKIPINVISIBLE"
  by (simp add: has_flag_def FV_FORCETEMPENV_def FV_SKIPINVISIBLE_def)

lemma report_live:
  assumes "live k M s" shows "live k (insert m M) (s\<lparr>sh_messages := sh_messages s @ [m]\<rparr>)"
proof -
  have "vars_ok s" using assms by (simp add: live_def)
  then have "vars_ok (s\<lparr>sh_messages := sh_messages s @ [m]\<rparr>)" by (rule vars_ok_same) simp_all
  with assms show ?thesis by (simp add: live_def refs_typed_def subset_insertI2)
qed

text \<open>The end of the loop when a cycle is found: \<open>v\<close> is the variable it leads back to.\<close>

lemma circular_returns:
  assumes h: "hooks_return h" and l: "live k M s" and o: "orig < k" and v: "valid s v" "v \<noteq> None"
  shows "returns k M s (bnd (var_at (Some orig)) (\<lambda>o_var.
      sq (report (M_circular (sv_name o_var)))
        (bnd (gets variable_context) (\<lambda>c.
         bnd (if c \<noteq> 0 then bnd (var_at v) (\<lambda>var'. ret (Some var')) else ret None) (\<lambda>var'.
         case var' of
           Some w \<Rightarrow> if sv_context w \<noteq> 0 then find_global_variable_noref h (sv_name w) else ret None
         | None \<Rightarrow> ret None))))) resolved"
proof -
  obtain b where b: "v = Some b" "b < length (sh_heap s)" using v by (auto simp: valid_def)
  have o': "orig < length (sh_heap s)" using o l by (simp add: live_def)
  let ?m = "M_circular (sv_name (sh_heap s ! orig))"
  let ?s = "s\<lparr>sh_messages := sh_messages s @ [?m]\<rparr>"
  have l': "live k (insert ?m M) ?s" by (rule report_live [OF l])
  have none: "returns k M ?s (ret None) resolved"
    by (rule returns_mono [of k "insert ?m M", OF returns_ret [of k "insert ?m M" ?s resolved None, OF l' resolved_None]]) auto
  have glob: "returns k M ?s (find_global_variable_noref h n) resolved" for n
  proof (rule returns_mono [of k "insert ?m M"])
    show "returns k (insert ?m M) ?s (find_global_variable_noref h n) resolved"
      by (rule returns_weaken [OF find_global_noref_returns [OF h l']]) (auto simp: resolved_def live_def)
  qed auto
  show ?thesis
    using none glob o' b(2) by (simp add: returns_def bnd_def sq_def var_at_def report_def modify_def gets_def ret_def b(1))
qed

lemma nameref_loop_returns:
  fixes s :: "'e shell"
  assumes h: "hooks_return h" and o: "orig < k" and "live k M s" and "valid s v"
  shows "returns k M s (nameref_loop h (Some orig) j v) resolved"
  using assms(3,4)
proof (induction j arbitrary: v s)
  case 0
  show ?case
  proof (cases v)
    case None
    then show ?thesis using 0 by (subst nameref_loop.simps) (simp add: returns_ret resolved_None)
  next
    case (Some b)
    with 0 have b: "b < length (sh_heap s)" by (simp add: valid_def)
    then have "nameref_loop h (Some orig) 0 v s = Ret (if nameref_p (sh_heap s ! b) then None else v) s"
      by (subst nameref_loop.simps) (simp add: Some bnd_def var_at_def ret_def)
    then show ?thesis using 0 b by (simp add: returns_def Some resolved_None resolved_var)
  qed
next
  case (Suc j)
  show ?case
  proof (cases v)
    case None
    then show ?thesis using Suc.prems by (subst nameref_loop.simps) (simp add: returns_ret resolved_None)
  next
    case (Some b)
    with Suc.prems have b: "b < length (sh_heap s)" by (simp add: valid_def)
    let ?v = "sh_heap s ! b"
    show ?thesis
    proof (cases "nameref_p ?v")
      case False
      then have "nameref_loop h (Some orig) (Suc j) v s = Ret v s"
        using b by (subst nameref_loop.simps) (simp add: Some bnd_def var_at_def ret_def)
      then show ?thesis using Suc.prems b False by (simp add: returns_def Some resolved_var)
    next
      case True
      obtain x where x: "sv_value ?v = map_option C_str x" using Suc.prems(1) True nth_mem [OF b] by (auto simp: live_def refs_typed_def)
      have cell: "value_cell ?v s = Ret x s" using x by (cases x) (simp_all add: value_cell_def ret_def)
      show ?thesis
      proof (cases "x = None \<or> x = Some []")
        case True
        then have "nameref_loop h (Some orig) (Suc j) v s = Ret None s"
          using b \<open>nameref_p ?v\<close> cell by (subst nameref_loop.simps) (auto simp: Some bnd_def var_at_def ret_def)
        then show ?thesis using Suc.prems by (simp add: returns_def resolved_None)
      next
        case False
        then obtain y where y: "x = Some y" "y \<noteq> []" by (cases x) auto
        let ?fl = "if \<not> expanding_redir s \<and> (assigning_in_environment s \<or> executing_builtin s) then FV_FORCETEMPENV else 0"
        define F where "F = (\<lambda>v'. if v' = Some orig \<or> v' = v then
             bnd (var_at (Some orig)) (\<lambda>o_var. sq (report (M_circular (sv_name o_var)))
               (bnd (gets variable_context) (\<lambda>c. bnd (if c \<noteq> 0 then bnd (var_at v') (\<lambda>var'. ret (Some var')) else ret None) (\<lambda>var'.
                 case var' of Some w \<Rightarrow> if sv_context w \<noteq> 0 then find_global_variable_noref h (sv_name w) else ret None
                 | None \<Rightarrow> ret None))))
           else nameref_loop h (Some orig) j v')"
        have eq: "nameref_loop h (Some orig) (Suc j) v s = bnd (find_variable_internal h y ?fl) F s"
          using b \<open>nameref_p ?v\<close> cell y
          by (subst nameref_loop.simps) (simp add: Some bnd_def var_at_def tempenv_flags_def gets_def F_def)
        have "returns k M s (bnd (find_variable_internal h y ?fl) F) resolved"
        proof (rule returns_bnd [OF find_internal_returns [OF h Suc.prems(1) flags_no_skip]])
          fix v' and s' :: "'e shell" assume l': "live k M s'" and v': "valid s' v'"
          show "returns k M s' (F v') resolved"
          proof (cases "v' = Some orig \<or> v' = v")
            case True
            then have "v' \<noteq> None" using Some by auto
            from circular_returns [OF h l' o v' this] True show ?thesis unfolding F_def by simp
          next
            case False
            with Suc.IH [OF l' v'] show ?thesis unfolding F_def by simp
          qed
        qed
        then show ?thesis unfolding returns_def eq .
      qed
    qed
  qed
qed

lemma follow_returns:
  assumes h: "hooks_return h" and l: "live k M s" and v: "valid s v"
  shows "returns k M s (follow_nameref h v) resolved"
proof (cases v)
  case None
  then show ?thesis using l by (simp add: follow_nameref_def returns_ret resolved_None)
next
  case (Some a)
  then have a: "a < length (sh_heap s)" using v by (simp add: valid_def)
  let ?k = "length (sh_heap s)"
  have "live ?k M s" using l by (simp add: live_def)
  from nameref_loop_returns [OF h a this v, of NAMEREF_MAX] have "returns k M s (find_variable_nameref h v) resolved"
    using l unfolding find_variable_nameref_def Some by (rule_tac returns_mono [of ?k M]) (auto simp: live_def)
  moreover have "follow_nameref h v s = (if nameref_p (sh_heap s ! a) then find_variable_nameref h v s else Ret v s)"
    using a by (simp add: Some follow_nameref_def bnd_def var_at_def ret_def)
  ultimately show ?thesis
    using l a by (cases "nameref_p (sh_heap s ! a)") (simp_all add: returns_def Some resolved_var)
qed

text \<open>
  C13. A lookup always answers. Whatever variables there are, references included that form long chains or cycles, local and global, and
  dynamic variables as long as their functions return, \<^verbatim>\<open>find_variable\<close> returns: it never follows a \<^verbatim>\<open>NULL\<close> pointer, it leaves the store sound,
  and its answer is no variable, or a variable of the store that is no reference unless a circular reference was reported.
\<close>

theorem find_variable_answers:
  assumes "hooks_return h" and "vars_ok s" and "refs_typed s"
  shows "\<exists>p s'. find_variable h n s = Ret p s' \<and> vars_ok s'
    \<and> (\<forall>a. p = Some a \<longrightarrow> a < length (sh_heap s') \<and> (nameref_p (sh_heap s' ! a) \<longrightarrow> (\<exists>m. M_circular m \<in> set (sh_messages s'))))"
proof -
  let ?s = "s\<lparr>last_table_searched := None\<rparr>"
  have "vars_ok ?s" using assms(2) by (rule vars_ok_same) simp_all
  then have l: "live 0 {} ?s" using assms(3) by (simp add: live_def refs_typed_def)
  let ?fl = "if \<not> expanding_redir s \<and> (assigning_in_environment s \<or> executing_builtin s) then FV_FORCETEMPENV else 0"
  have "returns 0 {} ?s (bnd (find_variable_internal h n ?fl) (follow_nameref h)) resolved"
    by (rule returns_bnd [OF find_internal_returns [OF assms(1) l flags_no_skip]]) (rule follow_returns [OF assms(1)])
  moreover have "find_variable h n s = bnd (find_variable_internal h n ?fl) (follow_nameref h) ?s"
    by (simp add: find_variable_def sq_def bnd_def modify_def tempenv_flags_def gets_def)
  ultimately obtain p s' where "find_variable h n s = Ret p s'" "live 0 {} s'" "resolved p s'" unfolding returns_def by auto
  then show ?thesis by (auto simp: live_def resolved_def valid_def)
qed

text \<open>Two references to each other and one to a variable.\<close>

definition reference_shell :: "unit shell" where
  "reference_shell = shell_with [var_named ''a'' ''b'' att_nameref, var_named ''b'' ''a'' att_nameref, var_named ''x'' ''1'' 0]"

lemma plain_hooks_return: "hooks_return plain_hooks"
  by (simp add: hooks_return_def plain_hooks_def returns_def ret_def)

lemma find_variable_answers_witness:
  "\<exists>p s'. find_variable plain_hooks ''a'' reference_shell = Ret p s' \<and> vars_ok s'"
proof -
  have 1: "vars_ok reference_shell" unfolding reference_shell_def by (rule shell_with_ok)
  have 2: "refs_typed reference_shell"
    by (auto simp: refs_typed_def reference_shell_def shell_with_def var_named_def blank_var_def nameref_p_def has_flag_def
        intro: exI [of _ "Some _"])
  from find_variable_answers [OF plain_hooks_return 1 2, of "''a''"] show ?thesis by blast
qed

end
