(* ===== verification/Scope_Deviations.thy ===== *)
theory Scope_Deviations
  imports Scope_Calls Lookup_Live
begin

text \<open>
  Runs in which the functions of \<^verbatim>\<open>variables.c\<close> do not do what they mean to, or what their comments say.
\<close>

section \<open>The programs\<close>

text \<open>Two references that refer to each other, in POSIX mode: \<^verbatim>\<open>declare -n a=b; declare -n b=a\<close>.\<close>

definition circular_shell :: "unit shell" where
  "circular_shell = (shell_with [var_named ''a'' ''b'' att_nameref, var_named ''b'' ''a'' att_nameref])\<lparr>posixly_correct := True\<rparr>"

text \<open>The assignment before a special builtin, \<^verbatim>\<open>a=1 :\<close>.\<close>

definition assign_before_special :: "(unit, unit) cmd" where
  "assign_before_special = bnd (assign_in_env plain_hooks ''a=1'' 1) (\<lambda>_. merge_temporary_env plain_hooks)"

text \<open>An exported variable, \<^verbatim>\<open>export x=1\<close>.\<close>

definition exported_shell :: "unit shell" where
  "exported_shell = shell_with [var_named ''x'' ''1'' att_exported]"

text \<open>In a function, \<^verbatim>\<open>local +x x; x=2\<close>, and the environment of the next command.\<close>

definition hide_export :: "(unit, unit) cmd" where
  "hide_export = sq (enter_function ''f'' False) (bnd (make_local_variable plain_hooks ''x'' 0) (\<lambda>x.
     sq (VUNSETATTR x att_exported) (sq (bind_variable plain_hooks ''x'' (Some ''2'') 0)
     (sq need_array (maybe_make_export_env plain_hooks)))))"

text \<open>In a function, \<^verbatim>\<open>local x; x=1 local x\<close>.\<close>

definition local_twice :: "(unit, unit) cmd" where
  "local_twice = sq (enter_function ''f'' False) (sq (make_local_variable plain_hooks ''x'' 0)
     (sq (assign_in_env plain_hooks ''x=1'' 1) (sq (modify (\<lambda>s. s\<lparr>executing_builtin := True\<rparr>))
     (sq (make_local_variable plain_hooks ''x'' 0) (ret ())))))"

text \<open>A readonly reference and a reference to an element of it, \<^verbatim>\<open>declare -nr r=q; declare -n e='r[0]'\<close>.\<close>

definition element_shell :: "unit shell" where
  "element_shell = shell_with [var_named ''r'' ''q'' (att_nameref + att_readonly), var_named ''e'' ''r[0]'' att_nameref]"

definition element_hooks :: "unit hooks" where
  "element_hooks = plain_hooks\<lparr>hk_valid_array_reference := \<lambda>n fl. ret (n = ''r[0]''),
     hk_array_variable_name := \<lambda>n. ret (Some ''r'')\<rparr>"

definition assign_element :: "(unit, unit) cmd" where
  "assign_element = sq (bind_variable element_hooks ''e'' (Some ''5'') 0) (ret ())"

section \<open>What they do\<close>

lemma circular_crash: "assign_before_special circular_shell = Crash"
  by code_simp

lemma unexported_local_exports: "map_option export_env (final_state (hide_export exported_shell)) = Some [''x=1'']"
  by code_simp

lemma local_entered_twice:
  "map_option (\<lambda>s. map bc_key (all_items (sh_tables s ! 2))) (final_state (local_twice exported_shell)) = Some [''x'', ''x'']"
  by code_simp

lemma readonly_reference_lost:
  "map_option (\<lambda>s. (sv_value (sh_heap s ! 2), nameref_p (sh_heap s ! 2), readonly_p (sh_heap s ! 2)))
     (final_state (assign_element element_shell)) = Some (None, False, True)"
  by code_simp

text \<open>
  Four runs that deviate from what the code means to do. The temporary assignment to a circular reference before a special
  builtin in POSIX mode follows a \<^verbatim>\<open>NULL\<close> pointer. An assignment through a reference to an element of a readonly reference removes
  the readonly variable's value and reference attribute. A local variable that is not exported does not hide the exported global
  one from the environment of commands. A variable declared local twice, the second time with a temporary assignment of the same name,
  is entered twice in the table of its scope.
\<close>

theorem variable_deviations:
  "assign_before_special circular_shell = Crash
   \<and> map_option (\<lambda>s. (sv_value (sh_heap s ! 2), nameref_p (sh_heap s ! 2), readonly_p (sh_heap s ! 2)))
       (final_state (assign_element element_shell)) = Some (None, False, True)
   \<and> map_option export_env (final_state (hide_export exported_shell)) = Some [''x=1'']
   \<and> map_option (\<lambda>s. map bc_key (all_items (sh_tables s ! 2))) (final_state (local_twice exported_shell)) = Some [''x'', ''x'']"
  using circular_crash readonly_reference_lost unexported_local_exports local_entered_twice by blast

end
