(* ===== verification/History.thy ===== *)
theory History
  imports General "HOL-Library.Monad_Syntax"
begin

text \<open>
  The history list, \<^verbatim>\<open>lib/readline/history.c\<close>, and the searches in it, \<^verbatim>\<open>lib/readline/histsearch.c\<close>.

  The list is an array of pointers that is allocated with room to spare and ends in a \<^verbatim>\<open>NULL\<close>. Slots behind the end keep old
  pointers, and entries are freed while such slots still refer to them, so the entries live in an explicit store and
  a slot holds an address. Reading a slot outside the array or one never written, and following a pointer to a freed
  entry, is the outcome \<open>None\<close>. The length and the size of the list are integers that
  memory bounds: an array of \<open>2\<^sup>3\<^sup>1\<close> entries takes 16 gigabytes without its lines. The base, which grows with every line that is dropped, and the
  index that \<^verbatim>\<open>history_get\<close> computes from it are reduced to the width of an \<^verbatim>\<open>int\<close>. Allocation succeeds. The time of day is a
  parameter of the function that asks for it, and \<^verbatim>\<open>fnmatch\<close> of the C library one of the search.
\<close>

section \<open>State\<close>

text \<open>The time stamp is a buffer with its terminator: the code reads behind a terminator in it.\<close>

record HIST_ENTRY =
  he_line :: "cstring option"
  he_timestamp :: "char list option"
  he_data :: "nat option"

datatype slot = Unwritten | Slot "nat option"

text \<open>\<open>hi_store\<close> has the entries ever allocated, \<open>None\<close> for those freed; the other fields are the variables of the file.\<close>

record hist =
  hi_store :: "HIST_ENTRY option list"
  the_history :: "slot list option"
  history_stifled :: bool
  history_size :: int
  history_max_entries :: int
  max_input_history :: int
  history_offset :: int
  history_length :: int
  history_base :: int
  history_comment_char :: char

definition DEFAULT_HISTORY_INITIAL_SIZE :: int where "DEFAULT_HISTORY_INITIAL_SIZE = 502"
definition MAX_HISTORY_INITIAL_SIZE :: int where "MAX_HISTORY_INITIAL_SIZE = 8192"
definition DEFAULT_HISTORY_GROW_SIZE :: int where "DEFAULT_HISTORY_GROW_SIZE = 50"

definition history_start :: "char \<Rightarrow> hist" where
  "history_start c = \<lparr>hi_store = [], the_history = None, history_stifled = False, history_size = 0, history_max_entries = 0,
     max_input_history = 0, history_offset = 0, history_length = 0, history_base = 1, history_comment_char = c\<rparr>"

section \<open>Memory\<close>

text \<open>\<^verbatim>\<open>the_history[i]\<close>, read and written, and the entry at a pointer.\<close>

definition slot_at :: "int \<Rightarrow> hist \<Rightarrow> nat option option" where
  "slot_at i h =
     (case the_history h of
        None \<Rightarrow> None
      | Some b \<Rightarrow> if 0 \<le> i \<and> nat i < length b
                  then (case b ! nat i of Unwritten \<Rightarrow> None | Slot p \<Rightarrow> Some p) else None)"

definition set_slot :: "int \<Rightarrow> nat option \<Rightarrow> hist \<Rightarrow> hist option" where
  "set_slot i p h =
     (case the_history h of
        None \<Rightarrow> None
      | Some b \<Rightarrow> if 0 \<le> i \<and> nat i < length b then Some (h\<lparr>the_history := Some (b[nat i := Slot p])\<rparr>) else None)"

definition entry_at :: "nat option \<Rightarrow> hist \<Rightarrow> HIST_ENTRY option" where
  "entry_at p h =
     (case p of None \<Rightarrow> None | Some a \<Rightarrow> if a < length (hi_store h) then hi_store h ! a else None)"

definition set_entry :: "nat option \<Rightarrow> (HIST_ENTRY \<Rightarrow> HIST_ENTRY) \<Rightarrow> hist \<Rightarrow> hist option" where
  "set_entry p f h = map_option (\<lambda>e. h\<lparr>hi_store := (hi_store h)[the p := Some (f e)]\<rparr>) (entry_at p h)"

text \<open>\<^verbatim>\<open>memmove (the_history + dst, the_history + src, n * sizeof (HIST_ENTRY *))\<close>.\<close>

definition move_slots :: "int \<Rightarrow> int \<Rightarrow> int \<Rightarrow> hist \<Rightarrow> hist option" where
  "move_slots dst src n h =
     (case the_history h of
        None \<Rightarrow> None
      | Some b \<Rightarrow>
          if 0 \<le> dst \<and> 0 \<le> src \<and> 0 \<le> n \<and> dst + n \<le> int (length b) \<and> src + n \<le> int (length b)
          then Some (h\<lparr>the_history := Some (take (nat dst) b @ take (nat n) (drop (nat src) b) @ drop (nat (dst + n)) b)\<rparr>)
          else None)"

text \<open>\<^verbatim>\<open>savestring\<close> of a buffer copies up to the terminator.\<close>

definition savestring_buf :: "char list \<Rightarrow> char list" where
  "savestring_buf b = takeWhile (\<lambda>c. c \<noteq> NUL) b @ [NUL]"

section \<open>The current position\<close>

definition using_history :: "hist \<Rightarrow> hist" where
  "using_history h = h\<lparr>history_offset := history_length h\<rparr>"

definition where_history :: "hist \<Rightarrow> int" where
  "where_history h = history_offset h"

definition history_set_pos :: "int \<Rightarrow> hist \<Rightarrow> bool \<times> hist" where
  "history_set_pos pos h =
     (if pos > history_length h \<or> pos < 0 \<or> the_history h = None then (False, h)
      else (True, h\<lparr>history_offset := pos\<rparr>))"

definition hs_at_end_of_history :: "hist \<Rightarrow> bool" where
  "hs_at_end_of_history h \<longleftrightarrow> the_history h = None \<or> history_offset h = history_length h"

definition current_history :: "hist \<Rightarrow> nat option option" where
  "current_history h =
     (if history_offset h = history_length h \<or> the_history h = None then Some None
      else slot_at (history_offset h) h)"

definition previous_history :: "hist \<Rightarrow> (nat option \<times> hist) option" where
  "previous_history h =
     (if history_offset h \<noteq> 0
      then let h = h\<lparr>history_offset := history_offset h - 1\<rparr>
           in map_option (\<lambda>p. (p, h)) (slot_at (history_offset h) h)
      else Some (None, h))"

definition next_history :: "hist \<Rightarrow> (nat option \<times> hist) option" where
  "next_history h =
     (if history_offset h = history_length h then Some (None, h)
      else let h = h\<lparr>history_offset := history_offset h + 1\<rparr>
           in map_option (\<lambda>p. (p, h)) (slot_at (history_offset h) h))"

definition history_get :: "int \<Rightarrow> hist \<Rightarrow> nat option option" where
  "history_get offset h =
     (let local_index = wrap32 (offset - history_base h)
      in if local_index \<ge> history_length h \<or> local_index < 0 \<or> the_history h = None then Some None
         else slot_at local_index h)"

section \<open>Entries\<close>

text \<open>The allocating functions return the address of the new entry.\<close>

definition alloc_history_entry :: "cstring option \<Rightarrow> char list option \<Rightarrow> hist \<Rightarrow> nat option \<times> hist" where
  "alloc_history_entry string ts h =
     (Some (length (hi_store h)),
      h\<lparr>hi_store := hi_store h @ [Some \<lparr>he_line = string, he_timestamp = ts, he_data = None\<rparr>]\<rparr>)"

text \<open>The outcome \<open>None\<close>: the number is read outside the buffer of the time stamp.\<close>

definition history_get_time :: "nat option \<Rightarrow> hist \<Rightarrow> int option" where
  "history_get_time p h =
     (if p = None then Some 0
      else entry_at p h \<bind> (\<lambda>e.
        case he_timestamp e of
          None \<Rightarrow> Some 0
        | Some ts \<Rightarrow>
            if ts = [] then None
            else if hd ts \<noteq> history_comment_char h then Some 0
            else if NUL \<notin> set (tl ts) then None
            else let (t, n, erange) = strtoimax (takeWhile (\<lambda>c. c \<noteq> NUL) (tl ts))
                 in Some (if erange then 0 else t)))"

definition hist_inittime :: "uintmax \<Rightarrow> hist \<Rightarrow> char list" where
  "hist_inittime t h = history_comment_char h # uitos t @ [NUL]"

definition free_history_entry :: "nat option \<Rightarrow> hist \<Rightarrow> (nat option \<times> hist) option" where
  "free_history_entry p h =
     (if p = None then Some (None, h)
      else entry_at p h \<bind> (\<lambda>e. Some (he_data e, h\<lparr>hi_store := (hi_store h)[the p := None]\<rparr>)))"

definition copy_history_entry :: "nat option \<Rightarrow> hist \<Rightarrow> (nat option \<times> hist) option" where
  "copy_history_entry p h =
     (if p = None then Some (None, h)
      else entry_at p h \<bind> (\<lambda>e.
        let (r, h) = alloc_history_entry (he_line e) None h
        in set_entry r (\<lambda>n. n\<lparr>he_timestamp := map_option savestring_buf (he_timestamp e), he_data := he_data e\<rparr>) h
             \<bind> (\<lambda>h. Some (r, h))))"

fun total_bytes :: "nat \<Rightarrow> int \<Rightarrow> int \<Rightarrow> hist \<Rightarrow> int option" where
  "total_bytes fuel i result h =
     slot_at i h \<bind> (\<lambda>p.
       if p = None then Some result
       else entry_at p h \<bind> (\<lambda>e. he_line e \<bind> (\<lambda>l. he_timestamp e \<bind> (\<lambda>ts.
         case fuel of
           0 \<Rightarrow> None
         | Suc k \<Rightarrow> total_bytes k (i + 1)
             (wrap32 (result + int (length l) + int (length (takeWhile (\<lambda>c. c \<noteq> NUL) ts)))) h))))"

declare total_bytes.simps [simp del]

text \<open>The loop ends at the terminating slot, so it has at most as many rounds as the array has slots.\<close>

definition history_total_bytes :: "hist \<Rightarrow> int option" where
  "history_total_bytes h =
     (case the_history h of None \<Rightarrow> Some 0 | Some b \<Rightarrow> total_bytes (length b) 0 0 h)"

section \<open>Changing the list\<close>

definition initial_size :: "hist \<Rightarrow> int" where
  "initial_size h =
     (if history_stifled h \<and> history_max_entries h > 0
      then (if history_max_entries h > MAX_HISTORY_INITIAL_SIZE then MAX_HISTORY_INITIAL_SIZE else history_max_entries h + 2)
      else DEFAULT_HISTORY_INITIAL_SIZE)"

text \<open>Room for one more entry: the array is allocated or grows; the new length is returned.\<close>

definition make_room :: "hist \<Rightarrow> int \<times> hist" where
  "make_room h =
     (if history_size h = 0 then
        let n = initial_size h
        in (1, h\<lparr>history_size := n, the_history := Some (replicate (nat n) Unwritten)\<rparr>)
      else
        (history_length h + 1,
         if history_length h = history_size h - 1
         then h\<lparr>history_size := history_size h + DEFAULT_HISTORY_GROW_SIZE,
                the_history := Some (case the_history h of
                  None \<Rightarrow> replicate (nat (history_size h + DEFAULT_HISTORY_GROW_SIZE)) Unwritten | Some b \<Rightarrow> b @ replicate (nat DEFAULT_HISTORY_GROW_SIZE) Unwritten)\<rparr>
         else h))"

text \<open>A full list that is stifled loses its first entry.\<close>

definition drop_first :: "hist \<Rightarrow> (int \<times> hist) option" where
  "drop_first h = do {
     p \<leftarrow> slot_at 0 h;
     (d, h) \<leftarrow> free_history_entry p h;
     h \<leftarrow> move_slots 0 1 (history_length h) h;
     Some (history_length h, h\<lparr>history_base := wrap32 (history_base h + 1)\<rparr>)
   }"

text \<open>The new entry goes before the terminator.\<close>

definition put_entry :: "uintmax \<Rightarrow> cstring option \<Rightarrow> int \<Rightarrow> hist \<Rightarrow> hist option" where
  "put_entry now string new_length h = do {
     let (temp, h) = alloc_history_entry string (Some (hist_inittime now h)) h;
     h \<leftarrow> set_slot new_length None h;
     h \<leftarrow> set_slot (new_length - 1) temp h;
     Some (h\<lparr>history_length := new_length\<rparr>)
   }"

definition add_history :: "uintmax \<Rightarrow> cstring option \<Rightarrow> hist \<Rightarrow> hist option" where
  "add_history now string h =
     (if history_stifled h \<and> history_length h = history_max_entries h then
        (if history_length h = 0 then Some h
         else do { (new_length, h) \<leftarrow> drop_first h; put_entry now string new_length h })
      else let (new_length, h) = make_room h in put_entry now string new_length h)"

definition add_history_time :: "cstring option \<Rightarrow> hist \<Rightarrow> hist option" where
  "add_history_time string h =
     (case string of
        None \<Rightarrow> Some h
      | Some s \<Rightarrow>
          if history_length h < 1 then Some h
          else slot_at (history_length h - 1) h \<bind> (\<lambda>hs. set_entry hs (\<lambda>e. e\<lparr>he_timestamp := Some (s @ [NUL])\<rparr>) h))"

definition replace_history_entry :: "int \<Rightarrow> cstring \<Rightarrow> nat option \<Rightarrow> hist \<Rightarrow> (nat option \<times> hist) option" where
  "replace_history_entry which line data h =
     (if which < 0 \<or> which \<ge> history_length h then Some (None, h)
      else do {
        old_value \<leftarrow> slot_at which h;
        old \<leftarrow> entry_at old_value h;
        let (temp, h) = alloc_history_entry (Some line) (map_option savestring_buf (he_timestamp old)) h;
        h \<leftarrow> set_entry temp (\<lambda>e. e\<lparr>he_data := data\<rparr>) h;
        h \<leftarrow> set_slot which temp h;
        Some (old_value, h)
      })"

function double_until :: "nat \<Rightarrow> nat \<Rightarrow> nat" where
  "double_until newlen minlen = (if newlen < minlen \<and> 0 < newlen then double_until (2 * newlen) minlen else newlen)"
  by auto
termination by (relation "measure (\<lambda>(newlen, minlen). minlen - newlen)") auto

declare double_until.simps [simp del]

definition append_size :: "nat \<Rightarrow> nat \<Rightarrow> nat" where
  "append_size curlen minlen = (if curlen > 256 then double_until 512 minlen else minlen)"

definition hs_append_history_line :: "int \<Rightarrow> cstring \<Rightarrow> hist \<Rightarrow> hist option" where
  "hs_append_history_line which line h = do {
     hent \<leftarrow> slot_at which h;
     e \<leftarrow> entry_at hent h;
     l \<leftarrow> he_line e;
     let newlen = append_size (length l) (length l + length line + 2);
     if length (l @ NEWLINE # line) + 1 \<le> newlen
     then set_entry hent (\<lambda>e. e\<lparr>he_line := Some (l @ NEWLINE # line)\<rparr>) h else None
   }"

text \<open>
  \<open>data_loop\<close> is the loop of \<^verbatim>\<open>_hs_replace_history_data\<close> over the indices of the list; it returns the last one whose data is \<open>old\<close>.
\<close>

fun data_loop :: "bool \<Rightarrow> nat option \<Rightarrow> nat option \<Rightarrow> int list \<Rightarrow> int \<Rightarrow> hist \<Rightarrow> (int \<times> hist) option" where
  "data_loop every old new [] lst h = Some (lst, h)"
| "data_loop every old new (i # is) lst h =
     slot_at i h \<bind> (\<lambda>p.
       if p = None then data_loop every old new is lst h
       else entry_at p h \<bind> (\<lambda>e.
         if he_data e = old then
           (if every then set_entry p (\<lambda>e. e\<lparr>he_data := new\<rparr>) h else Some h) \<bind> (\<lambda>h. data_loop every old new is i h)
         else data_loop every old new is lst h))"

definition hs_replace_history_data :: "int \<Rightarrow> nat option \<Rightarrow> nat option \<Rightarrow> hist \<Rightarrow> hist option" where
  "hs_replace_history_data which old new h =
     (if which < - 2 \<or> which \<ge> history_length h \<or> history_length h = 0 \<or> the_history h = None then Some h
      else if which \<ge> 0 then
        slot_at which h \<bind> (\<lambda>p.
          if p = None then Some h
          else entry_at p h \<bind> (\<lambda>e. if he_data e = old then set_entry p (\<lambda>e. e\<lparr>he_data := new\<rparr>) h else Some h))
      else
        data_loop (which = - 1) old new [0..history_length h - 1] (- 1) h \<bind> (\<lambda>(lst, h).
          if which = - 2 \<and> lst \<ge> 0 then slot_at lst h \<bind> (\<lambda>p. set_entry p (\<lambda>e. e\<lparr>he_data := new\<rparr>) h) else Some h))"

definition remove_history :: "int \<Rightarrow> hist \<Rightarrow> (nat option \<times> hist) option" where
  "remove_history which h =
     (if which < 0 \<or> which \<ge> history_length h \<or> history_length h = 0 \<or> the_history h = None then Some (None, h)
      else do {
        return_value \<leftarrow> slot_at which h;
        h \<leftarrow> move_slots which (which + 1) (history_length h - which) h;
        Some (return_value, h\<lparr>history_length := history_length h - 1\<rparr>)
      })"

fun slots_at :: "int list \<Rightarrow> hist \<Rightarrow> nat option list option" where
  "slots_at [] h = Some []"
| "slots_at (i # is) h = slot_at i h \<bind> (\<lambda>p. slots_at is h \<bind> (\<lambda>ps. Some (p # ps)))"

definition remove_history_range :: "int \<Rightarrow> int \<Rightarrow> hist \<Rightarrow> (nat option list option \<times> hist) option" where
  "remove_history_range first lst h =
     (if the_history h = None \<or> history_length h = 0 then Some (None, h)
      else if first < 0 \<or> first \<ge> history_length h \<or> lst < 0 \<or> lst \<ge> history_length h then Some (None, h)
      else if first > lst then Some (None, h)
      else do {
        return_value \<leftarrow> slots_at [first..lst] h;
        h \<leftarrow> move_slots first (lst + 1) (history_length h - lst) h;
        Some (Some return_value, h\<lparr>history_length := history_length h - (lst - first + 1)\<rparr>)
      })"

fun free_slots :: "int list \<Rightarrow> hist \<Rightarrow> hist option" where
  "free_slots [] h = Some h"
| "free_slots (i # is) h = slot_at i h \<bind> (\<lambda>p. free_history_entry p h \<bind> (\<lambda>(d, h). free_slots is h))"

text \<open>The second loop of \<^verbatim>\<open>stifle_history\<close>: \<^verbatim>\<open>the_history[j] = the_history[j + d]\<close>.\<close>

fun shift_slots :: "int \<Rightarrow> int list \<Rightarrow> hist \<Rightarrow> hist option" where
  "shift_slots d [] h = Some h"
| "shift_slots d (j # js) h = slot_at (j + d) h \<bind> (\<lambda>p. set_slot j p h \<bind> shift_slots d js)"

definition stifle_history :: "int \<Rightarrow> hist \<Rightarrow> hist option" where
  "stifle_history m h =
     (let m = (if m < 0 then 0 else m)
      in (if history_length h > m then do {
            let j = history_length h - m;
            h \<leftarrow> free_slots [0..j - 1] h;
            let h = h\<lparr>history_base := j\<rparr>;
            h \<leftarrow> shift_slots j [0..m - 1] h;
            h \<leftarrow> set_slot m None h;
            Some (h\<lparr>history_length := m\<rparr>)
          } else Some h)
         \<bind> (\<lambda>h. Some (h\<lparr>history_stifled := True, max_input_history := m, history_max_entries := m\<rparr>)))"

definition unstifle_history :: "hist \<Rightarrow> int \<times> hist" where
  "unstifle_history h =
     (if history_stifled h then (history_max_entries h, h\<lparr>history_stifled := False\<rparr>)
      else (- history_max_entries h, h))"

fun clear_slots :: "int list \<Rightarrow> hist \<Rightarrow> hist option" where
  "clear_slots [] h = Some h"
| "clear_slots (i # is) h =
     slot_at i h \<bind> (\<lambda>p. free_history_entry p h \<bind> (\<lambda>(d, h). set_slot i None h \<bind> clear_slots is))"

definition clear_history :: "hist \<Rightarrow> hist option" where
  "clear_history h =
     clear_slots [0..history_length h - 1] h
       \<bind> (\<lambda>h. Some (h\<lparr>history_offset := 0, history_length := 0, history_base := 1\<rparr>))"

section \<open>Searching\<close>

definition NON_ANCHORED_SEARCH :: int where "NON_ANCHORED_SEARCH = 0"
definition ANCHORED_SEARCH :: int where "ANCHORED_SEARCH = 0x01"
definition PATTERN_SEARCH :: int where "PATTERN_SEARCH = 0x02"

text \<open>A match of \<open>string\<close> at the start of \<open>l\<close>: \<^verbatim>\<open>fnmatch\<close> or \<^verbatim>\<open>STREQN\<close>.\<close>

definition match_here :: "(cstring \<Rightarrow> cstring \<Rightarrow> int) \<Rightarrow> bool \<Rightarrow> cstring \<Rightarrow> cstring \<Rightarrow> bool" where
  "match_here fnmatch patsearch string l =
     (if patsearch then fnmatch string l = 0 else take (length string) l = string)"

text \<open>The body of the loop for one line: the position of the match.\<close>

definition search_line :: "(cstring \<Rightarrow> cstring \<Rightarrow> int) \<Rightarrow> bool \<Rightarrow> bool \<Rightarrow> bool \<Rightarrow> cstring \<Rightarrow> cstring \<Rightarrow> nat option" where
  "search_line fnmatch patsearch anchored reverse string l =
     (let here = (\<lambda>k. match_here fnmatch patsearch string (drop k l))
      in if \<not> patsearch \<and> length string > length l then None
         else if anchored then (if here 0 then Some 0 else None)
         else if reverse then find here (rev [0..<if patsearch then length l else length l - length string + 1])
         else find here [0..<length l + 1 - length string])"

fun search_loop :: "(cstring \<Rightarrow> nat option) \<Rightarrow> int list \<Rightarrow> hist \<Rightarrow> (int \<times> hist) option" where
  "search_loop search [] h = Some (- 1, h)"
| "search_loop search (i # is) h =
     slot_at i h \<bind> (\<lambda>p. entry_at p h \<bind> (\<lambda>e. he_line e \<bind> (\<lambda>l.
       case search l of
         Some k \<Rightarrow> Some (int k, h\<lparr>history_offset := i\<rparr>)
       | None \<Rightarrow> search_loop search is h)))"

definition history_search_internal ::
  "(cstring \<Rightarrow> cstring \<Rightarrow> int) \<Rightarrow> cstring option \<Rightarrow> int \<Rightarrow> int \<Rightarrow> hist \<Rightarrow> (int \<times> hist) option" where
  "history_search_internal fnmatch string direction flags h =
     (let i = history_offset h;
          reverse = direction < 0;
          anchored = has_flag flags ANCHORED_SEARCH;
          patsearch = has_flag flags PATTERN_SEARCH
      in case string of
           None \<Rightarrow> Some (- 1, h)
         | Some s \<Rightarrow>
             if s = [] then Some (- 1, h)
             else if history_length h = 0 \<or> (i \<ge> history_length h \<and> \<not> reverse) then Some (- 1, h)
             else let i = (if reverse \<and> i \<ge> history_length h then history_length h - 1 else i)
                  in search_loop (search_line fnmatch patsearch anchored reverse s)
                       (if reverse then rev [0..i] else [i..history_length h - 1]) h)"

text \<open>An empty string makes the code read the byte before it.\<close>

definition hs_history_patsearch ::
  "(cstring \<Rightarrow> cstring \<Rightarrow> int) \<Rightarrow> cstring \<Rightarrow> int \<Rightarrow> int \<Rightarrow> hist \<Rightarrow> (int \<times> hist) option" where
  "hs_history_patsearch fnmatch string direction flags h =
     (if string = [] then None
      else if odd (length (takeWhile (\<lambda>c. c = BSLASH) (rev string))) then Some (- 1, h)
      else let pat = (if \<not> has_flag flags ANCHORED_SEARCH \<and> hd string \<noteq> CHR ''*'' then CHR ''*'' # string else string);
               pat = (if List.last pat \<noteq> CHR ''*'' then pat @ ''*'' else pat)
           in history_search_internal fnmatch (Some pat) direction (flags OR PATTERN_SEARCH) h)"

definition history_search :: "(cstring \<Rightarrow> cstring \<Rightarrow> int) \<Rightarrow> cstring option \<Rightarrow> int \<Rightarrow> hist \<Rightarrow> (int \<times> hist) option" where
  "history_search fnmatch string direction h = history_search_internal fnmatch string direction NON_ANCHORED_SEARCH h"

definition history_search_prefix ::
  "(cstring \<Rightarrow> cstring \<Rightarrow> int) \<Rightarrow> cstring option \<Rightarrow> int \<Rightarrow> hist \<Rightarrow> (int \<times> hist) option" where
  "history_search_prefix fnmatch string direction h = history_search_internal fnmatch string direction ANCHORED_SEARCH h"

definition history_search_pos ::
  "(cstring \<Rightarrow> cstring \<Rightarrow> int) \<Rightarrow> cstring option \<Rightarrow> int \<Rightarrow> int \<Rightarrow> hist \<Rightarrow> (int \<times> hist) option" where
  "history_search_pos fnmatch string dir pos h =
     (let old = where_history h;
          (ok, h) = history_set_pos pos h
      in history_search fnmatch string dir h \<bind> (\<lambda>(r, h).
           if r = - 1 then let (ok, h) = history_set_pos old h in Some (- 1, h)
           else let ret = where_history h; (ok, h) = history_set_pos old h in Some (ret, h)))"

end
