(* ===== verification/History_Correct.thy ===== *)
theory History_Correct
  imports History
begin

text \<open>
  The history list implements a bounded list of lines. The array with its spare slots and the store of entries represent a
  list of entries; every operation succeeds, keeps this representation and does to the list what its specification says.
\<close>

section \<open>Representation\<close>

definition entry_ok :: "HIST_ENTRY \<Rightarrow> bool" where
  "entry_ok e \<longleftrightarrow> he_line e \<noteq> None \<and> he_timestamp e \<noteq> None"

text \<open>The array holds the addresses \<open>as\<close>, which are all different, and then \<^verbatim>\<open>NULL\<close>; their entries are not freed.\<close>

definition rep :: "hist \<Rightarrow> nat list \<Rightarrow> bool" where
  "rep h as \<longleftrightarrow> history_length h = int (length as) \<and> distinct as
     \<and> (\<forall>a \<in> set as. \<exists>e. entry_at (Some a) h = Some e \<and> entry_ok e)
     \<and> (history_stifled h \<longrightarrow> history_length h \<le> history_max_entries h)
     \<and> (case the_history h of
          None \<Rightarrow> as = [] \<and> history_size h = 0
        | Some b \<Rightarrow> history_size h = int (length b) \<and> (\<exists>stale. b = map (\<lambda>a. Slot (Some a)) as @ Slot None # stale))"

definition hist_ok :: "hist \<Rightarrow> bool" where
  "hist_ok h \<longleftrightarrow> (\<exists>as. rep h as)"

definition address :: "slot \<Rightarrow> nat" where
  "address s = (case s of Slot (Some a) \<Rightarrow> a | _ \<Rightarrow> 0)"

definition listed :: "hist \<Rightarrow> nat list" where
  "listed h = (case the_history h of None \<Rightarrow> [] | Some b \<Rightarrow> map address (take (nat (history_length h)) b))"

record hist_view =
  hv_entries :: "HIST_ENTRY list"
  hv_base :: int
  hv_limit :: "int option"

definition hist_entries :: "hist \<Rightarrow> HIST_ENTRY list" where
  "hist_entries h = map (\<lambda>a. the (hi_store h ! a)) (listed h)"

definition view :: "hist \<Rightarrow> hist_view" where
  "view h = \<lparr>hv_entries = hist_entries h, hv_base = history_base h,
     hv_limit = (if history_stifled h then Some (history_max_entries h) else None)\<rparr>"

lemma rep_listed: "rep h as \<Longrightarrow> listed h = as"
  by (auto simp: rep_def listed_def address_def o_def split: option.splits)

lemma rep_store:
  assumes "rep h as" "a \<in> set as"
  shows "a < length (hi_store h)" "\<exists>e. hi_store h ! a = Some e \<and> entry_ok e"
  using assms by (auto simp: rep_def entry_at_def split: if_splits)

lemma rep_entries: "rep h as \<Longrightarrow> hist_entries h = map (\<lambda>a. the (hi_store h ! a)) as"
  by (simp add: hist_entries_def rep_listed)

lemma rep_length: "rep h as \<Longrightarrow> length (hist_entries h) = length as"
  by (simp add: rep_entries)

lemma rep_array:
  assumes "rep h as" "the_history h = Some b"
  obtains stale where "b = map (\<lambda>a. Slot (Some a)) as @ Slot None # stale"
  using assms by (auto simp: rep_def)

lemma rep_some: "rep h as \<Longrightarrow> as \<noteq> [] \<Longrightarrow> \<exists>b. the_history h = Some b"
  by (auto simp: rep_def split: option.splits)

lemma slot_at_rep:
  assumes "rep h as" "0 \<le> i" "nat i < length as"
  shows "slot_at i h = Some (Some (as ! nat i))"
proof -
  obtain b where b: "the_history h = Some b" using rep_some [OF assms(1)] assms(3) by force
  from rep_array [OF assms(1) b] obtain stale where "b = map (\<lambda>a. Slot (Some a)) as @ Slot None # stale" .
  then show ?thesis using assms(2,3) b by (simp add: slot_at_def nth_append)
qed

lemma slot_at_end: "rep h as \<Longrightarrow> the_history h \<noteq> None \<Longrightarrow> slot_at (history_length h) h = Some None"
  by (auto simp: rep_def slot_at_def nth_append)

lemma entry_at_rep:
  assumes "rep h as" "i < length as"
  shows "entry_at (Some (as ! i)) h = Some (hist_entries h ! i)" "entry_ok (hist_entries h ! i)"
  using rep_store [OF assms(1), of "as ! i"] assms by (auto simp: entry_at_def rep_entries)

section \<open>Specification\<close>

text \<open>The operations; \<open>Add\<close> has the time of day, \<open>Data\<close> stands for \<^verbatim>\<open>_hs_replace_history_data\<close>.\<close>

datatype hist_op = Add uintmax cstring | Stamp cstring | Replace int cstring "nat option" | Append int cstring
  | Data int "nat option" "nat option" | Remove int | Remove_range int int | Stifle int | Unstifle | Clear

definition run_op :: "hist_op \<Rightarrow> hist \<Rightarrow> hist option" where
  "run_op x h = (case x of
       Add t l \<Rightarrow> add_history t (Some l) h
     | Stamp s \<Rightarrow> add_history_time (Some s) h
     | Replace i l d \<Rightarrow> map_option snd (replace_history_entry i l d h)
     | Append i l \<Rightarrow> hs_append_history_line i l h
     | Data i old new \<Rightarrow> hs_replace_history_data i old new h
     | Remove i \<Rightarrow> map_option snd (remove_history i h)
     | Remove_range i j \<Rightarrow> map_option snd (remove_history_range i j h)
     | Stifle m \<Rightarrow> stifle_history m h
     | Unstifle \<Rightarrow> Some (snd (unstifle_history h))
     | Clear \<Rightarrow> clear_history h)"

fun run_ops :: "hist_op list \<Rightarrow> hist \<Rightarrow> hist option" where
  "run_ops [] h = Some h"
| "run_ops (x # xs) h = run_op x h \<bind> run_ops xs"

text \<open>The entry that a line entered at time \<open>t\<close> gets; \<open>c\<close> is the comment character.\<close>

definition fresh :: "char \<Rightarrow> uintmax \<Rightarrow> cstring \<Rightarrow> HIST_ENTRY" where
  "fresh c t l = \<lparr>he_line = Some l, he_timestamp = Some (c # uitos t @ [NUL]), he_data = None\<rparr>"

definition within :: "int \<Rightarrow> HIST_ENTRY list \<Rightarrow> bool" where
  "within i es \<longleftrightarrow> 0 \<le> i \<and> nat i < length es"

definition set_data :: "nat option \<Rightarrow> nat option \<Rightarrow> HIST_ENTRY \<Rightarrow> HIST_ENTRY" where
  "set_data old new e = (if he_data e = old then e\<lparr>he_data := new\<rparr> else e)"

text \<open>The entry with data \<open>old\<close> that is the newest, or the number of entries.\<close>

definition newest :: "nat option \<Rightarrow> HIST_ENTRY list \<Rightarrow> nat" where
  "newest old es = (case find (\<lambda>i. he_data (es ! i) = old) (rev [0..<length es]) of None \<Rightarrow> length es | Some i \<Rightarrow> i)"

text \<open>Entering a line in a list bounded by \<open>m\<close>: the oldest entries beyond the bound go, and the base, an \<^verbatim>\<open>int\<close>, moves with them.\<close>

definition add_spec :: "HIST_ENTRY \<Rightarrow> hist_view \<Rightarrow> hist_view" where
  "add_spec e v =
     (case hv_limit v of
        None \<Rightarrow> v\<lparr>hv_entries := hv_entries v @ [e]\<rparr>
      | Some m \<Rightarrow>
          if m = 0 then v
          else let es = hv_entries v @ [e]; d = length es - nat m
               in v\<lparr>hv_entries := drop d es, hv_base := (if d = 0 then hv_base v else wrap32 (hv_base v + int d))\<rparr>)"

text \<open>What each operation does; \<open>None\<close> when its index must be valid and is not.\<close>

definition spec_op :: "char \<Rightarrow> hist_op \<Rightarrow> hist_view \<Rightarrow> hist_view option" where
  "spec_op c x v = (let es = hv_entries v in case x of
       Add t l \<Rightarrow> Some (add_spec (fresh c t l) v)
     | Stamp s \<Rightarrow> Some (v\<lparr>hv_entries := es[length es - 1 := (last es)\<lparr>he_timestamp := Some (s @ [NUL])\<rparr>]\<rparr>)
     | Replace i l d \<Rightarrow> Some (if within i es
         then v\<lparr>hv_entries := es[nat i := \<lparr>he_line = Some l, he_timestamp = map_option savestring_buf (he_timestamp (es ! nat i)),
                                           he_data = d\<rparr>]\<rparr> else v)
     | Append i l \<Rightarrow> if within i es
         then Some (v\<lparr>hv_entries := es[nat i := (es ! nat i)\<lparr>he_line := Some (the (he_line (es ! nat i)) @ NEWLINE # l)\<rparr>]\<rparr>)
         else None
     | Data i old new \<Rightarrow> Some (v\<lparr>hv_entries :=
         (if i = - 1 then map (set_data old new) es
          else let k = (if i = - 2 then newest old es else if 0 \<le> i then nat i else length es)
               in es[k := set_data old new (es ! k)])\<rparr>)
     | Remove i \<Rightarrow> Some (if within i es then v\<lparr>hv_entries := take (nat i) es @ drop (nat i + 1) es\<rparr> else v)
     | Remove_range i j \<Rightarrow> Some (if within i es \<and> within j es \<and> i \<le> j
         then v\<lparr>hv_entries := take (nat i) es @ drop (nat j + 1) es\<rparr> else v)
     | Stifle m \<Rightarrow> (let d = length es - nat m in
         Some (v\<lparr>hv_entries := drop d es, hv_base := (if d = 0 then hv_base v else int d), hv_limit := Some (max 0 m)\<rparr>))
     | Unstifle \<Rightarrow> Some (v\<lparr>hv_limit := None\<rparr>)
     | Clear \<Rightarrow> Some (v\<lparr>hv_entries := [], hv_base := 1\<rparr>))"

fun spec_ops :: "char \<Rightarrow> hist_op list \<Rightarrow> hist_view \<Rightarrow> hist_view option" where
  "spec_ops c [] v = Some v"
| "spec_ops c (x # xs) v = spec_op c x v \<bind> spec_ops c xs"

section \<open>Entering a line\<close>

lemma update_apart: "b \<in> set as \<Longrightarrow> a \<notin> set as \<Longrightarrow> xs[a := v] ! b = xs ! b"
  by (metis nth_list_update_neq)

definition pointers :: "nat list \<Rightarrow> slot list" where
  "pointers as = map (\<lambda>a. Slot (Some a)) as"

lemma pointers_simps [simp]: "length (pointers as) = length as" "pointers [] = []" "pointers (a # as) = Slot (Some a) # pointers as"
  "pointers (as @ bs) = pointers as @ pointers bs" "take n (pointers as) = pointers (take n as)" "drop n (pointers as) = pointers (drop n as)"
  by (simp_all add: pointers_def take_map drop_map)

lemma rep_pointers:
  "rep h as \<longleftrightarrow> history_length h = int (length as) \<and> distinct as
     \<and> (\<forall>a \<in> set as. a < length (hi_store h) \<and> (\<exists>e. hi_store h ! a = Some e \<and> entry_ok e))
     \<and> (history_stifled h \<longrightarrow> int (length as) \<le> history_max_entries h)
     \<and> (case the_history h of
          None \<Rightarrow> as = [] \<and> history_size h = 0
        | Some b \<Rightarrow> history_size h = int (length b) \<and> (\<exists>stale. b = pointers as @ Slot None # stale))"
  by (auto simp: rep_def pointers_def entry_at_def split: if_splits option.splits)

lemma set_slot_append:
  assumes "the_history h = Some (xs @ y # ys)" "i = int (length xs)"
  shows "set_slot i p h = Some (h\<lparr>the_history := Some (xs @ Slot p # ys)\<rparr>)"
  using assms by (simp add: set_slot_def)

lemma put_entry_rep:
  assumes b: "the_history h = Some (pointers as @ y # z # rest)" and n: "n = int (length as) + 1"
    and size: "history_size h = int (length as) + 2 + int (length rest)" and d: "distinct as"
    and ok: "\<forall>a \<in> set as. a < length (hi_store h) \<and> (\<exists>e. hi_store h ! a = Some e \<and> entry_ok e)"
    and lim: "history_stifled h \<longrightarrow> n \<le> history_max_entries h"
  shows "\<exists>h'. put_entry t (Some l) n h = Some h' \<and> rep h' (as @ [length (hi_store h)])
    \<and> hist_entries h' = map (\<lambda>a. the (hi_store h ! a)) as @ [fresh (history_comment_char h) t l]
    \<and> history_base h' = history_base h \<and> history_stifled h' = history_stifled h
    \<and> history_max_entries h' = history_max_entries h \<and> history_comment_char h' = history_comment_char h"
proof -
  define e where "e = fresh (history_comment_char h) t l"
  define h' where "h' = h\<lparr>hi_store := hi_store h @ [Some e],
    the_history := Some (pointers (as @ [length (hi_store h)]) @ Slot None # rest), history_length := n\<rparr>"
  have "put_entry t (Some l) n h = Some h'"
    using b n by (simp add: put_entry_def alloc_history_entry_def hist_inittime_def h'_def e_def fresh_def
        set_slot_append [where xs = "pointers as @ [y]"] set_slot_append [where xs = "pointers as"])
  moreover have "length (hi_store h) \<notin> set as" using ok by auto
  moreover have "entry_ok e" by (simp add: e_def fresh_def entry_ok_def)
  ultimately have "rep h' (as @ [length (hi_store h)])"
    using n size d ok lim by (auto simp: rep_pointers h'_def nth_append)
  moreover have "hist_entries h' = map (\<lambda>a. the (hi_store h ! a)) as @ [e]"
    using rep_entries [OF calculation] ok by (simp add: h'_def nth_append)
  ultimately show ?thesis using \<open>put_entry t (Some l) n h = Some h'\<close> by (simp add: h'_def e_def)
qed

lemma make_room_rep:
  assumes "rep h as"
  shows "\<exists>y z rest. make_room h = (int (length as) + 1,
    h\<lparr>history_size := int (length as) + 2 + int (length rest), the_history := Some (pointers as @ y # z # rest)\<rparr>)"
proof (cases "the_history h")
  case None
  then have z: "as = []" "history_size h = 0" using assms by (simp_all add: rep_pointers)
  have "2 \<le> initial_size h"
    by (simp add: initial_size_def DEFAULT_HISTORY_INITIAL_SIZE_def MAX_HISTORY_INITIAL_SIZE_def)
  then obtain k where "initial_size h = int k + 2" using zle_iff_zadd [of 2 "initial_size h"] by (auto simp: add.commute)
  then show ?thesis using z
    by (intro exI [of _ Unwritten] exI [of _ "replicate k Unwritten"]) (simp add: make_room_def Let_def nat_add_distrib)
next
  case (Some b)
  then obtain stale where b: "b = pointers as @ Slot None # stale" "history_size h = int (length b)" "history_length h = int (length as)"
    using assms by (auto simp: rep_pointers)
  show ?thesis
  proof (cases stale)
    case Nil
    then show ?thesis using b Some
      by (intro exI [of _ "Slot None"] exI [of _ Unwritten] exI [of _ "replicate 49 Unwritten"])
        (simp add: make_room_def DEFAULT_HISTORY_GROW_SIZE_def numeral_eq_Suc)
  next
    case (Cons z rest)
    then have "make_room h = (int (length as) + 1, h)" using b by (auto simp: make_room_def)
    moreover have "h\<lparr>history_size := int (length as) + 2 + int (length rest), the_history := Some (pointers as @ Slot None # z # rest)\<rparr> = h"
      using b Some Cons by simp
    ultimately show ?thesis by (metis (no_types))
  qed
qed

lemma view_eq:
  "view h = v \<longleftrightarrow> hist_entries h = hv_entries v \<and> history_base h = hv_base v
     \<and> (if history_stifled h then Some (history_max_entries h) else None) = hv_limit v"
  by (cases v) (auto simp: view_def)

lemma add_spec_full:
  assumes "hv_limit v = Some (int (length (hv_entries v)))" "hv_entries v \<noteq> []"
  shows "add_spec e v = v\<lparr>hv_entries := tl (hv_entries v) @ [e], hv_base := wrap32 (hv_base v + 1)\<rparr>"
  using assms by (cases "hv_entries v") (simp_all add: add_spec_def Let_def nat_add_distrib)

lemma add_spec_room:
  assumes "\<forall>m. hv_limit v = Some m \<longrightarrow> int (length (hv_entries v)) < m"
  shows "add_spec e v = v\<lparr>hv_entries := hv_entries v @ [e]\<rparr>"
  using assms by (auto simp: add_spec_def Let_def split: option.splits)

lemma add_history_ok:
  assumes r: "rep h as"
  shows "\<exists>h' as'. add_history t (Some l) h = Some h' \<and> rep h' as' \<and> history_comment_char h' = history_comment_char h
    \<and> view h' = add_spec (fresh (history_comment_char h) t l) (view h)"
proof (cases "history_stifled h \<and> history_length h = history_max_entries h")
  case full: True
  show ?thesis
  proof (cases as)
    case Nil
    then have "history_length h = 0" "hist_entries h = []" using r rep_entries [OF r] by (auto simp: rep_def)
    then show ?thesis using full r by (auto simp: add_history_def add_spec_def view_def)
  next
    case (Cons a as0)
    obtain stale where b: "the_history h = Some (Slot (Some a) # pointers as0 @ Slot None # stale)"
      and len: "history_length h = int (length as0) + 1" and size: "history_size h = int (length as0) + 2 + int (length stale)"
      using r Cons by (auto simp: rep_pointers split: option.splits)
    define h1 where "h1 = h\<lparr>hi_store := (hi_store h)[a := None],
      the_history := Some (pointers as0 @ Slot None # Slot None # stale), history_base := wrap32 (history_base h + 1)\<rparr>"
    have st: "a < length (hi_store h)" "\<exists>e. hi_store h ! a = Some e" using rep_store [OF r, of a] Cons by auto
    then have "drop_first h = Some (int (length as0) + 1, h1)"
      using b len slot_at_rep [OF r, of 0] Cons
      by (auto simp: drop_first_def free_history_entry_def entry_at_def move_slots_def h1_def nat_add_distrib)
    then have run: "add_history t (Some l) h = put_entry t (Some l) (int (length as0) + 1) h1"
      using full len by (simp add: add_history_def)
    have d: "distinct as0" "a \<notin> set as0" and ok: "\<forall>b \<in> set as0. b < length (hi_store h) \<and> (\<exists>e. hi_store h ! b = Some e \<and> entry_ok e)"
      using r Cons by (auto simp: rep_pointers)
    have "\<forall>b \<in> set as0. b < length (hi_store h1) \<and> (\<exists>e. hi_store h1 ! b = Some e \<and> entry_ok e)"
      using ok by (simp add: h1_def update_apart [OF _ d(2)])
    from put_entry_rep [OF _ refl _ d(1) this, of "Slot None" "Slot None" stale t l] full len size
    obtain h' where h': "put_entry t (Some l) (int (length as0) + 1) h1 = Some h'" "rep h' (as0 @ [length (hi_store h1)])"
      "hist_entries h' = map (\<lambda>a. the (hi_store h1 ! a)) as0 @ [fresh (history_comment_char h1) t l]"
      "history_base h' = history_base h1" "history_stifled h' = history_stifled h1" "history_max_entries h' = history_max_entries h1"
      "history_comment_char h' = history_comment_char h1"
      by (auto simp: h1_def)
    have "map (\<lambda>a. the (hi_store h1 ! a)) as0 = tl (hist_entries h)"
      using Cons rep_entries [OF r] by (simp add: h1_def update_apart [OF _ d(2)])
    moreover have "hist_entries h \<noteq> []" "int (length (hist_entries h)) = history_max_entries h"
      using rep_length [OF r] Cons full len by auto
    ultimately have "view h' = add_spec (fresh (history_comment_char h) t l) (view h)"
      using h'(3-7) full by (subst add_spec_full) (simp_all add: view_def h1_def)
    with h' run show ?thesis by (auto simp: h1_def)
  qed
next
  case False
  obtain y z rest where m: "make_room h = (int (length as) + 1,
    h\<lparr>history_size := int (length as) + 2 + int (length rest), the_history := Some (pointers as @ y # z # rest)\<rparr>)" (is "_ = (_, ?h1)")
    using make_room_rep [OF r] by blast
  have ok: "distinct as" "\<forall>a \<in> set as. a < length (hi_store h) \<and> (\<exists>e. hi_store h ! a = Some e \<and> entry_ok e)"
    and lim: "history_stifled h \<longrightarrow> int (length as) + 1 \<le> history_max_entries h"
    using r False by (auto simp: rep_pointers)
  from put_entry_rep [of ?h1, OF _ refl _ ok(1), of y z rest t l] ok(2) lim
  obtain h' where h': "put_entry t (Some l) (int (length as) + 1) ?h1 = Some h'" "rep h' (as @ [length (hi_store h)])"
    "hist_entries h' = map (\<lambda>a. the (hi_store h ! a)) as @ [fresh (history_comment_char h) t l]"
    "history_base h' = history_base h" "history_stifled h' = history_stifled h" "history_max_entries h' = history_max_entries h"
    "history_comment_char h' = history_comment_char h"
    by auto
  have "view h' = add_spec (fresh (history_comment_char h) t l) (view h)"
    using h' lim rep_entries [OF r] by (subst add_spec_room) (auto simp: view_def)
  with h' m False show ?thesis by (auto simp: add_history_def)
qed

section \<open>Changing entries\<close>

text \<open>An operation on \<open>h\<close> has the outcome \<open>r\<close>, which represents what its specification \<open>w\<close> says.\<close>

definition gives :: "hist \<Rightarrow> hist option \<Rightarrow> hist_view option \<Rightarrow> bool" where
  "gives h r w \<longleftrightarrow> (\<forall>v. w = Some v \<longrightarrow>
     (\<exists>h' as. r = Some h' \<and> rep h' as \<and> history_comment_char h' = history_comment_char h \<and> view h' = v))"

lemma view_simps [simp]: "hv_entries (view h) = hist_entries h" "hv_base (view h) = history_base h"
  "hv_limit (view h) = (if history_stifled h then Some (history_max_entries h) else None)"
  by (simp_all add: view_def)

lemma gives_same: "rep h as \<Longrightarrow> gives h (Some h) (Some (view h))"
  by (auto simp: gives_def)

lemma rep_new_store:
  assumes "rep h as" "\<forall>a \<in> set as. a < length st \<and> (\<exists>e. st ! a = Some e \<and> entry_ok e)"
  shows "rep (h\<lparr>hi_store := st\<rparr>) as"
  using assms by (cases "the_history h") (auto simp: rep_pointers)

lemma set_entry_rep:
  assumes r: "rep h as" and i: "i < length as" and ok: "entry_ok (f (hist_entries h ! i))"
  defines "h' \<equiv> h\<lparr>hi_store := (hi_store h)[as ! i := Some (f (hist_entries h ! i))]\<rparr>"
  shows "set_entry (Some (as ! i)) f h = Some h'" "rep h' as"
    "hist_entries h' = (hist_entries h)[i := f (hist_entries h ! i)]"
proof -
  show "set_entry (Some (as ! i)) f h = Some h'"
    using entry_at_rep(1) [OF r i] by (simp add: set_entry_def h'_def)
  have a: "as ! i < length (hi_store h)" "distinct as" using rep_store(1) [OF r] r i by (auto simp: rep_def)
  show r': "rep h' as" unfolding h'_def using rep_store [OF r] a(1) ok by (intro rep_new_store [OF r]) (auto simp: nth_list_update)
  have "hist_entries h' ! k = (hist_entries h)[i := f (hist_entries h ! i)] ! k" if "k < length as" for k
    using that i a rep_entries [OF r'] rep_entries [OF r]
    by (auto simp: h'_def nth_list_update nth_eq_iff_index_eq)
  then show "hist_entries h' = (hist_entries h)[i := f (hist_entries h ! i)]"
    using rep_length [OF r] rep_length [OF r'] by (auto intro: nth_equalityI)
qed

lemma gives_set_entry:
  assumes "rep h as" "i < length as" "entry_ok (f (hist_entries h ! i))"
  shows "gives h (set_entry (Some (as ! i)) f h) (Some ((view h)\<lparr>hv_entries := (hist_entries h)[i := f (hist_entries h ! i)]\<rparr>))"
  using set_entry_rep [OF assms(1,2), of f] assms(3) by (auto simp: gives_def view_def)

lemma alloc_rep:
  assumes "rep h as"
  shows "rep (h\<lparr>hi_store := hi_store h @ [x]\<rparr>) as" "hist_entries (h\<lparr>hi_store := hi_store h @ [x]\<rparr>) = hist_entries h"
proof -
  show r: "rep (h\<lparr>hi_store := hi_store h @ [x]\<rparr>) as"
    using rep_store [OF assms] by (intro rep_new_store [OF assms]) (auto simp: nth_append less_SucI)
  show "hist_entries (h\<lparr>hi_store := hi_store h @ [x]\<rparr>) = hist_entries h"
    using rep_store(1) [OF assms] by (simp add: rep_entries [OF r] rep_entries [OF assms] nth_append)
qed

lemma stamp_ok: "rep h as \<Longrightarrow> gives h (add_history_time (Some s) h) (spec_op c (Stamp s) (view h))"
proof -
  assume r: "rep h as"
  show ?thesis
  proof (cases "as = []")
    case True
    then have "add_history_time (Some s) h = Some h" "hist_entries h = []"
      using r rep_entries [OF r] by (simp_all add: add_history_time_def rep_def)
    then show ?thesis using gives_same [OF r] by (simp add: spec_op_def view_def)
  next
    case False
    let ?i = "length as - 1"
    have i: "?i < length as" "slot_at (history_length h - 1) h = Some (Some (as ! ?i))" "\<not> history_length h < 1"
      using False r slot_at_rep [OF r, of "history_length h - 1"] by (auto simp: rep_def nat_diff_distrib Suc_le_eq)
    moreover have "last (hist_entries h) = hist_entries h ! ?i"
      using False rep_length [OF r] by (metis last_conv_nth length_0_conv)
    ultimately show ?thesis
      using gives_set_entry [OF r i(1), of "\<lambda>e. e\<lparr>he_timestamp := Some (s @ [NUL])\<rparr>"] entry_at_rep(2) [OF r i(1)] rep_length [OF r]
      by (simp add: add_history_time_def spec_op_def entry_ok_def Let_def)
  qed
qed

lemma double_until_enough: "0 < n \<Longrightarrow> m \<le> double_until n m"
  by (induction n m rule: double_until.induct) (simp add: double_until.simps)

lemma append_ok: "rep h as \<Longrightarrow> gives h (hs_append_history_line i l h) (spec_op c (Append i l) (view h))"
proof -
  assume r: "rep h as"
  show ?thesis
  proof (cases "within i (hist_entries h)")
    case True
    then have i: "0 \<le> i" "nat i < length as" using rep_length [OF r] by (auto simp: within_def)
    obtain x where x: "he_line (hist_entries h ! nat i) = Some x" using entry_at_rep(2) [OF r i(2)] by (auto simp: entry_ok_def)
    have "length (x @ NEWLINE # l) + 1 \<le> append_size (length x) (length x + length l + 2)"
      using double_until_enough [of 512 "length x + length l + 2"] by (simp add: append_size_def)
    then have "hs_append_history_line i l h
      = set_entry (Some (as ! nat i)) (\<lambda>e. e\<lparr>he_line := Some (x @ NEWLINE # l)\<rparr>) h"
      using slot_at_rep [OF r i] entry_at_rep(1) [OF r i(2)] x by (simp add: hs_append_history_line_def Let_def)
    then show ?thesis
      using gives_set_entry [OF r i(2), of "\<lambda>e. e\<lparr>he_line := Some (x @ NEWLINE # l)\<rparr>"] entry_at_rep(2) [OF r i(2)] x True
      by (simp add: spec_op_def entry_ok_def Let_def)
  qed (simp add: spec_op_def gives_def Let_def)
qed

lemma replace_ok: "rep h as \<Longrightarrow> gives h (map_option snd (replace_history_entry i l d h)) (spec_op c (Replace i l d) (view h))"
proof -
  assume r: "rep h as"
  show ?thesis
  proof (cases "within i (hist_entries h)")
    case True
    then have i: "0 \<le> i" "nat i < length as" using rep_length [OF r] by (auto simp: within_def)
    define e where "e = \<lparr>he_line = Some l, he_timestamp = map_option savestring_buf (he_timestamp (hist_entries h ! nat i)), he_data = d\<rparr>"
    define n where "n = length (hi_store h)"
    obtain stale where b: "the_history h = Some (pointers as @ Slot None # stale)"
      using r i(2) by (auto simp: rep_pointers split: option.splits)
    define h' where "h' = h\<lparr>hi_store := hi_store h @ [Some e], the_history := Some (pointers (as[nat i := n]) @ Slot None # stale)\<rparr>"
    have len: "history_length h = int (length as)" "i < int (length as)" using r i by (auto simp: rep_def)
    have "replace_history_entry i l d h = Some (Some (as ! nat i), h')"
      using i len slot_at_rep [OF r i] entry_at_rep(1) [OF r i(2)] b
      by (simp add: replace_history_entry_def alloc_history_entry_def set_entry_def entry_at_def h'_def e_def n_def set_slot_def
          list_update_append pointers_def map_update split: if_splits)
    moreover have ok: "entry_ok e" using entry_at_rep(2) [OF r i(2)] by (simp add: e_def entry_ok_def)
    have fresh: "n \<notin> set as" using rep_store(1) [OF r] by (auto simp: n_def)
    then have r': "rep h' (as[nat i := n])"
      using r b ok i(2) set_update_subset_insert [of as "nat i" n]
      by (auto simp: rep_pointers h'_def nth_append n_def distinct_list_update)
    moreover have "hist_entries h' = (hist_entries h)[nat i := e]"
      using rep_entries [OF r'] rep_store(1) [OF r] by (simp add: rep_entries [OF r] map_update h'_def nth_append n_def cong: map_cong)
    ultimately show ?thesis using True
      by (auto simp: gives_def spec_op_def view_def Let_def e_def h'_def)
  next
    case False
    then have "replace_history_entry i l d h = Some (None, h)"
      using r rep_length [OF r] by (auto simp: replace_history_entry_def within_def rep_def)
    then show ?thesis using gives_same [OF r] False by (simp add: spec_op_def Let_def)
  qed
qed

section \<open>Loops over the list\<close>

lemma upto_upt: "[int k..int n - 1] = map int [k..<n]"
proof (induction "n - k" arbitrary: k)
  case 0
  then show ?case by simp
next
  case (Suc d)
  then have "[int (Suc k)..int n - 1] = map int [Suc k..<n]" "k < n" using Suc(1) [of "Suc k"] by simp_all
  then show ?case by (simp add: upto_rec1 upt_conv_Cons add.commute)
qed

lemma indices: "rep h as \<Longrightarrow> [0..history_length h - 1] = map int [0..<length as]"
  using upto_upt [of 0 "length as"] by (simp add: rep_def)

lemma data_loop_last:
  assumes r: "rep h as" and k: "k \<le> length as"
  shows "data_loop False old new (map int [k..<length as]) lst h
    = Some (case find (\<lambda>i. he_data (hist_entries h ! i) = old) (rev [k..<length as]) of None \<Rightarrow> lst | Some i \<Rightarrow> int i, h)"
  using k
proof (induction "length as - k" arbitrary: k lst)
  case 0
  then show ?case by simp
next
  case (Suc d)
  have "slot_at (int k) h = Some (Some (as ! k))" "entry_at (Some (as ! k)) h = Some (hist_entries h ! k)"
    using slot_at_rep [OF r, of "int k"] entry_at_rep(1) [OF r, of k] Suc(2) by simp_all
  moreover have "[k..<length as] = k # [Suc k..<length as]" using Suc(2) by (simp add: upt_conv_Cons)
  moreover have "find P (xs @ [y]) = (case find P xs of None \<Rightarrow> if P y then Some y else None | Some i \<Rightarrow> Some i)" for P xs and y :: nat
    by (induction xs) auto
  ultimately show ?case using Suc(1) [of "Suc k"] Suc(2) by (auto split: option.splits)
qed

lemma data_loop_every:
  assumes "rep h as" "k \<le> length as"
  shows "\<exists>l' h'. data_loop True old new (map int [k..<length as]) lst h = Some (l', h') \<and> rep h' as
    \<and> hist_entries h' = take k (hist_entries h) @ map (set_data old new) (drop k (hist_entries h))
    \<and> history_comment_char h' = history_comment_char h \<and> history_base h' = history_base h
    \<and> history_stifled h' = history_stifled h \<and> history_max_entries h' = history_max_entries h"
  using assms
proof (induction "length as - k" arbitrary: k lst h)
  case 0
  then show ?case using rep_length [OF 0(2)] by simp
next
  case (Suc d)
  let ?es = "hist_entries h" and ?f = "\<lambda>e. e\<lparr>he_data := new\<rparr>"
  define h1 where "h1 = h\<lparr>hi_store := (hi_store h)[as ! k := Some (?f (?es ! k))]\<rparr>"
  define h2 where "h2 = (if he_data (?es ! k) = old then h1 else h)"
  have k: "k < length as" "slot_at (int k) h = Some (Some (as ! k))" "entry_at (Some (as ! k)) h = Some (?es ! k)"
    using slot_at_rep [OF Suc(3), of "int k"] entry_at_rep(1) [OF Suc(3), of k] Suc(2) by simp_all
  have 1: "set_entry (Some (as ! k)) ?f h = Some h1" "rep h1 as" "hist_entries h1 = ?es[k := ?f (?es ! k)]"
    using set_entry_rep [OF Suc(3) k(1), of ?f] entry_at_rep(2) [OF Suc(3) k(1)] by (simp_all add: h1_def entry_ok_def)
  have 2: "rep h2 as" "hist_entries h2 = ?es[k := set_data old new (?es ! k)]" "d = length as - Suc k" "Suc k \<le> length as"
    using 1 Suc(2,3) k(1) by (auto simp: h2_def set_data_def)
  obtain j where "data_loop True old new (map int [k..<length as]) lst h = data_loop True old new (map int [Suc k..<length as]) j h2"
    using 1(1) k by (cases "he_data (?es ! k) = old") (auto simp: upt_conv_Cons h2_def)
  moreover have "take (Suc k) (hist_entries h2) @ map (set_data old new) (drop (Suc k) (hist_entries h2))
    = take k ?es @ map (set_data old new) (drop k ?es)"
    using k(1) rep_length [OF Suc(3)] 2(2) by (simp add: take_Suc_conv_app_nth Cons_nth_drop_Suc [symmetric])
  moreover have "history_comment_char h2 = history_comment_char h" "history_base h2 = history_base h"
    "history_stifled h2 = history_stifled h" "history_max_entries h2 = history_max_entries h" by (simp_all add: h2_def h1_def)
  ultimately show ?case using Suc(1) [OF 2(3) 2(1) 2(4), of j] by simp
qed

lemma data_ok: "rep h as \<Longrightarrow> gives h (hs_replace_history_data i old new h) (spec_op c (Data i old new) (view h))"
proof -
  assume r: "rep h as"
  let ?es = "hist_entries h" and ?f = "\<lambda>e. e\<lparr>he_data := new\<rparr>"
  have len: "history_length h = int (length as)" "length ?es = length as" using r rep_length [OF r] by (simp_all add: rep_def)
  have upd: "gives h (if he_data (?es ! k) = old then set_entry (Some (as ! k)) ?f h else Some h)
     (Some ((view h)\<lparr>hv_entries := ?es[k := set_data old new (?es ! k)]\<rparr>))" if "k < length as" for k
    using gives_set_entry [OF r that, of ?f] gives_same [OF r] entry_at_rep(2) [OF r that] len(2)
    by (simp add: set_data_def entry_ok_def view_def)
  consider "i < - 2 \<or> int (length as) \<le> i \<or> as = []" | "0 \<le> i" "nat i < length as" | "i = - 1" "as \<noteq> []" | "i = - 2" "as \<noteq> []" by linarith
  then show ?thesis
  proof cases
    case 1
    then have "(if i = - 1 then map (set_data old new) ?es
        else let k = (if i = - 2 then newest old ?es else if 0 \<le> i then nat i else length ?es) in ?es[k := set_data old new (?es ! k)]) = ?es"
      using len(2) by (auto simp: Let_def intro: list_update_beyond)
    then show ?thesis using 1 len gives_same [OF r] by (auto simp: hs_replace_history_data_def spec_op_def view_def Let_def)
  next
    case 2
    then have "the_history h \<noteq> None" using rep_some [OF r] by fastforce
    then show ?thesis using upd [OF 2(2)] slot_at_rep [OF r 2] entry_at_rep(1) [OF r 2(2)] len 2
      by (auto simp: hs_replace_history_data_def spec_op_def Let_def)
  next
    case 3
    obtain l' h' where l: "data_loop True old new (map int [0..<length as]) (- 1) h = Some (l', h')" and h': "rep h' as"
      "hist_entries h' = map (set_data old new) ?es" "history_comment_char h' = history_comment_char h" "history_base h' = history_base h"
      "history_stifled h' = history_stifled h" "history_max_entries h' = history_max_entries h"
      using data_loop_every [OF r, of 0 old new "- 1"] by (auto simp: atLeast0LessThan)
    have "hs_replace_history_data i old new h = Some h'"
      using 3 l len rep_some [OF r] indices [OF r] by (auto simp: hs_replace_history_data_def)
    moreover have "view h' = (view h)\<lparr>hv_entries := map (set_data old new) ?es\<rparr>" using h' by (simp add: view_def)
    ultimately show ?thesis using 3(1) h'(1,3) by (auto simp: spec_op_def Let_def gives_def)
  next
    case 4
    let ?m = "find (\<lambda>i. he_data (?es ! i) = old) (rev [0..<length as])"
    have h: "hs_replace_history_data i old new h
      = (case ?m of None \<Rightarrow> Some h | Some k \<Rightarrow> slot_at (int k) h \<bind> (\<lambda>p. set_entry p ?f h))"
      using 4 len rep_some [OF r] data_loop_last [OF r, of 0 old new "- 1"] indices [OF r]
      by (auto simp: hs_replace_history_data_def split: option.splits)
    show ?thesis
    proof (cases ?m)
      case None
      then show ?thesis using h gives_same [OF r] len(2) 4
        by (simp add: spec_op_def newest_def Let_def view_def list_update_beyond)
    next
      case (Some k)
      then have k: "k < length as" "he_data (?es ! k) = old" by (auto simp: find_Some_iff rev_nth)
      then show ?thesis using h Some upd [OF k(1)] slot_at_rep [OF r, of "int k"] len(2) 4
        by (simp add: spec_op_def newest_def Let_def)
    qed
  qed
qed

section \<open>Removing entries\<close>

lemma remove_part:
  assumes r: "rep h (xs @ ys @ zs)" and ne: "ys \<noteq> []"
  shows "\<exists>h1. move_slots (int (length xs)) (int (length xs + length ys)) (int (length zs) + 1) h = Some h1
    \<and> rep (h1\<lparr>history_length := int (length xs + length zs)\<rparr>) (xs @ zs)
    \<and> hist_entries (h1\<lparr>history_length := int (length xs + length zs)\<rparr>)
      = take (length xs) (hist_entries h) @ drop (length xs + length ys) (hist_entries h)
    \<and> (\<exists>b. h1 = h\<lparr>the_history := b\<rparr>)"
proof -
  obtain stale where b: "the_history h = Some (pointers (xs @ ys @ zs) @ Slot None # stale)"
    and size: "history_size h = int (length xs + length ys + length zs + 1 + length stale)"
    using r ne by (auto simp: rep_pointers split: option.splits)
  define stale' where "stale' = drop (length xs + length zs + 1) (pointers (xs @ ys @ zs) @ Slot None # stale)"
  define h1 where "h1 = h\<lparr>the_history := Some (pointers (xs @ zs) @ Slot None # stale')\<rparr>"
  have "move_slots (int (length xs)) (int (length xs + length ys)) (int (length zs) + 1) h = Some h1"
    using b ne by (auto simp: move_slots_def h1_def stale'_def nat_add_distrib Suc_le_eq simp flip: of_nat_add)
  moreover have r': "rep (h1\<lparr>history_length := int (length xs + length zs)\<rparr>) (xs @ zs)"
    using r size ne by (auto simp: rep_pointers h1_def stale'_def)
  moreover have "hist_entries (h1\<lparr>history_length := int (length xs + length zs)\<rparr>)
      = take (length xs) (hist_entries h) @ drop (length xs + length ys) (hist_entries h)"
    using rep_entries [OF r] rep_entries [OF r'] by (simp add: h1_def)
  ultimately show ?thesis by (auto simp: h1_def)
qed

lemma split_range:
  assumes "i \<le> j" "j < length as"
  obtains xs ys zs where "as = xs @ ys @ zs" "length xs = i" "length ys = j - i + 1" "length zs + j + 1 = length as"
proof -
  have "take i (take (j + 1) as) @ drop i (take (j + 1) as) @ drop (j + 1) as = as"
    by (metis append_take_drop_id append_assoc)
  then show thesis
    using assms by (intro that [of "take i (take (j + 1) as)" "drop i (take (j + 1) as)" "drop (j + 1) as"]) auto
qed

lemma remove_range_ok: "rep h as \<Longrightarrow> gives h (map_option snd (remove_history_range i j h)) (spec_op c (Remove_range i j) (view h))"
proof -
  assume r: "rep h as"
  have len: "history_length h = int (length as)" "length (hist_entries h) = length as" using r rep_length [OF r] by (simp_all add: rep_def)
  show ?thesis
  proof (cases "within i (hist_entries h) \<and> within j (hist_entries h) \<and> i \<le> j")
    case True
    then have ij: "0 \<le> i" "i \<le> j" "nat i \<le> nat j" "nat j < length as" using len by (auto simp: within_def)
    from split_range [OF ij(3,4)] obtain xs ys zs where s: "as = xs @ ys @ zs" "length xs = nat i"
      "length ys = nat j - nat i + 1" "length zs + nat j + 1 = length as" .
    have n: "int (length xs) = i" "int (length xs + length ys) = j + 1" "int (length zs) + 1 = int (length as) - j" "ys \<noteq> []"
      "length xs + length ys = nat j + 1" "int (length as) - (j - i + 1) = int (length xs + length zs)"
      using s ij by (auto simp: nat_le_eq_zle)
    obtain ps where ps: "slots_at [i..j] h = Some ps"
    proof -
      have "\<forall>k \<in> set ks. 0 \<le> k \<and> k \<le> j \<Longrightarrow> \<exists>ps. slots_at ks h = Some ps" for ks
        using slot_at_rep [OF r] ij by (induction ks) auto
      then show ?thesis using that ij by (metis atLeastAtMost_iff order.trans set_upto)
    qed
    note part = remove_part [of h xs ys zs, folded s(1), OF r n(4)]
    note part [unfolded n(2), unfolded n(3), folded n(6), unfolded n(1), unfolded n(5), unfolded s(2)]
    then obtain h1 where h1:
      "move_slots i (j + 1) (int (length as) - j) h = Some h1" "rep (h1\<lparr>history_length := int (length as) - (j - i + 1)\<rparr>) (xs @ zs)"
      "hist_entries (h1\<lparr>history_length := int (length as) - (j - i + 1)\<rparr>) = take (nat i) (hist_entries h) @ drop (nat j + 1) (hist_entries h)"
      "\<exists>b. h1 = h\<lparr>the_history := b\<rparr>" by blast
    have some: "the_history h \<noteq> None" "as \<noteq> []" using rep_some [OF r] ij(4) by (cases as; force)+
    have "remove_history_range i j h = Some (Some ps, h1\<lparr>history_length := int (length as) - (j - i + 1)\<rparr>)"
      using ij len ps h1(1,4) some by (auto simp: remove_history_range_def)
    then show ?thesis using True h1(2-4) by (auto simp: gives_def spec_op_def Let_def view_def)
  next
    case False
    then have "remove_history_range i j h = Some (None, h)" using len by (auto simp: remove_history_range_def within_def)
    then show ?thesis using gives_same [OF r] False by (auto simp: spec_op_def Let_def)
  qed
qed

lemma remove_ok: "rep h as \<Longrightarrow> gives h (map_option snd (remove_history i h)) (spec_op c (Remove i) (view h))"
proof -
  assume r: "rep h as"
  have "map_option snd (remove_history i h) = map_option snd (remove_history_range i i h)"
    by (auto simp: remove_history_def remove_history_range_def upto_rec1 Option.bind_map_option map_option_bind o_def)
  moreover have "spec_op c (Remove i) (view h) = spec_op c (Remove_range i i) (view h)" by (simp add: spec_op_def)
  ultimately show ?thesis using remove_range_ok [OF r] by simp
qed

section \<open>Stifling and clearing\<close>

definition kill :: "nat list \<Rightarrow> HIST_ENTRY option list \<Rightarrow> HIST_ENTRY option list" where
  "kill as st = fold (\<lambda>a s. s[a := None]) as st"

lemma kill_simps [simp]: "kill [] st = st" "kill (a # as) st = kill as (st[a := None])" "length (kill as st) = length st"
proof -
  show "length (kill as st) = length st" unfolding kill_def by (induction as arbitrary: st) simp_all
qed (simp_all add: kill_def)

lemma kill_other: "b \<notin> set as \<Longrightarrow> kill as st ! b = st ! b"
  by (induction as arbitrary: st) auto

text \<open>A slot whose entry is alive is freed.\<close>

lemma free_step:
  assumes "the_history h = Some (xs @ Slot (Some a) # ys)" "a < length (hi_store h)" "hi_store h ! a \<noteq> None"
  shows "slot_at (int (length xs)) h = Some (Some a)"
    "\<exists>d. free_history_entry (Some a) h = Some (d, h\<lparr>hi_store := (hi_store h)[a := None]\<rparr>)"
  using assms by (auto simp: slot_at_def free_history_entry_def entry_at_def)

lemma upt_step: "[k..<Suc (k + n)] = k # [Suc k..<Suc (k + n)]"
  by (simp add: upt_conv_Cons del: upt_Suc)

lemma free_slots_run:
  assumes "the_history h = Some (xs @ pointers as @ ys)" "distinct as"
    "\<forall>a \<in> set as. a < length (hi_store h) \<and> hi_store h ! a \<noteq> None"
  shows "free_slots (map int [length xs..<length xs + length as]) h = Some (h\<lparr>hi_store := kill as (hi_store h)\<rparr>)"
  using assms
proof (induction as arbitrary: xs h)
  case (Cons a as)
  let ?h = "h\<lparr>hi_store := (hi_store h)[a := None]\<rparr>"
  have "free_slots (map int [length (xs @ [Slot (Some a)])..<length (xs @ [Slot (Some a)]) + length as]) ?h
    = Some (?h\<lparr>hi_store := kill as (hi_store ?h)\<rparr>)"
    using Cons(2-4) by (intro Cons(1)) (auto simp: nth_list_update)
  then show ?case using free_step [of h xs a "pointers as @ ys"] Cons(2,4) by (auto simp: upt_step simp del: upt_Suc)
qed simp

lemma clear_slots_run:
  assumes "the_history h = Some (xs @ pointers as @ ys)" "distinct as"
    "\<forall>a \<in> set as. a < length (hi_store h) \<and> hi_store h ! a \<noteq> None"
  shows "clear_slots (map int [length xs..<length xs + length as]) h
    = Some (h\<lparr>hi_store := kill as (hi_store h), the_history := Some (xs @ replicate (length as) (Slot None) @ ys)\<rparr>)"
  using assms
proof (induction as arbitrary: xs h)
  case (Cons a as)
  let ?h = "h\<lparr>hi_store := (hi_store h)[a := None], the_history := Some (xs @ Slot None # pointers as @ ys)\<rparr>"
  have "clear_slots (map int [length (xs @ [Slot None])..<length (xs @ [Slot None]) + length as]) ?h
    = Some (?h\<lparr>hi_store := kill as (hi_store ?h), the_history := Some ((xs @ [Slot None]) @ replicate (length as) (Slot None) @ ys)\<rparr>)"
    using Cons(2-4) by (intro Cons(1)) (auto simp: nth_list_update)
  moreover have "set_slot (int (length xs)) None (h\<lparr>hi_store := (hi_store h)[a := None]\<rparr>) = Some ?h"
    using Cons(2) by (simp add: set_slot_append)
  ultimately show ?case using free_step [of h xs a "pointers as @ ys"] Cons(2,4) by (auto simp: upt_step simp del: upt_Suc)
qed simp

lemma shift_slots_run:
  assumes "the_history h = Some (xs @ ds @ pointers as @ ys)" "length ds = d" "0 < d"
  shows "\<exists>zs. shift_slots (int d) (map int [length xs..<length xs + length as]) h
    = Some (h\<lparr>the_history := Some (xs @ pointers as @ zs)\<rparr>) \<and> length zs = d + length ys"
  using assms
proof (induction as arbitrary: xs ds h)
  case (Cons a as)
  obtain d0 ds0 where ds: "ds = d0 # ds0" using Cons(3,4) by (cases ds) auto
  let ?h = "h\<lparr>the_history := Some ((xs @ [Slot (Some a)]) @ (ds0 @ [Slot (Some a)]) @ pointers as @ ys)\<rparr>"
  obtain zs where zs: "shift_slots (int d) (map int [length (xs @ [Slot (Some a)])..<length (xs @ [Slot (Some a)]) + length as]) ?h
    = Some (?h\<lparr>the_history := Some ((xs @ [Slot (Some a)]) @ pointers as @ zs)\<rparr>)" "length zs = d + length ys"
    using Cons(1) [of ?h "xs @ [Slot (Some a)]" "ds0 @ [Slot (Some a)]"] Cons(3,4) ds by auto
  have "slot_at (int (length xs) + int d) h = Some (Some a)"
    using Cons(2,3) by (auto simp: slot_at_def nth_append nat_add_distrib simp flip: of_nat_add)
  moreover have "set_slot (int (length xs)) (Some a) h = Some ?h"
    using Cons(2) ds by (simp add: set_slot_append)
  ultimately show ?case using zs by (auto simp: upt_step simp del: upt_Suc)
next
  case Nil
  then show ?case by (intro exI [of _ "ds @ ys"]) simp
qed

lemma alive: "rep h as \<Longrightarrow> \<forall>a \<in> set as. a < length (hi_store h) \<and> hi_store h ! a \<noteq> None"
  using rep_store by fastforce

lemma clear_ok: "rep h as \<Longrightarrow> gives h (clear_history h) (spec_op c Clear (view h))"
proof -
  assume r: "rep h as"
  show ?thesis
  proof (cases "the_history h")
    case None
    then have "as = []" "history_length h = 0" using r by (auto simp: rep_pointers)
    then have "clear_history h = Some (h\<lparr>history_offset := 0, history_length := 0, history_base := 1\<rparr>)" (is "_ = Some ?h'")
      by (simp add: clear_history_def)
    moreover have "rep ?h' []" using r None by (auto simp: rep_pointers)
    moreover have "view ?h' = (view h)\<lparr>hv_entries := [], hv_base := 1\<rparr>" using rep_entries [OF calculation(2)] by (simp add: view_def)
    ultimately show ?thesis by (auto simp: gives_def spec_op_def)
  next
    case (Some b)
    then obtain stale where b: "the_history h = Some ([] @ pointers as @ Slot None # stale)" and d: "distinct as"
      and size: "history_size h = int (length as + 1 + length stale)" using r by (auto simp: rep_pointers)
    obtain st' where c: "replicate (length as) (Slot None) @ Slot None # stale = Slot None # st'" "length st' = length as + length stale"
      by (cases as) (auto simp: replicate_append_same)
    define h' where "h' = h\<lparr>hi_store := kill as (hi_store h), the_history := Some (Slot None # st'),
      history_offset := 0, history_length := 0, history_base := 1\<rparr>"
    have "clear_history h = Some h'"
      using clear_slots_run [OF b d alive [OF r]] c(1) indices [OF r] by (simp add: clear_history_def h'_def)
    moreover have "rep h' []" using r b size c(2) by (auto simp: rep_pointers h'_def)
    moreover have "view h' = (view h)\<lparr>hv_entries := [], hv_base := 1\<rparr>" using rep_entries [OF calculation(2)] by (simp add: view_def h'_def)
    ultimately show ?thesis by (auto simp: gives_def spec_op_def h'_def)
  qed
qed

lemma stifle_ok: "rep h as \<Longrightarrow> gives h (stifle_history m h) (spec_op c (Stifle m) (view h))"
proof -
  assume r: "rep h as"
  define n where "n = (if m < 0 then 0 else m)"
  have n: "0 \<le> n" "nat n = nat m" "max 0 m = n" by (auto simp: n_def)
  have len: "history_length h = int (length as)" "length (hist_entries h) = length as" using r rep_length [OF r] by (simp_all add: rep_def)
  show ?thesis
  proof (cases "int (length as) > n")
    case False
    let ?h' = "h\<lparr>history_stifled := True, max_input_history := n, history_max_entries := n\<rparr>"
    have "stifle_history m h = Some ?h'" using False len(1) by (simp add: stifle_history_def n_def)
    moreover have r': "rep ?h' as" using r False by (cases "the_history h") (auto simp: rep_pointers)
    moreover have "view ?h' = (view h)\<lparr>hv_limit := Some n\<rparr>" using rep_entries [OF r'] rep_entries [OF r] by (simp add: view_def)
    ultimately show ?thesis using False len(2) n by (auto simp: gives_def spec_op_def Let_def)
  next
    case True
    define d where "d = length as - nat n"
    have d: "0 < d" "int d = int (length as) - n" "d + nat n = length as" using True n(1) by (auto simp: d_def)
    define xs where "xs = take d as"
    define ys where "ys = drop d as"
    have xy: "as = xs @ ys" "length xs = d" "length ys = nat n" using d by (simp_all add: xs_def ys_def)
    have dis: "distinct xs" "distinct ys" "set xs \<inter> set ys = {}" using r xy(1) by (auto simp: rep_def)
    obtain stale where b: "the_history h = Some ([] @ pointers xs @ pointers ys @ Slot None # stale)"
      and size: "history_size h = int (length as + 1 + length stale)"
      using r xy d(1) by (auto simp: rep_pointers split: option.splits)
    define h1 where "h1 = h\<lparr>hi_store := kill xs (hi_store h)\<rparr>"
    have f: "free_slots [0..int d - 1] h = Some h1"
      using free_slots_run [OF b dis(1)] alive [OF r] xy upto_upt [of 0 d] by (auto simp: h1_def)
    obtain zs where s: "shift_slots (int d) [0..n - 1] (h1\<lparr>history_base := int d\<rparr>)
      = Some (h1\<lparr>history_base := int d, the_history := Some (pointers ys @ zs)\<rparr>)" "length zs = d + 1 + length stale"
      using shift_slots_run [of "h1\<lparr>history_base := int d\<rparr>" "[]" "pointers xs" ys "Slot None # stale" d] b xy d(1) upto_upt [of 0 "nat n"] n(1)
      by (auto simp: h1_def)
    obtain z0 stale' where z: "zs = z0 # stale'" "length stale' = d + length stale" using s(2) by (cases zs) auto
    define h' where "h' = h1\<lparr>history_base := int d, the_history := Some (pointers ys @ Slot None # stale'), history_length := n,
      history_stifled := True, max_input_history := n, history_max_entries := n\<rparr>"
    have "stifle_history m h = Some h'"
      using True len(1) f s(1) z(1) xy(3) n(1) unfolding stifle_history_def n_def [symmetric]
      by (simp add: d(2) [symmetric] set_slot_append h'_def Let_def)
    moreover have keep: "kill xs (hi_store h) ! a = hi_store h ! a" if "a \<in> set ys" for a using that dis(3) by (intro kill_other) auto
    have ok: "\<forall>a \<in> set ys. a < length (hi_store h) \<and> (\<exists>e. kill xs (hi_store h) ! a = Some e \<and> entry_ok e)"
      using rep_store [OF r, unfolded xy(1)] keep by auto
    have r': "rep h' ys"
      using ok xy(3) n(1) dis(2) size d(3) [symmetric] z(2) by (simp add: rep_pointers h'_def h1_def)
    moreover have "hist_entries h' = drop d (hist_entries h)"
      using rep_entries [OF r'] rep_entries [OF r] xy(1,2) keep by (simp add: h'_def h1_def)
    then have v: "view h' = (view h)\<lparr>hv_entries := drop d (hist_entries h), hv_base := int d, hv_limit := Some n\<rparr>"
      by (simp add: view_def h'_def)
    have "spec_op c (Stifle m) (view h) = Some (view h')"
      using d(1) len(2) n v by (simp add: spec_op_def Let_def d_def)
    moreover have "history_comment_char h' = history_comment_char h" by (simp add: h'_def h1_def)
    ultimately show ?thesis by (simp only: gives_def option.inject) blast
  qed
qed

lemma unstifle_ok: "rep h as \<Longrightarrow> gives h (Some (snd (unstifle_history h))) (spec_op c Unstifle (view h))"
proof -
  assume r: "rep h as"
  then have r': "rep (h\<lparr>history_stifled := False\<rparr>) as" by (cases "the_history h") (auto simp: rep_pointers)
  show ?thesis
    using r r' rep_entries [OF r] rep_entries [OF r'] by (auto simp: gives_def unstifle_history_def spec_op_def view_def)
qed

section \<open>Refinement\<close>

lemma run_op_ok:
  assumes r: "rep h as"
  shows "gives h (run_op x h) (spec_op (history_comment_char h) x (view h))"
proof (cases x)
  case (Add t l)
  then show ?thesis using add_history_ok [OF r, of t l] by (auto simp: run_op_def spec_op_def gives_def)
qed (simp_all add: run_op_def stamp_ok [OF r] replace_ok [OF r] append_ok [OF r] data_ok [OF r] remove_ok [OF r]
    remove_range_ok [OF r] stifle_ok [OF r] unstifle_ok [OF r] clear_ok [OF r])

lemma run_ops_ok:
  "rep h as \<Longrightarrow> gives h (run_ops xs h) (spec_ops (history_comment_char h) xs (view h))"
proof (induction xs arbitrary: h as)
  case Nil
  then show ?case using gives_same by simp
next
  case (Cons x xs)
  show ?case
  proof (cases "spec_op (history_comment_char h) x (view h)")
    case None
    then show ?thesis by (simp add: gives_def)
  next
    case (Some v)
    then obtain h' as' where "run_op x h = Some h'" "rep h' as'" "history_comment_char h' = history_comment_char h" "view h' = v"
      using run_op_ok [OF Cons(2), of x] by (auto simp: gives_def)
    then show ?thesis using Some Cons(1) [of h' as'] by (simp add: gives_def)
  qed
qed

lemma start_rep: "rep (history_start c) []" "view (history_start c) = \<lparr>hv_entries = [], hv_base = 1, hv_limit = None\<rparr>"
  by (simp_all add: rep_def history_start_def view_def hist_entries_def listed_def)

text \<open>
  C15. The history list implements a bounded list. Whatever sequence of operations is run from the start of the shell, as long as
  lines are appended only to entries that exist, no operation touches memory outside the array, an unwritten slot or a freed entry; the
  array ends in \<^verbatim>\<open>NULL\<close> with room for it and its entries are distinct and alive; and the entries, the base of their numbers and the limit
  are those of the specification, in which a line entered at the limit drops the oldest one.
\<close>

theorem history_refines:
  assumes "spec_ops c xs \<lparr>hv_entries = [], hv_base = 1, hv_limit = None\<rparr> = Some v"
  shows "\<exists>h. run_ops xs (history_start c) = Some h \<and> hist_ok h \<and> view h = v"
  using run_ops_ok [OF start_rep(1) [of c], of xs] assms start_rep(2)
  by (auto simp: gives_def hist_ok_def history_start_def)

theorem history_refines_witness:
  "\<exists>h. run_ops [Stifle 1, Add 5 ''a'', Add 6 ''b'', Append 0 ''c''] (history_start CHR ''#'') = Some h \<and> hist_ok h
     \<and> view h = \<lparr>hv_entries = [\<lparr>he_line = Some (''b'' @ NEWLINE # ''c''), he_timestamp = Some (CHR ''#'' # uitos 6 @ [NUL]), he_data = None\<rparr>],
                 hv_base = 2, hv_limit = Some 1\<rparr>"
  by (rule history_refines) (simp add: spec_op_def add_spec_def fresh_def within_def Let_def in_int32_def)

section \<open>Numbers of entries\<close>

text \<open>The entry with number \<open>k\<close>.\<close>

definition entry_of :: "int \<Rightarrow> hist_view \<Rightarrow> HIST_ENTRY option" where
  "entry_of k v = (if within (k - hv_base v) (hv_entries v) then Some (hv_entries v ! nat (k - hv_base v)) else None)"

lemma history_get_rep:
  assumes r: "rep h as" and k: "in_int32 (k - history_base h)"
  shows "\<exists>p. history_get k h = Some p \<and> entry_at p h = entry_of k (view h)"
proof (cases "within (k - history_base h) (hist_entries h)")
  case True
  then have i: "0 \<le> k - history_base h" "nat (k - history_base h) < length as" using rep_length [OF r] by (auto simp: within_def)
  then have "the_history h \<noteq> None" "k - history_base h < history_length h" using rep_some [OF r] r by (fastforce, auto simp: rep_def)
  then show ?thesis using slot_at_rep [OF r i] entry_at_rep(1) [OF r i(2)] i(1) True
    by (auto simp: history_get_def Let_def entry_of_def wrap32_id [OF k])
next
  case False
  then have "history_get k h = Some None"
    using r rep_length [OF r] by (auto simp: history_get_def within_def rep_def Let_def wrap32_id [OF k])
  then show ?thesis using False by (simp add: entry_of_def entry_at_def)
qed

lemma spec_adds:
  assumes "hv_limit v = Some m" "0 < m" "int (length (hv_entries v)) \<le> m" "0 \<le> hv_base v"
    "hv_base v + int (length (hv_entries v) + length ls - nat m) \<le> INT_MAX"
  shows "spec_ops c (map (\<lambda>(t, l). Add t l) ls) v
    = Some (v\<lparr>hv_entries := drop (length (hv_entries v) + length ls - nat m) (hv_entries v @ map (\<lambda>(t, l). fresh c t l) ls),
             hv_base := hv_base v + int (length (hv_entries v) + length ls - nat m)\<rparr>)"
  using assms
proof (induction ls arbitrary: v)
  case (Cons x ls)
  obtain t l where x: "x = (t, l)" by (cases x)
  let ?es = "hv_entries v" and ?e = "fresh c t l"
  define d where "d = length ?es + 1 - nat m"
  define es where "es = drop d (?es @ [?e])"
  have le: "length es = length ?es + 1 - d" by (simp add: es_def)
  let ?v = "v\<lparr>hv_entries := es, hv_base := hv_base v + int d\<rparr>"
  have "in_int32 (hv_base v + int d)"
    using Cons(5,6) by (simp add: d_def in_int32_def INT_MAX_def)
  then have step: "spec_op c (Add t l) v = Some ?v" using Cons(2,3) by (auto simp: spec_op_def add_spec_def Let_def es_def d_def)
  have d1: "d \<le> 1" "int (length es) \<le> m" using Cons(3,4) le by (auto simp: d_def)
  have tot: "(length ?es + 1 - d) + length ls - nat m + d = length ?es + length (x # ls) - nat m"
    using Cons(3,4) by (cases "length ?es = nat m") (auto simp: d_def)
  have "drop ((length ?es + 1 - d) + length ls - nat m) (es @ map (\<lambda>(t, l). fresh c t l) ls)
    = drop (length ?es + length (x # ls) - nat m) (?es @ map (\<lambda>(t, l). fresh c t l) (x # ls))"
  proof -
    have "es @ map (\<lambda>(t, l). fresh c t l) ls = drop d (?es @ map (\<lambda>(t, l). fresh c t l) (x # ls))"
      unfolding es_def using d1(1) x by (cases "d = 0"; cases ?es) (auto simp: le_Suc_eq)
    then show ?thesis by (simp only: drop_drop tot)
  qed
  moreover have "spec_ops c (map (\<lambda>(t, l). Add t l) ls) ?v
    = Some (?v\<lparr>hv_entries := drop ((length ?es + 1 - d) + length ls - nat m) (es @ map (\<lambda>(t, l). fresh c t l) ls),
              hv_base := hv_base v + int d + int ((length ?es + 1 - d) + length ls - nat m)\<rparr>)"
  proof -
    have "hv_base v + int d + int (length ?es + 1 - d + length ls - nat m) \<le> INT_MAX"
      using Cons(6) unfolding tot [symmetric] by simp
    then show ?thesis using Cons(1) [of ?v] Cons(2,3,5) d1(2) le by simp
  qed
  moreover have "hv_base v + int d + int ((length ?es + 1 - d) + length ls - nat m) = hv_base v + int (length ?es + length (x # ls) - nat m)"
    unfolding tot [symmetric] by simp
  moreover have "spec_ops c (map (\<lambda>(t, l). Add t l) (x # ls)) v = spec_ops c (map (\<lambda>(t, l). Add t l) ls) ?v"
    using step x by simp
  ultimately show ?case by simp
qed simp

text \<open>
  C36. Numbers are stable. In a history limited to \<open>m\<close> lines, after the lines \<open>ls\<close> have been entered, the number \<open>k\<close> names the \<open>k\<close>-th line
  ever entered, with the time at which it was entered, if it is one of the last \<open>m\<close>, and no entry otherwise; the lookup by number never
  fails. Not more lines are entered than an \<^verbatim>\<open>int\<close> can count, with the room by which the array grows.
\<close>

theorem history_numbers_stable:
  assumes "0 < m" and "int (length ls) + DEFAULT_HISTORY_GROW_SIZE \<le> INT_MAX" and "0 \<le> k" and "k \<le> INT_MAX"
  shows "\<exists>h p. run_ops (Stifle m # map (\<lambda>(t, l). Add t l) ls) (history_start c) = Some h
    \<and> history_get k h = Some p
    \<and> entry_at p h = (if 1 \<le> k \<and> k \<le> int (length ls) \<and> int (length ls) < k + m
                      then Some (case ls ! nat (k - 1) of (t, l) \<Rightarrow> fresh c t l) else None)"
proof -
  let ?f = "\<lambda>(t, l). fresh c t l" and ?d = "length ls - nat m"
  define v where "v = \<lparr>hv_entries = drop ?d (map ?f ls), hv_base = 1 + int ?d, hv_limit = Some m\<rparr>"
  have c: "history_comment_char (history_start c) = c" by (simp add: history_start_def)
  have "spec_ops c (Stifle m # map (\<lambda>(t, l). Add t l) ls) (view (history_start c)) = Some v"
    using assms(1,2) spec_adds [of "\<lparr>hv_entries = [], hv_base = 1, hv_limit = Some m\<rparr>" m ls c]
    by (simp add: start_rep(2) spec_op_def v_def DEFAULT_HISTORY_GROW_SIZE_def)
  then obtain h as where h: "run_ops (Stifle m # map (\<lambda>(t, l). Add t l) ls) (history_start c) = Some h" "rep h as" "view h = v"
    using run_ops_ok [OF start_rep(1) [of c], of "Stifle m # map (\<lambda>(t, l). Add t l) ls"] unfolding gives_def c by blast
  have "entry_of k v = (if 1 \<le> k \<and> k \<le> int (length ls) \<and> int (length ls) < k + m then Some (?f (ls ! nat (k - 1))) else None)"
  proof -
    have w: "within (k - (1 + int ?d)) (drop ?d (map ?f ls)) \<longleftrightarrow> 1 \<le> k \<and> k \<le> int (length ls) \<and> int (length ls) < k + m"
      using assms by (auto simp: within_def nat_less_iff)
    have "drop ?d (map ?f ls) ! nat (k - (1 + int ?d)) = ?f (ls ! nat (k - 1))"
      if "1 \<le> k" "k \<le> int (length ls)" "int (length ls) < k + m"
    proof -
      have "?d + nat (k - (1 + int ?d)) = nat (k - 1)" "nat (k - 1) < length ls" using that assms by auto
      then show ?thesis by simp
    qed
    then show ?thesis unfolding entry_of_def v_def hist_view.simps w by (simp only: if_True if_False split: if_split) blast
  qed
  moreover have "in_int32 (k - history_base h)"
    using assms arg_cong [OF h(3), of hv_base] by (simp add: v_def in_int32_def INT_MAX_def DEFAULT_HISTORY_GROW_SIZE_def)
  ultimately show ?thesis using h history_get_rep [OF h(2)] by (metis (mono_tags, lifting))
qed

theorem history_numbers_stable_witness:
  "\<exists>h p. run_ops [Stifle 1, Add 5 ''a'', Add 6 ''b''] (history_start CHR ''#'') = Some h
     \<and> history_get 2 h = Some p \<and> entry_at p h = Some (fresh CHR ''#'' 6 ''b'')"
  using history_numbers_stable [of 1 "[(5, ''a''), (6, ''b'')]" 2 "CHR ''#''"]
  by (simp add: DEFAULT_HISTORY_GROW_SIZE_def INT_MAX_def)

section \<open>Searching\<close>

definition hist_lines :: "hist \<Rightarrow> cstring list" where
  "hist_lines h = map (\<lambda>e. the (he_line e)) (hist_entries h)"

text \<open>The string \<open>s\<close> stands at position \<open>k\<close> of \<open>l\<close>.\<close>

definition occurs :: "cstring \<Rightarrow> cstring \<Rightarrow> nat \<Rightarrow> bool" where
  "occurs s l k \<longleftrightarrow> k + length s \<le> length l \<and> take (length s) (drop k l) = s"

lemma find_map: "find P (map f xs) = map_option f (find (\<lambda>x. P (f x)) xs)"
  by (induction xs) auto

lemma find_upt: "find P [a..<b] = Some k \<longleftrightarrow> a \<le> k \<and> k < b \<and> P k \<and> (\<forall>j. a \<le> j \<and> j < k \<longrightarrow> \<not> P j)"
proof (induction "b - a" arbitrary: a)
  case (Suc n)
  then have "[a..<b] = a # [Suc a..<b]" "n = b - Suc a" by (simp_all add: upt_conv_Cons)
  moreover have "(\<forall>j. a \<le> j \<and> j < k \<longrightarrow> \<not> P j) \<longleftrightarrow> (a < k \<longrightarrow> \<not> P a) \<and> (\<forall>j. Suc a \<le> j \<and> j < k \<longrightarrow> \<not> P j)"
    by (metis Suc_leD Suc_leI le_neq_implies_less order.refl)
  moreover have "a \<le> k \<longleftrightarrow> a = k \<or> Suc a \<le> k" by auto
  ultimately show ?case using Suc(1) [of "Suc a"] Suc(2) by (cases "P a") auto
qed auto

lemma find_rev_upt: "find P (rev [0..<b]) = Some k \<longleftrightarrow> k < b \<and> P k \<and> (\<forall>j. k < j \<and> j < b \<longrightarrow> \<not> P j)"
proof (induction b)
  case (Suc b)
  then show ?case by (auto simp: less_Suc_eq)
qed simp

lemma search_loop_rep:
  assumes r: "rep h as"
  shows "\<forall>i \<in> set is. i < length as \<Longrightarrow> search_loop f (map int is) h
    = Some (case find (\<lambda>i. f (hist_lines h ! i) \<noteq> None) is of
              None \<Rightarrow> (- 1, h) | Some i \<Rightarrow> (int (the (f (hist_lines h ! i))), h\<lparr>history_offset := int i\<rparr>))"
proof (induction "is")
  case (Cons i "is")
  then have i: "i < length as" by simp
  obtain l where l: "he_line (hist_entries h ! i) = Some l" "hist_lines h ! i = l"
    using entry_at_rep(2) [OF r i] rep_length [OF r] i by (auto simp: entry_ok_def hist_lines_def)
  show ?case using Cons slot_at_rep [OF r, of "int i"] entry_at_rep(1) [OF r i] i l
    by (cases "f l") simp_all
qed simp

text \<open>Searching a line finds the last or the first occurrence.\<close>

lemma search_line_plain:
  assumes "s \<noteq> []"
  shows "search_line fnmatch False False reverse s l = None \<longleftrightarrow> (\<forall>k. \<not> occurs s l k)"
    "search_line fnmatch False False reverse s l = Some k \<Longrightarrow>
      occurs s l k \<and> (\<forall>j. occurs s l j \<longrightarrow> (if reverse then j \<le> k else k \<le> j))"
proof -
  have o: "occurs s l k \<longleftrightarrow> k < length l + 1 - length s \<and> take (length s) (drop k l) = s" for k
    using assms by (cases s) (auto simp: occurs_def)
  have n: "search_line fnmatch False False reverse s l
      = (if reverse then find (occurs s l) (rev [0..<length l + 1 - length s]) else find (occurs s l) [0..<length l + 1 - length s])"
  proof -
    have "find P xs = find Q xs" if "\<forall>k \<in> set xs. P k = Q k" for P Q and xs :: "nat list" using that by (induction xs) auto
    then show ?thesis by (auto simp: search_line_def match_here_def o Let_def Suc_diff_le)
  qed
  show "search_line fnmatch False False reverse s l = None \<longleftrightarrow> (\<forall>k. \<not> occurs s l k)"
    using o by (auto simp: n find_None_iff)
  show "occurs s l k \<and> (\<forall>j. occurs s l j \<longrightarrow> (if reverse then j \<le> k else k \<le> j))"
    if "search_line fnmatch False False reverse s l = Some k"
    using that o unfolding n by (auto simp: find_upt find_rev_upt not_less [symmetric] split: if_splits)
qed

definition in_reach :: "int \<Rightarrow> hist \<Rightarrow> nat set" where
  "in_reach d h = {i. int i < history_length h \<and> (if d < 0 then int i \<le> history_offset h else history_offset h \<le> int i)}"

lemma search_internal_rep:
  assumes r: "rep h as" and s: "s \<noteq> []" and off: "0 \<le> history_offset h" "history_offset h \<le> history_length h"
    and f: "f = search_line fnmatch False False (d < 0) s"
  shows "\<exists>is. set is = in_reach d h \<and> (is = rev [0..<length is] \<or> \<not> d < 0) \<and> (\<exists>a b. is = [a..<b] \<or> d < 0)
    \<and> history_search fnmatch (Some s) d h
      = Some (case find (\<lambda>i. f (hist_lines h ! i) \<noteq> None) is of
              None \<Rightarrow> (- 1, h) | Some i \<Rightarrow> (int (the (f (hist_lines h ! i))), h\<lparr>history_offset := int i\<rparr>))"
proof -
  have len: "history_length h = int (length as)" using r by (simp add: rep_def)
  define k where "k = nat (history_offset h)"
  have k: "history_offset h = int k" "k \<le> length as" using off len by (auto simp: k_def)
  define "is" where "is = (if d < 0 then rev [0..<min (k + 1) (length as)] else [k..<length as])"
  have st: "set is = in_reach d h" using k len by (auto simp: is_def in_reach_def)
  have fl: "has_flag NON_ANCHORED_SEARCH ANCHORED_SEARCH = False" "has_flag NON_ANCHORED_SEARCH PATTERN_SEARCH = False"
    by (simp_all add: has_flag_def NON_ANCHORED_SEARCH_def)
  have up: "[int k..int (length as) - 1] = map int [k..<length as]" "[0..int (length as) - 1] = map int [0..<length as]"
    "[0..int k] = map int [0..<k + 1]"
    using upto_upt [of k "length as"] upto_upt [of 0 "length as"] upto_upt [of 0 "k + 1"] by simp_all
  have "history_search fnmatch (Some s) d h = search_loop f (map int is) h"
    using s len k up by (auto simp: history_search_def history_search_internal_def fl f Let_def is_def rev_map min_def)
  moreover have "\<forall>i \<in> set is. i < length as" by (auto simp: is_def)
  ultimately show ?thesis using search_loop_rep [OF r, of "is" f] st by (intro exI [of _ "is"]) (auto simp: is_def)
qed

lemma find_nearest:
  assumes "is = rev [0..<length is] \<or> \<not> d < (0 :: int)" "\<exists>a b. is = [a..<b] \<or> d < 0" "find P is = Some i"
  shows "i \<in> set is \<and> P i \<and> (\<forall>j \<in> set is. P j \<longrightarrow> (if d < 0 then j \<le> i else i \<le> j))"
proof (cases "d < 0")
  case True
  then obtain n where "is = rev [0..<n]" using assms(1) by blast
  then show ?thesis using assms(3) True by (auto simp: find_rev_upt not_less [symmetric])
next
  case False
  then obtain a b where "is = [a..<b]" using assms(2) by blast
  then show ?thesis using assms(3) False by (auto simp: find_upt not_less [symmetric])
qed

text \<open>
  C16. A search through the history from a position in the list finds the nearest line that contains the string, at or before the
  position when it goes backward and at or after it otherwise, makes this line the current one and returns where the string stands in it: the
  last occurrence backward, the first one forward. When no line in reach contains the string it returns \<open>-1\<close> and changes nothing.
\<close>

theorem history_search_nearest:
  assumes "hist_ok h" "s \<noteq> []" "0 \<le> history_offset h" "history_offset h \<le> history_length h"
  shows "\<exists>r h'. history_search fnmatch (Some s) d h = Some (r, h')
    \<and> (if \<exists>i \<in> in_reach d h. \<exists>k. occurs s (hist_lines h ! i) k
       then \<exists>i \<in> in_reach d h. h' = h\<lparr>history_offset := int i\<rparr> \<and> 0 \<le> r \<and> occurs s (hist_lines h ! i) (nat r)
              \<and> (\<forall>j \<in> in_reach d h. (\<exists>k. occurs s (hist_lines h ! j) k) \<longrightarrow> (if d < 0 then j \<le> i else i \<le> j))
              \<and> (\<forall>k. occurs s (hist_lines h ! i) k \<longrightarrow> (if d < 0 then k \<le> nat r else nat r \<le> k))
       else r = - 1 \<and> h' = h)"
proof -
  define f where "f = search_line fnmatch False False (d < 0) s"
  obtain as where "rep h as" using assms(1) by (auto simp: hist_ok_def)
  from search_internal_rep [OF this assms(2-4) f_def] obtain "is" where i: "set is = in_reach d h"
    "is = rev [0..<length is] \<or> \<not> d < 0" "\<exists>a b. is = [a..<b] \<or> d < 0" and run: "history_search fnmatch (Some s) d h
      = Some (case find (\<lambda>i. f (hist_lines h ! i) \<noteq> None) is of
              None \<Rightarrow> (- 1, h) | Some i \<Rightarrow> (int (the (f (hist_lines h ! i))), h\<lparr>history_offset := int i\<rparr>))" by blast
  have none: "f l \<noteq> None \<longleftrightarrow> (\<exists>k. occurs s l k)" for l using search_line_plain(1) [OF assms(2)] by (auto simp: f_def)
  show ?thesis
  proof (cases "find (\<lambda>i. f (hist_lines h ! i) \<noteq> None) is")
    case None
    then have "\<not> (\<exists>i \<in> in_reach d h. \<exists>k. occurs s (hist_lines h ! i) k)" using i(1) none unfolding find_None_iff by blast
    then show ?thesis using run None by simp
  next
    case (Some n)
    from find_nearest [OF i(2,3) this] obtain k where n: "n \<in> in_reach d h" "f (hist_lines h ! n) = Some k"
      "\<forall>j \<in> in_reach d h. (\<exists>k. occurs s (hist_lines h ! j) k) \<longrightarrow> (if d < 0 then j \<le> n else n \<le> j)"
      unfolding i(1) none [symmetric] by blast
    from search_line_plain(2) [OF assms(2) n(2) [unfolded f_def]]
    have k: "occurs s (hist_lines h ! n) k" "\<forall>j. occurs s (hist_lines h ! n) j \<longrightarrow> (if d < 0 then j \<le> k else k \<le> j)" by simp_all
    have "history_search fnmatch (Some s) d h = Some (int k, h\<lparr>history_offset := int n\<rparr>)" using run Some n(2) by simp
    moreover have e: "\<exists>i \<in> in_reach d h. \<exists>k. occurs s (hist_lines h ! i) k" using n(1) k(1) by blast
    ultimately show ?thesis unfolding if_P [OF e] using n(1,3) k
      by (intro exI [of _ "int k"] exI [of _ "h\<lparr>history_offset := int n\<rparr>"] conjI bexI [of _ n]) simp_all
  qed
qed

text \<open>A history of three lines, positioned behind the last one.\<close>

definition three_lines :: hist where
  "three_lines = using_history (the (run_ops [Stifle 5, Add 1 ''cd src'', Add 2 ''make'', Add 3 ''ls src''] (history_start CHR ''#'')))"

lemma three_lines_facts:
  "hist_ok three_lines" "0 \<le> history_offset three_lines" "history_offset three_lines \<le> history_length three_lines"
  "in_reach (- 1) three_lines = {i. i < 3}"
  "hist_lines three_lines = [''cd src'', ''make'', ''ls src'']"
proof -
  let ?xs = "[Stifle 5, Add 1 ''cd src'', Add 2 ''make'', Add 3 ''ls src'']" and ?s = "history_start CHR ''#''"
  have c: "history_comment_char ?s = CHR ''#''" by (simp add: history_start_def)
  obtain h as where h: "run_ops ?xs ?s = Some h" "rep h as"
    "view h = \<lparr>hv_entries = [fresh CHR ''#'' 1 ''cd src'', fresh CHR ''#'' 2 ''make'', fresh CHR ''#'' 3 ''ls src''], hv_base = 1, hv_limit = Some 5\<rparr>"
    using run_ops_ok [OF start_rep(1) [of "CHR ''#''"], of ?xs] unfolding c
    by (auto simp: gives_def start_rep(2) spec_op_def add_spec_def Let_def)
  have t: "three_lines = using_history h" by (simp only: three_lines_def h(1) option.sel)
  have e: "hist_entries h = [fresh CHR ''#'' 1 ''cd src'', fresh CHR ''#'' 2 ''make'', fresh CHR ''#'' 3 ''ls src'']"
    using arg_cong [OF h(3), of hv_entries] by simp
  have r: "rep three_lines as" using h(2) by (cases "the_history h") (auto simp: t using_history_def rep_pointers)
  have "length as = 3" using rep_length [OF h(2)] e by simp
  then have l: "history_length three_lines = 3" "history_offset three_lines = 3" using h(2) by (simp_all add: t using_history_def rep_def)
  show "hist_ok three_lines" using r by (auto simp: hist_ok_def)
  show "0 \<le> history_offset three_lines" "history_offset three_lines \<le> history_length three_lines" using l by simp_all
  show "in_reach (- 1) three_lines = {i. i < 3}" using l by (auto simp: in_reach_def)
  have "hist_entries three_lines = hist_entries h" using rep_entries [OF r] rep_entries [OF h(2)] by (simp add: t using_history_def)
  then show "hist_lines three_lines = [''cd src'', ''make'', ''ls src'']" using e by (simp add: hist_lines_def fresh_def)
qed

theorem history_search_nearest_witness:
  "\<exists>r h'. history_search (\<lambda>p l. 1) (Some ''src'') (- 1) three_lines = Some (r, h') \<and> r = 3 \<and> history_offset h' = 2"
proof -
  let ?P = "\<lambda>i k. occurs ''src'' ([''cd src'', ''make'', ''ls src''] ! i) k"
  have 2: "?P 2 3" by (simp add: occurs_def)
  have k: "?P 2 k \<Longrightarrow> k \<le> 3" for k by (simp add: occurs_def)
  from history_search_nearest [OF three_lines_facts(1) _ three_lines_facts(2,3), of "''src''" "\<lambda>p l. 1" "- 1"]
  obtain r h' where run: "history_search (\<lambda>p l. 1) (Some ''src'') (- 1) three_lines = Some (r, h')" and
    res: "if \<exists>i \<in> {i. i < 3}. \<exists>k. ?P i k
      then \<exists>i \<in> {i. i < 3}. h' = three_lines\<lparr>history_offset := int i\<rparr> \<and> 0 \<le> r \<and> ?P i (nat r)
        \<and> (\<forall>j \<in> {i. i < 3}. (\<exists>k. ?P j k) \<longrightarrow> (if - 1 < (0 :: int) then j \<le> i else i \<le> j))
        \<and> (\<forall>k. ?P i k \<longrightarrow> (if - 1 < (0 :: int) then k \<le> nat r else nat r \<le> k))
      else r = - 1 \<and> h' = three_lines"
    unfolding three_lines_facts(4,5) by blast
  have e: "\<exists>i \<in> {i. i < 3}. \<exists>k. ?P i k" using 2 by (intro bexI [of _ 2] exI [of _ 3]) simp_all
  obtain i where i: "i < 3" "h' = three_lines\<lparr>history_offset := int i\<rparr>" "0 \<le> r" "?P i (nat r)"
    "\<forall>j \<in> {i. i < 3}. (\<exists>k. ?P j k) \<longrightarrow> (if - 1 < (0 :: int) then j \<le> i else i \<le> j)"
    "\<forall>k. ?P i k \<longrightarrow> (if - 1 < (0 :: int) then k \<le> nat r else nat r \<le> k)"
    using res unfolding if_P [OF e] by blast
  have "2 \<le> i" using bspec [OF i(5), of 2] 2 by auto
  then have "i = 2" using i(1) by simp
  moreover have "nat r = 3" using i(4) spec [OF i(6), of 3] 2 k [of "nat r"] calculation by simp
  ultimately show ?thesis using run i(2,3) by (simp add: nat_eq_iff2)
qed

section \<open>Deviations\<close>

text \<open>The line with a number, and the history after two lines.\<close>

definition line_number :: "int \<Rightarrow> hist \<Rightarrow> cstring option" where
  "line_number k h = history_get k h \<bind> (\<lambda>p. entry_at p h \<bind> he_line)"

definition two_lines :: "char \<Rightarrow> hist" where
  "two_lines c = \<lparr>hi_store = [Some (fresh c 7 ''make''), Some (fresh c 8 ''ls'')],
     the_history = Some [Slot (Some 0), Slot (Some 1), Slot None, Unwritten], history_stifled = True, history_size = 4,
     history_max_entries = 2, max_input_history = 2, history_offset = 0, history_length = 2, history_base = 1, history_comment_char = c\<rparr>"

lemma two_lines_run: "run_ops [Stifle 2, Add 7 ''make'', Add 8 ''ls''] (history_start c) = Some (two_lines c)"
  by (simp add: run_op_def stifle_history_def add_history_def history_start_def make_room_def initial_size_def
    MAX_HISTORY_INITIAL_SIZE_def put_entry_def alloc_history_entry_def set_slot_def hist_inittime_def fresh_def two_lines_def numeral_eq_Suc
    Let_def)

lemmas hist_eval = wrap32_def stifle_history_def history_set_pos_def line_number_def history_get_def current_history_def slot_at_def entry_at_def
  set_slot_def free_history_entry_def two_lines_def fresh_def Let_def upto_rec1

lemma stifle_renumbers:
  "line_number 2 (two_lines c) = Some ''ls''" "stifle_history 1 (two_lines c) \<bind> line_number 1 = Some ''ls''"
  by (simp_all add: hist_eval)

lemma stale_position:
  "stifle_history 0 (snd (history_set_pos 1 (two_lines c))) \<bind>
     (\<lambda>h. current_history h \<bind> (\<lambda>p. Some (p \<noteq> None, entry_at p h))) = Some (True, None)"
  by (simp add: hist_eval)

text \<open>\<^verbatim>\<open>fnmatch\<close> on the words that the searches below try.\<close>

definition fnmatch_make :: "cstring \<Rightarrow> cstring \<Rightarrow> int" where
  "fnmatch_make p l = (if p = ''*make*'' \<and> l = ''make'' then 0 else 1)"

lemma forward_pattern_missed:
  "map_option fst (hs_history_patsearch fnmatch_make ''make'' 1 0 (two_lines CHR ''#'')) = Some (- 1)"
  "map_option fst (hs_history_patsearch fnmatch_make ''make'' (- 1) 0 (two_lines CHR ''#'')) = Some 0"
  by (simp_all add: hist_eval hs_history_patsearch_def history_search_internal_def search_line_def match_here_def fnmatch_make_def
      has_flag_def ANCHORED_SEARCH_def PATTERN_SEARCH_def numeral_eq_Suc upt_rec)

lemma timestamp_overread:
  "replace_history_entry 0 ''b'' None (two_lines NUL) \<bind> (\<lambda>(p, h). Some (history_get_time (Some 2) h)) = Some None"
  by (simp add: hist_eval replace_history_entry_def alloc_history_entry_def set_entry_def history_get_time_def savestring_buf_def numeral_eq_Suc)

text \<open>
  Four deviations. Limiting a history of two lines to one gives its last line the number 1 instead of 2. After a limit has dropped the entry
  at the current position, the current entry is one that has been freed. A line that a search with a pattern
  finds backward is not found forward, because the forward search compares the length of the line with that of the pattern. Without a
  comment character the time of a replaced entry is read outside its time stamp.
\<close>

theorem history_deviations:
  "run_ops [Stifle 2, Add 7 ''make'', Add 8 ''ls''] (history_start c) = Some (two_lines c)
   \<and> (line_number 2 (two_lines c) = Some ''ls'' \<and> stifle_history 1 (two_lines c) \<bind> line_number 1 = Some ''ls'')
   \<and> stifle_history 0 (snd (history_set_pos 1 (two_lines c))) \<bind>
       (\<lambda>h. current_history h \<bind> (\<lambda>p. Some (p \<noteq> None, entry_at p h))) = Some (True, None)
   \<and> (map_option fst (hs_history_patsearch fnmatch_make ''make'' 1 0 (two_lines CHR ''#'')) = Some (- 1)
     \<and> map_option fst (hs_history_patsearch fnmatch_make ''make'' (- 1) 0 (two_lines CHR ''#'')) = Some 0)
   \<and> replace_history_entry 0 ''b'' None (two_lines NUL) \<bind> (\<lambda>(p, h). Some (history_get_time (Some 2) h)) = Some None"
  using two_lines_run stifle_renumbers stale_position forward_pattern_missed timestamp_overread by blast

end
