(* ===== verification/Spec2Isabelle.thy ===== *)
theory Spec2Isabelle
  imports Hashlib Array Assoc Alias Hashcmd Shquote Subst_Quote Itos Words Expr_Correct Patsub_Correct
    Braces_Correct Cond Split_Correct Scope_Calls Lookup_Live Scope_Deviations History_Correct
begin

text \<open>
  \<^bold>\<open>A verification library for the C code of QuackOS: the data structures and string engines of its shell.\<close>

  QuackOS is a microkernel written in Rust (\<^verbatim>\<open>src/os\<close>) that runs a user-space shell. The C code of the
  repository is that shell, bash 5.2 (\<^verbatim>\<open>src/user/bash-5.2\<close>), and this development models its core
  components function by function and proves what makes each of them correct. File names below are
  relative to \<^verbatim>\<open>src/user/bash-5.2\<close>.

  \<^bold>\<open>Conventions.\<close> A C string is the list of its bytes without the terminator; \<open>char_at s i\<close> reads
  \<^verbatim>\<open>s[i]\<close>, terminator included. A pointer that may be \<^verbatim>\<open>NULL\<close> is an option. A pointer into a structure that
  code writes through is a position (the bucket and place of a hash item, the position of an array
  element). Where the code would follow a \<^verbatim>\<open>NULL\<close> pointer the model returns \<open>None\<close>. State is passed
  explicitly: the globals of a file are a record. Loops are recursive functions with their termination
  proved. The arithmetic evaluator, whose functions call each other through the text
  of variables, is a partial function that is proved to return. The pattern matcher, whose functions call each
  other on parts of the string and the pattern, bounds the depth of calls by the lengths of both; this is
  enough because every nested call and every round of its loop makes progress in the string or in the pattern, and
  \<open>strmatch_meaning\<close> proves that a result is always reached. The loop over the alternatives of an extended
  pattern is bounded by the length of the pattern, which has more characters than alternatives. \<^verbatim>\<open>unsigned int\<close> is a 32-bit word, \<^verbatim>\<open>uintmax_t\<close> a 64-bit word; signed
  integers are \<^typ>\<open>int\<close> with two's complement reduction (\<open>wrap32\<close>, \<open>wrap64\<close>) where a result may leave the
  range. \<^verbatim>\<open>xmalloc\<close> does not fail (it exits the shell) and freeing leaves no trace. The configuration is
  the single-byte one, without multibyte characters, in the C locale, and \<^verbatim>\<open>char\<close> is unsigned as on
  AArch64.

  \<^bold>\<open>The theories\<close>, in the order of the code's dependencies.

  \<^item> \<open>Bash_Prelude\<close>: character classes (\<^verbatim>\<open>include/chartypes.h\<close>), fixed-width arithmetic, list lemmas, and the
    interfaces: \<open>keyed_store\<close> (a container with an invariant and an abstraction to a map),
    \<open>fetching_store\<close> (reads may change the representation), \<open>counted_store\<close> and \<open>listed_store\<close> (it
    counts and enumerates its keys). The containers below are proved to implement them and inherit
    their lemmas.
  \<^item> \<open>Hashlib\<close> (\<^verbatim>\<open>hashlib.c\<close>): tables, search with creation, insertion, removal, growth and rehashing,
    copying, walking. Well-formedness (each item in the bucket of its hash, no key twice, exact count) is
    kept by every operation, each operation has its effect on the abstract map, the hash function is
    FNV-1, and the load factor stays bounded.
  \<^item> \<open>Shquote\<close> (\<^verbatim>\<open>lib/sh/shquote.c\<close>, \<^verbatim>\<open>lib/sh/strtrans.c\<close>, quote removal of \<^verbatim>\<open>subst.c\<close>): every way of quoting a
    string is undone by quote removal or by \<^verbatim>\<open>ansicstr\<close>, and the buffers suffice, but for one, for strings of which four times the length fits an \<^verbatim>\<open>int\<close>.
  \<^item> \<open>Words\<close> (\<^verbatim>\<open>make_cmd.c\<close>, \<^verbatim>\<open>list.c\<close>): words, word lists and generic lists.
  \<^item> \<open>Subst_Quote\<close> (\<^verbatim>\<open>subst.c\<close>): the internal quoting with \<^verbatim>\<open>CTLESC\<close> and \<^verbatim>\<open>CTLNUL\<close>, the \<^verbatim>\<open>IFS\<close> variables, and the
    joining of positional parameters; round trips and the meaning of \<^verbatim>\<open>"$*"\<close>.
  \<^item> \<open>Split\<close> (\<^verbatim>\<open>subst.c\<close>): word splitting under \<^verbatim>\<open>IFS\<close> and the extraction of a field for \<^verbatim>\<open>read\<close>. \<open>Split_Correct\<close> shows that the
    fields are those that the manual defines, for every \<^verbatim>\<open>IFS\<close> whose white space is space, tab and newline, and that the two functions agree.
  \<^item> \<open>Itos\<close> (\<^verbatim>\<open>lib/sh/fmtulong.c\<close>, \<^verbatim>\<open>lib/sh/itos.c\<close>): printing of 64-bit integers in every base, into a buffer of a given size.
  \<^item> \<open>General\<close> (\<^verbatim>\<open>general.c\<close>, \<^verbatim>\<open>stringlib.c\<close>): reading of decimal numbers and the tests on names and strings that
    several components share.
  \<^item> \<open>Braces\<close> (\<^verbatim>\<open>braces.c\<close>): brace expansion. The scan for balanced braces, the parts between commas,
    sequences of numbers and letters, and the combination with the text around them. \<open>Braces_Correct\<close> gives words
    with braces as trees and shows that the expansion of their text is what they mean, as long as the number and the lengths of the words fit an \<^verbatim>\<open>int\<close>.
  \<^item> \<open>Array\<close> (\<^verbatim>\<open>array.c\<close>): indexed arrays as a sorted ring with a roving pointer. The searches in both
    directions are proved equal to operations on a sorted association list; the roving pointer never
    reaches the head; shifts, slices, subranges and conversions.
  \<^item> \<open>Assoc\<close> (\<^verbatim>\<open>assoc.c\<close>): associative arrays over \<open>Hashlib\<close>, with the conversions shared with \<open>Array\<close>.
  \<^item> \<open>Alias\<close> (\<^verbatim>\<open>alias.c\<close>): the alias table over \<open>Hashlib\<close>, the sorted listing, and the expansion of a line.
  \<^item> \<open>Hashcmd\<close> (\<^verbatim>\<open>hashcmd.c\<close>): the table of command locations over \<open>Hashlib\<close>.
  \<^item> \<open>Expr\<close> (\<^verbatim>\<open>expr.c\<close>): arithmetic evaluation. The tokenizer, the precedence levels from \<^verbatim>\<open>expcomma\<close> to
    \<^verbatim>\<open>exp0\<close>, assignments, increments, the evaluation of the text that a variable holds, the stack of contexts
    and the unwinding after an error; the static variables of the file are a record.
  \<^item> \<open>Expr_Safety\<close>: evaluation always ends, its value is a 64-bit integer, and while evaluation is suppressed
    no variable changes. \<open>Expr_Num\<close>: exponentiation, and numbers printed in any base are read back.
  \<^item> \<open>Expr_Tokens\<close> and \<open>Expr_Correct\<close>: the evaluator refines a semantics of syntax trees; evaluating the
    text of a tree gives its value, its error and its assignments.
  \<^item> \<open>Smatch\<close> (\<^verbatim>\<open>lib/glob/smatch.c\<close>, \<^verbatim>\<open>lib/glob/sm_loop.c\<close>): pattern matching as the shell compiles it for
    single-byte characters; string and pattern are buffers, pointers are positions, and a read outside a buffer is
    the outcome \<open>None\<close>. \<open>Smatch_Pattern\<close> gives patterns as trees, their text and the relation on positions that
    they mean. \<open>Smatch_Bracket\<close>, \<open>Smatch_Scan\<close> and \<open>Smatch_Correct\<close> show that the matcher decides this meaning, by
    parts: bracket expressions, the scanning of alternatives, the collapsing of wildcards, the search after
    a star without backtracking, and extended patterns.
  \<^item> \<open>Patsub\<close> (\<^verbatim>\<open>subst.c\<close>, \<^verbatim>\<open>lib/glob/gm_loop.c\<close>, \<^verbatim>\<open>stringlib.c\<close>, \<^verbatim>\<open>pathexp.c\<close>): removing a matching prefix or suffix,
    finding a match and replacing it, over the matcher. \<open>Patsub_Correct\<close> shows that removal cuts the shortest or longest
    matching prefix or suffix, that the search finds the leftmost and longest match in spite of its shortcuts, that
    substitution replaces what it should, and that quoting makes a pattern literal.

  \<^item> \<open>Test_Cmd\<close> (\<^verbatim>\<open>test.c\<close>, \<^verbatim>\<open>lib/sh/eaccess.c\<close>, \<^verbatim>\<open>execute_cond_node\<close> of \<^verbatim>\<open>execute_cmd.c\<close>): the \<^verbatim>\<open>test\<close> command with its
    recursive parser, its rules for few arguments and its tests, and the evaluation of \<^verbatim>\<open>[[\<close>. \<open>Test_Correct\<close> shows that the
    command evaluates the expression its arguments spell, and that on all arguments it stays inside the vector and ends with a
    status; \<open>Cond\<close> that \<^verbatim>\<open>[[\<close> matches patterns and never uses the exit of \<^verbatim>\<open>test\<close>.

  \<^item> \<open>Casemod\<close> (\<^verbatim>\<open>lib/sh/casemod.c\<close>): changing the case of the characters that match a pattern; exactly those that the operation
    selects change.
  \<^item> \<open>Shell_State\<close> (\<^verbatim>\<open>variables.h\<close>, globals of \<^verbatim>\<open>variables.c\<close>): the store of shell variables. Variables and their hash tables are
    shared through pointers, so they live in an explicit store; a function of the code is a command that returns, leaves for the top
    level (\<^verbatim>\<open>jump_to_top_level (DISCARD)\<close>) or has no defined behaviour.
  \<^item> \<open>Variables\<close> (\<^verbatim>\<open>variables.c\<close>, conversions of \<^verbatim>\<open>arrayfunc.c\<close>): lookup through the scopes, name references, assignment with attributes, local
    variables, functions, unsetting. \<open>Scopes\<close>: lists of variables, the temporary environment of a command, the contexts of functions and
    builtins, positional parameters. \<open>Export\<close>: assignments before a command and the environment that commands receive.
  \<^item> \<open>Variables_Inv\<close>: a calculus of assertions that commands keep, the locale \<open>kept_by_assignment\<close> with the lookups and assignments, and
    that readonly variables survive assignments if the hooks keep them. \<open>Scopes_Inv\<close>: the invariant of the store and that every operation of the component keeps it, as
    a step relation.
  \<^item> \<open>Scope_Env\<close>: the meaning of names. The stack of contexts is abstracted to an environment from names to variables; lookup computes it, the list of
    all variables enumerates it, and an assignment changes it at one name only and is read back, or is refused by a readonly variable without any effect. \<open>Scope_Calls\<close>: what a function does
    to its local variables is gone when it returns. \<open>Lookup_Live\<close>: lookups return also on cycles of references. \<open>Scope_Deviations\<close>: runs
    that deviate from the comments, one of them a crash.

  \<^item> \<open>History\<close> (\<^verbatim>\<open>lib/readline/history.c\<close>, \<^verbatim>\<open>lib/readline/histsearch.c\<close>): the history list, an array of pointers with spare slots over an explicit
    store of entries, and the searches in it. \<open>History_Correct\<close> shows that it implements a bounded list without memory errors, that numbers of
    lines are stable while an \<^verbatim>\<open>int\<close> can count them, that a search finds the nearest line, and where the code deviates.

  \<^bold>\<open>Interfaces.\<close> \<open>arr\<close> and \<open>ars\<close> interpret \<open>listed_store\<close> and \<open>fetching_store\<close> for indexed arrays, \<open>asc\<close> and
  \<open>ass\<close> for associative arrays, \<open>ali\<close> \<open>fetching_store\<close> for aliases, \<open>phs\<close> \<open>keyed_store\<close> for hashed
  commands. \<open>ro\<close> and \<open>ok\<close> interpret \<open>kept_by_assignment\<close> for the assertion on readonly variables and for the
  invariant of the store.

  \<^bold>\<open>Parameters.\<close> \<open>executable_file\<close> and \<open>same_file\<close> in \<open>Hashcmd\<close> stand for file-system queries;
  \<open>pat_subst\<close> and \<open>sh_modcase\<close> in \<open>Array\<close> and \<open>Assoc\<close> for the word-by-word transformations those
  functions call; \<open>ecs\<close> in \<open>Braces\<close> for the parser's scan over a command substitution; \<open>var_ops\<close> in \<open>Expr\<close> for the lookup and the binding of shell variables, which return (the expansion of a
  subscript may run commands and evaluate expressions of its own, whose end is not a matter of this code); the
  fields of \<open>test_env\<close> in \<open>Test_Cmd\<close> for system calls, shell options and variables, word expansion and regular expressions. The fields of
  \<open>hooks\<close> in \<open>Variables\<close> stand for the functions outside the component that run on variables: the values of dynamic variables, assignment
  functions, arithmetic, assignment to array elements, special variables other than \<^verbatim>\<open>IFS\<close>, word expansion; what a
  theorem relies on is that they keep the assertion in question (\<open>hooks_keep\<close>). \<open>fnmatch\<close> in \<open>History\<close> is the function of the C library
  that pattern searches call. The C library's
  \<^verbatim>\<open>qsort\<close> and \<^verbatim>\<open>strcmp\<close> are modelled in \<open>Bash_Prelude\<close>.

  \<^bold>\<open>Not modelled:\<close> input/output, processes and signals; the parser and the engine of word expansion; multibyte characters; debugging
  output; disposal of memory (a variable that is disposed of stays in the store, so a use after it is not seen; the entries of the history are
  the exception, their release is modelled); the Rust code. Of \<^verbatim>\<open>variables.c\<close>: the start-up of the shell, the functions behind dynamic and special
  variables, the tracing of assignments, the functions only the debugger uses, and the branches of code that is compiled out
  (\<^verbatim>\<open>ARRAY_EXPORT\<close>); \<^verbatim>\<open>delete_all_contexts\<close> is given the whole stack, as its caller does, and functions nest less than \<open>2\<^sup>3\<^sup>1\<close> deep.
\<close>

end
